(* ===== verification/Prelude.thy ===== *)
theory Prelude
  imports Main "HOL-Library.Word" "HOL-Library.Monad_Syntax"
begin

text \<open>
  The vocabulary every component shares: machine words, Go slices with their run-time bounds
  checks, the big- and little-endian readers of \<open>encoding/binary\<close>, and slices whose
  spare capacity is reused (\<open>slab\<close>).

  A Go run-time panic (index or slice bounds out of range) is the value \<^const>\<open>None\<close> of
  \<open>'a run\<close>, so a model that returns \<^const>\<open>Some\<close> on every input never panics. A pointer
  that may be nil is an \<open>'a ptr\<close>.
\<close>

unbundle bit_operations_syntax

type_synonym u8 = "8 word"
type_synonym u16 = "16 word"
type_synonym u32 = "32 word"
type_synonym u64 = "64 word"
type_synonym bytes = "u8 list"
type_synonym 'a run = "'a option"
type_synonym 'a ptr = "'a option"

named_theorems wp \<open>rewrite rules that turn "this code runs without panic and ensures P" into conditions on its inputs\<close>

section \<open>Indexing and slicing\<close>

text \<open>
  \<open>b[i]\<close> and \<open>b[i:j]\<close>. Go checks the upper bound of a slice expression against the
  capacity; the model checks it against the length, which panics at least as often and also
  rules out reading bytes beyond the slice.
\<close>

definition idx :: "'a list \<Rightarrow> nat \<Rightarrow> 'a run" where
  "idx xs i = (if i < length xs then Some (xs ! i) else None)"

definition gslice :: "'a list \<Rightarrow> nat \<Rightarrow> nat \<Rightarrow> 'a list run" where
  "gslice xs i j = (if i \<le> j \<and> j \<le> length xs then Some (take (j - i) (drop i xs)) else None)"

definition gslice_from :: "'a list \<Rightarrow> nat \<Rightarrow> 'a list run" where
  "gslice_from xs i = gslice xs i (length xs)"

definition upd :: "'a list \<Rightarrow> nat \<Rightarrow> 'a \<Rightarrow> 'a list run" where
  "upd xs i x = (if i < length xs then Some (xs[i := x]) else None)"

lemma idx_Some [simp]: "i < length xs \<Longrightarrow> idx xs i = Some (xs ! i)"
  by (simp add: idx_def)

lemma idx_None_iff [simp]: "idx xs i = None \<longleftrightarrow> length xs \<le> i"
  by (simp add: idx_def)

lemma idx_eq_Some_iff: "idx xs i = Some x \<longleftrightarrow> i < length xs \<and> x = xs ! i"
  by (auto simp: idx_def)

lemma gslice_Some [simp]:
  "i \<le> j \<Longrightarrow> j \<le> length xs \<Longrightarrow> gslice xs i j = Some (take (j - i) (drop i xs))"
  by (simp add: gslice_def)

lemma gslice_eq_Some_iff:
  "gslice xs i j = Some ys \<longleftrightarrow> i \<le> j \<and> j \<le> length xs \<and> ys = take (j - i) (drop i xs)"
  by (auto simp: gslice_def)

lemma gslice_length: "gslice xs i j = Some ys \<Longrightarrow> length ys = j - i"
  by (auto simp: gslice_eq_Some_iff)

lemma gslice_from_Some [simp]:
  "i \<le> length xs \<Longrightarrow> gslice_from xs i = Some (drop i xs)"
  by (simp add: gslice_from_def)

lemma gslice_from_eq_Some_iff: "gslice_from xs i = Some ys \<longleftrightarrow> i \<le> length xs \<and> ys = drop i xs"
  by (auto simp: gslice_from_def gslice_eq_Some_iff)

lemma gslice_append_middle [simp]:
  "gslice (pre @ mid @ post) (length pre) (length pre + length mid) = Some mid"
  by (simp add: gslice_def)

lemma upd_Some [simp]: "i < length xs \<Longrightarrow> upd xs i x = Some (xs[i := x])"
  by (simp add: upd_def)

lemma upd_length: "upd xs i x = Some ys \<Longrightarrow> length ys = length xs"
  by (auto simp: upd_def split: if_splits)

section \<open>Byte order\<close>

definition word16 :: "u8 \<Rightarrow> u8 \<Rightarrow> u16" where
  "word16 hi lo = ucast lo OR push_bit 8 (ucast hi)"

definition word32 :: "u8 \<Rightarrow> u8 \<Rightarrow> u8 \<Rightarrow> u8 \<Rightarrow> u32" where
  "word32 a b c d = ucast d OR push_bit 8 (ucast c) OR push_bit 16 (ucast b) OR push_bit 24 (ucast a)"

definition be16 :: "bytes \<Rightarrow> u16 run" where
  "be16 b = do { lo \<leftarrow> idx b 1; hi \<leftarrow> idx b 0; Some (word16 hi lo) }"

definition be32 :: "bytes \<Rightarrow> u32 run" where
  "be32 b = do { x3 \<leftarrow> idx b 3; x2 \<leftarrow> idx b 2; x1 \<leftarrow> idx b 1; x0 \<leftarrow> idx b 0; Some (word32 x0 x1 x2 x3) }"

definition le32 :: "bytes \<Rightarrow> u32 run" where
  "le32 b = do { x3 \<leftarrow> idx b 3; x2 \<leftarrow> idx b 2; x1 \<leftarrow> idx b 1; x0 \<leftarrow> idx b 0; Some (word32 x3 x2 x1 x0) }"

lemma be16_Some [simp]: "2 \<le> length b \<Longrightarrow> be16 b = Some (word16 (b ! 0) (b ! 1))"
  by (auto simp: be16_def idx_def)

lemma be32_Some [simp]:
  "4 \<le> length b \<Longrightarrow> be32 b = Some (word32 (b ! 0) (b ! 1) (b ! 2) (b ! 3))"
  by (auto simp: be32_def idx_def)

lemma le32_Some [simp]:
  "4 \<le> length b \<Longrightarrow> le32 b = Some (word32 (b ! 3) (b ! 2) (b ! 1) (b ! 0))"
  by (auto simp: le32_def idx_def)

lemma be16_Cons [simp]: "be16 (hi # lo # r) = Some (word16 hi lo)"
  by (simp add: be16_def)

lemma uint_or_disjoint:
  fixes a b :: "'a::len word"
  assumes "a AND b = 0"
  shows "a OR b = a + b"
  using assms by (simp add: disjunctive_add_eq_or)

text \<open>The high byte of a 16-bit field is its quotient by 256, the low byte its remainder.\<close>

lemma unat_u8_less [simp]: "unat (w :: u8) < 256"
  using unsigned_less [of w] by simp

lemma unat_u16_less [simp]: "unat (w :: u16) < 65536"
  using unsigned_less [of w] by simp

lemma unat_ucast_u16 [simp]: "unat (ucast (w :: u8) :: u16) = unat w"
  using unat_u8_less [of w] by (simp add: unsigned_ucast_eq take_bit_nat_eq_self del: unat_u8_less)

lemma unat_word16: "unat (word16 hi lo) = 256 * unat hi + unat lo"
proof -
  have "(ucast lo :: u16) AND push_bit 8 (ucast hi) = 0"
    by (rule bit_word_eqI) (auto simp: bit_simps dest: bit_imp_le_length)
  then have eq: "word16 hi lo = ucast lo + 256 * ucast hi"
    by (simp add: word16_def uint_or_disjoint push_bit_eq_mult)
  have hi: "unat (256 * ucast hi :: u16) = 256 * unat hi"
    using unat_mult_lem [of "256 :: u16" "ucast hi"] by simp
  have "unat lo + 256 * unat hi < 65536"
    using unat_u8_less [of hi] unat_u8_less [of lo] by linarith
  then have "unat (ucast lo + 256 * ucast hi :: u16) = unat lo + 256 * unat hi"
    using hi unat_add_lem [of "ucast lo :: u16" "256 * ucast hi"] by simp
  then show ?thesis by (simp add: eq)
qed

text \<open>\<open>binary.BigEndian.PutUint16\<close>, the inverse the tests use to build packets.\<close>

definition put16 :: "u16 \<Rightarrow> bytes" where
  "put16 w = [ucast (drop_bit 8 w), ucast w]"

lemma length_put16 [simp]: "length (put16 w) = 2"
  by (simp add: put16_def)

lemma word16_put16 [simp]: "word16 (ucast (drop_bit 8 w)) (ucast w) = w"
  by (rule bit_word_eqI) (auto simp: word16_def bit_simps dest: bit_imp_le_length)

lemma be16_put16 [simp]: "be16 (put16 w) = Some w"
  by (simp add: put16_def)

lemma nth_put16 [simp]: "put16 w ! 0 = ucast (drop_bit 8 w)" "put16 w ! Suc 0 = ucast w"
  by (simp_all add: put16_def)

lemma put16_word16: "put16 (word16 a b) = [a, b]"
proof -
  have "ucast (drop_bit 8 (word16 a b)) = a" "ucast (word16 a b) = b"
    by (rule bit_word_eqI; auto simp: word16_def bit_simps dest: bit_imp_le_length)+
  then show ?thesis by (simp add: put16_def)
qed

definition put32 :: "u32 \<Rightarrow> bytes" where
  "put32 w = [ucast (drop_bit 24 w), ucast (drop_bit 16 w), ucast (drop_bit 8 w), ucast w]"

lemma word32_put32 [simp]:
  "word32 (ucast (drop_bit 24 w)) (ucast (drop_bit 16 w)) (ucast (drop_bit 8 w)) (ucast w) = w"
proof (rule bit_word_eqI)
  fix n
  assume "n < LENGTH(32)"
  then consider "n < 8" | "8 \<le> n" "n < 16" | "16 \<le> n" "n < 24" | "24 \<le> n" "n < 32" by fastforce
  then show "bit (word32 (ucast (drop_bit 24 w)) (ucast (drop_bit 16 w)) (ucast (drop_bit 8 w)) (ucast w)) n = bit w n"
    by cases (auto simp: word32_def bit_simps)
qed

lemma be32_put32 [simp]: "be32 (put32 w) = Some w"
  by (simp add: put32_def)

lemma length_put32 [simp]: "length (put32 w) = 4"
  by (simp add: put32_def)

lemma unat_of_nat_u8 [simp]: "n < 256 \<Longrightarrow> unat (of_nat n :: u8) = n"
  by (simp add: unsigned_of_nat take_bit_nat_eq_self)

lemma unat_of_nat_u16 [simp]: "n < 65536 \<Longrightarrow> unat (of_nat n :: u16) = n"
  by (simp add: unsigned_of_nat take_bit_nat_eq_self)

lemma unat_of_nat_u32 [simp]: "n < 4294967296 \<Longrightarrow> unat (of_nat n :: u32) = n"
  by (simp add: unsigned_of_nat take_bit_nat_eq_self)

section \<open>Running without a panic\<close>

text \<open>
  \<open>runs m P\<close>: the computation \<open>m\<close> does not panic and its result satisfies \<open>P\<close>. The rules of
  the collection \<open>wp\<close> push \<open>runs\<close> through a block of code and leave the bounds checks it makes.
\<close>

definition runs :: "'a run \<Rightarrow> ('a \<Rightarrow> bool) \<Rightarrow> bool" where
  "runs m P = (case m of None \<Rightarrow> False | Some x \<Rightarrow> P x)"

lemma runs_Some [wp]: "runs (Some x) P = P x"
  and runs_None [wp]: "runs None P = False"
  by (simp_all add: runs_def)

lemma runs_bind [wp]: "runs (Option.bind m f) P = runs m (\<lambda>x. runs (f x) P)"
  by (cases m) (simp_all add: runs_def)

lemma runs_if [wp]: "runs (if c then m else n) P = ((c \<longrightarrow> runs m P) \<and> (\<not> c \<longrightarrow> runs n P))"
  by simp

lemma runs_let [wp]: "runs (Let x f) P = (let y = x in runs (f y) P)"
  by simp

lemma runs_case_prod [wp]: "runs (case p of (a, b) \<Rightarrow> f a b) P = (case p of (a, b) \<Rightarrow> runs (f a b) P)"
  by (cases p) simp

lemma runs_case_sum [wp]:
  "runs (case r of Inl a \<Rightarrow> f a | Inr b \<Rightarrow> g b) P =
     (case r of Inl a \<Rightarrow> runs (f a) P | Inr b \<Rightarrow> runs (g b) P)"
  by (cases r) simp_all

lemma runs_case_option [wp]:
  "runs (case r of None \<Rightarrow> f | Some b \<Rightarrow> g b) P =
     (case r of None \<Rightarrow> runs f P | Some b \<Rightarrow> runs (g b) P)"
  by (cases r) simp_all

lemma runs_idx [wp]: "runs (idx xs i) P = (i < length xs \<and> P (xs ! i))"
  by (simp add: runs_def idx_def)

lemma runs_gslice [wp]:
  "runs (gslice xs i j) P = (i \<le> j \<and> j \<le> length xs \<and> P (take (j - i) (drop i xs)))"
  by (auto simp: runs_def gslice_def)

lemma runs_gslice_from [wp]: "runs (gslice_from xs i) P = (i \<le> length xs \<and> P (drop i xs))"
  by (simp add: gslice_from_def runs_gslice)

lemma runs_upd [wp]: "runs (upd xs i x) P = (i < length xs \<and> P (xs[i := x]))"
  by (simp add: runs_def upd_def)

lemma runs_be16 [wp]: "runs (be16 b) P = (2 \<le> length b \<and> P (word16 (b ! 0) (b ! 1)))"
  by (auto simp: be16_def runs_def idx_def bind_eq_Some_conv split: option.splits)

lemma runs_be32 [wp]:
  "runs (be32 b) P = (4 \<le> length b \<and> P (word32 (b ! 0) (b ! 1) (b ! 2) (b ! 3)))"
  by (auto simp: be32_def runs_def idx_def bind_eq_Some_conv split: option.splits)

lemma runs_le32 [wp]:
  "runs (le32 b) P = (4 \<le> length b \<and> P (word32 (b ! 3) (b ! 2) (b ! 1) (b ! 0)))"
  by (auto simp: le32_def runs_def idx_def bind_eq_Some_conv split: option.splits)

lemma runs_mono: "runs m P \<Longrightarrow> (\<And>x. P x \<Longrightarrow> Q x) \<Longrightarrow> runs m Q"
  by (cases m) (auto simp: runs_def)

lemma runs_conj: "runs m P \<Longrightarrow> runs m Q \<Longrightarrow> runs m (\<lambda>x. P x \<and> Q x)"
  by (cases m) (auto simp: runs_def)

lemma runs_not_None: "runs m P \<Longrightarrow> m \<noteq> None"
  by (cases m) (auto simp: runs_def)

lemma runs_exD: "runs m P \<Longrightarrow> \<exists>x. m = Some x \<and> P x"
  by (cases m) (auto simp: runs_def)

lemma runs_SomeD: "runs m P \<Longrightarrow> m = Some x \<Longrightarrow> P x"
  by (simp add: runs_def)

section \<open>Slices with reusable capacity\<close>

text \<open>
  The decoders and the fused model keep slices whose elements survive truncation: after
  \<open>xs = xs[:0]\<close>, the statement \<open>xs = xs[:len(xs)+1]\<close> exposes the old element again. A
  \<open>slab\<close> is such a slice: \<open>live\<close> is what \<open>len\<close> counts and \<open>spare\<close> is what lies
  between length and capacity. Capacity that \<open>append\<close> adds beyond what has been written
  holds zero values and is left out: growing into it and appending a zero value give the
  same slice.
\<close>

record 'a slab =
  live :: "'a list"
  spare :: "'a list"

definition slab_empty :: "'a slab" where
  "slab_empty = \<lparr>live = [], spare = []\<rparr>"

definition slab_of :: "'a list \<Rightarrow> 'a slab" where
  "slab_of xs = \<lparr>live = xs, spare = []\<rparr>"

text \<open>\<open>for i := range s { trunc(&s[i]) }; s = s[:0]\<close>\<close>

definition slab_reset :: "('a \<Rightarrow> 'a) \<Rightarrow> 'a slab \<Rightarrow> 'a slab" where
  "slab_reset trunc s = \<lparr>live = [], spare = map trunc (live s) @ spare s\<rparr>"

text \<open>\<open>i := len(s); if i < cap(s) { s = s[:i+1] } else { s = append(s, zero) }\<close>\<close>

definition slab_grow :: "'a \<Rightarrow> 'a slab \<Rightarrow> 'a slab" where
  "slab_grow zero s =
     (case spare s of
        [] \<Rightarrow> s\<lparr>live := live s @ [zero]\<rparr>
      | x # xs \<Rightarrow> \<lparr>live = live s @ [x], spare = xs\<rparr>)"

text \<open>\<open>s = s[:n]\<close> with \<open>n <= len(s)\<close>\<close>

definition slab_truncate :: "nat \<Rightarrow> 'a slab \<Rightarrow> 'a slab" where
  "slab_truncate n s = \<lparr>live = take n (live s), spare = drop n (live s) @ spare s\<rparr>"

text \<open>\<open>f(&s[i])\<close>\<close>

definition slab_modify :: "nat \<Rightarrow> ('a \<Rightarrow> 'a) \<Rightarrow> 'a slab \<Rightarrow> 'a slab run" where
  "slab_modify i f s =
     (if i < length (live s) then Some (s\<lparr>live := (live s)[i := f (live s ! i)]\<rparr>) else None)"

lemma live_slab_reset [simp]: "live (slab_reset f s) = []"
  by (simp add: slab_reset_def)

lemma length_live_grow [simp]: "length (live (slab_grow z s)) = Suc (length (live s))"
  by (simp add: slab_grow_def split: list.splits)

lemma slab_modify_Some [simp]:
  "i < length (live s) \<Longrightarrow>
   slab_modify i f s = Some (s\<lparr>live := (live s)[i := f (live s ! i)]\<rparr>)"
  by (simp add: slab_modify_def)

lemma runs_slab_modify [wp]:
  "runs (slab_modify i f s) P =
     (i < length (live s) \<and> P (s\<lparr>live := (live s)[i := f (live s ! i)]\<rparr>))"
  by (simp add: runs_def slab_modify_def)

lemma slab_modify_eq_Some_iff:
  "slab_modify i f s = Some t \<longleftrightarrow>
     i < length (live s) \<and> t = s\<lparr>live := (live s)[i := f (live s ! i)]\<rparr>"
  by (auto simp: slab_modify_def)

lemma live_slab_truncate [simp]: "live (slab_truncate n s) = take n (live s)"
  by (simp add: slab_truncate_def)

text \<open>
  Growing a slab and then overwriting the new element in full gives the same live elements
  whatever the spare capacity held: the law the reusable decoders rely on.
\<close>

lemma slab_grow_overwrite:
  assumes "\<And>x y. f x = f y"
  shows "\<exists>t. slab_modify (length (live s)) f (slab_grow z s) = Some t \<and> live t = live s @ [f z]"
proof (cases "spare s")
  case Nil
  then show ?thesis by (simp add: slab_grow_def)
next
  case (Cons x xs)
  then show ?thesis using assms [of x z] by (simp add: slab_grow_def)
qed

section \<open>Lists and options\<close>

lemma bind_eq_Some_conv':
  "Option.bind m f = Some y \<longleftrightarrow> (\<exists>x. m = Some x \<and> f x = Some y)"
  by (cases m) auto

lemma bind_not_None_iff: "Option.bind m f \<noteq> None \<longleftrightarrow> (\<exists>x. m = Some x \<and> f x \<noteq> None)"
  by (cases m) auto

lemma drop_length_append [simp]: "drop (length pre + n) (pre @ xs) = drop n xs"
  by simp

lemma nth_length_append [simp]: "(pre @ xs) ! (length pre + n) = xs ! n"
  by (simp add: nth_append)

end
