(* ===== verification/Protocol.thy ===== *)
theory Protocol
  imports Prelude
begin

text \<open>
  The model of \<open>pkg/omnidiscover/protocol.go\<close>: protocol identifiers and protocol sets, and
  the structured status every decoder returns instead of an error. \<open>Protocol\<close> and
  \<open>ProtocolSet\<close> are \<open>uint8\<close> in the code and stay 8-bit words, because callers may hold
  values outside the declared constants.
\<close>

section \<open>Protocols and protocol sets\<close>

type_synonym Protocol = u8
type_synonym ProtocolSet = u8

definition ProtocolUnknown :: Protocol where "ProtocolUnknown = 0"
definition ProtocolLLDP :: Protocol where "ProtocolLLDP = 1"
definition ProtocolCDP :: Protocol where "ProtocolCDP = 2"
definition ProtocolMNDP :: Protocol where "ProtocolMNDP = 3"
definition ProtocolMDNS :: Protocol where "ProtocolMDNS = 4"

lemmas protocol_defs =
  ProtocolUnknown_def ProtocolLLDP_def ProtocolCDP_def ProtocolMNDP_def ProtocolMDNS_def

definition Protocol_String :: "Protocol \<Rightarrow> string" where
  "Protocol_String p =
     (if p = ProtocolLLDP then ''lldp''
      else if p = ProtocolCDP then ''cdp''
      else if p = ProtocolMNDP then ''mndp''
      else if p = ProtocolMDNS then ''mdns''
      else ''unknown'')"

definition ProtocolsLLDP :: ProtocolSet where "ProtocolsLLDP = 1"
definition ProtocolsCDP :: ProtocolSet where "ProtocolsCDP = 2"
definition ProtocolsMNDP :: ProtocolSet where "ProtocolsMNDP = 4"
definition ProtocolsMDNS :: ProtocolSet where "ProtocolsMDNS = 8"
definition ProtocolsAll :: ProtocolSet where
  "ProtocolsAll = ProtocolsLLDP OR ProtocolsCDP OR ProtocolsMNDP OR ProtocolsMDNS"

lemmas protocol_set_defs =
  ProtocolsLLDP_def ProtocolsCDP_def ProtocolsMNDP_def ProtocolsMDNS_def

lemma ProtocolsAll_eq: "ProtocolsAll = 15"
  by (simp add: ProtocolsAll_def protocol_set_defs)

definition Set :: "Protocol \<Rightarrow> ProtocolSet" where
  "Set p = (if p < ProtocolLLDP \<or> p > ProtocolMDNS then 0 else push_bit (unat (p - 1)) 1)"

definition Has :: "ProtocolSet \<Rightarrow> Protocol \<Rightarrow> bool" where
  "Has s p = (s AND Set p \<noteq> 0)"

lemma Set_simps [simp]:
  "Set ProtocolLLDP = ProtocolsLLDP" "Set ProtocolCDP = ProtocolsCDP"
  "Set ProtocolMNDP = ProtocolsMNDP" "Set ProtocolMDNS = ProtocolsMDNS"
  "Set ProtocolUnknown = 0"
  by (simp_all add: Set_def protocol_defs protocol_set_defs)

text \<open>The protocols that have a name, in the order the code iterates over them.\<close>

definition known_protocols :: "Protocol list" where
  "known_protocols = [ProtocolLLDP, ProtocolCDP, ProtocolMNDP, ProtocolMDNS]"

lemma protocol_cases:
  obtains "p = ProtocolLLDP" | "p = ProtocolCDP" | "p = ProtocolMNDP" | "p = ProtocolMDNS"
  | "p = 0" | "p > ProtocolMDNS"
proof -
  have "unat p = 0 \<or> unat p = 1 \<or> unat p = 2 \<or> unat p = 3 \<or> unat p = 4 \<or> 4 < unat p"
    by arith
  then show ?thesis
    using that by (auto simp: protocol_defs word_unat_eq_iff word_less_nat_alt)
qed

lemma known_protocols_iff: "p \<in> set known_protocols \<longleftrightarrow> ProtocolLLDP \<le> p \<and> p \<le> ProtocolMDNS"
  by (cases p rule: protocol_cases) (auto simp: known_protocols_def protocol_defs)

lemma Set_unknown: "p \<notin> set known_protocols \<Longrightarrow> Set p = 0"
  by (auto simp: known_protocols_iff Set_def not_le)

section \<open>Decode severities, ordered as the constants are\<close>

datatype DecodeSeverity = DecodeClean | DecodeIgnored | DecodePartial | DecodeFatal

fun severity_rank :: "DecodeSeverity \<Rightarrow> nat" where
  "severity_rank DecodeClean = 0"
| "severity_rank DecodeIgnored = 1"
| "severity_rank DecodePartial = 2"
| "severity_rank DecodeFatal = 3"

lemma severity_rank_inj [simp]: "severity_rank a = severity_rank b \<longleftrightarrow> a = b"
  by (cases a; cases b) auto

instantiation DecodeSeverity :: linorder
begin
definition less_eq_DecodeSeverity :: "DecodeSeverity \<Rightarrow> DecodeSeverity \<Rightarrow> bool" where
  "less_eq_DecodeSeverity a b = (severity_rank a \<le> severity_rank b)"
definition less_DecodeSeverity :: "DecodeSeverity \<Rightarrow> DecodeSeverity \<Rightarrow> bool" where
  "less_DecodeSeverity a b = (severity_rank a < severity_rank b)"
instance
  by standard (auto simp: less_eq_DecodeSeverity_def less_DecodeSeverity_def
    simp flip: severity_rank_inj)
end

lemmas severity_less_defs = less_DecodeSeverity_def less_eq_DecodeSeverity_def

lemma severity_order [simp]:
  "DecodeClean < DecodePartial" "DecodeClean < DecodeFatal" "DecodePartial < DecodeFatal"
  "DecodeClean < DecodeIgnored" "\<not> DecodeFatal < s" "DecodeClean \<le> s" "s \<le> DecodeFatal"
  "\<not> s < DecodeClean"
  by (cases s; simp add: severity_less_defs)+

datatype DecodeIssue =
  IssueNone | IssueNilDestination | IssueTooShort | IssueTooLarge | IssueWrongProtocol
| IssueTooManyVLANTags | IssueTruncatedTLV | IssueInvalidTLVLength | IssueInvalidMandatoryOrder
| IssueDuplicateTLV | IssueMissingEnd | IssueInvalidHeader | IssueInvalidChecksum
| IssueCompressionLoop | IssueTooManyLabels | IssueFragmented | IssueUnsupported | IssueNotResponse

record DecodeStatus =
  Severity :: DecodeSeverity
  Code :: DecodeIssue
  Offset :: nat
  TLVType :: u16
  IssueCount :: u16

text \<open>\<open>var st DecodeStatus\<close>\<close>

definition clean_status :: DecodeStatus where
  "clean_status = \<lparr>Severity = DecodeClean, Code = IssueNone, Offset = 0, TLVType = 0, IssueCount = 0\<rparr>"

definition Clean :: "DecodeStatus \<Rightarrow> bool" where
  "Clean s = (Severity s = DecodeClean)"

definition Ignored :: "DecodeStatus \<Rightarrow> bool" where
  "Ignored s = (Severity s = DecodeIgnored)"

definition Usable :: "DecodeStatus \<Rightarrow> bool" where
  "Usable s = (Severity s = DecodeClean \<or> Severity s = DecodePartial)"

definition addIssue ::
  "DecodeStatus \<Rightarrow> DecodeSeverity \<Rightarrow> DecodeIssue \<Rightarrow> nat \<Rightarrow> u16 \<Rightarrow> DecodeStatus" where
  "addIssue s severity code off typ =
     (let s = (if IssueCount s \<noteq> NOT 0 then s\<lparr>IssueCount := IssueCount s + 1\<rparr> else s)
      in if severity > Severity s \<or> Code s = IssueNone
         then s\<lparr>Severity := severity, Code := code, Offset := off, TLVType := typ\<rparr>
         else s)"

lemma Severity_clean_status [simp]: "Severity clean_status = DecodeClean"
  and Code_clean_status [simp]: "Code clean_status = IssueNone"
  by (simp_all add: clean_status_def)

lemma Severity_addIssue:
  "Severity (addIssue s sev c off t) =
     (if sev > Severity s \<or> Code s = IssueNone then sev else Severity s)"
  by (simp add: addIssue_def Let_def)

lemma Code_addIssue:
  "Code (addIssue s sev c off t) = (if sev > Severity s \<or> Code s = IssueNone then c else Code s)"
  by (simp add: addIssue_def Let_def)

lemma Fatal_addIssue [simp]:
  "Severity (addIssue s DecodeFatal c off t) = DecodeFatal"
  by (cases "Severity s") (auto simp: Severity_addIssue severity_less_defs)

lemma not_Usable_Fatal [simp]: "\<not> Usable (addIssue s DecodeFatal c off t)"
  by (simp add: Usable_def)

lemma Usable_clean_status [simp]: "Usable clean_status"
  by (simp add: Usable_def)

text \<open>
  An issue of severity \<open>DecodePartial\<close> keeps a usable status usable: decoders may continue.
\<close>

lemma Usable_addIssue_Partial [simp]:
  "Usable s \<Longrightarrow> Usable (addIssue s DecodePartial c off t)"
  by (auto simp: Usable_def Severity_addIssue)

section \<open>What a status reports after several issues\<close>

type_synonym issue = "DecodeSeverity \<times> DecodeIssue \<times> nat \<times> u16"

definition addIssues :: "DecodeStatus \<Rightarrow> issue list \<Rightarrow> DecodeStatus" where
  "addIssues s xs = foldl (\<lambda>s (sev, c, off, t). addIssue s sev c off t) s xs"

definition worst :: "issue list \<Rightarrow> DecodeSeverity" where
  "worst xs = Max (fst ` set xs)"

definition first_worst :: "issue list \<Rightarrow> issue" where
  "first_worst xs = hd (filter (\<lambda>x. fst x = worst xs) xs)"

lemma addIssues_snoc:
  "addIssues s (xs @ [x]) = (case x of (sev, c, off, t) \<Rightarrow> addIssue (addIssues s xs) sev c off t)"
  by (simp add: addIssues_def split: prod.splits)

lemma worst_snoc: "xs \<noteq> [] \<Longrightarrow> worst (xs @ [x]) = max (fst x) (worst xs)"
  by (simp add: worst_def)

lemma worst_in: "xs \<noteq> [] \<Longrightarrow> \<exists>x \<in> set xs. fst x = worst xs"
proof -
  assume "xs \<noteq> []"
  then have "worst xs \<in> fst ` set xs"
    unfolding worst_def by (intro Max_in) auto
  then show ?thesis by (metis imageE)
qed

lemma worst_ge: "x \<in> set xs \<Longrightarrow> fst x \<le> worst xs"
  by (simp add: worst_def)

lemma first_worst_snoc:
  assumes "xs \<noteq> []"
  shows "first_worst (xs @ [x]) = (if worst xs < fst x then x else first_worst xs)"
proof (cases "worst xs < fst x")
  case True
  then have "filter (\<lambda>y. fst y = fst x) xs = []"
    using worst_ge [of _ xs] by (auto simp: filter_empty_conv not_le [symmetric])
  with True show ?thesis
    using assms by (simp add: first_worst_def worst_snoc max_absorb1)
next
  case False
  then have m: "max (fst x) (worst xs) = worst xs" by (simp add: max_absorb2)
  obtain y where "y \<in> set xs" "fst y = worst xs" using worst_in [OF assms] by blast
  then have "filter (\<lambda>y. fst y = worst xs) xs \<noteq> []" by (auto simp: filter_empty_conv)
  with False show ?thesis
    using assms by (simp add: first_worst_def worst_snoc m hd_append)
qed

lemma IssueCount_addIssue:
  "unat (IssueCount (addIssue s sev c off t)) = min (Suc (unat (IssueCount s))) 65535"
proof (cases "IssueCount s = NOT 0")
  case True
  then show ?thesis by (simp add: addIssue_def Let_def unsigned_minus_1_eq_mask mask_eq_exp_minus_1)
next
  case False
  have "unat (IssueCount s) \<noteq> unat (NOT 0 :: u16)"
    using False by (simp only: word_unat_eq_iff [symmetric] simp_thms)
  then have "unat (IssueCount s) < 65535"
    using unat_u16_less [of "IssueCount s"]
    by (simp add: unsigned_minus_1_eq_mask mask_eq_exp_minus_1 del: unat_u16_less)
  moreover from this have "unat (IssueCount s + 1) = Suc (unat (IssueCount s))"
    using unat_add_lem [of "IssueCount s" 1] by simp
  ultimately show ?thesis using False by (simp add: addIssue_def Let_def)
qed

text \<open>
  The status a decoder returns after any number of issues is the contract stated beside
  \<open>DecodeStatus\<close>: its severity is the greatest one reported, its code, offset and TLV type are
  those of the first issue at that severity, and its count is the number of issues, saturating at
  65535.
\<close>

lemma addIssues_first_worst:
  assumes "xs \<noteq> []" and "\<forall>(sev, c, off, t) \<in> set xs. c \<noteq> IssueNone"
  shows "let s = addIssues clean_status xs in
           (Severity s, Code s, Offset s, TLVType s) = first_worst xs \<and>
           Severity s = worst xs \<and>
           unat (IssueCount s) = min (length xs) 65535"
  using assms
proof (induction xs rule: rev_nonempty_induct)
  case (single x)
  obtain sev c off t where x: "x = (sev, c, off, t)" by (cases x)
  show ?case
    by (simp add: x addIssues_def addIssue_def clean_status_def first_worst_def worst_def Let_def)
next
  case (snoc x xs)
  obtain sev c off t where x: "x = (sev, c, off, t)" by (cases x)
  let ?s = "addIssues clean_status xs"
  from snoc have IH: "(Severity ?s, Code ?s, Offset ?s, TLVType ?s) = first_worst xs"
      "Severity ?s = worst xs" "unat (IssueCount ?s) = min (length xs) 65535"
    by (auto simp: Let_def)
  have "first_worst xs \<in> set xs"
    using worst_in [OF snoc.hyps(1)] unfolding first_worst_def
    by (metis (mono_tags, lifting) filter_empty_conv filter_is_subset hd_in_set subsetD)
  then have "fst (snd (first_worst xs)) \<noteq> IssueNone" using snoc.prems by (auto simp: split_beta)
  then have "Code ?s \<noteq> IssueNone" unfolding IH(1) [symmetric] by simp
  moreover have "addIssues clean_status (xs @ [x]) = addIssue ?s sev c off t"
    by (simp add: addIssues_snoc x)
  moreover have "unat (IssueCount (addIssue ?s sev c off t)) = min (Suc (length xs)) 65535"
    by (simp add: IssueCount_addIssue IH(3))
  ultimately show ?case
    using IH snoc.hyps(1)
    by (auto simp: x first_worst_snoc worst_snoc Let_def addIssue_def max_def
        simp del: IssueCount_addIssue)
qed

end
