(* ===== verification/NetAddr.thy ===== *)
theory NetAddr
  imports Prelude
begin

text \<open>
  What the program uses of the Go standard library for time and addresses, and the \<open>MAC\<close>
  type of \<open>model.go\<close>.

  \<open>time.Time\<close> is the number of nanoseconds since Go's zero time, so \<open>IsZero\<close> is equality with
  0 and \<open>Before\<close>, \<open>After\<close> and \<open>Equal\<close> are the order of the integers. \<open>time.Duration\<close> is a signed
  64-bit count of nanoseconds; \<open>Time.Sub\<close> saturates at its bounds. \<open>netip.Addr\<close> is absent, an
  IPv4 address of four bytes, or an IPv6 address of sixteen bytes with a zone.
\<close>

section \<open>Time\<close>

type_synonym Time = int
type_synonym Duration = int

definition max_int64 :: int where "max_int64 = 9223372036854775807"
definition min_int64 :: int where "min_int64 = - 9223372036854775808"

definition Second :: Duration where "Second = 1000000000"

definition wrap64 :: "int \<Rightarrow> int" where
  "wrap64 n = (n + 9223372036854775808) mod 18446744073709551616 - 9223372036854775808"

definition Time_Sub :: "Time \<Rightarrow> Time \<Rightarrow> Duration" where
  "Time_Sub t u = max min_int64 (min max_int64 (t - u))"

lemma wrap64_id [simp]: "min_int64 \<le> n \<Longrightarrow> n \<le> max_int64 \<Longrightarrow> wrap64 n = n"
  by (simp add: wrap64_def min_int64_def max_int64_def)

lemma wrap64_range: "min_int64 \<le> wrap64 n \<and> wrap64 n \<le> max_int64"
  by (simp add: wrap64_def min_int64_def max_int64_def)

section \<open>MAC addresses\<close>

datatype MAC = MAC u8 u8 u8 u8 u8 u8

definition zero_mac :: MAC where "zero_mac = MAC 0 0 0 0 0 0"

fun mac_bytes :: "MAC \<Rightarrow> bytes" where
  "mac_bytes (MAC a b c d e f) = [a, b, c, d, e, f]"

lemma length_mac_bytes [simp]: "length (mac_bytes m) = 6"
  by (cases m) simp

text \<open>\<open>copy(mac[:], b)\<close> into an address: the first six bytes of \<open>b\<close>, the rest kept.\<close>

definition copy_mac :: "MAC \<Rightarrow> bytes \<Rightarrow> MAC" where
  "copy_mac m b =
     (let x = take 6 b @ drop (length (take 6 b)) (mac_bytes m)
      in MAC (x ! 0) (x ! 1) (x ! 2) (x ! 3) (x ! 4) (x ! 5))"

lemma copy_mac_mac_bytes [simp]: "copy_mac m (mac_bytes n) = n"
  by (cases n) (simp add: copy_mac_def)

lemma copy_mac_independent: "6 \<le> length b \<Longrightarrow> copy_mac m b = copy_mac n b"
  by (simp add: copy_mac_def min_def)

definition IsZero :: "MAC \<Rightarrow> bool" where
  "IsZero m = (m = zero_mac)"

definition IsMulticast :: "MAC \<Rightarrow> bool" where
  "IsMulticast m = (mac_bytes m ! 0 AND 1 \<noteq> 0)"

definition IsUnicast :: "MAC \<Rightarrow> bool" where
  "IsUnicast m = (\<not> IsZero m \<and> \<not> IsMulticast m)"

section \<open>IP addresses\<close>

datatype Addr = AddrNone | Addr4 bytes | Addr6 bytes string

definition addr_ok :: "Addr \<Rightarrow> bool" where
  "addr_ok a = (case a of AddrNone \<Rightarrow> True | Addr4 b \<Rightarrow> length b = 4 | Addr6 b z \<Rightarrow> length b = 16)"

definition IsValid :: "Addr \<Rightarrow> bool" where
  "IsValid a = (a \<noteq> AddrNone)"

definition AddrFrom4 :: "bytes \<Rightarrow> Addr" where "AddrFrom4 b = Addr4 b"
definition AddrFrom16 :: "bytes \<Rightarrow> Addr" where "AddrFrom16 b = Addr6 b []"

definition v4_mapped_prefix :: bytes where
  "v4_mapped_prefix = replicate 10 0 @ [255, 255]"

fun Unmap :: "Addr \<Rightarrow> Addr" where
  "Unmap (Addr6 b z) = (if take 12 b = v4_mapped_prefix then Addr4 (drop 12 b) else Addr6 b z)"
| "Unmap a = a"

fun Is6 :: "Addr \<Rightarrow> bool" where
  "Is6 (Addr6 b z) = True"
| "Is6 a = False"

fun Zone :: "Addr \<Rightarrow> string" where
  "Zone (Addr6 b z) = z"
| "Zone a = []"

fun WithZone :: "Addr \<Rightarrow> string \<Rightarrow> Addr" where
  "WithZone (Addr6 b z) zone = Addr6 b zone"
| "WithZone a zone = a"

fun As16 :: "Addr \<Rightarrow> bytes" where
  "As16 AddrNone = replicate 16 0"
| "As16 (Addr4 b) = v4_mapped_prefix @ b"
| "As16 (Addr6 b z) = b"

fun IsLinkLocalUnicast :: "Addr \<Rightarrow> bool" where
  "IsLinkLocalUnicast a =
     (case Unmap a of
        AddrNone \<Rightarrow> False
      | Addr4 b \<Rightarrow> take 2 b = [169, 254]
      | Addr6 b z \<Rightarrow> b ! 0 = 0xfe \<and> b ! 1 AND 0xc0 = 0x80)"

lemma addr_ok_Unmap: "addr_ok a \<Longrightarrow> addr_ok (Unmap a)"
  by (cases a) (auto simp: addr_ok_def)

lemma IsValid_Unmap [simp]: "IsValid (Unmap a) = IsValid a"
  by (cases a) (auto simp: IsValid_def)

lemma Unmap_idem [simp]: "Unmap (Unmap a) = Unmap a"
  by (cases a) auto

lemma Unmap_As16: "Unmap (AddrFrom16 (As16 (Addr4 b))) = Addr4 b"
  by (simp add: AddrFrom16_def v4_mapped_prefix_def)

section \<open>IP prefixes\<close>

text \<open>\<open>netip.Prefix\<close>: the number of bits is absent in an invalid prefix.\<close>

record Prefix =
  pfx_addr :: Addr
  pfx_bits :: "nat option"

definition bits_of :: "bytes \<Rightarrow> bool list" where
  "bits_of bs = concat (map (\<lambda>b. map (bit b) (rev [0..<8])) bs)"

definition Prefix_IsValid :: "Prefix \<Rightarrow> bool" where
  "Prefix_IsValid p = (pfx_bits p \<noteq> None)"

definition Prefix_Contains :: "Prefix \<Rightarrow> Addr \<Rightarrow> bool" where
  "Prefix_Contains p a =
     (case pfx_bits p of
        None \<Rightarrow> False
      | Some n \<Rightarrow>
          (case (pfx_addr p, a) of
             (Addr4 x, Addr4 y) \<Rightarrow> take n (bits_of x) = take n (bits_of y)
           | (Addr6 x _, Addr6 y z) \<Rightarrow> z = [] \<and> take n (bits_of x) = take n (bits_of y)
           | _ \<Rightarrow> False))"

lemma Prefix_Contains_zone: "z \<noteq> [] \<Longrightarrow> \<not> Prefix_Contains p (Addr6 b z)"
  by (auto simp: Prefix_Contains_def split: option.splits Addr.splits)

end
