(* ===== verification/Model.thy ===== *)
theory Model
  imports Protocol NetAddr
begin

text \<open>
  The data model of \<open>pkg/omnidiscover/model.go\<close>: the records every protocol is fused into,
  their reset operations, and the extrapolated uptime. Each Go struct is a record with the same
  fields in the same order; field names carry a short prefix because record selectors are global
  in HOL. Byte slices are plain lists where every write replaces the whole contents; the service
  list is a \<open>slab\<close>, because \<open>Reset\<close> and \<open>ensureService\<close> reuse its elements field by field.
\<close>

section \<open>Identifiers and text fields\<close>

record Identifier =
  id_Subtype :: u8
  id_Value :: bytes

record TextValue =
  tv_Value :: bytes
  tv_Protocols :: ProtocolSet
  tv_Confidence :: u8
  tv_FirstSeen :: Time
  tv_LastSeen :: Time

record TextField =
  Values :: "TextValue list"
  Canonical :: u8

text \<open>\<open>TextField.Current\<close>: nil, or the canonical value.\<close>

definition Current :: "TextField \<Rightarrow> bytes ptr run" where
  "Current f =
     (if Values f = [] \<or> unat (Canonical f) \<ge> length (Values f) then Some None
      else do { v \<leftarrow> idx (Values f) (unat (Canonical f)); Some (Some (tv_Value v)) })"

lemma Current_total: "Current f \<noteq> None"
  by (simp add: Current_def)

section \<open>Protocol details\<close>

record ManagementAddress =
  ma_Subtype :: u8
  ma_Address :: bytes
  ma_InterfaceSubtype :: u8
  ma_InterfaceNumber :: u32
  ma_OID :: bytes

record VLAN =
  vlan_ID :: u16
  vlan_Name :: bytes

record LinkAggregation =
  la_Present :: bool
  la_Supported :: bool
  la_Enabled :: bool
  la_ID :: u32

record MACPHY =
  phy_Present :: bool
  phy_AutonegSupported :: bool
  phy_AutonegEnabled :: bool
  phy_AdvertisedCapabilities :: u16
  phy_OperationalMAUType :: u16

record LLDPDetails =
  ld_PortDescription :: bytes
  ld_SystemDescription :: bytes
  ld_SystemCapabilities :: u16
  ld_EnabledCapabilities :: u16
  ld_PVID :: u16
  ld_HasPVID :: bool
  ld_VLANs :: "VLAN slab"
  ld_LinkAggregation :: LinkAggregation
  ld_MACPHY :: MACPHY
  ld_MaximumFrameSize :: u16
  ld_HasMaximumFrameSize :: bool

record CDPDetails =
  cd_Version :: u8
  cd_Checksum :: u16
  cd_NativeVLAN :: u16
  cd_HasNativeVLAN :: bool
  cd_Duplex :: u8
  cd_HasDuplex :: bool
  cd_Capabilities :: u32
  cd_SoftwareVersion :: bytes
  cd_Platform :: bytes
  cd_ManagementAddress :: "Addr list"

record MNDPDetails =
  md_TypeTag :: u16
  md_Sequence :: u16
  md_Identity :: bytes
  md_Version :: bytes
  md_Platform :: bytes
  md_SoftwareID :: bytes
  md_Board :: bytes
  md_InterfaceName :: bytes
  md_UptimeSeconds :: u32
  md_HasUptime :: bool

section \<open>DNS records and services\<close>

type_synonym DNSRecordType = u16

definition DNSRecordA :: DNSRecordType where "DNSRecordA = 1"
definition DNSRecordPTR :: DNSRecordType where "DNSRecordPTR = 12"
definition DNSRecordTXT :: DNSRecordType where "DNSRecordTXT = 16"
definition DNSRecordAAAA :: DNSRecordType where "DNSRecordAAAA = 28"
definition DNSRecordSRV :: DNSRecordType where "DNSRecordSRV = 33"

lemmas dns_type_defs =
  DNSRecordA_def DNSRecordPTR_def DNSRecordTXT_def DNSRecordAAAA_def DNSRecordSRV_def

record DNSRecord =
  rr_Name :: bytes
  rr_Type :: DNSRecordType
  rr_Class :: u16
  rr_CacheFlush :: bool
  rr_TTL :: u32
  rr_Target :: bytes
  rr_Address :: Addr
  rr_Port :: u16
  rr_Priority :: u16
  rr_Weight :: u16
  rr_TXT :: bytes

record Service =
  svc_Instance :: bytes
  svc_Type :: bytes
  svc_Domain :: bytes
  svc_Host :: bytes
  svc_Port :: u16
  svc_TXT :: bytes
  svc_Addresses :: "Addr list"
  svc_Protocols :: ProtocolSet
  svc_ExpiresAt :: Time

definition zero_service :: Service where
  "zero_service =
     \<lparr>svc_Instance = [], svc_Type = [], svc_Domain = [], svc_Host = [], svc_Port = 0,
      svc_TXT = [], svc_Addresses = [], svc_Protocols = 0, svc_ExpiresAt = 0\<rparr>"

section \<open>Devices\<close>

datatype DeviceKeyKind = DeviceKeyUnknown | DeviceKeyMAC | DeviceKeyIP

record DeviceKey =
  dk_Kind :: DeviceKeyKind
  dk_MAC :: MAC
  dk_IP :: Addr
  dk_InterfaceIndex :: int

definition zero_device_key :: DeviceKey where
  "zero_device_key =
     \<lparr>dk_Kind = DeviceKeyUnknown, dk_MAC = zero_mac, dk_IP = AddrNone, dk_InterfaceIndex = 0\<rparr>"

record DeviceUptime =
  up_Seconds :: u64
  up_ObservedAt :: Time
  up_Protocols :: ProtocolSet
  up_Valid :: bool

definition zero_uptime :: DeviceUptime where
  "zero_uptime = \<lparr>up_Seconds = 0, up_ObservedAt = 0, up_Protocols = 0, up_Valid = False\<rparr>"

text \<open>
  \<open>DeviceUptime.Current\<close>. The elapsed whole seconds are added in 64-bit unsigned arithmetic,
  and the product with \<open>time.Second\<close> wraps as a signed 64-bit integer would.
\<close>

definition maxDurationSeconds :: u64 where
  "maxDurationSeconds = 9223372036"

definition Uptime_Current :: "DeviceUptime \<Rightarrow> Time \<Rightarrow> Duration" where
  "Uptime_Current u now =
     (let seconds = up_Seconds u;
          seconds = (if up_Valid u \<and> now > up_ObservedAt u
                     then seconds + word_of_int (Time_Sub now (up_ObservedAt u) div Second)
                     else seconds);
          seconds = (if seconds > maxDurationSeconds then maxDurationSeconds else seconds)
      in wrap64 (uint seconds * Second))"

record DiscoveredDevice =
  dev_Key :: DeviceKey
  dev_ObservedMACs :: "MAC list"
  dev_ClaimedMACs :: "MAC list"
  dev_Addresses :: "Addr list"
  dev_SystemName :: TextField
  dev_HostName :: TextField
  dev_ProtocolDeviceID :: TextField
  dev_Vendor :: TextField
  dev_Model :: TextField
  dev_Platform :: TextField
  dev_SoftwareVersion :: TextField
  dev_Uptime :: DeviceUptime
  dev_Capabilities :: u64
  dev_Services :: "Service slab"
  dev_Protocols :: ProtocolSet
  dev_Class :: bytes
  dev_MatchedRule :: bytes
  dev_FirstSeen :: Time
  dev_LastSeen :: Time

section \<open>Links, events and snapshots\<close>

datatype LinkKind = LinkKindNone | PhysicalAdjacency | SegmentPresence

record LinkKey =
  lk_InterfaceIndex :: int
  lk_SourceMAC :: MAC
  lk_Device :: DeviceKey

definition zero_link_key :: LinkKey where
  "zero_link_key = \<lparr>lk_InterfaceIndex = 0, lk_SourceMAC = zero_mac, lk_Device = zero_device_key\<rparr>"

record DiscoveredLink =
  link_Key :: LinkKey
  link_Kind :: LinkKind
  link_LocalInterface :: bytes
  link_Device :: DeviceKey
  link_ObservedSourceMAC :: MAC
  link_RemoteChassis :: Identifier
  link_RemotePort :: Identifier
  link_RemoteInterface :: TextField
  link_VLANs :: "u16 list"
  link_Protocols :: ProtocolSet
  link_TTL :: Duration
  link_ExpiresAt :: Time
  link_FirstSeen :: Time
  link_LastSeen :: Time

datatype EventKind = EventNone | EventAdded | EventChanged | EventExpired | EventEvicted

type_synonym FieldSet = u64

definition FieldIdentity :: FieldSet where "FieldIdentity = 1"
definition FieldAddresses :: FieldSet where "FieldAddresses = 2"
definition FieldNames :: FieldSet where "FieldNames = 4"
definition FieldModel :: FieldSet where "FieldModel = 8"
definition FieldPlatform :: FieldSet where "FieldPlatform = 16"
definition FieldSoftware :: FieldSet where "FieldSoftware = 32"
definition FieldCapabilities :: FieldSet where "FieldCapabilities = 64"
definition FieldServices :: FieldSet where "FieldServices = 128"
definition FieldLink :: FieldSet where "FieldLink = 256"
definition FieldClassification :: FieldSet where "FieldClassification = 512"
definition FieldVendor :: FieldSet where "FieldVendor = 1024"
definition FieldUptime :: FieldSet where "FieldUptime = 2048"

text \<open>
  An \<open>EventView\<close> holds pointers to a device and a link, either of which may be nil; the model
  holds what they point to when the handler runs.
\<close>

record EventView =
  view_Kind :: EventKind
  view_Changed :: FieldSet
  view_Device :: "DiscoveredDevice ptr"
  view_Link :: "DiscoveredLink ptr"

record Event =
  ev_Kind :: EventKind
  ev_Changed :: FieldSet
  ev_Device :: DiscoveredDevice
  ev_Link :: DiscoveredLink

record Snapshot =
  snap_Devices :: "DiscoveredDevice slab"
  snap_Links :: "DiscoveredLink slab"

section \<open>Resets\<close>

definition empty_field :: TextField where
  "empty_field = \<lparr>Values = [], Canonical = 0\<rparr>"

definition resetTextField :: "TextField \<Rightarrow> TextField" where
  "resetTextField f = f\<lparr>Values := [], Canonical := 0\<rparr>"

text \<open>
  The loops over \<open>d.Services\<close> truncate the byte slices and the address list of each element;
  port, protocols and expiry stay in the spare capacity.
\<close>

definition truncate_service :: "Service \<Rightarrow> Service" where
  "truncate_service s =
     s\<lparr>svc_Instance := [], svc_Type := [], svc_Domain := [], svc_Host := [], svc_TXT := [],
       svc_Addresses := []\<rparr>"

definition Device_Reset :: "DiscoveredDevice \<Rightarrow> DiscoveredDevice" where
  "Device_Reset d =
     d\<lparr>dev_Key := zero_device_key,
       dev_ObservedMACs := [],
       dev_ClaimedMACs := [],
       dev_Addresses := [],
       dev_SystemName := resetTextField (dev_SystemName d),
       dev_HostName := resetTextField (dev_HostName d),
       dev_ProtocolDeviceID := resetTextField (dev_ProtocolDeviceID d),
       dev_Vendor := resetTextField (dev_Vendor d),
       dev_Model := resetTextField (dev_Model d),
       dev_Platform := resetTextField (dev_Platform d),
       dev_SoftwareVersion := resetTextField (dev_SoftwareVersion d),
       dev_Uptime := zero_uptime,
       dev_Services := slab_reset truncate_service (dev_Services d),
       dev_Protocols := 0,
       dev_Class := [],
       dev_MatchedRule := [],
       dev_Capabilities := 0,
       dev_FirstSeen := 0,
       dev_LastSeen := 0\<rparr>"

definition zero_identifier :: Identifier where
  "zero_identifier = \<lparr>id_Subtype = 0, id_Value = []\<rparr>"

definition zero_device :: DiscoveredDevice where
  "zero_device =
     \<lparr>dev_Key = zero_device_key, dev_ObservedMACs = [], dev_ClaimedMACs = [], dev_Addresses = [],
      dev_SystemName = empty_field, dev_HostName = empty_field, dev_ProtocolDeviceID = empty_field,
      dev_Vendor = empty_field, dev_Model = empty_field, dev_Platform = empty_field,
      dev_SoftwareVersion = empty_field, dev_Uptime = zero_uptime, dev_Capabilities = 0,
      dev_Services = slab_empty, dev_Protocols = 0, dev_Class = [], dev_MatchedRule = [],
      dev_FirstSeen = 0, dev_LastSeen = 0\<rparr>"

definition resetLink :: "DiscoveredLink \<Rightarrow> DiscoveredLink" where
  "resetLink l =
     l\<lparr>link_Key := zero_link_key,
       link_Kind := LinkKindNone,
       link_LocalInterface := [],
       link_Device := zero_device_key,
       link_ObservedSourceMAC := zero_mac,
       link_RemoteChassis := zero_identifier,
       link_RemotePort := zero_identifier,
       link_RemoteInterface := resetTextField (link_RemoteInterface l),
       link_VLANs := [],
       link_Protocols := 0,
       link_TTL := 0,
       link_ExpiresAt := 0,
       link_FirstSeen := 0,
       link_LastSeen := 0\<rparr>"

definition zero_link :: DiscoveredLink where
  "zero_link =
     \<lparr>link_Key = zero_link_key, link_Kind = LinkKindNone, link_LocalInterface = [],
      link_Device = zero_device_key, link_ObservedSourceMAC = zero_mac,
      link_RemoteChassis = zero_identifier, link_RemotePort = zero_identifier,
      link_RemoteInterface = empty_field, link_VLANs = [], link_Protocols = 0, link_TTL = 0,
      link_ExpiresAt = 0, link_FirstSeen = 0, link_LastSeen = 0\<rparr>"

lemma resetLink_zero: "resetLink l = zero_link"
  by (simp add: resetLink_def zero_link_def resetTextField_def empty_field_def)

lemma Device_Reset_zero:
  "Device_Reset d = zero_device\<lparr>dev_Services := slab_reset truncate_service (dev_Services d)\<rparr>"
  by (simp add: Device_Reset_def zero_device_def resetTextField_def empty_field_def)

section \<open>Extrapolated uptime\<close>

lemma maxDuration_product: "uint maxDurationSeconds * Second \<le> max_int64"
  by (simp add: maxDurationSeconds_def Second_def max_int64_def)

text \<open>
  The extrapolated uptime is the clamped number of seconds as an exact duration: the signed
  64-bit product with \<open>time.Second\<close> never wraps, whatever the stored seconds and the clock.
\<close>

lemma Uptime_Current_exact:
  "\<exists>s. Uptime_Current u now = uint (s :: u64) * Second \<and> s \<le> maxDurationSeconds \<and>
       0 \<le> Uptime_Current u now \<and> Uptime_Current u now \<le> max_int64"
proof -
  define s0 where "s0 = (if up_Valid u \<and> now > up_ObservedAt u
      then up_Seconds u + word_of_int (Time_Sub now (up_ObservedAt u) div Second)
      else up_Seconds u)"
  define s where "s = (if s0 > maxDurationSeconds then maxDurationSeconds else s0)"
  have le: "s \<le> maxDurationSeconds" by (simp add: s_def not_less)
  then have "uint s * Second \<le> uint maxDurationSeconds * Second"
    by (intro mult_right_mono) (simp_all add: word_le_def Second_def)
  then have bound: "uint s * Second \<le> max_int64"
    using maxDuration_product by (rule order_trans)
  have nonneg: "0 \<le> uint s * Second" by (simp add: Second_def)
  have "Uptime_Current u now = wrap64 (uint s * Second)"
    by (simp add: Uptime_Current_def s_def s0_def Let_def)
  also have "\<dots> = uint s * Second"
    using bound nonneg by (intro wrap64_id) (simp_all add: min_int64_def)
  finally show ?thesis using le bound nonneg by auto
qed

end
