(* ===== verification/Utils.thy ===== *)
theory Utils
  imports Model
begin

text \<open>
  The byte helpers of \<open>pkg/utils/bytes.go\<close> and \<open>pkg/omnidiscover/bytes.go\<close>, and
  \<open>appendUniqueAddr\<close> of \<open>cdp.go\<close>, which several components share.
\<close>

section \<open>Copying into reusable storage\<close>

definition slab_resize :: "nat \<Rightarrow> 'a \<Rightarrow> 'a slab \<Rightarrow> 'a slab" where
  "slab_resize n zero s =
     (if length (live s) + length (spare s) < n then \<lparr>live = replicate n zero, spare = []\<rparr>
      else \<lparr>live = take n (live s @ spare s), spare = drop n (live s @ spare s)\<rparr>)"

lemma length_live_resize [simp]: "length (live (slab_resize n z s)) = n"
  by (auto simp: slab_resize_def)

text \<open>\<open>copy(dst, src)\<close>\<close>

definition go_copy :: "'a list \<Rightarrow> 'a list \<Rightarrow> 'a list" where
  "go_copy dst src = take (length dst) src @ drop (length src) dst"

lemma go_copy_same_length [simp]: "length dst = length src \<Longrightarrow> go_copy dst src = src"
  by (simp add: go_copy_def)

lemma length_go_copy [simp]: "length (go_copy dst src) = length dst"
  by (simp add: go_copy_def)

definition CopyBytes :: "u8 slab \<Rightarrow> bytes \<Rightarrow> u8 slab" where
  "CopyBytes dst src =
     (let d = slab_resize (length src) 0 dst in d\<lparr>live := go_copy (live d) src\<rparr>)"

lemma live_CopyBytes [simp]: "live (CopyBytes dst src) = src"
  by (simp add: CopyBytes_def Let_def)

text \<open>
  What the rest of the code sees of \<open>copyBytes(dst, src)\<close> is its length-bounded contents.
\<close>

definition copyBytes :: "bytes \<Rightarrow> bytes \<Rightarrow> bytes" where
  "copyBytes dst src = live (CopyBytes (slab_of dst) src)"

lemma copyBytes_eq [simp]: "copyBytes dst src = src"
  by (simp add: copyBytes_def)

section \<open>Trimming\<close>

definition isTrimByte :: "u8 \<Rightarrow> bool" where
  "isTrimByte b = (b = 0 \<or> b = 32 \<or> b = 9 \<or> b = 13 \<or> b = 10)"

function trim_start :: "bytes \<Rightarrow> nat \<Rightarrow> nat \<Rightarrow> nat run" where
  "trim_start src start stop =
     (if start < stop
      then do { b \<leftarrow> idx src start;
                if isTrimByte b then trim_start src (start + 1) stop else Some start }
      else Some start)"
  by pat_completeness auto
termination
  by (relation "measure (\<lambda>(src, start, stop). stop - start)") auto

fun trim_end :: "bytes \<Rightarrow> nat \<Rightarrow> nat \<Rightarrow> nat run" where
  "trim_end src start 0 = Some 0"
| "trim_end src start (Suc n) =
     (if start < Suc n
      then do { b \<leftarrow> idx src n;
                if isTrimByte b then trim_end src start n else Some (Suc n) }
      else Some (Suc n))"

declare trim_start.simps [simp del]

definition CleanText :: "bytes \<Rightarrow> bytes run" where
  "CleanText src = do {
     start \<leftarrow> trim_start src 0 (length src);
     stop \<leftarrow> trim_end src start (length src);
     gslice src start stop }"

definition trim :: "bytes \<Rightarrow> bytes" where
  "trim b = rev (dropWhile isTrimByte (rev (dropWhile isTrimByte b)))"

lemma drop_dropWhile: "drop (length xs - length (dropWhile P xs)) xs = dropWhile P xs"
proof (induction xs)
  case (Cons x xs)
  have "length (dropWhile P xs) \<le> length xs" by (rule length_dropWhile_le)
  with Cons show ?case by (auto simp: Suc_diff_le)
qed simp

lemma take_rev_dropWhile: "take (length (dropWhile P (rev xs))) xs = rev (dropWhile P (rev xs))"
proof (induction xs rule: rev_induct)
  case (snoc x xs)
  have "length (dropWhile P (rev xs)) \<le> length xs"
    using length_dropWhile_le [of P "rev xs"] by simp
  with snoc show ?case by simp
qed simp

lemma dropWhile_fixed: "dropWhile P (dropWhile P xs) = dropWhile P xs"
  by (induction xs) auto

lemma trim_start_eq:
  "i \<le> length src \<Longrightarrow>
   trim_start src i (length src) = Some (length src - length (dropWhile isTrimByte (drop i src)))"
proof (induction "length src - i" arbitrary: i)
  case 0
  then show ?case by (subst trim_start.simps) simp
next
  case (Suc n)
  then have less: "i < length src" by simp
  then have dr: "drop i src = src ! i # drop (Suc i) src" by (simp add: Cons_nth_drop_Suc)
  show ?case
  proof (cases "isTrimByte (src ! i)")
    case True
    have "trim_start src (Suc i) (length src) =
        Some (length src - length (dropWhile isTrimByte (drop (Suc i) src)))"
      by (rule Suc.hyps) (use Suc.hyps(2) less in simp_all)
    with True less show ?thesis
      by (subst trim_start.simps) (simp add: dr)
  next
    case False
    with less show ?thesis by (subst trim_start.simps) (simp add: dr)
  qed
qed

lemma trim_end_eq:
  "start \<le> n \<Longrightarrow> n \<le> length src \<Longrightarrow>
   trim_end src start n =
     Some (start + length (dropWhile isTrimByte (rev (take (n - start) (drop start src)))))"
proof (induction n)
  case 0
  then show ?case by simp
next
  case (Suc n)
  show ?case
  proof (cases "start < Suc n")
    case True
    then have le: "start \<le> n" by simp
    have tk: "take (Suc n - start) (drop start src) = take (n - start) (drop start src) @ [src ! n]"
      using Suc.prems le by (simp add: Suc_diff_le take_Suc_conv_app_nth)
    show ?thesis
      using Suc le by (auto simp: tk min_def)
  next
    case False
    with Suc.prems show ?thesis by simp
  qed
qed

text \<open>
  \<open>CleanText\<close> never indexes out of bounds, and its two index loops compute the same bytes as
  stripping ASCII whitespace and NUL from both ends.
\<close>

lemma CleanText_trim: "CleanText src = Some (trim src)"
proof -
  let ?s = "length src - length (dropWhile isTrimByte src)"
  have suffix: "drop ?s src = dropWhile isTrimByte src"
    by (rule drop_dropWhile)
  let ?e = "?s + length (dropWhile isTrimByte (rev (dropWhile isTrimByte src)))"
  have le: "?s \<le> length src" by simp
  have len: "length (dropWhile isTrimByte (rev (dropWhile isTrimByte src)))
      \<le> length (dropWhile isTrimByte src)"
    by (metis length_dropWhile_le length_rev)
  have e_le: "?e \<le> length src"
    using len length_dropWhile_le [of isTrimByte src] by linarith
  have "trim_start src 0 (length src) = Some ?s"
    using trim_start_eq [of 0 src] by simp
  moreover have "trim_end src ?s (length src) = Some ?e"
    using trim_end_eq [OF le, of src] length_dropWhile_le [of isTrimByte src] by (simp add: suffix)
  moreover have "gslice src ?s ?e = Some (trim src)"
    using e_le by (simp add: suffix take_rev_dropWhile trim_def)
  ultimately show ?thesis by (simp add: CleanText_def)
qed

lemma trim_last: "trim b = [] \<or> \<not> isTrimByte (last (trim b))"
  using hd_dropWhile [of isTrimByte "rev (dropWhile isTrimByte b)"]
  by (auto simp: trim_def last_rev)

section \<open>Duplicate-free appends\<close>

definition appendUniqueMAC :: "MAC list \<Rightarrow> MAC \<Rightarrow> MAC list" where
  "appendUniqueMAC dst value = (if value \<in> set dst then dst else dst @ [value])"

fun addr_seen :: "Addr list \<Rightarrow> Addr \<Rightarrow> bool" where
  "addr_seen [] a = False"
| "addr_seen (v # vs) a = (if v = a then True else addr_seen vs a)"

definition appendUniqueAddr :: "Addr list \<Rightarrow> Addr \<Rightarrow> Addr list" where
  "appendUniqueAddr dst a =
     (if \<not> IsValid a then dst
      else (let a = Unmap a in if addr_seen dst a then dst else dst @ [a]))"

lemma addr_seen_iff [simp]: "addr_seen vs a \<longleftrightarrow> a \<in> set vs"
  by (induction vs) auto

text \<open>An address list the code builds: no repetition, every entry valid and unmapped.\<close>

definition addrs_ok :: "Addr list \<Rightarrow> bool" where
  "addrs_ok as = (distinct as \<and> (\<forall>a \<in> set as. IsValid a \<and> Unmap a = a \<and> addr_ok a))"

lemma addrs_ok_Nil [simp]: "addrs_ok []"
  by (simp add: addrs_ok_def)

lemma addrs_ok_append: "addrs_ok dst \<Longrightarrow> addr_ok a \<Longrightarrow> addrs_ok (appendUniqueAddr dst a)"
  by (auto simp: addrs_ok_def appendUniqueAddr_def Let_def addr_ok_Unmap)

lemma set_appendUniqueAddr:
  "set (appendUniqueAddr dst a) = set dst \<union> (if IsValid a then {Unmap a} else {})"
  by (auto simp: appendUniqueAddr_def Let_def)

lemma distinct_appendUniqueMAC: "distinct dst \<Longrightarrow> distinct (appendUniqueMAC dst m)"
  by (simp add: appendUniqueMAC_def)

end
