(* ===== verification/Ethernet.thy ===== *)
theory Ethernet
  imports Utils
begin

text \<open>
  The model of \<open>pkg/omnidiscover/ethernet.go\<close>: Ethernet II and IEEE 802.3 LLC/SNAP framing with
  up to three VLAN tags, and UDP over IPv4 and IPv6. Every index and slice expression is a
  checked operation, so \<^const>\<open>None\<close> is a run-time panic.
\<close>

section \<open>Frames\<close>

definition EtherTypeIPv4 :: u16 where "EtherTypeIPv4 = 0x0800"
definition EtherTypeARP :: u16 where "EtherTypeARP = 0x0806"
definition EtherTypeVLAN :: u16 where "EtherTypeVLAN = 0x8100"
definition EtherTypeQinQ :: u16 where "EtherTypeQinQ = 0x88a8"
definition EtherTypeIPv6 :: u16 where "EtherTypeIPv6 = 0x86dd"
definition EtherTypeLLDP :: u16 where "EtherTypeLLDP = 0x88cc"
definition maxVLANTags :: nat where "maxVLANTags = 3"

lemmas ethertype_defs =
  EtherTypeIPv4_def EtherTypeARP_def EtherTypeVLAN_def EtherTypeQinQ_def EtherTypeIPv6_def
  EtherTypeLLDP_def

record LLCHeader =
  llc_Present :: bool
  llc_DSAP :: u8
  llc_SSAP :: u8
  llc_Control :: u8
  llc_SNAP :: bool
  llc_OUI :: bytes
  llc_PID :: u16

record EthernetFrame =
  eth_Destination :: MAC
  eth_Source :: MAC
  eth_EtherType :: u16
  eth_VLANs :: "u16 list"
  eth_VLANCount :: u8
  eth_LLC :: LLCHeader
  eth_Payload :: bytes

definition zero_llc :: LLCHeader where
  "zero_llc = \<lparr>llc_Present = False, llc_DSAP = 0, llc_SSAP = 0, llc_Control = 0, llc_SNAP = False,
     llc_OUI = [0, 0, 0], llc_PID = 0\<rparr>"

definition zero_frame :: EthernetFrame where
  "zero_frame = \<lparr>eth_Destination = zero_mac, eth_Source = zero_mac, eth_EtherType = 0,
     eth_VLANs = replicate maxVLANTags 0, eth_VLANCount = 0, eth_LLC = zero_llc, eth_Payload = []\<rparr>"

definition EthernetFrame_Reset :: "EthernetFrame \<Rightarrow> EthernetFrame" where
  "EthernetFrame_Reset f = zero_frame"

section \<open>DecodeEthernetFrame\<close>

text \<open>
  The VLAN loop. Its result is either the status of an early return or the EtherType and offset
  after the last tag.
\<close>

type_synonym vlan_result = "DecodeStatus + (u16 \<times> nat)"

function vlan_loop ::
  "bytes \<Rightarrow> DecodeStatus \<Rightarrow> u16 \<Rightarrow> nat \<Rightarrow> EthernetFrame \<Rightarrow> (vlan_result \<times> EthernetFrame) run" where
  "vlan_loop b st et off dst =
     (if et = EtherTypeVLAN \<or> et = EtherTypeQinQ then
        if unat (eth_VLANCount dst) = maxVLANTags then
          Some (Inl (addIssue st DecodeFatal IssueTooManyVLANTags off et), dst)
        else if off + 4 > length b then
          Some (Inl (addIssue st DecodeFatal IssueTooShort off et), dst)
        else do {
          tag \<leftarrow> gslice b off (off + 2);
          tci \<leftarrow> be16 tag;
          vlans \<leftarrow> upd (eth_VLANs dst) (unat (eth_VLANCount dst)) (tci AND 0x0fff);
          next_et \<leftarrow> gslice b (off + 2) (off + 4);
          et' \<leftarrow> be16 next_et;
          vlan_loop b st et' (off + 4)
            (dst\<lparr>eth_VLANs := vlans, eth_VLANCount := eth_VLANCount dst + 1\<rparr>)
        }
      else Some (Inr (et, off), dst))"
  by pat_completeness auto
termination
  by (relation "measure (\<lambda>(b, st, et, off, dst). length b - off)") auto

declare vlan_loop.simps [simp del]

text \<open>
  The rest of the decoder, entered with the EtherType and offset that follow the tags: Ethernet II
  from 0x0600 on, a length field below it, then LLC and SNAP.
\<close>

definition decode_llc ::
  "bytes \<Rightarrow> nat \<Rightarrow> DecodeStatus \<Rightarrow> EthernetFrame \<Rightarrow> (DecodeStatus \<times> EthernetFrame) run" where
  "decode_llc data off st dst =
     (if length data < 3 then Some (addIssue st DecodeFatal IssueTooShort off 0, dst)
      else do {
        d0 \<leftarrow> idx data 0;
        d1 \<leftarrow> idx data 1;
        d2 \<leftarrow> idx data 2;
        let dst = dst\<lparr>eth_LLC := zero_llc\<lparr>llc_Present := True, llc_DSAP := d0, llc_SSAP := d1,
                      llc_Control := d2\<rparr>\<rparr>;
        if d0 = 0xaa \<and> d1 = 0xaa \<and> d2 = 0x03 then
          if length data < 8 then
            Some (addIssue st DecodeFatal IssueTooShort (off + 3) 0, dst)
          else do {
            oui \<leftarrow> gslice data 3 6;
            pidb \<leftarrow> gslice data 6 8;
            pid \<leftarrow> be16 pidb;
            p \<leftarrow> gslice_from data 8;
            Some (st, dst\<lparr>
              eth_LLC := (eth_LLC dst)\<lparr>llc_SNAP := True,
                llc_OUI := go_copy (llc_OUI (eth_LLC dst)) oui, llc_PID := pid\<rparr>,
              eth_EtherType := pid, eth_Payload := p\<rparr>)
          }
        else do {
          p \<leftarrow> gslice_from data 3;
          Some (st, dst\<lparr>eth_Payload := p\<rparr>)
        }
      })"

definition decode_type_or_length ::
  "bytes \<Rightarrow> u16 \<Rightarrow> nat \<Rightarrow> DecodeStatus \<Rightarrow> EthernetFrame \<Rightarrow> (DecodeStatus \<times> EthernetFrame) run" where
  "decode_type_or_length b et off st dst =
     (if et \<ge> 0x0600 then do {
        p \<leftarrow> gslice_from b off;
        Some (st, dst\<lparr>eth_EtherType := et, eth_Payload := p\<rparr>)
      } else do {
        let len = unat et;
        data \<leftarrow> gslice_from b off;
        data \<leftarrow> (if len < length data then gslice data 0 len else Some data);
        decode_llc data off st dst
      })"

definition decode_ethernet ::
  "bytes \<Rightarrow> DecodeStatus \<Rightarrow> EthernetFrame \<Rightarrow> (DecodeStatus \<times> EthernetFrame) run" where
  "decode_ethernet b st dst =
     (if length b < 14 then Some (addIssue st DecodeFatal IssueTooShort (length b) 0, dst)
      else do {
        d \<leftarrow> gslice b 0 6;
        s \<leftarrow> gslice b 6 12;
        let dst = dst\<lparr>eth_Destination := copy_mac (eth_Destination dst) d,
                      eth_Source := copy_mac (eth_Source dst) s\<rparr>;
        t \<leftarrow> gslice b 12 14;
        et \<leftarrow> be16 t;
        (r, dst) \<leftarrow> vlan_loop b st et 14 dst;
        case r of
          Inl st \<Rightarrow> Some (st, dst)
        | Inr (et, off) \<Rightarrow> decode_type_or_length b et off st dst
      })"

definition DecodeEthernetFrame ::
  "bytes \<Rightarrow> EthernetFrame ptr \<Rightarrow> (DecodeStatus \<times> EthernetFrame ptr) run" where
  "DecodeEthernetFrame b dst =
     (case dst of
        None \<Rightarrow> Some (addIssue clean_status DecodeFatal IssueNilDestination 0 0, None)
      | Some f \<Rightarrow> do {
          (st, f) \<leftarrow> decode_ethernet b clean_status (EthernetFrame_Reset f);
          Some (st, Some f)
        })"

section \<open>DecodeUDP\<close>

record UDPPacket =
  udp_SourceIP :: Addr
  udp_DestinationIP :: Addr
  udp_SourcePort :: u16
  udp_DestinationPort :: u16
  udp_Payload :: bytes

definition zero_udp :: UDPPacket where
  "zero_udp = \<lparr>udp_SourceIP = AddrNone, udp_DestinationIP = AddrNone, udp_SourcePort = 0,
     udp_DestinationPort = 0, udp_Payload = []\<rparr>"

definition UDPPacket_Reset :: "UDPPacket \<Rightarrow> UDPPacket" where
  "UDPPacket_Reset u = zero_udp"

text \<open>
  The loop over IPv6 extension headers, at most eight. The header lengths are computed on bytes,
  \<open>int(p[off+1]+1)*8\<close> and \<open>int(p[off+1]+2)*4\<close>, so the additions wrap at 256.
\<close>

fun ext_loop :: "bytes \<Rightarrow> nat \<Rightarrow> DecodeStatus \<Rightarrow> u8 \<Rightarrow> nat \<Rightarrow> nat \<Rightarrow> (DecodeStatus + nat) run" where
  "ext_loop p tot st nxt off left =
     (if nxt = 17 then Some (Inr off)
      else case left of
        0 \<Rightarrow> Some (Inl (addIssue st DecodeFatal IssueInvalidHeader off (ucast nxt)))
      | Suc left \<Rightarrow>
          if nxt = 0 \<or> nxt = 43 \<or> nxt = 60 then
            if off + 2 > tot then
              Some (Inl (addIssue st DecodeFatal IssueTooShort off (ucast nxt)))
            else do {
              l \<leftarrow> idx p (off + 1);
              let n = unat (l + 1) * 8;
              if n < 8 \<or> off + n > tot then
                Some (Inl (addIssue st DecodeFatal IssueInvalidHeader off (ucast nxt)))
              else do {
                nxt' \<leftarrow> idx p off;
                ext_loop p tot st nxt' (off + n) left
              }
            }
          else if nxt = 44 then
            Some (Inl (addIssue st DecodeFatal IssueFragmented off (ucast nxt)))
          else if nxt = 51 then
            if off + 2 > tot then
              Some (Inl (addIssue st DecodeFatal IssueTooShort off (ucast nxt)))
            else do {
              l \<leftarrow> idx p (off + 1);
              let n = unat (l + 2) * 4;
              if off + n > tot then
                Some (Inl (addIssue st DecodeFatal IssueInvalidHeader off (ucast nxt)))
              else do {
                nxt' \<leftarrow> idx p off;
                ext_loop p tot st nxt' (off + n) left
              }
            }
          else Some (Inl (addIssue st DecodeFatal IssueWrongProtocol off (ucast nxt))))"

declare ext_loop.simps [simp del]

text \<open>\<open>for ext := 0; next != 17; ext++ { if ext == 8 ... }\<close>\<close>

definition max_ext_headers :: nat where "max_ext_headers = 8"

text \<open>
  The two cases of the switch deliver the transport payload or the status of an early return,
  with the addresses written so far.
\<close>

definition udp_ipv4 :: "bytes \<Rightarrow> DecodeStatus \<Rightarrow> UDPPacket \<Rightarrow> ((DecodeStatus + bytes) \<times> UDPPacket) run" where
  "udp_ipv4 p st dst =
     (if length p < 20 then Some (Inl (addIssue st DecodeFatal IssueTooShort 0 EtherTypeIPv4), dst)
      else do {
        p0 \<leftarrow> idx p 0;
        if drop_bit 4 p0 \<noteq> 4 then
          Some (Inl (addIssue st DecodeFatal IssueTooShort 0 EtherTypeIPv4), dst)
        else do {
          let ihl = unat (p0 AND 0x0f) * 4;
          if ihl < 20 \<or> ihl > length p then
            Some (Inl (addIssue st DecodeFatal IssueInvalidHeader 0 EtherTypeIPv4), dst)
          else do {
            lb \<leftarrow> gslice p 2 4;
            l \<leftarrow> be16 lb;
            let tot = unat l;
            if tot < ihl \<or> tot > length p then
              Some (Inl (addIssue st DecodeFatal IssueInvalidHeader 2 EtherTypeIPv4), dst)
            else do {
              fb \<leftarrow> gslice p 6 8;
              frag \<leftarrow> be16 fb;
              if frag AND 0x3fff \<noteq> 0 then
                Some (Inl (addIssue st DecodeFatal IssueFragmented 6 EtherTypeIPv4), dst)
              else do {
                proto \<leftarrow> idx p 9;
                if proto \<noteq> 17 then
                  Some (Inl (addIssue st DecodeFatal IssueWrongProtocol 9 (ucast proto)), dst)
                else do {
                  p12 \<leftarrow> idx p 12; p13 \<leftarrow> idx p 13; p14 \<leftarrow> idx p 14; p15 \<leftarrow> idx p 15;
                  p16 \<leftarrow> idx p 16; p17 \<leftarrow> idx p 17; p18 \<leftarrow> idx p 18; p19 \<leftarrow> idx p 19;
                  let dst = dst\<lparr>udp_SourceIP := AddrFrom4 [p12, p13, p14, p15],
                                udp_DestinationIP := AddrFrom4 [p16, p17, p18, p19]\<rparr>;
                  payload \<leftarrow> gslice p ihl tot;
                  Some (Inr payload, dst)
                }
              }
            }
          }
        }
      })"

definition udp_ipv6 :: "bytes \<Rightarrow> DecodeStatus \<Rightarrow> UDPPacket \<Rightarrow> ((DecodeStatus + bytes) \<times> UDPPacket) run" where
  "udp_ipv6 p st dst =
     (if length p < 40 then Some (Inl (addIssue st DecodeFatal IssueTooShort 0 EtherTypeIPv6), dst)
      else do {
        p0 \<leftarrow> idx p 0;
        if drop_bit 4 p0 \<noteq> 6 then
          Some (Inl (addIssue st DecodeFatal IssueTooShort 0 EtherTypeIPv6), dst)
        else do {
          lb \<leftarrow> gslice p 4 6;
          l \<leftarrow> be16 lb;
          let tot = 40 + unat l;
          if tot > length p then
            Some (Inl (addIssue st DecodeFatal IssueInvalidHeader 4 EtherTypeIPv6), dst)
          else do {
            srcb \<leftarrow> gslice p 8 24;
            dstb \<leftarrow> gslice p 24 40;
            let dst = dst\<lparr>udp_SourceIP := AddrFrom16 (go_copy (replicate 16 0) srcb),
                          udp_DestinationIP := AddrFrom16 (go_copy (replicate 16 0) dstb)\<rparr>;
            nxt \<leftarrow> idx p 6;
            r \<leftarrow> ext_loop p tot st nxt 40 max_ext_headers;
            case r of
              Inl st \<Rightarrow> Some (Inl st, dst)
            | Inr off \<Rightarrow> do { payload \<leftarrow> gslice p off tot; Some (Inr payload, dst) }
          }
        }
      })"

text \<open>The UDP header, after the switch.\<close>

definition udp_header :: "bytes \<Rightarrow> DecodeStatus \<Rightarrow> UDPPacket \<Rightarrow> (DecodeStatus \<times> UDPPacket) run" where
  "udp_header payload st dst =
     (if length payload < 8 then Some (addIssue st DecodeFatal IssueTooShort 0 17, dst)
      else do {
        lb \<leftarrow> gslice payload 4 6;
        l \<leftarrow> be16 lb;
        let udpLen = unat l;
        if udpLen < 8 \<or> udpLen > length payload then
          Some (addIssue st DecodeFatal IssueInvalidHeader 4 17, dst)
        else do {
          sb \<leftarrow> gslice payload 0 2;
          sport \<leftarrow> be16 sb;
          db \<leftarrow> gslice payload 2 4;
          dport \<leftarrow> be16 db;
          pl \<leftarrow> gslice payload 8 udpLen;
          Some (st, dst\<lparr>udp_SourcePort := sport, udp_DestinationPort := dport, udp_Payload := pl\<rparr>)
        }
      })"

definition decode_udp ::
  "EthernetFrame \<Rightarrow> DecodeStatus \<Rightarrow> UDPPacket \<Rightarrow> (DecodeStatus \<times> UDPPacket) run" where
  "decode_udp frame st dst = do {
     (r, dst) \<leftarrow>
       (if eth_EtherType frame = EtherTypeIPv4 then udp_ipv4 (eth_Payload frame) st dst
        else if eth_EtherType frame = EtherTypeIPv6 then udp_ipv6 (eth_Payload frame) st dst
        else Some (Inl (addIssue st DecodeFatal IssueWrongProtocol 0 (eth_EtherType frame)), dst));
     case r of
       Inl st \<Rightarrow> Some (st, dst)
     | Inr payload \<Rightarrow> udp_header payload st dst
   }"

definition DecodeUDP ::
  "EthernetFrame ptr \<Rightarrow> UDPPacket ptr \<Rightarrow> (DecodeStatus \<times> UDPPacket ptr) run" where
  "DecodeUDP frame dst =
     (case (frame, dst) of
        (Some f, Some u) \<Rightarrow> do {
          (st, u) \<leftarrow> decode_udp f clean_status (UDPPacket_Reset u);
          Some (st, Some u)
        }
      | _ \<Rightarrow> Some (addIssue clean_status DecodeFatal IssueNilDestination 0 0, dst))"

section \<open>No input makes the frame decoder panic\<close>

text \<open>What the VLAN loop keeps: three tag slots, at most three tags counted.\<close>

definition vlans_ok :: "EthernetFrame \<Rightarrow> bool" where
  "vlans_ok f = (length (eth_VLANs f) = maxVLANTags \<and> unat (eth_VLANCount f) \<le> maxVLANTags)"

lemma unat_Suc_u8: "unat (c :: u8) < 255 \<Longrightarrow> unat (c + 1) = Suc (unat c)"
  using unat_add_lem [of c 1] by simp

lemma vlan_loop_runs:
  assumes "vlans_ok dst" and "off \<le> length b"
  shows "runs (vlan_loop b st et off dst)
           (\<lambda>(r, d). vlans_ok d \<and>
             (case r of Inl st' \<Rightarrow> Severity st' = DecodeFatal
              | Inr (et', off') \<Rightarrow> off \<le> off' \<and> off' \<le> length b))"
  using assms
proof (induction b st et off dst rule: vlan_loop.induct)
  case (1 b st et off dst)
  from "1.prems" show ?case
    by (subst vlan_loop.simps)
      (auto simp: wp vlans_ok_def maxVLANTags_def unat_Suc_u8 split: sum.splits
        intro!: runs_mono [OF "1.IH"])
qed

lemma decode_llc_runs:
  "vlans_ok dst \<Longrightarrow> Severity st = DecodeClean \<Longrightarrow>
   runs (decode_llc data off st dst)
     (\<lambda>(st, f). vlans_ok f \<and> (Severity st = DecodeClean \<or> Severity st = DecodeFatal) \<and>
        length (eth_Payload f) \<le> max (length (eth_Payload dst)) (length data))"
  by (auto simp: decode_llc_def vlans_ok_def wp Let_def)

lemma vlans_ok_Reset [simp]: "vlans_ok (EthernetFrame_Reset f)"
  by (simp add: EthernetFrame_Reset_def zero_frame_def vlans_ok_def maxVLANTags_def)

lemma eth_Payload_Reset [simp]: "eth_Payload (EthernetFrame_Reset f) = []"
  by (simp add: EthernetFrame_Reset_def zero_frame_def)

lemma vlans_ok_cong:
  "vlans_ok f \<Longrightarrow> eth_VLANs g = eth_VLANs f \<Longrightarrow> eth_VLANCount g = eth_VLANCount f \<Longrightarrow> vlans_ok g"
  by (simp add: vlans_ok_def)

lemma decode_type_or_length_runs:
  "vlans_ok dst \<Longrightarrow> Severity st = DecodeClean \<Longrightarrow> off \<le> length b \<Longrightarrow>
   runs (decode_type_or_length b et off st dst)
     (\<lambda>(st, f). vlans_ok f \<and> (Severity st = DecodeClean \<or> Severity st = DecodeFatal))"
  by (auto simp: decode_type_or_length_def wp Let_def
      intro: vlans_ok_cong intro!: runs_mono [OF decode_llc_runs])

lemma decode_ethernet_runs:
  "Severity st = DecodeClean \<Longrightarrow>
   runs (decode_ethernet b st (EthernetFrame_Reset f0))
     (\<lambda>(st, f). vlans_ok f \<and> (Severity st = DecodeClean \<or> Severity st = DecodeFatal))"
  by (auto simp: decode_ethernet_def wp Let_def split: sum.splits
      intro: vlans_ok_cong [OF vlans_ok_Reset]
      intro!: runs_mono [OF vlan_loop_runs] decode_type_or_length_runs)

lemma ext_loop_runs:
  "tot \<le> length p \<Longrightarrow> off \<le> tot \<Longrightarrow>
   runs (ext_loop p tot st nxt off left)
     (\<lambda>r. case r of Inl st' \<Rightarrow> Severity st' = DecodeFatal | Inr off' \<Rightarrow> off \<le> off' \<and> off' \<le> tot)"
proof (induction left arbitrary: nxt off)
  case 0
  then show ?case by (subst ext_loop.simps) (simp add: wp)
next
  case (Suc left)
  then show ?case
    by (subst ext_loop.simps)
      (auto simp: wp Let_def split: sum.splits intro!: runs_mono [OF Suc.IH])
qed

lemma udp_ipv4_runs:
  "runs (udp_ipv4 p st dst) (\<lambda>(r, d). case r of Inl st' \<Rightarrow> Severity st' = DecodeFatal | Inr _ \<Rightarrow> True)"
  by (auto simp: udp_ipv4_def wp Let_def)

lemma udp_ipv6_runs:
  "runs (udp_ipv6 p st dst) (\<lambda>(r, d). case r of Inl st' \<Rightarrow> Severity st' = DecodeFatal | Inr _ \<Rightarrow> True)"
  by (auto simp: udp_ipv6_def wp Let_def intro!: runs_mono [OF ext_loop_runs] split: sum.splits)

lemma udp_header_runs:
  "Severity st = DecodeClean \<Longrightarrow>
   runs (udp_header p st dst) (\<lambda>(st', d). Severity st' = DecodeClean \<or> Severity st' = DecodeFatal)"
  by (auto simp: udp_header_def wp Let_def)

lemma decode_udp_runs:
  "Severity st = DecodeClean \<Longrightarrow>
   runs (decode_udp f st dst) (\<lambda>(st', d). Severity st' = DecodeClean \<or> Severity st' = DecodeFatal)"
  by (auto simp: decode_udp_def wp split: sum.splits
      intro!: runs_mono [OF udp_ipv4_runs] runs_mono [OF udp_ipv6_runs] udp_header_runs)

text \<open>
  Neither frame decoder can panic: on every byte string and every destination, nil included,
  \<open>DecodeEthernetFrame\<close> and \<open>DecodeUDP\<close> return a status that is either clean or fatal.
\<close>

lemma frame_decoders_total:
  "\<exists>st f st' u.
     DecodeEthernetFrame b dst = Some (st, f) \<and> DecodeUDP frame udp = Some (st', u) \<and>
     Severity st \<in> {DecodeClean, DecodeFatal} \<and> Severity st' \<in> {DecodeClean, DecodeFatal}"
proof -
  have "runs (DecodeEthernetFrame b dst) (\<lambda>(st, f). Severity st \<in> {DecodeClean, DecodeFatal})"
    by (auto simp: DecodeEthernetFrame_def wp split: option.splits
        intro!: runs_mono [OF decode_ethernet_runs])
  moreover have "runs (DecodeUDP frame udp) (\<lambda>(st, u). Severity st \<in> {DecodeClean, DecodeFatal})"
    by (auto simp: DecodeUDP_def wp split: option.splits intro!: runs_mono [OF decode_udp_runs])
  ultimately show ?thesis by (auto dest!: runs_exD)
qed

section \<open>Frames built by an encoder decode to their parts\<close>

text \<open>
  A tagged Ethernet II frame: after the addresses come the type fields, each VLAN type followed by
  its tag control information.
\<close>

definition first_type :: "(u16 \<times> u16) list \<Rightarrow> u16 \<Rightarrow> u16" where
  "first_type tags et = (case tags of [] \<Rightarrow> et | (tpid, _) # _ \<Rightarrow> tpid)"

fun after_type :: "(u16 \<times> u16) list \<Rightarrow> u16 \<Rightarrow> bytes \<Rightarrow> bytes" where
  "after_type [] et payload = payload"
| "after_type ((_, tci) # tags) et payload =
     put16 tci @ put16 (first_type tags et) @ after_type tags et payload"

definition ethernet_bytes ::
  "MAC \<Rightarrow> MAC \<Rightarrow> (u16 \<times> u16) list \<Rightarrow> u16 \<Rightarrow> bytes \<Rightarrow> bytes" where
  "ethernet_bytes d s tags et payload =
     mac_bytes d @ mac_bytes s @ put16 (first_type tags et) @ after_type tags et payload"

definition vlan_tags_ok :: "(u16 \<times> u16) list \<Rightarrow> bool" where
  "vlan_tags_ok tags = (\<forall>(tpid, tci) \<in> set tags. tpid = EtherTypeVLAN \<or> tpid = EtherTypeQinQ)"

definition vlan_ids :: "(u16 \<times> u16) list \<Rightarrow> u16 list" where
  "vlan_ids tags = map (\<lambda>(tpid, tci). tci AND 0x0fff) tags"

lemma vlan_loop_tags:
  assumes "vlan_tags_ok tags" and "et \<noteq> EtherTypeVLAN" "et \<noteq> EtherTypeQinQ"
    and "vlans_ok dst" and "unat (eth_VLANCount dst) + length tags \<le> maxVLANTags"
    and "length pre = off"
  shows "vlan_loop (pre @ after_type tags et payload) st (first_type tags et) off dst =
    Some (Inr (et, off + 4 * length tags),
      dst\<lparr>eth_VLANs := take (unat (eth_VLANCount dst)) (eth_VLANs dst) @ vlan_ids tags @
            drop (unat (eth_VLANCount dst) + length tags) (eth_VLANs dst),
          eth_VLANCount := eth_VLANCount dst + of_nat (length tags)\<rparr>)"
  using assms
proof (induction tags arbitrary: pre off dst)
  case Nil
  then show ?case
    by (subst vlan_loop.simps) (simp add: first_type_def vlan_ids_def)
next
  case (Cons tag tags)
  obtain tpid tci where tag: "tag = (tpid, tci)" by (cases tag)
  let ?n = "unat (eth_VLANCount dst)"
  let ?d = "dst\<lparr>eth_VLANs := (eth_VLANs dst)[?n := tci AND 0x0fff],
              eth_VLANCount := eth_VLANCount dst + 1\<rparr>"
  let ?pre = "pre @ put16 tci @ put16 (first_type tags et)"
  have n: "?n + Suc (length tags) \<le> 3" "length (eth_VLANs dst) = 3"
    using Cons.prems by (simp_all add: maxVLANTags_def vlans_ok_def)
  have n1: "unat (eth_VLANCount dst + 1) = Suc ?n" using n by (intro unat_Suc_u8) simp
  have step: "vlan_loop (pre @ after_type (tag # tags) et payload) st (first_type (tag # tags) et) off dst
      = vlan_loop (?pre @ after_type tags et payload) st (first_type tags et) (off + 4) ?d"
    using Cons.prems n
    by (subst vlan_loop.simps)
      (auto simp: tag first_type_def vlan_tags_ok_def maxVLANTags_def put16_def nth_append gslice_def
        word16_def [symmetric] split: list.splits)
  have ok: "vlan_tags_ok tags" "vlans_ok ?d"
    using Cons.prems n1 n by (auto simp: vlan_tags_ok_def tag vlans_ok_def maxVLANTags_def)
  have IH: "vlan_loop (?pre @ after_type tags et payload) st (first_type tags et) (off + 4) ?d =
    Some (Inr (et, (off + 4) + 4 * length tags),
      ?d\<lparr>eth_VLANs := take (unat (eth_VLANCount ?d)) (eth_VLANs ?d) @ vlan_ids tags @
            drop (unat (eth_VLANCount ?d) + length tags) (eth_VLANs ?d),
          eth_VLANCount := eth_VLANCount ?d + of_nat (length tags)\<rparr>)"
    using Cons.prems n n1 ok by (intro Cons.IH) (simp_all add: maxVLANTags_def)
  have lists: "take (Suc ?n) ((eth_VLANs dst)[?n := x]) = take ?n (eth_VLANs dst) @ [x]" for x
    using n by (simp add: take_Suc_conv_app_nth)
  show ?case unfolding step IH
    using n by (simp add: n1 lists vlan_ids_def tag)
qed

lemma after_type_payload:
  "length (after_type tags et payload) = 4 * length tags + length payload"
  "drop (4 * length tags) (after_type tags et payload) = payload"
  by (induction tags) (auto simp: put16_def eval_nat_numeral)

text \<open>
  (C38) Decoding inverts encoding: an Ethernet II frame with up to three 802.1Q or 802.1ad tags
  decodes, without an issue, to its addresses, its VLAN identifiers in order, its EtherType and
  exactly its payload, whatever the reused destination held.
\<close>

theorem DecodeEthernetFrame_roundtrip:
  assumes "vlan_tags_ok tags" and "length tags \<le> maxVLANTags"
    and "0x0600 \<le> et" "et \<noteq> EtherTypeVLAN" "et \<noteq> EtherTypeQinQ"
  shows "DecodeEthernetFrame (ethernet_bytes d s tags et payload) (Some f) =
    Some (clean_status, Some (zero_frame\<lparr>eth_Destination := d, eth_Source := s, eth_EtherType := et,
      eth_VLANs := vlan_ids tags @ replicate (maxVLANTags - length tags) 0,
      eth_VLANCount := of_nat (length tags), eth_Payload := payload\<rparr>))"
proof -
  let ?b = "ethernet_bytes d s tags et payload"
  let ?pre = "mac_bytes d @ mac_bytes s @ put16 (first_type tags et)"
  let ?f = "zero_frame\<lparr>eth_Destination := d, eth_Source := s\<rparr>"
  have b: "?b = ?pre @ after_type tags et payload" by (simp add: ethernet_bytes_def)
  have len: "14 + 4 * length tags \<le> length ?b" "drop (14 + 4 * length tags) ?b = payload"
    using after_type_payload [where tags = tags and et = et and payload = payload]
    by (simp_all add: b add.commute [of 14])
  have loop: "vlan_loop ?b clean_status (first_type tags et) 14 ?f =
    Some (Inr (et, 14 + 4 * length tags), ?f\<lparr>
          eth_VLANs := vlan_ids tags @ replicate (maxVLANTags - length tags) 0,
          eth_VLANCount := of_nat (length tags)\<rparr>)"
    unfolding b using assms
    by (subst vlan_loop_tags) (simp_all add: zero_frame_def vlans_ok_def)
  have hd: "take 6 ?b = mac_bytes d" "take 6 (drop 6 ?b) = mac_bytes s"
    "be16 (take 2 (drop 12 ?b)) = Some (first_type tags et)"
    by (simp_all add: b)
  show ?thesis
    using len hd loop assms(3)
    by (simp add: DecodeEthernetFrame_def decode_ethernet_def EthernetFrame_Reset_def
       decode_type_or_length_def )
qed

theorem DecodeEthernetFrame_roundtrip_witness:
  "vlan_tags_ok [(EtherTypeQinQ, 100), (EtherTypeVLAN, 0xF0C8)] \<and>
   (\<exists>f. DecodeEthernetFrame
      (ethernet_bytes zero_mac (MAC 0 1 2 3 4 5) [(EtherTypeQinQ, 100), (EtherTypeVLAN, 0xF0C8)]
         EtherTypeLLDP [1, 2]) (Some zero_frame) = Some (clean_status, Some f) \<and>
      eth_VLANs f = [100, 200, 0] \<and> eth_Source f = MAC 0 1 2 3 4 5 \<and> eth_Payload f = [1, 2])"
proof -
  let ?tags = "[(EtherTypeQinQ, 100), (EtherTypeVLAN, 0xF0C8)]"
  have ok: "vlan_tags_ok ?tags" by (simp add: vlan_tags_ok_def)
  have le: "length ?tags \<le> maxVLANTags" by (simp add: maxVLANTags_def)
  have et: "0x0600 \<le> EtherTypeLLDP" "EtherTypeLLDP \<noteq> EtherTypeVLAN" "EtherTypeLLDP \<noteq> EtherTypeQinQ"
    by (simp_all add: ethertype_defs)
  show ?thesis
    using ok DecodeEthernetFrame_roundtrip [OF ok le et, of zero_mac "MAC 0 1 2 3 4 5" "[1, 2]" zero_frame]
    by (auto simp: vlan_ids_def maxVLANTags_def)
qed

section \<open>What an accepted UDP datagram has been checked for\<close>

text \<open>
  The fields of an IPv4 header at their offsets, and the conditions under which the datagram of a
  frame is delivered.
\<close>

definition ipv4_header_len :: "bytes \<Rightarrow> nat" where
  "ipv4_header_len p = unat (p ! 0 AND 0x0f) * 4"

definition ipv4_total_len :: "bytes \<Rightarrow> nat" where
  "ipv4_total_len p = unat (word16 (p ! 2) (p ! 3))"

definition ipv4_udp_ok :: "bytes \<Rightarrow> bool" where
  "ipv4_udp_ok p =
     (20 \<le> length p \<and> drop_bit 4 (p ! 0) = 4 \<and> 20 \<le> ipv4_header_len p \<and>
      ipv4_header_len p + 8 \<le> ipv4_total_len p \<and> ipv4_total_len p \<le> length p \<and>
      word16 (p ! 6) (p ! 7) AND 0x3fff = 0 \<and> p ! 9 = 17 \<and>
      (let u = drop (ipv4_header_len p) p; n = unat (word16 (u ! 4) (u ! 5))
       in 8 \<le> n \<and> ipv4_header_len p + n \<le> ipv4_total_len p))"

definition ipv4_header_ok :: "bytes \<Rightarrow> bool" where
  "ipv4_header_ok p =
     (20 \<le> length p \<and> drop_bit 4 (p ! 0) = 4 \<and> 20 \<le> ipv4_header_len p \<and>
      ipv4_header_len p \<le> ipv4_total_len p \<and> ipv4_total_len p \<le> length p \<and>
      word16 (p ! 6) (p ! 7) AND 0x3fff = 0 \<and> p ! 9 = 17)"

lemma take_4: "n + 4 \<le> length p \<Longrightarrow> take 4 (drop n p) = [p ! n, p ! (n + 1), p ! (n + 2), p ! (n + 3)]"
  by (rule nth_equalityI) (auto simp: less_Suc_eq numeral_eq_Suc)

lemma udp_ipv4_spec:
  "runs (udp_ipv4 p st dst) (\<lambda>(r, d).
     case r of
       Inl st' \<Rightarrow> Severity st' = DecodeFatal \<and> \<not> ipv4_header_ok p
     | Inr payload \<Rightarrow> ipv4_header_ok p \<and>
         payload = take (ipv4_total_len p - ipv4_header_len p) (drop (ipv4_header_len p) p) \<and>
         d = dst\<lparr>udp_SourceIP := Addr4 (take 4 (drop 12 p)), udp_DestinationIP := Addr4 (take 4 (drop 16 p))\<rparr>)"
  by (auto simp: udp_ipv4_def wp Let_def ipv4_header_ok_def ipv4_header_len_def ipv4_total_len_def take_4
     AddrFrom4_def)

lemma udp_header_spec:
  "Severity st = DecodeClean \<Longrightarrow>
   runs (udp_header u st dst) (\<lambda>(st', d).
     (let n = unat (word16 (u ! 4) (u ! 5)); ok = 8 \<le> length u \<and> 8 \<le> n \<and> n \<le> length u
      in (Usable st' \<longleftrightarrow> ok) \<and>
         (ok \<longrightarrow> st' = st \<and> d = dst\<lparr>udp_SourcePort := word16 (u ! 0) (u ! 1),
            udp_DestinationPort := word16 (u ! 2) (u ! 3),
            udp_Payload := take (n - 8) (drop 8 u)\<rparr>)))"
  by (auto simp: udp_header_def wp Let_def Usable_def numeral_eq_Suc)

lemma ipv4_payload:
  assumes "ipv4_header_ok p"
  defines "u \<equiv> drop (ipv4_header_len p) p"
  defines "payload \<equiv> take (ipv4_total_len p - ipv4_header_len p) u"
  defines "n \<equiv> unat (word16 (u ! 4) (u ! 5))"
  shows "ipv4_udp_ok p \<longleftrightarrow> 8 \<le> length payload \<and> 8 \<le> n \<and> n \<le> length payload"
    and "8 \<le> length payload \<Longrightarrow> i < 8 \<Longrightarrow> payload ! i = u ! i"
    and "n \<le> length payload \<Longrightarrow> take (n - 8) (drop 8 payload) = take (n - 8) (drop 8 u)"
proof -
  have len: "length payload = ipv4_total_len p - ipv4_header_len p"
    using assms(1) by (auto simp: payload_def u_def ipv4_header_ok_def)
  show "ipv4_udp_ok p \<longleftrightarrow> 8 \<le> length payload \<and> 8 \<le> n \<and> n \<le> length payload"
    using assms(1) by (auto simp: len ipv4_udp_ok_def ipv4_header_ok_def n_def u_def Let_def)
  show "payload ! i = u ! i" if "8 \<le> length payload" "i < 8"
    using that by (simp add: payload_def)
  show "take (n - 8) (drop 8 payload) = take (n - 8) (drop 8 u)" if "n \<le> length payload"
  proof -
    have "n - 8 \<le> ipv4_total_len p - ipv4_header_len p - 8" using that len by linarith
    then show ?thesis by (simp add: payload_def drop_take min_absorb1 del: diff_diff_left)
  qed
qed

lemma ipv4_udp_ok_header: "ipv4_udp_ok p \<Longrightarrow> ipv4_header_ok p"
  by (simp add: ipv4_udp_ok_def ipv4_header_ok_def)

lemma udp_header_ipv4:
  assumes ok: "ipv4_header_ok p" and st: "Severity st = DecodeClean"
    and pl: "payload = take (ipv4_total_len p - ipv4_header_len p) (drop (ipv4_header_len p) p)"
  shows "runs (udp_header payload st dst) (\<lambda>(st', d).
     (Usable st' \<longleftrightarrow> ipv4_udp_ok p) \<and>
     (ipv4_udp_ok p \<longrightarrow>
       (let u = drop (ipv4_header_len p) p in
        d = dst\<lparr>udp_SourcePort := word16 (u ! 0) (u ! 1), udp_DestinationPort := word16 (u ! 2) (u ! 3),
              udp_Payload := take (unat (word16 (u ! 4) (u ! 5)) - 8) (drop 8 u)\<rparr>)))"
proof (rule runs_mono [OF udp_header_spec [OF st]])
  fix x :: "DecodeStatus \<times> UDPPacket"
  obtain st' d where x: "x = (st', d)" by (cases x)
  define u where "u = drop (ipv4_header_len p) p"
  define n where "n = unat (word16 (u ! 4) (u ! 5))"
  note P = ipv4_payload [OF ok, folded u_def, folded n_def, folded pl [folded u_def]]
  assume "case x of (st', d) \<Rightarrow>
     (let n = unat (word16 (payload ! 4) (payload ! 5));
          ok = 8 \<le> length payload \<and> 8 \<le> n \<and> n \<le> length payload
      in (Usable st' \<longleftrightarrow> ok) \<and>
         (ok \<longrightarrow> st' = st \<and> d = dst\<lparr>udp_SourcePort := word16 (payload ! 0) (payload ! 1),
            udp_DestinationPort := word16 (payload ! 2) (payload ! 3),
            udp_Payload := take (n - 8) (drop 8 payload)\<rparr>))"
  then have "(Usable st' \<longleftrightarrow> ipv4_udp_ok p) \<and> (ipv4_udp_ok p \<longrightarrow>
        d = dst\<lparr>udp_SourcePort := word16 (u ! 0) (u ! 1), udp_DestinationPort := word16 (u ! 2) (u ! 3),
              udp_Payload := take (n - 8) (drop 8 u)\<rparr>)"
    using P(1,3) P(2) [of 0] P(2) [of 1] P(2) [of 2] P(2) [of 3] P(2) [of 4] P(2) [of 5]
    by (cases "8 \<le> length payload") (simp_all add: x Let_def n_def)
  then show "case x of (st', d) \<Rightarrow> (Usable st' \<longleftrightarrow> ipv4_udp_ok p) \<and>
     (ipv4_udp_ok p \<longrightarrow>
       (let u = drop (ipv4_header_len p) p in
        d = dst\<lparr>udp_SourcePort := word16 (u ! 0) (u ! 1), udp_DestinationPort := word16 (u ! 2) (u ! 3),
              udp_Payload := take (unat (word16 (u ! 4) (u ! 5)) - 8) (drop 8 u)\<rparr>))"
    by (simp add: x Let_def u_def [symmetric] n_def [symmetric])
qed

text \<open>
  (C39) For an IPv4 frame, \<open>DecodeUDP\<close> delivers a datagram exactly when the packet is a complete,
  unfragmented UDP packet whose header, total and UDP lengths nest inside the frame; then addresses,
  ports and payload are those bytes of the packet and no others.
\<close>

theorem DecodeUDP_ipv4:
  assumes "eth_EtherType f = EtherTypeIPv4"
  shows "\<exists>st d. DecodeUDP (Some f) (Some dst) = Some (st, Some d) \<and>
    (Usable st \<longleftrightarrow> ipv4_udp_ok (eth_Payload f)) \<and>
    (ipv4_udp_ok (eth_Payload f) \<longrightarrow>
       (let p = eth_Payload f; u = drop (ipv4_header_len p) p in
        d = \<lparr>udp_SourceIP = Addr4 (take 4 (drop 12 p)), udp_DestinationIP = Addr4 (take 4 (drop 16 p)),
             udp_SourcePort = word16 (u ! 0) (u ! 1), udp_DestinationPort = word16 (u ! 2) (u ! 3),
             udp_Payload = take (unat (word16 (u ! 4) (u ! 5)) - 8) (drop 8 u)\<rparr>))"
proof -
  have "runs (decode_udp f clean_status zero_udp) (\<lambda>(st, d). (Usable st \<longleftrightarrow> ipv4_udp_ok (eth_Payload f)) \<and>
    (ipv4_udp_ok (eth_Payload f) \<longrightarrow>
       (let p = eth_Payload f; u = drop (ipv4_header_len p) p in
        d = \<lparr>udp_SourceIP = Addr4 (take 4 (drop 12 p)), udp_DestinationIP = Addr4 (take 4 (drop 16 p)),
             udp_SourcePort = word16 (u ! 0) (u ! 1), udp_DestinationPort = word16 (u ! 2) (u ! 3),
             udp_Payload = take (unat (word16 (u ! 4) (u ! 5)) - 8) (drop 8 u)\<rparr>)))"
    unfolding decode_udp_def if_P [OF assms] runs_bind
    by (rule runs_mono [OF udp_ipv4_spec])
      (auto simp: wp Usable_def zero_udp_def Let_def dest: ipv4_udp_ok_header split: sum.splits
        intro!: runs_mono [OF udp_header_ipv4])
  then show ?thesis
    by (auto simp: DecodeUDP_def UDPPacket_Reset_def dest!: runs_exD)
qed


text \<open>A 28-byte IPv4 datagram from 192.0.2.9 port 5678.\<close>

definition sample_ipv4 :: bytes where
  "sample_ipv4 = [0x45, 0, 0, 28, 0, 0, 0, 0, 64, 17, 0, 0, 192, 0, 2, 9, 255, 255, 255, 255,
                  0x16, 0x2e, 0x16, 0x2e, 0, 8, 0, 0]"

theorem DecodeUDP_ipv4_witness:
  "eth_EtherType (zero_frame\<lparr>eth_EtherType := EtherTypeIPv4, eth_Payload := sample_ipv4\<rparr>) = EtherTypeIPv4 \<and>
   (\<exists>st d. DecodeUDP (Some (zero_frame\<lparr>eth_EtherType := EtherTypeIPv4, eth_Payload := sample_ipv4\<rparr>))
      (Some zero_udp) = Some (st, Some d) \<and> Usable st \<and> udp_SourcePort d = 5678)"
proof -
  let ?f = "zero_frame\<lparr>eth_EtherType := EtherTypeIPv4, eth_Payload := sample_ipv4\<rparr>"
  have et: "eth_EtherType ?f = EtherTypeIPv4" by simp
  have ok: "ipv4_udp_ok sample_ipv4"
    by (simp add: ipv4_udp_ok_def sample_ipv4_def ipv4_header_len_def ipv4_total_len_def unat_word16
        word16_def Let_def)
  have port: "word16 (0x16 :: u8) 0x2e = 5678" by (simp add: word16_def)
  have hl: "ipv4_header_len sample_ipv4 = 20" by (simp add: ipv4_header_len_def sample_ipv4_def)
  show ?thesis
    using et ok DecodeUDP_ipv4 [OF et, of zero_udp] hl port
    by (auto simp: Let_def sample_ipv4_def)
qed

section \<open>The authentication header length wraps\<close>

text \<open>
  An IPv6 authentication header whose length byte is 254 announces 1024 bytes, but the code
  adds 2 in eight bits, so the header counts as empty: this 48-byte packet, whose authentication
  header cannot fit, is accepted as clean, and the bytes of the authentication header themselves are
  taken for the UDP header.
\<close>

definition sample_ah :: bytes where
  "sample_ah = [0x60, 0, 0, 0, 0, 8, 51, 64] @ replicate 32 0 @ [17, 254, 0, 0, 0, 8, 0, 0]"

lemma DecodeUDP_ah_length_wraps:
  "40 + (unat (sample_ah ! 41) + 2) * 4 > length sample_ah \<and>
   (\<exists>u. DecodeUDP (Some (zero_frame\<lparr>eth_EtherType := EtherTypeIPv6, eth_Payload := sample_ah\<rparr>))
      (Some zero_udp) = Some (clean_status, Some u) \<and>
      udp_SourcePort u = word16 17 254 \<and> udp_Payload u = [])"
proof -
  have len: "length sample_ah = 48" by (simp add: sample_ah_def)
  have hdr: "sample_ah ! 0 = 0x60" "word16 (sample_ah ! 4) (sample_ah ! 5) = 8" "sample_ah ! 6 = 51"
    "sample_ah ! 40 = 17" "sample_ah ! 41 = 254"
    by (simp_all add: sample_ah_def word16_def nth_append)
  have pl: "drop 40 sample_ah = [17, 254, 0, 0, 0, 8, 0, 0]" by (simp add: sample_ah_def)
  have loop: "ext_loop sample_ah 48 clean_status 51 40 max_ext_headers = Some (Inr 40)"
    by (simp add: ext_loop.simps max_ext_headers_def len hdr)
  obtain d where 6: "udp_ipv6 sample_ah clean_status zero_udp = Some (Inr [17, 254, 0, 0, 0, 8, 0, 0], d)"
    using hdr loop by (auto simp: udp_ipv6_def len pl)
  show ?thesis
    using 6 by (simp add: len hdr DecodeUDP_def decode_udp_def UDPPacket_Reset_def ethertype_defs
        udp_header_def word16_def)
qed

end
