(* ===== verification/Decoder.thy ===== *)
theory Decoder
  imports Ethernet
begin

text \<open>
  The contract the protocol decoders share, as the engine's workers use them: each worker keeps one
  message and decodes every packet into it. The contract is stated once as a locale and
  interpreted for LLDP, CDP, MNDP and mDNS where they are modelled.
\<close>

section \<open>Two runs that agree\<close>

text \<open>\<open>agree R m n\<close>: both computations panic, or both return and their results are related.\<close>

definition agree :: "('a \<Rightarrow> 'b \<Rightarrow> bool) \<Rightarrow> 'a run \<Rightarrow> 'b run \<Rightarrow> bool" where
  "agree R m n = rel_option R m n"

lemma agree_Some [simp]: "agree R (Some x) (Some y) = R x y"
  by (simp add: agree_def)

lemma agree_None [simp]: "agree R None None"
  by (simp add: agree_def)

lemma agree_bind:
  "agree R m n \<Longrightarrow> (\<And>x y. R x y \<Longrightarrow> agree S (f x) (g y)) \<Longrightarrow>
   agree S (Option.bind m f) (Option.bind n g)"
  by (cases m; cases n) (auto simp: agree_def)

lemma agree_bind_same:
  "(\<And>x. m = Some x \<Longrightarrow> agree S (f x) (g x)) \<Longrightarrow> agree S (Option.bind m f) (Option.bind m g)"
  by (cases m) auto

lemma agree_if:
  "(c \<Longrightarrow> agree R m m') \<Longrightarrow> (\<not> c \<Longrightarrow> agree R n n') \<Longrightarrow>
   agree R (if c then m else n) (if c then m' else n')"
  by simp

lemma agree_SomeD: "agree R m n \<Longrightarrow> m = Some x \<Longrightarrow> \<exists>y. n = Some y \<and> R x y"
  by (cases n) (auto simp: agree_def)

text \<open>Status and message, up to what a reader can see of the message.\<close>

definition same_result :: "('m \<Rightarrow> 'v) \<Rightarrow> 'a \<times> 'm \<Rightarrow> 'a \<times> 'm \<Rightarrow> bool" where
  "same_result view r s = (fst r = fst s \<and> view (snd r) = view (snd s))"

lemma same_result_Pair [simp]: "same_result view (a, m) (b, n) \<longleftrightarrow> a = b \<and> view m = view n"
  by (simp add: same_result_def)

section \<open>The contract\<close>

text \<open>\<open>for slot := range queue { status = decode(slot.data, &msg) }\<close>\<close>

fun decode_all ::
  "(bytes \<Rightarrow> 'm ptr \<Rightarrow> (DecodeStatus \<times> 'm ptr) run) \<Rightarrow> bytes list \<Rightarrow> 'm \<Rightarrow>
   (DecodeStatus \<times> 'm) list run" where
  "decode_all decode [] m = Some []"
| "decode_all decode (b # bs) m = do {
     (st, p) \<leftarrow> decode b (Some m);
     case p of
       None \<Rightarrow> None
     | Some m' \<Rightarrow> do { rest \<leftarrow> decode_all decode bs m'; Some ((st, m') # rest) }
   }"

locale message_decoder =
  fixes decode :: "bytes \<Rightarrow> 'm ptr \<Rightarrow> (DecodeStatus \<times> 'm ptr) run"
    and view :: "'m \<Rightarrow> 'v"
  assumes decode_nil:
    "decode b None = Some (addIssue clean_status DecodeFatal IssueNilDestination 0 0, None)"
  and decode_total: "\<exists>st m'. decode b (Some m) = Some (st, Some m')"
  and decode_reuse:
    "decode b (Some m) = Some (st, Some m') \<Longrightarrow>
     \<exists>n'. decode b (Some n) = Some (st, Some n') \<and> view n' = view m'"
begin

lemma decode_never_panics: "decode b p \<noteq> None"
proof (cases p)
  case None
  then show ?thesis by (simp add: decode_nil)
next
  case (Some m)
  with decode_total [of b m] show ?thesis by auto
qed

lemma decode_deterministic_view:
  assumes "decode b (Some m) = Some (st, Some m')" "decode b (Some n) = Some (st', Some n')"
  shows "st = st' \<and> view m' = view n'"
  using decode_reuse [OF assms(1), of n] assms(2) by auto

text \<open>
  A worker that reuses one message for every packet sees, packet by packet, what it would see with
  a fresh message each time.
\<close>

lemma decode_all_fresh:
  "\<exists>rs. decode_all decode bs m = Some rs \<and>
     list_all2 (\<lambda>b (st, v). \<exists>m'. decode b (Some fresh) = Some (st, Some m') \<and> view v = view m') bs rs"
proof (induction bs arbitrary: m)
  case Nil
  then show ?case by simp
next
  case (Cons b bs)
  obtain st m' where d: "decode b (Some m) = Some (st, Some m')" using decode_total by blast
  obtain f' where f: "decode b (Some fresh) = Some (st, Some f')" "view f' = view m'"
    using decode_reuse [OF d] by blast
  from Cons.IH [of m'] d f show ?case by auto
qed

end

section \<open>Walking over a sequence of elements\<close>

text \<open>
  CDP and MNDP packets are a header and a sequence of type-length-value elements. A \<open>step\<close> handles
  one element at its offset; \<open>emit\<close> lays an element out as bytes.
\<close>

type_synonym element = "u16 \<times> bytes"

definition emits :: "(u16 \<Rightarrow> bytes \<Rightarrow> bytes) \<Rightarrow> element list \<Rightarrow> bytes" where
  "emits emit xs = concat (map (\<lambda>(t, v). emit t v) xs)"

lemma emits_simps [simp]: "emits emit [] = []" "emits emit ((t, v) # xs) = emit t v @ emits emit xs"
  by (simp_all add: emits_def)

lemma emits_append [simp]: "emits emit (xs @ ys) = emits emit xs @ emits emit ys"
  by (simp add: emits_def)

fun walk ::
  "(u16 \<Rightarrow> bytes \<Rightarrow> nat \<Rightarrow> 's \<Rightarrow> 's run) \<Rightarrow> (u16 \<Rightarrow> bytes \<Rightarrow> bytes) \<Rightarrow> element list \<Rightarrow> nat \<Rightarrow> 's \<Rightarrow> 's run" where
  "walk step emit [] off s = Some s"
| "walk step emit ((t, v) # xs) off s = do {
     s' \<leftarrow> step t v off s;
     walk step emit xs (off + length (emit t v)) s'
   }"

lemma walk_append:
  "walk step emit (xs @ ys) off s = do {
     s' \<leftarrow> walk step emit xs off s; walk step emit ys (off + length (emits emit xs)) s' }"
  by (induction step emit xs off s rule: walk.induct) (auto split: bind_splits simp: add.assoc)

text \<open>
  The contract between a loop over the bytes and the step over one element: the loop ends at the end
  of the bytes, an element that fits is handed to the step, and anything else that is left makes the
  result bad. \<open>good\<close> is the invariant of the loop's state, which a status that is no longer usable
  breaks.
\<close>

locale element_walker =
  fixes loop :: "bytes \<Rightarrow> nat \<Rightarrow> 's \<Rightarrow> 's run"
    and step :: "u16 \<Rightarrow> bytes \<Rightarrow> nat \<Rightarrow> 's \<Rightarrow> 's run"
    and emit :: "u16 \<Rightarrow> bytes \<Rightarrow> bytes"
    and ok :: "u16 \<Rightarrow> bytes \<Rightarrow> bool"
    and good :: "'s \<Rightarrow> bool"
    and bad :: "'s \<Rightarrow> bool"
  assumes loop_end: "loop b (length b) s = Some s"
    and loop_step: "ok t v \<Longrightarrow> good s \<Longrightarrow> loop (pre @ emit t v @ post) (length pre) s = do {
      s' \<leftarrow> step t v (length pre) s; loop (pre @ emit t v @ post) (length (pre @ emit t v)) s' }"
    and loop_stop: "good s \<Longrightarrow> off < length b \<Longrightarrow>
      \<not> (\<exists>t v post. ok t v \<and> drop off b = emit t v @ post) \<Longrightarrow>
      \<exists>s'. loop b off s = Some s' \<and> bad s'"
    and good_not_bad: "good s \<Longrightarrow> \<not> bad s"
    and step_good: "good s \<Longrightarrow> \<exists>s'. step t v off s = Some s' \<and> good s'"
    and emit_nonempty: "emit t v \<noteq> []"
begin

lemma loop_walk:
  "(\<And>t v. (t, v) \<in> set xs \<Longrightarrow> ok t v) \<Longrightarrow> good s \<Longrightarrow>
   loop (pre @ emits emit xs) (length pre) s = walk step emit xs (length pre) s"
proof (induction xs arbitrary: pre s)
  case Nil
  then show ?case using loop_end [of pre s] by simp
next
  case (Cons x xs)
  obtain t v where x: "x = (t, v)" by (cases x)
  obtain s' where s': "step t v (length pre) s = Some s'" "good s'"
    using step_good [OF Cons.prems(2)] by blast
  have "loop (pre @ emit t v @ emits emit xs) (length pre) s =
      loop ((pre @ emit t v) @ emits emit xs) (length (pre @ emit t v)) s'"
    using loop_step [of t v s pre "emits emit xs"] Cons.prems s'(1) by (simp add: x)
  also have "\<dots> = walk step emit xs (length (pre @ emit t v)) s'"
    using Cons.prems s'(2) by (intro Cons.IH) auto
  finally show ?case using s'(1) by (simp add: x)
qed

lemma walk_good: "good s \<Longrightarrow> \<exists>s'. walk step emit xs off s = Some s' \<and> good s'"
proof (induction xs arbitrary: off s)
  case Nil
  then show ?case by simp
next
  case (Cons x xs)
  obtain t v where x: "x = (t, v)" by (cases x)
  obtain s' where "step t v off s = Some s'" "good s'" using step_good [OF Cons.prems] by blast
  with Cons.IH [of s'] show ?case by (simp add: x)
qed

lemma loop_cases:
  "good s \<Longrightarrow> off \<le> length b \<Longrightarrow>
   (\<exists>xs. (\<forall>(t, v) \<in> set xs. ok t v) \<and> drop off b = emits emit xs) \<or>
   (\<exists>s'. loop b off s = Some s' \<and> bad s')"
proof (induction "length b - off" arbitrary: off s rule: less_induct)
  case less
  show ?case
  proof (cases "off = length b")
    case True
    then have "drop off b = emits emit []" by simp
    then show ?thesis by (intro disjI1 exI [of _ "[]"]) simp
  next
    case False
    with less.prems(2) have lt: "off < length b" by simp
    show ?thesis
    proof (cases "\<exists>t v post. ok t v \<and> drop off b = emit t v @ post")
      case False
      with loop_stop [OF less.prems(1) lt] show ?thesis by simp
    next
      case True
      then obtain t v post where tv: "ok t v" "drop off b = emit t v @ post" by blast
      define pre where "pre = take off b"
      have pre: "length pre = off" "b = pre @ emit t v @ post"
        using less.prems(2) tv(2) by (simp_all add: pre_def) (metis append_take_drop_id)
      obtain s' where s': "step t v off s = Some s'" "good s'"
        using step_good [OF less.prems(1)] by blast
      let ?o = "length (pre @ emit t v)"
      have next': "loop b off s = loop b ?o s'"
        using loop_step [OF tv(1) less.prems(1), of pre post] s'(1) pre by simp
      have "length b - ?o < length b - off" "?o \<le> length b"
        using pre emit_nonempty [of t v] lt by auto
      from less.hyps [OF this(1) s'(2) this(2)] show ?thesis
      proof
        assume "\<exists>xs. (\<forall>(t, v) \<in> set xs. ok t v) \<and> drop ?o b = emits emit xs"
        then obtain xs where xs: "\<forall>(t, v) \<in> set xs. ok t v" "drop ?o b = emits emit xs" by blast
        have "drop off b = emits emit ((t, v) # xs)"
          using tv(2) xs(2) pre by (simp add: pre(2))
        with xs(1) tv(1) show ?thesis by (intro disjI1 exI [of _ "(t, v) # xs"]) auto
      qed (auto simp: next')
    qed
  qed
qed

text \<open>
  The loop never panics; it ends well exactly on a sequence of elements, and then it has walked over
  them one by one.
\<close>

lemma loop_result:
  assumes "good s"
  shows "\<exists>s'. loop (pre @ b) (length pre) s = Some s' \<and>
    (bad s' \<or> good s' \<and> (\<exists>xs. (\<forall>(t, v) \<in> set xs. ok t v) \<and> b = emits emit xs \<and>
      walk step emit xs (length pre) s = Some s'))"
  using loop_cases [OF assms, of "length pre" "pre @ b"]
proof
  assume "\<exists>xs. (\<forall>(t, v) \<in> set xs. ok t v) \<and> drop (length pre) (pre @ b) = emits emit xs"
  then obtain xs where xs: "\<forall>(t, v) \<in> set xs. ok t v" "b = emits emit xs" by auto
  obtain s' where s': "walk step emit xs (length pre) s = Some s'" "good s'"
    using walk_good [OF assms] by blast
  have "loop (pre @ b) (length pre) s = Some s'"
    using loop_walk [of xs s pre] xs s'(1) assms by auto
  with xs s' show ?thesis by blast
qed auto

lemma loop_good_iff:
  assumes "good s"
  shows "(\<exists>s'. loop (pre @ b) (length pre) s = Some s' \<and> \<not> bad s') \<longleftrightarrow>
    (\<exists>xs. (\<forall>(t, v) \<in> set xs. ok t v) \<and> b = emits emit xs)"
proof
  assume "\<exists>s'. loop (pre @ b) (length pre) s = Some s' \<and> \<not> bad s'"
  with loop_result [OF assms, of pre b]
  show "\<exists>xs. (\<forall>(t, v) \<in> set xs. ok t v) \<and> b = emits emit xs" by auto
next
  assume "\<exists>xs. (\<forall>(t, v) \<in> set xs. ok t v) \<and> b = emits emit xs"
  then obtain xs where xs: "\<forall>(t, v) \<in> set xs. ok t v" "b = emits emit xs" by blast
  then have "loop (pre @ b) (length pre) s = walk step emit xs (length pre) s"
    using loop_walk [of xs s pre] assms by auto
  then show "\<exists>s'. loop (pre @ b) (length pre) s = Some s' \<and> \<not> bad s'"
    using walk_good [OF assms] good_not_bad by fastforce
qed

end

end
