(* ===== verification/LLDP.thy ===== *)
theory LLDP
  imports Decoder
begin

text \<open>
  The model of \<open>pkg/omnidiscover/lldp.go\<close>: the LLDP data unit as a sequence of type-length-value
  elements, decoded into a message whose storage is reused from packet to packet.
\<close>

section \<open>Messages\<close>

definition MaxLLDPDUSize :: nat where "MaxLLDPDUSize = 1500"

definition lldpEnd :: u8 where "lldpEnd = 0"
definition lldpChassisID :: u8 where "lldpChassisID = 1"
definition lldpPortID :: u8 where "lldpPortID = 2"
definition lldpTTL :: u8 where "lldpTTL = 3"
definition lldpPortDescription :: u8 where "lldpPortDescription = 4"
definition lldpSystemName :: u8 where "lldpSystemName = 5"
definition lldpSystemDescription :: u8 where "lldpSystemDescription = 6"
definition lldpSystemCapabilities :: u8 where "lldpSystemCapabilities = 7"
definition lldpManagementAddress :: u8 where "lldpManagementAddress = 8"
definition lldpOrganizational :: u8 where "lldpOrganizational = 9"

lemmas lldp_type_defs =
  lldpEnd_def lldpChassisID_def lldpPortID_def lldpTTL_def lldpPortDescription_def
  lldpSystemName_def lldpSystemDescription_def lldpSystemCapabilities_def
  lldpManagementAddress_def lldpOrganizational_def

record LLDPMessage =
  lldp_SourceMAC :: MAC
  lldp_CaptureVLANs :: "u16 list"
  lldp_CaptureVLANCount :: u8
  lldp_ChassisID :: Identifier
  lldp_PortID :: Identifier
  lldp_TTLSeconds :: u16
  lldp_SystemName :: bytes
  lldp_ManagementAddresses :: "ManagementAddress slab"
  lldp_Details :: LLDPDetails

definition zero_management :: ManagementAddress where
  "zero_management = \<lparr>ma_Subtype = 0, ma_Address = [], ma_InterfaceSubtype = 0,
     ma_InterfaceNumber = 0, ma_OID = []\<rparr>"

definition zero_vlan :: VLAN where
  "zero_vlan = \<lparr>vlan_ID = 0, vlan_Name = []\<rparr>"

definition zero_aggregation :: LinkAggregation where
  "zero_aggregation = \<lparr>la_Present = False, la_Supported = False, la_Enabled = False, la_ID = 0\<rparr>"

definition zero_macphy :: MACPHY where
  "zero_macphy = \<lparr>phy_Present = False, phy_AutonegSupported = False, phy_AutonegEnabled = False,
     phy_AdvertisedCapabilities = 0, phy_OperationalMAUType = 0\<rparr>"

definition LLDPMessage_Reset :: "LLDPMessage \<Rightarrow> LLDPMessage" where
  "LLDPMessage_Reset m =
     m\<lparr>lldp_SourceMAC := zero_mac,
       lldp_CaptureVLANs := replicate maxVLANTags 0,
       lldp_CaptureVLANCount := 0,
       lldp_ChassisID := (lldp_ChassisID m)\<lparr>id_Subtype := 0, id_Value := []\<rparr>,
       lldp_PortID := (lldp_PortID m)\<lparr>id_Subtype := 0, id_Value := []\<rparr>,
       lldp_TTLSeconds := 0,
       lldp_SystemName := [],
       lldp_ManagementAddresses :=
         slab_reset (\<lambda>a. a\<lparr>ma_Address := [], ma_OID := []\<rparr>) (lldp_ManagementAddresses m),
       lldp_Details := (lldp_Details m)\<lparr>
         ld_PortDescription := [],
         ld_SystemDescription := [],
         ld_VLANs := slab_reset (\<lambda>v. v\<lparr>vlan_Name := []\<rparr>) (ld_VLANs (lldp_Details m)),
         ld_SystemCapabilities := 0,
         ld_EnabledCapabilities := 0,
         ld_PVID := 0,
         ld_HasPVID := False,
         ld_LinkAggregation := zero_aggregation,
         ld_MACPHY := zero_macphy,
         ld_MaximumFrameSize := 0,
         ld_HasMaximumFrameSize := False\<rparr>\<rparr>"

section \<open>The elements\<close>

definition isLLDPSingleton :: "u8 \<Rightarrow> bool" where
  "isLLDPSingleton t =
     (t = lldpChassisID \<or> t = lldpPortID \<or> t = lldpTTL \<or> t = lldpPortDescription \<or>
      t = lldpSystemName \<or> t = lldpSystemDescription \<or> t = lldpSystemCapabilities)"

definition decodeLLDPManagement :: "bytes \<Rightarrow> LLDPMessage \<Rightarrow> (bool \<times> LLDPMessage) run" where
  "decodeLLDPManagement v dst =
     (if length v < 8 then Some (False, dst)
      else do {
        v0 \<leftarrow> idx v 0;
        let addrLen = unat v0;
        if addrLen < 1 \<or> addrLen > 31 \<or> 1 + addrLen + 6 > length v then Some (False, dst)
        else do {
          let base = 1 + addrLen;
          ol \<leftarrow> idx v (base + 5);
          let oidLen = unat ol;
          if base + 6 + oidLen \<noteq> length v then Some (False, dst)
          else do {
            let i = length (live (lldp_ManagementAddresses dst));
            let slots = slab_grow zero_management (lldp_ManagementAddresses dst);
            subtype \<leftarrow> idx v 1;
            address \<leftarrow> gslice v 2 (1 + addrLen);
            ifsub \<leftarrow> idx v base;
            nb \<leftarrow> gslice v (base + 1) (base + 5);
            ifnum \<leftarrow> be32 nb;
            oid \<leftarrow> gslice_from v (base + 6);
            slots \<leftarrow> slab_modify i (\<lambda>m. m\<lparr>ma_Subtype := subtype,
              ma_Address := copyBytes (ma_Address m) address,
              ma_InterfaceSubtype := ifsub, ma_InterfaceNumber := ifnum,
              ma_OID := copyBytes (ma_OID m) oid\<rparr>) slots;
            Some (True, dst\<lparr>lldp_ManagementAddresses := slots\<rparr>)
          }
        }
      })"

definition org_8021 :: "u8 \<Rightarrow> bytes \<Rightarrow> LLDPDetails \<Rightarrow> (bool \<times> LLDPDetails) run" where
  "org_8021 subtype body d =
     (if subtype = 1 then
        if length body \<noteq> 2 then Some (False, d)
        else do { pvid \<leftarrow> be16 body; Some (True, d\<lparr>ld_PVID := pvid, ld_HasPVID := True\<rparr>) }
      else if subtype = 3 then
        if length body < 3 then Some (False, d)
        else do {
          b2 \<leftarrow> idx body 2;
          let n = unat b2;
          if 3 + n \<noteq> length body then Some (False, d)
          else do {
            let i = length (live (ld_VLANs d));
            let slots = slab_grow zero_vlan (ld_VLANs d);
            idb \<leftarrow> gslice body 0 2;
            vid \<leftarrow> be16 idb;
            name \<leftarrow> gslice_from body 3;
            slots \<leftarrow> slab_modify i (\<lambda>v. v\<lparr>vlan_ID := vid, vlan_Name := copyBytes (vlan_Name v) name\<rparr>) slots;
            Some (True, d\<lparr>ld_VLANs := slots\<rparr>)
          }
        }
      else if subtype = 7 then
        if length body \<noteq> 5 then Some (False, d)
        else do {
          b0 \<leftarrow> idx body 0;
          idb \<leftarrow> gslice_from body 1;
          aid \<leftarrow> be32 idb;
          Some (True, d\<lparr>ld_LinkAggregation := \<lparr>la_Present = True, la_Supported = (b0 AND 1 \<noteq> 0),
            la_Enabled = (b0 AND 2 \<noteq> 0), la_ID = aid\<rparr>\<rparr>)
        }
      else Some (True, d))"

definition org_8023 :: "u8 \<Rightarrow> bytes \<Rightarrow> LLDPDetails \<Rightarrow> (bool \<times> LLDPDetails) run" where
  "org_8023 subtype body d =
     (if subtype = 1 then
        if length body \<noteq> 5 then Some (False, d)
        else do {
          b0 \<leftarrow> idx body 0;
          ab \<leftarrow> gslice body 1 3;
          adv \<leftarrow> be16 ab;
          ob \<leftarrow> gslice body 3 5;
          oper \<leftarrow> be16 ob;
          Some (True, d\<lparr>ld_MACPHY := \<lparr>phy_Present = True, phy_AutonegSupported = (b0 AND 1 \<noteq> 0),
            phy_AutonegEnabled = (b0 AND 2 \<noteq> 0), phy_AdvertisedCapabilities = adv,
            phy_OperationalMAUType = oper\<rparr>\<rparr>)
        }
      else if subtype = 4 then
        if length body \<noteq> 2 then Some (False, d)
        else do {
          size \<leftarrow> be16 body;
          Some (True, d\<lparr>ld_MaximumFrameSize := size, ld_HasMaximumFrameSize := True\<rparr>)
        }
      else Some (True, d))"

definition decodeLLDPOrganizational :: "bytes \<Rightarrow> LLDPMessage \<Rightarrow> (bool \<times> LLDPMessage) run" where
  "decodeLLDPOrganizational v dst =
     (if length v < 4 then Some (False, dst)
      else do {
        body \<leftarrow> gslice_from v 4;
        subtype \<leftarrow> idx v 3;
        v0 \<leftarrow> idx v 0; v1 \<leftarrow> idx v 1; v2 \<leftarrow> idx v 2;
        (valid, d) \<leftarrow>
          (if v0 = 0x00 \<and> v1 = 0x80 \<and> v2 = 0xc2 then org_8021 subtype body (lldp_Details dst)
           else if v0 = 0x00 \<and> v1 = 0x12 \<and> v2 = 0x0f then org_8023 subtype body (lldp_Details dst)
           else Some (True, lldp_Details dst));
        Some (valid, dst\<lparr>lldp_Details := d\<rparr>)
      })"

text \<open>The switch over the element type: whether the element is valid, and the message after it.\<close>

definition lldp_element :: "u8 \<Rightarrow> nat \<Rightarrow> bytes \<Rightarrow> LLDPMessage \<Rightarrow> (bool \<times> LLDPMessage) run" where
  "lldp_element typ len value dst =
     (if typ = lldpChassisID then
        if len \<ge> 2 then do {
          s \<leftarrow> idx value 0;
          x \<leftarrow> gslice_from value 1;
          Some (True, dst\<lparr>lldp_ChassisID := (lldp_ChassisID dst)\<lparr>id_Subtype := s,
            id_Value := copyBytes (id_Value (lldp_ChassisID dst)) x\<rparr>\<rparr>)
        } else Some (False, dst)
      else if typ = lldpPortID then
        if len \<ge> 2 then do {
          s \<leftarrow> idx value 0;
          x \<leftarrow> gslice_from value 1;
          Some (True, dst\<lparr>lldp_PortID := (lldp_PortID dst)\<lparr>id_Subtype := s,
            id_Value := copyBytes (id_Value (lldp_PortID dst)) x\<rparr>\<rparr>)
        } else Some (False, dst)
      else if typ = lldpTTL then
        if len = 2 then do {
          ttl \<leftarrow> be16 value;
          Some (True, dst\<lparr>lldp_TTLSeconds := ttl\<rparr>)
        } else Some (False, dst)
      else if typ = lldpPortDescription then
        Some (True, dst\<lparr>lldp_Details := (lldp_Details dst)\<lparr>ld_PortDescription :=
          copyBytes (ld_PortDescription (lldp_Details dst)) value\<rparr>\<rparr>)
      else if typ = lldpSystemName then
        Some (True, dst\<lparr>lldp_SystemName := copyBytes (lldp_SystemName dst) value\<rparr>)
      else if typ = lldpSystemDescription then
        Some (True, dst\<lparr>lldp_Details := (lldp_Details dst)\<lparr>ld_SystemDescription :=
          copyBytes (ld_SystemDescription (lldp_Details dst)) value\<rparr>\<rparr>)
      else if typ = lldpSystemCapabilities then
        if len = 4 then do {
          cb \<leftarrow> gslice value 0 2;
          caps \<leftarrow> be16 cb;
          eb \<leftarrow> gslice_from value 2;
          enabled \<leftarrow> be16 eb;
          Some (True, dst\<lparr>lldp_Details := (lldp_Details dst)\<lparr>ld_SystemCapabilities := caps,
            ld_EnabledCapabilities := enabled\<rparr>\<rparr>)
        } else Some (False, dst)
      else if typ = lldpManagementAddress then decodeLLDPManagement value dst
      else if typ = lldpOrganizational then decodeLLDPOrganizational value dst
      else Some (True, dst))"

section \<open>The loop over the elements\<close>

text \<open>
  One round of the loop, from the order check on. \<open>Inl\<close> leaves the loop: by a return with a fatal
  issue, or by the break at the end element. \<open>Inr\<close> goes on with the next element.
\<close>

type_synonym lldp_state = "nat \<times> bool list \<times> DecodeStatus \<times> LLDPMessage"

definition lldp_tlv ::
  "u8 \<Rightarrow> nat \<Rightarrow> bytes \<Rightarrow> nat \<Rightarrow> lldp_state \<Rightarrow> ((DecodeStatus \<times> LLDPMessage) + lldp_state) run" where
  "lldp_tlv typ len value headerOff = (\<lambda>(mandatory, seen, st, dst).
     if mandatory < 3 \<and> typ \<noteq> of_nat (mandatory + 1) then
       Some (Inl (addIssue st DecodeFatal IssueInvalidMandatoryOrder headerOff (ucast typ), dst))
     else do {
       let mandatory = (if mandatory < 3 then mandatory + 1 else mandatory);
       if typ = lldpEnd then
         if len \<noteq> 0 \<or> mandatory \<noteq> 3 then
           Some (Inl (addIssue st DecodeFatal IssueInvalidTLVLength headerOff 0, dst))
         else Some (Inl (st, dst))
       else do {
         dup \<leftarrow> idx seen (unat typ);
         if dup \<and> isLLDPSingleton typ then
           Some (Inr (mandatory, seen,
             addIssue st DecodePartial IssueDuplicateTLV headerOff (ucast typ), dst))
         else do {
           (valid, dst) \<leftarrow> lldp_element typ len value dst;
           if \<not> valid then
             if typ \<ge> lldpChassisID \<and> typ \<le> lldpTTL then
               Some (Inl (addIssue st DecodeFatal IssueInvalidTLVLength headerOff (ucast typ), dst))
             else
               Some (Inr (mandatory, seen,
                 addIssue st DecodePartial IssueInvalidTLVLength headerOff (ucast typ), dst))
           else do {
             seen \<leftarrow> upd seen (unat typ) True;
             Some (Inr (mandatory, seen, st, dst))
           }
         }
       }
     })"

function lldp_loop :: "bytes \<Rightarrow> nat \<Rightarrow> lldp_state \<Rightarrow> (DecodeStatus \<times> LLDPMessage) run" where
  "lldp_loop pdu off state =
     (if off + 2 \<le> length pdu then do {
        hb \<leftarrow> gslice pdu off (off + 2);
        head \<leftarrow> be16 hb;
        let typ = (ucast (drop_bit 9 head) :: u8);
        let len = unat (head AND 0x01ff);
        if off + 2 + len > length pdu then
          (case state of (mandatory, seen, st, dst) \<Rightarrow>
             Some (addIssue st DecodeFatal IssueTruncatedTLV off (ucast typ), dst))
        else do {
          value \<leftarrow> gslice pdu (off + 2) (off + 2 + len);
          r \<leftarrow> lldp_tlv typ len value off state;
          case r of
            Inl result \<Rightarrow> Some result
          | Inr state \<Rightarrow> lldp_loop pdu (off + 2 + len) state
        }
      }
      else (case state of (mandatory, seen, st, dst) \<Rightarrow>
        Some (addIssue st DecodeFatal IssueMissingEnd off 0, dst)))"
  by pat_completeness auto
termination
  by (relation "measure (\<lambda>(pdu, off, state). length pdu - off)") auto

declare lldp_loop.simps [simp del]

definition decode_lldp :: "bytes \<Rightarrow> DecodeStatus \<Rightarrow> LLDPMessage \<Rightarrow> (DecodeStatus \<times> LLDPMessage) run" where
  "decode_lldp pdu st dst =
     (if length pdu > MaxLLDPDUSize then
        Some (addIssue st DecodeFatal IssueTooLarge (length pdu) 0, dst)
      else lldp_loop pdu 0 (0, replicate 128 False, st, dst))"

definition DecodeLLDPDU :: "bytes \<Rightarrow> LLDPMessage ptr \<Rightarrow> (DecodeStatus \<times> LLDPMessage ptr) run" where
  "DecodeLLDPDU pdu dst =
     (case dst of
        None \<Rightarrow> Some (addIssue clean_status DecodeFatal IssueNilDestination 0 0, None)
      | Some m \<Rightarrow> do {
          (st, m) \<leftarrow> decode_lldp pdu clean_status (LLDPMessage_Reset m);
          Some (st, Some m)
        })"

definition DecodeLLDPFrame :: "bytes \<Rightarrow> LLDPMessage ptr \<Rightarrow> (DecodeStatus \<times> LLDPMessage ptr) run" where
  "DecodeLLDPFrame frame dst = do {
     (st, ethp) \<leftarrow> DecodeEthernetFrame frame (Some zero_frame);
     eth \<leftarrow> ethp;
     if \<not> Usable st then Some (st, map_option LLDPMessage_Reset dst)
     else if eth_EtherType eth \<noteq> EtherTypeLLDP then
       Some (addIssue st DecodeFatal IssueWrongProtocol 12 (eth_EtherType eth),
             map_option LLDPMessage_Reset dst)
     else do {
       (st, dst) \<leftarrow> DecodeLLDPDU (eth_Payload eth) dst;
       Some (st, map_option (\<lambda>m. m\<lparr>lldp_SourceMAC := eth_Source eth,
         lldp_CaptureVLANCount := eth_VLANCount eth, lldp_CaptureVLANs := eth_VLANs eth\<rparr>) dst)
     }
   }"

section \<open>Reusing a message\<close>

text \<open>What a reader of a message can see: everything but the spare capacity of its two slices.\<close>

definition Details_view :: "LLDPDetails \<Rightarrow> LLDPDetails" where
  "Details_view d = d\<lparr>ld_VLANs := slab_of (live (ld_VLANs d))\<rparr>"

definition LLDP_view :: "LLDPMessage \<Rightarrow> LLDPMessage" where
  "LLDP_view m =
     m\<lparr>lldp_ManagementAddresses := slab_of (live (lldp_ManagementAddresses m)),
       lldp_Details := Details_view (lldp_Details m)\<rparr>"

lemma live_slab_of [simp]: "live (slab_of xs) = xs"
  by (simp add: slab_of_def)

lemma slab_of_eq [simp]: "slab_of xs = slab_of ys \<longleftrightarrow> xs = ys"
  by (simp add: slab_of_def)

lemma Details_view_eqE:
  assumes "Details_view d' = Details_view d"
  obtains vs where "d' = d\<lparr>ld_VLANs := vs\<rparr>" "live vs = live (ld_VLANs d)"
proof -
  have "d' = d\<lparr>ld_VLANs := ld_VLANs d'\<rparr>"
    using assms by (cases d; cases d') (simp add: Details_view_def)
  moreover have "live (ld_VLANs d') = live (ld_VLANs d)"
    using arg_cong [OF assms, of "\<lambda>d. live (ld_VLANs d)"] by (simp add: Details_view_def)
  ultimately show ?thesis using that by blast
qed

lemma LLDP_view_eqE:
  assumes "LLDP_view n = LLDP_view m"
  obtains ms d where "n = m\<lparr>lldp_ManagementAddresses := ms, lldp_Details := d\<rparr>"
    "live ms = live (lldp_ManagementAddresses m)" "Details_view d = Details_view (lldp_Details m)"
proof -
  have "n = m\<lparr>lldp_ManagementAddresses := lldp_ManagementAddresses n, lldp_Details := lldp_Details n\<rparr>"
    using assms by (cases m; cases n) (simp add: LLDP_view_def)
  moreover have "live (lldp_ManagementAddresses n) = live (lldp_ManagementAddresses m)"
    using arg_cong [OF assms, of "\<lambda>m. live (lldp_ManagementAddresses m)"] by (simp add: LLDP_view_def)
  moreover have "Details_view (lldp_Details n) = Details_view (lldp_Details m)"
    using arg_cong [OF assms, of lldp_Details] by (simp add: LLDP_view_def)
  ultimately show ?thesis using that by blast
qed

lemma LLDP_view_Reset: "LLDP_view (LLDPMessage_Reset m) = LLDP_view (LLDPMessage_Reset n)"
  by (simp add: LLDP_view_def Details_view_def LLDPMessage_Reset_def)

text \<open>
  The message after a step depends on the message before it only through its view: each slot taken
  from spare capacity is written in full.
\<close>

abbreviation same_details :: "bool \<times> LLDPDetails \<Rightarrow> bool \<times> LLDPDetails \<Rightarrow> bool" where
  "same_details \<equiv> same_result Details_view"

abbreviation same_message :: "bool \<times> LLDPMessage \<Rightarrow> bool \<times> LLDPMessage \<Rightarrow> bool" where
  "same_message \<equiv> same_result LLDP_view"

definition grown :: "'a \<Rightarrow> 'a slab \<Rightarrow> 'a" where
  "grown z s = (case spare s of [] \<Rightarrow> z | x # xs \<Rightarrow> x)"

lemma live_slab_grow: "live (slab_grow z s) = live s @ [grown z s]"
  by (simp add: slab_grow_def grown_def split: list.splits)

lemma VLAN_overwrite: "(v :: VLAN)\<lparr>vlan_ID := a, vlan_Name := b\<rparr> = \<lparr>vlan_ID = a, vlan_Name = b\<rparr>"
  by (cases v) simp

lemma ManagementAddress_overwrite:
  "(m :: ManagementAddress)\<lparr>ma_Subtype := a, ma_Address := b, ma_InterfaceSubtype := c,
      ma_InterfaceNumber := e, ma_OID := f\<rparr> =
   \<lparr>ma_Subtype = a, ma_Address = b, ma_InterfaceSubtype = c, ma_InterfaceNumber = e, ma_OID = f\<rparr>"
  by (cases m) simp

lemmas slot_simps = live_slab_grow VLAN_overwrite ManagementAddress_overwrite

lemma agree_const: "R x y \<Longrightarrow> agree R (Some x) (Some y)"
  by simp

lemma org_8021_reuse:
  "Details_view d' = Details_view d \<Longrightarrow> agree same_details (org_8021 t b d') (org_8021 t b d)"
  unfolding org_8021_def Let_def
  by (erule Details_view_eqE)
    (auto simp: Details_view_def slot_simps intro!: agree_if agree_bind_same)

lemma org_8023_reuse:
  "Details_view d' = Details_view d \<Longrightarrow> agree same_details (org_8023 t b d') (org_8023 t b d)"
  unfolding org_8023_def
  by (erule Details_view_eqE) (auto simp: Details_view_def intro!: agree_if agree_bind_same)

lemma decodeLLDPOrganizational_reuse:
  assumes "LLDP_view n = LLDP_view m"
  shows "agree same_message (decodeLLDPOrganizational v n) (decodeLLDPOrganizational v m)"
  using assms unfolding decodeLLDPOrganizational_def
  by (elim LLDP_view_eqE)
    (auto simp: LLDP_view_def same_result_def
      intro!: agree_if agree_bind_same agree_bind [where R = same_details] org_8021_reuse org_8023_reuse)

lemma decodeLLDPManagement_reuse:
  assumes "LLDP_view n = LLDP_view m"
  shows "agree same_message (decodeLLDPManagement v n) (decodeLLDPManagement v m)"
  using assms unfolding decodeLLDPManagement_def Let_def
  by (elim LLDP_view_eqE)
    (auto simp: LLDP_view_def slot_simps intro!: agree_if agree_bind_same)

lemma lldp_element_reuse:
  assumes "LLDP_view n = LLDP_view m"
  shows "agree same_message (lldp_element t len v n) (lldp_element t len v m)"
proof -
  have base: ?thesis if "t \<noteq> lldpManagementAddress" "t \<noteq> lldpOrganizational"
    using assms that unfolding lldp_element_def
    by (elim LLDP_view_eqE Details_view_eqE, hypsubst, intro agree_if agree_bind_same agree_const)
      (simp_all add: LLDP_view_def Details_view_def)
  show ?thesis
  proof (cases "t = lldpManagementAddress \<or> t = lldpOrganizational")
    case True
    then show ?thesis
      using decodeLLDPManagement_reuse [OF assms] decodeLLDPOrganizational_reuse [OF assms]
      by (auto simp: lldp_element_def lldp_type_defs)
  next
    case False
    then show ?thesis by (intro base) auto
  qed
qed

definition same_state :: "lldp_state \<Rightarrow> lldp_state \<Rightarrow> bool" where
  "same_state = (\<lambda>(k, seen, st, m) (k', seen', st', m').
     k = k' \<and> seen = seen' \<and> st = st' \<and> LLDP_view m = LLDP_view m')"

lemma lldp_tlv_reuse:
  assumes "same_state s t"
  shows "agree (rel_sum (same_result LLDP_view) same_state)
    (lldp_tlv typ len v off s) (lldp_tlv typ len v off t)"
proof -
  obtain k seen st n m where s: "s = (k, seen, st, n)" "t = (k, seen, st, m)"
    and view: "LLDP_view n = LLDP_view m"
    using assms by (cases s; cases t) (auto simp: same_state_def)
  show ?thesis
    unfolding s lldp_tlv_def Let_def prod.case
    by (intro agree_if agree_bind_same agree_bind [OF lldp_element_reuse [OF view]])
      (auto simp: view same_state_def split: if_splits intro!: agree_bind_same agree_const)
qed

lemma lldp_loop_reuse:
  "same_state s t \<Longrightarrow>
   agree (same_result LLDP_view) (lldp_loop pdu off s) (lldp_loop pdu off t)"
proof (induction "length pdu - off" arbitrary: off s t rule: less_induct)
  case less
  obtain k seen st n m where s: "s = (k, seen, st, n)" "t = (k, seen, st, m)"
    and view: "LLDP_view n = LLDP_view m"
    using less.prems by (cases s; cases t) (auto simp: same_state_def)
  have IH: "agree (same_result LLDP_view) (lldp_loop pdu (off + 2 + len) a) (lldp_loop pdu (off + 2 + len) b)"
    if "off + 2 \<le> length pdu" "same_state a b" for len a b
    using that by (intro less.hyps) auto
  show ?case
    apply (subst (1 2) lldp_loop.simps)
    unfolding Let_def
    apply (intro agree_if agree_bind_same agree_bind [OF lldp_tlv_reuse [OF less.prems]])
    using IH by (auto simp: s view split: sum.splits)
qed

section \<open>No data unit makes the decoder panic\<close>

lemma decodeLLDPManagement_runs: "runs (decodeLLDPManagement v dst) (\<lambda>_. True)"
  by (auto simp: decodeLLDPManagement_def wp Let_def live_slab_grow)

lemma org_8021_runs: "runs (org_8021 t b d) (\<lambda>_. True)"
  by (auto simp: org_8021_def wp Let_def live_slab_grow)

lemma org_8023_runs: "runs (org_8023 t b d) (\<lambda>_. True)"
  by (auto simp: org_8023_def wp)

lemma decodeLLDPOrganizational_runs: "runs (decodeLLDPOrganizational v dst) (\<lambda>_. True)"
  by (auto simp: decodeLLDPOrganizational_def wp
      intro: runs_mono [OF org_8021_runs] runs_mono [OF org_8023_runs])

text \<open>What an element changes: mandatory fields only by the element of that type.\<close>

lemma lldp_element_runs:
  "len = length v \<Longrightarrow> runs (lldp_element t len v dst) (\<lambda>_. True)"
  by (auto simp: lldp_element_def wp
      intro: decodeLLDPManagement_runs decodeLLDPOrganizational_runs)

lemma unat_tlv_type: "unat (ucast (drop_bit 9 (h :: u16)) :: u8) < 128"
proof -
  have "unat (drop_bit 9 h) = unat h div 512" by (simp add: unat_div_distrib drop_bit_eq_div)
  then have "unat (drop_bit 9 h) < 128" using unat_u16_less [of h] by linarith
  then show ?thesis by (simp add: unsigned_ucast_eq take_bit_nat_eq_self)
qed

lemma lldp_tlv_runs:
  "len = length v \<Longrightarrow> length seen = 128 \<Longrightarrow> unat typ < 128 \<Longrightarrow>
   runs (lldp_tlv typ len v off (k, seen, st, dst))
     (\<lambda>r. case r of Inl _ \<Rightarrow> True | Inr (k, seen, st, dst) \<Rightarrow> length seen = 128)"
  by (auto simp: lldp_tlv_def wp Let_def intro!: runs_mono [OF lldp_element_runs])

lemma lldp_loop_runs:
  "length (fst (snd s)) = 128 \<Longrightarrow> runs (lldp_loop pdu off s) (\<lambda>_. True)"
proof (induction "length pdu - off" arbitrary: off s rule: less_induct)
  case less
  obtain k seen st m where s: "s = (k, seen, st, m)" by (cases s)
  have IH: "runs (lldp_loop pdu (Suc (Suc (off + len))) t) (\<lambda>_. True)"
    if "Suc (Suc off) \<le> length pdu" "length (fst (snd t)) = 128" for len t
    using that by (intro less.hyps) auto
  show ?case
    using less.prems
    by (subst lldp_loop.simps)
      (auto simp: wp Let_def s unat_tlv_type split: sum.splits
        intro!: runs_mono [OF lldp_tlv_runs] IH)
qed

section \<open>The contract of a reusable decoder\<close>

lemma DecodeLLDPDU_nil:
  "DecodeLLDPDU b None = Some (addIssue clean_status DecodeFatal IssueNilDestination 0 0, None)"
  by (simp add: DecodeLLDPDU_def)

lemma decode_lldp_runs: "runs (decode_lldp b st m) (\<lambda>_. True)"
  by (auto simp: decode_lldp_def wp intro!: lldp_loop_runs)

lemma decode_lldp_reuse:
  "LLDP_view n = LLDP_view m \<Longrightarrow>
   agree (same_result LLDP_view) (decode_lldp b st n) (decode_lldp b st m)"
  by (auto simp: decode_lldp_def same_state_def intro!: lldp_loop_reuse)

interpretation lldp: message_decoder DecodeLLDPDU LLDP_view
proof
  show "DecodeLLDPDU b None = Some (addIssue clean_status DecodeFatal IssueNilDestination 0 0, None)" for b
    by (rule DecodeLLDPDU_nil)
next
  fix b m
  show "\<exists>st m'. DecodeLLDPDU b (Some m) = Some (st, Some m')"
    using runs_exD [OF decode_lldp_runs [of b clean_status "LLDPMessage_Reset m"]]
    by (auto simp: DecodeLLDPDU_def)
next
  fix b m st m' n
  assume d: "DecodeLLDPDU b (Some m) = Some (st, Some m')"
  have "agree (same_result LLDP_view) (decode_lldp b clean_status (LLDPMessage_Reset m))
          (decode_lldp b clean_status (LLDPMessage_Reset n))"
    by (rule decode_lldp_reuse [OF LLDP_view_Reset])
  with d show "\<exists>n'. DecodeLLDPDU b (Some n) = Some (st, Some n') \<and> LLDP_view n' = LLDP_view m'"
    by (auto simp: DecodeLLDPDU_def bind_eq_Some_conv' same_result_def dest!: agree_SomeD)
qed

section \<open>Elements on the wire\<close>

definition lldp_head :: "u8 \<Rightarrow> nat \<Rightarrow> u16" where
  "lldp_head t n = of_nat (512 * unat t + n)"

definition tlv :: "u8 \<Rightarrow> bytes \<Rightarrow> bytes" where
  "tlv t v = put16 (lldp_head t (length v)) @ v"

definition tlvs :: "(u8 \<times> bytes) list \<Rightarrow> bytes" where
  "tlvs xs = concat (map (\<lambda>(t, v). tlv t v) xs)"

definition tlv_ok :: "u8 \<Rightarrow> bytes \<Rightarrow> bool" where
  "tlv_ok t v = (unat t < 128 \<and> length v < 512)"

lemma length_tlv [simp]: "length (tlv t v) = 2 + length v"
  by (simp add: tlv_def)

lemma tlvs_simps [simp]: "tlvs [] = []" "tlvs ((t, v) # xs) = tlv t v @ tlvs xs"
  by (simp_all add: tlvs_def)

lemma tlvs_append [simp]: "tlvs (xs @ ys) = tlvs xs @ tlvs ys"
  by (simp add: tlvs_def)

lemma unat_lldp_head: "unat t < 128 \<Longrightarrow> n < 512 \<Longrightarrow> unat (lldp_head t n) = 512 * unat t + n"
  unfolding lldp_head_def unat_of_nat by (simp add: unsigned_of_nat take_bit_nat_eq_self del: of_nat_add of_nat_mult)

lemma unat_and_511: "unat ((h :: u16) AND 511) = unat h mod 512"
proof -
  have "h AND 511 = take_bit 9 h" by (simp add: take_bit_eq_mask mask_eq_exp_minus_1)
  then show ?thesis by (simp add: take_bit_eq_mod unat_mod_distrib)
qed

lemma unat_type_of: "unat (ucast (drop_bit 9 (h :: u16)) :: u8) = unat h div 512"
proof -
  have "unat (drop_bit 9 h) = unat h div 512" by (simp add: unat_div_distrib drop_bit_eq_div)
  moreover from this have "unat (drop_bit 9 h) < 256" using unat_u16_less [of h] by linarith
  ultimately show ?thesis by (simp add: unsigned_ucast_eq take_bit_nat_eq_self)
qed

lemma lldp_head_type: "tlv_ok t v \<Longrightarrow> ucast (drop_bit 9 (lldp_head t (length v))) = t"
  by (simp add: word_unat_eq_iff unat_type_of unat_lldp_head tlv_ok_def)

lemma lldp_head_length: "tlv_ok t v \<Longrightarrow> unat (lldp_head t (length v) AND 511) = length v"
  by (simp add: unat_and_511 unat_lldp_head tlv_ok_def)

lemma lldp_head_of: "lldp_head (ucast (drop_bit 9 h)) (unat (h AND 511)) = h"
  by (simp add: lldp_head_def unat_type_of unat_and_511)

text \<open>The bytes of an element at an offset, as the decoder reads them.\<close>

lemma tlv_at:
  assumes "off + 2 + len \<le> length pdu"
    and "h = word16 (pdu ! off) (pdu ! (off + 1))" and "len = unat (h AND 511)"
  shows "drop off pdu = tlv (ucast (drop_bit 9 h)) (take len (drop (off + 2) pdu)) @ drop (off + 2 + len) pdu"
proof -
  have "drop off pdu = pdu ! off # pdu ! (off + 1) # drop (off + 2) pdu"
    using assms(1) by (simp add: Cons_nth_drop_Suc)
  moreover have "put16 (lldp_head (ucast (drop_bit 9 h)) len) = [pdu ! off, pdu ! (off + 1)]"
    by (simp add: assms(3) lldp_head_of) (simp add: assms(2) put16_word16)
  moreover have "drop (off + 2) pdu = take len (drop (off + 2) pdu) @ drop (off + 2 + len) pdu"
    by (metis append_take_drop_id drop_drop add.commute)
  moreover have "length (take len (drop (off + 2) pdu)) = len" using assms(1) by simp
  ultimately show ?thesis unfolding tlv_def by simp
qed

lemma lldp_loop_tlv:
  assumes "tlv_ok t v"
  shows "lldp_loop (pre @ tlv t v @ post) (length pre) s = do {
      r \<leftarrow> lldp_tlv t (length v) v (length pre) s;
      case r of Inl result \<Rightarrow> Some result
      | Inr s \<Rightarrow> lldp_loop (pre @ tlv t v @ post) (length (pre @ tlv t v)) s }"
proof -
  let ?h = "lldp_head t (length v)"
  have w: "gslice (pre @ tlv t v @ post) (length pre) (length pre + 2) = Some (put16 ?h)"
    "gslice (pre @ tlv t v @ post) (length pre + 2) (length pre + 2 + length v) = Some v"
    by (simp_all add: tlv_def)
  have g: "length pre + 2 \<le> length (pre @ tlv t v @ post)"
    "(length pre + 2 + length v > length (pre @ tlv t v @ post)) = False"
    "length (pre @ tlv t v) = length pre + 2 + length v" by simp_all
  show ?thesis
    unfolding g(3)
    by (subst lldp_loop.simps)
      (simp only: w g(1,2) be16_put16 Let_def bind.bind_lunit lldp_head_type [OF assms]
        lldp_head_length [OF assms] if_True if_False)
qed

text \<open>A run of elements each of which lets the loop go on.\<close>

fun lldp_tlvs :: "(u8 \<times> bytes) list \<Rightarrow> nat \<Rightarrow> lldp_state \<Rightarrow> lldp_state option" where
  "lldp_tlvs [] off s = Some s"
| "lldp_tlvs ((t, v) # xs) off s =
     (case lldp_tlv t (length v) v off s of
        Some (Inr s') \<Rightarrow> lldp_tlvs xs (off + 2 + length v) s'
      | _ \<Rightarrow> None)"

lemma lldp_tlvs_append:
  "lldp_tlvs (xs @ ys) off s =
     (case lldp_tlvs xs off s of None \<Rightarrow> None | Some s' \<Rightarrow> lldp_tlvs ys (off + length (tlvs xs)) s')"
  by (induction xs off s rule: lldp_tlvs.induct)
    (auto split: option.splits sum.splits simp: add.assoc)

lemma lldp_loop_tlvs:
  assumes "\<And>t v. (t, v) \<in> set xs \<Longrightarrow> tlv_ok t v" and "lldp_tlvs xs (length pre) s = Some s'"
  shows "lldp_loop (pre @ tlvs xs @ post) (length pre) s =
         lldp_loop (pre @ tlvs xs @ post) (length (pre @ tlvs xs)) s'"
  using assms
proof (induction xs arbitrary: pre s)
  case Nil
  then show ?case by simp
next
  case (Cons x xs)
  obtain t v where x: "x = (t, v)" by (cases x)
  have ok: "tlv_ok t v" using Cons.prems(1) [of t v] by (simp add: x)
  obtain s1 where s1: "lldp_tlv t (length v) v (length pre) s = Some (Inr s1)"
    "lldp_tlvs xs (length (pre @ tlv t v)) s1 = Some s'"
    using Cons.prems(2) by (auto simp: x split: option.splits sum.splits)
  show ?case
    using lldp_loop_tlv [OF ok, of pre "tlvs xs @ post" s] s1(1)
      Cons.IH [of "pre @ tlv t v" s1] Cons.prems(1) s1(2)
    by (simp add: x add.assoc)
qed

lemma lldp_loop_end:
  "lldp_loop (pre @ tlv lldpEnd [] @ post) (length pre) (3, seen, st, m) = Some (st, m)"
  by (subst lldp_loop_tlv) (simp_all add: tlv_ok_def lldpEnd_def lldp_tlv_def)

text \<open>A data unit whose elements all go on, closed by the end element.\<close>

lemma decode_lldp_tlvs:
  assumes "\<And>t v. (t, v) \<in> set xs \<Longrightarrow> tlv_ok t v"
    and "lldp_tlvs xs 0 (0, replicate 128 False, st, m) = Some (3, seen, st', m')"
    and "length (tlvs xs @ tlv lldpEnd [] @ trailer) \<le> MaxLLDPDUSize"
  shows "decode_lldp (tlvs xs @ tlv lldpEnd [] @ trailer) st m = Some (st', m')"
proof -
  have "lldp_loop (tlvs xs @ tlv lldpEnd [] @ trailer) 0 (0, replicate 128 False, st, m) =
        lldp_loop (tlvs xs @ tlv lldpEnd [] @ trailer) (length (tlvs xs)) (3, seen, st', m')"
    using lldp_loop_tlvs [of xs "[]" "(0, replicate 128 False, st, m)" "(3, seen, st', m')"
        "tlv lldpEnd [] @ trailer"] assms(1,2) by simp
  with assms(3) show ?thesis by (simp add: decode_lldp_def lldp_loop_end)
qed

section \<open>What a usable data unit is\<close>

definition mandatory_fields :: "LLDPMessage \<Rightarrow> Identifier \<times> Identifier \<times> u16" where
  "mandatory_fields m = (lldp_ChassisID m, lldp_PortID m, lldp_TTLSeconds m)"

lemma lldp_element_keeps:
  assumes "t \<noteq> 1" "t \<noteq> 2" "t \<noteq> 3" "lldp_element t len v m = Some (ok, m')"
  shows "mandatory_fields m' = mandatory_fields m"
  using assms
  by (auto simp: mandatory_fields_def lldp_element_def lldp_type_defs decodeLLDPManagement_def
      decodeLLDPOrganizational_def bind_eq_Some_conv' Let_def split: if_splits)

definition mandatory_seen :: "lldp_state \<Rightarrow> bool" where
  "mandatory_seen = (\<lambda>(k, seen, st, m). k = 3 \<and> length seen = 128 \<and> seen ! 1 \<and> seen ! 2 \<and> seen ! 3)"

lemma lldp_tlv_keeps:
  assumes "mandatory_seen s" "lldp_tlv t len v off s = Some r"
  shows "(case r of
      Inl (st', m') \<Rightarrow> Usable st' \<longrightarrow> t = lldpEnd \<and> len = 0 \<and> m' = snd (snd (snd s))
    | Inr s' \<Rightarrow> t \<noteq> lldpEnd \<and> mandatory_seen s' \<and>
        mandatory_fields (snd (snd (snd s'))) = mandatory_fields (snd (snd (snd s))))"
proof (cases "t = 1 \<or> t = 2 \<or> t = 3")
  case True
  with assms show ?thesis
    by (auto simp: lldp_tlv_def mandatory_seen_def lldp_type_defs isLLDPSingleton_def)
next
  case False
  then have t: "t \<noteq> 1" "t \<noteq> 2" "t \<noteq> 3" by auto
  note keeps = lldp_element_keeps [OF t]
  have nt: "unat t \<noteq> 1" "unat t \<noteq> 2" "unat t \<noteq> 3" using t by (auto simp: word_unat_eq_iff)
  obtain seen st m where s: "s = (3, seen, st, m)" "length seen = 128" "seen ! 1" "seen ! 2" "seen ! 3"
    using assms(1) by (cases s) (auto simp: mandatory_seen_def)
  show ?thesis
    using assms(2) nt s(2-5)
    by (auto simp: s(1) lldp_tlv_def mandatory_seen_def Let_def bind_eq_Some_conv' upd_def
        dest!: keeps split: if_splits)
qed

lemma lldp_loop_usable_step:
  assumes "lldp_loop pdu off s = Some (st', m')" "Usable st'"
  obtains t v r where "tlv_ok t v" "drop off pdu = tlv t v @ drop (off + 2 + length v) pdu"
    "off + 2 + length v \<le> length pdu" "lldp_tlv t (length v) v off s = Some r"
    "case r of Inl x \<Rightarrow> x = (st', m')
     | Inr s' \<Rightarrow> lldp_loop pdu (off + 2 + length v) s' = Some (st', m')"
proof -
  have le: "off + 2 \<le> length pdu"
    using assms by (subst (asm) lldp_loop.simps) (auto split: if_splits prod.splits)
  define h where "h = word16 (pdu ! off) (pdu ! (off + 1))"
  define len where "len = unat (h AND 511)"
  define v where "v = take len (drop (off + 2) pdu)"
  let ?t = "ucast (drop_bit 9 h) :: u8"
  have hb: "gslice pdu off (off + 2) = Some (take 2 (drop off pdu))" using le by simp
  have h: "be16 (take 2 (drop off pdu)) = Some h"
    using le by (simp add: h_def)
  have le2: "off + 2 + len \<le> length pdu"
    using assms le hb h
    by (subst (asm) lldp_loop.simps) (auto simp: Let_def len_def split: if_splits prod.splits)
  then have len: "length v = len" by (simp add: v_def)
  have gv: "gslice pdu (off + 2) (off + 2 + len) = Some v" using le2 by (simp add: v_def)
  have "tlv_ok ?t v" using unat_tlv_type [of h] by (simp add: tlv_ok_def len len_def unat_and_511)
  moreover have "drop off pdu = tlv ?t v @ drop (off + 2 + length v) pdu"
    using tlv_at [OF le2 h_def len_def] unfolding len by (simp add: v_def)
  moreover have "\<exists>r. lldp_tlv ?t (length v) v off s = Some r \<and>
     (case r of Inl x \<Rightarrow> x = (st', m')
      | Inr s' \<Rightarrow> lldp_loop pdu (off + 2 + length v) s' = Some (st', m'))"
    using assms(1) le le2 hb h gv
    by (subst (asm) lldp_loop.simps)
      (auto simp: Let_def len len_def [symmetric] bind_eq_Some_conv' split: sum.splits)
  ultimately show ?thesis using that le2 len by blast
qed

lemma lldp_loop_usable:
  "mandatory_seen s \<Longrightarrow> lldp_loop pdu off s = Some (st', m') \<Longrightarrow> Usable st' \<Longrightarrow>
   \<exists>xs trailer. drop off pdu = tlvs xs @ tlv lldpEnd [] @ trailer \<and>
     (\<forall>(t, v) \<in> set xs. tlv_ok t v \<and> t \<noteq> lldpEnd) \<and>
     mandatory_fields m' = mandatory_fields (snd (snd (snd s)))"
proof (induction "length pdu - off" arbitrary: off s rule: less_induct)
  case less
  obtain t v r where tv: "tlv_ok t v" "drop off pdu = tlv t v @ drop (off + 2 + length v) pdu"
    "off + 2 + length v \<le> length pdu" "lldp_tlv t (length v) v off s = Some r"
    "case r of Inl x \<Rightarrow> x = (st', m')
     | Inr s' \<Rightarrow> lldp_loop pdu (off + 2 + length v) s' = Some (st', m')"
    by (rule lldp_loop_usable_step [OF less.prems(2,3)])
  note keeps = lldp_tlv_keeps [OF less.prems(1) tv(4)]
  show ?case
  proof (cases r)
    case (Inl x)
    then have "t = lldpEnd" "v = []" "m' = snd (snd (snd s))"
      using keeps tv(5) less.prems(3) by auto
    moreover from this tv(2) have "drop off pdu = tlvs [] @ tlv lldpEnd [] @ drop (off + 2 + length v) pdu" by simp
    ultimately show ?thesis by (intro exI [of _ "[]"] exI conjI) auto
  next
    case (Inr s')
    have "length pdu - (off + 2 + length v) < length pdu - off" using tv(3) by linarith
    from less.hyps [OF this, of s'] keeps tv(5) less.prems(3) Inr
    obtain xs trailer where xs: "drop (off + 2 + length v) pdu = tlvs xs @ tlv lldpEnd [] @ trailer"
      "\<forall>(t, v) \<in> set xs. tlv_ok t v \<and> t \<noteq> lldpEnd"
      "mandatory_fields m' = mandatory_fields (snd (snd (snd s)))" by auto
    have "drop off pdu = tlvs ((t, v) # xs) @ tlv lldpEnd [] @ trailer"
      using tv(2) xs(1) by simp
    moreover have "\<forall>(t, v) \<in> set ((t, v) # xs). tlv_ok t v \<and> t \<noteq> lldpEnd"
      using xs(2) tv(1) keeps Inr by auto
    ultimately show ?thesis using xs(3) by blast
  qed
qed

text \<open>The three mandatory elements, one round each.\<close>

lemma lldp_tlv_first:
  assumes "lldp_tlv t (length v) v off (0, replicate 128 False, st, m) = Some r"
    "case r of Inl x \<Rightarrow> Usable (fst x) | Inr s' \<Rightarrow> True"
  shows "t = 1 \<and> 2 \<le> length v \<and> r = Inr (1, (replicate 128 False)[1 := True], st,
    m\<lparr>lldp_ChassisID := \<lparr>id_Subtype = v ! 0, id_Value = drop 1 v\<rparr>\<rparr>)"
  using assms
  by (cases "lldp_ChassisID m")
    (auto simp: lldp_tlv_def lldp_element_def lldp_type_defs idx_eq_Some_iff bind_eq_Some_conv'
        split: if_splits)

lemma lldp_tlv_second:
  assumes "lldp_tlv t (length v) v off (1, (replicate 128 False)[1 := True], st, m) = Some r"
    "case r of Inl x \<Rightarrow> Usable (fst x) | Inr s' \<Rightarrow> True"
  shows "t = 2 \<and> 2 \<le> length v \<and> r = Inr (2, (replicate 128 False)[1 := True, 2 := True], st,
    m\<lparr>lldp_PortID := \<lparr>id_Subtype = v ! 0, id_Value = drop 1 v\<rparr>\<rparr>)"
  using assms
  by (cases "lldp_PortID m")
    (auto simp: lldp_tlv_def lldp_element_def lldp_type_defs idx_eq_Some_iff bind_eq_Some_conv'
        split: if_splits)

lemma lldp_tlv_third:
  assumes "lldp_tlv t (length v) v off (2, (replicate 128 False)[1 := True, 2 := True], st, m) = Some r"
    "case r of Inl x \<Rightarrow> Usable (fst x) | Inr s' \<Rightarrow> True"
  shows "t = 3 \<and> length v = 2 \<and> r = Inr (3, (replicate 128 False)[1 := True, 2 := True, 3 := True], st,
    m\<lparr>lldp_TTLSeconds := word16 (v ! 0) (v ! 1)\<rparr>)"
  using assms
  by (auto simp: lldp_tlv_def lldp_element_def lldp_type_defs idx_eq_Some_iff bind_eq_Some_conv'
        split: if_splits)


lemma decode_lldp_usable:
  assumes "decode_lldp pdu st0 m0 = Some (st, m)" "Usable st"
  shows "\<exists>c p ttl xs trailer.
     pdu = tlv 1 c @ tlv 2 p @ tlv 3 ttl @ tlvs xs @ tlv lldpEnd [] @ trailer \<and>
     length pdu \<le> MaxLLDPDUSize \<and> 2 \<le> length c \<and> 2 \<le> length p \<and> length ttl = 2 \<and>
     (\<forall>(t, v) \<in> set xs. tlv_ok t v \<and> t \<noteq> lldpEnd) \<and>
     mandatory_fields m = (\<lparr>id_Subtype = c ! 0, id_Value = drop 1 c\<rparr>,
       \<lparr>id_Subtype = p ! 0, id_Value = drop 1 p\<rparr>, word16 (ttl ! 0) (ttl ! 1))"
proof -
  have le: "length pdu \<le> MaxLLDPDUSize"
    and loop: "lldp_loop pdu 0 (0, replicate 128 False, st0, m0) = Some (st, m)"
    using assms by (auto simp: decode_lldp_def split: if_splits)
  have use: "case r of Inl x \<Rightarrow> Usable (fst x) | Inr s' \<Rightarrow> True"
    if "case r of Inl x \<Rightarrow> x = (st, m) | Inr s' \<Rightarrow> lldp_loop pdu off s' = Some (st, m)" for r off
    using that assms(2) by (auto split: sum.splits)
  from lldp_loop_usable_step [OF loop assms(2)]
  obtain t1 c r1 where 1: "drop 0 pdu = tlv t1 c @ drop (0 + 2 + length c) pdu"
    "lldp_tlv t1 (length c) c 0 (0, replicate 128 False, st0, m0) = Some r1"
    "case r1 of Inl x \<Rightarrow> x = (st, m) | Inr s' \<Rightarrow> lldp_loop pdu (0 + 2 + length c) s' = Some (st, m)"
    by metis
  note r1 = lldp_tlv_first [OF 1(2) use [OF 1(3)]]
  let ?o1 = "0 + 2 + length c"
  from lldp_loop_usable_step [OF 1(3) [simplified r1 [THEN conjunct2, THEN conjunct2] sum.case] assms(2)]
  obtain t2 p r2 where 2: "drop ?o1 pdu = tlv t2 p @ drop (?o1 + 2 + length p) pdu"
    "lldp_tlv t2 (length p) p ?o1 (1, (replicate 128 False)[1 := True], st0,
       m0\<lparr>lldp_ChassisID := \<lparr>id_Subtype = c ! 0, id_Value = drop 1 c\<rparr>\<rparr>) = Some r2"
    "case r2 of Inl x \<Rightarrow> x = (st, m) | Inr s' \<Rightarrow> lldp_loop pdu (?o1 + 2 + length p) s' = Some (st, m)"
    by metis
  note r2 = lldp_tlv_second [OF 2(2) use [OF 2(3)]]
  let ?o2 = "?o1 + 2 + length p"
  from lldp_loop_usable_step [OF 2(3) [simplified r2 [THEN conjunct2, THEN conjunct2] sum.case] assms(2)]
  obtain t3 ttl r3 where 3: "drop ?o2 pdu = tlv t3 ttl @ drop (?o2 + 2 + length ttl) pdu"
    "lldp_tlv t3 (length ttl) ttl ?o2 (2, (replicate 128 False)[1 := True, 2 := True], st0,
       m0\<lparr>lldp_ChassisID := \<lparr>id_Subtype = c ! 0, id_Value = drop 1 c\<rparr>,
          lldp_PortID := \<lparr>id_Subtype = p ! 0, id_Value = drop 1 p\<rparr>\<rparr>) = Some r3"
    "case r3 of Inl x \<Rightarrow> x = (st, m) | Inr s' \<Rightarrow> lldp_loop pdu (?o2 + 2 + length ttl) s' = Some (st, m)"
    by metis
  note r3 = lldp_tlv_third [OF 3(2) use [OF 3(3)]]
  have "mandatory_seen (3, (replicate 128 False)[1 := True, 2 := True, 3 := True], st0, x)" for x
    by (simp add: mandatory_seen_def)
  from lldp_loop_usable [OF this 3(3) [simplified r3 [THEN conjunct2, THEN conjunct2] sum.case] assms(2)]
  obtain xs trailer where 4: "drop (?o2 + 2 + length ttl) pdu = tlvs xs @ tlv lldpEnd [] @ trailer"
    "\<forall>(t, v) \<in> set xs. tlv_ok t v \<and> t \<noteq> lldpEnd"
    "mandatory_fields m = (\<lparr>id_Subtype = c ! 0, id_Value = drop 1 c\<rparr>,
       \<lparr>id_Subtype = p ! 0, id_Value = drop 1 p\<rparr>, word16 (ttl ! 0) (ttl ! 1))"
    by (auto simp: mandatory_fields_def)
  have "pdu = tlv 1 c @ tlv 2 p @ tlv 3 ttl @ tlvs xs @ tlv lldpEnd [] @ trailer"
    using 1(1) 2(1) 3(1) 4(1) r1 r2 r3 by simp
  with r1 r2 r3 4(2,3) le show ?thesis by blast
qed

text \<open>
  (C32) A usable LLDP result comes from a well-formed data unit of at most 1500 bytes: chassis, port
  and time-to-live elements first and in this order, then any elements, then the end element. The
  message holds exactly those first three, even when a later element repeats one of them.
\<close>

theorem DecodeLLDPDU_usable:
  assumes "DecodeLLDPDU pdu (Some m0) = Some (st, Some m)" and "Usable st"
  shows "\<exists>c p ttl xs trailer.
     pdu = tlv 1 c @ tlv 2 p @ tlv 3 ttl @ tlvs xs @ tlv lldpEnd [] @ trailer \<and>
     length pdu \<le> MaxLLDPDUSize \<and> 2 \<le> length c \<and> 2 \<le> length p \<and> length ttl = 2 \<and>
     (\<forall>(t, v) \<in> set xs. tlv_ok t v \<and> t \<noteq> lldpEnd) \<and>
     lldp_ChassisID m = \<lparr>id_Subtype = c ! 0, id_Value = drop 1 c\<rparr> \<and>
     lldp_PortID m = \<lparr>id_Subtype = p ! 0, id_Value = drop 1 p\<rparr> \<and>
     lldp_TTLSeconds m = word16 (ttl ! 0) (ttl ! 1)"
proof -
  have "decode_lldp pdu clean_status (LLDPMessage_Reset m0) = Some (st, m)"
    using assms(1) by (auto simp: DecodeLLDPDU_def bind_eq_Some_conv')
  from decode_lldp_usable [OF this assms(2)] show ?thesis by (simp add: mandatory_fields_def)
qed

section \<open>Encoding a message\<close>

definition management_tlv :: "ManagementAddress \<Rightarrow> u8 \<times> bytes" where
  "management_tlv a = (lldpManagementAddress,
     [of_nat (1 + length (ma_Address a)), ma_Subtype a] @ ma_Address a @
     [ma_InterfaceSubtype a] @ put32 (ma_InterfaceNumber a) @ [of_nat (length (ma_OID a))] @ ma_OID a)"

definition org_tlv :: "bytes \<Rightarrow> u8 \<Rightarrow> bytes \<Rightarrow> u8 \<times> bytes" where
  "org_tlv oui subtype body = (lldpOrganizational, oui @ [subtype] @ body)"

abbreviation oui_8021 :: bytes where "oui_8021 \<equiv> [0x00, 0x80, 0xc2]"
abbreviation oui_8023 :: bytes where "oui_8023 \<equiv> [0x00, 0x12, 0x0f]"

definition flags :: "bool \<Rightarrow> bool \<Rightarrow> u8" where
  "flags a b = (if a then 1 else 0) OR (if b then 2 else 0)"

definition vlan_tlv :: "VLAN \<Rightarrow> u8 \<times> bytes" where
  "vlan_tlv v = org_tlv oui_8021 3 (put16 (vlan_ID v) @ [of_nat (length (vlan_Name v))] @ vlan_Name v)"

definition mandatory_tlvs :: "LLDPMessage \<Rightarrow> (u8 \<times> bytes) list" where
  "mandatory_tlvs m =
     [(lldpChassisID, id_Subtype (lldp_ChassisID m) # id_Value (lldp_ChassisID m)),
      (lldpPortID, id_Subtype (lldp_PortID m) # id_Value (lldp_PortID m)),
      (lldpTTL, put16 (lldp_TTLSeconds m)),
      (lldpPortDescription, ld_PortDescription (lldp_Details m)),
      (lldpSystemName, lldp_SystemName m),
      (lldpSystemDescription, ld_SystemDescription (lldp_Details m)),
      (lldpSystemCapabilities,
        put16 (ld_SystemCapabilities (lldp_Details m)) @ put16 (ld_EnabledCapabilities (lldp_Details m)))]"

definition detail_tlvs :: "LLDPDetails \<Rightarrow> (u8 \<times> bytes) list" where
  "detail_tlvs d =
     (if ld_HasPVID d then [org_tlv oui_8021 1 (put16 (ld_PVID d))] else []) @
     (if la_Present (ld_LinkAggregation d)
      then [org_tlv oui_8021 7 (flags (la_Supported (ld_LinkAggregation d)) (la_Enabled (ld_LinkAggregation d)) #
              put32 (la_ID (ld_LinkAggregation d)))] else []) @
     (if phy_Present (ld_MACPHY d)
      then [org_tlv oui_8023 1 (flags (phy_AutonegSupported (ld_MACPHY d)) (phy_AutonegEnabled (ld_MACPHY d)) #
              put16 (phy_AdvertisedCapabilities (ld_MACPHY d)) @ put16 (phy_OperationalMAUType (ld_MACPHY d)))] else []) @
     (if ld_HasMaximumFrameSize d then [org_tlv oui_8023 4 (put16 (ld_MaximumFrameSize d))] else [])"

definition lldp_elements :: "LLDPMessage \<Rightarrow> (u8 \<times> bytes) list" where
  "lldp_elements m =
     mandatory_tlvs m @ map management_tlv (live (lldp_ManagementAddresses m)) @
     map vlan_tlv (live (ld_VLANs (lldp_Details m))) @ detail_tlvs (lldp_Details m)"

definition encode_lldp :: "LLDPMessage \<Rightarrow> bytes" where
  "encode_lldp m = tlvs (lldp_elements m) @ tlv lldpEnd []"

text \<open>
  What a message can carry on the wire: identifiers of 1 to 510 bytes, texts up to 511, addresses
  up to 30, object identifiers and VLAN names up to 255, and zero values where a flag says absent.
\<close>

definition lldp_message_ok :: "LLDPMessage \<Rightarrow> bool" where
  "lldp_message_ok m = (let d = lldp_Details m in
     1 \<le> length (id_Value (lldp_ChassisID m)) \<and> length (id_Value (lldp_ChassisID m)) \<le> 510 \<and>
     1 \<le> length (id_Value (lldp_PortID m)) \<and> length (id_Value (lldp_PortID m)) \<le> 510 \<and>
     length (lldp_SystemName m) \<le> 511 \<and> length (ld_PortDescription d) \<le> 511 \<and>
     length (ld_SystemDescription d) \<le> 511 \<and>
     (\<forall>a \<in> set (live (lldp_ManagementAddresses m)). length (ma_Address a) \<le> 30 \<and> length (ma_OID a) \<le> 255) \<and>
     (\<forall>v \<in> set (live (ld_VLANs d)). length (vlan_Name v) \<le> 255) \<and>
     (ld_HasPVID d \<or> ld_PVID d = 0) \<and>
     (la_Present (ld_LinkAggregation d) \<or> ld_LinkAggregation d = zero_aggregation) \<and>
     (phy_Present (ld_MACPHY d) \<or> ld_MACPHY d = zero_macphy) \<and>
     (ld_HasMaximumFrameSize d \<or> ld_MaximumFrameSize d = 0) \<and>
     length (encode_lldp m) \<le> MaxLLDPDUSize)"

text \<open>A message whose capture metadata is not set, as a data unit alone leaves it.\<close>

definition without_capture :: "LLDPMessage \<Rightarrow> LLDPMessage" where
  "without_capture m = m\<lparr>lldp_SourceMAC := zero_mac, lldp_CaptureVLANs := replicate maxVLANTags 0,
     lldp_CaptureVLANCount := 0\<rparr>"

definition empty_details :: LLDPDetails where
  "empty_details = \<lparr>ld_PortDescription = [], ld_SystemDescription = [], ld_SystemCapabilities = 0,
     ld_EnabledCapabilities = 0, ld_PVID = 0, ld_HasPVID = False, ld_VLANs = slab_empty,
     ld_LinkAggregation = zero_aggregation, ld_MACPHY = zero_macphy, ld_MaximumFrameSize = 0,
     ld_HasMaximumFrameSize = False\<rparr>"

definition empty_lldp :: LLDPMessage where
  "empty_lldp = \<lparr>lldp_SourceMAC = zero_mac, lldp_CaptureVLANs = replicate maxVLANTags 0,
     lldp_CaptureVLANCount = 0, lldp_ChassisID = zero_identifier, lldp_PortID = zero_identifier,
     lldp_TTLSeconds = 0, lldp_SystemName = [], lldp_ManagementAddresses = slab_empty,
     lldp_Details = empty_details\<rparr>"

lemma Reset_empty_lldp: "LLDPMessage_Reset empty_lldp = empty_lldp"
  by (simp add: LLDPMessage_Reset_def empty_lldp_def empty_details_def slab_empty_def slab_reset_def
      zero_identifier_def)

text \<open>The elements of an encoded message, one at a time.\<close>

lemma decode_management_tlv:
  assumes "length (ma_Address a) \<le> 30" "length (ma_OID a) \<le> 255" "lldp_ManagementAddresses m = slab_of as"
  shows "decodeLLDPManagement (snd (management_tlv a)) m =
    Some (True, m\<lparr>lldp_ManagementAddresses := slab_of (as @ [a])\<rparr>)"
  using assms
  by (cases a) (simp add: decodeLLDPManagement_def management_tlv_def Let_def slab_grow_def slab_of_def
      nth_append drop_Cons' put32_def zero_management_def del: of_nat_Suc of_nat_add)

lemma decode_vlan_tlv:
  assumes "length (vlan_Name v) \<le> 255" "ld_VLANs (lldp_Details m) = slab_of vs"
  shows "decodeLLDPOrganizational (snd (vlan_tlv v)) m =
    Some (True, m\<lparr>lldp_Details := (lldp_Details m)\<lparr>ld_VLANs := slab_of (vs @ [v])\<rparr>\<rparr>)"
  using assms
  by (cases v) (simp add: decodeLLDPOrganizational_def vlan_tlv_def org_tlv_def org_8021_def Let_def
      slab_grow_def slab_of_def nth_append put16_def zero_vlan_def)


lemma lldp_tlv_repeatable:
  assumes "t = lldpManagementAddress \<or> t = lldpOrganizational" "length seen = 128"
    and "lldp_element t (length v) v m = Some (True, m')"
  shows "lldp_tlv t (length v) v off (3, seen, st, m) = Some (Inr (3, seen[unat t := True], st, m'))"
proof -
  have "unat t < 128" "t \<noteq> lldpEnd" "\<not> isLLDPSingleton t"
    using assms(1) by (auto simp: isLLDPSingleton_def lldp_type_defs)
  with assms(2,3) show ?thesis by (simp add: lldp_tlv_def)
qed

lemma lldp_element_management:
  "lldp_element (fst (management_tlv a)) n v = decodeLLDPManagement v"
  by (rule ext) (simp add: lldp_element_def management_tlv_def lldp_type_defs)

lemma lldp_element_org: "lldp_element lldpOrganizational n v = decodeLLDPOrganizational v"
  by (rule ext) (simp add: lldp_element_def lldp_type_defs)

text \<open>A run of elements that leaves the issue list alone and turns the message \<open>m\<close> into \<open>m'\<close>.\<close>

definition goes_on :: "(u8 \<times> bytes) list \<Rightarrow> LLDPMessage \<Rightarrow> LLDPMessage \<Rightarrow> bool" where
  "goes_on xs m m' = (\<forall>off seen st. length seen = 128 \<longrightarrow>
     (\<exists>seen'. length seen' = 128 \<and> lldp_tlvs xs off (3, seen, st, m) = Some (3, seen', st, m')))"

lemma goes_on_Nil [simp]: "goes_on [] m m"
  by (simp add: goes_on_def)

lemma goes_on_append: "goes_on xs m m1 \<Longrightarrow> goes_on ys m1 m2 \<Longrightarrow> goes_on (xs @ ys) m m2"
  unfolding goes_on_def lldp_tlvs_append by (metis option.simps(5))

lemma goes_on_single:
  assumes "fst x = lldpManagementAddress \<or> fst x = lldpOrganizational"
    and "lldp_element (fst x) (length (snd x)) (snd x) m = Some (True, m')"
  shows "goes_on [x] m m'"
  using lldp_tlv_repeatable [OF assms(1) _ assms(2)]
  by (cases x) (simp add: goes_on_def)

lemma goes_on_management:
  assumes "\<forall>a \<in> set as. length (ma_Address a) \<le> 30 \<and> length (ma_OID a) \<le> 255"
    and "lldp_ManagementAddresses m = slab_of bs"
  shows "goes_on (map management_tlv as) m (m\<lparr>lldp_ManagementAddresses := slab_of (bs @ as)\<rparr>)"
  using assms
proof (induction as arbitrary: m bs)
  case Nil
  then show ?case by (cases m) simp
next
  case (Cons a as)
  let ?m = "m\<lparr>lldp_ManagementAddresses := slab_of (bs @ [a])\<rparr>"
  have "goes_on [management_tlv a] m ?m"
    using decode_management_tlv [of a m bs] Cons.prems
    by (intro goes_on_single) (simp_all only: lldp_element_management, simp_all add: management_tlv_def)
  moreover have "goes_on (map management_tlv as) ?m (?m\<lparr>lldp_ManagementAddresses := slab_of ((bs @ [a]) @ as)\<rparr>)"
    using Cons.prems by (intro Cons.IH) auto
  ultimately have "goes_on ([management_tlv a] @ map management_tlv as) m
      (?m\<lparr>lldp_ManagementAddresses := slab_of ((bs @ [a]) @ as)\<rparr>)"
    by (rule goes_on_append)
  then show ?case by simp
qed

lemma goes_on_vlans:
  assumes "\<forall>v \<in> set vs. length (vlan_Name v) \<le> 255" and "ld_VLANs (lldp_Details m) = slab_of ws"
  shows "goes_on (map vlan_tlv vs) m
    (m\<lparr>lldp_Details := (lldp_Details m)\<lparr>ld_VLANs := slab_of (ws @ vs)\<rparr>\<rparr>)"
  using assms
proof (induction vs arbitrary: m ws)
  case Nil
  then show ?case by (cases m; cases "lldp_Details m") simp
next
  case (Cons v vs)
  let ?m = "m\<lparr>lldp_Details := (lldp_Details m)\<lparr>ld_VLANs := slab_of (ws @ [v])\<rparr>\<rparr>"
  have f: "fst (vlan_tlv v) = lldpOrganizational" by (simp add: vlan_tlv_def org_tlv_def)
  have "goes_on [vlan_tlv v] m ?m"
    using decode_vlan_tlv [of v m ws] Cons.prems
    by (intro goes_on_single) (simp_all add: f lldp_element_org)
  moreover have "goes_on (map vlan_tlv vs) ?m
      (?m\<lparr>lldp_Details := (lldp_Details ?m)\<lparr>ld_VLANs := slab_of ((ws @ [v]) @ vs)\<rparr>\<rparr>)"
    using Cons.prems by (intro Cons.IH) auto
  ultimately have "goes_on ([vlan_tlv v] @ map vlan_tlv vs) m
      (?m\<lparr>lldp_Details := (lldp_Details ?m)\<lparr>ld_VLANs := slab_of ((ws @ [v]) @ vs)\<rparr>\<rparr>)"
    by (rule goes_on_append)
  then show ?case by simp
qed

lemma flags_bits [simp]: "(flags a b AND 1 \<noteq> 0) = a" "(flags a b AND 2 \<noteq> 0) = b"
  "flags a b AND 1 = 0 \<longleftrightarrow> \<not> a" "flags a b AND 2 = 0 \<longleftrightarrow> \<not> b"
  by (cases a; cases b; simp add: flags_def)+

text \<open>The flagged details, one organizational element each.\<close>

lemma goes_on_org:
  assumes "decodeLLDPOrganizational (oui @ [subtype] @ body) m = Some (True, m')"
  shows "goes_on [org_tlv oui subtype body] m m'"
  using assms by (intro goes_on_single) (simp_all add: org_tlv_def lldp_element_org)

lemma goes_on_details:
  assumes d: "lldp_Details m = empty_details\<lparr>ld_PortDescription := pd, ld_SystemDescription := sd,
      ld_SystemCapabilities := sc, ld_EnabledCapabilities := ec, ld_VLANs := vs\<rparr>"
    and ok: "ld_HasPVID d \<or> ld_PVID d = 0" "la_Present (ld_LinkAggregation d) \<or> ld_LinkAggregation d = zero_aggregation"
      "phy_Present (ld_MACPHY d) \<or> ld_MACPHY d = zero_macphy"
      "ld_HasMaximumFrameSize d \<or> ld_MaximumFrameSize d = 0"
  shows "goes_on (detail_tlvs d) m (m\<lparr>lldp_Details := d\<lparr>ld_PortDescription := pd,
      ld_SystemDescription := sd, ld_SystemCapabilities := sc, ld_EnabledCapabilities := ec,
      ld_VLANs := vs\<rparr>\<rparr>)"
proof -
  let ?d = "lldp_Details m"
  define d1 where "d1 = ?d\<lparr>ld_PVID := ld_PVID d, ld_HasPVID := ld_HasPVID d\<rparr>"
  define d2 where "d2 = d1\<lparr>ld_LinkAggregation := ld_LinkAggregation d\<rparr>"
  define d3 where "d3 = d2\<lparr>ld_MACPHY := ld_MACPHY d\<rparr>"
  define d4 where "d4 = d3\<lparr>ld_MaximumFrameSize := ld_MaximumFrameSize d,
    ld_HasMaximumFrameSize := ld_HasMaximumFrameSize d\<rparr>"
  have same: "m\<lparr>lldp_Details := ?d\<rparr> = m" by (cases m) simp
  have 1: "goes_on (if ld_HasPVID d then [org_tlv oui_8021 1 (put16 (ld_PVID d))] else []) m (m\<lparr>lldp_Details := d1\<rparr>)"
  proof (cases "ld_HasPVID d")
    case True
    then show ?thesis
      by (simp, intro goes_on_org) (simp add: decodeLLDPOrganizational_def org_8021_def d1_def)
  next
    case False
    then have "d1 = ?d" using ok(1) by (simp add: d1_def d empty_details_def)
    with False show ?thesis by (simp add: same)
  qed
  have 2: "goes_on (if la_Present (ld_LinkAggregation d)
      then [org_tlv oui_8021 7 (flags (la_Supported (ld_LinkAggregation d)) (la_Enabled (ld_LinkAggregation d)) #
              put32 (la_ID (ld_LinkAggregation d)))] else []) (m\<lparr>lldp_Details := d1\<rparr>) (m\<lparr>lldp_Details := d2\<rparr>)"
  proof (cases "la_Present (ld_LinkAggregation d)")
    case True
    then show ?thesis
      by (simp, intro goes_on_org, cases "ld_LinkAggregation d")
        (simp add: decodeLLDPOrganizational_def org_8021_def d2_def)
  next
    case False
    then have "d2 = d1" using ok(2) by (simp add: d1_def d2_def d empty_details_def)
    with False show ?thesis by simp
  qed
  have 3: "goes_on (if phy_Present (ld_MACPHY d)
      then [org_tlv oui_8023 1 (flags (phy_AutonegSupported (ld_MACPHY d)) (phy_AutonegEnabled (ld_MACPHY d)) #
              put16 (phy_AdvertisedCapabilities (ld_MACPHY d)) @ put16 (phy_OperationalMAUType (ld_MACPHY d)))] else [])
      (m\<lparr>lldp_Details := d2\<rparr>) (m\<lparr>lldp_Details := d3\<rparr>)"
  proof (cases "phy_Present (ld_MACPHY d)")
    case True
    then show ?thesis
      by (simp, intro goes_on_org, cases "ld_MACPHY d")
        (simp add: decodeLLDPOrganizational_def org_8023_def d3_def put16_def)
  next
    case False
    then have "d3 = d2" using ok(3) by (simp add: d1_def d2_def d3_def d empty_details_def)
    with False show ?thesis by simp
  qed
  have 4: "goes_on (if ld_HasMaximumFrameSize d then [org_tlv oui_8023 4 (put16 (ld_MaximumFrameSize d))] else [])
      (m\<lparr>lldp_Details := d3\<rparr>) (m\<lparr>lldp_Details := d4\<rparr>)"
  proof (cases "ld_HasMaximumFrameSize d")
    case True
    then show ?thesis
      by (simp, intro goes_on_org) (simp add: decodeLLDPOrganizational_def org_8023_def d4_def)
  next
    case False
    then have "d4 = d3" using ok(4) by (simp add: d1_def d2_def d3_def d4_def d empty_details_def)
    with False show ?thesis by simp
  qed
  have "d4 = d\<lparr>ld_PortDescription := pd, ld_SystemDescription := sd, ld_SystemCapabilities := sc,
      ld_EnabledCapabilities := ec, ld_VLANs := vs\<rparr>"
    by (cases d) (simp add: d1_def d2_def d3_def d4_def d empty_details_def)
  then show ?thesis
    using goes_on_append [OF 1 goes_on_append [OF 2 goes_on_append [OF 3 4]]]
    by (simp add: detail_tlvs_def)
qed

definition after_mandatory :: "LLDPMessage \<Rightarrow> LLDPMessage" where
  "after_mandatory m = empty_lldp\<lparr>lldp_ChassisID := lldp_ChassisID m, lldp_PortID := lldp_PortID m,
     lldp_TTLSeconds := lldp_TTLSeconds m, lldp_SystemName := lldp_SystemName m,
     lldp_Details := empty_details\<lparr>ld_PortDescription := ld_PortDescription (lldp_Details m),
       ld_SystemDescription := ld_SystemDescription (lldp_Details m),
       ld_SystemCapabilities := ld_SystemCapabilities (lldp_Details m),
       ld_EnabledCapabilities := ld_EnabledCapabilities (lldp_Details m)\<rparr>\<rparr>"

lemma lldp_tlvs_mandatory:
  assumes "1 \<le> length (id_Value (lldp_ChassisID m))" "1 \<le> length (id_Value (lldp_PortID m))"
  shows "\<exists>seen. length seen = 128 \<and>
    lldp_tlvs (mandatory_tlvs m) 0 (0, replicate 128 False, st, empty_lldp) =
      Some (3, seen, st, after_mandatory m)"
  using assms
  by (cases "lldp_ChassisID m"; cases "lldp_PortID m")
    (simp add: mandatory_tlvs_def lldp_tlv_def lldp_element_def lldp_type_defs
      after_mandatory_def empty_lldp_def empty_details_def zero_identifier_def put16_def
      Suc_le_eq isLLDPSingleton_def)

lemma lldp_elements_ok:
  assumes "lldp_message_ok m" "(t, v) \<in> set (lldp_elements m)"
  shows "tlv_ok t v"
proof -
  have ok: "\<forall>a \<in> set (live (lldp_ManagementAddresses m)). length (ma_Address a) \<le> 30 \<and> length (ma_OID a) \<le> 255"
    "\<forall>v \<in> set (live (ld_VLANs (lldp_Details m))). length (vlan_Name v) \<le> 255"
    "length (id_Value (lldp_ChassisID m)) \<le> 510" "length (id_Value (lldp_PortID m)) \<le> 510"
    "length (lldp_SystemName m) \<le> 511" "length (ld_PortDescription (lldp_Details m)) \<le> 511"
    "length (ld_SystemDescription (lldp_Details m)) \<le> 511"
    using assms(1) by (auto simp: lldp_message_ok_def Let_def)
  from assms(2) consider "(t, v) \<in> set (mandatory_tlvs m)"
    | a where "a \<in> set (live (lldp_ManagementAddresses m))" "(t, v) = management_tlv a"
    | w where "w \<in> set (live (ld_VLANs (lldp_Details m)))" "(t, v) = vlan_tlv w"
    | "(t, v) \<in> set (detail_tlvs (lldp_Details m))"
    by (auto simp: lldp_elements_def)
  then show ?thesis
  proof cases
    case 1
    with ok show ?thesis by (auto simp: mandatory_tlvs_def tlv_ok_def lldp_type_defs)
  next
    case (2 a)
    with ok(1) have "length (ma_Address a) \<le> 30" "length (ma_OID a) \<le> 255" by auto
    with 2(2) show ?thesis by (auto simp: management_tlv_def tlv_ok_def lldp_type_defs)
  next
    case (3 w)
    with ok(2) have "length (vlan_Name w) \<le> 255" by auto
    with 3(2) show ?thesis by (auto simp: vlan_tlv_def org_tlv_def tlv_ok_def lldp_type_defs)
  next
    case 4
    then show ?thesis
      by (auto simp: detail_tlvs_def org_tlv_def tlv_ok_def lldp_type_defs split: if_splits)
  qed
qed

lemma decode_encode_empty:
  assumes "lldp_message_ok m" and "length (encode_lldp m @ trailer) \<le> MaxLLDPDUSize"
  shows "\<exists>m'. decode_lldp (encode_lldp m @ trailer) clean_status empty_lldp = Some (clean_status, m') \<and>
    LLDP_view m' = LLDP_view (without_capture m)"
proof -
  let ?d = "lldp_Details m" and ?as = "live (lldp_ManagementAddresses m)"
  let ?vs = "live (ld_VLANs ?d)"
  let ?m1 = "after_mandatory m"
  let ?m2 = "?m1\<lparr>lldp_ManagementAddresses := slab_of ?as\<rparr>"
  let ?m3 = "?m2\<lparr>lldp_Details := (lldp_Details ?m2)\<lparr>ld_VLANs := slab_of ?vs\<rparr>\<rparr>"
  let ?m4 = "?m3\<lparr>lldp_Details := ?d\<lparr>ld_VLANs := slab_of ?vs\<rparr>\<rparr>"
  have ok: "\<forall>a \<in> set ?as. length (ma_Address a) \<le> 30 \<and> length (ma_OID a) \<le> 255"
    "\<forall>v \<in> set ?vs. length (vlan_Name v) \<le> 255"
    "1 \<le> length (id_Value (lldp_ChassisID m))" "1 \<le> length (id_Value (lldp_PortID m))"
    "ld_HasPVID ?d \<or> ld_PVID ?d = 0" "la_Present (ld_LinkAggregation ?d) \<or> ld_LinkAggregation ?d = zero_aggregation"
    "phy_Present (ld_MACPHY ?d) \<or> ld_MACPHY ?d = zero_macphy"
    "ld_HasMaximumFrameSize ?d \<or> ld_MaximumFrameSize ?d = 0"
    using assms(1) by (auto simp: lldp_message_ok_def Let_def)
  have "goes_on (map management_tlv ?as) ?m1 ?m2"
    using goes_on_management [OF ok(1), of ?m1 "[]"]
    by (simp add: after_mandatory_def empty_lldp_def slab_of_def slab_empty_def)
  moreover have "goes_on (map vlan_tlv ?vs) ?m2 ?m3"
    using goes_on_vlans [OF ok(2), of ?m2 "[]"]
    by (simp add: after_mandatory_def empty_details_def slab_of_def slab_empty_def)
  moreover have "goes_on (detail_tlvs ?d) ?m3 ?m4"
  proof -
    have same: "?d\<lparr>ld_PortDescription := ld_PortDescription ?d, ld_SystemDescription := ld_SystemDescription ?d,
      ld_SystemCapabilities := ld_SystemCapabilities ?d, ld_EnabledCapabilities := ld_EnabledCapabilities ?d,
      ld_VLANs := slab_of ?vs\<rparr> = ?d\<lparr>ld_VLANs := slab_of ?vs\<rparr>" by (cases ?d) simp
    have "lldp_Details ?m3 = empty_details\<lparr>ld_PortDescription := ld_PortDescription ?d,
      ld_SystemDescription := ld_SystemDescription ?d, ld_SystemCapabilities := ld_SystemCapabilities ?d,
      ld_EnabledCapabilities := ld_EnabledCapabilities ?d, ld_VLANs := slab_of ?vs\<rparr>"
      by (simp add: after_mandatory_def)
    from goes_on_details [OF this ok(5-8)] show ?thesis unfolding same .
  qed
  ultimately have go: "goes_on (map management_tlv ?as @ map vlan_tlv ?vs @ detail_tlvs ?d) ?m1 ?m4"
    by (meson goes_on_append)
  obtain seen where seen: "length seen = 128"
    "lldp_tlvs (mandatory_tlvs m) 0 (0, replicate 128 False, clean_status, empty_lldp) =
      Some (3, seen, clean_status, ?m1)"
    using lldp_tlvs_mandatory [OF ok(3,4)] by blast
  obtain seen' where "lldp_tlvs (lldp_elements m) 0 (0, replicate 128 False, clean_status, empty_lldp) =
      Some (3, seen', clean_status, ?m4)"
    using go seen unfolding goes_on_def lldp_elements_def lldp_tlvs_append [of "mandatory_tlvs m"]
    by (metis option.simps(5))
  from decode_lldp_tlvs [OF lldp_elements_ok [OF assms(1)] this] assms(2)
  have "decode_lldp (encode_lldp m @ trailer) clean_status empty_lldp = Some (clean_status, ?m4)"
    by (simp add: encode_lldp_def)
  moreover have "LLDP_view ?m4 = LLDP_view (without_capture m)"
    by (cases m; cases "lldp_Details m")
      (simp add: LLDP_view_def Details_view_def without_capture_def after_mandatory_def empty_lldp_def)
  ultimately show ?thesis by blast
qed

text \<open>
  (C23) Decoding inverts encoding for a complete LLDP message: identifiers, time to live, names and
  descriptions, capabilities, every management address, the VLAN names and the 802.1 and 802.3
  details come back unchanged from the data unit that carries them, with a clean status, whatever
  padding follows the end element and whatever the reused message held before.
\<close>

theorem DecodeLLDPDU_roundtrip:
  assumes "lldp_message_ok m" and "length (encode_lldp m @ trailer) \<le> MaxLLDPDUSize"
  shows "\<exists>m'. DecodeLLDPDU (encode_lldp m @ trailer) (Some old) = Some (clean_status, Some m') \<and>
    LLDP_view m' = LLDP_view (without_capture m)"
proof -
  obtain m1 where "DecodeLLDPDU (encode_lldp m @ trailer) (Some empty_lldp) = Some (clean_status, Some m1)"
    "LLDP_view m1 = LLDP_view (without_capture m)"
    using decode_encode_empty [OF assms] by (auto simp: DecodeLLDPDU_def Reset_empty_lldp)
  with lldp.decode_reuse show ?thesis by metis
qed

definition sample_lldp :: LLDPMessage where
  "sample_lldp = empty_lldp\<lparr>
     lldp_ChassisID := \<lparr>id_Subtype = 4, id_Value = [0, 1, 2, 3, 4, 5]\<rparr>,
     lldp_PortID := \<lparr>id_Subtype = 5, id_Value = [0x47, 0x69, 0x30]\<rparr>, lldp_TTLSeconds := 120,
     lldp_ManagementAddresses := slab_of [\<lparr>ma_Subtype = 1, ma_Address = [192, 0, 2, 1],
       ma_InterfaceSubtype = 2, ma_InterfaceNumber = 7, ma_OID = []\<rparr>],
     lldp_Details := empty_details\<lparr>ld_PVID := 42, ld_HasPVID := True\<rparr>\<rparr>"

theorem DecodeLLDPDU_roundtrip_witness:
  "\<exists>m'. DecodeLLDPDU (encode_lldp sample_lldp @ [0, 0, 0]) (Some sample_lldp) = Some (clean_status, Some m') \<and>
    LLDP_view m' = LLDP_view (without_capture sample_lldp)"
  by (rule DecodeLLDPDU_roundtrip)
    (simp_all add: lldp_message_ok_def sample_lldp_def Let_def empty_lldp_def empty_details_def
      zero_aggregation_def zero_macphy_def encode_lldp_def lldp_elements_def mandatory_tlvs_def
      detail_tlvs_def management_tlv_def org_tlv_def MaxLLDPDUSize_def slab_of_def slab_empty_def)

theorem DecodeLLDPDU_usable_witness:
  "let m = the (snd (the (DecodeLLDPDU (encode_lldp sample_lldp) (Some empty_lldp)))) in
   DecodeLLDPDU (encode_lldp sample_lldp) (Some empty_lldp) = Some (clean_status, Some m) \<and>
   (\<exists>c p ttl xs trailer.
     encode_lldp sample_lldp = tlv 1 c @ tlv 2 p @ tlv 3 ttl @ tlvs xs @ tlv lldpEnd [] @ trailer \<and>
     2 \<le> length c \<and> lldp_ChassisID m = \<lparr>id_Subtype = c ! 0, id_Value = drop 1 c\<rparr>)"
proof -
  have "length (encode_lldp sample_lldp @ []) \<le> MaxLLDPDUSize" "lldp_message_ok sample_lldp"
    by (simp_all add: lldp_message_ok_def sample_lldp_def Let_def empty_lldp_def empty_details_def
      zero_aggregation_def zero_macphy_def encode_lldp_def lldp_elements_def mandatory_tlvs_def
      detail_tlvs_def management_tlv_def org_tlv_def MaxLLDPDUSize_def slab_of_def slab_empty_def)
  from decode_encode_empty [OF this(2,1)] obtain m where
    "decode_lldp (encode_lldp sample_lldp) clean_status empty_lldp = Some (clean_status, m)" by auto
  then have d: "DecodeLLDPDU (encode_lldp sample_lldp) (Some empty_lldp) = Some (clean_status, Some m)"
    by (simp add: DecodeLLDPDU_def Reset_empty_lldp)
  from DecodeLLDPDU_usable [OF d] d show ?thesis by (simp add: Let_def) blast
qed

text \<open>
  (C33) The LLDP decoder never panics, and reusing a message leaks nothing from the packets decoded
  into it before: a worker that decodes a sequence of packets into one message sees, for each
  packet, the status and the visible contents that a fresh message would have given.
\<close>

theorem DecodeLLDPDU_reuse:
  "\<exists>rs. decode_all DecodeLLDPDU bs m = Some rs \<and>
     list_all2 (\<lambda>b (st, v). \<exists>m'. DecodeLLDPDU b (Some empty_lldp) = Some (st, Some m') \<and>
       LLDP_view v = LLDP_view m') bs rs"
  by (rule lldp.decode_all_fresh)

text \<open>
  IEEE 802.1AB gives organizationally specific elements the type 127, but the constant in the
  code continues its enumeration and is 9: a port VLAN identifier sent as the standard says is
  skipped without an issue, and only one sent with type 9 is decoded.
\<close>

lemma DecodeLLDPDU_standard_organizational:
  "\<exists>m127 m9.
     DecodeLLDPDU (tlv 1 [4, 1] @ tlv 2 [5, 1] @ tlv 3 [0, 120] @
       tlv 127 (oui_8021 @ [1] @ put16 pvid) @ tlv 0 []) (Some empty_lldp) = Some (clean_status, Some m127) \<and>
     \<not> ld_HasPVID (lldp_Details m127) \<and>
     DecodeLLDPDU (tlv 1 [4, 1] @ tlv 2 [5, 1] @ tlv 3 [0, 120] @
       tlv 9 (oui_8021 @ [1] @ put16 pvid) @ tlv 0 []) (Some empty_lldp) = Some (clean_status, Some m9) \<and>
     ld_HasPVID (lldp_Details m9) \<and> ld_PVID (lldp_Details m9) = pvid"
proof -
  let ?xs = "\<lambda>t. [(1, [4, 1]), (2, [5, 1]), (3, [0, 120]), (t, oui_8021 @ [1] @ put16 pvid)] :: (u8 \<times> bytes) list"
  have ok: "\<And>t v. (t, v) \<in> set (?xs t') \<Longrightarrow> tlv_ok t v" if "t' = 127 \<or> t' = 9" for t'
    using that by (auto simp: tlv_ok_def)
  have len: "length (tlvs (?xs t) @ tlv lldpEnd [] @ []) \<le> MaxLLDPDUSize" for t
    by (simp add: MaxLLDPDUSize_def)
  let ?m = "empty_lldp\<lparr>lldp_ChassisID := \<lparr>id_Subtype = 4, id_Value = [1]\<rparr>,
    lldp_PortID := \<lparr>id_Subtype = 5, id_Value = [1]\<rparr>, lldp_TTLSeconds := word16 0 120\<rparr>"
  have "\<exists>seen. lldp_tlvs (?xs 127) 0 (0, replicate 128 False, clean_status, empty_lldp) =
      Some (3, seen, clean_status, ?m)"
    by (simp add: lldp_tlv_def lldp_element_def lldp_type_defs empty_lldp_def zero_identifier_def)
  then obtain s1 where 1: "lldp_tlvs (?xs 127) 0 (0, replicate 128 False, clean_status, empty_lldp) =
      Some (3, s1, clean_status, ?m)" by blast
  have "\<exists>seen. lldp_tlvs (?xs 9) 0 (0, replicate 128 False, clean_status, empty_lldp) =
      Some (3, seen, clean_status, ?m\<lparr>lldp_Details := empty_details\<lparr>ld_PVID := pvid, ld_HasPVID := True\<rparr>\<rparr>)"
    by (simp add: lldp_tlv_def lldp_element_def lldp_type_defs empty_lldp_def zero_identifier_def
        decodeLLDPOrganizational_def org_8021_def)
  then obtain s2 where 2: "lldp_tlvs (?xs 9) 0 (0, replicate 128 False, clean_status, empty_lldp) =
      Some (3, s2, clean_status, ?m\<lparr>lldp_Details := empty_details\<lparr>ld_PVID := pvid, ld_HasPVID := True\<rparr>\<rparr>)"
    by blast
  show ?thesis
    using decode_lldp_tlvs [OF ok [of 127] 1 len] decode_lldp_tlvs [OF ok [of 9] 2 len]
    by (simp add: DecodeLLDPDU_def Reset_empty_lldp lldpEnd_def empty_details_def)
      (simp add: empty_lldp_def empty_details_def)
qed

end
