(* ===== verification/CDP.thy ===== *)
theory CDP
  imports Decoder
begin

text \<open>
  The model of \<open>pkg/omnidiscover/cdp.go\<close>: the Cisco Discovery Protocol packet, a four-byte header
  and a sequence of elements whose length field counts the element's own header.
\<close>

section \<open>Messages\<close>

definition cdpPID :: u16 where "cdpPID = 0x2000"
definition cdpTLVDeviceID :: u16 where "cdpTLVDeviceID = 0x0001"
definition cdpTLVAddresses :: u16 where "cdpTLVAddresses = 0x0002"
definition cdpTLVPortID :: u16 where "cdpTLVPortID = 0x0003"
definition cdpTLVCapabilities :: u16 where "cdpTLVCapabilities = 0x0004"
definition cdpTLVSoftware :: u16 where "cdpTLVSoftware = 0x0005"
definition cdpTLVPlatform :: u16 where "cdpTLVPlatform = 0x0006"
definition cdpTLVNativeVLAN :: u16 where "cdpTLVNativeVLAN = 0x000a"
definition cdpTLVDuplex :: u16 where "cdpTLVDuplex = 0x000b"
definition cdpTLVSystemName :: u16 where "cdpTLVSystemName = 0x0014"
definition cdpTLVManagementAddresses :: u16 where "cdpTLVManagementAddresses = 0x0016"

lemmas cdp_type_defs =
  cdpTLVDeviceID_def cdpTLVAddresses_def cdpTLVPortID_def cdpTLVCapabilities_def
  cdpTLVSoftware_def cdpTLVPlatform_def cdpTLVNativeVLAN_def cdpTLVDuplex_def
  cdpTLVSystemName_def cdpTLVManagementAddresses_def

definition ciscoOUI :: bytes where "ciscoOUI = [0x00, 0x00, 0x0c]"

record CDPMessage =
  cdp_SourceMAC :: MAC
  cdp_CaptureVLANs :: "u16 list"
  cdp_CaptureVLANCount :: u8
  cdp_TTLSeconds :: u8
  cdp_DeviceID :: bytes
  cdp_PortID :: bytes
  cdp_SystemName :: bytes
  cdp_Addresses :: "Addr list"
  cdp_Details :: CDPDetails

definition CDPMessage_Reset :: "CDPMessage \<Rightarrow> CDPMessage" where
  "CDPMessage_Reset m =
     m\<lparr>cdp_SourceMAC := zero_mac,
       cdp_CaptureVLANs := replicate maxVLANTags 0,
       cdp_CaptureVLANCount := 0,
       cdp_TTLSeconds := 0,
       cdp_DeviceID := [],
       cdp_PortID := [],
       cdp_SystemName := [],
       cdp_Addresses := [],
       cdp_Details := (cdp_Details m)\<lparr>
         cd_Version := 0,
         cd_Checksum := 0,
         cd_NativeVLAN := 0,
         cd_HasNativeVLAN := False,
         cd_Duplex := 0,
         cd_HasDuplex := False,
         cd_Capabilities := 0,
         cd_SoftwareVersion := [],
         cd_Platform := [],
         cd_ManagementAddress := []\<rparr>\<rparr>"

definition zero_cdp :: CDPMessage where
  "zero_cdp =
     \<lparr>cdp_SourceMAC = zero_mac, cdp_CaptureVLANs = replicate maxVLANTags 0, cdp_CaptureVLANCount = 0,
      cdp_TTLSeconds = 0, cdp_DeviceID = [], cdp_PortID = [], cdp_SystemName = [], cdp_Addresses = [],
      cdp_Details = \<lparr>cd_Version = 0, cd_Checksum = 0, cd_NativeVLAN = 0, cd_HasNativeVLAN = False,
        cd_Duplex = 0, cd_HasDuplex = False, cd_Capabilities = 0, cd_SoftwareVersion = [],
        cd_Platform = [], cd_ManagementAddress = []\<rparr>\<rparr>"

lemma CDPMessage_Reset_zero: "CDPMessage_Reset m = zero_cdp"
  by (cases m; cases "cdp_Details m") (simp add: CDPMessage_Reset_def zero_cdp_def)

section \<open>The checksum\<close>

text \<open>
  The one's complement sum of 16-bit words, an odd last byte taken as the high byte of a word. The
  32-bit accumulator is folded until its high half is zero.
\<close>

fun sum_words :: "bytes \<Rightarrow> u32 \<Rightarrow> u32" where
  "sum_words (a # b # bs) s = sum_words bs (s + ucast (word16 a b))"
| "sum_words [a] s = s + push_bit 8 (ucast a)"
| "sum_words [] s = s"

lemma unat_split_16: "unat (s :: u32) = 65536 * unat (drop_bit 16 s) + unat (s AND 0xffff)"
proof -
  have "s AND 0xffff = take_bit 16 s" by (simp add: take_bit_eq_mask mask_eq_exp_minus_1)
  then have "unat (s AND 0xffff) = unat s mod 65536"
    by (simp add: take_bit_eq_mod unat_mod_distrib)
  moreover have "unat (drop_bit 16 s) = unat s div 65536"
    by (simp add: unat_div_distrib drop_bit_eq_div)
  ultimately show ?thesis by simp
qed

lemma unat_fold_16: "unat ((s AND 0xffff) + drop_bit 16 s :: u32) = unat (s AND 0xffff) + unat (drop_bit 16 s)"
proof -
  have "unat s < 4294967296" using unsigned_less [of s] by simp
  then have "unat (s AND 0xffff) + unat (drop_bit 16 s) < 4294967296"
    using unat_split_16 [of s] by linarith
  then show ?thesis using unat_add_lem [of "s AND 0xffff" "drop_bit 16 s"] by simp
qed

function fold_sum :: "u32 \<Rightarrow> u32" where
  "fold_sum s = (if drop_bit 16 s \<noteq> 0 then fold_sum ((s AND 0xffff) + drop_bit 16 s) else s)"
  by pat_completeness auto
termination
proof (relation "measure unat")
  fix s :: u32
  assume "drop_bit 16 s \<noteq> 0"
  then have "0 < unat (drop_bit 16 s)" by (simp add: unat_gt_0)
  then show "((s AND 0xffff) + drop_bit 16 s, s) \<in> measure unat"
    using unat_split_16 [of s] unat_fold_16 [of s] by simp
qed simp

declare fold_sum.simps [simp del]

definition checksum16 :: "bytes \<Rightarrow> u16" where
  "checksum16 b = ucast (fold_sum (sum_words b 0))"

section \<open>Address lists\<close>

text \<open>
  One round of the loop over the addresses: \<open>None\<close> for an early return of false, or the offset
  after the entry and the list with the address.
\<close>

definition cdp_address :: "bytes \<Rightarrow> nat \<Rightarrow> Addr list \<Rightarrow> (nat \<times> Addr list) option run" where
  "cdp_address v off dst =
     (if off + 1 > length v then Some None
      else do {
        protoType \<leftarrow> idx v off;
        let off = off + 1;
        if off + 1 > length v then Some None
        else do {
          pl \<leftarrow> idx v off;
          let protoLen = unat pl;
          let off = off + 1;
          if off + protoLen + 2 > length v then Some None
          else do {
            proto \<leftarrow> gslice v off (off + protoLen);
            let off = off + protoLen;
            lb \<leftarrow> gslice v off (off + 2);
            al \<leftarrow> be16 lb;
            let addrLen = unat al;
            let off = off + 2;
            if off + addrLen > length v then Some None
            else do {
              addrBytes \<leftarrow> gslice v off (off + addrLen);
              let off = off + addrLen;
              isIP \<leftarrow>
                (if protoType = 1 \<and> protoLen = 1 then do { p0 \<leftarrow> idx proto 0; Some (p0 = 0xcc) }
                 else if protoType = 2 \<and> protoLen \<ge> 2 then do {
                   p1 \<leftarrow> idx proto (protoLen - 2);
                   p2 \<leftarrow> idx proto (protoLen - 1);
                   Some (p1 = 0x08 \<and> p2 = 0x00)
                 }
                 else Some False);
              if \<not> isIP \<and> addrLen \<noteq> 16 then Some (Some (off, dst))
              else if addrLen = 4 then do {
                a0 \<leftarrow> idx addrBytes 0; a1 \<leftarrow> idx addrBytes 1; a2 \<leftarrow> idx addrBytes 2; a3 \<leftarrow> idx addrBytes 3;
                Some (Some (off, appendUniqueAddr dst (AddrFrom4 [a0, a1, a2, a3])))
              }
              else if addrLen = 16 then
                Some (Some (off, appendUniqueAddr dst (AddrFrom16 (go_copy (replicate 16 0) addrBytes))))
              else Some (Some (off, dst))
            }
          }
        }
      })"

text \<open>
  The loop: whether every entry was complete, the offset after the last one, and the list, which
  keeps the entries decoded before an incomplete one.
\<close>

fun cdp_addresses :: "nat \<Rightarrow> bytes \<Rightarrow> nat \<Rightarrow> Addr list \<Rightarrow> (nat option \<times> Addr list) run" where
  "cdp_addresses 0 v off dst = Some (Some off, dst)"
| "cdp_addresses (Suc n) v off dst = do {
     r \<leftarrow> cdp_address v off dst;
     case r of
       None \<Rightarrow> Some (None, dst)
     | Some (off, dst) \<Rightarrow> cdp_addresses n v off dst
   }"

definition decodeCDPAddresses :: "bytes \<Rightarrow> Addr list \<Rightarrow> (bool \<times> Addr list) run" where
  "decodeCDPAddresses v dst =
     (if length v < 4 then Some (False, dst)
      else do {
        cb \<leftarrow> gslice v 0 4;
        c \<leftarrow> be32 cb;
        let count = unat c;
        if count > 1024 then Some (False, dst)
        else do {
          (off, dst) \<leftarrow> cdp_addresses count v 4 dst;
          Some (off = Some (length v), dst)
        }
      })"

section \<open>The elements\<close>

definition cdpSingleton :: "u16 \<Rightarrow> bool" where
  "cdpSingleton t =
     (t = cdpTLVDeviceID \<or> t = cdpTLVPortID \<or> t = cdpTLVCapabilities \<or> t = cdpTLVSoftware \<or>
      t = cdpTLVPlatform \<or> t = cdpTLVNativeVLAN \<or> t = cdpTLVDuplex \<or> t = cdpTLVSystemName)"

definition cdp_element :: "u16 \<Rightarrow> bytes \<Rightarrow> CDPMessage \<Rightarrow> (bool \<times> CDPMessage) run" where
  "cdp_element typ v dst =
     (let d = cdp_Details dst in
      if typ = cdpTLVDeviceID then Some (True, dst\<lparr>cdp_DeviceID := copyBytes (cdp_DeviceID dst) v\<rparr>)
      else if typ = cdpTLVAddresses then do {
        (valid, as) \<leftarrow> decodeCDPAddresses v (cdp_Addresses dst);
        Some (valid, dst\<lparr>cdp_Addresses := as\<rparr>)
      }
      else if typ = cdpTLVPortID then Some (True, dst\<lparr>cdp_PortID := copyBytes (cdp_PortID dst) v\<rparr>)
      else if typ = cdpTLVCapabilities then
        if length v = 4 then do {
          caps \<leftarrow> be32 v;
          Some (True, dst\<lparr>cdp_Details := d\<lparr>cd_Capabilities := caps\<rparr>\<rparr>)
        } else Some (False, dst)
      else if typ = cdpTLVSoftware then
        Some (True, dst\<lparr>cdp_Details := d\<lparr>cd_SoftwareVersion := copyBytes (cd_SoftwareVersion d) v\<rparr>\<rparr>)
      else if typ = cdpTLVPlatform then
        Some (True, dst\<lparr>cdp_Details := d\<lparr>cd_Platform := copyBytes (cd_Platform d) v\<rparr>\<rparr>)
      else if typ = cdpTLVNativeVLAN then
        if length v = 2 then do {
          vid \<leftarrow> be16 v;
          Some (True, dst\<lparr>cdp_Details := d\<lparr>cd_NativeVLAN := vid, cd_HasNativeVLAN := True\<rparr>\<rparr>)
        } else Some (False, dst)
      else if typ = cdpTLVDuplex then
        if length v = 1 then do {
          x \<leftarrow> idx v 0;
          Some (True, dst\<lparr>cdp_Details := d\<lparr>cd_Duplex := x, cd_HasDuplex := True\<rparr>\<rparr>)
        } else Some (False, dst)
      else if typ = cdpTLVSystemName then
        Some (True, dst\<lparr>cdp_SystemName := copyBytes (cdp_SystemName dst) v\<rparr>)
      else if typ = cdpTLVManagementAddresses then do {
        (valid, as) \<leftarrow> decodeCDPAddresses v (cd_ManagementAddress d);
        Some (valid, dst\<lparr>cdp_Details := d\<lparr>cd_ManagementAddress := as\<rparr>\<rparr>)
      }
      else Some (True, dst))"

type_synonym cdp_state = "bool list \<times> DecodeStatus \<times> CDPMessage"

text \<open>One round of the loop over the elements, for an element that fits.\<close>

definition cdp_tlv :: "u16 \<Rightarrow> bytes \<Rightarrow> nat \<Rightarrow> cdp_state \<Rightarrow> cdp_state run" where
  "cdp_tlv typ v off = (\<lambda>(seen, st, dst). do {
     dup \<leftarrow> (if unat typ < length seen then idx seen (unat typ) else Some False);
     if dup \<and> cdpSingleton typ then
       Some (seen, addIssue st DecodePartial IssueDuplicateTLV off typ, dst)
     else do {
       (valid, dst) \<leftarrow> cdp_element typ v dst;
       if \<not> valid then Some (seen, addIssue st DecodePartial IssueInvalidTLVLength off typ, dst)
       else if unat typ < length seen then do {
         seen \<leftarrow> upd seen (unat typ) True;
         Some (seen, st, dst)
       }
       else Some (seen, st, dst)
     }
   })"

function cdp_loop :: "bytes \<Rightarrow> nat \<Rightarrow> cdp_state \<Rightarrow> cdp_state run" where
  "cdp_loop packet off s =
     (if off < length packet then
        if off + 4 > length packet then
          (case s of (seen, st, dst) \<Rightarrow>
             Some (seen, addIssue st DecodeFatal IssueTruncatedTLV off 0, dst))
        else do {
          tb \<leftarrow> gslice packet off (off + 2);
          typ \<leftarrow> be16 tb;
          lb \<leftarrow> gslice packet (off + 2) (off + 4);
          l \<leftarrow> be16 lb;
          let len = unat l;
          if len < 4 \<or> off + len > length packet then
            (case s of (seen, st, dst) \<Rightarrow>
               Some (seen, addIssue st DecodeFatal IssueInvalidTLVLength off typ, dst))
          else do {
            v \<leftarrow> gslice packet (off + 4) (off + len);
            s \<leftarrow> cdp_tlv typ v off s;
            cdp_loop packet (off + len) s
          }
        }
      else Some s)"
  by pat_completeness auto
termination
  by (relation "measure (\<lambda>(packet, off, s). length packet - off)") auto

declare cdp_loop.simps [simp del]

text \<open>The header.\<close>

definition cdp_header :: "bytes \<Rightarrow> DecodeStatus \<Rightarrow> CDPMessage \<Rightarrow> (DecodeStatus \<times> CDPMessage) run" where
  "cdp_header packet st dst = do {
     version \<leftarrow> idx packet 0;
     ttl \<leftarrow> idx packet 1;
     cb \<leftarrow> gslice packet 2 4;
     sum \<leftarrow> be16 cb;
     let dst = dst\<lparr>cdp_TTLSeconds := ttl,
       cdp_Details := (cdp_Details dst)\<lparr>cd_Version := version, cd_Checksum := sum\<rparr>\<rparr>;
     let st = (if version \<noteq> 1 \<and> version \<noteq> 2
       then addIssue st DecodePartial IssueInvalidHeader 0 (ucast version) else st);
     let st = (if checksum16 packet \<noteq> 0xffff
       then addIssue st DecodePartial IssueInvalidChecksum 2 0 else st);
     Some (st, dst)
   }"

definition decode_cdp :: "bytes \<Rightarrow> DecodeStatus \<Rightarrow> CDPMessage \<Rightarrow> (DecodeStatus \<times> CDPMessage) run" where
  "decode_cdp packet st dst =
     (if length packet < 4 then
        Some (addIssue st DecodeFatal IssueTooShort (length packet) 0, dst)
      else if length packet > 65535 then
        Some (addIssue st DecodeFatal IssueTooLarge (length packet) 0, dst)
      else do {
        (st, dst) \<leftarrow> cdp_header packet st dst;
        (seen, st, dst) \<leftarrow> cdp_loop packet 4 (replicate 32 False, st, dst);
        Some (st, dst)
      })"

definition DecodeCDP :: "bytes \<Rightarrow> CDPMessage ptr \<Rightarrow> (DecodeStatus \<times> CDPMessage ptr) run" where
  "DecodeCDP packet dst =
     (case dst of
        None \<Rightarrow> Some (addIssue clean_status DecodeFatal IssueNilDestination 0 0, None)
      | Some m \<Rightarrow> do {
          (st, m) \<leftarrow> decode_cdp packet clean_status (CDPMessage_Reset m);
          Some (st, Some m)
        })"

definition DecodeCDPFrame :: "bytes \<Rightarrow> CDPMessage ptr \<Rightarrow> (DecodeStatus \<times> CDPMessage ptr) run" where
  "DecodeCDPFrame frame dst = do {
     (st, ethp) \<leftarrow> DecodeEthernetFrame frame (Some zero_frame);
     eth \<leftarrow> ethp;
     if \<not> Usable st then Some (st, map_option CDPMessage_Reset dst)
     else if \<not> llc_SNAP (eth_LLC eth) \<or> llc_OUI (eth_LLC eth) \<noteq> ciscoOUI \<or> llc_PID (eth_LLC eth) \<noteq> cdpPID then
       Some (addIssue st DecodeFatal IssueWrongProtocol 14 (llc_PID (eth_LLC eth)),
             map_option CDPMessage_Reset dst)
     else do {
       (st, dst) \<leftarrow> DecodeCDP (eth_Payload eth) dst;
       Some (st, map_option (\<lambda>m. m\<lparr>cdp_SourceMAC := eth_Source eth,
         cdp_CaptureVLANs := eth_VLANs eth, cdp_CaptureVLANCount := eth_VLANCount eth\<rparr>) dst)
     }
   }"

section \<open>What the checksum computes\<close>

fun word_sum :: "bytes \<Rightarrow> nat" where
  "word_sum (a # b # bs) = unat (word16 a b) + word_sum bs"
| "word_sum [a] = 256 * unat a"
| "word_sum [] = 0"

lemma word_sum_le: "word_sum b \<le> 65535 * ((length b + 1) div 2)"
proof (induction b rule: word_sum.induct)
  case (1 a b bs)
  have "unat (word16 a b) \<le> 65535" using unat_u16_less [of "word16 a b"] by linarith
  with 1 show ?case by (simp del: unat_u16_less)
next
  case (2 a)
  have "unat a \<le> 255" using unat_u8_less [of a] by linarith
  then show ?case by (simp del: unat_u8_less)
qed simp

lemma unat_ucast_u32 [simp]: "unat (ucast (w :: u16) :: u32) = unat w"
  using unat_u16_less [of w] by (simp add: unsigned_ucast_eq take_bit_nat_eq_self del: unat_u16_less)

lemma unat_shift8_u32: "unat (push_bit 8 (ucast (w :: u8)) :: u32) = 256 * unat w"
proof -
  have u: "unat (ucast w :: u32) = unat w"
    using unat_u8_less [of w] by (simp add: unsigned_ucast_eq take_bit_nat_eq_self del: unat_u8_less)
  have "256 * unat w < 4294967296" using unat_u8_less [of w] by linarith
  then show ?thesis
    using unat_mult_lem [of "256 :: u32" "ucast w"] by (simp add: push_bit_eq_mult u mult.commute)
qed

lemma unat_sum_words:
  "unat s + word_sum b < 4294967296 \<Longrightarrow> unat (sum_words b s) = unat s + word_sum b"
proof (induction b s rule: sum_words.induct)
  case (1 a b bs s)
  have "unat (s + ucast (word16 a b)) = unat s + unat (word16 a b)"
    using "1.prems" unat_add_lem [of s "ucast (word16 a b)"] by simp
  with 1 show ?case by simp
next
  case (2 a s)
  then have "unat s + unat (push_bit 8 (ucast a) :: u32) < 2 ^ LENGTH(32)"
    by (simp only: unat_shift8_u32 word_sum.simps) simp
  then have "unat (s + push_bit 8 (ucast a)) = unat s + unat (push_bit 8 (ucast a) :: u32)"
    using unat_add_lem by blast
  then show ?case by (simp only: unat_shift8_u32 sum_words.simps word_sum.simps)
qed simp

text \<open>Folding keeps the sum modulo 65535, and keeps zero apart from 65535.\<close>

definition ones_complement :: "nat \<Rightarrow> nat" where
  "ones_complement n = (if n = 0 then 0 else (n - 1) mod 65535 + 1)"

lemma ones_complement_small: "n < 65536 \<Longrightarrow> ones_complement n = n"
  by (cases n) (auto simp: ones_complement_def)

lemma ones_complement_fold: "ones_complement (65536 * h + l) = ones_complement (h + l)"
proof (cases "h + l = 0")
  case True
  then show ?thesis by simp
next
  case False
  have "(65536 * h + l - 1) mod 65535 = (h + l - 1) mod 65535"
  proof -
    have "65536 * h + l - 1 = (h + l - 1) + 65535 * h" using False by simp
    then show ?thesis by simp
  qed
  with False show ?thesis by (auto simp: ones_complement_def)
qed

lemma drop_16_zero: "drop_bit 16 (s :: u32) = 0 \<Longrightarrow> unat s < 65536"
proof -
  assume "drop_bit 16 s = 0"
  moreover have "unat (drop_bit 16 s) = unat s div 65536"
    by (simp add: unat_div_distrib drop_bit_eq_div)
  ultimately have "unat s div 65536 = 0" by simp
  then show "unat s < 65536" by simp
qed

lemma unat_fold_sum: "unat (fold_sum s) = ones_complement (unat s)"
proof (induction s rule: fold_sum.induct)
  case (1 s)
  show ?case
  proof (cases "drop_bit 16 s = 0")
    case True
    have "fold_sum s = s" by (subst fold_sum.simps) (simp only: True simp_thms if_False)
    with drop_16_zero [OF True] show ?thesis by (simp add: ones_complement_small)
  next
    case False
    have "fold_sum s = fold_sum ((s AND 0xffff) + drop_bit 16 s)"
      by (subst fold_sum.simps) (simp only: False simp_thms if_True)
    then have "unat (fold_sum s) = ones_complement (unat (s AND 0xffff) + unat (drop_bit 16 s))"
      using "1.IH" [OF False] by (simp only: unat_fold_16)
    also have "\<dots> = ones_complement (65536 * unat (drop_bit 16 s) + unat (s AND 0xffff))"
      by (simp only: ones_complement_fold add.commute [of "unat (s AND 0xffff)"])
    finally show ?thesis using unat_split_16 [of s] by simp
  qed
qed

lemma ones_complement_less: "ones_complement n < 65536"
proof -
  have "(n - 1) mod 65535 < 65535" by simp
  then show ?thesis by (auto simp: ones_complement_def)
qed

lemma unat_checksum16:
  assumes "word_sum b < 4294967296"
  shows "unat (checksum16 b) = ones_complement (word_sum b)"
proof -
  have "unat (fold_sum (sum_words b 0)) = ones_complement (word_sum b)"
    using assms unat_sum_words [of 0 b] by (simp add: unat_fold_sum)
  then show ?thesis
    using ones_complement_less [of "word_sum b"]
    by (simp add: checksum16_def unsigned_ucast_eq take_bit_nat_eq_self)
qed

lemma word_sum_bound: "length b \<le> 65535 \<Longrightarrow> word_sum b < 4294967296"
proof -
  assume "length b \<le> 65535"
  then have "(length b + 1) div 2 \<le> 32768" by simp
  then have "65535 * ((length b + 1) div 2) \<le> 65535 * 32768" by (rule mult_le_mono2)
  then show ?thesis using word_sum_le [of b] by linarith
qed

text \<open>The check of the code, \<open>checksum16(packet) != 0xffff\<close>, in terms of the sum.\<close>

lemma checksum16_ok_iff:
  assumes "length b \<le> 65535"
  shows "checksum16 b = 0xffff \<longleftrightarrow> word_sum b \<noteq> 0 \<and> word_sum b mod 65535 = 0"
proof -
  have "checksum16 b = 0xffff \<longleftrightarrow> ones_complement (word_sum b) = 65535"
    using unat_checksum16 [OF word_sum_bound [OF assms]] by (simp add: word_unat_eq_iff)
  also have "\<dots> \<longleftrightarrow> word_sum b \<noteq> 0 \<and> word_sum b mod 65535 = 0"
  proof (cases "word_sum b")
    case (Suc k)
    have "k mod 65535 < 65535" by simp
    then have "k mod 65535 + 1 = 65535 \<longleftrightarrow> (k mod 65535 + 1) mod 65535 = 0"
      by (metis Suc_eq_plus1 Suc_lessI mod_less mod_self nat.simps(3))
    also have "\<dots> \<longleftrightarrow> Suc k mod 65535 = 0" by (simp add: mod_simps)
    finally show ?thesis by (simp only: Suc ones_complement_def) simp
  qed (simp add: ones_complement_def)
  finally show ?thesis .
qed

text \<open>
  A sender fills the checksum field with the complement of the sum over the packet with a zero field.
\<close>

definition cdp_seal :: "u8 \<Rightarrow> u8 \<Rightarrow> bytes \<Rightarrow> bytes" where
  "cdp_seal version ttl body =
     [version, ttl] @ put16 (NOT (checksum16 ([version, ttl, 0, 0] @ body))) @ body"

lemma word_sum_header: "word_sum ([a, b] @ put16 w @ body) = unat (word16 a b) + unat w + word_sum body"
  by (simp add: put16_def)

lemma word_sum_zero_header: "word_sum ([a, b, 0, 0] @ body) = unat (word16 a b) + word_sum body"
  by (simp add: word16_def)

lemma unat_not16: "unat (NOT w :: u16) = 65535 - unat w"
proof -
  have "NOT w = - 1 - w" by (simp add: not_eq_complement)
  moreover have "unat (- 1 - w :: u16) = unat (- 1 :: u16) - unat w"
    by (rule unat_sub) simp
  ultimately show ?thesis by (simp add: unsigned_minus_1_eq_mask mask_eq_exp_minus_1)
qed

lemma cdp_seal_checksum:
  assumes "length body \<le> 65531"
  shows "checksum16 (cdp_seal version ttl body) = 0xffff"
proof -
  let ?n = "unat (word16 version ttl) + word_sum body"
  have c: "unat (checksum16 ([version, ttl, 0, 0] @ body)) = ones_complement ?n"
  proof -
    have "word_sum ([version, ttl, 0, 0] @ body) < 4294967296"
      using assms by (intro word_sum_bound) simp
    from unat_checksum16 [OF this] show ?thesis by (simp only: word_sum_zero_header)
  qed
  have sum: "word_sum (cdp_seal version ttl body) = ?n + (65535 - ones_complement ?n)"
    unfolding cdp_seal_def word_sum_header unat_not16 c by simp
  have "?n + (65535 - ones_complement ?n) \<noteq> 0 \<and> (?n + (65535 - ones_complement ?n)) mod 65535 = 0"
  proof (cases "?n = 0")
    case True
    then show ?thesis by (simp add: ones_complement_def)
  next
    case False
    then obtain k where k: "?n = Suc k" by (cases ?n) auto
    have "k mod 65535 < 65535" by simp
    then have "?n + (65535 - ones_complement ?n) = (k - k mod 65535) + 65535"
      unfolding k ones_complement_def using mod_less_eq_dividend [of k 65535] by simp
    moreover have "(k - k mod 65535) = 65535 * (k div 65535)"
      by (simp add: minus_mod_eq_mult_div)
    ultimately show ?thesis by simp
  qed
  then have "word_sum (cdp_seal version ttl body) \<noteq> 0 \<and> word_sum (cdp_seal version ttl body) mod 65535 = 0"
    unfolding sum .
  moreover have "length (cdp_seal version ttl body) \<le> 65535"
    using assms by (simp add: cdp_seal_def)
  ultimately show ?thesis by (rule checksum16_ok_iff [THEN iffD2, rotated])
qed

text \<open>
  \<open>checksum16\<close> is the one's complement sum: for every packet CDP accepts, the 32-bit accumulator
  does not overflow, the result is the sum of the 16-bit words modulo 65535 with 65535 for a multiple
  that is not zero, and a packet whose checksum field holds the complement of its sum passes the
  decoder's test.
\<close>

lemma checksum16_sum:
  "(length b \<le> 65535 \<longrightarrow> unat (checksum16 b) = ones_complement (word_sum b)) \<and>
   (length body \<le> 65531 \<longrightarrow> checksum16 (cdp_seal version ttl body) = 0xffff)"
  by (simp add: unat_checksum16 word_sum_bound cdp_seal_checksum)

section \<open>The loop as a walk over elements\<close>

definition cdp_emit :: "u16 \<Rightarrow> bytes \<Rightarrow> bytes" where
  "cdp_emit t v = put16 t @ put16 (of_nat (4 + length v)) @ v"

definition cdp_fits :: "u16 \<Rightarrow> bytes \<Rightarrow> bool" where
  "cdp_fits t v = (4 + length v < 65536)"

definition cdp_good :: "cdp_state \<Rightarrow> bool" where
  "cdp_good = (\<lambda>(seen, st, m). length seen = 32 \<and> Usable st)"

lemma length_cdp_emit [simp]: "length (cdp_emit t v) = 4 + length v"
  by (simp add: cdp_emit_def)

lemma cdp_address_runs:
  "off \<le> length v \<Longrightarrow> addrs_ok dst \<Longrightarrow>
   runs (cdp_address v off dst)
     (\<lambda>r. case r of None \<Rightarrow> True | Some (off', as) \<Rightarrow> off \<le> off' \<and> off' \<le> length v \<and> addrs_ok as)"
  by (auto simp: cdp_address_def wp Let_def AddrFrom4_def AddrFrom16_def addr_ok_def
      intro!: addrs_ok_append)

lemma cdp_addresses_runs:
  "off \<le> length v \<Longrightarrow> addrs_ok dst \<Longrightarrow>
   runs (cdp_addresses n v off dst) (\<lambda>(off', as). addrs_ok as)"
proof (induction n arbitrary: off dst)
  case 0
  then show ?case by (simp add: wp)
next
  case (Suc n)
  from Suc.prems show ?case
    by (auto simp: wp split: option.splits intro!: runs_mono [OF cdp_address_runs] Suc.IH)
qed

lemma decodeCDPAddresses_runs:
  "addrs_ok dst \<Longrightarrow> runs (decodeCDPAddresses v dst) (\<lambda>(valid, as). addrs_ok as)"
  by (auto simp: decodeCDPAddresses_def wp Let_def intro!: runs_mono [OF cdp_addresses_runs])

text \<open>The address lists of a message hold valid, unmapped addresses without repetition.\<close>

definition cdp_addrs_ok :: "CDPMessage \<Rightarrow> bool" where
  "cdp_addrs_ok m = (addrs_ok (cdp_Addresses m) \<and> addrs_ok (cd_ManagementAddress (cdp_Details m)))"

lemma cdp_element_runs:
  "cdp_addrs_ok m \<Longrightarrow> runs (cdp_element t v m) (\<lambda>(valid, m'). cdp_addrs_ok m')"
  by (auto simp: cdp_element_def cdp_addrs_ok_def Let_def wp intro!: runs_mono [OF decodeCDPAddresses_runs])

lemma cdp_tlv_runs:
  "cdp_good (seen, st, m) \<Longrightarrow> cdp_addrs_ok m \<Longrightarrow>
   runs (cdp_tlv t v off (seen, st, m)) (\<lambda>s. cdp_good s \<and> cdp_addrs_ok (snd (snd s)))"
  by (auto simp: cdp_tlv_def cdp_good_def wp intro!: runs_mono [OF cdp_element_runs])

definition cdp_inv :: "cdp_state \<Rightarrow> bool" where
  "cdp_inv s = (cdp_good s \<and> cdp_addrs_ok (snd (snd s)))"

lemma cdp_loop_emit:
  assumes "cdp_fits t v"
  shows "cdp_loop (pre @ cdp_emit t v @ post) (length pre) s = do {
    s' \<leftarrow> cdp_tlv t v (length pre) s;
    cdp_loop (pre @ cdp_emit t v @ post) (length (pre @ cdp_emit t v)) s' }"
proof -
  let ?b = "pre @ cdp_emit t v @ post" and ?n = "4 + length v"
  have l: "unat (of_nat ?n :: u16) = ?n" using assms unfolding cdp_fits_def by (rule unat_of_nat_u16)
  have g: "gslice ?b (length pre) (length pre + 2) = Some (put16 t)"
    "gslice ?b (length pre + 2) (length pre + 4) = Some (put16 (of_nat ?n))"
    "gslice ?b (length pre + 4) (length pre + ?n) = Some v"
    by (simp_all add: cdp_emit_def del: of_nat_add)
  have c: "length pre < length ?b" "(length pre + 4 > length ?b) = False"
    "(?n < 4 \<or> length pre + ?n > length ?b) = False" "length (pre @ cdp_emit t v) = length pre + ?n"
    by simp_all
  show ?thesis
    unfolding c(4)
    by (subst cdp_loop.simps) (simp only: g c(1-3) l be16_put16 Let_def bind.bind_lunit if_True if_False)
qed

lemma take2_be16:
  "off + 2 \<le> length b \<Longrightarrow> be16 (take 2 (drop off b)) = Some (word16 (b ! off) (b ! (off + 1)))"
  by simp

text \<open>What is left when no element fits: the loop ends with a fatal issue.\<close>

lemma cdp_loop_stop:
  assumes "off < length b" "\<not> (\<exists>t v post. cdp_fits t v \<and> drop off b = cdp_emit t v @ post)"
  shows "\<exists>c o' t. cdp_loop b off (seen, st, m) = Some (seen, addIssue st DecodeFatal c o' t, m)"
proof (cases "off + 4 > length b")
  case True
  with assms(1) show ?thesis by (subst cdp_loop.simps) auto
next
  case False
  define ty where "ty = word16 (b ! off) (b ! (off + 1))"
  define len where "len = word16 (b ! (off + 2)) (b ! (off + 3))"
  have "unat len < 4 \<or> off + unat len > length b"
  proof (rule ccontr)
    assume "\<not> (unat len < 4 \<or> off + unat len > length b)"
    then have le: "4 \<le> unat len" "off + unat len \<le> length b" by auto
    define v where "v = take (unat len - 4) (drop (off + 4) b)"
    have lv: "4 + length v = unat len" using le by (simp add: v_def)
    have "drop off b = b ! off # b ! (off + 1) # b ! (off + 2) # b ! (off + 3) # drop (off + 4) b"
      using False by (simp add: Cons_nth_drop_Suc eval_nat_numeral)
    also have "drop (off + 4) b = v @ drop (off + unat len) b"
    proof -
      have "drop (unat len - 4) (drop (off + 4) b) = drop (off + unat len) b" using le by (simp add: add.commute)
      then show ?thesis unfolding v_def by (metis append_take_drop_id)
    qed
    also have "b ! off # b ! (off + 1) # b ! (off + 2) # b ! (off + 3) # v @ drop (off + unat len) b =
        put16 ty @ put16 len @ v @ drop (off + unat len) b"
      by (simp only: ty_def put16_word16) (simp add: len_def put16_word16)
    finally have "drop off b = put16 ty @ put16 len @ v @ drop (off + unat len) b" .
    moreover have "cdp_emit ty v = put16 ty @ put16 len @ v" by (simp only: cdp_emit_def lv of_nat_unat ucast_id)
    ultimately have "drop off b = cdp_emit ty v @ drop (off + unat len) b" by simp
    moreover have "cdp_fits ty v" using lv unat_u16_less [of len] by (simp add: cdp_fits_def)
    ultimately show False using assms(2) by blast
  qed
  moreover have "be16 (take 2 (drop off b)) = Some ty" "be16 (take 2 (drop (off + 2) b)) = Some len"
    using False by (simp_all add: ty_def len_def eval_nat_numeral)
  ultimately show ?thesis
    using False assms(1) by (subst cdp_loop.simps) (auto simp: Let_def)
qed


lemma cdp_emit_nonempty [simp]: "cdp_emit t v \<noteq> []"
  by (simp add: cdp_emit_def put16_def)

definition cdp_fatal :: "cdp_state \<Rightarrow> bool" where
  "cdp_fatal s = (\<not> Usable (fst (snd s)))"

lemma cdp_tlv_inv:
  assumes "cdp_inv s"
  shows "\<exists>s'. cdp_tlv t v off s = Some s' \<and> cdp_inv s'"
proof -
  obtain seen st m where s: "s = (seen, st, m)" by (cases s)
  with assms have "runs (cdp_tlv t v off s) cdp_inv"
    by (auto simp: cdp_inv_def intro!: runs_mono [OF cdp_tlv_runs])
  then show ?thesis by (rule runs_exD)
qed

interpretation cdp: element_walker cdp_loop cdp_tlv cdp_emit cdp_fits cdp_inv cdp_fatal
proof
  show "cdp_loop b (length b) s = Some s" for b s
    by (subst cdp_loop.simps) simp
next
  fix t v s pre post
  assume "cdp_fits t v"
  then show "cdp_loop (pre @ cdp_emit t v @ post) (length pre) s = do {
      s' \<leftarrow> cdp_tlv t v (length pre) s;
      cdp_loop (pre @ cdp_emit t v @ post) (length (pre @ cdp_emit t v)) s' }"
    by (rule cdp_loop_emit)
next
  fix s off and b :: bytes
  assume "off < length b" "\<not> (\<exists>t v post. cdp_fits t v \<and> drop off b = cdp_emit t v @ post)"
  from cdp_loop_stop [OF this] show "\<exists>s'. cdp_loop b off s = Some s' \<and> cdp_fatal s'"
    by (cases s) (metis cdp_fatal_def fst_conv snd_conv not_Usable_Fatal)
next
  show "\<not> cdp_fatal s" if "cdp_inv s" for s
    using that by (cases s) (simp add: cdp_inv_def cdp_good_def cdp_fatal_def)
next
  fix s t v off
  assume "cdp_inv s"
  then show "\<exists>s'. cdp_tlv t v off s = Some s' \<and> cdp_inv s'"
    by (rule cdp_tlv_inv)
next
  show "cdp_emit t v \<noteq> []" for t v by simp
qed

section \<open>Which packets are usable\<close>

lemma cdp_header_runs:
  assumes "4 \<le> length b" "Usable st" "cdp_addrs_ok m"
  shows "\<exists>st' m'. cdp_header b st m = Some (st', m') \<and> cdp_inv (replicate 32 False, st', m')"
proof -
  have "runs (cdp_header b st m) (\<lambda>(st', m'). cdp_inv (replicate 32 False, st', m'))"
    using assms by (auto simp: cdp_header_def wp Let_def cdp_inv_def cdp_good_def cdp_addrs_ok_def)
  then show ?thesis by (auto dest!: runs_exD)
qed

lemma cdp_addrs_ok_zero [simp]: "cdp_addrs_ok zero_cdp"
  by (simp add: cdp_addrs_ok_def zero_cdp_def)

lemma split_4: "4 \<le> length b \<Longrightarrow> \<exists>h body. b = h @ body \<and> length h = 4"
  by (intro exI [of _ "take 4 b"] exI [of _ "drop 4 b"]) simp

lemma decode_cdp_cases:
  assumes "4 \<le> length b" "length b \<le> 65535"
  obtains h body st m s' where "b = h @ body" "length h = 4"
    "cdp_header b clean_status zero_cdp = Some (st, m)" "cdp_inv (replicate 32 False, st, m)"
    "cdp_loop b 4 (replicate 32 False, st, m) = Some s'"
    "decode_cdp b clean_status zero_cdp = Some (snd s')"
    "cdp_fatal s' \<or> cdp_inv s' \<and> (\<exists>xs. (\<forall>(t, v) \<in> set xs. cdp_fits t v) \<and> body = emits cdp_emit xs \<and>
      walk cdp_tlv cdp_emit xs 4 (replicate 32 False, st, m) = Some s')"
proof -
  obtain h body where b: "b = h @ body" "length h = 4" using split_4 [OF assms(1)] by auto
  obtain st m where h: "cdp_header b clean_status zero_cdp = Some (st, m)" "cdp_inv (replicate 32 False, st, m)"
    using cdp_header_runs [of b clean_status zero_cdp] assms by auto
  from cdp.loop_result [OF h(2), of h body] b
  obtain s' where s': "cdp_loop b 4 (replicate 32 False, st, m) = Some s'"
    "cdp_fatal s' \<or> cdp_inv s' \<and> (\<exists>xs. (\<forall>(t, v) \<in> set xs. cdp_fits t v) \<and> body = emits cdp_emit xs \<and>
      walk cdp_tlv cdp_emit xs 4 (replicate 32 False, st, m) = Some s')" by auto
  have "decode_cdp b clean_status zero_cdp = Some (snd s')"
    using assms h(1) s'(1) by (cases s') (simp add: decode_cdp_def)
  with that b h s' show ?thesis by blast
qed

lemma decode_cdp_total: "\<exists>st' m'. decode_cdp b clean_status zero_cdp = Some (st', m')"
proof (cases "length b < 4 \<or> length b > 65535")
  case True
  then show ?thesis by (auto simp: decode_cdp_def)
next
  case False
  then have "4 \<le> length b" "length b \<le> 65535" by auto
  then show ?thesis by (rule decode_cdp_cases) auto
qed

text \<open>
  CDP accepts exactly the packets of 4 to 65535 bytes whose rest after the header is a sequence
  of complete elements: on those the decoder walks over the elements one by one and reports at most
  partial issues; on every other byte string its status is fatal.
\<close>

lemma DecodeCDP_usable_iff:
  "(\<exists>st m. DecodeCDP b (Some old) = Some (st, Some m) \<and> Usable st) \<longleftrightarrow>
   length b \<le> 65535 \<and>
   (\<exists>h xs. length h = 4 \<and> b = h @ emits cdp_emit xs \<and> list_all (\<lambda>(t, v). cdp_fits t v) xs)"
    (is "?usable \<longleftrightarrow> ?wf")
proof (cases "4 \<le> length b \<and> length b \<le> 65535")
  case False
  then have "\<not> ?usable" by (auto simp: DecodeCDP_def decode_cdp_def)
  moreover have "\<not> ?wf" using False by auto
  ultimately show ?thesis by blast
next
  case True
  then obtain h body st m s' where *: "b = h @ body" "length h = 4"
    "cdp_header b clean_status zero_cdp = Some (st, m)" "cdp_inv (replicate 32 False, st, m)"
    "cdp_loop b 4 (replicate 32 False, st, m) = Some s'"
    "decode_cdp b clean_status zero_cdp = Some (snd s')"
    by (metis decode_cdp_cases [of b])
  have "?usable \<longleftrightarrow> \<not> cdp_fatal s'"
    using *(6) by (cases s') (auto simp: DecodeCDP_def CDPMessage_Reset_zero cdp_fatal_def)
  also have "\<dots> \<longleftrightarrow> (\<exists>xs. (\<forall>(t, v) \<in> set xs. cdp_fits t v) \<and> body = emits cdp_emit xs)"
    using cdp.loop_good_iff [OF *(4), of h body] *(1,2,5) by (cases s') simp
  also have "\<dots> \<longleftrightarrow> ?wf"
    using True *(1,2) by (auto simp: list_all_iff)
  finally show ?thesis .
qed

section \<open>The contract of a reusable decoder\<close>

lemma DecodeCDP_eq:
  "DecodeCDP b (Some m) = do { (st, m) \<leftarrow> decode_cdp b clean_status zero_cdp; Some (st, Some m) }"
  by (simp add: DecodeCDP_def CDPMessage_Reset_zero)

interpretation cdp_decoder: message_decoder DecodeCDP "\<lambda>m. m"
proof
  show "DecodeCDP b None = Some (addIssue clean_status DecodeFatal IssueNilDestination 0 0, None)" for b
    by (simp add: DecodeCDP_def)
  show "\<exists>st m'. DecodeCDP b (Some m) = Some (st, Some m')" for b m
    using decode_cdp_total [of b] by (auto simp: DecodeCDP_eq)
  show "\<exists>n'. DecodeCDP b (Some n) = Some (st, Some n') \<and> n' = m'"
    if "DecodeCDP b (Some m) = Some (st, Some m')" for b m st m' n
    using that by (simp add: DecodeCDP_eq)
qed

lemma cdp_loop_addrs:
  "cdp_inv s \<Longrightarrow> runs (cdp_loop b off s) (\<lambda>s. cdp_addrs_ok (snd (snd s)))"
proof (induction "length b - off" arbitrary: off s rule: less_induct)
  case less
  have IH: "runs (cdp_loop b (off + n) s') (\<lambda>s. cdp_addrs_ok (snd (snd s)))"
    if "off < length b" "4 \<le> n" "cdp_inv s'" for n s'
    using that by (intro less.hyps) auto
  obtain seen st m where s: "s = (seen, st, m)" by (cases s)
  have tlv: "runs (cdp_tlv t v off (seen, st, m)) cdp_inv" for t v
    using cdp_tlv_inv [OF less.prems, of t v off] by (auto simp: runs_def s)
  have "cdp_addrs_ok m" using less.prems by (simp add: s cdp_inv_def)
  then show ?case
    by (subst cdp_loop.simps) (auto simp: wp Let_def s not_less intro!: runs_mono [OF tlv] IH)
qed

text \<open>
  Both address lists of every decoded CDP message hold valid, unmapped addresses without
  repetition, malformed address elements included.
\<close>

lemma DecodeCDP_addresses:
  "\<exists>st m. DecodeCDP b (Some old) = Some (st, Some m) \<and>
     addrs_ok (cdp_Addresses m) \<and> addrs_ok (cd_ManagementAddress (cdp_Details m))"
proof -
  obtain st m where d: "decode_cdp b clean_status zero_cdp = Some (st, m)"
    using decode_cdp_total by blast
  have "cdp_addrs_ok m"
  proof (cases "4 \<le> length b \<and> length b \<le> 65535")
    case False
    with d show ?thesis by (auto simp: decode_cdp_def split: if_splits)
  next
    case True
    then obtain seen st0 m0 where h: "cdp_header b clean_status zero_cdp = Some (st0, m0)"
      "cdp_inv (replicate 32 False, st0, m0)"
      using cdp_header_runs [of b clean_status zero_cdp] by auto
    with d True cdp_loop_addrs [of "(replicate 32 False, st0, m0)" b 4] show ?thesis
      by (auto simp: decode_cdp_def bind_eq_Some_conv' cdp_inv_def dest!: runs_SomeD)
  qed
  with d show ?thesis by (simp add: DecodeCDP_eq cdp_addrs_ok_def)
qed

section \<open>Encoding a message\<close>

fun put_cdp_addr :: "Addr \<Rightarrow> bytes" where
  "put_cdp_addr (Addr4 b) = [1, 1, 0xcc] @ put16 (of_nat (length b)) @ b"
| "put_cdp_addr (Addr6 b z) =
     [2, 8, 0xaa, 0xaa, 3, 0, 0, 0, 0x86, 0xdd] @ put16 (of_nat (length b)) @ b"
| "put_cdp_addr AddrNone = []"

definition put_cdp_addrs :: "Addr list \<Rightarrow> bytes" where
  "put_cdp_addrs as = put32 (of_nat (length as)) @ concat (map put_cdp_addr as)"

lemma cdp_address_put:
  assumes "IsValid a" "Unmap a = a" "addr_ok a" "Zone a = []" "a \<notin> set as"
  shows "cdp_address (pre @ put_cdp_addr a @ post) (length pre) as =
    Some (Some (length (pre @ put_cdp_addr a), as @ [a]))"
proof (cases a)
  case (Addr4 b)
  with assms(3) have "length b = 4" by (simp add: addr_ok_def)
  then obtain b0 b1 b2 b3 where "b = [b0, b1, b2, b3]"
    by (auto simp: length_Suc_conv numeral_eq_Suc)
  with Addr4 assms show ?thesis
    by (simp add: cdp_address_def Let_def nth_append put16_def appendUniqueAddr_def AddrFrom4_def IsValid_def
        unat_word16)
next
  case (Addr6 b z)
  with assms(3) have l: "length b = 16" by (simp add: addr_ok_def)
  with Addr6 assms show ?thesis
    by (simp add: cdp_address_def Let_def nth_append appendUniqueAddr_def AddrFrom16_def IsValid_def
        split: if_splits)
next
  case AddrNone
  with assms show ?thesis by (simp add: IsValid_def)
qed

lemma cdp_addresses_put:
  assumes "\<forall>a \<in> set as. IsValid a \<and> Unmap a = a \<and> addr_ok a \<and> Zone a = []" "distinct (bs @ as)"
  shows "cdp_addresses (length as) (pre @ concat (map put_cdp_addr as)) (length pre) bs =
    Some (Some (length (pre @ concat (map put_cdp_addr as))), bs @ as)"
  using assms
proof (induction as arbitrary: pre bs)
  case Nil
  then show ?case by simp
next
  case (Cons a as)
  have "cdp_address (pre @ put_cdp_addr a @ concat (map put_cdp_addr as)) (length pre) bs =
      Some (Some (length (pre @ put_cdp_addr a), bs @ [a]))"
    using Cons.prems by (intro cdp_address_put) auto
  moreover have "cdp_addresses (length as) ((pre @ put_cdp_addr a) @ concat (map put_cdp_addr as))
      (length (pre @ put_cdp_addr a)) (bs @ [a]) =
    Some (Some (length ((pre @ put_cdp_addr a) @ concat (map put_cdp_addr as))), (bs @ [a]) @ as)"
    using Cons.prems by (intro Cons.IH) auto
  ultimately show ?case by (simp add: add.assoc)
qed

lemma decodeCDPAddresses_put:
  assumes "addrs_ok as" "\<forall>a \<in> set as. Zone a = []" "length as \<le> 1024"
  shows "decodeCDPAddresses (put_cdp_addrs as) [] = Some (True, as)"
proof -
  have "cdp_addresses (length as) (put_cdp_addrs as) 4 [] = Some (Some (length (put_cdp_addrs as)), as)"
    using cdp_addresses_put [of as "[]" "put32 (of_nat (length as))"] assms
    by (auto simp: put_cdp_addrs_def addrs_ok_def)
  moreover have "unat (of_nat (length as) :: u32) = length as" using assms(3) by simp
  moreover have "gslice (put_cdp_addrs as) 0 4 = Some (put32 (of_nat (length as)))"
    "\<not> length (put_cdp_addrs as) < 4"
    by (simp_all add: put_cdp_addrs_def)
  ultimately show ?thesis using assms(3) by (simp add: decodeCDPAddresses_def)
qed

definition cdp_elements :: "CDPMessage \<Rightarrow> element list" where
  "cdp_elements m = (let d = cdp_Details m in
     [(cdpTLVDeviceID, cdp_DeviceID m), (cdpTLVAddresses, put_cdp_addrs (cdp_Addresses m)),
      (cdpTLVPortID, cdp_PortID m), (cdpTLVCapabilities, put32 (cd_Capabilities d)),
      (cdpTLVSoftware, cd_SoftwareVersion d), (cdpTLVPlatform, cd_Platform d)] @
     (if cd_HasNativeVLAN d then [(cdpTLVNativeVLAN, put16 (cd_NativeVLAN d))] else []) @
     (if cd_HasDuplex d then [(cdpTLVDuplex, [cd_Duplex d])] else []) @
     [(cdpTLVSystemName, cdp_SystemName m),
      (cdpTLVManagementAddresses, put_cdp_addrs (cd_ManagementAddress d))])"

definition encode_cdp :: "CDPMessage \<Rightarrow> bytes" where
  "encode_cdp m =
     cdp_seal (cd_Version (cdp_Details m)) (cdp_TTLSeconds m) (emits cdp_emit (cdp_elements m))"

text \<open>
  What a message can carry: address lists as the decoder builds them, without zones, at most 1024
  entries; zero values where a flag says absent; everything within one packet. The checksum of the
  message is the one its packet has.
\<close>

definition cdp_message_ok :: "CDPMessage \<Rightarrow> bool" where
  "cdp_message_ok m = (let d = cdp_Details m in
     (cd_Version d = 1 \<or> cd_Version d = 2) \<and>
     (\<forall>as \<in> {cdp_Addresses m, cd_ManagementAddress d}.
        addrs_ok as \<and> (\<forall>a \<in> set as. Zone a = []) \<and> length as \<le> 1024) \<and>
     (cd_HasNativeVLAN d \<or> cd_NativeVLAN d = 0) \<and> (cd_HasDuplex d \<or> cd_Duplex d = 0) \<and>
     be16 (drop 2 (encode_cdp m)) = Some (cd_Checksum d) \<and>
     cdp_SourceMAC m = zero_mac \<and> cdp_CaptureVLANs m = replicate maxVLANTags 0 \<and>
     cdp_CaptureVLANCount m = 0 \<and>
     length (encode_cdp m) \<le> 65535)"

lemma walk_cdp_elements:
  assumes "cdp_message_ok m"
  shows "\<exists>seen. walk cdp_tlv cdp_emit (cdp_elements m) 4 (replicate 32 False, st,
      zero_cdp\<lparr>cdp_TTLSeconds := cdp_TTLSeconds m, cdp_Details := (cdp_Details zero_cdp)\<lparr>
        cd_Version := cd_Version (cdp_Details m), cd_Checksum := cd_Checksum (cdp_Details m)\<rparr>\<rparr>) =
    Some (seen, st, m)"
proof -
  have a: "decodeCDPAddresses (put_cdp_addrs (cdp_Addresses m)) [] = Some (True, cdp_Addresses m)"
    "decodeCDPAddresses (put_cdp_addrs (cd_ManagementAddress (cdp_Details m))) [] =
      Some (True, cd_ManagementAddress (cdp_Details m))"
    using assms by (intro decodeCDPAddresses_put; simp add: cdp_message_ok_def Let_def)+
  obtain mac vlans n ttl dev port name as d where m: "m = \<lparr>cdp_SourceMAC = mac, cdp_CaptureVLANs = vlans,
      cdp_CaptureVLANCount = n, cdp_TTLSeconds = ttl, cdp_DeviceID = dev, cdp_PortID = port,
      cdp_SystemName = name, cdp_Addresses = as, cdp_Details = d\<rparr>" by (cases m) blast
  obtain v c nv hnv du hdu ca sw pl ma where d: "d = \<lparr>cd_Version = v, cd_Checksum = c, cd_NativeVLAN = nv,
      cd_HasNativeVLAN = hnv, cd_Duplex = du, cd_HasDuplex = hdu, cd_Capabilities = ca,
      cd_SoftwareVersion = sw, cd_Platform = pl, cd_ManagementAddress = ma\<rparr>" by (cases d) blast
  have ok: "mac = zero_mac" "vlans = replicate maxVLANTags 0" "n = 0" "hnv \<or> nv = 0" "hdu \<or> du = 0"
    using assms by (simp_all add: m d cdp_message_ok_def Let_def)
  from a show ?thesis
    by (cases hnv; cases hdu)
      (insert ok, simp_all add: m d cdp_elements_def Let_def cdp_tlv_def cdp_element_def
        cdp_type_defs cdpSingleton_def zero_cdp_def)
qed


lemma cdp_elements_fit:
  assumes "cdp_message_ok m" "(t, v) \<in> set (cdp_elements m)"
  shows "cdp_fits t v"
proof -
  obtain xs ys where "cdp_elements m = xs @ (t, v) # ys"
    using assms(2) by (meson split_list)
  then have "length (emits cdp_emit (cdp_elements m)) \<ge> 4 + length v" by simp
  moreover have "length (encode_cdp m) \<le> 65535"
    using assms(1) by (simp add: cdp_message_ok_def Let_def)
  ultimately show ?thesis by (simp add: encode_cdp_def cdp_seal_def cdp_fits_def)
qed

text \<open>
  (C25) Decoding inverts encoding for a complete CDP message: version, time to live, names, both
  address lists, capabilities, software and platform, native VLAN and duplex come back unchanged
  from the packet that carries them under a correct checksum, with a clean status, whatever the
  reused message held before.
\<close>

theorem DecodeCDP_roundtrip:
  assumes "cdp_message_ok m"
  shows "DecodeCDP (encode_cdp m) (Some old) = Some (clean_status, Some m)"
proof -
  let ?d = "cdp_Details m" and ?z = "replicate 32 False"
  let ?body = "emits cdp_emit (cdp_elements m)"
  define h where "h = [cd_Version ?d, cdp_TTLSeconds m] @
    put16 (NOT (checksum16 ([cd_Version ?d, cdp_TTLSeconds m, 0, 0] @ ?body)))"
  have b: "encode_cdp m = h @ ?body" "length h = 4"
    by (simp_all add: encode_cdp_def cdp_seal_def h_def)
  have len: "4 \<le> length (encode_cdp m)" "length (encode_cdp m) \<le> 65535"
    using assms b by (simp_all add: cdp_message_ok_def Let_def)
  let ?m = "zero_cdp\<lparr>cdp_TTLSeconds := cdp_TTLSeconds m, cdp_Details := (cdp_Details zero_cdp)\<lparr>
        cd_Version := cd_Version ?d, cd_Checksum := cd_Checksum ?d\<rparr>\<rparr>"
  have "checksum16 (encode_cdp m) = 0xffff"
    using len unfolding encode_cdp_def by (intro cdp_seal_checksum) (simp add: cdp_seal_def)
  moreover have "be16 (take 2 (drop 2 (encode_cdp m))) = Some (cd_Checksum ?d)"
    using assms len by (auto simp: cdp_message_ok_def Let_def)
  moreover have "idx (encode_cdp m) 0 = Some (cd_Version ?d)" "idx (encode_cdp m) 1 = Some (cdp_TTLSeconds m)"
    by (simp_all add: b(1) h_def)
  moreover have "gslice (encode_cdp m) 2 4 = Some (take 2 (drop 2 (encode_cdp m)))" using len by simp
  moreover have "cd_Version ?d = 1 \<or> cd_Version ?d = 2"
    using assms by (simp add: cdp_message_ok_def Let_def)
  ultimately have head: "cdp_header (encode_cdp m) clean_status zero_cdp = Some (clean_status, ?m)"
    unfolding cdp_header_def by (simp only: bind.bind_lunit Let_def) auto
  have good: "cdp_inv (?z, clean_status, ?m)"
    by (simp add: cdp_inv_def cdp_good_def cdp_addrs_ok_def zero_cdp_def)
  obtain seen where "walk cdp_tlv cdp_emit (cdp_elements m) 4 (?z, clean_status, ?m) = Some (seen, clean_status, m)"
    using walk_cdp_elements [OF assms] by blast
  then have "cdp_loop (encode_cdp m) 4 (?z, clean_status, ?m) = Some (seen, clean_status, m)"
    using cdp.loop_walk [of "cdp_elements m" "(?z, clean_status, ?m)" h] cdp_elements_fit [OF assms] good b
    by simp
  with head len show ?thesis by (simp add: DecodeCDP_eq decode_cdp_def)
qed

definition sample_cdp :: CDPMessage where
  "sample_cdp = zero_cdp\<lparr>cdp_TTLSeconds := 180, cdp_DeviceID := [0x73, 0x77],
     cdp_Addresses := [Addr4 [192, 0, 2, 1]],
     cdp_Details := (cdp_Details zero_cdp)\<lparr>cd_Version := 2, cd_NativeVLAN := 7, cd_HasNativeVLAN := True\<rparr>\<rparr>"

definition sample_cdp_sealed :: CDPMessage where
  "sample_cdp_sealed = sample_cdp\<lparr>cdp_Details := (cdp_Details sample_cdp)\<lparr>
     cd_Checksum := the (be16 (drop 2 (encode_cdp sample_cdp)))\<rparr>\<rparr>"

lemma encode_cdp_checksum:
  "encode_cdp (m\<lparr>cdp_Details := (cdp_Details m)\<lparr>cd_Checksum := c\<rparr>\<rparr>) = encode_cdp m"
  by (simp add: encode_cdp_def cdp_elements_def Let_def)

theorem DecodeCDP_roundtrip_witness:
  "DecodeCDP (encode_cdp sample_cdp_sealed) (Some zero_cdp) = Some (clean_status, Some sample_cdp_sealed)"
proof (rule DecodeCDP_roundtrip)
  have len: "length (encode_cdp sample_cdp) \<le> 65535" "4 \<le> length (encode_cdp sample_cdp)"
    by (simp_all add: encode_cdp_def cdp_seal_def cdp_elements_def Let_def sample_cdp_def zero_cdp_def
        put_cdp_addrs_def)
  then obtain c where c: "be16 (drop 2 (encode_cdp sample_cdp)) = Some c" by simp
  have "cdp_SourceMAC sample_cdp = zero_mac" "cdp_CaptureVLANs sample_cdp = replicate maxVLANTags 0"
    "cdp_CaptureVLANCount sample_cdp = 0" "cd_Version (cdp_Details sample_cdp) = 2"
    "cdp_Addresses sample_cdp = [Addr4 [192, 0, 2, 1]]" "cd_ManagementAddress (cdp_Details sample_cdp) = []"
    "cd_HasNativeVLAN (cdp_Details sample_cdp)" "cd_Duplex (cdp_Details sample_cdp) = 0"
    by (simp_all add: sample_cdp_def zero_cdp_def)
  with c len(1) show "cdp_message_ok sample_cdp_sealed"
    unfolding sample_cdp_sealed_def cdp_message_ok_def Let_def encode_cdp_checksum
    by (simp add: addrs_ok_def IsValid_def addr_ok_def)
qed

end
