(* ===== verification/MNDP.thy ===== *)
theory MNDP
  imports Decoder
begin

text \<open>
  The model of \<open>pkg/omnidiscover/mndp.go\<close>: the MikroTik Neighbor Discovery packet, a four-byte
  header and a sequence of elements whose length field counts the value alone.
\<close>

section \<open>Messages\<close>

definition MNDPPort :: u16 where "MNDPPort = 5678"
definition MaxMNDPPacketSize :: nat where "MaxMNDPPacketSize = 1500"
definition mndpTagMAC :: u16 where "mndpTagMAC = 1"
definition mndpTagIdentity :: u16 where "mndpTagIdentity = 5"
definition mndpTagVersion :: u16 where "mndpTagVersion = 7"
definition mndpTagPlatform :: u16 where "mndpTagPlatform = 8"
definition mndpTagUptime :: u16 where "mndpTagUptime = 10"
definition mndpTagSoftwareID :: u16 where "mndpTagSoftwareID = 11"
definition mndpTagBoard :: u16 where "mndpTagBoard = 12"
definition mndpTagIPv6 :: u16 where "mndpTagIPv6 = 15"
definition mndpTagInterface :: u16 where "mndpTagInterface = 16"
definition mndpTagIPv4 :: u16 where "mndpTagIPv4 = 17"

lemmas mndp_tag_defs =
  mndpTagMAC_def mndpTagIdentity_def mndpTagVersion_def mndpTagPlatform_def mndpTagUptime_def
  mndpTagSoftwareID_def mndpTagBoard_def mndpTagIPv6_def mndpTagInterface_def mndpTagIPv4_def

record MNDPMessage =
  mndp_SourceIP :: Addr
  mndp_MAC :: MAC
  mndp_HasMAC :: bool
  mndp_Addresses :: "Addr list"
  mndp_IsRefresh :: bool
  mndp_Details :: MNDPDetails

definition MNDPMessage_Reset :: "MNDPMessage \<Rightarrow> MNDPMessage" where
  "MNDPMessage_Reset m =
     m\<lparr>mndp_SourceIP := AddrNone,
       mndp_MAC := zero_mac,
       mndp_HasMAC := False,
       mndp_Addresses := [],
       mndp_IsRefresh := False,
       mndp_Details := (mndp_Details m)\<lparr>
         md_TypeTag := 0,
         md_Sequence := 0,
         md_Identity := [],
         md_Version := [],
         md_Platform := [],
         md_SoftwareID := [],
         md_Board := [],
         md_InterfaceName := [],
         md_UptimeSeconds := 0,
         md_HasUptime := False\<rparr>\<rparr>"

definition zero_mndp :: MNDPMessage where
  "zero_mndp =
     \<lparr>mndp_SourceIP = AddrNone, mndp_MAC = zero_mac, mndp_HasMAC = False, mndp_Addresses = [],
      mndp_IsRefresh = False,
      mndp_Details = \<lparr>md_TypeTag = 0, md_Sequence = 0, md_Identity = [], md_Version = [],
        md_Platform = [], md_SoftwareID = [], md_Board = [], md_InterfaceName = [],
        md_UptimeSeconds = 0, md_HasUptime = False\<rparr>\<rparr>"

lemma MNDPMessage_Reset_zero: "MNDPMessage_Reset m = zero_mndp"
  by (cases m; cases "mndp_Details m") (simp add: MNDPMessage_Reset_def zero_mndp_def)

section \<open>The elements\<close>

definition mndp_element :: "u16 \<Rightarrow> bytes \<Rightarrow> MNDPMessage \<Rightarrow> (bool \<times> MNDPMessage) run" where
  "mndp_element tag v dst =
     (let d = mndp_Details dst in
      if tag = mndpTagMAC then
        if length v = 6 then
          (let mac = copy_mac (mndp_MAC dst) v
           in Some (True, dst\<lparr>mndp_MAC := mac, mndp_HasMAC := IsUnicast mac\<rparr>))
        else Some (False, dst)
      else if tag = mndpTagIdentity then
        Some (True, dst\<lparr>mndp_Details := d\<lparr>md_Identity := copyBytes (md_Identity d) v\<rparr>\<rparr>)
      else if tag = mndpTagVersion then
        Some (True, dst\<lparr>mndp_Details := d\<lparr>md_Version := copyBytes (md_Version d) v\<rparr>\<rparr>)
      else if tag = mndpTagPlatform then
        Some (True, dst\<lparr>mndp_Details := d\<lparr>md_Platform := copyBytes (md_Platform d) v\<rparr>\<rparr>)
      else if tag = mndpTagUptime then
        if length v = 4 then do {
          s \<leftarrow> le32 v;
          Some (True, dst\<lparr>mndp_Details := d\<lparr>md_UptimeSeconds := s, md_HasUptime := True\<rparr>\<rparr>)
        } else Some (False, dst)
      else if tag = mndpTagSoftwareID then
        Some (True, dst\<lparr>mndp_Details := d\<lparr>md_SoftwareID := copyBytes (md_SoftwareID d) v\<rparr>\<rparr>)
      else if tag = mndpTagBoard then
        Some (True, dst\<lparr>mndp_Details := d\<lparr>md_Board := copyBytes (md_Board d) v\<rparr>\<rparr>)
      else if tag = mndpTagInterface then
        Some (True, dst\<lparr>mndp_Details := d\<lparr>md_InterfaceName := copyBytes (md_InterfaceName d) v\<rparr>\<rparr>)
      else if tag = mndpTagIPv4 then
        if length v = 4 then do {
          v0 \<leftarrow> idx v 0; v1 \<leftarrow> idx v 1; v2 \<leftarrow> idx v 2; v3 \<leftarrow> idx v 3;
          Some (True, dst\<lparr>mndp_Addresses :=
            appendUniqueAddr (mndp_Addresses dst) (AddrFrom4 [v0, v1, v2, v3])\<rparr>)
        } else Some (False, dst)
      else if tag = mndpTagIPv6 then
        if length v = 16 then
          Some (True, dst\<lparr>mndp_Addresses :=
            appendUniqueAddr (mndp_Addresses dst) (AddrFrom16 (go_copy (replicate 16 0) v))\<rparr>)
        else Some (False, dst)
      else Some (True, dst))"

type_synonym mndp_state = "bool list \<times> DecodeStatus \<times> MNDPMessage"

text \<open>One round of the loop, for an element that fits.\<close>

definition mndp_tlv :: "u16 \<Rightarrow> bytes \<Rightarrow> nat \<Rightarrow> mndp_state \<Rightarrow> mndp_state run" where
  "mndp_tlv tag v off = (\<lambda>(seen, st, dst). do {
     dup \<leftarrow> (if unat tag < length seen then idx seen (unat tag) else Some False);
     if dup \<and> tag \<noteq> mndpTagIPv4 \<and> tag \<noteq> mndpTagIPv6 then
       Some (seen, addIssue st DecodePartial IssueDuplicateTLV off tag, dst)
     else do {
       (valid, dst) \<leftarrow> mndp_element tag v dst;
       if \<not> valid then Some (seen, addIssue st DecodePartial IssueInvalidTLVLength off tag, dst)
       else if unat tag < length seen then do {
         seen \<leftarrow> upd seen (unat tag) True;
         Some (seen, st, dst)
       }
       else Some (seen, st, dst)
     }
   })"

function mndp_loop :: "bytes \<Rightarrow> nat \<Rightarrow> mndp_state \<Rightarrow> mndp_state run" where
  "mndp_loop packet off s =
     (if off < length packet then
        if off + 4 > length packet then
          (case s of (seen, st, dst) \<Rightarrow>
             Some (seen, addIssue st DecodeFatal IssueTruncatedTLV off 0, dst))
        else do {
          tb \<leftarrow> gslice packet off (off + 2);
          tag \<leftarrow> be16 tb;
          lb \<leftarrow> gslice packet (off + 2) (off + 4);
          l \<leftarrow> be16 lb;
          let len = unat l;
          if off + 4 + len > length packet then
            (case s of (seen, st, dst) \<Rightarrow>
               Some (seen, addIssue st DecodeFatal IssueInvalidTLVLength off tag, dst))
          else do {
            v \<leftarrow> gslice packet (off + 4) (off + 4 + len);
            s \<leftarrow> mndp_tlv tag v off s;
            mndp_loop packet (off + 4 + len) s
          }
        }
      else Some s)"
  by pat_completeness auto
termination
  by (relation "measure (\<lambda>(packet, off, s). length packet - off)") auto

declare mndp_loop.simps [simp del]

text \<open>The header.\<close>

definition mndp_header :: "bytes \<Rightarrow> MNDPMessage \<Rightarrow> MNDPMessage run" where
  "mndp_header packet dst = do {
     tb \<leftarrow> gslice packet 0 2;
     t \<leftarrow> be16 tb;
     sb \<leftarrow> gslice packet 2 4;
     s \<leftarrow> be16 sb;
     Some (dst\<lparr>mndp_IsRefresh := (t = 0 \<and> s = 0),
       mndp_Details := (mndp_Details dst)\<lparr>md_TypeTag := t, md_Sequence := s\<rparr>\<rparr>)
   }"

definition decode_mndp :: "bytes \<Rightarrow> DecodeStatus \<Rightarrow> MNDPMessage \<Rightarrow> (DecodeStatus \<times> MNDPMessage) run" where
  "decode_mndp packet st dst =
     (if length packet < 4 then
        Some (addIssue st DecodeFatal IssueTooShort (length packet) 0, dst)
      else if length packet > MaxMNDPPacketSize then
        Some (addIssue st DecodeFatal IssueTooLarge (length packet) 0, dst)
      else do {
        dst \<leftarrow> mndp_header packet dst;
        (seen, st, dst) \<leftarrow> mndp_loop packet 4 (replicate 18 False, st, dst);
        Some (st, dst)
      })"

definition DecodeMNDP :: "bytes \<Rightarrow> MNDPMessage ptr \<Rightarrow> (DecodeStatus \<times> MNDPMessage ptr) run" where
  "DecodeMNDP packet dst =
     (case dst of
        None \<Rightarrow> Some (addIssue clean_status DecodeFatal IssueNilDestination 0 0, None)
      | Some m \<Rightarrow> do {
          (st, m) \<leftarrow> decode_mndp packet clean_status (MNDPMessage_Reset m);
          Some (st, Some m)
        })"

section \<open>The loop as a walk over elements\<close>

definition mndp_emit :: "u16 \<Rightarrow> bytes \<Rightarrow> bytes" where
  "mndp_emit t v = put16 t @ put16 (of_nat (length v)) @ v"

definition mndp_fits :: "u16 \<Rightarrow> bytes \<Rightarrow> bool" where
  "mndp_fits t v = (length v < 65536)"

definition mndp_inv :: "mndp_state \<Rightarrow> bool" where
  "mndp_inv = (\<lambda>(seen, st, m). length seen = 18 \<and> Usable st \<and> addrs_ok (mndp_Addresses m))"

definition mndp_fatal :: "mndp_state \<Rightarrow> bool" where
  "mndp_fatal s = (\<not> Usable (fst (snd s)))"

lemma length_mndp_emit [simp]: "length (mndp_emit t v) = 4 + length v"
  by (simp add: mndp_emit_def)

lemma mndp_element_runs:
  "addrs_ok (mndp_Addresses m) \<Longrightarrow>
   runs (mndp_element t v m) (\<lambda>(valid, m'). addrs_ok (mndp_Addresses m'))"
  by (auto simp: mndp_element_def Let_def wp AddrFrom4_def AddrFrom16_def addr_ok_def
      intro!: addrs_ok_append)

lemma mndp_tlv_runs: "mndp_inv (seen, st, m) \<Longrightarrow> runs (mndp_tlv t v off (seen, st, m)) mndp_inv"
  by (auto simp: mndp_tlv_def mndp_inv_def wp intro!: runs_mono [OF mndp_element_runs])

lemma mndp_loop_emit:
  assumes "mndp_fits t v"
  shows "mndp_loop (pre @ mndp_emit t v @ post) (length pre) s = do {
    s' \<leftarrow> mndp_tlv t v (length pre) s;
    mndp_loop (pre @ mndp_emit t v @ post) (length (pre @ mndp_emit t v)) s' }"
proof -
  let ?b = "pre @ mndp_emit t v @ post" and ?n = "length v"
  have l: "unat (of_nat ?n :: u16) = ?n" using assms unfolding mndp_fits_def by (rule unat_of_nat_u16)
  have g: "gslice ?b (length pre) (length pre + 2) = Some (put16 t)"
    "gslice ?b (length pre + 2) (length pre + 4) = Some (put16 (of_nat ?n))"
    "gslice ?b (length pre + 4) (length pre + 4 + ?n) = Some v"
    by (simp_all add: mndp_emit_def)
  have c: "length pre < length ?b" "(length pre + 4 > length ?b) = False"
    "(length pre + 4 + ?n > length ?b) = False" "length (pre @ mndp_emit t v) = length pre + 4 + ?n"
    by simp_all
  show ?thesis
    unfolding c(4)
    by (subst mndp_loop.simps) (simp only: g c(1-3) l be16_put16 Let_def bind.bind_lunit if_True if_False)
qed

lemma mndp_loop_stop:
  assumes "off < length b" "\<not> (\<exists>t v post. mndp_fits t v \<and> drop off b = mndp_emit t v @ post)"
  shows "\<exists>c o' t. mndp_loop b off (seen, st, m) = Some (seen, addIssue st DecodeFatal c o' t, m)"
proof (cases "off + 4 > length b")
  case True
  with assms(1) show ?thesis by (subst mndp_loop.simps) auto
next
  case False
  define ty where "ty = word16 (b ! off) (b ! (off + 1))"
  define len where "len = word16 (b ! (off + 2)) (b ! (off + 3))"
  have "off + 4 + unat len > length b"
  proof (rule ccontr)
    assume "\<not> off + 4 + unat len > length b"
    then have le: "off + 4 + unat len \<le> length b" by simp
    define v where "v = take (unat len) (drop (off + 4) b)"
    have lv: "length v = unat len" using le by (simp add: v_def)
    have "drop off b = b ! off # b ! (off + 1) # b ! (off + 2) # b ! (off + 3) # drop (off + 4) b"
      using False by (simp add: Cons_nth_drop_Suc eval_nat_numeral)
    also have "drop (off + 4) b = v @ drop (off + 4 + unat len) b"
      unfolding v_def by (metis append_take_drop_id drop_drop add.commute)
    also have "b ! off # b ! (off + 1) # b ! (off + 2) # b ! (off + 3) # v @ drop (off + 4 + unat len) b =
        put16 ty @ put16 len @ v @ drop (off + 4 + unat len) b"
      by (simp only: ty_def put16_word16) (simp add: len_def put16_word16)
    finally have "drop off b = put16 ty @ put16 len @ v @ drop (off + 4 + unat len) b" .
    moreover have "mndp_emit ty v = put16 ty @ put16 len @ v"
      by (simp only: mndp_emit_def lv of_nat_unat ucast_id)
    ultimately have "drop off b = mndp_emit ty v @ drop (off + 4 + unat len) b" by simp
    moreover have "mndp_fits ty v" using lv unat_u16_less [of len] by (simp add: mndp_fits_def)
    ultimately show False using assms(2) by blast
  qed
  moreover have "be16 (take 2 (drop off b)) = Some ty" "be16 (take 2 (drop (off + 2) b)) = Some len"
    using False by (simp_all add: ty_def len_def eval_nat_numeral)
  ultimately show ?thesis
    using False assms(1) by (subst mndp_loop.simps) (auto simp: Let_def)
qed

interpretation mndp: element_walker mndp_loop mndp_tlv mndp_emit mndp_fits mndp_inv mndp_fatal
proof
  show "mndp_loop b (length b) s = Some s" for b s
    by (subst mndp_loop.simps) simp
next
  fix t v s pre post
  assume "mndp_fits t v"
  then show "mndp_loop (pre @ mndp_emit t v @ post) (length pre) s = do {
      s' \<leftarrow> mndp_tlv t v (length pre) s;
      mndp_loop (pre @ mndp_emit t v @ post) (length (pre @ mndp_emit t v)) s' }"
    by (rule mndp_loop_emit)
next
  fix s off and b :: bytes
  assume "off < length b" "\<not> (\<exists>t v post. mndp_fits t v \<and> drop off b = mndp_emit t v @ post)"
  from mndp_loop_stop [OF this] show "\<exists>s'. mndp_loop b off s = Some s' \<and> mndp_fatal s'"
    by (cases s) (metis mndp_fatal_def fst_conv snd_conv not_Usable_Fatal)
next
  show "\<not> mndp_fatal s" if "mndp_inv s" for s
    using that by (cases s) (simp add: mndp_inv_def mndp_fatal_def)
next
  fix s t v off
  assume "mndp_inv s"
  then show "\<exists>s'. mndp_tlv t v off s = Some s' \<and> mndp_inv s'"
    by (cases s) (simp only: mndp_tlv_runs [THEN runs_exD])
next
  show "mndp_emit t v \<noteq> []" for t v by (simp add: mndp_emit_def put16_def)
qed

section \<open>Which packets are usable\<close>

lemma mndp_header_runs:
  "4 \<le> length b \<Longrightarrow> \<exists>m. mndp_header b zero_mndp = Some m \<and> mndp_inv (replicate 18 False, clean_status, m)"
  by (simp add: mndp_header_def mndp_inv_def zero_mndp_def)

lemma decode_mndp_cases:
  assumes "4 \<le> length b" "length b \<le> MaxMNDPPacketSize"
  obtains h body m s' where "b = h @ body" "length h = 4"
    "mndp_header b zero_mndp = Some m" "mndp_inv (replicate 18 False, clean_status, m)"
    "mndp_loop b 4 (replicate 18 False, clean_status, m) = Some s'"
    "decode_mndp b clean_status zero_mndp = Some (snd s')" "mndp_fatal s' \<or> mndp_inv s'"
proof -
  have b: "b = take 4 b @ drop 4 b" "length (take 4 b) = 4" using assms by simp_all
  obtain m where h: "mndp_header b zero_mndp = Some m" "mndp_inv (replicate 18 False, clean_status, m)"
    using mndp_header_runs [OF assms(1)] by blast
  from mndp.loop_result [OF h(2), of "take 4 b" "drop 4 b"] b
  obtain s' where s': "mndp_loop b 4 (replicate 18 False, clean_status, m) = Some s'"
    "mndp_fatal s' \<or> mndp_inv s'" by auto
  have "decode_mndp b clean_status zero_mndp = Some (snd s')"
    using assms h(1) s'(1) by (cases s') (simp add: decode_mndp_def)
  with that b h s' show ?thesis by blast
qed

lemma decode_mndp_total: "\<exists>st m. decode_mndp b clean_status zero_mndp = Some (st, m)"
proof (cases "4 \<le> length b \<and> length b \<le> MaxMNDPPacketSize")
  case True
  then have "4 \<le> length b" "length b \<le> MaxMNDPPacketSize" by auto
  then show ?thesis by (rule decode_mndp_cases) auto
qed (auto simp: decode_mndp_def)

lemma DecodeMNDP_eq:
  "DecodeMNDP b (Some m) = do { (st, m) \<leftarrow> decode_mndp b clean_status zero_mndp; Some (st, Some m) }"
  by (simp add: DecodeMNDP_def MNDPMessage_Reset_zero)

text \<open>
  MNDP accepts exactly the packets of 4 to 1500 bytes whose rest after the header is a sequence
  of complete elements; on every other byte string its status is fatal.
\<close>

lemma DecodeMNDP_usable_iff:
  "(\<exists>st m. DecodeMNDP b (Some old) = Some (st, Some m) \<and> Usable st) \<longleftrightarrow>
   length b \<le> MaxMNDPPacketSize \<and>
   (\<exists>h xs. length h = 4 \<and> b = h @ emits mndp_emit xs \<and> list_all (\<lambda>(t, v). mndp_fits t v) xs)"
    (is "?usable \<longleftrightarrow> ?wf")
proof (cases "4 \<le> length b \<and> length b \<le> MaxMNDPPacketSize")
  case False
  then have "\<not> ?usable" by (auto simp: DecodeMNDP_eq decode_mndp_def)
  moreover have "\<not> ?wf" using False by auto
  ultimately show ?thesis by blast
next
  case True
  then obtain h body m s' where *: "b = h @ body" "length h = 4"
    "mndp_header b zero_mndp = Some m" "mndp_inv (replicate 18 False, clean_status, m)"
    "mndp_loop b 4 (replicate 18 False, clean_status, m) = Some s'"
    "decode_mndp b clean_status zero_mndp = Some (snd s')"
    by (metis decode_mndp_cases [of b])
  have "?usable \<longleftrightarrow> \<not> mndp_fatal s'"
    using *(6) by (cases s') (auto simp: DecodeMNDP_eq mndp_fatal_def)
  also have "\<dots> \<longleftrightarrow> (\<exists>xs. (\<forall>(t, v) \<in> set xs. mndp_fits t v) \<and> body = emits mndp_emit xs)"
    using mndp.loop_good_iff [OF *(4), of h body] *(1,2,5) by (cases s') simp
  also have "\<dots> \<longleftrightarrow> ?wf"
    using True *(1,2) by (auto simp: list_all_iff)
  finally show ?thesis .
qed

section \<open>The contract of a reusable decoder\<close>

interpretation mndp_decoder: message_decoder DecodeMNDP "\<lambda>m. m"
proof
  show "DecodeMNDP b None = Some (addIssue clean_status DecodeFatal IssueNilDestination 0 0, None)" for b
    by (simp add: DecodeMNDP_def)
  show "\<exists>st m'. DecodeMNDP b (Some m) = Some (st, Some m')" for b m
    using decode_mndp_total [of b] by (auto simp: DecodeMNDP_eq)
  show "\<exists>n'. DecodeMNDP b (Some n) = Some (st, Some n') \<and> n' = m'"
    if "DecodeMNDP b (Some m) = Some (st, Some m')" for b m st m' n
    using that by (simp add: DecodeMNDP_eq)
qed

section \<open>Encoding a message\<close>

definition put32_le :: "u32 \<Rightarrow> bytes" where
  "put32_le w = rev (put32 w)"

lemma le32_put32_le [simp]: "le32 (put32_le w) = Some w"
  by (simp add: put32_le_def put32_def)

lemma length_put32_le [simp]: "length (put32_le w) = 4"
  by (simp add: put32_le_def)

fun addr_element :: "Addr \<Rightarrow> element" where
  "addr_element (Addr4 b) = (mndpTagIPv4, b)"
| "addr_element (Addr6 b z) = (mndpTagIPv6, b)"
| "addr_element AddrNone = (0, [])"

definition mndp_texts :: "MNDPDetails \<Rightarrow> element list" where
  "mndp_texts d =
     [(mndpTagIdentity, md_Identity d), (mndpTagVersion, md_Version d), (mndpTagPlatform, md_Platform d),
      (mndpTagSoftwareID, md_SoftwareID d), (mndpTagBoard, md_Board d), (mndpTagInterface, md_InterfaceName d)]"

definition mndp_elements :: "MNDPMessage \<Rightarrow> element list" where
  "mndp_elements m =
     (mndpTagMAC, mac_bytes (mndp_MAC m)) # mndp_texts (mndp_Details m) @
     (if md_HasUptime (mndp_Details m) then [(mndpTagUptime, put32_le (md_UptimeSeconds (mndp_Details m)))] else []) @
     map addr_element (mndp_Addresses m)"

definition encode_mndp :: "MNDPMessage \<Rightarrow> bytes" where
  "encode_mndp m = put16 (md_TypeTag (mndp_Details m)) @ put16 (md_Sequence (mndp_Details m)) @
     emits mndp_emit (mndp_elements m)"

definition mndp_message_ok :: "MNDPMessage \<Rightarrow> bool" where
  "mndp_message_ok m =
     (mndp_SourceIP m = AddrNone \<and> mndp_HasMAC m = IsUnicast (mndp_MAC m) \<and>
      mndp_IsRefresh m = (md_TypeTag (mndp_Details m) = 0 \<and> md_Sequence (mndp_Details m) = 0) \<and>
      addrs_ok (mndp_Addresses m) \<and> (\<forall>a \<in> set (mndp_Addresses m). Zone a = []) \<and>
      (md_HasUptime (mndp_Details m) \<or> md_UptimeSeconds (mndp_Details m) = 0) \<and>
      length (encode_mndp m) \<le> MaxMNDPPacketSize)"

lemma mndp_tlv_addr:
  assumes "IsValid a" "Unmap a = a" "addr_ok a" "Zone a = []" "a \<notin> set (mndp_Addresses m)" "length seen = 18"
  shows "\<exists>seen'. length seen' = 18 \<and> mndp_tlv (fst (addr_element a)) (snd (addr_element a)) off (seen, st, m) =
    Some (seen', st, m\<lparr>mndp_Addresses := mndp_Addresses m @ [a]\<rparr>)"
proof (cases a)
  case (Addr4 b)
  with assms(3) have "length b = 4" by (simp add: addr_ok_def)
  then obtain b0 b1 b2 b3 where "b = [b0, b1, b2, b3]"
    by (auto simp: length_Suc_conv numeral_eq_Suc)
  with Addr4 assms show ?thesis
    by (simp add: mndp_tlv_def mndp_element_def mndp_tag_defs Let_def appendUniqueAddr_def AddrFrom4_def IsValid_def)
next
  case (Addr6 b z)
  with assms(3) have l: "length b = 16" by (simp add: addr_ok_def)
  with Addr6 assms show ?thesis
    by (simp add: mndp_tlv_def mndp_element_def mndp_tag_defs Let_def appendUniqueAddr_def AddrFrom16_def IsValid_def
        split: if_splits)
next
  case AddrNone
  with assms show ?thesis by (simp add: IsValid_def)
qed

lemma walk_addrs:
  assumes "\<forall>a \<in> set as. IsValid a \<and> Unmap a = a \<and> addr_ok a \<and> Zone a = []"
    "distinct (mndp_Addresses m @ as)" "length seen = 18"
  shows "\<exists>seen'. walk mndp_tlv mndp_emit (map addr_element as) off (seen, st, m) =
    Some (seen', st, m\<lparr>mndp_Addresses := mndp_Addresses m @ as\<rparr>)"
  using assms
proof (induction as arbitrary: m off seen)
  case Nil
  then show ?case by simp
next
  case (Cons a as)
  let ?m = "m\<lparr>mndp_Addresses := mndp_Addresses m @ [a]\<rparr>"
  obtain seen1 where 1: "length seen1 = 18"
    "mndp_tlv (fst (addr_element a)) (snd (addr_element a)) off (seen, st, m) = Some (seen1, st, ?m)"
    using mndp_tlv_addr [of a m seen off st] Cons.prems by auto
  have "\<exists>seen'. walk mndp_tlv mndp_emit (map addr_element as) o2 (seen1, st, ?m) =
      Some (seen', st, ?m\<lparr>mndp_Addresses := mndp_Addresses ?m @ as\<rparr>)" for o2
    using Cons.prems 1(1) by (intro Cons.IH) auto
  with 1(2) show ?case by (cases "addr_element a") simp
qed

lemma walk_mndp_elements:
  assumes "mndp_message_ok m"
  shows "\<exists>seen. walk mndp_tlv mndp_emit (mndp_elements m) 4 (replicate 18 False, st,
      zero_mndp\<lparr>mndp_IsRefresh := mndp_IsRefresh m, mndp_Details := (mndp_Details zero_mndp)\<lparr>
        md_TypeTag := md_TypeTag (mndp_Details m), md_Sequence := md_Sequence (mndp_Details m)\<rparr>\<rparr>) =
    Some (seen, st, m)"
proof -
  obtain ip mac has as ref d where m: "m = \<lparr>mndp_SourceIP = ip, mndp_MAC = mac, mndp_HasMAC = has,
      mndp_Addresses = as, mndp_IsRefresh = ref, mndp_Details = d\<rparr>" by (cases m) blast
  obtain t s i v pl sw bo inf up hup where d: "d = \<lparr>md_TypeTag = t, md_Sequence = s, md_Identity = i,
      md_Version = v, md_Platform = pl, md_SoftwareID = sw, md_Board = bo, md_InterfaceName = inf,
      md_UptimeSeconds = up, md_HasUptime = hup\<rparr>" by (cases d) blast
  have ok: "ip = AddrNone" "has = IsUnicast mac" "hup \<or> up = 0"
    "\<forall>a \<in> set as. IsValid a \<and> Unmap a = a \<and> addr_ok a \<and> Zone a = []" "distinct as"
    using assms by (auto simp: m d mndp_message_ok_def addrs_ok_def)
  let ?xs = "(mndpTagMAC, mac_bytes mac) # mndp_texts d @ (if hup then [(mndpTagUptime, put32_le up)] else [])"
  have "\<exists>seen. length seen = 18 \<and> walk mndp_tlv mndp_emit ?xs 4 (replicate 18 False, st,
      zero_mndp\<lparr>mndp_IsRefresh := ref, mndp_Details := (mndp_Details zero_mndp)\<lparr>md_TypeTag := t, md_Sequence := s\<rparr>\<rparr>) =
      Some (seen, st, m\<lparr>mndp_Addresses := []\<rparr>)"
    using ok(1-3) by (cases hup)
      (simp_all add: m d mndp_texts_def mndp_tlv_def mndp_element_def mndp_tag_defs Let_def zero_mndp_def)
  then obtain seen where w: "length seen = 18" "walk mndp_tlv mndp_emit ?xs 4 (replicate 18 False, st,
      zero_mndp\<lparr>mndp_IsRefresh := ref, mndp_Details := (mndp_Details zero_mndp)\<lparr>md_TypeTag := t, md_Sequence := s\<rparr>\<rparr>) =
      Some (seen, st, m\<lparr>mndp_Addresses := []\<rparr>)" by blast
  have a: "\<exists>seen'. walk mndp_tlv mndp_emit (map addr_element as) off (seen, st, m\<lparr>mndp_Addresses := []\<rparr>) =
      Some (seen', st, m)" for off
    using walk_addrs [of as "m\<lparr>mndp_Addresses := []\<rparr>" seen off st] ok(4,5) w(1) by (simp add: m)
  have e: "mndp_elements m = ?xs @ map addr_element as" by (simp add: mndp_elements_def m d)
  show ?thesis
    unfolding e walk_append using w(2) a by (simp add: m d)
qed

lemma mndp_elements_fit:
  assumes "mndp_message_ok m" "(t, v) \<in> set (mndp_elements m)"
  shows "mndp_fits t v"
proof -
  obtain xs ys where "mndp_elements m = xs @ (t, v) # ys"
    using assms(2) by (meson split_list)
  then have "length (emits mndp_emit (mndp_elements m)) \<ge> 4 + length v" by simp
  moreover have "length (encode_mndp m) \<le> 1500"
    using assms(1) by (simp add: mndp_message_ok_def MaxMNDPPacketSize_def)
  ultimately show ?thesis by (simp add: encode_mndp_def mndp_fits_def)
qed

text \<open>
  (C40) Decoding inverts encoding for a complete MNDP message: MAC, type tag and sequence, the six
  texts, the little-endian uptime and every address come back unchanged from the packet that
  carries them, with a clean status, whatever the reused message held before.
\<close>

theorem DecodeMNDP_roundtrip:
  assumes "mndp_message_ok m"
  shows "DecodeMNDP (encode_mndp m) (Some old) = Some (clean_status, Some m)"
proof -
  let ?d = "mndp_Details m" and ?z = "replicate 18 False"
  define h where "h = put16 (md_TypeTag ?d) @ put16 (md_Sequence ?d)"
  have b: "encode_mndp m = h @ emits mndp_emit (mndp_elements m)" "length h = 4"
    by (simp_all add: encode_mndp_def h_def)
  have len: "\<not> length (encode_mndp m) < 4" "\<not> length (encode_mndp m) > MaxMNDPPacketSize"
    using assms b by (simp_all add: mndp_message_ok_def)
  let ?m = "zero_mndp\<lparr>mndp_IsRefresh := mndp_IsRefresh m, mndp_Details := (mndp_Details zero_mndp)\<lparr>
        md_TypeTag := md_TypeTag ?d, md_Sequence := md_Sequence ?d\<rparr>\<rparr>"
  have "gslice (encode_mndp m) 0 2 = Some (put16 (md_TypeTag ?d))"
    "gslice (encode_mndp m) 2 4 = Some (put16 (md_Sequence ?d))"
    by (simp_all add: b(1) h_def)
  then have head: "mndp_header (encode_mndp m) zero_mndp = Some ?m"
    using assms by (simp add: mndp_header_def mndp_message_ok_def)
  have good: "mndp_inv (?z, clean_status, ?m)" by (simp add: mndp_inv_def zero_mndp_def)
  obtain seen where "walk mndp_tlv mndp_emit (mndp_elements m) 4 (?z, clean_status, ?m) = Some (seen, clean_status, m)"
    using walk_mndp_elements [OF assms] by blast
  then have "mndp_loop (encode_mndp m) 4 (?z, clean_status, ?m) = Some (seen, clean_status, m)"
    using mndp.loop_walk [of "mndp_elements m" "(?z, clean_status, ?m)" h] mndp_elements_fit [OF assms] good b
    by simp
  with head len show ?thesis by (simp add: DecodeMNDP_eq decode_mndp_def)
qed

definition sample_mndp :: MNDPMessage where
  "sample_mndp = zero_mndp\<lparr>mndp_MAC := MAC 2 0 0 0 0 1, mndp_HasMAC := True,
     mndp_Addresses := [Addr4 [192, 0, 2, 1], Addr6 (0xfe # 0x80 # replicate 14 1) []],
     mndp_Details := (mndp_Details zero_mndp)\<lparr>md_TypeTag := 1, md_Identity := [0x72, 0x31],
       md_UptimeSeconds := 60, md_HasUptime := True\<rparr>\<rparr>"

theorem DecodeMNDP_roundtrip_witness:
  "DecodeMNDP (encode_mndp sample_mndp) (Some zero_mndp) = Some (clean_status, Some sample_mndp)"
proof (rule DecodeMNDP_roundtrip)
  show "mndp_message_ok sample_mndp"
    by (simp add: mndp_message_ok_def sample_mndp_def zero_mndp_def addrs_ok_def IsValid_def addr_ok_def
        v4_mapped_prefix_def IsUnicast_def IsZero_def IsMulticast_def zero_mac_def encode_mndp_def
        mndp_elements_def mndp_texts_def MaxMNDPPacketSize_def eval_nat_numeral)
qed

end
