(* ===== verification/MDNS.thy ===== *)
theory MDNS
  imports Decoder
begin

text \<open>
  The model of \<open>pkg/omnidiscover/mdns.go\<close>: passive decoding of multicast DNS responses, with
  compressed names and a bounded list of resource records that reuses its storage.

  The decoder writes names into one scratch array and copies each out before the next is decoded, so
  the model passes names as values; \<open>lowerDNSName\<close> changes the scratch array in place and returns it.
\<close>

section \<open>Messages\<close>

definition MDNSPort :: u16 where "MDNSPort = 5353"
definition maxDNSLabels :: nat where "maxDNSLabels = 32"
definition maxDNSRecordsPerMessage :: nat where "maxDNSRecordsPerMessage = 256"
definition maxDNSNameSize :: nat where "maxDNSNameSize = 255"

record MDNSMessage =
  mdns_ID :: u16
  mdns_Flags :: u16
  mdns_Records :: "DNSRecord slab"

definition zero_record :: DNSRecord where
  "zero_record = \<lparr>rr_Name = [], rr_Type = 0, rr_Class = 0, rr_CacheFlush = False, rr_TTL = 0,
     rr_Target = [], rr_Address = AddrNone, rr_Port = 0, rr_Priority = 0, rr_Weight = 0, rr_TXT = []\<rparr>"

definition MDNSMessage_Reset :: "MDNSMessage \<Rightarrow> MDNSMessage" where
  "MDNSMessage_Reset m =
     m\<lparr>mdns_ID := 0,
       mdns_Flags := 0,
       mdns_Records := slab_reset (\<lambda>r. r\<lparr>rr_Name := [], rr_Target := [], rr_TXT := []\<rparr>) (mdns_Records m)\<rparr>"

section \<open>Names\<close>

text \<open>
  The loop of \<open>decodeDNSName\<close>. It follows at most 32 compression pointers and reads at most 32
  labels; its result is the name, the offset after it, and the issue.
\<close>

type_synonym name_result = "bytes \<times> nat \<times> DecodeIssue"

function dns_name_loop ::
  "bytes \<Rightarrow> nat \<Rightarrow> nat \<Rightarrow> bytes \<Rightarrow> nat option \<Rightarrow> nat \<Rightarrow> nat \<Rightarrow> name_result run" where
  "dns_name_loop packet start off dst nxt labels jumps =
     (if off \<ge> length packet then Some ([], start, IssueTooShort)
      else do {
        l \<leftarrow> idx packet off;
        let len = unat l;
        if len = 0 then
          Some (dst, (case nxt of None \<Rightarrow> off + 1 | Some n \<Rightarrow> n), IssueNone)
        else if l AND 0xc0 = 0xc0 then
          if off + 1 \<ge> length packet then Some ([], start, IssueTooShort)
          else do {
            let nxt = (case nxt of None \<Rightarrow> Some (off + 2) | Some n \<Rightarrow> Some n);
            pb \<leftarrow> gslice packet off (off + 2);
            p \<leftarrow> be16 pb;
            if jumps + 1 > maxDNSLabels then Some ([], start, IssueCompressionLoop)
            else dns_name_loop packet start (unat (p AND 0x3fff)) dst nxt labels (jumps + 1)
          }
        else if l AND 0xc0 \<noteq> 0 \<or> len > 63 then Some ([], start, IssueInvalidHeader)
        else if off + 1 + len > length packet then Some ([], start, IssueTooShort)
        else if labels + 1 > maxDNSLabels then Some ([], start, IssueTooManyLabels)
        else if length dst \<noteq> 0 \<and> length dst + 1 > maxDNSNameSize then Some ([], start, IssueTooLarge)
        else do {
          let dst = (if length dst \<noteq> 0 then dst @ [0x2e] else dst);
          if length dst + len > maxDNSNameSize then Some ([], start, IssueTooLarge)
          else do {
            label \<leftarrow> gslice packet (off + 1) (off + 1 + len);
            dns_name_loop packet start (off + 1 + len) (dst @ label) nxt (labels + 1) jumps
          }
        }
      })"
  by pat_completeness auto
termination
  by (relation "measure (\<lambda>(packet, start, off, dst, nxt, labels, jumps).
      (maxDNSLabels - labels) + (maxDNSLabels - jumps))") auto

declare dns_name_loop.simps [simp del]

text \<open>Called with an empty \<open>dst\<close> over the scratch array everywhere.\<close>

definition decodeDNSName :: "bytes \<Rightarrow> nat \<Rightarrow> name_result run" where
  "decodeDNSName packet off = dns_name_loop packet off off [] None 0 0"

definition lower_byte :: "u8 \<Rightarrow> u8" where
  "lower_byte c = (if c \<ge> 0x41 \<and> c \<le> 0x5a then c + (0x61 - 0x41) else c)"

definition lowerDNSName :: "bytes \<Rightarrow> bytes" where
  "lowerDNSName b = map lower_byte b"

function validate_txt :: "bytes \<Rightarrow> nat \<Rightarrow> bool run" where
  "validate_txt b off =
     (if off < length b then do {
        n \<leftarrow> idx b off;
        if off + 1 + unat n > length b then Some False
        else validate_txt b (off + 1 + unat n)
      }
      else Some True)"
  by pat_completeness auto
termination by (relation "measure (\<lambda>(b, off). length b - off)") auto

declare validate_txt.simps [simp del]

definition validateTXT :: "bytes \<Rightarrow> bool run" where
  "validateTXT b = validate_txt b 0"

section \<open>Records\<close>

text \<open>
  The switch over the record type, for a record \<open>r\<close> whose fixed fields are written and whose other
  fields are cleared: whether the data is valid, and the record after it.
\<close>

definition dns_rdata :: "bytes \<Rightarrow> DNSRecordType \<Rightarrow> nat \<Rightarrow> nat \<Rightarrow> DNSRecord \<Rightarrow> (bool \<times> DNSRecord) run" where
  "dns_rdata packet typ rdata end r =
     (let rdlen = end - rdata in
      if typ = DNSRecordA then
        if rdlen = 4 then do {
          a0 \<leftarrow> idx packet rdata; a1 \<leftarrow> idx packet (rdata + 1);
          a2 \<leftarrow> idx packet (rdata + 2); a3 \<leftarrow> idx packet (rdata + 3);
          Some (True, r\<lparr>rr_Address := AddrFrom4 [a0, a1, a2, a3]\<rparr>)
        } else Some (False, r)
      else if typ = DNSRecordAAAA then
        if rdlen = 16 then do {
          a \<leftarrow> gslice packet rdata end;
          Some (True, r\<lparr>rr_Address := AddrFrom16 (go_copy (replicate 16 0) a)\<rparr>)
        } else Some (False, r)
      else if typ = DNSRecordPTR then do {
        (target, targetNext, issue) \<leftarrow> decodeDNSName packet rdata;
        if issue = IssueNone \<and> targetNext = end then
          Some (True, r\<lparr>rr_Target := copyBytes (rr_Target r) (lowerDNSName target)\<rparr>)
        else Some (False, r)
      }
      else if typ = DNSRecordSRV then
        if rdlen \<ge> 7 then do {
          pb \<leftarrow> gslice packet rdata (rdata + 2);
          prio \<leftarrow> be16 pb;
          wb \<leftarrow> gslice packet (rdata + 2) (rdata + 4);
          weight \<leftarrow> be16 wb;
          ob \<leftarrow> gslice packet (rdata + 4) (rdata + 6);
          port \<leftarrow> be16 ob;
          let r = r\<lparr>rr_Priority := prio, rr_Weight := weight, rr_Port := port\<rparr>;
          (target, targetNext, issue) \<leftarrow> decodeDNSName packet (rdata + 6);
          if issue = IssueNone \<and> targetNext = end then
            Some (True, r\<lparr>rr_Target := copyBytes (rr_Target r) (lowerDNSName target)\<rparr>)
          else Some (False, r)
        } else Some (False, r)
      else if typ = DNSRecordTXT then do {
        t \<leftarrow> gslice packet rdata end;
        valid \<leftarrow> validateTXT t;
        if valid then Some (True, r\<lparr>rr_TXT := copyBytes (rr_TXT r) t\<rparr>) else Some (False, r)
      }
      else Some (True, r))"

definition dns_known_type :: "DNSRecordType \<Rightarrow> bool" where
  "dns_known_type typ =
     (typ = DNSRecordA \<or> typ = DNSRecordAAAA \<or> typ = DNSRecordPTR \<or> typ = DNSRecordSRV \<or> typ = DNSRecordTXT)"

text \<open>A known record: take the next slot, fill it, and give it back when its data is invalid.\<close>

definition dns_store ::
  "bytes \<Rightarrow> bytes \<Rightarrow> DNSRecordType \<Rightarrow> u16 \<Rightarrow> u32 \<Rightarrow> nat \<Rightarrow> nat \<Rightarrow> DNSRecord slab \<Rightarrow>
   (bool \<times> DNSRecord slab) run" where
  "dns_store packet name typ class ttl rdata end records = do {
     let ri = length (live records);
     let slots = slab_grow zero_record records;
     r \<leftarrow> idx (live slots) ri;
     let r = r\<lparr>rr_Name := copyBytes (rr_Name r) (lowerDNSName name), rr_Type := typ,
       rr_Class := class AND 0x7fff, rr_CacheFlush := (class AND 0x8000 \<noteq> 0), rr_TTL := ttl,
       rr_Target := [], rr_TXT := [], rr_Address := AddrNone, rr_Port := 0, rr_Priority := 0,
       rr_Weight := 0\<rparr>;
     (valid, r) \<leftarrow> dns_rdata packet typ rdata end r;
     slots \<leftarrow> slab_modify ri (\<lambda>_. r) slots;
     Some (valid, if valid then slots else slab_truncate ri slots)
   }"

type_synonym dns_state = "nat \<times> DecodeStatus \<times> DNSRecord slab"

text \<open>
  One round of each of the two loops: \<open>Inl\<close> for the early return, \<open>Inr\<close> for the state of the next
  round.
\<close>

definition dns_question :: "bytes \<Rightarrow> nat \<times> DecodeStatus \<Rightarrow> (DecodeStatus + nat \<times> DecodeStatus) run" where
  "dns_question packet = (\<lambda>(off, st). do {
     (name, nxt, issue) \<leftarrow> decodeDNSName packet off;
     if issue \<noteq> IssueNone then Some (Inl (addIssue st DecodeFatal issue off 0))
     else if nxt + 4 > length packet then Some (Inl (addIssue st DecodeFatal IssueTooShort nxt 0))
     else Some (Inr (nxt + 4, st))
   })"

definition dns_record :: "bytes \<Rightarrow> dns_state \<Rightarrow> ((DecodeStatus \<times> DNSRecord slab) + dns_state) run" where
  "dns_record packet = (\<lambda>(off, st, records). do {
     (name, nxt, issue) \<leftarrow> decodeDNSName packet off;
     if issue \<noteq> IssueNone then Some (Inl (addIssue st DecodeFatal issue off 0, records))
     else if nxt + 10 > length packet then
       Some (Inl (addIssue st DecodeFatal IssueTooShort nxt 0, records))
     else do {
       tb \<leftarrow> gslice packet nxt (nxt + 2);
       typ \<leftarrow> be16 tb;
       cb \<leftarrow> gslice packet (nxt + 2) (nxt + 4);
       class \<leftarrow> be16 cb;
       lb \<leftarrow> gslice packet (nxt + 4) (nxt + 8);
       ttl \<leftarrow> be32 lb;
       rb \<leftarrow> gslice packet (nxt + 8) (nxt + 10);
       rl \<leftarrow> be16 rb;
       let rdata = nxt + 10;
       let end = rdata + unat rl;
       if end > length packet then
         Some (Inl (addIssue st DecodeFatal IssueTruncatedTLV rdata typ, records))
       else if \<not> dns_known_type typ then Some (Inr (end, st, records))
       else do {
         (valid, records) \<leftarrow> dns_store packet name typ class ttl rdata end records;
         Some (Inr (end,
           (if valid then st else addIssue st DecodePartial IssueInvalidTLVLength rdata typ), records))
       }
     }
   })"

fun dns_questions :: "nat \<Rightarrow> bytes \<Rightarrow> nat \<times> DecodeStatus \<Rightarrow> (DecodeStatus + nat \<times> DecodeStatus) run" where
  "dns_questions 0 packet s = Some (Inr s)"
| "dns_questions (Suc n) packet s = do {
     r \<leftarrow> dns_question packet s;
     case r of Inl st \<Rightarrow> Some (Inl st) | Inr s \<Rightarrow> dns_questions n packet s }"

fun dns_records :: "nat \<Rightarrow> bytes \<Rightarrow> dns_state \<Rightarrow> (DecodeStatus \<times> DNSRecord slab) run" where
  "dns_records 0 packet s = (case s of (off, st, records) \<Rightarrow> Some (st, records))"
| "dns_records (Suc n) packet s = do {
     r \<leftarrow> dns_record packet s;
     case r of Inl result \<Rightarrow> Some result | Inr s \<Rightarrow> dns_records n packet s }"

definition decode_mdns :: "bytes \<Rightarrow> DecodeStatus \<Rightarrow> MDNSMessage \<Rightarrow> (DecodeStatus \<times> MDNSMessage) run" where
  "decode_mdns packet st dst =
     (if length packet < 12 then
        Some (addIssue st DecodeFatal IssueTooShort (length packet) 0, dst)
      else do {
        ib \<leftarrow> gslice packet 0 2;
        ident \<leftarrow> be16 ib;
        fb \<leftarrow> gslice packet 2 4;
        flags \<leftarrow> be16 fb;
        let dst = dst\<lparr>mdns_ID := ident, mdns_Flags := flags\<rparr>;
        if flags AND 0x8000 = 0 then Some (addIssue st DecodeIgnored IssueNotResponse 2 flags, dst)
        else if flags AND 0x7800 \<noteq> 0 \<or> flags AND 0x000f \<noteq> 0 then
          Some (addIssue st DecodeIgnored IssueUnsupported 2 flags, dst)
        else do {
          qb \<leftarrow> gslice packet 4 6; qd \<leftarrow> be16 qb;
          ab \<leftarrow> gslice packet 6 8; an \<leftarrow> be16 ab;
          nb \<leftarrow> gslice packet 8 10; ns \<leftarrow> be16 nb;
          rb \<leftarrow> gslice packet 10 12; ar \<leftarrow> be16 rb;
          let totalRecords = unat an + unat ns + unat ar;
          if unat qd > maxDNSRecordsPerMessage \<or> totalRecords > maxDNSRecordsPerMessage then
            Some (addIssue st DecodeFatal IssueTooLarge 4 (of_nat totalRecords), dst)
          else do {
            q \<leftarrow> dns_questions (unat qd) packet (12, st);
            case q of
              Inl st \<Rightarrow> Some (st, dst)
            | Inr (off, st) \<Rightarrow> do {
                (st, records) \<leftarrow> dns_records totalRecords packet (off, st, mdns_Records dst);
                Some (st, dst\<lparr>mdns_Records := records\<rparr>)
              }
          }
        }
      })"

definition DecodeMDNS :: "bytes \<Rightarrow> MDNSMessage ptr \<Rightarrow> (DecodeStatus \<times> MDNSMessage ptr) run" where
  "DecodeMDNS packet dst =
     (case dst of
        None \<Rightarrow> Some (addIssue clean_status DecodeFatal IssueNilDestination 0 0, None)
      | Some m \<Rightarrow> do {
          (st, m) \<leftarrow> decode_mdns packet clean_status (MDNSMessage_Reset m);
          Some (st, Some m)
        })"

section \<open>No packet makes the decoder panic or loop\<close>

text \<open>
  A decoded name has at most 255 bytes and ends inside the packet, beyond the offset it started at.
\<close>

definition name_ok :: "bytes \<Rightarrow> nat \<Rightarrow> name_result \<Rightarrow> bool" where
  "name_ok packet start = (\<lambda>(name, e, issue). length name \<le> maxDNSNameSize \<and>
     (issue = IssueNone \<longrightarrow> start < e \<and> e \<le> length packet))"

lemma name_ok_simp [simp]:
  "name_ok packet start (name, e, issue) = (length name \<le> maxDNSNameSize \<and>
     (issue = IssueNone \<longrightarrow> start < e \<and> e \<le> length packet))"
  by (simp add: name_ok_def)

lemma dns_name_loop_runs:
  "length dst \<le> maxDNSNameSize \<Longrightarrow> start \<le> off \<or> nxt \<noteq> None \<Longrightarrow>
   (\<forall>n. nxt = Some n \<longrightarrow> start < n \<and> n \<le> length packet) \<Longrightarrow>
   runs (dns_name_loop packet start off dst nxt labels jumps) (name_ok packet start)"
proof (induction "(maxDNSLabels - labels) + (maxDNSLabels - jumps)"
    arbitrary: off dst nxt labels jumps rule: less_induct)
  case less
  have jump: "runs (dns_name_loop packet start off' dst' (Some n) labels (Suc jumps)) (name_ok packet start)"
    if "\<not> maxDNSLabels < Suc jumps" "start < n" "n \<le> length packet" "length dst' \<le> maxDNSNameSize"
    for off' n dst'
    using that by (intro less.hyps) auto
  have label: "runs (dns_name_loop packet start off' dst' x (Suc labels) jumps) (name_ok packet start)"
    if "x = nxt" "\<not> maxDNSLabels < Suc labels" "length dst' \<le> maxDNSNameSize" "off \<le> off'" for off' dst' x
    using that less.prems(2,3) by (intro less.hyps) auto
  show ?case
  proof (cases nxt)
    case None
    then show ?thesis
      using less.prems
      by (subst dns_name_loop.simps) (auto simp: wp Let_def intro!: label jump)
  next
    case (Some n)
    then show ?thesis
      using less.prems
      by (subst dns_name_loop.simps) (auto simp: wp Let_def intro!: label jump)
  qed
qed

lemma decodeDNSName_runs: "runs (decodeDNSName packet off) (name_ok packet off)"
  unfolding decodeDNSName_def by (rule dns_name_loop_runs) (simp_all add: maxDNSNameSize_def)

lemma validate_txt_runs: "off \<le> length b \<Longrightarrow> runs (validate_txt b off) (\<lambda>_. True)"
proof (induction "length b - off" arbitrary: off rule: less_induct)
  case less
  then show ?case by (subst validate_txt.simps) (auto simp: wp intro!: less.hyps)
qed

text \<open>What every stored record satisfies.\<close>

definition record_ok :: "DNSRecord \<Rightarrow> bool" where
  "record_ok r =
     (dns_known_type (rr_Type r) \<and> length (rr_Name r) \<le> maxDNSNameSize \<and>
      length (rr_Target r) \<le> maxDNSNameSize \<and> addr_ok (rr_Address r) \<and>
      (IsValid (rr_Address r) \<longleftrightarrow> rr_Type r = DNSRecordA \<or> rr_Type r = DNSRecordAAAA) \<and>
      validateTXT (rr_TXT r) = Some True)"

lemma length_lowerDNSName [simp]: "length (lowerDNSName b) = length b"
  by (simp add: lowerDNSName_def)

lemma validateTXT_Nil [simp]: "validateTXT [] = Some True"
  by (simp add: validateTXT_def validate_txt.simps)

definition blank_record :: "bytes \<Rightarrow> DNSRecordType \<Rightarrow> u16 \<Rightarrow> u32 \<Rightarrow> DNSRecord" where
  "blank_record name typ class ttl =
     \<lparr>rr_Name = lowerDNSName name, rr_Type = typ, rr_Class = class AND 0x7fff,
      rr_CacheFlush = (class AND 0x8000 \<noteq> 0), rr_TTL = ttl, rr_Target = [], rr_Address = AddrNone,
      rr_Port = 0, rr_Priority = 0, rr_Weight = 0, rr_TXT = []\<rparr>"

lemma runs_validateTXT: "runs (validateTXT t) (\<lambda>v. validateTXT t = Some v)"
  using validate_txt_runs [of 0 t] by (auto simp: validateTXT_def runs_def split: option.splits)

lemma dns_rdata_runs:
  assumes "rdata \<le> end" "end \<le> length packet" "dns_known_type typ" "length name \<le> maxDNSNameSize"
  shows "runs (dns_rdata packet typ rdata end (blank_record name typ class ttl))
    (\<lambda>(valid, r). valid \<longrightarrow> record_ok r)"
proof -
  consider "typ = DNSRecordA" | "typ = DNSRecordAAAA" | "typ = DNSRecordPTR" | "typ = DNSRecordSRV"
    | "typ = DNSRecordTXT"
    using assms(3) by (auto simp: dns_known_type_def)
  then show ?thesis
    using assms
    by cases (auto simp: dns_rdata_def Let_def wp dns_type_defs record_ok_def blank_record_def dns_known_type_def
        AddrFrom4_def AddrFrom16_def addr_ok_def IsValid_def
        intro!: runs_mono [OF decodeDNSName_runs] runs_mono [OF runs_validateTXT])
qed

lemma DNSRecord_overwrite:
  "(r :: DNSRecord)\<lparr>rr_Name := a, rr_Type := b, rr_Class := c, rr_CacheFlush := d, rr_TTL := e,
     rr_Target := f, rr_TXT := g, rr_Address := h, rr_Port := i, rr_Priority := j, rr_Weight := k\<rparr> =
   \<lparr>rr_Name = a, rr_Type = b, rr_Class = c, rr_CacheFlush = d, rr_TTL = e, rr_Target = f,
    rr_Address = h, rr_Port = i, rr_Priority = j, rr_Weight = k, rr_TXT = g\<rparr>"
  by (cases r) simp

lemma dns_store_eq:
  "dns_store packet name typ class ttl rdata end records = do {
     (valid, r) \<leftarrow> dns_rdata packet typ rdata end (blank_record name typ class ttl);
     let slots = \<lparr>live = live records @ [r], spare = tl (spare records)\<rparr>;
     Some (valid, if valid then slots else slab_truncate (length (live records)) slots)
   }"
proof -
  have g: "slab_grow zero_record records =
      \<lparr>live = live records @ [if spare records = [] then zero_record else hd (spare records)],
       spare = tl (spare records)\<rparr>"
    by (cases records; cases "spare records") (simp_all add: slab_grow_def)
  show ?thesis
    unfolding dns_store_def g Let_def
    by (simp add: DNSRecord_overwrite blank_record_def split_beta)
qed

lemma dns_store_runs:
  assumes "rdata \<le> end" "end \<le> length packet" "dns_known_type typ" "length name \<le> maxDNSNameSize"
    "list_all record_ok (live records)"
  shows "runs (dns_store packet name typ class ttl rdata end records)
    (\<lambda>(valid, rs). length (live rs) \<le> Suc (length (live records)) \<and> list_all record_ok (live rs))"
  using assms(5) unfolding dns_store_eq
  by (auto simp: wp Let_def intro!: runs_mono [OF dns_rdata_runs [OF assms(1-4)]])

lemma dns_store_reuse:
  assumes "live a = live b"
  shows "agree (\<lambda>(v, x) (w, y). v = w \<and> live x = live y)
    (dns_store packet name typ class ttl rdata end a) (dns_store packet name typ class ttl rdata end b)"
  unfolding dns_store_eq by (auto simp: assms Let_def intro!: agree_bind_same)

definition dns_inv :: "nat \<Rightarrow> dns_state \<Rightarrow> bool" where
  "dns_inv n = (\<lambda>(off, st, rs). length (live rs) \<le> n \<and> list_all record_ok (live rs))"

definition dns_out :: "nat \<Rightarrow> DecodeStatus \<times> DNSRecord slab \<Rightarrow> bool" where
  "dns_out n = (\<lambda>(st, rs). length (live rs) \<le> n \<and> list_all record_ok (live rs))"

lemma dns_record_runs:
  "dns_inv n (off, st, rs) \<Longrightarrow> runs (dns_record packet (off, st, rs))
    (\<lambda>r. case r of Inl x \<Rightarrow> dns_out (Suc n) x | Inr s \<Rightarrow> dns_inv (Suc n) s)"
  by (auto simp: dns_record_def dns_inv_def dns_out_def wp Let_def
      intro!: runs_mono [OF decodeDNSName_runs] runs_mono [OF dns_store_runs])

lemma dns_out_mono: "dns_out m x \<Longrightarrow> m \<le> n \<Longrightarrow> dns_out n x"
  by (auto simp: dns_out_def)

lemma dns_records_runs:
  "dns_inv k s \<Longrightarrow> runs (dns_records n packet s) (dns_out (k + n))"
proof (induction n arbitrary: k s)
  case 0
  then show ?case by (cases s) (simp add: wp dns_inv_def dns_out_def)
next
  case (Suc n)
  obtain off st rs where s: "s = (off, st, rs)" by (cases s)
  have "runs (dns_record packet s) (\<lambda>r. case r of Inl x \<Rightarrow> dns_out (Suc k) x | Inr s \<Rightarrow> dns_inv (Suc k) s)"
    using Suc.prems unfolding s by (rule dns_record_runs)
  then show ?case
    using Suc.IH [of "Suc k"]
    by (auto simp: wp split: sum.splits elim!: runs_mono intro: dns_out_mono)
qed

lemma dns_question_runs: "runs (dns_question packet s) (\<lambda>_. True)"
  by (cases s) (auto simp: dns_question_def wp intro!: runs_mono [OF decodeDNSName_runs])

lemma dns_questions_runs: "runs (dns_questions n packet s) (\<lambda>_. True)"
proof (induction n arbitrary: s)
  case (Suc n)
  then show ?case by (auto simp: wp split: sum.splits intro!: runs_mono [OF dns_question_runs])
qed (simp add: wp)

lemma decode_mdns_runs:
  "live (mdns_Records m) = [] \<Longrightarrow> runs (decode_mdns packet st m)
    (\<lambda>(st, m). length (live (mdns_Records m)) \<le> maxDNSRecordsPerMessage \<and>
       list_all record_ok (live (mdns_Records m)))"
  by (auto simp: decode_mdns_def wp Let_def dns_inv_def dns_out_def split: sum.splits
      intro!: runs_mono [OF dns_questions_runs] runs_mono [OF dns_records_runs [where k = 0]])


section \<open>The contract of a reusable decoder\<close>

text \<open>What a reader of a message can see: everything but the spare records.\<close>

definition MDNS_view :: "MDNSMessage \<Rightarrow> MDNSMessage" where
  "MDNS_view m = m\<lparr>mdns_Records := slab_of (live (mdns_Records m))\<rparr>"

definition same_dns :: "dns_state \<Rightarrow> dns_state \<Rightarrow> bool" where
  "same_dns = (\<lambda>(off, st, a) (off', st', b). off = off' \<and> st = st' \<and> live a = live b)"

definition same_out :: "DecodeStatus \<times> DNSRecord slab \<Rightarrow> DecodeStatus \<times> DNSRecord slab \<Rightarrow> bool" where
  "same_out = (\<lambda>(st, a) (st', b). st = st' \<and> live a = live b)"

lemma dns_record_reuse:
  assumes "same_dns s t"
  shows "agree (rel_sum same_out same_dns) (dns_record packet s) (dns_record packet t)"
proof -
  obtain off st a b where s: "s = (off, st, a)" "t = (off, st, b)" and ab: "live a = live b"
    using assms by (cases s; cases t) (auto simp: same_dns_def)
  show ?thesis
    unfolding s dns_record_def Let_def prod.case
    by (auto simp: same_out_def same_dns_def ab split_beta
      intro!: agree_bind_same agree_if agree_bind [OF dns_store_reuse [OF ab]])
qed

lemma dns_records_reuse:
  "same_dns s t \<Longrightarrow> agree same_out (dns_records n packet s) (dns_records n packet t)"
proof (induction n arbitrary: s t)
  case 0
  then show ?case by (auto simp: same_dns_def same_out_def)
next
  case (Suc n)
  show ?case
    by (auto intro!: agree_bind [OF dns_record_reuse [OF Suc.prems]] Suc.IH split: sum.splits)
qed

lemma MDNS_view_eq:
  "MDNS_view m = MDNS_view n \<longleftrightarrow>
     mdns_ID m = mdns_ID n \<and> mdns_Flags m = mdns_Flags n \<and> live (mdns_Records m) = live (mdns_Records n)"
  by (cases m; cases n) (auto simp: MDNS_view_def slab_of_def)

lemma decode_mdns_reuse:
  assumes "MDNS_view m = MDNS_view n"
  shows "agree (same_result MDNS_view) (decode_mdns packet st m) (decode_mdns packet st n)"
proof -
  have r: "agree same_out (dns_records k packet (off, st, mdns_Records m))
      (dns_records k packet (off, st, mdns_Records n))" for k off st
    using assms by (intro dns_records_reuse) (simp add: same_dns_def MDNS_view_eq)
  show ?thesis
    unfolding decode_mdns_def Let_def
    by (intro agree_if agree_bind_same)
      (use assms in \<open>auto simp: MDNS_view_eq same_out_def split: sum.splits intro!: agree_bind [OF r]\<close>)
qed

lemma DecodeMDNS_Reset_live [simp]: "live (mdns_Records (MDNSMessage_Reset m)) = []"
  by (simp add: MDNSMessage_Reset_def)

lemma DecodeMDNS_Some:
  "DecodeMDNS b (Some m) = do { (st, m) \<leftarrow> decode_mdns b clean_status (MDNSMessage_Reset m); Some (st, Some m) }"
  by (simp add: DecodeMDNS_def)

interpretation mdns: message_decoder DecodeMDNS MDNS_view
proof
  show "DecodeMDNS b None = Some (addIssue clean_status DecodeFatal IssueNilDestination 0 0, None)" for b
    by (simp add: DecodeMDNS_def)
next
  fix b m
  show "\<exists>st m'. DecodeMDNS b (Some m) = Some (st, Some m')"
    using decode_mdns_runs [of "MDNSMessage_Reset m" b clean_status, THEN runs_exD]
    by (auto simp: DecodeMDNS_Some)
next
  fix b m st m' n
  assume d: "DecodeMDNS b (Some m) = Some (st, Some m')"
  have "agree (same_result MDNS_view) (decode_mdns b clean_status (MDNSMessage_Reset m))
          (decode_mdns b clean_status (MDNSMessage_Reset n))"
    by (rule decode_mdns_reuse) (simp add: MDNS_view_eq MDNSMessage_Reset_def)
  with d show "\<exists>n'. DecodeMDNS b (Some n) = Some (st, Some n') \<and> MDNS_view n' = MDNS_view m'"
    by (auto simp: DecodeMDNS_Some bind_eq_Some_conv' same_result_def dest!: agree_SomeD)
qed

text \<open>
  Whatever the packet, mDNS decoding returns: it never panics, follows no compression loop, and
  stores at most 256 records, each of a known type with names of at most 255 bytes, an address exactly
  for A and AAAA records, and text data that is a sequence of complete strings.
\<close>

lemma DecodeMDNS_bounded:
  "\<exists>st m. DecodeMDNS b (Some old) = Some (st, Some m) \<and>
     length (live (mdns_Records m)) \<le> 256 \<and> list_all record_ok (live (mdns_Records m))"
  using decode_mdns_runs [of "MDNSMessage_Reset old" b clean_status, THEN runs_exD]
  by (auto simp: DecodeMDNS_Some maxDNSRecordsPerMessage_def)

section \<open>What a compressed name is\<close>

text \<open>
  \<open>name_at p off ls j e\<close>: the bytes at \<open>off\<close> spell the labels \<open>ls\<close> as RFC 1035 defines it, through
  \<open>j\<close> compression pointers, and the data that follows the name starts at \<open>e\<close>.
\<close>

inductive name_at :: "bytes \<Rightarrow> nat \<Rightarrow> bytes list \<Rightarrow> nat \<Rightarrow> nat \<Rightarrow> bool" for p where
  root: "off < length p \<Longrightarrow> p ! off = 0 \<Longrightarrow> name_at p off [] 0 (off + 1)"
| label: "off + 1 + length l \<le> length p \<Longrightarrow> 1 \<le> length l \<Longrightarrow> length l \<le> 63 \<Longrightarrow>
    p ! off = of_nat (length l) \<Longrightarrow> take (length l) (drop (off + 1) p) = l \<Longrightarrow>
    name_at p (off + 1 + length l) ls j e \<Longrightarrow> name_at p off (l # ls) j e"
| pointer: "off + 1 < length p \<Longrightarrow> p ! off AND 0xc0 = 0xc0 \<Longrightarrow>
    name_at p (unat (word16 (p ! off) (p ! (off + 1)) AND 0x3fff)) ls j e \<Longrightarrow>
    name_at p off ls (Suc j) (off + 2)"

inductive_simps name_at_iff: "name_at p off ls j e"

text \<open>The dotted form of a list of labels.\<close>

definition add_label :: "bytes \<Rightarrow> bytes \<Rightarrow> bytes" where
  "add_label name l = (if name = [] then l else name @ 0x2e # l)"

definition dotted :: "bytes list \<Rightarrow> bytes" where
  "dotted ls = foldl add_label [] ls"

lemma add_label_longer: "length (add_label d l) \<ge> length d + length l"
  by (simp add: add_label_def)

lemma foldl_add_label_longer: "length (foldl add_label d ls) \<ge> length d"
proof (induction ls arbitrary: d)
  case (Cons l ls)
  from Cons [of "add_label d l"] add_label_longer [of d l] show ?case by simp
qed simp

lemma byte_below_64: "(l :: u8) AND 0xc0 = 0 \<longleftrightarrow> unat l < 64"
proof -
  have m: "(0xc0 :: u8) = NOT (mask 6)" by (simp add: mask_eq_exp_minus_1)
  have "l AND 0xc0 = 0 \<longleftrightarrow> take_bit 6 l = l"
    unfolding m by (auto simp: bit_eq_iff bit_simps)
  also have "\<dots> \<longleftrightarrow> take_bit 6 (unat l) = unat l"
    by (simp add: word_unat_eq_iff unsigned_take_bit_eq)
  also have "\<dots> \<longleftrightarrow> unat l < 64" by (simp add: take_bit_nat_eq_self_iff)
  finally show ?thesis .
qed

lemma of_nat_u8_nonzero: "of_nat n = (0 :: u8) \<Longrightarrow> Suc 0 \<le> n \<Longrightarrow> n \<le> 63 \<Longrightarrow> False"
proof -
  assume n: "of_nat n = (0 :: u8)" "Suc 0 \<le> n" "n \<le> 63"
  have "unat (of_nat n :: u8) = n" using n(3) by (intro unat_of_nat_u8) linarith
  with n show False by simp
qed

lemma zero_byte: "unat (l :: u8) = 0 \<longleftrightarrow> l = 0"
  by (simp add: unat_eq_zero)

lemma through_pointer:
  "(\<exists>ls j e'. (c \<and> e' = x \<and> (\<exists>j' e''. j = Suc j' \<and> A ls j' e'')) \<and> B ls \<and> k + j \<le> m \<and>
      n = D ls \<and> E n \<and> e = (case nxt of None \<Rightarrow> e' | Some n \<Rightarrow> n)) \<longleftrightarrow>
   c \<and> (\<exists>ls j e'. A ls j e' \<and> B ls \<and> (k + 1) + j \<le> m \<and> n = D ls \<and> E n \<and>
      e = (case Some (case nxt of None \<Rightarrow> x | Some n \<Rightarrow> n) of None \<Rightarrow> e' | Some n \<Rightarrow> n))"
  (is "?l \<longleftrightarrow> ?r")
proof
  assume ?l
  then show ?r by (elim exE conjE) (intro conjI exI, auto)
next
  assume ?r
  then obtain ls j e' where "c" "A ls j e'" "B ls" "(k + 1) + j \<le> m" "n = D ls" "E n"
    "e = (case nxt of None \<Rightarrow> x | Some n \<Rightarrow> n)" by auto
  then show ?l by (intro exI [of _ ls] exI [of _ "Suc j"] exI [of _ x]) auto
qed

lemma through_label:
  "(\<exists>ls j e'. (c \<and> (\<exists>ls'. ls = l # ls' \<and> A ls' j e')) \<and> k + length ls \<le> m \<and> B j \<and>
      n = foldl f d ls \<and> E n \<and> F e') \<longleftrightarrow>
   c \<and> (\<exists>ls j e'. A ls j e' \<and> (k + 1) + length ls \<le> m \<and> B j \<and> n = foldl f (f d l) ls \<and> E n \<and> F e')"
  (is "?l \<longleftrightarrow> ?r")
proof
  assume ?l
  then obtain ls j e' where "c" "A ls j e'" "k + length (l # ls) \<le> m" "B j" "n = foldl f d (l # ls)" "E n" "F e'"
    by blast
  then show ?r by (intro conjI exI [of _ ls] exI [of _ j] exI [of _ e']) auto
next
  assume ?r
  then obtain ls j e' where "c" "A ls j e'" "(k + 1) + length ls \<le> m" "B j" "n = foldl f (f d l) ls" "E n" "F e'"
    by auto
  then show ?l by (intro exI [of _ "l # ls"] exI [of _ j] exI [of _ e']) auto
qed

lemma dns_name_loop_iff:
  assumes "length dst \<le> maxDNSNameSize" "labels \<le> maxDNSLabels" "jumps \<le> maxDNSLabels"
  shows "dns_name_loop p start off dst nxt labels jumps = Some (name, e, IssueNone) \<longleftrightarrow>
    (\<exists>ls j e'. name_at p off ls j e' \<and> labels + length ls \<le> maxDNSLabels \<and> jumps + j \<le> maxDNSLabels \<and>
       name = foldl add_label dst ls \<and> length name \<le> maxDNSNameSize \<and>
       e = (case nxt of None \<Rightarrow> e' | Some n \<Rightarrow> n))"
  using assms
proof (induction "(maxDNSLabels - labels) + (maxDNSLabels - jumps)"
    arbitrary: off dst nxt labels jumps rule: less_induct)
  case less
  note len = less.prems
  show ?case
  proof (cases "off < length p")
    case False
    then have "\<not> name_at p off ls j e'" for ls j e' by (subst name_at_iff) auto
    with False show ?thesis by (subst dns_name_loop.simps) simp
  next
    case in_packet: True
    let ?l = "p ! off"
    consider (root) "?l = 0" | (pointer) "?l AND 0xc0 = 0xc0" | (label) "?l \<noteq> 0" "?l AND 0xc0 = 0"
      | (bad) "?l AND 0xc0 \<noteq> 0" "?l AND 0xc0 \<noteq> 0xc0" by blast
    then show ?thesis
    proof cases
      case root
      then have "name_at p off ls j e' \<longleftrightarrow> ls = [] \<and> j = 0 \<and> e' = off + 1" for ls j e'
        using in_packet root by (subst name_at_iff) (auto dest: of_nat_u8_nonzero)
      with root in_packet len show ?thesis
        by (subst dns_name_loop.simps) (auto split: option.splits)
    next
      case pointer
      then have nz: "unat ?l \<noteq> 0" by (auto simp: zero_byte)
      let ?t = "unat (word16 ?l (p ! (off + 1)) AND 0x3fff)"
      have na: "name_at p off ls j e' \<longleftrightarrow> off + 1 < length p \<and> e' = off + 2 \<and>
          (\<exists>j' e''. j = Suc j' \<and> name_at p ?t ls j' e'')" for ls j e'
        using in_packet pointer nz byte_below_64 [of ?l] by (subst name_at_iff) auto
      show ?thesis
      proof (cases "off + 1 < length p \<and> jumps + 1 \<le> maxDNSLabels")
        case False
        with na in_packet pointer nz show ?thesis
          by (subst dns_name_loop.simps) (auto simp: Let_def)
      next
        case True
        let ?n = "Some (case nxt of None \<Rightarrow> off + 2 | Some n \<Rightarrow> n)"
        have "be16 (take 2 (drop off p)) = Some (word16 ?l (p ! (off + 1)))" using True by auto
        then have step: "dns_name_loop p start off dst nxt labels jumps =
            dns_name_loop p start ?t dst ?n labels (jumps + 1)"
          using True in_packet pointer nz
          by (subst dns_name_loop.simps) (cases nxt, simp_all)
        have iff: "dns_name_loop p start ?t dst ?n labels (jumps + 1) = Some (name, e, IssueNone) \<longleftrightarrow>
          (\<exists>ls j e'. name_at p ?t ls j e' \<and> labels + length ls \<le> maxDNSLabels \<and> (jumps + 1) + j \<le> maxDNSLabels \<and>
            name = foldl add_label dst ls \<and> length name \<le> maxDNSNameSize \<and>
            e = (case ?n of None \<Rightarrow> e' | Some n \<Rightarrow> n))"
          using True len by (intro less.hyps) auto
        show ?thesis
          unfolding step iff na using True by (subst through_pointer) simp
      qed
    next
      case bad
      then have "\<not> name_at p off ls j e'" for ls j e'
        using byte_below_64 [of ?l] by (subst name_at_iff) auto
      moreover have "unat ?l \<noteq> 0" using bad by (auto simp: zero_byte)
      ultimately show ?thesis using in_packet bad by (subst dns_name_loop.simps) simp
    next
      case label
      then have nz: "0 < unat ?l" and le: "unat ?l \<le> 63"
        using byte_below_64 [of ?l] zero_byte [of ?l] by auto
      let ?n = "unat ?l"
      let ?lab = "take ?n (drop (off + 1) p)"
      have na: "name_at p off ls j e' \<longleftrightarrow> off + 1 + ?n \<le> length p \<and>
          (\<exists>ls'. ls = ?lab # ls' \<and> name_at p (off + 1 + ?n) ls' j e')" for ls j e'
      proof
        assume "name_at p off ls j e'"
        then obtain l ls' where l: "ls = l # ls'" "off + 1 + length l \<le> length p" "length l \<le> 63"
          "?l = of_nat (length l)" "take (length l) (drop (off + 1) p) = l"
          "name_at p (off + 1 + length l) ls' j e'"
          using label by (subst (asm) name_at_iff) auto
        have "?n = length l" unfolding l(4) using l(3) by (intro unat_of_nat_u8) linarith
        with l show "off + 1 + ?n \<le> length p \<and> (\<exists>ls'. ls = ?lab # ls' \<and> name_at p (off + 1 + ?n) ls' j e')"
          by auto
      next
        assume r: "off + 1 + ?n \<le> length p \<and> (\<exists>ls'. ls = ?lab # ls' \<and> name_at p (off + 1 + ?n) ls' j e')"
        then have lab: "length ?lab = ?n" by auto
        from r obtain ls' where ls': "ls = ?lab # ls'" "name_at p (off + 1 + length ?lab) ls' j e'"
          unfolding lab by blast
        show "name_at p off ls j e'"
          unfolding ls'(1) using r lab nz le ls'(2)
          by (intro name_at.label) simp_all
      qed
      show ?thesis
      proof (cases "off + 1 + ?n \<le> length p \<and> labels + 1 \<le> maxDNSLabels")
        case False
        with na in_packet label nz le show ?thesis
          by (subst dns_name_loop.simps) (auto simp: Let_def)
      next
        case fits: True
        then have lab: "length ?lab = ?n" by auto
        have rhs: "(\<exists>ls j e'. name_at p off ls j e' \<and> labels + length ls \<le> maxDNSLabels \<and>
            jumps + j \<le> maxDNSLabels \<and> name = foldl add_label dst ls \<and> length name \<le> maxDNSNameSize \<and>
            e = (case nxt of None \<Rightarrow> e' | Some n \<Rightarrow> n)) \<longleftrightarrow>
          (\<exists>ls j e'. name_at p (off + 1 + ?n) ls j e' \<and> (labels + 1) + length ls \<le> maxDNSLabels \<and>
            jumps + j \<le> maxDNSLabels \<and> name = foldl add_label (add_label dst ?lab) ls \<and>
            length name \<le> maxDNSNameSize \<and> e = (case nxt of None \<Rightarrow> e' | Some n \<Rightarrow> n))"
          unfolding na
          by (rule trans [OF through_label [where c = "off + 1 + ?n \<le> length p" and
              A = "\<lambda>ls j e'. name_at p (off + 1 + ?n) ls j e'" and B = "\<lambda>j. jumps + j \<le> maxDNSLabels" and
              E = "\<lambda>n. length n \<le> maxDNSNameSize" and f = add_label and
              F = "\<lambda>e'. e = (case nxt of None \<Rightarrow> e' | Some n \<Rightarrow> n)"]]) (simp only: fits simp_thms)
        show ?thesis
        proof (cases "length (add_label dst ?lab) \<le> maxDNSNameSize")
          case True
          have d: "(length dst \<noteq> 0 \<and> length dst + 1 > maxDNSNameSize) = False"
            "(length (if length dst \<noteq> 0 then dst @ [0x2e] else dst) + ?n > maxDNSNameSize) = False"
            "(if length dst \<noteq> 0 then dst @ [0x2e] else dst) @ ?lab = add_label dst ?lab"
            using True lab nz by (auto simp: add_label_def)
          have g: "gslice p (off + 1) (off + 1 + ?n) = Some ?lab" using fits by simp
          have c: "(off \<ge> length p) = False" "(?n = 0) = False" "(?l AND 0xc0 = 0xc0) = False"
            "(?l AND 0xc0 \<noteq> 0 \<or> ?n > 63) = False" "(off + 1 + ?n > length p) = False"
            "(labels + 1 > maxDNSLabels) = False" "idx p off = Some ?l"
            using fits in_packet label nz le by simp_all
          have step: "dns_name_loop p start off dst nxt labels jumps =
              dns_name_loop p start (off + 1 + ?n) (add_label dst ?lab) nxt (labels + 1) jumps"
            by (subst dns_name_loop.simps) (simp only: c d g Let_def bind.bind_lunit if_False)
          have "dns_name_loop p start (off + 1 + ?n) (add_label dst ?lab) nxt (labels + 1) jumps =
              Some (name, e, IssueNone) \<longleftrightarrow>
            (\<exists>ls j e'. name_at p (off + 1 + ?n) ls j e' \<and> (labels + 1) + length ls \<le> maxDNSLabels \<and>
              jumps + j \<le> maxDNSLabels \<and> name = foldl add_label (add_label dst ?lab) ls \<and>
              length name \<le> maxDNSNameSize \<and> e = (case nxt of None \<Rightarrow> e' | Some n \<Rightarrow> n))"
            using True fits len by (intro less.hyps) auto
          then show ?thesis unfolding step rhs .
        next
          case False
          have "dns_name_loop p start off dst nxt labels jumps = Some ([], start, IssueTooLarge)"
            using False fits in_packet label nz le lab len
            by (subst dns_name_loop.simps) (auto simp: Let_def add_label_def)
          moreover have "\<not> length (foldl add_label (add_label dst ?lab) ls) \<le> maxDNSNameSize" for ls
            using False foldl_add_label_longer [of "add_label dst ?lab" ls] by linarith
          ultimately show ?thesis unfolding rhs by auto
        qed
      qed
    qed
  qed
qed


text \<open>
  (C31) \<open>decodeDNSName\<close> returns exactly the names the wire format defines: it succeeds with a name and
  the offset after it if and only if the bytes spell a list of at most 32 labels through at most 32
  compression pointers whose dotted form has at most 255 bytes. In particular the length checks it
  makes label by label reject no name that would fit.
\<close>

theorem decodeDNSName_iff:
  "decodeDNSName p off = Some (name, e, IssueNone) \<longleftrightarrow>
     (\<exists>ls j. name_at p off ls j e \<and> length ls \<le> maxDNSLabels \<and> j \<le> maxDNSLabels \<and>
        name = dotted ls \<and> length name \<le> maxDNSNameSize)"
  unfolding decodeDNSName_def dotted_def
  by (subst dns_name_loop_iff) (simp_all add: maxDNSNameSize_def)

text \<open>An uncompressed name, as a sender lays it out.\<close>

definition put_label :: "bytes \<Rightarrow> bytes" where
  "put_label l = of_nat (length l) # l"

definition put_name :: "bytes list \<Rightarrow> bytes" where
  "put_name ls = concat (map put_label ls) @ [0]"

definition labels_ok :: "bytes list \<Rightarrow> bool" where
  "labels_ok ls = (list_all (\<lambda>l. 1 \<le> length l \<and> length l \<le> 63) ls \<and> length ls \<le> maxDNSLabels \<and>
     length (dotted ls) \<le> maxDNSNameSize)"

lemma name_at_put:
  "list_all (\<lambda>l. 1 \<le> length l \<and> length l \<le> 63) ls \<Longrightarrow>
   name_at (pre @ put_name ls @ post) (length pre) ls 0 (length (pre @ put_name ls))"
proof (induction ls arbitrary: pre)
  case Nil
  have "name_at (pre @ 0 # post) (length pre) [] 0 (length pre + 1)"
    by (rule name_at.root) simp_all
  then show ?case by (simp add: put_name_def)
next
  case (Cons l ls)
  let ?p = "pre @ put_name (l # ls) @ post"
  have p: "?p = (pre @ put_label l) @ put_name ls @ post" by (simp add: put_name_def)
  have "name_at ?p (length (pre @ put_label l)) ls 0 (length ((pre @ put_label l) @ put_name ls))"
    unfolding p by (rule Cons.IH) (use Cons.prems in simp)
  moreover have "length (pre @ put_label l) = length pre + 1 + length l" by (simp add: put_label_def)
  moreover have "length ((pre @ put_label l) @ put_name ls) = length (pre @ put_name (l # ls))"
    by (simp add: put_name_def)
  ultimately have "name_at ?p (length pre + 1 + length l) ls 0 (length (pre @ put_name (l # ls)))" by simp
  then show ?case
    using Cons.prems by (intro name_at.label) (simp_all add: put_name_def put_label_def)
qed

lemma decodeDNSName_put:
  "labels_ok ls \<Longrightarrow>
   decodeDNSName (pre @ put_name ls @ post) (length pre) =
     Some (dotted ls, length (pre @ put_name ls), IssueNone)"
  using name_at_put [of ls pre post] unfolding decodeDNSName_iff labels_ok_def by blast

section \<open>What valid text data is\<close>

definition put_txt :: "bytes list \<Rightarrow> bytes" where
  "put_txt es = concat (map put_label es)"

lemma put_txt_simps [simp]: "put_txt [] = []" "put_txt (e # es) = put_label e @ put_txt es"
  by (simp_all add: put_txt_def)

lemma length_put_label [simp]: "length (put_label l) = Suc (length l)"
  by (simp add: put_label_def)

lemma validate_txt_put:
  "list_all (\<lambda>e. length e \<le> 255) es \<Longrightarrow> validate_txt (pre @ put_txt es) (length pre) = Some True"
proof (induction es arbitrary: pre)
  case Nil
  then show ?case by (subst validate_txt.simps) simp
next
  case (Cons e es)
  have "unat (of_nat (length e) :: u8) = length e" using Cons.prems by (intro unat_of_nat_u8) simp
  moreover have "validate_txt ((pre @ put_label e) @ put_txt es) (length (pre @ put_label e)) = Some True"
    by (rule Cons.IH) (use Cons.prems in simp)
  moreover have "idx (pre @ put_label e @ put_txt es) (length pre) = Some (of_nat (length e))"
    by (simp add: put_label_def)
  ultimately show ?case
    by (subst validate_txt.simps) (simp del: of_nat_Suc)
qed

lemma validate_txt_sound:
  "validate_txt b off = Some True \<Longrightarrow> off \<le> length b \<Longrightarrow>
   \<exists>es. list_all (\<lambda>e. length e \<le> 255) es \<and> drop off b = put_txt es"
proof (induction "length b - off" arbitrary: off rule: less_induct)
  case less
  show ?case
  proof (cases "off < length b")
    case False
    then show ?thesis by (intro exI [of _ "[]"]) simp
  next
    case True
    let ?n = "unat (b ! off)" and ?e = "take (unat (b ! off)) (drop (off + 1) b)"
    have n: "off + 1 + ?n \<le> length b" "validate_txt b (off + 1 + ?n) = Some True"
      using less.prems True by (subst (asm) validate_txt.simps; auto split: if_splits)+
    have "length b - (off + 1 + ?n) < length b - off" using True by linarith
    from less.hyps [OF this n(2,1)]
    obtain es where es: "list_all (\<lambda>e. length e \<le> 255) es" "drop (off + 1 + ?n) b = put_txt es" by blast
    have len: "length ?e = ?n" using n(1) by simp
    have "drop (off + 1) b = ?e @ drop (off + 1 + ?n) b"
      by (metis append_take_drop_id drop_drop add.commute)
    then have "drop off b = put_label ?e @ put_txt es"
      using True es(2) len by (simp only: put_label_def of_nat_unat ucast_id)
        (simp add: Cons_nth_drop_Suc [symmetric])
    moreover have "length ?e \<le> 255" using unat_u8_less [of "b ! off"] len by linarith
    ultimately show ?thesis using es(1) by (intro exI [of _ "?e # es"]) simp
  qed
qed

text \<open>
  \<open>validateTXT\<close> accepts exactly the sequences of length-prefixed strings.
\<close>

lemma validateTXT_iff:
  "validateTXT b = Some True \<longleftrightarrow> (\<exists>es. list_all (\<lambda>e. length e \<le> 255) es \<and> b = put_txt es)"
  unfolding validateTXT_def
  using validate_txt_sound [of b 0] validate_txt_put [of _ "[]"] by auto

section \<open>Encoding a response\<close>

text \<open>
  A resource record as a sender means it: names as lists of labels, text as a list of strings. The
  class carries the cache-flush bit of multicast DNS.
\<close>

datatype rdata =
  RA bytes | RAAAA bytes | RPTR "bytes list" | RSRV u16 u16 u16 "bytes list" | RTXT "bytes list"

record resource =
  res_name :: "bytes list"
  res_class :: u16
  res_ttl :: u32
  res_data :: rdata

fun rdata_type :: "rdata \<Rightarrow> DNSRecordType" where
  "rdata_type (RA a) = DNSRecordA"
| "rdata_type (RAAAA a) = DNSRecordAAAA"
| "rdata_type (RPTR t) = DNSRecordPTR"
| "rdata_type (RSRV p w n t) = DNSRecordSRV"
| "rdata_type (RTXT es) = DNSRecordTXT"

fun put_rdata :: "rdata \<Rightarrow> bytes" where
  "put_rdata (RA a) = a"
| "put_rdata (RAAAA a) = a"
| "put_rdata (RPTR t) = put_name t"
| "put_rdata (RSRV p w n t) = put16 p @ put16 w @ put16 n @ put_name t"
| "put_rdata (RTXT es) = put_txt es"

fun rdata_ok :: "rdata \<Rightarrow> bool" where
  "rdata_ok (RA a) = (length a = 4)"
| "rdata_ok (RAAAA a) = (length a = 16)"
| "rdata_ok (RPTR t) = labels_ok t"
| "rdata_ok (RSRV p w n t) = labels_ok t"
| "rdata_ok (RTXT es) = (list_all (\<lambda>e. length e \<le> 255) es \<and> length (put_txt es) < 65536)"

fun store_rdata :: "rdata \<Rightarrow> DNSRecord \<Rightarrow> DNSRecord" where
  "store_rdata (RA a) r = r\<lparr>rr_Address := AddrFrom4 a\<rparr>"
| "store_rdata (RAAAA a) r = r\<lparr>rr_Address := AddrFrom16 a\<rparr>"
| "store_rdata (RPTR t) r = r\<lparr>rr_Target := lowerDNSName (dotted t)\<rparr>"
| "store_rdata (RSRV p w n t) r =
     r\<lparr>rr_Priority := p, rr_Weight := w, rr_Port := n, rr_Target := lowerDNSName (dotted t)\<rparr>"
| "store_rdata (RTXT es) r = r\<lparr>rr_TXT := put_txt es\<rparr>"

definition resource_ok :: "resource \<Rightarrow> bool" where
  "resource_ok r = (labels_ok (res_name r) \<and> rdata_ok (res_data r))"

definition record_of :: "resource \<Rightarrow> DNSRecord" where
  "record_of r = store_rdata (res_data r)
     (blank_record (dotted (res_name r)) (rdata_type (res_data r)) (res_class r) (res_ttl r))"

definition put_resource :: "resource \<Rightarrow> bytes" where
  "put_resource r = put_name (res_name r) @ put16 (rdata_type (res_data r)) @ put16 (res_class r) @
     put32 (res_ttl r) @ put16 (of_nat (length (put_rdata (res_data r)))) @ put_rdata (res_data r)"

text \<open>A question has a name, a type and a class; the records follow in three sections with a count each.\<close>

type_synonym question = "bytes list \<times> u16 \<times> u16"

definition put_question :: "question \<Rightarrow> bytes" where
  "put_question q = (case q of (name, typ, class) \<Rightarrow> put_name name @ put16 typ @ put16 class)"

definition put_response :: "u16 \<Rightarrow> u16 \<Rightarrow> question list \<Rightarrow> resource list \<Rightarrow> resource list \<Rightarrow> resource list \<Rightarrow> bytes" where
  "put_response ident flags questions answers authority additional =
     put16 ident @ put16 flags @ put16 (of_nat (length questions)) @ put16 (of_nat (length answers)) @
     put16 (of_nat (length authority)) @ put16 (of_nat (length additional)) @
     concat (map put_question questions) @
     concat (map put_resource answers) @ concat (map put_resource authority) @ concat (map put_resource additional)"

lemma length_foldl_add_label:
  "d \<noteq> [] \<Longrightarrow> length (foldl add_label d ls) = length d + sum_list (map (\<lambda>l. length l + 1) ls)"
proof (induction ls arbitrary: d)
  case (Cons l ls)
  then have "add_label d l \<noteq> []" by (simp add: add_label_def)
  with Cons show ?case by (simp add: add_label_def)
qed simp

lemma length_put_name: "labels_ok ls \<Longrightarrow> length (put_name ls) \<le> 257"
proof -
  assume ok: "labels_ok ls"
  have eq: "length (put_name ls) = sum_list (map (\<lambda>l. length l + 1) ls) + 1"
    by (simp add: put_name_def length_concat comp_def)
  show ?thesis
  proof (cases ls)
    case (Cons l ls')
    with ok have "l \<noteq> []" "length (dotted ls) \<le> 255" by (auto simp: labels_ok_def maxDNSNameSize_def)
    with eq Cons length_foldl_add_label [of l ls'] show ?thesis by (simp add: dotted_def add_label_def)
  qed (simp add: put_name_def)
qed

lemma length_put_rdata: "rdata_ok d \<Longrightarrow> length (put_rdata d) < 65536"
proof (cases d)
  case (RPTR t)
  then show "rdata_ok d \<Longrightarrow> ?thesis" using length_put_name [of t] by simp
next
  case (RSRV p w n t)
  then show "rdata_ok d \<Longrightarrow> ?thesis" using length_put_name [of t] by simp
qed simp_all

lemma dns_known_rdata [simp]: "dns_known_type (rdata_type d)"
  by (cases d) (simp_all add: dns_known_type_def)

lemma validateTXT_put: "list_all (\<lambda>e. length e \<le> 255) es \<Longrightarrow> validateTXT (put_txt es) = Some True"
  using validate_txt_put [of es "[]"] by (simp add: validateTXT_def)

lemma put_name_nonempty: "1 \<le> length (put_name ls)"
  by (simp add: put_name_def)

lemma dns_rdata_put:
  assumes "rdata_ok d"
  shows "dns_rdata (pre @ put_rdata d @ post) (rdata_type d) (length pre) (length (pre @ put_rdata d))
      (blank_record name (rdata_type d) class ttl) =
    Some (True, store_rdata d (blank_record name (rdata_type d) class ttl))"
proof (cases d)
  case (RA a)
  with assms obtain a0 a1 a2 a3 where "a = [a0, a1, a2, a3]"
    by (auto simp: length_Suc_conv numeral_eq_Suc)
  with RA show ?thesis by (simp add: dns_rdata_def Let_def nth_append dns_type_defs)
next
  case (RAAAA a)
  with assms show ?thesis by (simp add: dns_rdata_def Let_def dns_type_defs)
next
  case (RPTR t)
  with assms decodeDNSName_put [of t pre post] show ?thesis
    by (simp add: dns_rdata_def Let_def dns_type_defs blank_record_def)
next
  case (RSRV p w n t)
  let ?pre = "pre @ put16 p @ put16 w @ put16 n"
  have name: "decodeDNSName (pre @ put_rdata d @ post) (length pre + 6) =
      Some (dotted t, length (pre @ put_rdata d), IssueNone)"
    using assms decodeDNSName_put [of t ?pre post] by (simp add: RSRV)
  have g: "gslice (pre @ put_rdata d @ post) (length pre) (length pre + 2) = Some (put16 p)"
    "gslice (pre @ put_rdata d @ post) (length pre + 2) (length pre + 4) = Some (put16 w)"
    "gslice (pre @ put_rdata d @ post) (length pre + 4) (length pre + 6) = Some (put16 n)"
    by (simp_all add: RSRV)
  have len: "length (pre @ put_rdata d) - length pre \<ge> 7" using put_name_nonempty [of t] by (simp add: RSRV)
  show ?thesis
    using len by (simp only: dns_rdata_def Let_def g name) (simp add: RSRV dns_type_defs blank_record_def)
next
  case (RTXT es)
  with assms show ?thesis
    by (simp add: dns_rdata_def Let_def dns_type_defs validateTXT_put blank_record_def)
qed

lemma dns_record_put:
  assumes "resource_ok r" "spare rs = []"
  shows "dns_record (pre @ put_resource r @ post) (length pre, st, rs) =
    Some (Inr (length (pre @ put_resource r), st, \<lparr>live = live rs @ [record_of r], spare = []\<rparr>))"
proof -
  let ?d = "res_data r" and ?b = "pre @ put_resource r @ post"
  let ?n = "put_name (res_name r)" and ?len = "length (put_rdata (res_data r))"
  let ?h = "put16 (rdata_type ?d) @ put16 (res_class r) @ put32 (res_ttl r) @ put16 (of_nat ?len)"
  have b: "?b = pre @ ?n @ (?h @ put_rdata ?d @ post)" "?b = (pre @ ?n @ ?h) @ put_rdata ?d @ post"
    by (simp_all add: put_resource_def)
  have name: "decodeDNSName ?b (length pre) = Some (dotted (res_name r), length (pre @ ?n), IssueNone)"
    unfolding b(1) using assms(1) by (intro decodeDNSName_put) (simp add: resource_ok_def)
  let ?o = "length (pre @ ?n)"
  have g: "gslice ?b ?o (?o + 2) = Some (put16 (rdata_type ?d))"
    "gslice ?b (?o + 2) (?o + 4) = Some (put16 (res_class r))"
    "gslice ?b (?o + 4) (?o + 8) = Some (put32 (res_ttl r))"
    "gslice ?b (?o + 8) (?o + 10) = Some (put16 (of_nat ?len))"
    by (simp_all add: put_resource_def)
  have ulen: "unat (of_nat ?len :: u16) = ?len"
    using assms(1) length_put_rdata by (intro unat_of_nat_u16) (simp add: resource_ok_def)
  have rd: "dns_rdata ?b (rdata_type ?d) (?o + 10) (?o + 10 + ?len)
      (blank_record (dotted (res_name r)) (rdata_type ?d) (res_class r) (res_ttl r)) = Some (True, record_of r)"
    using dns_rdata_put [of ?d "pre @ ?n @ ?h" post "dotted (res_name r)" "res_class r" "res_ttl r"] assms(1)
    unfolding b(2) by (simp add: resource_ok_def record_of_def add.assoc)
  have c: "(?o + 10 > length ?b) = False" "(?o + 10 + ?len > length ?b) = False"
    "?o + 10 + ?len = length (pre @ put_resource r)"
    by (simp_all add: put_resource_def)
  show ?thesis
    unfolding dns_record_def prod.case name bind.bind_lunit g be16_put16 be32_put32 Let_def ulen c(1,2)
      dns_store_eq rd dns_known_rdata if_False simp_thms if_True
    using assms(2) c(3) by simp
qed

lemma dns_records_put:
  "list_all resource_ok rs \<Longrightarrow> spare ss = [] \<Longrightarrow>
   dns_records (length rs) (pre @ concat (map put_resource rs)) (length pre, st, ss) =
     Some (st, \<lparr>live = live ss @ map record_of rs, spare = []\<rparr>)"
proof (induction rs arbitrary: pre ss)
  case Nil
  then show ?case by (cases ss) simp
next
  case (Cons r rs)
  have "dns_records (length rs) ((pre @ put_resource r) @ concat (map put_resource rs))
      (length (pre @ put_resource r), st, \<lparr>live = live ss @ [record_of r], spare = []\<rparr>) =
    Some (st, \<lparr>live = (live ss @ [record_of r]) @ map record_of rs, spare = []\<rparr>)"
    using Cons.IH [of "\<lparr>live = live ss @ [record_of r], spare = []\<rparr>" "pre @ put_resource r"] Cons.prems by simp
  with dns_record_put [of r ss pre "concat (map put_resource rs)" st] Cons.prems show ?case by simp
qed

text \<open>The questions are passed over: name, type and class of each.\<close>

lemma dns_question_put:
  assumes "labels_ok (fst q)"
  shows "dns_question (pre @ put_question q @ post) (length pre, st) = Some (Inr (length (pre @ put_question q), st))"
proof -
  obtain name ty cls where q: "q = (name, ty, cls)" by (cases q)
  have "decodeDNSName (pre @ put_question q @ post) (length pre) = Some (dotted name, length (pre @ put_name name), IssueNone)"
    using decodeDNSName_put [of name pre "put16 ty @ put16 cls @ post"] assms by (simp add: q put_question_def)
  then show ?thesis by (simp add: dns_question_def) (simp add: q put_question_def)
qed

lemma dns_questions_put:
  "list_all (\<lambda>q. labels_ok (fst q)) qs \<Longrightarrow>
   dns_questions (length qs) (pre @ concat (map put_question qs) @ post) (length pre, st) =
     Some (Inr (length (pre @ concat (map put_question qs)), st))"
proof (induction qs arbitrary: pre)
  case (Cons q qs)
  have "dns_questions (length qs) ((pre @ put_question q) @ concat (map put_question qs) @ post) (length (pre @ put_question q), st) =
    Some (Inr (length ((pre @ put_question q) @ concat (map put_question qs)), st))"
    using Cons.IH [of "pre @ put_question q"] Cons.prems by simp
  with dns_question_put [of q pre "concat (map put_question qs) @ post" st] Cons.prems show ?case by simp
qed simp

definition empty_mdns :: MDNSMessage where
  "empty_mdns = \<lparr>mdns_ID = 0, mdns_Flags = 0, mdns_Records = slab_empty\<rparr>"

text \<open>
  (C24) A multicast DNS response is decoded to the records it was encoded from: for every list of up to 256
  questions and every three sections of, together, up to 256 address, pointer, service and text records,
  the message holds one record for each, in the order of the sections, with the lower-cased dotted names,
  class and cache-flush bit separated, and the data of its type, and the status is clean; the questions
  are passed over.
\<close>

theorem DecodeMDNS_roundtrip:
  assumes "list_all (\<lambda>q. labels_ok (fst q)) qs" "length qs \<le> 256"
    and "list_all resource_ok (an @ au @ ad)" "length (an @ au @ ad) \<le> 256" "flags AND 0x8000 \<noteq> 0" "flags AND 0x780f = 0"
  shows "\<exists>m. DecodeMDNS (put_response ident flags qs an au ad) (Some old) = Some (clean_status, Some m) \<and>
    mdns_ID m = ident \<and> mdns_Flags m = flags \<and> live (mdns_Records m) = map record_of (an @ au @ ad)"
proof -
  let ?b = "put_response ident flags qs an au ad" and ?rs = "an @ au @ ad"
  let ?h = "put16 ident @ put16 flags @ put16 (of_nat (length qs)) @ put16 (of_nat (length an)) @
    put16 (of_nat (length au)) @ put16 (of_nat (length ad))"
  let ?q = "?h @ concat (map put_question qs)"
  have h: "length ?h = 12" "?b = ?h @ concat (map put_question qs) @ concat (map put_resource ?rs)"
    "?b = ?q @ concat (map put_resource ?rs)"
    by (simp_all add: put_response_def)
  have g: "gslice ?b 0 2 = Some (put16 ident)" "gslice ?b 2 4 = Some (put16 flags)"
    "gslice ?b 4 6 = Some (put16 (of_nat (length qs)))" "gslice ?b 6 8 = Some (put16 (of_nat (length an)))"
    "gslice ?b 8 10 = Some (put16 (of_nat (length au)))" "gslice ?b 10 12 = Some (put16 (of_nat (length ad)))"
    "\<not> length ?b < 12"
    by (simp_all add: put_response_def)
  have n: "unat (of_nat (length qs) :: u16) = length qs" "unat (of_nat (length an) :: u16) = length an"
    "unat (of_nat (length au) :: u16) = length au" "unat (of_nat (length ad) :: u16) = length ad"
    using assms(2,4) by simp_all
  have f: "flags AND 0x7800 = 0" "flags AND 0x000f = 0"
    using arg_cong [OF assms(6), of "\<lambda>w. w AND 0x7800"] arg_cong [OF assms(6), of "\<lambda>w. w AND 0x000f"]
    by (simp_all add: and.assoc)
  have k: "dns_questions (length qs) ?b (12, clean_status) = Some (Inr (length ?q, clean_status))"
    using dns_questions_put [of qs ?h "concat (map put_resource ?rs)" clean_status] assms(1)
    unfolding h(1) h(2) [symmetric] .
  have r: "dns_records (length an + length au + length ad) ?b (length ?q, clean_status, slab_empty) =
      Some (clean_status, \<lparr>live = map record_of ?rs, spare = []\<rparr>)"
    using dns_records_put [of ?rs slab_empty ?q clean_status] assms(3) unfolding h(3) [symmetric]
    by (simp add: slab_empty_def add.assoc)
  have "decode_mdns ?b clean_status empty_mdns = Some (clean_status,
      \<lparr>mdns_ID = ident, mdns_Flags = flags, mdns_Records = \<lparr>live = map record_of ?rs, spare = []\<rparr>\<rparr>)"
    using assms(2,4,5) f g n k r
    by (simp add: decode_mdns_def Let_def maxDNSRecordsPerMessage_def empty_mdns_def)
  moreover have "MDNSMessage_Reset empty_mdns = empty_mdns"
    by (simp add: MDNSMessage_Reset_def empty_mdns_def slab_reset_def slab_empty_def)
  ultimately have d: "DecodeMDNS ?b (Some empty_mdns) = Some (clean_status, Some
      \<lparr>mdns_ID = ident, mdns_Flags = flags, mdns_Records = \<lparr>live = map record_of ?rs, spare = []\<rparr>\<rparr>)"
    by (simp add: DecodeMDNS_Some)
  from mdns.decode_reuse [OF d, of old] show ?thesis
    by (auto simp: MDNS_view_eq)
qed

theorem DecodeMDNS_roundtrip_witness:
  "\<exists>m. DecodeMDNS (put_response 0 0x8400 [([[0x54, 0x56], [0x5f, 0x74]], 255, 1)] []
       [] [\<lparr>res_name = [[0x54, 0x56], [0x5f, 0x74]], res_class = 0x8001, res_ttl = 120, res_data = RA [192, 0, 2, 7]\<rparr>])
       (Some empty_mdns) = Some (clean_status, Some m) \<and>
     live (mdns_Records m) = [\<lparr>rr_Name = [0x74, 0x76, 0x2e, 0x5f, 0x74], rr_Type = DNSRecordA, rr_Class = 1,
       rr_CacheFlush = True, rr_TTL = 120, rr_Target = [], rr_Address = Addr4 [192, 0, 2, 7], rr_Port = 0,
       rr_Priority = 0, rr_Weight = 0, rr_TXT = []\<rparr>]"
proof -
  let ?n = "[[0x54, 0x56], [0x5f, 0x74]]"
  let ?r = "\<lparr>res_name = ?n, res_class = 0x8001, res_ttl = 120, res_data = RA [192, 0, 2, 7]\<rparr>"
  have name: "labels_ok ?n" by (simp add: labels_ok_def maxDNSLabels_def maxDNSNameSize_def dotted_def add_label_def)
  then have q: "list_all (\<lambda>q. labels_ok (fst q)) [(?n, 255 :: u16, 1 :: u16)]" and ok: "list_all resource_ok ([] @ [] @ [?r])"
    by (simp_all add: resource_ok_def)
  have "record_of ?r = \<lparr>rr_Name = [0x74, 0x76, 0x2e, 0x5f, 0x74], rr_Type = DNSRecordA, rr_Class = 1,
       rr_CacheFlush = True, rr_TTL = 120, rr_Target = [], rr_Address = Addr4 [192, 0, 2, 7], rr_Port = 0,
       rr_Priority = 0, rr_Weight = 0, rr_TXT = []\<rparr>"
    by (simp add: record_of_def blank_record_def lowerDNSName_def lower_byte_def dotted_def add_label_def AddrFrom4_def)
  with DecodeMDNS_roundtrip [OF q _ ok, where flags = "0x8400" and ident = 0 and old = empty_mdns] show ?thesis by auto
qed

text \<open>
  Queries are never answered or stored: a packet without the response bit, or a response with a
  non-zero operation or response code, is ignored with an empty message.
\<close>

lemma DecodeMDNS_ignores:
  assumes "12 \<le> length b" "be16 (drop 2 b) = Some flags" "flags AND 0x8000 = 0 \<or> flags AND 0x7800 \<noteq> 0 \<or> flags AND 0x000f \<noteq> 0"
  shows "\<exists>st m. DecodeMDNS b (Some old) = Some (st, Some m) \<and> Ignored st \<and> live (mdns_Records m) = []"
proof -
  have "word16 (b ! 2) (b ! 3) = flags" using assms(1,2) by (simp add: eval_nat_numeral)
  with assms show ?thesis
    by (auto simp: DecodeMDNS_Some decode_mdns_def Let_def Ignored_def Severity_addIssue)
qed

end
