(* ===== verification/AndroidNSD.thy ===== *)
theory AndroidNSD
  imports MDNS
begin

text \<open>
  The model of \<open>pkg/omnidiscover/android_nsd.go\<close>: Android network service discovery is DNS-SD over
  mDNS, so its decoder is the mDNS decoder; services have a profile and key-value text data.

  \<open>bytes.EqualFold\<close> compares under Unicode case folding. It is the parameter \<open>fold_eq\<close> of the
  definitions that use it, and no lemma needs more than that it is a function.
\<close>

definition ProtocolAndroidNSD :: Protocol where "ProtocolAndroidNSD = ProtocolMDNS"
definition ProtocolsAndroidNSD :: ProtocolSet where "ProtocolsAndroidNSD = ProtocolsMDNS"

definition DecodeAndroidNSD :: "bytes \<Rightarrow> MDNSMessage ptr \<Rightarrow> (DecodeStatus \<times> MDNSMessage ptr) run" where
  "DecodeAndroidNSD packet dst = DecodeMDNS packet dst"

datatype ServiceProfile = ServiceProfileDNSService | ServiceProfileGoogleCast

text \<open>\<open>"_googlecast._tcp.local"\<close>\<close>

definition googleCastServiceType :: bytes where
  "googleCastServiceType = map (\<lambda>c. of_nat (of_char c)) ''_googlecast._tcp.local''"

definition Profile :: "(bytes \<Rightarrow> bytes \<Rightarrow> bool) \<Rightarrow> Service ptr \<Rightarrow> ServiceProfile" where
  "Profile fold_eq s =
     (case s of
        None \<Rightarrow> ServiceProfileDNSService
      | Some s \<Rightarrow>
          if fold_eq (svc_Type s) googleCastServiceType then ServiceProfileGoogleCast
          else ServiceProfileDNSService)"

text \<open>\<open>bytes.IndexByte\<close>, with \<^const>\<open>None\<close> for -1.\<close>

fun IndexByte :: "bytes \<Rightarrow> u8 \<Rightarrow> nat option" where
  "IndexByte [] c = None"
| "IndexByte (b # bs) c = (if b = c then Some 0 else map_option Suc (IndexByte bs c))"

function txt_value_loop ::
  "(bytes \<Rightarrow> bytes \<Rightarrow> bool) \<Rightarrow> bytes \<Rightarrow> bytes \<Rightarrow> nat \<Rightarrow> bytes option run" where
  "txt_value_loop fold_eq txt key offset =
     (if offset < length txt then do {
        l \<leftarrow> idx txt offset;
        let len = unat l;
        if offset + 1 + len > length txt then Some None
        else do {
          entry \<leftarrow> gslice txt (offset + 1) (offset + 1 + len);
          case IndexByte entry 0x3d of
            None \<Rightarrow>
              if fold_eq entry key then do { v \<leftarrow> gslice_from entry (length entry); Some (Some v) }
              else txt_value_loop fold_eq txt key (offset + 1 + len)
          | Some separator \<Rightarrow> do {
              k \<leftarrow> gslice entry 0 separator;
              if fold_eq k key then do { v \<leftarrow> gslice_from entry (separator + 1); Some (Some v) }
              else txt_value_loop fold_eq txt key (offset + 1 + len)
            }
        }
      }
      else Some None)"
  by pat_completeness auto
termination
  by (relation "measure (\<lambda>(fold_eq, txt, key, offset). length txt - offset)") auto

declare txt_value_loop.simps [simp del]

text \<open>The value and true, or \<^const>\<open>None\<close> for nil and false.\<close>

definition TXTValue :: "(bytes \<Rightarrow> bytes \<Rightarrow> bool) \<Rightarrow> Service ptr \<Rightarrow> bytes \<Rightarrow> bytes option run" where
  "TXTValue fold_eq s key =
     (case s of
        None \<Rightarrow> Some None
      | Some s \<Rightarrow> if key = [] then Some None else txt_value_loop fold_eq (svc_TXT s) key 0)"

section \<open>The text of a service as a list of attributes\<close>

text \<open>An entry is a key, and a value after the first equals sign when there is one.\<close>

definition entry_key :: "bytes \<Rightarrow> bytes" where
  "entry_key e = takeWhile (\<lambda>b. b \<noteq> 0x3d) e"

definition entry_value :: "bytes \<Rightarrow> bytes" where
  "entry_value e = drop (length (entry_key e) + 1) e"

lemma IndexByte_None_iff: "IndexByte e c = None \<longleftrightarrow> c \<notin> set e"
  by (induction e) auto

lemma IndexByte_Some: "IndexByte e c = Some i \<Longrightarrow> i = length (takeWhile (\<lambda>b. b \<noteq> c) e) \<and> i < length e"
  by (induction e arbitrary: i) (auto split: if_splits)

lemma IndexByte_key:
  "IndexByte e 0x3d = None \<Longrightarrow> entry_key e = e \<and> entry_value e = []"
  "IndexByte e 0x3d = Some i \<Longrightarrow> i < length e \<and> take i e = entry_key e \<and> drop (i + 1) e = entry_value e"
proof -
  assume "IndexByte e 0x3d = None"
  then have "0x3d \<notin> set e" by (simp add: IndexByte_None_iff)
  then have "entry_key e = e" unfolding entry_key_def by (subst takeWhile_eq_all_conv) auto
  then show "entry_key e = e \<and> entry_value e = []" by (simp add: entry_value_def)
next
  assume "IndexByte e 0x3d = Some i"
  from IndexByte_Some [OF this] have "i = length (entry_key e)" "i < length e"
    by (simp_all add: entry_key_def)
  moreover have "take (length (entry_key e)) e = entry_key e"
    unfolding entry_key_def by (metis append_eq_conv_conj takeWhile_dropWhile_id)
  ultimately show "i < length e \<and> take i e = entry_key e \<and> drop (i + 1) e = entry_value e"
    by (simp add: entry_value_def)
qed

definition lookup_entry :: "(bytes \<Rightarrow> bytes \<Rightarrow> bool) \<Rightarrow> bytes \<Rightarrow> bytes list \<Rightarrow> bytes option" where
  "lookup_entry fold_eq key es = map_option entry_value (find (\<lambda>e. fold_eq (entry_key e) key) es)"

lemma txt_value_loop_put:
  "list_all (\<lambda>e. length e \<le> 255) es \<Longrightarrow>
   txt_value_loop fold_eq (pre @ put_txt es) key (length pre) = Some (lookup_entry fold_eq key es)"
proof (induction es arbitrary: pre)
  case Nil
  then show ?case by (subst txt_value_loop.simps) (simp add: lookup_entry_def)
next
  case (Cons e es)
  let ?t = "pre @ put_txt (e # es)" and ?o = "length pre + 1 + length e"
  have u: "unat (of_nat (length e) :: u8) = length e" using Cons.prems by (intro unat_of_nat_u8) simp
  have IH: "txt_value_loop fold_eq ((pre @ put_label e) @ put_txt es) key (length (pre @ put_label e)) =
      Some (lookup_entry fold_eq key es)"
    by (rule Cons.IH) (use Cons.prems in simp)
  have i: "idx ?t (length pre) = Some (of_nat (length e))" "length pre < length ?t"
    "(length pre + 1 + length e > length ?t) = False" "gslice ?t (length pre + 1) ?o = Some e"
    by (simp_all add: put_label_def)
  show ?case
  proof (cases "IndexByte e 0x3d")
    case None
    have "txt_value_loop fold_eq ?t key (length pre) =
        (if fold_eq e key then do { v \<leftarrow> gslice_from e (length e); Some (Some v) }
         else txt_value_loop fold_eq ?t key ?o)"
      by (subst txt_value_loop.simps) (simp only: i Let_def bind.bind_lunit u if_True if_False None option.case)
    with IH IndexByte_key(1) [OF None] show ?thesis
      by (simp add: lookup_entry_def)
  next
    case (Some j)
    note key = IndexByte_key(2) [OF Some]
    have "gslice e 0 j = Some (entry_key e)" "gslice_from e (j + 1) = Some (entry_value e)"
      using key by simp_all
    then have "txt_value_loop fold_eq ?t key (length pre) =
        (if fold_eq (entry_key e) key then Some (Some (entry_value e))
         else txt_value_loop fold_eq ?t key ?o)"
      by (subst txt_value_loop.simps) (simp only: i Let_def bind.bind_lunit u if_True if_False Some option.case)
    with IH show ?thesis by (simp add: lookup_entry_def)
  qed
qed

text \<open>
  On text data that the decoder accepts, \<open>TXTValue\<close> is the lookup in the list of attributes: the
  value of the first entry whose key matches, a key without an equals sign having the empty value, and
  nothing for an empty key; no slice goes out of bounds.
\<close>

lemma TXTValue_lookup:
  assumes "validateTXT (svc_TXT s) = Some True"
  shows "\<exists>es. svc_TXT s = put_txt es \<and>
    TXTValue fold_eq (Some s) key = Some (if key = [] then None else lookup_entry fold_eq key es)"
proof -
  obtain es where es: "list_all (\<lambda>e. length e \<le> 255) es" "svc_TXT s = put_txt es"
    using assms validate_txt_sound [of "svc_TXT s" 0] by (auto simp: validateTXT_def)
  with txt_value_loop_put [of es fold_eq "[]" key] show ?thesis
    by (intro exI [of _ es]) (simp add: TXTValue_def)
qed

end
