(* ===== verification/Vendor.thy ===== *)
theory Vendor
  imports Model
begin

text \<open>
  The model of \<open>pkg/omnidiscover/vendor.go\<close>: the lookup of a MAC address in the IEEE registries, by
  binary search over sorted prefix tables with a first-level index of 4096 buckets.

  The tables themselves, \<open>vendor_registry_gen.go\<close>, are generated data. They are the parameter
  \<open>data\<close> of the lookup; the theory \<open>GenOUI\<close> models the generator and shows that the tables it writes
  satisfy what the lookup relies on.
\<close>

datatype MACVendorSource =
  MACVendorUnknown | MACVendorIEEEMAL | MACVendorIEEEMAM | MACVendorIEEEMAS
| MACVendorLocallyAdministered | MACVendorMulticast

record MACVendorResult =
  ven_Name :: bytes
  ven_PrefixBits :: u8
  ven_Source :: MACVendorSource

definition no_vendor :: MACVendorResult where
  "no_vendor = \<lparr>ven_Name = [], ven_PrefixBits = 0, ven_Source = MACVendorUnknown\<rparr>"

record 'a vendor_table =
  vt_Prefixes :: "'a list"
  vt_NameRefs :: "u32 list"
  vt_Buckets :: "u16 list"

record vendor_data =
  vd_NameData :: bytes
  vd_24 :: "u32 vendor_table"
  vd_28 :: "u32 vendor_table"
  vd_36 :: "u64 vendor_table"

section \<open>Binary search\<close>

text \<open>
  The loop shared by \<open>searchUint32\<close> and \<open>searchUint64\<close>, which differ in the width of the values only;
  \<^const>\<open>None\<close> inside the result stands for -1.
\<close>

function search_loop :: "('a :: linorder) list \<Rightarrow> 'a \<Rightarrow> nat \<Rightarrow> nat \<Rightarrow> nat run" where
  "search_loop values target lo hi =
     (if lo < hi then do {
        let mid = (lo + hi) div 2;
        v \<leftarrow> idx values mid;
        if v < target then search_loop values target (mid + 1) hi
        else search_loop values target lo mid
      }
      else Some lo)"
  by pat_completeness auto
termination by (relation "measure (\<lambda>(values, target, lo, hi). hi - lo)") auto

declare search_loop.simps [simp del]

definition search_values :: "('a :: linorder) list \<Rightarrow> 'a \<Rightarrow> nat \<Rightarrow> nat \<Rightarrow> nat option run" where
  "search_values values target lo hi = do {
     lo \<leftarrow> search_loop values target lo hi;
     if lo < length values then do {
       v \<leftarrow> idx values lo;
       if v = target then Some (Some lo) else Some None
     }
     else Some None
   }"

definition searchUint32 :: "u32 list \<Rightarrow> u32 \<Rightarrow> nat \<Rightarrow> nat \<Rightarrow> nat option run" where
  "searchUint32 = search_values"

definition searchUint64 :: "u64 list \<Rightarrow> u64 \<Rightarrow> nat \<Rightarrow> nat \<Rightarrow> nat option run" where
  "searchUint64 = search_values"

section \<open>The lookup\<close>

definition vendorResult :: "bytes \<Rightarrow> u32 \<Rightarrow> u8 \<Rightarrow> MACVendorSource \<Rightarrow> MACVendorResult run" where
  "vendorResult names ref bits source =
     (let offset = unat (drop_bit 8 ref); len = unat (ref AND 0xff) in
      if len = 0 \<or> offset + len > length names then Some no_vendor
      else do {
        name \<leftarrow> gslice names offset (offset + len);
        Some \<lparr>ven_Name = name, ven_PrefixBits = bits, ven_Source = source\<rparr>
      })"

definition prefix36 :: "MAC \<Rightarrow> u64" where
  "prefix36 mac = (case mac of MAC m0 m1 m2 m3 m4 m5 \<Rightarrow>
     push_bit 28 (ucast m0) OR push_bit 20 (ucast m1) OR push_bit 12 (ucast m2) OR
     push_bit 4 (ucast m3) OR drop_bit 4 (ucast m4))"

definition prefix28 :: "MAC \<Rightarrow> u32" where
  "prefix28 mac = (case mac of MAC m0 m1 m2 m3 m4 m5 \<Rightarrow>
     push_bit 20 (ucast m0) OR push_bit 12 (ucast m1) OR push_bit 4 (ucast m2) OR drop_bit 4 (ucast m3))"

definition prefix24 :: "MAC \<Rightarrow> u32" where
  "prefix24 mac = (case mac of MAC m0 m1 m2 m3 m4 m5 \<Rightarrow>
     push_bit 16 (ucast m0) OR push_bit 8 (ucast m1) OR ucast m2)"

text \<open>One registry: the range of the bucket, the search in it, and the name.\<close>

definition lookup_registry ::
  "bytes \<Rightarrow> ('a :: linorder) vendor_table \<Rightarrow> 'a \<Rightarrow> nat \<Rightarrow> u8 \<Rightarrow> MACVendorSource \<Rightarrow> MACVendorResult option run" where
  "lookup_registry names t prefix bucket bits source = do {
     lo \<leftarrow> idx (vt_Buckets t) bucket;
     hi \<leftarrow> idx (vt_Buckets t) (bucket + 1);
     r \<leftarrow> search_values (vt_Prefixes t) prefix (unat lo) (unat hi);
     case r of
       None \<Rightarrow> Some None
     | Some i \<Rightarrow> do {
         ref \<leftarrow> idx (vt_NameRefs t) i;
         v \<leftarrow> vendorResult names ref bits source;
         Some (Some v)
       }
   }"

definition LookupMACVendor :: "vendor_data \<Rightarrow> MAC \<Rightarrow> MACVendorResult run" where
  "LookupMACVendor data mac =
     (if IsZero mac then Some no_vendor
      else if IsMulticast mac then Some (no_vendor\<lparr>ven_Source := MACVendorMulticast\<rparr>)
      else if mac_bytes mac ! 0 AND 0x02 \<noteq> 0 then
        Some (no_vendor\<lparr>ven_Source := MACVendorLocallyAdministered\<rparr>)
      else do {
        r \<leftarrow> lookup_registry (vd_NameData data) (vd_36 data) (prefix36 mac)
          (unat (drop_bit 24 (prefix36 mac))) 36 MACVendorIEEEMAS;
        case r of
          Some v \<Rightarrow> Some v
        | None \<Rightarrow> do {
            r \<leftarrow> lookup_registry (vd_NameData data) (vd_28 data) (prefix28 mac)
              (unat (drop_bit 16 (prefix28 mac))) 28 MACVendorIEEEMAM;
            case r of
              Some v \<Rightarrow> Some v
            | None \<Rightarrow> do {
                r \<leftarrow> lookup_registry (vd_NameData data) (vd_24 data) (prefix24 mac)
                  (unat (drop_bit 12 (prefix24 mac))) 24 MACVendorIEEEMAL;
                case r of Some v \<Rightarrow> Some v | None \<Rightarrow> Some no_vendor
              }
          }
      })"

section \<open>Correctness of the search\<close>

lemma search_loop_runs:
  assumes "sorted values" "lo \<le> hi" "hi \<le> length values"
  shows "runs (search_loop values target lo hi)
    (\<lambda>k. lo \<le> k \<and> k \<le> hi \<and> (\<forall>i. lo \<le> i \<longrightarrow> i < k \<longrightarrow> values ! i < target) \<and>
       (\<forall>i. k \<le> i \<longrightarrow> i < hi \<longrightarrow> target \<le> values ! i))"
  using assms(2,3)
proof (induction "hi - lo" arbitrary: lo hi rule: less_induct)
  case less
  show ?case
  proof (cases "lo < hi")
    case False
    with less.prems show ?thesis by (subst search_loop.simps) (auto simp: wp)
  next
    case True
    define mid where "mid = (lo + hi) div 2"
    have mid: "lo \<le> mid" "mid < hi" using True by (auto simp: mid_def)
    show ?thesis
    proof (cases "values ! mid < target")
      case below: True
      have "runs (search_loop values target (mid + 1) hi)
        (\<lambda>k. mid + 1 \<le> k \<and> k \<le> hi \<and> (\<forall>i. mid + 1 \<le> i \<longrightarrow> i < k \<longrightarrow> values ! i < target) \<and>
           (\<forall>i. k \<le> i \<longrightarrow> i < hi \<longrightarrow> target \<le> values ! i))"
        using mid less.prems by (intro less.hyps) auto
      moreover have "values ! i < target" if "i \<le> mid" for i
        using that below mid less.prems sorted_nth_mono [OF assms(1), of i mid] by fastforce
      ultimately have "runs (search_loop values target (mid + 1) hi)
        (\<lambda>k. lo \<le> k \<and> k \<le> hi \<and> (\<forall>i. lo \<le> i \<longrightarrow> i < k \<longrightarrow> values ! i < target) \<and>
           (\<forall>i. k \<le> i \<longrightarrow> i < hi \<longrightarrow> target \<le> values ! i))"
        using mid by (auto elim!: runs_mono simp: not_less_eq_eq) (metis not_less_eq_eq)
      with True below mid less.prems show ?thesis
        by (subst search_loop.simps) (simp add: mid_def Let_def wp)
    next
      case above: False
      have "runs (search_loop values target lo mid)
        (\<lambda>k. lo \<le> k \<and> k \<le> mid \<and> (\<forall>i. lo \<le> i \<longrightarrow> i < k \<longrightarrow> values ! i < target) \<and>
           (\<forall>i. k \<le> i \<longrightarrow> i < mid \<longrightarrow> target \<le> values ! i))"
        using mid less.prems by (intro less.hyps) auto
      moreover have "target \<le> values ! i" if "mid \<le> i" "i < hi" for i
        using that above mid less.prems sorted_nth_mono [OF assms(1), of mid i] by fastforce
      ultimately have "runs (search_loop values target lo mid)
        (\<lambda>k. lo \<le> k \<and> k \<le> hi \<and> (\<forall>i. lo \<le> i \<longrightarrow> i < k \<longrightarrow> values ! i < target) \<and>
           (\<forall>i. k \<le> i \<longrightarrow> i < hi \<longrightarrow> target \<le> values ! i))"
        using mid by (auto elim!: runs_mono)
      with True above mid less.prems show ?thesis
        by (subst search_loop.simps) (simp add: mid_def Let_def wp)
    qed
  qed
qed

text \<open>
  In a table without repetition, a search over a range that contains the target if the table does
  finds it: the result is its index in the whole table, or nothing.
\<close>

lemma search_values_eq:
  assumes "sorted values" "distinct values" "lo \<le> hi" "hi \<le> length values"
    and range: "\<And>i. i < length values \<Longrightarrow> values ! i = target \<Longrightarrow> lo \<le> i \<and> i < hi"
  shows "target \<notin> set values \<Longrightarrow> search_values values target lo hi = Some None"
    and "i < length values \<Longrightarrow> values ! i = target \<Longrightarrow> search_values values target lo hi = Some (Some i)"
proof -
  obtain k where k: "search_loop values target lo hi = Some k" "lo \<le> k" "k \<le> hi"
    "\<forall>i. lo \<le> i \<longrightarrow> i < k \<longrightarrow> values ! i < target" "\<forall>i. k \<le> i \<longrightarrow> i < hi \<longrightarrow> target \<le> values ! i"
    using search_loop_runs [OF assms(1,3,4), THEN runs_exD] by blast
  show "search_values values target lo hi = Some None" if "target \<notin> set values"
    using that k(1) by (auto simp: search_values_def)
  show "search_values values target lo hi = Some (Some i)" if i: "i < length values" "values ! i = target"
  proof -
    have "lo \<le> i" "i < hi" using range i by auto
    have "k \<le> i" using k(4) \<open>lo \<le> i\<close> i(2) by (metis less_irrefl not_less)
    then have "k < length values" using i(1) by simp
    moreover have "values ! k = target"
      using k(5) \<open>k \<le> i\<close> \<open>i < hi\<close> i sorted_nth_mono [OF assms(1) \<open>k \<le> i\<close> i(1)] by fastforce
    moreover from this have "k = i" using assms(2) i \<open>k < length values\<close> by (metis nth_eq_iff_index_eq)
    ultimately show ?thesis using k(1) by (simp add: search_values_def)
  qed
qed

end
