(* ===== verification/GenOUI.thy ===== *)
theory GenOUI
  imports Vendor "HOL-Library.AList"
begin

text \<open>
  The model of \<open>utils/genoui/main.go\<close>, which compiles the IEEE registries into the tables of the
  vendor lookup: rows to a map, the sorted entries of each registry, the arena of organization names
  with its packed references, and the bucket index.

  The input is what \<open>csv.Reader\<close> delivers, record by record, an error included. \<open>strings.TrimSpace\<close> is
  the parameter \<open>trim_space\<close>; nothing is assumed about it. The tables are taken as values; printing
  them as Go source and compiling that is not modelled.
\<close>

record oui_entry =
  ent_prefix :: u64
  ent_name :: bytes

datatype gen_error =
  CSVError string | AssignmentError bytes | NameTooLong bytes | ArenaTooLarge

section \<open>Reading a registry\<close>

text \<open>\<open>strconv.ParseUint(s, 16, bits)\<close>: no sign, no prefix, no underscore, and a range check.\<close>

definition hex_digit :: "u8 \<Rightarrow> nat option" where
  "hex_digit c =
     (if 0x30 \<le> c \<and> c \<le> 0x39 then Some (unat (c - 0x30))
      else if 0x61 \<le> c \<and> c \<le> 0x66 then Some (unat (c - 0x61) + 10)
      else if 0x41 \<le> c \<and> c \<le> 0x46 then Some (unat (c - 0x41) + 10)
      else None)"

fun hex_value :: "bytes \<Rightarrow> nat \<Rightarrow> nat option" where
  "hex_value [] n = Some n"
| "hex_value (c # cs) n = (case hex_digit c of None \<Rightarrow> None | Some d \<Rightarrow> hex_value cs (16 * n + d))"

definition ParseUint16 :: "bytes \<Rightarrow> nat \<Rightarrow> u64 option" where
  "ParseUint16 s bits =
     (if s = [] then None
      else case hex_value s 0 of
        None \<Rightarrow> None
      | Some n \<Rightarrow> if n < 2 ^ bits then Some (of_nat n) else None)"

text \<open>The loop over the records. The map is an association list; a later row replaces an earlier one.\<close>

fun registry_loop ::
  "(bytes \<Rightarrow> bytes) \<Rightarrow> nat \<Rightarrow> (string + bytes list) list \<Rightarrow> (u64 \<times> bytes) list \<Rightarrow>
   gen_error + (u64 \<times> bytes) list" where
  "registry_loop trim_space bits [] byPrefix = Inr byPrefix"
| "registry_loop trim_space bits (Inl err # rows) byPrefix = Inl (CSVError err)"
| "registry_loop trim_space bits (Inr row # rows) byPrefix =
     (if length row < 3 then registry_loop trim_space bits rows byPrefix
      else let assignment = trim_space (row ! 1); name = trim_space (row ! 2) in
        if assignment = [] \<or> name = [] then registry_loop trim_space bits rows byPrefix
        else case ParseUint16 assignment bits of
          None \<Rightarrow> Inl (AssignmentError assignment)
        | Some prefix \<Rightarrow> registry_loop trim_space bits rows (AList.update prefix name byPrefix))"

text \<open>
  The entries in the order of their prefixes. Go iterates over the map in any order; the keys are
  distinct, so sorting gives the same list whatever the order.
\<close>

definition sorted_entries :: "(u64 \<times> bytes) list \<Rightarrow> oui_entry list" where
  "sorted_entries byPrefix =
     map (\<lambda>(p, n). \<lparr>ent_prefix = p, ent_name = n\<rparr>) (sort_key fst byPrefix)"

definition readRegistry ::
  "(bytes \<Rightarrow> bytes) \<Rightarrow> nat \<Rightarrow> (string + bytes list) list \<Rightarrow> gen_error + oui_entry list" where
  "readRegistry trim_space bits rows =
     (case rows of
        [] \<Rightarrow> Inl (CSVError ''EOF'')
      | Inl err # _ \<Rightarrow> Inl (CSVError err)
      | Inr header # rows \<Rightarrow>
          (case registry_loop trim_space bits rows [] of
             Inl err \<Rightarrow> Inl err
           | Inr byPrefix \<Rightarrow> Inr (sorted_entries byPrefix)))"

section \<open>The arena of names\<close>

type_synonym arena = "bytes \<times> (bytes \<rightharpoonup> u32)"

definition name_ref :: "nat \<Rightarrow> nat \<Rightarrow> u32" where
  "name_ref offset len = of_nat (push_bit 8 offset OR len)"

fun intern_names :: "oui_entry list \<Rightarrow> arena \<Rightarrow> gen_error + u32 list \<times> arena" where
  "intern_names [] a = Inr ([], a)"
| "intern_names (e # es) (names, nameRefs) =
     (let name = ent_name e in
      case nameRefs name of
        Some ref \<Rightarrow>
          (case intern_names es (names, nameRefs) of
             Inl err \<Rightarrow> Inl err
           | Inr (refs, a) \<Rightarrow> Inr (ref # refs, a))
      | None \<Rightarrow>
          if length name > 255 then Inl (NameTooLong name)
          else if length names \<ge> 2 ^ 24 then Inl ArenaTooLarge
          else let ref = name_ref (length names) (length name) in
            (case intern_names es (names @ name, nameRefs(name \<mapsto> ref)) of
               Inl err \<Rightarrow> Inl err
             | Inr (refs, a) \<Rightarrow> Inr (ref # refs, a)))"

section \<open>The bucket index\<close>

definition bucket_of :: "nat \<Rightarrow> u64 \<Rightarrow> nat" where
  "bucket_of bits prefix = unat (drop_bit (bits - 12) prefix)"

function bucket_end :: "nat \<Rightarrow> oui_entry list \<Rightarrow> nat \<Rightarrow> nat \<Rightarrow> nat" where
  "bucket_end bits entries bucket entry =
     (if entry < length entries \<and> bucket_of bits (ent_prefix (entries ! entry)) = bucket
      then bucket_end bits entries bucket (entry + 1)
      else entry)"
  by pat_completeness auto
termination by (relation "measure (\<lambda>(bits, entries, bucket, entry). length entries - entry)") auto

declare bucket_end.simps [simp del]

text \<open>\<open>for bucket := 0; bucket < 4096; bucket++\<close>, from a bucket on.\<close>

fun bucket_starts :: "nat \<Rightarrow> nat \<Rightarrow> oui_entry list \<Rightarrow> nat \<Rightarrow> nat \<Rightarrow> u16 list" where
  "bucket_starts 0 bits entries bucket entry = []"
| "bucket_starts (Suc n) bits entries bucket entry =
     of_nat entry # bucket_starts n bits entries (bucket + 1) (bucket_end bits entries bucket entry)"

definition writeBuckets :: "nat \<Rightarrow> oui_entry list \<Rightarrow> u16 list" where
  "writeBuckets bits entries =
     bucket_starts 4096 bits entries 0 0 @ [of_nat (length entries)]"

definition write_table :: "nat \<Rightarrow> oui_entry list \<Rightarrow> u32 list \<Rightarrow> ('a :: len) word vendor_table" where
  "write_table bits entries refs =
     \<lparr>vt_Prefixes = map (\<lambda>e. ucast (ent_prefix e)) entries, vt_NameRefs = refs,
      vt_Buckets = writeBuckets bits entries\<rparr>"

section \<open>The generator\<close>

definition generate ::
  "(bytes \<Rightarrow> bytes) \<Rightarrow> (string + bytes list) list \<Rightarrow> (string + bytes list) list \<Rightarrow>
   (string + bytes list) list \<Rightarrow> gen_error + vendor_data" where
  "generate trim_space mal mam mas =
     (case readRegistry trim_space 24 mal of Inl err \<Rightarrow> Inl err | Inr es24 \<Rightarrow>
     (case readRegistry trim_space 28 mam of Inl err \<Rightarrow> Inl err | Inr es28 \<Rightarrow>
     (case readRegistry trim_space 36 mas of Inl err \<Rightarrow> Inl err | Inr es36 \<Rightarrow>
     (case intern_names es24 ([], Map.empty) of Inl err \<Rightarrow> Inl err | Inr (refs24, a) \<Rightarrow>
     (case intern_names es28 a of Inl err \<Rightarrow> Inl err | Inr (refs28, a) \<Rightarrow>
     (case intern_names es36 a of Inl err \<Rightarrow> Inl err | Inr (refs36, (names, nameRefs)) \<Rightarrow>
        Inr \<lparr>vd_NameData = names, vd_24 = write_table 24 es24 refs24,
             vd_28 = write_table 28 es28 refs28, vd_36 = write_table 36 es36 refs36\<rparr>))))))"

section \<open>What a registry means\<close>

definition registry_ok :: "nat \<Rightarrow> oui_entry list \<Rightarrow> bool" where
  "registry_ok bits es =
     (sorted (map ent_prefix es) \<and> distinct (map ent_prefix es) \<and>
      (\<forall>e \<in> set es. unat (ent_prefix e) < 2 ^ bits \<and> ent_name e \<noteq> []))"

definition registry_map :: "oui_entry list \<Rightarrow> u64 \<rightharpoonup> bytes" where
  "registry_map es = map_of (map (\<lambda>e. (ent_prefix e, ent_name e)) es)"

lemma ParseUint16_bound: "bits \<le> 64 \<Longrightarrow> ParseUint16 s bits = Some p \<Longrightarrow> unat p < 2 ^ bits"
proof -
  assume b: "bits \<le> 64" and p: "ParseUint16 s bits = Some p"
  then obtain n where n: "n < 2 ^ bits" "p = of_nat n"
    by (auto simp: ParseUint16_def split: if_splits option.splits)
  have "unat (of_nat n :: u64) \<le> n" by (simp add: unsigned_of_nat)
  with n show ?thesis by simp
qed

definition rows_ok :: "nat \<Rightarrow> (u64 \<times> bytes) list \<Rightarrow> bool" where
  "rows_ok bits m = (distinct (map fst m) \<and> (\<forall>(p, n) \<in> set m. unat p < 2 ^ bits \<and> n \<noteq> []))"

lemma set_update_subset: "set (AList.update k v m) \<subseteq> insert (k, v) (set m)"
  by (induction m) auto

lemma rows_ok_update:
  "rows_ok bits m \<Longrightarrow> unat p < 2 ^ bits \<Longrightarrow> n \<noteq> [] \<Longrightarrow> rows_ok bits (AList.update p n m)"
  using set_update_subset [of p n m] by (fastforce simp: rows_ok_def distinct_update)

lemma registry_loop_ok:
  "bits \<le> 64 \<Longrightarrow> rows_ok bits m \<Longrightarrow> registry_loop trim bits rows m = Inr m' \<Longrightarrow> rows_ok bits m'"
proof (induction rows arbitrary: m)
  case Nil
  then show ?case by simp
next
  case (Cons r rows)
  show ?case
  proof (cases r)
    case (Inl err)
    with Cons.prems show ?thesis by simp
  next
    case (Inr row)
    consider "length row < 3 \<or> trim (row ! 1) = [] \<or> trim (row ! 2) = []"
      | p where "\<not> length row < 3" "trim (row ! 1) \<noteq> []" "trim (row ! 2) \<noteq> []"
        "ParseUint16 (trim (row ! 1)) bits = Some p"
      using Cons.prems(3) by (cases "ParseUint16 (trim (row ! 1)) bits") (auto simp: Inr Let_def split: if_splits)
    then show ?thesis
    proof cases
      case 1
      with Cons Inr show ?thesis by (auto simp: Let_def split: if_splits)
    next
      case (2 p)
      then have "rows_ok bits (AList.update p (trim (row ! 2)) m)"
        using Cons.prems(1,2) by (intro rows_ok_update ParseUint16_bound)
      with 2 Cons Inr show ?thesis by simp
    qed
  qed
qed

lemma map_prefix_sorted_entries: "map ent_prefix (sorted_entries m) = map fst (sort_key fst m)"
  by (simp add: sorted_entries_def comp_def case_prod_unfold)

lemma registry_ok_sorted_entries: "rows_ok bits m \<Longrightarrow> registry_ok bits (sorted_entries m)"
proof -
  assume ok: "rows_ok bits m"
  have "sorted (map fst (sort_key fst m))" by simp
  moreover have "distinct (map fst (sort_key fst m))" using ok by (simp add: rows_ok_def distinct_map)
  moreover have "\<forall>e \<in> set (sorted_entries m). unat (ent_prefix e) < 2 ^ bits \<and> ent_name e \<noteq> []"
    using ok by (auto simp: rows_ok_def sorted_entries_def)
  ultimately show ?thesis unfolding registry_ok_def map_prefix_sorted_entries by blast
qed

lemma readRegistry_ok:
  assumes "bits \<le> 64" "readRegistry trim bits rows = Inr es"
  shows "registry_ok bits es"
proof -
  obtain rs m where "registry_loop trim bits rs [] = Inr m" "es = sorted_entries m"
    using assms(2) by (auto simp: readRegistry_def split: list.splits sum.splits)
  moreover have "rows_ok bits []" by (simp add: rows_ok_def)
  ultimately show ?thesis
    using registry_loop_ok [OF assms(1)] registry_ok_sorted_entries by blast
qed

section \<open>The bucket index is right\<close>

text \<open>The first entry at or after a bucket.\<close>

definition first_of :: "nat \<Rightarrow> oui_entry list \<Rightarrow> nat \<Rightarrow> nat" where
  "first_of bits es b = length (takeWhile (\<lambda>e. bucket_of bits (ent_prefix e) < b) es)"

lemma unat_drop_bit: "unat (drop_bit k (w :: 'a :: len word)) = unat w div 2 ^ k"
proof -
  have "unat (drop_bit k w) = drop_bit k (take_bit LENGTH('a) (unat w))" by (rule unsigned_drop_bit_eq)
  also have "take_bit LENGTH('a) (unat w) = unat w" by (simp add: take_bit_nat_eq_self)
  finally show ?thesis by (simp only: drop_bit_eq_div)
qed

lemma bucket_mono: "p \<le> q \<Longrightarrow> bucket_of bits p \<le> bucket_of bits q"
  unfolding bucket_of_def unat_drop_bit word_le_nat_alt by (rule div_le_mono)

lemma first_of_props:
  assumes "sorted (map ent_prefix es)" "i < length es"
  shows "i < first_of bits es b \<longleftrightarrow> bucket_of bits (ent_prefix (es ! i)) < b"
proof
  assume "i < first_of bits es b"
  then show "bucket_of bits (ent_prefix (es ! i)) < b"
    using set_takeWhileD nth_mem takeWhile_nth unfolding first_of_def by (metis (no_types, lifting))
next
  assume *: "bucket_of bits (ent_prefix (es ! i)) < b"
  show "i < first_of bits es b"
  proof (rule ccontr)
    assume "\<not> i < first_of bits es b"
    then have le: "first_of bits es b \<le> i" by simp
    then have lt: "first_of bits es b < length es" using assms(2) by simp
    have "\<not> bucket_of bits (ent_prefix (es ! first_of bits es b)) < b"
      using nth_length_takeWhile [of "\<lambda>e. bucket_of bits (ent_prefix e) < b" es] lt by (simp add: first_of_def)
    moreover have "ent_prefix (es ! first_of bits es b) \<le> ent_prefix (es ! i)"
      using sorted_nth_mono [OF assms(1), of "first_of bits es b" i] le assms(2) lt by simp
    ultimately show False using * bucket_mono [of "ent_prefix (es ! first_of bits es b)" "ent_prefix (es ! i)" bits]
      by linarith
  qed
qed

lemma first_of_le: "first_of bits es b \<le> length es"
  by (simp add: first_of_def length_takeWhile_le)

lemma first_of_mono: "b \<le> c \<Longrightarrow> first_of bits es b \<le> first_of bits es c"
  unfolding first_of_def by (induction es) auto

lemma bucket_end_eq:
  assumes "sorted (map ent_prefix es)"
  shows "first_of bits es b \<le> i \<Longrightarrow> i \<le> first_of bits es (Suc b) \<Longrightarrow>
    bucket_end bits es b i = first_of bits es (Suc b)"
proof (induction "length es - i" arbitrary: i rule: less_induct)
  case less
  have le: "i \<le> length es" using less.prems(2) first_of_le by (rule order_trans)
  show ?case
  proof (cases "i < length es \<and> bucket_of bits (ent_prefix (es ! i)) = b")
    case True
    then have "i < first_of bits es (Suc b)" using first_of_props [OF assms, of i bits "Suc b"] by simp
    then have "bucket_end bits es b (i + 1) = first_of bits es (Suc b)"
      using True less.prems by (intro less.hyps) auto
    with True show ?thesis by (subst bucket_end.simps) simp
  next
    case False
    have "i = first_of bits es (Suc b)"
    proof (rule ccontr)
      assume "i \<noteq> first_of bits es (Suc b)"
      then have lt: "i < first_of bits es (Suc b)" using less.prems(2) by simp
      then have "i < length es" using first_of_le [of bits es "Suc b"] by simp
      moreover from this have "bucket_of bits (ent_prefix (es ! i)) < Suc b"
        using lt first_of_props [OF assms] by blast
      moreover have "\<not> bucket_of bits (ent_prefix (es ! i)) < b"
        using first_of_props [OF assms \<open>i < length es\<close>, of bits b] less.prems(1) by simp
      ultimately show False using False by simp
    qed
    moreover have "bucket_end bits es b i = i" using False by (subst bucket_end.simps) auto
    ultimately show ?thesis by simp
  qed
qed

lemma bucket_starts_eq:
  "sorted (map ent_prefix es) \<Longrightarrow>
   bucket_starts n bits es b (first_of bits es b) = map (\<lambda>b. of_nat (first_of bits es b)) [b ..< b + n]"
proof (induction n arbitrary: b)
  case (Suc n)
  have "bucket_end bits es b (first_of bits es b) = first_of bits es (Suc b)"
    using Suc.prems by (intro bucket_end_eq) (simp_all add: first_of_mono)
  with Suc.IH [of "Suc b"] Suc.prems show ?case by (simp add: upt_rec [of b])
qed simp

lemma first_of_0 [simp]: "first_of bits es 0 = 0"
  by (cases es) (simp_all add: first_of_def)

lemma bucket_of_less:
  assumes "unat p < 2 ^ bits" "12 \<le> bits"
  shows "bucket_of bits p < 4096"
proof -
  have "(2 :: nat) ^ bits = 2 ^ (bits - 12) * 2 ^ 12"
    using assms(2) by (simp only: power_add [symmetric]) simp
  with assms(1) show ?thesis
    unfolding bucket_of_def unat_drop_bit by (simp add: less_mult_imp_div_less mult.commute)
qed

lemma first_of_last:
  assumes "registry_ok bits es" "12 \<le> bits"
  shows "first_of bits es 4096 = length es"
proof -
  have "\<forall>e \<in> set es. bucket_of bits (ent_prefix e) < 4096"
    using assms by (auto simp: registry_ok_def intro!: bucket_of_less)
  then show ?thesis by (simp add: first_of_def takeWhile_eq_all_conv [THEN iffD2])
qed

lemma writeBuckets_nth:
  assumes "registry_ok bits es" "12 \<le> bits" "b \<le> 4096"
  shows "idx (writeBuckets bits es) b = Some (of_nat (first_of bits es b))"
proof -
  have "writeBuckets bits es = map (\<lambda>b. of_nat (first_of bits es b)) [0 ..< 4096] @ [of_nat (length es)]"
    using bucket_starts_eq [of es 4096 bits 0] assms(1) by (simp add: writeBuckets_def registry_ok_def)
  then show ?thesis
    using assms(3) first_of_last [OF assms(1,2)] by (cases "b = 4096") (auto simp: idx_def nth_append)
qed


section \<open>The arena holds the names\<close>

definition ref_ok :: "bytes \<Rightarrow> bytes \<Rightarrow> u32 \<Rightarrow> bool" where
  "ref_ok names name ref =
     (unat (ref AND 0xff) = length name \<and>
      unat (drop_bit 8 ref) + length name \<le> length names \<and>
      take (length name) (drop (unat (drop_bit 8 ref)) names) = name)"

lemma ref_ok_append: "ref_ok names name ref \<Longrightarrow> ref_ok (names @ suffix') name ref"
  by (auto simp: ref_ok_def)

lemma unat_name_ref:
  assumes "len \<le> 255" "off < 2 ^ 24"
  shows "unat (drop_bit 8 (name_ref off len)) = off" "unat (name_ref off len AND 0xff) = len"
proof -
  have "push_bit 8 off OR len = push_bit 8 off + len"
  proof (rule disjunctive_add_eq_or [symmetric])
    have "len = take_bit 8 len" using assms(1) by (simp add: take_bit_nat_eq_self)
    then show "push_bit 8 off AND len = 0"
      by (metis (no_types, lifting) bit_eq_iff bit_and_iff bit_0_eq bot_apply bit_push_bit_iff bit_take_bit_iff not_le bot_bool_def)
  qed
  then have r: "name_ref off len = of_nat (256 * off + len)"
    by (simp add: name_ref_def push_bit_eq_mult mult.commute)
  have u: "unat (name_ref off len) = 256 * off + len"
    unfolding r using assms by (intro unat_of_nat_u32) simp
  show "unat (drop_bit 8 (name_ref off len)) = off"
    unfolding unat_drop_bit u using assms(1) by simp
  have "name_ref off len AND 0xff = take_bit 8 (name_ref off len)"
    by (simp add: take_bit_eq_mask mask_eq_exp_minus_1)
  then have "unat (name_ref off len AND 0xff) = unat (name_ref off len) mod 256"
    by (simp only: unsigned_take_bit_eq) (simp add: take_bit_eq_mod)
  then show "unat (name_ref off len AND 0xff) = len" unfolding u using assms(1) by simp
qed

definition arena_ok :: "arena \<Rightarrow> bool" where
  "arena_ok a = (\<forall>n r. snd a n = Some r \<longrightarrow> ref_ok (fst a) n r)"

lemma ref_ok_new:
  assumes "length name \<le> 255" "length names < 2 ^ 24"
  shows "ref_ok (names @ name) name (name_ref (length names) (length name))"
  using assms by (simp add: ref_ok_def unat_name_ref)

lemma intern_names_ok:
  "arena_ok a \<Longrightarrow> intern_names es a = Inr (refs, a') \<Longrightarrow>
   arena_ok a' \<and> (\<exists>suffix'. fst a' = fst a @ suffix') \<and> list_all2 (\<lambda>e r. ref_ok (fst a') (ent_name e) r) es refs"
proof (induction es arbitrary: a refs)
  case Nil
  then show ?case by simp
next
  case (Cons e es)
  obtain names refmap where a: "a = (names, refmap)" by (cases a)
  show ?case
  proof (cases "refmap (ent_name e)")
    case (Some ref)
    then obtain rs where rs: "intern_names es a = Inr (rs, a')" "refs = ref # rs"
      using Cons.prems(2) by (auto simp: a Let_def split: sum.splits)
    note IH = Cons.IH [OF Cons.prems(1) rs(1)]
    have "ref_ok names (ent_name e) ref" using Cons.prems(1) Some by (simp add: arena_ok_def a)
    with IH rs(2) show ?thesis by (auto simp: a intro: ref_ok_append)
  next
    case None
    let ?ref = "name_ref (length names) (length (ent_name e))"
    let ?a = "(names @ ent_name e, refmap(ent_name e \<mapsto> ?ref))"
    obtain rs where rs: "intern_names es ?a = Inr (rs, a')" "refs = ?ref # rs"
      and len: "length (ent_name e) \<le> 255" "length names < 2 ^ 24"
      using Cons.prems(2) None by (auto simp: a Let_def not_le split: sum.splits if_splits)
    have new: "ref_ok (names @ ent_name e) (ent_name e) ?ref" by (rule ref_ok_new [OF len])
    have "arena_ok ?a"
      using Cons.prems(1) new by (auto simp: arena_ok_def a intro: ref_ok_append)
    from Cons.IH [OF this rs(1)] obtain suffix' where
      IH: "arena_ok a'" "fst a' = (names @ ent_name e) @ suffix'"
        "list_all2 (\<lambda>e r. ref_ok (fst a') (ent_name e) r) es rs" by auto
    moreover have "ref_ok (fst a') (ent_name e) ?ref" unfolding IH(2) by (rule ref_ok_append [OF new])
    ultimately show ?thesis using rs(2) by (simp add: a)
  qed
qed

section \<open>The lookup in a generated table\<close>

lemma vendorResult_ok:
  assumes "ref_ok names name ref" "name \<noteq> []"
  shows "vendorResult names ref bits source =
    Some \<lparr>ven_Name = name, ven_PrefixBits = bits, ven_Source = source\<rparr>"
  using assms by (auto simp: vendorResult_def Let_def ref_ok_def)

definition found :: "u8 \<Rightarrow> MACVendorSource \<Rightarrow> bytes \<Rightarrow> MACVendorResult" where
  "found bits source name = \<lparr>ven_Name = name, ven_PrefixBits = bits, ven_Source = source\<rparr>"

lemma lookup_registry_generated:
  fixes p :: "'a :: len word"
  assumes ok: "registry_ok bits es" "12 \<le> bits" "length es < 65536"
    and width: "bits \<le> LENGTH('a)" "LENGTH('a) \<le> 64"
    and refs: "list_all2 (\<lambda>e r. ref_ok names (ent_name e) r) es refs"
    and p: "unat p < 2 ^ bits" "bucket = bucket_of bits (ucast p)"
  shows "lookup_registry names (write_table bits es refs) p bucket b source =
    Some (map_option (found b source) (registry_map es (ucast p)))"
proof -
  let ?t = "write_table bits es refs :: 'a word vendor_table"
  have up: "unat (ucast p :: u64) = unat p"
  proof -
    have "unat p < 2 ^ LENGTH('a)" by simp
    also have "\<dots> \<le> 2 ^ 64" using width(2) by (intro power_increasing) simp_all
    finally show ?thesis by (simp add: unsigned_ucast_eq take_bit_nat_eq_self)
  qed
  have ue: "unat (ucast (ent_prefix e) :: 'a word) = unat (ent_prefix e)" if "e \<in> set es" for e
  proof -
    have "unat (ent_prefix e) < 2 ^ bits" using ok(1) that by (simp add: registry_ok_def)
    also have "\<dots> \<le> 2 ^ LENGTH('a)" using width(1) by simp
    finally show ?thesis by (simp add: unsigned_ucast_eq take_bit_nat_eq_self)
  qed
  have eq: "ucast (ent_prefix e) = p \<longleftrightarrow> ent_prefix e = ucast p" if "e \<in> set es" for e
    using ue [OF that] up by (metis word_unat_eq_iff)
  have "bucket < 4096" unfolding p(2) using p(1) ok(2) up by (intro bucket_of_less) simp_all
  then have lo: "idx (vt_Buckets ?t) bucket = Some (of_nat (first_of bits es bucket))"
    and hi: "idx (vt_Buckets ?t) (Suc bucket) = Some (of_nat (first_of bits es (Suc bucket)))"
    using ok by (simp_all add: write_table_def writeBuckets_nth)
  have small: "unat (of_nat (first_of bits es b) :: u16) = first_of bits es b" for b
    using first_of_le [of bits es b] ok(3) by (intro unat_of_nat_u16) linarith
  have sorted: "sorted (map ent_prefix es)" "distinct (map ent_prefix es)" using ok(1) by (auto simp: registry_ok_def)
  have s: "sorted (vt_Prefixes ?t)"
  proof -
    have "sorted_wrt (\<lambda>x y. ent_prefix x \<le> ent_prefix y) es" using sorted(1) by (simp add: sorted_map)
    then have "sorted_wrt (\<lambda>x y. (ucast (ent_prefix x) :: 'a word) \<le> ucast (ent_prefix y)) es"
      by (rule sorted_wrt_mono_rel [rotated]) (simp add: word_le_nat_alt ue)
    then show ?thesis by (simp add: write_table_def sorted_map)
  qed
  have d: "distinct (vt_Prefixes ?t)"
  proof -
    have "inj_on (\<lambda>e. ucast (ent_prefix e) :: 'a word) (set es)"
    proof (rule inj_onI)
      fix x y
      assume *: "x \<in> set es" "y \<in> set es" "(ucast (ent_prefix x) :: 'a word) = ucast (ent_prefix y)"
      then have "ent_prefix x = ent_prefix y" using ue by (metis word_unat_eq_iff)
      then show "x = y" using sorted(2) *(1,2) by (auto simp: distinct_map dest: inj_onD)
    qed
    then show ?thesis using sorted(2) by (simp add: write_table_def distinct_map)
  qed
  have range: "first_of bits es bucket \<le> i \<and> i < first_of bits es (Suc bucket)"
    if "i < length (vt_Prefixes ?t)" "vt_Prefixes ?t ! i = p" for i
  proof -
    have i: "i < length es" "ent_prefix (es ! i) = ucast p"
      using that eq [of "es ! i"] by (simp_all add: write_table_def)
    then have "bucket_of bits (ent_prefix (es ! i)) = bucket" by (simp add: p(2))
    then show ?thesis
      using first_of_props [OF sorted(1) i(1), of bits bucket] first_of_props [OF sorted(1) i(1), of bits "Suc bucket"]
      by simp
  qed
  have nr: "vt_NameRefs ?t = refs" by (simp add: write_table_def)
  have le: "first_of bits es bucket \<le> first_of bits es (Suc bucket)"
    "first_of bits es (Suc bucket) \<le> length (vt_Prefixes ?t)"
    using first_of_mono [of bucket "Suc bucket" bits es] first_of_le [of bits es "Suc bucket"]
    by (simp_all add: write_table_def)
  have none: "search_values (vt_Prefixes ?t) p (first_of bits es bucket) (first_of bits es (Suc bucket)) = Some None"
    if "p \<notin> set (vt_Prefixes ?t)"
    by (rule search_values_eq(1) [OF s d le _ that]) (rule range)
  have some: "search_values (vt_Prefixes ?t) p (first_of bits es bucket) (first_of bits es (Suc bucket)) = Some (Some i)"
    if "i < length (vt_Prefixes ?t)" "vt_Prefixes ?t ! i = p" for i
    by (rule search_values_eq(2) [OF s d le _ that]) (rule range)
  show ?thesis
  proof (cases "\<exists>e \<in> set es. ent_prefix e = ucast p")
    case False
    then have "p \<notin> set (vt_Prefixes ?t)" using eq by (auto simp: write_table_def)
    moreover have "registry_map es (ucast p) = None"
      using False by (auto simp: registry_map_def map_of_eq_None_iff)
    ultimately show ?thesis
      by (simp add: lookup_registry_def lo hi small none)
  next
    case True
    then obtain i where i: "i < length es" "ent_prefix (es ! i) = ucast p" by (metis in_set_conv_nth)
    then have pi: "i < length (vt_Prefixes ?t)" "vt_Prefixes ?t ! i = p"
      using eq [of "es ! i"] by (simp_all add: write_table_def)
    have "registry_map es (ucast p) = Some (ent_name (es ! i))"
      unfolding registry_map_def using sorted(2) i
      by (intro map_of_is_SomeI) (auto simp: comp_def image_iff intro!: bexI [of _ "es ! i"])
    moreover have ref: "i < length refs" "ref_ok names (ent_name (es ! i)) (refs ! i)"
      using refs i(1) by (auto simp: list_all2_conv_all_nth)
    moreover have "ent_name (es ! i) \<noteq> []" using ok(1) i(1) by (simp add: registry_ok_def)
    ultimately show ?thesis
      using some [OF pi] by (simp add: lookup_registry_def lo hi small nr vendorResult_ok found_def)
  qed
qed


section \<open>The first bits of an address\<close>

text \<open>The address as a 48-bit number; a prefix of \<open>n\<close> bits is what remains after dropping the others.\<close>

definition mac48 :: "MAC \<Rightarrow> u64" where
  "mac48 mac = (case mac of MAC m0 m1 m2 m3 m4 m5 \<Rightarrow>
     push_bit 40 (ucast m0) OR push_bit 32 (ucast m1) OR push_bit 24 (ucast m2) OR
     push_bit 16 (ucast m3) OR push_bit 8 (ucast m4) OR ucast m5)"

definition mac_prefix :: "nat \<Rightarrow> MAC \<Rightarrow> u64" where
  "mac_prefix bits mac = drop_bit (48 - bits) (mac48 mac)"

lemma bit_u8_high: "8 \<le> n \<Longrightarrow> \<not> bit (m :: u8) n"
  using bit_imp_le_length [of m n] by auto

lemma bit_u8_lt: "bit (m :: u8) n \<Longrightarrow> n < 8"
  using bit_u8_high not_less by blast

lemma bit_mac48:
  "bit (mac48 (MAC m0 m1 m2 m3 m4 m5)) n =
     (if n < 8 then bit m5 n else if n < 16 then bit m4 (n - 8) else if n < 24 then bit m3 (n - 16)
      else if n < 32 then bit m2 (n - 24) else if n < 40 then bit m1 (n - 32) else bit m0 (n - 40))"
  by (auto simp: mac48_def bit_simps bit_u8_high) (auto dest!: bit_u8_lt)

lemma bit_prefix36:
  "bit (prefix36 (MAC m0 m1 m2 m3 m4 m5)) n =
     (if n < 4 then bit m4 (n + 4) else if n < 12 then bit m3 (n - 4)
      else if n < 20 then bit m2 (n - 12) else if n < 28 then bit m1 (n - 20) else bit m0 (n - 28))"
  by (auto simp: prefix36_def bit_simps bit_u8_high ac_simps) (auto dest!: bit_u8_lt)

lemma bit_prefix28:
  "bit (prefix28 (MAC m0 m1 m2 m3 m4 m5)) n =
     (if n < 4 then bit m3 (n + 4) 
      else if n < 12 then bit m2 (n - 4) else if n < 20 then bit m1 (n - 12) else bit m0 (n - 20))"
  by (auto simp: prefix28_def bit_simps bit_u8_high ac_simps) (auto dest!: bit_u8_lt)

lemma bit_prefix24:
  "bit (prefix24 (MAC m0 m1 m2 m3 m4 m5)) n =
     (if n < 8 then bit m2 n else if n < 16 then bit m1 (n - 8) else bit m0 (n - 16))"
  by (auto simp: prefix24_def bit_simps bit_u8_high) (auto dest!: bit_u8_lt)

lemma prefix36_eq: "prefix36 mac = mac_prefix 36 mac"
proof (cases mac)
  case (MAC m0 m1 m2 m3 m4 m5)
  show ?thesis
  proof (rule bit_word_eqI)
    fix n :: nat
    have e: "n + 12 - 8 = n + 4" "n + 12 - 16 = n - 4" "n + 12 - 24 = n - 12" "n + 12 - 32 = n - 20" "n + 12 - 40 = n - 28" by auto
    show "bit (prefix36 mac) n = bit (mac_prefix 36 mac) n"
      unfolding MAC bit_prefix36 by (simp add: mac_prefix_def bit_drop_bit_eq bit_mac48 add.commute [of 12] e)
  qed
qed

lemma ucast_prefix28: "ucast (prefix28 mac) = mac_prefix 28 mac"
proof (cases mac)
  case (MAC m0 m1 m2 m3 m4 m5)
  show ?thesis
  proof (rule bit_word_eqI)
    fix n :: nat assume "n < LENGTH(64)"
    have e: "n + 20 - 16 = n + 4" "n + 20 - 24 = n - 4" "n + 20 - 32 = n - 12" "n + 20 - 40 = n - 20" by auto
    show "bit (ucast (prefix28 mac) :: u64) n = bit (mac_prefix 28 mac) n"
      unfolding MAC bit_ucast_iff bit_prefix28
      using \<open>n < LENGTH(64)\<close> by (simp add: mac_prefix_def bit_drop_bit_eq bit_mac48 add.commute [of 20] e)
  qed
qed

lemma ucast_prefix24: "ucast (prefix24 mac) = mac_prefix 24 mac"
proof (cases mac)
  case (MAC m0 m1 m2 m3 m4 m5)
  show ?thesis
  proof (rule bit_word_eqI)
    fix n :: nat assume "n < LENGTH(64)"
    have e: "n + 24 - 24 = n" "n + 24 - 32 = n - 8" "n + 24 - 40 = n - 16" by auto
    show "bit (ucast (prefix24 mac) :: u64) n = bit (mac_prefix 24 mac) n"
      unfolding MAC bit_ucast_iff bit_prefix24
      using \<open>n < LENGTH(64)\<close> by (simp add: mac_prefix_def bit_drop_bit_eq bit_mac48 add.commute [of 24] e)
  qed
qed

lemma unat_less_bits: "(\<And>n. bit w n \<Longrightarrow> n < k) \<Longrightarrow> unat (w :: 'a :: len word) < 2 ^ k"
proof -
  assume "\<And>n. bit w n \<Longrightarrow> n < k"
  then have "take_bit k w = w" by (intro bit_eqI) (auto simp: bit_simps)
  then have "unat w = take_bit k (unat w)" by (metis unsigned_take_bit_eq)
  then show ?thesis by (metis take_bit_nat_less_exp)
qed

lemma prefix_less:
  "unat (prefix36 mac) < 2 ^ 36" "unat (prefix28 mac) < 2 ^ 28" "unat (prefix24 mac) < 2 ^ 24"
proof -
  obtain m0 m1 m2 m3 m4 m5 where m: "mac = MAC m0 m1 m2 m3 m4 m5" by (cases mac)
  show "unat (prefix36 mac) < 2 ^ 36"
    by (rule unat_less_bits, rule ccontr) (simp add: m bit_prefix36 bit_u8_high)
  show "unat (prefix28 mac) < 2 ^ 28"
    by (rule unat_less_bits, rule ccontr) (simp add: m bit_prefix28 bit_u8_high)
  show "unat (prefix24 mac) < 2 ^ 24"
    by (rule unat_less_bits, rule ccontr) (simp add: m bit_prefix24 bit_u8_high)
qed

lemma bucket_u32: "bucket_of bits (ucast (p :: u32)) = unat (drop_bit (bits - 12) p)"
proof -
  have "unat (ucast p :: u64) = unat p"
    by (simp only: unsigned_ucast_eq) (rule take_bit_nat_eq_self, rule less_trans [OF unsigned_less], simp)
  then show ?thesis by (simp add: bucket_of_def unat_drop_bit)
qed

section \<open>The whole pipeline\<close>

definition longest_prefix :: "oui_entry list \<Rightarrow> oui_entry list \<Rightarrow> oui_entry list \<Rightarrow> MAC \<Rightarrow> MACVendorResult" where
  "longest_prefix es24 es28 es36 mac =
     (case registry_map es36 (mac_prefix 36 mac) of
        Some name \<Rightarrow> found 36 MACVendorIEEEMAS name
      | None \<Rightarrow> (case registry_map es28 (mac_prefix 28 mac) of
          Some name \<Rightarrow> found 28 MACVendorIEEEMAM name
        | None \<Rightarrow> (case registry_map es24 (mac_prefix 24 mac) of
            Some name \<Rightarrow> found 24 MACVendorIEEEMAL name
          | None \<Rightarrow> no_vendor)))"

lemma list_all2_ref_ok_append:
  "list_all2 (\<lambda>e r. ref_ok names (ent_name e) r) es refs \<Longrightarrow>
   list_all2 (\<lambda>e r. ref_ok (names @ suffix') (ent_name e) r) es refs"
  by (rule list_all2_mono [where P = "\<lambda>e r. ref_ok names (ent_name e) r"]) (auto intro: ref_ok_append)

lemma generate_tables:
  assumes "generate trim mal mam mas = Inr data"
    and "readRegistry trim 24 mal = Inr es24" "readRegistry trim 28 mam = Inr es28" "readRegistry trim 36 mas = Inr es36"
  obtains refs24 refs28 refs36 where
    "vd_24 data = write_table 24 es24 refs24" "vd_28 data = write_table 28 es28 refs28"
    "vd_36 data = write_table 36 es36 refs36"
    "list_all2 (\<lambda>e r. ref_ok (vd_NameData data) (ent_name e) r) es24 refs24"
    "list_all2 (\<lambda>e r. ref_ok (vd_NameData data) (ent_name e) r) es28 refs28"
    "list_all2 (\<lambda>e r. ref_ok (vd_NameData data) (ent_name e) r) es36 refs36"
proof -
  obtain refs24 refs28 refs36 a1 a2 a3 where
    i: "intern_names es24 ([], Map.empty) = Inr (refs24, a1)" "intern_names es28 a1 = Inr (refs28, a2)"
      "intern_names es36 a2 = Inr (refs36, a3)"
    and data: "data = \<lparr>vd_NameData = fst a3, vd_24 = write_table 24 es24 refs24,
       vd_28 = write_table 28 es28 refs28, vd_36 = write_table 36 es36 refs36\<rparr>"
    using assms by (auto simp: generate_def split: sum.splits prod.splits)
  have "arena_ok ([], Map.empty)" by (simp add: arena_ok_def)
  note i1 = intern_names_ok [OF this i(1)]
  note i2 = intern_names_ok [OF i1 [THEN conjunct1] i(2)]
  note i3 = intern_names_ok [OF i2 [THEN conjunct1] i(3)]
  from i1 i2 i3 data show ?thesis
    by (intro that [of refs24 refs28 refs36]) (auto intro!: list_all2_ref_ok_append simp flip: append_assoc)
qed

text \<open>
  (C26) From the registries to the answer: if the generator accepts three registries, each of fewer than
  65536 assignments, then looking up any address in the tables it writes gives the organization of the
  longest registered prefix of the address, with its length and registry; the zero address, multicast
  and locally administered addresses are answered without the tables. In particular no index leaves its
  table, every bucket boundary is right and every packed name reference yields the whole name.
\<close>

theorem generate_LookupMACVendor:
  assumes "generate trim mal mam mas = Inr data"
    and "readRegistry trim 24 mal = Inr es24" "readRegistry trim 28 mam = Inr es28" "readRegistry trim 36 mas = Inr es36"
    and "length es24 < 65536" "length es28 < 65536" "length es36 < 65536"
  shows "LookupMACVendor data mac =
    Some (if IsZero mac then no_vendor
          else if IsMulticast mac then no_vendor\<lparr>ven_Source := MACVendorMulticast\<rparr>
          else if mac_bytes mac ! 0 AND 0x02 \<noteq> 0 then no_vendor\<lparr>ven_Source := MACVendorLocallyAdministered\<rparr>
          else longest_prefix es24 es28 es36 mac)"
proof -
  obtain refs24 refs28 refs36 where
    t: "vd_24 data = write_table 24 es24 refs24" "vd_28 data = write_table 28 es28 refs28"
      "vd_36 data = write_table 36 es36 refs36"
    and r: "list_all2 (\<lambda>e r. ref_ok (vd_NameData data) (ent_name e) r) es24 refs24"
      "list_all2 (\<lambda>e r. ref_ok (vd_NameData data) (ent_name e) r) es28 refs28"
      "list_all2 (\<lambda>e r. ref_ok (vd_NameData data) (ent_name e) r) es36 refs36"
    using generate_tables [OF assms(1-4)] by metis
  have ok: "registry_ok 24 es24" "registry_ok 28 es28" "registry_ok 36 es36"
    using assms(2-4) by (auto intro: readRegistry_ok)
  have l36: "lookup_registry (vd_NameData data) (vd_36 data) (prefix36 mac) (unat (drop_bit 24 (prefix36 mac))) 36 MACVendorIEEEMAS =
      Some (map_option (found 36 MACVendorIEEEMAS) (registry_map es36 (mac_prefix 36 mac)))"
    unfolding t using lookup_registry_generated [OF ok(3) _ assms(7) _ _ r(3) _ refl, of "prefix36 mac"] prefix_less [of mac]
    by (simp add: bucket_of_def prefix36_eq)
  have l28: "lookup_registry (vd_NameData data) (vd_28 data) (prefix28 mac) (unat (drop_bit 16 (prefix28 mac))) 28 MACVendorIEEEMAM =
      Some (map_option (found 28 MACVendorIEEEMAM) (registry_map es28 (mac_prefix 28 mac)))"
    unfolding t using lookup_registry_generated [OF ok(2) _ assms(6) _ _ r(2) _ bucket_u32 [symmetric], of "prefix28 mac"] prefix_less [of mac]
    by (simp add: ucast_prefix28)
  have l24: "lookup_registry (vd_NameData data) (vd_24 data) (prefix24 mac) (unat (drop_bit 12 (prefix24 mac))) 24 MACVendorIEEEMAL =
      Some (map_option (found 24 MACVendorIEEEMAL) (registry_map es24 (mac_prefix 24 mac)))"
    unfolding t using lookup_registry_generated [OF ok(1) _ assms(5) _ _ r(1) _ bucket_u32 [symmetric], of "prefix24 mac"] prefix_less [of mac]
    by (simp add: ucast_prefix24)
  show ?thesis
    by (simp add: LookupMACVendor_def l36 l28 l24 longest_prefix_def split: option.splits)
qed

definition sample_row :: "bytes \<Rightarrow> bytes \<Rightarrow> string + bytes list" where
  "sample_row assignment name = Inr [[0x4d], assignment, name]"

lemma generate_LookupMACVendor_witness:
  "\<exists>data. generate (\<lambda>s. s) [sample_row [] [], sample_row [0x30, 0x30, 0x30, 0x30, 0x30, 0x43] [0x43]]
     [sample_row [] []] [sample_row [] []] = Inr data \<and>
   LookupMACVendor data (MAC 0x00 0x00 0x0c 1 2 3) = Some (found 24 MACVendorIEEEMAL [0x43])"
proof -
  let ?mal = "[sample_row [] [], sample_row [0x30, 0x30, 0x30, 0x30, 0x30, 0x43] [0x43]]"
  let ?es = "[\<lparr>ent_prefix = 0x0c, ent_name = [0x43]\<rparr>]"
  have p: "ParseUint16 [0x30, 0x30, 0x30, 0x30, 0x30, 0x43] 24 = Some 0x0c"
    by (simp add: ParseUint16_def hex_digit_def)
  have r: "readRegistry (\<lambda>s. s) 24 ?mal = Inr ?es" "readRegistry (\<lambda>s. s) 28 [sample_row [] []] = Inr []"
    "readRegistry (\<lambda>s. s) 36 [sample_row [] []] = Inr []"
    by (simp_all add: readRegistry_def sample_row_def sorted_entries_def p)
  obtain data where d: "generate (\<lambda>s. s) ?mal [sample_row [] []] [sample_row [] []] = Inr data"
    by (simp add: generate_def r Let_def)
  have "longest_prefix ?es [] [] (MAC 0x00 0x00 0x0c 1 2 3) = found 24 MACVendorIEEEMAL [0x43]"
    by code_simp
  moreover have "\<not> IsZero (MAC 0x00 0x00 0x0c 1 2 3)" "\<not> IsMulticast (MAC 0x00 0x00 0x0c 1 2 3)"
    "mac_bytes (MAC 0x00 0x00 0x0c 1 2 3) ! 0 AND 0x02 = 0"
    by code_simp+
  ultimately show ?thesis
    using d generate_LookupMACVendor [OF d r, of "MAC 0x00 0x00 0x0c 1 2 3"] by simp
qed

end
