(* ===== verification/Clone.thy ===== *)
theory Clone
  imports Utils
begin

text \<open>
  The deep copies of \<open>pkg/omnidiscover/clone.go\<close>, which move an observation out of the fused model
  into storage the consumer owns, reusing whatever that storage held before.

  The elements of \<open>Values\<close> are overwritten in all five fields, so the contents of reused or fresh
  elements beyond the old length do not matter; they are zero values here.
\<close>

section \<open>The code\<close>

definition zero_text :: TextValue where
  "zero_text = \<lparr>tv_Value = [], tv_Protocols = 0, tv_Confidence = 0, tv_FirstSeen = 0, tv_LastSeen = 0\<rparr>"

definition clone_value :: "TextValue \<Rightarrow> TextValue \<Rightarrow> TextValue" where
  "clone_value dst src =
     dst\<lparr>tv_Value := copyBytes (tv_Value dst) (tv_Value src),
         tv_Protocols := tv_Protocols src,
         tv_Confidence := tv_Confidence src,
         tv_FirstSeen := tv_FirstSeen src,
         tv_LastSeen := tv_LastSeen src\<rparr>"

definition cloneTextFieldInto :: "TextField \<Rightarrow> TextField \<Rightarrow> TextField" where
  "cloneTextFieldInto dst src =
     (let n = length (Values src);
          vs = map (\<lambda>v. v\<lparr>tv_Value := []\<rparr>) (Values dst);
          vs = take n (vs @ replicate n zero_text)
      in dst\<lparr>Values := map2 clone_value vs (Values src), Canonical := Canonical src\<rparr>)"

definition clone_service :: "Service \<Rightarrow> Service \<Rightarrow> Service" where
  "clone_service ds ss =
     ds\<lparr>svc_Instance := copyBytes (svc_Instance ds) (svc_Instance ss),
        svc_Type := copyBytes (svc_Type ds) (svc_Type ss),
        svc_Domain := copyBytes (svc_Domain ds) (svc_Domain ss),
        svc_Host := copyBytes (svc_Host ds) (svc_Host ss),
        svc_Port := svc_Port ss,
        svc_TXT := copyBytes (svc_TXT ds) (svc_TXT ss),
        svc_Addresses := svc_Addresses ss,
        svc_Protocols := svc_Protocols ss,
        svc_ExpiresAt := svc_ExpiresAt ss\<rparr>"

definition clone_services :: "Service slab \<Rightarrow> Service slab \<Rightarrow> Service slab" where
  "clone_services dst src =
     (let d = slab_resize (length (live src)) zero_service (dst\<lparr>live := map truncate_service (live dst)\<rparr>)
      in d\<lparr>live := map2 clone_service (live d) (live src)\<rparr>)"

definition cloneDeviceInto :: "DiscoveredDevice \<Rightarrow> DiscoveredDevice ptr \<Rightarrow> DiscoveredDevice" where
  "cloneDeviceInto dst p =
     (case p of
        None \<Rightarrow> Device_Reset dst
      | Some src \<Rightarrow>
          dst\<lparr>dev_Key := dev_Key src,
              dev_ObservedMACs := dev_ObservedMACs src,
              dev_ClaimedMACs := dev_ClaimedMACs src,
              dev_Addresses := dev_Addresses src,
              dev_SystemName := cloneTextFieldInto (dev_SystemName dst) (dev_SystemName src),
              dev_HostName := cloneTextFieldInto (dev_HostName dst) (dev_HostName src),
              dev_ProtocolDeviceID := cloneTextFieldInto (dev_ProtocolDeviceID dst) (dev_ProtocolDeviceID src),
              dev_Vendor := cloneTextFieldInto (dev_Vendor dst) (dev_Vendor src),
              dev_Model := cloneTextFieldInto (dev_Model dst) (dev_Model src),
              dev_Platform := cloneTextFieldInto (dev_Platform dst) (dev_Platform src),
              dev_SoftwareVersion := cloneTextFieldInto (dev_SoftwareVersion dst) (dev_SoftwareVersion src),
              dev_Uptime := dev_Uptime src,
              dev_Capabilities := dev_Capabilities src,
              dev_Services := clone_services (dev_Services dst) (dev_Services src),
              dev_Protocols := dev_Protocols src,
              dev_Class := copyBytes (dev_Class dst) (dev_Class src),
              dev_MatchedRule := copyBytes (dev_MatchedRule dst) (dev_MatchedRule src),
              dev_FirstSeen := dev_FirstSeen src,
              dev_LastSeen := dev_LastSeen src\<rparr>)"

definition clone_identifier :: "Identifier \<Rightarrow> Identifier \<Rightarrow> Identifier" where
  "clone_identifier dst src =
     dst\<lparr>id_Subtype := id_Subtype src, id_Value := copyBytes (id_Value dst) (id_Value src)\<rparr>"

definition cloneLinkInto :: "DiscoveredLink \<Rightarrow> DiscoveredLink ptr \<Rightarrow> DiscoveredLink" where
  "cloneLinkInto dst p =
     (case p of
        None \<Rightarrow> resetLink dst
      | Some src \<Rightarrow>
          dst\<lparr>link_Key := link_Key src,
              link_Kind := link_Kind src,
              link_LocalInterface := copyBytes (link_LocalInterface dst) (link_LocalInterface src),
              link_Device := link_Device src,
              link_ObservedSourceMAC := link_ObservedSourceMAC src,
              link_RemoteChassis := clone_identifier (link_RemoteChassis dst) (link_RemoteChassis src),
              link_RemotePort := clone_identifier (link_RemotePort dst) (link_RemotePort src),
              link_RemoteInterface := cloneTextFieldInto (link_RemoteInterface dst) (link_RemoteInterface src),
              link_VLANs := link_VLANs src,
              link_Protocols := link_Protocols src,
              link_TTL := link_TTL src,
              link_ExpiresAt := link_ExpiresAt src,
              link_FirstSeen := link_FirstSeen src,
              link_LastSeen := link_LastSeen src\<rparr>)"

definition cloneEventInto :: "Event \<Rightarrow> EventView \<Rightarrow> Event" where
  "cloneEventInto dst src =
     dst\<lparr>ev_Kind := view_Kind src,
         ev_Changed := view_Changed src,
         ev_Device := cloneDeviceInto (ev_Device dst) (view_Device src),
         ev_Link := cloneLinkInto (ev_Link dst) (view_Link src)\<rparr>"

section \<open>A copy shows what the original shows\<close>

text \<open>What a consumer sees of a device: everything but the spare capacity of its service list.\<close>

definition shown :: "DiscoveredDevice \<Rightarrow> DiscoveredDevice" where
  "shown d = d\<lparr>dev_Services := slab_of (live (dev_Services d))\<rparr>"

lemma clone_value_eq: "clone_value dst src = src"
  by (simp add: clone_value_def)

lemma map2_const:
  "length xs = length ys \<Longrightarrow> (\<And>x y. f x y = y) \<Longrightarrow> map2 f xs ys = ys"
  by (induction xs ys rule: list_induct2) auto

lemma cloneTextFieldInto_eq [simp]: "cloneTextFieldInto dst src = src"
  by (simp add: cloneTextFieldInto_def Let_def map2_const clone_value_eq)

lemma clone_service_eq: "clone_service dst src = src"
  by (simp add: clone_service_def)

lemma live_clone_services [simp]: "live (clone_services dst src) = live src"
  by (simp add: clone_services_def Let_def map2_const clone_service_eq)

lemma clone_identifier_eq [simp]: "clone_identifier dst src = src"
  by (simp add: clone_identifier_def)

lemma cloneDeviceInto_eq:
  "cloneDeviceInto dst (Some src) = src\<lparr>dev_Services := clone_services (dev_Services dst) (dev_Services src)\<rparr>"
  by (simp add: cloneDeviceInto_def)

lemma shown_cloneDeviceInto [simp]: "shown (cloneDeviceInto dst (Some src)) = shown src"
  by (simp add: cloneDeviceInto_eq shown_def)

lemma dev_Key_clone [simp]: "dev_Key (cloneDeviceInto dst (Some src)) = dev_Key src"
  by (simp add: cloneDeviceInto_eq)

lemma cloneLinkInto_eq [simp]: "cloneLinkInto dst (Some src) = src"
  by (simp add: cloneLinkInto_def)

lemma shown_Device_Reset: "shown (Device_Reset d) = zero_device"
  by (simp add: shown_def Device_Reset_zero zero_device_def slab_of_def slab_empty_def)

text \<open>
  Cloning an event view into owned storage gives exactly what the view shows, whatever the storage
  held before: kind, changed fields, and every field of the device and the link, or their zero values
  where the view has none. Nothing of the previous event survives.
\<close>

lemma cloneEventInto_shows:
  "ev_Kind (cloneEventInto dst view) = view_Kind view \<and>
   ev_Changed (cloneEventInto dst view) = view_Changed view \<and>
   shown (ev_Device (cloneEventInto dst view)) =
     (case view_Device view of None \<Rightarrow> zero_device | Some d \<Rightarrow> shown d) \<and>
   ev_Link (cloneEventInto dst view) = (case view_Link view of None \<Rightarrow> zero_link | Some l \<Rightarrow> l)"
proof -
  have "shown (cloneDeviceInto d None) = zero_device" for d
    by (simp add: cloneDeviceInto_def shown_Device_Reset)
  moreover have "cloneLinkInto l None = zero_link" for l
    by (simp add: cloneLinkInto_def resetLink_zero)
  ultimately show ?thesis by (simp add: cloneEventInto_def split: option.splits)
qed

end
