(* ===== verification/Config.thy ===== *)
theory Config
  imports Protocol NetAddr
begin

text \<open>
  The model of \<open>pkg/omnidiscover/config.go\<close>: the limits and defaults of an engine and their
  validation. Go's \<open>int\<close> fields are integers; \<open>runtime.GOOS\<close> is the parameter \<open>goos\<close>. The classification
  rules are the type parameter of the record, because the rule type belongs to the classifier.
\<close>

definition DefaultMaxDevices :: int where "DefaultMaxDevices = 4096"
definition DefaultMaxLinks :: int where "DefaultMaxLinks = 8192"
definition DefaultMaxDNSRecords :: int where "DefaultMaxDNSRecords = 16384"
definition DefaultMaxAlternatives :: int where "DefaultMaxAlternatives = 4"
definition DefaultProtocolQueue :: int where "DefaultProtocolQueue = 256"
definition DefaultPendingEvents :: int where "DefaultPendingEvents = 1024"
definition DefaultMaxFrameSize :: int where "DefaultMaxFrameSize = 9216"
definition DefaultMNDPIdleTTL :: Duration where "DefaultMNDPIdleTTL = 180 * Second"
definition DefaultTimingWheelSlots :: int where "DefaultTimingWheelSlots = 512"
definition DefaultMaxClassification :: nat where "DefaultMaxClassification = 256"
definition DefaultMaxRegexRules :: int where "DefaultMaxRegexRules = 128"
definition DefaultMaxRegexPatternSize :: nat where "DefaultMaxRegexPatternSize = 1024"

lemmas default_defs =
  DefaultMaxDevices_def DefaultMaxLinks_def DefaultMaxDNSRecords_def DefaultMaxAlternatives_def
  DefaultProtocolQueue_def DefaultPendingEvents_def DefaultMaxFrameSize_def DefaultMNDPIdleTTL_def
  DefaultTimingWheelSlots_def

record 'rule Config =
  cfg_Interfaces :: "string list"
  cfg_Protocols :: ProtocolSet
  cfg_MaxDevices :: int
  cfg_MaxLinks :: int
  cfg_MaxDNSRecords :: int
  cfg_MaxAlternatives :: int
  cfg_ProtocolQueue :: int
  cfg_PendingEvents :: int
  cfg_MaxFrameSize :: int
  cfg_MNDPIdleTTL :: Duration
  cfg_TimingWheelSlots :: int
  cfg_Rules :: "'rule list"
  cfg_IncludeLoopback :: bool

datatype config_error =
  UnknownProtocolBits ProtocolSet
| UnsupportedProtocolsError string ProtocolSet
| MaxFrameSizeError | CacheLimitsError | MaxAlternativesError

text \<open>\<open>if x <= 0 { x = default }\<close>\<close>

definition or_default :: "int \<Rightarrow> int \<Rightarrow> int" where
  "or_default x d = (if x \<le> 0 then d else x)"

definition withDefaults :: "string \<Rightarrow> 'rule Config \<Rightarrow> 'rule Config" where
  "withDefaults goos c =
     c\<lparr>cfg_Protocols :=
         (if cfg_Protocols c = 0
          then if goos = ''windows'' then ProtocolsMNDP OR ProtocolsMDNS else ProtocolsAll
          else cfg_Protocols c),
       cfg_MaxDevices := or_default (cfg_MaxDevices c) DefaultMaxDevices,
       cfg_MaxLinks := or_default (cfg_MaxLinks c) DefaultMaxLinks,
       cfg_MaxDNSRecords := or_default (cfg_MaxDNSRecords c) DefaultMaxDNSRecords,
       cfg_MaxAlternatives := or_default (cfg_MaxAlternatives c) DefaultMaxAlternatives,
       cfg_ProtocolQueue := or_default (cfg_ProtocolQueue c) DefaultProtocolQueue,
       cfg_PendingEvents := or_default (cfg_PendingEvents c) DefaultPendingEvents,
       cfg_MaxFrameSize := or_default (cfg_MaxFrameSize c) DefaultMaxFrameSize,
       cfg_MNDPIdleTTL := or_default (cfg_MNDPIdleTTL c) DefaultMNDPIdleTTL,
       cfg_TimingWheelSlots := or_default (cfg_TimingWheelSlots c) DefaultTimingWheelSlots\<rparr>"

definition validate :: "string \<Rightarrow> 'rule Config \<Rightarrow> config_error option" where
  "validate goos c =
     (if cfg_Protocols c AND NOT ProtocolsAll \<noteq> 0
      then Some (UnknownProtocolBits (cfg_Protocols c AND NOT ProtocolsAll))
      else if goos = ''windows'' \<and> cfg_Protocols c AND (ProtocolsLLDP OR ProtocolsCDP) \<noteq> 0
      then Some (UnsupportedProtocolsError goos (cfg_Protocols c AND (ProtocolsLLDP OR ProtocolsCDP)))
      else if cfg_MaxFrameSize c < 512 \<or> cfg_MaxFrameSize c > 65535 then Some MaxFrameSizeError
      else if cfg_MaxDevices c < 1 \<or> cfg_MaxLinks c < 1 \<or> cfg_MaxDNSRecords c < 1 then Some CacheLimitsError
      else if cfg_MaxAlternatives c < 1 \<or> cfg_MaxAlternatives c > 32 then Some MaxAlternativesError
      else None)"

text \<open>What the rest of the code relies on.\<close>

definition config_ok :: "'rule Config \<Rightarrow> bool" where
  "config_ok c =
     (1 \<le> cfg_MaxDevices c \<and> 1 \<le> cfg_MaxLinks c \<and> 1 \<le> cfg_MaxDNSRecords c \<and>
      1 \<le> cfg_MaxAlternatives c \<and> cfg_MaxAlternatives c \<le> 32 \<and> 1 \<le> cfg_TimingWheelSlots c)"

lemma config_ok_accepted: "validate goos (withDefaults goos c) = None \<Longrightarrow> config_ok (withDefaults goos c)"
  by (auto simp: validate_def config_ok_def withDefaults_def or_default_def default_defs Second_def split: if_splits)

lemma config_error_iff:
  "(\<exists>e. validate goos (withDefaults goos c) = Some e) \<longleftrightarrow>
     cfg_Protocols c AND NOT ProtocolsAll \<noteq> 0 \<or>
     goos = ''windows'' \<and> cfg_Protocols c AND (ProtocolsLLDP OR ProtocolsCDP) \<noteq> 0 \<or>
     0 < cfg_MaxFrameSize c \<and> cfg_MaxFrameSize c < 512 \<or> cfg_MaxFrameSize c > 65535 \<or> cfg_MaxAlternatives c > 32"
  by (cases "cfg_Protocols c = 0")
     (auto simp: validate_def withDefaults_def or_default_def default_defs Second_def ProtocolsAll_def protocol_set_defs)

text \<open>
  What configurations are accepted: after the defaults, validation fails exactly for unknown
  protocol bits, link-layer protocols on Windows, a frame size that is set below 512 or above 65535, or
  more than 32 alternatives; a negative or missing limit is replaced instead. Every accepted
  configuration has positive cache limits and wheel slots and 1 to 32 alternatives.
\<close>

lemma validate_withDefaults:
  "(case validate goos (withDefaults goos c) of
      Some e \<Rightarrow>
        cfg_Protocols c AND NOT ProtocolsAll \<noteq> 0 \<or>
        goos = ''windows'' \<and> cfg_Protocols c AND (ProtocolsLLDP OR ProtocolsCDP) \<noteq> 0 \<or>
        0 < cfg_MaxFrameSize c \<and> cfg_MaxFrameSize c < 512 \<or> cfg_MaxFrameSize c > 65535 \<or> cfg_MaxAlternatives c > 32
    | None \<Rightarrow>
        config_ok (withDefaults goos c) \<and>
        cfg_Protocols c AND NOT ProtocolsAll = 0 \<and>
        (cfg_MaxFrameSize c \<le> 0 \<or> 512 \<le> cfg_MaxFrameSize c \<and> cfg_MaxFrameSize c \<le> 65535) \<and>
        cfg_MaxAlternatives c \<le> 32)"
  using config_error_iff [of goos c] config_ok_accepted [of goos c]
  by (auto split: option.splits)

end
