(* ===== verification/Classifier.thy ===== *)
theory Classifier
  imports Utils Config "HOL-Library.Product_Lexorder"
begin

text \<open>
  The model of \<open>pkg/omnidiscover/classifier.go\<close>: rules are compiled once, sorted by precedence and
  indexed by the observed protocols; classifying a device returns the first rule that applies.

  \<open>regexp.Compile\<close> is the parameter \<open>re_compile\<close> from a pattern to the predicate its \<open>Match\<close> computes,
  or nothing where it fails; nothing is assumed about it. Go strings are byte lists here.
\<close>

section \<open>Rules\<close>

type_synonym MatchField = u8
type_synonym MatchOp = u8

definition MatchFieldProtocol :: MatchField where "MatchFieldProtocol = 1"
definition MatchFieldObservedMAC :: MatchField where "MatchFieldObservedMAC = 2"
definition MatchFieldAddress :: MatchField where "MatchFieldAddress = 3"
definition MatchFieldCapabilities :: MatchField where "MatchFieldCapabilities = 4"
definition MatchFieldSystemName :: MatchField where "MatchFieldSystemName = 5"
definition MatchFieldHostName :: MatchField where "MatchFieldHostName = 6"
definition MatchFieldDeviceID :: MatchField where "MatchFieldDeviceID = 7"
definition MatchFieldModel :: MatchField where "MatchFieldModel = 8"
definition MatchFieldPlatform :: MatchField where "MatchFieldPlatform = 9"
definition MatchFieldSoftwareVersion :: MatchField where "MatchFieldSoftwareVersion = 10"
definition MatchFieldServiceInstance :: MatchField where "MatchFieldServiceInstance = 11"
definition MatchFieldServiceType :: MatchField where "MatchFieldServiceType = 12"
definition MatchFieldServiceTXT :: MatchField where "MatchFieldServiceTXT = 13"

lemmas match_field_defs =
  MatchFieldProtocol_def MatchFieldObservedMAC_def MatchFieldAddress_def MatchFieldCapabilities_def
  MatchFieldSystemName_def MatchFieldHostName_def MatchFieldDeviceID_def MatchFieldModel_def
  MatchFieldPlatform_def MatchFieldSoftwareVersion_def MatchFieldServiceInstance_def
  MatchFieldServiceType_def MatchFieldServiceTXT_def

definition MatchExact :: MatchOp where "MatchExact = 1"
definition MatchRegex :: MatchOp where "MatchRegex = 2"
definition MatchProtocol :: MatchOp where "MatchProtocol = 3"
definition MatchMACPrefix :: MatchOp where "MatchMACPrefix = 4"
definition MatchIPPrefix :: MatchOp where "MatchIPPrefix = 5"
definition MatchCapabilityAll :: MatchOp where "MatchCapabilityAll = 6"

lemmas match_op_defs =
  MatchExact_def MatchRegex_def MatchProtocol_def MatchMACPrefix_def MatchIPPrefix_def MatchCapabilityAll_def

record MACPrefix =
  mp_Address :: MAC
  mp_Bits :: u8

record Predicate =
  pr_Field :: MatchField
  pr_Op :: MatchOp
  pr_Value :: bytes
  pr_Pattern :: bytes
  pr_Protocol :: ProtocolSet
  pr_MACPrefix :: MACPrefix
  pr_IPPrefix :: Prefix
  pr_Capability :: u64
  pr_FoldASCII :: bool

record Rule =
  rule_Name :: bytes
  rule_Class :: bytes
  rule_Priority :: int
  rule_All :: "Predicate list"
  rule_Any :: "Predicate list"
  rule_None :: "Predicate list"

record compiledPredicate = Predicate +
  cp_exact :: bytes
  cp_re :: "(bytes \<Rightarrow> bool) ptr"

record compiledRule =
  cr_name :: bytes
  cr_class :: bytes
  cr_priority :: int
  cr_specificity :: nat
  cr_order :: nat
  cr_all :: "compiledPredicate list"
  cr_any :: "compiledPredicate list"
  cr_none :: "compiledPredicate list"
  cr_required :: u16

record Classifier =
  cl_rules :: "compiledRule list"
  cl_protocolCandidates :: "u64 list list"

section \<open>Compilation\<close>

datatype classifier_error =
  TooManyRules | RuleWithoutName nat | ExactNeedsTextField | RegexNeedsTextField | RegexLength
| TooManyRegexes | RegexSyntax | ProtocolNeedsField | InvalidProtocolSet | MACNeedsField
| MACPrefixTooLong | IPNeedsField | InvalidIPPrefix | CapabilityNeedsField | EmptyCapability
| InvalidOperation MatchOp

definition predicateCost :: "MatchOp \<Rightarrow> nat" where
  "predicateCost op =
     (if op = MatchProtocol \<or> op = MatchCapabilityAll then 0
      else if op = MatchExact then 1
      else if op = MatchMACPrefix \<or> op = MatchIPPrefix then 2
      else if op = MatchRegex then 3
      else 4)"

definition isTextField :: "MatchField \<Rightarrow> bool" where
  "isTextField f = (f \<ge> MatchFieldSystemName \<and> f \<le> MatchFieldServiceTXT)"

text \<open>One round of \<open>compilePredicates\<close>, with the number of regular expressions so far.\<close>

definition with_code :: "Predicate \<Rightarrow> bytes \<Rightarrow> (bytes \<Rightarrow> bool) ptr \<Rightarrow> compiledPredicate" where
  "with_code p exact re = Predicate.extend p \<lparr>cp_exact = exact, cp_re = re\<rparr>"

definition compilePredicate ::
  "(bytes \<Rightarrow> (bytes \<Rightarrow> bool) option) \<Rightarrow> Predicate \<Rightarrow> int \<Rightarrow> classifier_error + compiledPredicate \<times> int" where
  "compilePredicate re_compile p regexCount =
     (let op = pr_Op p in
      if op = MatchExact then
        if \<not> isTextField (pr_Field p) then Inl ExactNeedsTextField
        else Inr (with_code p (pr_Value p) None, regexCount)
      else if op = MatchRegex then
        if \<not> isTextField (pr_Field p) then Inl RegexNeedsTextField
        else if pr_Pattern p = [] \<or> length (pr_Pattern p) > DefaultMaxRegexPatternSize then Inl RegexLength
        else if regexCount + 1 > DefaultMaxRegexRules then Inl TooManyRegexes
        else (case re_compile (pr_Pattern p) of
            None \<Rightarrow> Inl RegexSyntax
          | Some re \<Rightarrow> Inr (with_code p [] (Some re), regexCount + 1))
      else if op = MatchProtocol then
        if pr_Field p \<noteq> MatchFieldProtocol then Inl ProtocolNeedsField
        else if pr_Protocol p = 0 \<or> pr_Protocol p AND NOT ProtocolsAll \<noteq> 0 then Inl InvalidProtocolSet
        else Inr (with_code p [] None, regexCount)
      else if op = MatchMACPrefix then
        if pr_Field p \<noteq> MatchFieldObservedMAC then Inl MACNeedsField
        else if mp_Bits (pr_MACPrefix p) > 48 then Inl MACPrefixTooLong
        else Inr (with_code p [] None, regexCount)
      else if op = MatchIPPrefix then
        if pr_Field p \<noteq> MatchFieldAddress then Inl IPNeedsField
        else if \<not> Prefix_IsValid (pr_IPPrefix p) then Inl InvalidIPPrefix
        else Inr (with_code p [] None, regexCount)
      else if op = MatchCapabilityAll then
        if pr_Field p \<noteq> MatchFieldCapabilities then Inl CapabilityNeedsField
        else if pr_Capability p = 0 then Inl EmptyCapability
        else Inr (with_code p [] None, regexCount)
      else Inl (InvalidOperation op))"

fun compile_loop ::
  "(bytes \<Rightarrow> (bytes \<Rightarrow> bool) option) \<Rightarrow> Predicate list \<Rightarrow> int \<Rightarrow> classifier_error + compiledPredicate list \<times> int" where
  "compile_loop re_compile [] regexCount = Inr ([], regexCount)"
| "compile_loop re_compile (p # ps) regexCount =
     (case compilePredicate re_compile p regexCount of
        Inl e \<Rightarrow> Inl e
      | Inr (cp, regexCount) \<Rightarrow>
          (case compile_loop re_compile ps regexCount of
             Inl e \<Rightarrow> Inl e
           | Inr (cps, regexCount) \<Rightarrow> Inr (cp # cps, regexCount)))"

text \<open>\<open>sort.SliceStable\<close> with the cost as the order: \<^const>\<open>sort_key\<close> is the stable sort by a key.\<close>

definition compilePredicates ::
  "(bytes \<Rightarrow> (bytes \<Rightarrow> bool) option) \<Rightarrow> Predicate list \<Rightarrow> int \<Rightarrow> classifier_error + compiledPredicate list \<times> int" where
  "compilePredicates re_compile ps regexCount =
     (case compile_loop re_compile ps regexCount of
        Inl e \<Rightarrow> Inl e
      | Inr (cps, regexCount) \<Rightarrow> Inr (sort_key (\<lambda>p. predicateCost (pr_Op p)) cps, regexCount))"

text \<open>\<open>for _, predicate := range cr.all\<close>: the text fields a rule cannot do without.\<close>

fun required_fields :: "compiledPredicate list \<Rightarrow> u16 \<Rightarrow> u16" where
  "required_fields [] acc = acc"
| "required_fields (p # ps) acc =
     required_fields ps (if isTextField (pr_Field p) then acc OR push_bit (unat (pr_Field p)) 1 else acc)"

definition compileRule ::
  "(bytes \<Rightarrow> (bytes \<Rightarrow> bool) option) \<Rightarrow> nat \<Rightarrow> Rule \<Rightarrow> int \<Rightarrow> classifier_error + compiledRule \<times> int" where
  "compileRule re_compile i r regexCount =
     (if rule_Name r = [] \<or> rule_Class r = [] then Inl (RuleWithoutName i)
      else (case compilePredicates re_compile (rule_All r) regexCount of Inl e \<Rightarrow> Inl e | Inr (all, regexCount) \<Rightarrow>
           (case compilePredicates re_compile (rule_Any r) regexCount of Inl e \<Rightarrow> Inl e | Inr (any, regexCount) \<Rightarrow>
           (case compilePredicates re_compile (rule_None r) regexCount of Inl e \<Rightarrow> Inl e | Inr (none, regexCount) \<Rightarrow>
              Inr (\<lparr>cr_name = rule_Name r, cr_class = rule_Class r, cr_priority = rule_Priority r,
                    cr_specificity = length (rule_All r) + length (rule_Any r) + length (rule_None r),
                    cr_order = i, cr_all = all, cr_any = any, cr_none = none,
                    cr_required = required_fields all 0\<rparr>, regexCount)))))"

fun compile_rules ::
  "(bytes \<Rightarrow> (bytes \<Rightarrow> bool) option) \<Rightarrow> nat \<Rightarrow> Rule list \<Rightarrow> int \<Rightarrow> classifier_error + compiledRule list" where
  "compile_rules re_compile i [] regexCount = Inr []"
| "compile_rules re_compile i (r # rs) regexCount =
     (case compileRule re_compile i r regexCount of
        Inl e \<Rightarrow> Inl e
      | Inr (cr, regexCount) \<Rightarrow>
          (case compile_rules re_compile (i + 1) rs regexCount of
             Inl e \<Rightarrow> Inl e
           | Inr crs \<Rightarrow> Inr (cr # crs)))"

text \<open>Higher priority first, then more predicates, then the order given.\<close>

definition precedence :: "compiledRule \<Rightarrow> int \<times> int \<times> nat" where
  "precedence r = (- cr_priority r, - int (cr_specificity r), cr_order r)"

text \<open>One row of the candidate index: bit \<open>i\<close> of the four words says whether rule \<open>i\<close> is possible.\<close>

fun protocol_possible :: "compiledPredicate list \<Rightarrow> ProtocolSet \<Rightarrow> bool" where
  "protocol_possible [] observed = True"
| "protocol_possible (p # ps) observed =
     (if pr_Op p = MatchProtocol \<and> observed AND pr_Protocol p = 0 then False
      else protocol_possible ps observed)"

fun candidate_row :: "compiledRule list \<Rightarrow> nat \<Rightarrow> ProtocolSet \<Rightarrow> u64 list \<Rightarrow> u64 list run" where
  "candidate_row [] i observed row = Some row"
| "candidate_row (r # rs) i observed row =
     (if protocol_possible (cr_all r) observed then do {
        w \<leftarrow> idx row (i div 64);
        row \<leftarrow> upd row (i div 64) (w OR push_bit (i mod 64) 1);
        candidate_row rs (i + 1) observed row
      }
      else candidate_row rs (i + 1) observed row)"

fun candidate_rows :: "compiledRule list \<Rightarrow> nat list \<Rightarrow> u64 list list run" where
  "candidate_rows rules [] = Some []"
| "candidate_rows rules (b # bs) = do {
     row \<leftarrow> candidate_row rules 0 (of_nat b) (replicate 4 0);
     rows \<leftarrow> candidate_rows rules bs;
     Some (row # rows)
   }"

definition CompileClassifier ::
  "(bytes \<Rightarrow> (bytes \<Rightarrow> bool) option) \<Rightarrow> Rule list \<Rightarrow> (classifier_error + Classifier) run" where
  "CompileClassifier re_compile rules =
     (if length rules > DefaultMaxClassification then Some (Inl TooManyRules)
      else (case compile_rules re_compile 0 rules 0 of
          Inl e \<Rightarrow> Some (Inl e)
        | Inr crs \<Rightarrow> do {
            let crs = sort_key precedence crs;
            rows \<leftarrow> candidate_rows crs [0 ..< 16];
            Some (Inr \<lparr>cl_rules = crs, cl_protocolCandidates = rows\<rparr>)
          }))"

section \<open>Matching\<close>

text \<open>Returning a byte slice that is nil is returning the empty list.\<close>

definition macPrefixMatch :: "MAC \<Rightarrow> MACPrefix \<Rightarrow> bool run" where
  "macPrefixMatch m p = do {
     let whole = unat (mp_Bits p div 8);
     x \<leftarrow> gslice (mac_bytes m) 0 whole;
     y \<leftarrow> gslice (mac_bytes (mp_Address p)) 0 whole;
     if x \<noteq> y then Some False
     else do {
       let rem = mp_Bits p mod 8;
       if rem = 0 then Some True
       else do {
         let mask = push_bit (unat (8 - rem)) (0xff :: u8);
         a \<leftarrow> idx (mac_bytes m) whole;
         b \<leftarrow> idx (mac_bytes (mp_Address p)) whole;
         Some (a AND mask = b AND mask)
       }
     }
   }"

definition fold_byte :: "u8 \<Rightarrow> u8" where
  "fold_byte x = (if x \<ge> 0x41 \<and> x \<le> 0x5a then x + 0x20 else x)"

fun fold_loop :: "bytes \<Rightarrow> bytes \<Rightarrow> nat list \<Rightarrow> bool run" where
  "fold_loop a b [] = Some True"
| "fold_loop a b (i # is) = do {
     x \<leftarrow> idx a i;
     y \<leftarrow> idx b i;
     if fold_byte x \<noteq> fold_byte y then Some False else fold_loop a b is
   }"

definition equalFoldASCII :: "bytes \<Rightarrow> bytes \<Rightarrow> bool run" where
  "equalFoldASCII a b = (if length a \<noteq> length b then Some False else fold_loop a b [0 ..< length a])"

fun any_run :: "('a \<Rightarrow> bool run) \<Rightarrow> 'a list \<Rightarrow> bool run" where
  "any_run f [] = Some False"
| "any_run f (x # xs) = do { b \<leftarrow> f x; if b then Some True else any_run f xs }"

definition service_text :: "MatchField \<Rightarrow> Service \<Rightarrow> bytes" where
  "service_text field svc =
     (if field = MatchFieldServiceInstance then svc_Instance svc
      else if field = MatchFieldServiceType then svc_Type svc
      else svc_TXT svc)"

definition visitTextField :: "DiscoveredDevice \<Rightarrow> MatchField \<Rightarrow> (bytes \<Rightarrow> bool run) \<Rightarrow> bool run" where
  "visitTextField d field f =
     (let over = (\<lambda>tf. any_run (\<lambda>v. f (tv_Value v)) (Values tf)) in
      if field = MatchFieldSystemName then over (dev_SystemName d)
      else if field = MatchFieldHostName then over (dev_HostName d)
      else if field = MatchFieldDeviceID then over (dev_ProtocolDeviceID d)
      else if field = MatchFieldModel then over (dev_Model d)
      else if field = MatchFieldPlatform then over (dev_Platform d)
      else if field = MatchFieldSoftwareVersion then over (dev_SoftwareVersion d)
      else if field = MatchFieldServiceInstance \<or> field = MatchFieldServiceType \<or> field = MatchFieldServiceTXT then
        any_run (\<lambda>svc. f (service_text field svc)) (live (dev_Services d))
      else Some False)"

text \<open>\<open>p.re.Match(v)\<close> on a nil expression panics.\<close>

definition matchPredicate :: "compiledPredicate \<Rightarrow> DiscoveredDevice \<Rightarrow> bool run" where
  "matchPredicate p d =
     (let op = pr_Op p in
      if op = MatchProtocol then Some (dev_Protocols d AND pr_Protocol p \<noteq> 0)
      else if op = MatchMACPrefix then any_run (\<lambda>m. macPrefixMatch m (pr_MACPrefix p)) (dev_ObservedMACs d)
      else if op = MatchIPPrefix then any_run (\<lambda>a. Some (Prefix_Contains (pr_IPPrefix p) a)) (dev_Addresses d)
      else if op = MatchCapabilityAll then Some (dev_Capabilities d AND pr_Capability p = pr_Capability p)
      else if op = MatchExact \<or> op = MatchRegex then
        visitTextField d (pr_Field p) (\<lambda>v.
          if op = MatchRegex then (case cp_re p of None \<Rightarrow> None | Some re \<Rightarrow> Some (re v))
          else if pr_FoldASCII p then equalFoldASCII v (cp_exact p)
          else Some (v = cp_exact p))
      else Some False)"

fun allPredicates :: "compiledPredicate list \<Rightarrow> DiscoveredDevice \<Rightarrow> bool run" where
  "allPredicates [] d = Some True"
| "allPredicates (p # ps) d = do { b \<leftarrow> matchPredicate p d; if \<not> b then Some False else allPredicates ps d }"

definition anyPredicates :: "compiledPredicate list \<Rightarrow> DiscoveredDevice \<Rightarrow> bool run" where
  "anyPredicates ps d = any_run (\<lambda>p. matchPredicate p d) ps"

definition field_bit :: "MatchField \<Rightarrow> u16" where
  "field_bit f = push_bit (unat f) 1"

fun service_fields :: "Service list \<Rightarrow> u16 \<Rightarrow> u16" where
  "service_fields [] acc = acc"
| "service_fields (s # ss) acc =
     (let acc = (if svc_Instance s \<noteq> [] then acc OR field_bit MatchFieldServiceInstance else acc);
          acc = (if svc_Type s \<noteq> [] then acc OR field_bit MatchFieldServiceType else acc);
          acc = (if svc_TXT s \<noteq> [] then acc OR field_bit MatchFieldServiceTXT else acc)
      in service_fields ss acc)"

fun text_fields :: "(MatchField \<times> TextField) list \<Rightarrow> u16 \<Rightarrow> u16" where
  "text_fields [] acc = acc"
| "text_fields ((f, tf) # es) acc =
     text_fields es (if Values tf \<noteq> [] then acc OR field_bit f else acc)"

definition populatedTextFields :: "DiscoveredDevice \<Rightarrow> u16" where
  "populatedTextFields d =
     service_fields (live (dev_Services d))
       (text_fields
          [(MatchFieldSystemName, dev_SystemName d), (MatchFieldHostName, dev_HostName d),
           (MatchFieldDeviceID, dev_ProtocolDeviceID d), (MatchFieldModel, dev_Model d),
           (MatchFieldPlatform, dev_Platform d), (MatchFieldSoftwareVersion, dev_SoftwareVersion d)] 0)"

text \<open>\<open>bits.TrailingZeros64\<close>\<close>

definition TrailingZeros64 :: "u64 \<Rightarrow> nat" where
  "TrailingZeros64 w = length (takeWhile (\<lambda>n. \<not> bit w n) [0 ..< 64])"

definition rule_applies :: "compiledRule \<Rightarrow> DiscoveredDevice \<Rightarrow> u16 \<Rightarrow> bool run" where
  "rule_applies r d available =
     (if cr_required r AND available \<noteq> cr_required r then Some False
      else do {
        a \<leftarrow> allPredicates (cr_all r) d;
        if \<not> a then Some False
        else do {
          n \<leftarrow> anyPredicates (cr_none r) d;
          if n then Some False
          else if cr_any r \<noteq> [] then anyPredicates (cr_any r) d
          else Some True
        }
      })"

lemma and_minus_one_less: "w \<noteq> 0 \<Longrightarrow> unat (w AND (w - 1)) < unat (w :: 'a :: len word)"
proof -
  assume "w \<noteq> 0"
  have "unat (w AND (w - 1)) \<le> unat (w - 1)" by (simp add: word_and_le1 flip: word_le_nat_alt)
  moreover have "unat (w - 1) = unat w - 1" using \<open>w \<noteq> 0\<close> by (rule unat_minus_one)
  moreover have "unat w \<noteq> 0" using \<open>w \<noteq> 0\<close> by (simp add: unat_eq_zero)
  ultimately show ?thesis by linarith
qed

text \<open>The inner loop over the set bits of one word: the first rule that applies, in bit order.\<close>

function word_loop :: "Classifier \<Rightarrow> DiscoveredDevice \<Rightarrow> u16 \<Rightarrow> nat \<Rightarrow> u64 \<Rightarrow> compiledRule option run" where
  "word_loop c d available word candidates =
     (if candidates = 0 then Some None
      else do {
        let i = word * 64 + TrailingZeros64 candidates;
        if i \<ge> length (cl_rules c) then Some None
        else do {
          r \<leftarrow> idx (cl_rules c) i;
          b \<leftarrow> rule_applies r d available;
          if b then Some (Some r)
          else word_loop c d available word (candidates AND (candidates - 1))
        }
      })"
  by pat_completeness auto
termination
  by (relation "measure (\<lambda>(c, d, available, word, candidates). unat candidates)") (auto intro: and_minus_one_less)

declare word_loop.simps [simp del]

fun mask_loop :: "Classifier \<Rightarrow> DiscoveredDevice \<Rightarrow> u16 \<Rightarrow> nat \<Rightarrow> u64 list \<Rightarrow> compiledRule option run" where
  "mask_loop c d available word [] = Some None"
| "mask_loop c d available word (w # ws) = do {
     r \<leftarrow> word_loop c d available word w;
     case r of
       Some r \<Rightarrow> Some (Some r)
     | None \<Rightarrow> mask_loop c d available (word + 1) ws
   }"

text \<open>\<open>Classify\<close>: class, rule name and whether there is one, on pointers that may be nil.\<close>

definition Classify :: "Classifier ptr \<Rightarrow> DiscoveredDevice ptr \<Rightarrow> (bytes \<times> bytes \<times> bool) run" where
  "Classify cp dp =
     (case cp of
        None \<Rightarrow> Some ([], [], False)
      | Some c \<Rightarrow>
          (case dp of
             None \<Rightarrow> Some ([], [], False)
           | Some d \<Rightarrow> do {
               let available = populatedTextFields d;
               mask \<leftarrow> idx (cl_protocolCandidates c) (unat (dev_Protocols d AND ProtocolsAll));
               r \<leftarrow> mask_loop c d available 0 mask;
               case r of
                 Some r \<Rightarrow> Some (cr_class r, cr_name r, True)
               | None \<Rightarrow> Some ([], [], False)
             }))"

section \<open>The lowest set bit\<close>

lemma bit_and_pred_int:
  "(\<And>j. j < k \<Longrightarrow> \<not> bit x j) \<Longrightarrow> bit x k \<Longrightarrow> bit (x AND (x - 1)) n \<longleftrightarrow> bit (x :: int) n \<and> n \<noteq> k"
proof (induction k arbitrary: x n)
  case 0
  then have "odd x" by (simp add: bit_0)
  then obtain y where x: "x = 2 * y + 1" by (elim oddE)
  show ?case unfolding x bit_and_iff by (cases n) (auto simp: bit_0 bit_Suc)
next
  case (Suc k)
  have "even x" using Suc.prems(1) [of 0] by (simp add: bit_0)
  then obtain y where x: "x = 2 * y" by (elim evenE)
  have p: "x - 1 = 2 * (y - 1) + 1" by (simp add: x)
  have "bit (y AND (y - 1)) m \<longleftrightarrow> bit y m \<and> m \<noteq> k" for m
  proof (rule Suc.IH)
    show "\<not> bit y j" if "j < k" for j using Suc.prems(1) [of "Suc j"] that by (simp add: x bit_Suc)
    show "bit y k" using Suc.prems(2) by (simp add: x bit_Suc)
  qed
  moreover have "bit (2 * z) (Suc m) = bit z m" "bit (2 * z + 1) (Suc m) = bit z m" for z :: int and m
    by (simp_all add: bit_Suc)
  moreover have "\<not> bit x 0" using \<open>even x\<close> by (simp add: bit_0)
  ultimately show ?case unfolding p bit_and_iff by (cases n) (simp_all only: x, simp_all)
qed

lemma TrailingZeros64_props:
  assumes "w \<noteq> 0"
  shows "TrailingZeros64 w < 64" "bit w (TrailingZeros64 w)" "j < TrailingZeros64 w \<Longrightarrow> \<not> bit w j"
proof -
  obtain n where n: "bit w n" using assms by (auto simp: bit_eq_iff)
  then have "n < 64" using bit_imp_le_length [OF n] by simp
  then have "n \<in> set [0 ..< 64]" by simp
  then have len: "length (takeWhile (\<lambda>n. \<not> bit w n) [0 ..< 64]) < length [0 ..< (64 :: nat)]"
    using n \<open>n < 64\<close> by (metis length_takeWhile_le nat_less_le set_takeWhileD takeWhile_eq_take take_all_iff)
  then show "TrailingZeros64 w < 64" by (simp add: TrailingZeros64_def)
  then show "bit w (TrailingZeros64 w)"
    using nth_length_takeWhile [OF len] by (simp add: TrailingZeros64_def)
  show "\<not> bit w j" if "j < TrailingZeros64 w"
    using that len by (metis TrailingZeros64_def add_0 length_upt less_trans nth_mem nth_upt set_takeWhileD takeWhile_nth diff_zero)
qed

lemma bit_clear_lowest:
  assumes "w \<noteq> (0 :: u64)"
  shows "bit (w AND (w - 1)) n \<longleftrightarrow> bit w n \<and> n \<noteq> TrailingZeros64 w"
proof -
  have "uint (w - 1) = uint w - 1" using assms 
  proof -
    have "unat (w - 1) = unat w - 1" using assms by (rule unat_minus_one)
    moreover have "1 \<le> unat w" using assms by (simp add: Suc_le_eq unat_gt_0)
    ultimately show ?thesis by (simp only: uint_nat of_nat_diff of_nat_1)
  qed
  then have "bit (w AND (w - 1)) n \<longleftrightarrow> bit (uint w AND (uint w - 1)) n"
    by (metis bit_and_iff bit_uint_iff bit_imp_le_length uint_and)
  also have "\<dots> \<longleftrightarrow> bit (uint w) n \<and> n \<noteq> TrailingZeros64 w"
    using TrailingZeros64_props [OF assms] by (intro bit_and_pred_int) (auto simp: bit_uint_iff)
  finally show ?thesis by (auto simp: bit_uint_iff dest: bit_imp_le_length)
qed

section \<open>The first rule that applies\<close>

lemma find_append: "find P (xs @ ys) = (case find P xs of None \<Rightarrow> find P ys | Some x \<Rightarrow> Some x)"
  by (induction xs) auto

lemma find_cong_set: "(\<And>x. x \<in> set xs \<Longrightarrow> P x = Q x) \<Longrightarrow> find P xs = find Q xs"
  by (induction xs) auto

lemma find_first:
  assumes "k < n" "P k" "\<And>j. j < k \<Longrightarrow> \<not> P j"
  shows "find P [0 ..< n] = Some k"
proof -
  have "[0 ..< n] = [0 ..< k] @ k # [Suc k ..< n]"
    using assms(1) by (metis le0 less_imp_le_nat upt_add_eq_append upt_conv_Cons zero_less_iff_neq_zero le_add_diff_inverse)
  moreover have "find P [0 ..< k] = None" using assms(3) by (auto simp: find_None_iff)
  ultimately show ?thesis using assms(2) by (simp add: find_append)
qed

lemma word_loop_eq:
  assumes ok: "\<And>i. i < length (cl_rules c) \<Longrightarrow> rule_applies (cl_rules c ! i) d available = Some (A i)"
  shows "(\<And>n. bit candidates n \<Longrightarrow> word * 64 + n < length (cl_rules c)) \<Longrightarrow>
   word_loop c d available word candidates =
     Some (map_option (\<lambda>n. cl_rules c ! (word * 64 + n))
       (find (\<lambda>n. bit candidates n \<and> A (word * 64 + n)) [0 ..< 64]))"
proof (induction "unat candidates" arbitrary: candidates rule: less_induct)
  case less
  show ?case
  proof (cases "candidates = 0")
    case True
    have "find (\<lambda>n. bit (0 :: u64) n \<and> A (word * 64 + n)) [0 ..< 64] = None" by (simp add: find_None_iff)
    with True show ?thesis by (subst word_loop.simps) simp
  next
    case False
    let ?k = "TrailingZeros64 candidates"
    note k = TrailingZeros64_props [OF False]
    have i: "word * 64 + ?k < length (cl_rules c)" by (rule less.prems [OF k(2)])
    show ?thesis
    proof (cases "A (word * 64 + ?k)")
      case True
      have "find (\<lambda>n. bit candidates n \<and> A (word * 64 + n)) [0 ..< 64] = Some ?k"
        using True k by (intro find_first) auto
      with True False i show ?thesis by (subst word_loop.simps) (simp add: ok Let_def)
    next
      case no: False
      have "find (\<lambda>n. bit (candidates AND (candidates - 1)) n \<and> A (word * 64 + n)) [0 ..< 64] =
          find (\<lambda>n. bit candidates n \<and> A (word * 64 + n)) [0 ..< 64]"
        using no by (intro find_cong_set) (auto simp: bit_clear_lowest [OF False])
      moreover have "word_loop c d available word (candidates AND (candidates - 1)) =
          Some (map_option (\<lambda>n. cl_rules c ! (word * 64 + n))
            (find (\<lambda>n. bit (candidates AND (candidates - 1)) n \<and> A (word * 64 + n)) [0 ..< 64]))"
        using less.prems by (intro less.hyps and_minus_one_less [OF False]) (auto simp: bit_clear_lowest [OF False])
      ultimately show ?thesis using no False i by (subst word_loop.simps) (simp add: ok Let_def)
    qed
  qed
qed

lemma mask_loop_eq:
  assumes ok: "\<And>i. i < length (cl_rules c) \<Longrightarrow> rule_applies (cl_rules c ! i) d available = Some (A i)"
    and cand: "\<And>i. cand i \<Longrightarrow> i < length (cl_rules c)"
  shows "(\<And>j n. j < length ws \<Longrightarrow> n < 64 \<Longrightarrow> bit (ws ! j) n = cand ((word + j) * 64 + n)) \<Longrightarrow>
   mask_loop c d available word ws =
     Some (map_option (nth (cl_rules c)) (find (\<lambda>i. cand i \<and> A i) [word * 64 ..< (word + length ws) * 64]))"
proof (induction ws arbitrary: word)
  case Nil
  then show ?case by simp
next
  case (Cons w ws)
  have w: "bit w n \<longleftrightarrow> n < 64 \<and> cand (word * 64 + n)" for n
  proof -
    have "bit w n \<Longrightarrow> n < 64" by (auto dest: bit_imp_le_length)
    then show ?thesis using Cons.prems [of 0 n] by auto
  qed
  have "find (\<lambda>i. cand i \<and> A i) [word * 64 ..< word * 64 + 64] =
      map_option (\<lambda>n. word * 64 + n) (find (\<lambda>n. bit w n \<and> A (word * 64 + n)) [0 ..< 64])"
  proof -
    have "[word * 64 ..< word * 64 + 64] = map (\<lambda>n. word * 64 + n) [0 ..< 64]"
      using map_add_upt [of "word * 64" 64] by (simp add: add.commute)
    moreover have "find P (map f xs) = map_option f (find (P \<circ> f) xs)" for P and f :: "nat \<Rightarrow> nat" and xs
      by (induction xs) auto
    moreover have "find ((\<lambda>i. cand i \<and> A i) \<circ> (\<lambda>n. word * 64 + n)) [0 ..< 64] = find (\<lambda>n. bit w n \<and> A (word * 64 + n)) [0 ..< 64]"
      by (rule find_cong_set) (simp add: w)
    ultimately show ?thesis by simp
  qed
  moreover have "word_loop c d available word w =
     Some (map_option (\<lambda>n. cl_rules c ! (word * 64 + n)) (find (\<lambda>n. bit w n \<and> A (word * 64 + n)) [0 ..< 64]))"
    using w cand by (intro word_loop_eq ok) auto
  moreover have "mask_loop c d available (word + 1) ws =
     Some (map_option (nth (cl_rules c)) (find (\<lambda>i. cand i \<and> A i) [(word + 1) * 64 ..< (word + 1 + length ws) * 64]))"
    using Cons.prems [of "Suc _"] by (intro Cons.IH) fastforce
  moreover have "[word * 64 ..< (word + length (w # ws)) * 64] =
      [word * 64 ..< word * 64 + 64] @ [(word + 1) * 64 ..< (word + 1 + length ws) * 64]"
    using upt_add_eq_append [of "word * 64" "word * 64 + 64" "length ws * 64"] by (simp add: algebra_simps)
  ultimately show ?case by (auto simp: find_append split: option.splits)
qed

lemma find_index:
  "length xs \<le> m \<Longrightarrow> map_option (nth xs) (find (\<lambda>i. i < length xs \<and> Q (xs ! i)) [0 ..< m]) = find Q xs"
proof (induction xs arbitrary: m)
  case Nil
  have "find (\<lambda>i. i < length [] \<and> Q ([] ! i)) [0 ..< m] = None" by (simp add: find_None_iff)
  then show ?case by simp
next
  case (Cons x xs)
  obtain k where m: "m = Suc k" "length xs \<le> k" using Cons.prems by (cases m) auto
  have u: "[0 ..< Suc k] = 0 # map Suc [0 ..< k]" by (simp add: upt_conv_Cons map_Suc_upt del: upt_Suc)
  have f: "find P (map Suc ys) = map_option Suc (find (P \<circ> Suc) ys)" for P ys by (induction ys) auto
  show ?case
    using Cons.IH [OF m(2)] unfolding m(1) u by (auto simp: f comp_def option.map_comp)
qed

section \<open>What a predicate means\<close>

text \<open>The texts of a device that a field selects.\<close>

definition field_texts :: "DiscoveredDevice \<Rightarrow> MatchField \<Rightarrow> bytes list" where
  "field_texts d f =
     (if f = MatchFieldSystemName then map tv_Value (Values (dev_SystemName d))
      else if f = MatchFieldHostName then map tv_Value (Values (dev_HostName d))
      else if f = MatchFieldDeviceID then map tv_Value (Values (dev_ProtocolDeviceID d))
      else if f = MatchFieldModel then map tv_Value (Values (dev_Model d))
      else if f = MatchFieldPlatform then map tv_Value (Values (dev_Platform d))
      else if f = MatchFieldSoftwareVersion then map tv_Value (Values (dev_SoftwareVersion d))
      else if f = MatchFieldServiceInstance then map svc_Instance (live (dev_Services d))
      else if f = MatchFieldServiceType then map svc_Type (live (dev_Services d))
      else if f = MatchFieldServiceTXT then map svc_TXT (live (dev_Services d))
      else [])"

definition text_matches :: "(bytes \<Rightarrow> (bytes \<Rightarrow> bool) option) \<Rightarrow> Predicate \<Rightarrow> bytes \<Rightarrow> bool" where
  "text_matches re_compile p v =
     (if pr_Op p = MatchRegex then (case re_compile (pr_Pattern p) of None \<Rightarrow> False | Some re \<Rightarrow> re v)
      else if pr_FoldASCII p then map fold_byte v = map fold_byte (pr_Value p)
      else v = pr_Value p)"

definition mac_in_prefix :: "MACPrefix \<Rightarrow> MAC \<Rightarrow> bool" where
  "mac_in_prefix p m =
     (take (unat (mp_Bits p)) (bits_of (mac_bytes m)) = take (unat (mp_Bits p)) (bits_of (mac_bytes (mp_Address p))))"

definition pred_holds :: "(bytes \<Rightarrow> (bytes \<Rightarrow> bool) option) \<Rightarrow> Predicate \<Rightarrow> DiscoveredDevice \<Rightarrow> bool" where
  "pred_holds re_compile p d =
     (if pr_Op p = MatchProtocol then dev_Protocols d AND pr_Protocol p \<noteq> 0
      else if pr_Op p = MatchMACPrefix then list_ex (mac_in_prefix (pr_MACPrefix p)) (dev_ObservedMACs d)
      else if pr_Op p = MatchIPPrefix then list_ex (Prefix_Contains (pr_IPPrefix p)) (dev_Addresses d)
      else if pr_Op p = MatchCapabilityAll then dev_Capabilities d AND pr_Capability p = pr_Capability p
      else list_ex (text_matches re_compile p) (field_texts d (pr_Field p)))"

text \<open>Whether the device has any text at all for a predicate on a text field.\<close>

definition has_text :: "DiscoveredDevice \<Rightarrow> MatchField \<Rightarrow> bool" where
  "has_text d f =
     (if f \<in> {MatchFieldServiceInstance, MatchFieldServiceType, MatchFieldServiceTXT}
      then list_ex (\<lambda>t. t \<noteq> []) (field_texts d f)
      else field_texts d f \<noteq> [])"

definition rule_holds :: "(bytes \<Rightarrow> (bytes \<Rightarrow> bool) option) \<Rightarrow> Rule \<Rightarrow> DiscoveredDevice \<Rightarrow> bool" where
  "rule_holds re_compile r d =
     (list_all (\<lambda>p. pred_holds re_compile p d \<and> (isTextField (pr_Field p) \<longrightarrow> has_text d (pr_Field p))) (rule_All r) \<and>
      \<not> list_ex (\<lambda>p. pred_holds re_compile p d) (rule_None r) \<and>
      (rule_Any r = [] \<or> list_ex (\<lambda>p. pred_holds re_compile p d) (rule_Any r)))"

section \<open>Each matcher computes its meaning\<close>

lemma length_bits_of [simp]: "length (bits_of bs) = 8 * length bs"
  by (induction bs) (simp_all add: bits_of_def)

definition byte_bits :: "u8 \<Rightarrow> bool list" where
  "byte_bits b = map (bit b) [7, 6, 5, 4, 3, 2, 1, 0]"

lemma bits_of_Cons: "bits_of (b # bs) = byte_bits b @ bits_of bs"
proof -
  have "rev [0 ..< 8] = [7, 6, 5, 4, 3, 2, 1, 0 :: nat]" by code_simp
  then show ?thesis by (simp add: bits_of_def byte_bits_def)
qed

lemma length_byte_bits [simp]: "length (byte_bits b) = 8"
  by (simp add: byte_bits_def)

lemma u8_eq_bits: "(a :: u8) = b \<longleftrightarrow> (\<forall>n < 8. bit a n = bit b n)"
  by (auto simp: bit_eq_iff dest: bit_imp_le_length)

lemma all_less_8: "(\<forall>n < (8 :: nat). P n) \<longleftrightarrow> P 0 \<and> P 1 \<and> P 2 \<and> P 3 \<and> P 4 \<and> P 5 \<and> P 6 \<and> P 7"
proof -
  have "{..< (8 :: nat)} = {0, 1, 2, 3, 4, 5, 6, 7}" by auto
  then show ?thesis by (metis (no_types, lifting) insert_iff lessThan_iff empty_iff)
qed

lemma byte_bits_inject: "byte_bits a = byte_bits b \<longleftrightarrow> a = b"
  by (auto simp: byte_bits_def u8_eq_bits all_less_8)

lemma take_byte_bits:
  assumes "r < 8"
  shows "take r (byte_bits a) = take r (byte_bits b) \<longleftrightarrow>
    a AND push_bit (8 - r) 0xff = b AND push_bit (8 - r) (0xff :: u8)"
proof -
  define mk where "mk = push_bit (8 - r) (0xff :: u8)"
  have m: "bit mk n \<longleftrightarrow> 8 - r \<le> n \<and> n < 8" for n
  proof -
    have "(0xff :: u8) = mask 8" by (simp add: mask_eq_exp_minus_1)
    moreover have "bit (mask 8 :: u8) k \<longleftrightarrow> k < 8" for k by (simp only: bit_mask_iff) auto
    ultimately have b: "bit (0xff :: u8) k \<longleftrightarrow> k < 8" for k by simp
    show ?thesis unfolding mk_def bit_push_bit_iff b by auto
  qed
  have "a AND mk = b AND mk \<longleftrightarrow> (\<forall>n < 8. 8 - r \<le> n \<longrightarrow> bit a n = bit b n)"
    by (auto simp: u8_eq_bits bit_and_iff m)
  moreover from assms consider "r = 0" | "r = 1" | "r = 2" | "r = 3" | "r = 4" | "r = 5" | "r = 6" | "r = 7" by linarith
  then have "take r (byte_bits a) = take r (byte_bits b) \<longleftrightarrow> (\<forall>n < 8. 8 - r \<le> n \<longrightarrow> bit a n = bit b n)"
    by cases (simp_all add: all_less_8 byte_bits_def conj_ac)
  ultimately show ?thesis by (simp add: mk_def)
qed

lemma take_bits_of:
  "take (8 * w + r) (bits_of xs) = take (8 * w + r) (bits_of ys) \<longleftrightarrow>
     take w xs = take w ys \<and> take r (bits_of (drop w xs)) = take r (bits_of (drop w ys))"
  if "length xs = length ys" "w \<le> length xs" for xs ys
  using that
proof (induction w arbitrary: xs ys)
  case (Suc w)
  then obtain x xs' y ys' where c: "xs = x # xs'" "ys = y # ys'" by (cases xs; cases ys) auto
  have "take (8 * Suc w + r) (byte_bits b @ zs) = byte_bits b @ take (8 * w + r) zs" for b zs
    by simp
  with Suc show ?case by (simp add: c bits_of_Cons byte_bits_inject conj_assoc)
qed simp

lemma macPrefixMatch_eq:
  assumes "mp_Bits p \<le> 48"
  shows "macPrefixMatch m p = Some (mac_in_prefix p m)"
proof -
  let ?n = "unat (mp_Bits p)" and ?x = "mac_bytes m" and ?y = "mac_bytes (mp_Address p)"
  have n: "?n \<le> 48" using assms by (simp add: word_le_nat_alt)
  define w r where "w = ?n div 8" and "r = ?n mod 8"
  have wr: "?n = 8 * w + r" "r < 8" "w \<le> 6" using n by (auto simp: w_def r_def)
  have u: "unat (mp_Bits p div 8) = w" "unat (mp_Bits p mod 8) = r"
    by (simp_all add: w_def r_def unat_div unat_mod)
  have r0: "mp_Bits p mod 8 = 0 \<longleftrightarrow> r = 0" using u(2) by (metis unat_eq_zero)
  have u8: "unat (8 - mp_Bits p mod 8) = 8 - r"
    using wr(2) u(2) by (simp add: unat_sub word_le_nat_alt)
  have split: "mac_in_prefix p m \<longleftrightarrow> take w ?x = take w ?y \<and> take r (bits_of (drop w ?x)) = take r (bits_of (drop w ?y))"
    unfolding mac_in_prefix_def wr(1) using wr(3) by (intro take_bits_of) simp_all
  show ?thesis
  proof (cases "r = 0")
    case True
    then show ?thesis
      using wr(3) by (simp add: macPrefixMatch_def Let_def u r0 split gslice_def)
  next
    case False
    have w6: "w < 6" using wr n False by linarith
    have d: "drop w ?x = ?x ! w # drop (Suc w) ?x" "drop w ?y = ?y ! w # drop (Suc w) ?y"
      using w6 by (simp_all add: Cons_nth_drop_Suc)
    have "take r (bits_of (drop w ?x)) = take r (byte_bits (?x ! w))"
      "take r (bits_of (drop w ?y)) = take r (byte_bits (?y ! w))"
      using wr(2) by (simp_all add: d bits_of_Cons)
    then show ?thesis
      using False w6 take_byte_bits [OF wr(2), of "?x ! w" "?y ! w"]
      by (simp add: macPrefixMatch_def Let_def u r0 u8 split gslice_def)
  qed
qed

lemma any_run_eq: "(\<And>x. x \<in> set xs \<Longrightarrow> f x = Some (P x)) \<Longrightarrow> any_run f xs = Some (list_ex P xs)"
  by (induction xs) auto

lemma fold_loop_eq:
  "\<forall>i \<in> set is. i < length a \<and> i < length b \<Longrightarrow>
   fold_loop a b is = Some (list_all (\<lambda>i. fold_byte (a ! i) = fold_byte (b ! i)) is)"
  by (induction "is") auto

lemma equalFoldASCII_eq: "equalFoldASCII a b = Some (map fold_byte a = map fold_byte b)"
proof (cases "length a = length b")
  case True
  then have "fold_loop a b [0 ..< length a] = Some (\<forall>i < length a. fold_byte (a ! i) = fold_byte (b ! i))"
    by (subst fold_loop_eq) (auto simp: list_all_iff)
  moreover have "map fold_byte a = map fold_byte b \<longleftrightarrow> (\<forall>i < length a. fold_byte (a ! i) = fold_byte (b ! i))"
    using True by (subst list_eq_iff_nth_eq) auto
  ultimately show ?thesis using True by (simp add: equalFoldASCII_def)
next
  case False
  then show ?thesis using map_eq_imp_length_eq by (auto simp: equalFoldASCII_def)
qed

lemma visitTextField_eq:
  "(\<And>v. f v = Some (P v)) \<Longrightarrow> visitTextField d field f = Some (list_ex P (field_texts d field))"
proof -
  assume f: "\<And>v. f v = Some (P v)"
  have t: "any_run (\<lambda>v. f (tv_Value v)) vs = Some (list_ex P (map tv_Value vs))" for vs
    by (induction vs) (simp_all add: f)
  have s: "any_run (\<lambda>s. f (g s)) ss = Some (list_ex P (map g ss))" for g and ss :: "Service list"
    by (induction ss) (simp_all add: f)
  have st: "service_text MatchFieldServiceInstance = svc_Instance" "service_text MatchFieldServiceType = svc_Type"
    "service_text MatchFieldServiceTXT = svc_TXT"
    by (rule ext, simp add: service_text_def match_field_defs)+
  have ne: "MatchFieldServiceType \<noteq> MatchFieldServiceInstance" "MatchFieldServiceTXT \<noteq> MatchFieldServiceInstance"
    "MatchFieldServiceTXT \<noteq> MatchFieldServiceType"
    by (simp_all add: match_field_defs)
  show ?thesis
    unfolding visitTextField_def field_texts_def Let_def t s by (simp add: st ne ne [symmetric])
qed

text \<open>A compiled predicate and its source.\<close>

definition compiled :: "(bytes \<Rightarrow> (bytes \<Rightarrow> bool) option) \<Rightarrow> Predicate \<Rightarrow> compiledPredicate \<Rightarrow> bool" where
  "compiled re_compile p cp =
     (pr_Field cp = pr_Field p \<and> pr_Op cp = pr_Op p \<and> pr_Protocol cp = pr_Protocol p \<and>
      (pr_Op p = MatchProtocol \<longrightarrow> pr_Protocol p AND NOT ProtocolsAll = 0) \<and>
      (\<forall>d. matchPredicate cp d = Some (pred_holds re_compile p d)))"

lemma with_code_fields [simp]:
  "pr_Field (with_code p e r) = pr_Field p" "pr_Op (with_code p e r) = pr_Op p"
  "pr_Protocol (with_code p e r) = pr_Protocol p" "pr_MACPrefix (with_code p e r) = pr_MACPrefix p"
  "pr_IPPrefix (with_code p e r) = pr_IPPrefix p" "pr_Capability (with_code p e r) = pr_Capability p"
  "pr_FoldASCII (with_code p e r) = pr_FoldASCII p" "cp_exact (with_code p e r) = e" "cp_re (with_code p e r) = r"
  by (simp_all add: with_code_def Predicate.defs)

lemma compilePredicate_ok:
  assumes "compilePredicate re_compile p n = Inr (cp, n')"
  shows "compiled re_compile p cp"
proof -
  consider (exact) "pr_Op p = MatchExact" "cp = with_code p (pr_Value p) None"
    | (regex) re where "pr_Op p = MatchRegex" "re_compile (pr_Pattern p) = Some re" "cp = with_code p [] (Some re)"
    | (protocol) "pr_Op p = MatchProtocol" "pr_Protocol p AND NOT ProtocolsAll = 0" "cp = with_code p [] None"
    | (mac) "pr_Op p = MatchMACPrefix" "mp_Bits (pr_MACPrefix p) \<le> 48" "cp = with_code p [] None"
    | (other) "pr_Op p = MatchIPPrefix \<or> pr_Op p = MatchCapabilityAll" "cp = with_code p [] None"
    using assms by (auto simp: compilePredicate_def Let_def not_less split: if_splits option.splits)
  then show ?thesis
  proof cases
    case exact
    have "visitTextField d (pr_Field p) (\<lambda>v. if pr_FoldASCII p then equalFoldASCII v (pr_Value p) else Some (v = pr_Value p)) =
        Some (list_ex (text_matches re_compile p) (field_texts d (pr_Field p)))" for d
      by (rule visitTextField_eq) (simp add: text_matches_def exact equalFoldASCII_eq match_op_defs)
    with exact show ?thesis
      by (simp cong del: if_weak_cong add: compiled_def matchPredicate_def pred_holds_def Let_def match_op_defs)
  next
    case regex
    have "visitTextField d (pr_Field p) (\<lambda>v. Some (re v)) =
        Some (list_ex (text_matches re_compile p) (field_texts d (pr_Field p)))" for d
      by (rule visitTextField_eq) (simp add: text_matches_def regex)
    with regex show ?thesis
      by (simp add: compiled_def matchPredicate_def pred_holds_def Let_def match_op_defs)
  next
    case mac
    then show ?thesis
      by (simp add: compiled_def matchPredicate_def pred_holds_def Let_def match_op_defs
          any_run_eq [where P = "mac_in_prefix (pr_MACPrefix p)"] macPrefixMatch_eq)
  next
    case other
    then show ?thesis
      by (auto simp: compiled_def matchPredicate_def pred_holds_def Let_def match_op_defs
          any_run_eq [where P = "Prefix_Contains (pr_IPPrefix p)"])
  qed (simp add: compiled_def matchPredicate_def pred_holds_def Let_def)
qed

section \<open>Each compiled rule computes its meaning\<close>

definition preds_compiled :: "(bytes \<Rightarrow> (bytes \<Rightarrow> bool) option) \<Rightarrow> Predicate list \<Rightarrow> compiledPredicate list \<Rightarrow> bool" where
  "preds_compiled re_compile ps cps =
     ((\<forall>p \<in> set ps. \<exists>cp \<in> set cps. compiled re_compile p cp) \<and>
      (\<forall>cp \<in> set cps. \<exists>p \<in> set ps. compiled re_compile p cp) \<and> (cps = [] \<longleftrightarrow> ps = []))"

lemma compile_loop_ok: "compile_loop re_compile ps n = Inr (cps, n') \<Longrightarrow> preds_compiled re_compile ps cps"
proof (induction ps arbitrary: n cps)
  case (Cons p ps)
  then obtain cp n1 cps1 where c: "compilePredicate re_compile p n = Inr (cp, n1)"
    "compile_loop re_compile ps n1 = Inr (cps1, n')" "cps = cp # cps1"
    by (auto split: sum.splits)
  from Cons.IH [OF c(2)] compilePredicate_ok [OF c(1)] show ?case
    by (auto simp: preds_compiled_def c(3))
qed (simp add: preds_compiled_def)

lemma compilePredicates_ok:
  "compilePredicates re_compile ps n = Inr (cps, n') \<Longrightarrow> preds_compiled re_compile ps cps"
proof -
  have nil: "sort_key f xs = [] \<longleftrightarrow> xs = []" for f :: "compiledPredicate \<Rightarrow> nat" and xs
    by (metis set_empty set_sort)
  assume "compilePredicates re_compile ps n = Inr (cps, n')"
  then show ?thesis
    by (auto simp: compilePredicates_def preds_compiled_def nil dest!: compile_loop_ok split: sum.splits)
qed

lemma allPredicates_compiled:
  assumes "preds_compiled re_compile ps cps"
  shows "allPredicates cps d = Some (list_all (\<lambda>p. pred_holds re_compile p d) ps)"
proof -
  define h where "h = (\<lambda>cp. the (matchPredicate cp d))"
  have h: "matchPredicate cp d = Some (h cp)" if "cp \<in> set cps" for cp
    using assms that by (fastforce simp: preds_compiled_def compiled_def h_def)
  have "\<forall>cp \<in> set cps. matchPredicate cp d = Some (h cp) \<Longrightarrow> allPredicates cps d = Some (list_all h cps)" for cps
    by (induction cps) auto
  then have "allPredicates cps d = Some (list_all h cps)" using h by blast
  moreover have "list_all h cps = list_all (\<lambda>p. pred_holds re_compile p d) ps"
    using assms by (fastforce simp: preds_compiled_def compiled_def list_all_iff h_def)
  ultimately show ?thesis by simp
qed

lemma anyPredicates_compiled:
  assumes "preds_compiled re_compile ps cps"
  shows "anyPredicates cps d = Some (list_ex (\<lambda>p. pred_holds re_compile p d) ps)"
proof -
  define h where "h = (\<lambda>cp. the (matchPredicate cp d))"
  have hh: "compiled re_compile p cp \<Longrightarrow> h cp = pred_holds re_compile p d" for p cp
    by (simp add: compiled_def h_def)
  have "anyPredicates cps d = Some (list_ex h cps)"
    unfolding anyPredicates_def using assms
    by (intro any_run_eq) (fastforce simp: preds_compiled_def compiled_def h_def)
  moreover have "list_ex h cps = list_ex (\<lambda>p. pred_holds re_compile p d) ps"
    using assms hh unfolding preds_compiled_def list_ex_iff by metis
  ultimately show ?thesis by simp
qed

lemma text_field_small: "isTextField f \<Longrightarrow> unat f < 16"
  by (auto simp: isTextField_def match_field_defs word_le_nat_alt)

lemma bit_field: "isTextField f \<Longrightarrow> bit (2 ^ unat f :: u16) n \<longleftrightarrow> n = unat f"
  using text_field_small [of f] by (auto simp: bit_exp_iff possible_bit_def)

lemma bit_required:
  "bit (required_fields cps acc) n \<longleftrightarrow> bit acc n \<or> (\<exists>cp \<in> set cps. isTextField (pr_Field cp) \<and> n = unat (pr_Field cp))"
  by (induction cps arbitrary: acc) (auto simp: bit_or_iff bit_field)

lemma isTextField_simps [simp]:
  "isTextField MatchFieldSystemName" "isTextField MatchFieldHostName" "isTextField MatchFieldDeviceID"
  "isTextField MatchFieldModel" "isTextField MatchFieldPlatform" "isTextField MatchFieldSoftwareVersion"
  "isTextField MatchFieldServiceInstance" "isTextField MatchFieldServiceType" "isTextField MatchFieldServiceTXT"
  by (simp_all add: isTextField_def match_field_defs)

lemma isTextField_cases:
  assumes "isTextField f"
  obtains "f = MatchFieldSystemName" | "f = MatchFieldHostName" | "f = MatchFieldDeviceID" | "f = MatchFieldModel"
  | "f = MatchFieldPlatform" | "f = MatchFieldSoftwareVersion" | "f = MatchFieldServiceInstance"
  | "f = MatchFieldServiceType" | "f = MatchFieldServiceTXT"
proof -
  obtain k where k: "f = of_nat k" "k = unat f" by simp
  have "5 \<le> k" "k \<le> 13"
    using assms by (simp_all add: k(2) isTextField_def match_field_defs word_le_nat_alt)
  then consider "k = 5" | "k = 6" | "k = 7" | "k = 8" | "k = 9" | "k = 10" | "k = 11" | "k = 12" | "k = 13" by linarith
  then show ?thesis
    using that unfolding k(1) match_field_defs by cases simp_all
qed

lemma bit_service_fields:
  "bit (service_fields ss acc) n \<longleftrightarrow> bit acc n \<or>
     n = unat MatchFieldServiceInstance \<and> (\<exists>s \<in> set ss. svc_Instance s \<noteq> []) \<or>
     n = unat MatchFieldServiceType \<and> (\<exists>s \<in> set ss. svc_Type s \<noteq> []) \<or>
     n = unat MatchFieldServiceTXT \<and> (\<exists>s \<in> set ss. svc_TXT s \<noteq> [])"
  by (induction ss arbitrary: acc) (auto simp: Let_def bit_or_iff field_bit_def bit_field)

lemma bit_text_fields:
  "\<forall>(f, tf) \<in> set es. isTextField f \<Longrightarrow>
   bit (text_fields es acc) n \<longleftrightarrow> bit acc n \<or> (\<exists>(f, tf) \<in> set es. n = unat f \<and> Values tf \<noteq> [])"
proof (induction es arbitrary: acc)
  case (Cons e es)
  obtain f tf where "e = (f, tf)" by (cases e)
  with Cons show ?case by (simp add: bit_or_iff field_bit_def bit_field)
qed simp

lemma bit_populated:
  assumes "isTextField f"
  shows "bit (populatedTextFields d) (unat f) \<longleftrightarrow> has_text d f"
proof -
  have b: "bit (populatedTextFields d) n \<longleftrightarrow>
     n = unat MatchFieldSystemName \<and> Values (dev_SystemName d) \<noteq> [] \<or>
     n = unat MatchFieldHostName \<and> Values (dev_HostName d) \<noteq> [] \<or>
     n = unat MatchFieldDeviceID \<and> Values (dev_ProtocolDeviceID d) \<noteq> [] \<or>
     n = unat MatchFieldModel \<and> Values (dev_Model d) \<noteq> [] \<or>
     n = unat MatchFieldPlatform \<and> Values (dev_Platform d) \<noteq> [] \<or>
     n = unat MatchFieldSoftwareVersion \<and> Values (dev_SoftwareVersion d) \<noteq> [] \<or>
     n = unat MatchFieldServiceInstance \<and> (\<exists>s \<in> set (live (dev_Services d)). svc_Instance s \<noteq> []) \<or>
     n = unat MatchFieldServiceType \<and> (\<exists>s \<in> set (live (dev_Services d)). svc_Type s \<noteq> []) \<or>
     n = unat MatchFieldServiceTXT \<and> (\<exists>s \<in> set (live (dev_Services d)). svc_TXT s \<noteq> [])" for n
    unfolding populatedTextFields_def bit_service_fields by (subst bit_text_fields) simp_all
  show ?thesis
    using assms
    by (cases rule: isTextField_cases) (simp_all add: b has_text_def field_texts_def match_field_defs list_ex_iff)
qed

lemma and_eq_left_iff: "a AND b = a \<longleftrightarrow> (\<forall>n. bit a n \<longrightarrow> bit b n)" for a b :: "'a :: len word"
proof
  assume "a AND b = a"
  then show "\<forall>n. bit a n \<longrightarrow> bit b n" by (metis bit_and_iff)
next
  assume "\<forall>n. bit a n \<longrightarrow> bit b n"
  then show "a AND b = a" by (intro bit_word_eqI) (auto simp: bit_and_iff)
qed

lemma required_available:
  assumes "preds_compiled re_compile ps cps"
  shows "required_fields cps 0 AND populatedTextFields d = required_fields cps 0 \<longleftrightarrow>
    list_all (\<lambda>p. isTextField (pr_Field p) \<longrightarrow> has_text d (pr_Field p)) ps"
proof -
  have "required_fields cps 0 AND populatedTextFields d = required_fields cps 0 \<longleftrightarrow>
    (\<forall>cp \<in> set cps. isTextField (pr_Field cp) \<longrightarrow> has_text d (pr_Field cp))"
    unfolding and_eq_left_iff by (auto simp: bit_required bit_populated)
  also have "\<dots> \<longleftrightarrow> (\<forall>p \<in> set ps. isTextField (pr_Field p) \<longrightarrow> has_text d (pr_Field p))"
    using assms unfolding preds_compiled_def compiled_def by metis
  finally show ?thesis by (simp add: list_all_iff)
qed

lemma protocol_possible_iff:
  "protocol_possible cps observed \<longleftrightarrow> (\<forall>cp \<in> set cps. pr_Op cp = MatchProtocol \<longrightarrow> observed AND pr_Protocol cp \<noteq> 0)"
  by (induction cps) auto

definition rule_compiled :: "(bytes \<Rightarrow> (bytes \<Rightarrow> bool) option) \<Rightarrow> nat \<times> Rule \<Rightarrow> compiledRule \<Rightarrow> bool" where
  "rule_compiled re_compile ir cr =
     (case ir of (i, r) \<Rightarrow>
        cr_name cr = rule_Name r \<and> cr_class cr = rule_Class r \<and>
        precedence cr = (- rule_Priority r, - int (length (rule_All r) + length (rule_Any r) + length (rule_None r)), i) \<and>
        (\<forall>d. rule_applies cr d (populatedTextFields d) = Some (rule_holds re_compile r d)) \<and>
        (\<forall>d. rule_holds re_compile r d \<longrightarrow> protocol_possible (cr_all cr) (dev_Protocols d AND ProtocolsAll)))"

lemma compileRule_ok:
  assumes "compileRule re_compile i r n = Inr (cr, n')"
  shows "rule_compiled re_compile (i, r) cr"
proof -
  obtain all any none n1 n2 where c: "compilePredicates re_compile (rule_All r) n = Inr (all, n1)"
    "compilePredicates re_compile (rule_Any r) n1 = Inr (any, n2)"
    "compilePredicates re_compile (rule_None r) n2 = Inr (none, n')"
    and cr: "cr = \<lparr>cr_name = rule_Name r, cr_class = rule_Class r, cr_priority = rule_Priority r,
       cr_specificity = length (rule_All r) + length (rule_Any r) + length (rule_None r),
       cr_order = i, cr_all = all, cr_any = any, cr_none = none, cr_required = required_fields all 0\<rparr>"
    using assms by (auto simp: compileRule_def split: if_splits sum.splits)
  note ok = c [THEN compilePredicates_ok]
  have any: "any = [] \<longleftrightarrow> rule_Any r = []" using ok(2) by (simp add: preds_compiled_def)
  have "rule_applies cr d (populatedTextFields d) = Some (rule_holds re_compile r d)" for d
    using any
    by (simp add: rule_applies_def cr required_available [OF ok(1)] allPredicates_compiled [OF ok(1)]
        anyPredicates_compiled [OF ok(2)] anyPredicates_compiled [OF ok(3)] rule_holds_def)
       (auto simp: list_all_iff)
  moreover have "protocol_possible all (dev_Protocols d AND ProtocolsAll)" if "rule_holds re_compile r d" for d
    unfolding protocol_possible_iff
  proof (intro ballI impI)
    fix cp assume "cp \<in> set all" "pr_Op cp = MatchProtocol"
    then obtain p where p: "p \<in> set (rule_All r)" "pr_Op p = MatchProtocol" "pr_Protocol cp = pr_Protocol p"
      "pr_Protocol p AND NOT ProtocolsAll = 0"
      using ok(1) by (fastforce simp: preds_compiled_def compiled_def)
    then have "dev_Protocols d AND pr_Protocol p \<noteq> 0"
      using that by (auto simp: rule_holds_def list_all_iff pred_holds_def)
    moreover have "(dev_Protocols d AND ProtocolsAll) AND pr_Protocol p = dev_Protocols d AND pr_Protocol p"
      using p(4) by (auto simp: bit_eq_iff bit_simps)
    ultimately show "(dev_Protocols d AND ProtocolsAll) AND pr_Protocol cp \<noteq> 0" by (simp add: p(3))
  qed
  ultimately show ?thesis by (simp add: rule_compiled_def cr precedence_def)
qed

lemma compile_rules_ok:
  "compile_rules re_compile i rs n = Inr crs \<Longrightarrow> list_all2 (rule_compiled re_compile) (enumerate i rs) crs"
  by (induction rs arbitrary: i n crs) (auto split: sum.splits dest: compileRule_ok)

section \<open>The candidate index\<close>

lemma candidate_row_ok:
  "length row = 4 \<Longrightarrow> i + length rs \<le> 256 \<Longrightarrow>
   runs (candidate_row rs i observed row) (\<lambda>row'. length row' = 4 \<and>
     (\<forall>j < 4. \<forall>n < 64. bit (row' ! j) n \<longleftrightarrow> bit (row ! j) n \<or>
        (i \<le> j * 64 + n \<and> j * 64 + n < i + length rs \<and> protocol_possible (cr_all (rs ! (j * 64 + n - i))) observed)))"
proof (induction rs arbitrary: i row)
  case Nil
  then show ?case by (auto simp: wp)
next
  case (Cons r rs)
  have q: "i div 64 < 4" using Cons.prems by auto
  define row1 where "row1 = (if protocol_possible (cr_all r) observed
     then row[i div 64 := row ! (i div 64) OR push_bit (i mod 64) 1] else row)"
  have b: "bit (row1 ! j) n \<longleftrightarrow> bit (row ! j) n \<or> (j * 64 + n = i \<and> protocol_possible (cr_all r) observed)"
    if "j < 4" "n < 64" for j n
  proof -
    have e: "j * 64 + n = i \<longleftrightarrow> j = i div 64 \<and> n = i mod 64"
    proof
      assume "j * 64 + n = i"
      then have "i = n + j * 64" by simp
      with that(2) show "j = i div 64 \<and> n = i mod 64" by simp
    next
      assume "j = i div 64 \<and> n = i mod 64"
      then show "j * 64 + n = i" using div_mult_mod_eq [of i 64] by simp
    qed
    have p: "bit (push_bit (i mod 64) 1 :: u64) n \<longleftrightarrow> n = i mod 64" by (auto simp: bit_exp_iff possible_bit_def)
    show ?thesis
      unfolding e using Cons.prems(1) q that(1)
      by (cases "j = i div 64") (simp_all only: row1_def nth_list_update_eq nth_list_update_neq bit_or_iff p if_distrib [of "\<lambda>w. bit (w ! _) _"] simp_thms split: if_split, blast)
  qed
  have "runs (candidate_row rs (i + 1) observed row1) (\<lambda>row'. length row' = 4 \<and>
     (\<forall>j < 4. \<forall>n < 64. bit (row' ! j) n \<longleftrightarrow> bit (row1 ! j) n \<or>
        (i + 1 \<le> j * 64 + n \<and> j * 64 + n < i + 1 + length rs \<and> protocol_possible (cr_all (rs ! (j * 64 + n - (i + 1)))) observed)))"
    using Cons.prems by (intro Cons.IH) (simp_all add: row1_def)
  then have "runs (candidate_row rs (i + 1) observed row1) (\<lambda>row'. length row' = 4 \<and>
     (\<forall>j < 4. \<forall>n < 64. bit (row' ! j) n \<longleftrightarrow> bit (row ! j) n \<or>
        (i \<le> j * 64 + n \<and> j * 64 + n < i + length (r # rs) \<and> protocol_possible (cr_all ((r # rs) ! (j * 64 + n - i))) observed)))"
  proof (rule runs_mono)
    fix row' :: "u64 list"
    assume *: "length row' = 4 \<and> (\<forall>j < 4. \<forall>n < 64. bit (row' ! j) n \<longleftrightarrow> bit (row1 ! j) n \<or>
        (i + 1 \<le> j * 64 + n \<and> j * 64 + n < i + 1 + length rs \<and> protocol_possible (cr_all (rs ! (j * 64 + n - (i + 1)))) observed))"
    have "(k = i \<and> protocol_possible (cr_all r) observed) \<or>
        (i + 1 \<le> k \<and> k < i + 1 + length rs \<and> protocol_possible (cr_all (rs ! (k - (i + 1)))) observed) \<longleftrightarrow>
        (i \<le> k \<and> k < i + length (r # rs) \<and> protocol_possible (cr_all ((r # rs) ! (k - i))) observed)" for k
    proof (cases "k = i")
      case False
      then have "i \<le> k \<longleftrightarrow> i + 1 \<le> k" "i + 1 \<le> k \<Longrightarrow> (r # rs) ! (k - i) = rs ! (k - (i + 1))"
        by (auto simp: nth_Cons' diff_diff_left)
      with False show ?thesis by auto
    qed auto
    note step = this
    show "length row' = 4 \<and> (\<forall>j < 4. \<forall>n < 64. bit (row' ! j) n \<longleftrightarrow> bit (row ! j) n \<or>
        (i \<le> j * 64 + n \<and> j * 64 + n < i + length (r # rs) \<and> protocol_possible (cr_all ((r # rs) ! (j * 64 + n - i))) observed))"
    proof (intro conjI allI impI)
      fix j n :: nat assume jn: "j < 4" "n < 64"
      show "bit (row' ! j) n \<longleftrightarrow> bit (row ! j) n \<or>
        (i \<le> j * 64 + n \<and> j * 64 + n < i + length (r # rs) \<and> protocol_possible (cr_all ((r # rs) ! (j * 64 + n - i))) observed)"
        unfolding step [symmetric] using * jn b [OF jn] by blast
    qed (use * in blast)
  qed
  then show ?case
    using q Cons.prems(1) by (auto simp: wp row1_def split: if_splits)
qed


lemma candidate_rows_ok:
  "length rs \<le> 256 \<Longrightarrow>
   runs (candidate_rows rs bs) (\<lambda>rows. length rows = length bs \<and>
     (\<forall>b < length bs. length (rows ! b) = 4 \<and>
        (\<forall>j < 4. \<forall>n < 64. bit (rows ! b ! j) n \<longleftrightarrow>
           j * 64 + n < length rs \<and> protocol_possible (cr_all (rs ! (j * 64 + n))) (of_nat (bs ! b)))))"
proof (induction bs)
  case Nil
  then show ?case by (simp add: wp)
next
  case (Cons b bs)
  have row: "runs (candidate_row rs 0 (of_nat b) (replicate 4 0)) (\<lambda>row. length row = 4 \<and>
     (\<forall>j < 4. \<forall>n < 64. bit (row ! j) n \<longleftrightarrow>
        j * 64 + n < length rs \<and> protocol_possible (cr_all (rs ! (j * 64 + n))) (of_nat b)))"
    by (rule runs_mono [OF candidate_row_ok]) (use Cons.prems in auto)
  show ?case
    unfolding candidate_rows.simps runs_bind
    by (rule runs_mono [OF row], rule runs_mono [OF Cons.IH [OF Cons.prems]])
       (auto simp: wp nth_Cons' less_Suc_eq_0_disj)
qed

section \<open>Classification\<close>

text \<open>The rules in the order of precedence, with their position in the configuration.\<close>

definition ranked :: "Rule list \<Rightarrow> (nat \<times> Rule) list" where
  "ranked rules =
     sort_key (\<lambda>(i, r). (- rule_Priority r, - int (length (rule_All r) + length (rule_Any r) + length (rule_None r)), i))
       (enumerate 0 rules)"

lemma list_all2_insort_key:
  "list_all2 R xs ys \<Longrightarrow> R x y \<Longrightarrow> (\<And>x y. R x y \<Longrightarrow> f x = g y) \<Longrightarrow> list_all2 R (insort_key f x xs) (insort_key g y ys)"
  by (induction xs ys rule: list_all2_induct) auto

lemma list_all2_sort_key:
  "list_all2 R xs ys \<Longrightarrow> (\<And>x y. R x y \<Longrightarrow> f x = g y) \<Longrightarrow> list_all2 R (sort_key f xs) (sort_key g ys)"
  by (induction xs ys rule: list_all2_induct) (auto simp: sort_key_def intro: list_all2_insort_key)

lemma find_list_all2:
  "list_all2 R xs ys \<Longrightarrow> (\<And>x y. R x y \<Longrightarrow> P x = Q y) \<Longrightarrow> rel_option R (find P xs) (find Q ys)"
  by (induction xs ys rule: list_all2_induct) auto

lemma CompileClassifier_runs:
  "runs (CompileClassifier re_compile rules) (\<lambda>res. case res of Inl e \<Rightarrow> True | Inr c \<Rightarrow>
     list_all2 (rule_compiled re_compile) (ranked rules) (cl_rules c) \<and> length (cl_rules c) \<le> 256 \<and>
     length (cl_protocolCandidates c) = 16 \<and>
     (\<forall>b < 16. length (cl_protocolCandidates c ! b) = 4 \<and>
        (\<forall>j < 4. \<forall>n < 64. bit (cl_protocolCandidates c ! b ! j) n \<longleftrightarrow>
           j * 64 + n < length (cl_rules c) \<and> protocol_possible (cr_all (cl_rules c ! (j * 64 + n))) (of_nat b))))"
proof (cases "length rules > DefaultMaxClassification")
  case True
  then show ?thesis by (simp add: CompileClassifier_def wp)
next
  case few: False
  show ?thesis
  proof (cases "compile_rules re_compile 0 rules 0")
    case (Inl e)
    with few show ?thesis by (simp add: CompileClassifier_def wp)
  next
    case (Inr crs)
    let ?rs = "sort_key precedence crs"
    have ok: "list_all2 (rule_compiled re_compile) (enumerate 0 rules) crs" by (rule compile_rules_ok [OF Inr])
    have sorted: "list_all2 (rule_compiled re_compile) (ranked rules) ?rs"
      unfolding ranked_def by (rule list_all2_sort_key [OF ok]) (auto simp: rule_compiled_def)
    have len: "length ?rs \<le> 256"
      using list_all2_lengthD [OF ok] few by (simp add: DefaultMaxClassification_def)
    show ?thesis
      using few Inr sorted len candidate_rows_ok [OF len, of "[0 ..< 16]"]
      by (auto simp: CompileClassifier_def wp Let_def elim!: runs_mono)
  qed
qed

lemma Classify_compiled:
  assumes "CompileClassifier re_compile rules = Some (Inr c)"
  shows "Classify (Some c) (Some d) =
    Some (case find (\<lambda>(i, r). rule_holds re_compile r d) (ranked rules) of
            Some (i, r) \<Rightarrow> (rule_Class r, rule_Name r, True) | None \<Rightarrow> ([], [], False))"
proof -
  let ?rs = "cl_rules c" and ?b = "unat (dev_Protocols d AND ProtocolsAll)"
  from runs_SomeD [OF CompileClassifier_runs assms]
  have rules: "list_all2 (rule_compiled re_compile) (ranked rules) ?rs" "length ?rs \<le> 256"
    and rows: "length (cl_protocolCandidates c) = 16"
      "\<And>b. b < 16 \<Longrightarrow> length (cl_protocolCandidates c ! b) = 4"
      "\<And>b j n. b < 16 \<Longrightarrow> j < 4 \<Longrightarrow> n < 64 \<Longrightarrow> bit (cl_protocolCandidates c ! b ! j) n \<longleftrightarrow>
         j * 64 + n < length ?rs \<and> protocol_possible (cr_all (?rs ! (j * 64 + n))) (of_nat b)"
    by auto
  have "dev_Protocols d AND ProtocolsAll \<le> 15" by (simp add: ProtocolsAll_eq word_and_le1)
  then have b: "?b < 16" by (simp add: word_le_nat_alt)
  define H where "H = (\<lambda>cr. the (rule_applies cr d (populatedTextFields d)))"
  have H: "rule_compiled re_compile ir cr \<Longrightarrow> H cr = rule_holds re_compile (snd ir) d" for ir cr
    by (auto simp: rule_compiled_def H_def)
  have src: "\<exists>ir. rule_compiled re_compile ir (?rs ! i)" if "i < length ?rs" for i
    using list_all2_nthD2 [OF rules(1) that] by blast
  have ap: "rule_applies (?rs ! i) d (populatedTextFields d) = Some (H (?rs ! i))" if "i < length ?rs" for i
    using src [OF that] by (auto simp: rule_compiled_def H_def)
  have poss: "H (?rs ! i) \<Longrightarrow> protocol_possible (cr_all (?rs ! i)) (dev_Protocols d AND ProtocolsAll)"
    if "i < length ?rs" for i
    using src [OF that] by (auto simp: rule_compiled_def H_def)
  define cand where "cand = (\<lambda>i. i < length ?rs \<and> protocol_possible (cr_all (?rs ! i)) (dev_Protocols d AND ProtocolsAll))"
  have "mask_loop c d (populatedTextFields d) 0 (cl_protocolCandidates c ! ?b) =
      Some (map_option (nth ?rs) (find (\<lambda>i. cand i \<and> H (?rs ! i))
        [0 * 64 ..< (0 + length (cl_protocolCandidates c ! ?b)) * 64]))"
    by (rule mask_loop_eq) (use ap rows(2,3) b in \<open>simp_all add: cand_def\<close>)
  also have "find (\<lambda>i. cand i \<and> H (?rs ! i)) [0 * 64 ..< (0 + length (cl_protocolCandidates c ! ?b)) * 64] =
      find (\<lambda>i. i < length ?rs \<and> H (?rs ! i)) [0 ..< 256]"
    using rows(2) b poss by (auto simp: cand_def intro!: find_cong_set)
  also have "map_option (nth ?rs) \<dots> = find H ?rs" by (rule find_index [OF rules(2)])
  finally have m: "mask_loop c d (populatedTextFields d) 0 (cl_protocolCandidates c ! ?b) = Some (find H ?rs)" .
  have "rel_option (rule_compiled re_compile) (find (\<lambda>(i, r). rule_holds re_compile r d) (ranked rules)) (find H ?rs)"
    by (rule find_list_all2 [OF rules(1)]) (auto simp: H)
  then show ?thesis
    using rows(1) b m by (auto simp: Classify_def Let_def rule_compiled_def split: option.splits elim!: option.rel_cases)
qed

text \<open>
  (C22) The classifier is equivalent to its meaning: compiling never panics, and if it succeeds, then for
  every device the compiled classifier answers without a panic with class and name of the first rule, by
  priority, then number of predicates, then position, whose predicates hold, and with nothing when none
  does. The index by protocols, the bit masks, the reordering of predicates and the pruning of rules by
  populated fields do not change the answer, where an empty service text counts as no text.
\<close>

theorem Classify_first_rule:
  "\<exists>res. CompileClassifier re_compile rules = Some res \<and>
     (\<forall>c. res = Inr c \<longrightarrow> (\<forall>d. Classify (Some c) (Some d) =
        Some (case find (\<lambda>(i, r). rule_holds re_compile r d) (ranked rules) of
                Some (i, r) \<Rightarrow> (rule_Class r, rule_Name r, True) | None \<Rightarrow> ([], [], False))))"
  using runs_exD [OF CompileClassifier_runs [of re_compile rules]] Classify_compiled by blast

definition sample_predicate :: Predicate where
  "sample_predicate =
     \<lparr>pr_Field = MatchFieldSystemName, pr_Op = MatchExact, pr_Value = [0x73], pr_Pattern = [], pr_Protocol = 0,
      pr_MACPrefix = \<lparr>mp_Address = zero_mac, mp_Bits = 0\<rparr>, pr_IPPrefix = \<lparr>pfx_addr = AddrNone, pfx_bits = None\<rparr>,
      pr_Capability = 0, pr_FoldASCII = True\<rparr>"

definition sample_rules :: "Rule list" where
  "sample_rules =
     [\<lparr>rule_Name = [1], rule_Class = [2], rule_Priority = 0, rule_All = [sample_predicate], rule_Any = [], rule_None = []\<rparr>,
      \<lparr>rule_Name = [3], rule_Class = [4], rule_Priority = 9, rule_All = [], rule_Any = [], rule_None = [sample_predicate]\<rparr>]"

definition sample_classified :: DiscoveredDevice where
  "sample_classified = zero_device\<lparr>dev_SystemName :=
     \<lparr>Values = [\<lparr>tv_Value = [0x53], tv_Protocols = 1, tv_Confidence = 3, tv_FirstSeen = 5, tv_LastSeen = 5\<rparr>], Canonical = 0\<rparr>\<rparr>"

lemma Classify_first_rule_witness:
  "\<exists>c. CompileClassifier (\<lambda>_. None) sample_rules = Some (Inr c) \<and>
     Classify (Some c) (Some sample_classified) = Some ([2], [1], True) \<and>
     Classify (Some c) (Some zero_device) = Some ([4], [3], True)"
proof -
  obtain res where res: "CompileClassifier (\<lambda>_. None) sample_rules = Some res"
    "\<forall>c. res = Inr c \<longrightarrow> (\<forall>d. Classify (Some c) (Some d) =
        Some (case find (\<lambda>(i, r). rule_holds (\<lambda>_. None) r d) (ranked sample_rules) of
                Some (i, r) \<Rightarrow> (rule_Class r, rule_Name r, True) | None \<Rightarrow> ([], [], False)))"
    using Classify_first_rule by blast
  obtain crs where "compile_rules (\<lambda>_. None) 0 sample_rules 0 = Inr crs"
    by (simp add: sample_rules_def sample_predicate_def compileRule_def compilePredicates_def compilePredicate_def
        match_op_defs Let_def)
  then obtain c where c: "res = Inr c"
    using res(1) by (auto simp: CompileClassifier_def sample_rules_def DefaultMaxClassification_def Let_def bind_eq_Some_conv')
  have "find (\<lambda>(i, r). rule_holds (\<lambda>_. None) r sample_classified) (ranked sample_rules) = Some (0, sample_rules ! 0)"
    "find (\<lambda>(i, r). rule_holds (\<lambda>_. None) r zero_device) (ranked sample_rules) = Some (1, sample_rules ! 1)"
    by code_simp+
  then show ?thesis using res c by (simp add: sample_rules_def)
qed

end
