(* ===== verification/TextFields.thy ===== *)
theory TextFields
  imports Utils
begin

text \<open>
  The ranked text values of \<open>pkg/omnidiscover/fusion.go\<close>: \<open>mergeText\<close>, \<open>mergeTextField\<close>,
  \<open>selectCanonical\<close> and \<open>textRank\<close>. A field keeps a bounded number of distinct values with the
  protocols and the confidence they were seen with, and the index of the best one.
\<close>

section \<open>The code\<close>

text \<open>\<open>cleanText\<close> of \<open>bytes.go\<close>.\<close>

definition cleanText :: "bytes \<Rightarrow> bytes run" where
  "cleanText b = CleanText b"

text \<open>\<open>bits.OnesCount8\<close>\<close>

definition OnesCount8 :: "u8 \<Rightarrow> nat" where
  "OnesCount8 w = length (filter (bit w) [0 ..< 8])"

definition rank :: "u8 \<Rightarrow> ProtocolSet \<Rightarrow> nat" where
  "rank confidence protocols = unat confidence * 16 + OnesCount8 protocols"

definition textRank :: "TextValue \<Rightarrow> nat" where
  "textRank v = rank (tv_Confidence v) (tv_Protocols v)"

text \<open>The loop of \<open>selectCanonical\<close>, over the remaining indices.\<close>

fun canonical_loop :: "TextValue list \<Rightarrow> nat list \<Rightarrow> nat \<Rightarrow> nat run" where
  "canonical_loop vs [] best = Some best"
| "canonical_loop vs (i # is) best = do {
     v \<leftarrow> idx vs i;
     b \<leftarrow> idx vs best;
     canonical_loop vs is (if textRank v > textRank b then i else best)
   }"

definition selectCanonical :: "TextField \<Rightarrow> TextField run" where
  "selectCanonical field =
     (if Values field = [] then Some (field\<lparr>Canonical := 0\<rparr>)
      else do {
        let cur = unat (Canonical field);
        let cur = (if cur \<ge> length (Values field) then 0 else cur);
        best \<leftarrow> canonical_loop (Values field) [0 ..< length (Values field)] cur;
        Some (field\<lparr>Canonical := of_nat best\<rparr>)
      })"

text \<open>The index of the first value with the given bytes.\<close>

fun find_text :: "TextValue list \<Rightarrow> bytes \<Rightarrow> nat \<Rightarrow> nat option" where
  "find_text [] value i = None"
| "find_text (v # vs) value i = (if tv_Value v = value then Some i else find_text vs value (i + 1))"

text \<open>The branch for a value the field already holds.\<close>

definition refresh_text :: "TextValue \<Rightarrow> ProtocolSet \<Rightarrow> u8 \<Rightarrow> Time \<Rightarrow> bool \<times> TextValue" where
  "refresh_text v protocols confidence now =
     (let changed = (tv_Protocols v OR protocols \<noteq> tv_Protocols v);
          v = v\<lparr>tv_Protocols := tv_Protocols v OR protocols\<rparr>;
          changed = (changed \<or> confidence > tv_Confidence v);
          v = (if confidence > tv_Confidence v then v\<lparr>tv_Confidence := confidence\<rparr> else v);
          v = (if now > tv_LastSeen v then v\<lparr>tv_LastSeen := now\<rparr> else v)
      in (changed, v))"

definition new_text :: "bytes \<Rightarrow> ProtocolSet \<Rightarrow> u8 \<Rightarrow> Time \<Rightarrow> TextValue" where
  "new_text value protocols confidence now =
     \<lparr>tv_Value = value, tv_Protocols = protocols, tv_Confidence = confidence,
      tv_FirstSeen = now, tv_LastSeen = now\<rparr>"

text \<open>The loop that looks for the weakest value that is not the canonical one.\<close>

fun weakest_loop :: "TextValue list \<Rightarrow> nat \<Rightarrow> nat list \<Rightarrow> nat option \<Rightarrow> nat option run" where
  "weakest_loop vs canonical [] replace = Some replace"
| "weakest_loop vs canonical (i # is) replace =
     (if i = canonical then weakest_loop vs canonical is replace
      else do {
        v \<leftarrow> idx vs i;
        replace \<leftarrow> (case replace of
            None \<Rightarrow> Some (Some i)
          | Some r \<Rightarrow> do {
              w \<leftarrow> idx vs r;
              Some (if textRank v < textRank w \<or> textRank v = textRank w \<and> tv_LastSeen v < tv_LastSeen w
                    then Some i else Some r)
            });
        weakest_loop vs canonical is replace
      })"

definition mergeText ::
  "TextField \<Rightarrow> bytes \<Rightarrow> ProtocolSet \<Rightarrow> u8 \<Rightarrow> Time \<Rightarrow> int \<Rightarrow> (bool \<times> TextField) run" where
  "mergeText field value protocols confidence now maxAlternatives = do {
     value \<leftarrow> cleanText value;
     if value = [] then Some (False, field)
     else (case find_text (Values field) value 0 of
       Some i \<Rightarrow> do {
         v \<leftarrow> idx (Values field) i;
         let (changed, v) = refresh_text v protocols confidence now;
         field \<leftarrow> selectCanonical (field\<lparr>Values := (Values field)[i := v]\<rparr>);
         Some (changed, field)
       }
     | None \<Rightarrow>
         if int (length (Values field)) < maxAlternatives + 1 then do {
           field \<leftarrow> selectCanonical
             (field\<lparr>Values := Values field @ [new_text value protocols confidence now]\<rparr>);
           Some (True, field)
         }
         else do {
           replace \<leftarrow> weakest_loop (Values field) (unat (Canonical field)) [0 ..< length (Values field)] None;
           case replace of
             None \<Rightarrow> Some (False, field)
           | Some r \<Rightarrow> do {
               w \<leftarrow> idx (Values field) r;
               if rank confidence protocols < textRank w then Some (False, field)
               else do {
                 field \<leftarrow> selectCanonical
                   (field\<lparr>Values := (Values field)[r := new_text value protocols confidence now]\<rparr>);
                 Some (True, field)
               }
             }
         })
   }"

text \<open>\<open>mergeTextField\<close>: every value of another field, in order.\<close>

fun merge_values :: "TextField \<Rightarrow> TextValue list \<Rightarrow> int \<Rightarrow> TextField run" where
  "merge_values dst [] maxAlternatives = Some dst"
| "merge_values dst (v # vs) maxAlternatives = do {
     (_, dst) \<leftarrow> mergeText dst (tv_Value v) (tv_Protocols v) (tv_Confidence v) (tv_LastSeen v) maxAlternatives;
     merge_values dst vs maxAlternatives
   }"

definition mergeTextField :: "TextField \<Rightarrow> TextField \<Rightarrow> int \<Rightarrow> TextField run" where
  "mergeTextField dst src maxAlternatives = merge_values dst (Values src) maxAlternatives"

section \<open>The invariant of a field\<close>

text \<open>
  At most \<open>n\<close> values, trimmed, not empty and distinct; the canonical index points to a value of the
  highest rank.
\<close>

definition best :: "TextValue list \<Rightarrow> nat \<Rightarrow> bool" where
  "best vs k = (k < length vs \<and> (\<forall>v \<in> set vs. textRank v \<le> textRank (vs ! k)))"

definition text_ok :: "nat \<Rightarrow> TextField \<Rightarrow> bool" where
  "text_ok n f =
     (length (Values f) \<le> n \<and> distinct (map tv_Value (Values f)) \<and>
      (\<forall>v \<in> set (Values f). tv_Value v \<noteq> [] \<and> trim (tv_Value v) = tv_Value v) \<and>
      (Values f \<noteq> [] \<longrightarrow> best (Values f) (unat (Canonical f))))"

lemma text_ok_empty [simp]: "text_ok n empty_field"
  by (simp add: text_ok_def empty_field_def)

lemma text_ok_reset [simp]: "text_ok n (resetTextField f)"
  by (simp add: text_ok_def resetTextField_def)

lemma trim_trim [simp]: "trim (trim b) = trim b"
proof -
  have "dropWhile isTrimByte (trim b) = trim b"
  proof (cases "trim b")
    case (Cons x xs)
    define c where "c = dropWhile isTrimByte b"
    have "trim b = take (length (trim b)) c"
      by (metis c_def take_rev_dropWhile trim_def length_rev rev_rev_ident)
    then have "c \<noteq> []" using Cons by auto
    with \<open>trim b = take (length (trim b)) c\<close> have "x = hd c"
      using Cons by (metis hd_take list.sel(1) length_greater_0_conv list.discI)
    with \<open>c \<noteq> []\<close> have "\<not> isTrimByte x" unfolding c_def by (metis hd_dropWhile)
    then show ?thesis using Cons by simp
  qed simp
  then show ?thesis by (simp add: trim_def dropWhile_fixed)
qed

text \<open>\<open>selectCanonical\<close> keeps the values, and a canonical value that no other one beats.\<close>

lemma canonical_loop_runs:
  "\<forall>i \<in> set is. i < length vs \<Longrightarrow> b < length vs \<Longrightarrow>
   runs (canonical_loop vs is b) (\<lambda>k. k < length vs \<and> (\<forall>i \<in> insert b (set is). textRank (vs ! i) \<le> textRank (vs ! k)) \<and>
     ((\<forall>i \<in> set is. textRank (vs ! i) \<le> textRank (vs ! b)) \<longrightarrow> k = b))"
proof (induction "is" arbitrary: b)
  case Nil
  then show ?case by (simp add: wp)
next
  case (Cons i "is")
  define b' where "b' = (if textRank (vs ! i) > textRank (vs ! b) then i else b)"
  have "runs (canonical_loop vs is b') (\<lambda>k. k < length vs \<and>
     (\<forall>i \<in> insert b' (set is). textRank (vs ! i) \<le> textRank (vs ! k)) \<and>
     ((\<forall>i \<in> set is. textRank (vs ! i) \<le> textRank (vs ! b')) \<longrightarrow> k = b'))"
    using Cons.prems by (intro Cons.IH) (auto simp: b'_def)
  then show ?case
    using Cons.prems by (auto simp: wp b'_def elim!: runs_mono split: if_splits)
qed

lemma selectCanonical_runs:
  assumes "length (Values f) \<le> 256"
  shows "runs (selectCanonical f) (\<lambda>g. Values g = Values f \<and>
    (Values f \<noteq> [] \<longrightarrow> best (Values f) (unat (Canonical g))) \<and>
    (best (Values f) (unat (Canonical f)) \<longrightarrow> Canonical g = Canonical f))"
proof (cases "Values f = []")
  case True
  then show ?thesis by (simp add: selectCanonical_def wp best_def)
next
  case False
  define cur where "cur = (if unat (Canonical f) \<ge> length (Values f) then 0 else unat (Canonical f))"
  have "runs (canonical_loop (Values f) [0 ..< length (Values f)] cur)
    (\<lambda>k. k < length (Values f) \<and> (\<forall>i < length (Values f). textRank (Values f ! i) \<le> textRank (Values f ! k)) \<and>
       ((\<forall>i < length (Values f). textRank (Values f ! i) \<le> textRank (Values f ! cur)) \<longrightarrow> k = cur))"
    using False by (intro runs_mono [OF canonical_loop_runs]) (auto simp: cur_def)
  then have "runs (canonical_loop (Values f) [0 ..< length (Values f)] cur)
    (\<lambda>k. best (Values f) (unat (of_nat k :: u8)) \<and> (best (Values f) (unat (Canonical f)) \<longrightarrow> (of_nat k :: u8) = Canonical f))"
    using assms by (auto elim!: runs_mono simp: best_def cur_def all_set_conv_all_nth)
  then show ?thesis using False by (simp add: selectCanonical_def wp Let_def cur_def)
qed


text \<open>What the search for the weakest value finds.\<close>

lemma find_text_None: "find_text vs value i = None \<longleftrightarrow> value \<notin> tv_Value ` set vs"
  by (induction vs arbitrary: i) auto

lemma find_text_Some:
  "find_text vs value i = Some k \<Longrightarrow> i \<le> k \<and> k - i < length vs \<and> tv_Value (vs ! (k - i)) = value"
proof (induction vs arbitrary: i)
  case (Cons v vs)
  show ?case
  proof (cases "tv_Value v = value")
    case False
    with Cons.prems have "find_text vs value (Suc i) = Some k" by simp
    from Cons.IH [OF this] have "Suc i \<le> k" "k - Suc i < length vs" "tv_Value (vs ! (k - Suc i)) = value" by auto
    then show ?thesis by (simp add: nth_Cons' less_Suc_eq_le)
  qed (use Cons.prems in simp)
qed simp

lemma weakest_loop_runs:
  "\<forall>i \<in> set is. i < length vs \<Longrightarrow> \<forall>r. replace = Some r \<longrightarrow> r < length vs \<and> r \<noteq> c \<Longrightarrow>
   runs (weakest_loop vs c is replace)
     (\<lambda>k. (\<forall>r. k = Some r \<longrightarrow> r < length vs \<and> r \<noteq> c \<and>
             (\<forall>i \<in> set is \<union> set_option replace. i \<noteq> c \<longrightarrow> textRank (vs ! r) \<le> textRank (vs ! i))) \<and>
          (k = None \<longleftrightarrow> replace = None \<and> set is \<subseteq> {c}))"
proof (induction "is" arbitrary: replace)
  case Nil
  then show ?case by (auto simp: wp)
next
  case (Cons i "is")
  show ?case
  proof (cases "i = c")
    case True
    then show ?thesis using Cons.IH [of replace] Cons.prems by simp
  next
    case False
    have step: "runs (weakest_loop vs c is (Some j)) (\<lambda>k. (\<forall>r. k = Some r \<longrightarrow> r < length vs \<and> r \<noteq> c \<and>
        textRank (vs ! r) \<le> textRank (vs ! j) \<and> (\<forall>i \<in> set is. i \<noteq> c \<longrightarrow> textRank (vs ! r) \<le> textRank (vs ! i))) \<and> k \<noteq> None)"
      if "j < length vs" "j \<noteq> c" for j
      by (rule runs_mono [OF Cons.IH [of "Some j"]]) (use Cons.prems(1) that in auto)
    show ?thesis
    proof (cases replace)
      case None
      then show ?thesis using False Cons.prems
        by (auto simp: wp intro!: runs_mono [OF step])
    next
      case (Some r)
      have le: "textRank (vs ! k) \<le> textRank (vs ! i) \<and> textRank (vs ! k) \<le> textRank (vs ! r)"
        if "textRank (vs ! k) \<le> textRank (vs ! (if textRank (vs ! i) < textRank (vs ! r) \<or>
             textRank (vs ! i) = textRank (vs ! r) \<and> tv_LastSeen (vs ! i) < tv_LastSeen (vs ! r) then i else r))" for k
        using that by (auto split: if_splits)
      show ?thesis using False Cons.prems Some
        by (auto simp: wp intro!: runs_mono [OF step])
    qed
  qed
qed

section \<open>What a merge does\<close>

definition current :: "TextField \<Rightarrow> TextValue" where
  "current f = Values f ! unat (Canonical f)"

lemma OnesCount8_or: "OnesCount8 a \<le> OnesCount8 (a OR b)"
proof -
  have "length (filter P xs) \<le> length (filter Q xs)" if "\<And>x. P x \<Longrightarrow> Q x" for P Q and xs :: "nat list"
    using that by (induction xs) auto
  then show ?thesis by (simp add: OnesCount8_def bit_or_iff)
qed

lemma refresh_text_props:
  assumes "refresh_text v p c now = (changed, w)"
  shows "tv_Value w = tv_Value v" "textRank v \<le> textRank w" "tv_Protocols w = tv_Protocols v OR p"
    "tv_Confidence w = max (tv_Confidence v) c"
    "\<not> changed \<Longrightarrow> tv_Protocols w = tv_Protocols v \<and> tv_Confidence w = tv_Confidence v"
proof -
  have m: "unat (tv_Confidence v) \<le> unat (max (tv_Confidence v) c)" by (simp add: word_le_nat_alt [symmetric])
  show "tv_Value w = tv_Value v" "tv_Protocols w = tv_Protocols v OR p" "tv_Confidence w = max (tv_Confidence v) c"
    "\<not> changed \<Longrightarrow> tv_Protocols w = tv_Protocols v \<and> tv_Confidence w = tv_Confidence v"
    using assms by (auto simp: refresh_text_def Let_def max_def not_less split: if_splits)
  then show "textRank v \<le> textRank w"
    using m OnesCount8_or [of "tv_Protocols v" p] by (simp add: textRank_def rank_def add_mono)
qed

text \<open>
  What holds of a field \<open>g\<close> made from \<open>f\<close> by a change that keeps the canonical value and does not
  lower its rank, once \<open>selectCanonical\<close> has run.
\<close>

definition no_worse :: "TextField \<Rightarrow> TextField \<Rightarrow> bool" where
  "no_worse f g =
     (Values f \<noteq> [] \<longrightarrow> textRank (current f) \<le> textRank (current g) \<and>
        (textRank (current f) = textRank (current g) \<longrightarrow> tv_Value (current g) = tv_Value (current f)))"

lemma no_worse_refl [simp]: "no_worse f f"
  by (simp add: no_worse_def)

lemma selectCanonical_step:
  assumes ok: "text_ok n f" "n \<le> 256"
    and vs: "length vs \<le> n" "distinct (map tv_Value vs)" "\<forall>v \<in> set vs. tv_Value v \<noteq> [] \<and> trim (tv_Value v) = tv_Value v"
    and keep: "Values f \<noteq> [] \<Longrightarrow> unat (Canonical f) < length vs \<and>
      tv_Value (vs ! unat (Canonical f)) = tv_Value (current f) \<and> textRank (current f) \<le> textRank (vs ! unat (Canonical f))"
  shows "runs (selectCanonical (f\<lparr>Values := vs\<rparr>)) (\<lambda>g. text_ok n g \<and> no_worse f g \<and> Values g = vs)"
proof -
  have "runs (selectCanonical (f\<lparr>Values := vs\<rparr>)) (\<lambda>g. Values g = vs \<and>
      (vs \<noteq> [] \<longrightarrow> best vs (unat (Canonical g))) \<and> (best vs (unat (Canonical f)) \<longrightarrow> Canonical g = Canonical f))"
    using selectCanonical_runs [of "f\<lparr>Values := vs\<rparr>"] vs(1) ok(2) by simp
  then show ?thesis
  proof (rule runs_mono)
    fix g :: TextField
    assume g: "Values g = vs \<and> (vs \<noteq> [] \<longrightarrow> best vs (unat (Canonical g))) \<and>
      (best vs (unat (Canonical f)) \<longrightarrow> Canonical g = Canonical f)"
    have "no_worse f g" unfolding no_worse_def
    proof
      assume ne: "Values f \<noteq> []"
      note k = keep [OF this]
      then have b: "best vs (unat (Canonical g))" using g by auto
      then have le: "textRank (vs ! unat (Canonical f)) \<le> textRank (current g)"
        using k g by (simp add: best_def current_def)
      show "textRank (current f) \<le> textRank (current g) \<and>
        (textRank (current f) = textRank (current g) \<longrightarrow> tv_Value (current g) = tv_Value (current f))"
      proof (intro conjI impI)
        assume "textRank (current f) = textRank (current g)"
        then have "best vs (unat (Canonical f))"
          using b le k g by (auto simp: best_def current_def)
        then show "tv_Value (current g) = tv_Value (current f)" using g k by (simp add: current_def)
      qed (use le k in linarith)
    qed
    then show "text_ok n g \<and> no_worse f g \<and> Values g = vs" using g vs by (simp add: text_ok_def)
  qed
qed

definition merged :: "int \<Rightarrow> TextField \<Rightarrow> bytes \<Rightarrow> ProtocolSet \<Rightarrow> u8 \<Rightarrow> bool \<times> TextField \<Rightarrow> bool" where
  "merged m f value p c = (\<lambda>(changed, g).
     text_ok (nat (m + 1)) g \<and> no_worse f g \<and>
     (trim value = [] \<longrightarrow> g = f) \<and>
     (trim value \<noteq> [] \<longrightarrow>
        (\<exists>v \<in> set (Values g). tv_Value v = trim value \<and> tv_Protocols v OR p = tv_Protocols v \<and> c \<le> tv_Confidence v) \<or>
        (g = f \<and> int (length (Values f)) = m + 1 \<and> trim value \<notin> tv_Value ` set (Values f) \<and>
         (\<forall>i < length (Values f). i \<noteq> unat (Canonical f) \<longrightarrow> rank c p < textRank (Values f ! i)))) \<and>
     (\<not> changed \<longrightarrow> map (\<lambda>v. (tv_Value v, tv_Protocols v, tv_Confidence v)) (Values g) =
                  map (\<lambda>v. (tv_Value v, tv_Protocols v, tv_Confidence v)) (Values f)))"

lemma mergeText_runs:
  assumes "text_ok (nat (m + 1)) f" "1 \<le> m" "m \<le> 255"
  shows "runs (mergeText f value p c now m) (merged m f value p c)"
proof -
  let ?n = "nat (m + 1)" and ?v = "trim value"
  have n: "?n \<le> 256" "2 \<le> ?n" using assms(2,3) by auto
  have can: "Values f \<noteq> [] \<Longrightarrow> unat (Canonical f) < length (Values f)"
    using assms(1) by (simp add: text_ok_def best_def)
  show ?thesis
  proof (cases "?v = []")
    case True
    then show ?thesis using assms(1) by (simp add: mergeText_def merged_def cleanText_def CleanText_trim wp)
  next
    case ne: False
    show ?thesis
    proof (cases "find_text (Values f) ?v 0")
      case (Some i)
      then have i: "i < length (Values f)" "tv_Value (Values f ! i) = ?v" using find_text_Some by fastforce+
      obtain changed w where w: "refresh_text (Values f ! i) p c now = (changed, w)" by fastforce
      note wp_ = refresh_text_props [OF w]
      have "map tv_Value ((Values f)[i := w]) = map tv_Value (Values f)"
        using i(1) wp_(1) by (simp add: map_update list_update_same_conv)
      then have "runs (selectCanonical (f\<lparr>Values := (Values f)[i := w]\<rparr>))
          (\<lambda>g. text_ok ?n g \<and> no_worse f g \<and> Values g = (Values f)[i := w])"
        using assms(1) i can wp_(1,2) ne n(1)
        by (intro selectCanonical_step) (auto simp: text_ok_def current_def nth_list_update dest!: set_update_subset_insert [THEN subsetD])
      moreover have "w \<in> set ((Values f)[i := w])" using i(1) by (rule set_update_memI)
      moreover have "tv_Protocols w OR p = tv_Protocols w" "c \<le> tv_Confidence w"
        unfolding wp_(3,4) by (simp_all add: or.assoc)
      moreover have "\<not> changed \<Longrightarrow>
          map (\<lambda>v. (tv_Value v, tv_Protocols v, tv_Confidence v)) ((Values f)[i := w]) =
          map (\<lambda>v. (tv_Value v, tv_Protocols v, tv_Confidence v)) (Values f)"
        using i(1) wp_(1,5) by (simp add: map_update list_update_same_conv)
      ultimately show ?thesis
        using Some ne i w wp_(1)
        by (auto simp: mergeText_def merged_def cleanText_def CleanText_trim wp Let_def elim!: runs_mono)
    next
      case None
      then have new: "?v \<notin> tv_Value ` set (Values f)" by (simp add: find_text_None)
      let ?w = "new_text ?v p c now"
      have w: "tv_Value ?w = ?v" "tv_Protocols ?w = p" "tv_Confidence ?w = c" by (simp_all add: new_text_def)
      show ?thesis
      proof (cases "int (length (Values f)) < m + 1")
        case True
        have "runs (selectCanonical (f\<lparr>Values := Values f @ [?w]\<rparr>))
            (\<lambda>g. text_ok ?n g \<and> no_worse f g \<and> Values g = Values f @ [?w])"
          using assms(1) True can new ne w(1) n(1)
          by (intro selectCanonical_step) (auto simp: text_ok_def current_def nth_append)
        then show ?thesis
          using None ne True w by (auto simp: mergeText_def merged_def cleanText_def CleanText_trim wp elim!: runs_mono)
      next
        case full: False
        then have len: "int (length (Values f)) = m + 1" using assms(1,2) by (auto simp: text_ok_def)
        let ?c = "unat (Canonical f)"
        have weak: "runs (weakest_loop (Values f) ?c [0 ..< length (Values f)] None)
            (\<lambda>k. (\<forall>r. k = Some r \<longrightarrow> r < length (Values f) \<and> r \<noteq> ?c \<and>
                 (\<forall>i < length (Values f). i \<noteq> ?c \<longrightarrow> (\<forall>x < textRank (Values f ! r). x < textRank (Values f ! i)))) \<and> k \<noteq> None)"
        proof (rule runs_mono [OF weakest_loop_runs])
          have "length (Values f) \<ge> 2" using len assms(2) by simp
          then have "\<not> set [0 ..< length (Values f)] \<subseteq> {?c}" by (cases "?c = 0") (auto simp: subset_iff intro: exI [of _ 0] exI [of _ 1])
          then show "(\<forall>r. k = Some r \<longrightarrow> r < length (Values f) \<and> r \<noteq> ?c \<and>
                 (\<forall>i < length (Values f). i \<noteq> ?c \<longrightarrow> (\<forall>x < textRank (Values f ! r). x < textRank (Values f ! i)))) \<and> k \<noteq> None"
            if "(\<forall>r. k = Some r \<longrightarrow> r < length (Values f) \<and> r \<noteq> ?c \<and>
             (\<forall>i \<in> set [0 ..< length (Values f)] \<union> set_option None. i \<noteq> ?c \<longrightarrow> textRank (Values f ! r) \<le> textRank (Values f ! i))) \<and>
              (k = None \<longleftrightarrow> None = None \<and> set [0 ..< length (Values f)] \<subseteq> {?c})" for k
            using that by (auto intro: less_le_trans)
        qed auto
        have step: "runs (selectCanonical (f\<lparr>Values := (Values f)[r := ?w]\<rparr>))
            (\<lambda>g. text_ok ?n g \<and> no_worse f g \<and> Values g = (Values f)[r := ?w])"
          if r: "r < length (Values f)" "r \<noteq> ?c" for r
        proof -
          have "distinct (map tv_Value ((Values f)[r := ?w]))"
            using assms(1) new w(1) by (simp add: map_update text_ok_def distinct_list_update image_iff set_map)
          then show ?thesis
            using assms(1) r can new ne w(1) n(1)
            by (intro selectCanonical_step) (auto simp: text_ok_def current_def nth_list_update dest!: set_update_subset_insert [THEN subsetD])
        qed
        have "\<exists>v \<in> set ((Values f)[r := ?w]). tv_Value v = ?v \<and> tv_Protocols v OR p = tv_Protocols v \<and> c \<le> tv_Confidence v"
          if "r < length (Values f)" for r
          using set_update_memI [OF that, of ?w] w by (intro bexI [of _ ?w]) auto
        then show ?thesis
          using None ne full len new weak w assms(1)
          by (auto simp: mergeText_def merged_def cleanText_def CleanText_trim wp split: option.splits elim!: runs_mono intro!: runs_mono [OF step])
      qed
    qed
  qed
qed

lemma mergeText_keeps:
  "text_ok (nat (m + 1)) f \<Longrightarrow> 1 \<le> m \<Longrightarrow> m \<le> 255 \<Longrightarrow>
   runs (mergeText f value p c now m) (\<lambda>(_, g). text_ok (nat (m + 1)) g)"
  by (rule runs_mono [OF mergeText_runs]) (auto simp: merged_def)

lemma mergeTextField_keeps:
  assumes "1 \<le> m" "m \<le> 255" "text_ok (nat (m + 1)) dst"
  shows "runs (mergeTextField dst src m) (text_ok (nat (m + 1)))"
proof -
  have "runs (merge_values dst vs m) (text_ok (nat (m + 1)))" for vs
    using assms(3)
  proof (induction vs arbitrary: dst)
    case (Cons v vs)
    show ?case
      by (auto simp: wp intro!: runs_mono [OF mergeText_keeps [OF Cons.prems assms(1,2)]] Cons.IH)
  qed (simp add: wp)
  then show ?thesis by (simp add: mergeTextField_def)
qed

text \<open>
  (C29) Merging a text value into a well-formed field never goes out of bounds and keeps the field well
  formed: bounded, without repetition or untrimmed values, its canonical index on a value of the highest
  rank. The best rank never falls, and at the same rank the current value stays. A blank value changes
  nothing; any other is in the field afterwards with at least its protocols and confidence, unless the
  field was full and every alternative outranked it, and then nothing changed either. Without a reported
  change the values, protocols and confidences are the same as before.
\<close>

theorem mergeText_ok:
  assumes "text_ok (nat (m + 1)) f" "1 \<le> m" "m \<le> 255"
  shows "runs (mergeText f value p c now m) (\<lambda>(changed, g).
     text_ok (nat (m + 1)) g \<and> no_worse f g \<and>
     (trim value = [] \<longrightarrow> g = f) \<and>
     (trim value \<noteq> [] \<longrightarrow>
        (\<exists>v \<in> set (Values g). tv_Value v = trim value \<and> tv_Protocols v OR p = tv_Protocols v \<and> c \<le> tv_Confidence v) \<or>
        (g = f \<and> int (length (Values f)) = m + 1 \<and> trim value \<notin> tv_Value ` set (Values f) \<and>
         (\<forall>i < length (Values f). i \<noteq> unat (Canonical f) \<longrightarrow> rank c p < textRank (Values f ! i)))) \<and>
     (\<not> changed \<longrightarrow> map (\<lambda>v. (tv_Value v, tv_Protocols v, tv_Confidence v)) (Values g) =
                  map (\<lambda>v. (tv_Value v, tv_Protocols v, tv_Confidence v)) (Values f)))"
  using mergeText_runs [OF assms] by (simp add: merged_def)

lemma mergeText_ok_witness:
  "runs (mergeText empty_field [65] ProtocolsLLDP 3 0 4) (\<lambda>(changed, g). text_ok 5 g \<and> no_worse empty_field g)"
  using mergeText_ok [of 4 empty_field "[65]" ProtocolsLLDP 3 0] by (auto elim!: runs_mono)

end
