(* ===== verification/Wheel.thy ===== *)
theory Wheel
  imports NetAddr
begin

text \<open>
  The hashed timing wheel of \<open>pkg/omnidiscover/fusion.go\<close>. \<open>linkEntry\<close> and \<open>dnsEntry\<close> carry the same
  four fields and \<open>scheduleLink\<close>/\<open>scheduleDNS\<close> and \<open>unscheduleLink\<close>/\<open>unscheduleDNS\<close> are the same code over
  two arrays; here both entry types extend the record \<open>wheel_node\<close> and share the functions. The index
  -1 of the code is \<^const>\<open>None\<close>.

  Each slot heads a doubly linked list of the entries that fire when the cursor reaches it, after as many
  full rounds as \<open>wheelRound\<close> says.
\<close>

record wheel_node =
  wheelSlot :: "nat option"
  wheelRound :: nat
  wheelPrev :: "nat option"
  wheelNext :: "nat option"

type_synonym 'a wheel = "'a wheel_node_scheme list \<times> nat option list"

section \<open>The code\<close>

text \<open>Go's division truncates towards zero.\<close>

definition go_div :: "int \<Rightarrow> int \<Rightarrow> int" where
  "go_div a b = (if a < 0 then - ((- a) div b) else a div b)"

definition ceilDurationSeconds :: "Duration \<Rightarrow> int" where
  "ceilDurationSeconds d = (if d \<le> 0 then 1 else go_div (wrap64 (d + Second - 1)) Second)"

definition unschedule :: "'a wheel \<Rightarrow> nat \<Rightarrow> 'a wheel run" where
  "unschedule w i = (case w of (nodes, heads) \<Rightarrow> do {
     l \<leftarrow> idx nodes i;
     case wheelSlot l of
       None \<Rightarrow> Some (nodes, heads)
     | Some slot \<Rightarrow> do {
         (nodes, heads) \<leftarrow>
           (case wheelPrev l of
              Some p \<Rightarrow> do {
                x \<leftarrow> idx nodes p;
                nodes \<leftarrow> upd nodes p (x\<lparr>wheelNext := wheelNext l\<rparr>);
                Some (nodes, heads)
              }
            | None \<Rightarrow> do { heads \<leftarrow> upd heads slot (wheelNext l); Some (nodes, heads) });
         l \<leftarrow> idx nodes i;
         nodes \<leftarrow>
           (case wheelNext l of
              Some n \<Rightarrow> do { x \<leftarrow> idx nodes n; upd nodes n (x\<lparr>wheelPrev := wheelPrev l\<rparr>) }
            | None \<Rightarrow> Some nodes);
         l \<leftarrow> idx nodes i;
         nodes \<leftarrow> upd nodes i (l\<lparr>wheelSlot := None, wheelPrev := None, wheelNext := None\<rparr>);
         Some (nodes, heads)
       }
   })"

definition ticks_until :: "Time \<Rightarrow> Time \<Rightarrow> nat" where
  "ticks_until now expiry =
     (let ticks = ceilDurationSeconds (Time_Sub expiry now)
      in nat (if ticks < 1 then 1 else ticks))"

text \<open>\<open>(s.wheelCursor + ticks) % len(heads)\<close> panics on an empty wheel.\<close>

definition schedule :: "'a wheel \<Rightarrow> nat \<Rightarrow> nat \<Rightarrow> Time \<Rightarrow> Time \<Rightarrow> 'a wheel run" where
  "schedule w cursor i now expiry = do {
     (nodes, heads) \<leftarrow> unschedule w i;
     let ticks = ticks_until now expiry;
     if heads = [] then None
     else do {
       let slot = (cursor + ticks) mod length heads;
       h \<leftarrow> idx heads slot;
       l \<leftarrow> idx nodes i;
       nodes \<leftarrow> upd nodes i
         (l\<lparr>wheelSlot := Some slot, wheelRound := (ticks - 1) div length heads, wheelPrev := None, wheelNext := h\<rparr>);
       nodes \<leftarrow>
         (case h of
            Some n \<Rightarrow> do { x \<leftarrow> idx nodes n; upd nodes n (x\<lparr>wheelPrev := Some i\<rparr>) }
          | None \<Rightarrow> Some nodes);
       heads \<leftarrow> upd heads slot (Some i);
       Some (nodes, heads)
     }
   }"

section \<open>Linked lists in the array\<close>

text \<open>
  \<open>seg nodes a xs b\<close>: starting with previous element and next element \<open>a\<close>, the links lead through \<open>xs\<close>
  and end with previous and next element \<open>b\<close>.
\<close>

fun seg :: "'a wheel_node_scheme list \<Rightarrow> nat option \<times> nat option \<Rightarrow> nat list \<Rightarrow> nat option \<times> nat option \<Rightarrow> bool" where
  "seg nodes a [] b = (a = b)"
| "seg nodes a (x # xs) b =
     (snd a = Some x \<and> x < length nodes \<and> wheelPrev (nodes ! x) = fst a \<and>
      seg nodes (Some x, wheelNext (nodes ! x)) xs b)"

lemma seg_append: "seg nodes a (xs @ ys) b \<longleftrightarrow> (\<exists>m. seg nodes a xs m \<and> seg nodes m ys b)"
  by (induction xs arbitrary: a) auto

definition same_links :: "'a wheel_node_scheme \<Rightarrow> 'a wheel_node_scheme \<Rightarrow> bool" where
  "same_links x y = (wheelPrev x = wheelPrev y \<and> wheelNext x = wheelNext y)"

lemma seg_cong:
  "length nodes = length nodes' \<Longrightarrow> (\<And>x. x \<in> set xs \<Longrightarrow> same_links (nodes ! x) (nodes' ! x)) \<Longrightarrow>
   seg nodes a xs b = seg nodes' a xs b"
  by (induction xs arbitrary: a) (auto simp: same_links_def)

lemma seg_less: "seg nodes a xs b \<Longrightarrow> x \<in> set xs \<Longrightarrow> x < length nodes"
  by (induction xs arbitrary: a) auto

text \<open>The invariant: \<open>f slot\<close> lists the entries of a slot, in the order of the links.\<close>

definition wheel_inv :: "'a wheel \<Rightarrow> (nat \<Rightarrow> nat list) \<Rightarrow> bool" where
  "wheel_inv w f = (case w of (nodes, heads) \<Rightarrow>
     (\<forall>slot < length heads. (\<exists>e. seg nodes (None, heads ! slot) (f slot) (e, None)) \<and> distinct (f slot) \<and>
        (\<forall>x \<in> set (f slot). wheelSlot (nodes ! x) = Some slot)) \<and>
     (\<forall>x < length nodes. \<forall>slot. wheelSlot (nodes ! x) = Some slot \<longrightarrow> slot < length heads \<and> x \<in> set (f slot)))"

text \<open>What an operation on entry \<open>i\<close> leaves alone: everything but links, and the slots of other entries.\<close>

definition wheel_frame :: "nat \<Rightarrow> 'a wheel \<Rightarrow> 'a wheel \<Rightarrow> bool" where
  "wheel_frame i w w' = (case (w, w') of ((nodes, heads), (nodes', heads')) \<Rightarrow>
     length heads' = length heads \<and> map wheel_node.more nodes' = map wheel_node.more nodes \<and>
     (\<forall>x < length nodes. x \<noteq> i \<longrightarrow> wheelSlot (nodes' ! x) = wheelSlot (nodes ! x) \<and>
        wheelRound (nodes' ! x) = wheelRound (nodes ! x)))"

lemma wheel_frame_length: "wheel_frame i (nodes, heads) (nodes', heads') \<Longrightarrow> length nodes' = length nodes"
  by (auto simp: wheel_frame_def dest: map_eq_imp_length_eq)

lemma wheel_frame_refl [simp]: "wheel_frame i w w"
  by (cases w) (simp add: wheel_frame_def)

lemma wheel_frame_trans:
  assumes "wheel_frame i u v" "wheel_frame i v w"
  shows "wheel_frame i u w"
proof -
  obtain n1 h1 n2 h2 n3 h3 where e: "u = (n1, h1)" "v = (n2, h2)" "w = (n3, h3)" by (metis surj_pair)
  have "length n2 = length n1" using assms(1) unfolding e by (rule wheel_frame_length)
  with assms show ?thesis unfolding e wheel_frame_def by simp
qed

lemma wheel_frame_more:
  "wheel_frame i (nodes, heads) (nodes', heads') \<Longrightarrow> x < length nodes \<Longrightarrow>
   wheel_node.more (nodes' ! x) = wheel_node.more (nodes ! x)"
proof -
  assume *: "wheel_frame i (nodes, heads) (nodes', heads')" "x < length nodes"
  then have "map wheel_node.more nodes' ! x = map wheel_node.more nodes ! x" by (simp add: wheel_frame_def)
  with * show ?thesis by (simp add: wheel_frame_length)
qed


lemma seg_last: "seg nodes a xs b \<Longrightarrow> xs \<noteq> [] \<Longrightarrow> fst b = Some (last xs) \<and> snd b = wheelNext (nodes ! last xs)"
  by (induction xs arbitrary: a) (auto split: if_splits)

lemma seg_first: "seg nodes a xs b \<Longrightarrow> xs \<noteq> [] \<Longrightarrow> snd a = Some (hd xs) \<and> fst a = wheelPrev (nodes ! hd xs)"
  by (cases xs) auto

text \<open>Redirecting the end of a segment, and its start.\<close>

lemma seg_redirect_end:
  fixes nodes nodes' :: "'a wheel_node_scheme list"
  assumes "seg nodes a xs b" "xs \<noteq> []" "distinct xs" "length nodes' = length nodes"
    and "\<And>x. x \<in> set xs \<Longrightarrow> wheelPrev (nodes' ! x) = wheelPrev (nodes ! x)"
    and "\<And>x. x \<in> set xs \<Longrightarrow> x \<noteq> last xs \<Longrightarrow> wheelNext (nodes' ! x) = wheelNext (nodes ! x)"
    and "wheelNext (nodes' ! last xs) = c"
  shows "seg nodes' a xs (fst b, c)"
proof -
  obtain ys y where xs: "xs = ys @ [y]" using assms(2) by (cases xs rule: rev_cases) auto
  obtain m where m: "seg nodes a ys m" "seg nodes m [y] b" using assms(1) by (auto simp: xs seg_append)
  have "seg nodes' a ys m"
    using m(1) assms(3-6) by (subst seg_cong [of nodes' nodes]) (auto simp: xs same_links_def)
  moreover have "seg nodes' m [y] (fst b, c)" using m(2) assms(4,5,7) by (auto simp: xs)
  ultimately show ?thesis unfolding xs seg_append by blast
qed

lemma seg_redirect_start:
  fixes nodes nodes' :: "'a wheel_node_scheme list"
  assumes "seg nodes a xs b" "xs \<noteq> []" "distinct xs" "length nodes' = length nodes"
    and "\<And>x. x \<in> set xs \<Longrightarrow> wheelNext (nodes' ! x) = wheelNext (nodes ! x)"
    and "\<And>x. x \<in> set xs \<Longrightarrow> x \<noteq> hd xs \<Longrightarrow> wheelPrev (nodes' ! x) = wheelPrev (nodes ! x)"
    and "wheelPrev (nodes' ! hd xs) = p"
  shows "seg nodes' (p, snd a) xs b"
proof -
  obtain y ys where xs: "xs = y # ys" using assms(2) by (cases xs) auto
  have "seg nodes (Some y, wheelNext (nodes ! y)) ys b" using assms(1) by (simp add: xs)
  then have "seg nodes' (Some y, wheelNext (nodes ! y)) ys b"
    using assms(3-6) by (subst seg_cong [of nodes' nodes]) (auto simp: xs same_links_def)
  then show ?thesis using assms(1,4,5,7) by (auto simp: xs)
qed

section \<open>Removing an entry\<close>

lemma unschedule_value:
  assumes "i < length nodes" "wheelSlot (nodes ! i) = Some slot" "slot < length heads"
    and p: "wheelPrev (nodes ! i) = p" "\<forall>a. p = Some a \<longrightarrow> a < length nodes \<and> a \<noteq> i"
    and n: "wheelNext (nodes ! i) = nx" "\<forall>b. nx = Some b \<longrightarrow> b < length nodes \<and> b \<noteq> i"
  shows "\<exists>nodes'. unschedule (nodes, heads) i = Some (nodes', if p = None then heads[slot := nx] else heads) \<and>
    length nodes' = length nodes \<and> map wheel_node.more nodes' = map wheel_node.more nodes \<and>
    (\<forall>x < length nodes. wheelSlot (nodes' ! x) = (if x = i then None else wheelSlot (nodes ! x)) \<and>
       wheelRound (nodes' ! x) = wheelRound (nodes ! x) \<and>
       (x \<noteq> i \<longrightarrow> wheelNext (nodes' ! x) = (if p = Some x then nx else wheelNext (nodes ! x)) \<and>
          wheelPrev (nodes' ! x) = (if nx = Some x then p else wheelPrev (nodes ! x))))"
proof -
  define nodes1 where "nodes1 = (case p of None \<Rightarrow> nodes | Some a \<Rightarrow> nodes[a := (nodes ! a)\<lparr>wheelNext := nx\<rparr>])"
  define nodes2 where "nodes2 = (case nx of None \<Rightarrow> nodes1 | Some b \<Rightarrow> nodes1[b := (nodes1 ! b)\<lparr>wheelPrev := p\<rparr>])"
  define nodes3 where "nodes3 = nodes2[i := (nodes2 ! i)\<lparr>wheelSlot := None, wheelPrev := None, wheelNext := None\<rparr>]"
  have len: "length nodes1 = length nodes" "length nodes2 = length nodes" "length nodes3 = length nodes"
    by (auto simp: nodes1_def nodes2_def nodes3_def split: option.splits)
  have i1: "nodes1 ! i = nodes ! i" using p(2) by (auto simp: nodes1_def split: option.splits)
  have s1: "(case p of
        Some p \<Rightarrow> do { x \<leftarrow> idx nodes p; nodes \<leftarrow> upd nodes p (x\<lparr>wheelNext := nx\<rparr>); Some (nodes, heads) }
      | None \<Rightarrow> do { heads \<leftarrow> upd heads slot nx; Some (nodes, heads) }) =
      Some (nodes1, if p = None then heads[slot := nx] else heads)"
    using p(2) assms(3) by (cases p) (simp_all add: nodes1_def)
  have s2: "idx nodes1 i = Some (nodes ! i)" using assms(1) i1 len by simp
  have s3: "(case nx of Some n \<Rightarrow> do { x \<leftarrow> idx nodes1 n; upd nodes1 n (x\<lparr>wheelPrev := p\<rparr>) } | None \<Rightarrow> Some nodes1) = Some nodes2"
    using n(2) len by (cases nx) (simp_all add: nodes2_def)
  have s4: "idx nodes2 i = Some (nodes2 ! i)" using assms(1) len by simp
  have s5: "upd nodes2 i ((nodes2 ! i)\<lparr>wheelSlot := None, wheelPrev := None, wheelNext := None\<rparr>) = Some nodes3"
    using assms(1) len by (simp add: nodes3_def)
  have run: "unschedule (nodes, heads) i = Some (nodes3, if p = None then heads[slot := nx] else heads)"
    by (simp only: unschedule_def prod.case idx_Some [OF assms(1)] Option.bind.simps assms(2) option.case p(1) n(1) s1 s2 s3 s4 s5)
  have n1: "nodes1 ! x = (if p = Some x then (nodes ! x)\<lparr>wheelNext := nx\<rparr> else nodes ! x)" if "x < length nodes" for x
    using that by (auto simp: nodes1_def nth_list_update split: option.splits)
  have n2: "nodes2 ! x = (if nx = Some x then (nodes1 ! x)\<lparr>wheelPrev := p\<rparr> else nodes1 ! x)" if "x < length nodes" for x
    using that len by (auto simp: nodes2_def nth_list_update split: option.splits)
  have n3: "nodes3 ! x = (if x = i then (nodes2 ! x)\<lparr>wheelSlot := None, wheelPrev := None, wheelNext := None\<rparr> else nodes2 ! x)"
    if "x < length nodes" for x
    using that len by (auto simp: nodes3_def nth_list_update)
  have 1: "wheel_node.more (nodes3 ! x) = wheel_node.more (nodes ! x)"
    "wheelSlot (nodes3 ! x) = (if x = i then None else wheelSlot (nodes ! x))"
    "wheelRound (nodes3 ! x) = wheelRound (nodes ! x)" if "x < length nodes" for x
    using that assms(1) by (simp_all add: n1 n2 n3)
  have 2: "wheelNext (nodes3 ! x) = (if p = Some x then nx else wheelNext (nodes ! x))"
    "wheelPrev (nodes3 ! x) = (if nx = Some x then p else wheelPrev (nodes ! x))" if "x < length nodes" "x \<noteq> i" for x
    using that by (simp_all add: n1 n2 n3)
  have 3: "map wheel_node.more nodes3 = map wheel_node.more nodes"
    by (rule nth_equalityI) (simp_all add: len 1)
  show ?thesis
    by (intro exI [of _ nodes3] conjI allI impI) (use run len(3) 3 1(2,3) 2 in simp_all)
qed

lemma wheel_inv_cong:
  "(\<And>slot. slot < length heads \<Longrightarrow> f slot = g slot) \<Longrightarrow> wheel_inv (nodes, heads) f = wheel_inv (nodes, heads) g"
  by (simp add: wheel_inv_def cong: conj_cong)

lemma wheel_inv_slot:
  "wheel_inv (nodes, heads) f \<Longrightarrow> i < length nodes \<Longrightarrow> wheelSlot (nodes ! i) = Some slot \<Longrightarrow>
   slot < length heads \<and> i \<in> set (f slot)"
  unfolding wheel_inv_def prod.case by blast

lemma wheel_inv_seg:
  "wheel_inv (nodes, heads) f \<Longrightarrow> slot < length heads \<Longrightarrow>
   (\<exists>e. seg nodes (None, heads ! slot) (f slot) (e, None)) \<and> distinct (f slot)"
  unfolding wheel_inv_def prod.case by blast

lemma wheel_inv_mem:
  "wheel_inv (nodes, heads) f \<Longrightarrow> slot < length heads \<Longrightarrow> x \<in> set (f slot) \<Longrightarrow>
   wheelSlot (nodes ! x) = Some slot \<and> x < length nodes"
  unfolding wheel_inv_def prod.case using seg_less by blast

text \<open>
  After \<open>unschedule\<close> the entry is in no slot, and the other entries of its slot are linked in the same
  order.
\<close>

definition unlisted :: "(nat \<Rightarrow> nat list) \<Rightarrow> nat \<Rightarrow> nat \<Rightarrow> nat list" where
  "unlisted f i slot = removeAll i (f slot)"

lemma unschedule_runs:
  assumes inv: "wheel_inv (nodes, heads) f" and i: "i < length nodes"
  shows "runs (unschedule (nodes, heads) i) (\<lambda>w. wheel_inv w (unlisted f i) \<and>
     wheel_frame i (nodes, heads) w \<and> wheelSlot (fst w ! i) = None \<and> wheelRound (fst w ! i) = wheelRound (nodes ! i))"
proof (cases "wheelSlot (nodes ! i)")
  case None
  have "i \<notin> set (f slot)" if "slot < length heads" for slot
    using wheel_inv_mem [OF inv that] None by auto
  then have "unlisted f i slot = f slot" if "slot < length heads" for slot
    using that by (simp add: unlisted_def)
  then have "wheel_inv (nodes, heads) (unlisted f i)" using inv wheel_inv_cong by blast
  then show ?thesis using None i by (simp add: unschedule_def wp)
next
  case (Some slot)
  have slot: "slot < length heads" "i \<in> set (f slot)" using wheel_inv_slot [OF inv i Some] by auto
  obtain as bs where f: "f slot = as @ i # bs" using slot(2) by (meson split_list)
  have dist: "distinct (as @ i # bs)" using wheel_inv_seg [OF inv slot(1)] f by simp
  obtain e where "seg nodes (None, heads ! slot) (as @ i # bs) (e, None)"
    using wheel_inv_seg [OF inv slot(1)] f by auto
  then obtain p where A: "seg nodes (None, heads ! slot) as (p, Some i)" "wheelPrev (nodes ! i) = p"
    and B: "seg nodes (Some i, wheelNext (nodes ! i)) bs (e, None)"
    by (auto simp: seg_append)
  define nx where "nx = wheelNext (nodes ! i)"
  have p: "p = (if as = [] then None else Some (last as))"
    using seg_last [OF A(1)] A(1) by auto
  have nx: "nx = (if bs = [] then None else Some (hd bs))"
    using seg_first [OF B] B by (auto simp: nx_def)
  have less: "x < length nodes" if "x \<in> set as \<union> set bs" for x
    using that seg_less [OF A(1)] seg_less [OF B] by auto
  have pa: "\<forall>a. p = Some a \<longrightarrow> a < length nodes \<and> a \<noteq> i"
    using p dist less by (auto split: if_splits)
  have nb: "\<forall>b. nx = Some b \<longrightarrow> b < length nodes \<and> b \<noteq> i"
    using nx dist less by (auto split: if_splits)
  from unschedule_value [OF i Some slot(1) A(2) pa nx_def [symmetric] nb] obtain nodes' where
    run: "unschedule (nodes, heads) i = Some (nodes', if p = None then heads[slot := nx] else heads)"
    and len: "length nodes' = length nodes" "map wheel_node.more nodes' = map wheel_node.more nodes"
    and upd': "\<forall>x < length nodes. wheelSlot (nodes' ! x) = (if x = i then None else wheelSlot (nodes ! x)) \<and>
       wheelRound (nodes' ! x) = wheelRound (nodes ! x) \<and>
       (x \<noteq> i \<longrightarrow> wheelNext (nodes' ! x) = (if p = Some x then nx else wheelNext (nodes ! x)) \<and>
          wheelPrev (nodes' ! x) = (if nx = Some x then p else wheelPrev (nodes ! x)))"
    by blast
  have slots: "wheelSlot (nodes' ! x) = (if x = i then None else wheelSlot (nodes ! x))"
    and rounds: "wheelRound (nodes' ! x) = wheelRound (nodes ! x)"
    and nexts: "x \<noteq> i \<Longrightarrow> wheelNext (nodes' ! x) = (if p = Some x then nx else wheelNext (nodes ! x))"
    and prevs: "x \<noteq> i \<Longrightarrow> wheelPrev (nodes' ! x) = (if nx = Some x then p else wheelPrev (nodes ! x))"
    if "x < length nodes" for x
    using upd' that by blast+
  define heads' where "heads' = (if p = None then heads[slot := nx] else heads)"
  have bs': "seg nodes' (p, nx) bs (if bs = [] then p else e, None)"
  proof (cases "bs = []")
    case True
    then show ?thesis by (simp add: nx)
  next
    case False
    have nbs: "nx \<noteq> Some x" if "x \<in> set bs" "x \<noteq> hd bs" for x using that by (simp add: nx)
    have pbs: "p \<noteq> Some x" "x \<noteq> i" if "x \<in> set bs" for x
      using that dist p last_in_set [of as] by (auto simp: disjoint_iff split: if_splits)
    have hd: "hd bs \<in> set bs" using False by simp
    have "seg nodes' (p, snd (Some i, nx)) bs (e, None)"
      by (rule seg_redirect_start [OF B [folded nx_def] False])
         (use dist len less nexts prevs nbs pbs hd nx False in auto)
    then show ?thesis using False by simp
  qed
  have as': "seg nodes' (None, heads' ! slot) as (p, nx)"
  proof (cases "as = []")
    case True
    then show ?thesis using p slot(1) by (simp add: heads'_def)
  next
    case False
    have pas: "p \<noteq> Some x" if "x \<in> set as" "x \<noteq> last as" for x using that p False by simp
    have nas: "nx \<noteq> Some x" "x \<noteq> i" if "x \<in> set as" for x
      using that dist nx hd_in_set [of bs] by (auto simp: disjoint_iff split: if_splits)
    have l: "last as \<in> set as" using False by simp
    have "seg nodes' (None, heads ! slot) as (fst (p, Some i), nx)"
      by (rule seg_redirect_end [OF A(1) False])
         (use dist len less nexts prevs pas nas l p False in auto)
    then show ?thesis using p False by (simp add: heads'_def)
  qed
  have other: "seg nodes (None, heads ! k) (f k) (e', None) \<Longrightarrow> seg nodes' (None, heads' ! k) (f k) (e', None)"
    if "k < length heads" "k \<noteq> slot" for k e'
  proof -
    have "p \<noteq> Some x" "nx \<noteq> Some x" "x \<noteq> i" "x < length nodes" if x: "x \<in> set (f k)" for x
    proof -
      have "wheelSlot (nodes ! x) = Some k" using wheel_inv_mem [OF inv \<open>k < length heads\<close> x] by simp
      moreover have "wheelSlot (nodes ! y) = Some slot" if "y \<in> set (as @ i # bs)" for y
        using wheel_inv_mem [OF inv slot(1), of y] that f by simp
      ultimately have "x \<notin> set (as @ i # bs)" using \<open>k \<noteq> slot\<close> by fastforce
      then show "p \<noteq> Some x" "nx \<noteq> Some x" "x \<noteq> i"
        using p nx last_in_set [of as] hd_in_set [of bs] by (auto split: if_splits)
      show "x < length nodes"
        using wheel_inv_mem [OF inv \<open>k < length heads\<close> x] by simp
    qed
    then have "seg nodes (None, heads ! k) (f k) (e', None) = seg nodes' (None, heads ! k) (f k) (e', None)"
      using nexts prevs len(1) by (intro seg_cong) (auto simp: same_links_def)
    then show "seg nodes (None, heads ! k) (f k) (e', None) \<Longrightarrow> seg nodes' (None, heads' ! k) (f k) (e', None)"
      using that by (simp add: heads'_def)
  qed
  have rm: "removeAll i (f slot) = as @ bs" using dist by (simp add: f)
  have nin: "i \<notin> set (f k)" if "k < length heads" "k \<noteq> slot" for k
    using wheel_inv_mem [OF inv that(1), of i] that(2) Some by auto
  have lenh: "length heads' = length heads" by (simp add: heads'_def)
  have "wheel_inv (nodes', heads') (unlisted f i)"
    unfolding wheel_inv_def unlisted_def prod.case lenh
  proof (intro conjI allI impI)
    fix k assume k: "k < length heads"
    show "\<exists>e. seg nodes' (None, heads' ! k) (removeAll i (f k)) (e, None)"
    proof (cases "k = slot")
      case True
      then show ?thesis using as' bs' rm by (auto simp: seg_append)
    next
      case False
      then show ?thesis using other k nin wheel_inv_seg [OF inv k] by auto
    qed
    show "distinct (removeAll i (f k))" using wheel_inv_seg [OF inv k] by (simp add: distinct_removeAll)
    show "\<forall>x \<in> set (removeAll i (f k)). wheelSlot (nodes' ! x) = Some k"
    proof
      fix x assume x: "x \<in> set (removeAll i (f k))"
      then show "wheelSlot (nodes' ! x) = Some k" using wheel_inv_mem [OF inv k, of x] slots by auto
    qed
  next
    fix x k assume "x < length nodes'" "wheelSlot (nodes' ! x) = Some k"
    then show "k < length heads" "x \<in> set (removeAll i (f k))"
      using wheel_inv_slot [OF inv, of x k] slots len(1) by (auto split: if_splits)
  qed
  moreover have "wheel_frame i (nodes, heads) (nodes', heads')"
    using len slots rounds lenh by (simp add: wheel_frame_def)
  ultimately show ?thesis
    using run slots i rounds unfolding heads'_def [symmetric] by (simp add: wp)
qed


section \<open>Inserting an entry\<close>

lemma wheel_inv_head:
  assumes "wheel_inv (nodes, heads) f" "slot < length heads" "heads ! slot = Some x"
  shows "x \<in> set (f slot)"
proof -
  obtain e where "seg nodes (None, heads ! slot) (f slot) (e, None)" using wheel_inv_seg [OF assms(1,2)] by auto
  with assms(3) show ?thesis by (cases "f slot") auto
qed

definition listed :: "(nat \<Rightarrow> nat list) \<Rightarrow> nat \<Rightarrow> nat \<Rightarrow> nat \<Rightarrow> nat list" where
  "listed f i slot = (unlisted f i)(slot := i # unlisted f i slot)"

lemma insert_inv:
  fixes nodes nodes' :: "'a wheel_node_scheme list"
  assumes inv: "wheel_inv (nodes, heads) f" and i: "i < length nodes" "wheelSlot (nodes ! i) = None"
    and slot: "slot < length heads" and h: "heads ! slot = h"
    and nodes': "length nodes' = length nodes"
      "wheelSlot (nodes' ! i) = Some slot" "wheelPrev (nodes' ! i) = None" "wheelNext (nodes' ! i) = h"
      "\<And>x. x < length nodes \<Longrightarrow> x \<noteq> i \<Longrightarrow> wheelSlot (nodes' ! x) = wheelSlot (nodes ! x) \<and>
         wheelNext (nodes' ! x) = wheelNext (nodes ! x) \<and>
         wheelPrev (nodes' ! x) = (if h = Some x then Some i else wheelPrev (nodes ! x))"
  shows "wheel_inv (nodes', heads[slot := Some i]) (f(slot := i # f slot))"
proof -
  have nin: "i \<notin> set (f k)" if "k < length heads" for k
    using wheel_inv_mem [OF inv that, of i] i(2) by auto
  have seg_slot: "\<exists>e. seg nodes' (None, Some i) (i # f slot) (e, None)"
  proof -
    obtain e where e: "seg nodes (None, h) (f slot) (e, None)" and dist: "distinct (f slot)"
      using wheel_inv_seg [OF inv slot] h by auto
    have "\<exists>e. seg nodes' (Some i, h) (f slot) (e, None)"
    proof (cases "f slot = []")
      case True
      then show ?thesis using e by simp
    next
      case False
      have "h = Some (hd (f slot))" using seg_first [OF e False] by simp
      moreover have "x < length nodes \<and> x \<noteq> i" if "x \<in> set (f slot)" for x
        using wheel_inv_mem [OF inv slot that] nin [OF slot] that by auto
      moreover have "hd (f slot) \<in> set (f slot)" using False by simp
      ultimately have "seg nodes' (Some i, snd (None :: nat option, h)) (f slot) (e, None)"
        by (intro seg_redirect_start [OF e False dist nodes'(1)]) (use nodes'(5) in auto)
      then show ?thesis by auto
    qed
    then show ?thesis using i(1) nodes'(1,3,4) by simp
  qed
  have seg_other: "\<exists>e. seg nodes' (None, heads ! k) (f k) (e, None)" if k: "k < length heads" "k \<noteq> slot" for k
  proof -
    have "h \<noteq> Some x \<and> x \<noteq> i \<and> x < length nodes" if x: "x \<in> set (f k)" for x
    proof -
      have "h = Some x \<Longrightarrow> x \<in> set (f slot)"
        using wheel_inv_head [OF inv slot] h by simp
      then show ?thesis
        using wheel_inv_mem [OF inv k(1) x] wheel_inv_mem [OF inv slot, of x] nin [OF k(1)] x k(2) by auto
    qed
    then have "seg nodes (None, heads ! k) (f k) (e, None) = seg nodes' (None, heads ! k) (f k) (e, None)" for e
      using nodes'(1,5) by (intro seg_cong) (auto simp: same_links_def)
    then show ?thesis using wheel_inv_seg [OF inv k(1)] by auto
  qed
  show ?thesis
    unfolding wheel_inv_def prod.case length_list_update
  proof (intro conjI allI impI)
    fix k assume k: "k < length heads"
    show "\<exists>e. seg nodes' (None, heads[slot := Some i] ! k) ((f(slot := i # f slot)) k) (e, None)"
      using seg_slot seg_other k by (cases "k = slot") auto
    show "distinct ((f(slot := i # f slot)) k)"
      using wheel_inv_seg [OF inv k] nin [OF k] by auto
    show "\<forall>x \<in> set ((f(slot := i # f slot)) k). wheelSlot (nodes' ! x) = Some k"
      using wheel_inv_mem [OF inv k] nin [OF k] nodes'(2,5) by (fastforce split: if_splits)
  next
    fix x k assume x: "x < length nodes'" "wheelSlot (nodes' ! x) = Some k"
    show "k < length heads" "x \<in> set ((f(slot := i # f slot)) k)"
      using wheel_inv_slot [OF inv, of x k] x nodes'(1,2,5) slot by (cases "x = i"; auto)+
  qed
qed

lemma schedule_runs:
  assumes inv: "wheel_inv (nodes, heads) f" and i: "i < length nodes" and n: "heads \<noteq> []"
  shows "runs (schedule (nodes, heads) cursor i now expiry) (\<lambda>w.
     wheel_inv w (listed f i ((cursor + ticks_until now expiry) mod length heads)) \<and>
     wheel_frame i (nodes, heads) w \<and>
     wheelSlot (fst w ! i) = Some ((cursor + ticks_until now expiry) mod length heads) \<and>
     wheelRound (fst w ! i) = (ticks_until now expiry - 1) div length heads)"
proof -
  let ?t = "ticks_until now expiry"
  let ?slot = "(cursor + ?t) mod length heads"
  from runs_exD [OF unschedule_runs [OF inv i]] obtain w where
    w: "unschedule (nodes, heads) i = Some w" and W: "wheel_inv w (unlisted f i)" "wheel_frame i (nodes, heads) w"
      "wheelSlot (fst w ! i) = None" by blast
  obtain nodes1 heads1 where e: "w = (nodes1, heads1)" by (cases w)
  note W = W [unfolded e]
  have len: "length nodes1 = length nodes" "length heads1 = length heads"
    using wheel_frame_length [OF W(2)] W(2) unfolding wheel_frame_def prod.case by blast+
  have slot: "?slot < length heads1" using n by (simp add: len(2))
  define h where "h = heads1 ! ?slot"
  define nodes2 where "nodes2 = nodes1[i := (nodes1 ! i)\<lparr>wheelSlot := Some ?slot, wheelRound := (?t - 1) div length heads,
      wheelPrev := None, wheelNext := h\<rparr>]"
  define nodes3 where "nodes3 = (case h of None \<Rightarrow> nodes2 | Some x \<Rightarrow> nodes2[x := (nodes2 ! x)\<lparr>wheelPrev := Some i\<rparr>])"
  have hn: "b < length nodes1 \<and> b \<noteq> i" if "h = Some b" for b
  proof -
    have "b \<in> set (unlisted f i ?slot)"
      using wheel_inv_head [OF W(1) slot] that by (simp add: h_def)
    then show ?thesis using wheel_inv_mem [OF W(1) slot] W(3) by auto
  qed
  have s1: "idx heads1 ?slot = Some h" using slot by (simp add: h_def)
  have s2: "idx nodes1 i = Some (nodes1 ! i)" using i len by simp
  have s3: "upd nodes1 i ((nodes1 ! i)\<lparr>wheelSlot := Some ?slot, wheelRound := (?t - 1) div length heads,
      wheelPrev := None, wheelNext := h\<rparr>) = Some nodes2" using i len by (simp add: nodes2_def)
  have s4: "(case h of Some n \<Rightarrow> do { x \<leftarrow> idx nodes2 n; upd nodes2 n (x\<lparr>wheelPrev := Some i\<rparr>) } | None \<Rightarrow> Some nodes2) = Some nodes3"
    using hn by (cases h) (simp_all add: nodes3_def nodes2_def)
  have s5: "upd heads1 ?slot (Some i) = Some (heads1[?slot := Some i])" using slot by simp
  have ne: "(heads1 = []) = False" using n len(2) by auto
  have run: "schedule (nodes, heads) cursor i now expiry = Some (nodes3, heads1[?slot := Some i])"
    by (simp only: schedule_def w e Option.bind.simps prod.case Let_def len(2) s1 s2 s3 s4 s5 ne if_False)
  have n2: "nodes2 ! x = (if x = i then (nodes1 ! x)\<lparr>wheelSlot := Some ?slot, wheelRound := (?t - 1) div length heads,
      wheelPrev := None, wheelNext := h\<rparr> else nodes1 ! x)" if "x < length nodes" for x
    using that len by (auto simp: nodes2_def nth_list_update)
  have n3: "nodes3 ! x = (if h = Some x then (nodes2 ! x)\<lparr>wheelPrev := Some i\<rparr> else nodes2 ! x)" if "x < length nodes" for x
    using that len by (auto simp: nodes3_def nodes2_def nth_list_update split: option.splits)
  have len3: "length nodes3 = length nodes1" by (simp add: nodes3_def nodes2_def split: option.splits)
  have hi: "h \<noteq> Some i" using hn by auto
  have i3: "wheelSlot (nodes3 ! i) = Some ?slot" "wheelRound (nodes3 ! i) = (?t - 1) div length heads"
    "wheelPrev (nodes3 ! i) = None" "wheelNext (nodes3 ! i) = h"
    using i hi by (simp_all add: n2 n3)
  have x3: "wheelSlot (nodes3 ! x) = wheelSlot (nodes1 ! x) \<and> wheelNext (nodes3 ! x) = wheelNext (nodes1 ! x) \<and>
      wheelPrev (nodes3 ! x) = (if h = Some x then Some i else wheelPrev (nodes1 ! x)) \<and>
      wheelRound (nodes3 ! x) = wheelRound (nodes1 ! x)" if "x < length nodes1" "x \<noteq> i" for x
    using that len by (simp add: n2 n3)
  have "wheel_inv (nodes3, heads1[?slot := Some i]) ((unlisted f i)(?slot := i # unlisted f i ?slot))"
    by (rule insert_inv [OF W(1) _ _ slot h_def [symmetric] len3])
       (use i len W(3) i3 x3 in auto)
  moreover have "wheel_frame i (nodes1, heads1) (nodes3, heads1[?slot := Some i])"
  proof -
    have "map wheel_node.more nodes3 = map wheel_node.more nodes1"
      by (rule nth_equalityI) (simp_all add: len3 len n2 n3)
    then show ?thesis using x3 by (simp add: wheel_frame_def)
  qed
  ultimately show ?thesis
    using wheel_frame_trans [OF W(2)] i3(1,2) by (simp add: run wp listed_def)
qed

section \<open>What the slots and rounds mean\<close>

text \<open>The number of ticks until an entry fires.\<close>

definition due :: "nat \<Rightarrow> nat \<Rightarrow> 'a wheel_node_scheme \<Rightarrow> nat option" where
  "due cursor n x = map_option (\<lambda>slot. (slot + n - 1 - cursor) mod n + 1 + wheelRound x * n) (wheelSlot x)"

lemma due_schedule:
  fixes cursor n t :: nat
  assumes "cursor < n" "1 \<le> t"
  shows "((cursor + t) mod n + n - 1 - cursor) mod n + 1 + (t - 1) div n * n = t"
proof -
  have n: "0 < n" using assms by simp
  have "((cursor + t) mod n + n - 1 - cursor) mod n = (t - 1) mod n"
  proof -
    have "((cursor + t) mod n + n - 1 - cursor) = (cursor + t) mod n + (n - 1 - cursor)" using assms by simp
    then have "((cursor + t) mod n + n - 1 - cursor) mod n = ((cursor + t) + (n - 1 - cursor)) mod n"
      by (simp add: mod_add_left_eq)
    also have "(cursor + t) + (n - 1 - cursor) = (t - 1) + n" using assms by simp
    finally show ?thesis by simp
  qed
  then show ?thesis using assms div_mult_mod_eq [of "t - 1" n] by simp
qed

lemma due_next:
  fixes cursor n slot :: nat
  assumes "cursor < n" "slot < n"
  shows "(slot + n - 1 - (cursor + 1) mod n) mod n + 1 =
    (if slot = (cursor + 1) mod n then n else (slot + n - 1 - cursor) mod n)"
proof -
  consider "cursor + 1 = n" | "cursor + 1 < n" using assms(1) by linarith
  then show ?thesis
  proof cases
    case 1
    then show ?thesis using assms by (cases "slot = 0") (auto simp: mod_if)
  next
    case 2
    then have c: "(cursor + 1) mod n = cursor + 1" by simp
    consider "slot = cursor + 1" | k where "slot = cursor + 2 + k" | "slot < cursor + 1"
      using le_Suc_ex [of "cursor + 2" slot] by fastforce
    then show ?thesis
    proof cases
      case 1
      then show ?thesis using assms c by simp
    next
      case (2 k)
      then have "slot + n - 1 - (cursor + 1) = k + n" "slot + n - 1 - cursor = k + 1 + n" "k + 1 < n"
        using assms(2) by simp_all
      moreover from this have "(k + 1 + n) mod n = k + 1" "(k + n) mod n = k" by (simp_all only: mod_add_self2 mod_less)
      ultimately show ?thesis using 2 c by simp
    next
      case 3
      then show ?thesis using assms 2 c by simp
    qed
  qed
qed

end
