(* ===== verification/Fusion.thy ===== *)
theory Fusion
  imports Wheel TextFields Clone Classifier
begin

text \<open>
  The state of \<open>pkg/omnidiscover/fusion.go\<close> and the operations that keep devices, links and DNS records:
  allocation with eviction, promotion and merging of devices, links with their expiries, the DNS cache
  and the services built from it. The handlers of messages and the clock are in the theory \<open>Observe\<close>.

  Entries live in arrays of fixed size, addressed by index; a pointer into an array is its index. Every
  access goes through \<^const>\<open>idx\<close> and \<^const>\<open>upd\<close>, so an index out of range is the value \<^const>\<open>None\<close>. Loops
  that the code ends only when a slice is empty are partial functions, for which \<^const>\<open>None\<close> also
  stands for running forever.
\<close>

section \<open>The state\<close>

record deviceEntry =
  de_used :: bool
  de_generation :: u32
  de_device :: DiscoveredDevice
  de_links :: "nat list"
  de_dns :: "nat list"
  de_dnsExpiry :: Time

text \<open>The index -1 in \<open>device\<close> is \<^const>\<open>None\<close>.\<close>

record linkEntry = wheel_node +
  le_used :: bool
  le_link :: DiscoveredLink
  le_device :: "nat option"
  le_expires :: "Time list"

record dnsKey =
  dnk_device :: nat
  dnk_h1 :: u64
  dnk_h2 :: u64
  dnk_typ :: DNSRecordType
  dnk_class :: u16

record dnsEntry = wheel_node +
  ne_used :: bool
  ne_key :: dnsKey
  ne_record :: DNSRecord
  ne_device :: "nat option"
  ne_expiresAt :: Time

text \<open>The scratch slice \<open>expiredDNS\<close>, which is empty between calls, is a local value of \<open>tick\<close>.\<close>

record fusionState =
  fs_cfg :: "Rule Config"
  fs_classifier :: "Classifier ptr"
  fs_devices :: "deviceEntry list"
  fs_deviceByKey :: "DeviceKey \<rightharpoonup> nat"
  fs_freeDevices :: "nat list"
  fs_links :: "linkEntry list"
  fs_linkByKey :: "LinkKey \<rightharpoonup> nat"
  fs_freeLinks :: "nat list"
  fs_dns :: "dnsEntry list"
  fs_dnsByKey :: "dnsKey \<rightharpoonup> nat"
  fs_freeDNS :: "nat list"
  fs_linkHeads :: "nat option list"
  fs_dnsHeads :: "nat option list"
  fs_wheelCursor :: nat
  fs_tombstones :: "Event slab"
  fs_deviceEvictions :: u64
  fs_linkEvictions :: u64
  fs_dnsEvictions :: u64

definition zero_deviceEntry :: deviceEntry where
  "zero_deviceEntry =
     \<lparr>de_used = False, de_generation = 0, de_device = zero_device, de_links = [], de_dns = [], de_dnsExpiry = 0\<rparr>"

definition no_expires :: "Time list" where
  "no_expires = replicate 5 0"

text \<open>Go's zero value but for the slot, which \<open>newFusionState\<close> sets to -1.\<close>

definition new_linkEntry :: linkEntry where
  "new_linkEntry =
     \<lparr>wheelSlot = None, wheelRound = 0, wheelPrev = Some 0, wheelNext = Some 0, le_used = False,
      le_link = zero_link, le_device = Some 0, le_expires = no_expires\<rparr>"

definition zero_dnsKey :: dnsKey where
  "zero_dnsKey = \<lparr>dnk_device = 0, dnk_h1 = 0, dnk_h2 = 0, dnk_typ = 0, dnk_class = 0\<rparr>"

definition zero_dnsRecord :: DNSRecord where
  "zero_dnsRecord = \<lparr>rr_Name = [], rr_Type = 0, rr_Class = 0, rr_CacheFlush = False, rr_TTL = 0,
     rr_Target = [], rr_Address = AddrNone, rr_Port = 0, rr_Priority = 0, rr_Weight = 0, rr_TXT = []\<rparr>"

definition new_dnsEntry :: dnsEntry where
  "new_dnsEntry =
     \<lparr>wheelSlot = None, wheelRound = 0, wheelPrev = Some 0, wheelNext = Some 0, ne_used = False,
      ne_key = zero_dnsKey, ne_record = zero_dnsRecord, ne_device = Some 0, ne_expiresAt = 0\<rparr>"

text \<open>The free lists are stacks with the top at the end; the first pop gives index 0.\<close>

definition newFusionState :: "Rule Config \<Rightarrow> Classifier ptr \<Rightarrow> fusionState" where
  "newFusionState cfg classifier =
     (let nd = nat (cfg_MaxDevices cfg); nl = nat (cfg_MaxLinks cfg); nr = nat (cfg_MaxDNSRecords cfg);
          ns = nat (cfg_TimingWheelSlots cfg)
      in \<lparr>fs_cfg = cfg, fs_classifier = classifier,
          fs_devices = replicate nd zero_deviceEntry, fs_deviceByKey = Map.empty, fs_freeDevices = rev [0 ..< nd],
          fs_links = replicate nl new_linkEntry, fs_linkByKey = Map.empty, fs_freeLinks = rev [0 ..< nl],
          fs_dns = replicate nr new_dnsEntry, fs_dnsByKey = Map.empty, fs_freeDNS = rev [0 ..< nr],
          fs_linkHeads = replicate ns None, fs_dnsHeads = replicate ns None, fs_wheelCursor = 0,
          fs_tombstones = slab_empty, fs_deviceEvictions = 0, fs_linkEvictions = 0, fs_dnsEvictions = 0\<rparr>)"

text \<open>
  An event of a batch points either to a device and a link of the state, whose contents the handler
  reads later, or to a tombstone, whose contents are fixed.
\<close>

datatype event_target = Live nat nat | Tombstone DiscoveredDevice DiscoveredLink

record fusion_event =
  fe_Kind :: EventKind
  fe_Changed :: FieldSet
  fe_Target :: event_target

type_synonym fused = "fusionState \<times> fusion_event list"

text \<open>\<open>f(&s.devices[i])\<close>, \<open>f(&s.links[i])\<close> and \<open>f(&s.dns[i])\<close>\<close>

definition mod_device :: "nat \<Rightarrow> (deviceEntry \<Rightarrow> deviceEntry) \<Rightarrow> fusionState \<Rightarrow> fusionState run" where
  "mod_device i f s = do {
     d \<leftarrow> idx (fs_devices s) i;
     ds \<leftarrow> upd (fs_devices s) i (f d);
     Some (s\<lparr>fs_devices := ds\<rparr>)
   }"

definition mod_link :: "nat \<Rightarrow> (linkEntry \<Rightarrow> linkEntry) \<Rightarrow> fusionState \<Rightarrow> fusionState run" where
  "mod_link i f s = do {
     l \<leftarrow> idx (fs_links s) i;
     ls \<leftarrow> upd (fs_links s) i (f l);
     Some (s\<lparr>fs_links := ls\<rparr>)
   }"

definition mod_dns :: "nat \<Rightarrow> (dnsEntry \<Rightarrow> dnsEntry) \<Rightarrow> fusionState \<Rightarrow> fusionState run" where
  "mod_dns i f s = do {
     e \<leftarrow> idx (fs_dns s) i;
     es \<leftarrow> upd (fs_dns s) i (f e);
     Some (s\<lparr>fs_dns := es\<rparr>)
   }"

definition set_device :: "nat \<Rightarrow> DiscoveredDevice \<Rightarrow> fusionState \<Rightarrow> fusionState run" where
  "set_device i d s = mod_device i (\<lambda>e. e\<lparr>de_device := d\<rparr>) s"

definition set_link :: "nat \<Rightarrow> DiscoveredLink \<Rightarrow> fusionState \<Rightarrow> fusionState run" where
  "set_link i l s = mod_link i (\<lambda>e. e\<lparr>le_link := l\<rparr>) s"

text \<open>\<open>li < 0 || li >= len(s.links) || !s.links[li].used\<close>, and the same for records, negated.\<close>

definition link_used :: "fusionState \<Rightarrow> nat \<Rightarrow> bool run" where
  "link_used s li = (if li \<ge> length (fs_links s) then Some False else do { l \<leftarrow> idx (fs_links s) li; Some (le_used l) })"

definition dns_used :: "fusionState \<Rightarrow> nat \<Rightarrow> bool run" where
  "dns_used s di = (if di \<ge> length (fs_dns s) then Some False else do { e \<leftarrow> idx (fs_dns s) di; Some (ne_used e) })"

definition device_used :: "fusionState \<Rightarrow> nat option \<Rightarrow> bool run" where
  "device_used s dp = (case dp of
       None \<Rightarrow> Some False
     | Some di \<Rightarrow>
         if di \<ge> length (fs_devices s) then Some False
         else do { d \<leftarrow> idx (fs_devices s) di; Some (de_used d) })"

section \<open>Tombstones\<close>

definition zero_event :: Event where
  "zero_event = \<lparr>ev_Kind = EventNone, ev_Changed = 0, ev_Device = zero_device, ev_Link = zero_link\<rparr>"

definition resetTombstones :: "fusionState \<Rightarrow> fusionState" where
  "resetTombstones s =
     s\<lparr>fs_tombstones := slab_reset
         (\<lambda>e. e\<lparr>ev_Device := Device_Reset (ev_Device e), ev_Link := resetLink (ev_Link e)\<rparr>) (fs_tombstones s)\<rparr>"

definition tombstone ::
  "EventKind \<Rightarrow> FieldSet \<Rightarrow> DiscoveredDevice \<Rightarrow> DiscoveredLink \<Rightarrow> fusionState \<Rightarrow> (fusion_event \<times> fusionState) run" where
  "tombstone kind changed d l s = do {
     let i = length (live (fs_tombstones s));
     ts \<leftarrow> slab_modify i
       (\<lambda>e. e\<lparr>ev_Kind := kind, ev_Changed := changed, ev_Device := cloneDeviceInto (ev_Device e) (Some d),
              ev_Link := cloneLinkInto (ev_Link e) (Some l)\<rparr>)
       (slab_grow zero_event (fs_tombstones s));
     e \<leftarrow> idx (live ts) i;
     Some (\<lparr>fe_Kind = kind, fe_Changed = changed, fe_Target = Tombstone (ev_Device e) (ev_Link e)\<rparr>,
           s\<lparr>fs_tombstones := ts\<rparr>)
   }"

section \<open>The timing wheels\<close>

definition scheduleLink :: "nat \<Rightarrow> Time \<Rightarrow> Time \<Rightarrow> fusionState \<Rightarrow> fusionState run" where
  "scheduleLink i now expiry s = do {
     (ls, heads) \<leftarrow> schedule (fs_links s, fs_linkHeads s) (fs_wheelCursor s) i now expiry;
     Some (s\<lparr>fs_links := ls, fs_linkHeads := heads\<rparr>)
   }"

definition unscheduleLink :: "nat \<Rightarrow> fusionState \<Rightarrow> fusionState run" where
  "unscheduleLink i s = do {
     (ls, heads) \<leftarrow> unschedule (fs_links s, fs_linkHeads s) i;
     Some (s\<lparr>fs_links := ls, fs_linkHeads := heads\<rparr>)
   }"

definition scheduleDNS :: "nat \<Rightarrow> Time \<Rightarrow> Time \<Rightarrow> fusionState \<Rightarrow> fusionState run" where
  "scheduleDNS i now expiry s = do {
     (es, heads) \<leftarrow> schedule (fs_dns s, fs_dnsHeads s) (fs_wheelCursor s) i now expiry;
     Some (s\<lparr>fs_dns := es, fs_dnsHeads := heads\<rparr>)
   }"

definition unscheduleDNS :: "nat \<Rightarrow> fusionState \<Rightarrow> fusionState run" where
  "unscheduleDNS i s = do {
     (es, heads) \<leftarrow> unschedule (fs_dns s, fs_dnsHeads s) i;
     Some (s\<lparr>fs_dns := es, fs_dnsHeads := heads\<rparr>)
   }"

section \<open>Removing links and records\<close>

text \<open>\<open>for i, x := range xs { if x == idx { xs[i] = xs[len(xs)-1]; xs = xs[:len(xs)-1]; break } }\<close>\<close>

fun index_of :: "nat \<Rightarrow> nat list \<Rightarrow> nat option" where
  "index_of x [] = None"
| "index_of x (y # ys) = (if y = x then Some 0 else map_option Suc (index_of x ys))"

definition swap_remove :: "nat \<Rightarrow> nat list \<Rightarrow> nat list" where
  "swap_remove x xs = (case index_of x xs of None \<Rightarrow> xs | Some i \<Rightarrow> butlast (xs[i := last xs]))"

definition removeLink :: "nat \<Rightarrow> EventKind \<Rightarrow> fused \<Rightarrow> fused run" where
  "removeLink i kind se = (case se of (s, events) \<Rightarrow> do {
     used \<leftarrow> link_used s i;
     if \<not> used then Some (s, events)
     else do {
       l \<leftarrow> idx (fs_links s) i;
       di \<leftarrow> le_device l;
       d \<leftarrow> idx (fs_devices s) di;
       (e, s) \<leftarrow> tombstone kind FieldLink (de_device d) (le_link l) s;
       s \<leftarrow> unscheduleLink i s;
       let s = s\<lparr>fs_linkByKey := (fs_linkByKey s)(link_Key (le_link l) := None)\<rparr>;
       s \<leftarrow> mod_device di (\<lambda>d. d\<lparr>de_links := swap_remove i (de_links d)\<rparr>) s;
       s \<leftarrow> mod_link i (\<lambda>l. l\<lparr>le_used := False, le_device := None, le_expires := no_expires\<rparr>) s;
       Some (s\<lparr>fs_freeLinks := fs_freeLinks s @ [i]\<rparr>, events @ [e])
     }
   })"

text \<open>\<open>recomputeDNSExpiry\<close>: the latest expiry of the records of a device.\<close>

fun latest_dns :: "fusionState \<Rightarrow> nat list \<Rightarrow> Time \<Rightarrow> Time run" where
  "latest_dns s [] acc = Some acc"
| "latest_dns s (i # is) acc = do {
     used \<leftarrow> dns_used s i;
     if used then do {
       e \<leftarrow> idx (fs_dns s) i;
       latest_dns s is (if ne_expiresAt e > acc then ne_expiresAt e else acc)
     }
     else latest_dns s is acc
   }"

definition recomputeDNSExpiry :: "nat \<Rightarrow> fusionState \<Rightarrow> fusionState run" where
  "recomputeDNSExpiry di s = do {
     d \<leftarrow> idx (fs_devices s) di;
     t \<leftarrow> latest_dns s (de_dns d) 0;
     mod_device di (\<lambda>d. d\<lparr>de_dnsExpiry := t\<rparr>) s
   }"

definition removeDNS :: "nat \<Rightarrow> fusionState \<Rightarrow> fusionState run" where
  "removeDNS i s = do {
     used \<leftarrow> dns_used s i;
     if \<not> used then Some s
     else do {
       e \<leftarrow> idx (fs_dns s) i;
       wasLatest \<leftarrow> (case ne_device e of
           None \<Rightarrow> Some False
         | Some di \<Rightarrow>
             if di < length (fs_devices s)
             then do { d \<leftarrow> idx (fs_devices s) di; Some (ne_expiresAt e = de_dnsExpiry d) }
             else Some False);
       s \<leftarrow> unscheduleDNS i s;
       let s = s\<lparr>fs_dnsByKey := (fs_dnsByKey s)(ne_key e := None)\<rparr>;
       owned \<leftarrow> device_used s (ne_device e);
       s \<leftarrow> (if owned
             then do {
               di \<leftarrow> ne_device e;
               mod_device di (\<lambda>d. d\<lparr>de_dns := swap_remove i (de_dns d)\<rparr>) s
             }
             else Some s);
       s \<leftarrow> mod_dns i (\<lambda>e. e\<lparr>ne_used := False, ne_device := None, ne_expiresAt := 0, ne_key := zero_dnsKey\<rparr>) s;
       let s = s\<lparr>fs_freeDNS := fs_freeDNS s @ [i]\<rparr>;
       if wasLatest
       then do {
         di \<leftarrow> ne_device e;
         d \<leftarrow> idx (fs_devices s) di;
         if de_used d then recomputeDNSExpiry di s else Some s
       }
       else Some s
     }
   }"

section \<open>Removing devices\<close>

partial_function (option) drain_links :: "nat \<Rightarrow> EventKind \<Rightarrow> fused \<Rightarrow> fused run" where
  "drain_links i kind se = do {
     d \<leftarrow> idx (fs_devices (fst se)) i;
     if de_links d = [] then Some se
     else do {
       se \<leftarrow> removeLink (last (de_links d)) kind se;
       drain_links i kind se
     }
   }"

partial_function (option) drain_dns :: "nat \<Rightarrow> fusionState \<Rightarrow> fusionState run" where
  "drain_dns i s = do {
     d \<leftarrow> idx (fs_devices s) i;
     if de_dns d = [] then Some s
     else do {
       s \<leftarrow> removeDNS (last (de_dns d)) s;
       drain_dns i s
     }
   }"

definition removeDevice :: "nat \<Rightarrow> EventKind \<Rightarrow> fused \<Rightarrow> fused run" where
  "removeDevice i kind se = (case se of (s, events) \<Rightarrow> do {
     used \<leftarrow> device_used s (Some i);
     if \<not> used then Some (s, events)
     else do {
       (s, events) \<leftarrow> drain_links i kind (s, events);
       s \<leftarrow> drain_dns i s;
       d \<leftarrow> idx (fs_devices s) i;
       let s = s\<lparr>fs_deviceByKey := (fs_deviceByKey s)(dev_Key (de_device d) := None)\<rparr>;
       s \<leftarrow> mod_device i (\<lambda>d. d\<lparr>de_used := False, de_links := [], de_dns := [],
              de_device := Device_Reset (de_device d)\<rparr>) s;
       Some (s\<lparr>fs_freeDevices := fs_freeDevices s @ [i]\<rparr>, events)
     }
   })"

definition dropDevice :: "nat \<Rightarrow> fusionState \<Rightarrow> fusionState run" where
  "dropDevice i s = do {
     d \<leftarrow> idx (fs_devices s) i;
     let s = s\<lparr>fs_deviceByKey := (fs_deviceByKey s)(dev_Key (de_device d) := None)\<rparr>;
     s \<leftarrow> mod_device i (\<lambda>d. d\<lparr>de_used := False, de_device := Device_Reset (de_device d),
            de_links := [], de_dns := [], de_dnsExpiry := 0\<rparr>) s;
     Some (s\<lparr>fs_freeDevices := fs_freeDevices s @ [i]\<rparr>)
   }"

section \<open>Allocation with eviction\<close>

text \<open>The scans for the used entry with the earliest time; the first of equal ones wins.\<close>

fun oldest_loop :: "('a \<Rightarrow> bool) \<Rightarrow> ('a \<Rightarrow> Time) \<Rightarrow> 'a list \<Rightarrow> nat list \<Rightarrow> nat option \<Rightarrow> nat option run" where
  "oldest_loop used time xs [] oldest = Some oldest"
| "oldest_loop used time xs (i # is) oldest = do {
     x \<leftarrow> idx xs i;
     older \<leftarrow> (if \<not> used x then Some False
       else (case oldest of
           None \<Rightarrow> Some True
         | Some j \<Rightarrow> do { y \<leftarrow> idx xs j; Some (time x < time y) }));
     oldest_loop used time xs is (if older then Some i else oldest)
   }"

definition oldest_entry :: "('a \<Rightarrow> bool) \<Rightarrow> ('a \<Rightarrow> Time) \<Rightarrow> 'a list \<Rightarrow> nat option run" where
  "oldest_entry used time xs = oldest_loop used time xs [0 ..< length xs] None"

definition allocDevice :: "fused \<Rightarrow> (nat option \<times> fused) run" where
  "allocDevice se = (case se of (s, events) \<Rightarrow>
     if fs_freeDevices s \<noteq> []
     then Some (Some (last (fs_freeDevices s)), s\<lparr>fs_freeDevices := butlast (fs_freeDevices s)\<rparr>, events)
     else do {
       oldest \<leftarrow> oldest_entry de_used (\<lambda>d. dev_LastSeen (de_device d)) (fs_devices s);
       case oldest of
         None \<Rightarrow> Some (None, s, events)
       | Some i \<Rightarrow> do {
           (s, events) \<leftarrow> removeDevice i EventEvicted
             (s\<lparr>fs_deviceEvictions := fs_deviceEvictions s + 1\<rparr>, events);
           if fs_freeDevices s = [] then Some (None, s, events)
           else Some (Some (last (fs_freeDevices s)), s\<lparr>fs_freeDevices := butlast (fs_freeDevices s)\<rparr>, events)
         }
     })"

definition allocLink :: "fused \<Rightarrow> (nat option \<times> fused) run" where
  "allocLink se = (case se of (s, events) \<Rightarrow>
     if fs_freeLinks s \<noteq> []
     then Some (Some (last (fs_freeLinks s)), s\<lparr>fs_freeLinks := butlast (fs_freeLinks s)\<rparr>, events)
     else do {
       oldest \<leftarrow> oldest_entry le_used (\<lambda>l. link_LastSeen (le_link l)) (fs_links s);
       case oldest of
         None \<Rightarrow> Some (None, s, events)
       | Some i \<Rightarrow> do {
           (s, events) \<leftarrow> removeLink i EventEvicted (s\<lparr>fs_linkEvictions := fs_linkEvictions s + 1\<rparr>, events);
           if fs_freeLinks s = [] then Some (None, s, events)
           else Some (Some (last (fs_freeLinks s)), s\<lparr>fs_freeLinks := butlast (fs_freeLinks s)\<rparr>, events)
         }
     })"

definition allocDNS :: "fusionState \<Rightarrow> (nat option \<times> fusionState) run" where
  "allocDNS s =
     (if fs_freeDNS s \<noteq> []
      then Some (Some (last (fs_freeDNS s)), s\<lparr>fs_freeDNS := butlast (fs_freeDNS s)\<rparr>)
      else do {
        oldest \<leftarrow> oldest_entry ne_used ne_expiresAt (fs_dns s);
        case oldest of
          None \<Rightarrow> Some (None, s)
        | Some i \<Rightarrow> do {
            s \<leftarrow> removeDNS i (s\<lparr>fs_dnsEvictions := fs_dnsEvictions s + 1\<rparr>);
            if fs_freeDNS s = [] then Some (None, s)
            else Some (Some (last (fs_freeDNS s)), s\<lparr>fs_freeDNS := butlast (fs_freeDNS s)\<rparr>)
          }
      })"

section \<open>Keys and expiries\<close>

record observationMeta =
  meta_protocol :: Protocol
  meta_interfaceName :: string
  meta_interfaceIndex :: int
  meta_timestamp :: Time
  meta_sourceMAC :: MAC
  meta_sourceIP :: Addr
  meta_vlans :: "u16 list"
  meta_vlanCount :: u8

definition mac_key :: "MAC \<Rightarrow> DeviceKey" where
  "mac_key m = zero_device_key\<lparr>dk_Kind := DeviceKeyMAC, dk_MAC := m\<rparr>"

definition ip_key :: "Addr \<Rightarrow> int \<Rightarrow> DeviceKey" where
  "ip_key a i = zero_device_key\<lparr>dk_Kind := DeviceKeyIP, dk_IP := a, dk_InterfaceIndex := i\<rparr>"

fun first_valid :: "Addr list \<Rightarrow> Addr option" where
  "first_valid [] = None"
| "first_valid (a # as) = (if IsValid a then Some (Unmap a) else first_valid as)"

text \<open>The identity of the sender; \<^const>\<open>None\<close> stands for a key of unknown kind.\<close>

definition device_key :: "observationMeta \<Rightarrow> MAC \<Rightarrow> Addr list \<Rightarrow> DeviceKey option" where
  "device_key meta claimed addresses =
     (let mac = (if \<not> IsUnicast (meta_sourceMAC meta) \<and> IsUnicast claimed then claimed else meta_sourceMAC meta)
      in if IsUnicast mac then Some (mac_key mac)
         else if IsValid (meta_sourceIP meta) then Some (ip_key (Unmap (meta_sourceIP meta)) (meta_interfaceIndex meta))
         else map_option (\<lambda>a. ip_key a (meta_interfaceIndex meta)) (first_valid addresses))"

text \<open>\<open>earliestExpiry\<close> and \<open>latestExpiry\<close> over the protocols from LLDP to mDNS; the zero time is unset.\<close>

fun earliest_loop :: "Time list \<Rightarrow> nat list \<Rightarrow> Time \<Rightarrow> Time run" where
  "earliest_loop values [] out = Some out"
| "earliest_loop values (i # is) out = do {
     v \<leftarrow> idx values i;
     earliest_loop values is (if v \<noteq> 0 \<and> (out = 0 \<or> v < out) then v else out)
   }"

definition protocol_range :: "nat list" where
  "protocol_range = [unat ProtocolLLDP ..< unat ProtocolMDNS + 1]"

definition earliestExpiry :: "Time list \<Rightarrow> Time run" where
  "earliestExpiry values = earliest_loop values protocol_range 0"

fun latest_loop :: "Time list \<Rightarrow> nat list \<Rightarrow> Time \<Rightarrow> Time run" where
  "latest_loop values [] out = Some out"
| "latest_loop values (i # is) out = do {
     v \<leftarrow> idx values i;
     latest_loop values is (if v > out then v else out)
   }"

definition latestExpiry :: "Time list \<Rightarrow> Time run" where
  "latestExpiry values = latest_loop values protocol_range 0"

section \<open>Links\<close>

text \<open>\<open>Time.Add\<close> is exact on the integers; its argument is a signed 64-bit duration.\<close>

fun append_vlans :: "u16 list \<Rightarrow> u16 list \<Rightarrow> u16 list" where
  "append_vlans xs [] = xs"
| "append_vlans xs (v # vs) = append_vlans (if v \<in> set xs then xs else xs @ [v]) vs"

fun refresh_vlans :: "u16 list \<Rightarrow> nat list \<Rightarrow> u16 list \<Rightarrow> bool \<Rightarrow> (bool \<times> u16 list) run" where
  "refresh_vlans vlans [] xs changed = Some (changed, xs)"
| "refresh_vlans vlans (i # is) xs changed = do {
     v \<leftarrow> idx vlans i;
     if v \<in> set xs then refresh_vlans vlans is xs changed
     else refresh_vlans vlans is (xs @ [v]) True
   }"

definition refreshLink ::
  "nat \<Rightarrow> observationMeta \<Rightarrow> LinkKind \<Rightarrow> Duration \<Rightarrow> fusionState \<Rightarrow> (bool \<times> fusionState) run" where
  "refreshLink li meta kind ttl s = do {
     e \<leftarrow> idx (fs_links s) li;
     let l = le_link e;
     let changed = (kind = PhysicalAdjacency \<and> link_Kind l \<noteq> PhysicalAdjacency);
     let l = (if changed then l\<lparr>link_Kind := kind\<rparr> else l);
     let new = (link_Protocols l AND Set (meta_protocol meta) = 0);
     let l = (if new then l\<lparr>link_Protocols := link_Protocols l OR Set (meta_protocol meta)\<rparr> else l);
     let changed = (changed \<or> new);
     let l = (if meta_timestamp meta > link_LastSeen l then l\<lparr>link_LastSeen := meta_timestamp meta\<rparr> else l);
     let ttl = (if ttl \<le> 0 then Second else ttl);
     let exp = meta_timestamp meta + ttl;
     expires \<leftarrow> (if unat (meta_protocol meta) < length (le_expires e)
       then upd (le_expires e) (unat (meta_protocol meta)) exp else Some (le_expires e));
     let l = l\<lparr>link_TTL := ttl\<rparr>;
     earliest \<leftarrow> earliestExpiry expires;
     let l = l\<lparr>link_ExpiresAt := earliest\<rparr>;
     s \<leftarrow> mod_link li (\<lambda>e. e\<lparr>le_link := l, le_expires := expires\<rparr>) s;
     s \<leftarrow> scheduleLink li (meta_timestamp meta) earliest s;
     (changed, vlans) \<leftarrow> refresh_vlans (meta_vlans meta) [0 ..< unat (meta_vlanCount meta)] (link_VLANs l) changed;
     s \<leftarrow> mod_link li (\<lambda>e. e\<lparr>le_link := (le_link e)\<lparr>link_VLANs := vlans\<rparr>\<rparr>) s;
     Some (changed, s)
   }"

text \<open>The first used link of the device on the interface with the given kind.\<close>

fun find_link :: "fusionState \<Rightarrow> nat list \<Rightarrow> int \<Rightarrow> LinkKind \<Rightarrow> nat option run" where
  "find_link s [] i kind = Some None"
| "find_link s (li # lis) i kind = do {
     used \<leftarrow> link_used s li;
     if \<not> used then find_link s lis i kind
     else do {
       l \<leftarrow> idx (fs_links s) li;
       if lk_InterfaceIndex (link_Key (le_link l)) = i \<and> link_Kind (le_link l) = kind then Some (Some li)
       else find_link s lis i kind
     }
   }"

definition bytes_of :: "string \<Rightarrow> bytes" where
  "bytes_of cs = map of_char cs"

text \<open>Result: the index (or none), whether the link changed, whether it is new.\<close>

definition upsertLink ::
  "observationMeta \<Rightarrow> nat \<Rightarrow> LinkKind \<Rightarrow> Duration \<Rightarrow> fused \<Rightarrow> ((nat option \<times> bool \<times> bool) \<times> fused) run" where
  "upsertLink meta di kind ttl se = (case se of (s, events) \<Rightarrow> do {
     d \<leftarrow> idx (fs_devices s) di;
     let dkey = dev_Key (de_device d);
     let key = \<lparr>lk_InterfaceIndex = meta_interfaceIndex meta, lk_SourceMAC = meta_sourceMAC meta, lk_Device = dkey\<rparr>;
     known \<leftarrow> (case fs_linkByKey s key of
         None \<Rightarrow> Some None
       | Some li \<Rightarrow> do { l \<leftarrow> idx (fs_links s) li; Some (if le_used l then Some li else None) });
     case known of
       Some li \<Rightarrow> do {
         (changed, s) \<leftarrow> refreshLink li meta kind ttl s;
         Some ((Some li, changed, False), s, events)
       }
     | None \<Rightarrow> do {
         same \<leftarrow> find_link s (de_links d) (meta_interfaceIndex meta)
           (if kind = PhysicalAdjacency then SegmentPresence else PhysicalAdjacency);
         case same of
           Some li \<Rightarrow>
             if kind = PhysicalAdjacency then do {
               e \<leftarrow> idx (fs_links s) li;
               let s = s\<lparr>fs_linkByKey := (fs_linkByKey s)(link_Key (le_link e) := None)\<rparr>;
               s \<leftarrow> mod_link li (\<lambda>e. e\<lparr>le_link := (le_link e)\<lparr>link_Key := key, link_Device := dkey,
                      link_ObservedSourceMAC := meta_sourceMAC meta, link_Kind := PhysicalAdjacency\<rparr>\<rparr>) s;
               let s = s\<lparr>fs_linkByKey := (fs_linkByKey s)(key \<mapsto> li)\<rparr>;
               (_, s) \<leftarrow> refreshLink li meta kind ttl s;
               Some ((Some li, True, False), s, events)
             }
             else do {
               (changed, s) \<leftarrow> refreshLink li meta kind ttl s;
               Some ((Some li, changed, False), s, events)
             }
         | None \<Rightarrow> do {
             (free, s, events) \<leftarrow> allocLink (s, events);
             case free of
               None \<Rightarrow> Some ((None, False, False), s, events)
             | Some li \<Rightarrow> do {
                 d \<leftarrow> idx (fs_devices s) di;
                 let dkey = dev_Key (de_device d);
                 s \<leftarrow> mod_link li (\<lambda>e. e\<lparr>
                        le_link := (resetLink (le_link e))\<lparr>link_Key := key, link_Kind := kind, link_Device := dkey,
                          link_LocalInterface := bytes_of (meta_interfaceName meta),
                          link_ObservedSourceMAC := meta_sourceMAC meta,
                          link_FirstSeen := meta_timestamp meta, link_LastSeen := meta_timestamp meta\<rparr>,
                        le_used := True, le_device := Some di,
                        wheelSlot := None, wheelPrev := None, wheelNext := None\<rparr>) s;
                 let s = s\<lparr>fs_linkByKey := (fs_linkByKey s)(key \<mapsto> li)\<rparr>;
                 s \<leftarrow> mod_device di (\<lambda>d. d\<lparr>de_links := de_links d @ [li]\<rparr>) s;
                 (_, s) \<leftarrow> refreshLink li meta kind ttl s;
                 Some ((Some li, True, True), s, events)
               }
           }
       }
   })"

text \<open>\<open>src.expires[p].After(dst.expires[p])\<close> for every protocol\<close>

fun merge_expires :: "nat list \<Rightarrow> Time list \<Rightarrow> Time list \<Rightarrow> Time list run" where
  "merge_expires [] dst src = Some dst"
| "merge_expires (p # ps) dst src = do {
     x \<leftarrow> idx src p;
     y \<leftarrow> idx dst p;
     dst \<leftarrow> (if x > y then upd dst p x else Some dst);
     merge_expires ps dst src
   }"

definition mergeLinks :: "nat \<Rightarrow> nat \<Rightarrow> fused \<Rightarrow> fused run" where
  "mergeLinks dsti srci se = (case se of (s, events) \<Rightarrow>
     if dsti = srci then Some (s, events)
     else do {
       dst \<leftarrow> idx (fs_links s) dsti;
       src \<leftarrow> idx (fs_links s) srci;
       if \<not> le_used dst \<or> \<not> le_used src then Some (s, events)
       else do {
         let l = le_link dst;
         let m = le_link src;
         let l = l\<lparr>link_Protocols := link_Protocols l OR link_Protocols m\<rparr>;
         let l = (if link_Kind m = PhysicalAdjacency then l\<lparr>link_Kind := PhysicalAdjacency\<rparr> else l);
         expires \<leftarrow> merge_expires protocol_range (le_expires dst) (le_expires src);
         let l = (if link_LastSeen m > link_LastSeen l then l\<lparr>link_LastSeen := link_LastSeen m\<rparr> else l);
         let l = (if link_FirstSeen m < link_FirstSeen l then l\<lparr>link_FirstSeen := link_FirstSeen m\<rparr> else l);
         let l = l\<lparr>link_VLANs := append_vlans (link_VLANs l) (link_VLANs m)\<rparr>;
         earliest \<leftarrow> earliestExpiry expires;
         let l = l\<lparr>link_ExpiresAt := earliest\<rparr>;
         s \<leftarrow> mod_link dsti (\<lambda>e. e\<lparr>le_link := l, le_expires := expires\<rparr>) s;
         s \<leftarrow> scheduleLink dsti (link_LastSeen l) earliest s;
         removeLink srci EventChanged (s, events)
       }
     })"

section \<open>The DNS cache\<close>

fun hashPair :: "u64 \<Rightarrow> u64 \<Rightarrow> bytes \<Rightarrow> u64 \<times> u64" where
  "hashPair h1 h2 [] = (h1, h2)"
| "hashPair h1 h2 (c # cs) =
     hashPair ((h1 XOR ucast c) * 1099511628211) ((h2 XOR ucast c) * 1099511628211) cs"

definition makeDNSKey :: "nat \<Rightarrow> DNSRecord \<Rightarrow> dnsKey" where
  "makeDNSKey device r =
     (let (h1, h2) = hashPair 1469598103934665603 1099511628211 (rr_Name r);
          (h1, h2) =
            (if rr_Type r = DNSRecordA \<or> rr_Type r = DNSRecordAAAA then
               if IsValid (rr_Address r) then hashPair h1 h2 (As16 (rr_Address r)) else (h1, h2)
             else if rr_Type r = DNSRecordPTR then hashPair h1 h2 (rr_Target r)
             else if rr_Type r = DNSRecordSRV then
               (let (h1, h2) = hashPair h1 h2 (rr_Target r)
                in (h1 XOR (push_bit 32 (ucast (rr_Port r)) OR push_bit 16 (ucast (rr_Priority r)) OR ucast (rr_Weight r)),
                    h2 XOR (push_bit 16 (ucast (rr_Port r)) OR ucast (rr_Weight r))))
             else if rr_Type r = DNSRecordTXT then hashPair h1 h2 (rr_TXT r)
             else (h1, h2))
      in \<lparr>dnk_device = device, dnk_h1 = h1, dnk_h2 = h2, dnk_typ = rr_Type r, dnk_class = rr_Class r\<rparr>)"

definition cloneDNSRecord :: "DNSRecord \<Rightarrow> DNSRecord \<Rightarrow> DNSRecord" where
  "cloneDNSRecord dst src =
     dst\<lparr>rr_Name := copyBytes (rr_Name dst) (rr_Name src),
         rr_Type := rr_Type src,
         rr_Class := rr_Class src,
         rr_CacheFlush := rr_CacheFlush src,
         rr_TTL := rr_TTL src,
         rr_Target := copyBytes (rr_Target dst) (rr_Target src),
         rr_Address := rr_Address src,
         rr_Port := rr_Port src,
         rr_Priority := rr_Priority src,
         rr_Weight := rr_Weight src,
         rr_TXT := copyBytes (rr_TXT dst) (rr_TXT src)\<rparr>"

definition setDNSExpiry :: "nat \<Rightarrow> Time \<Rightarrow> Time \<Rightarrow> fusionState \<Rightarrow> fusionState run" where
  "setDNSExpiry i now expires s = do {
     e \<leftarrow> idx (fs_dns s) i;
     let old = ne_expiresAt e;
     s \<leftarrow> mod_dns i (\<lambda>e. e\<lparr>ne_expiresAt := expires\<rparr>) s;
     s \<leftarrow> scheduleDNS i now expires s;
     owned \<leftarrow> device_used s (ne_device e);
     if \<not> owned then Some s
     else do {
       di \<leftarrow> ne_device e;
       d \<leftarrow> idx (fs_devices s) di;
       if expires > de_dnsExpiry d then mod_device di (\<lambda>d. d\<lparr>de_dnsExpiry := expires\<rparr>) s
       else if old = de_dnsExpiry d \<and> expires < old then recomputeDNSExpiry di s
       else Some s
     }
   }"

text \<open>\<open>time.Duration(record.TTL) * time.Second\<close>; at most 2^32 seconds, which fits in 64 bits.\<close>

definition ttl_duration :: "u32 \<Rightarrow> Duration" where
  "ttl_duration ttl = wrap64 (uint ttl * Second)"

definition cacheDNS :: "nat \<Rightarrow> DNSRecord ptr \<Rightarrow> Time \<Rightarrow> fusionState \<Rightarrow> (bool \<times> fusionState) run" where
  "cacheDNS di record now s =
     (case record of
        None \<Rightarrow> Some (False, s)
      | Some r \<Rightarrow>
          let key = makeDNSKey di r in
          if rr_TTL r = 0 then
            (case fs_dnsByKey s key of
               Some i \<Rightarrow> do { s \<leftarrow> setDNSExpiry i now (now + Second) s; Some (False, s) }
             | None \<Rightarrow> Some (False, s))
          else
            let expires = now + ttl_duration (rr_TTL r) in
            (case fs_dnsByKey s key of
               Some i \<Rightarrow> do {
                 s \<leftarrow> mod_dns i (\<lambda>e. e\<lparr>ne_record := (ne_record e)\<lparr>rr_TTL := rr_TTL r, rr_CacheFlush := rr_CacheFlush r\<rparr>\<rparr>) s;
                 s \<leftarrow> setDNSExpiry i now expires s;
                 Some (False, s)
               }
             | None \<Rightarrow> do {
                 (free, s) \<leftarrow> allocDNS s;
                 case free of
                   None \<Rightarrow> Some (False, s)
                 | Some i \<Rightarrow> do {
                     s \<leftarrow> mod_dns i (\<lambda>e. e\<lparr>ne_used := True, ne_key := key, ne_device := Some di, ne_expiresAt := 0,
                            wheelSlot := None, wheelPrev := None, wheelNext := None,
                            ne_record := cloneDNSRecord (ne_record e) r\<rparr>) s;
                     let s = s\<lparr>fs_dnsByKey := (fs_dnsByKey s)(key \<mapsto> i)\<rparr>;
                     s \<leftarrow> mod_device di (\<lambda>d. d\<lparr>de_dns := de_dns d @ [i]\<rparr>) s;
                     s \<leftarrow> setDNSExpiry i now expires s;
                     Some (True, s)
                   }
               }))"

section \<open>Services\<close>

definition minNonZeroTime :: "Time \<Rightarrow> Time \<Rightarrow> Time" where
  "minNonZeroTime a b = (if a = 0 \<or> b \<noteq> 0 \<and> b < a then b else a)"

text \<open>\<open>dnsDomain\<close>: what follows the second dot, if anything does.\<close>

fun dns_domain_loop :: "bytes \<Rightarrow> nat \<Rightarrow> bytes" where
  "dns_domain_loop [] dots = []"
| "dns_domain_loop (c # cs) dots =
     (if c = 0x2e then
        if dots + 1 = 2 \<and> cs \<noteq> [] then cs else dns_domain_loop cs (dots + 1)
      else dns_domain_loop cs dots)"

definition dnsDomain :: "bytes \<Rightarrow> bytes" where
  "dnsDomain name = dns_domain_loop name 0"

fun find_service :: "Service list \<Rightarrow> bytes \<Rightarrow> nat \<Rightarrow> nat option" where
  "find_service [] instance i = None"
| "find_service (s # ss) instance i = (if svc_Instance s = instance then Some i else find_service ss instance (i + 1))"

definition findService :: "Service slab \<Rightarrow> bytes \<Rightarrow> nat option" where
  "findService ss instance = find_service (live ss) instance 0"

definition ensureService :: "Service slab \<Rightarrow> bytes \<Rightarrow> (nat \<times> Service slab) run" where
  "ensureService ss instance =
     (case findService ss instance of
        Some i \<Rightarrow> Some (i, ss)
      | None \<Rightarrow> do {
          let i = length (live ss);
          ss \<leftarrow> slab_modify i
            (\<lambda>s. s\<lparr>svc_Instance := copyBytes (svc_Instance s) instance, svc_Protocols := ProtocolsMDNS\<rparr>)
            (slab_grow zero_service ss);
          Some (i, ss)
        })"

text \<open>The three loops of \<open>rebuildServices\<close> over the records of the device.\<close>

fun used_records :: "fusionState \<Rightarrow> nat list \<Rightarrow> dnsEntry list run" where
  "used_records s [] = Some []"
| "used_records s (i # is) = do {
     used \<leftarrow> dns_used s i;
     es \<leftarrow> used_records s is;
     if used then do { e \<leftarrow> idx (fs_dns s) i; Some (e # es) } else Some es
   }"

fun ptr_services :: "dnsEntry list \<Rightarrow> Service slab \<Rightarrow> Service slab run" where
  "ptr_services [] ss = Some ss"
| "ptr_services (e # es) ss =
     (if rr_Type (ne_record e) \<noteq> DNSRecordPTR then ptr_services es ss
      else do {
        (i, ss) \<leftarrow> ensureService ss (rr_Target (ne_record e));
        ss \<leftarrow> slab_modify i
          (\<lambda>s. s\<lparr>svc_Type := copyBytes (svc_Type s) (rr_Name (ne_record e)),
                 svc_Domain := copyBytes (svc_Domain s) (dnsDomain (rr_Name (ne_record e))),
                 svc_Protocols := svc_Protocols s OR ProtocolsMDNS,
                 svc_ExpiresAt := minNonZeroTime (svc_ExpiresAt s) (ne_expiresAt e)\<rparr>) ss;
        ptr_services es ss
      })"

fun detail_services :: "dnsEntry list \<Rightarrow> Service slab \<Rightarrow> Service slab run" where
  "detail_services [] ss = Some ss"
| "detail_services (e # es) ss =
     (let r = ne_record e in
      if rr_Type r = DNSRecordSRV then
        (case findService ss (rr_Name r) of
           None \<Rightarrow> detail_services es ss
         | Some i \<Rightarrow> do {
             ss \<leftarrow> slab_modify i
               (\<lambda>s. s\<lparr>svc_Host := copyBytes (svc_Host s) (rr_Target r), svc_Port := rr_Port r,
                      svc_Protocols := svc_Protocols s OR ProtocolsMDNS,
                      svc_ExpiresAt := minNonZeroTime (svc_ExpiresAt s) (ne_expiresAt e)\<rparr>) ss;
             detail_services es ss
           })
      else if rr_Type r = DNSRecordTXT then
        (case findService ss (rr_Name r) of
           None \<Rightarrow> detail_services es ss
         | Some i \<Rightarrow> do {
             ss \<leftarrow> slab_modify i
               (\<lambda>s. s\<lparr>svc_TXT := copyBytes (svc_TXT s) (rr_TXT r),
                      svc_Protocols := svc_Protocols s OR ProtocolsMDNS,
                      svc_ExpiresAt := minNonZeroTime (svc_ExpiresAt s) (ne_expiresAt e)\<rparr>) ss;
             detail_services es ss
           })
      else detail_services es ss)"

fun address_services :: "dnsEntry list \<Rightarrow> Service slab \<Rightarrow> Service slab" where
  "address_services [] ss = ss"
| "address_services (e # es) ss =
     (let r = ne_record e in
      if rr_Type r \<noteq> DNSRecordA \<and> rr_Type r \<noteq> DNSRecordAAAA then address_services es ss
      else address_services es
        (ss\<lparr>live := map (\<lambda>s. if svc_Host s = rr_Name r
                             then s\<lparr>svc_Addresses := appendUniqueAddr (svc_Addresses s) (rr_Address r)\<rparr> else s) (live ss)\<rparr>))"

text \<open>The first loop clears every field of the old services before it truncates the slice.\<close>

definition rebuildServices :: "nat \<Rightarrow> fusionState \<Rightarrow> (bool \<times> fusionState) run" where
  "rebuildServices di s = do {
     d \<leftarrow> idx (fs_devices s) di;
     let old = length (live (dev_Services (de_device d)));
     let ss = slab_reset (\<lambda>_. zero_service) (dev_Services (de_device d));
     es \<leftarrow> used_records s (de_dns d);
     ss \<leftarrow> ptr_services es ss;
     ss \<leftarrow> detail_services es ss;
     let ss = address_services es ss;
     s \<leftarrow> mod_device di (\<lambda>d. d\<lparr>de_device := (de_device d)\<lparr>dev_Services := ss\<rparr>\<rparr>) s;
     Some (old \<noteq> length (live ss), s)
   }"

section \<open>Promotion and merging of devices\<close>

fun promote_links :: "nat list \<Rightarrow> DeviceKey \<Rightarrow> fusionState \<Rightarrow> fusionState run" where
  "promote_links [] key s = Some s"
| "promote_links (li # lis) key s = do {
     used \<leftarrow> link_used s li;
     if \<not> used then promote_links lis key s
     else do {
       e \<leftarrow> idx (fs_links s) li;
       let s = s\<lparr>fs_linkByKey := (fs_linkByKey s)(link_Key (le_link e) := None)\<rparr>;
       let l = (le_link e)\<lparr>link_Device := key, link_Key := (link_Key (le_link e))\<lparr>lk_Device := key\<rparr>\<rparr>;
       s \<leftarrow> set_link li l s;
       promote_links lis key (s\<lparr>fs_linkByKey := (fs_linkByKey s)(link_Key l \<mapsto> li)\<rparr>)
     }
   }"

fun promote_dns :: "nat list \<Rightarrow> nat \<Rightarrow> fusionState \<Rightarrow> fusionState run" where
  "promote_dns [] di s = Some s"
| "promote_dns (i # is) di s = do {
     used \<leftarrow> dns_used s i;
     if \<not> used then promote_dns is di s
     else do {
       e \<leftarrow> idx (fs_dns s) i;
       let s = s\<lparr>fs_dnsByKey := (fs_dnsByKey s)(ne_key e := None)\<rparr>;
       let key = (ne_key e)\<lparr>dnk_device := di\<rparr>;
       s \<leftarrow> mod_dns i (\<lambda>e. e\<lparr>ne_key := key\<rparr>) s;
       promote_dns is di (s\<lparr>fs_dnsByKey := (fs_dnsByKey s)(key \<mapsto> i)\<rparr>)
     }
   }"

definition promoteDevice :: "nat \<Rightarrow> DeviceKey \<Rightarrow> fusionState \<Rightarrow> fusionState run" where
  "promoteDevice di key s = do {
     d \<leftarrow> idx (fs_devices s) di;
     let s = s\<lparr>fs_deviceByKey := (fs_deviceByKey s)(dev_Key (de_device d) := None)\<rparr>;
     s \<leftarrow> mod_device di (\<lambda>d. d\<lparr>de_device := (de_device d)\<lparr>dev_Key := key\<rparr>\<rparr>) s;
     let s = s\<lparr>fs_deviceByKey := (fs_deviceByKey s)(key \<mapsto> di)\<rparr>;
     s \<leftarrow> promote_links (de_links d) key s;
     promote_dns (de_dns d) di s
   }"

text \<open>The fields of a device that absorb those of another.\<close>

definition merge_fields :: "int \<Rightarrow> DiscoveredDevice \<Rightarrow> DiscoveredDevice \<Rightarrow> DiscoveredDevice run" where
  "merge_fields m dst src = do {
     let now = dev_LastSeen src;
     let dst = dst\<lparr>dev_ObservedMACs := foldl appendUniqueMAC (dev_ObservedMACs dst) (dev_ObservedMACs src)\<rparr>;
     let dst = dst\<lparr>dev_ClaimedMACs := foldl appendUniqueMAC (dev_ClaimedMACs dst) (dev_ClaimedMACs src)\<rparr>;
     let dst = dst\<lparr>dev_Addresses := foldl appendUniqueAddr (dev_Addresses dst) (dev_Addresses src)\<rparr>;
     f \<leftarrow> mergeTextField (dev_SystemName dst) (dev_SystemName src) m;
     let dst = dst\<lparr>dev_SystemName := f\<rparr>;
     f \<leftarrow> mergeTextField (dev_HostName dst) (dev_HostName src) m;
     let dst = dst\<lparr>dev_HostName := f\<rparr>;
     f \<leftarrow> mergeTextField (dev_ProtocolDeviceID dst) (dev_ProtocolDeviceID src) m;
     let dst = dst\<lparr>dev_ProtocolDeviceID := f\<rparr>;
     f \<leftarrow> mergeTextField (dev_Vendor dst) (dev_Vendor src) m;
     let dst = dst\<lparr>dev_Vendor := f\<rparr>;
     f \<leftarrow> mergeTextField (dev_Model dst) (dev_Model src) m;
     let dst = dst\<lparr>dev_Model := f\<rparr>;
     f \<leftarrow> mergeTextField (dev_Platform dst) (dev_Platform src) m;
     let dst = dst\<lparr>dev_Platform := f\<rparr>;
     f \<leftarrow> mergeTextField (dev_SoftwareVersion dst) (dev_SoftwareVersion src) m;
     let dst = dst\<lparr>dev_SoftwareVersion := f\<rparr>;
     let dst = (if up_Valid (dev_Uptime src) \<and>
                   (\<not> up_Valid (dev_Uptime dst) \<or> up_ObservedAt (dev_Uptime src) > up_ObservedAt (dev_Uptime dst))
                then dst\<lparr>dev_Uptime := dev_Uptime src\<rparr> else dst);
     let dst = dst\<lparr>dev_Protocols := dev_Protocols dst OR dev_Protocols src\<rparr>;
     let dst = dst\<lparr>dev_Capabilities := dev_Capabilities dst OR dev_Capabilities src\<rparr>;
     let dst = (if dev_FirstSeen dst = 0 \<or> dev_FirstSeen src < dev_FirstSeen dst
                then dst\<lparr>dev_FirstSeen := dev_FirstSeen src\<rparr> else dst);
     Some (if now > dev_LastSeen dst then dst\<lparr>dev_LastSeen := now\<rparr> else dst)
   }"

text \<open>\<open>if existing, ok := m[key]; ok && existing != i\<close>\<close>

definition other_index :: "nat option \<Rightarrow> nat \<Rightarrow> nat option" where
  "other_index found i = (case found of None \<Rightarrow> None | Some x \<Rightarrow> if x \<noteq> i then Some x else None)"

partial_function (option) move_links :: "nat \<Rightarrow> nat \<Rightarrow> fused \<Rightarrow> fused run" where
  "move_links dsti srci se = do {
     src \<leftarrow> idx (fs_devices (fst se)) srci;
     if de_links src = [] then Some se
     else do {
       let li = last (de_links src);
       s \<leftarrow> mod_device srci (\<lambda>d. d\<lparr>de_links := butlast (de_links d)\<rparr>) (fst se);
       used \<leftarrow> link_used s li;
       if \<not> used then move_links dsti srci (s, snd se)
       else do {
         e \<leftarrow> idx (fs_links s) li;
         dst \<leftarrow> idx (fs_devices s) dsti;
         let s = s\<lparr>fs_linkByKey := (fs_linkByKey s)(link_Key (le_link e) := None)\<rparr>;
         let dkey = dev_Key (de_device dst);
         let l = (le_link e)\<lparr>link_Device := dkey, link_Key := (link_Key (le_link e))\<lparr>lk_Device := dkey\<rparr>\<rparr>;
         s \<leftarrow> mod_link li (\<lambda>e. e\<lparr>le_device := Some dsti, le_link := l\<rparr>) s;
         se \<leftarrow> (case other_index (fs_linkByKey s (link_Key l)) li of
             Some existing \<Rightarrow> mergeLinks existing li (s, snd se)
           | None \<Rightarrow> do {
               let s = s\<lparr>fs_linkByKey := (fs_linkByKey s)(link_Key l \<mapsto> li)\<rparr>;
               s \<leftarrow> mod_device dsti (\<lambda>d. d\<lparr>de_links := de_links d @ [li]\<rparr>) s;
               Some (s, snd se)
             });
         move_links dsti srci se
       }
     }
   }"

partial_function (option) move_dns :: "nat \<Rightarrow> nat \<Rightarrow> fusionState \<Rightarrow> fusionState run" where
  "move_dns dsti srci s = do {
     src \<leftarrow> idx (fs_devices s) srci;
     if de_dns src = [] then Some s
     else do {
       let i = last (de_dns src);
       s \<leftarrow> mod_device srci (\<lambda>d. d\<lparr>de_dns := butlast (de_dns d)\<rparr>) s;
       used \<leftarrow> dns_used s i;
       if \<not> used then move_dns dsti srci s
       else do {
         e \<leftarrow> idx (fs_dns s) i;
         let s = s\<lparr>fs_dnsByKey := (fs_dnsByKey s)(ne_key e := None)\<rparr>;
         let key = (ne_key e)\<lparr>dnk_device := dsti\<rparr>;
         s \<leftarrow> mod_dns i (\<lambda>e. e\<lparr>ne_device := Some dsti, ne_key := key\<rparr>) s;
         s \<leftarrow> (case other_index (fs_dnsByKey s key) i of
             Some _ \<Rightarrow> removeDNS i s
           | None \<Rightarrow> do {
               let s = s\<lparr>fs_dnsByKey := (fs_dnsByKey s)(key \<mapsto> i)\<rparr>;
               mod_device dsti (\<lambda>d. d\<lparr>de_dns := de_dns d @ [i],
                   de_dnsExpiry := (if ne_expiresAt e > de_dnsExpiry d then ne_expiresAt e else de_dnsExpiry d)\<rparr>) s
             });
         move_dns dsti srci s
       }
     }
   }"

definition mergeDevices :: "nat \<Rightarrow> nat \<Rightarrow> fused \<Rightarrow> fused run" where
  "mergeDevices dsti srci se = (case se of (s, events) \<Rightarrow>
     if dsti = srci then Some (s, events)
     else do {
       dst \<leftarrow> idx (fs_devices s) dsti;
       src \<leftarrow> idx (fs_devices s) srci;
       if \<not> de_used dst \<or> \<not> de_used src then Some (s, events)
       else do {
         d \<leftarrow> merge_fields (cfg_MaxAlternatives (fs_cfg s)) (de_device dst) (de_device src);
         s \<leftarrow> set_device dsti d s;
         (s, events) \<leftarrow> move_links dsti srci (s, events);
         s \<leftarrow> move_dns dsti srci s;
         src \<leftarrow> idx (fs_devices s) srci;
         let s = s\<lparr>fs_deviceByKey := (fs_deviceByKey s)(dev_Key (de_device src) := None)\<rparr>;
         s \<leftarrow> mod_device srci (\<lambda>d. d\<lparr>de_used := False, de_links := [], de_dns := [], de_dnsExpiry := 0,
                de_device := Device_Reset (de_device d)\<rparr>) s;
         (_, s) \<leftarrow> rebuildServices dsti (s\<lparr>fs_freeDevices := fs_freeDevices s @ [srci]\<rparr>);
         Some (s, events)
       }
     })"

section \<open>The device of an observation\<close>

definition newDevice :: "nat \<Rightarrow> DeviceKey \<Rightarrow> Time \<Rightarrow> fusionState \<Rightarrow> fusionState run" where
  "newDevice di key now s = do {
     s \<leftarrow> mod_device di (\<lambda>d. d\<lparr>de_used := True, de_generation := de_generation d + 1,
            de_device := (Device_Reset (de_device d))\<lparr>dev_Key := key, dev_FirstSeen := now, dev_LastSeen := now\<rparr>,
            de_dnsExpiry := 0\<rparr>) s;
     Some (s\<lparr>fs_deviceByKey := (fs_deviceByKey s)(key \<mapsto> di)\<rparr>)
   }"

definition deviceFor ::
  "observationMeta \<Rightarrow> MAC \<Rightarrow> Addr list \<Rightarrow> fused \<Rightarrow> (nat option \<times> fused) run" where
  "deviceFor meta claimed addresses se = (case se of (s, events) \<Rightarrow>
     case device_key meta claimed addresses of
       None \<Rightarrow> Some (None, s, events)
     | Some key \<Rightarrow>
         let by_ip = (if dk_Kind key = DeviceKeyMAC \<and> IsValid (meta_sourceIP meta)
           then fs_deviceByKey s (ip_key (Unmap (meta_sourceIP meta)) (meta_interfaceIndex meta)) else None)
         in (case by_ip of
               Some ipi \<Rightarrow>
                 (case fs_deviceByKey s key of
                    Some maci \<Rightarrow>
                      if maci \<noteq> ipi then do {
                        (s, events) \<leftarrow> mergeDevices maci ipi (s, events);
                        Some (Some maci, s, events)
                      }
                      else do { s \<leftarrow> promoteDevice ipi key s; Some (Some ipi, s, events) }
                  | None \<Rightarrow> do { s \<leftarrow> promoteDevice ipi key s; Some (Some ipi, s, events) })
             | None \<Rightarrow>
                 (case fs_deviceByKey s key of
                    Some di \<Rightarrow> Some (Some di, s, events)
                  | None \<Rightarrow> do {
                      (free, s, events) \<leftarrow> allocDevice (s, events);
                      case free of
                        None \<Rightarrow> Some (None, s, events)
                      | Some di \<Rightarrow> do {
                          s \<leftarrow> newDevice di key (meta_timestamp meta) s;
                          Some (Some di, s, events)
                        }
                    })))"

end
