(* ===== verification/Observe.thy ===== *)
theory Observe
  imports Fusion Vendor LLDP CDP MNDP MDNS
begin

text \<open>
  The message handlers and the clock of \<open>pkg/omnidiscover/fusion.go\<close>: \<open>observeLLDP\<close>, \<open>observeCDP\<close>,
  \<open>observeMNDP\<close>, \<open>observeMDNS\<close> and \<open>tick\<close>, over the state of the theory \<open>Fusion\<close>.

  The generated vendor tables are the parameter \<open>vd\<close>. \<open>time.Now\<close>, which \<open>observeMDNS\<close> reads when a packet has
  no timestamp, is the parameter \<open>clock\<close>.
\<close>

section \<open>Changes to a device\<close>

text \<open>
  Between \<open>deviceFor\<close> and \<open>upsertLink\<close> a handler changes only the device it observes, through a pointer,
  and the set \<open>changed\<close>; these steps are functions on the pair of both.
\<close>

type_synonym noted = "DiscoveredDevice \<times> FieldSet"

definition mergeMACVendor ::
  "vendor_data \<Rightarrow> int \<Rightarrow> DiscoveredDevice \<Rightarrow> MAC \<Rightarrow> ProtocolSet \<Rightarrow> u8 \<Rightarrow> Time \<Rightarrow> (bool \<times> DiscoveredDevice) run" where
  "mergeMACVendor vd m d mac protocols confidence now = do {
     result \<leftarrow> LookupMACVendor vd mac;
     if ven_Source result \<noteq> MACVendorIEEEMAL \<and> ven_Source result \<noteq> MACVendorIEEEMAM \<and> ven_Source result \<noteq> MACVendorIEEEMAS
     then Some (False, d)
     else do {
       (changed, f) \<leftarrow> mergeText (dev_Vendor d) (ven_Name result) protocols confidence now m;
       Some (changed, d\<lparr>dev_Vendor := f\<rparr>)
     }
   }"

definition note_vendor ::
  "vendor_data \<Rightarrow> int \<Rightarrow> MAC \<Rightarrow> u8 \<Rightarrow> observationMeta \<Rightarrow> noted \<Rightarrow> noted run" where
  "note_vendor vd m mac confidence meta n = (case n of (d, changed) \<Rightarrow> do {
     (b, d) \<leftarrow> mergeMACVendor vd m d mac (Set (meta_protocol meta)) confidence (meta_timestamp meta);
     Some (d, if b then changed OR FieldVendor else changed)
   })"

definition note_observed_mac :: "vendor_data \<Rightarrow> int \<Rightarrow> observationMeta \<Rightarrow> noted \<Rightarrow> noted run" where
  "note_observed_mac vd m meta n = (case n of (d, changed) \<Rightarrow>
     if IsUnicast (meta_sourceMAC meta) then do {
       let before = length (dev_ObservedMACs d);
       let d = d\<lparr>dev_ObservedMACs := appendUniqueMAC (dev_ObservedMACs d) (meta_sourceMAC meta)\<rparr>;
       if length (dev_ObservedMACs d) \<noteq> before
       then note_vendor vd m (meta_sourceMAC meta) 3 meta (d, changed OR FieldIdentity)
       else Some (d, changed)
     }
     else Some (d, changed))"

definition note_claimed_mac :: "vendor_data \<Rightarrow> int \<Rightarrow> MAC \<Rightarrow> observationMeta \<Rightarrow> noted \<Rightarrow> noted run" where
  "note_claimed_mac vd m mac meta n = (case n of (d, changed) \<Rightarrow> do {
     let before = length (dev_ClaimedMACs d);
     let d = d\<lparr>dev_ClaimedMACs := appendUniqueMAC (dev_ClaimedMACs d) mac\<rparr>;
     if length (dev_ClaimedMACs d) \<noteq> before
     then note_vendor vd m mac 2 meta (d, changed OR FieldIdentity)
     else Some (d, changed)
   })"

definition note_address :: "Addr \<Rightarrow> noted \<Rightarrow> noted" where
  "note_address a n = (case n of (d, changed) \<Rightarrow>
     let before = length (dev_Addresses d);
         d = d\<lparr>dev_Addresses := appendUniqueAddr (dev_Addresses d) a\<rparr>
     in (d, if length (dev_Addresses d) \<noteq> before then changed OR FieldAddresses else changed))"

text \<open>\<open>if mergeText(&d.Field, value, ...) { changed |= flag }\<close> for the field given by its selector and update.\<close>

definition note_text ::
  "(DiscoveredDevice \<Rightarrow> TextField) \<Rightarrow> (TextField \<Rightarrow> DiscoveredDevice \<Rightarrow> DiscoveredDevice) \<Rightarrow> FieldSet \<Rightarrow>
   bytes \<Rightarrow> ProtocolSet \<Rightarrow> u8 \<Rightarrow> Time \<Rightarrow> int \<Rightarrow> noted \<Rightarrow> noted run" where
  "note_text get put flag value protocols confidence now m n = (case n of (d, changed) \<Rightarrow> do {
     (b, f) \<leftarrow> mergeText (get d) value protocols confidence now m;
     Some (put f d, if b then changed OR flag else changed)
   })"

definition note_capabilities :: "u64 \<Rightarrow> noted \<Rightarrow> noted" where
  "note_capabilities caps n = (case n of (d, changed) \<Rightarrow>
     if dev_Capabilities d OR caps \<noteq> dev_Capabilities d
     then (d\<lparr>dev_Capabilities := dev_Capabilities d OR caps\<rparr>, changed OR FieldCapabilities)
     else (d, changed))"

definition note_protocol :: "ProtocolSet \<Rightarrow> noted \<Rightarrow> noted" where
  "note_protocol p n = (case n of (d, changed) \<Rightarrow>
     if dev_Protocols d AND p = 0
     then (d\<lparr>dev_Protocols := dev_Protocols d OR p\<rparr>, changed OR FieldIdentity)
     else (d, changed))"

definition updateDeviceTimes :: "Time \<Rightarrow> DiscoveredDevice \<Rightarrow> DiscoveredDevice" where
  "updateDeviceTimes now d =
     (let d = (if dev_FirstSeen d = 0 \<or> now < dev_FirstSeen d then d\<lparr>dev_FirstSeen := now\<rparr> else d)
      in if now > dev_LastSeen d then d\<lparr>dev_LastSeen := now\<rparr> else d)"

text \<open>Unsigned 64-bit seconds; the elapsed duration is divided before the conversion.\<close>

definition mergeDeviceUptime :: "DeviceUptime \<Rightarrow> u64 \<Rightarrow> ProtocolSet \<Rightarrow> Time \<Rightarrow> bool \<times> DeviceUptime" where
  "mergeDeviceUptime u seconds protocols now =
     (if \<not> up_Valid u
      then (True, \<lparr>up_Seconds = seconds, up_ObservedAt = now, up_Protocols = protocols, up_Valid = True\<rparr>)
      else
        let expected = up_Seconds u +
              (if now > up_ObservedAt u then word_of_int (go_div (Time_Sub now (up_ObservedAt u)) Second) else 0);
            delta = (if seconds \<ge> expected then seconds - expected else expected - seconds);
            changed = (delta > 5 \<or> up_Protocols u OR protocols \<noteq> up_Protocols u)
        in (changed, u\<lparr>up_Seconds := seconds, up_ObservedAt := now, up_Protocols := up_Protocols u OR protocols,
                       up_Valid := True\<rparr>))"

definition identifierEqual :: "Identifier \<Rightarrow> Identifier \<Rightarrow> bool" where
  "identifierEqual a b = (id_Subtype a = id_Subtype b \<and> id_Value a = id_Value b)"

definition appendLinkVLAN :: "DiscoveredLink \<Rightarrow> u16 \<Rightarrow> bool \<times> DiscoveredLink" where
  "appendLinkVLAN l vlan =
     (if vlan \<in> set (link_VLANs l) then (False, l) else (True, l\<lparr>link_VLANs := link_VLANs l @ [vlan]\<rparr>))"

fun lldpAddresses :: "Addr list \<Rightarrow> ManagementAddress list \<Rightarrow> Addr list" where
  "lldpAddresses out [] = out"
| "lldpAddresses out (m # ms) =
     lldpAddresses
       (if ma_Subtype m = 1 \<and> length (ma_Address m) = 4 then appendUniqueAddr out (AddrFrom4 (ma_Address m))
        else if ma_Subtype m = 2 \<and> length (ma_Address m) = 16 then appendUniqueAddr out (AddrFrom16 (ma_Address m))
        else out) ms"

section \<open>Classification and the event of an observation\<close>

definition applyClassification :: "Classifier ptr \<Rightarrow> DiscoveredDevice \<Rightarrow> (bool \<times> DiscoveredDevice) run" where
  "applyClassification c d = do {
     (class, rule, ok) \<leftarrow> Classify c (Some d);
     if \<not> ok then
       if dev_Class d = [] \<and> dev_MatchedRule d = [] then Some (False, d)
       else Some (True, d\<lparr>dev_Class := [], dev_MatchedRule := []\<rparr>)
     else if dev_Class d = class \<and> dev_MatchedRule d = rule then Some (False, d)
     else Some (True, d\<lparr>dev_Class := copyBytes (dev_Class d) class, dev_MatchedRule := copyBytes (dev_MatchedRule d) rule\<rparr>)
   }"

text \<open>What the four handlers do after the link is updated.\<close>

definition finish ::
  "nat \<Rightarrow> nat \<Rightarrow> bool \<Rightarrow> bool \<Rightarrow> bool \<Rightarrow> FieldSet \<Rightarrow> fused \<Rightarrow> fused run" where
  "finish di li linkChanged added wasNew changed se = (case se of (s, events) \<Rightarrow> do {
     let changed = (if linkChanged then changed OR FieldLink else changed);
     e \<leftarrow> idx (fs_devices s) di;
     (b, d) \<leftarrow> applyClassification (fs_classifier s) (de_device e);
     s \<leftarrow> set_device di d s;
     let changed = (if b then changed OR FieldClassification else changed);
     if changed \<noteq> 0 \<or> added \<or> wasNew
     then Some (s, events @ [\<lparr>fe_Kind = (if added \<or> wasNew then EventAdded else EventChanged),
                              fe_Changed = changed, fe_Target = Live di li\<rparr>])
     else Some (s, events)
   })"

section \<open>LLDP\<close>

definition lldp_claimed :: "LLDPMessage \<Rightarrow> MAC" where
  "lldp_claimed msg =
     (if id_Subtype (lldp_ChassisID msg) = 4 \<and> length (id_Value (lldp_ChassisID msg)) = 6
      then copy_mac zero_mac (id_Value (lldp_ChassisID msg)) else zero_mac)"

definition lldp_device ::
  "vendor_data \<Rightarrow> int \<Rightarrow> observationMeta \<Rightarrow> LLDPMessage \<Rightarrow> Addr list \<Rightarrow> noted \<Rightarrow> noted run" where
  "lldp_device vd m meta msg addresses n = do {
     n \<leftarrow> note_observed_mac vd m meta n;
     let claimed = lldp_claimed msg;
     n \<leftarrow> (if IsUnicast claimed \<and> claimed \<noteq> meta_sourceMAC meta then note_claimed_mac vd m claimed meta n else Some n);
     let n = fold note_address addresses n;
     n \<leftarrow> note_text dev_SystemName (\<lambda>f d. d\<lparr>dev_SystemName := f\<rparr>) FieldNames
           (lldp_SystemName msg) ProtocolsLLDP 3 (meta_timestamp meta) m n;
     let n = note_capabilities (ucast (ld_EnabledCapabilities (lldp_Details msg))) n;
     let n = note_protocol ProtocolsLLDP n;
     Some (updateDeviceTimes (meta_timestamp meta) (fst n), snd n)
   }"

fun add_link_vlans :: "u16 list \<Rightarrow> bool \<times> DiscoveredLink \<Rightarrow> bool \<times> DiscoveredLink" where
  "add_link_vlans [] n = n"
| "add_link_vlans (v # vs) n =
     (let (b, l) = appendLinkVLAN (snd n) v in add_link_vlans vs (fst n \<or> b, l))"

definition lldp_link :: "int \<Rightarrow> observationMeta \<Rightarrow> LLDPMessage \<Rightarrow> bool \<times> DiscoveredLink \<Rightarrow> (bool \<times> DiscoveredLink) run" where
  "lldp_link m meta msg n = (case n of (changed, l) \<Rightarrow> do {
     let (changed, l) =
       (if \<not> identifierEqual (link_RemoteChassis l) (lldp_ChassisID msg)
        then (True, l\<lparr>link_RemoteChassis := clone_identifier (link_RemoteChassis l) (lldp_ChassisID msg)\<rparr>)
        else (changed, l));
     let (changed, l) =
       (if id_Subtype (link_RemotePort l) \<noteq> id_Subtype (lldp_PortID msg) \<or> id_Value (link_RemotePort l) \<noteq> id_Value (lldp_PortID msg)
        then (True, l\<lparr>link_RemotePort := clone_identifier (link_RemotePort l) (lldp_PortID msg)\<rparr>)
        else (changed, l));
     (b, f) \<leftarrow> mergeText (link_RemoteInterface l) (ld_PortDescription (lldp_Details msg)) ProtocolsLLDP 3 (meta_timestamp meta) m;
     let l = l\<lparr>link_RemoteInterface := f\<rparr>;
     let (changed, l) =
       (if ld_HasPVID (lldp_Details msg) then add_link_vlans [ld_PVID (lldp_Details msg)] (changed \<or> b, l) else (changed \<or> b, l));
     Some (add_link_vlans (map vlan_ID (live (ld_VLANs (lldp_Details msg)))) (changed, l))
   })"

definition observeLLDP :: "vendor_data \<Rightarrow> observationMeta \<Rightarrow> LLDPMessage \<Rightarrow> fused \<Rightarrow> fused run" where
  "observeLLDP vd meta msg se = do {
     let addresses = lldpAddresses [] (live (lldp_ManagementAddresses msg));
     (dp, s, events) \<leftarrow> deviceFor meta (lldp_claimed msg) addresses se;
     case dp of
       None \<Rightarrow> Some (s, events)
     | Some di \<Rightarrow> do {
         e \<leftarrow> idx (fs_devices s) di;
         let m = cfg_MaxAlternatives (fs_cfg s);
         let wasNew = (dev_Protocols (de_device e) = 0);
         (d, changed) \<leftarrow> lldp_device vd m meta msg addresses (de_device e, 0);
         s \<leftarrow> set_device di d s;
         ((lp, linkChanged, added), s, events) \<leftarrow>
           upsertLink meta di PhysicalAdjacency (uint (lldp_TTLSeconds msg) * Second) (s, events);
         case lp of
           None \<Rightarrow> Some (s, events)
         | Some li \<Rightarrow> do {
             l \<leftarrow> idx (fs_links s) li;
             (linkChanged, l) \<leftarrow> lldp_link m meta msg (linkChanged, le_link l);
             s \<leftarrow> set_link li l s;
             finish di li linkChanged added wasNew changed (s, events)
           }
       }
   }"

section \<open>CDP\<close>

definition cdp_device :: "vendor_data \<Rightarrow> int \<Rightarrow> observationMeta \<Rightarrow> CDPMessage \<Rightarrow> noted \<Rightarrow> noted run" where
  "cdp_device vd m meta msg n = do {
     let t = meta_timestamp meta;
     n \<leftarrow> note_observed_mac vd m meta n;
     let n = fold note_address (cdp_Addresses msg) n;
     let n = fold note_address (cd_ManagementAddress (cdp_Details msg)) n;
     n \<leftarrow> note_text dev_ProtocolDeviceID (\<lambda>f d. d\<lparr>dev_ProtocolDeviceID := f\<rparr>) FieldNames (cdp_DeviceID msg) ProtocolsCDP 3 t m n;
     n \<leftarrow> note_text dev_SystemName (\<lambda>f d. d\<lparr>dev_SystemName := f\<rparr>) FieldNames (cdp_SystemName msg) ProtocolsCDP 3 t m n;
     n \<leftarrow> note_text dev_Platform (\<lambda>f d. d\<lparr>dev_Platform := f\<rparr>) FieldPlatform (cd_Platform (cdp_Details msg)) ProtocolsCDP 3 t m n;
     n \<leftarrow> note_text dev_Model (\<lambda>f d. d\<lparr>dev_Model := f\<rparr>) FieldModel (cd_Platform (cdp_Details msg)) ProtocolsCDP 3 t m n;
     n \<leftarrow> note_text dev_SoftwareVersion (\<lambda>f d. d\<lparr>dev_SoftwareVersion := f\<rparr>) FieldSoftware (cd_SoftwareVersion (cdp_Details msg)) ProtocolsCDP 3 t m n;
     let n = note_capabilities (ucast (cd_Capabilities (cdp_Details msg))) n;
     let n = note_protocol ProtocolsCDP n;
     Some (updateDeviceTimes t (fst n), snd n)
   }"

definition cdp_link :: "int \<Rightarrow> observationMeta \<Rightarrow> CDPMessage \<Rightarrow> bool \<times> DiscoveredLink \<Rightarrow> (bool \<times> DiscoveredLink) run" where
  "cdp_link m meta msg n = (case n of (changed, l) \<Rightarrow> do {
     let (changed, l) =
       (if cdp_DeviceID msg \<noteq> [] \<and> id_Value (link_RemoteChassis l) \<noteq> cdp_DeviceID msg
        then (True, l\<lparr>link_RemoteChassis := \<lparr>id_Subtype = 7, id_Value = copyBytes (id_Value (link_RemoteChassis l)) (cdp_DeviceID msg)\<rparr>\<rparr>)
        else (changed, l));
     let (changed, l) =
       (if cdp_PortID msg \<noteq> [] \<and> id_Value (link_RemotePort l) \<noteq> cdp_PortID msg
        then (True, l\<lparr>link_RemotePort := \<lparr>id_Subtype = 7, id_Value = copyBytes (id_Value (link_RemotePort l)) (cdp_PortID msg)\<rparr>\<rparr>)
        else (changed, l));
     (b, f) \<leftarrow> mergeText (link_RemoteInterface l) (cdp_PortID msg) ProtocolsCDP 3 (meta_timestamp meta) m;
     let l = l\<lparr>link_RemoteInterface := f\<rparr>;
     Some (if cd_HasNativeVLAN (cdp_Details msg) then add_link_vlans [cd_NativeVLAN (cdp_Details msg)] (changed \<or> b, l)
           else (changed \<or> b, l))
   })"

definition observeCDP :: "vendor_data \<Rightarrow> observationMeta \<Rightarrow> CDPMessage \<Rightarrow> fused \<Rightarrow> fused run" where
  "observeCDP vd meta msg se = do {
     (dp, s, events) \<leftarrow> deviceFor meta zero_mac (cdp_Addresses msg) se;
     case dp of
       None \<Rightarrow> Some (s, events)
     | Some di \<Rightarrow> do {
         e \<leftarrow> idx (fs_devices s) di;
         let m = cfg_MaxAlternatives (fs_cfg s);
         let wasNew = (dev_Protocols (de_device e) = 0);
         (d, changed) \<leftarrow> cdp_device vd m meta msg (de_device e, 0);
         s \<leftarrow> set_device di d s;
         ((lp, linkChanged, added), s, events) \<leftarrow>
           upsertLink meta di PhysicalAdjacency (uint (cdp_TTLSeconds msg) * Second) (s, events);
         case lp of
           None \<Rightarrow> Some (s, events)
         | Some li \<Rightarrow> do {
             l \<leftarrow> idx (fs_links s) li;
             (linkChanged, l) \<leftarrow> cdp_link m meta msg (linkChanged, le_link l);
             s \<leftarrow> set_link li l s;
             finish di li linkChanged added wasNew changed (s, events)
           }
       }
   }"

section \<open>MNDP\<close>

definition zoned :: "string \<Rightarrow> Addr \<Rightarrow> Addr" where
  "zoned interface a =
     (if Is6 a \<and> IsLinkLocalUnicast a \<and> Zone a = [] \<and> interface \<noteq> [] then WithZone a interface else a)"

definition note_uptime :: "u64 \<Rightarrow> ProtocolSet \<Rightarrow> Time \<Rightarrow> noted \<Rightarrow> noted" where
  "note_uptime seconds protocols now n = (case n of (d, changed) \<Rightarrow>
     let (b, u) = mergeDeviceUptime (dev_Uptime d) seconds protocols now
     in (d\<lparr>dev_Uptime := u\<rparr>, if b then changed OR FieldUptime else changed))"

definition mndp_device :: "vendor_data \<Rightarrow> int \<Rightarrow> observationMeta \<Rightarrow> MNDPMessage \<Rightarrow> noted \<Rightarrow> noted run" where
  "mndp_device vd m meta msg n = do {
     let t = meta_timestamp meta;
     let det = mndp_Details msg;
     n \<leftarrow> note_observed_mac vd m meta n;
     n \<leftarrow> (if mndp_HasMAC msg then note_claimed_mac vd m (mndp_MAC msg) meta n else Some n);
     let n = (if IsValid (meta_sourceIP meta) then note_address (meta_sourceIP meta) n else n);
     let n = fold note_address (map (zoned (meta_interfaceName meta)) (mndp_Addresses msg)) n;
     n \<leftarrow> note_text dev_SystemName (\<lambda>f d. d\<lparr>dev_SystemName := f\<rparr>) FieldNames (md_Identity det) ProtocolsMNDP 3 t m n;
     n \<leftarrow> note_text dev_Platform (\<lambda>f d. d\<lparr>dev_Platform := f\<rparr>) FieldPlatform (md_Platform det) ProtocolsMNDP 3 t m n;
     n \<leftarrow> note_text dev_Model (\<lambda>f d. d\<lparr>dev_Model := f\<rparr>) FieldModel (md_Board det) ProtocolsMNDP 4 t m n;
     n \<leftarrow> note_text dev_SoftwareVersion (\<lambda>f d. d\<lparr>dev_SoftwareVersion := f\<rparr>) FieldSoftware (md_Version det) ProtocolsMNDP 3 t m n;
     let n = (if md_HasUptime det then note_uptime (ucast (md_UptimeSeconds det)) ProtocolsMNDP t n else n);
     let n = note_protocol ProtocolsMNDP n;
     Some (updateDeviceTimes t (fst n), snd n)
   }"

definition observeMNDP :: "vendor_data \<Rightarrow> observationMeta \<Rightarrow> MNDPMessage \<Rightarrow> fused \<Rightarrow> fused run" where
  "observeMNDP vd meta msg se =
     (if mndp_IsRefresh msg then Some se
      else do {
        (dp, s, events) \<leftarrow> deviceFor meta (mndp_MAC msg) (mndp_Addresses msg) se;
        case dp of
          None \<Rightarrow> Some (s, events)
        | Some di \<Rightarrow> do {
            e \<leftarrow> idx (fs_devices s) di;
            let m = cfg_MaxAlternatives (fs_cfg s);
            let wasNew = (dev_Protocols (de_device e) = 0);
            (d, changed) \<leftarrow> mndp_device vd m meta msg (de_device e, 0);
            s \<leftarrow> set_device di d s;
            ((lp, linkChanged, added), s, events) \<leftarrow>
              upsertLink meta di SegmentPresence (cfg_MNDPIdleTTL (fs_cfg s)) (s, events);
            case lp of
              None \<Rightarrow> Some (s, events)
            | Some li \<Rightarrow> do {
                l \<leftarrow> idx (fs_links s) li;
                (b, f) \<leftarrow> mergeText (link_RemoteInterface (le_link l)) (md_InterfaceName (mndp_Details msg))
                  ProtocolsMNDP 3 (meta_timestamp meta) m;
                s \<leftarrow> set_link li ((le_link l)\<lparr>link_RemoteInterface := f\<rparr>) s;
                finish di li (linkChanged \<or> b) added wasNew changed (s, events)
              }
          }
      })"

section \<open>mDNS\<close>

text \<open>
  \<open>flushDNSSet\<close>: the records of the device with this name, type and class that the packet does not carry
  expire in one second, unless they were received during the second before. Nothing in the loop changes
  the list \<open>d.dns\<close> it runs over.
\<close>

definition in_dns_set :: "bytes \<Rightarrow> DNSRecordType \<Rightarrow> u16 \<Rightarrow> DNSRecord \<Rightarrow> bool" where
  "in_dns_set name ty class r = (rr_Type r = ty \<and> rr_Class r = class \<and> rr_Name r = name)"

fun flush_loop ::
  "nat \<Rightarrow> bytes \<Rightarrow> DNSRecordType \<Rightarrow> u16 \<Rightarrow> DNSRecord list \<Rightarrow> Time \<Rightarrow> nat list \<Rightarrow> fusionState \<Rightarrow> fusionState run" where
  "flush_loop di name ty class incoming now [] s = Some s"
| "flush_loop di name ty class incoming now (i # is) s = do {
     used \<leftarrow> dns_used s i;
     if \<not> used then flush_loop di name ty class incoming now is s
     else do {
       e \<leftarrow> idx (fs_dns s) i;
       if in_dns_set name ty class (ne_record e) \<and>
          \<not> list_ex (\<lambda>r. in_dns_set name ty class r \<and> makeDNSKey di r = ne_key e) incoming
       then do {
         let receivedAt = ne_expiresAt e - ttl_duration (rr_TTL (ne_record e));
         let expires = now + Second;
         s \<leftarrow> (if Time_Sub now receivedAt > Second \<and> ne_expiresAt e > expires
               then setDNSExpiry i now expires s else Some s);
         flush_loop di name ty class incoming now is s
       }
       else flush_loop di name ty class incoming now is s
     }
   }"

definition flushDNSSet ::
  "nat \<Rightarrow> bytes \<Rightarrow> DNSRecordType \<Rightarrow> u16 \<Rightarrow> DNSRecord list \<Rightarrow> Time \<Rightarrow> fusionState \<Rightarrow> fusionState run" where
  "flushDNSSet di name ty class incoming now s = do {
     d \<leftarrow> idx (fs_devices s) di;
     flush_loop di name ty class incoming now (de_dns d) s
   }"

definition mdns_sender :: "vendor_data \<Rightarrow> int \<Rightarrow> observationMeta \<Rightarrow> noted \<Rightarrow> noted run" where
  "mdns_sender vd m meta n = do {
     n \<leftarrow> note_observed_mac vd m meta n;
     Some (if IsValid (meta_sourceIP meta) then note_address (meta_sourceIP meta) n else n)
   }"

definition note_host :: "int \<Rightarrow> observationMeta \<Rightarrow> DNSRecord \<Rightarrow> noted \<Rightarrow> noted run" where
  "note_host m meta r n =
     (if (rr_Type r = DNSRecordA \<or> rr_Type r = DNSRecordAAAA) \<and> IsValid (rr_Address r)
      then note_text dev_HostName (\<lambda>f d. d\<lparr>dev_HostName := f\<rparr>) FieldNames (rr_Name r) ProtocolsMDNS 2
             (meta_timestamp meta) m (note_address (rr_Address r) n)
      else Some n)"

text \<open>
  The loop over the records; \<open>prior\<close> holds the ones before, and the state beside it the flags
  \<open>cacheChanged\<close> and \<open>changed\<close>.
\<close>

fun mdns_records ::
  "observationMeta \<Rightarrow> nat \<Rightarrow> DNSRecord list \<Rightarrow> DNSRecord list \<Rightarrow> DNSRecord list \<Rightarrow>
   bool \<times> FieldSet \<times> fusionState \<Rightarrow> (bool \<times> FieldSet \<times> fusionState) run" where
  "mdns_records meta di all prior [] st = Some st"
| "mdns_records meta di all prior (r # rs) (cacheChanged, changed, s) = do {
     s \<leftarrow> (if rr_CacheFlush r \<and>
             \<not> list_ex (\<lambda>p. rr_CacheFlush p \<and> in_dns_set (rr_Name r) (rr_Type r) (rr_Class r) p) prior
           then flushDNSSet di (rr_Name r) (rr_Type r) (rr_Class r) all (meta_timestamp meta) s
           else Some s);
     (b, s) \<leftarrow> cacheDNS di (Some r) (meta_timestamp meta) s;
     e \<leftarrow> idx (fs_devices s) di;
     (d, changed) \<leftarrow> note_host (cfg_MaxAlternatives (fs_cfg s)) meta r (de_device e, changed);
     s \<leftarrow> set_device di d s;
     mdns_records meta di all (prior @ [r]) rs (cacheChanged \<or> b, changed, s)
   }"

definition mdns_ttl :: "Time \<Rightarrow> Time \<Rightarrow> Time \<Rightarrow> Duration" where
  "mdns_ttl clock timestamp dnsExpiry =
     (let ttl = (if dnsExpiry \<noteq> 0 \<and> timestamp \<noteq> 0 then Time_Sub dnsExpiry timestamp
                 else if dnsExpiry \<noteq> 0 then Time_Sub dnsExpiry clock
                 else Second)
      in if ttl < Second then Second else ttl)"

fun first_address :: "DNSRecord list \<Rightarrow> Addr list" where
  "first_address [] = []"
| "first_address (r # rs) = (if IsValid (rr_Address r) then [rr_Address r] else first_address rs)"

definition observeMDNS :: "vendor_data \<Rightarrow> Time \<Rightarrow> observationMeta \<Rightarrow> MDNSMessage \<Rightarrow> fused \<Rightarrow> fused run" where
  "observeMDNS vd clock meta msg se = do {
     let records = live (mdns_Records msg);
     let addresses = (if IsValid (meta_sourceIP meta) then [] else first_address records);
     (dp, s, events) \<leftarrow> deviceFor meta zero_mac addresses se;
     case dp of
       None \<Rightarrow> Some (s, events)
     | Some di \<Rightarrow> do {
         e \<leftarrow> idx (fs_devices s) di;
         let wasNew = (dev_Protocols (de_device e) = 0);
         (d, changed) \<leftarrow> mdns_sender vd (cfg_MaxAlternatives (fs_cfg s)) meta (de_device e, 0);
         s \<leftarrow> set_device di d s;
         (cacheChanged, changed, s) \<leftarrow> mdns_records meta di records [] records (False, changed, s);
         (changed, s) \<leftarrow> (if cacheChanged
           then do { (_, s) \<leftarrow> rebuildServices di s; Some (changed OR FieldServices, s) }
           else Some (changed, s));
         e \<leftarrow> idx (fs_devices s) di;
         let (d, changed) = note_protocol ProtocolsMDNS (de_device e, changed);
         s \<leftarrow> set_device di (updateDeviceTimes (meta_timestamp meta) d) s;
         ((lp, linkChanged, added), s, events) \<leftarrow>
           upsertLink meta di SegmentPresence (mdns_ttl clock (meta_timestamp meta) (de_dnsExpiry e)) (s, events);
         case lp of
           None \<Rightarrow> Some (s, events)
         | Some li \<Rightarrow> finish di li linkChanged added wasNew changed (s, events)
       }
   }"

section \<open>The clock\<close>

fun first_used :: "fusionState \<Rightarrow> nat list \<Rightarrow> nat option run" where
  "first_used s [] = Some None"
| "first_used s (li # lis) = do { used \<leftarrow> link_used s li; if used then Some (Some li) else first_used s lis }"

definition firstLink :: "nat \<Rightarrow> fusionState \<Rightarrow> nat option run" where
  "firstLink di s = do {
     d \<leftarrow> idx (fs_devices s) di;
     first_used s (de_links d)
   }"

text \<open>The protocols whose expiry has come leave the link.\<close>

fun expire_protocols ::
  "Time \<Rightarrow> nat list \<Rightarrow> bool \<times> ProtocolSet \<times> Time list \<Rightarrow> (bool \<times> ProtocolSet \<times> Time list) run" where
  "expire_protocols now [] st = Some st"
| "expire_protocols now (p # ps) (changed, protocols, expires) = do {
     t \<leftarrow> idx expires p;
     if t \<noteq> 0 \<and> \<not> t > now
     then do {
       expires \<leftarrow> upd expires p 0;
       expire_protocols now ps (True, protocols AND NOT (Set (of_nat p)), expires)
     }
     else expire_protocols now ps (changed, protocols, expires)
   }"

text \<open>One entry of the slot of the cursor.\<close>

definition tick_link :: "Time \<Rightarrow> nat \<Rightarrow> fused \<Rightarrow> fused run" where
  "tick_link now i se = (case se of (s, events) \<Rightarrow> do {
     l \<leftarrow> idx (fs_links s) i;
     if wheelRound l > 0
     then do { s \<leftarrow> mod_link i (\<lambda>l. l\<lparr>wheelRound := wheelRound l - 1\<rparr>) s; Some (s, events) }
     else do {
       s \<leftarrow> unscheduleLink i s;
       (changed, protocols, expires) \<leftarrow>
         expire_protocols now protocol_range (False, link_Protocols (le_link l), le_expires l);
       s \<leftarrow> mod_link i (\<lambda>l. l\<lparr>le_link := (le_link l)\<lparr>link_Protocols := protocols\<rparr>, le_expires := expires\<rparr>) s;
       if protocols = 0
       then do {
         di \<leftarrow> le_device l;
         (s, events) \<leftarrow> removeLink i EventExpired (s, events);
         d \<leftarrow> idx (fs_devices s) di;
         if de_used d \<and> de_links d = [] \<and> de_dns d = []
         then do { s \<leftarrow> dropDevice di s; Some (s, events) }
         else Some (s, events)
       }
       else do {
         earliest \<leftarrow> earliestExpiry expires;
         latest \<leftarrow> latestExpiry expires;
         s \<leftarrow> mod_link i (\<lambda>l. l\<lparr>le_link := (le_link l)\<lparr>link_ExpiresAt := earliest, link_TTL := Time_Sub latest now\<rparr>\<rparr>) s;
         s \<leftarrow> scheduleLink i now earliest s;
         if changed
         then do {
           di \<leftarrow> le_device l;
           _ \<leftarrow> idx (fs_devices s) di;
           Some (s, events @ [\<lparr>fe_Kind = EventChanged, fe_Changed = FieldLink, fe_Target = Live di i\<rparr>])
         }
         else Some (s, events)
       }
     }
   })"

text \<open>The chain is followed by the \<open>wheelNext\<close> read before the entry is handled.\<close>

partial_function (option) tick_links :: "Time \<Rightarrow> nat option \<Rightarrow> fused \<Rightarrow> fused run" where
  "tick_links now p se =
     (case p of
        None \<Rightarrow> Some se
      | Some i \<Rightarrow> do {
          l \<leftarrow> idx (fs_links (fst se)) i;
          se \<leftarrow> tick_link now i se;
          tick_links now (wheelNext l) se
        })"

definition tick_record :: "nat \<Rightarrow> fusionState \<times> nat option list \<Rightarrow> (fusionState \<times> nat option list) run" where
  "tick_record i sd = (case sd of (s, dnsDevices) \<Rightarrow> do {
     e \<leftarrow> idx (fs_dns s) i;
     if wheelRound e > 0
     then do { s \<leftarrow> mod_dns i (\<lambda>e. e\<lparr>wheelRound := wheelRound e - 1\<rparr>) s; Some (s, dnsDevices) }
     else do {
       s \<leftarrow> removeDNS i s;
       Some (s, if ne_device e \<in> set dnsDevices then dnsDevices else dnsDevices @ [ne_device e])
     }
   })"

partial_function (option) tick_records ::
  "nat option \<Rightarrow> fusionState \<times> nat option list \<Rightarrow> (fusionState \<times> nat option list) run" where
  "tick_records p sd =
     (case p of
        None \<Rightarrow> Some sd
      | Some i \<Rightarrow> do {
          e \<leftarrow> idx (fs_dns (fst sd)) i;
          sd \<leftarrow> tick_record i sd;
          tick_records (wheelNext e) sd
        })"

fun tick_devices :: "nat option list \<Rightarrow> fused \<Rightarrow> fused run" where
  "tick_devices [] se = Some se"
| "tick_devices (dp # dps) (s, events) = do {
     used \<leftarrow> device_used s dp;
     if \<not> used then tick_devices dps (s, events)
     else do {
       di \<leftarrow> dp;
       (_, s) \<leftarrow> rebuildServices di s;
       lp \<leftarrow> firstLink di s;
       d \<leftarrow> idx (fs_devices s) di;
       (case lp of
          Some li \<Rightarrow> tick_devices dps
            (s, events @ [\<lparr>fe_Kind = EventChanged, fe_Changed = FieldServices, fe_Target = Live di li\<rparr>])
        | None \<Rightarrow>
            if de_dns d = [] then do { s \<leftarrow> dropDevice di s; tick_devices dps (s, events) }
            else tick_devices dps (s, events))
     }
   }"

text \<open>The modulus by the number of slots panics on an empty wheel.\<close>

definition tick :: "Time \<Rightarrow> fused \<Rightarrow> fused run" where
  "tick now se = (case se of (s, events) \<Rightarrow>
     if fs_linkHeads s = [] then None
     else do {
       let s = s\<lparr>fs_wheelCursor := (fs_wheelCursor s + 1) mod length (fs_linkHeads s)\<rparr>;
       head \<leftarrow> idx (fs_linkHeads s) (fs_wheelCursor s);
       (s, events) \<leftarrow> tick_links now head (s, events);
       head \<leftarrow> idx (fs_dnsHeads s) (fs_wheelCursor s);
       (s, dnsDevices) \<leftarrow> tick_records head (s, []);
       tick_devices dnsDevices (s, events)
     })"

end
