(* ===== verification/Engine.thy ===== *)
theory Engine
  imports Observe LLDP CDP MNDP MDNS
begin

text \<open>
  The model of \<open>pkg/omnidiscover/engine.go\<close>: construction, the routing of captured packets to the queues
  of the protocols, the decode workers, the fusion loop, statistics and snapshots. Goroutines are the
  steps of the theory \<open>EngineRun\<close>; here are the pieces of code between two channel operations.

  The packets wait in channels. A channel is a bounded queue with a flag that it is closed; sending on a
  closed channel panics. The buffer of a slot is \<open>sl_buf\<close>, whose length is the capacity of the slice
  \<open>slot.data\<close>, and \<open>sl_len\<close> is the length of the slice. A result \<^const>\<open>None\<close> is a panic, or a
  blocking send to a full channel.
\<close>

section \<open>Channels\<close>

record 'a chan =
  ch_cap :: nat
  ch_items :: "'a list"
  ch_closed :: bool

definition make_chan :: "nat \<Rightarrow> 'a chan" where
  "make_chan n = \<lparr>ch_cap = n, ch_items = [], ch_closed = False\<rparr>"

text \<open>\<open>c <- x\<close>\<close>

definition send :: "'a \<Rightarrow> 'a chan \<Rightarrow> 'a chan run" where
  "send x c = (if ch_closed c \<or> length (ch_items c) \<ge> ch_cap c then None else Some (c\<lparr>ch_items := ch_items c @ [x]\<rparr>))"

text \<open>\<open>select { case c <- x: ...; default: ... }\<close>, the result telling which branch runs\<close>

definition try_send :: "'a \<Rightarrow> 'a chan \<Rightarrow> (bool \<times> 'a chan) run" where
  "try_send x c =
     (if ch_closed c then None
      else if length (ch_items c) \<ge> ch_cap c then Some (False, c)
      else Some (True, c\<lparr>ch_items := ch_items c @ [x]\<rparr>))"

text \<open>\<open>select { case x = <-c: ...; default: ... }\<close> on a channel that is never closed\<close>

definition try_recv :: "'a chan \<Rightarrow> 'a option \<times> 'a chan" where
  "try_recv c = (case ch_items c of [] \<Rightarrow> (None, c) | x # xs \<Rightarrow> (Some x, c\<lparr>ch_items := xs\<rparr>))"

section \<open>Data\<close>

record Statistics =
  Captured :: u64
  Routed :: "u64 list"
  Dropped :: "u64 list"
  Malformed :: "u64 list"
  Ignored_count :: "u64 list"
  Partial :: "u64 list"
  Events :: u64
  OutputDropped :: u64
  DeviceHighWater :: u64
  LinkHighWater :: u64
  DNSHighWater :: u64
  DeviceEvictions :: u64
  LinkEvictions :: u64
  DNSEvictions :: u64

record engineCounters =
  ec_captured :: u64
  ec_routed :: "u64 list"
  ec_dropped :: "u64 list"
  ec_malformed :: "u64 list"
  ec_ignored :: "u64 list"
  ec_partial :: "u64 list"
  ec_events :: u64
  ec_outputDropped :: u64
  ec_deviceHighWater :: u64
  ec_linkHighWater :: u64
  ec_dnsHighWater :: u64

definition zero_counters :: engineCounters where
  "zero_counters =
     \<lparr>ec_captured = 0, ec_routed = replicate 5 0, ec_dropped = replicate 5 0, ec_malformed = replicate 5 0,
      ec_ignored = replicate 5 0, ec_partial = replicate 5 0, ec_events = 0, ec_outputDropped = 0,
      ec_deviceHighWater = 0, ec_linkHighWater = 0, ec_dnsHighWater = 0\<rparr>"

definition zero_meta :: observationMeta where
  "zero_meta =
     \<lparr>meta_protocol = 0, meta_interfaceName = [], meta_interfaceIndex = 0, meta_timestamp = 0,
      meta_sourceMAC = zero_mac, meta_sourceIP = AddrNone, meta_vlans = replicate maxVLANTags 0, meta_vlanCount = 0\<rparr>"

record packetSlot =
  sl_buf :: bytes
  sl_len :: nat
  sl_meta :: observationMeta

definition slot_data :: "packetSlot \<Rightarrow> bytes" where
  "slot_data s = take (sl_len s) (sl_buf s)"

record decodedEnvelope =
  env_protocol :: Protocol
  env_meta :: observationMeta
  env_status :: DecodeStatus
  env_lldp :: "LLDPMessage ptr"
  env_cdp :: "CDPMessage ptr"
  env_mndp :: "MNDPMessage ptr"
  env_mdns :: "MDNSMessage ptr"

record captureView =
  cv_data :: bytes
  cv_protocol :: Protocol
  cv_interfaceName :: string
  cv_interfaceIndex :: int
  cv_timestamp :: Time
  cv_sourceIP :: Addr
  cv_frame :: bool

text \<open>\<open>cancel\<close> is nil or a function; its effect on the context is a step of the run.\<close>

record Engine =
  en_cfg :: "Rule Config"
  en_classifier :: "Classifier ptr"
  en_state :: fusionState
  en_queues :: "packetSlot chan option list"
  en_freePackets :: "packetSlot chan"
  en_decoded :: "decodedEnvelope chan"
  en_counters :: engineCounters
  en_running :: bool
  en_started :: bool
  en_closed :: bool
  en_cancel :: bool

datatype engine_error = ConfigError config_error | ClassifierError classifier_error

section \<open>Construction\<close>

definition new_slot :: "nat \<Rightarrow> packetSlot" where
  "new_slot n = \<lparr>sl_buf = replicate n 0, sl_len = n, sl_meta = zero_meta\<rparr>"

fun make_queues :: "ProtocolSet \<Rightarrow> nat \<Rightarrow> nat list \<Rightarrow> packetSlot chan option list \<times> nat \<Rightarrow>
    (packetSlot chan option list \<times> nat) run" where
  "make_queues ps n [] st = Some st"
| "make_queues ps n (p # rest) (queues, enabled) =
     (if \<not> Has ps (of_nat p) then make_queues ps n rest (queues, enabled)
      else do {
        queues \<leftarrow> upd queues p (Some (make_chan n));
        make_queues ps n rest (queues, enabled + 1)
      })"

fun fill_chan :: "nat \<Rightarrow> 'a \<Rightarrow> 'a chan \<Rightarrow> 'a chan run" where
  "fill_chan 0 x c = Some c"
| "fill_chan (Suc n) x c = do { c \<leftarrow> send x c; fill_chan n x c }"

definition New ::
  "string \<Rightarrow> (bytes \<Rightarrow> (bytes \<Rightarrow> bool) option) \<Rightarrow> Rule Config \<Rightarrow> (engine_error + Engine) run" where
  "New goos re_compile config =
     (let cfg = withDefaults goos config
      in case validate goos cfg of
           Some e \<Rightarrow> Some (Inl (ConfigError e))
         | None \<Rightarrow> do {
             res \<leftarrow> CompileClassifier re_compile (cfg_Rules cfg);
             case res of
               Inl e \<Rightarrow> Some (Inl (ClassifierError e))
             | Inr classifier \<Rightarrow> do {
                 (queues, enabled) \<leftarrow>
                   make_queues (cfg_Protocols cfg) (nat (cfg_ProtocolQueue cfg)) protocol_range (replicate 5 None, 0);
                 let totalSlots = nat (cfg_ProtocolQueue cfg) * enabled + enabled;
                 free \<leftarrow> fill_chan totalSlots (new_slot (nat (cfg_MaxFrameSize cfg))) (make_chan totalSlots);
                 Some (Inr \<lparr>en_cfg = cfg, en_classifier = Some classifier,
                   en_state = newFusionState cfg (Some classifier), en_queues = queues, en_freePackets = free,
                   en_decoded = make_chan 8, en_counters = zero_counters, en_running = False, en_started = False,
                   en_closed = False, en_cancel = False\<rparr>)
               }
           })"

section \<open>Routing\<close>

text \<open>\<open>e.counters.x[p].Add(1)\<close>\<close>

definition bump :: "Protocol \<Rightarrow> u64 list \<Rightarrow> u64 list run" where
  "bump p xs = do { x \<leftarrow> idx xs (unat p); upd xs (unat p) (x + 1) }"

definition count_dropped :: "Protocol \<Rightarrow> Engine \<Rightarrow> Engine run" where
  "count_dropped p e = do {
     xs \<leftarrow> bump p (ec_dropped (en_counters e));
     Some (e\<lparr>en_counters := (en_counters e)\<lparr>ec_dropped := xs\<rparr>\<rparr>)
   }"

definition count_routed :: "Protocol \<Rightarrow> Engine \<Rightarrow> Engine run" where
  "count_routed p e = do {
     xs \<leftarrow> bump p (ec_routed (en_counters e));
     Some (e\<lparr>en_counters := (en_counters e)\<lparr>ec_routed := xs\<rparr>\<rparr>)
   }"

definition releasePacket :: "packetSlot \<Rightarrow> Engine \<Rightarrow> Engine run" where
  "releasePacket slot e = do {
     let slot = slot\<lparr>sl_len := length (sl_buf slot), sl_meta := zero_meta\<rparr>;
     free \<leftarrow> send slot (en_freePackets e);
     Some (e\<lparr>en_freePackets := free\<rparr>)
   }"

text \<open>
  \<open>slot.data = slot.data[:len(payload)]; copy(slot.data, payload)\<close>: slicing beyond the capacity panics,
  and the rest of the buffer keeps the bytes of older packets. A queue that is nil never takes a packet.
\<close>

definition fill_slot :: "bytes \<Rightarrow> observationMeta \<Rightarrow> packetSlot \<Rightarrow> packetSlot run" where
  "fill_slot payload meta slot =
     (if length payload > length (sl_buf slot) then None
      else Some (slot\<lparr>sl_len := length payload, sl_buf := payload @ drop (length payload) (sl_buf slot), sl_meta := meta\<rparr>))"

definition enqueue :: "Protocol \<Rightarrow> bytes \<Rightarrow> observationMeta \<Rightarrow> Engine \<Rightarrow> Engine run" where
  "enqueue p payload meta e =
     (if int (length payload) > cfg_MaxFrameSize (en_cfg e) then count_dropped p e
      else (case try_recv (en_freePackets e) of
          (None, _) \<Rightarrow> count_dropped p e
        | (Some slot, free) \<Rightarrow> do {
            let e = e\<lparr>en_freePackets := free\<rparr>;
            slot \<leftarrow> fill_slot payload (meta\<lparr>meta_protocol := p\<rparr>) slot;
            q \<leftarrow> idx (en_queues e) (unat p);
            (sent, q) \<leftarrow>
              (case q of
                 None \<Rightarrow> Some (False, q)
               | Some c \<Rightarrow> do { (sent, c) \<leftarrow> try_send slot c; Some (sent, Some c) });
            queues \<leftarrow> upd (en_queues e) (unat p) q;
            let e = e\<lparr>en_queues := queues\<rparr>;
            if sent then count_routed p e
            else do { e \<leftarrow> count_dropped p e; releasePacket slot e }
          }))"

text \<open>The clock \<open>time.Now()\<close> is an argument.\<close>

definition route_udp :: "observationMeta \<Rightarrow> EthernetFrame \<Rightarrow> Engine \<Rightarrow> Engine run" where
  "route_udp meta frame e = do {
     (ust, up) \<leftarrow> DecodeUDP (Some frame) (Some zero_udp);
     if \<not> Usable ust then Some e
     else do {
       udp \<leftarrow> up;
       let meta = meta\<lparr>meta_sourceIP := udp_SourceIP udp\<rparr>;
       if (udp_SourcePort udp = MDNSPort \<or> udp_DestinationPort udp = MDNSPort) \<and> Has (cfg_Protocols (en_cfg e)) ProtocolMDNS
       then enqueue ProtocolMDNS (udp_Payload udp) (meta\<lparr>meta_protocol := ProtocolMDNS\<rparr>) e
       else if (udp_SourcePort udp = MNDPPort \<or> udp_DestinationPort udp = MNDPPort) \<and> Has (cfg_Protocols (en_cfg e)) ProtocolMNDP
       then enqueue ProtocolMNDP (udp_Payload udp) (meta\<lparr>meta_protocol := ProtocolMNDP\<rparr>) e
       else Some e
     }
   }"

definition routeCapture :: "Time \<Rightarrow> captureView \<Rightarrow> Engine \<Rightarrow> Engine run" where
  "routeCapture clock view e = do {
     let e = e\<lparr>en_counters := (en_counters e)\<lparr>ec_captured := ec_captured (en_counters e) + 1\<rparr>\<rparr>;
     let timestamp = (if cv_timestamp view = 0 then clock else cv_timestamp view);
     if cv_protocol view \<noteq> ProtocolUnknown
     then (if Has (cfg_Protocols (en_cfg e)) (cv_protocol view)
           then enqueue (cv_protocol view) (cv_data view)
             (zero_meta\<lparr>meta_protocol := cv_protocol view, meta_interfaceName := cv_interfaceName view,
                meta_interfaceIndex := cv_interfaceIndex view, meta_timestamp := timestamp,
                meta_sourceIP := cv_sourceIP view\<rparr>) e
           else Some e)
     else do {
       (st, fp) \<leftarrow> DecodeEthernetFrame (cv_data view) (Some zero_frame);
       if \<not> Usable st then Some e
       else do {
         frame \<leftarrow> fp;
         let meta = zero_meta\<lparr>meta_interfaceName := cv_interfaceName view, meta_interfaceIndex := cv_interfaceIndex view,
           meta_timestamp := timestamp, meta_sourceMAC := eth_Source frame, meta_vlans := eth_VLANs frame,
           meta_vlanCount := eth_VLANCount frame\<rparr>;
         if eth_EtherType frame = EtherTypeLLDP \<and> Has (cfg_Protocols (en_cfg e)) ProtocolLLDP
         then enqueue ProtocolLLDP (eth_Payload frame) (meta\<lparr>meta_protocol := ProtocolLLDP\<rparr>) e
         else if llc_SNAP (eth_LLC frame) \<and> llc_OUI (eth_LLC frame) = ciscoOUI \<and> llc_PID (eth_LLC frame) = cdpPID \<and>
             Has (cfg_Protocols (en_cfg e)) ProtocolCDP
         then enqueue ProtocolCDP (eth_Payload frame) (meta\<lparr>meta_protocol := ProtocolCDP\<rparr>) e
         else if eth_EtherType frame \<noteq> EtherTypeIPv4 \<and> eth_EtherType frame \<noteq> EtherTypeIPv6 then Some e
         else route_udp meta frame e
       }
     }
   }"

section \<open>Decoding\<close>

text \<open>The variables of a worker, which it uses again for every packet.\<close>

record worker_vars =
  wv_lldp :: LLDPMessage
  wv_cdp :: CDPMessage
  wv_mndp :: MNDPMessage
  wv_mdns :: MDNSMessage

definition zero_lldp :: LLDPMessage where
  "zero_lldp =
     \<lparr>lldp_SourceMAC = zero_mac, lldp_CaptureVLANs = replicate maxVLANTags 0, lldp_CaptureVLANCount = 0,
      lldp_ChassisID = zero_identifier, lldp_PortID = zero_identifier, lldp_TTLSeconds = 0, lldp_SystemName = [],
      lldp_ManagementAddresses = slab_empty,
      lldp_Details = \<lparr>ld_PortDescription = [], ld_SystemDescription = [],
        ld_SystemCapabilities = 0, ld_EnabledCapabilities = 0, ld_PVID = 0, ld_HasPVID = False,
        ld_VLANs = slab_empty, ld_LinkAggregation = zero_aggregation, ld_MACPHY = zero_macphy,
        ld_MaximumFrameSize = 0, ld_HasMaximumFrameSize = False\<rparr>\<rparr>"

definition zero_mdns :: MDNSMessage where
  "zero_mdns = \<lparr>mdns_ID = 0, mdns_Flags = 0, mdns_Records = slab_empty\<rparr>"

definition zero_vars :: worker_vars where
  "zero_vars = \<lparr>wv_lldp = zero_lldp, wv_cdp = zero_cdp, wv_mndp = zero_mndp, wv_mdns = zero_mdns\<rparr>"

text \<open>
  The switch of \<open>decodeWorker\<close>. A message pointer of the envelope points to a variable of the worker;
  the envelope holds its contents, which the worker does not change before the envelope is acknowledged.
\<close>

definition decode_slot :: "Protocol \<Rightarrow> packetSlot \<Rightarrow> worker_vars \<Rightarrow> (decodedEnvelope \<times> worker_vars) run" where
  "decode_slot p slot v =
     (let env = \<lparr>env_protocol = p, env_meta = sl_meta slot, env_status = clean_status, env_lldp = None,
        env_cdp = None, env_mndp = None, env_mdns = None\<rparr>
      in if p = ProtocolLLDP then do {
           (st, mp) \<leftarrow> DecodeLLDPDU (slot_data slot) (Some (wv_lldp v)); m \<leftarrow> mp;
           Some (env\<lparr>env_status := st, env_lldp := Some m\<rparr>, v\<lparr>wv_lldp := m\<rparr>)
         }
         else if p = ProtocolCDP then do {
           (st, mp) \<leftarrow> DecodeCDP (slot_data slot) (Some (wv_cdp v)); m \<leftarrow> mp;
           Some (env\<lparr>env_status := st, env_cdp := Some m\<rparr>, v\<lparr>wv_cdp := m\<rparr>)
         }
         else if p = ProtocolMNDP then do {
           (st, mp) \<leftarrow> DecodeMNDP (slot_data slot) (Some (wv_mndp v)); m \<leftarrow> mp;
           let m = m\<lparr>mndp_SourceIP := meta_sourceIP (sl_meta slot)\<rparr>;
           Some (env\<lparr>env_status := st, env_mndp := Some m\<rparr>, v\<lparr>wv_mndp := m\<rparr>)
         }
         else if p = ProtocolMDNS then do {
           (st, mp) \<leftarrow> DecodeMDNS (slot_data slot) (Some (wv_mdns v)); m \<leftarrow> mp;
           Some (env\<lparr>env_status := st, env_mdns := Some m\<rparr>, v\<lparr>wv_mdns := m\<rparr>)
         }
         else Some (env, v))"

text \<open>What the worker counts of a decoded packet, and whether it releases the slot instead of sending.\<close>

definition count_decoded :: "Protocol \<Rightarrow> DecodeStatus \<Rightarrow> Engine \<Rightarrow> (bool \<times> Engine) run" where
  "count_decoded p st e =
     (let c = en_counters e
      in if Severity st = DecodeFatal then do {
           xs \<leftarrow> bump p (ec_malformed c); Some (False, e\<lparr>en_counters := c\<lparr>ec_malformed := xs\<rparr>\<rparr>) }
         else if Severity st = DecodeIgnored then do {
           xs \<leftarrow> bump p (ec_ignored c); Some (False, e\<lparr>en_counters := c\<lparr>ec_ignored := xs\<rparr>\<rparr>) }
         else if Severity st = DecodePartial then do {
           xs \<leftarrow> bump p (ec_partial c); Some (True, e\<lparr>en_counters := c\<lparr>ec_partial := xs\<rparr>\<rparr>) }
         else Some (True, e))"

section \<open>Fusion\<close>

text \<open>The switch of \<open>fusionLoop\<close>: a nil message panics, an unknown protocol does nothing.\<close>

definition fuse_envelope :: "vendor_data \<Rightarrow> Time \<Rightarrow> decodedEnvelope \<Rightarrow> fusionState \<Rightarrow> fused run" where
  "fuse_envelope vd clock env s =
     (let s = resetTombstones s
      in if env_protocol env = ProtocolLLDP then do { m \<leftarrow> env_lldp env; observeLLDP vd (env_meta env) m (s, []) }
         else if env_protocol env = ProtocolCDP then do { m \<leftarrow> env_cdp env; observeCDP vd (env_meta env) m (s, []) }
         else if env_protocol env = ProtocolMNDP then do { m \<leftarrow> env_mndp env; observeMNDP vd (env_meta env) m (s, []) }
         else if env_protocol env = ProtocolMDNS then do { m \<leftarrow> env_mdns env; observeMDNS vd clock (env_meta env) m (s, []) }
         else Some (s, []))"

definition fuse_tick :: "Time \<Rightarrow> fusionState \<Rightarrow> fused run" where
  "fuse_tick now s = tick now (resetTombstones s, [])"

text \<open>\<open>atomicMax\<close>; the compare-and-swap loop ends when no other goroutine writes the counter.\<close>

definition atomicMax :: "u64 \<Rightarrow> u64 \<Rightarrow> u64" where
  "atomicMax old value = (if value \<le> old then old else value)"

definition updateHighWaterLocked :: "Engine \<Rightarrow> Engine" where
  "updateHighWaterLocked e =
     (let c = en_counters e; s = en_state e; cfg = en_cfg e
      in e\<lparr>en_counters := c\<lparr>
         ec_deviceHighWater := atomicMax (ec_deviceHighWater c) (of_int (cfg_MaxDevices cfg - int (length (fs_freeDevices s)))),
         ec_linkHighWater := atomicMax (ec_linkHighWater c) (of_int (cfg_MaxLinks cfg - int (length (fs_freeLinks s)))),
         ec_dnsHighWater := atomicMax (ec_dnsHighWater c) (of_int (cfg_MaxDNSRecords cfg - int (length (fs_freeDNS s))))\<rparr>\<rparr>)"

text \<open>The events that reach the handler, in order. \<open>handler\<close> tells whether there is one.\<close>

fun deliver :: "bool \<Rightarrow> fusion_event list \<Rightarrow> Engine \<times> fusion_event list \<Rightarrow> Engine \<times> fusion_event list" where
  "deliver handler [] (e, out) = (e, out)"
| "deliver handler (x # xs) (e, out) =
     (if \<not> handler then (e, out)
      else deliver handler xs
        (e\<lparr>en_counters := (en_counters e)\<lparr>ec_events := ec_events (en_counters e) + 1\<rparr>\<rparr>, out @ [x]))"

section \<open>Statistics and snapshots\<close>

fun stats_loop :: "engineCounters \<Rightarrow> nat list \<Rightarrow> Statistics \<Rightarrow> Statistics run" where
  "stats_loop c [] s = Some s"
| "stats_loop c (p # ps) s = do {
     x \<leftarrow> idx (ec_routed c) p; routed \<leftarrow> upd (Routed s) p x;
     x \<leftarrow> idx (ec_dropped c) p; dropped \<leftarrow> upd (Dropped s) p x;
     x \<leftarrow> idx (ec_malformed c) p; malformed \<leftarrow> upd (Malformed s) p x;
     x \<leftarrow> idx (ec_ignored c) p; ignored \<leftarrow> upd (Ignored_count s) p x;
     x \<leftarrow> idx (ec_partial c) p; part \<leftarrow> upd (Partial s) p x;
     stats_loop c ps (s\<lparr>Routed := routed, Dropped := dropped, Malformed := malformed, Ignored_count := ignored, Partial := part\<rparr>)
   }"

definition Stats :: "Engine \<Rightarrow> Statistics run" where
  "Stats e =
     (let c = en_counters e
      in do {
        s \<leftarrow> stats_loop c protocol_range
          \<lparr>Captured = ec_captured c, Routed = replicate 5 0, Dropped = replicate 5 0, Malformed = replicate 5 0,
           Ignored_count = replicate 5 0, Partial = replicate 5 0, Events = ec_events c, OutputDropped = ec_outputDropped c,
           DeviceHighWater = 0, LinkHighWater = 0, DNSHighWater = 0, DeviceEvictions = 0, LinkEvictions = 0, DNSEvictions = 0\<rparr>;
        Some (s\<lparr>DeviceHighWater := ec_deviceHighWater c, LinkHighWater := ec_linkHighWater c, DNSHighWater := ec_dnsHighWater c,
          DeviceEvictions := fs_deviceEvictions (en_state e), LinkEvictions := fs_linkEvictions (en_state e),
          DNSEvictions := fs_dnsEvictions (en_state e)\<rparr>)
      })"

fun snapshot_devices :: "deviceEntry list \<Rightarrow> DiscoveredDevice slab \<Rightarrow> DiscoveredDevice slab run" where
  "snapshot_devices [] out = Some out"
| "snapshot_devices (d # ds) out =
     (if \<not> de_used d then snapshot_devices ds out
      else do {
        let n = length (live out);
        out \<leftarrow> slab_modify n (\<lambda>x. cloneDeviceInto x (Some (de_device d))) (slab_grow zero_device out);
        snapshot_devices ds out
      })"

fun snapshot_links :: "linkEntry list \<Rightarrow> DiscoveredLink slab \<Rightarrow> DiscoveredLink slab run" where
  "snapshot_links [] out = Some out"
| "snapshot_links (l # ls) out =
     (if \<not> le_used l then snapshot_links ls out
      else do {
        let n = length (live out);
        out \<leftarrow> slab_modify n (\<lambda>x. cloneLinkInto x (Some (le_link l))) (slab_grow zero_link out);
        snapshot_links ls out
      })"

definition take_snapshot :: "Engine \<Rightarrow> Snapshot ptr \<Rightarrow> Snapshot ptr run" where
  "take_snapshot e dst =
     (case dst of
        None \<Rightarrow> Some None
      | Some sn \<Rightarrow> do {
          devices \<leftarrow> snapshot_devices (fs_devices (en_state e)) (slab_reset Device_Reset (snap_Devices sn));
          links \<leftarrow> snapshot_links (fs_links (en_state e)) (slab_reset resetLink (snap_Links sn));
          Some (Some \<lparr>snap_Devices = devices, snap_Links = links\<rparr>)
        })"

end
