(* ===== verification/Pool.thy ===== *)
theory Pool
  imports Fusion
begin

text \<open>
  Links and DNS records are kept the same way: an array of entries with a stack of free indices, a list of
  entries in the device that owns them, a map from keys to entries and a timing wheel. The invariant of
  such a pool is stated once, over the fields that tell whether an entry is used, which device owns it and
  what its key is, and the locale \<open>owned_pool\<close> shows what the steps of the operations do to it. Both
  pools of \<open>fusionState\<close> interpret the locale.
\<close>

section \<open>Lists without duplicates\<close>

lemma index_of_None: "index_of x xs = None \<longleftrightarrow> x \<notin> set xs"
  by (induction xs) auto

lemma index_of_Some: "index_of x xs = Some i \<Longrightarrow> i < length xs \<and> xs ! i = x"
  by (induction xs arbitrary: i) (auto split: if_splits)

lemma swap_remove_set:
  assumes "distinct xs"
  shows "distinct (swap_remove x xs) \<and> set (swap_remove x xs) = set xs - {x}"
proof (cases "index_of x xs")
  case None
  moreover from None have "x \<notin> set xs" by (simp add: index_of_None)
  ultimately show ?thesis using assms by (simp add: swap_remove_def)
next
  case (Some i)
  then have i: "i < length xs" "xs ! i = x" using index_of_Some by blast+
  obtain ys y where xs: "xs = ys @ [y]" using i(1) by (cases xs rule: rev_cases) auto
  show ?thesis
  proof (cases "i = length ys")
    case True
    then show ?thesis using assms i Some by (simp add: swap_remove_def xs)
  next
    case False
    then have "i < length ys" "ys ! i = x" using i by (simp_all add: xs nth_append)
    then obtain as bs where ys: "ys = as @ x # bs" "length as = i" by (metis id_take_nth_drop length_take min.absorb4)
    have "swap_remove x xs = as @ y # bs"
      using Some ys butlast_snoc [of "as @ y # bs" y] by (simp add: swap_remove_def xs list_update_append)
    then show ?thesis using assms by (auto simp: xs ys)
  qed
qed

lemma swap_remove_notin: "x \<notin> set xs \<Longrightarrow> swap_remove x xs = xs"
  by (simp add: swap_remove_def index_of_None [symmetric])

lemma nth_updated: "j < length xs \<Longrightarrow> xs[i := x] ! j = (if i = j then x else xs ! j)"
  by (cases "i < length xs") (simp_all add: nth_list_update)

section \<open>The invariant\<close>

text \<open>
  \<open>X\<close> holds the entries that are being moved, which are in no list, and \<open>U\<close> the used entries that are not
  scheduled. Between operations both are empty. An owner is the pair of a flag that the device is used
  and the list of its entries.
\<close>

type_synonym owners = "(bool \<times> nat list) list"

definition pool_free :: "('e \<Rightarrow> bool) \<Rightarrow> nat set \<Rightarrow> 'e list \<Rightarrow> nat list \<Rightarrow> bool" where
  "pool_free used X es free = (distinct free \<and> set free = {i. i < length es \<and> \<not> used (es ! i)} - X)"

definition pool_lists :: "('e \<Rightarrow> bool) \<Rightarrow> ('e \<Rightarrow> nat option) \<Rightarrow> nat set \<Rightarrow> 'e list \<Rightarrow> owners \<Rightarrow> bool" where
  "pool_lists used owner X es devs =
     (\<forall>di < length devs. distinct (snd (devs ! di)) \<and>
        set (snd (devs ! di)) = {i. i < length es \<and> used (es ! i) \<and> owner (es ! i) = Some di} - X)"

definition pool_owners :: "('e \<Rightarrow> bool) \<Rightarrow> ('e \<Rightarrow> nat option) \<Rightarrow> 'e list \<Rightarrow> owners \<Rightarrow> bool" where
  "pool_owners used owner es devs =
     (\<forall>i < length es. used (es ! i) \<longrightarrow> (\<exists>di < length devs. owner (es ! i) = Some di \<and> fst (devs ! di)))"

definition pool_keys :: "('e \<Rightarrow> bool) \<Rightarrow> ('e \<Rightarrow> 'k) \<Rightarrow> 'e list \<Rightarrow> ('k \<rightharpoonup> nat) \<Rightarrow> bool" where
  "pool_keys used key es bykey = (\<forall>k i. bykey k = Some i \<longrightarrow> i < length es \<and> used (es ! i) \<and> key (es ! i) = k)"

definition pool_wheel ::
  "('a wheel_node_scheme \<Rightarrow> bool) \<Rightarrow> nat set \<Rightarrow> 'a wheel_node_scheme list \<Rightarrow> nat option list \<Rightarrow> bool" where
  "pool_wheel used U es heads =
     ((\<exists>f. wheel_inv (es, heads) f) \<and> heads \<noteq> [] \<and>
      (\<forall>i < length es. wheelSlot (es ! i) \<noteq> None \<longrightarrow> used (es ! i)) \<and>
      (\<forall>i < length es. used (es ! i) \<longrightarrow> i \<notin> U \<longrightarrow> wheelSlot (es ! i) \<noteq> None))"

definition pool_inv ::
  "('a wheel_node_scheme \<Rightarrow> bool) \<Rightarrow> ('a wheel_node_scheme \<Rightarrow> nat option) \<Rightarrow> ('a wheel_node_scheme \<Rightarrow> 'k) \<Rightarrow>
   nat set \<Rightarrow> nat set \<Rightarrow> 'a wheel_node_scheme list \<Rightarrow> nat option list \<Rightarrow> nat list \<Rightarrow> ('k \<rightharpoonup> nat) \<Rightarrow> owners \<Rightarrow> bool" where
  "pool_inv used owner key X U es heads free bykey devs =
     (pool_free used X es free \<and> pool_lists used owner X es devs \<and> pool_owners used owner es devs \<and>
      pool_keys used key es bykey \<and> pool_wheel used U es heads)"

section \<open>The wheel under changes of its entries\<close>

lemma same_wheel_inv:
  fixes es es' :: "'a wheel_node_scheme list"
  assumes "wheel_inv (es, heads) f" "length es' = length es"
    and "\<And>i. i < length es \<Longrightarrow> wheelSlot (es' ! i) = wheelSlot (es ! i) \<and> (wheelSlot (es ! i) \<noteq> None \<longrightarrow> same_links (es' ! i) (es ! i))"
  shows "wheel_inv (es', heads) f"
  unfolding wheel_inv_def prod.case
proof (intro conjI allI impI ballI)
  fix slot
  assume slot: "slot < length heads"
  obtain e where e: "seg es (None, heads ! slot) (f slot) (e, None)" and d: "distinct (f slot)"
    using wheel_inv_seg [OF assms(1) slot] by auto
  have m: "wheelSlot (es ! x) = Some slot \<and> x < length es" if "x \<in> set (f slot)" for x
    using wheel_inv_mem [OF assms(1) slot that] .
  have "same_links (es' ! x) (es ! x)" if "x \<in> set (f slot)" for x
    using m [OF that] assms(3) [of x] by simp
  then have "seg es' (None, heads ! slot) (f slot) (e, None)"
    using seg_cong [of es' es "f slot"] e assms(2) by blast
  then show "\<exists>e. seg es' (None, heads ! slot) (f slot) (e, None)" by blast
  show "distinct (f slot)" by (rule d)
  show "wheelSlot (es' ! x) = Some slot" if "x \<in> set (f slot)" for x
    using m [OF that] assms(3) [of x] by simp
next
  fix i slot
  assume "i < length es'" "wheelSlot (es' ! i) = Some slot"
  then have "i < length es" "wheelSlot (es ! i) = Some slot" using assms(2,3) by auto
  then show "slot < length heads" "i \<in> set (f slot)" using wheel_inv_slot [OF assms(1)] by blast+
qed

text \<open>Replacing an entry by one with the same place in the wheel.\<close>

definition same_place :: "'a wheel_node_scheme \<Rightarrow> 'a wheel_node_scheme \<Rightarrow> bool" where
  "same_place x y = (wheelSlot x = wheelSlot y \<and> (wheelSlot y \<noteq> None \<longrightarrow> same_links x y))"

lemma same_place_refl [simp]: "same_place x x"
  by (simp add: same_place_def same_links_def)

lemma wheel_inv_update:
  "wheel_inv (es, heads) f \<Longrightarrow> same_place e (es ! i) \<Longrightarrow> wheel_inv (es[i := e], heads) f"
  by (rule same_wheel_inv) (auto simp: nth_updated same_place_def same_links_def)

lemma pool_wheelD:
  assumes "pool_wheel used U es heads"
  shows "\<exists>f. wheel_inv (es, heads) f" "heads \<noteq> []"
    "i < length es \<Longrightarrow> wheelSlot (es ! i) \<noteq> None \<Longrightarrow> used (es ! i)"
    "i < length es \<Longrightarrow> used (es ! i) \<Longrightarrow> i \<notin> U \<Longrightarrow> wheelSlot (es ! i) \<noteq> None"
  using assms unfolding pool_wheel_def by blast+

lemma pool_wheelI:
  assumes "wheel_inv (es, heads) f" "heads \<noteq> []"
    "\<And>i. i < length es \<Longrightarrow> wheelSlot (es ! i) \<noteq> None \<Longrightarrow> used (es ! i)"
    "\<And>i. i < length es \<Longrightarrow> used (es ! i) \<Longrightarrow> i \<notin> U \<Longrightarrow> wheelSlot (es ! i) \<noteq> None"
  shows "pool_wheel used U es heads"
  using assms unfolding pool_wheel_def by blast

lemma pool_wheel_update:
  assumes w: "pool_wheel used U es heads" and p: "same_place e (es ! i)"
    and "wheelSlot (es ! i) \<noteq> None \<Longrightarrow> used e" "used e \<Longrightarrow> wheelSlot (es ! i) = None \<Longrightarrow> i \<in> V"
    and "U \<subseteq> V \<union> {i}"
  shows "pool_wheel used V (es[i := e]) heads"
proof -
  have s: "wheelSlot e = wheelSlot (es ! i)" using p by (simp add: same_place_def)
  obtain f where "wheel_inv (es, heads) f" using pool_wheelD(1) [OF w] by blast
  then have f: "wheel_inv (es[i := e], heads) f" using p by (rule wheel_inv_update)
  show ?thesis
  proof (rule pool_wheelI [OF f pool_wheelD(2) [OF w]])
    fix j
    assume j: "j < length (es[i := e])"
    show "used (es[i := e] ! j)" if "wheelSlot (es[i := e] ! j) \<noteq> None"
    proof (cases "i = j")
      case False
      then show ?thesis using that j pool_wheelD(3) [OF w, of j] by (simp add: nth_updated)
    next
      case True
      then show ?thesis using that j assms(3) s by (simp add: nth_updated)
    qed
    show "wheelSlot (es[i := e] ! j) \<noteq> None" if "used (es[i := e] ! j)" "j \<notin> V"
    proof (cases "i = j")
      case False
      then have "j \<notin> U" using that(2) assms(5) by auto
      then show ?thesis using False that j pool_wheelD(4) [OF w, of j] by (simp add: nth_updated)
    next
      case True
      then show ?thesis using that j assms(4) s by (auto simp: nth_updated)
    qed
  qed
qed

section \<open>The steps of the operations\<close>

lemma pool_freeI:
  "distinct free \<Longrightarrow> (\<And>i. i \<in> set free \<longleftrightarrow> i < length es \<and> \<not> used (es ! i) \<and> i \<notin> X) \<Longrightarrow> pool_free used X es free"
  by (auto simp: pool_free_def)

lemma pool_freeD: "pool_free used X es free \<Longrightarrow> i \<in> set free \<longleftrightarrow> i < length es \<and> \<not> used (es ! i) \<and> i \<notin> X"
  by (auto simp: pool_free_def)

lemma pool_listsI:
  "(\<And>di. di < length devs \<Longrightarrow> distinct (snd (devs ! di))) \<Longrightarrow>
   (\<And>di i. di < length devs \<Longrightarrow>
      i \<in> set (snd (devs ! di)) \<longleftrightarrow> i < length es \<and> used (es ! i) \<and> owner (es ! i) = Some di \<and> i \<notin> X) \<Longrightarrow>
   pool_lists used owner X es devs"
  by (auto simp: pool_lists_def)

lemma pool_listsD:
  assumes "pool_lists used owner X es devs" "di < length devs"
  shows "distinct (snd (devs ! di))"
    "i \<in> set (snd (devs ! di)) \<longleftrightarrow> i < length es \<and> used (es ! i) \<and> owner (es ! i) = Some di \<and> i \<notin> X"
  using assms by (auto simp: pool_lists_def)

lemma pool_ownersD:
  "pool_owners used owner es devs \<Longrightarrow> i < length es \<Longrightarrow> used (es ! i) \<Longrightarrow>
   \<exists>di < length devs. owner (es ! i) = Some di \<and> fst (devs ! di)"
  by (simp add: pool_owners_def)

lemma pool_keysD:
  "pool_keys used key es bykey \<Longrightarrow> bykey k = Some i \<Longrightarrow> i < length es \<and> used (es ! i) \<and> key (es ! i) = k"
  unfolding pool_keys_def by blast

lemma pool_keysI:
  "(\<And>k i. bykey k = Some i \<Longrightarrow> i < length es \<and> used (es ! i) \<and> key (es ! i) = k) \<Longrightarrow> pool_keys used key es bykey"
  unfolding pool_keys_def by blast

lemma pool_ownersI:
  "(\<And>i. i < length es \<Longrightarrow> used (es ! i) \<Longrightarrow> \<exists>di < length devs. owner (es ! i) = Some di \<and> fst (devs ! di)) \<Longrightarrow>
   pool_owners used owner es devs"
  by (simp add: pool_owners_def)

lemma pool_invD:
  assumes "pool_inv used owner key X U es heads free bykey devs"
  shows "pool_free used X es free" "pool_lists used owner X es devs" "pool_owners used owner es devs"
    "pool_keys used key es bykey" "pool_wheel used U es heads"
  using assms by (simp_all add: pool_inv_def)

locale owned_pool =
  fixes used :: "'a wheel_node_scheme \<Rightarrow> bool"
    and owner :: "'a wheel_node_scheme \<Rightarrow> nat option"
    and key :: "'a wheel_node_scheme \<Rightarrow> 'k"
  assumes used_more: "wheel_node.more x = wheel_node.more y \<Longrightarrow> used x = used y"
    and owner_more: "wheel_node.more x = wheel_node.more y \<Longrightarrow> owner x = owner y"
    and key_more: "wheel_node.more x = wheel_node.more y \<Longrightarrow> key x = key y"
begin

abbreviation pinv where "pinv \<equiv> pool_inv used owner key"

text \<open>The wheel operations leave owners, keys and flags alone.\<close>

lemma frame_inv:
  assumes inv: "pinv X U es heads free bykey devs" and fr: "wheel_frame i (es, heads) (es', heads')"
    and w: "wheel_inv (es', heads') f" and i: "i < length es" "used (es ! i)"
    and V: "wheelSlot (es' ! i) = None \<Longrightarrow> i \<in> V" "U \<subseteq> V \<union> {i}"
  shows "pinv X V es' heads' free bykey devs"
proof -
  have len: "length es' = length es" using fr by (rule wheel_frame_length)
  have same: "used (es' ! j) = used (es ! j)" "owner (es' ! j) = owner (es ! j)" "key (es' ! j) = key (es ! j)"
    if "j < length es" for j
    using wheel_frame_more [OF fr that] used_more owner_more key_more by blast+
  have slot: "wheelSlot (es' ! j) = wheelSlot (es ! j)" if "j < length es" "j \<noteq> i" for j
    using fr that by (simp add: wheel_frame_def)
  have h: "heads' \<noteq> []" using fr pool_wheelD(2) [OF pool_invD(5) [OF inv]] by (auto simp: wheel_frame_def)
  note D = pool_invD [OF inv]
  have "pool_free used X es' free"
    using D(1) same len by (auto simp: pool_free_def)
  moreover have "pool_lists used owner X es' devs"
    using D(2) same len by (auto simp: pool_lists_def)
  moreover have "pool_owners used owner es' devs"
    using D(3) same len by (auto simp: pool_owners_def)
  moreover have "pool_keys used key es' bykey"
    unfolding pool_keys_def using pool_keysD [OF D(4)] same len by metis
  moreover have "pool_wheel used V es' heads'"
  proof (rule pool_wheelI [OF w h])
    fix j
    assume j: "j < length es'"
    show "used (es' ! j)" if "wheelSlot (es' ! j) \<noteq> None"
      using that j len same i slot [of j] pool_wheelD(3) [OF D(5), of j] by (cases "j = i") auto
    show "wheelSlot (es' ! j) \<noteq> None" if "used (es' ! j)" "j \<notin> V"
    proof (cases "j = i")
      case False
      then have "j \<notin> U" using that(2) V(2) by auto
      then show ?thesis using that j len same slot [of j] pool_wheelD(4) [OF D(5), of j] False by simp
    next
      case True
      then show ?thesis using that V(1) by auto
    qed
  qed
  ultimately show ?thesis by (simp add: pool_inv_def)
qed

lemma unscheduled:
  assumes inv: "pinv X U es heads free bykey devs" and i: "i < length es" "used (es ! i)"
  shows "runs (unschedule (es, heads) i) (\<lambda>(es', heads'). pinv X (insert i U) es' heads' free bykey devs \<and>
     wheel_frame i (es, heads) (es', heads') \<and> wheelSlot (es' ! i) = None \<and> wheelRound (es' ! i) = wheelRound (es ! i))"
proof -
  obtain f where f: "wheel_inv (es, heads) f" using pool_wheelD(1) [OF pool_invD(5) [OF inv]] by blast
  show ?thesis
    by (rule runs_mono [OF unschedule_runs [OF f i(1)]]) (auto intro: frame_inv [OF inv _ _ i])
qed

lemma scheduled:
  assumes inv: "pinv X U es heads free bykey devs" and i: "i < length es" "used (es ! i)"
  shows "runs (schedule (es, heads) cursor i now expiry) (\<lambda>(es', heads'). pinv X (U - {i}) es' heads' free bykey devs \<and>
     wheel_frame i (es, heads) (es', heads') \<and>
     wheelSlot (es' ! i) = Some ((cursor + ticks_until now expiry) mod length heads) \<and>
     wheelRound (es' ! i) = (ticks_until now expiry - 1) div length heads)"
proof -
  obtain f where f: "wheel_inv (es, heads) f" using pool_wheelD(1) [OF pool_invD(5) [OF inv]] by blast
  have h: "heads \<noteq> []" by (rule pool_wheelD(2) [OF pool_invD(5) [OF inv]])
  show ?thesis
    by (rule runs_mono [OF schedule_runs [OF f i(1) h]]) (auto intro: frame_inv [OF inv _ _ i])
qed

text \<open>Taking the top of the stack of free entries.\<close>

lemma taken:
  assumes inv: "pinv X U es heads free bykey devs" and n: "free \<noteq> []"
  shows "pinv (insert (last free) X) U es heads (butlast free) bykey devs"
    and "last free < length es \<and> \<not> used (es ! last free) \<and> last free \<notin> X"
proof -
  note D = pool_invD [OF inv]
  obtain ys y where free: "free = ys @ [y]" using n by (cases free rule: rev_cases) auto
  have y: "y < length es \<and> \<not> used (es ! y) \<and> y \<notin> X"
    using pool_freeD [OF D(1), of y] by (simp add: free)
  then show "last free < length es \<and> \<not> used (es ! last free) \<and> last free \<notin> X" by (simp add: free)
  have "pool_free used (insert y X) es ys"
    by (rule pool_freeI) (use D(1) pool_freeD [OF D(1)] in \<open>auto simp: pool_free_def free\<close>)
  moreover have "pool_lists used owner (insert y X) es devs"
    by (rule pool_listsI) (use pool_listsD [OF D(2)] y in auto)
  ultimately show "pinv (insert (last free) X) U es heads (butlast free) bykey devs"
    using D by (simp add: pool_inv_def free)
qed

text \<open>Giving an entry back, after its key is forgotten and it left the list of its owner.\<close>

lemma released:
  assumes inv: "pinv X U es heads free bykey devs" and i: "i < length es" "used (es ! i)" "wheelSlot (es ! i) = None"
    and di: "owner (es ! i) = Some di" "devs ! di = (b, xs)"
    and e: "\<not> used e" "same_place e (es ! i)"
  shows "pinv (X - {i}) (U - {i}) (es[i := e]) heads (free @ [i]) (bykey(key (es ! i) := None))
     (devs[di := (b, swap_remove i xs)])"
proof -
  note D = pool_invD [OF inv]
  have dil: "di < length devs" and b: b using pool_ownersD [OF D(3) i(1,2)] di by auto
  note xs = pool_listsD [OF D(2) dil, simplified di(2) snd_conv]
  have sr: "distinct (swap_remove i xs)" "j \<in> set (swap_remove i xs) \<longleftrightarrow> j \<in> set xs \<and> j \<noteq> i" for j
    using swap_remove_set [OF xs(1)] by auto
  have "pool_free used (X - {i}) (es[i := e]) (free @ [i])"
  proof (rule pool_freeI)
    show "distinct (free @ [i])" using D(1) i(2) pool_freeD [OF D(1), of i] by (simp add: pool_free_def)
    show "j \<in> set (free @ [i]) \<longleftrightarrow> j < length (es[i := e]) \<and> \<not> used (es[i := e] ! j) \<and> j \<notin> X - {i}" for j
      using i(1) e(1) pool_freeD [OF D(1), of j] by (cases "j = i") auto
  qed
  moreover have "pool_lists used owner (X - {i}) (es[i := e]) (devs[di := (b, swap_remove i xs)])"
  proof (rule pool_listsI)
    fix dj
    assume dj: "dj < length (devs[di := (b, swap_remove i xs)])"
    show "distinct (snd (devs[di := (b, swap_remove i xs)] ! dj))"
      using dj sr(1) pool_listsD(1) [OF D(2), of dj] by (simp add: nth_updated)
    fix j
    show "j \<in> set (snd (devs[di := (b, swap_remove i xs)] ! dj)) \<longleftrightarrow>
      j < length (es[i := e]) \<and> used (es[i := e] ! j) \<and> owner (es[i := e] ! j) = Some dj \<and> j \<notin> X - {i}"
    proof (cases "dj = di")
      case True
      then show ?thesis using dj xs(2) [of j] sr(2) [of j] e(1) i(1) by (cases "j = i") auto
    next
      case False
      then show ?thesis using dj pool_listsD(2) [OF D(2), of dj j] e(1) di(1) i(1) by (cases "j = i") auto
    qed
  qed
  moreover have "pool_owners used owner (es[i := e]) (devs[di := (b, swap_remove i xs)])"
    unfolding pool_owners_def
  proof (intro allI impI)
    fix j
    assume j: "j < length (es[i := e])" "used (es[i := e] ! j)"
    then have "j \<noteq> i" using e(1) by (auto simp: nth_updated)
    then obtain dj where "dj < length devs" "owner (es ! j) = Some dj" "fst (devs ! dj)"
      using pool_ownersD [OF D(3), of j] j by (auto simp: nth_updated)
    then show "\<exists>dj < length (devs[di := (b, swap_remove i xs)]). owner (es[i := e] ! j) = Some dj \<and>
      fst (devs[di := (b, swap_remove i xs)] ! dj)"
      using \<open>j \<noteq> i\<close> b j(1) by (intro exI [of _ dj]) (simp add: nth_updated)
  qed
  moreover have "pool_keys used key (es[i := e]) (bykey(key (es ! i) := None))"
  proof (rule pool_keysI)
    fix k j
    assume "(bykey(key (es ! i) := None)) k = Some j"
    then have k: "k \<noteq> key (es ! i)" "bykey k = Some j" by (auto split: if_splits)
    moreover from this have "i \<noteq> j" using pool_keysD [OF D(4) k(2)] by auto
    ultimately show "j < length (es[i := e]) \<and> used (es[i := e] ! j) \<and> key (es[i := e] ! j) = k"
      using pool_keysD [OF D(4) k(2)] by simp
  qed
  moreover have "pool_wheel used (U - {i}) (es[i := e]) heads"
    by (rule pool_wheel_update [OF D(5) e(2)]) (use i(3) e(1) in auto)
  ultimately show ?thesis by (simp add: pool_inv_def)
qed

text \<open>Forgetting a key; afterwards no key leads to an entry that had it.\<close>

lemma forgotten:
  assumes inv: "pinv X U es heads free bykey devs"
  shows "pinv X U es heads free (bykey(k := None)) devs"
    and "i < length es \<Longrightarrow> key (es ! i) = k \<Longrightarrow> (bykey(k := None)) k' \<noteq> Some i"
proof -
  note D = pool_invD [OF inv]
  have "pool_keys used key es (bykey(k := None))"
  proof (rule pool_keysI)
    fix k' j
    assume "(bykey(k := None)) k' = Some j"
    then have "bykey k' = Some j" by (simp split: if_splits)
    then show "j < length es \<and> used (es ! j) \<and> key (es ! j) = k'" by (rule pool_keysD [OF D(4)])
  qed
  then show "pinv X U es heads free (bykey(k := None)) devs" using D by (simp add: pool_inv_def)
  show "(bykey(k := None)) k' \<noteq> Some i" if "i < length es" "key (es ! i) = k"
    using that pool_keysD [OF D(4), of k' i] by auto
qed

lemma indexed:
  assumes inv: "pinv X U es heads free bykey devs" and i: "i < length es" "used (es ! i)"
  shows "pinv X U es heads free (bykey(key (es ! i) \<mapsto> i)) devs"
proof -
  note D = pool_invD [OF inv]
  have "pool_keys used key es (bykey(key (es ! i) \<mapsto> i))"
  proof (rule pool_keysI)
    fix k' j
    assume "(bykey(key (es ! i) \<mapsto> i)) k' = Some j"
    then show "j < length es \<and> used (es ! j) \<and> key (es ! j) = k'"
      using pool_keysD [OF D(4), of k' j] i by (cases "k' = key (es ! i)") simp_all
  qed
  then show ?thesis using D by (simp add: pool_inv_def)
qed

text \<open>
  Writing an entry: a free one that was taken, or a used one whose owner changes only while it is being
  moved and whose key changes only while no key leads to it.
\<close>

lemma written:
  assumes inv: "pinv X U es heads free bykey devs" and i: "i < length es"
    and e: "used e" "same_place e (es ! i)" "owner e = Some di" "di < length devs" "fst (devs ! di)"
    and o: "used (es ! i) \<and> owner (es ! i) = Some di \<or> i \<in> X"
    and k: "key e = key (es ! i) \<and> used (es ! i) \<or> (\<forall>k. bykey k \<noteq> Some i)"
    and V: "wheelSlot (es ! i) = None \<Longrightarrow> i \<in> V" "U \<subseteq> V"
  shows "pinv X V (es[i := e]) heads free bykey devs"
proof -
  note D = pool_invD [OF inv]
  have "pool_free used X (es[i := e]) free"
  proof (rule pool_freeI)
    show "distinct free" using D(1) by (simp add: pool_free_def)
    show "j \<in> set free \<longleftrightarrow> j < length (es[i := e]) \<and> \<not> used (es[i := e] ! j) \<and> j \<notin> X" for j
      using i e(1) o pool_freeD [OF D(1), of j] by (cases "j = i") auto
  qed
  moreover have "pool_lists used owner X (es[i := e]) devs"
  proof (rule pool_listsI)
    fix dj
    assume dj: "dj < length devs"
    show "distinct (snd (devs ! dj))" by (rule pool_listsD(1) [OF D(2) dj])
    show "j \<in> set (snd (devs ! dj)) \<longleftrightarrow>
      j < length (es[i := e]) \<and> used (es[i := e] ! j) \<and> owner (es[i := e] ! j) = Some dj \<and> j \<notin> X" for j
      using i e o pool_listsD(2) [OF D(2) dj, of j] by (cases "j = i") auto
  qed
  moreover have "pool_owners used owner (es[i := e]) devs"
  proof (rule pool_ownersI)
    fix j
    assume "j < length (es[i := e])" "used (es[i := e] ! j)"
    then show "\<exists>dj < length devs. owner (es[i := e] ! j) = Some dj \<and> fst (devs ! dj)"
      using e pool_ownersD [OF D(3), of j] by (cases "j = i") auto
  qed
  moreover have "pool_keys used key (es[i := e]) bykey"
  proof (rule pool_keysI)
    fix k' j
    assume k': "bykey k' = Some j"
    then show "j < length (es[i := e]) \<and> used (es[i := e] ! j) \<and> key (es[i := e] ! j) = k'"
      using k e(1) pool_keysD [OF D(4) k'] by (cases "j = i") auto
  qed
  moreover have "pool_wheel used V (es[i := e]) heads"
    by (rule pool_wheel_update [OF D(5) e(2)]) (use e(1) V in auto)
  ultimately show ?thesis by (simp add: pool_inv_def)
qed

text \<open>An entry that was written joins the list of its owner, and leaves the list to be moved.\<close>

lemma attached:
  assumes inv: "pinv X U es heads free bykey devs" and i: "i < length es" "used (es ! i)" "owner (es ! i) = Some di" "i \<in> X"
    and d: "devs ! di = (b, xs)"
  shows "pinv (X - {i}) U es heads free bykey (devs[di := (b, xs @ [i])])"
proof -
  note D = pool_invD [OF inv]
  have dil: "di < length devs" and b: b using pool_ownersD [OF D(3) i(1,2)] i(3) d by auto
  note xs = pool_listsD [OF D(2) dil, simplified d snd_conv]
  have "pool_free used (X - {i}) es free"
    by (rule pool_freeI) (use D(1) pool_freeD [OF D(1)] i(2) in \<open>auto simp: pool_free_def\<close>)
  moreover have "pool_lists used owner (X - {i}) es (devs[di := (b, xs @ [i])])"
  proof (rule pool_listsI)
    fix dj
    assume "dj < length (devs[di := (b, xs @ [i])])"
    then have dj: "dj < length devs" by simp
    show "distinct (snd (devs[di := (b, xs @ [i])] ! dj))"
      using dil xs(1) xs(2) [of i] i(4) pool_listsD(1) [OF D(2) dj] by (cases "dj = di") auto
    show "j \<in> set (snd (devs[di := (b, xs @ [i])] ! dj)) \<longleftrightarrow>
      j < length es \<and> used (es ! j) \<and> owner (es ! j) = Some dj \<and> j \<notin> X - {i}" for j
      using dil dj xs(2) [of j] i pool_listsD(2) [OF D(2) dj, of j] by (cases "dj = di"; cases "j = i") auto
  qed
  moreover have "pool_owners used owner es (devs[di := (b, xs @ [i])])"
  proof (rule pool_ownersI)
    fix j
    assume "j < length es" "used (es ! j)"
    then obtain dj where "dj < length devs" "owner (es ! j) = Some dj" "fst (devs ! dj)"
      using pool_ownersD [OF D(3)] by blast
    then show "\<exists>dj < length (devs[di := (b, xs @ [i])]). owner (es ! j) = Some dj \<and> fst (devs[di := (b, xs @ [i])] ! dj)"
      using b by (intro exI [of _ dj]) (simp add: nth_updated)
  qed
  ultimately show ?thesis using D by (simp add: pool_inv_def)
qed

lemma detached:
  assumes inv: "pinv X U es heads free bykey devs" and di: "di < length devs" "devs ! di = (b, xs)" "xs \<noteq> []"
  shows "pinv (insert (last xs) X) U es heads free bykey (devs[di := (b, butlast xs)])"
    and "last xs < length es \<and> used (es ! last xs) \<and> owner (es ! last xs) = Some di \<and> last xs \<notin> X \<and> b"
proof -
  note D = pool_invD [OF inv]
  obtain ys y where e: "xs = ys @ [y]" using di(3) by (cases xs rule: rev_cases) auto
  note xs = pool_listsD [OF D(2) di(1), simplified di(2) snd_conv]
  have y: "y < length es \<and> used (es ! y) \<and> owner (es ! y) = Some di \<and> y \<notin> X" using xs(2) [of y] by (simp add: e)
  then have b: b using pool_ownersD [OF D(3), of y] di(2) by auto
  with y show "last xs < length es \<and> used (es ! last xs) \<and> owner (es ! last xs) = Some di \<and> last xs \<notin> X \<and> b" by (simp add: e)
  have "pool_free used (insert y X) es free"
    by (rule pool_freeI) (use D(1) pool_freeD [OF D(1)] y in \<open>auto simp: pool_free_def\<close>)
  moreover have "pool_lists used owner (insert y X) es (devs[di := (b, ys)])"
  proof (rule pool_listsI)
    fix dj
    assume "dj < length (devs[di := (b, ys)])"
    then have dj: "dj < length devs" by simp
    show "distinct (snd (devs[di := (b, ys)] ! dj))"
      using di(1) xs(1) e pool_listsD(1) [OF D(2) dj] by (cases "dj = di") auto
    show "j \<in> set (snd (devs[di := (b, ys)] ! dj)) \<longleftrightarrow>
      j < length es \<and> used (es ! j) \<and> owner (es ! j) = Some dj \<and> j \<notin> insert y X" for j
      using di(1) dj xs(1) xs(2) [of j] e y pool_listsD(2) [OF D(2) dj, of j] by (cases "dj = di"; cases "j = y") auto
  qed
  moreover have "pool_owners used owner es (devs[di := (b, ys)])"
  proof (rule pool_ownersI)
    fix j
    assume "j < length es" "used (es ! j)"
    then obtain dj where "dj < length devs" "owner (es ! j) = Some dj" "fst (devs ! dj)"
      using pool_ownersD [OF D(3)] by blast
    then show "\<exists>dj < length (devs[di := (b, ys)]). owner (es ! j) = Some dj \<and> fst (devs[di := (b, ys)] ! dj)"
      using b by (intro exI [of _ dj]) (simp add: nth_updated)
  qed
  ultimately show "pinv (insert (last xs) X) U es heads free bykey (devs[di := (b, butlast xs)])"
    using D by (simp add: pool_inv_def e)
qed

text \<open>A device without entries may change its flag.\<close>

lemma flagged:
  assumes inv: "pinv {} U es heads free bykey devs" and di: "di < length devs" "snd (devs ! di) = []"
  shows "pinv {} U es heads free bykey (devs[di := (b, [])])"
proof -
  note D = pool_invD [OF inv]
  have none: "owner (es ! j) \<noteq> Some di" if "j < length es" "used (es ! j)" for j
    using pool_listsD(2) [OF D(2) di(1), of j] that di(2) by simp
  have "pool_lists used owner {} es (devs[di := (b, [])])"
    by (rule pool_listsI) (use pool_listsD [OF D(2)] none in \<open>auto simp: nth_updated split: if_splits\<close>)
  moreover have "pool_owners used owner es (devs[di := (b, [])])"
  proof (rule pool_ownersI)
    fix j
    assume j: "j < length es" "used (es ! j)"
    then obtain dj where "dj < length devs" "owner (es ! j) = Some dj" "fst (devs ! dj)"
      using pool_ownersD [OF D(3)] by blast
    then show "\<exists>dj < length (devs[di := (b, [])]). owner (es ! j) = Some dj \<and> fst (devs[di := (b, [])] ! dj)"
      using none [OF j] by (intro exI [of _ dj]) (auto simp: nth_updated)
  qed
  ultimately show ?thesis using D by (simp add: pool_inv_def)
qed

end

end
