(* ===== verification/FusionInv.thy ===== *)
theory FusionInv
  imports Pool
begin

text \<open>
  The invariant of the fusion state and how the operations on links and devices keep it: the pools of
  links and DNS records, the devices and their keys, the keys that entries carry, and the text fields.
\<close>

section \<open>The two pools\<close>

definition link_key :: "linkEntry \<Rightarrow> LinkKey" where
  "link_key e = link_Key (le_link e)"

lemma link_more:
  fixes x y :: linkEntry
  assumes "wheel_node.more x = wheel_node.more y"
  shows "le_used x = le_used y \<and> le_link x = le_link y \<and> le_device x = le_device y \<and> le_expires x = le_expires y"
  using assms by (cases x; cases y) (simp add: linkEntry.defs)

lemma dns_more:
  fixes x y :: dnsEntry
  assumes "wheel_node.more x = wheel_node.more y"
  shows "ne_used x = ne_used y \<and> ne_key x = ne_key y \<and> ne_record x = ne_record y \<and> ne_device x = ne_device y \<and>
    ne_expiresAt x = ne_expiresAt y"
  using assms by (cases x; cases y) (simp add: dnsEntry.defs)

interpretation link_pool: owned_pool "le_used :: linkEntry \<Rightarrow> bool" le_device link_key
  by unfold_locales (drule link_more, simp add: link_key_def)+

interpretation dns_pool: owned_pool "ne_used :: dnsEntry \<Rightarrow> bool" ne_device ne_key
  by unfold_locales (drule dns_more, simp)+

section \<open>The invariant\<close>

text \<open>
  The exempt sets are empty between operations. \<open>X\<close> and \<open>Z\<close> hold entries on the move, \<open>U\<close> and \<open>V\<close> entries
  that are not scheduled, \<open>T\<close> links that do not carry the key of their device yet, \<open>Y\<close> devices taken
  from the free list and \<open>W\<close> devices whose expiry is out of date.
\<close>

definition link_owners :: "deviceEntry list \<Rightarrow> owners" where
  "link_owners ds = map (\<lambda>d. (de_used d, de_links d)) ds"

definition dns_owners :: "deviceEntry list \<Rightarrow> owners" where
  "dns_owners ds = map (\<lambda>d. (de_used d, de_dns d)) ds"

lemma owners_length [simp]: "length (link_owners ds) = length ds" "length (dns_owners ds) = length ds"
  by (simp_all add: link_owners_def dns_owners_def)

lemma owners_nth [simp]:
  "i < length ds \<Longrightarrow> link_owners ds ! i = (de_used (ds ! i), de_links (ds ! i))"
  "i < length ds \<Longrightarrow> dns_owners ds ! i = (de_used (ds ! i), de_dns (ds ! i))"
  by (simp_all add: link_owners_def dns_owners_def)

lemma owners_update:
  "link_owners (ds[i := d]) = (link_owners ds)[i := (de_used d, de_links d)]"
  "dns_owners (ds[i := d]) = (dns_owners ds)[i := (de_used d, de_dns d)]"
  by (simp_all add: link_owners_def dns_owners_def map_update)

lemma same_owners:
  "de_used d = de_used (ds ! i) \<Longrightarrow> de_links d = de_links (ds ! i) \<Longrightarrow> link_owners (ds[i := d]) = link_owners ds"
  "de_used d = de_used (ds ! i) \<Longrightarrow> de_dns d = de_dns (ds ! i) \<Longrightarrow> dns_owners (ds[i := d]) = dns_owners ds"
  by (rule nth_equalityI; simp add: nth_updated)+

definition link_tags :: "nat set \<Rightarrow> linkEntry list \<Rightarrow> deviceEntry list \<Rightarrow> bool" where
  "link_tags T ls ds =
     (\<forall>i < length ls. le_used (ls ! i) \<longrightarrow> i \<notin> T \<longrightarrow>
        (\<forall>di. le_device (ls ! i) = Some di \<longrightarrow>
           link_Device (le_link (ls ! i)) = dev_Key (de_device (ds ! di)) \<and>
           lk_Device (link_key (ls ! i)) = dev_Key (de_device (ds ! di))))"

definition link_inv :: "nat set \<Rightarrow> nat set \<Rightarrow> nat set \<Rightarrow> fusionState \<Rightarrow> bool" where
  "link_inv X U T s =
     (pool_inv le_used le_device link_key X U (fs_links s) (fs_linkHeads s) (fs_freeLinks s) (fs_linkByKey s)
        (link_owners (fs_devices s)) \<and>
      link_tags T (fs_links s) (fs_devices s))"

definition latest_of :: "dnsEntry list \<Rightarrow> nat list \<Rightarrow> Time" where
  "latest_of rs is = foldr (\<lambda>i. max (ne_expiresAt (rs ! i))) is 0"

definition expiry_ok :: "nat set \<Rightarrow> dnsEntry list \<Rightarrow> deviceEntry list \<Rightarrow> bool" where
  "expiry_ok W rs ds =
     (\<forall>di < length ds. de_used (ds ! di) \<longrightarrow> di \<notin> W \<longrightarrow> de_dnsExpiry (ds ! di) = latest_of rs (de_dns (ds ! di)))"

definition dns_tags :: "dnsEntry list \<Rightarrow> bool" where
  "dns_tags rs = (\<forall>i < length rs. ne_used (rs ! i) \<longrightarrow> ne_device (rs ! i) = Some (dnk_device (ne_key (rs ! i))))"

definition cache_inv :: "nat set \<Rightarrow> nat set \<Rightarrow> nat set \<Rightarrow> fusionState \<Rightarrow> bool" where
  "cache_inv Z V W s =
     (pool_inv ne_used ne_device ne_key Z V (fs_dns s) (fs_dnsHeads s) (fs_freeDNS s) (fs_dnsByKey s)
        (dns_owners (fs_devices s)) \<and>
      dns_tags (fs_dns s) \<and> expiry_ok W (fs_dns s) (fs_devices s))"

definition device_inv :: "nat set \<Rightarrow> fusionState \<Rightarrow> bool" where
  "device_inv Y s =
     (pool_free de_used Y (fs_devices s) (fs_freeDevices s) \<and>
      (\<forall>k di. fs_deviceByKey s k = Some di \<longleftrightarrow>
         di < length (fs_devices s) \<and> de_used (fs_devices s ! di) \<and> dev_Key (de_device (fs_devices s ! di)) = k))"

definition device_ok :: "int \<Rightarrow> DiscoveredDevice \<Rightarrow> bool" where
  "device_ok m d =
     (\<forall>f \<in> {dev_SystemName d, dev_HostName d, dev_ProtocolDeviceID d, dev_Vendor d, dev_Model d, dev_Platform d,
         dev_SoftwareVersion d}. text_ok (nat (m + 1)) f)"

definition link_ok :: "int \<Rightarrow> linkEntry \<Rightarrow> bool" where
  "link_ok m e = (length (le_expires e) = 5 \<and> text_ok (nat (m + 1)) (link_RemoteInterface (le_link e)))"

definition classifier_total :: "Classifier ptr \<Rightarrow> bool" where
  "classifier_total c = (\<forall>d. Classify c (Some d) \<noteq> None)"

text \<open>What no operation ever suspends.\<close>

definition steady :: "fusionState \<Rightarrow> bool" where
  "steady s =
     (1 \<le> cfg_MaxAlternatives (fs_cfg s) \<and> cfg_MaxAlternatives (fs_cfg s) \<le> 255 \<and>
      classifier_total (fs_classifier s) \<and>
      fs_wheelCursor s < length (fs_linkHeads s) \<and> length (fs_dnsHeads s) = length (fs_linkHeads s) \<and>
      (\<forall>d \<in> set (fs_devices s). device_ok (cfg_MaxAlternatives (fs_cfg s)) (de_device d)) \<and>
      (\<forall>l \<in> set (fs_links s). link_ok (cfg_MaxAlternatives (fs_cfg s)) l))"

definition fusion_inv :: "fusionState \<Rightarrow> bool" where
  "fusion_inv s = (steady s \<and> device_inv {} s \<and> link_inv {} {} {} s \<and> cache_inv {} {} {} s)"

section \<open>What operations on one part leave alone\<close>

definition conf where
  "conf s = (fs_cfg s, fs_classifier s, fs_wheelCursor s, length (fs_linkHeads s), length (fs_devices s),
     length (fs_links s), length (fs_dns s))"

definition link_core where
  "link_core s = (fs_links s, fs_linkHeads s, fs_freeLinks s, fs_linkByKey s,
     map (\<lambda>d. (de_used d, dev_Key (de_device d), de_links d)) (fs_devices s))"

definition dns_core where
  "dns_core s = (fs_dns s, fs_dnsHeads s, fs_freeDNS s, fs_dnsByKey s,
     map (\<lambda>d. (de_used d, de_dns d, de_dnsExpiry d)) (fs_devices s))"

definition device_core where
  "device_core s = (fs_deviceByKey s, fs_freeDevices s, map (\<lambda>d. (de_used d, de_device d)) (fs_devices s))"

lemmas cores = conf_def link_core_def dns_core_def device_core_def

lemma map_eqD: "map f xs = map f ys \<Longrightarrow> length xs = length ys \<and> (\<forall>i < length xs. f (xs ! i) = f (ys ! i))"
  by (metis length_map nth_map)

lemma map_prod_eqD: "map (\<lambda>x. (f x, g x)) xs = map (\<lambda>x. (f x, g x)) ys \<Longrightarrow> map f xs = map f ys \<and> map g xs = map g ys"
  by (auto dest!: map_eqD intro!: nth_equalityI)

lemma link_inv_cong:
  assumes "link_core s' = link_core s"
  shows "link_inv X U T s' = link_inv X U T s"
proof -
  have d: "length (fs_devices s') = length (fs_devices s)"
    "i < length (fs_devices s) \<Longrightarrow> de_used (fs_devices s' ! i) = de_used (fs_devices s ! i) \<and>
       dev_Key (de_device (fs_devices s' ! i)) = dev_Key (de_device (fs_devices s ! i)) \<and>
       de_links (fs_devices s' ! i) = de_links (fs_devices s ! i)" for i
    using assms by (auto simp: link_core_def dest!: map_eqD)
  have o: "link_owners (fs_devices s') = link_owners (fs_devices s)"
    by (rule nth_equalityI) (simp_all add: d)
  have l: "link_tags T (fs_links s) (fs_devices s') = link_tags T (fs_links s) (fs_devices s)"
    if p: "pool_inv le_used le_device link_key X U (fs_links s) h f b (link_owners (fs_devices s))" for h f b
  proof -
    have "di < length (fs_devices s)"
      if "i < length (fs_links s)" "le_used (fs_links s ! i)" "le_device (fs_links s ! i) = Some di" for i di
      using pool_ownersD [OF pool_invD(3) [OF p], of i] that by auto
    then show ?thesis unfolding link_tags_def using d(2) by metis
  qed
  show ?thesis using assms l by (auto simp: link_inv_def link_core_def o)
qed

lemma cache_inv_cong:
  assumes "dns_core s' = dns_core s"
  shows "cache_inv Z V W s' = cache_inv Z V W s"
proof -
  have d: "length (fs_devices s') = length (fs_devices s)"
    "i < length (fs_devices s) \<Longrightarrow> de_used (fs_devices s' ! i) = de_used (fs_devices s ! i) \<and>
       de_dnsExpiry (fs_devices s' ! i) = de_dnsExpiry (fs_devices s ! i) \<and>
       de_dns (fs_devices s' ! i) = de_dns (fs_devices s ! i)" for i
    using assms by (auto simp: dns_core_def dest!: map_eqD)
  have "dns_owners (fs_devices s') = dns_owners (fs_devices s)"
    by (rule nth_equalityI) (simp_all add: d)
  moreover have "expiry_ok W (fs_dns s) (fs_devices s') = expiry_ok W (fs_dns s) (fs_devices s)"
    by (simp add: expiry_ok_def d cong: conj_cong)
  ultimately show ?thesis using assms by (simp add: cache_inv_def dns_core_def)
qed

lemma device_inv_cong:
  assumes "device_core s' = device_core s"
  shows "device_inv Y s' = device_inv Y s"
proof -
  have d: "length (fs_devices s') = length (fs_devices s)"
    "i < length (fs_devices s) \<Longrightarrow> de_used (fs_devices s' ! i) = de_used (fs_devices s ! i) \<and>
       de_device (fs_devices s' ! i) = de_device (fs_devices s ! i)" for i
    using assms by (auto simp: device_core_def dest!: map_eqD)
  have "pool_free de_used Y (fs_devices s') f = pool_free de_used Y (fs_devices s) f" for f
    using d by (auto simp: pool_free_def)
  then show ?thesis using assms d by (simp add: device_inv_def device_core_def cong: conj_cong)
qed

section \<open>Removing a link\<close>

lemma runs_mod_device [wp]:
  "runs (mod_device i f s) P =
     (i < length (fs_devices s) \<and> P (s\<lparr>fs_devices := (fs_devices s)[i := f (fs_devices s ! i)]\<rparr>))"
  by (auto simp: mod_device_def wp)

lemma runs_mod_link [wp]:
  "runs (mod_link i f s) P = (i < length (fs_links s) \<and> P (s\<lparr>fs_links := (fs_links s)[i := f (fs_links s ! i)]\<rparr>))"
  by (auto simp: mod_link_def wp)

lemma runs_mod_dns [wp]:
  "runs (mod_dns i f s) P = (i < length (fs_dns s) \<and> P (s\<lparr>fs_dns := (fs_dns s)[i := f (fs_dns s ! i)]\<rparr>))"
  by (auto simp: mod_dns_def wp)

lemma link_used_Some [simp]: "link_used s i = Some (i < length (fs_links s) \<and> le_used (fs_links s ! i))"
  by (cases "i < length (fs_links s)") (simp_all add: link_used_def)

lemma dns_used_Some [simp]: "dns_used s i = Some (i < length (fs_dns s) \<and> ne_used (fs_dns s ! i))"
  by (cases "i < length (fs_dns s)") (simp_all add: dns_used_def)

lemma device_used_Some [simp]:
  "device_used s dp =
     Some (case dp of None \<Rightarrow> False | Some di \<Rightarrow> di < length (fs_devices s) \<and> de_used (fs_devices s ! di))"
  by (cases dp) (auto simp: device_used_def not_le)

lemma tombstone_runs:
  "runs (tombstone kind changed d l s) (\<lambda>(e, s'). (\<exists>ts. s' = s\<lparr>fs_tombstones := ts\<rparr>) \<and>
     fe_Kind e = kind \<and> fe_Changed e = changed \<and>
     (\<exists>d' l'. fe_Target e = Tombstone (cloneDeviceInto d' (Some d)) (cloneLinkInto l' (Some l))))"
  by (auto simp: tombstone_def wp Let_def)

text \<open>What is known of a link and of the links beside it.\<close>

lemma link_ownerD:
  assumes "link_inv X U T s" "i < length (fs_links s)" "le_used (fs_links s ! i)"
  obtains di where "di < length (fs_devices s)" "le_device (fs_links s ! i) = Some di" "de_used (fs_devices s ! di)"
proof -
  have "pool_owners le_used le_device (fs_links s) (link_owners (fs_devices s))"
    using assms(1) by (simp add: link_inv_def pool_inv_def)
  from pool_ownersD [OF this assms(2,3)] show ?thesis using that by auto
qed

definition links_frame :: "nat \<Rightarrow> fusionState \<Rightarrow> fusionState \<Rightarrow> bool" where
  "links_frame i s s' =
     (length (fs_links s') = length (fs_links s) \<and>
      (\<forall>j < length (fs_links s). j \<noteq> i \<longrightarrow> wheel_node.more (fs_links s' ! j) = wheel_node.more (fs_links s ! j) \<and>
         wheelSlot (fs_links s' ! j) = wheelSlot (fs_links s ! j) \<and>
         wheelRound (fs_links s' ! j) = wheelRound (fs_links s ! j)))"

definition link_removed :: "nat \<Rightarrow> fusionState \<Rightarrow> fusionState \<Rightarrow> bool" where
  "link_removed i s s' =
     (conf s' = conf s \<and> dns_core s' = dns_core s \<and> device_core s' = device_core s \<and> links_frame i s s' \<and>
      \<not> le_used (fs_links s' ! i) \<and> fs_freeLinks s' = fs_freeLinks s @ [i] \<and>
      (\<forall>f. wheel_inv (fs_links s, fs_linkHeads s) f \<longrightarrow> wheel_inv (fs_links s', fs_linkHeads s') (unlisted f i)) \<and>
      (\<forall>dj < length (fs_devices s). de_links (fs_devices s' ! dj) =
         (if le_device (fs_links s ! i) = Some dj then swap_remove i (de_links (fs_devices s ! dj))
          else de_links (fs_devices s ! dj))) \<and>
      (steady s \<longrightarrow> steady s'))"

text \<open>The event of something that is gone: its contents are copies.\<close>

definition dead :: "EventKind \<Rightarrow> fusion_event \<Rightarrow> bool" where
  "dead kind e = (fe_Kind e = kind \<and> (\<exists>d l. fe_Target e = Tombstone d l))"

lemma removeLink_runs:
  assumes inv: "link_inv X U T s" and i: "i < length (fs_links s)" "le_used (fs_links s ! i)"
  shows "runs (removeLink i kind (s, events)) (\<lambda>(s', events').
     link_inv (X - {i}) (U - {i}) (T - {i}) s' \<and> link_removed i s s' \<and>
     (\<exists>e. events' = events @ [e] \<and> dead kind e))"
proof -
  obtain di where di: "di < length (fs_devices s)" "le_device (fs_links s ! i) = Some di" "de_used (fs_devices s ! di)"
    using link_ownerD [OF inv i] .
  let ?l = "fs_links s ! i" and ?d = "fs_devices s ! di"
  have p: "pool_inv le_used le_device link_key X U (fs_links s) (fs_linkHeads s) (fs_freeLinks s) (fs_linkByKey s)
     (link_owners (fs_devices s))" and t: "link_tags T (fs_links s) (fs_devices s)"
    using inv by (simp_all add: link_inv_def)
  obtain f where f: "wheel_inv (fs_links s, fs_linkHeads s) f" using pool_wheelD(1) [OF pool_invD(5) [OF p]] by blast
  from runs_exD [OF tombstone_runs [of kind FieldLink "de_device ?d" "le_link ?l" s]] obtain e ts where
    ts: "tombstone kind FieldLink (de_device ?d) (le_link ?l) s = Some (e, s\<lparr>fs_tombstones := ts\<rparr>)" "dead kind e"
    unfolding dead_def by auto
  from runs_exD [OF link_pool.unscheduled [OF p i]] obtain ls heads where
    u: "unschedule (fs_links s, fs_linkHeads s) i = Some (ls, heads)"
    and P: "pool_inv le_used le_device link_key X (insert i U) ls heads (fs_freeLinks s) (fs_linkByKey s) (link_owners (fs_devices s))"
    and fr: "wheel_frame i (fs_links s, fs_linkHeads s) (ls, heads)" and slot: "wheelSlot (ls ! i) = None" by auto
  have len: "length ls = length (fs_links s)" using fr by (rule wheel_frame_length)
  have more: "wheel_node.more (ls ! j) = wheel_node.more (fs_links s ! j)" if "j < length ls" for j
    using wheel_frame_more [OF fr] that len by simp
  have li: "le_used (ls ! i) = le_used ?l \<and> le_link (ls ! i) = le_link ?l \<and> le_device (ls ! i) = le_device ?l"
    using link_more [OF more] i len by simp
  define l' where "l' = (ls ! i)\<lparr>le_used := False, le_device := None, le_expires := no_expires\<rparr>"
  define s' where "s' = s\<lparr>fs_tombstones := ts, fs_links := ls[i := l'], fs_linkHeads := heads,
     fs_linkByKey := (fs_linkByKey s)(link_Key (le_link ?l) := None),
     fs_devices := (fs_devices s)[di := ?d\<lparr>de_links := swap_remove i (de_links ?d)\<rparr>], fs_freeLinks := fs_freeLinks s @ [i]\<rparr>"
  have run: "removeLink i kind (s, events) = Some (s', events @ [e])"
    using i di ts u len
    by (simp add: removeLink_def link_used_def unscheduleLink_def mod_device_def mod_link_def l'_def s'_def)
  have place: "same_place l' (ls ! i)" by (simp add: l'_def same_place_def slot)
  have own: "link_owners (fs_devices s) ! di = (de_used ?d, de_links ?d)" using di(1) by simp
  have "pool_inv le_used le_device link_key (X - {i}) (insert i U - {i}) (fs_links s') (fs_linkHeads s') (fs_freeLinks s')
     (fs_linkByKey s') (link_owners (fs_devices s'))"
    using link_pool.released [OF P _ _ slot _ own _ place] i len li di
    by (simp add: s'_def owners_update link_key_def l'_def)
  moreover have "link_tags (T - {i}) (fs_links s') (fs_devices s')"
    unfolding link_tags_def
  proof (intro allI impI)
    fix j dj
    assume j: "j < length (fs_links s')" "le_used (fs_links s' ! j)" "j \<notin> T - {i}" "le_device (fs_links s' ! j) = Some dj"
    then have ji: "j \<noteq> i" using len i by (auto simp: s'_def l'_def)
    then have j': "fs_links s' ! j = ls ! j" "j < length (fs_links s)" using j(1) len by (simp_all add: s'_def)
    have m: "le_used (ls ! j) = le_used (fs_links s ! j)" "le_link (ls ! j) = le_link (fs_links s ! j)"
      "le_device (ls ! j) = le_device (fs_links s ! j)"
      using link_more [OF more, of j] j'(2) len by simp_all
    have dj: "dj < length (fs_devices s)" using link_ownerD [OF inv j'(2)] j j'(1) m by auto
    show "link_Device (le_link (fs_links s' ! j)) = dev_Key (de_device (fs_devices s' ! dj)) \<and>
      lk_Device (link_key (fs_links s' ! j)) = dev_Key (de_device (fs_devices s' ! dj))"
      using t j j' m ji dj di(1) by (auto simp: link_tags_def link_key_def s'_def nth_updated)
  qed
  moreover have "insert i U - {i} = U - {i}" by auto
  ultimately have post: "link_inv (X - {i}) (U - {i}) (T - {i}) s'" by (simp add: link_inv_def)
  have frame: "links_frame i s s'"
    using fr more len by (auto simp: links_frame_def s'_def wheel_frame_def)
  have wheel: "wheel_inv (fs_links s', fs_linkHeads s') (unlisted g i)" if "wheel_inv (fs_links s, fs_linkHeads s) g" for g
  proof -
    have "wheel_inv (ls, heads) (unlisted g i)"
      using runs_SomeD [OF unschedule_runs [OF that i(1)] u] by simp
    then show ?thesis using wheel_inv_update [OF _ place] by (simp add: s'_def)
  qed
  have steady: "steady s'" if "steady s"
  proof -
    have "link_ok m (ls ! j)" if "j < length ls" "\<forall>l \<in> set (fs_links s). link_ok m l" for m j
      using link_more [OF more [OF that(1)]] that len by (simp add: link_ok_def)
    then have 1: "\<forall>l \<in> set ls. link_ok m l" if "\<forall>l \<in> set (fs_links s). link_ok m l" for m
      using that by (auto simp: in_set_conv_nth)
    have "link_ok m l'" if "link_ok m (ls ! i)" for m
      using that by (simp add: link_ok_def l'_def no_expires_def)
    then have 2: "\<forall>l \<in> set (ls[i := l']). link_ok m l" if "\<forall>l \<in> set (fs_links s). link_ok m l" for m
      using 1 [OF that] i(1) len by (auto dest!: set_update_subset_insert [THEN subsetD])
    have 3: "\<forall>d \<in> set (fs_devices s'). device_ok m (de_device d)" if "\<forall>d \<in> set (fs_devices s). device_ok m (de_device d)" for m
      using that di(1) by (auto simp: s'_def dest!: set_update_subset_insert [THEN subsetD])
    show ?thesis using that 2 3 fr by (simp add: steady_def s'_def wheel_frame_def)
  qed
  have "conf s' = conf s" "dns_core s' = dns_core s" "device_core s' = device_core s"
    using fr di(1) len by (auto simp: cores s'_def wheel_frame_def map_update intro!: list_update_same_conv [THEN iffD2])
  moreover have "de_links (fs_devices s' ! dj) = (if le_device ?l = Some dj then swap_remove i (de_links (fs_devices s ! dj))
      else de_links (fs_devices s ! dj))" if "dj < length (fs_devices s)" for dj
    using di that by (auto simp: s'_def nth_updated)
  moreover have "\<not> le_used (fs_links s' ! i)" "fs_freeLinks s' = fs_freeLinks s @ [i]"
    using i len by (simp_all add: s'_def l'_def)
  ultimately have "link_removed i s s'" using frame wheel steady by (simp add: link_removed_def)
  then show ?thesis using post ts(2) by (simp add: run wp)
qed

section \<open>The expiry of the records of a device\<close>

lemma latest_of_Max: "latest_of rs is = Max (insert 0 ((\<lambda>i. ne_expiresAt (rs ! i)) ` set is))"
proof (induction "is")
  case (Cons i "is")
  let ?S = "(\<lambda>i. ne_expiresAt (rs ! i)) ` set is"
  have "Max (insert (ne_expiresAt (rs ! i)) (insert 0 ?S)) = max (ne_expiresAt (rs ! i)) (Max (insert 0 ?S))"
    by (rule Max_insert) auto
  with Cons show ?case by (simp add: latest_of_def insert_commute [of 0 "ne_expiresAt (rs ! i)"])
qed (simp add: latest_of_def)

lemma latest_of_cong:
  "set is = set js \<Longrightarrow> (\<And>i. i \<in> set js \<Longrightarrow> ne_expiresAt (rs ! i) = ne_expiresAt (rs' ! i)) \<Longrightarrow>
   latest_of rs is = latest_of rs' js"
  by (simp add: latest_of_Max cong: image_cong)

lemma latest_of_nonneg: "0 \<le> latest_of rs is"
  by (simp add: latest_of_Max)

lemma latest_of_ge: "i \<in> set is \<Longrightarrow> ne_expiresAt (rs ! i) \<le> latest_of rs is"
  by (simp add: latest_of_Max)

lemma latest_of_append: "latest_of rs (is @ [i]) = max (ne_expiresAt (rs ! i)) (latest_of rs is)"
proof -
  have "insert 0 ((\<lambda>i. ne_expiresAt (rs ! i)) ` set (is @ [i])) =
      insert (ne_expiresAt (rs ! i)) (insert 0 ((\<lambda>i. ne_expiresAt (rs ! i)) ` set is))" by auto
  then show ?thesis unfolding latest_of_Max by (metis List.finite_set Max_insert finite_imageI finite_insert insert_not_empty)
qed

text \<open>Changing the expiry of an entry whose old expiry was not the latest, to one that is not later.\<close>

lemma latest_of_less:
  assumes "\<And>j. j \<in> set is \<Longrightarrow> j \<noteq> i \<Longrightarrow> ne_expiresAt (rs' ! j) = ne_expiresAt (rs ! j)"
    and "i \<in> set js \<Longrightarrow> ne_expiresAt (rs' ! i) \<le> latest_of rs is"
    and "i \<in> set is \<Longrightarrow> ne_expiresAt (rs ! i) \<noteq> latest_of rs is \<or> i \<in> set js \<and> ne_expiresAt (rs' ! i) = ne_expiresAt (rs ! i)"
    and "set js - {i} = set is - {i}"
  shows "latest_of rs' js = latest_of rs is"
proof -
  let ?M = "latest_of rs is"
  have in_js: "j \<in> set js \<longleftrightarrow> j \<in> set is" if "j \<noteq> i" for j using assms(4) that by blast
  have le: "ne_expiresAt (rs' ! j) \<le> ?M" if "j \<in> set js" for j
    using that assms(1,2) in_js latest_of_ge [of j "is" rs] by (cases "j = i") auto
  have "?M \<in> insert 0 ((\<lambda>i. ne_expiresAt (rs ! i)) ` set is)" unfolding latest_of_Max by (rule Max_in) auto
  then have att: "?M \<in> insert 0 ((\<lambda>i. ne_expiresAt (rs' ! i)) ` set js)"
  proof
    assume "?M \<in> (\<lambda>i. ne_expiresAt (rs ! i)) ` set is"
    then obtain j where j: "j \<in> set is" "?M = ne_expiresAt (rs ! j)" by auto
    then have "j \<in> set js \<and> ne_expiresAt (rs' ! j) = ne_expiresAt (rs ! j)"
      using assms(1,3) in_js by (cases "j = i") auto
    then show ?thesis using j(2) by (auto intro!: image_eqI [of _ _ j])
  qed simp
  show ?thesis unfolding latest_of_Max [of rs' js]
    by (rule Max_eqI) (use le att latest_of_nonneg in auto)
qed

lemma latest_dns_Some:
  "\<forall>i \<in> set is. i < length (fs_dns s) \<and> ne_used (fs_dns s ! i) \<Longrightarrow> 0 \<le> acc \<Longrightarrow>
   latest_dns s is acc = Some (max acc (latest_of (fs_dns s) is))"
proof (induction "is" arbitrary: acc)
  case (Cons i "is")
  then show ?case by (auto simp: latest_of_def max_def)
qed (simp add: latest_of_def)

lemma dns_ownerD:
  assumes "cache_inv Z V W s" "i < length (fs_dns s)" "ne_used (fs_dns s ! i)"
  obtains di where "di < length (fs_devices s)" "ne_device (fs_dns s ! i) = Some di" "de_used (fs_devices s ! di)"
proof -
  have "pool_owners ne_used ne_device (fs_dns s) (dns_owners (fs_devices s))"
    using assms(1) by (simp add: cache_inv_def pool_inv_def)
  from pool_ownersD [OF this assms(2,3)] show ?thesis using that by auto
qed

lemma dns_listD:
  assumes "cache_inv Z V W s" "di < length (fs_devices s)"
  shows "distinct (de_dns (fs_devices s ! di))"
    "i \<in> set (de_dns (fs_devices s ! di)) \<longleftrightarrow>
       i < length (fs_dns s) \<and> ne_used (fs_dns s ! i) \<and> ne_device (fs_dns s ! i) = Some di \<and> i \<notin> Z"
proof -
  have "pool_lists ne_used ne_device Z (fs_dns s) (dns_owners (fs_devices s))"
    using assms(1) by (simp add: cache_inv_def pool_inv_def)
  note D = pool_listsD [OF this, of di]
  show "distinct (de_dns (fs_devices s ! di))" using D(1) assms(2) by simp
  show "i \<in> set (de_dns (fs_devices s ! di)) \<longleftrightarrow>
     i < length (fs_dns s) \<and> ne_used (fs_dns s ! i) \<and> ne_device (fs_dns s ! i) = Some di \<and> i \<notin> Z"
    using D(2) [of i] assms(2) by simp
qed

lemma link_listD:
  assumes "link_inv X U T s" "di < length (fs_devices s)"
  shows "distinct (de_links (fs_devices s ! di))"
    "i \<in> set (de_links (fs_devices s ! di)) \<longleftrightarrow>
       i < length (fs_links s) \<and> le_used (fs_links s ! i) \<and> le_device (fs_links s ! i) = Some di \<and> i \<notin> X"
proof -
  have "pool_lists le_used le_device X (fs_links s) (link_owners (fs_devices s))"
    using assms(1) by (simp add: link_inv_def pool_inv_def)
  note D = pool_listsD [OF this, of di]
  show "distinct (de_links (fs_devices s ! di))" using D(1) assms(2) by simp
  show "i \<in> set (de_links (fs_devices s ! di)) \<longleftrightarrow>
     i < length (fs_links s) \<and> le_used (fs_links s ! i) \<and> le_device (fs_links s ! i) = Some di \<and> i \<notin> X"
    using D(2) [of i] assms(2) by simp
qed

text \<open>\<open>recomputeDNSExpiry\<close> brings the expiry of a device up to date.\<close>

lemma recomputeDNSExpiry_Some:
  assumes "cache_inv Z V W s" "di < length (fs_devices s)"
  shows "recomputeDNSExpiry di s = Some (s\<lparr>fs_devices := (fs_devices s)[di :=
     (fs_devices s ! di)\<lparr>de_dnsExpiry := latest_of (fs_dns s) (de_dns (fs_devices s ! di))\<rparr>]\<rparr>)"
proof -
  have "latest_dns s (de_dns (fs_devices s ! di)) 0 = Some (latest_of (fs_dns s) (de_dns (fs_devices s ! di)))"
    using latest_dns_Some [of "de_dns (fs_devices s ! di)" s 0] dns_listD(2) [OF assms] latest_of_nonneg by simp
  then show ?thesis using assms(2) by (simp add: recomputeDNSExpiry_def mod_device_def)
qed

lemma expiry_recomputed:
  assumes "cache_inv Z V W s" "di < length (fs_devices s)"
  shows "cache_inv Z V (W - {di}) (s\<lparr>fs_devices := (fs_devices s)[di :=
     (fs_devices s ! di)\<lparr>de_dnsExpiry := latest_of (fs_dns s) (de_dns (fs_devices s ! di))\<rparr>]\<rparr>)"
  using assms by (auto simp: cache_inv_def expiry_ok_def same_owners nth_updated)

section \<open>Removing a record\<close>

definition dns_frame :: "nat \<Rightarrow> fusionState \<Rightarrow> fusionState \<Rightarrow> bool" where
  "dns_frame i s s' =
     (length (fs_dns s') = length (fs_dns s) \<and>
      (\<forall>j < length (fs_dns s). j \<noteq> i \<longrightarrow> wheel_node.more (fs_dns s' ! j) = wheel_node.more (fs_dns s ! j) \<and>
         wheelSlot (fs_dns s' ! j) = wheelSlot (fs_dns s ! j) \<and>
         wheelRound (fs_dns s' ! j) = wheelRound (fs_dns s ! j)))"

definition dns_removed :: "nat \<Rightarrow> fusionState \<Rightarrow> fusionState \<Rightarrow> bool" where
  "dns_removed i s s' =
     (conf s' = conf s \<and> link_core s' = link_core s \<and> device_core s' = device_core s \<and> dns_frame i s s' \<and>
      \<not> ne_used (fs_dns s' ! i) \<and> fs_freeDNS s' = fs_freeDNS s @ [i] \<and>
      (\<forall>f. wheel_inv (fs_dns s, fs_dnsHeads s) f \<longrightarrow> wheel_inv (fs_dns s', fs_dnsHeads s') (unlisted f i)) \<and>
      (\<forall>dj < length (fs_devices s). de_dns (fs_devices s' ! dj) =
         (if ne_device (fs_dns s ! i) = Some dj then swap_remove i (de_dns (fs_devices s ! dj))
          else de_dns (fs_devices s ! dj))) \<and>
      (steady s \<longrightarrow> steady s'))"

lemma dns_tagsI:
  "(\<And>i. i < length rs \<Longrightarrow> ne_used (rs ! i) \<Longrightarrow> ne_device (rs ! i) = Some (dnk_device (ne_key (rs ! i)))) \<Longrightarrow> dns_tags rs"
  by (simp add: dns_tags_def)

lemma removeDNS_runs:
  assumes inv: "cache_inv Z V W s" and i: "i < length (fs_dns s)" "ne_used (fs_dns s ! i)"
  shows "runs (removeDNS i s) (\<lambda>s'. cache_inv (Z - {i}) (V - {i}) W s' \<and> dns_removed i s s')"
proof -
  obtain di where di: "di < length (fs_devices s)" "ne_device (fs_dns s ! i) = Some di" "de_used (fs_devices s ! di)"
    using dns_ownerD [OF inv i] .
  let ?e = "fs_dns s ! i" and ?d = "fs_devices s ! di"
  have p: "pool_inv ne_used ne_device ne_key Z V (fs_dns s) (fs_dnsHeads s) (fs_freeDNS s) (fs_dnsByKey s)
     (dns_owners (fs_devices s))" and t: "dns_tags (fs_dns s)" and x: "expiry_ok W (fs_dns s) (fs_devices s)"
    using inv by (simp_all add: cache_inv_def)
  from runs_exD [OF dns_pool.unscheduled [OF p i]] obtain rs heads where
    u: "unschedule (fs_dns s, fs_dnsHeads s) i = Some (rs, heads)"
    and P: "pool_inv ne_used ne_device ne_key Z (insert i V) rs heads (fs_freeDNS s) (fs_dnsByKey s) (dns_owners (fs_devices s))"
    and fr: "wheel_frame i (fs_dns s, fs_dnsHeads s) (rs, heads)" and slot: "wheelSlot (rs ! i) = None" by auto
  have len: "length rs = length (fs_dns s)" using fr by (rule wheel_frame_length)
  have more: "wheel_node.more (rs ! j) = wheel_node.more (fs_dns s ! j)" if "j < length rs" for j
    using wheel_frame_more [OF fr] that len by simp
  have ei: "ne_used (rs ! i) = ne_used ?e \<and> ne_key (rs ! i) = ne_key ?e \<and> ne_device (rs ! i) = ne_device ?e"
    using dns_more [OF more] i len by simp
  define e' where "e' = (rs ! i)\<lparr>ne_used := False, ne_device := None, ne_expiresAt := 0, ne_key := zero_dnsKey\<rparr>"
  define d' where "d' = ?d\<lparr>de_dns := swap_remove i (de_dns ?d)\<rparr>"
  define s1 where "s1 = s\<lparr>fs_dnsHeads := heads, fs_dnsByKey := (fs_dnsByKey s)(ne_key ?e := None),
     fs_devices := (fs_devices s)[di := d'], fs_dns := rs[i := e'], fs_freeDNS := fs_freeDNS s @ [i]\<rparr>"
  have place: "same_place e' (rs ! i)" by (simp add: e'_def same_place_def slot)
  have own: "dns_owners (fs_devices s) ! di = (de_used ?d, de_dns ?d)" using di(1) by simp
  have pool: "pool_inv ne_used ne_device ne_key (Z - {i}) (V - {i}) (fs_dns s1) (fs_dnsHeads s1) (fs_freeDNS s1)
     (fs_dnsByKey s1) (dns_owners (fs_devices s1))"
    using dns_pool.released [OF P _ _ slot _ own _ place] i len ei di
    by (simp add: s1_def owners_update e'_def d'_def)
  have old: "ne_used (rs ! j) = ne_used (fs_dns s ! j)" "ne_key (rs ! j) = ne_key (fs_dns s ! j)"
    "ne_device (rs ! j) = ne_device (fs_dns s ! j)" "ne_expiresAt (rs ! j) = ne_expiresAt (fs_dns s ! j)"
    if "j < length (fs_dns s)" for j
    using dns_more [OF more] that len by simp_all
  have tags: "dns_tags (fs_dns s1)"
  proof (rule dns_tagsI)
    fix j
    assume "j < length (fs_dns s1)" "ne_used (fs_dns s1 ! j)"
    then show "ne_device (fs_dns s1 ! j) = Some (dnk_device (ne_key (fs_dns s1 ! j)))"
      using t i len old [of j] by (cases "j = i") (auto simp: s1_def e'_def dns_tags_def)
  qed
  have sr: "set (swap_remove i (de_dns ?d)) = set (de_dns ?d) - {i}"
    using swap_remove_set [OF dns_listD(1) [OF inv di(1)]] by blast
  have lat: "latest_of (fs_dns s1) (de_dns (fs_devices s1 ! dj)) = latest_of (fs_dns s) (de_dns (fs_devices s ! dj))"
    if "dj < length (fs_devices s)" "dj = di \<Longrightarrow> ne_expiresAt ?e \<noteq> latest_of (fs_dns s) (de_dns ?d)" for dj
  proof (rule latest_of_less [where i = i])
    have set: "set (de_dns (fs_devices s1 ! dj)) = (if dj = di then set (de_dns ?d) - {i} else set (de_dns (fs_devices s ! dj)))"
      using sr that(1) di(1) by (simp add: s1_def d'_def nth_updated)
    have ni: "i \<in> set (de_dns (fs_devices s ! dj)) \<Longrightarrow> dj = di"
      using dns_listD(2) [OF inv that(1), of i] di(2) by auto
    show "ne_expiresAt (fs_dns s1 ! j) = ne_expiresAt (fs_dns s ! j)" if "j \<in> set (de_dns (fs_devices s ! dj))" "j \<noteq> i" for j
      using that old [of j] len dns_listD(2) [OF inv \<open>dj < _\<close>, of j] by (auto simp: s1_def)
    show "ne_expiresAt (fs_dns s1 ! i) \<le> latest_of (fs_dns s) (de_dns (fs_devices s ! dj))"
      if "i \<in> set (de_dns (fs_devices s1 ! dj))" using that ni by (simp add: set split: if_splits)
    show "ne_expiresAt (fs_dns s ! i) \<noteq> latest_of (fs_dns s) (de_dns (fs_devices s ! dj)) \<or>
      i \<in> set (de_dns (fs_devices s1 ! dj)) \<and> ne_expiresAt (fs_dns s1 ! i) = ne_expiresAt (fs_dns s ! i)"
      if "i \<in> set (de_dns (fs_devices s ! dj))" using ni [OF that] \<open>dj = di \<Longrightarrow> _\<close> by simp
    show "set (de_dns (fs_devices s1 ! dj)) - {i} = set (de_dns (fs_devices s ! dj)) - {i}"
      using ni by (auto simp: set)
  qed
  have exp: "expiry_ok (W \<union> (if ne_expiresAt ?e = de_dnsExpiry ?d then {di} else {})) (fs_dns s1) (fs_devices s1)"
    unfolding expiry_ok_def
  proof (intro allI impI)
    fix dj
    assume dj: "dj < length (fs_devices s1)" "de_used (fs_devices s1 ! dj)"
      "dj \<notin> W \<union> (if ne_expiresAt ?e = de_dnsExpiry ?d then {di} else {})"
    then have o: "dj < length (fs_devices s)" "de_used (fs_devices s ! dj)" "dj \<notin> W"
      "de_dnsExpiry (fs_devices s1 ! dj) = de_dnsExpiry (fs_devices s ! dj)"
      by (auto simp: s1_def d'_def nth_updated split: if_splits)
    then have e: "de_dnsExpiry (fs_devices s ! dj) = latest_of (fs_dns s) (de_dns (fs_devices s ! dj))"
      using x by (simp add: expiry_ok_def)
    have "ne_expiresAt ?e \<noteq> latest_of (fs_dns s) (de_dns ?d)" if "dj = di"
      using that e dj(3) by (auto split: if_splits)
    from lat [OF o(1) this] e o(4) show "de_dnsExpiry (fs_devices s1 ! dj) = latest_of (fs_dns s1) (de_dns (fs_devices s1 ! dj))"
      by simp
  qed
  have inv1: "cache_inv (Z - {i}) (V - {i}) (W \<union> (if ne_expiresAt ?e = de_dnsExpiry ?d then {di} else {})) s1"
    using pool tags exp by (simp add: cache_inv_def)
  define s2 where "s2 = s1\<lparr>fs_devices := (fs_devices s1)[di :=
     (fs_devices s1 ! di)\<lparr>de_dnsExpiry := latest_of (fs_dns s1) (de_dns (fs_devices s1 ! di))\<rparr>]\<rparr>"
  define s' where "s' = (if ne_expiresAt ?e = de_dnsExpiry ?d then s2 else s1)"
  have dl: "di < length (fs_devices s1)" using di(1) by (simp add: s1_def)
  have "cache_inv (Z - {i}) (V - {i}) (W \<union> {di} - {di}) s2" if "ne_expiresAt ?e = de_dnsExpiry ?d"
    using expiry_recomputed [OF inv1 dl] that by (simp add: s2_def)
  then have "cache_inv (Z - {i}) (V - {i}) W s2" if "ne_expiresAt ?e = de_dnsExpiry ?d"
    using that by (auto simp: cache_inv_def expiry_ok_def)
  then have post: "cache_inv (Z - {i}) (V - {i}) W s'"
    using inv1 by (cases "ne_expiresAt ?e = de_dnsExpiry ?d") (simp_all add: s'_def)
  have u1: "removeDNS i s = (if ne_expiresAt ?e = de_dnsExpiry ?d then recomputeDNSExpiry di s1 else Some s1)"
    using i di u len
    by (simp add: removeDNS_def unscheduleDNS_def mod_device_def mod_dns_def e'_def d'_def s1_def)
  then have run: "removeDNS i s = Some s'"
    using recomputeDNSExpiry_Some [OF inv1 dl] by (simp add: s'_def s2_def)
  have rest: "fs_dns s' = fs_dns s1 \<and> fs_dnsHeads s' = fs_dnsHeads s1 \<and> fs_freeDNS s' = fs_freeDNS s1 \<and>
     map de_dns (fs_devices s') = map de_dns (fs_devices s1) \<and> conf s' = conf s1 \<and> link_core s' = link_core s1 \<and>
     device_core s' = device_core s1 \<and> (steady s1 \<longrightarrow> steady s')"
    using dl by (auto simp: s'_def s2_def cores map_update steady_def intro!: list_update_same_conv [THEN iffD2]
      dest!: set_update_subset_insert [THEN subsetD])
  have frame: "dns_frame i s s1"
    using fr more len by (auto simp: dns_frame_def s1_def wheel_frame_def)
  have wheel: "wheel_inv (fs_dns s1, fs_dnsHeads s1) (unlisted g i)" if "wheel_inv (fs_dns s, fs_dnsHeads s) g" for g
  proof -
    have "wheel_inv (rs, heads) (unlisted g i)"
      using runs_SomeD [OF unschedule_runs [OF that i(1)] u] by simp
    then show ?thesis using wheel_inv_update [OF _ place] by (simp add: s1_def)
  qed
  have st: "steady s1" if "steady s"
    using that di(1) fr by (auto simp: steady_def s1_def d'_def wheel_frame_def dest!: set_update_subset_insert [THEN subsetD])
  have c1: "conf s1 = conf s" "link_core s1 = link_core s" "device_core s1 = device_core s"
    using fr di(1) len by (auto simp: cores s1_def d'_def wheel_frame_def map_update intro!: list_update_same_conv [THEN iffD2])
  have dl1: "map de_dns (fs_devices s1) = (map de_dns (fs_devices s))[di := swap_remove i (de_dns ?d)]"
    by (simp add: s1_def d'_def map_update)
  have lists: "de_dns (fs_devices s' ! dj) = (if ne_device ?e = Some dj then swap_remove i (de_dns (fs_devices s ! dj))
      else de_dns (fs_devices s ! dj))" if "dj < length (fs_devices s)" for dj
  proof -
    have "length (fs_devices s') = length (fs_devices s)"
      using rest dl1 by (metis length_list_update length_map)
    then have "de_dns (fs_devices s' ! dj) = map de_dns (fs_devices s') ! dj" using that by simp
    then show ?thesis using rest dl1 di that by (auto simp: nth_updated)
  qed
  have "\<not> ne_used (fs_dns s1 ! i)" "fs_freeDNS s1 = fs_freeDNS s @ [i]"
    using i len by (simp_all add: s1_def e'_def)
  then have "dns_removed i s s'"
    using rest frame wheel st c1 lists by (auto simp: dns_removed_def dns_frame_def)
  then show ?thesis using post by (simp add: run wp)
qed

section \<open>Devices come and go\<close>

lemma device_invD:
  assumes "device_inv Y s"
  shows "pool_free de_used Y (fs_devices s) (fs_freeDevices s)"
    "fs_deviceByKey s k = Some di \<longleftrightarrow>
       di < length (fs_devices s) \<and> de_used (fs_devices s ! di) \<and> dev_Key (de_device (fs_devices s ! di)) = k"
  using assms by (simp_all add: device_inv_def)

lemma unused_device:
  assumes "link_inv X U T s" "cache_inv Z V W s" "di < length (fs_devices s)" "\<not> de_used (fs_devices s ! di)"
  shows "de_links (fs_devices s ! di) = []" "de_dns (fs_devices s ! di) = []"
proof -
  have "i \<notin> set (de_links (fs_devices s ! di))" for i
    using link_listD(2) [OF assms(1,3), of i] link_ownerD [OF assms(1), of i] assms(4) by (metis option.inject)
  then show "de_links (fs_devices s ! di) = []" by (metis all_not_in_conv set_empty)
  have "i \<notin> set (de_dns (fs_devices s ! di))" for i
    using dns_listD(2) [OF assms(2,3), of i] dns_ownerD [OF assms(2), of i] assms(4) by (metis option.inject)
  then show "de_dns (fs_devices s ! di) = []" by (metis all_not_in_conv set_empty)
qed

text \<open>
  Replacing a device without links and records, whatever its flag was and will be, keeps the two pools.
\<close>

lemma bare_device_pools:
  assumes l: "link_inv {} U {} s" and n: "cache_inv {} V W s" and di: "di < length (fs_devices s)"
    and e: "de_links (fs_devices s ! di) = []" "de_dns (fs_devices s ! di) = []"
    and d: "de_links d = []" "de_dns d = []" "de_used d \<Longrightarrow> de_dnsExpiry d = 0"
    and s': "fs_links s' = fs_links s" "fs_linkHeads s' = fs_linkHeads s" "fs_freeLinks s' = fs_freeLinks s"
      "fs_linkByKey s' = fs_linkByKey s" "fs_dns s' = fs_dns s" "fs_dnsHeads s' = fs_dnsHeads s" "fs_freeDNS s' = fs_freeDNS s"
      "fs_dnsByKey s' = fs_dnsByKey s" "fs_devices s' = (fs_devices s)[di := d]"
  shows "link_inv {} U {} s'" "cache_inv {} V (W - {di}) s'"
proof -
  have lo: "link_owners (fs_devices s') = (link_owners (fs_devices s))[di := (de_used d, [])]"
    and no: "dns_owners (fs_devices s') = (dns_owners (fs_devices s))[di := (de_used d, [])]"
    using d by (simp_all add: s' owners_update)
  have 1: "pool_inv le_used le_device link_key {} U (fs_links s) (fs_linkHeads s) (fs_freeLinks s) (fs_linkByKey s)
     (link_owners (fs_devices s'))"
    unfolding lo by (rule link_pool.flagged) (use l di e in \<open>simp_all add: link_inv_def\<close>)
  have 2: "pool_inv ne_used ne_device ne_key {} V (fs_dns s) (fs_dnsHeads s) (fs_freeDNS s) (fs_dnsByKey s)
     (dns_owners (fs_devices s'))"
    unfolding no by (rule dns_pool.flagged) (use n di e in \<open>simp_all add: cache_inv_def\<close>)
  have "link_tags {} (fs_links s) (fs_devices s')"
    unfolding link_tags_def
  proof (intro allI impI)
    fix j dj
    assume j: "j < length (fs_links s)" "le_used (fs_links s ! j)" "le_device (fs_links s ! j) = Some dj"
    then have dj: "dj < length (fs_devices s)" using link_ownerD [OF l j(1,2)] by auto
    then have "dj \<noteq> di" using link_listD(2) [OF l dj, of j] j e(1) by auto
    then show "link_Device (le_link (fs_links s ! j)) = dev_Key (de_device (fs_devices s' ! dj)) \<and>
      lk_Device (link_key (fs_links s ! j)) = dev_Key (de_device (fs_devices s' ! dj))"
      using l j dj by (auto simp: link_inv_def link_tags_def s')
  qed
  then show "link_inv {} U {} s'" using 1 by (simp add: link_inv_def s')
  have "expiry_ok (W - {di}) (fs_dns s) (fs_devices s')"
    using n d di by (auto simp: cache_inv_def expiry_ok_def s' nth_updated latest_of_def)
  then show "cache_inv {} V (W - {di}) s'" using 2 n by (simp add: cache_inv_def s')
qed

lemma device_retired:
  assumes v: "device_inv Y s" and di: "di < length (fs_devices s)" "de_used (fs_devices s ! di)"
    and d: "\<not> de_used d"
    and s': "fs_devices s' = (fs_devices s)[di := d]" "fs_freeDevices s' = fs_freeDevices s @ [di]"
      "fs_deviceByKey s' = (fs_deviceByKey s)(dev_Key (de_device (fs_devices s ! di)) := None)"
  shows "device_inv (Y - {di}) s'"
  unfolding device_inv_def
proof (intro conjI allI)
  note D = device_invD [OF v]
  show "pool_free de_used (Y - {di}) (fs_devices s') (fs_freeDevices s')"
  proof (rule pool_freeI)
    show "distinct (fs_freeDevices s')"
      using D(1) di pool_freeD [OF D(1), of di] by (simp add: s' pool_free_def)
    show "j \<in> set (fs_freeDevices s') \<longleftrightarrow> j < length (fs_devices s') \<and> \<not> de_used (fs_devices s' ! j) \<and> j \<notin> Y - {di}" for j
      using di d pool_freeD [OF D(1), of j] by (cases "j = di") (auto simp: s')
  qed
  fix k dj
  show "fs_deviceByKey s' k = Some dj \<longleftrightarrow>
    dj < length (fs_devices s') \<and> de_used (fs_devices s' ! dj) \<and> dev_Key (de_device (fs_devices s' ! dj)) = k"
  proof (cases "dj = di")
    case True
    then show ?thesis using D(2) [of k di] di d by (auto simp: s')
  next
    case False
    have "\<not> (dj < length (fs_devices s) \<and> de_used (fs_devices s ! dj) \<and>
        dev_Key (de_device (fs_devices s ! dj)) = dev_Key (de_device (fs_devices s ! di)))"
      using D(2) [of "dev_Key (de_device (fs_devices s ! di))" dj] D(2) [of "dev_Key (de_device (fs_devices s ! di))" di] di False by auto
    then show ?thesis using D(2) [of k dj] False by (auto simp: s')
  qed
qed

lemma device_born:
  assumes v: "device_inv Y s" and di: "di < length (fs_devices s)" "\<not> de_used (fs_devices s ! di)" "di \<in> Y"
    and k: "fs_deviceByKey s (dev_Key (de_device d)) = None" and d: "de_used d"
    and s': "fs_devices s' = (fs_devices s)[di := d]" "fs_freeDevices s' = fs_freeDevices s"
      "fs_deviceByKey s' = (fs_deviceByKey s)(dev_Key (de_device d) \<mapsto> di)"
  shows "device_inv (Y - {di}) s'"
  unfolding device_inv_def
proof (intro conjI allI)
  note D = device_invD [OF v]
  show "pool_free de_used (Y - {di}) (fs_devices s') (fs_freeDevices s')"
  proof (rule pool_freeI)
    show "distinct (fs_freeDevices s')" using D(1) by (simp add: s' pool_free_def)
    show "j \<in> set (fs_freeDevices s') \<longleftrightarrow> j < length (fs_devices s') \<and> \<not> de_used (fs_devices s' ! j) \<and> j \<notin> Y - {di}" for j
      using di d pool_freeD [OF D(1), of j] by (cases "j = di") (auto simp: s')
  qed
  fix k' dj
  show "fs_deviceByKey s' k' = Some dj \<longleftrightarrow>
    dj < length (fs_devices s') \<and> de_used (fs_devices s' ! dj) \<and> dev_Key (de_device (fs_devices s' ! dj)) = k'"
    using D(2) [of k' dj] D(2) [of "dev_Key (de_device d)" dj] di d k by (cases "dj = di") (auto simp: s')
qed

section \<open>Emptying a device\<close>

definition links_only :: "fusionState \<Rightarrow> fusionState \<Rightarrow> bool" where
  "links_only s s' =
     (conf s' = conf s \<and> dns_core s' = dns_core s \<and> device_core s' = device_core s \<and>
      length (fs_links s') = length (fs_links s) \<and> (steady s \<longrightarrow> steady s'))"

definition dns_only :: "fusionState \<Rightarrow> fusionState \<Rightarrow> bool" where
  "dns_only s s' =
     (conf s' = conf s \<and> link_core s' = link_core s \<and> device_core s' = device_core s \<and>
      length (fs_dns s') = length (fs_dns s) \<and> (steady s \<longrightarrow> steady s'))"

lemma only_trans:
  "links_only s t \<Longrightarrow> links_only t u \<Longrightarrow> links_only s u" "dns_only s t \<Longrightarrow> dns_only t u \<Longrightarrow> dns_only s u"
  by (simp_all add: links_only_def dns_only_def)

lemma only_refl [simp]: "links_only s s" "dns_only s s"
  by (simp_all add: links_only_def dns_only_def)

lemma removed_only: "link_removed i s t \<Longrightarrow> links_only s t" "dns_removed i s t \<Longrightarrow> dns_only s t"
  by (simp_all add: links_only_def dns_only_def link_removed_def dns_removed_def links_frame_def dns_frame_def)

lemma only_devices:
  "links_only s t \<Longrightarrow> length (fs_devices t) = length (fs_devices s) \<and>
     (\<forall>i < length (fs_devices s). de_used (fs_devices t ! i) = de_used (fs_devices s ! i) \<and>
        de_device (fs_devices t ! i) = de_device (fs_devices s ! i) \<and> de_dns (fs_devices t ! i) = de_dns (fs_devices s ! i) \<and>
        de_dnsExpiry (fs_devices t ! i) = de_dnsExpiry (fs_devices s ! i))"
  "dns_only s t \<Longrightarrow> length (fs_devices t) = length (fs_devices s) \<and>
     (\<forall>i < length (fs_devices s). de_used (fs_devices t ! i) = de_used (fs_devices s ! i) \<and>
        de_device (fs_devices t ! i) = de_device (fs_devices s ! i) \<and> de_links (fs_devices t ! i) = de_links (fs_devices s ! i))"
  by (auto simp: links_only_def dns_only_def cores dest!: map_eqD)

lemma drain_links_runs:
  "link_inv {} {} {} s \<Longrightarrow> i < length (fs_devices s) \<Longrightarrow>
   runs (drain_links i kind (s, events)) (\<lambda>(s', events'). link_inv {} {} {} s' \<and> links_only s s' \<and>
     de_links (fs_devices s' ! i) = [] \<and> (\<exists>es. events' = events @ es \<and> (\<forall>e \<in> set es. dead kind e)))"
proof (induction "card (set (de_links (fs_devices s ! i)))" arbitrary: s events rule: less_induct)
  case less
  show ?case
  proof (cases "de_links (fs_devices s ! i) = []")
    case True
    then show ?thesis using less.prems by (subst drain_links.simps) (simp add: wp)
  next
    case False
    let ?li = "last (de_links (fs_devices s ! i))"
    have m: "?li \<in> set (de_links (fs_devices s ! i))" using False by simp
    have li: "?li < length (fs_links s)" "le_used (fs_links s ! ?li)" "le_device (fs_links s ! ?li) = Some i"
      using link_listD(2) [OF less.prems, of ?li] m by simp_all
    from runs_exD [OF removeLink_runs [OF less.prems(1) li(1,2), of kind events]] obtain t ev e where
      run: "removeLink ?li kind (s, events) = Some (t, ev)" and t: "link_inv {} {} {} t" "link_removed ?li s t"
      "ev = events @ [e]" "dead kind e" by auto
    have it: "i < length (fs_devices t)" using only_devices(1) [OF removed_only(1) [OF t(2)]] less.prems(2) by simp
    have "de_links (fs_devices t ! i) = swap_remove ?li (de_links (fs_devices s ! i))"
      using t(2) less.prems(2) li(3) by (simp add: link_removed_def)
    then have "set (de_links (fs_devices t ! i)) = set (de_links (fs_devices s ! i)) - {?li}"
      using swap_remove_set [OF link_listD(1) [OF less.prems]] by simp
    then have "card (set (de_links (fs_devices t ! i))) < card (set (de_links (fs_devices s ! i)))"
      using m by (metis List.finite_set card_Diff1_less)
    from less.hyps [OF this t(1) it, of ev] show ?thesis
      using less.prems False run t(3,4) only_trans(1) [OF removed_only(1) [OF t(2)]]
      by (subst drain_links.simps) (auto simp: wp elim!: runs_mono)
  qed
qed

lemma drain_dns_runs:
  "cache_inv {} {} W s \<Longrightarrow> i < length (fs_devices s) \<Longrightarrow>
   runs (drain_dns i s) (\<lambda>s'. cache_inv {} {} W s' \<and> dns_only s s' \<and> de_dns (fs_devices s' ! i) = [])"
proof (induction "card (set (de_dns (fs_devices s ! i)))" arbitrary: s rule: less_induct)
  case less
  show ?case
  proof (cases "de_dns (fs_devices s ! i) = []")
    case True
    then show ?thesis using less.prems by (subst drain_dns.simps) (simp add: wp)
  next
    case False
    let ?li = "last (de_dns (fs_devices s ! i))"
    have m: "?li \<in> set (de_dns (fs_devices s ! i))" using False by simp
    have li: "?li < length (fs_dns s)" "ne_used (fs_dns s ! ?li)" "ne_device (fs_dns s ! ?li) = Some i"
      using dns_listD(2) [OF less.prems, of ?li] m by simp_all
    from runs_exD [OF removeDNS_runs [OF less.prems(1) li(1,2)]] obtain t where
      run: "removeDNS ?li s = Some t" and t: "cache_inv {} {} W t" "dns_removed ?li s t" by auto
    have it: "i < length (fs_devices t)" using only_devices(2) [OF removed_only(2) [OF t(2)]] less.prems(2) by simp
    have "de_dns (fs_devices t ! i) = swap_remove ?li (de_dns (fs_devices s ! i))"
      using t(2) less.prems(2) li(3) by (simp add: dns_removed_def)
    then have "set (de_dns (fs_devices t ! i)) = set (de_dns (fs_devices s ! i)) - {?li}"
      using swap_remove_set [OF dns_listD(1) [OF less.prems]] by simp
    then have "card (set (de_dns (fs_devices t ! i))) < card (set (de_dns (fs_devices s ! i)))"
      using m by (metis List.finite_set card_Diff1_less)
    from less.hyps [OF this t(1) it] show ?thesis
      using less.prems False run only_trans(2) [OF removed_only(2) [OF t(2)]]
      by (subst drain_dns.simps) (auto simp: wp elim!: runs_mono)
  qed
qed

section \<open>Removing and allocating devices\<close>

lemma fusion_invI:
  "steady s \<Longrightarrow> device_inv {} s \<Longrightarrow> link_inv {} {} {} s \<Longrightarrow> cache_inv {} {} {} s \<Longrightarrow> fusion_inv s"
  by (simp add: fusion_inv_def)

lemma fusion_invD:
  assumes "fusion_inv s"
  shows "steady s" "device_inv {} s" "link_inv {} {} {} s" "cache_inv {} {} {} s"
  using assms by (simp_all add: fusion_inv_def)

lemma steadyD:
  assumes "steady s"
  shows "1 \<le> cfg_MaxAlternatives (fs_cfg s)" "cfg_MaxAlternatives (fs_cfg s) \<le> 255" "classifier_total (fs_classifier s)"
    "fs_wheelCursor s < length (fs_linkHeads s)" "length (fs_dnsHeads s) = length (fs_linkHeads s)"
    "i < length (fs_devices s) \<Longrightarrow> device_ok (cfg_MaxAlternatives (fs_cfg s)) (de_device (fs_devices s ! i))"
    "i < length (fs_links s) \<Longrightarrow> link_ok (cfg_MaxAlternatives (fs_cfg s)) (fs_links s ! i)"
  using assms by (simp_all add: steady_def)

lemma steadyI:
  assumes "steady s" "conf s' = conf s" "length (fs_dnsHeads s') = length (fs_linkHeads s')"
    "\<And>i. i < length (fs_devices s) \<Longrightarrow> device_ok (cfg_MaxAlternatives (fs_cfg s)) (de_device (fs_devices s' ! i))"
    "\<And>i. i < length (fs_links s) \<Longrightarrow> link_ok (cfg_MaxAlternatives (fs_cfg s)) (fs_links s' ! i)"
  shows "steady s'"
  using assms by (auto simp: steady_def conf_def in_set_conv_nth)

lemma device_ok_reset [simp]: "device_ok m (Device_Reset d)"
  by (simp add: device_ok_def Device_Reset_def)

lemma device_removed_inv:
  assumes "steady s" "device_inv Y s" "link_inv {} U {} s" "cache_inv {} V W s"
    and di: "di < length (fs_devices s)" "de_used (fs_devices s ! di)"
      "de_links (fs_devices s ! di) = []" "de_dns (fs_devices s ! di) = []"
    and d: "\<not> de_used d" "de_links d = []" "de_dns d = []" "device_ok (cfg_MaxAlternatives (fs_cfg s)) (de_device d)"
    and s': "s' = s\<lparr>fs_deviceByKey := (fs_deviceByKey s)(dev_Key (de_device (fs_devices s ! di)) := None),
      fs_devices := (fs_devices s)[di := d], fs_freeDevices := fs_freeDevices s @ [di]\<rparr>"
  shows "steady s'" "device_inv (Y - {di}) s'" "link_inv {} U {} s'" "cache_inv {} V (W - {di}) s'"
proof -
  show "steady s'"
    by (rule steadyI [OF assms(1)]) (use steadyD [OF assms(1)] d(4) in \<open>auto simp: s' conf_def nth_updated\<close>)
  show "device_inv (Y - {di}) s'" by (rule device_retired [OF assms(2) di(1,2) d(1)]) (simp_all add: s')
  show "link_inv {} U {} s'" "cache_inv {} V (W - {di}) s'"
    by (rule bare_device_pools [OF assms(3,4) di(1,3,4) d(2,3)]; simp add: s' d(1))+
qed

text \<open>Only entries of the device and its key disappear.\<close>

definition only_forgets :: "fusionState \<Rightarrow> fusionState \<Rightarrow> bool" where
  "only_forgets s s' = (conf s' = conf s \<and> (\<forall>k. fs_deviceByKey s k = None \<longrightarrow> fs_deviceByKey s' k = None))"

lemma only_forgets_trans: "only_forgets s t \<Longrightarrow> only_forgets t u \<Longrightarrow> only_forgets s u"
  by (simp add: only_forgets_def)

lemma removeDevice_runs:
  assumes inv: "fusion_inv s" and i: "i < length (fs_devices s)" "de_used (fs_devices s ! i)"
  shows "runs (removeDevice i kind (s, events)) (\<lambda>(s', events'). fusion_inv s' \<and> only_forgets s s' \<and>
    fs_freeDevices s' = fs_freeDevices s @ [i] \<and>
    (\<exists>es. events' = events @ es \<and> (\<forall>e \<in> set es. dead kind e)))"
proof -
  note I = fusion_invD [OF inv]
  from runs_exD [OF drain_links_runs [OF I(3) i(1), of kind events]] obtain t es where
    t: "drain_links i kind (s, events) = Some (t, events @ es)" "link_inv {} {} {} t" "links_only s t"
      "de_links (fs_devices t ! i) = []" "\<forall>e \<in> set es. dead kind e" by auto
  have T: "length (fs_devices t) = length (fs_devices s)" "de_used (fs_devices t ! i)"
    using only_devices(1) [OF t(3)] i by auto
  have tn: "cache_inv {} {} {} t" "device_inv {} t" "steady t"
    using I t(3) cache_inv_cong [of t s] device_inv_cong [of t s] by (simp_all add: links_only_def)
  have it: "i < length (fs_devices t)" using T i by simp
  from runs_exD [OF drain_dns_runs [OF tn(1) it]] obtain u where
    u: "drain_dns i t = Some u" "cache_inv {} {} {} u" "dns_only t u" "de_dns (fs_devices u ! i) = []" by auto
  have un: "link_inv {} {} {} u" "device_inv {} u" "steady u"
    using t(2) tn u(3) link_inv_cong [of u t] device_inv_cong [of u t] by (simp_all add: dns_only_def)
  have U: "i < length (fs_devices u)" "de_used (fs_devices u ! i)" "de_links (fs_devices u ! i) = []"
    using only_devices(2) [OF u(3)] it T t(4) by auto
  let ?d = "(fs_devices u ! i)\<lparr>de_used := False, de_links := [], de_dns := [], de_device := Device_Reset (de_device (fs_devices u ! i))\<rparr>"
  define s' where "s' = u\<lparr>fs_deviceByKey := (fs_deviceByKey u)(dev_Key (de_device (fs_devices u ! i)) := None),
      fs_devices := (fs_devices u)[i := ?d], fs_freeDevices := fs_freeDevices u @ [i]\<rparr>"
  have run: "removeDevice i kind (s, events) = Some (s', events @ es)"
    using i t(1) u(1) U by (simp add: removeDevice_def mod_device_def s'_def)
  have "steady s'" "device_inv ({} - {i}) s'" "link_inv {} {} {} s'" "cache_inv {} {} ({} - {i}) s'"
    by (rule device_removed_inv [OF un(3,2,1) u(2) U u(4) _ _ _ _ s'_def]; simp)+
  then have "fusion_inv s'" by (simp add: fusion_inv_def)
  moreover have "only_forgets s s'" "fs_freeDevices s' = fs_freeDevices s @ [i]"
    using t(3) u(3) by (simp_all add: only_forgets_def links_only_def dns_only_def cores s'_def)
  ultimately show ?thesis using t(5) by (simp add: run wp)
qed

lemma dropDevice_runs:
  assumes inv: "fusion_inv s" and i: "i < length (fs_devices s)" "de_used (fs_devices s ! i)"
    "de_links (fs_devices s ! i) = []" "de_dns (fs_devices s ! i) = []"
  shows "runs (dropDevice i s) (\<lambda>s'. fusion_inv s' \<and> only_forgets s s' \<and> fs_freeDevices s' = fs_freeDevices s @ [i] \<and>
    fs_links s' = fs_links s \<and> fs_linkHeads s' = fs_linkHeads s \<and> fs_dns s' = fs_dns s \<and> fs_dnsHeads s' = fs_dnsHeads s)"
proof -
  note I = fusion_invD [OF inv]
  let ?d = "(fs_devices s ! i)\<lparr>de_used := False, de_device := Device_Reset (de_device (fs_devices s ! i)),
     de_links := [], de_dns := [], de_dnsExpiry := 0\<rparr>"
  define s' where "s' = s\<lparr>fs_deviceByKey := (fs_deviceByKey s)(dev_Key (de_device (fs_devices s ! i)) := None),
      fs_devices := (fs_devices s)[i := ?d], fs_freeDevices := fs_freeDevices s @ [i]\<rparr>"
  have run: "dropDevice i s = Some s'" using i by (simp add: dropDevice_def mod_device_def s'_def)
  have "steady s'" "device_inv ({} - {i}) s'" "link_inv {} {} {} s'" "cache_inv {} {} ({} - {i}) s'"
    by (rule device_removed_inv [OF I i _ _ _ _ s'_def]; simp)+
  then have "fusion_inv s'" by (simp add: fusion_inv_def)
  moreover have "only_forgets s s'" by (simp add: only_forgets_def cores s'_def)
  ultimately show ?thesis by (simp add: run wp s'_def)
qed

text \<open>The entry to evict: used, and none is older.\<close>

lemma oldest_loop_runs:
  "\<forall>i \<in> set is. i < length xs \<Longrightarrow> \<forall>j. o' = Some j \<longrightarrow> j < length xs \<and> used (xs ! j) \<Longrightarrow>
   runs (oldest_loop used time xs is o') (\<lambda>r.
     case r of
       None \<Rightarrow> o' = None \<and> (\<forall>i \<in> set is. \<not> used (xs ! i))
     | Some k \<Rightarrow> k < length xs \<and> used (xs ! k) \<and>
         (\<forall>i \<in> set is \<union> set_option o'. used (xs ! i) \<longrightarrow> time (xs ! k) \<le> time (xs ! i)))"
proof (induction "is" arbitrary: o')
  case Nil
  then show ?case by (cases o') (auto simp: wp)
next
  case (Cons i "is")
  define b where "b = (used (xs ! i) \<and> (\<forall>j. o' = Some j \<longrightarrow> time (xs ! i) < time (xs ! j)))"
  have run: "oldest_loop used time xs (i # is) o' = oldest_loop used time xs is (if b then Some i else o')"
    using Cons.prems by (auto simp: b_def split: option.splits)
  show ?case unfolding run
    by (rule runs_mono [OF Cons.IH]) (use Cons.prems in \<open>auto simp: b_def split: option.splits if_splits\<close>)
qed

lemma oldest_entry_runs:
  "runs (oldest_entry used time xs) (\<lambda>r. case r of
      None \<Rightarrow> \<forall>x \<in> set xs. \<not> used x
    | Some k \<Rightarrow> k < length xs \<and> used (xs ! k) \<and> (\<forall>i < length xs. used (xs ! i) \<longrightarrow> time (xs ! k) \<le> time (xs ! i)))"
  unfolding oldest_entry_def
  by (rule runs_mono [OF oldest_loop_runs]) (auto simp: in_set_conv_nth split: option.splits)

section \<open>Allocation\<close>

lemma pool_free_empty: "pool_free used {} es [] \<Longrightarrow> \<forall>x \<in> set es. \<not> used x \<Longrightarrow> es = []"
  using pool_freeD [of used "{}" es "[]" 0] by (cases es) auto

lemma oldest_entry_used:
  "\<exists>r. oldest_entry used time xs = Some r \<and>
     (case r of None \<Rightarrow> \<forall>x \<in> set xs. \<not> used x | Some k \<Rightarrow> k < length xs \<and> used (xs ! k))"
  using runs_exD [OF oldest_entry_runs [of used time xs]] by (auto split: option.splits)

lemma allocDevice_runs:
  assumes inv: "fusion_inv s"
  shows "runs (allocDevice (s, events)) (\<lambda>(p, s', events'). case p of
       None \<Rightarrow> fs_devices s = [] \<and> s' = s \<and> events' = events
     | Some di \<Rightarrow> di < length (fs_devices s') \<and> \<not> de_used (fs_devices s' ! di) \<and> only_forgets s s' \<and>
         steady s' \<and> device_inv {di} s' \<and> link_inv {} {} {} s' \<and> cache_inv {} {} {} s' \<and>
         (\<exists>es. events' = events @ es \<and> (\<forall>e \<in> set es. dead EventEvicted e)))"
proof -
  have pop: "last (fs_freeDevices t) < length (fs_devices t') \<and> \<not> de_used (fs_devices t' ! last (fs_freeDevices t)) \<and>
      only_forgets t t' \<and> steady t' \<and> device_inv {last (fs_freeDevices t)} t' \<and> link_inv {} {} {} t' \<and> cache_inv {} {} {} t'"
    if t: "fusion_inv t" "fs_freeDevices t \<noteq> []" "t' = t\<lparr>fs_freeDevices := butlast (fs_freeDevices t)\<rparr>" for t t'
  proof -
    note I = fusion_invD [OF t(1)]
    note D = device_invD [OF I(2)]
    obtain ys y where free: "fs_freeDevices t = ys @ [y]" using t(2) by (cases "fs_freeDevices t" rule: rev_cases) auto
    have "pool_free de_used {y} (fs_devices t) ys"
      by (rule pool_freeI) (use D(1) pool_freeD [OF D(1)] free in \<open>auto simp: pool_free_def\<close>)
    then have "device_inv {y} t'" using D(2) by (simp add: device_inv_def t(3) free)
    moreover have "link_inv {} {} {} t'" using I(3) link_inv_cong [of t' t] by (simp add: t(3) link_core_def)
    moreover have "cache_inv {} {} {} t'" using I(4) cache_inv_cong [of t' t] by (simp add: t(3) dns_core_def)
    moreover have "steady t'" using I(1) by (simp add: t(3) steady_def)
    moreover have "y < length (fs_devices t) \<and> \<not> de_used (fs_devices t ! y)" using pool_freeD [OF D(1), of y] free by simp
    ultimately show ?thesis by (simp add: free t(3) only_forgets_def conf_def)
  qed
  show ?thesis
  proof (cases "fs_freeDevices s = []")
    case False
    then show ?thesis using pop [OF inv False refl] by (simp add: allocDevice_def wp)
  next
    case True
    let ?oldest = "oldest_entry de_used (\<lambda>d. dev_LastSeen (de_device d)) (fs_devices s)"
    from oldest_entry_used [of de_used "\<lambda>d. dev_LastSeen (de_device d)" "fs_devices s"] obtain r where
      r: "?oldest = Some r" "case r of None \<Rightarrow> \<forall>x \<in> set (fs_devices s). \<not> de_used x
        | Some k \<Rightarrow> k < length (fs_devices s) \<and> de_used (fs_devices s ! k)"
      by blast
    show ?thesis
    proof (cases r)
      case None
      have "pool_free de_used {} (fs_devices s) []" using device_invD(1) [OF fusion_invD(2) [OF inv]] True by simp
      then have "fs_devices s = []" by (rule pool_free_empty) (use r(2) None in simp)
      then show ?thesis using True r(1) None by (simp add: allocDevice_def wp)
    next
      case (Some k)
      let ?s = "s\<lparr>fs_deviceEvictions := fs_deviceEvictions s + 1\<rparr>"
      have "fusion_inv ?s" using inv link_inv_cong [of ?s s] cache_inv_cong [of ?s s] device_inv_cong [of ?s s]
        by (simp add: fusion_inv_def steady_def cores)
      from runs_exD [OF removeDevice_runs [OF this, of k EventEvicted events]] obtain t es where
        t: "removeDevice k EventEvicted (?s, events) = Some (t, events @ es)" "fusion_inv t" "only_forgets ?s t"
          "fs_freeDevices t = [k]" "\<forall>e \<in> set es. dead EventEvicted e"
        using r(2) Some True by auto
      have "only_forgets s t" using t(3) by (simp add: only_forgets_def conf_def)
      then show ?thesis
        using True r(1) Some t pop [OF t(2) _ refl] only_forgets_trans by (auto simp: allocDevice_def wp)
    qed
  qed
qed

lemma link_taken:
  assumes inv: "link_inv {} {} {} t" "fs_freeLinks t \<noteq> []"
  defines "t' \<equiv> t\<lparr>fs_freeLinks := butlast (fs_freeLinks t)\<rparr>"
  shows "last (fs_freeLinks t) < length (fs_links t') \<and> \<not> le_used (fs_links t' ! last (fs_freeLinks t)) \<and>
    links_only t t' \<and> link_inv {last (fs_freeLinks t)} {} {} t'"
proof -
  have p: "pool_inv le_used le_device link_key {} {} (fs_links t) (fs_linkHeads t) (fs_freeLinks t) (fs_linkByKey t) (link_owners (fs_devices t))"
    using inv(1) by (simp add: link_inv_def)
  show ?thesis using link_pool.taken [OF p inv(2)] inv(1)
    by (simp add: link_inv_def t'_def links_only_def cores steady_def)
qed

lemma allocLink_runs:
  assumes inv: "link_inv {} {} {} s"
  shows "runs (allocLink (s, events)) (\<lambda>(p, s', events'). case p of
       None \<Rightarrow> fs_links s = [] \<and> s' = s \<and> events' = events
     | Some li \<Rightarrow> li < length (fs_links s') \<and> \<not> le_used (fs_links s' ! li) \<and> links_only s s' \<and> link_inv {li} {} {} s' \<and>
         (\<exists>es. events' = events @ es \<and> (\<forall>e \<in> set es. dead EventEvicted e)))"
proof (cases "fs_freeLinks s = []")
  case False
  then show ?thesis using link_taken [OF inv False] by (simp add: allocLink_def wp)
next
  case True
  let ?oldest = "oldest_entry le_used (\<lambda>d. link_LastSeen (le_link d)) (fs_links s)"
  from oldest_entry_used [of le_used "\<lambda>d. link_LastSeen (le_link d)" "fs_links s"] obtain r where
    r: "?oldest = Some r" "case r of None \<Rightarrow> \<forall>x \<in> set (fs_links s). \<not> le_used x
      | Some k \<Rightarrow> k < length (fs_links s) \<and> le_used (fs_links s ! k)"
    by blast
  show ?thesis
  proof (cases r)
    case None
    have "pool_free le_used {} (fs_links s) []" using inv True by (simp add: link_inv_def pool_inv_def)
    then have "fs_links s = []" by (rule pool_free_empty) (use r(2) None in simp)
    then show ?thesis using True r(1) None by (simp add: allocLink_def wp)
  next
    case (Some k)
    let ?s = "s\<lparr>fs_linkEvictions := fs_linkEvictions s + 1\<rparr>"
    have "link_inv {} {} {} ?s" using inv link_inv_cong [of ?s s] by (simp add: cores)
    from runs_exD [OF removeLink_runs [OF this, of k EventEvicted events]] obtain t e where
      t: "removeLink k EventEvicted (?s, events) = Some (t, events @ [e])" "link_inv {} {} {} t" "link_removed k ?s t"
        "dead EventEvicted e"
      using r(2) Some by auto
    have n: "fs_freeLinks t \<noteq> []" using t(3) by (simp add: link_removed_def)
    have "steady ?s = steady s" by (simp add: steady_def)
    then have "links_only s t" using removed_only(1) [OF t(3)] by (simp add: links_only_def cores)
    then show ?thesis
      using True r(1) Some t(1,4) n link_taken [OF t(2) n] only_trans(1) by (auto simp: allocLink_def wp)
  qed
qed

lemma dns_taken:
  assumes inv: "cache_inv {} {} W t" "fs_freeDNS t \<noteq> []"
  defines "t' \<equiv> t\<lparr>fs_freeDNS := butlast (fs_freeDNS t)\<rparr>"
  shows "last (fs_freeDNS t) < length (fs_dns t') \<and> \<not> ne_used (fs_dns t' ! last (fs_freeDNS t)) \<and>
    dns_only t t' \<and> cache_inv {last (fs_freeDNS t)} {} W t'"
proof -
  have p: "pool_inv ne_used ne_device ne_key {} {} (fs_dns t) (fs_dnsHeads t) (fs_freeDNS t) (fs_dnsByKey t) (dns_owners (fs_devices t))"
    using inv(1) by (simp add: cache_inv_def)
  show ?thesis using dns_pool.taken [OF p inv(2)] inv(1)
    by (simp add: cache_inv_def t'_def dns_only_def cores steady_def)
qed

lemma allocDNS_runs:
  assumes inv: "cache_inv {} {} W s"
  shows "runs (allocDNS s) (\<lambda>(p, s'). case p of
       None \<Rightarrow> fs_dns s = [] \<and> s' = s
     | Some i \<Rightarrow> i < length (fs_dns s') \<and> \<not> ne_used (fs_dns s' ! i) \<and> dns_only s s' \<and> cache_inv {i} {} W s')"
proof (cases "fs_freeDNS s = []")
  case False
  then show ?thesis using dns_taken [OF inv False] by (simp add: allocDNS_def wp)
next
  case True
  let ?oldest = "oldest_entry ne_used ne_expiresAt (fs_dns s)"
  from oldest_entry_used [of ne_used ne_expiresAt "fs_dns s"] obtain r where
    r: "?oldest = Some r" "case r of None \<Rightarrow> \<forall>x \<in> set (fs_dns s). \<not> ne_used x
      | Some k \<Rightarrow> k < length (fs_dns s) \<and> ne_used (fs_dns s ! k)"
    by blast
  show ?thesis
  proof (cases r)
    case None
    have "pool_free ne_used {} (fs_dns s) []" using inv True by (simp add: cache_inv_def pool_inv_def)
    then have "fs_dns s = []" by (rule pool_free_empty) (use r(2) None in simp)
    then show ?thesis using True r(1) None by (simp add: allocDNS_def wp)
  next
    case (Some k)
    let ?s = "s\<lparr>fs_dnsEvictions := fs_dnsEvictions s + 1\<rparr>"
    have "cache_inv {} {} W ?s" using inv cache_inv_cong [of ?s s] by (simp add: cores)
    from runs_exD [OF removeDNS_runs [OF this, of k]] obtain t where
      t: "removeDNS k ?s = Some t" "cache_inv {} {} W t" "dns_removed k ?s t"
      using r(2) Some by auto
    have n: "fs_freeDNS t \<noteq> []" using t(3) by (simp add: dns_removed_def)
    have "steady ?s = steady s" by (simp add: steady_def)
    then have "dns_only s t" using removed_only(2) [OF t(3)] by (simp add: dns_only_def cores)
    then show ?thesis
      using True r(1) Some t(1) n dns_taken [OF t(2) n] only_trans(2) by (auto simp: allocDNS_def wp)
  qed
qed

section \<open>Refreshing a link\<close>

lemma link_slotD:
  assumes "link_inv X U T s" "i < length (fs_links s)" "le_used (fs_links s ! i)" "wheelSlot (fs_links s ! i) = None"
  shows "i \<in> U"
proof -
  have "pool_wheel le_used U (fs_links s) (fs_linkHeads s)" using assms(1) by (simp add: link_inv_def pool_inv_def)
  from pool_wheelD(4) [OF this assms(2,3)] assms(4) show ?thesis by blast
qed

lemma link_written:
  assumes inv: "link_inv X U T s" and i: "i < length (fs_links s)" "le_used (fs_links s ! i)"
    and e: "le_used e" "same_place e (fs_links s ! i)" "le_device e = le_device (fs_links s ! i)"
      "link_key e = link_key (fs_links s ! i)" "link_Device (le_link e) = link_Device (le_link (fs_links s ! i))"
  shows "link_inv X U T (s\<lparr>fs_links := (fs_links s)[i := e]\<rparr>)"
proof -
  obtain di where di: "di < length (fs_devices s)" "le_device (fs_links s ! i) = Some di" "de_used (fs_devices s ! di)"
    using link_ownerD [OF inv i] .
  have "pool_inv le_used le_device link_key X U ((fs_links s)[i := e]) (fs_linkHeads s) (fs_freeLinks s) (fs_linkByKey s)
     (link_owners (fs_devices s))"
    by (rule link_pool.written) (use inv i e di link_slotD [OF inv i] in \<open>auto simp: link_inv_def\<close>)
  moreover have "link_tags T ((fs_links s)[i := e]) (fs_devices s)"
    using inv i e unfolding link_inv_def link_tags_def by (metis length_list_update nth_updated)
  ultimately show ?thesis by (simp add: link_inv_def)
qed

lemma protocol_range_eq: "protocol_range = [1, 2, 3, 4]"
  by (simp add: protocol_range_def protocol_defs upt_rec)

lemma earliestExpiry_runs: "length xs = 5 \<Longrightarrow> \<exists>t. earliestExpiry xs = Some t"
  by (simp add: earliestExpiry_def protocol_range_eq)

lemma latestExpiry_runs: "length xs = 5 \<Longrightarrow> \<exists>t. latestExpiry xs = Some t"
  by (simp add: latestExpiry_def protocol_range_eq)

lemma refresh_vlans_runs: "\<forall>i \<in> set is. i < length vlans \<Longrightarrow> \<exists>r. refresh_vlans vlans is xs c = Some r"
  by (induction "is" arbitrary: xs c) auto

definition meta_ok :: "observationMeta \<Rightarrow> bool" where
  "meta_ok meta = (unat (meta_vlanCount meta) \<le> length (meta_vlans meta))"

text \<open>Rescheduling a used link.\<close>

lemma scheduleLink_runs:
  assumes inv: "link_inv X U T s" and i: "i < length (fs_links s)" "le_used (fs_links s ! i)"
  shows "runs (scheduleLink i now expiry s) (\<lambda>s'. link_inv X (U - {i}) T s' \<and> links_only s s' \<and>
    fs_devices s' = fs_devices s \<and> fs_freeLinks s' = fs_freeLinks s \<and> links_frame i s s' \<and>
    wheel_node.more (fs_links s' ! i) = wheel_node.more (fs_links s ! i) \<and>
    wheelSlot (fs_links s' ! i) = Some ((fs_wheelCursor s + ticks_until now expiry) mod length (fs_linkHeads s)) \<and>
    wheelRound (fs_links s' ! i) = (ticks_until now expiry - 1) div length (fs_linkHeads s) \<and>
    (\<forall>f. wheel_inv (fs_links s, fs_linkHeads s) f \<longrightarrow> wheel_inv (fs_links s', fs_linkHeads s')
       (listed f i ((fs_wheelCursor s + ticks_until now expiry) mod length (fs_linkHeads s)))))"
proof -
  have p: "pool_inv le_used le_device link_key X U (fs_links s) (fs_linkHeads s) (fs_freeLinks s) (fs_linkByKey s)
     (link_owners (fs_devices s))" and t: "link_tags T (fs_links s) (fs_devices s)"
    using inv by (simp_all add: link_inv_def)
  from runs_exD [OF link_pool.scheduled [OF p i, of "fs_wheelCursor s" now expiry]] obtain ls heads where
    u: "schedule (fs_links s, fs_linkHeads s) (fs_wheelCursor s) i now expiry = Some (ls, heads)"
    and P: "pool_inv le_used le_device link_key X (U - {i}) ls heads (fs_freeLinks s) (fs_linkByKey s) (link_owners (fs_devices s))"
    and fr: "wheel_frame i (fs_links s, fs_linkHeads s) (ls, heads)"
    and slot: "wheelSlot (ls ! i) = Some ((fs_wheelCursor s + ticks_until now expiry) mod length (fs_linkHeads s))"
      "wheelRound (ls ! i) = (ticks_until now expiry - 1) div length (fs_linkHeads s)" by auto
  have len: "length ls = length (fs_links s)" using fr by (rule wheel_frame_length)
  have more: "wheel_node.more (ls ! j) = wheel_node.more (fs_links s ! j)" if "j < length ls" for j
    using wheel_frame_more [OF fr] that len by simp
  have eq: "le_used (ls ! j) = le_used (fs_links s ! j)" "le_link (ls ! j) = le_link (fs_links s ! j)"
    "le_device (ls ! j) = le_device (fs_links s ! j)" "le_expires (ls ! j) = le_expires (fs_links s ! j)" if "j < length ls" for j
    using link_more [OF more] that by simp_all
  have tags: "link_tags T ls (fs_devices s)" using t len by (simp add: link_tags_def eq link_key_def)
  define s' where "s' = s\<lparr>fs_links := ls, fs_linkHeads := heads\<rparr>"
  have h: "length heads = length (fs_linkHeads s)" using fr by (simp add: wheel_frame_def)
  have st: "steady s'" if "steady s"
    by (rule steadyI [OF that])
      (use steadyD [OF that] h len eq in \<open>auto simp: s'_def conf_def link_ok_def\<close>)
  have only: "links_only s s'" using st h len by (simp add: links_only_def s'_def cores)
  have "links_frame i s s'" using fr more len by (auto simp: links_frame_def s'_def wheel_frame_def)
  moreover have "wheel_inv (ls, heads) (listed f i ((fs_wheelCursor s + ticks_until now expiry) mod length (fs_linkHeads s)))"
    if "wheel_inv (fs_links s, fs_linkHeads s) f" for f
    using runs_SomeD [OF schedule_runs [OF that i(1) pool_wheelD(2) [OF pool_invD(5) [OF p]]] u] by simp
  moreover have "scheduleLink i now expiry s = Some s'" by (simp add: scheduleLink_def u s'_def)
  ultimately show ?thesis using P tags slot only more len i by (simp add: wp link_inv_def s'_def)
qed

lemma steady_link:
  "steady s \<Longrightarrow> link_ok (cfg_MaxAlternatives (fs_cfg s)) e \<Longrightarrow> steady (s\<lparr>fs_links := (fs_links s)[i := e]\<rparr>)"
  by (auto simp: steady_def dest!: set_update_subset_insert [THEN subsetD])

lemma link_written_only:
  assumes "steady s \<Longrightarrow> link_ok (cfg_MaxAlternatives (fs_cfg s)) e"
  shows "links_only s (s\<lparr>fs_links := (fs_links s)[i := e]\<rparr>)"
  using assms steady_link by (simp add: links_only_def cores)

definition link_kept :: "nat \<Rightarrow> fusionState \<Rightarrow> fusionState \<Rightarrow> bool" where
  "link_kept i s s' =
     (links_only s s' \<and> fs_devices s' = fs_devices s \<and> fs_freeLinks s' = fs_freeLinks s \<and> fs_linkByKey s' = fs_linkByKey s \<and>
      links_frame i s s' \<and> le_used (fs_links s' ! i) = le_used (fs_links s ! i) \<and>
      le_device (fs_links s' ! i) = le_device (fs_links s ! i))"

lemma links_frame_trans: "links_frame i s t \<Longrightarrow> links_frame i t u \<Longrightarrow> links_frame i s u"
  by (simp add: links_frame_def)

lemma link_kept_trans: "link_kept i s t \<Longrightarrow> link_kept i t u \<Longrightarrow> link_kept i s u"
  unfolding link_kept_def using only_trans(1) links_frame_trans by metis

lemma link_kept_update:
  "(steady s \<Longrightarrow> link_ok (cfg_MaxAlternatives (fs_cfg s)) e) \<Longrightarrow> i < length (fs_links s) \<Longrightarrow>
   le_used e = le_used (fs_links s ! i) \<Longrightarrow> le_device e = le_device (fs_links s ! i) \<Longrightarrow>
   link_kept i s (s\<lparr>fs_links := (fs_links s)[i := e]\<rparr>)"
  using link_written_only [of s e i] by (simp add: link_kept_def links_frame_def)

lemma scheduled_kept:
  assumes inv: "link_inv X U T s" and i: "i < length (fs_links s)" "le_used (fs_links s ! i)"
  shows "runs (scheduleLink i now expiry s) (\<lambda>s'. link_inv X (U - {i}) T s' \<and> link_kept i s s' \<and>
    wheel_node.more (fs_links s' ! i) = wheel_node.more (fs_links s ! i))"
proof -
  from runs_exD [OF scheduleLink_runs [OF assms, of now expiry]] obtain t where
    t: "scheduleLink i now expiry s = Some t" "link_inv X (U - {i}) T t" "links_only s t"
      "fs_devices t = fs_devices s" "fs_freeLinks t = fs_freeLinks s" "links_frame i s t"
      "wheel_node.more (fs_links t ! i) = wheel_node.more (fs_links s ! i)" by blast
  have "fs_linkByKey t = fs_linkByKey s" using t(1) by (auto simp: scheduleLink_def bind_eq_Some_conv)
  then show ?thesis using t link_more [OF t(7)] by (simp add: wp link_kept_def)
qed

lemma refreshLink_runs:
  assumes inv: "link_inv X U T s" and st: "steady s" and i: "i < length (fs_links s)" "le_used (fs_links s ! i)"
    and m: "meta_ok meta"
  shows "runs (refreshLink i meta kind ttl s) (\<lambda>(c, s'). link_inv X (U - {i}) T s' \<and> link_kept i s s')"
proof -
  let ?e = "fs_links s ! i" and ?p = "unat (meta_protocol meta)" and ?l = "le_link (fs_links s ! i)"
  have ok: "link_ok (cfg_MaxAlternatives (fs_cfg s)) ?e" by (rule steadyD(7) [OF st i(1)])
  define ttl' where "ttl' = (if ttl \<le> 0 then Second else ttl)"
  define xs where "xs = (if ?p < length (le_expires ?e) then (le_expires ?e)[?p := meta_timestamp meta + ttl'] else le_expires ?e)"
  have xs: "length xs = 5" using ok by (simp add: xs_def link_ok_def)
  obtain t where t: "earliestExpiry xs = Some t" using earliestExpiry_runs [OF xs] by blast
  define l where "l = (let l = (if kind = PhysicalAdjacency \<and> link_Kind ?l \<noteq> PhysicalAdjacency then ?l\<lparr>link_Kind := kind\<rparr> else ?l);
      l = (if link_Protocols l AND Set (meta_protocol meta) = 0
           then l\<lparr>link_Protocols := link_Protocols l OR Set (meta_protocol meta)\<rparr> else l);
      l = (if meta_timestamp meta > link_LastSeen l then l\<lparr>link_LastSeen := meta_timestamp meta\<rparr> else l)
     in l\<lparr>link_TTL := ttl', link_ExpiresAt := t\<rparr>)"
  have l: "link_Key l = link_Key ?l" "link_Device l = link_Device ?l" "link_RemoteInterface l = link_RemoteInterface ?l"
    by (simp_all add: l_def Let_def)
  define s1 where "s1 = s\<lparr>fs_links := (fs_links s)[i := ?e\<lparr>le_link := l, le_expires := xs\<rparr>]\<rparr>"
  have inv1: "link_inv X U T s1" unfolding s1_def
    by (rule link_written [OF inv i]) (use i l in \<open>simp_all add: same_place_def same_links_def link_key_def\<close>)
  have k1: "link_kept i s s1" unfolding s1_def
    by (rule link_kept_update) (use ok xs l i in \<open>simp_all add: link_ok_def\<close>)
  have i1: "i < length (fs_links s1)" "le_used (fs_links s1 ! i)" using i by (simp_all add: s1_def)
  from runs_exD [OF scheduled_kept [OF inv1 i1, of "meta_timestamp meta" t]] obtain s2 where
    s2: "scheduleLink i (meta_timestamp meta) t s1 = Some s2" "link_inv X (U - {i}) T s2" "link_kept i s1 s2"
      "wheel_node.more (fs_links s2 ! i) = wheel_node.more (fs_links s1 ! i)" by blast
  have i2: "i < length (fs_links s2)" "le_used (fs_links s2 ! i)"
    using i1 s2(3) by (simp_all add: link_kept_def links_only_def)
  obtain c vlans where v: "refresh_vlans (meta_vlans meta) [0 ..< unat (meta_vlanCount meta)] (link_VLANs l)
      ((kind = PhysicalAdjacency \<and> link_Kind ?l \<noteq> PhysicalAdjacency) \<or> link_Protocols ?l AND Set (meta_protocol meta) = 0) = Some (c, vlans)"
    using refresh_vlans_runs [of "[0 ..< unat (meta_vlanCount meta)]" "meta_vlans meta"] m
    by (fastforce simp: meta_ok_def)
  define e2 where "e2 = (fs_links s2 ! i)\<lparr>le_link := (le_link (fs_links s2 ! i))\<lparr>link_VLANs := vlans\<rparr>\<rparr>"
  define s3 where "s3 = s2\<lparr>fs_links := (fs_links s2)[i := e2]\<rparr>"
  have run: "refreshLink i meta kind ttl s = Some (c, s3)"
    using i t s2(1) v i2(1) xs
    by (auto simp: refreshLink_def Let_def ttl'_def xs_def l_def s1_def s3_def e2_def mod_link_def)
  have inv3: "link_inv X (U - {i}) T s3" unfolding s3_def
    by (rule link_written [OF s2(2) i2]) (use i2 in \<open>simp_all add: e2_def same_place_def same_links_def link_key_def\<close>)
  have "link_kept i s2 s3" unfolding s3_def
    by (rule link_kept_update) (use steadyD(7) [of s2 i] i2 in \<open>simp_all add: e2_def link_ok_def\<close>)
  then have "link_kept i s s3" using link_kept_trans k1 s2(3) by blast
  then show ?thesis using inv3 by (simp add: run wp)
qed

section \<open>Merging links\<close>

lemma merge_expires_runs:
  "\<forall>p \<in> set ps. p < length dst \<and> p < length src \<Longrightarrow> \<exists>r. merge_expires ps dst src = Some r \<and> length r = length dst"
proof (induction ps arbitrary: dst)
  case (Cons p ps)
  let ?d = "if src ! p > dst ! p then dst[p := src ! p] else dst"
  have l: "length ?d = length dst" by simp
  then obtain r where "merge_expires ps ?d src = Some r" "length r = length dst"
    using Cons.IH [of ?d] Cons.prems by fastforce
  then show ?case using Cons.prems by (auto split: if_splits)
qed simp

lemma mergeLinks_runs:
  assumes inv: "link_inv X {} T s" and st: "steady s"
    and d: "d < length (fs_links s)" "le_used (fs_links s ! d)"
    and r: "r < length (fs_links s)" "le_used (fs_links s ! r)" and dr: "d \<noteq> r"
  shows "runs (mergeLinks d r (s, events)) (\<lambda>(s', events'). link_inv (X - {r}) {} (T - {r}) s' \<and> links_only s s' \<and>
    (\<forall>dj < length (fs_devices s). de_links (fs_devices s' ! dj) =
       (if le_device (fs_links s ! r) = Some dj then swap_remove r (de_links (fs_devices s ! dj))
        else de_links (fs_devices s ! dj))) \<and>
    (\<exists>e. events' = events @ [e] \<and> dead EventChanged e))"
proof -
  let ?d = "fs_links s ! d" and ?r = "fs_links s ! r"
  have ok: "link_ok (cfg_MaxAlternatives (fs_cfg s)) ?d" "link_ok (cfg_MaxAlternatives (fs_cfg s)) ?r"
    using steadyD(7) [OF st] d(1) r(1) by blast+
  obtain xs where xs: "merge_expires protocol_range (le_expires ?d) (le_expires ?r) = Some xs" "length xs = 5"
    using merge_expires_runs [of protocol_range "le_expires ?d" "le_expires ?r"] ok
    by (auto simp: protocol_range_eq link_ok_def)
  obtain t where t: "earliestExpiry xs = Some t" using earliestExpiry_runs [OF xs(2)] by blast
  define l where "l = (let l = le_link ?d; m = le_link ?r;
      l = l\<lparr>link_Protocols := link_Protocols l OR link_Protocols m\<rparr>;
      l = (if link_Kind m = PhysicalAdjacency then l\<lparr>link_Kind := PhysicalAdjacency\<rparr> else l);
      l = (if link_LastSeen m > link_LastSeen l then l\<lparr>link_LastSeen := link_LastSeen m\<rparr> else l);
      l = (if link_FirstSeen m < link_FirstSeen l then l\<lparr>link_FirstSeen := link_FirstSeen m\<rparr> else l);
      l = l\<lparr>link_VLANs := append_vlans (link_VLANs l) (link_VLANs m)\<rparr>
     in l\<lparr>link_ExpiresAt := t\<rparr>)"
  have l: "link_Key l = link_Key (le_link ?d)" "link_Device l = link_Device (le_link ?d)"
    "link_RemoteInterface l = link_RemoteInterface (le_link ?d)"
    by (simp_all add: l_def Let_def)
  define s1 where "s1 = s\<lparr>fs_links := (fs_links s)[d := ?d\<lparr>le_link := l, le_expires := xs\<rparr>]\<rparr>"
  have inv1: "link_inv X {} T s1" unfolding s1_def
    by (rule link_written [OF inv d]) (use d l in \<open>simp_all add: same_place_def same_links_def link_key_def\<close>)
  have k1: "link_kept d s s1" unfolding s1_def
    by (rule link_kept_update) (use ok xs l d in \<open>simp_all add: link_ok_def\<close>)
  have d1: "d < length (fs_links s1)" "le_used (fs_links s1 ! d)" using d by (simp_all add: s1_def)
  from runs_exD [OF scheduled_kept [OF inv1 d1, of "link_LastSeen l" t]] obtain s2 where
    s2: "scheduleLink d (link_LastSeen l) t s1 = Some s2" "link_inv X ({} - {d}) T s2" "link_kept d s1 s2" by blast
  have k2: "link_kept d s s2" using link_kept_trans [OF k1 s2(3)] .
  have r2: "r < length (fs_links s2)" "le_used (fs_links s2 ! r)" "le_device (fs_links s2 ! r) = le_device ?r"
    using k2 r dr link_more [of "fs_links s2 ! r" ?r] by (auto simp: link_kept_def links_frame_def)
  have inv2: "link_inv X {} T s2" using s2(2) by simp
  from runs_exD [OF removeLink_runs [OF inv2 r2(1,2), of EventChanged events]] obtain u e where
    u: "removeLink r EventChanged (s2, events) = Some (u, events @ [e])" "link_inv (X - {r}) ({} - {r}) (T - {r}) u"
      "link_removed r s2 u" "dead EventChanged e" by auto
  have run: "mergeLinks d r (s, events) = Some (u, events @ [e])"
    using d r dr xs(1) t s2(1) u(1)
    by (auto simp: mergeLinks_def Let_def mod_link_def s1_def l_def)
  have "links_only s u" using only_trans(1) removed_only(1) [OF u(3)] k2 by (auto simp: link_kept_def)
  moreover have "fs_devices s2 = fs_devices s" using k2 by (simp add: link_kept_def)
  ultimately show ?thesis using u r2(3) by (simp add: run wp link_removed_def)
qed

section \<open>The link of an observation\<close>

text \<open>Giving an entry a key or an owner.\<close>

lemma link_rewritten:
  assumes inv: "link_inv X U T s" and i: "i < length (fs_links s)"
    and e: "le_used e" "same_place e (fs_links s ! i)" "le_device e = Some di"
    and di: "di < length (fs_devices s)" "de_used (fs_devices s ! di)"
    and o: "le_used (fs_links s ! i) \<and> le_device (fs_links s ! i) = Some di \<or> i \<in> X"
    and k: "\<forall>k. fs_linkByKey s k \<noteq> Some i"
    and tag: "link_Device (le_link e) = dev_Key (de_device (fs_devices s ! di))"
      "lk_Device (link_key e) = dev_Key (de_device (fs_devices s ! di))"
    and V: "wheelSlot (fs_links s ! i) = None \<Longrightarrow> i \<in> V" "U \<subseteq> V"
  shows "link_inv X V (T - {i}) (s\<lparr>fs_links := (fs_links s)[i := e]\<rparr>)"
proof -
  have "pool_inv le_used le_device link_key X V ((fs_links s)[i := e]) (fs_linkHeads s) (fs_freeLinks s) (fs_linkByKey s)
     (link_owners (fs_devices s))"
    by (rule link_pool.written [where U = U]) (use inv i e di o k V in \<open>auto simp: link_inv_def\<close>)
  moreover have "link_tags (T - {i}) ((fs_links s)[i := e]) (fs_devices s)"
    unfolding link_tags_def
  proof (intro allI impI)
    fix j dj
    assume "j < length ((fs_links s)[i := e])" "le_used ((fs_links s)[i := e] ! j)" "j \<notin> T - {i}"
      "le_device ((fs_links s)[i := e] ! j) = Some dj"
    then show "link_Device (le_link ((fs_links s)[i := e] ! j)) = dev_Key (de_device (fs_devices s ! dj)) \<and>
       lk_Device (link_key ((fs_links s)[i := e] ! j)) = dev_Key (de_device (fs_devices s ! dj))"
      using inv e tag by (cases "j = i") (auto simp: link_inv_def link_tags_def)
  qed
  ultimately show ?thesis by (simp add: link_inv_def)
qed

lemma link_forgotten:
  assumes "link_inv X U T s"
  shows "link_inv X U T (s\<lparr>fs_linkByKey := (fs_linkByKey s)(k := None)\<rparr>)"
    and "i < length (fs_links s) \<Longrightarrow> link_key (fs_links s ! i) = k \<Longrightarrow> ((fs_linkByKey s)(k := None)) k' \<noteq> Some i"
  using assms link_pool.forgotten [of X U "fs_links s" "fs_linkHeads s" "fs_freeLinks s" "fs_linkByKey s" "link_owners (fs_devices s)"]
  by (simp_all add: link_inv_def)

lemma link_indexed:
  assumes "link_inv X U T s" "i < length (fs_links s)" "le_used (fs_links s ! i)" "k = link_key (fs_links s ! i)"
  shows "link_inv X U T (s\<lparr>fs_linkByKey := (fs_linkByKey s)(k \<mapsto> i)\<rparr>)"
  using assms link_pool.indexed [of X U "fs_links s" "fs_linkHeads s" "fs_freeLinks s" "fs_linkByKey s" "link_owners (fs_devices s)"]
  by (simp add: link_inv_def)

lemma link_attached:
  assumes inv: "link_inv X U T s" and i: "i < length (fs_links s)" "le_used (fs_links s ! i)"
    "le_device (fs_links s ! i) = Some di" "i \<in> X" and di: "di < length (fs_devices s)"
    and d: "de_used d = de_used (fs_devices s ! di)" "de_links d = de_links (fs_devices s ! di) @ [i]"
      "dev_Key (de_device d) = dev_Key (de_device (fs_devices s ! di))"
  shows "link_inv (X - {i}) U T (s\<lparr>fs_devices := (fs_devices s)[di := d]\<rparr>)"
proof -
  have own: "link_owners (fs_devices s) ! di = (de_used (fs_devices s ! di), de_links (fs_devices s ! di))" using di by simp
  have p: "pool_inv le_used le_device link_key X U (fs_links s) (fs_linkHeads s) (fs_freeLinks s) (fs_linkByKey s)
     (link_owners (fs_devices s))" and t: "link_tags T (fs_links s) (fs_devices s)"
    using inv by (simp_all add: link_inv_def)
  have "link_tags T (fs_links s) ((fs_devices s)[di := d])"
    using t d di by (auto simp: link_tags_def nth_list_update)
  then show ?thesis using link_pool.attached [OF p i own] d by (simp add: link_inv_def owners_update)
qed

lemma find_link_runs:
  "\<forall>li \<in> set lis. li < length (fs_links s) \<Longrightarrow>
   runs (find_link s lis i kind) (\<lambda>r. \<forall>li. r = Some li \<longrightarrow> li \<in> set lis \<and> le_used (fs_links s ! li))"
  by (induction lis) (auto simp: wp elim!: runs_mono)

text \<open>A key leads to a link of the device whose key it contains.\<close>

lemma link_keyD:
  assumes l: "link_inv X U {} s" and v: "device_inv Y s" and di: "di < length (fs_devices s)" "de_used (fs_devices s ! di)"
    and k: "fs_linkByKey s k = Some li" "lk_Device k = dev_Key (de_device (fs_devices s ! di))"
  shows "li < length (fs_links s)" "le_used (fs_links s ! li)" "link_key (fs_links s ! li) = k"
    "le_device (fs_links s ! li) = Some di"
proof -
  have "pool_keys le_used link_key (fs_links s) (fs_linkByKey s)" using l by (simp add: link_inv_def pool_inv_def)
  from pool_keysD [OF this k(1)] show li: "li < length (fs_links s)" "le_used (fs_links s ! li)" "link_key (fs_links s ! li) = k"
    by blast+
  obtain dj where dj: "dj < length (fs_devices s)" "le_device (fs_links s ! li) = Some dj" "de_used (fs_devices s ! dj)"
    using link_ownerD [OF l li(1,2)] .
  have "lk_Device k = dev_Key (de_device (fs_devices s ! dj))"
    using l li dj by (auto simp: link_inv_def link_tags_def)
  then have "fs_deviceByKey s (lk_Device k) = Some di" "fs_deviceByKey s (lk_Device k) = Some dj"
    using device_invD(2) [OF v] di dj k(2) by auto
  then show "le_device (fs_links s ! li) = Some di" using dj(2) by simp
qed

definition upserted :: "nat \<Rightarrow> fusionState \<Rightarrow> fusion_event list \<Rightarrow>
    (nat option \<times> bool \<times> bool) \<times> fused \<Rightarrow> bool" where
  "upserted di s events = (\<lambda>((lp, changed, added), s', events').
     link_inv {} {} {} s' \<and> links_only s s' \<and>
     (lp = None \<longrightarrow> fs_links s = []) \<and>
     (\<forall>li. lp = Some li \<longrightarrow> li < length (fs_links s') \<and> le_used (fs_links s' ! li) \<and> le_device (fs_links s' ! li) = Some di) \<and>
     (\<exists>es. events' = events @ es \<and> (\<forall>e \<in> set es. dead EventEvicted e)))"

lemma link_kept_upserted:
  assumes "link_inv {} {} {} s'" "link_kept li s s'" "li < length (fs_links s)" "le_used (fs_links s ! li)"
    "le_device (fs_links s ! li) = Some di" "links_only r s"
  shows "upserted di r events ((Some li, c, a), s', events)"
  using assms only_trans(1) [of r s s'] by (simp add: upserted_def link_kept_def links_only_def)

lemma upsertLink_runs:
  assumes inv: "link_inv {} {} {} s" and st: "steady s" and v: "device_inv {} s"
    and di: "di < length (fs_devices s)" "de_used (fs_devices s ! di)" and m: "meta_ok meta"
  shows "runs (upsertLink meta di kind ttl (s, events)) (upserted di s events)"
proof -
  let ?dkey = "dev_Key (de_device (fs_devices s ! di))"
  define key where "key = \<lparr>lk_InterfaceIndex = meta_interfaceIndex meta, lk_SourceMAC = meta_sourceMAC meta, lk_Device = ?dkey\<rparr>"
  have lkey: "lk_Device key = ?dkey" by (simp add: key_def)
  show ?thesis
  proof (cases "fs_linkByKey s key")
    case (Some li)
    note K = link_keyD [OF inv v di Some lkey]
    from runs_exD [OF refreshLink_runs [OF inv st K(1,2) m, of kind ttl]] obtain c t where
      t: "refreshLink li meta kind ttl s = Some (c, t)" "link_inv {} ({} - {li}) {} t" "link_kept li s t" by auto
    have "upserted di s events ((Some li, c, False), t, events)"
      by (rule link_kept_upserted [OF _ t(3) K(1,2,4)]) (use t(2) in simp_all)
    then show ?thesis using Some K(1,2) di t(1) by (simp add: upsertLink_def wp Let_def key_def [symmetric])
  next
    case none: None
    let ?other = "if kind = PhysicalAdjacency then SegmentPresence else PhysicalAdjacency"
    have lis: "\<forall>li \<in> set (de_links (fs_devices s ! di)). li < length (fs_links s)"
      using link_listD(2) [OF inv di(1)] by blast
    from runs_exD [OF find_link_runs [OF lis, of "meta_interfaceIndex meta" ?other]] obtain same where
      same: "find_link s (de_links (fs_devices s ! di)) (meta_interfaceIndex meta) ?other = Some same"
        "\<forall>li. same = Some li \<longrightarrow> li \<in> set (de_links (fs_devices s ! di)) \<and> le_used (fs_links s ! li)" by blast
    have pre: "upsertLink meta di kind ttl (s, events) =
      (case same of
         Some li \<Rightarrow>
           if kind = PhysicalAdjacency then do {
             e \<leftarrow> idx (fs_links s) li;
             let s = s\<lparr>fs_linkByKey := (fs_linkByKey s)(link_Key (le_link e) := None)\<rparr>;
             s \<leftarrow> mod_link li (\<lambda>e. e\<lparr>le_link := (le_link e)\<lparr>link_Key := key, link_Device := ?dkey,
                    link_ObservedSourceMAC := meta_sourceMAC meta, link_Kind := PhysicalAdjacency\<rparr>\<rparr>) s;
             let s = s\<lparr>fs_linkByKey := (fs_linkByKey s)(key \<mapsto> li)\<rparr>;
             (_, s) \<leftarrow> refreshLink li meta kind ttl s;
             Some ((Some li, True, False), s, events)
           }
           else do { (changed, s) \<leftarrow> refreshLink li meta kind ttl s; Some ((Some li, changed, False), s, events) }
       | None \<Rightarrow> do {
           (free, s, events) \<leftarrow> allocLink (s, events);
           case free of
             None \<Rightarrow> Some ((None, False, False), s, events)
           | Some li \<Rightarrow> do {
               d \<leftarrow> idx (fs_devices s) di;
               let dkey = dev_Key (de_device d);
               s \<leftarrow> mod_link li (\<lambda>e. e\<lparr>
                      le_link := (resetLink (le_link e))\<lparr>link_Key := key, link_Kind := kind, link_Device := dkey,
                        link_LocalInterface := bytes_of (meta_interfaceName meta),
                        link_ObservedSourceMAC := meta_sourceMAC meta,
                        link_FirstSeen := meta_timestamp meta, link_LastSeen := meta_timestamp meta\<rparr>,
                      le_used := True, le_device := Some di,
                      wheelSlot := None, wheelPrev := None, wheelNext := None\<rparr>) s;
               let s = s\<lparr>fs_linkByKey := (fs_linkByKey s)(key \<mapsto> li)\<rparr>;
               s \<leftarrow> mod_device di (\<lambda>d. d\<lparr>de_links := de_links d @ [li]\<rparr>) s;
               (_, s) \<leftarrow> refreshLink li meta kind ttl s;
               Some ((Some li, True, True), s, events)
             }
         })"
      using none same(1) di(1) by (simp add: upsertLink_def key_def [symmetric])
    show ?thesis
    proof (cases same)
      case (Some li)
      have li: "li < length (fs_links s)" "le_used (fs_links s ! li)" "le_device (fs_links s ! li) = Some di"
        using same(2) Some link_listD(2) [OF inv di(1), of li] by auto
      show ?thesis
      proof (cases "kind = PhysicalAdjacency")
        case False
        from runs_exD [OF refreshLink_runs [OF inv st li(1,2) m, of kind ttl]] obtain c t where
          t: "refreshLink li meta kind ttl s = Some (c, t)" "link_inv {} ({} - {li}) {} t" "link_kept li s t" by auto
        have "upserted di s events ((Some li, c, False), t, events)"
          by (rule link_kept_upserted [OF _ t(3) li]) (use t(2) in simp_all)
        then show ?thesis using Some False t(1) by (simp add: pre wp)
      next
        case True
        define e where "e = (fs_links s ! li)\<lparr>le_link := (le_link (fs_links s ! li))\<lparr>link_Key := key, link_Device := ?dkey,
          link_ObservedSourceMAC := meta_sourceMAC meta, link_Kind := PhysicalAdjacency\<rparr>\<rparr>"
        define s1 where "s1 = s\<lparr>fs_linkByKey := (fs_linkByKey s)(link_key (fs_links s ! li) := None)\<rparr>"
        define s2 where "s2 = s1\<lparr>fs_links := (fs_links s1)[li := e]\<rparr>"
        define s3 where "s3 = s2\<lparr>fs_linkByKey := (fs_linkByKey s2)(key \<mapsto> li)\<rparr>"
        have "link_inv {} {} {} s1" unfolding s1_def by (rule link_forgotten(1) [OF inv])
        then have "link_inv {} {} ({} - {li}) s2" unfolding s2_def
          by (rule link_rewritten [where di = di])
            (use li di link_forgotten(2) [OF inv li(1) refl] link_slotD [OF inv li(1,2)]
              in \<open>auto simp: s1_def e_def same_place_def same_links_def link_key_def lkey\<close>)
        then have "link_inv {} {} {} s2" by simp
        then have "link_inv {} {} {} s3" unfolding s3_def
          by (rule link_indexed) (use li(1,2) in \<open>simp_all add: s2_def s1_def e_def link_key_def\<close>)
        moreover have only3: "links_only s s3"
          using st steadyD(7) [OF st li(1)] steady_link [of s1 e li]
          by (auto simp: links_only_def s3_def s2_def s1_def cores steady_def link_ok_def e_def)
        moreover have "steady s3" using only3 st by (simp add: links_only_def)
        moreover have l3: "li < length (fs_links s3)" "le_used (fs_links s3 ! li)" "le_device (fs_links s3 ! li) = Some di"
          using li by (simp_all add: s3_def s2_def s1_def e_def)
        ultimately obtain c t where
          t: "refreshLink li meta kind ttl s3 = Some (c, t)" "link_inv {} ({} - {li}) {} t" "link_kept li s3 t"
          using runs_exD [OF refreshLink_runs [of "{}" "{}" "{}" s3 li meta kind ttl]] m by auto
        have "upserted di s events ((Some li, True, False), t, events)"
          by (rule link_kept_upserted [OF _ t(3) l3 only3]) (use t(2) in simp_all)
        moreover have "upsertLink meta di kind ttl (s, events) = Some ((Some li, True, False), t, events)"
          unfolding pre using Some True t(1) li(1)
          by (simp add: mod_link_def s3_def s2_def s1_def e_def link_key_def)
        ultimately show ?thesis by (simp add: runs_Some)
      qed
    next
      case no: None
      from runs_exD [OF allocLink_runs [OF inv, of events]] obtain p t es where
        al: "allocLink (s, events) = Some (p, t, es)" and
        AL: "case p of None \<Rightarrow> fs_links s = [] \<and> t = s \<and> es = events
          | Some li \<Rightarrow> li < length (fs_links t) \<and> \<not> le_used (fs_links t ! li) \<and> links_only s t \<and> link_inv {li} {} {} t \<and>
              (\<exists>es'. es = events @ es' \<and> (\<forall>e \<in> set es'. dead EventEvicted e))" by auto
      show ?thesis
      proof (cases p)
        case None
        then show ?thesis using no al AL inv by (simp add: pre wp upserted_def)
      next
        case (Some li)
        with AL obtain es' where li: "li < length (fs_links t)" "\<not> le_used (fs_links t ! li)" "links_only s t"
          "link_inv {li} {} {} t" "es = events @ es'" "\<forall>e \<in> set es'. dead EventEvicted e" by auto
        have D: "di < length (fs_devices t)" "de_used (fs_devices t ! di)" "dev_Key (de_device (fs_devices t ! di)) = ?dkey"
          using only_devices(1) [OF li(3)] di by auto
        have stt: "steady t" using li(3) st by (simp add: links_only_def)
        define e where "e = (fs_links t ! li)\<lparr>
            le_link := (resetLink (le_link (fs_links t ! li)))\<lparr>link_Key := key, link_Kind := kind, link_Device := ?dkey,
              link_LocalInterface := bytes_of (meta_interfaceName meta), link_ObservedSourceMAC := meta_sourceMAC meta,
              link_FirstSeen := meta_timestamp meta, link_LastSeen := meta_timestamp meta\<rparr>,
            le_used := True, le_device := Some di, wheelSlot := None, wheelPrev := None, wheelNext := None\<rparr>"
        define d where "d = (fs_devices t ! di)\<lparr>de_links := de_links (fs_devices t ! di) @ [li]\<rparr>"
        define s1 where "s1 = t\<lparr>fs_links := (fs_links t)[li := e]\<rparr>"
        define s2 where "s2 = s1\<lparr>fs_linkByKey := (fs_linkByKey s1)(key \<mapsto> li)\<rparr>"
        define s3 where "s3 = s2\<lparr>fs_devices := (fs_devices s2)[di := d]\<rparr>"
        have slot: "wheelSlot (fs_links t ! li) = None"
          using pool_wheelD(3) [OF pool_invD(5)] li(1,2,4) by (metis link_inv_def)
        have unk: "\<forall>k. fs_linkByKey t k \<noteq> Some li"
          using pool_keysD [OF pool_invD(4)] li(2,4) by (metis link_inv_def)
        have "link_inv {li} {li} ({} - {li}) s1" unfolding s1_def
          by (rule link_rewritten [OF li(4,1) _ _ _ D(1,2)])
            (use slot unk D in \<open>auto simp: e_def same_place_def link_key_def lkey\<close>)
        then have "link_inv {li} {li} {} s1" by simp
        then have "link_inv {li} {li} {} s2" unfolding s2_def
          by (rule link_indexed) (use li(1) in \<open>simp_all add: s1_def e_def link_key_def\<close>)
        then have "link_inv ({li} - {li}) {li} {} s3" unfolding s3_def
          by (rule link_attached) (use li(1) D in \<open>simp_all add: s2_def s1_def e_def d_def\<close>)
        moreover have only3: "links_only s s3"
        proof -
          have "link_ok m e" if "link_ok m (fs_links t ! li)" for m
            using that by (simp add: e_def link_ok_def resetLink_zero zero_link_def)
          then have "steady s1" using steady_link [OF stt] steadyD(7) [OF stt li(1)] by (simp add: s1_def)
          then have "steady s3"
            by (auto simp: steady_def s3_def s2_def s1_def d_def D(1) dest!: set_update_subset_insert [THEN subsetD])
          moreover have "conf s3 = conf t" "dns_core s3 = dns_core t" "device_core s3 = device_core t"
            using D(1) by (auto simp: cores s3_def s2_def s1_def d_def map_update intro!: list_update_same_conv [THEN iffD2])
          ultimately show ?thesis using li(3) by (simp add: links_only_def s3_def s2_def s1_def)
        qed
        moreover have "steady s3" using only3 st by (simp add: links_only_def)
        moreover have l3: "li < length (fs_links s3)" "le_used (fs_links s3 ! li)" "le_device (fs_links s3 ! li) = Some di"
          using li(1) by (simp_all add: s3_def s2_def s1_def e_def)
        ultimately obtain c u where
          u: "refreshLink li meta kind ttl s3 = Some (c, u)" "link_inv {} ({li} - {li}) {} u" "link_kept li s3 u"
          using runs_exD [OF refreshLink_runs [of "{}" "{li}" "{}" s3 li meta kind ttl]] m by auto
        have "upserted di s es ((Some li, True, True), u, es)"
          by (rule link_kept_upserted [OF _ u(3) l3 only3]) (use u(2) in simp_all)
        then have "upserted di s events ((Some li, True, True), u, es)" using li(5,6) by (auto simp: upserted_def)
        moreover have "upsertLink meta di kind ttl (s, events) = Some ((Some li, True, True), u, es)"
          unfolding pre using no Some al li(1) D u(1)
          by (simp add: mod_link_def mod_device_def s3_def s2_def s1_def e_def d_def)
        ultimately show ?thesis by (simp add: runs_Some)
      qed
    qed
  qed
qed

end
