(* ===== verification/FusionSteps.thy ===== *)
theory FusionSteps
  imports FusionInv
begin

text \<open>
  The invariant through the DNS cache, the services, the promotion and merging of devices and the device
  of an observation.
\<close>

section \<open>Records\<close>

lemma scheduleDNS_runs:
  assumes inv: "cache_inv Z V W s" and i: "i < length (fs_dns s)" "ne_used (fs_dns s ! i)"
  shows "runs (scheduleDNS i now expiry s) (\<lambda>s'. cache_inv Z (V - {i}) W s' \<and> dns_only s s' \<and>
    fs_devices s' = fs_devices s \<and> fs_freeDNS s' = fs_freeDNS s \<and> dns_frame i s s' \<and>
    wheel_node.more (fs_dns s' ! i) = wheel_node.more (fs_dns s ! i) \<and>
    wheelSlot (fs_dns s' ! i) = Some ((fs_wheelCursor s + ticks_until now expiry) mod length (fs_dnsHeads s)) \<and>
    wheelRound (fs_dns s' ! i) = (ticks_until now expiry - 1) div length (fs_dnsHeads s))"
proof -
  have p: "pool_inv ne_used ne_device ne_key Z V (fs_dns s) (fs_dnsHeads s) (fs_freeDNS s) (fs_dnsByKey s)
     (dns_owners (fs_devices s))" and t: "dns_tags (fs_dns s)" and x: "expiry_ok W (fs_dns s) (fs_devices s)"
    using inv by (simp_all add: cache_inv_def)
  from runs_exD [OF dns_pool.scheduled [OF p i, of "fs_wheelCursor s" now expiry]] obtain rs heads where
    u: "schedule (fs_dns s, fs_dnsHeads s) (fs_wheelCursor s) i now expiry = Some (rs, heads)"
    and P: "pool_inv ne_used ne_device ne_key Z (V - {i}) rs heads (fs_freeDNS s) (fs_dnsByKey s) (dns_owners (fs_devices s))"
    and fr: "wheel_frame i (fs_dns s, fs_dnsHeads s) (rs, heads)"
    and slot: "wheelSlot (rs ! i) = Some ((fs_wheelCursor s + ticks_until now expiry) mod length (fs_dnsHeads s))"
      "wheelRound (rs ! i) = (ticks_until now expiry - 1) div length (fs_dnsHeads s)" by auto
  have len: "length rs = length (fs_dns s)" using fr by (rule wheel_frame_length)
  have more: "wheel_node.more (rs ! j) = wheel_node.more (fs_dns s ! j)" if "j < length rs" for j
    using wheel_frame_more [OF fr] that len by simp
  have eq: "ne_used (rs ! j) = ne_used (fs_dns s ! j)" "ne_key (rs ! j) = ne_key (fs_dns s ! j)"
    "ne_device (rs ! j) = ne_device (fs_dns s ! j)" "ne_expiresAt (rs ! j) = ne_expiresAt (fs_dns s ! j)" if "j < length rs" for j
    using dns_more [OF more] that by simp_all
  have tags: "dns_tags rs" using t len by (simp add: dns_tags_def eq)
  have exp: "expiry_ok W rs (fs_devices s)"
    unfolding expiry_ok_def
  proof (intro allI impI)
    fix di
    assume di: "di < length (fs_devices s)" "de_used (fs_devices s ! di)" "di \<notin> W"
    have "latest_of rs (de_dns (fs_devices s ! di)) = latest_of (fs_dns s) (de_dns (fs_devices s ! di))"
      by (rule latest_of_cong) (use dns_listD(2) [OF inv di(1)] len eq in auto)
    then show "de_dnsExpiry (fs_devices s ! di) = latest_of rs (de_dns (fs_devices s ! di))"
      using x di by (simp add: expiry_ok_def)
  qed
  define s' where "s' = s\<lparr>fs_dns := rs, fs_dnsHeads := heads\<rparr>"
  have h: "length heads = length (fs_dnsHeads s)" using fr by (simp add: wheel_frame_def)
  have only: "dns_only s s'" using h len by (simp add: dns_only_def s'_def cores steady_def)
  have "dns_frame i s s'" using fr more len by (auto simp: dns_frame_def s'_def wheel_frame_def)
  moreover have "scheduleDNS i now expiry s = Some s'" by (simp add: scheduleDNS_def u s'_def)
  ultimately show ?thesis using P tags exp slot only more len i by (simp add: wp cache_inv_def s'_def)
qed

text \<open>Writing a record. The expiry of its old owner is out of date unless it stays the same.\<close>

lemma dns_rewritten:
  assumes inv: "cache_inv Z V W s" and i: "i < length (fs_dns s)"
    and e: "ne_used e" "same_place e (fs_dns s ! i)" "ne_device e = Some di" "dnk_device (ne_key e) = di"
    and di: "di < length (fs_devices s)" "de_used (fs_devices s ! di)"
    and o: "ne_used (fs_dns s ! i) \<and> ne_device (fs_dns s ! i) = Some di \<or> i \<in> Z"
    and k: "ne_key e = ne_key (fs_dns s ! i) \<and> ne_used (fs_dns s ! i) \<or> (\<forall>k. fs_dnsByKey s k \<noteq> Some i)"
    and V: "wheelSlot (fs_dns s ! i) = None \<Longrightarrow> i \<in> V'" "V \<subseteq> V'"
    and W: "W \<subseteq> W'" "ne_expiresAt e = ne_expiresAt (fs_dns s ! i) \<or> i \<in> Z \<or> di \<in> W'"
  shows "cache_inv Z V' W' (s\<lparr>fs_dns := (fs_dns s)[i := e]\<rparr>)"
proof -
  have "pool_inv ne_used ne_device ne_key Z V' ((fs_dns s)[i := e]) (fs_dnsHeads s) (fs_freeDNS s) (fs_dnsByKey s)
     (dns_owners (fs_devices s))"
    by (rule dns_pool.written [where U = V]) (use inv i e di o k V in \<open>auto simp: cache_inv_def\<close>)
  moreover have "dns_tags ((fs_dns s)[i := e])"
  proof (rule dns_tagsI)
    fix j
    assume "j < length ((fs_dns s)[i := e])" "ne_used ((fs_dns s)[i := e] ! j)"
    then show "ne_device ((fs_dns s)[i := e] ! j) = Some (dnk_device (ne_key ((fs_dns s)[i := e] ! j)))"
      using inv e by (cases "j = i") (auto simp: cache_inv_def dns_tags_def)
  qed
  moreover have "expiry_ok W' ((fs_dns s)[i := e]) (fs_devices s)"
    unfolding expiry_ok_def
  proof (intro allI impI)
    fix dj
    assume dj: "dj < length (fs_devices s)" "de_used (fs_devices s ! dj)" "dj \<notin> W'"
    note m = dns_listD(2) [OF inv dj(1)]
    have "ne_expiresAt e = ne_expiresAt (fs_dns s ! i)" if "i \<in> set (de_dns (fs_devices s ! dj))"
      using that m [of i] o W(2) dj(3) by auto
    then have "latest_of ((fs_dns s)[i := e]) (de_dns (fs_devices s ! dj)) = latest_of (fs_dns s) (de_dns (fs_devices s ! dj))"
      by (intro latest_of_cong) (use m in \<open>auto simp: nth_updated\<close>)
    then show "de_dnsExpiry (fs_devices s ! dj) = latest_of ((fs_dns s)[i := e]) (de_dns (fs_devices s ! dj))"
      using inv dj W(1) by (auto simp: cache_inv_def expiry_ok_def)
  qed
  ultimately show ?thesis by (simp add: cache_inv_def)
qed

lemma dns_forgotten:
  assumes "cache_inv Z V W s"
  shows "cache_inv Z V W (s\<lparr>fs_dnsByKey := (fs_dnsByKey s)(k := None)\<rparr>)"
    and "i < length (fs_dns s) \<Longrightarrow> ne_key (fs_dns s ! i) = k \<Longrightarrow> ((fs_dnsByKey s)(k := None)) k' \<noteq> Some i"
  using assms dns_pool.forgotten [of Z V "fs_dns s" "fs_dnsHeads s" "fs_freeDNS s" "fs_dnsByKey s" "dns_owners (fs_devices s)"]
  by (simp_all add: cache_inv_def)

lemma dns_indexed:
  assumes "cache_inv Z V W s" "i < length (fs_dns s)" "ne_used (fs_dns s ! i)" "k = ne_key (fs_dns s ! i)"
  shows "cache_inv Z V W (s\<lparr>fs_dnsByKey := (fs_dnsByKey s)(k \<mapsto> i)\<rparr>)"
  using assms dns_pool.indexed [of Z V "fs_dns s" "fs_dnsHeads s" "fs_freeDNS s" "fs_dnsByKey s" "dns_owners (fs_devices s)"]
  by (simp add: cache_inv_def)

lemma dns_attached:
  assumes inv: "cache_inv Z V W s" and i: "i < length (fs_dns s)" "ne_used (fs_dns s ! i)"
    "ne_device (fs_dns s ! i) = Some di" "i \<in> Z" and di: "di < length (fs_devices s)"
    and d: "de_used d = de_used (fs_devices s ! di)" "de_dns d = de_dns (fs_devices s ! di) @ [i]"
      "de_dnsExpiry d = max (ne_expiresAt (fs_dns s ! i)) (de_dnsExpiry (fs_devices s ! di))"
  shows "cache_inv (Z - {i}) V W (s\<lparr>fs_devices := (fs_devices s)[di := d]\<rparr>)"
proof -
  have own: "dns_owners (fs_devices s) ! di = (de_used (fs_devices s ! di), de_dns (fs_devices s ! di))" using di by simp
  have p: "pool_inv ne_used ne_device ne_key Z V (fs_dns s) (fs_dnsHeads s) (fs_freeDNS s) (fs_dnsByKey s)
     (dns_owners (fs_devices s))" and t: "dns_tags (fs_dns s)" and x: "expiry_ok W (fs_dns s) (fs_devices s)"
    using inv by (simp_all add: cache_inv_def)
  have "expiry_ok W (fs_dns s) ((fs_devices s)[di := d])"
    using x d di by (auto simp: expiry_ok_def nth_list_update latest_of_append)
  then show ?thesis using dns_pool.attached [OF p i own] t d by (simp add: cache_inv_def owners_update)
qed

lemma dns_slotD:
  assumes "cache_inv Z V W s" "i < length (fs_dns s)" "ne_used (fs_dns s ! i)" "wheelSlot (fs_dns s ! i) = None"
  shows "i \<in> V"
proof -
  have "pool_wheel ne_used V (fs_dns s) (fs_dnsHeads s)" using assms(1) by (simp add: cache_inv_def pool_inv_def)
  from pool_wheelD(4) [OF this assms(2,3)] assms(4) show ?thesis by blast
qed

lemma dns_written_only: "dns_only s (s\<lparr>fs_dns := (fs_dns s)[i := e]\<rparr>)"
  by (simp add: dns_only_def cores steady_def)

lemma dns_tagD:
  "cache_inv Z V W s \<Longrightarrow> i < length (fs_dns s) \<Longrightarrow> ne_used (fs_dns s ! i) \<Longrightarrow>
   ne_device (fs_dns s ! i) = Some (dnk_device (ne_key (fs_dns s ! i)))"
  by (simp add: cache_inv_def dns_tags_def)

text \<open>The expiry of the owner after the expiry of one record was written.\<close>

lemma expiry_set:
  assumes inv: "cache_inv Z V (insert di W) s" and di: "di < length (fs_devices s)"
    and t: "di \<notin> W \<Longrightarrow> de_used (fs_devices s ! di) \<Longrightarrow> t = latest_of (fs_dns s) (de_dns (fs_devices s ! di))"
  shows "cache_inv Z V W (s\<lparr>fs_devices := (fs_devices s)[di := (fs_devices s ! di)\<lparr>de_dnsExpiry := t\<rparr>]\<rparr>)"
  using inv t di by (auto simp: cache_inv_def expiry_ok_def same_owners nth_list_update)

lemma dns_expiry_only:
  "di < length (fs_devices s) \<Longrightarrow>
   dns_only s (s\<lparr>fs_devices := (fs_devices s)[di := (fs_devices s ! di)\<lparr>de_dnsExpiry := t\<rparr>]\<rparr>)"
  by (auto simp: dns_only_def cores map_update steady_def intro!: list_update_same_conv [THEN iffD2]
      dest!: set_update_subset_insert [THEN subsetD])

lemma setDNSExpiry_runs:
  assumes inv: "cache_inv {} V W s" and i: "i < length (fs_dns s)" "ne_used (fs_dns s ! i)"
  shows "runs (setDNSExpiry i now expires s) (\<lambda>s'. cache_inv {} (V - {i}) W s' \<and> dns_only s s' \<and>
    map de_dns (fs_devices s') = map de_dns (fs_devices s) \<and>
    ne_used (fs_dns s' ! i) \<and> ne_expiresAt (fs_dns s' ! i) = expires)"
proof -
  let ?e = "fs_dns s ! i"
  obtain di where di: "di < length (fs_devices s)" "ne_device ?e = Some di" "de_used (fs_devices s ! di)"
    using dns_ownerD [OF inv i] .
  let ?d = "fs_devices s ! di"
  define s1 where "s1 = s\<lparr>fs_dns := (fs_dns s)[i := ?e\<lparr>ne_expiresAt := expires\<rparr>]\<rparr>"
  have inv1: "cache_inv {} V (insert di W) s1" unfolding s1_def
    by (rule dns_rewritten [OF inv i(1) _ _ _ _ di(1,3)])
      (use i di dns_tagD [OF inv i] dns_slotD [OF inv i] in \<open>auto simp: same_place_def same_links_def\<close>)
  have i1: "i < length (fs_dns s1)" "ne_used (fs_dns s1 ! i)" using i by (simp_all add: s1_def)
  from runs_exD [OF scheduleDNS_runs [OF inv1 i1, of now expires]] obtain s2 where
    s2: "scheduleDNS i now expires s1 = Some s2" "cache_inv {} (V - {i}) (insert di W) s2" "dns_only s1 s2"
      "fs_devices s2 = fs_devices s1" "dns_frame i s1 s2" "wheel_node.more (fs_dns s2 ! i) = wheel_node.more (fs_dns s1 ! i)"
    by blast
  have dev2: "fs_devices s2 = fs_devices s" using s2(4) by (simp add: s1_def)
  have e2: "ne_used (fs_dns s2 ! i)" "ne_expiresAt (fs_dns s2 ! i) = expires" "ne_device (fs_dns s2 ! i) = Some di"
    using dns_more [OF s2(6)] i di by (simp_all add: s1_def)
  have others: "ne_expiresAt (fs_dns s2 ! j) = ne_expiresAt (fs_dns s ! j)" if "j < length (fs_dns s)" "j \<noteq> i" for j
    using s2(5) that dns_more [of "fs_dns s2 ! j" "fs_dns s1 ! j"] by (simp add: dns_frame_def s1_def)
  note m = dns_listD(2) [OF inv di(1)]
  have mi: "i \<in> set (de_dns ?d)" using m [of i] i di by simp
  have exp: "de_dnsExpiry ?d = latest_of (fs_dns s) (de_dns ?d)" if "di \<notin> W"
    using inv di that by (simp add: cache_inv_def expiry_ok_def)
  define t where "t = (if expires > de_dnsExpiry ?d then expires
     else if ne_expiresAt ?e = de_dnsExpiry ?d \<and> expires < ne_expiresAt ?e then latest_of (fs_dns s2) (de_dns ?d)
     else de_dnsExpiry ?d)"
  have t: "t = latest_of (fs_dns s2) (de_dns ?d)" if "di \<notin> W"
  proof -
    consider "expires > de_dnsExpiry ?d" | "\<not> expires > de_dnsExpiry ?d" "ne_expiresAt ?e = de_dnsExpiry ?d \<and> expires < ne_expiresAt ?e"
      | "\<not> expires > de_dnsExpiry ?d" "\<not> (ne_expiresAt ?e = de_dnsExpiry ?d \<and> expires < ne_expiresAt ?e)" by blast
    then show ?thesis
    proof cases
      case 1
      have "Max (insert 0 ((\<lambda>j. ne_expiresAt (fs_dns s2 ! j)) ` set (de_dns ?d))) = expires"
      proof (rule Max_eqI)
        show "finite (insert 0 ((\<lambda>j. ne_expiresAt (fs_dns s2 ! j)) ` set (de_dns ?d)))" by simp
        show "expires \<in> insert 0 ((\<lambda>j. ne_expiresAt (fs_dns s2 ! j)) ` set (de_dns ?d))"
          using mi e2(2) by (auto intro!: image_eqI [of _ _ i])
        fix y
        assume "y \<in> insert 0 ((\<lambda>j. ne_expiresAt (fs_dns s2 ! j)) ` set (de_dns ?d))"
        then consider "y = 0" | j where "y = ne_expiresAt (fs_dns s2 ! j)" "j \<in> set (de_dns ?d)" by auto
        then show "y \<le> expires"
        proof cases
          case 1
          then show ?thesis using \<open>expires > _\<close> exp [OF that] latest_of_nonneg [of "fs_dns s" "de_dns ?d"] by simp
        next
          case (2 j)
          then show ?thesis
            using others [of j] m [of j] e2(2) \<open>expires > _\<close> exp [OF that] latest_of_ge [of j "de_dns ?d" "fs_dns s"]
            by (cases "j = i") auto
        qed
      qed
      then show ?thesis using 1 by (simp add: t_def latest_of_Max)
    next
      case 2
      then show ?thesis by (simp add: t_def)
    next
      case 3
      have "latest_of (fs_dns s2) (de_dns ?d) = latest_of (fs_dns s) (de_dns ?d)"
        by (rule latest_of_less [where i = i]) (use 3 others m e2(2) exp [OF that] mi in auto)
      then show ?thesis using 3 exp [OF that] by (simp add: t_def)
    qed
  qed
  define s' where "s' = s2\<lparr>fs_devices := (fs_devices s2)[di := (fs_devices s2 ! di)\<lparr>de_dnsExpiry := t\<rparr>]\<rparr>"
  have d2: "di < length (fs_devices s2)" using di(1) dev2 by simp
  have post: "cache_inv {} (V - {i}) W s'" unfolding s'_def
    by (rule expiry_set [OF s2(2) d2]) (use t dev2 in simp)
  have same: "s2\<lparr>fs_devices := fs_devices s\<rparr> = s2" using dev2 by simp
  have run: "setDNSExpiry i now expires s = Some s'"
    using i(1) s2(1) di d2 recomputeDNSExpiry_Some [OF s2(2) d2] dev2 same
    by (simp add: Let_def setDNSExpiry_def mod_dns_def mod_device_def s1_def [symmetric] s'_def t_def)
  have "dns_only s s'"
    using only_trans(2) [OF only_trans(2) [OF dns_written_only [of s i "?e\<lparr>ne_expiresAt := expires\<rparr>"] s2(3) [unfolded s1_def]]
        dns_expiry_only [OF d2, of t]] by (simp add: s'_def)
  moreover have "map de_dns (fs_devices s') = map de_dns (fs_devices s)"
    using d2 by (auto simp: s'_def dev2 map_update intro!: list_update_same_conv [THEN iffD2])
  ultimately show ?thesis using post e2 by (simp add: run wp s'_def)
qed

lemma cacheDNS_runs:
  assumes inv: "cache_inv {} {} {} s" and di: "di < length (fs_devices s)" "de_used (fs_devices s ! di)"
  shows "runs (cacheDNS di (Some r) now s) (\<lambda>(c, s'). cache_inv {} {} {} s' \<and> dns_only s s')"
proof -
  let ?key = "makeDNSKey di r"
  have tag: "dnk_device ?key = di" by (simp add: makeDNSKey_def Let_def split: prod.splits)
  have keyD: "i < length (fs_dns s) \<and> ne_used (fs_dns s ! i) \<and> ne_key (fs_dns s ! i) = ?key" if "fs_dnsByKey s ?key = Some i" for i
  proof -
    have "pool_keys ne_used ne_key (fs_dns s) (fs_dnsByKey s)" using inv by (simp add: cache_inv_def pool_inv_def)
    from pool_keysD [OF this that] show ?thesis .
  qed
  show ?thesis
  proof (cases "fs_dnsByKey s ?key")
    case (Some i)
    note i = keyD [OF Some]
    define s1 where "s1 = (if rr_TTL r = 0 then s else s\<lparr>fs_dns := (fs_dns s)[i := (fs_dns s ! i)\<lparr>
       ne_record := (ne_record (fs_dns s ! i))\<lparr>rr_TTL := rr_TTL r, rr_CacheFlush := rr_CacheFlush r\<rparr>\<rparr>]\<rparr>)"
    define exp where "exp = (if rr_TTL r = 0 then now + Second else now + ttl_duration (rr_TTL r))"
    obtain dj where dj: "dj < length (fs_devices s)" "ne_device (fs_dns s ! i) = Some dj" "de_used (fs_devices s ! dj)"
      using dns_ownerD [OF inv] i by blast
    have "cache_inv {} {} {} (s\<lparr>fs_dns := (fs_dns s)[i := (fs_dns s ! i)\<lparr>
       ne_record := (ne_record (fs_dns s ! i))\<lparr>rr_TTL := rr_TTL r, rr_CacheFlush := rr_CacheFlush r\<rparr>\<rparr>]\<rparr>)"
      by (rule dns_rewritten [OF inv _ _ _ _ _ dj(1,3)])
        (use i dj dns_tagD [OF inv, of i] dns_slotD [OF inv, of i] in \<open>auto simp: same_place_def same_links_def\<close>)
    then have inv1: "cache_inv {} {} {} s1" using inv by (simp add: s1_def)
    have only: "dns_only s s1" by (simp add: s1_def dns_written_only)
    have i1: "i < length (fs_dns s1)" "ne_used (fs_dns s1 ! i)" using i by (simp_all add: s1_def)
    from runs_exD [OF setDNSExpiry_runs [OF inv1 i1, of now exp]] obtain t where
      t: "setDNSExpiry i now exp s1 = Some t" "cache_inv {} {} {} t" "dns_only s1 t" by auto
    have "cacheDNS di (Some r) now s = Some (False, t)"
      using Some i t(1) by (simp add: cacheDNS_def s1_def exp_def mod_dns_def Let_def split: if_splits)
    then show ?thesis using t only only_trans(2) [OF only t(3)] by (simp add: wp)
  next
    case none: None
    show ?thesis
    proof (cases "rr_TTL r = 0")
      case True
      then show ?thesis using none inv by (simp add: cacheDNS_def wp Let_def)
    next
      case False
      from runs_exD [OF allocDNS_runs [OF inv]] obtain p t where
        al: "allocDNS s = Some (p, t)" and
        AL: "case p of None \<Rightarrow> fs_dns s = [] \<and> t = s
          | Some i \<Rightarrow> i < length (fs_dns t) \<and> \<not> ne_used (fs_dns t ! i) \<and> dns_only s t \<and> cache_inv {i} {} {} t" by auto
      show ?thesis
      proof (cases p)
        case None
        then show ?thesis using none False al AL inv by (simp add: cacheDNS_def wp Let_def)
      next
        case (Some i)
        with AL have i: "i < length (fs_dns t)" "\<not> ne_used (fs_dns t ! i)" "dns_only s t" "cache_inv {i} {} {} t" by auto
        have D: "di < length (fs_devices t)" "de_used (fs_devices t ! di)" using only_devices(2) [OF i(3)] di by auto
        define e where "e = (fs_dns t ! i)\<lparr>ne_used := True, ne_key := ?key, ne_device := Some di, ne_expiresAt := 0,
            wheelSlot := None, wheelPrev := None, wheelNext := None, ne_record := cloneDNSRecord (ne_record (fs_dns t ! i)) r\<rparr>"
        define d where "d = (fs_devices t ! di)\<lparr>de_dns := de_dns (fs_devices t ! di) @ [i]\<rparr>"
        define s1 where "s1 = t\<lparr>fs_dns := (fs_dns t)[i := e]\<rparr>"
        define s2 where "s2 = s1\<lparr>fs_dnsByKey := (fs_dnsByKey s1)(?key \<mapsto> i)\<rparr>"
        define s3 where "s3 = s2\<lparr>fs_devices := (fs_devices s2)[di := d]\<rparr>"
        have slot: "wheelSlot (fs_dns t ! i) = None"
          using pool_wheelD(3) [OF pool_invD(5)] i(1,2,4) by (metis cache_inv_def)
        have unk: "\<forall>k. fs_dnsByKey t k \<noteq> Some i"
          using pool_keysD [OF pool_invD(4)] i(2,4) by (metis cache_inv_def)
        have "cache_inv {i} {i} {} s1" unfolding s1_def
          by (rule dns_rewritten [OF i(4,1) _ _ _ _ D]) (use slot unk tag in \<open>auto simp: e_def same_place_def\<close>)
        then have "cache_inv {i} {i} {} s2" unfolding s2_def
          by (rule dns_indexed) (use i(1) in \<open>simp_all add: s1_def e_def\<close>)
        moreover have "0 \<le> de_dnsExpiry (fs_devices t ! di)"
          using i(4) D latest_of_nonneg [of "fs_dns t"] by (simp add: cache_inv_def expiry_ok_def)
        ultimately have "cache_inv ({i} - {i}) {i} {} s3" unfolding s3_def
          by (intro dns_attached) (use i(1) D in \<open>simp_all add: s2_def s1_def e_def d_def\<close>)
        then have inv3: "cache_inv {} {i} {} s3" by simp
        have only3: "dns_only t s3"
          using D(1) by (auto simp: dns_only_def cores s3_def s2_def s1_def d_def map_update steady_def
              intro!: list_update_same_conv [THEN iffD2] dest!: set_update_subset_insert [THEN subsetD])
        have i3: "i < length (fs_dns s3)" "ne_used (fs_dns s3 ! i)" using i(1) by (simp_all add: s3_def s2_def s1_def e_def)
        from runs_exD [OF setDNSExpiry_runs [OF inv3 i3, of now "now + ttl_duration (rr_TTL r)"]] obtain u where
          u: "setDNSExpiry i now (now + ttl_duration (rr_TTL r)) s3 = Some u" "cache_inv {} ({i} - {i}) {} u" "dns_only s3 u" by auto
        have "cacheDNS di (Some r) now s = Some (True, u)"
          using none False al Some i(1) D u(1)
          by (simp add: cacheDNS_def mod_dns_def mod_device_def Let_def s3_def s2_def s1_def e_def d_def)
        moreover have "dns_only s u" using only_trans(2) i(3) only3 u(3) by blast
        ultimately show ?thesis using u(2) by (simp add: wp)
      qed
    qed
  qed
qed

section \<open>Changes to the contents of a device\<close>

text \<open>A device whose contents change but whose key stays.\<close>

definition device_put :: "nat \<Rightarrow> DiscoveredDevice \<Rightarrow> fusionState \<Rightarrow> fusionState" where
  "device_put di d s = s\<lparr>fs_devices := (fs_devices s)[di := (fs_devices s ! di)\<lparr>de_device := d\<rparr>]\<rparr>"

lemma set_device_Some: "di < length (fs_devices s) \<Longrightarrow> set_device di d s = Some (device_put di d s)"
  by (simp add: set_device_def mod_device_def device_put_def)

lemma device_put_inv:
  assumes "di < length (fs_devices s)" "dev_Key d = dev_Key (de_device (fs_devices s ! di))"
  shows "link_inv X U T (device_put di d s) = link_inv X U T s" "cache_inv Z V W (device_put di d s) = cache_inv Z V W s"
    "device_inv Y (device_put di d s) = device_inv Y s"
    "steady s \<Longrightarrow> device_ok (cfg_MaxAlternatives (fs_cfg s)) d \<Longrightarrow> steady (device_put di d s)"
    "conf (device_put di d s) = conf s"
proof -
  let ?s = "device_put di d s"
  have "link_core ?s = link_core s" "dns_core ?s = dns_core s"
    using assms by (auto simp: cores device_put_def map_update intro!: list_update_same_conv [THEN iffD2])
  then show "link_inv X U T ?s = link_inv X U T s" "cache_inv Z V W ?s = cache_inv Z V W s"
    using link_inv_cong cache_inv_cong by blast+
  have l: "length (fs_devices ?s) = length (fs_devices s)" "fs_freeDevices ?s = fs_freeDevices s" "fs_deviceByKey ?s = fs_deviceByKey s"
    by (simp_all add: device_put_def)
  have e: "de_used (fs_devices ?s ! i) = de_used (fs_devices s ! i)"
    "dev_Key (de_device (fs_devices ?s ! i)) = dev_Key (de_device (fs_devices s ! i))" if "i < length (fs_devices s)" for i
    using that assms by (auto simp: device_put_def nth_updated)
  have "pool_free de_used Y (fs_devices ?s) f = pool_free de_used Y (fs_devices s) f" for f
    using l e by (auto simp: pool_free_def)
  then show "device_inv Y ?s = device_inv Y s" using l e by (simp add: device_inv_def cong: conj_cong)
  show "steady ?s" if "steady s" "device_ok (cfg_MaxAlternatives (fs_cfg s)) d"
    using that by (auto simp: steady_def device_put_def dest!: set_update_subset_insert [THEN subsetD])
  show "conf ?s = conf s" by (simp add: device_put_def conf_def)
qed

lemma device_put_fusion_inv:
  "fusion_inv s \<Longrightarrow> di < length (fs_devices s) \<Longrightarrow> dev_Key d = dev_Key (de_device (fs_devices s ! di)) \<Longrightarrow>
   device_ok (cfg_MaxAlternatives (fs_cfg s)) d \<Longrightarrow> fusion_inv (device_put di d s)"
  by (simp add: fusion_inv_def device_put_inv)

section \<open>Services\<close>

lemma findService_less: "findService ss x = Some i \<Longrightarrow> i < length (live ss)"
proof -
  have "find_service l x n = Some i \<Longrightarrow> i < length l + n" for l n
    by (induction l arbitrary: n) (fastforce split: if_splits)+
  from this [of "live ss" 0] show "findService ss x = Some i \<Longrightarrow> i < length (live ss)" by (simp add: findService_def)
qed

lemma ensureService_runs: "runs (ensureService ss x) (\<lambda>(i, ss'). i < length (live ss'))"
  by (auto simp: ensureService_def wp Let_def findService_less split: option.splits)

lemma ptr_services_runs: "runs (ptr_services es ss) (\<lambda>_. True)"
proof (induction es arbitrary: ss)
  case (Cons e es)
  show ?case
    by (auto simp: wp intro!: Cons.IH runs_mono [OF ensureService_runs])
qed (simp add: wp)

lemma detail_services_runs: "runs (detail_services es ss) (\<lambda>_. True)"
proof (induction es arbitrary: ss)
  case (Cons e es)
  show ?case
    by (auto simp: wp Let_def intro!: Cons.IH dest: findService_less split: option.splits)
qed (simp add: wp)

lemma used_records_runs: "runs (used_records s is) (\<lambda>_. True)"
proof (induction "is")
  case (Cons i "is")
  then show ?case by (auto simp: wp elim!: runs_mono)
qed (simp add: wp)

lemma rebuildServices_runs:
  assumes "di < length (fs_devices s)"
  shows "runs (rebuildServices di s) (\<lambda>(b, s'). \<exists>ss. s' = device_put di ((de_device (fs_devices s ! di))\<lparr>dev_Services := ss\<rparr>) s)"
proof -
  let ?ss = "slab_reset (\<lambda>_. zero_service) (dev_Services (de_device (fs_devices s ! di)))"
  obtain es where es: "used_records s (de_dns (fs_devices s ! di)) = Some es" using runs_exD [OF used_records_runs] by blast
  obtain s1 where s1: "ptr_services es ?ss = Some s1" using runs_exD [OF ptr_services_runs] by blast
  obtain s2 where s2: "detail_services es s1 = Some s2" using runs_exD [OF detail_services_runs] by blast
  show ?thesis using assms es s1 s2
    by (auto simp: rebuildServices_def wp Let_def device_put_def mod_device_def)
qed

lemma device_ok_services [simp]: "device_ok m (d\<lparr>dev_Services := ss\<rparr>) = device_ok m d"
  by (simp add: device_ok_def)

lemma rebuilt_inv:
  assumes "fusion_inv s" "di < length (fs_devices s)"
  shows "runs (rebuildServices di s) (\<lambda>(b, s'). fusion_inv s' \<and> conf s' = conf s \<and> fs_deviceByKey s' = fs_deviceByKey s \<and>
    de_used (fs_devices s' ! di) = de_used (fs_devices s ! di) \<and>
    dev_Key (de_device (fs_devices s' ! di)) = dev_Key (de_device (fs_devices s ! di)))"
proof -
  have "fusion_inv (device_put di ((de_device (fs_devices s ! di))\<lparr>dev_Services := ss\<rparr>) s)" for ss
    by (rule device_put_fusion_inv [OF assms]) (use steadyD(6) [OF fusion_invD(1) [OF assms(1)] assms(2)] in simp_all)
  then show ?thesis
    by (intro runs_mono [OF rebuildServices_runs [OF assms(2)]]) (auto simp: device_put_def conf_def assms(2))
qed

section \<open>Promotion\<close>

lemma steady_index [simp]:
  "steady (s\<lparr>fs_linkByKey := m\<rparr>) = steady s" "steady (s\<lparr>fs_dnsByKey := n\<rparr>) = steady s"
  by (simp_all add: steady_def)

text \<open>
  While the links of a device get its new key, \<open>T\<close> holds those that still carry the old one. No index of
  the map leads to the wrong device in between.
\<close>

lemma promote_links_runs:
  "link_inv {} {} T s \<Longrightarrow> set lis \<subseteq> T \<Longrightarrow> di < length (fs_devices s) \<Longrightarrow> de_used (fs_devices s ! di) \<Longrightarrow>
   dev_Key (de_device (fs_devices s ! di)) = key \<Longrightarrow>
   \<forall>li \<in> set lis. li < length (fs_links s) \<and> le_used (fs_links s ! li) \<and> le_device (fs_links s ! li) = Some di \<Longrightarrow>
   runs (promote_links lis key s) (\<lambda>s'. link_inv {} {} (T - set lis) s' \<and> links_only s s' \<and> fs_devices s' = fs_devices s)"
proof (induction lis arbitrary: s T)
  case Nil
  then show ?case by (simp add: wp)
next
  case (Cons li lis)
  have li: "li < length (fs_links s)" "le_used (fs_links s ! li)" "le_device (fs_links s ! li) = Some di"
    using Cons.prems(6) by simp_all
  let ?l = "le_link (fs_links s ! li)"
  define l where "l = ?l\<lparr>link_Device := key, link_Key := (link_Key ?l)\<lparr>lk_Device := key\<rparr>\<rparr>"
  define e where "e = (fs_links s ! li)\<lparr>le_link := l\<rparr>"
  define s1 where "s1 = s\<lparr>fs_linkByKey := (fs_linkByKey s)(link_key (fs_links s ! li) := None)\<rparr>"
  define s2 where "s2 = s1\<lparr>fs_links := (fs_links s1)[li := e]\<rparr>"
  define s3 where "s3 = s2\<lparr>fs_linkByKey := (fs_linkByKey s2)(link_Key l \<mapsto> li)\<rparr>"
  have "link_inv {} {} T s1" unfolding s1_def by (rule link_forgotten(1) [OF Cons.prems(1)])
  then have "link_inv {} {} (T - {li}) s2" unfolding s2_def
    by (rule link_rewritten [where di = di])
      (use li Cons.prems(3-5) link_forgotten(2) [OF Cons.prems(1) li(1) refl] link_slotD [OF Cons.prems(1) li(1,2)]
        in \<open>auto simp: s1_def e_def l_def same_place_def same_links_def link_key_def\<close>)
  then have inv3: "link_inv {} {} (T - {li}) s3" unfolding s3_def
    by (rule link_indexed) (use li in \<open>simp_all add: s2_def s1_def e_def link_key_def\<close>)
  have only: "links_only s s3"
  proof -
    have "steady s3" if st: "steady s"
      using steady_link [of s e li] steadyD(7) [OF st li(1)] st
      by (simp add: s3_def s2_def s1_def link_ok_def e_def l_def)
    then show ?thesis by (simp add: links_only_def s3_def s2_def s1_def cores)
  qed
  have run: "promote_links (li # lis) key s = promote_links lis key s3"
    using li by (simp add: set_link_def mod_link_def s3_def s2_def s1_def e_def l_def link_key_def Let_def)
  have sub: "set lis \<subseteq> T - {li} \<or> li \<in> set lis" using Cons.prems(2) by auto
  have still: "\<forall>x \<in> set lis. x < length (fs_links s3) \<and> le_used (fs_links s3 ! x) \<and> le_device (fs_links s3 ! x) = Some di"
    using Cons.prems(6) by (auto simp: s3_def s2_def s1_def e_def nth_updated)
  have dev: "fs_devices s3 = fs_devices s" by (simp add: s3_def s2_def s1_def)
  have inv3': "link_inv {} {} (T - {li} \<union> set lis) s3"
    using inv3 by (auto simp: link_inv_def link_tags_def)
  have "runs (promote_links lis key s3) (\<lambda>s'. link_inv {} {} ((T - {li} \<union> set lis) - set lis) s' \<and> links_only s3 s' \<and> fs_devices s' = fs_devices s3)"
    by (rule Cons.IH [OF inv3' _ _ _ _ still]) (use Cons.prems(3-5) dev in auto)
  moreover have "(T - {li} \<union> set lis) - set lis = T - set (li # lis)" by auto
  ultimately show ?case unfolding run
    by (auto elim!: runs_mono simp: dev intro: only_trans(1) [OF only])
qed

lemma promote_dns_runs:
  "cache_inv {} {} {} s \<Longrightarrow>
   \<forall>i \<in> set is. i < length (fs_dns s) \<and> ne_used (fs_dns s ! i) \<and> ne_device (fs_dns s ! i) = Some di \<Longrightarrow>
   runs (promote_dns is di s) (\<lambda>s'. cache_inv {} {} {} s' \<and> dns_only s s' \<and> fs_devices s' = fs_devices s)"
proof (induction "is" arbitrary: s)
  case Nil
  then show ?case by (simp add: wp)
next
  case (Cons i "is")
  have i: "i < length (fs_dns s)" "ne_used (fs_dns s ! i)" "ne_device (fs_dns s ! i) = Some di" using Cons.prems(2) by simp_all
  have same: "(ne_key (fs_dns s ! i))\<lparr>dnk_device := di\<rparr> = ne_key (fs_dns s ! i)"
    using dns_tagD [OF Cons.prems(1) i(1,2)] i(3) by simp
  define s1 where "s1 = s\<lparr>fs_dnsByKey := (fs_dnsByKey s)(ne_key (fs_dns s ! i) := None)\<rparr>"
  define s2 where "s2 = s1\<lparr>fs_dnsByKey := (fs_dnsByKey s1)(ne_key (fs_dns s ! i) \<mapsto> i)\<rparr>"
  have inv1: "cache_inv {} {} {} s1" unfolding s1_def by (rule dns_forgotten(1) [OF Cons.prems(1)])
  then have inv2: "cache_inv {} {} {} s2" unfolding s2_def by (rule dns_indexed) (use i in \<open>simp_all add: s1_def\<close>)
  have dev: "fs_devices s2 = fs_devices s" "fs_dns s2 = fs_dns s" by (simp_all add: s2_def s1_def)
  have "(fs_dns s)[i := (fs_dns s ! i)\<lparr>ne_key := ne_key (fs_dns s ! i)\<rparr>] = fs_dns s" by simp
  then have run: "promote_dns (i # is) di s = promote_dns is di s2"
    using i same by (simp add: mod_dns_def s2_def s1_def Let_def)
  have "dns_only s s2" by (simp add: dns_only_def cores s2_def s1_def steady_def)
  moreover have "runs (promote_dns is di s2) (\<lambda>s'. cache_inv {} {} {} s' \<and> dns_only s2 s' \<and> fs_devices s' = fs_devices s2)"
    by (rule Cons.IH [OF inv2]) (use Cons.prems(2) dev in auto)
  ultimately show ?case unfolding run using only_trans(2) by (auto elim!: runs_mono simp: dev)
qed

lemma promoteDevice_runs:
  assumes inv: "fusion_inv s" and di: "di < length (fs_devices s)" "de_used (fs_devices s ! di)"
    and key: "fs_deviceByKey s key = None \<or> fs_deviceByKey s key = Some di"
  shows "runs (promoteDevice di key s) (\<lambda>s'. fusion_inv s' \<and> conf s' = conf s \<and> de_used (fs_devices s' ! di) \<and>
    dev_Key (de_device (fs_devices s' ! di)) = key)"
proof -
  note I = fusion_invD [OF inv]
  let ?d = "fs_devices s ! di"
  let ?T = "set (de_links ?d)"
  define d where "d = ?d\<lparr>de_device := (de_device ?d)\<lparr>dev_Key := key\<rparr>\<rparr>"
  define s1 where "s1 = s\<lparr>fs_devices := (fs_devices s)[di := d],
     fs_deviceByKey := (fs_deviceByKey s)(dev_Key (de_device ?d) := None, key \<mapsto> di)\<rparr>"
  have dev1: "fs_devices s1 ! dj = (if dj = di then d else fs_devices s ! dj)" if "dj < length (fs_devices s)" for dj
    using that by (simp add: s1_def nth_updated)
  have "device_inv {} s1"
    unfolding device_inv_def
  proof (intro conjI allI)
    note F = device_invD(1) [OF I(2)]
    show "pool_free de_used {} (fs_devices s1) (fs_freeDevices s1)"
    proof (rule pool_freeI)
      show "distinct (fs_freeDevices s1)" using F by (simp add: pool_free_def s1_def)
      show "j \<in> set (fs_freeDevices s1) \<longleftrightarrow> j < length (fs_devices s1) \<and> \<not> de_used (fs_devices s1 ! j) \<and> j \<notin> {}" for j
        using pool_freeD [OF F, of j] di by (cases "j = di") (simp_all add: s1_def d_def)
    qed
    fix k dj
    show "fs_deviceByKey s1 k = Some dj \<longleftrightarrow>
      dj < length (fs_devices s1) \<and> de_used (fs_devices s1 ! dj) \<and> dev_Key (de_device (fs_devices s1 ! dj)) = k"
      using device_invD(2) [OF I(2), of k dj] device_invD(2) [OF I(2), of key dj] device_invD(2) [OF I(2), of "dev_Key (de_device ?d)" dj]
        device_invD(2) [OF I(2), of "dev_Key (de_device ?d)" di] di key
      by (cases "dj = di") (auto simp: s1_def d_def)
  qed
  moreover have "steady s1"
    by (rule steadyI [OF I(1)]) (use steadyD [OF I(1)] di in \<open>auto simp: s1_def d_def conf_def nth_updated device_ok_def\<close>)
  moreover have n1: "cache_inv {} {} {} s1"
  proof -
    have "dns_core s1 = dns_core s"
      using di(1) by (auto simp: dns_core_def s1_def d_def map_update intro!: list_update_same_conv [THEN iffD2])
    then show ?thesis using I(4) cache_inv_cong by blast
  qed
  moreover have l1: "link_inv {} {} ?T s1"
  proof -
    have "link_owners (fs_devices s1) = link_owners (fs_devices s)" by (simp add: s1_def d_def same_owners)
    moreover have "link_tags ?T (fs_links s) (fs_devices s1)"
      unfolding link_tags_def
    proof (intro allI impI)
      fix j dj
      assume j: "j < length (fs_links s)" "le_used (fs_links s ! j)" "j \<notin> ?T" "le_device (fs_links s ! j) = Some dj"
      then have "dj \<noteq> di" using link_listD(2) [OF I(3) di(1), of j] by auto
      moreover have "dj < length (fs_devices s)" using link_ownerD [OF I(3) j(1,2)] j(4) by auto
      ultimately show "link_Device (le_link (fs_links s ! j)) = dev_Key (de_device (fs_devices s1 ! dj)) \<and>
        lk_Device (link_key (fs_links s ! j)) = dev_Key (de_device (fs_devices s1 ! dj))"
        using I(3) j by (simp add: dev1 link_inv_def link_tags_def)
    qed
    ultimately show ?thesis using I(3) by (simp add: link_inv_def s1_def)
  qed
  moreover have d1: "di < length (fs_devices s1)" "de_used (fs_devices s1 ! di)" "dev_Key (de_device (fs_devices s1 ! di)) = key"
    using di by (simp_all add: s1_def d_def)
  moreover have m: "\<forall>li \<in> ?T. li < length (fs_links s1) \<and> le_used (fs_links s1 ! li) \<and> le_device (fs_links s1 ! li) = Some di"
    using link_listD(2) [OF I(3) di(1)] by (simp add: s1_def)
  from runs_exD [OF promote_links_runs [OF l1 order_refl d1 m]] obtain t where
    t: "promote_links (de_links ?d) key s1 = Some t" "link_inv {} {} {} t" "links_only s1 t" "fs_devices t = fs_devices s1"
    by auto
  have tn: "cache_inv {} {} {} t" "device_inv {} t" "steady t"
    using calculation t(3) cache_inv_cong [of t s1] device_inv_cong [of t s1] by (simp_all add: links_only_def)
  have "fs_dns t = fs_dns s" using t(3) by (simp add: links_only_def dns_core_def s1_def)
  then have mn: "\<forall>i \<in> set (de_dns ?d). i < length (fs_dns t) \<and> ne_used (fs_dns t ! i) \<and> ne_device (fs_dns t ! i) = Some di"
    using dns_listD(2) [OF I(4) di(1)] by simp
  from runs_exD [OF promote_dns_runs [OF tn(1) mn]] obtain u where
    u: "promote_dns (de_dns ?d) di t = Some u" "cache_inv {} {} {} u" "dns_only t u" "fs_devices u = fs_devices t"
    by auto
  have un: "link_inv {} {} {} u" "device_inv {} u" "steady u"
    using t(2) tn u(3) link_inv_cong [of u t] device_inv_cong [of u t] by (simp_all add: dns_only_def)
  have run: "promoteDevice di key s = Some u"
    using di(1) t(1) u(1) by (simp add: promoteDevice_def mod_device_def s1_def d_def)
  have "conf u = conf s" using t(3) u(3) by (simp add: links_only_def dns_only_def) (simp add: conf_def s1_def)
  then show ?thesis using un u(2,4) t(4) d1 by (simp add: run wp fusion_inv_def)
qed

section \<open>Merging devices\<close>

lemma merge_fields_runs:
  assumes m: "1 \<le> m" "m \<le> 255" and ok: "device_ok m dst"
  shows "runs (merge_fields m dst src) (\<lambda>d. device_ok m d \<and> dev_Key d = dev_Key dst)"
proof -
  note K = mergeTextField_keeps [OF m]
  have k: "\<exists>g. mergeTextField (f dst) (f src) m = Some g \<and> text_ok (nat (m + 1)) g"
    if "f \<in> {dev_SystemName, dev_HostName, dev_ProtocolDeviceID, dev_Vendor, dev_Model, dev_Platform, dev_SoftwareVersion}" for f
  proof -
    have "text_ok (nat (m + 1)) (f dst)" using ok that by (auto simp: device_ok_def)
    from runs_exD [OF K [OF this]] show ?thesis .
  qed
  obtain f1 where f1: "mergeTextField (dev_SystemName dst) (dev_SystemName src) m = Some f1" "text_ok (nat (m + 1)) f1"
    using k [of dev_SystemName] by auto
  obtain f2 where f2: "mergeTextField (dev_HostName dst) (dev_HostName src) m = Some f2" "text_ok (nat (m + 1)) f2"
    using k [of dev_HostName] by auto
  obtain f3 where f3: "mergeTextField (dev_ProtocolDeviceID dst) (dev_ProtocolDeviceID src) m = Some f3" "text_ok (nat (m + 1)) f3"
    using k [of dev_ProtocolDeviceID] by auto
  obtain f4 where f4: "mergeTextField (dev_Vendor dst) (dev_Vendor src) m = Some f4" "text_ok (nat (m + 1)) f4"
    using k [of dev_Vendor] by auto
  obtain f5 where f5: "mergeTextField (dev_Model dst) (dev_Model src) m = Some f5" "text_ok (nat (m + 1)) f5"
    using k [of dev_Model] by auto
  obtain f6 where f6: "mergeTextField (dev_Platform dst) (dev_Platform src) m = Some f6" "text_ok (nat (m + 1)) f6"
    using k [of dev_Platform] by auto
  obtain f7 where f7: "mergeTextField (dev_SoftwareVersion dst) (dev_SoftwareVersion src) m = Some f7" "text_ok (nat (m + 1)) f7"
    using k [of dev_SoftwareVersion] by auto
  show ?thesis using f1 f2 f3 f4 f5 f6 f7 by (simp add: merge_fields_def Let_def wp device_ok_def)
qed

definition no_links :: "deviceEntry \<Rightarrow> deviceEntry" where
  "no_links d = d\<lparr>de_links := butlast (de_links d)\<rparr>"

lemma link_detached:
  assumes inv: "link_inv {} {} {} s" and di: "di < length (fs_devices s)" "de_links (fs_devices s ! di) \<noteq> []"
  defines "s' \<equiv> s\<lparr>fs_devices := (fs_devices s)[di := no_links (fs_devices s ! di)]\<rparr>"
  defines "li \<equiv> last (de_links (fs_devices s ! di))"
  shows "link_inv {li} {} {} s'" "li < length (fs_links s) \<and> le_used (fs_links s ! li) \<and> le_device (fs_links s ! li) = Some di"
    "links_only s s'"
proof -
  have p: "pool_inv le_used le_device link_key {} {} (fs_links s) (fs_linkHeads s) (fs_freeLinks s) (fs_linkByKey s)
     (link_owners (fs_devices s))" and t: "link_tags {} (fs_links s) (fs_devices s)"
    using inv by (simp_all add: link_inv_def)
  have o: "di < length (link_owners (fs_devices s))"
    "link_owners (fs_devices s) ! di = (de_used (fs_devices s ! di), de_links (fs_devices s ! di))" using di(1) by simp_all
  note D = link_pool.detached [OF p o di(2)]
  have "link_tags {} (fs_links s) (fs_devices s')"
    using t di(1) by (auto simp: link_tags_def s'_def nth_list_update no_links_def)
  then show "link_inv {li} {} {} s'" using D(1) by (simp add: link_inv_def s'_def li_def no_links_def owners_update)
  show "li < length (fs_links s) \<and> le_used (fs_links s ! li) \<and> le_device (fs_links s ! li) = Some di"
    using D(2) by (simp add: li_def)
  show "links_only s s'"
    using di(1) by (auto simp: links_only_def cores s'_def no_links_def map_update steady_def
        intro!: list_update_same_conv [THEN iffD2] dest!: set_update_subset_insert [THEN subsetD])
qed

text \<open>One round of the loop that moves the links of the source to the destination.\<close>

definition moved_link :: "DeviceKey \<Rightarrow> nat \<Rightarrow> linkEntry \<Rightarrow> linkEntry" where
  "moved_link key dsti e =
     e\<lparr>le_device := Some dsti,
       le_link := (le_link e)\<lparr>link_Device := key, link_Key := (link_Key (le_link e))\<lparr>lk_Device := key\<rparr>\<rparr>\<rparr>"

lemma link_moved:
  assumes inv: "link_inv {li} {} {} s" and st: "steady s"
    and li: "li < length (fs_links s)" "le_used (fs_links s ! li)"
    and di: "di < length (fs_devices s)" "de_used (fs_devices s ! di)"
  defines "e \<equiv> moved_link (dev_Key (de_device (fs_devices s ! di))) di (fs_links s ! li)"
  defines "s' \<equiv> s\<lparr>fs_linkByKey := (fs_linkByKey s)(link_key (fs_links s ! li) := None), fs_links := (fs_links s)[li := e]\<rparr>"
  shows "link_inv {li} {} {} s'" "links_only s s'" "steady s'"
proof -
  let ?s1 = "s\<lparr>fs_linkByKey := (fs_linkByKey s)(link_key (fs_links s ! li) := None)\<rparr>"
  have "link_inv {li} {} {} ?s1" by (rule link_forgotten(1) [OF inv])
  then have "link_inv {li} {} ({} - {li}) (?s1\<lparr>fs_links := (fs_links ?s1)[li := e]\<rparr>)"
    by (rule link_rewritten [where di = di])
      (use li di link_forgotten(2) [OF inv li(1) refl] link_slotD [OF inv li]
        in \<open>auto simp: e_def moved_link_def same_place_def same_links_def link_key_def\<close>)
  then show "link_inv {li} {} {} s'" by (simp add: s'_def)
  show "steady s'"
    using steady_link [of ?s1 e li] st steadyD(7) [OF st li(1)] by (simp add: s'_def e_def moved_link_def link_ok_def)
  then show "links_only s s'" by (simp add: links_only_def cores s'_def)
qed

lemma move_links_runs:
  "link_inv {} {} {} s \<Longrightarrow> steady s \<Longrightarrow> dsti < length (fs_devices s) \<Longrightarrow> srci < length (fs_devices s) \<Longrightarrow> dsti \<noteq> srci \<Longrightarrow>
   de_used (fs_devices s ! dsti) \<Longrightarrow>
   runs (move_links dsti srci (s, events)) (\<lambda>(s', events'). link_inv {} {} {} s' \<and> links_only s s' \<and>
     de_links (fs_devices s' ! srci) = [] \<and> (\<exists>es. events' = events @ es \<and> (\<forall>e \<in> set es. dead EventChanged e)))"
proof (induction "length (de_links (fs_devices s ! srci))" arbitrary: s events rule: less_induct)
  case less
  note inv = less.prems(1) and st = less.prems(2) and dst = less.prems(3,6) and src = less.prems(4) and ne = less.prems(5)
  show ?case
  proof (cases "de_links (fs_devices s ! srci) = []")
    case True
    then show ?thesis using inv src by (subst move_links.simps) (simp add: wp)
  next
    case False
    let ?li = "last (de_links (fs_devices s ! srci))"
    define s1 where "s1 = s\<lparr>fs_devices := (fs_devices s)[srci := no_links (fs_devices s ! srci)]\<rparr>"
    note D = link_detached [OF inv src False, folded s1_def]
    have st1: "steady s1" using D(3) st by (simp add: links_only_def)
    have l1: "fs_links s1 = fs_links s" "?li < length (fs_links s1)" "le_used (fs_links s1 ! ?li)"
      using D(2) by (simp_all add: s1_def)
    have d1: "dsti < length (fs_devices s1)" "de_used (fs_devices s1 ! dsti)" "srci < length (fs_devices s1)"
      "de_links (fs_devices s1 ! srci) = butlast (de_links (fs_devices s ! srci))"
      using dst src ne by (simp_all add: s1_def no_links_def)
    let ?e = "moved_link (dev_Key (de_device (fs_devices s1 ! dsti))) dsti (fs_links s1 ! ?li)"
    define s2 where "s2 = s1\<lparr>fs_linkByKey := (fs_linkByKey s1)(link_key (fs_links s1 ! ?li) := None),
        fs_links := (fs_links s1)[?li := ?e]\<rparr>"
    note M = link_moved [OF D(1) st1 l1(2,3) d1(1,2), folded s2_def]
    have l2: "?li < length (fs_links s2)" "fs_links s2 ! ?li = ?e" "le_used ?e" "le_device ?e = Some dsti"
      using l1(2,3) by (simp_all add: s2_def moved_link_def)
    have d2: "fs_devices s2 = fs_devices s1" by (simp add: s2_def)
    have goal: "\<exists>t es. (case other_index (fs_linkByKey s2 (link_key ?e)) ?li of
             Some existing \<Rightarrow> mergeLinks existing ?li (s2, events)
           | None \<Rightarrow> do {
               let s = s2\<lparr>fs_linkByKey := (fs_linkByKey s2)(link_key ?e \<mapsto> ?li)\<rparr>;
               s \<leftarrow> mod_device dsti (\<lambda>d. d\<lparr>de_links := de_links d @ [?li]\<rparr>) s;
               Some (s, events)
             }) = Some (t, events @ es) \<and> link_inv {} {} {} t \<and> links_only s2 t \<and>
        de_links (fs_devices t ! srci) = de_links (fs_devices s1 ! srci) \<and> (\<forall>e \<in> set es. dead EventChanged e)"
    proof (cases "other_index (fs_linkByKey s2 (link_key ?e)) ?li")
      case (Some x)
      then have x: "fs_linkByKey s2 (link_key ?e) = Some x" "x \<noteq> ?li" by (auto simp: other_index_def split: option.splits if_splits)
      have "pool_keys le_used link_key (fs_links s2) (fs_linkByKey s2)" using M(1) by (simp add: link_inv_def pool_inv_def)
      from pool_keysD [OF this x(1)] have xl: "x < length (fs_links s2)" "le_used (fs_links s2 ! x)" by simp_all
      have u: "le_used (fs_links s2 ! ?li)" using l2 by simp
      from runs_exD [OF mergeLinks_runs [OF M(1,3) xl l2(1) u x(2), of events]] obtain t e where
        t: "mergeLinks x ?li (s2, events) = Some (t, events @ [e])" "link_inv ({?li} - {?li}) {} ({} - {?li}) t"
          "links_only s2 t" "dead EventChanged e"
          "\<forall>dj < length (fs_devices s2). de_links (fs_devices t ! dj) =
             (if le_device (fs_links s2 ! ?li) = Some dj then swap_remove ?li (de_links (fs_devices s2 ! dj))
              else de_links (fs_devices s2 ! dj))"
        by auto
      have "de_links (fs_devices t ! srci) = de_links (fs_devices s1 ! srci)"
        using t(5) d1(3) d2 l2(2,4) ne by simp
      then show ?thesis using Some t by (intro exI [of _ t] exI [of _ "[e]"]) simp
    next
      case None
      define d where "d = (fs_devices s1 ! dsti)\<lparr>de_links := de_links (fs_devices s1 ! dsti) @ [?li]\<rparr>"
      define s3 where "s3 = s2\<lparr>fs_linkByKey := (fs_linkByKey s2)(link_key ?e \<mapsto> ?li)\<rparr>"
      define s4 where "s4 = s3\<lparr>fs_devices := (fs_devices s3)[dsti := d]\<rparr>"
      have "link_inv {?li} {} {} s3" unfolding s3_def
        by (rule link_indexed [OF M(1)]) (use l2 in simp_all)
      then have "link_inv ({?li} - {?li}) {} {} s4" unfolding s4_def
        by (rule link_attached) (use l2 d1 in \<open>simp_all add: s3_def d2 d_def\<close>)
      moreover have "links_only s2 s4"
        using d1(1) by (auto simp: links_only_def cores s4_def s3_def d_def d2 map_update steady_def
            intro!: list_update_same_conv [THEN iffD2] dest!: set_update_subset_insert [THEN subsetD])
      moreover have "de_links (fs_devices s4 ! srci) = de_links (fs_devices s1 ! srci)"
        using ne d1 by (simp add: s4_def s3_def d2)
      ultimately show ?thesis using None d1(1)
        by (intro exI [of _ s4] exI [of _ "[]"]) (simp add: mod_device_def s4_def s3_def d2 d_def)
    qed
    then obtain t es where t: "(case other_index (fs_linkByKey s2 (link_key ?e)) ?li of
             Some existing \<Rightarrow> mergeLinks existing ?li (s2, events)
           | None \<Rightarrow> do {
               let s = s2\<lparr>fs_linkByKey := (fs_linkByKey s2)(link_key ?e \<mapsto> ?li)\<rparr>;
               s \<leftarrow> mod_device dsti (\<lambda>d. d\<lparr>de_links := de_links d @ [?li]\<rparr>) s;
               Some (s, events)
             }) = Some (t, events @ es)" "link_inv {} {} {} t" "links_only s2 t"
        "de_links (fs_devices t ! srci) = de_links (fs_devices s1 ! srci)" "\<forall>e \<in> set es. dead EventChanged e" by blast
    have only: "links_only s t" using only_trans(1) D(3) M(2) t(3) by blast
    have T: "length (fs_devices t) = length (fs_devices s)" "de_used (fs_devices t ! dsti)" "steady t"
      using only_devices(1) [OF only] dst only st by (simp_all add: links_only_def)
    have run: "move_links dsti srci (s, events) = move_links dsti srci (t, events @ es)"
      using False src l1 d1(1) t(1)
      by (subst move_links.simps)
        (simp add: mod_device_def mod_link_def s1_def [symmetric] no_links_def [symmetric] Let_def
          link_key_def moved_link_def s2_def cong: option.case_cong)
    have "length (de_links (fs_devices t ! srci)) < length (de_links (fs_devices s ! srci))"
      using t(4) d1(4) False by simp
    from less.hyps [OF this t(2) T(3) _ _ ne T(2), of "events @ es"] T(1) dst src
    show ?thesis unfolding run using t(5) only_trans(1) [OF only] by (auto elim!: runs_mono)
  qed
qed

lemma dns_detached:
  assumes inv: "cache_inv {} {} W s" and di: "di < length (fs_devices s)" "de_dns (fs_devices s ! di) \<noteq> []" "di \<in> W"
  defines "s' \<equiv> s\<lparr>fs_devices := (fs_devices s)[di := (fs_devices s ! di)\<lparr>de_dns := butlast (de_dns (fs_devices s ! di))\<rparr>]\<rparr>"
  defines "i \<equiv> last (de_dns (fs_devices s ! di))"
  shows "cache_inv {i} {} W s'" "i < length (fs_dns s) \<and> ne_used (fs_dns s ! i) \<and> ne_device (fs_dns s ! i) = Some di"
    "dns_only s s'"
proof -
  have p: "pool_inv ne_used ne_device ne_key {} {} (fs_dns s) (fs_dnsHeads s) (fs_freeDNS s) (fs_dnsByKey s)
     (dns_owners (fs_devices s))" and t: "dns_tags (fs_dns s)" and x: "expiry_ok W (fs_dns s) (fs_devices s)"
    using inv by (simp_all add: cache_inv_def)
  have o: "di < length (dns_owners (fs_devices s))"
    "dns_owners (fs_devices s) ! di = (de_used (fs_devices s ! di), de_dns (fs_devices s ! di))" using di(1) by simp_all
  note D = dns_pool.detached [OF p o di(2)]
  have "expiry_ok W (fs_dns s) (fs_devices s')"
    using x di by (auto simp: expiry_ok_def s'_def nth_list_update)
  then show "cache_inv {i} {} W s'" using D(1) t by (simp add: cache_inv_def s'_def i_def owners_update)
  show "i < length (fs_dns s) \<and> ne_used (fs_dns s ! i) \<and> ne_device (fs_dns s ! i) = Some di"
    using D(2) by (simp add: i_def)
  show "dns_only s s'"
    using di(1) by (auto simp: dns_only_def cores s'_def map_update steady_def
        intro!: list_update_same_conv [THEN iffD2] dest!: set_update_subset_insert [THEN subsetD])
qed

lemma dns_moved:
  assumes inv: "cache_inv {i} {} W s" and i: "i < length (fs_dns s)" "ne_used (fs_dns s ! i)"
    and di: "di < length (fs_devices s)" "de_used (fs_devices s ! di)"
  defines "e \<equiv> (fs_dns s ! i)\<lparr>ne_device := Some di, ne_key := (ne_key (fs_dns s ! i))\<lparr>dnk_device := di\<rparr>\<rparr>"
  defines "s' \<equiv> s\<lparr>fs_dnsByKey := (fs_dnsByKey s)(ne_key (fs_dns s ! i) := None), fs_dns := (fs_dns s)[i := e]\<rparr>"
  shows "cache_inv {i} {} W s'" "dns_only s s'"
proof -
  let ?s1 = "s\<lparr>fs_dnsByKey := (fs_dnsByKey s)(ne_key (fs_dns s ! i) := None)\<rparr>"
  have "cache_inv {i} {} W ?s1" by (rule dns_forgotten(1) [OF inv])
  then have "cache_inv {i} {} W (?s1\<lparr>fs_dns := (fs_dns ?s1)[i := e]\<rparr>)"
    by (rule dns_rewritten [where di = di])
      (use i di dns_forgotten(2) [OF inv i(1) refl] dns_slotD [OF inv i]
        in \<open>auto simp: e_def same_place_def same_links_def\<close>)
  then show "cache_inv {i} {} W s'" by (simp add: s'_def)
  show "dns_only s s'" by (simp add: dns_only_def cores s'_def steady_def)
qed

lemma move_dns_runs:
  "cache_inv {} {} {srci} s \<Longrightarrow> dsti < length (fs_devices s) \<Longrightarrow> srci < length (fs_devices s) \<Longrightarrow> dsti \<noteq> srci \<Longrightarrow>
   de_used (fs_devices s ! dsti) \<Longrightarrow>
   runs (move_dns dsti srci s) (\<lambda>s'. cache_inv {} {} {srci} s' \<and> dns_only s s' \<and> de_dns (fs_devices s' ! srci) = [])"
proof (induction "length (de_dns (fs_devices s ! srci))" arbitrary: s rule: less_induct)
  case less
  note inv = less.prems(1) and dst = less.prems(2,5) and src = less.prems(3) and ne = less.prems(4)
  show ?case
  proof (cases "de_dns (fs_devices s ! srci) = []")
    case True
    then show ?thesis using inv src by (subst move_dns.simps) (simp add: wp)
  next
    case False
    let ?i = "last (de_dns (fs_devices s ! srci))"
    define s1 where "s1 = s\<lparr>fs_devices := (fs_devices s)[srci :=
       (fs_devices s ! srci)\<lparr>de_dns := butlast (de_dns (fs_devices s ! srci))\<rparr>]\<rparr>"
    note D = dns_detached [OF inv src False insertI1, folded s1_def]
    have i1: "fs_dns s1 = fs_dns s" "?i < length (fs_dns s1)" "ne_used (fs_dns s1 ! ?i)"
      using D(2) by (simp_all add: s1_def)
    have d1: "dsti < length (fs_devices s1)" "de_used (fs_devices s1 ! dsti)" "srci < length (fs_devices s1)"
      "de_dns (fs_devices s1 ! srci) = butlast (de_dns (fs_devices s ! srci))"
      using dst src ne by (simp_all add: s1_def)
    define key where "key = (ne_key (fs_dns s1 ! ?i))\<lparr>dnk_device := dsti\<rparr>"
    define e where "e = (fs_dns s1 ! ?i)\<lparr>ne_device := Some dsti, ne_key := key\<rparr>"
    define s2 where "s2 = s1\<lparr>fs_dnsByKey := (fs_dnsByKey s1)(ne_key (fs_dns s1 ! ?i) := None), fs_dns := (fs_dns s1)[?i := e]\<rparr>"
    note M = dns_moved [OF D(1) i1(2,3) d1(1,2), folded key_def, folded e_def, folded s2_def]
    have i2: "?i < length (fs_dns s2)" "fs_dns s2 ! ?i = e" "ne_used e" "ne_device e = Some dsti"
      "ne_expiresAt e = ne_expiresAt (fs_dns s ! ?i)"
      using i1 by (simp_all add: s2_def e_def)
    have d2: "fs_devices s2 = fs_devices s1" by (simp add: s2_def)
    let ?next = "case other_index (fs_dnsByKey s2 key) ?i of
             Some _ \<Rightarrow> removeDNS ?i s2
           | None \<Rightarrow> do {
               let t = s2\<lparr>fs_dnsByKey := (fs_dnsByKey s2)(key \<mapsto> ?i)\<rparr>;
               mod_device dsti (\<lambda>d. d\<lparr>de_dns := de_dns d @ [?i],
                   de_dnsExpiry := (if ne_expiresAt (fs_dns s ! ?i) > de_dnsExpiry d then ne_expiresAt (fs_dns s ! ?i) else de_dnsExpiry d)\<rparr>) t
             }"
    have goal: "\<exists>t. ?next = Some t \<and> cache_inv {} {} {srci} t \<and> dns_only s2 t \<and>
        de_dns (fs_devices t ! srci) = de_dns (fs_devices s1 ! srci)"
    proof (cases "other_index (fs_dnsByKey s2 key) ?i")
      case (Some x)
      have u: "ne_used (fs_dns s2 ! ?i)" using i2 by simp
      from runs_exD [OF removeDNS_runs [OF M(1) i2(1) u]] obtain t where
        t: "removeDNS ?i s2 = Some t" "cache_inv ({?i} - {?i}) ({} - {?i}) {srci} t" "dns_removed ?i s2 t" by auto
      have "de_dns (fs_devices t ! srci) = de_dns (fs_devices s1 ! srci)"
        using t(3) d1(3) d2 i2(2,4) ne by (simp add: dns_removed_def)
      then show ?thesis using Some t removed_only(2) [OF t(3)] by simp
    next
      case None
      define d where "d = (fs_devices s1 ! dsti)\<lparr>de_dns := de_dns (fs_devices s1 ! dsti) @ [?i],
         de_dnsExpiry := (if ne_expiresAt (fs_dns s ! ?i) > de_dnsExpiry (fs_devices s1 ! dsti)
           then ne_expiresAt (fs_dns s ! ?i) else de_dnsExpiry (fs_devices s1 ! dsti))\<rparr>"
      define s3 where "s3 = s2\<lparr>fs_dnsByKey := (fs_dnsByKey s2)(key \<mapsto> ?i)\<rparr>"
      define s4 where "s4 = s3\<lparr>fs_devices := (fs_devices s3)[dsti := d]\<rparr>"
      have "cache_inv {?i} {} {srci} s3" unfolding s3_def
        by (rule dns_indexed [OF M(1)]) (use i2 in \<open>simp_all add: e_def\<close>)
      then have "cache_inv ({?i} - {?i}) {} {srci} s4" unfolding s4_def
        by (rule dns_attached) (use i2 d1 in \<open>auto simp: s3_def d2 d_def max_def\<close>)
      moreover have "dns_only s2 s4"
        using d1(1) by (auto simp: dns_only_def cores s4_def s3_def d_def d2 map_update steady_def
            intro!: list_update_same_conv [THEN iffD2] dest!: set_update_subset_insert [THEN subsetD])
      moreover have "de_dns (fs_devices s4 ! srci) = de_dns (fs_devices s1 ! srci)"
        using ne d1 by (simp add: s4_def s3_def d2)
      moreover have "?next = Some s4"
        using None d1(1) by (simp add: mod_device_def s4_def s3_def d2 d_def)
      ultimately show ?thesis by simp
    qed
    then obtain t where t: "?next = Some t" "cache_inv {} {} {srci} t" "dns_only s2 t"
        "de_dns (fs_devices t ! srci) = de_dns (fs_devices s1 ! srci)" by blast
    have only: "dns_only s t" using only_trans(2) D(3) M(2) t(3) by blast
    have T: "length (fs_devices t) = length (fs_devices s)" "de_used (fs_devices t ! dsti)"
      using only_devices(2) [OF only] dst by simp_all
    have run: "move_dns dsti srci s = move_dns dsti srci t"
      using False src i1 d1(1) t(1)
      by (subst move_dns.simps)
        (simp add: mod_device_def mod_dns_def s1_def [symmetric] Let_def key_def e_def s2_def cong: option.case_cong)
    have "length (de_dns (fs_devices t ! srci)) < length (de_dns (fs_devices s ! srci))"
      using t(4) d1(4) False by simp
    from less.hyps [OF this t(2) _ _ ne T(2)] T(1) dst src
    show ?thesis unfolding run using only_trans(2) [OF only] by (auto elim!: runs_mono)
  qed
qed

lemma mergeDevices_runs:
  assumes inv: "fusion_inv s" and dst: "dsti < length (fs_devices s)" "de_used (fs_devices s ! dsti)"
    and src: "srci < length (fs_devices s)" "de_used (fs_devices s ! srci)" and ne: "dsti \<noteq> srci"
  shows "runs (mergeDevices dsti srci (s, events)) (\<lambda>(s', events'). fusion_inv s' \<and> conf s' = conf s \<and>
    de_used (fs_devices s' ! dsti) \<and> dev_Key (de_device (fs_devices s' ! dsti)) = dev_Key (de_device (fs_devices s ! dsti)) \<and>
    (\<exists>es. events' = events @ es \<and> (\<forall>e \<in> set es. dead EventChanged e)))"
proof -
  note I = fusion_invD [OF inv]
  note S = steadyD [OF I(1)]
  from runs_exD [OF merge_fields_runs [OF S(1,2) S(6) [OF dst(1)], of "de_device (fs_devices s ! srci)"]] obtain d where
    d: "merge_fields (cfg_MaxAlternatives (fs_cfg s)) (de_device (fs_devices s ! dsti)) (de_device (fs_devices s ! srci)) = Some d"
      "device_ok (cfg_MaxAlternatives (fs_cfg s)) d" "dev_Key d = dev_Key (de_device (fs_devices s ! dsti))" by blast
  define s1 where "s1 = device_put dsti d s"
  have inv1: "fusion_inv s1" unfolding s1_def by (rule device_put_fusion_inv [OF inv dst(1) d(3,2)])
  note I1 = fusion_invD [OF inv1]
  have d1: "dsti < length (fs_devices s1)" "de_used (fs_devices s1 ! dsti)" "srci < length (fs_devices s1)" "de_used (fs_devices s1 ! srci)"
    using dst src ne by (simp_all add: s1_def device_put_def)
  from runs_exD [OF move_links_runs [OF I1(3,1) d1(1,3) ne d1(2), of events]] obtain s2 es where
    s2: "move_links dsti srci (s1, events) = Some (s2, events @ es)" "link_inv {} {} {} s2" "links_only s1 s2"
      "de_links (fs_devices s2 ! srci) = []" "\<forall>e \<in> set es. dead EventChanged e" by auto
  have i2: "cache_inv {} {} {srci} s2" "device_inv {} s2" "steady s2"
    using I1 s2(3) cache_inv_cong [of s2 s1 "{}" "{}" "{}"] device_inv_cong [of s2 s1]
    by (auto simp: links_only_def cache_inv_def expiry_ok_def)
  have d2: "dsti < length (fs_devices s2)" "de_used (fs_devices s2 ! dsti)" "srci < length (fs_devices s2)" "de_used (fs_devices s2 ! srci)"
    using only_devices(1) [OF s2(3)] d1 by simp_all
  from runs_exD [OF move_dns_runs [OF i2(1) d2(1,3) ne d2(2)]] obtain s3 where
    s3: "move_dns dsti srci s2 = Some s3" "cache_inv {} {} {srci} s3" "dns_only s2 s3" "de_dns (fs_devices s3 ! srci) = []" by blast
  have i3: "link_inv {} {} {} s3" "device_inv {} s3" "steady s3"
    using s2(2) i2 s3(3) link_inv_cong [of s3 s2] device_inv_cong [of s3 s2] by (simp_all add: dns_only_def)
  have d3: "dsti < length (fs_devices s3)" "de_used (fs_devices s3 ! dsti)" "srci < length (fs_devices s3)" "de_used (fs_devices s3 ! srci)"
    "de_links (fs_devices s3 ! srci) = []"
    using only_devices(2) [OF s3(3)] d2 s2(4) by simp_all
  let ?d = "(fs_devices s3 ! srci)\<lparr>de_used := False, de_links := [], de_dns := [], de_dnsExpiry := 0,
     de_device := Device_Reset (de_device (fs_devices s3 ! srci))\<rparr>"
  define s4 where "s4 = s3\<lparr>fs_deviceByKey := (fs_deviceByKey s3)(dev_Key (de_device (fs_devices s3 ! srci)) := None),
      fs_devices := (fs_devices s3)[srci := ?d], fs_freeDevices := fs_freeDevices s3 @ [srci]\<rparr>"
  have "steady s4" "device_inv ({} - {srci}) s4" "link_inv {} {} {} s4" "cache_inv {} {} ({srci} - {srci}) s4"
    by (rule device_removed_inv [OF i3(3,2,1) s3(2) d3(3,4,5) s3(4) _ _ _ _ s4_def]; simp)+
  then have inv4: "fusion_inv s4" by (simp add: fusion_inv_def)
  have d4: "dsti < length (fs_devices s4)" "de_used (fs_devices s4 ! dsti)" using d3 ne by (simp_all add: s4_def)
  from runs_exD [OF rebuilt_inv [OF inv4 d4(1)]] obtain b s5 where
    s5: "rebuildServices dsti s4 = Some (b, s5)" "fusion_inv s5" "conf s5 = conf s4" "de_used (fs_devices s5 ! dsti)"
      "dev_Key (de_device (fs_devices s5 ! dsti)) = dev_Key (de_device (fs_devices s4 ! dsti))"
    using d4 by auto
  have "de_device (fs_devices s4 ! dsti) = d"
    using only_devices(2) [OF s3(3)] only_devices(1) [OF s2(3)] d1 d2 ne dst by (simp add: s4_def s1_def device_put_def)
  with s5(5) d(3) have key: "dev_Key (de_device (fs_devices s5 ! dsti)) = dev_Key (de_device (fs_devices s ! dsti))" by simp
  have run: "mergeDevices dsti srci (s, events) = Some (s5, events @ es)"
    using ne dst src d(1) s2(1) s3(1) d3 s5(1) set_device_Some [OF dst(1), of d]
    by (simp add: mergeDevices_def s1_def mod_device_def s4_def)
  have "conf s5 = conf s"
    using s5(3) s2(3) s3(3) device_put_inv(5) [OF dst(1) d(3)]
    by (simp add: links_only_def dns_only_def s1_def) (simp add: conf_def s4_def)
  then show ?thesis using s5 s2(5) key by (simp add: run wp)
qed

section \<open>The device of an observation\<close>

lemma newDevice_runs:
  assumes st: "steady s" and inv: "device_inv {di} s" "link_inv {} {} {} s" "cache_inv {} {} {} s"
    and di: "di < length (fs_devices s)" "\<not> de_used (fs_devices s ! di)" and k: "fs_deviceByKey s key = None"
  shows "runs (newDevice di key now s) (\<lambda>s'. fusion_inv s' \<and> conf s' = conf s \<and> de_used (fs_devices s' ! di) \<and>
    dev_Key (de_device (fs_devices s' ! di)) = key)"
proof -
  note e = unused_device [OF inv(2,3) di]
  define d where "d = (fs_devices s ! di)\<lparr>de_used := True, de_generation := de_generation (fs_devices s ! di) + 1,
     de_device := (Device_Reset (de_device (fs_devices s ! di)))\<lparr>dev_Key := key, dev_FirstSeen := now, dev_LastSeen := now\<rparr>,
     de_dnsExpiry := 0\<rparr>"
  define s' where "s' = s\<lparr>fs_devices := (fs_devices s)[di := d], fs_deviceByKey := (fs_deviceByKey s)(key \<mapsto> di)\<rparr>"
  have run: "newDevice di key now s = Some s'" using di by (simp add: newDevice_def mod_device_def s'_def d_def)
  have ok: "device_ok m (de_device d)" for m
    using device_ok_reset [of m "de_device (fs_devices s ! di)"] by (simp add: d_def device_ok_def)
  have "steady s'"
    by (rule steadyI [OF st]) (use steadyD [OF st] ok in \<open>auto simp: s'_def conf_def nth_updated\<close>)
  moreover have dk: "dev_Key (de_device d) = key" and du: "de_used d" by (simp_all add: d_def)
  have "device_inv ({di} - {di}) s'"
    by (rule device_born [OF inv(1) di, where d = d]) (use k dk du in \<open>simp_all add: s'_def\<close>)
  moreover have "link_inv {} {} {} s'" "cache_inv {} {} ({} - {di}) s'"
    by (rule bare_device_pools [OF inv(2,3) di(1) e]; simp add: s'_def d_def e)+
  ultimately show ?thesis using di(1) \<open>device_inv ({di} - {di}) s'\<close>
    by (simp add: run wp fusion_inv_def) (simp add: s'_def conf_def d_def)
qed

lemma fusion_keyD:
  assumes "fusion_inv s" "fs_deviceByKey s k = Some di"
  shows "di < length (fs_devices s)" "de_used (fs_devices s ! di)" "dev_Key (de_device (fs_devices s ! di)) = k"
  using device_invD(2) [OF fusion_invD(2) [OF assms(1)]] assms(2) by simp_all

definition located :: "DeviceKey option \<Rightarrow> fusionState \<Rightarrow> fusion_event list \<Rightarrow> nat option \<times> fused \<Rightarrow> bool" where
  "located key s events = (\<lambda>(p, s', events'). fusion_inv s' \<and> conf s' = conf s \<and>
     (p = None \<longrightarrow> s' = s \<and> events' = events \<and> (key = None \<or> fs_devices s = [])) \<and>
     (\<forall>di. p = Some di \<longrightarrow> di < length (fs_devices s') \<and> de_used (fs_devices s' ! di) \<and>
        key = Some (dev_Key (de_device (fs_devices s' ! di)))) \<and>
     (\<exists>es. events' = events @ es \<and> (\<forall>e \<in> set es. dead EventEvicted e \<or> dead EventChanged e)))"

lemma deviceFor_runs:
  assumes inv: "fusion_inv s"
  shows "runs (deviceFor meta claimed addresses (s, events)) (located (device_key meta claimed addresses) s events)"
proof (cases "device_key meta claimed addresses")
  case None
  then show ?thesis using inv by (simp add: deviceFor_def wp located_def)
next
  case (Some key)
  define by_ip where "by_ip = (if dk_Kind key = DeviceKeyMAC \<and> IsValid (meta_sourceIP meta)
    then fs_deviceByKey s (ip_key (Unmap (meta_sourceIP meta)) (meta_interfaceIndex meta)) else None)"
  show ?thesis
  proof (cases by_ip)
    case ip: (Some ipi)
    then have "fs_deviceByKey s (ip_key (Unmap (meta_sourceIP meta)) (meta_interfaceIndex meta)) = Some ipi"
      by (simp add: by_ip_def split: if_splits)
    note P = fusion_keyD [OF inv this]
    show ?thesis
    proof (cases "\<exists>maci. fs_deviceByKey s key = Some maci \<and> maci \<noteq> ipi")
      case True
      then obtain maci where m: "fs_deviceByKey s key = Some maci" "maci \<noteq> ipi" by blast
      note Q = fusion_keyD [OF inv m(1)]
      from runs_exD [OF mergeDevices_runs [OF inv Q(1,2) P(1,2) m(2), of events]] obtain t es where
        t: "mergeDevices maci ipi (s, events) = Some (t, events @ es)" "fusion_inv t" "conf t = conf s" "de_used (fs_devices t ! maci)"
          "dev_Key (de_device (fs_devices t ! maci)) = key" "\<forall>e \<in> set es. dead EventChanged e" using Q(3) by auto
      have "maci < length (fs_devices t)" using t(3) Q(1) by (simp add: conf_def)
      then show ?thesis using Some ip m t by (simp add: deviceFor_def by_ip_def [symmetric] wp located_def)
    next
      case False
      then have k: "fs_deviceByKey s key = None \<or> fs_deviceByKey s key = Some ipi" by (cases "fs_deviceByKey s key") auto
      from runs_exD [OF promoteDevice_runs [OF inv P(1,2) k]] obtain t where
        t: "promoteDevice ipi key s = Some t" "fusion_inv t" "conf t = conf s" "de_used (fs_devices t ! ipi)"
          "dev_Key (de_device (fs_devices t ! ipi)) = key" by blast
      have "ipi < length (fs_devices t)" using t(3) P(1) by (simp add: conf_def)
      then show ?thesis using Some ip k t by (auto simp: deviceFor_def by_ip_def [symmetric] wp located_def)
    qed
  next
    case noip: None
    show ?thesis
    proof (cases "fs_deviceByKey s key")
      case (Some di)
      then show ?thesis using \<open>device_key _ _ _ = Some key\<close> noip inv fusion_keyD [OF inv Some]
        by (simp add: deviceFor_def by_ip_def [symmetric] wp located_def)
    next
      case new: None
      from runs_exD [OF allocDevice_runs [OF inv, of events]] obtain p t es where
        al: "allocDevice (s, events) = Some (p, t, es)" and
        AL: "case p of None \<Rightarrow> fs_devices s = [] \<and> t = s \<and> es = events
          | Some di \<Rightarrow> di < length (fs_devices t) \<and> \<not> de_used (fs_devices t ! di) \<and> only_forgets s t \<and>
              steady t \<and> device_inv {di} t \<and> link_inv {} {} {} t \<and> cache_inv {} {} {} t \<and>
              (\<exists>es'. es = events @ es' \<and> (\<forall>e \<in> set es'. dead EventEvicted e))" by auto
      show ?thesis
      proof (cases p)
        case None
        then show ?thesis using Some noip new al AL inv by (simp add: deviceFor_def by_ip_def [symmetric] wp located_def)
      next
        case p: (Some di)
        with AL obtain es' where D: "di < length (fs_devices t)" "\<not> de_used (fs_devices t ! di)" "only_forgets s t"
          "steady t" "device_inv {di} t" "link_inv {} {} {} t" "cache_inv {} {} {} t" "es = events @ es'"
          "\<forall>e \<in> set es'. dead EventEvicted e" by auto
        have k: "fs_deviceByKey t key = None" using D(3) new by (simp add: only_forgets_def)
        from runs_exD [OF newDevice_runs [OF D(4-7,1,2) k, of "meta_timestamp meta"]] obtain u where
          u: "newDevice di key (meta_timestamp meta) t = Some u" "fusion_inv u" "conf u = conf t"
            "de_used (fs_devices u ! di)" "dev_Key (de_device (fs_devices u ! di)) = key" by blast
        have "di < length (fs_devices u)" "conf u = conf s" using u(3) D(1,3) by (simp_all add: conf_def only_forgets_def)
        then show ?thesis using Some noip new al p u D(8,9)
          by (simp add: deviceFor_def by_ip_def [symmetric] wp located_def)
      qed
    qed
  qed
qed

end
