(* ===== verification/ObserveInv.thy ===== *)
theory ObserveInv
  imports FusionSteps Observe
begin

text \<open>
  The invariant through the message handlers and the clock.
\<close>

section \<open>Changes to the observed device\<close>

definition vendor_total :: "vendor_data \<Rightarrow> bool" where
  "vendor_total vd = (\<forall>mac. LookupMACVendor vd mac \<noteq> None)"

text \<open>The text fields stay well formed and the key stays.\<close>

definition noted_ok :: "int \<Rightarrow> DeviceKey \<Rightarrow> noted \<Rightarrow> bool" where
  "noted_ok m key n = (device_ok m (fst n) \<and> dev_Key (fst n) = key)"

lemma device_ok_mergeText:
  assumes "1 \<le> m" "m \<le> 255" "text_ok (nat (m + 1)) f"
  obtains b g where "mergeText f value p c now m = Some (b, g)" "text_ok (nat (m + 1)) g"
  using runs_exD [OF mergeText_keeps [OF assms(3,1,2), of "value" p c now]] by auto

text \<open>The bounds on the number of alternatives.\<close>

definition alternatives_ok :: "int \<Rightarrow> bool" where
  "alternatives_ok m = (1 \<le> m \<and> m \<le> 255)"

lemma note_vendor_runs:
  assumes m: "alternatives_ok m" and v: "vendor_total vd" and n: "noted_ok m key n"
  shows "runs (note_vendor vd m mac c meta n) (noted_ok m key)"
proof -
  obtain d changed where e: "n = (d, changed)" by (cases n)
  obtain r where r: "LookupMACVendor vd mac = Some r" using v by (auto simp: vendor_total_def)
  have t: "text_ok (nat (m + 1)) (dev_Vendor d)" using n by (simp add: noted_ok_def e device_ok_def)
  from m have "1 \<le> m" "m \<le> 255" by (simp_all add: alternatives_ok_def)
  from device_ok_mergeText [OF this t] obtain b g where
    g: "mergeText (dev_Vendor d) (ven_Name r) (Set (meta_protocol meta)) c (meta_timestamp meta) m = Some (b, g)"
      "text_ok (nat (m + 1)) g" .
  show ?thesis using n r g by (auto simp: note_vendor_def mergeMACVendor_def e wp noted_ok_def device_ok_def)
qed

lemma note_observed_mac_runs:
  "alternatives_ok m \<Longrightarrow> vendor_total vd \<Longrightarrow> noted_ok m key n \<Longrightarrow> runs (note_observed_mac vd m meta n) (noted_ok m key)"
  by (cases n) (auto simp: note_observed_mac_def wp Let_def noted_ok_def device_ok_def intro!: note_vendor_runs)

lemma note_claimed_mac_runs:
  "alternatives_ok m \<Longrightarrow> vendor_total vd \<Longrightarrow> noted_ok m key n \<Longrightarrow> runs (note_claimed_mac vd m mac meta n) (noted_ok m key)"
  by (cases n) (auto simp: note_claimed_mac_def wp Let_def noted_ok_def device_ok_def intro!: note_vendor_runs)

lemma note_address_ok [simp]: "noted_ok m key n \<Longrightarrow> noted_ok m key (note_address a n)"
  by (cases n) (simp add: note_address_def noted_ok_def device_ok_def Let_def)

lemma note_addresses_ok [simp]: "noted_ok m key n \<Longrightarrow> noted_ok m key (fold note_address as n)"
  by (induction as arbitrary: n) simp_all

lemma note_flags_ok [simp]:
  "noted_ok m key n \<Longrightarrow> noted_ok m key (note_capabilities c n)"
  "noted_ok m key n \<Longrightarrow> noted_ok m key (note_protocol p n)"
  "noted_ok m key n \<Longrightarrow> noted_ok m key (note_uptime u p t n)"
  by (cases n; simp add: note_capabilities_def note_protocol_def note_uptime_def noted_ok_def device_ok_def Let_def
      split: prod.splits)+

lemma updateDeviceTimes_ok [simp]:
  "device_ok m (updateDeviceTimes t d) = device_ok m d" "dev_Key (updateDeviceTimes t d) = dev_Key d"
  by (simp_all add: updateDeviceTimes_def device_ok_def Let_def)

text \<open>One of the seven text fields.\<close>

definition text_lens :: "(DiscoveredDevice \<Rightarrow> TextField) \<Rightarrow> (TextField \<Rightarrow> DiscoveredDevice \<Rightarrow> DiscoveredDevice) \<Rightarrow> bool" where
  "text_lens get put =
     (\<forall>m f d. (device_ok m d \<longrightarrow> text_ok (nat (m + 1)) (get d)) \<and>
        (device_ok m d \<longrightarrow> text_ok (nat (m + 1)) f \<longrightarrow> device_ok m (put f d)) \<and> dev_Key (put f d) = dev_Key d)"

lemma text_lenses [simp]:
  "text_lens dev_SystemName (\<lambda>f d. d\<lparr>dev_SystemName := f\<rparr>)"
  "text_lens dev_HostName (\<lambda>f d. d\<lparr>dev_HostName := f\<rparr>)"
  "text_lens dev_ProtocolDeviceID (\<lambda>f d. d\<lparr>dev_ProtocolDeviceID := f\<rparr>)"
  "text_lens dev_Model (\<lambda>f d. d\<lparr>dev_Model := f\<rparr>)"
  "text_lens dev_Platform (\<lambda>f d. d\<lparr>dev_Platform := f\<rparr>)"
  "text_lens dev_SoftwareVersion (\<lambda>f d. d\<lparr>dev_SoftwareVersion := f\<rparr>)"
  by (simp_all add: text_lens_def device_ok_def)

lemma note_text_runs:
  assumes m: "alternatives_ok m" and l: "text_lens get put" and n: "noted_ok m key n"
  shows "runs (note_text get put flag v p c t m n) (noted_ok m key)"
proof -
  obtain d changed where e: "n = (d, changed)" by (cases n)
  have t: "text_ok (nat (m + 1)) (get d)" using n l by (auto simp: noted_ok_def e text_lens_def)
  from m have "1 \<le> m" "m \<le> 255" by (simp_all add: alternatives_ok_def)
  from device_ok_mergeText [OF this t] obtain b g where
    g: "mergeText (get d) v p c t m = Some (b, g)" "text_ok (nat (m + 1)) g" .
  show ?thesis using n g l by (auto simp: note_text_def e wp noted_ok_def text_lens_def)
qed

text \<open>The four blocks of changes.\<close>

lemmas note_runs = note_observed_mac_runs note_claimed_mac_runs note_text_runs [OF _ text_lenses(1)]
  note_text_runs [OF _ text_lenses(2)] note_text_runs [OF _ text_lenses(3)] note_text_runs [OF _ text_lenses(4)]
  note_text_runs [OF _ text_lenses(5)] note_text_runs [OF _ text_lenses(6)]

lemma updateDeviceTimes_noted [simp]:
  "noted_ok m key (updateDeviceTimes t (fst n), c) = noted_ok m key n"
  by (simp add: noted_ok_def)

lemma note_claimed_mac_when:
  "alternatives_ok m \<Longrightarrow> vendor_total vd \<Longrightarrow> noted_ok m key n \<Longrightarrow>
   runs (if b then note_claimed_mac vd m mac meta n else Some n) (noted_ok m key)"
  by (simp add: wp note_claimed_mac_runs)

lemma lldp_device_runs:
  assumes a: "alternatives_ok m" "vendor_total vd" and n: "noted_ok m key n"
  shows "runs (lldp_device vd m meta msg as n) (noted_ok m key)"
  unfolding lldp_device_def Let_def runs_bind
  by (intro runs_mono [OF note_runs(1) [OF a n]] runs_mono [OF note_claimed_mac_when [OF a, where key = key]]
      runs_mono [OF note_runs(3) [OF a(1), where key = key]]) (simp_all add: runs_Some)

lemma cdp_device_runs:
  assumes a: "alternatives_ok m" "vendor_total vd" and n: "noted_ok m key n"
  shows "runs (cdp_device vd m meta msg n) (noted_ok m key)"
  unfolding cdp_device_def Let_def runs_bind
  by (intro runs_mono [OF note_runs(1) [OF a n]] runs_mono [OF note_runs(3) [OF a(1), where key = key]]
      runs_mono [OF note_runs(5) [OF a(1), where key = key]] runs_mono [OF note_runs(6) [OF a(1), where key = key]]
      runs_mono [OF note_runs(7) [OF a(1), where key = key]] runs_mono [OF note_runs(8) [OF a(1), where key = key]])
    (simp_all add: runs_Some)

lemma mndp_device_runs:
  assumes a: "alternatives_ok m" "vendor_total vd" and n: "noted_ok m key n"
  shows "runs (mndp_device vd m meta msg n) (noted_ok m key)"
  unfolding mndp_device_def Let_def runs_bind
  by (intro runs_mono [OF note_runs(1) [OF a n]] runs_mono [OF note_claimed_mac_when [OF a, where key = key]]
      runs_mono [OF note_runs(3) [OF a(1), where key = key]]
      runs_mono [OF note_runs(6) [OF a(1), where key = key]]
      runs_mono [OF note_runs(7) [OF a(1), where key = key]] runs_mono [OF note_runs(8) [OF a(1), where key = key]])
    (simp_all add: runs_Some)

lemma mdns_sender_runs:
  assumes a: "alternatives_ok m" "vendor_total vd" and n: "noted_ok m key n"
  shows "runs (mdns_sender vd m meta n) (noted_ok m key)"
  unfolding mdns_sender_def runs_bind
  by (intro runs_mono [OF note_runs(1) [OF a n]]) (simp add: runs_Some)

lemma note_host_runs:
  assumes a: "alternatives_ok m" and n: "noted_ok m key n"
  shows "runs (note_host m meta r n) (noted_ok m key)"
  using n unfolding note_host_def by (simp add: wp note_runs(4) [OF a])

section \<open>Changes to the link, and the event\<close>

lemma add_link_vlans_keeps:
  "link_Key (snd (add_link_vlans vs n)) = link_Key (snd n) \<and> link_Device (snd (add_link_vlans vs n)) = link_Device (snd n) \<and>
   link_RemoteInterface (snd (add_link_vlans vs n)) = link_RemoteInterface (snd n)"
  by (induction vs arbitrary: n) (auto simp: appendLinkVLAN_def Let_def split: prod.splits if_splits)

text \<open>A handler may write a link whose key stays and whose interface names are well formed.\<close>

definition link_noted :: "int \<Rightarrow> DiscoveredLink \<Rightarrow> DiscoveredLink \<Rightarrow> bool" where
  "link_noted m l l' =
     (link_Key l' = link_Key l \<and> link_Device l' = link_Device l \<and> text_ok (nat (m + 1)) (link_RemoteInterface l'))"

lemma link_noted_vlans: "link_noted m l (snd n) \<Longrightarrow> link_noted m l (snd (add_link_vlans vs n))"
  by (simp add: link_noted_def add_link_vlans_keeps)

lemma lldp_link_runs:
  assumes m: "alternatives_ok m" and l: "text_ok (nat (m + 1)) (link_RemoteInterface l)"
  shows "runs (lldp_link m meta msg (c, l)) (\<lambda>r. link_noted m l (snd r))"
proof -
  have "1 \<le> m" "m \<le> 255" using m by (simp_all add: alternatives_ok_def)
  from device_ok_mergeText [OF this l] obtain b g where
    g: "mergeText (link_RemoteInterface l) (ld_PortDescription (lldp_Details msg)) ProtocolsLLDP 3 (meta_timestamp meta) m = Some (b, g)"
      "text_ok (nat (m + 1)) g" .
  define l1 where "l1 = (if identifierEqual (link_RemoteChassis l) (lldp_ChassisID msg) then l
    else l\<lparr>link_RemoteChassis := clone_identifier (link_RemoteChassis l) (lldp_ChassisID msg)\<rparr>)"
  define l2 where "l2 = (if id_Subtype (link_RemotePort l1) \<noteq> id_Subtype (lldp_PortID msg) \<or> id_Value (link_RemotePort l1) \<noteq> id_Value (lldp_PortID msg)
    then l1\<lparr>link_RemotePort := clone_identifier (link_RemotePort l1) (lldp_PortID msg)\<rparr> else l1)"
  define l3 where "l3 = l2\<lparr>link_RemoteInterface := g\<rparr>"
  have r: "link_RemoteInterface l2 = link_RemoteInterface l" by (simp add: l1_def l2_def)
  have n: "link_noted m l l3" using g(2) by (simp add: link_noted_def l1_def l2_def l3_def)
  define a where "a = (\<not> identifierEqual (link_RemoteChassis l) (lldp_ChassisID msg))"
  define b' where "b' = (id_Subtype (link_RemotePort l1) \<noteq> id_Subtype (lldp_PortID msg) \<or> id_Value (link_RemotePort l1) \<noteq> id_Value (lldp_PortID msg))"
  define c3 where "c3 = ((b' \<or> a \<or> c) \<or> b)"
  have "lldp_link m meta msg (c, l) = Some (add_link_vlans (map vlan_ID (live (ld_VLANs (lldp_Details msg))))
     (if ld_HasPVID (lldp_Details msg) then add_link_vlans [ld_PVID (lldp_Details msg)] (c3, l3) else (c3, l3)))"
    using g(1) r
    by (cases a; cases b') (simp_all add: lldp_link_def Let_def a_def b'_def c3_def l1_def l2_def l3_def del: add_link_vlans.simps)
  then show ?thesis using n by (simp add: wp link_noted_vlans del: add_link_vlans.simps)
qed

lemma cdp_link_runs:
  assumes m: "alternatives_ok m" and l: "text_ok (nat (m + 1)) (link_RemoteInterface l)"
  shows "runs (cdp_link m meta msg (c, l)) (\<lambda>r. link_noted m l (snd r))"
proof -
  have "1 \<le> m" "m \<le> 255" using m by (simp_all add: alternatives_ok_def)
  from device_ok_mergeText [OF this l] obtain b g where
    g: "mergeText (link_RemoteInterface l) (cdp_PortID msg) ProtocolsCDP 3 (meta_timestamp meta) m = Some (b, g)"
      "text_ok (nat (m + 1)) g" .
  define a where "a = (cdp_DeviceID msg \<noteq> [] \<and> id_Value (link_RemoteChassis l) \<noteq> cdp_DeviceID msg)"
  define l1 where "l1 = (if a then l\<lparr>link_RemoteChassis := \<lparr>id_Subtype = 7,
     id_Value = copyBytes (id_Value (link_RemoteChassis l)) (cdp_DeviceID msg)\<rparr>\<rparr> else l)"
  define b' where "b' = (cdp_PortID msg \<noteq> [] \<and> id_Value (link_RemotePort l1) \<noteq> cdp_PortID msg)"
  define l2 where "l2 = (if b' then l1\<lparr>link_RemotePort := \<lparr>id_Subtype = 7,
     id_Value = copyBytes (id_Value (link_RemotePort l1)) (cdp_PortID msg)\<rparr>\<rparr> else l1)"
  define l3 where "l3 = l2\<lparr>link_RemoteInterface := g\<rparr>"
  define c3 where "c3 = ((b' \<or> a \<or> c) \<or> b)"
  have r: "link_RemoteInterface l2 = link_RemoteInterface l" by (simp add: l1_def l2_def)
  have n: "link_noted m l l3" using g(2) by (simp add: link_noted_def l1_def l2_def l3_def)
  have "cdp_link m meta msg (c, l) = Some
     (if cd_HasNativeVLAN (cdp_Details msg) then add_link_vlans [cd_NativeVLAN (cdp_Details msg)] (c3, l3) else (c3, l3))"
    using g(1) r
    by (cases "cdp_DeviceID msg = []"; cases "id_Value (link_RemoteChassis l) = cdp_DeviceID msg"; cases "cdp_PortID msg = []";
        cases "id_Value (link_RemotePort l) = cdp_PortID msg")
      (simp_all add: cdp_link_def Let_def a_def b'_def c3_def l1_def l2_def l3_def del: add_link_vlans.simps)
  then show ?thesis using n by (simp add: wp link_noted_vlans del: add_link_vlans.simps)
qed

text \<open>What an event of a batch points to exists when the batch is delivered.\<close>

definition event_ok :: "fusionState \<Rightarrow> fusion_event \<Rightarrow> bool" where
  "event_ok s e = (case fe_Target e of
       Tombstone d l \<Rightarrow> True
     | Live di li \<Rightarrow> di < length (fs_devices s) \<and> de_used (fs_devices s ! di) \<and>
         li < length (fs_links s) \<and> le_used (fs_links s ! li) \<and> le_device (fs_links s ! li) = Some di)"

definition handled :: "fusionState \<Rightarrow> fusion_event list \<Rightarrow> fused \<Rightarrow> bool" where
  "handled s events = (\<lambda>(s', events'). fusion_inv s' \<and> conf s' = conf s \<and>
     (\<exists>es. events' = events @ es \<and> (\<forall>e \<in> set es. event_ok s' e)))"

lemma dead_ok: "dead kind e \<Longrightarrow> event_ok s e"
  by (auto simp: dead_def event_ok_def)

lemma applyClassification_runs:
  assumes "classifier_total c"
  shows "runs (applyClassification c d) (\<lambda>(b, d'). dev_Key d' = dev_Key d \<and> device_ok m d' = device_ok m d)"
proof -
  have "Classify c (Some d) \<noteq> None" using assms by (simp only: classifier_total_def simp_thms)
  then obtain r where "Classify c (Some d) = Some r" by blast
  then show ?thesis by (cases r) (simp add: applyClassification_def wp device_ok_def)
qed

lemma finish_runs:
  assumes inv: "fusion_inv s" and d: "di < length (fs_devices s)" "de_used (fs_devices s ! di)"
    and l: "li < length (fs_links s)" "le_used (fs_links s ! li)" "le_device (fs_links s ! li) = Some di"
  shows "runs (finish di li lc added wasNew changed (s, events)) (handled s events)"
proof -
  note S = steadyD [OF fusion_invD(1) [OF inv]]
  let ?d = "de_device (fs_devices s ! di)"
  from runs_exD [OF applyClassification_runs [OF S(3), of ?d "cfg_MaxAlternatives (fs_cfg s)"]] obtain b d' where
    d': "applyClassification (fs_classifier s) ?d = Some (b, d')" "dev_Key d' = dev_Key ?d"
      "device_ok (cfg_MaxAlternatives (fs_cfg s)) d'" using S(6) [OF d(1)] by auto
  define s' where "s' = device_put di d' s"
  have inv': "fusion_inv s'" unfolding s'_def by (rule device_put_fusion_inv [OF inv d(1) d'(2,3)])
  have ok: "event_ok s' \<lparr>fe_Kind = k, fe_Changed = c, fe_Target = Live di li\<rparr>" for k c
    using d l by (simp add: event_ok_def s'_def device_put_def)
  have "conf s' = conf s" unfolding s'_def by (rule device_put_inv(5) [OF d(1) d'(2)])
  then show ?thesis
    using inv' ok d(1) d'(1) set_device_Some [OF d(1), of d']
    by (simp add: finish_def wp Let_def handled_def s'_def)
qed

text \<open>The part the four handlers share: the link of the observation, changes to it, and the event.\<close>

lemma upserted_inv:
  assumes "fusion_inv s" "upserted di s events ((lp, c, a), s', events')"
  shows "fusion_inv s'" "conf s' = conf s" "length (fs_devices s') = length (fs_devices s)"
    "di < length (fs_devices s) \<Longrightarrow> de_used (fs_devices s' ! di) = de_used (fs_devices s ! di)"
proof -
  have o: "links_only s s'" and l: "link_inv {} {} {} s'" using assms(2) by (simp_all add: upserted_def)
  show "fusion_inv s'"
    using l o fusion_invD [OF assms(1)] cache_inv_cong [of s' s] device_inv_cong [of s' s]
    by (simp add: links_only_def fusion_inv_def)
  show "conf s' = conf s" using o by (simp add: links_only_def)
  show "length (fs_devices s') = length (fs_devices s)"
    "di < length (fs_devices s) \<Longrightarrow> de_used (fs_devices s' ! di) = de_used (fs_devices s ! di)"
    using only_devices(1) [OF o] by simp_all
qed

lemma set_link_runs:
  assumes inv: "fusion_inv s" and li: "li < length (fs_links s)" "le_used (fs_links s ! li)"
    and l: "link_noted (cfg_MaxAlternatives (fs_cfg s)) (le_link (fs_links s ! li)) l"
  shows "runs (set_link li l s) (\<lambda>s'. fusion_inv s' \<and> conf s' = conf s \<and> fs_devices s' = fs_devices s \<and>
    le_used (fs_links s' ! li) \<and> le_device (fs_links s' ! li) = le_device (fs_links s ! li))"
proof -
  define e where "e = (fs_links s ! li)\<lparr>le_link := l\<rparr>"
  define s' where "s' = s\<lparr>fs_links := (fs_links s)[li := e]\<rparr>"
  note I = fusion_invD [OF inv]
  have "link_inv {} {} {} s'" unfolding s'_def
    by (rule link_written [OF I(3) li]) (use li l in \<open>simp_all add: e_def same_place_def same_links_def link_key_def link_noted_def\<close>)
  moreover have "link_ok (cfg_MaxAlternatives (fs_cfg s)) e"
    using steadyD(7) [OF I(1) li(1)] l by (simp add: e_def link_ok_def link_noted_def)
  then have "links_only s s'" unfolding s'_def by (intro link_written_only)
  ultimately have "fusion_inv s'" "conf s' = conf s"
    using I cache_inv_cong [of s' s] device_inv_cong [of s' s] by (simp_all add: links_only_def fusion_inv_def)
  then show ?thesis using li by (simp add: set_link_def mod_link_def wp s'_def e_def)
qed

lemma observed_link_runs:
  assumes inv: "fusion_inv s" and d: "di < length (fs_devices s)" "de_used (fs_devices s ! di)" and m: "meta_ok meta"
    and g: "\<And>l c. text_ok (nat (cfg_MaxAlternatives (fs_cfg s) + 1)) (link_RemoteInterface l) \<Longrightarrow>
       runs (g c l) (\<lambda>r. link_noted (cfg_MaxAlternatives (fs_cfg s)) l (snd r))"
  shows "runs (do {
      ((lp, linkChanged, added), s, events) \<leftarrow> upsertLink meta di kind ttl (s, events);
      case lp of
        None \<Rightarrow> Some (s, events)
      | Some li \<Rightarrow> do {
          l \<leftarrow> idx (fs_links s) li;
          (linkChanged, l) \<leftarrow> g linkChanged (le_link l);
          s \<leftarrow> set_link li l s;
          finish di li linkChanged added wasNew changed (s, events)
        }
    }) (handled s events)"
proof -
  note I = fusion_invD [OF inv]
  from runs_exD [OF upsertLink_runs [OF I(3,1,2) d m, of kind ttl events]] obtain lp c a s1 ev1 where
    u: "upsertLink meta di kind ttl (s, events) = Some ((lp, c, a), s1, ev1)" "upserted di s events ((lp, c, a), s1, ev1)"
    by (metis surj_pair)
  note U = upserted_inv [OF inv u(2)]
  obtain es where es: "ev1 = events @ es" "\<forall>e \<in> set es. dead EventEvicted e" using u(2) by (auto simp: upserted_def)
  have eo: "event_ok t e" if "e \<in> set es" for t e using es(2) that dead_ok by blast
  show ?thesis
  proof (cases lp)
    case None
    then show ?thesis using u(1) U(1,2) es eo by (auto simp: wp handled_def)
  next
    case (Some li)
    have li: "li < length (fs_links s1)" "le_used (fs_links s1 ! li)" "le_device (fs_links s1 ! li) = Some di"
      using u(2) Some by (simp_all add: upserted_def)
    have cfg: "fs_cfg s1 = fs_cfg s" using U(2) by (simp add: conf_def)
    have "text_ok (nat (cfg_MaxAlternatives (fs_cfg s) + 1)) (link_RemoteInterface (le_link (fs_links s1 ! li)))"
      using steadyD(7) [OF fusion_invD(1) [OF U(1)] li(1)] cfg by (simp add: link_ok_def)
    from runs_exD [OF g [OF this, of c]] obtain c' l' where
      l': "g c (le_link (fs_links s1 ! li)) = Some (c', l')"
        "link_noted (cfg_MaxAlternatives (fs_cfg s1)) (le_link (fs_links s1 ! li)) l'" using cfg by auto
    from runs_exD [OF set_link_runs [OF U(1) li(1,2) l'(2)]] obtain s2 where
      s2: "set_link li l' s1 = Some s2" "fusion_inv s2" "conf s2 = conf s1" "fs_devices s2 = fs_devices s1"
        "le_used (fs_links s2 ! li)" "le_device (fs_links s2 ! li) = Some di" using li(3) by auto
    have D: "di < length (fs_devices s2)" "de_used (fs_devices s2 ! di)" "li < length (fs_links s2)"
      using s2(3,4) U(3,4) d li(1) by (simp_all add: conf_def)
    have "handled s events r" if "handled s2 ev1 r" for r
      using that s2(3) U(2) es(1) eo by (auto simp: handled_def)
    then show ?thesis
      using u(1) Some li(1) l'(1) s2(1) finish_runs [OF s2(2) D s2(5,6), of c' a wasNew changed ev1]
      by (auto simp: wp elim!: runs_mono)
  qed
qed

section \<open>The handlers\<close>

lemma located_cases:
  assumes "located key s events (p, s', events')"
  shows "fusion_inv s'" "conf s' = conf s" "\<exists>es. events' = events @ es \<and> (\<forall>t. \<forall>e \<in> set es. event_ok t e)"
    "p = Some di \<Longrightarrow> di < length (fs_devices s') \<and> de_used (fs_devices s' ! di)"
  using assms dead_ok by (fastforce simp: located_def)+

lemma handled_trans:
  assumes "handled t ev r" "conf t = conf s" "ev = events @ es" "\<forall>t. \<forall>e \<in> set es. event_ok t e"
  shows "handled s events r"
  using assms by (auto simp: handled_def)

lemma alternatives_steady: "steady s \<Longrightarrow> alternatives_ok (cfg_MaxAlternatives (fs_cfg s))"
  by (simp add: alternatives_ok_def steady_def)

lemma observed_runs:
  assumes inv: "fusion_inv s" and m: "meta_ok meta"
    and f: "\<And>m key n. alternatives_ok m \<Longrightarrow> noted_ok m key n \<Longrightarrow> runs (f m n) (noted_ok m key)"
    and g: "\<And>m l c. alternatives_ok m \<Longrightarrow> text_ok (nat (m + 1)) (link_RemoteInterface l) \<Longrightarrow>
       runs (g m c l) (\<lambda>r. link_noted m l (snd r))"
  shows "runs (do {
     (dp, s, events) \<leftarrow> deviceFor meta claimed addresses (s, events);
     case dp of
       None \<Rightarrow> Some (s, events)
     | Some di \<Rightarrow> do {
         e \<leftarrow> idx (fs_devices s) di;
         let m = cfg_MaxAlternatives (fs_cfg s);
         let wasNew = (dev_Protocols (de_device e) = 0);
         (d, changed) \<leftarrow> f m (de_device e, 0);
         s \<leftarrow> set_device di d s;
         ((lp, linkChanged, added), s, events) \<leftarrow> upsertLink meta di kind (ttl (fs_cfg s)) (s, events);
         case lp of
           None \<Rightarrow> Some (s, events)
         | Some li \<Rightarrow> do {
             l \<leftarrow> idx (fs_links s) li;
             (linkChanged, l) \<leftarrow> g m linkChanged (le_link l);
             s \<leftarrow> set_link li l s;
             finish di li linkChanged added wasNew changed (s, events)
           }
       }
   }) (handled s events)"
proof -
  from runs_exD [OF deviceFor_runs [OF inv, of meta claimed addresses events]] obtain p s1 ev1 where
    u: "deviceFor meta claimed addresses (s, events) = Some (p, s1, ev1)"
      "located (device_key meta claimed addresses) s events (p, s1, ev1)" by (metis surj_pair)
  note L = located_cases [OF u(2)]
  obtain es where es: "ev1 = events @ es" "\<forall>t. \<forall>e \<in> set es. event_ok t e" using L(3) by blast
  show ?thesis
  proof (cases p)
    case None
    then show ?thesis using u(1) L(1,2) es by (auto simp: wp handled_def)
  next
    case (Some di)
    have di: "di < length (fs_devices s1)" "de_used (fs_devices s1 ! di)" using L(4) [OF Some] by simp_all
    let ?m = "cfg_MaxAlternatives (fs_cfg s1)" and ?d = "de_device (fs_devices s1 ! di)"
    have st: "steady s1" by (rule fusion_invD(1) [OF L(1)])
    have "noted_ok ?m (dev_Key ?d) (?d, 0)" using steadyD(6) [OF st di(1)] by (simp add: noted_ok_def)
    from runs_exD [OF f [OF alternatives_steady [OF st] this]] obtain d changed where
      d: "f ?m (?d, 0) = Some (d, changed)" "device_ok ?m d" "dev_Key d = dev_Key ?d" by (auto simp: noted_ok_def)
    define s2 where "s2 = device_put di d s1"
    have inv2: "fusion_inv s2" unfolding s2_def by (rule device_put_fusion_inv [OF L(1) di(1) d(3,2)])
    have c2: "conf s2 = conf s1" unfolding s2_def by (rule device_put_inv(5) [OF di(1) d(3)])
    have cfg: "fs_cfg s2 = fs_cfg s1" using c2 by (simp add: conf_def)
    have d2: "di < length (fs_devices s2)" "de_used (fs_devices s2 ! di)" using di by (simp_all add: s2_def device_put_def)
    have "runs (do {
          ((lp, linkChanged, added), s, events) \<leftarrow> upsertLink meta di kind (ttl (fs_cfg s2)) (s2, ev1);
          case lp of
            None \<Rightarrow> Some (s, events)
          | Some li \<Rightarrow> do {
              l \<leftarrow> idx (fs_links s) li;
              (linkChanged, l) \<leftarrow> g ?m linkChanged (le_link l);
              s \<leftarrow> set_link li l s;
              finish di li linkChanged added (dev_Protocols ?d = 0) changed (s, events)
            }
        }) (handled s2 ev1)"
      by (rule observed_link_runs [OF inv2 d2 m]) (use g [OF alternatives_steady [OF st]] cfg in simp)
    then have "runs (do {
          ((lp, linkChanged, added), s, events) \<leftarrow> upsertLink meta di kind (ttl (fs_cfg s2)) (s2, ev1);
          case lp of
            None \<Rightarrow> Some (s, events)
          | Some li \<Rightarrow> do {
              l \<leftarrow> idx (fs_links s) li;
              (linkChanged, l) \<leftarrow> g ?m linkChanged (le_link l);
              s \<leftarrow> set_link li l s;
              finish di li linkChanged added (dev_Protocols ?d = 0) changed (s, events)
            }
        }) (handled s events)"
      by (rule runs_mono) (use c2 L(2) es in \<open>auto intro: handled_trans\<close>)
    then show ?thesis
      using u(1) Some di d(1) set_device_Some [OF di(1), of d] by (simp add: s2_def Let_def)
  qed
qed

lemma observeLLDP_runs:
  assumes "fusion_inv s" "meta_ok meta" "vendor_total vd"
  shows "runs (observeLLDP vd meta msg (s, events)) (handled s events)"
  unfolding observeLLDP_def Let_def
  by (rule observed_runs [OF assms(1,2), unfolded Let_def, where ttl = "\<lambda>_. uint (lldp_TTLSeconds msg) * Second"])
    (use lldp_device_runs assms(3) lldp_link_runs in blast)+

lemma observeCDP_runs:
  assumes "fusion_inv s" "meta_ok meta" "vendor_total vd"
  shows "runs (observeCDP vd meta msg (s, events)) (handled s events)"
  unfolding observeCDP_def Let_def
  by (rule observed_runs [OF assms(1,2), unfolded Let_def, where ttl = "\<lambda>_. uint (cdp_TTLSeconds msg) * Second"])
    (use cdp_device_runs assms(3) cdp_link_runs in blast)+

lemma observeMNDP_runs:
  assumes "fusion_inv s" "meta_ok meta" "vendor_total vd"
  shows "runs (observeMNDP vd meta msg (s, events)) (handled s events)"
proof (cases "mndp_IsRefresh msg")
  case True
  then show ?thesis using assms(1) by (simp add: observeMNDP_def wp handled_def)
next
  case False
  have g: "runs (do { (b, f) \<leftarrow> mergeText (link_RemoteInterface l) (md_InterfaceName (mndp_Details msg)) ProtocolsMNDP 3 (meta_timestamp meta) m;
      Some (c \<or> b, l\<lparr>link_RemoteInterface := f\<rparr>) }) (\<lambda>r. link_noted m l (snd r))"
    if "alternatives_ok m" "text_ok (nat (m + 1)) (link_RemoteInterface l)" for m l c
  proof -
    have "1 \<le> m" "m \<le> 255" using that(1) by (simp_all add: alternatives_ok_def)
    from device_ok_mergeText [OF this that(2)] obtain b f where
      "mergeText (link_RemoteInterface l) (md_InterfaceName (mndp_Details msg)) ProtocolsMNDP 3 (meta_timestamp meta) m = Some (b, f)"
      "text_ok (nat (m + 1)) f" .
    then show ?thesis by (simp add: wp link_noted_def)
  qed
  show ?thesis
    using observed_runs [OF assms(1,2), unfolded Let_def, where f = "\<lambda>m. mndp_device vd m meta msg"
        and g = "\<lambda>m c l. do { (b, f) \<leftarrow> mergeText (link_RemoteInterface l) (md_InterfaceName (mndp_Details msg)) ProtocolsMNDP 3 (meta_timestamp meta) m;
          Some (c \<or> b, l\<lparr>link_RemoteInterface := f\<rparr>) }" and ttl = cfg_MNDPIdleTTL and kind = SegmentPresence
        and claimed = "mndp_MAC msg" and addresses = "mndp_Addresses msg" and events = events,
        OF mndp_device_runs [OF _ assms(3)] g] False
    by (simp add: observeMNDP_def Let_def case_prod_unfold cong: option.case_cong)
qed

lemma dns_only_inv:
  assumes "fusion_inv s" "cache_inv {} {} {} s'" "dns_only s s'"
  shows "fusion_inv s'" "conf s' = conf s"
    "di < length (fs_devices s) \<Longrightarrow> de_used (fs_devices s' ! di) = de_used (fs_devices s ! di) \<and>
       de_device (fs_devices s' ! di) = de_device (fs_devices s ! di)"
    "length (fs_devices s') = length (fs_devices s)"
proof -
  show "fusion_inv s'" "conf s' = conf s"
    using assms fusion_invD [OF assms(1)] link_inv_cong [of s' s] device_inv_cong [of s' s]
    by (simp_all add: dns_only_def fusion_inv_def)
  show "di < length (fs_devices s) \<Longrightarrow> de_used (fs_devices s' ! di) = de_used (fs_devices s ! di) \<and>
       de_device (fs_devices s' ! di) = de_device (fs_devices s ! di)" "length (fs_devices s') = length (fs_devices s)"
    using only_devices(2) [OF assms(3)] by simp_all
qed

lemma flush_loop_runs:
  "cache_inv {} {} {} s \<Longrightarrow>
   runs (flush_loop di name ty class incoming now is s) (\<lambda>s'. cache_inv {} {} {} s' \<and> dns_only s s')"
proof (induction "is" arbitrary: s)
  case Nil
  then show ?case by (simp add: wp)
next
  case (Cons i "is")
  have step: "runs (flush_loop di name ty class incoming now is t) (\<lambda>s'. cache_inv {} {} {} s' \<and> dns_only s s')"
    if "cache_inv {} {} {} t" "dns_only s t" for t
    by (rule runs_mono [OF Cons.IH [OF that(1)]]) (use only_trans(2) [OF that(2)] in auto)
  note same = step [OF Cons.prems only_refl(2)]
  show ?case
  proof (cases "i < length (fs_dns s) \<and> ne_used (fs_dns s ! i)")
    case False
    then show ?thesis using same by simp
  next
    case True
    then have "runs (setDNSExpiry i now (now + Second) s) (\<lambda>t. cache_inv {} {} {} t \<and> dns_only s t)"
      by (intro runs_mono [OF setDNSExpiry_runs [OF Cons.prems]]) auto
    from runs_exD [OF this] obtain t where
      t: "setDNSExpiry i now (now + Second) s = Some t" "cache_inv {} {} {} t" "dns_only s t" by auto
    show ?thesis using True same step [OF t(2,3)] t(1) by (simp add: Let_def)
  qed
qed

lemma mdns_records_runs:
  "fusion_inv s \<Longrightarrow> di < length (fs_devices s) \<Longrightarrow> de_used (fs_devices s ! di) \<Longrightarrow>
   runs (mdns_records meta di all prior rs (c, changed, s)) (\<lambda>(c', changed', s'). fusion_inv s' \<and> conf s' = conf s \<and>
     de_used (fs_devices s' ! di))"
proof (induction rs arbitrary: s prior c changed)
  case Nil
  then show ?case by (simp add: wp)
next
  case (Cons r rs)
  note inv = Cons.prems(1) and di = Cons.prems(2,3)
  let ?flush = "rr_CacheFlush r \<and> \<not> list_ex (\<lambda>p. rr_CacheFlush p \<and> in_dns_set (rr_Name r) (rr_Type r) (rr_Class r) p) prior"
  let ?s1 = "if ?flush then flushDNSSet di (rr_Name r) (rr_Type r) (rr_Class r) all (meta_timestamp meta) s else Some s"
  have "runs ?s1 (\<lambda>t. cache_inv {} {} {} t \<and> dns_only s t)"
  proof (cases ?flush)
    case True
    have "flushDNSSet di (rr_Name r) (rr_Type r) (rr_Class r) all (meta_timestamp meta) s =
        flush_loop di (rr_Name r) (rr_Type r) (rr_Class r) all (meta_timestamp meta) (de_dns (fs_devices s ! di)) s"
      using di(1) by (simp add: flushDNSSet_def)
    then show ?thesis using True flush_loop_runs [OF fusion_invD(4) [OF inv]] by simp
  next
    case False
    then show ?thesis using fusion_invD(4) [OF inv] by (simp only: if_False runs_Some only_refl simp_thms)
  qed
  from runs_exD [OF this] obtain s1 where s1: "?s1 = Some s1" "cache_inv {} {} {} s1" "dns_only s s1" by blast
  note D1 = dns_only_inv [OF inv s1(2,3)]
  have di1: "di < length (fs_devices s1)" "de_used (fs_devices s1 ! di)" using D1(3,4) di by auto
  from runs_exD [OF cacheDNS_runs [OF s1(2) di1, of r "meta_timestamp meta"]] obtain b s2 where
    s2: "cacheDNS di (Some r) (meta_timestamp meta) s1 = Some (b, s2)" "cache_inv {} {} {} s2" "dns_only s1 s2" by auto
  note D2 = dns_only_inv [OF D1(1) s2(2,3)]
  have di2: "di < length (fs_devices s2)" "de_used (fs_devices s2 ! di)" using D2(3,4) di1 by auto
  let ?d = "de_device (fs_devices s2 ! di)" and ?m = "cfg_MaxAlternatives (fs_cfg s2)"
  have st: "steady s2" by (rule fusion_invD(1) [OF D2(1)])
  have n: "noted_ok ?m (dev_Key ?d) (?d, changed)" using steadyD(6) [OF st di2(1)] by (simp add: noted_ok_def)
  from runs_exD [OF note_host_runs [OF alternatives_steady [OF st] n, of meta r]] obtain d changed' where
    d: "note_host ?m meta r (?d, changed) = Some (d, changed')" "device_ok ?m d" "dev_Key d = dev_Key ?d"
    by (auto simp: noted_ok_def)
  define s3 where "s3 = device_put di d s2"
  have inv3: "fusion_inv s3" unfolding s3_def by (rule device_put_fusion_inv [OF D2(1) di2(1) d(3,2)])
  have c3: "conf s3 = conf s" using device_put_inv(5) [OF di2(1) d(3)] D1(2) D2(2) by (simp add: s3_def)
  have di3: "di < length (fs_devices s3)" "de_used (fs_devices s3 ! di)" using di2 by (simp_all add: s3_def device_put_def)
  have "mdns_records meta di all prior (r # rs) (c, changed, s) =
      mdns_records meta di all (prior @ [r]) rs (c \<or> b, changed', s3)"
    using s1(1) s2(1) di2(1) d(1) set_device_Some [OF di2(1), of d] by (simp add: s3_def)
  then show ?case
    using Cons.IH [OF inv3 di3, of "prior @ [r]" "c \<or> b" changed'] c3 by (auto elim!: runs_mono)
qed

lemma finish_link_runs:
  assumes inv: "fusion_inv s" and d: "di < length (fs_devices s)" "de_used (fs_devices s ! di)" and m: "meta_ok meta"
  shows "runs (do {
      ((lp, linkChanged, added), s, events) \<leftarrow> upsertLink meta di kind ttl (s, events);
      case lp of
        None \<Rightarrow> Some (s, events)
      | Some li \<Rightarrow> finish di li linkChanged added wasNew changed (s, events)
    }) (handled s events)"
proof -
  note I = fusion_invD [OF inv]
  from runs_exD [OF upsertLink_runs [OF I(3,1,2) d m, of kind ttl events]] obtain lp c a s1 ev1 where
    u: "upsertLink meta di kind ttl (s, events) = Some ((lp, c, a), s1, ev1)" "upserted di s events ((lp, c, a), s1, ev1)"
    by (metis surj_pair)
  note U = upserted_inv [OF inv u(2)]
  obtain es where es: "ev1 = events @ es" "\<forall>t. \<forall>e \<in> set es. event_ok t e" using u(2) dead_ok by (fastforce simp: upserted_def)
  show ?thesis
  proof (cases lp)
    case None
    then show ?thesis using u(1) U(1,2) es by (auto simp: wp handled_def)
  next
    case (Some li)
    have li: "li < length (fs_links s1)" "le_used (fs_links s1 ! li)" "le_device (fs_links s1 ! li) = Some di"
      using u(2) Some by (simp_all add: upserted_def)
    have D: "di < length (fs_devices s1)" "de_used (fs_devices s1 ! di)" using U(3,4) d by simp_all
    show ?thesis
      using u(1) Some finish_runs [OF U(1) D li, of c a wasNew changed ev1] U(2) es
      by (auto simp: wp elim!: runs_mono intro: handled_trans)
  qed
qed

lemma observeMDNS_runs:
  assumes inv: "fusion_inv s" and m: "meta_ok meta" and v: "vendor_total vd"
  shows "runs (observeMDNS vd clock meta msg (s, events)) (handled s events)"
proof -
  let ?records = "live (mdns_Records msg)"
  let ?addresses = "if IsValid (meta_sourceIP meta) then [] else first_address ?records"
  from runs_exD [OF deviceFor_runs [OF inv, of meta zero_mac ?addresses events]] obtain p s1 ev1 where
    u: "deviceFor meta zero_mac ?addresses (s, events) = Some (p, s1, ev1)"
      "located (device_key meta zero_mac ?addresses) s events (p, s1, ev1)" by (metis surj_pair)
  note L = located_cases [OF u(2)]
  obtain es where es: "ev1 = events @ es" "\<forall>t. \<forall>e \<in> set es. event_ok t e" using L(3) by blast
  show ?thesis
  proof (cases p)
    case None
    then show ?thesis using u(1) L(1,2) es by (auto simp: observeMDNS_def Let_def wp handled_def)
  next
    case (Some di)
    have di: "di < length (fs_devices s1)" "de_used (fs_devices s1 ! di)" using L(4) [OF Some] by simp_all
    let ?m = "cfg_MaxAlternatives (fs_cfg s1)" and ?d = "de_device (fs_devices s1 ! di)"
    have st: "steady s1" by (rule fusion_invD(1) [OF L(1)])
    have n: "noted_ok ?m (dev_Key ?d) (?d, 0)" using steadyD(6) [OF st di(1)] by (simp add: noted_ok_def)
    from runs_exD [OF mdns_sender_runs [OF alternatives_steady [OF st] v n, of meta]] obtain d changed where
      d: "mdns_sender vd ?m meta (?d, 0) = Some (d, changed)" "device_ok ?m d" "dev_Key d = dev_Key ?d" by (auto simp: noted_ok_def)
    define s2 where "s2 = device_put di d s1"
    have inv2: "fusion_inv s2" unfolding s2_def by (rule device_put_fusion_inv [OF L(1) di(1) d(3,2)])
    have c2: "conf s2 = conf s" using device_put_inv(5) [OF di(1) d(3)] L(2) by (simp add: s2_def)
    have d2: "di < length (fs_devices s2)" "de_used (fs_devices s2 ! di)" using di by (simp_all add: s2_def device_put_def)
    from runs_exD [OF mdns_records_runs [OF inv2 d2, of meta ?records "[]" ?records False changed]] obtain cc ch s3 where
      s3: "mdns_records meta di ?records [] ?records (False, changed, s2) = Some (cc, ch, s3)" "fusion_inv s3"
        "conf s3 = conf s2" "de_used (fs_devices s3 ! di)" by auto
    have d3: "di < length (fs_devices s3)" using s3(3) d2(1) by (simp add: conf_def)
    from runs_exD [OF rebuilt_inv [OF s3(2) d3]] obtain b t where
      t: "rebuildServices di s3 = Some (b, t)" "fusion_inv t" "conf t = conf s3" "de_used (fs_devices t ! di)"
      using s3(4) by auto
    define s4 where "s4 = (if cc then t else s3)"
    define ch4 where "ch4 = (if cc then ch OR FieldServices else ch)"
    have s4: "fusion_inv s4" "conf s4 = conf s" "de_used (fs_devices s4 ! di)" "di < length (fs_devices s4)"
      using s3 t c2 d3 by (simp_all add: s4_def) (simp add: conf_def)
    let ?e = "de_device (fs_devices s4 ! di)"
    have st4: "steady s4" by (rule fusion_invD(1) [OF s4(1)])
    have "noted_ok (cfg_MaxAlternatives (fs_cfg s4)) (dev_Key ?e) (note_protocol ProtocolsMDNS (?e, ch4))"
      using steadyD(6) [OF st4 s4(4)] by (intro note_flags_ok(2)) (simp add: noted_ok_def)
    then obtain d' ch5 where d': "note_protocol ProtocolsMDNS (?e, ch4) = (d', ch5)"
      "device_ok (cfg_MaxAlternatives (fs_cfg s4)) d'" "dev_Key d' = dev_Key ?e"
      by (cases "note_protocol ProtocolsMDNS (?e, ch4)") (simp add: noted_ok_def)
    let ?d' = "updateDeviceTimes (meta_timestamp meta) d'"
    define s5 where "s5 = device_put di ?d' s4"
    have inv5: "fusion_inv s5" unfolding s5_def by (rule device_put_fusion_inv [OF s4(1,4)]) (simp_all add: d')
    have c5: "conf s5 = conf s" using device_put_inv(5) [OF s4(4), of ?d'] d'(3) s4(2) by (simp add: s5_def)
    have d5: "di < length (fs_devices s5)" "de_used (fs_devices s5 ! di)" using s4 by (simp_all add: s5_def device_put_def)
    have step: "(if cc then do { (_, s) \<leftarrow> rebuildServices di s3; Some (ch OR FieldServices, s) } else Some (ch, s3)) = Some (ch4, s4)"
      using t(1) by (simp add: ch4_def s4_def)
    have "observeMDNS vd clock meta msg (s, events) = do {
        ((lp, linkChanged, added), s, events) \<leftarrow>
          upsertLink meta di SegmentPresence (mdns_ttl clock (meta_timestamp meta) (de_dnsExpiry (fs_devices s4 ! di))) (s5, ev1);
        case lp of
          None \<Rightarrow> Some (s, events)
        | Some li \<Rightarrow> finish di li linkChanged added (dev_Protocols ?d = 0) ch5 (s, events)
      }"
      using u(1) Some di d(1) set_device_Some [OF di(1), of d] s3(1) s4(4) d'(1) set_device_Some [OF s4(4), of ?d'] step
      by (simp add: observeMDNS_def Let_def s2_def s5_def)
    then show ?thesis
      using finish_link_runs [OF inv5 d5 m, of SegmentPresence
          "mdns_ttl clock (meta_timestamp meta) (de_dnsExpiry (fs_devices s4 ! di))" ev1 "dev_Protocols ?d = 0" ch5] c5 es
      by (auto elim!: runs_mono intro: handled_trans)
  qed
qed

end
