(* ===== verification/FusionClock.thy ===== *)
theory FusionClock
  imports ObserveInv
begin

text \<open>
  The clock of the fusion state: a tick moves the cursor of both wheels by one slot, fires the entries of
  that slot whose rounds are used up, and counts down the others. The lemmas follow the chain of the slot
  while entries are removed from it and put back at its head.
\<close>

section \<open>The chain of a slot\<close>

fun chain_first :: "nat list \<Rightarrow> nat option" where
  "chain_first [] = None"
| "chain_first (x # xs) = Some x"

lemma wheel_next:
  assumes "wheel_inv (nodes, heads) f" "c < length heads" "f c = pre @ i # rest"
  shows "wheelNext (nodes ! i) = chain_first rest" "i < length nodes" "i \<notin> set pre" "i \<notin> set rest" "distinct rest"
    "wheelSlot (nodes ! i) = Some c"
proof -
  obtain e where e: "seg nodes (None, heads ! c) (f c) (e, None)" and d: "distinct (f c)"
    using wheel_inv_seg [OF assms(1,2)] by auto
  then obtain m where "seg nodes m (i # rest) (e, None)" by (auto simp: assms(3) seg_append)
  then have "seg nodes (Some i, wheelNext (nodes ! i)) rest (e, None)" "i < length nodes" by simp_all
  then show "wheelNext (nodes ! i) = chain_first rest" "i < length nodes" by (cases rest; simp)+
  show "i \<notin> set pre" "i \<notin> set rest" "distinct rest" using d by (simp_all add: assms(3))
  show "wheelSlot (nodes ! i) = Some c" using wheel_inv_mem [OF assms(1,2), of i] by (simp add: assms(3))
qed

lemma wheel_head:
  assumes "wheel_inv (nodes, heads) f" "c < length heads"
  shows "heads ! c = chain_first (f c)"
proof -
  obtain e where "seg nodes (None, heads ! c) (f c) (e, None)" using wheel_inv_seg [OF assms] by auto
  then show ?thesis by (cases "f c") auto
qed

text \<open>What handling entry \<open>i\<close> may do to the chain it is in.\<close>

definition chain_step :: "nat \<Rightarrow> 'a wheel \<Rightarrow> 'a wheel \<Rightarrow> nat \<Rightarrow> bool" where
  "chain_step i w w' c =
     (\<forall>f. wheel_inv w f \<longrightarrow>
        (\<exists>g. wheel_inv w' g \<and> (g c = f c \<or> g c = removeAll i (f c) \<or> g c = i # removeAll i (f c))))"

lemma chain_stepD:
  assumes "chain_step i (nodes, heads) w' c" "wheel_inv (nodes, heads) f" "c < length heads" "f c = pre @ i # rest"
  obtains g pre' where "wheel_inv w' g" "g c = pre' @ rest"
proof -
  have n: "i \<notin> set pre" "i \<notin> set rest" using wheel_next [OF assms(2,3,4)] by blast+
  obtain g where g: "wheel_inv w' g" "g c = f c \<or> g c = removeAll i (f c) \<or> g c = i # removeAll i (f c)"
    using assms(1,2) unfolding chain_step_def by blast
  moreover have "removeAll i (f c) = pre @ rest" using n by (simp add: assms(4))
  ultimately have "g c = (pre @ [i]) @ rest \<or> g c = pre @ rest \<or> g c = (i # pre) @ rest" using assms(4) by simp
  then show thesis using that g(1) by blast
qed

section \<open>One link of the slot\<close>

lemma link_replaced:
  assumes inv: "link_inv X U T s" and i: "i < length (fs_links s)"
    and P: "pool_inv le_used le_device link_key X V ls heads (fs_freeLinks s) (fs_linkByKey s) (link_owners (fs_devices s))"
    and fr: "wheel_frame i (fs_links s, fs_linkHeads s) (ls, heads)"
  shows "link_inv X V T (s\<lparr>fs_links := ls, fs_linkHeads := heads\<rparr>)" "link_kept i s (s\<lparr>fs_links := ls, fs_linkHeads := heads\<rparr>)"
    "wheel_node.more (ls ! i) = wheel_node.more (fs_links s ! i)"
proof -
  have len: "length ls = length (fs_links s)" using fr by (rule wheel_frame_length)
  have more: "wheel_node.more (ls ! j) = wheel_node.more (fs_links s ! j)" if "j < length ls" for j
    using wheel_frame_more [OF fr] that len by simp
  have eq: "le_used (ls ! j) = le_used (fs_links s ! j)" "le_link (ls ! j) = le_link (fs_links s ! j)"
    "le_device (ls ! j) = le_device (fs_links s ! j)" "le_expires (ls ! j) = le_expires (fs_links s ! j)" if "j < length ls" for j
    using link_more [OF more] that by simp_all
  have tags: "link_tags T ls (fs_devices s)" using inv len by (simp add: link_inv_def link_tags_def eq link_key_def)
  let ?s = "s\<lparr>fs_links := ls, fs_linkHeads := heads\<rparr>"
  have h: "length heads = length (fs_linkHeads s)" using fr by (simp add: wheel_frame_def)
  have st: "steady ?s" if "steady s"
    by (rule steadyI [OF that]) (use steadyD [OF that] h len eq in \<open>auto simp: conf_def link_ok_def\<close>)
  show "link_inv X V T ?s" using P tags by (simp add: link_inv_def)
  show "wheel_node.more (ls ! i) = wheel_node.more (fs_links s ! i)" using more i len by simp
  have "links_only s ?s" using st h len by (simp add: links_only_def cores)
  moreover have "links_frame i s ?s" using fr more len by (auto simp: links_frame_def wheel_frame_def)
  ultimately show "link_kept i s ?s" using eq i len by (simp add: link_kept_def)
qed

lemma unscheduleLink_runs:
  assumes inv: "link_inv X U T s" and i: "i < length (fs_links s)" "le_used (fs_links s ! i)"
  shows "runs (unscheduleLink i s) (\<lambda>s'. link_inv X (insert i U) T s' \<and> link_kept i s s' \<and>
    wheel_node.more (fs_links s' ! i) = wheel_node.more (fs_links s ! i) \<and> wheelSlot (fs_links s' ! i) = None \<and>
    (\<forall>f. wheel_inv (fs_links s, fs_linkHeads s) f \<longrightarrow> wheel_inv (fs_links s', fs_linkHeads s') (unlisted f i)))"
proof -
  have p: "pool_inv le_used le_device link_key X U (fs_links s) (fs_linkHeads s) (fs_freeLinks s) (fs_linkByKey s)
     (link_owners (fs_devices s))" using inv by (simp add: link_inv_def)
  from runs_exD [OF link_pool.unscheduled [OF p i]] obtain ls heads where
    u: "unschedule (fs_links s, fs_linkHeads s) i = Some (ls, heads)"
    and P: "pool_inv le_used le_device link_key X (insert i U) ls heads (fs_freeLinks s) (fs_linkByKey s) (link_owners (fs_devices s))"
    and fr: "wheel_frame i (fs_links s, fs_linkHeads s) (ls, heads)" and slot: "wheelSlot (ls ! i) = None" by auto
  have "wheel_inv (ls, heads) (unlisted f i)" if "wheel_inv (fs_links s, fs_linkHeads s) f" for f
    using runs_SomeD [OF unschedule_runs [OF that i(1)] u] by simp
  then show ?thesis
    using link_replaced [OF inv i(1) P fr] slot by (simp add: unscheduleLink_def u wp)
qed

text \<open>What expiry does to the protocols of a link.\<close>

lemma expire_protocols_runs:
  "\<forall>p \<in> set ps. p < length xs \<Longrightarrow>
   runs (expire_protocols now ps (b, prots, xs)) (\<lambda>(b', prots', xs'). length xs' = length xs)"
proof (induction ps arbitrary: b prots xs)
  case (Cons p ps)
  then have p: "p < length xs" and r: "\<forall>p \<in> set ps. p < length (xs[p := 0])" "\<forall>p \<in> set ps. p < length xs" by simp_all
  note IH = Cons.IH [of "xs[p := 0]"] Cons.IH [of xs]
  show ?case using p IH r by (auto simp: wp)
qed (simp add: wp)

text \<open>What a link looks like after the tick that reached its slot.\<close>

definition turned :: "Time \<Rightarrow> nat \<Rightarrow> nat \<Rightarrow> nat \<Rightarrow> linkEntry \<Rightarrow> linkEntry \<Rightarrow> fusion_event list \<Rightarrow> bool" where
  "turned now c n i l l' es =
     (if wheelRound l > 0
      then wheel_node.more l' = wheel_node.more l \<and> wheelSlot l' = wheelSlot l \<and> wheelRound l' = wheelRound l - 1 \<and> es = []
      else (\<exists>b ps xs. expire_protocols now protocol_range (False, link_Protocols (le_link l), le_expires l) = Some (b, ps, xs) \<and>
        (if ps = 0 then \<not> le_used l' \<and> wheelSlot l' = None \<and> (\<exists>e. es = [e] \<and> dead EventExpired e)
         else \<exists>earliest. earliestExpiry xs = Some earliest \<and> le_used l' \<and> le_device l' = le_device l \<and>
           link_Protocols (le_link l') = ps \<and> le_expires l' = xs \<and> link_ExpiresAt (le_link l') = earliest \<and>
           wheelSlot l' = Some ((c + ticks_until now earliest) mod n) \<and>
           wheelRound l' = (ticks_until now earliest - 1) div n \<and>
           (\<forall>di. le_device l = Some di \<longrightarrow>
              es = (if b then [\<lparr>fe_Kind = EventChanged, fe_Changed = FieldLink, fe_Target = Live di i\<rparr>] else [])))))"

text \<open>Events on other links stay deliverable.\<close>

definition others_ok :: "nat \<Rightarrow> fusionState \<Rightarrow> fusionState \<Rightarrow> bool" where
  "others_ok i s s' = (\<forall>e. event_ok s e \<longrightarrow> (\<forall>di. fe_Target e \<noteq> Live di i) \<longrightarrow> event_ok s' e)"

lemma others_ok_frame:
  assumes "links_frame i s s'"
    and "\<And>di li. li < length (fs_links s) \<Longrightarrow> li \<noteq> i \<Longrightarrow> le_used (fs_links s ! li) \<Longrightarrow> le_device (fs_links s ! li) = Some di \<Longrightarrow>
      di < length (fs_devices s) \<Longrightarrow> de_used (fs_devices s ! di) \<Longrightarrow> di < length (fs_devices s') \<and> de_used (fs_devices s' ! di)"
  shows "others_ok i s s'"
  unfolding others_ok_def
proof (intro allI impI)
  fix e
  assume e: "event_ok s e" "\<forall>di. fe_Target e \<noteq> Live di i"
  show "event_ok s' e"
  proof (cases "fe_Target e")
    case (Live di li)
    then have "li \<noteq> i" "li < length (fs_links s)" using e by (auto simp: event_ok_def)
    moreover from this have "wheel_node.more (fs_links s' ! li) = wheel_node.more (fs_links s ! li)"
      using assms(1) by (simp add: links_frame_def)
    ultimately show ?thesis
      using assms(2) [of li di] link_more [of "fs_links s' ! li" "fs_links s ! li"] assms(1) e(1)
      by (simp add: event_ok_def Live links_frame_def)
  qed (simp add: event_ok_def)
qed

lemma links_only_inv:
  assumes "fusion_inv s" "link_inv {} {} {} s'" "links_only s s'"
  shows "fusion_inv s'" "conf s' = conf s"
  using assms fusion_invD [OF assms(1)] cache_inv_cong [of s' s] device_inv_cong [of s' s]
  by (simp_all add: links_only_def fusion_inv_def)

definition dns_fixed :: "fusionState \<Rightarrow> fusionState \<Rightarrow> bool" where
  "dns_fixed s s' = (fs_dns s' = fs_dns s \<and> fs_dnsHeads s' = fs_dnsHeads s)"

text \<open>The expiring link, taken out of its slot and stripped of the protocols that expired.\<close>

lemma expired_link_runs:
  assumes inv: "fusion_inv s" and i: "i < length (fs_links s)" "le_used (fs_links s ! i)"
  obtains b ps xs u where
    "expire_protocols now protocol_range (False, link_Protocols (le_link (fs_links s ! i)), le_expires (fs_links s ! i)) = Some (b, ps, xs)"
    "length xs = 5"
    "(do { t \<leftarrow> unscheduleLink i s;
        mod_link i (\<lambda>l. l\<lparr>le_link := (le_link l)\<lparr>link_Protocols := ps\<rparr>, le_expires := xs\<rparr>) t }) = Some u"
    "link_inv {} {i} {} u" "link_kept i s u" "wheelSlot (fs_links u ! i) = None"
    "link_Protocols (le_link (fs_links u ! i)) = ps" "le_expires (fs_links u ! i) = xs"
    "\<And>f. wheel_inv (fs_links s, fs_linkHeads s) f \<Longrightarrow> wheel_inv (fs_links u, fs_linkHeads u) (unlisted f i)"
proof -
  note I = fusion_invD [OF inv]
  let ?l = "fs_links s ! i"
  have ok: "link_ok (cfg_MaxAlternatives (fs_cfg s)) ?l" by (rule steadyD(7) [OF I(1) i(1)])
  then have "length (le_expires ?l) = 5" by (simp add: link_ok_def)
  then have "runs (expire_protocols now protocol_range (False, link_Protocols (le_link ?l), le_expires ?l))
      (\<lambda>(b', prots', xs'). length xs' = 5)"
    using expire_protocols_runs [of protocol_range "le_expires ?l"] by (simp add: protocol_range_eq)
  from runs_exD [OF this] obtain b ps xs where
    x: "expire_protocols now protocol_range (False, link_Protocols (le_link ?l), le_expires ?l) = Some (b, ps, xs)" "length xs = 5"
    by auto
  from runs_exD [OF unscheduleLink_runs [OF I(3) i]] obtain t where
    t: "unscheduleLink i s = Some t" "link_inv {} {i} {} t" "link_kept i s t"
      "wheel_node.more (fs_links t ! i) = wheel_node.more ?l" "wheelSlot (fs_links t ! i) = None"
      "\<And>f. wheel_inv (fs_links s, fs_linkHeads s) f \<Longrightarrow> wheel_inv (fs_links t, fs_linkHeads t) (unlisted f i)" by auto
  have it: "i < length (fs_links t)" "le_used (fs_links t ! i)"
    using t(3) i by (simp_all add: link_kept_def links_frame_def)
  define e where "e = (fs_links t ! i)\<lparr>le_link := (le_link (fs_links t ! i))\<lparr>link_Protocols := ps\<rparr>, le_expires := xs\<rparr>"
  define u where "u = t\<lparr>fs_links := (fs_links t)[i := e]\<rparr>"
  have place: "same_place e (fs_links t ! i)" by (simp add: e_def same_place_def same_links_def)
  have run: "(do { t \<leftarrow> unscheduleLink i s;
        mod_link i (\<lambda>l. l\<lparr>le_link := (le_link l)\<lparr>link_Protocols := ps\<rparr>, le_expires := xs\<rparr>) t }) = Some u"
    using t(1) it(1) by (simp add: mod_link_def u_def e_def)
  have "link_inv {} {i} {} u" unfolding u_def
    by (rule link_written [OF t(2) it _ place]) (use it in \<open>simp_all add: e_def link_key_def\<close>)
  moreover have "link_ok (cfg_MaxAlternatives (fs_cfg s)) e"
    using ok link_more [OF t(4)] x(2) by (simp add: e_def link_ok_def)
  moreover have "fs_cfg t = fs_cfg s" using t(3) by (simp add: link_kept_def links_only_def conf_def)
  ultimately have 1: "link_inv {} {i} {} u" "link_kept i t u"
    using link_kept_update [of t e i] it by (simp_all add: u_def e_def)
  have 2: "wheelSlot (fs_links u ! i) = None" "link_Protocols (le_link (fs_links u ! i)) = ps" "le_expires (fs_links u ! i) = xs"
    using it t(5) by (simp_all add: u_def e_def)
  have 3: "wheel_inv (fs_links u, fs_linkHeads u) (unlisted f i)" if "wheel_inv (fs_links s, fs_linkHeads s) f" for f
    using wheel_inv_update [OF t(6) [OF that] place] by (simp add: u_def)
  show thesis by (rule that [OF x run 1(1) link_kept_trans [OF t(3) 1(2)] 2(1,2,3) 3])
qed

definition link_turn :: "Time \<Rightarrow> nat \<Rightarrow> fusionState \<Rightarrow> fusion_event list \<Rightarrow> fused \<Rightarrow> bool" where
  "link_turn now i s events = (\<lambda>(s', events').
     fusion_inv s' \<and> conf s' = conf s \<and> dns_fixed s s' \<and> links_frame i s s' \<and> others_ok i s s' \<and>
     chain_step i (fs_links s, fs_linkHeads s) (fs_links s', fs_linkHeads s') (fs_wheelCursor s) \<and>
     (\<exists>es. events' = events @ es \<and>
        turned now (fs_wheelCursor s) (length (fs_linkHeads s)) i (fs_links s ! i) (fs_links s' ! i) es \<and>
        (\<forall>e \<in> set es. event_ok s' e \<and> (\<forall>di li. fe_Target e = Live di li \<longrightarrow> li = i))))"

lemma link_kept_frame:
  assumes "link_kept i s s'"
  shows "links_frame i s s'" "others_ok i s s'" "dns_fixed s s'"
proof -
  show f: "links_frame i s s'" using assms by (simp add: link_kept_def)
  show "others_ok i s s'" by (rule others_ok_frame [OF f]) (use assms in \<open>simp add: link_kept_def\<close>)
  show "dns_fixed s s'" using assms by (simp add: link_kept_def links_only_def dns_core_def dns_fixed_def)
qed

text \<open>A link that has rounds left is counted down.\<close>

lemma count_link_runs:
  assumes inv: "fusion_inv s" and i: "i < length (fs_links s)" "le_used (fs_links s ! i)" "wheelRound (fs_links s ! i) > 0"
  shows "runs (tick_link now i (s, events)) (link_turn now i s events)"
proof -
  note I = fusion_invD [OF inv]
  define e where "e = (fs_links s ! i)\<lparr>wheelRound := wheelRound (fs_links s ! i) - 1\<rparr>"
  define s' where "s' = s\<lparr>fs_links := (fs_links s)[i := e]\<rparr>"
  have place: "same_place e (fs_links s ! i)" by (simp add: e_def same_place_def same_links_def)
  have l: "link_inv {} {} {} s'" unfolding s'_def
    by (rule link_written [OF I(3) i(1,2) _ place]) (use i in \<open>simp_all add: e_def link_key_def\<close>)
  have "link_ok (cfg_MaxAlternatives (fs_cfg s)) e" using steadyD(7) [OF I(1) i(1)] by (simp add: e_def link_ok_def)
  then have k: "link_kept i s s'" unfolding s'_def using i by (intro link_kept_update) (simp_all add: e_def)
  then have "links_only s s'" by (simp add: link_kept_def)
  note S = links_only_inv [OF inv l this]
  have "chain_step i (fs_links s, fs_linkHeads s) (fs_links s', fs_linkHeads s') (fs_wheelCursor s)"
    unfolding chain_step_def using wheel_inv_update [OF _ place] by (auto simp: s'_def)
  moreover have "turned now (fs_wheelCursor s) (length (fs_linkHeads s)) i (fs_links s ! i) (fs_links s' ! i) []"
    using i by (simp add: turned_def s'_def e_def)
  ultimately have "link_turn now i s events (s', events)"
    using S link_kept_frame [OF k] by (simp add: link_turn_def)
  moreover have "tick_link now i (s, events) = Some (s', events)"
    using i by (simp add: tick_link_def mod_link_def s'_def e_def)
  ultimately show ?thesis by (simp add: wp)
qed

text \<open>A link without protocols is removed, and its device with it when nothing is left of that.\<close>

lemma remove_link_runs:
  assumes u: "link_inv {} {i} {} u" "steady u" "device_inv {} u" "cache_inv {} {} {} u"
    and i: "i < length (fs_links u)" "le_used (fs_links u ! i)" "le_device (fs_links u ! i) = Some di"
  shows "runs (do {
         (s, events) \<leftarrow> removeLink i EventExpired (u, events);
         d \<leftarrow> idx (fs_devices s) di;
         if de_used d \<and> de_links d = [] \<and> de_dns d = []
         then do { s \<leftarrow> dropDevice di s; Some (s, events) }
         else Some (s, events)
       }) (\<lambda>(s', events'). fusion_inv s' \<and> conf s' = conf u \<and> dns_fixed u s' \<and> links_frame i u s' \<and> others_ok i u s' \<and>
     (\<forall>f. wheel_inv (fs_links u, fs_linkHeads u) f \<longrightarrow> wheel_inv (fs_links s', fs_linkHeads s') (unlisted f i)) \<and>
     \<not> le_used (fs_links s' ! i) \<and> wheelSlot (fs_links s' ! i) = None \<and> (\<exists>e. events' = events @ [e] \<and> dead EventExpired e))"
proof -
  from runs_exD [OF removeLink_runs [OF u(1) i(1,2), of EventExpired events]] obtain w e where
    w: "removeLink i EventExpired (u, events) = Some (w, events @ [e])" "link_inv {} {} {} w" "link_removed i u w" "dead EventExpired e"
    by auto
  have R: "conf w = conf u" "dns_core w = dns_core u" "device_core w = device_core u" "links_frame i u w" "\<not> le_used (fs_links w ! i)"
    "steady w" "\<And>f. wheel_inv (fs_links u, fs_linkHeads u) f \<Longrightarrow> wheel_inv (fs_links w, fs_linkHeads w) (unlisted f i)"
    using w(3) u(2) by (simp_all add: link_removed_def)
  have inv: "fusion_inv w"
    using w(2) R(6) u(3,4) cache_inv_cong [OF R(2)] device_inv_cong [OF R(3)] by (simp add: fusion_inv_def)
  have len: "length (fs_devices w) = length (fs_devices u)" using R(1) by (simp add: conf_def)
  have used: "de_used (fs_devices w ! dj) = de_used (fs_devices u ! dj)" if "dj < length (fs_devices u)" for dj
    using R(3) that by (auto simp: device_core_def dest!: map_eqD)
  have di: "di < length (fs_devices w)" using link_ownerD [OF u(1) i(1,2)] i(3) len by auto
  have fixed: "dns_fixed u w" using R(2) by (simp add: dns_core_def dns_fixed_def)
  have iw: "i < length (fs_links w)" using R(4) i by (simp add: links_frame_def)
  have "wheelSlot (fs_links w ! i) = None"
  proof -
    have "pool_wheel le_used {} (fs_links w) (fs_linkHeads w)" using w(2) by (simp add: link_inv_def pool_inv_def)
    from pool_wheelD(3) [OF this iw] R(5) show ?thesis by blast
  qed
  note W = R(1,4,5,7) fixed this
  show ?thesis
  proof (cases "de_used (fs_devices w ! di) \<and> de_links (fs_devices w ! di) = [] \<and> de_dns (fs_devices w ! di) = []")
    case False
    have "others_ok i u w" by (rule others_ok_frame [OF R(4)]) (simp add: used len)
    then show ?thesis using w(1,4) W inv di by (simp add: wp if_not_P [OF False])
  next
    case True
    then have T: "de_used (fs_devices w ! di)" "de_links (fs_devices w ! di) = []" "de_dns (fs_devices w ! di) = []" by auto
    from runs_exD [OF dropDevice_runs [OF inv di T]] obtain x where
      x: "dropDevice di w = Some x" "fusion_inv x" "only_forgets w x"
        "fs_links x = fs_links w" "fs_linkHeads x = fs_linkHeads w" "fs_dns x = fs_dns w" "fs_dnsHeads x = fs_dnsHeads w"
      by auto
    have devs: "fs_devices x ! dj = fs_devices w ! dj" if "dj \<noteq> di" for dj
      using x(1) di that by (auto simp: dropDevice_def mod_device_def)
    have lx: "length (fs_devices x) = length (fs_devices w)" using x(3) by (simp add: only_forgets_def conf_def)
    have "others_ok i u x"
    proof (rule others_ok_frame)
      show "links_frame i u x" using R(4) x(4) by (simp add: links_frame_def)
      fix dj li
      assume l: "li < length (fs_links u)" "li \<noteq> i" "le_used (fs_links u ! li)" "le_device (fs_links u ! li) = Some dj"
        and d: "dj < length (fs_devices u)" "de_used (fs_devices u ! dj)"
      have "wheel_node.more (fs_links w ! li) = wheel_node.more (fs_links u ! li)" "li < length (fs_links w)"
        using R(4) l by (simp_all add: links_frame_def)
      then have "li \<in> set (de_links (fs_devices w ! dj))"
        using link_listD(2) [OF w(2), of dj li] l d link_more [of "fs_links w ! li" "fs_links u ! li"] len by simp
      then have "dj \<noteq> di" using T(2) by auto
      then show "dj < length (fs_devices x) \<and> de_used (fs_devices x ! dj)" using d devs lx len used by simp
    qed
    moreover have "links_frame i u x" "dns_fixed u x" "conf x = conf u"
      using W x(3-7) by (simp_all add: links_frame_def dns_fixed_def only_forgets_def)
    ultimately show ?thesis using w(1,4) W inv di T x by (simp add: wp)
  qed
qed

text \<open>A link that keeps a protocol goes back to the wheel.\<close>

lemma renew_link_runs:
  assumes u: "link_inv {} {i} {} u" "steady u" "device_inv {} u" "cache_inv {} {} {} u"
    and i: "i < length (fs_links u)" "le_used (fs_links u ! i)"
  shows "runs (do {
         s \<leftarrow> mod_link i (\<lambda>l. l\<lparr>le_link := (le_link l)\<lparr>link_ExpiresAt := earliest, link_TTL := ttl\<rparr>\<rparr>) u;
         scheduleLink i now earliest s
       }) (\<lambda>s'. fusion_inv s' \<and> link_kept i u s' \<and>
     (\<forall>f. wheel_inv (fs_links u, fs_linkHeads u) f \<longrightarrow>
        (\<exists>slot. wheel_inv (fs_links s', fs_linkHeads s') (listed f i slot))) \<and>
     link_Protocols (le_link (fs_links s' ! i)) = link_Protocols (le_link (fs_links u ! i)) \<and>
     le_expires (fs_links s' ! i) = le_expires (fs_links u ! i) \<and> link_ExpiresAt (le_link (fs_links s' ! i)) = earliest \<and>
     wheelSlot (fs_links s' ! i) = Some ((fs_wheelCursor u + ticks_until now earliest) mod length (fs_linkHeads u)) \<and>
     wheelRound (fs_links s' ! i) = (ticks_until now earliest - 1) div length (fs_linkHeads u))"
proof -
  define e where "e = (fs_links u ! i)\<lparr>le_link := (le_link (fs_links u ! i))\<lparr>link_ExpiresAt := earliest, link_TTL := ttl\<rparr>\<rparr>"
  define v where "v = u\<lparr>fs_links := (fs_links u)[i := e]\<rparr>"
  have place: "same_place e (fs_links u ! i)" by (simp add: e_def same_place_def same_links_def)
  have l: "link_inv {} {i} {} v" unfolding v_def
    by (rule link_written [OF u(1) i _ place]) (use i in \<open>simp_all add: e_def link_key_def\<close>)
  have "link_ok (cfg_MaxAlternatives (fs_cfg u)) e" using steadyD(7) [OF u(2) i(1)] by (simp add: e_def link_ok_def)
  then have k: "link_kept i u v" unfolding v_def using i by (intro link_kept_update) (simp_all add: e_def)
  have iv: "i < length (fs_links v)" "le_used (fs_links v ! i)" using i by (simp_all add: v_def e_def)
  from runs_exD [OF scheduleLink_runs [OF l iv, of now earliest]] obtain s' where
    s': "scheduleLink i now earliest v = Some s'" "link_inv {} {} {} s'" "links_only v s'"
      "wheel_node.more (fs_links s' ! i) = wheel_node.more (fs_links v ! i)"
      "wheelSlot (fs_links s' ! i) = Some ((fs_wheelCursor v + ticks_until now earliest) mod length (fs_linkHeads v))"
      "wheelRound (fs_links s' ! i) = (ticks_until now earliest - 1) div length (fs_linkHeads v)"
      "\<And>f. wheel_inv (fs_links v, fs_linkHeads v) f \<Longrightarrow> wheel_inv (fs_links s', fs_linkHeads s')
         (listed f i ((fs_wheelCursor v + ticks_until now earliest) mod length (fs_linkHeads v)))" by auto
  from runs_SomeD [OF scheduled_kept [OF l iv] s'(1)] have k': "link_kept i v s'" by simp
  have "links_only u s'" using link_kept_trans [OF k k'] by (simp add: link_kept_def)
  then have inv: "fusion_inv s'"
    using s'(2) u cache_inv_cong [of s' u] device_inv_cong [of s' u] by (simp add: links_only_def fusion_inv_def)
  have wheel: "\<exists>slot. wheel_inv (fs_links s', fs_linkHeads s') (listed f i slot)" if "wheel_inv (fs_links u, fs_linkHeads u) f" for f
    using s'(7) wheel_inv_update [OF that place] by (auto simp: v_def)
  show ?thesis
    using i(1) s'(1,5,6) inv link_kept_trans [OF k k'] wheel link_more [OF s'(4)]
    by (simp add: wp v_def e_def)
qed

lemma removeAll_twice: "removeAll x (removeAll x xs) = removeAll x xs"
  by (induction xs) auto

lemma chain_unlisted:
  assumes "\<And>f. wheel_inv w f \<Longrightarrow> wheel_inv v (unlisted f i)"
  shows "(\<And>f. wheel_inv v f \<Longrightarrow> wheel_inv w' (unlisted f i)) \<Longrightarrow> chain_step i w w' c"
    "(\<And>f. wheel_inv v f \<Longrightarrow> \<exists>slot. wheel_inv w' (listed f i slot)) \<Longrightarrow> chain_step i w w' c"
proof -
  show "chain_step i w w' c" if "\<And>f. wheel_inv v f \<Longrightarrow> wheel_inv w' (unlisted f i)"
    unfolding chain_step_def
  proof (intro allI impI)
    fix f assume "wheel_inv w f"
    then have "wheel_inv w' (unlisted (unlisted f i) i)" using that [OF assms [of f]] by blast
    then show "\<exists>g. wheel_inv w' g \<and> (g c = f c \<or> g c = removeAll i (f c) \<or> g c = i # removeAll i (f c))"
      by (intro exI [of _ "unlisted (unlisted f i) i"]) (simp add: unlisted_def removeAll_twice)
  qed
  show "chain_step i w w' c" if "\<And>f. wheel_inv v f \<Longrightarrow> \<exists>slot. wheel_inv w' (listed f i slot)"
    unfolding chain_step_def
  proof (intro allI impI)
    fix f assume f: "wheel_inv w f"
    obtain slot where "wheel_inv w' (listed (unlisted f i) i slot)" using \<open>\<And>f. wheel_inv v f \<Longrightarrow> \<exists>slot. wheel_inv w' (listed f i slot)\<close> [OF assms [OF f]] by blast
    then show "\<exists>g. wheel_inv w' g \<and> (g c = f c \<or> g c = removeAll i (f c) \<or> g c = i # removeAll i (f c))"
      by (intro exI [of _ "listed (unlisted f i) i slot"]) (auto simp: unlisted_def listed_def removeAll_twice)
  qed
qed

lemma others_ok_trans:
  "others_ok i s t \<Longrightarrow> others_ok i t u \<Longrightarrow> others_ok i s u"
  by (simp add: others_ok_def)

lemma tick_link_runs:
  assumes inv: "fusion_inv s" and i: "i < length (fs_links s)" "le_used (fs_links s ! i)"
  shows "runs (tick_link now i (s, events)) (link_turn now i s events)"
proof (cases "wheelRound (fs_links s ! i) > 0")
  case True
  then show ?thesis by (rule count_link_runs [OF assms])
next
  case False
  let ?l = "fs_links s ! i"
  note I = fusion_invD [OF inv]
  obtain di where di: "di < length (fs_devices s)" "le_device ?l = Some di" using link_ownerD [OF I(3) i] by metis
  obtain b ps xs u where x: "expire_protocols now protocol_range (False, link_Protocols (le_link ?l), le_expires ?l) = Some (b, ps, xs)"
      "length xs = 5"
    and run: "(do { t \<leftarrow> unscheduleLink i s;
        mod_link i (\<lambda>l. l\<lparr>le_link := (le_link l)\<lparr>link_Protocols := ps\<rparr>, le_expires := xs\<rparr>) t }) = Some u"
    and u: "link_inv {} {i} {} u" "link_kept i s u" "wheelSlot (fs_links u ! i) = None"
      "link_Protocols (le_link (fs_links u ! i)) = ps" "le_expires (fs_links u ! i) = xs"
    and wheel: "\<And>f. wheel_inv (fs_links s, fs_linkHeads s) f \<Longrightarrow> wheel_inv (fs_links u, fs_linkHeads u) (unlisted f i)"
    by (rule expired_link_runs [OF inv i, of now]) (erule (1) that; assumption)
  have o: "links_only s u" using u(2) by (simp add: link_kept_def)
  then have U: "steady u" "device_inv {} u" "cache_inv {} {} {} u"
    using I cache_inv_cong [of u s] device_inv_cong [of u s] by (simp_all add: links_only_def)
  have iu: "i < length (fs_links u)" "le_used (fs_links u ! i)" "le_device (fs_links u ! i) = Some di"
    using u(2) i di by (simp_all add: link_kept_def links_frame_def)
  note F = link_kept_frame [OF u(2)]
  have c: "conf u = conf s" "fs_wheelCursor u = fs_wheelCursor s" "length (fs_linkHeads u) = length (fs_linkHeads s)"
    using o by (simp_all add: links_only_def conf_def)
  obtain t where t: "unscheduleLink i s = Some t"
      "mod_link i (\<lambda>l. l\<lparr>le_link := (le_link l)\<lparr>link_Protocols := ps\<rparr>, le_expires := xs\<rparr>) t = Some u"
    using run by (auto simp: bind_eq_Some_conv)
  show ?thesis
  proof (cases "ps = 0")
    case True
    from runs_exD [OF remove_link_runs [OF u(1) U iu, of events]] obtain s' e where
      s': "(do {
         (s, events) \<leftarrow> removeLink i EventExpired (u, events);
         d \<leftarrow> idx (fs_devices s) di;
         if de_used d \<and> de_links d = [] \<and> de_dns d = []
         then do { s \<leftarrow> dropDevice di s; Some (s, events) }
         else Some (s, events)
       }) = Some (s', events @ [e])"
      and S: "fusion_inv s'" "conf s' = conf u" "dns_fixed u s'" "links_frame i u s'" "others_ok i u s'"
        "\<And>f. wheel_inv (fs_links u, fs_linkHeads u) f \<Longrightarrow> wheel_inv (fs_links s', fs_linkHeads s') (unlisted f i)"
        "\<not> le_used (fs_links s' ! i)" "wheelSlot (fs_links s' ! i) = None" "dead EventExpired e" by auto
    have "tick_link now i (s, events) = Some (s', events @ [e])"
      using False i t x(1) True di s' by (simp add: tick_link_def)
    moreover have "turned now (fs_wheelCursor s) (length (fs_linkHeads s)) i ?l (fs_links s' ! i) [e]"
      using False x(1) True S by (simp add: turned_def)
    moreover have "chain_step i (fs_links s, fs_linkHeads s) (fs_links s', fs_linkHeads s') (fs_wheelCursor s)"
      by (rule chain_unlisted(1) [OF wheel S(6)])
    ultimately show ?thesis
      using S c F links_frame_trans [OF F(1) S(4)] others_ok_trans [OF F(2) S(5)] dead_ok
      by (auto simp: wp link_turn_def dns_fixed_def dead_def)
  next
    case ps: False
    obtain earliest where earliest: "earliestExpiry xs = Some earliest" using earliestExpiry_runs [OF x(2)] by blast
    obtain latest where latest: "latestExpiry xs = Some latest" using latestExpiry_runs [OF x(2)] by blast
    from runs_exD [OF renew_link_runs [OF u(1) U iu(1,2), where earliest = earliest and ttl = "Time_Sub latest now" and now = now]] obtain s' where
      s': "(do {
         s \<leftarrow> mod_link i (\<lambda>l. l\<lparr>le_link := (le_link l)\<lparr>link_ExpiresAt := earliest, link_TTL := Time_Sub latest now\<rparr>\<rparr>) u;
         scheduleLink i now earliest s }) = Some s'"
      and S: "fusion_inv s'" "link_kept i u s'"
       "\<And>f. wheel_inv (fs_links u, fs_linkHeads u) f \<Longrightarrow> \<exists>slot. wheel_inv (fs_links s', fs_linkHeads s') (listed f i slot)"
       "link_Protocols (le_link (fs_links s' ! i)) = ps" "le_expires (fs_links s' ! i) = xs" "link_ExpiresAt (le_link (fs_links s' ! i)) = earliest"
       "wheelSlot (fs_links s' ! i) = Some ((fs_wheelCursor s + ticks_until now earliest) mod length (fs_linkHeads s))"
       "wheelRound (fs_links s' ! i) = (ticks_until now earliest - 1) div length (fs_linkHeads s)"
      using u(4,5) c by auto
    have k: "link_kept i s s'" by (rule link_kept_trans [OF u(2) S(2)])
    define es where "es = (if b then [\<lparr>fe_Kind = EventChanged, fe_Changed = FieldLink, fe_Target = Live di i\<rparr>] else [])"
    have dl: "di < length (fs_devices s')" "fs_devices s' = fs_devices s" using k di by (simp_all add: link_kept_def)
    have "tick_link now i (s, events) = Some (s', events @ es)"
      using False i t x(1) ps di s' earliest latest dl(1) by (auto simp: tick_link_def es_def bind_eq_Some_conv)
    moreover have "turned now (fs_wheelCursor s) (length (fs_linkHeads s)) i ?l (fs_links s' ! i) es"
      using False x(1) ps earliest k i di S(4-8) by (simp add: turned_def es_def link_kept_def)
    moreover have "chain_step i (fs_links s, fs_linkHeads s) (fs_links s', fs_linkHeads s') (fs_wheelCursor s)"
      by (rule chain_unlisted(2) [OF wheel S(3)])
    moreover have "event_ok s' e \<and> (\<forall>di li. fe_Target e = Live di li \<longrightarrow> li = i)" if "e \<in> set es" for e
    proof -
      have "de_used (fs_devices s ! di)" using link_ownerD [OF I(3) i] di(2) by auto
      then show ?thesis using that k i di dl by (auto simp: es_def event_ok_def link_kept_def links_frame_def split: if_splits)
    qed
    moreover have "conf s' = conf s" using k by (simp add: link_kept_def links_only_def)
    ultimately show ?thesis using S(1) link_kept_frame [OF k] by (simp add: wp link_turn_def)
  qed
qed

section \<open>The links of the slot\<close>

definition same_entry :: "'a wheel_node_scheme \<Rightarrow> 'a wheel_node_scheme \<Rightarrow> bool" where
  "same_entry x y =
     (wheel_node.more y = wheel_node.more x \<and> wheelSlot y = wheelSlot x \<and> wheelRound y = wheelRound x)"

lemma same_entry_trans: "same_entry x y \<Longrightarrow> same_entry y z \<Longrightarrow> same_entry x z"
  by (simp add: same_entry_def)

lemma turned_same:
  assumes "turned now c n i l l' es" "same_entry l' l''"
  shows "turned now c n i l l'' es"
proof -
  have "le_used l'' = le_used l' \<and> le_link l'' = le_link l' \<and> le_device l'' = le_device l' \<and> le_expires l'' = le_expires l'"
    using assms(2) by (intro link_more) (simp add: same_entry_def)
  moreover have "wheel_node.more l'' = wheel_node.more l'" "wheelSlot l'' = wheelSlot l'" "wheelRound l'' = wheelRound l'"
    using assms(2) by (simp_all add: same_entry_def)
  ultimately show ?thesis using assms(1) by (simp only: turned_def)
qed

lemma turned_from:
  assumes "turned now c n i l l' es" "same_entry k l"
  shows "turned now c n i k l' es"
proof -
  have "le_used l = le_used k \<and> le_link l = le_link k \<and> le_device l = le_device k \<and> le_expires l = le_expires k"
    using assms(2) by (intro link_more) (simp add: same_entry_def)
  moreover have "wheel_node.more l = wheel_node.more k" "wheelSlot l = wheelSlot k" "wheelRound l = wheelRound k"
    using assms(2) by (simp_all add: same_entry_def)
  ultimately show ?thesis using assms(1) by (simp only: turned_def)
qed

definition links_turned :: "Time \<Rightarrow> nat list \<Rightarrow> fusionState \<Rightarrow> fusion_event list \<Rightarrow> fused \<Rightarrow> bool" where
  "links_turned now js s events = (\<lambda>(s', events').
     fusion_inv s' \<and> conf s' = conf s \<and> dns_fixed s s' \<and>
     (\<forall>j < length (fs_links s). j \<notin> set js \<longrightarrow> same_entry (fs_links s ! j) (fs_links s' ! j)) \<and>
     (\<forall>e. event_ok s e \<longrightarrow> (\<forall>di li. fe_Target e = Live di li \<longrightarrow> li \<notin> set js) \<longrightarrow> event_ok s' e) \<and>
     (\<exists>es. events' = events @ es \<and>
        (\<forall>e \<in> set es. event_ok s' e \<and> (\<forall>di li. fe_Target e = Live di li \<longrightarrow> li \<in> set js)) \<and>
        (\<forall>j \<in> set js. \<exists>fs. set fs \<subseteq> set es \<and>
           turned now (fs_wheelCursor s) (length (fs_linkHeads s)) j (fs_links s ! j) (fs_links s' ! j) fs)))"

lemma slot_used:
  assumes "fusion_inv s" "wheel_inv (fs_links s, fs_linkHeads s) f" "f (fs_wheelCursor s) = pre @ i # rest"
  shows "i < length (fs_links s)" "le_used (fs_links s ! i)"
proof -
  have c: "fs_wheelCursor s < length (fs_linkHeads s)" using fusion_invD(1) [OF assms(1)] by (simp add: steady_def)
  note n = wheel_next [OF assms(2) c assms(3)]
  show "i < length (fs_links s)" by (rule n(2))
  have "pool_wheel le_used {} (fs_links s) (fs_linkHeads s)"
    using fusion_invD(3) [OF assms(1)] by (simp add: link_inv_def pool_inv_def)
  from pool_wheelD(3) [OF this n(2)] n(6) show "le_used (fs_links s ! i)" by blast
qed

lemma links_turned_step:
  assumes a: "link_turn now i s events (t, events @ es)" and b: "links_turned now js t (events @ es) (u, events @ es @ fs)"
    and d: "i \<notin> set js" "i < length (fs_links s)" "\<forall>j \<in> set js. j < length (fs_links s)"
  shows "links_turned now (i # js) s events (u, events @ es @ fs)"
proof -
  have A: "conf t = conf s" "dns_fixed s t" "links_frame i s t" "others_ok i s t"
      "turned now (fs_wheelCursor s) (length (fs_linkHeads s)) i (fs_links s ! i) (fs_links t ! i) es"
      "\<And>e. e \<in> set es \<Longrightarrow> event_ok t e \<and> (\<forall>di li. fe_Target e = Live di li \<longrightarrow> li = i)"
    using a by (auto simp: link_turn_def)
  have B: "fusion_inv u" "conf u = conf t" "dns_fixed t u"
      "\<And>j. j < length (fs_links t) \<Longrightarrow> j \<notin> set js \<Longrightarrow> same_entry (fs_links t ! j) (fs_links u ! j)"
      "\<And>e. event_ok t e \<Longrightarrow> \<forall>di li. fe_Target e = Live di li \<longrightarrow> li \<notin> set js \<Longrightarrow> event_ok u e"
      "\<And>e. e \<in> set fs \<Longrightarrow> event_ok u e \<and> (\<forall>di li. fe_Target e = Live di li \<longrightarrow> li \<in> set js)"
      "\<And>j. j \<in> set js \<Longrightarrow> \<exists>gs. set gs \<subseteq> set fs \<and>
           turned now (fs_wheelCursor t) (length (fs_linkHeads t)) j (fs_links t ! j) (fs_links u ! j) gs"
    using b by (auto simp: links_turned_def)
  have c: "fs_wheelCursor t = fs_wheelCursor s" "length (fs_linkHeads t) = length (fs_linkHeads s)"
    "length (fs_links t) = length (fs_links s)" using A(1) by (simp_all add: conf_def)
  have e: "same_entry (fs_links s ! j) (fs_links t ! j)" if "j < length (fs_links s)" "j \<noteq> i" for j
    using A(3) that by (simp add: links_frame_def same_entry_def)
  have 1: "same_entry (fs_links s ! j) (fs_links u ! j)" if "j < length (fs_links s)" "j \<notin> set (i # js)" for j
    using same_entry_trans [OF e B(4)] that c by simp
  have 2: "event_ok u x" if "event_ok s x" "\<forall>di li. fe_Target x = Live di li \<longrightarrow> li \<notin> set (i # js)" for x
  proof -
    have "event_ok t x" using A(4) that unfolding others_ok_def by fastforce
    then show ?thesis using B(5) that(2) by simp
  qed
  have 3: "event_ok u x \<and> (\<forall>di li. fe_Target x = Live di li \<longrightarrow> li \<in> set (i # js))" if "x \<in> set (es @ fs)" for x
    using that A(6) [of x] B(5) [of x] B(6) [of x] d(1) by auto
  have 4: "\<exists>gs. set gs \<subseteq> set (es @ fs) \<and>
      turned now (fs_wheelCursor s) (length (fs_linkHeads s)) j (fs_links s ! j) (fs_links u ! j) gs" if "j \<in> set (i # js)" for j
  proof (cases "j = i")
    case True
    have "same_entry (fs_links t ! i) (fs_links u ! i)" using B(4) d c by simp
    from turned_same [OF A(5) this] show ?thesis using True by auto
  next
    case False
    then have j: "j \<in> set js" "j < length (fs_links s)" using that d(3) by auto
    obtain gs where "set gs \<subseteq> set fs" "turned now (fs_wheelCursor s) (length (fs_linkHeads s)) j (fs_links t ! j) (fs_links u ! j) gs"
      using B(7) [OF j(1)] c by auto
    then show ?thesis using turned_from [OF _ e [OF j(2) False]] by auto
  qed
  have "dns_fixed s u" "conf u = conf s" using A(1,2) B(2,3) by (simp_all add: dns_fixed_def)
  then show ?thesis using B(1) 1 2 3 4 by (simp add: links_turned_def)
qed

lemma tick_links_runs:
  "fusion_inv s \<Longrightarrow> wheel_inv (fs_links s, fs_linkHeads s) f \<Longrightarrow> f (fs_wheelCursor s) = pre @ js \<Longrightarrow>
   runs (tick_links now (chain_first js) (s, events)) (links_turned now js s events)"
proof (induction js arbitrary: s f pre events)
  case Nil
  then show ?case by (subst tick_links.simps) (simp add: wp links_turned_def dns_fixed_def same_entry_def)
next
  case (Cons i js)
  have c: "fs_wheelCursor s < length (fs_linkHeads s)" using fusion_invD(1) [OF Cons.prems(1)] by (simp add: steady_def)
  note n = wheel_next [OF Cons.prems(2) c Cons.prems(3)]
  have i: "i < length (fs_links s)" "le_used (fs_links s ! i)" using slot_used [OF Cons.prems] .
  from runs_exD [OF tick_link_runs [OF Cons.prems(1) i, of now events]] obtain t es where
    t: "tick_link now i (s, events) = Some (t, events @ es)" "link_turn now i s events (t, events @ es)"
    by (auto simp: link_turn_def)
  have T: "fusion_inv t" "conf t = conf s"
    "chain_step i (fs_links s, fs_linkHeads s) (fs_links t, fs_linkHeads t) (fs_wheelCursor s)"
    using t(2) by (simp_all add: link_turn_def)
  obtain g pre' where g: "wheel_inv (fs_links t, fs_linkHeads t) g" "g (fs_wheelCursor s) = pre' @ js"
    using chain_stepD [OF T(3) Cons.prems(2) c Cons.prems(3)] .
  have ct: "fs_wheelCursor t = fs_wheelCursor s" using T(2) by (simp add: conf_def)
  from runs_exD [OF Cons.IH [OF T(1) g(1), of pre' "events @ es"]] obtain u fs where
    u: "tick_links now (chain_first js) (t, events @ es) = Some (u, events @ es @ fs)"
      "links_turned now js t (events @ es) (u, events @ es @ fs)"
    using g(2) ct by (auto simp: links_turned_def)
  have "j < length (fs_links s)" if "j \<in> set js" for j
    using wheel_inv_mem [OF Cons.prems(2) c, of j] Cons.prems(3) that by simp
  then have "links_turned now (i # js) s events (u, events @ es @ fs)"
    by (intro links_turned_step [OF t(2) u(2) n(4,2)]) blast
  moreover have "tick_links now (chain_first (i # js)) (s, events) = Some (u, events @ es @ fs)"
    by (subst tick_links.simps) (simp add: i(1) t(1) n(1) u(1))
  ultimately show ?case by (simp add: wp)
qed

section \<open>The records of the slot\<close>

definition record_turned :: "dnsEntry \<Rightarrow> dnsEntry \<Rightarrow> bool" where
  "record_turned e e' =
     (if wheelRound e > 0
      then wheel_node.more e' = wheel_node.more e \<and> wheelSlot e' = wheelSlot e \<and> wheelRound e' = wheelRound e - 1
      else \<not> ne_used e' \<and> wheelSlot e' = None)"

lemma record_turned_same: "record_turned e e' \<Longrightarrow> same_entry e' e'' \<Longrightarrow> record_turned e e''"
  using dns_more [of e'' e'] by (simp add: record_turned_def same_entry_def)

lemma record_turned_from: "record_turned e e' \<Longrightarrow> same_entry d e \<Longrightarrow> record_turned d e'"
  by (simp add: record_turned_def same_entry_def)

text \<open>The devices whose records expired, each of them once.\<close>

definition known_devices :: "fusionState \<Rightarrow> nat option list \<Rightarrow> bool" where
  "known_devices s ds = (\<forall>d \<in> set ds. \<exists>di < length (fs_devices s). d = Some di)"

lemma tick_record_runs:
  assumes inv: "fusion_inv s" and i: "i < length (fs_dns s)" "ne_used (fs_dns s ! i)" and ds: "known_devices s ds"
  shows "runs (tick_record i (s, ds)) (\<lambda>(s', ds'). cache_inv {} {} {} s' \<and> dns_only s s' \<and> dns_frame i s s' \<and>
    chain_step i (fs_dns s, fs_dnsHeads s) (fs_dns s', fs_dnsHeads s') (fs_wheelCursor s) \<and>
    record_turned (fs_dns s ! i) (fs_dns s' ! i) \<and> known_devices s' ds')"
proof -
  note I = fusion_invD [OF inv]
  obtain di where di: "di < length (fs_devices s)" "ne_device (fs_dns s ! i) = Some di" "de_used (fs_devices s ! di)"
    using dns_ownerD [OF I(4) i] .
  show ?thesis
  proof (cases "wheelRound (fs_dns s ! i) > 0")
    case True
    define e where "e = (fs_dns s ! i)\<lparr>wheelRound := wheelRound (fs_dns s ! i) - 1\<rparr>"
    define s' where "s' = s\<lparr>fs_dns := (fs_dns s)[i := e]\<rparr>"
    have place: "same_place e (fs_dns s ! i)" by (simp add: e_def same_place_def same_links_def)
    have "cache_inv {} {} {} s'" unfolding s'_def
      by (rule dns_rewritten [OF I(4) i(1) _ place _ _ di(1,3)])
        (use i di dns_tagD [OF I(4) i] dns_slotD [OF I(4) i] in \<open>simp_all add: e_def\<close>)
    moreover have "chain_step i (fs_dns s, fs_dnsHeads s) (fs_dns s', fs_dnsHeads s') (fs_wheelCursor s)"
      unfolding chain_step_def using wheel_inv_update [OF _ place] by (auto simp: s'_def)
    moreover have "tick_record i (s, ds) = Some (s', ds)"
      using i True by (simp add: tick_record_def mod_dns_def s'_def e_def)
    ultimately show ?thesis
      using i ds True dns_written_only [of s i e] by (simp add: wp s'_def dns_frame_def record_turned_def e_def known_devices_def)
  next
    case False
    from runs_exD [OF removeDNS_runs [OF I(4) i]] obtain t where
      t: "removeDNS i s = Some t" "cache_inv {} {} {} t" "dns_removed i s t" by auto
    have it: "i < length (fs_dns t)" "\<not> ne_used (fs_dns t ! i)" "dns_frame i s t"
      using t(3) i by (simp_all add: dns_removed_def dns_frame_def)
    have "pool_wheel ne_used {} (fs_dns t) (fs_dnsHeads t)" using t(2) by (simp add: cache_inv_def pool_inv_def)
    from pool_wheelD(3) [OF this it(1)] it(2) have slot: "wheelSlot (fs_dns t ! i) = None" by blast
    have o: "dns_only s t" using removed_only(2) [OF t(3)] .
    have "chain_step i (fs_dns s, fs_dnsHeads s) (fs_dns t, fs_dnsHeads t) (fs_wheelCursor s)"
      using t(3) unfolding chain_step_def dns_removed_def by (auto intro!: exI [of _ "unlisted _ i"] simp: unlisted_def)
    moreover have "known_devices t (if ne_device (fs_dns s ! i) \<in> set ds then ds else ds @ [ne_device (fs_dns s ! i)])"
      using ds di only_devices(2) [OF o] by (auto simp: known_devices_def)
    moreover have "tick_record i (s, ds) = Some (t, if ne_device (fs_dns s ! i) \<in> set ds then ds else ds @ [ne_device (fs_dns s ! i)])"
      using i False t(1) by (simp add: tick_record_def)
    ultimately show ?thesis using t(2) o it(2,3) slot False by (simp add: wp record_turned_def)
  qed
qed


definition records_turned :: "nat list \<Rightarrow> fusionState \<Rightarrow> fusionState \<times> nat option list \<Rightarrow> bool" where
  "records_turned js s = (\<lambda>(s', ds'). cache_inv {} {} {} s' \<and> dns_only s s' \<and> known_devices s' ds' \<and>
     (\<forall>j < length (fs_dns s). j \<notin> set js \<longrightarrow> same_entry (fs_dns s ! j) (fs_dns s' ! j)) \<and>
     (\<forall>j \<in> set js. record_turned (fs_dns s ! j) (fs_dns s' ! j)))"

lemma tick_records_runs:
  "fusion_inv s \<Longrightarrow> wheel_inv (fs_dns s, fs_dnsHeads s) f \<Longrightarrow> f (fs_wheelCursor s) = pre @ js \<Longrightarrow> known_devices s ds \<Longrightarrow>
   runs (tick_records (chain_first js) (s, ds)) (records_turned js s)"
proof (induction js arbitrary: s f pre ds)
  case Nil
  then show ?case
    using fusion_invD(4) [OF Nil.prems(1)] by (subst tick_records.simps) (simp add: wp records_turned_def same_entry_def)
next
  case (Cons i js)
  have c: "fs_wheelCursor s < length (fs_dnsHeads s)" using fusion_invD(1) [OF Cons.prems(1)] by (simp add: steady_def)
  note n = wheel_next [OF Cons.prems(2) c Cons.prems(3)]
  have "pool_wheel ne_used {} (fs_dns s) (fs_dnsHeads s)"
    using fusion_invD(4) [OF Cons.prems(1)] by (simp add: cache_inv_def pool_inv_def)
  from pool_wheelD(3) [OF this n(2)] n(6) have used: "ne_used (fs_dns s ! i)" by blast
  from runs_exD [OF tick_record_runs [OF Cons.prems(1) n(2) used Cons.prems(4)]] obtain t es where
    t: "tick_record i (s, ds) = Some (t, es)" "cache_inv {} {} {} t" "dns_only s t" "dns_frame i s t"
      "chain_step i (fs_dns s, fs_dnsHeads s) (fs_dns t, fs_dnsHeads t) (fs_wheelCursor s)"
      "record_turned (fs_dns s ! i) (fs_dns t ! i)" "known_devices t es" by auto
  have T: "fusion_inv t" "fs_wheelCursor t = fs_wheelCursor s" "length (fs_dns t) = length (fs_dns s)"
    using dns_only_inv [OF Cons.prems(1) t(2,3)] by (simp_all add: conf_def)
  obtain g pre' where g: "wheel_inv (fs_dns t, fs_dnsHeads t) g" "g (fs_wheelCursor s) = pre' @ js"
    using chain_stepD [OF t(5) Cons.prems(2) c Cons.prems(3)] .
  from runs_exD [OF Cons.IH [OF T(1) g(1) _ t(7), of pre']] obtain u fs where
    u: "tick_records (chain_first js) (t, es) = Some (u, fs)" "records_turned js t (u, fs)"
    using g(2) T(2) by auto
  have U: "cache_inv {} {} {} u" "dns_only t u" "known_devices u fs"
    "\<And>j. j < length (fs_dns s) \<Longrightarrow> j \<notin> set js \<Longrightarrow> same_entry (fs_dns t ! j) (fs_dns u ! j)"
    "\<And>j. j \<in> set js \<Longrightarrow> record_turned (fs_dns t ! j) (fs_dns u ! j)"
    using u(2) T(3) by (auto simp: records_turned_def)
  have e: "same_entry (fs_dns s ! j) (fs_dns t ! j)" if "j < length (fs_dns s)" "j \<noteq> i" for j
    using t(4) that by (simp add: dns_frame_def same_entry_def)
  have js: "j < length (fs_dns s)" "j \<noteq> i" if "j \<in> set js" for j
    using wheel_inv_mem [OF Cons.prems(2) c, of j] Cons.prems(3) n(4) that by auto
  have "same_entry (fs_dns s ! j) (fs_dns u ! j)" if "j < length (fs_dns s)" "j \<notin> set (i # js)" for j
    using same_entry_trans [OF e U(4)] that by simp
  moreover have "record_turned (fs_dns s ! j) (fs_dns u ! j)" if "j \<in> set (i # js)" for j
    using that record_turned_same [OF t(6) U(4) [OF n(2,4)]] record_turned_from [OF U(5) e] js by (cases "j = i") auto
  ultimately have "records_turned (i # js) s (u, fs)"
    using U(1,3) only_trans(2) [OF t(3) U(2)] by (simp add: records_turned_def)
  moreover have "tick_records (chain_first (i # js)) (s, ds) = Some (u, fs)"
    by (subst tick_records.simps) (simp add: n(1,2) t(1) u(1))
  ultimately show ?case by (simp add: wp)
qed

section \<open>The devices of the expired records\<close>

lemma first_used_Some:
  "first_used s is = Some (find (\<lambda>i. i < length (fs_links s) \<and> le_used (fs_links s ! i)) is)"
  by (induction "is") simp_all

lemma firstLink_Some:
  assumes "fusion_inv s" "di < length (fs_devices s)"
  shows "firstLink di s = Some (case de_links (fs_devices s ! di) of [] \<Rightarrow> None | li # _ \<Rightarrow> Some li)"
proof (cases "de_links (fs_devices s ! di)")
  case (Cons li lis)
  then have "li < length (fs_links s) \<and> le_used (fs_links s ! li)"
    using link_listD(2) [OF fusion_invD(3) [OF assms(1)] assms(2), of li] by simp
  then show ?thesis using assms(2) Cons by (simp add: firstLink_def first_used_Some)
qed (simp add: firstLink_def assms(2))

text \<open>A device without links takes no deliverable event with it.\<close>

lemma dropDevice_events:
  assumes inv: "fusion_inv s" and x: "dropDevice di s = Some x" "di < length (fs_devices s)" "de_links (fs_devices s ! di) = []"
    "fs_links x = fs_links s" "length (fs_devices x) = length (fs_devices s)" and e: "event_ok s e"
  shows "event_ok x e"
proof (cases "fe_Target e")
  case (Live dj li)
  then have l: "dj < length (fs_devices s)" "de_used (fs_devices s ! dj)" "li \<in> set (de_links (fs_devices s ! dj))"
    using e link_listD(2) [OF fusion_invD(3) [OF inv], of dj li] by (simp_all add: event_ok_def)
  then have "dj \<noteq> di" using x(3) by auto
  then have "fs_devices x ! dj = fs_devices s ! dj"
    using x(1,2) by (auto simp: dropDevice_def mod_device_def Let_def)
  then show ?thesis using e l x(4,5) by (simp add: event_ok_def Live)
qed (simp add: event_ok_def)

definition same_entries :: "fusionState \<Rightarrow> fusionState \<Rightarrow> bool" where
  "same_entries s s' =
     (fs_links s' = fs_links s \<and> fs_linkHeads s' = fs_linkHeads s \<and> fs_dns s' = fs_dns s \<and> fs_dnsHeads s' = fs_dnsHeads s)"

definition devices_turned :: "fusionState \<Rightarrow> fusion_event list \<Rightarrow> fused \<Rightarrow> bool" where
  "devices_turned s events = (\<lambda>(s', events').
     fusion_inv s' \<and> conf s' = conf s \<and> same_entries s s' \<and> (\<forall>e. event_ok s e \<longrightarrow> event_ok s' e) \<and>
     (\<exists>es. events' = events @ es \<and> (\<forall>e \<in> set es. event_ok s' e)))"

lemma devices_turned_trans:
  assumes "conf t = conf s" "same_entries s t" "\<And>e. event_ok s e \<Longrightarrow> event_ok t e"
    "ev = events @ es" "\<forall>e \<in> set es. event_ok t e" "devices_turned t ev r"
  shows "devices_turned s events r"
  using assms by (auto simp: devices_turned_def same_entries_def)

lemma tick_devices_runs:
  "fusion_inv s \<Longrightarrow> known_devices s ds \<Longrightarrow> runs (tick_devices ds (s, events)) (devices_turned s events)"
proof (induction ds arbitrary: s events)
  case Nil
  then show ?case by (simp add: wp devices_turned_def same_entries_def)
next
  case (Cons d ds)
  obtain di where di: "d = Some di" "di < length (fs_devices s)" using Cons.prems(2) by (auto simp: known_devices_def)
  have step: "runs (tick_devices ds (t, events @ es)) (devices_turned s events)"
    if "fusion_inv t" "conf t = conf s" "same_entries s t" "\<And>e. event_ok s e \<Longrightarrow> event_ok t e" "\<forall>e \<in> set es. event_ok t e" for t es
  proof (rule runs_mono [OF Cons.IH [OF that(1)]])
    show "known_devices t ds" using Cons.prems(2) that(2) by (simp add: known_devices_def conf_def)
  qed (rule devices_turned_trans [OF that(2-4) refl that(5)])
  show ?case
  proof (cases "de_used (fs_devices s ! di)")
    case False
    then show ?thesis using step [OF Cons.prems(1), of "[]"] di by (simp add: same_entries_def)
  next
    case True
    obtain b t ss where t: "rebuildServices di s = Some (b, t)"
        "t = device_put di ((de_device (fs_devices s ! di))\<lparr>dev_Services := ss\<rparr>) s"
      using runs_exD [OF rebuildServices_runs [OF di(2)]] by auto
    have T: "fusion_inv t" "conf t = conf s" "same_entries s t" "length (fs_devices t) = length (fs_devices s)"
      "de_used (fs_devices t ! di)" "\<And>e. event_ok s e \<Longrightarrow> event_ok t e" "di < length (fs_devices t)"
    proof -
      show "fusion_inv t" "conf t = conf s" using runs_SomeD [OF rebuilt_inv [OF Cons.prems(1) di(2)] t(1)] by simp_all
      show "same_entries s t" "length (fs_devices t) = length (fs_devices s)" "de_used (fs_devices t ! di)"
        "event_ok s e \<Longrightarrow> event_ok t e" "di < length (fs_devices t)" for e
        using di(2) True by (auto simp: t(2) device_put_def same_entries_def event_ok_def nth_updated split: event_target.splits)
    qed
    note fl = firstLink_Some [OF T(1,7)]
    show ?thesis
    proof (cases "de_links (fs_devices t ! di)")
      case (Cons li lis)
      then have "event_ok t \<lparr>fe_Kind = EventChanged, fe_Changed = FieldServices, fe_Target = Live di li\<rparr>"
        using link_listD(2) [OF fusion_invD(3) [OF T(1)] T(7), of li] T(5,7) by (simp add: event_ok_def)
      then show ?thesis
        using step [OF T(1,2,3,6), of "[\<lparr>fe_Kind = EventChanged, fe_Changed = FieldServices, fe_Target = Live di li\<rparr>]"]
          True di t(1) fl Cons T(7) by simp
    next
      case Nil
      show ?thesis
      proof (cases "de_dns (fs_devices t ! di) = []")
        case False
        then show ?thesis using step [OF T(1,2,3,6), of "[]"] True di t(1) fl Nil T(7) by simp
      next
        case dns: True
        from runs_exD [OF dropDevice_runs [OF T(1,7,5) Nil dns]] obtain x where
          x: "dropDevice di t = Some x" "fusion_inv x" "only_forgets t x" "same_entries t x" by (auto simp: same_entries_def)
        have "conf x = conf s" "length (fs_devices x) = length (fs_devices t)" "same_entries s x" "fs_links x = fs_links t"
          using x(3,4) T(2,3) by (simp_all add: only_forgets_def conf_def same_entries_def)
        then show ?thesis
          using step [OF x(2), of "[]"] dropDevice_events [OF T(1) x(1) T(7) Nil] T(6) True di t(1) fl Nil T(7) dns x(1) by simp
      qed
    qed
  qed
qed

section \<open>A tick\<close>

definition turn :: "fusionState \<Rightarrow> nat" where
  "turn s = (fs_wheelCursor s + 1) mod length (fs_linkHeads s)"

definition ticked :: "Time \<Rightarrow> fusionState \<Rightarrow> fusion_event list \<Rightarrow> fused \<Rightarrow> bool" where
  "ticked now s events = (\<lambda>(s', events').
     fusion_inv s' \<and> conf s' = conf (s\<lparr>fs_wheelCursor := turn s\<rparr>) \<and>
     (\<forall>j < length (fs_dns s). if wheelSlot (fs_dns s ! j) = Some (turn s)
        then record_turned (fs_dns s ! j) (fs_dns s' ! j) else same_entry (fs_dns s ! j) (fs_dns s' ! j)) \<and>
     (\<exists>es. events' = events @ es \<and> (\<forall>e \<in> set es. event_ok s' e) \<and>
        (\<forall>j < length (fs_links s). if wheelSlot (fs_links s ! j) = Some (turn s)
           then \<exists>fs. set fs \<subseteq> set es \<and>
             turned now (turn s) (length (fs_linkHeads s)) j (fs_links s ! j) (fs_links s' ! j) fs
           else same_entry (fs_links s ! j) (fs_links s' ! j))))"

lemma turn_less: "fusion_inv s \<Longrightarrow> turn s < length (fs_linkHeads s)"
  unfolding turn_def by (rule mod_less_divisor) (auto simp: fusion_inv_def steady_def)

lemma cursor_inv:
  assumes "fusion_inv s"
  shows "fusion_inv (s\<lparr>fs_wheelCursor := turn s\<rparr>)"
  using assms turn_less [OF assms] by (simp add: fusion_inv_def steady_def link_inv_def cache_inv_def device_inv_def)

lemma tick_runs:
  assumes inv: "fusion_inv s"
  shows "runs (tick now (s, events)) (ticked now s events)"
proof -
  define t where "t = s\<lparr>fs_wheelCursor := turn s\<rparr>"
  have it: "fusion_inv t" unfolding t_def by (rule cursor_inv [OF inv])
  have c: "turn s < length (fs_linkHeads s)" "length (fs_dnsHeads s) = length (fs_linkHeads s)"
    using turn_less [OF inv] fusion_invD(1) [OF inv] by (simp_all add: steady_def)
  have t: "fs_wheelCursor t = turn s" "fs_links t = fs_links s" "fs_linkHeads t = fs_linkHeads s" "fs_dns t = fs_dns s"
    "fs_dnsHeads t = fs_dnsHeads s" by (simp_all add: t_def)
  obtain f where f: "wheel_inv (fs_links t, fs_linkHeads t) f"
    using pool_wheelD(1) [OF pool_invD(5)] fusion_invD(3) [OF it] unfolding link_inv_def by blast
  from runs_exD [OF tick_links_runs [OF it f, of "[]" "f (turn s)" now events]] obtain u es where
    u: "tick_links now (chain_first (f (turn s))) (t, events) = Some (u, events @ es)" "links_turned now (f (turn s)) t events (u, events @ es)"
    using t(1) by (auto simp: links_turned_def)
  have U: "fusion_inv u" "conf u = conf t" "dns_fixed t u"
      "\<And>j. j < length (fs_links s) \<Longrightarrow> j \<notin> set (f (turn s)) \<Longrightarrow> same_entry (fs_links s ! j) (fs_links u ! j)"
      "\<And>e. e \<in> set es \<Longrightarrow> event_ok u e"
      "\<And>j. j \<in> set (f (turn s)) \<Longrightarrow> \<exists>fs. set fs \<subseteq> set es \<and>
           turned now (turn s) (length (fs_linkHeads s)) j (fs_links s ! j) (fs_links u ! j) fs"
    using u(2) t by (auto simp: links_turned_def)
  have cu: "fs_wheelCursor u = turn s" "length (fs_dnsHeads u) = length (fs_dnsHeads s)" "fs_dns u = fs_dns s" "fs_dnsHeads u = fs_dnsHeads s"
    using U(2,3) t by (simp_all add: conf_def dns_fixed_def)
  obtain g where g: "wheel_inv (fs_dns u, fs_dnsHeads u) g"
    using pool_wheelD(1) [OF pool_invD(5)] fusion_invD(4) [OF U(1)] unfolding cache_inv_def by blast
  from runs_exD [OF tick_records_runs [OF U(1) g, of "[]" "g (turn s)" "[]"]] obtain v ds where
    v: "tick_records (chain_first (g (turn s))) (u, []) = Some (v, ds)" "records_turned (g (turn s)) u (v, ds)"
    using cu(1) by (auto simp: known_devices_def)
  have V: "cache_inv {} {} {} v" "dns_only u v" "known_devices v ds"
    "\<And>j. j < length (fs_dns s) \<Longrightarrow> j \<notin> set (g (turn s)) \<Longrightarrow> same_entry (fs_dns s ! j) (fs_dns v ! j)"
    "\<And>j. j \<in> set (g (turn s)) \<Longrightarrow> record_turned (fs_dns s ! j) (fs_dns v ! j)"
    using v(2) cu(3) by (auto simp: records_turned_def)
  note iv = dns_only_inv [OF U(1) V(1,2)]
  have lv: "fs_links v = fs_links u" "\<And>e. event_ok u e \<Longrightarrow> event_ok v e"
    using V(2) iv(3,4) by (auto simp: dns_only_def link_core_def event_ok_def split: event_target.splits)
  from runs_exD [OF tick_devices_runs [OF iv(1) V(3), of "events @ es"]] obtain x fs where
    x: "tick_devices ds (v, events @ es) = Some (x, events @ es @ fs)" "devices_turned v (events @ es) (x, events @ es @ fs)"
    by (auto simp: devices_turned_def)
  have X: "fusion_inv x" "conf x = conf v" "same_entries v x" "\<And>e. event_ok v e \<Longrightarrow> event_ok x e" "\<And>e. e \<in> set fs \<Longrightarrow> event_ok x e"
    using x(2) by (auto simp: devices_turned_def)
  have links: "fs_links x = fs_links u" "fs_dns x = fs_dns v" using X(3) lv(1) by (simp_all add: same_entries_def)
  have memf: "j \<in> set (f (turn s)) \<longleftrightarrow> wheelSlot (fs_links s ! j) = Some (turn s)" if "j < length (fs_links s)" for j
    using wheel_inv_mem [OF f [unfolded t], of "turn s" j] wheel_inv_slot [OF f [unfolded t] that] c by blast
  have memg: "j \<in> set (g (turn s)) \<longleftrightarrow> wheelSlot (fs_dns s ! j) = Some (turn s)" if "j < length (fs_dns s)" for j
    using wheel_inv_mem [OF g [unfolded cu], of "turn s" j] wheel_inv_slot [OF g [unfolded cu] that] c by auto
  have heads: "fs_linkHeads s ! turn s = chain_first (f (turn s))" "fs_dnsHeads u ! turn s = chain_first (g (turn s))"
    using wheel_head [OF f [unfolded t] c(1)] wheel_head [OF g] c cu(4) by simp_all
  have "event_ok x e" if "e \<in> set (es @ fs)" for e
    using that U(5) lv(2) X(4,5) by auto
  moreover have "if wheelSlot (fs_dns s ! j) = Some (turn s) then record_turned (fs_dns s ! j) (fs_dns x ! j)
      else same_entry (fs_dns s ! j) (fs_dns x ! j)" if "j < length (fs_dns s)" for j
    using that V(4,5) memg links by simp
  moreover have "if wheelSlot (fs_links s ! j) = Some (turn s)
      then \<exists>gs. set gs \<subseteq> set (es @ fs) \<and> turned now (turn s) (length (fs_linkHeads s)) j (fs_links s ! j) (fs_links x ! j) gs
      else same_entry (fs_links s ! j) (fs_links x ! j)" if "j < length (fs_links s)" for j
    using that U(4,6) memf [OF that] links by (cases "j \<in> set (f (turn s))") (auto, blast)
  moreover have "conf x = conf (s\<lparr>fs_wheelCursor := turn s\<rparr>)" using X(2) iv(2) U(2) by (simp add: t_def)
  ultimately have "ticked now s events (x, events @ es @ fs)"
    using X(1) unfolding ticked_def prod.case by (intro conjI exI [of _ "es @ fs"] allI impI ballI) blast+
  moreover have "tick now (s, events) = Some (x, events @ es @ fs)"
    using c heads u(1) v(1) x(1) cu by (auto simp: tick_def Let_def turn_def t_def)
  ultimately show ?thesis by (simp add: wp)
qed

end
