(* ===== verification/Timers.thy ===== *)
theory Timers
  imports FusionClock
begin

text \<open>
  The clock seen from outside: every used link and every cached record has a countdown. A tick takes one
  from each of them; a countdown that ends drops the record, and drops the link or starts it again. This
  abstract clock has no slots, rounds or chains; the lemmas show that \<open>tick\<close>, \<open>scheduleLink\<close> and
  \<open>scheduleDNS\<close> refine it, and that it delivers every expiry on time.
\<close>

section \<open>The abstract clock\<close>

type_synonym 'p timers = "nat \<Rightarrow> (nat \<times> 'p) option"

text \<open>What a countdown that ends does: the payload stops or starts again.\<close>

definition tick_timers :: "('p \<Rightarrow> (nat \<times> 'p) option) \<Rightarrow> 'p timers \<Rightarrow> 'p timers" where
  "tick_timers fire T = (\<lambda>j. case T j of
       None \<Rightarrow> None
     | Some (k, p) \<Rightarrow> if k \<le> 1 then fire p else Some (k - 1, p))"

fun run_timers :: "('p \<Rightarrow> (nat \<times> 'p) option) list \<Rightarrow> 'p timers \<Rightarrow> 'p timers" where
  "run_timers [] T = T"
| "run_timers (fire # fires) T = run_timers fires (tick_timers fire T)"

lemma run_timers_append: "run_timers (fs @ gs) T = run_timers gs (run_timers fs T)"
  by (induction fs arbitrary: T) simp_all

lemma run_timers_counts:
  "T j = Some (k, p) \<Longrightarrow> length fires < k \<Longrightarrow> run_timers fires T j = Some (k - length fires, p)"
  by (induction fires arbitrary: T k) (auto simp: tick_timers_def)

lemma run_timers_fires:
  assumes "T j = Some (k, p)" "length fires + 1 = k"
  shows "run_timers (fires @ [fire]) T j = fire p"
proof -
  have "run_timers fires T j = Some (1, p)" using run_timers_counts [of T j k p fires] assms by simp
  then show ?thesis by (simp add: run_timers_append tick_timers_def)
qed

section \<open>Countdowns in the wheel\<close>

text \<open>What expiry at \<open>now\<close> makes of the device, the protocols and the expiries of a link.\<close>

type_synonym link_payload = "nat option \<times> ProtocolSet \<times> Time list"

definition link_payload :: "linkEntry \<Rightarrow> link_payload" where
  "link_payload l = (le_device l, link_Protocols (le_link l), le_expires l)"

definition fire_link :: "Time \<Rightarrow> link_payload \<Rightarrow> (nat \<times> link_payload) option" where
  "fire_link now p = (case p of (d, ps, xs) \<Rightarrow> do {
     (_, ps, xs) \<leftarrow> expire_protocols now protocol_range (False, ps, xs);
     if ps = 0 then None
     else do { earliest \<leftarrow> earliestExpiry xs; Some (ticks_until now earliest, d, ps, xs) }
   })"

definition link_timers :: "fusionState \<Rightarrow> link_payload timers" where
  "link_timers s j =
     (if j < length (fs_links s) \<and> le_used (fs_links s ! j)
      then map_option (\<lambda>k. (k, link_payload (fs_links s ! j)))
             (due (fs_wheelCursor s) (length (fs_linkHeads s)) (fs_links s ! j))
      else None)"

definition record_timers :: "fusionState \<Rightarrow> (dnsKey \<times> Time) timers" where
  "record_timers s j =
     (if j < length (fs_dns s) \<and> ne_used (fs_dns s ! j)
      then map_option (\<lambda>k. (k, ne_key (fs_dns s ! j), ne_expiresAt (fs_dns s ! j)))
             (due (fs_wheelCursor s) (length (fs_dnsHeads s)) (fs_dns s ! j))
      else None)"

text \<open>The arithmetic of slots and rounds.\<close>

lemma due_turn:
  fixes c n :: nat
  assumes "c < n"
  shows "(((c + 1) mod n) + n - 1 - c) mod n = 0"
  using due_schedule [of c n 1] assms by simp

lemma due_same:
  assumes "c < n" "wheelSlot x = Some slot" "slot < n" "slot \<noteq> (c + 1) mod n" "same_entry x y"
  shows "\<exists>k. due c n x = Some (k + 2) \<and> due ((c + 1) mod n) n y = Some (k + 1)"
proof -
  have y: "wheelSlot y = Some slot" "wheelRound y = wheelRound x" using assms(2,5) by (simp_all add: same_entry_def)
  have e: "(slot + n - 1 - (c + 1) mod n) mod n + 1 = (slot + n - 1 - c) mod n"
    using due_next [OF assms(1,3)] assms(4) by simp
  then have "due c n x = Some ((slot + n - 1 - (c + 1) mod n) mod n + wheelRound x * n + 2)"
    unfolding due_def assms(2) by (simp only: e [symmetric] option.map) simp
  moreover have "due ((c + 1) mod n) n y = Some ((slot + n - 1 - (c + 1) mod n) mod n + wheelRound x * n + 1)"
    by (simp add: due_def y)
  ultimately show ?thesis by blast
qed

lemma due_round:
  assumes "c < n" "wheelSlot x = Some ((c + 1) mod n)" "0 < wheelRound x"
    "wheelSlot y = wheelSlot x" "wheelRound y = wheelRound x - 1"
  shows "\<exists>k. due c n x = Some (k + 2) \<and> due ((c + 1) mod n) n y = Some (k + 1)"
proof -
  have n: "0 < n" using assms(1) by simp
  have e: "((c + 1) mod n + n - 1 - (c + 1) mod n) mod n + 1 = n"
    using due_next [OF assms(1), of "(c + 1) mod n"] n by simp
  obtain r where r: "wheelRound x = Suc r" using assms(3) by (cases "wheelRound x") auto
  have "due ((c + 1) mod n) n y = Some (n - 1 + r * n + 1)"
    using e n by (simp add: due_def assms(2,4,5) r)
  moreover have "due c n x = Some (n - 1 + r * n + 2)"
    using n due_turn [OF assms(1)] by (simp add: due_def assms(2) r)
  ultimately show ?thesis by blast
qed

lemma due_now:
  assumes "c < n" "wheelSlot x = Some ((c + 1) mod n)" "wheelRound x = 0"
  shows "due c n x = Some 1"
  using due_turn [OF assms(1)] by (simp add: due_def assms(2,3))

lemma due_scheduled:
  assumes "c < n" "wheelSlot x = Some ((c + ticks_until now t) mod n)" "wheelRound x = (ticks_until now t - 1) div n"
  shows "due c n x = Some (ticks_until now t)"
proof -
  have "1 \<le> ticks_until now t" by (auto simp: ticks_until_def Let_def Suc_le_eq)
  then show ?thesis using due_schedule [OF assms(1), of "ticks_until now t"] by (simp add: due_def assms(2,3))
qed


section \<open>The refinement\<close>

lemma steady_cursor:
  assumes "fusion_inv s"
  shows "fs_wheelCursor s < length (fs_linkHeads s)" "length (fs_dnsHeads s) = length (fs_linkHeads s)"
  using fusion_invD(1) [OF assms] by (simp_all add: steady_def)

lemma used_slot:
  assumes "fusion_inv s"
  shows "j < length (fs_links s) \<Longrightarrow> le_used (fs_links s ! j) \<Longrightarrow>
      \<exists>slot < length (fs_linkHeads s). wheelSlot (fs_links s ! j) = Some slot"
    "j < length (fs_dns s) \<Longrightarrow> ne_used (fs_dns s ! j) \<Longrightarrow>
      \<exists>slot < length (fs_linkHeads s). wheelSlot (fs_dns s ! j) = Some slot"
proof -
  note I = fusion_invD [OF assms]
  have w: "pool_wheel le_used {} (fs_links s) (fs_linkHeads s)" "pool_wheel ne_used {} (fs_dns s) (fs_dnsHeads s)"
    using I(3,4) by (simp_all add: link_inv_def cache_inv_def pool_inv_def)
  show "\<exists>slot < length (fs_linkHeads s). wheelSlot (fs_links s ! j) = Some slot"
    if "j < length (fs_links s)" "le_used (fs_links s ! j)"
    using pool_wheelD(4) [OF w(1) that] pool_wheelD(1) [OF w(1)] wheel_inv_slot that(1) by fastforce
  show "\<exists>slot < length (fs_linkHeads s). wheelSlot (fs_dns s ! j) = Some slot"
    if "j < length (fs_dns s)" "ne_used (fs_dns s ! j)"
    using pool_wheelD(4) [OF w(2) that] pool_wheelD(1) [OF w(2)] wheel_inv_slot that(1) steady_cursor(2) [OF assms] by fastforce
qed

lemma unused_slot:
  assumes "fusion_inv s"
  shows "j < length (fs_links s) \<Longrightarrow> wheelSlot (fs_links s ! j) = Some slot \<Longrightarrow> le_used (fs_links s ! j)"
    "j < length (fs_dns s) \<Longrightarrow> wheelSlot (fs_dns s ! j) = Some slot \<Longrightarrow> ne_used (fs_dns s ! j)"
proof -
  note I = fusion_invD [OF assms]
  have w: "pool_wheel le_used {} (fs_links s) (fs_linkHeads s)" "pool_wheel ne_used {} (fs_dns s) (fs_dnsHeads s)"
    using I(3,4) by (simp_all add: link_inv_def cache_inv_def pool_inv_def)
  show "j < length (fs_links s) \<Longrightarrow> wheelSlot (fs_links s ! j) = Some slot \<Longrightarrow> le_used (fs_links s ! j)"
    "j < length (fs_dns s) \<Longrightarrow> wheelSlot (fs_dns s ! j) = Some slot \<Longrightarrow> ne_used (fs_dns s ! j)"
    using pool_wheelD(3) [OF w(1), of j] pool_wheelD(3) [OF w(2), of j] by simp_all
qed

lemma ticked_link_timers:
  assumes inv: "fusion_inv s" and t: "ticked now s events (s', events')"
  shows "link_timers s' = tick_timers (fire_link now) (link_timers s)"
proof
  fix j
  let ?c = "fs_wheelCursor s" and ?n = "length (fs_linkHeads s)" and ?x = "fs_links s ! j" and ?y = "fs_links s' ! j"
  note c = steady_cursor(1) [OF inv]
  have T: "(?c + 1) mod ?n = turn s" by (simp add: turn_def)
  have s': "fs_wheelCursor s' = turn s" "length (fs_linkHeads s') = ?n" "length (fs_links s') = length (fs_links s)"
    using t by (simp_all add: ticked_def conf_def)
  show "link_timers s' j = tick_timers (fire_link now) (link_timers s) j"
  proof (cases "j < length (fs_links s)")
    case False
    then show ?thesis by (simp add: link_timers_def tick_timers_def s')
  next
    case j: True
    have y: "if wheelSlot ?x = Some (turn s) then \<exists>fs. turned now (turn s) ?n j ?x ?y fs else same_entry ?x ?y"
      using t j unfolding ticked_def prod.case by (metis (no_types, lifting))
    have same: "le_used ?y = le_used ?x \<and> link_payload ?y = link_payload ?x" if "wheel_node.more ?y = wheel_node.more ?x"
      using link_more [OF that] by (simp add: link_payload_def)
    show ?thesis
    proof (cases "le_used ?x")
      case False
      then have "wheelSlot ?x \<noteq> Some (turn s)" using unused_slot(1) [OF inv j] by blast
      then show ?thesis using y same False j by (simp add: same_entry_def link_timers_def tick_timers_def s')
    next
      case used: True
      obtain slot where slot: "wheelSlot ?x = Some slot" "slot < ?n" using used_slot(1) [OF inv j used] by auto
      have count: ?thesis
        if "le_used ?y \<and> link_payload ?y = link_payload ?x" "\<exists>k. due ?c ?n ?x = Some (k + 2) \<and> due (turn s) ?n ?y = Some (k + 1)"
        using that j used by (auto simp: link_timers_def tick_timers_def s')
      consider "slot \<noteq> turn s" | "slot = turn s" "0 < wheelRound ?x" | "slot = turn s" "wheelRound ?x = 0" by auto
      then show ?thesis
      proof cases
        case 1
        then have "same_entry ?x ?y" using y slot by simp
        then show ?thesis using count same used due_same [OF c slot] 1 unfolding T by (simp add: same_entry_def)
      next
        case 2
        then have "wheel_node.more ?y = wheel_node.more ?x" "wheelSlot ?y = wheelSlot ?x" "wheelRound ?y = wheelRound ?x - 1"
          using y slot(1) by (auto simp: turned_def)
        then show ?thesis using count same used due_round [OF c _ 2(2), of ?y] 2 slot(1) unfolding T by simp
      next
        case 3
        obtain fs where u: "turned now (turn s) ?n j ?x ?y fs" using y slot(1) 3(1) by auto
        have "due ?c ?n ?x = Some 1" using due_now [OF c] slot(1) 3 unfolding T by simp
        then have f: "tick_timers (fire_link now) (link_timers s) j = fire_link now (link_payload ?x)"
          using j used by (simp add: link_timers_def tick_timers_def)
        from u 3(2) obtain b ps xs where x:
          "expire_protocols now protocol_range (False, link_Protocols (le_link ?x), le_expires ?x) = Some (b, ps, xs)"
          and y': "if ps = 0 then \<not> le_used ?y else \<exists>earliest. earliestExpiry xs = Some earliest \<and> le_used ?y \<and>
             le_device ?y = le_device ?x \<and> link_Protocols (le_link ?y) = ps \<and> le_expires ?y = xs \<and>
             wheelSlot ?y = Some ((turn s + ticks_until now earliest) mod ?n) \<and>
             wheelRound ?y = (ticks_until now earliest - 1) div ?n"
          by (auto simp: turned_def split: if_splits)
        show ?thesis
        proof (cases "ps = 0")
          case True
          then show ?thesis using f x y' by (simp add: link_timers_def fire_link_def link_payload_def)
        next
          case False
          then obtain earliest where e: "earliestExpiry xs = Some earliest" "le_used ?y" "le_device ?y = le_device ?x"
            "link_Protocols (le_link ?y) = ps" "le_expires ?y = xs"
            "wheelSlot ?y = Some ((turn s + ticks_until now earliest) mod ?n)"
            "wheelRound ?y = (ticks_until now earliest - 1) div ?n" using y' by auto
          have "due (turn s) ?n ?y = Some (ticks_until now earliest)"
            by (rule due_scheduled [OF turn_less [OF inv] e(6,7)])
          then show ?thesis using f x e False j by (simp add: link_timers_def fire_link_def link_payload_def s')
        qed
      qed
    qed
  qed
qed

lemma ticked_record_timers:
  assumes inv: "fusion_inv s" and t: "ticked now s events (s', events')"
  shows "record_timers s' = tick_timers (\<lambda>_. None) (record_timers s)"
proof
  fix j
  let ?c = "fs_wheelCursor s" and ?n = "length (fs_linkHeads s)" and ?x = "fs_dns s ! j" and ?y = "fs_dns s' ! j"
  note c = steady_cursor(1) [OF inv]
  have T: "(?c + 1) mod ?n = turn s" by (simp add: turn_def)
  have i': "fusion_inv s'" using t by (simp add: ticked_def)
  have s': "fs_wheelCursor s' = turn s" "length (fs_linkHeads s') = ?n" "length (fs_dns s') = length (fs_dns s)"
    using t by (simp_all add: ticked_def conf_def)
  have h: "length (fs_dnsHeads s) = ?n" "length (fs_dnsHeads s') = ?n"
    using steady_cursor(2) [OF inv] steady_cursor(2) [OF i'] s'(2) by simp_all
  show "record_timers s' j = tick_timers (\<lambda>_. None) (record_timers s) j"
  proof (cases "j < length (fs_dns s)")
    case False
    then show ?thesis by (simp add: record_timers_def tick_timers_def s')
  next
    case j: True
    have y: "if wheelSlot ?x = Some (turn s) then record_turned ?x ?y else same_entry ?x ?y"
      using t j by (auto simp: ticked_def)
    have same: "ne_used ?y = ne_used ?x \<and> ne_key ?y = ne_key ?x \<and> ne_expiresAt ?y = ne_expiresAt ?x"
      if "wheel_node.more ?y = wheel_node.more ?x" using dns_more [OF that] by simp
    show ?thesis
    proof (cases "ne_used ?x")
      case False
      then have "wheelSlot ?x \<noteq> Some (turn s)" using unused_slot(2) [OF inv j] by blast
      then show ?thesis using y same False j by (simp add: same_entry_def record_timers_def tick_timers_def s')
    next
      case used: True
      obtain slot where slot: "wheelSlot ?x = Some slot" "slot < ?n" using used_slot(2) [OF inv j used] by auto
      have count: ?thesis
        if "ne_used ?y \<and> ne_key ?y = ne_key ?x \<and> ne_expiresAt ?y = ne_expiresAt ?x"
          "\<exists>k. due ?c ?n ?x = Some (k + 2) \<and> due (turn s) ?n ?y = Some (k + 1)"
        using that j used by (auto simp: record_timers_def tick_timers_def s' h)
      consider "slot \<noteq> turn s" | "slot = turn s" "0 < wheelRound ?x" | "slot = turn s" "wheelRound ?x = 0" by auto
      then show ?thesis
      proof cases
        case 1
        then have "same_entry ?x ?y" using y slot by simp
        then show ?thesis using count same used due_same [OF c slot] 1 unfolding T by (simp add: same_entry_def)
      next
        case 2
        then have "wheel_node.more ?y = wheel_node.more ?x" "wheelSlot ?y = wheelSlot ?x" "wheelRound ?y = wheelRound ?x - 1"
          using y slot(1) by (auto simp: record_turned_def)
        then show ?thesis using count same used due_round [OF c _ 2(2), of ?y] 2 slot(1) unfolding T by simp
      next
        case 3
        then have "\<not> ne_used ?y" using y slot(1) by (simp add: record_turned_def)
        moreover have "due ?c ?n ?x = Some 1" using due_now [OF c] slot(1) 3 unfolding T by simp
        ultimately show ?thesis using j used by (simp add: record_timers_def tick_timers_def h)
      qed
    qed
  qed
qed

end
