(* ===== verification/Reach.thy ===== *)
theory Reach
  imports Engine Timers
begin

text \<open>
  The states that the fusion loop can reach, from an accepted configuration, by any sequence of decoded
  messages and ticks. The invariant holds in all of them, so no handler panics, and what an event points
  to exists when the event is delivered.
\<close>

section \<open>The start\<close>

lemma compiled_total: "CompileClassifier re_compile rules = Some (Inr c) \<Longrightarrow> classifier_total (Some c)"
  using Classify_compiled by (simp add: classifier_total_def)

lemma new_pool:
  fixes e :: "'a wheel_node_scheme"
  assumes "\<not> used e" "wheelSlot e = None" "0 < ns" "\<forall>d \<in> set devs. snd d = []"
  shows "pool_inv used owner key {} {} (replicate n e) (replicate ns None) (rev [0 ..< n]) Map.empty devs"
proof -
  have "pool_free used {} (replicate n e) (rev [0 ..< n])" using assms(1) by (auto simp: pool_free_def)
  moreover have "pool_lists used owner {} (replicate n e) devs" using assms(1,4) by (auto simp: pool_lists_def)
  moreover have "pool_owners used owner (replicate n e) devs" using assms(1) by (simp add: pool_owners_def)
  moreover have "pool_keys used key (replicate n e) Map.empty" by (simp add: pool_keys_def)
  moreover have "wheel_inv (replicate n e, replicate ns None) (\<lambda>_. [])" using assms(2) by (simp add: wheel_inv_def)
  then have "pool_wheel used {} (replicate n e) (replicate ns None)"
    using assms(1-3) by (intro pool_wheelI) auto
  ultimately show ?thesis by (simp add: pool_inv_def)
qed

lemma newFusionState_inv:
  assumes "config_ok cfg" "classifier_total cl"
  shows "fusion_inv (newFusionState cfg cl)"
proof -
  let ?s = "newFusionState cfg cl"
  have c: "1 \<le> cfg_MaxAlternatives cfg" "cfg_MaxAlternatives cfg \<le> 32" "0 < nat (cfg_TimingWheelSlots cfg)"
    using assms(1) by (simp_all add: config_ok_def)
  have d: "device_ok m zero_device" "link_ok m new_linkEntry" for m
    by (simp_all add: device_ok_def link_ok_def zero_device_def new_linkEntry_def no_expires_def zero_link_def text_ok_def empty_field_def)
  have "steady ?s"
    using c assms(2) d by (simp add: steady_def newFusionState_def Let_def zero_deviceEntry_def)
  moreover have "device_inv {} ?s"
    by (auto simp: device_inv_def newFusionState_def Let_def pool_free_def zero_deviceEntry_def)
  moreover have "link_inv {} {} {} ?s"
    unfolding link_inv_def
    using c(3) by (auto simp: newFusionState_def Let_def link_tags_def new_linkEntry_def link_owners_def zero_deviceEntry_def intro!: new_pool c(3))
  moreover have "cache_inv {} {} {} ?s"
    unfolding cache_inv_def
    using c(3) by (auto simp: newFusionState_def Let_def dns_tags_def expiry_ok_def new_dnsEntry_def dns_owners_def zero_deviceEntry_def
        intro!: new_pool c(3))
  ultimately show ?thesis by (simp add: fusion_inv_def)
qed

section \<open>The steps\<close>

inductive reachable :: "vendor_data \<Rightarrow> Rule Config \<Rightarrow> Classifier ptr \<Rightarrow> fusionState \<Rightarrow> bool"
  for vd cfg cl where
  start: "reachable vd cfg cl (newFusionState cfg cl)"
| message: "reachable vd cfg cl s \<Longrightarrow> meta_ok (env_meta env) \<Longrightarrow> fuse_envelope vd clock env s = Some (s', events) \<Longrightarrow>
    reachable vd cfg cl s'"
| clock: "reachable vd cfg cl s \<Longrightarrow> fuse_tick now s = Some (s', events) \<Longrightarrow> reachable vd cfg cl s'"

lemma resetTombstones_inv: "fusion_inv (resetTombstones s) = fusion_inv s"
  by (simp add: resetTombstones_def fusion_inv_def steady_def link_inv_def cache_inv_def device_inv_def)

lemma resetTombstones_same [simp]:
  "conf (resetTombstones s) = conf s" "link_timers (resetTombstones s) = link_timers s"
  "record_timers (resetTombstones s) = record_timers s"
  by (auto simp: resetTombstones_def conf_def link_timers_def record_timers_def)

text \<open>The pointer that the protocol of an envelope asks for is not nil.\<close>

definition envelope_ok :: "decodedEnvelope \<Rightarrow> bool" where
  "envelope_ok env =
     (meta_ok (env_meta env) \<and>
      (env_protocol env = ProtocolLLDP \<longrightarrow> env_lldp env \<noteq> None) \<and> (env_protocol env = ProtocolCDP \<longrightarrow> env_cdp env \<noteq> None) \<and>
      (env_protocol env = ProtocolMNDP \<longrightarrow> env_mndp env \<noteq> None) \<and> (env_protocol env = ProtocolMDNS \<longrightarrow> env_mdns env \<noteq> None))"

lemma fuse_envelope_runs:
  assumes "fusion_inv s" "envelope_ok env" "vendor_total vd"
  shows "runs (fuse_envelope vd clock env s) (handled s [])"
proof -
  have i: "fusion_inv (resetTombstones s)" using assms(1) by (simp add: resetTombstones_inv)
  have m: "meta_ok (env_meta env)" using assms(2) by (simp add: envelope_ok_def)
  have h: "handled (resetTombstones s) [] = handled s []" by (simp add: handled_def)
  note R = observeLLDP_runs [OF i m assms(3)] observeCDP_runs [OF i m assms(3)] observeMNDP_runs [OF i m assms(3)]
    observeMDNS_runs [OF i m assms(3)]
  note R' = R [where events = "[]", unfolded h]
  show ?thesis
    using assms(2) i R' by (auto simp: fuse_envelope_def wp Let_def envelope_ok_def handled_def)
qed

lemma fuse_envelope_inv:
  assumes "fusion_inv s" "meta_ok (env_meta env)" "vendor_total vd" "fuse_envelope vd clock env s = Some r"
  shows "handled s [] r"
proof -
  have "envelope_ok env"
    using assms(2,4) by (auto simp: envelope_ok_def fuse_envelope_def protocol_defs Let_def bind_eq_Some_conv)
  from runs_SomeD [OF fuse_envelope_runs [OF assms(1) this assms(3)] assms(4)] show ?thesis .
qed

lemma fuse_tick_runs:
  assumes "fusion_inv s"
  shows "runs (fuse_tick now s) (ticked now (resetTombstones s) [])"
  unfolding fuse_tick_def by (rule tick_runs) (simp add: assms resetTombstones_inv)

text \<open>What a run starts from.\<close>

definition start_ok :: "vendor_data \<Rightarrow> Rule Config \<Rightarrow> Classifier ptr \<Rightarrow> bool" where
  "start_ok vd cfg cl = (config_ok cfg \<and> classifier_total cl \<and> vendor_total vd)"

lemma reachable_inv:
  assumes "reachable vd cfg cl s" "start_ok vd cfg cl"
  shows "fusion_inv s \<and> conf (s\<lparr>fs_wheelCursor := 0\<rparr>) = conf (newFusionState cfg cl)"
  using assms(1)
proof induction
  case start
  have "fs_wheelCursor (newFusionState cfg cl) = 0" by (simp add: newFusionState_def Let_def)
  then have "(newFusionState cfg cl)\<lparr>fs_wheelCursor := 0\<rparr> = newFusionState cfg cl" by simp
  then show ?case using newFusionState_inv [of cfg cl] assms(2) by (simp add: start_ok_def)
next
  case (message s env clock s' events)
  then have "handled s [] (s', events)"
    using fuse_envelope_inv [of s env vd clock] assms(2) by (simp add: start_ok_def)
  then show ?case using message.IH by (simp add: handled_def conf_def)
next
  case (clock s now s' events)
  then have "ticked now (resetTombstones s) [] (s', events)"
    using runs_SomeD [OF fuse_tick_runs] by blast
  then have "fusion_inv s'" "conf (s'\<lparr>fs_wheelCursor := 0\<rparr>) = conf ((resetTombstones s)\<lparr>fs_wheelCursor := 0\<rparr>)"
    by (auto simp: ticked_def conf_def)
  then show ?case using clock.IH by (simp add: conf_def resetTombstones_def)
qed

end
