(* ===== verification/Fused.thy ===== *)
theory Fused
  imports Reach GenOUI
begin

text \<open>
  What holds of the fusion state in every run: the maps, lists and free lists agree, no handler panics or
  loops, events point to entries that exist, and the clock is the abstract clock of countdowns, so that
  what is not refreshed disappears on time.
\<close>

section \<open>An example run\<close>

declare drain_links.simps [code] drain_dns.simps [code] move_links.simps [code] move_dns.simps [code]
  tick_links.simps [code] tick_records.simps [code]

text \<open>Vendor tables without entries, a small configuration, and no classifier.\<close>

definition no_table :: "'a vendor_table" where
  "no_table = \<lparr>vt_Prefixes = [], vt_NameRefs = [], vt_Buckets = replicate 4097 0\<rparr>"

definition no_registry :: vendor_data where
  "no_registry = \<lparr>vd_NameData = [], vd_24 = no_table, vd_28 = no_table, vd_36 = no_table\<rparr>"

definition small_config :: "Rule Config" where
  "small_config = \<lparr>cfg_Interfaces = [], cfg_Protocols = ProtocolsAll, cfg_MaxDevices = 2, cfg_MaxLinks = 2,
     cfg_MaxDNSRecords = 2, cfg_MaxAlternatives = 1, cfg_ProtocolQueue = 1, cfg_PendingEvents = 1,
     cfg_MaxFrameSize = 512, cfg_MNDPIdleTTL = 180 * Second, cfg_TimingWheelSlots = 2, cfg_Rules = [],
     cfg_IncludeLoopback = False\<rparr>"

lemma no_table_lookup: "bucket < 4096 \<Longrightarrow> lookup_registry names no_table prefix bucket bits source = Some None"
  by (simp add: lookup_registry_def no_table_def search_values_def search_loop.simps)

lemma no_registry_total: "vendor_total no_registry"
proof -
  have "unat (drop_bit 24 (prefix36 mac)) < 4096" "unat (drop_bit 16 (prefix28 mac)) < 4096" "unat (drop_bit 12 (prefix24 mac)) < 4096" for mac
    using prefix_less [of mac]
    by (simp_all add: unat_div unat_drop_bit_eq drop_bit_eq_div less_mult_imp_div_less)
  then show ?thesis by (simp add: vendor_total_def LookupMACVendor_def no_registry_def no_table_lookup)
qed

lemma small_ok: "start_ok no_registry small_config None"
  by (simp add: start_ok_def no_registry_total config_ok_def small_config_def classifier_total_def Classify_def)

text \<open>An announcement of a router, then one tick.\<close>

definition small_start :: fusionState where
  "small_start = newFusionState small_config None"


text \<open>A host that answers with one address record that lives for two seconds.\<close>

definition small_record :: DNSRecord where
  "small_record = zero_record\<lparr>rr_Name := [0x61], rr_Type := DNSRecordA, rr_Class := 1, rr_TTL := 2,
     rr_Address := Addr4 [10, 0, 0, 1]\<rparr>"

definition small_meta :: observationMeta where
  "small_meta = zero_meta\<lparr>meta_protocol := ProtocolMDNS, meta_timestamp := 1000 * Second,
     meta_sourceIP := Addr4 [10, 0, 0, 1]\<rparr>"

definition small_envelope :: decodedEnvelope where
  "small_envelope = \<lparr>env_protocol = ProtocolMDNS, env_meta = small_meta, env_status = clean_status, env_lldp = None,
     env_cdp = None, env_mndp = None, env_mdns = Some (zero_mdns\<lparr>mdns_Flags := 0x8400, mdns_Records := slab_of [small_record]\<rparr>)\<rparr>"


section \<open>Sequences of ticks\<close>

fun fuse_ticks :: "Time list \<Rightarrow> fusionState \<Rightarrow> fusionState run" where
  "fuse_ticks [] s = Some s"
| "fuse_ticks (now # nows) s = do { (s, _) \<leftarrow> fuse_tick now s; fuse_ticks nows s }"

lemma fuse_tick_timers:
  assumes "fusion_inv s" "fuse_tick now s = Some (s', events)"
  shows "fusion_inv s'" "link_timers s' = tick_timers (fire_link now) (link_timers s)"
    "record_timers s' = tick_timers (\<lambda>_. None) (record_timers s)"
proof -
  have t: "ticked now (resetTombstones s) [] (s', events)" using runs_SomeD [OF fuse_tick_runs [OF assms(1)] assms(2)] .
  have i: "fusion_inv (resetTombstones s)" using assms(1) by (simp add: resetTombstones_inv)
  show "fusion_inv s'" using t by (simp add: ticked_def)
  show "link_timers s' = tick_timers (fire_link now) (link_timers s)" using ticked_link_timers [OF i t] by simp
  show "record_timers s' = tick_timers (\<lambda>_. None) (record_timers s)" using ticked_record_timers [OF i t] by simp
qed

lemma fuse_ticks_timers:
  "fusion_inv s \<Longrightarrow> \<exists>s'. fuse_ticks nows s = Some s' \<and> fusion_inv s' \<and>
     link_timers s' = run_timers (map fire_link nows) (link_timers s) \<and>
     record_timers s' = run_timers (map (\<lambda>_ _. None) nows) (record_timers s)"
proof (induction nows arbitrary: s)
  case (Cons now nows)
  from runs_exD [OF fuse_tick_runs [OF Cons.prems, of now]] obtain t ev where t: "fuse_tick now s = Some (t, ev)" by auto
  note T = fuse_tick_timers [OF Cons.prems t]
  show ?case using Cons.IH [OF T(1)] t T(2,3) by auto
qed simp

lemma timers_positive:
  "link_timers s j = Some (k, p) \<Longrightarrow> 1 \<le> k" "record_timers s j = Some (k, q) \<Longrightarrow> 1 \<le> k"
  by (auto simp: link_timers_def record_timers_def due_def split: if_splits)

section \<open>What is left of a link when its countdown ends\<close>

text \<open>
  The expiry of a protocol has come when it is set and not later than the tick. Said without the loops of
  \<open>tickLinks\<close> and \<open>earliestExpiry\<close>: the protocols that are left, their expiries, of which the first entry
  belongs to no protocol, and the earliest of them that is set.
\<close>

definition has_expired :: "Time \<Rightarrow> Time \<Rightarrow> bool" where
  "has_expired now x = (x \<noteq> 0 \<and> x \<le> now)"

fun sets_of :: "nat list \<Rightarrow> ProtocolSet" where
  "sets_of [] = 0"
| "sets_of (p # ps) = Set (of_nat p) OR sets_of ps"

definition protocols_left :: "Time \<Rightarrow> ProtocolSet \<Rightarrow> Time list \<Rightarrow> ProtocolSet" where
  "protocols_left now ps xs = ps AND NOT (sets_of (filter (\<lambda>q. has_expired now (xs ! q)) [1, 2, 3, 4]))"

definition expiries_left :: "Time \<Rightarrow> Time list \<Rightarrow> Time list" where
  "expiries_left now xs = hd xs # map (\<lambda>x. if has_expired now x then 0 else x) (tl xs)"

definition earliest_set :: "Time list \<Rightarrow> Time" where
  "earliest_set xs = (let ys = filter (\<lambda>x. x \<noteq> 0) (tl xs) in if ys = [] then 0 else Min (set ys))"

lemma expire_protocols_left:
  "distinct qs \<Longrightarrow> \<forall>q \<in> set qs. q < length xs \<Longrightarrow>
   \<exists>c. expire_protocols now qs (b, ps, xs) =
     Some (c, ps AND NOT (sets_of (filter (\<lambda>q. has_expired now (xs ! q)) qs)),
       map (\<lambda>i. if i \<in> set qs \<and> has_expired now (xs ! i) then 0 else xs ! i) [0..<length xs])"
proof (induction qs arbitrary: b ps xs)
  case Nil
  then show ?case by (simp add: map_nth)
next
  case (Cons q qs)
  let ?S = "Set (of_nat q)"
  have q: "q < length xs" "q \<notin> set qs" using Cons.prems by simp_all
  show ?case
  proof (cases "has_expired now (xs ! q)")
    case True
    have f: "filter (\<lambda>r. has_expired now (xs[q := 0] ! r)) qs = filter (\<lambda>r. has_expired now (xs ! r)) qs"
      using q by (intro filter_cong) (auto simp: nth_list_update)
    have m: "(if i \<in> set qs \<and> has_expired now (xs[q := 0] ! i) then 0 else xs[q := 0] ! i) =
        (if i \<in> set (q # qs) \<and> has_expired now (xs ! i) then 0 else xs ! i)" if "i < length xs" for i
      using q that True by (auto simp: nth_list_update)
    from Cons.IH [of "xs[q := 0]" True "ps AND NOT ?S"] Cons.prems obtain c where
      "expire_protocols now qs (True, ps AND NOT ?S, xs[q := 0]) =
        Some (c, (ps AND NOT ?S) AND NOT (sets_of (filter (\<lambda>r. has_expired now (xs ! r)) qs)),
          map (\<lambda>i. if i \<in> set qs \<and> has_expired now (xs[q := 0] ! i) then 0 else xs[q := 0] ! i) [0..<length xs])"
      unfolding f by auto
    then show ?thesis
      using True q m by (auto simp: has_expired_def and.assoc bit.de_Morgan_disj cong: map_cong)
  next
    case False
    have m: "(i \<in> set (q # qs) \<and> has_expired now (xs ! i)) = (i \<in> set qs \<and> has_expired now (xs ! i))" for i
      using False by auto
    show ?thesis
      using False Cons.IH [of xs b ps] Cons.prems unfolding m by (auto simp: has_expired_def)
  qed
qed

lemma expire_protocols_five:
  assumes "length xs = 5"
  shows "\<exists>c. expire_protocols now protocol_range (False, ps, xs) = Some (c, protocols_left now ps xs, expiries_left now xs)"
proof -
  obtain a b c d e where x: "xs = [a, b, c, d, e]" using assms by (auto simp: length_Suc_conv eval_nat_numeral)
  have "map (\<lambda>i. if i \<in> set [1, 2, 3, 4] \<and> has_expired now (xs ! i) then 0 else xs ! i) [0..<length xs] = expiries_left now xs"
    by (simp add: x expiries_left_def upt_rec)
  moreover have "distinct [1, 2, 3, 4 :: nat]" "\<forall>q \<in> set [1, 2, 3, 4]. q < length xs" using assms by simp_all
  ultimately show ?thesis
    using expire_protocols_left [of "[1, 2, 3, 4]" xs now False ps] unfolding protocols_left_def protocol_range_eq by metis
qed

lemma Min_smaller:
  assumes "finite (A :: Time set)"
  shows "v < u \<Longrightarrow> Min (insert v A) = min u (Min (insert v A))" "\<not> v < u \<Longrightarrow> Min (insert u A) = min u (Min (insert v A))"
proof -
  show "v < u \<Longrightarrow> Min (insert v A) = min u (Min (insert v A))"
    using assms by (intro min_absorb2 [symmetric] order_trans [OF Min_le less_imp_le]) simp_all
  show "\<not> v < u \<Longrightarrow> Min (insert u A) = min u (Min (insert v A))"
    using assms by (cases "A = {}") (auto simp: min_def)
qed

lemma earliest_loop_eq:
  "\<forall>q \<in> set qs. q < length xs \<Longrightarrow>
   earliest_loop xs qs m = Some (let ys = filter (\<lambda>x. x \<noteq> 0) (m # map ((!) xs) qs) in if ys = [] then 0 else Min (set ys))"
proof (induction qs arbitrary: m)
  case (Cons q qs)
  let ?A = "{x \<in> (!) xs ` set qs. x \<noteq> 0}"
  have f: "finite ?A" by simp
  show ?case using Cons Min_smaller [OF f, of "xs ! q" m] by (auto simp: Let_def)
qed (simp add: Let_def)

lemma earliestExpiry_five: "length xs = 5 \<Longrightarrow> earliestExpiry xs = Some (earliest_set xs)"
proof -
  assume "length xs = 5"
  then obtain a b c d e where x: "xs = [a, b, c, d, e]" by (auto simp: length_Suc_conv eval_nat_numeral)
  show ?thesis
    unfolding earliestExpiry_def protocol_range_eq by (subst earliest_loop_eq) (simp_all add: x earliest_set_def)
qed

lemma fire_link_left:
  assumes "length xs = 5"
  shows "fire_link now (d, ps, xs) =
    (if protocols_left now ps xs = 0 then None
     else Some (ticks_until now (earliest_set (expiries_left now xs)), d, protocols_left now ps xs, expiries_left now xs))"
proof -
  have "length (expiries_left now xs) = 5" using assms by (simp add: expiries_left_def)
  then show ?thesis
    using expire_protocols_five [OF assms, of now ps] by (auto simp: fire_link_def earliestExpiry_five)
qed

text \<open>When all protocols of a link have expired, none is left.\<close>

lemma protocols_left_none:
  assumes "ps AND NOT ProtocolsAll = 0" "\<forall>q \<in> set [1, 2, 3, 4]. has_expired now (xs ! q)"
  shows "protocols_left now ps xs = 0"
proof -
  have "sets_of [1, 2, 3, 4] = ProtocolsAll" by (simp add: Set_def protocol_defs ProtocolsAll_eq)
  moreover have "filter (\<lambda>q. has_expired now (xs ! q)) [1, 2, 3, 4] = [1, 2, 3, 4]" using assms(2) by simp
  ultimately show ?thesis using assms(1) by (simp only: protocols_left_def)
qed

section \<open>Scheduling\<close>

lemma ticks_until_seconds:
  assumes "- (2 ^ 62) \<le> expiry - now" "expiry - now \<le> 2 ^ 62"
  shows "int (ticks_until now expiry) = max 1 ((expiry - now + Second - 1) div Second)"
proof -
  have S: "Time_Sub expiry now = expiry - now" using assms by (simp add: Time_Sub_def min_int64_def max_int64_def)
  have "wrap64 (expiry - now + Second - 1) = expiry - now + Second - 1" if "0 < expiry - now"
    using that assms by (simp add: wrap64_def Second_def)
  moreover have "(expiry - now + Second - 1) div Second \<le> 1" if "expiry - now \<le> 0"
    using that by (simp add: Second_def)
  ultimately show ?thesis
    by (auto simp: ticks_until_def ceilDurationSeconds_def go_div_def S Let_def max_def Second_def)
qed

lemma schedule_link_timers:
  assumes inv: "fusion_inv s" and i: "i < length (fs_links s)" "le_used (fs_links s ! i)"
  shows "runs (scheduleLink i now expiry s) (\<lambda>s'. fusion_inv s' \<and>
    link_timers s' = (link_timers s)(i \<mapsto> (ticks_until now expiry, link_payload (fs_links s ! i))) \<and>
    record_timers s' = record_timers s)"
proof (rule runs_mono [OF scheduleLink_runs [OF fusion_invD(3) [OF inv] i]], elim conjE)
  fix s'
  assume l: "link_inv {} ({} - {i}) {} s'" and o: "links_only s s'" and f: "links_frame i s s'"
    and m: "wheel_node.more (fs_links s' ! i) = wheel_node.more (fs_links s ! i)"
    and slot: "wheelSlot (fs_links s' ! i) = Some ((fs_wheelCursor s + ticks_until now expiry) mod length (fs_linkHeads s))"
    and round: "wheelRound (fs_links s' ! i) = (ticks_until now expiry - 1) div length (fs_linkHeads s)"
  have c: "conf s' = conf s" "dns_core s' = dns_core s" using o by (simp_all add: links_only_def)
  then have C: "fs_wheelCursor s' = fs_wheelCursor s" "length (fs_linkHeads s') = length (fs_linkHeads s)"
    "length (fs_links s') = length (fs_links s)" "fs_dns s' = fs_dns s" "fs_dnsHeads s' = fs_dnsHeads s"
    by (simp_all add: conf_def dns_core_def)
  have inv': "fusion_inv s'" using links_only_inv [OF inv _ o] l by simp
  have due: "due (fs_wheelCursor s) (length (fs_linkHeads s)) (fs_links s' ! i) = Some (ticks_until now expiry)"
    by (rule due_scheduled [OF steady_cursor(1) [OF inv] slot round])
  have "link_timers s' j = ((link_timers s)(i \<mapsto> (ticks_until now expiry, link_payload (fs_links s ! i)))) j" for j
  proof (cases "j = i")
    case True
    then show ?thesis using i due link_more [OF m] C by (simp add: link_timers_def link_payload_def)
  next
    case False
    show ?thesis
    proof (cases "j < length (fs_links s)")
      case True
      then have "wheel_node.more (fs_links s' ! j) = wheel_node.more (fs_links s ! j)"
        "wheelSlot (fs_links s' ! j) = wheelSlot (fs_links s ! j)" "wheelRound (fs_links s' ! j) = wheelRound (fs_links s ! j)"
        using f False by (simp_all add: links_frame_def)
      then show ?thesis using False True C link_more [of "fs_links s' ! j" "fs_links s ! j"]
        by (simp add: link_timers_def link_payload_def due_def)
    qed (use C False in \<open>simp add: link_timers_def\<close>)
  qed
  then show "fusion_inv s' \<and> link_timers s' = (link_timers s)(i \<mapsto> (ticks_until now expiry, link_payload (fs_links s ! i))) \<and>
    record_timers s' = record_timers s"
    using inv' C by (auto simp: record_timers_def [abs_def])
qed

lemma schedule_record_timers:
  assumes inv: "fusion_inv s" and i: "i < length (fs_dns s)" "ne_used (fs_dns s ! i)"
  shows "runs (scheduleDNS i now expiry s) (\<lambda>s'. fusion_inv s' \<and>
    record_timers s' = (record_timers s)(i \<mapsto> (ticks_until now expiry, ne_key (fs_dns s ! i), ne_expiresAt (fs_dns s ! i))) \<and>
    link_timers s' = link_timers s)"
proof (rule runs_mono [OF scheduleDNS_runs [OF fusion_invD(4) [OF inv] i]], elim conjE)
  fix s'
  assume l: "cache_inv {} ({} - {i}) {} s'" and o: "dns_only s s'" and f: "dns_frame i s s'"
    and m: "wheel_node.more (fs_dns s' ! i) = wheel_node.more (fs_dns s ! i)"
    and slot: "wheelSlot (fs_dns s' ! i) = Some ((fs_wheelCursor s + ticks_until now expiry) mod length (fs_dnsHeads s))"
    and round: "wheelRound (fs_dns s' ! i) = (ticks_until now expiry - 1) div length (fs_dnsHeads s)"
  have inv': "fusion_inv s'" "conf s' = conf s" using dns_only_inv(1,2) [OF inv _ o] l by simp_all
  then have C: "fs_wheelCursor s' = fs_wheelCursor s" "length (fs_linkHeads s') = length (fs_linkHeads s)"
    "length (fs_dns s') = length (fs_dns s)" by (simp_all add: conf_def)
  have L: "fs_links s' = fs_links s" "fs_linkHeads s' = fs_linkHeads s" using o by (simp_all add: dns_only_def link_core_def)
  have h: "length (fs_dnsHeads s') = length (fs_dnsHeads s)" "fs_wheelCursor s < length (fs_dnsHeads s)"
    using steady_cursor [OF inv] steady_cursor [OF inv'(1)] C by simp_all
  have due: "due (fs_wheelCursor s) (length (fs_dnsHeads s)) (fs_dns s' ! i) = Some (ticks_until now expiry)"
    by (rule due_scheduled [OF h(2) slot round])
  have "record_timers s' j = ((record_timers s)(i \<mapsto> (ticks_until now expiry, ne_key (fs_dns s ! i), ne_expiresAt (fs_dns s ! i)))) j" for j
  proof (cases "j = i")
    case True
    then show ?thesis using i due dns_more [OF m] C h by (simp add: record_timers_def)
  next
    case False
    show ?thesis
    proof (cases "j < length (fs_dns s)")
      case True
      then have "wheel_node.more (fs_dns s' ! j) = wheel_node.more (fs_dns s ! j)"
        "wheelSlot (fs_dns s' ! j) = wheelSlot (fs_dns s ! j)" "wheelRound (fs_dns s' ! j) = wheelRound (fs_dns s ! j)"
        using f False by (simp_all add: dns_frame_def)
      then show ?thesis using False True C h dns_more [of "fs_dns s' ! j" "fs_dns s ! j"]
        by (simp add: record_timers_def due_def)
    qed (use C False in \<open>simp add: record_timers_def\<close>)
  qed
  then show "fusion_inv s' \<and>
    record_timers s' = (record_timers s)(i \<mapsto> (ticks_until now expiry, ne_key (fs_dns s ! i), ne_expiresAt (fs_dns s ! i))) \<and>
    link_timers s' = link_timers s"
    using inv' C L by (auto simp: link_timers_def [abs_def])
qed


section \<open>The properties\<close>

text \<open>An answer with one record that lives for two seconds, and the state after it.\<close>

lemma small_answer:
  "(case fuse_envelope no_registry (1000 * Second) small_envelope small_start of
      None \<Rightarrow> False
    | Some (s, events) \<Rightarrow> map_option fst (record_timers s 0) = Some 2 \<and>
        map_option (\<lambda>(k, d, ps, xs). (k, ps, xs)) (link_timers s 0) = Some (2, ProtocolsMDNS, [0, 0, 0, 0, 1002 * Second]))"
  by code_simp

lemma small_reachable:
  obtains s where "reachable no_registry small_config None s"
    "map_option fst (record_timers s 0) = Some 2"
    "map_option (\<lambda>(k, d, ps, xs). (k, ps, xs)) (link_timers s 0) = Some (2, ProtocolsMDNS, [0, 0, 0, 0, 1002 * Second])"
proof -
  obtain s events where s: "fuse_envelope no_registry (1000 * Second) small_envelope small_start = Some (s, events)"
      "map_option fst (record_timers s 0) = Some 2"
      "map_option (\<lambda>(k, d, ps, xs). (k, ps, xs)) (link_timers s 0) = Some (2, ProtocolsMDNS, [0, 0, 0, 0, 1002 * Second])"
    using small_answer by (auto split: option.splits prod.splits)
  have "meta_ok (env_meta small_envelope)"
    by (simp add: small_envelope_def small_meta_def zero_meta_def meta_ok_def)
  then have "reachable no_registry small_config None s"
    using reachable.message [OF reachable.start] s(1) unfolding small_start_def by blast
  then show thesis using that s by blast
qed

text \<open>
  (C1) Keys, lists and free lists agree in every state a run reaches: the map from keys to devices is
  exactly the used devices; a used link or record belongs to one used device, and to the list of that
  device and no other; the free lists hold exactly the unused entries, each once; and a used link carries
  the key of its device.
\<close>

theorem reachable_consistent:
  assumes "reachable vd cfg cl s" "start_ok vd cfg cl"
  shows "(\<forall>k di. fs_deviceByKey s k = Some di \<longleftrightarrow>
      di < length (fs_devices s) \<and> de_used (fs_devices s ! di) \<and> dev_Key (de_device (fs_devices s ! di)) = k) \<and>
    (\<forall>i < length (fs_links s). le_used (fs_links s ! i) \<longrightarrow>
      (\<exists>di < length (fs_devices s). le_device (fs_links s ! i) = Some di \<and> de_used (fs_devices s ! di) \<and>
         link_Device (le_link (fs_links s ! i)) = dev_Key (de_device (fs_devices s ! di)))) \<and>
    (\<forall>di < length (fs_devices s). distinct (de_links (fs_devices s ! di)) \<and> distinct (de_dns (fs_devices s ! di)) \<and>
      set (de_links (fs_devices s ! di)) =
        {i. i < length (fs_links s) \<and> le_used (fs_links s ! i) \<and> le_device (fs_links s ! i) = Some di} \<and>
      set (de_dns (fs_devices s ! di)) =
        {i. i < length (fs_dns s) \<and> ne_used (fs_dns s ! i) \<and> ne_device (fs_dns s ! i) = Some di}) \<and>
    distinct (fs_freeDevices s) \<and> set (fs_freeDevices s) = {i. i < length (fs_devices s) \<and> \<not> de_used (fs_devices s ! i)} \<and>
    distinct (fs_freeLinks s) \<and> set (fs_freeLinks s) = {i. i < length (fs_links s) \<and> \<not> le_used (fs_links s ! i)} \<and>
    distinct (fs_freeDNS s) \<and> set (fs_freeDNS s) = {i. i < length (fs_dns s) \<and> \<not> ne_used (fs_dns s ! i)} \<and>
    (\<forall>k i. fs_linkByKey s k = Some i \<longrightarrow>
      i < length (fs_links s) \<and> le_used (fs_links s ! i) \<and> link_Key (le_link (fs_links s ! i)) = k) \<and>
    (\<forall>k i. fs_dnsByKey s k = Some i \<longrightarrow> i < length (fs_dns s) \<and> ne_used (fs_dns s ! i) \<and> ne_key (fs_dns s ! i) = k)"
proof -
  have I: "steady s" "device_inv {} s" "link_inv {} {} {} s" "cache_inv {} {} {} s"
    using fusion_invD reachable_inv [OF assms] by blast+
  have L: "pool_free le_used {} (fs_links s) (fs_freeLinks s)" "pool_keys le_used link_key (fs_links s) (fs_linkByKey s)"
    "link_tags {} (fs_links s) (fs_devices s)"
    "pool_free ne_used {} (fs_dns s) (fs_freeDNS s)" "pool_keys ne_used ne_key (fs_dns s) (fs_dnsByKey s)"
    "pool_free de_used {} (fs_devices s) (fs_freeDevices s)"
    using I(2-4) by (simp_all add: link_inv_def cache_inv_def pool_inv_def device_inv_def)
  show ?thesis
  proof (intro conjI allI impI)
    show "\<exists>di < length (fs_devices s). le_device (fs_links s ! i) = Some di \<and> de_used (fs_devices s ! di) \<and>
        link_Device (le_link (fs_links s ! i)) = dev_Key (de_device (fs_devices s ! di))"
      if "i < length (fs_links s)" "le_used (fs_links s ! i)" for i
      using link_ownerD [OF I(3) that] L(3) that unfolding link_tags_def by blast
    show "set (de_links (fs_devices s ! di)) =
        {i. i < length (fs_links s) \<and> le_used (fs_links s ! i) \<and> le_device (fs_links s ! i) = Some di}"
      "distinct (de_links (fs_devices s ! di))" if "di < length (fs_devices s)" for di
      using link_listD [OF I(3) that] by auto
    show "set (de_dns (fs_devices s ! di)) =
        {i. i < length (fs_dns s) \<and> ne_used (fs_dns s ! i) \<and> ne_device (fs_dns s ! i) = Some di}"
      "distinct (de_dns (fs_devices s ! di))" if "di < length (fs_devices s)" for di
      using dns_listD [OF I(4) that] by auto
  qed (use I(2) L in \<open>auto simp: device_inv_def pool_free_def pool_keys_def link_key_def\<close>)
qed

lemma reachable_consistent_witness:
  "\<exists>s. reachable no_registry small_config None s \<and> set (fs_freeDNS s) = {i. i < length (fs_dns s) \<and> \<not> ne_used (fs_dns s ! i)} \<and>
    record_timers s 0 \<noteq> None"
proof -
  obtain s where s: "reachable no_registry small_config None s" "map_option fst (record_timers s 0) = Some 2"
    by (rule small_reachable)
  then show ?thesis using reachable_consistent [OF s(1) small_ok] by auto
qed

text \<open>
  (C2) No handler panics: from any state a run reaches, every envelope of a decoder and every tick is
  handled, for any message, any data and any time, and what an event of the batch points to exists when
  the batch is delivered: a used device and a used link of that device.
\<close>

theorem handlers_safe:
  assumes "reachable vd cfg cl s" "start_ok vd cfg cl" "envelope_ok env"
  shows "(\<exists>s' events. fuse_envelope vd clock env s = Some (s', events) \<and>
      (\<forall>e \<in> set events. \<forall>di li. fe_Target e = Live di li \<longrightarrow>
         di < length (fs_devices s') \<and> de_used (fs_devices s' ! di) \<and>
         li < length (fs_links s') \<and> le_used (fs_links s' ! li) \<and> le_device (fs_links s' ! li) = Some di)) \<and>
    (\<exists>s' events. fuse_tick now s = Some (s', events) \<and>
      (\<forall>e \<in> set events. \<forall>di li. fe_Target e = Live di li \<longrightarrow>
         di < length (fs_devices s') \<and> de_used (fs_devices s' ! di) \<and>
         li < length (fs_links s') \<and> le_used (fs_links s' ! li) \<and> le_device (fs_links s' ! li) = Some di))"
proof -
  have i: "fusion_inv s" and v: "vendor_total vd" using reachable_inv [OF assms(1,2)] assms(2) by (simp_all add: start_ok_def)
  have ok: "event_ok t e \<Longrightarrow> \<forall>di li. fe_Target e = Live di li \<longrightarrow>
         di < length (fs_devices t) \<and> de_used (fs_devices t ! di) \<and>
         li < length (fs_links t) \<and> le_used (fs_links t ! li) \<and> le_device (fs_links t ! li) = Some di" for t e
    by (auto simp: event_ok_def)
  from runs_exD [OF fuse_envelope_runs [OF i assms(3) v, of clock]] obtain a es where
    a: "fuse_envelope vd clock env s = Some (a, es)" "\<forall>e \<in> set es. event_ok a e" by (auto simp: handled_def)
  from runs_exD [OF fuse_tick_runs [OF i, of now]] obtain b fs where
    b: "fuse_tick now s = Some (b, fs)" "\<forall>e \<in> set fs. event_ok b e" by (auto simp: ticked_def)
  show ?thesis using a b ok by blast
qed

lemma handlers_safe_witness:
  "\<exists>s' events. fuse_tick 5 small_start = Some (s', events)"
proof -
  have "envelope_ok small_envelope"
    by (simp add: envelope_ok_def small_envelope_def small_meta_def zero_meta_def meta_ok_def protocol_defs)
  from handlers_safe [OF reachable.start small_ok this, of _ 5] show ?thesis unfolding small_start_def by blast
qed

lemma mergeDevices_returns:
  assumes "fusion_inv s" "di < length (fs_devices s)" "dj < length (fs_devices s)"
  shows "\<exists>r. mergeDevices di dj (s, events) = Some r"
proof (cases "di \<noteq> dj \<and> de_used (fs_devices s ! di) \<and> de_used (fs_devices s ! dj)")
  case True
  then show ?thesis using runs_exD [OF mergeDevices_runs [OF assms(1,2) _ assms(3)]] by blast
qed (use assms in \<open>auto simp: mergeDevices_def\<close>)

text \<open>
  (C28) The loops end: in every state a run reaches, removing the links and the records of a device until
  its lists are empty, moving those of one device to another, and following the chains of the slots
  return, whatever the entries hold.
\<close>

theorem fusion_loops_end:
  assumes "reachable vd cfg cl s" "start_ok vd cfg cl" "di < length (fs_devices s)" "dj < length (fs_devices s)"
  shows "(\<exists>s' events'. drain_links di kind (s, events) = Some (s', events') \<and> de_links (fs_devices s' ! di) = []) \<and>
    (\<exists>s'. drain_dns di s = Some s' \<and> de_dns (fs_devices s' ! di) = []) \<and>
    (\<exists>s' events'. mergeDevices di dj (s, events) = Some (s', events')) \<and>
    (\<exists>s' events'. tick_links now (fs_linkHeads s ! fs_wheelCursor s) (s, events) = Some (s', events')) \<and>
    (\<exists>s' ds. tick_records (fs_dnsHeads s ! fs_wheelCursor s) (s, []) = Some (s', ds))"
proof -
  have i: "fusion_inv s" using reachable_inv [OF assms(1,2)] by blast
  note I = fusion_invD [OF i] and c = steady_cursor [OF i]
  obtain f where f: "wheel_inv (fs_links s, fs_linkHeads s) f"
    using pool_wheelD(1) [OF pool_invD(5)] I(3) unfolding link_inv_def by blast
  obtain g where g: "wheel_inv (fs_dns s, fs_dnsHeads s) g"
    using pool_wheelD(1) [OF pool_invD(5)] I(4) unfolding cache_inv_def by blast
  have h: "fs_linkHeads s ! fs_wheelCursor s = chain_first (f (fs_wheelCursor s))"
    "fs_dnsHeads s ! fs_wheelCursor s = chain_first (g (fs_wheelCursor s))"
    using wheel_head [OF f c(1)] wheel_head [OF g] c by simp_all
  from runs_exD [OF drain_links_runs [OF I(3) assms(3), of kind events]] obtain r1 where
    "drain_links di kind (s, events) = Some r1" "de_links (fs_devices (fst r1) ! di) = []" by (auto simp: case_prod_unfold)
  moreover from runs_exD [OF drain_dns_runs [OF I(4) assms(3)]] obtain r2 where
    "drain_dns di s = Some r2" "de_dns (fs_devices r2 ! di) = []" by auto
  moreover obtain r3 where "mergeDevices di dj (s, events) = Some r3"
    using mergeDevices_returns [OF i assms(3,4)] by blast
  moreover from runs_exD [OF tick_links_runs [OF i f, of "[]" "f (fs_wheelCursor s)" now events]] obtain r4 where
    "tick_links now (chain_first (f (fs_wheelCursor s))) (s, events) = Some r4" by auto
  moreover from runs_exD [OF tick_records_runs [OF i g, of "[]" "g (fs_wheelCursor s)" "[]"]] obtain r5 where
    "tick_records (chain_first (g (fs_wheelCursor s))) (s, []) = Some r5" by (auto simp: known_devices_def)
  ultimately show ?thesis unfolding h by (cases r1; cases r3; cases r4; cases r5) auto
qed

lemma fusion_loops_end_witness:
  "\<exists>s' events'. mergeDevices 0 1 (small_start, []) = Some (s', events')"
  using fusion_loops_end [OF reachable.start small_ok, of 0 1 EventExpired "[]"]
  by (simp add: small_start_def newFusionState_def Let_def small_config_def)


text \<open>
  (C4) The timing wheel implements countdowns. In every state a run reaches, a tick is one step of the
  abstract clock: every countdown of a link or a record goes down by one; a record whose countdown ends
  is gone; a link whose countdown ends loses the protocols whose expiry has come, and is gone without
  protocols or starts again with the ticks until its earliest expiry.
\<close>

theorem tick_refines_countdowns:
  assumes "reachable vd cfg cl s" "start_ok vd cfg cl"
  shows "\<exists>s' events. fuse_tick now s = Some (s', events) \<and>
    link_timers s' = tick_timers (fire_link now) (link_timers s) \<and>
    record_timers s' = tick_timers (\<lambda>_. None) (record_timers s)"
proof -
  have i: "fusion_inv s" using reachable_inv [OF assms] by blast
  from runs_exD [OF fuse_tick_runs [OF i, of now]] obtain r where r: "fuse_tick now s = Some r" by blast
  then show ?thesis using fuse_tick_timers [OF i] by (cases r) blast
qed

lemma tick_refines_countdowns_witness:
  "\<exists>s s' events. reachable no_registry small_config None s \<and> fuse_tick (1001 * Second) s = Some (s', events) \<and>
     map_option fst (record_timers s 0) = Some 2 \<and> map_option fst (record_timers s' 0) = Some 1"
proof -
  obtain s where s: "reachable no_registry small_config None s" "map_option fst (record_timers s 0) = Some 2"
    by (rule small_reachable)
  then show ?thesis
    using tick_refines_countdowns [OF s(1) small_ok, of "1001 * Second"] by (force simp: tick_timers_def)
qed

text \<open>
  Scheduling a used entry, scheduled before or not, sets its countdown and changes no other: to the
  number of started seconds until the expiry, and at least one. Rescheduling and every slot, round and
  link of the chains are hidden.
\<close>

lemma schedule_sets_countdown:
  assumes "reachable vd cfg cl s" "start_ok vd cfg cl" "- (2 ^ 62) \<le> expiry - now" "expiry - now \<le> 2 ^ 62"
  shows "(i < length (fs_links s) \<and> le_used (fs_links s ! i) \<longrightarrow>
      (\<exists>s' k. scheduleLink i now expiry s = Some s' \<and> int k = max 1 ((expiry - now + Second - 1) div Second) \<and>
         link_timers s' = (link_timers s)(i \<mapsto> (k, link_payload (fs_links s ! i))) \<and> record_timers s' = record_timers s)) \<and>
    (i < length (fs_dns s) \<and> ne_used (fs_dns s ! i) \<longrightarrow>
      (\<exists>s' k. scheduleDNS i now expiry s = Some s' \<and> int k = max 1 ((expiry - now + Second - 1) div Second) \<and>
         record_timers s' = (record_timers s)(i \<mapsto> (k, ne_key (fs_dns s ! i), ne_expiresAt (fs_dns s ! i))) \<and>
         link_timers s' = link_timers s))"
proof -
  have i: "fusion_inv s" using reachable_inv [OF assms(1,2)] by blast
  note k = ticks_until_seconds [OF assms(3,4)]
  show ?thesis
    using runs_exD [OF schedule_link_timers [OF i, of i now expiry]] runs_exD [OF schedule_record_timers [OF i, of i now expiry]] k
    by blast
qed

text \<open>
  Every cached record disappears on time: with a countdown of \<open>k\<close>, it is kept through any
  \<open>k - 1\<close> ticks and gone after any \<open>k\<close> ticks, whatever the times of the ticks, if no message comes between.
\<close>

lemma record_expires_on_time:
  assumes "reachable vd cfg cl s" "start_ok vd cfg cl" "record_timers s j = Some (k, p)"
  shows "(length nows < k \<longrightarrow> (\<exists>s'. fuse_ticks nows s = Some s' \<and> record_timers s' j = Some (k - length nows, p))) \<and>
    (length nows = k \<longrightarrow> (\<exists>s'. fuse_ticks nows s = Some s' \<and> record_timers s' j = None))"
proof -
  have i: "fusion_inv s" using reachable_inv [OF assms(1,2)] by blast
  obtain s' where s': "fuse_ticks nows s = Some s'" "record_timers s' = run_timers (map (\<lambda>_ _. None) nows) (record_timers s)"
    using fuse_ticks_timers [OF i] by blast
  have "record_timers s' j = Some (k - length nows, p)" if "length nows < k"
    using run_timers_counts [of "record_timers s" j k p "map (\<lambda>_ _. None) nows", OF assms(3)] that s'(2) by simp
  moreover have "record_timers s' j = None" if n: "length nows = k"
  proof -
    have "1 \<le> k" using timers_positive(2) [OF assms(3)] .
    then obtain ms m where "nows = ms @ [m]" using n by (cases nows rule: rev_cases) auto
    then show ?thesis using run_timers_fires [of "record_timers s" j k p "map (\<lambda>_ _. None) ms" "\<lambda>_. None", OF assms(3)] n s'(2) by simp
  qed
  ultimately show ?thesis using s'(1) by blast
qed

text \<open>
  (C6) A link that is not refreshed is removed or rescheduled when its countdown ends. With a countdown of \<open>k\<close>
  it is kept as it is through every shorter sequence of ticks, whatever their times. At the tick that ends
  the countdown the protocols whose expiry has come leave the link: when none is left the link is gone;
  otherwise it keeps the others with their expiries and the next countdown runs to the earliest of them.
\<close>

theorem link_expires_on_time:
  assumes "reachable vd cfg cl s" "start_ok vd cfg cl" "link_timers s j = Some (k, d, ps, xs)" "length nows + 1 = k"
  shows "(\<forall>m < k. \<exists>u. fuse_ticks (take m nows) s = Some u \<and> link_timers u j = Some (k - m, d, ps, xs)) \<and>
    (\<exists>t s' events. fuse_ticks nows s = Some t \<and> fuse_tick now t = Some (s', events) \<and>
      link_timers s' j =
        (if protocols_left now ps xs = 0 then None
         else Some (ticks_until now (earliest_set (expiries_left now xs)), d, protocols_left now ps xs, expiries_left now xs)))"
proof -
  have i: "fusion_inv s" using reachable_inv [OF assms(1,2)] by blast
  have kept: "\<exists>t. fuse_ticks (take m nows) s = Some t \<and> fusion_inv t \<and> link_timers t j = Some (k - m, d, ps, xs)" if "m < k" for m
  proof -
    obtain t where "fuse_ticks (take m nows) s = Some t" "fusion_inv t"
      "link_timers t = run_timers (map fire_link (take m nows)) (link_timers s)" using fuse_ticks_timers [OF i] by blast
    then show ?thesis
      using run_timers_counts [of "link_timers s" j k "(d, ps, xs)" "map fire_link (take m nows)", OF assms(3)] assms(4) that by auto
  qed
  from kept [of "length nows"] assms(4) obtain t where t: "fuse_ticks nows s = Some t" "fusion_inv t" "link_timers t j = Some (1, d, ps, xs)"
    by auto
  from runs_exD [OF fuse_tick_runs [OF t(2), of now]] obtain s' events where s': "fuse_tick now t = Some (s', events)" by auto
  have "j < length (fs_links s)" "xs = le_expires (fs_links s ! j)"
    using assms(3) by (auto simp: link_timers_def link_payload_def split: if_splits)
  then have "length xs = 5" using steadyD(7) [OF fusion_invD(1) [OF i]] by (simp add: link_ok_def)
  from fire_link_left [OF this, of now d ps] show ?thesis
    using fuse_tick_timers(2) [OF t(2) s'] t s' kept by (simp add: tick_timers_def) blast
qed

text \<open>The record lives to the second 1002: at an earlier tick its link is rescheduled, at that one it is gone.\<close>

lemma link_expires_on_time_witness:
  "\<exists>s d t. reachable no_registry small_config None s \<and>
     link_timers s 0 = Some (2, d, ProtocolsMDNS, [0, 0, 0, 0, 1002 * Second]) \<and> fuse_ticks [1001 * Second] s = Some t \<and>
     (\<exists>s' events. fuse_tick (1002 * Second) t = Some (s', events) \<and> link_timers s' 0 = None) \<and>
     (\<exists>s' events. fuse_tick (1000 * Second) t = Some (s', events) \<and>
        link_timers s' 0 = Some (2, d, ProtocolsMDNS, [0, 0, 0, 0, 1002 * Second]))"
proof -
  let ?xs = "[0, 0, 0, 0, 1002 * Second]"
  obtain s where s: "reachable no_registry small_config None s"
    "map_option (\<lambda>(k, d, ps, xs). (k, ps, xs)) (link_timers s 0) = Some (2, ProtocolsMDNS, ?xs)"
    by (rule small_reachable)
  then obtain d where d: "link_timers s 0 = Some (2, d, ProtocolsMDNS, ?xs)" by auto
  note X = link_expires_on_time [OF s(1) small_ok d, of "[1001 * Second]"]
  have gone: "protocols_left (1002 * Second) ProtocolsMDNS ?xs = 0" by code_simp
  have stays: "protocols_left (1000 * Second) ProtocolsMDNS ?xs = ProtocolsMDNS" "ProtocolsMDNS \<noteq> 0"
    "expiries_left (1000 * Second) ?xs = ?xs" "ticks_until (1000 * Second) (earliest_set ?xs) = 2"
    by code_simp+
  from X [of "1002 * Second"] obtain t s' events where "fuse_ticks [1001 * Second] s = Some t"
    "fuse_tick (1002 * Second) t = Some (s', events)" "link_timers s' 0 = None"
    unfolding gone by auto
  moreover from X [of "1000 * Second"] obtain t' s'' events' where "fuse_ticks [1001 * Second] s = Some t'"
    "fuse_tick (1000 * Second) t' = Some (s'', events')" "link_timers s'' 0 = Some (2, d, ProtocolsMDNS, ?xs)"
    unfolding stays using stays(2) by auto
  ultimately show ?thesis using s(1) d by auto
qed

text \<open>
  (C36) The records of the fusion state are well formed in every state a run reaches: every text field of
  a device and of a link holds at most one value more than the configured alternatives, without blank,
  untrimmed or repeated values, and its canonical index is on a value of the highest rank; the five
  expiries of a link are there; and no operation changes the sizes of the tables.
\<close>

theorem reachable_well_formed:
  assumes "reachable vd cfg cl s" "start_ok vd cfg cl"
  shows "(\<forall>e \<in> set (fs_devices s).
      \<forall>f \<in> {dev_SystemName (de_device e), dev_HostName (de_device e), dev_ProtocolDeviceID (de_device e), dev_Vendor (de_device e),
         dev_Model (de_device e), dev_Platform (de_device e), dev_SoftwareVersion (de_device e)}.
        text_ok (nat (cfg_MaxAlternatives cfg + 1)) f) \<and>
    (\<forall>l \<in> set (fs_links s). length (le_expires l) = 5 \<and> text_ok (nat (cfg_MaxAlternatives cfg + 1)) (link_RemoteInterface (le_link l))) \<and>
    length (fs_devices s) = nat (cfg_MaxDevices cfg) \<and> length (fs_links s) = nat (cfg_MaxLinks cfg) \<and>
    length (fs_dns s) = nat (cfg_MaxDNSRecords cfg) \<and>
    length (fs_linkHeads s) = nat (cfg_TimingWheelSlots cfg) \<and> length (fs_dnsHeads s) = nat (cfg_TimingWheelSlots cfg) \<and>
    fs_wheelCursor s < length (fs_linkHeads s)"
proof -
  have i: "fusion_inv s" and c: "conf (s\<lparr>fs_wheelCursor := 0\<rparr>) = conf (newFusionState cfg cl)"
    using reachable_inv [OF assms] by blast+
  have st: "steady s" by (rule fusion_invD(1) [OF i])
  have C: "fs_cfg s = cfg" "length (fs_linkHeads s) = nat (cfg_TimingWheelSlots cfg)" "length (fs_devices s) = nat (cfg_MaxDevices cfg)"
    "length (fs_links s) = nat (cfg_MaxLinks cfg)" "length (fs_dns s) = nat (cfg_MaxDNSRecords cfg)"
    using c by (simp_all add: conf_def newFusionState_def Let_def)
  show ?thesis using st C by (simp add: steady_def device_ok_def link_ok_def)
qed

lemma reachable_well_formed_witness:
  "\<exists>s. reachable no_registry small_config None s \<and> record_timers s 0 \<noteq> None \<and> length (fs_links s) = 2"
proof -
  obtain s where s: "reachable no_registry small_config None s" "map_option fst (record_timers s 0) = Some 2"
    by (rule small_reachable)
  then show ?thesis using reachable_well_formed [OF s(1) small_ok] by (auto simp: small_config_def)
qed

end
