(* ===== verification/EngineRun.thy ===== *)
theory EngineRun
  imports Reach
begin

text \<open>
  The goroutines of a run. \<open>Engine.Run\<close> starts one decode worker for every enabled protocol, one goroutine
  for every capture backend and the fusion loop; they share the channels of the engine. A step of the
  system is the code of one goroutine between two channel operations, in any order the channels allow.
  The lemmas show that no step can panic or block where the code does not expect it, that packet slots
  are never lost, and that a cancelled run always ends.
\<close>

section \<open>The system\<close>

text \<open>
  A worker waits for a packet, or holds a slot while it sends the envelope or waits for the
  acknowledgement, or has ended. The acknowledgement channel is its own.
\<close>

datatype worker_phase =
  Idle
| Sending packetSlot decodedEnvelope
| Waiting packetSlot
| Stopped

record worker =
  wk_phase :: worker_phase
  wk_vars :: worker_vars
  wk_ack :: "unit chan"

text \<open>\<open>Run\<close> from the start of the goroutines on: capturing, cancelled, queues closed, envelopes closed, ended.\<close>

datatype run_phase = Capturing | Cancelled | Draining | Finishing | Finished

record system =
  sy_engine :: Engine
  sy_workers :: "worker list"
  sy_phase :: run_phase
  sy_handler :: bool
  sy_delivered :: "fusion_event list"

definition start_system :: "bool \<Rightarrow> Engine \<Rightarrow> system" where
  "start_system handler e =
     \<lparr>sy_engine = e,
      sy_workers = map (\<lambda>q. \<lparr>wk_phase = (case q of None \<Rightarrow> Stopped | Some _ \<Rightarrow> Idle), wk_vars = zero_vars, wk_ack = make_chan 1\<rparr>)
        (en_queues e),
      sy_phase = Capturing, sy_handler = handler, sy_delivered = []\<rparr>"

section \<open>The steps\<close>

definition set_phase :: "nat \<Rightarrow> worker_phase \<Rightarrow> system \<Rightarrow> system run" where
  "set_phase p ph s = do {
     w \<leftarrow> idx (sy_workers s) p;
     ws \<leftarrow> upd (sy_workers s) p (w\<lparr>wk_phase := ph\<rparr>);
     Some (s\<lparr>sy_workers := ws\<rparr>)
   }"

text \<open>A backend hands a packet to \<open>routeCapture\<close>.\<close>

definition do_capture :: "Time \<Rightarrow> captureView \<Rightarrow> system \<Rightarrow> system run" where
  "do_capture clock view s = do {
     e \<leftarrow> routeCapture clock view (sy_engine s);
     Some (s\<lparr>sy_engine := e\<rparr>)
   }"

text \<open>A worker receives a slot and decodes it.\<close>

definition do_take :: "nat \<Rightarrow> system \<Rightarrow> system run" where
  "do_take p s = do {
     let e = sy_engine s;
     q \<leftarrow> idx (en_queues e) p;
     c \<leftarrow> q;
     w \<leftarrow> idx (sy_workers s) p;
     case ch_items c of
       [] \<Rightarrow> None
     | slot # rest \<Rightarrow> do {
         queues \<leftarrow> upd (en_queues e) p (Some (c\<lparr>ch_items := rest\<rparr>));
         (env, vars) \<leftarrow> decode_slot (of_nat p) slot (wk_vars w);
         (send_it, e) \<leftarrow> count_decoded (of_nat p) (env_status env) (e\<lparr>en_queues := queues\<rparr>);
         ws \<leftarrow> upd (sy_workers s) p (w\<lparr>wk_vars := vars, wk_phase := (if send_it then Sending slot env else Idle)\<rparr>);
         e \<leftarrow> (if send_it then Some e else releasePacket slot e);
         Some (s\<lparr>sy_engine := e, sy_workers := ws\<rparr>)
       }
   }"

text \<open>\<open>e.decoded <- env\<close>\<close>

definition do_put :: "nat \<Rightarrow> system \<Rightarrow> system run" where
  "do_put p s = do {
     w \<leftarrow> idx (sy_workers s) p;
     case wk_phase w of
       Sending slot env \<Rightarrow> do {
         decoded \<leftarrow> send env (en_decoded (sy_engine s));
         s \<leftarrow> set_phase p (Waiting slot) s;
         Some (s\<lparr>sy_engine := (sy_engine s)\<lparr>en_decoded := decoded\<rparr>\<rparr>)
       }
     | _ \<Rightarrow> None
   }"

text \<open>\<open><-ack\<close> and the release of the slot\<close>

definition do_ack :: "nat \<Rightarrow> system \<Rightarrow> system run" where
  "do_ack p s = do {
     w \<leftarrow> idx (sy_workers s) p;
     case wk_phase w of
       Waiting slot \<Rightarrow>
         (case ch_items (wk_ack w) of
            [] \<Rightarrow> None
          | _ # rest \<Rightarrow> do {
              ws \<leftarrow> upd (sy_workers s) p (w\<lparr>wk_phase := Idle, wk_ack := (wk_ack w)\<lparr>ch_items := rest\<rparr>\<rparr>);
              e \<leftarrow> releasePacket slot (sy_engine s);
              Some (s\<lparr>sy_engine := e, sy_workers := ws\<rparr>)
            })
     | _ \<Rightarrow> None
   }"

text \<open>The fusion loop receives an envelope: fusion, statistics, delivery and acknowledgement.\<close>

definition do_fuse :: "vendor_data \<Rightarrow> Time \<Rightarrow> system \<Rightarrow> system run" where
  "do_fuse vd clock s = (case ch_items (en_decoded (sy_engine s)) of
       [] \<Rightarrow> None
     | env # rest \<Rightarrow> do {
         let e = (sy_engine s)\<lparr>en_decoded := (en_decoded (sy_engine s))\<lparr>ch_items := rest\<rparr>\<rparr>;
         (st, events) \<leftarrow> fuse_envelope vd clock env (en_state e);
         let (e, out) = deliver (sy_handler s) events (updateHighWaterLocked (e\<lparr>en_state := st\<rparr>), sy_delivered s);
         w \<leftarrow> idx (sy_workers s) (unat (env_protocol env));
         ack \<leftarrow> send () (wk_ack w);
         ws \<leftarrow> upd (sy_workers s) (unat (env_protocol env)) (w\<lparr>wk_ack := ack\<rparr>);
         Some (s\<lparr>sy_engine := e, sy_workers := ws, sy_delivered := out\<rparr>)
       })"

definition do_tick :: "Time \<Rightarrow> system \<Rightarrow> system run" where
  "do_tick now s = do {
     (st, events) \<leftarrow> fuse_tick now (en_state (sy_engine s));
     let (e, out) = deliver (sy_handler s) events ((sy_engine s)\<lparr>en_state := st\<rparr>, sy_delivered s);
     Some (s\<lparr>sy_engine := e, sy_delivered := out\<rparr>)
   }"

text \<open>
  The end of \<open>Run\<close>: after the cancellation and the end of the backends it closes the queues, waits for
  the workers, closes the channel of envelopes and waits for the fusion loop.
\<close>

definition close_chan :: "'a chan \<Rightarrow> 'a chan run" where
  "close_chan c = (if ch_closed c then None else Some (c\<lparr>ch_closed := True\<rparr>))"

fun close_queues :: "nat list \<Rightarrow> packetSlot chan option list \<Rightarrow> packetSlot chan option list run" where
  "close_queues [] qs = Some qs"
| "close_queues (p # ps) qs = do {
     q \<leftarrow> idx qs p;
     case q of
       None \<Rightarrow> close_queues ps qs
     | Some c \<Rightarrow> do { c \<leftarrow> close_chan c; qs \<leftarrow> upd qs p (Some c); close_queues ps qs }
   }"

definition do_close_queues :: "system \<Rightarrow> system run" where
  "do_close_queues s = do {
     qs \<leftarrow> close_queues protocol_range (en_queues (sy_engine s));
     Some (s\<lparr>sy_engine := (sy_engine s)\<lparr>en_queues := qs\<rparr>, sy_phase := Draining\<rparr>)
   }"

definition do_close_decoded :: "system \<Rightarrow> system run" where
  "do_close_decoded s = do {
     c \<leftarrow> close_chan (en_decoded (sy_engine s));
     Some (s\<lparr>sy_engine := (sy_engine s)\<lparr>en_decoded := c\<rparr>, sy_phase := Finishing\<rparr>)
   }"

datatype action =
  Capture Time captureView | Take nat | Put nat | Ack nat | Fuse Time | Tick Time
| Cancel | CloseQueues | Stop nat | CloseDecoded | Finish

definition act :: "vendor_data \<Rightarrow> action \<Rightarrow> system \<Rightarrow> system run" where
  "act vd a s = (case a of
       Capture clock view \<Rightarrow> do_capture clock view s
     | Take p \<Rightarrow> do_take p s
     | Put p \<Rightarrow> do_put p s
     | Ack p \<Rightarrow> do_ack p s
     | Fuse clock \<Rightarrow> do_fuse vd clock s
     | Tick now \<Rightarrow> do_tick now s
     | Cancel \<Rightarrow> Some (s\<lparr>sy_phase := Cancelled\<rparr>)
     | CloseQueues \<Rightarrow> do_close_queues s
     | Stop p \<Rightarrow> set_phase p Stopped s
     | CloseDecoded \<Rightarrow> do_close_decoded s
     | Finish \<Rightarrow> Some (s\<lparr>sy_phase := Finished\<rparr>))"

text \<open>
  When a goroutine can make the step: what it waits for is there. A send is enabled without regard to
  the space in the channel; that the space is always there is a theorem.
\<close>

definition queue_of :: "system \<Rightarrow> nat \<Rightarrow> packetSlot chan option" where
  "queue_of s p = (if p < length (en_queues (sy_engine s)) then en_queues (sy_engine s) ! p else None)"

definition phase_of :: "system \<Rightarrow> nat \<Rightarrow> worker_phase" where
  "phase_of s p = (if p < length (sy_workers s) then wk_phase (sy_workers s ! p) else Stopped)"

definition enabled :: "action \<Rightarrow> system \<Rightarrow> bool" where
  "enabled a s = (case a of
       Capture clock view \<Rightarrow> sy_phase s = Capturing \<or> sy_phase s = Cancelled
     | Take p \<Rightarrow> phase_of s p = Idle \<and> (case queue_of s p of None \<Rightarrow> False | Some c \<Rightarrow> ch_items c \<noteq> [])
     | Put p \<Rightarrow> (case phase_of s p of Sending slot env \<Rightarrow> True | _ \<Rightarrow> False)
     | Ack p \<Rightarrow> (case phase_of s p of Waiting slot \<Rightarrow> ch_items (wk_ack (sy_workers s ! p)) \<noteq> [] | _ \<Rightarrow> False)
     | Fuse clock \<Rightarrow> sy_phase s \<noteq> Finished \<and> ch_items (en_decoded (sy_engine s)) \<noteq> []
     | Tick now \<Rightarrow> sy_phase s \<noteq> Finished
     | Cancel \<Rightarrow> sy_phase s = Capturing
     | CloseQueues \<Rightarrow> sy_phase s = Cancelled
     | Stop p \<Rightarrow> phase_of s p = Idle \<and> (case queue_of s p of None \<Rightarrow> False | Some c \<Rightarrow> ch_closed c \<and> ch_items c = [])
     | CloseDecoded \<Rightarrow> sy_phase s = Draining \<and> (\<forall>w \<in> set (sy_workers s). wk_phase w = Stopped)
     | Finish \<Rightarrow> sy_phase s = Finishing \<and> ch_items (en_decoded (sy_engine s)) = [])"

inductive running :: "vendor_data \<Rightarrow> Engine \<Rightarrow> bool \<Rightarrow> system \<Rightarrow> bool" for vd e handler where
  start: "running vd e handler (start_system handler e)"
| step: "running vd e handler s \<Longrightarrow> enabled a s \<Longrightarrow> act vd a s = Some t \<Longrightarrow> running vd e handler t"

section \<open>The invariant of an engine\<close>

definition slot_ok :: "nat \<Rightarrow> packetSlot \<Rightarrow> bool" where
  "slot_ok m s = (length (sl_buf s) = m \<and> sl_len s \<le> m \<and> meta_ok (sl_meta s))"

definition counters_ok :: "engineCounters \<Rightarrow> bool" where
  "counters_ok c =
     (length (ec_routed c) = 5 \<and> length (ec_dropped c) = 5 \<and> length (ec_malformed c) = 5 \<and>
      length (ec_ignored c) = 5 \<and> length (ec_partial c) = 5)"

definition queue_items :: "packetSlot chan option \<Rightarrow> packetSlot list" where
  "queue_items q = (case q of None \<Rightarrow> [] | Some c \<Rightarrow> ch_items c)"

definition queued :: "Engine \<Rightarrow> nat" where
  "queued e = (\<Sum>q\<leftarrow>en_queues e. length (queue_items q))"

definition engine_ok :: "Engine \<Rightarrow> bool" where
  "engine_ok e =
     (length (en_queues e) = 5 \<and> counters_ok (en_counters e) \<and> fusion_inv (en_state e) \<and> 0 \<le> cfg_MaxFrameSize (en_cfg e) \<and>
      (\<forall>p < 5. (en_queues e ! p \<noteq> None) = Has (cfg_Protocols (en_cfg e)) (of_nat p)) \<and>
      (\<forall>slot \<in> set (ch_items (en_freePackets e)). slot_ok (nat (cfg_MaxFrameSize (en_cfg e))) slot) \<and>
      (\<forall>p < 5. \<forall>slot \<in> set (queue_items (en_queues e ! p)). slot_ok (nat (cfg_MaxFrameSize (en_cfg e))) slot) \<and>
      \<not> ch_closed (en_freePackets e) \<and> length (ch_items (en_freePackets e)) \<le> ch_cap (en_freePackets e))"

text \<open>What routing a packet does: slots move between the free list and the queues, and are counted.\<close>

definition shuffled :: "Engine \<Rightarrow> Engine \<Rightarrow> bool" where
  "shuffled e e' =
     (engine_ok e' \<and> en_cfg e' = en_cfg e \<and> en_state e' = en_state e \<and> en_decoded e' = en_decoded e \<and>
      ch_cap (en_freePackets e') = ch_cap (en_freePackets e) \<and>
      map (map_option ch_closed) (en_queues e') = map (map_option ch_closed) (en_queues e) \<and>
      length (ch_items (en_freePackets e')) + queued e' = length (ch_items (en_freePackets e)) + queued e)"

lemma shuffled_refl: "engine_ok e \<Longrightarrow> shuffled e e"
  by (simp add: shuffled_def)

lemma shuffled_trans: "shuffled e f \<Longrightarrow> shuffled f g \<Longrightarrow> shuffled e g"
  by (simp add: shuffled_def)

lemma shuffled_counters: "engine_ok e \<Longrightarrow> counters_ok c \<Longrightarrow> shuffled e (e\<lparr>en_counters := c\<rparr>)"
  by (simp add: shuffled_def engine_ok_def queued_def)

lemma bump_Some: "unat p < 5 \<Longrightarrow> length xs = 5 \<Longrightarrow> bump p xs = Some (xs[unat p := xs ! unat p + 1])"
  by (simp add: bump_def)

lemma Has_less: "Has ps p \<Longrightarrow> unat p < 5"
proof -
  assume "Has ps p"
  then have "Set p \<noteq> 0" by (auto simp: Has_def)
  then have "p \<in> set known_protocols" using Set_unknown by blast
  then show ?thesis by (auto simp: known_protocols_def protocol_defs)
qed

lemma count_runs:
  assumes "engine_ok e" "unat p < 5"
  shows "runs (count_dropped p e) (\<lambda>e'. shuffled e e' \<and> en_queues e' = en_queues e \<and> en_freePackets e' = en_freePackets e)"
    "runs (count_routed p e) (\<lambda>e'. shuffled e e' \<and> en_queues e' = en_queues e \<and> en_freePackets e' = en_freePackets e)"
proof -
  have c: "counters_ok (en_counters e)" using assms(1) by (simp add: engine_ok_def)
  show "runs (count_dropped p e) (\<lambda>e'. shuffled e e' \<and> en_queues e' = en_queues e \<and> en_freePackets e' = en_freePackets e)"
    "runs (count_routed p e) (\<lambda>e'. shuffled e e' \<and> en_queues e' = en_queues e \<and> en_freePackets e' = en_freePackets e)"
    using assms(2) c shuffled_counters [OF assms(1)] by (simp_all add: count_dropped_def count_routed_def wp bump_Some counters_ok_def)
qed

text \<open>Releasing a slot never blocks while fewer than all slots are free.\<close>

lemma releasePacket_runs:
  assumes "engine_ok e" "length (ch_items (en_freePackets e)) < ch_cap (en_freePackets e)"
    and "slot_ok (nat (cfg_MaxFrameSize (en_cfg e))) slot"
  shows "runs (releasePacket slot e) (\<lambda>e'. engine_ok e' \<and> en_cfg e' = en_cfg e \<and> en_state e' = en_state e \<and>
    en_decoded e' = en_decoded e \<and> en_queues e' = en_queues e \<and> ch_cap (en_freePackets e') = ch_cap (en_freePackets e) \<and>
    length (ch_items (en_freePackets e')) = length (ch_items (en_freePackets e)) + 1)"
proof -
  have "slot_ok m (slot\<lparr>sl_len := length (sl_buf slot), sl_meta := zero_meta\<rparr>)" if "slot_ok m slot" for m
    using that by (simp add: slot_ok_def meta_ok_def zero_meta_def)
  then show ?thesis
    using assms by (auto simp: releasePacket_def send_def wp engine_ok_def)
qed

lemma enqueue_runs:
  assumes e: "engine_ok e" and p: "Has (cfg_Protocols (en_cfg e)) p" and m: "meta_ok meta"
    and o: "\<forall>q \<in> set (en_queues e). \<forall>c. q = Some c \<longrightarrow> \<not> ch_closed c"
  shows "runs (enqueue p payload meta e) (shuffled e)"
proof -
  note u = Has_less [OF p]
  let ?m = "nat (cfg_MaxFrameSize (en_cfg e))"
  have E: "length (en_queues e) = 5" "(en_queues e ! unat p \<noteq> None) = Has (cfg_Protocols (en_cfg e)) (of_nat (unat p))"
    using e u by (simp_all add: engine_ok_def)
  obtain c where c: "en_queues e ! unat p = Some c" "\<not> ch_closed c"
    using E(2) p o nth_mem [of "unat p" "en_queues e"] E(1) u by fastforce
  have drop: "runs (count_dropped p e) (shuffled e)"
    by (rule runs_mono [OF count_runs(1) [OF e u]]) simp
  show ?thesis
  proof (cases "int (length payload) > cfg_MaxFrameSize (en_cfg e)")
    case True
    then show ?thesis using drop by (simp add: enqueue_def)
  next
    case False
    then have len: "length payload \<le> ?m" by simp
    show ?thesis
    proof (cases "ch_items (en_freePackets e)")
      case Nil
      then show ?thesis using False drop by (simp add: enqueue_def try_recv_def)
    next
      case (Cons slot rest)
      define free where "free = (en_freePackets e)\<lparr>ch_items := rest\<rparr>"
      define slot' where "slot' = slot\<lparr>sl_len := length payload, sl_buf := payload @ drop (length payload) (sl_buf slot),
        sl_meta := meta\<lparr>meta_protocol := p\<rparr>\<rparr>"
      have s: "slot_ok ?m slot" using e Cons by (simp add: engine_ok_def)
      then have s': "slot_ok ?m slot'" using len m by (simp add: slot_ok_def slot'_def meta_ok_def)
      have fill: "fill_slot payload (meta\<lparr>meta_protocol := p\<rparr>) slot = Some slot'"
        using s len by (simp add: fill_slot_def slot'_def slot_ok_def)
      have e1: "engine_ok (e\<lparr>en_freePackets := free\<rparr>)" using e Cons by (simp add: engine_ok_def free_def)
      show ?thesis
      proof (cases "length (ch_items c) \<ge> ch_cap c")
        case True
        define f where "f = e\<lparr>en_freePackets := free, en_queues := (en_queues e)[unat p := Some c]\<rparr>"
        have same: "(en_queues e)[unat p := Some c] = en_queues e" using c(1) by (metis list_update_id)
        have f: "engine_ok f" using e1 unfolding f_def same by (simp add: engine_ok_def)
        have "runs (do { e \<leftarrow> count_dropped p f; releasePacket slot' e }) (shuffled e)"
        proof -
          from runs_exD [OF count_runs(1) [OF f u]] obtain g where
            g: "count_dropped p f = Some g" "shuffled f g" "en_queues g = en_queues f" "en_freePackets g = en_freePackets f" by auto
          have G: "engine_ok g" "en_cfg g = en_cfg e" "en_state g = en_state e" "en_decoded g = en_decoded e"
            using g(2) by (simp_all add: shuffled_def f_def)
          have "length (ch_items (en_freePackets g)) < ch_cap (en_freePackets g)"
            using e Cons by (simp add: g(4) f_def free_def engine_ok_def)
          then have "runs (releasePacket slot' g) (shuffled e)"
            using s' G
            by (intro runs_mono [OF releasePacket_runs]) (auto simp: shuffled_def g(3,4) f_def same free_def Cons queued_def)
          then show ?thesis using g(1) by (simp add: wp)
        qed
        then show ?thesis
          using False Cons fill E(1) c u True by (simp add: enqueue_def try_recv_def try_send_def f_def free_def)
      next
        case False': False
        define c' where "c' = c\<lparr>ch_items := ch_items c @ [slot']\<rparr>"
        define f where "f = e\<lparr>en_freePackets := free, en_queues := (en_queues e)[unat p := Some c']\<rparr>"
        have f: "engine_ok f"
        proof -
          have "(\<forall>q < 5. ((en_queues f ! q \<noteq> None) = Has (cfg_Protocols (en_cfg e)) (of_nat q)))"
          proof (intro allI impI)
            fix q :: nat
            assume q: "q < 5"
            have h: "(en_queues e ! q \<noteq> None) = Has (cfg_Protocols (en_cfg e)) (of_nat q)" using e q by (simp add: engine_ok_def)
            show "(en_queues f ! q \<noteq> None) = Has (cfg_Protocols (en_cfg e)) (of_nat q)"
              using h q E(1) c(1) by (cases "q = unat p") (simp_all add: f_def)
          qed
          moreover have "slot_ok ?m x" if "q < 5" "x \<in> set (queue_items (en_queues f ! q))" for q x
          proof (cases "q = unat p")
            case True
            then have "x = slot' \<or> x \<in> set (queue_items (en_queues e ! unat p))"
              using that E(1) c(1) u by (auto simp: f_def c'_def queue_items_def)
            then show ?thesis using s' e u by (auto simp: engine_ok_def)
          next
            case False
            then have "x \<in> set (queue_items (en_queues e ! q))" using that by (simp add: f_def)
            then show ?thesis using e that(1) by (simp add: engine_ok_def)
          qed
          ultimately show ?thesis using e1 by (simp add: engine_ok_def f_def)
        qed
        have q: "queued f = queued e + 1"
        proof -
          have "map (\<lambda>q. length (queue_items q)) (en_queues f) =
              (map (\<lambda>q. length (queue_items q)) (en_queues e))[unat p := length (queue_items (en_queues e ! unat p)) + 1]"
            using c(1) by (simp add: f_def map_update c'_def queue_items_def)
          then show ?thesis
            using E(1) u elem_le_sum_list [of "unat p" "map (\<lambda>q. length (queue_items q)) (en_queues e)"]
            by (simp add: queued_def sum_list_update)
        qed
        have cl: "map (map_option ch_closed) (en_queues f) = map (map_option ch_closed) (en_queues e)"
          using c(1) E(1) u by (auto simp: f_def map_update c'_def intro!: list_update_same_conv [THEN iffD2])
        have "runs (count_routed p f) (shuffled e)"
          by (rule runs_mono [OF count_runs(2) [OF f u]])
            (use q cl Cons in \<open>auto simp: shuffled_def f_def free_def queued_def\<close>)
        then show ?thesis
          using False Cons fill E(1) c u False' by (simp add: enqueue_def try_recv_def try_send_def f_def free_def c'_def)
      qed
    qed
  qed
qed

definition open_queues :: "Engine \<Rightarrow> bool" where
  "open_queues e = (\<forall>q \<in> set (en_queues e). \<forall>c. q = Some c \<longrightarrow> \<not> ch_closed c)"

lemma DecodeEthernetFrame_Some:
  "\<exists>st f. DecodeEthernetFrame b (Some g) = Some (st, Some f) \<and> vlans_ok f"
  using decode_ethernet_runs [of clean_status b g, THEN runs_exD]
  by (auto simp: DecodeEthernetFrame_def)

lemma DecodeUDP_Some: "\<exists>st u. DecodeUDP (Some f) (Some g) = Some (st, Some u)"
  using decode_udp_runs [of clean_status f "UDPPacket_Reset g", THEN runs_exD] by (auto simp: DecodeUDP_def)

lemma route_udp_runs:
  assumes "engine_ok e" "meta_ok meta" "open_queues e"
  shows "runs (route_udp meta frame e) (shuffled e)"
proof -
  have enq: "runs (enqueue p payload (meta\<lparr>meta_sourceIP := a, meta_protocol := p\<rparr>) e) (shuffled e)"
    if "Has (cfg_Protocols (en_cfg e)) p" for p payload a
    by (rule enqueue_runs [OF assms(1) that]) (use assms(2,3) in \<open>simp_all add: open_queues_def meta_ok_def\<close>)
  obtain st u where "DecodeUDP (Some frame) (Some zero_udp) = Some (st, Some u)" using DecodeUDP_Some by blast
  then show ?thesis using enq shuffled_refl [OF assms(1)] by (simp add: route_udp_def wp Let_def)
qed

lemma routeCapture_runs:
  assumes e: "engine_ok e" and o: "open_queues e"
  shows "runs (routeCapture clock view e) (shuffled e)"
proof -
  define f where "f = e\<lparr>en_counters := (en_counters e)\<lparr>ec_captured := ec_captured (en_counters e) + 1\<rparr>\<rparr>"
  have c: "shuffled e f" unfolding f_def
    by (rule shuffled_counters [OF e]) (use e in \<open>simp add: engine_ok_def counters_ok_def\<close>)
  have f: "engine_ok f" "open_queues f" "en_cfg f = en_cfg e"
    using c o by (simp_all add: shuffled_def open_queues_def f_def)
  have lift: "runs m (shuffled e)" if "runs m (shuffled f)" for m
    by (rule runs_mono [OF that]) (rule shuffled_trans [OF c])
  have z: "meta_ok (zero_meta\<lparr>meta_protocol := p, meta_interfaceName := n, meta_interfaceIndex := i, meta_timestamp := t, meta_sourceIP := a\<rparr>)"
    for p n i t a by (simp add: meta_ok_def zero_meta_def)
  have enq: "runs (enqueue p payload m f) (shuffled f)" if "Has (cfg_Protocols (en_cfg e)) p" "meta_ok m" for p payload m
    by (rule enqueue_runs [OF f(1) _ that(2)]) (use that(1) f(2,3) in \<open>simp_all add: open_queues_def\<close>)
  obtain st fr where fr: "DecodeEthernetFrame (cv_data view) (Some zero_frame) = Some (st, Some fr)" "vlans_ok fr"
    using DecodeEthernetFrame_Some by blast
  have m: "meta_ok (zero_meta\<lparr>meta_interfaceName := n, meta_interfaceIndex := i, meta_timestamp := t, meta_sourceMAC := s,
      meta_vlans := eth_VLANs fr, meta_vlanCount := eth_VLANCount fr\<rparr>)" for n i t s
    using fr(2) by (simp add: meta_ok_def vlans_ok_def)
  have m': "meta_ok (zero_meta\<lparr>meta_interfaceName := n, meta_interfaceIndex := i, meta_timestamp := t, meta_sourceMAC := s,
      meta_vlans := eth_VLANs fr, meta_vlanCount := eth_VLANCount fr, meta_protocol := p\<rparr>)" for p n i t s
    using fr(2) by (simp add: meta_ok_def vlans_ok_def)
  have "runs (routeCapture clock view e) (shuffled f)"
    unfolding routeCapture_def Let_def f_def [symmetric]
    using enq z m m' shuffled_refl [OF f(1)] route_udp_runs [OF f(1) m f(2)] fr(1) f(3)
    by (auto simp: wp f_def [symmetric])
  then show ?thesis by (rule lift)
qed

section \<open>Decoding a slot\<close>

lemma decode_slot_runs:
  assumes "slot_ok m slot" "p \<in> set known_protocols"
  shows "runs (decode_slot p slot v) (\<lambda>(env, v'). env_protocol env = p \<and> env_meta env = sl_meta slot \<and> envelope_ok env)"
proof -
  obtain st l where l: "DecodeLLDPDU (slot_data slot) (Some (wv_lldp v)) = Some (st, Some l)" using lldp.decode_total by blast
  obtain st' c where c: "DecodeCDP (slot_data slot) (Some (wv_cdp v)) = Some (st', Some c)" using cdp_decoder.decode_total by blast
  obtain st'' n where n: "DecodeMNDP (slot_data slot) (Some (wv_mndp v)) = Some (st'', Some n)" using mndp_decoder.decode_total by blast
  obtain st3 d where d: "DecodeMDNS (slot_data slot) (Some (wv_mdns v)) = Some (st3, Some d)" using mdns.decode_total by blast
  have "meta_ok (sl_meta slot)" using assms(1) by (simp add: slot_ok_def)
  then show ?thesis
    using assms(2) l c n d by (auto simp: decode_slot_def wp Let_def envelope_ok_def known_protocols_def protocol_defs)
qed

lemma count_decoded_runs:
  assumes "engine_ok e" "unat p < 5"
  shows "runs (count_decoded p st e) (\<lambda>(b, e'). shuffled e e' \<and> en_queues e' = en_queues e \<and> en_freePackets e' = en_freePackets e)"
proof -
  have c: "counters_ok (en_counters e)" using assms(1) by (simp add: engine_ok_def)
  show ?thesis
    using assms(2) c shuffled_counters [OF assms(1)] shuffled_refl [OF assms(1)]
    by (auto simp: count_decoded_def wp bump_Some counters_ok_def Let_def)
qed

lemma known_nat: "p \<in> set protocol_range \<Longrightarrow> of_nat p \<in> set known_protocols \<and> unat (of_nat p :: Protocol) = p \<and> p < 5"
  by (auto simp: protocol_range_eq known_protocols_def protocol_defs)

section \<open>The invariant of a run\<close>

definition held_slots :: "worker \<Rightarrow> packetSlot list" where
  "held_slots w = (case wk_phase w of Sending slot env \<Rightarrow> [slot] | Waiting slot \<Rightarrow> [slot] | _ \<Rightarrow> [])"

definition held :: "worker list \<Rightarrow> nat" where
  "held ws = (\<Sum>w\<leftarrow>ws. length (held_slots w))"

text \<open>The envelopes of worker \<open>p\<close> that wait for the fusion loop.\<close>

definition pend :: "decodedEnvelope list \<Rightarrow> nat \<Rightarrow> nat" where
  "pend ds p = length (filter (\<lambda>env. unat (env_protocol env) = p) ds)"

definition sent_ok :: "decodedEnvelope \<Rightarrow> bool" where
  "sent_ok env = (envelope_ok env \<and> env_protocol env \<in> set known_protocols)"

definition worker_ok :: "nat \<Rightarrow> packetSlot chan option \<Rightarrow> nat \<Rightarrow> nat \<Rightarrow> worker \<Rightarrow> bool" where
  "worker_ok m q n p w =
     (ch_cap (wk_ack w) = 1 \<and> \<not> ch_closed (wk_ack w) \<and> (\<forall>slot \<in> set (held_slots w). slot_ok m slot) \<and>
      n + length (ch_items (wk_ack w)) = (case wk_phase w of Waiting slot \<Rightarrow> 1 | _ \<Rightarrow> 0) \<and>
      (case wk_phase w of
         Stopped \<Rightarrow> (case q of None \<Rightarrow> True | Some c \<Rightarrow> ch_closed c \<and> ch_items c = [])
       | Sending slot env \<Rightarrow> q \<noteq> None \<and> sent_ok env \<and> unat (env_protocol env) = p
       | _ \<Rightarrow> q \<noteq> None))"

definition run_inv :: "system \<Rightarrow> bool" where
  "run_inv s =
     (let e = sy_engine s; ds = ch_items (en_decoded e)
      in engine_ok e \<and> length (sy_workers s) = 5 \<and>
         (\<forall>p < 5. worker_ok (nat (cfg_MaxFrameSize (en_cfg e))) (en_queues e ! p) (pend ds p) p (sy_workers s ! p)) \<and>
         (\<forall>env \<in> set ds. sent_ok env) \<and> ch_cap (en_decoded e) = 8 \<and>
         length (ch_items (en_freePackets e)) + queued e + held (sy_workers s) = ch_cap (en_freePackets e) \<and>
         (\<forall>p < 5. \<forall>c. en_queues e ! p = Some c \<longrightarrow> ch_closed c = (sy_phase s \<notin> {Capturing, Cancelled})) \<and>
         ch_closed (en_decoded e) = (sy_phase s \<in> {Finishing, Finished}) \<and>
         (sy_phase s \<in> {Finishing, Finished} \<longrightarrow> (\<forall>w \<in> set (sy_workers s). wk_phase w = Stopped)))"

lemma run_invD:
  assumes "run_inv s"
  shows "engine_ok (sy_engine s)" "length (sy_workers s) = 5"
    "p < 5 \<Longrightarrow> worker_ok (nat (cfg_MaxFrameSize (en_cfg (sy_engine s)))) (en_queues (sy_engine s) ! p)
       (pend (ch_items (en_decoded (sy_engine s))) p) p (sy_workers s ! p)"
    "env \<in> set (ch_items (en_decoded (sy_engine s))) \<Longrightarrow> sent_ok env" "ch_cap (en_decoded (sy_engine s)) = 8"
    "length (ch_items (en_freePackets (sy_engine s))) + queued (sy_engine s) + held (sy_workers s) =
       ch_cap (en_freePackets (sy_engine s))"
    "p < 5 \<Longrightarrow> en_queues (sy_engine s) ! p = Some c \<Longrightarrow> ch_closed c = (sy_phase s \<notin> {Capturing, Cancelled})"
    "ch_closed (en_decoded (sy_engine s)) = (sy_phase s \<in> {Finishing, Finished})"
    "sy_phase s \<in> {Finishing, Finished} \<Longrightarrow> w \<in> set (sy_workers s) \<Longrightarrow> wk_phase w = Stopped"
    "length (en_queues (sy_engine s)) = 5"
  using assms by (simp_all add: run_inv_def Let_def engine_ok_def)

lemma known_unat: "p \<in> set known_protocols \<Longrightarrow> unat p \<in> {1, 2, 3, 4}"
  by (auto simp: known_protocols_def protocol_defs)

text \<open>At most one envelope of every worker waits, so the channel of envelopes always has room.\<close>

lemma pend_length:
  "\<forall>env \<in> set ds. sent_ok env \<Longrightarrow> length ds = pend ds 1 + pend ds 2 + pend ds 3 + pend ds 4"
proof (induction ds)
  case (Cons d ds)
  then have "unat (env_protocol d) \<in> {1, 2, 3, 4}" using known_unat by (simp add: sent_ok_def)
  with Cons show ?case by (auto simp: pend_def)
qed (simp add: pend_def)

lemma worker_pend: "worker_ok m q n p w \<Longrightarrow> n \<le> 1"
  by (auto simp: worker_ok_def split: worker_phase.splits)

lemma decoded_bound:
  assumes "run_inv s"
  shows "length (ch_items (en_decoded (sy_engine s))) \<le> 4"
proof -
  let ?ds = "ch_items (en_decoded (sy_engine s))"
  have "pend ?ds p \<le> 1" if "p < 5" for p using worker_pend [OF run_invD(3) [OF assms that]] .
  from this [of 1] this [of 2] this [of 3] this [of 4] show ?thesis
    using pend_length [of ?ds] run_invD(4) [OF assms] by force
qed

text \<open>A sum over a list of which one element changes.\<close>

lemma sum_updated:
  fixes f :: "'a \<Rightarrow> nat"
  assumes "p < length xs"
  shows "(\<Sum>x\<leftarrow>xs[p := y]. f x) + f (xs ! p) = (\<Sum>x\<leftarrow>xs. f x) + f y"
  using assms elem_le_sum_list [of p "map f xs"] by (simp add: map_update sum_list_update)

lemma held_update:
  "p < length ws \<Longrightarrow> held (ws[p := w]) + length (held_slots (ws ! p)) = held ws + length (held_slots w)"
  unfolding held_def by (rule sum_updated)

lemma queued_update:
  "p < length (en_queues e) \<Longrightarrow>
     queued (e\<lparr>en_queues := (en_queues e)[p := q]\<rparr>) + length (queue_items (en_queues e ! p)) = queued e + length (queue_items q)"
  using sum_updated [of p "en_queues e" "\<lambda>q. length (queue_items q)" q] by (simp add: queued_def)

text \<open>The start.\<close>

lemma start_inv:
  assumes "engine_ok e" "queued e = 0" "length (ch_items (en_freePackets e)) = ch_cap (en_freePackets e)"
    and "\<forall>q \<in> set (en_queues e). \<forall>c. q = Some c \<longrightarrow> \<not> ch_closed c" "en_decoded e = make_chan 8"
  shows "run_inv (start_system handler e)"
proof -
  have l: "length (en_queues e) = 5" using assms(1) by (simp add: engine_ok_def)
  have "held (sy_workers (start_system handler e)) = 0"
    by (auto simp: held_def start_system_def held_slots_def o_def sum_list_eq_0_iff split: option.splits)
  moreover have "worker_ok m (en_queues e ! p) 0 p (sy_workers (start_system handler e) ! p)" if "p < 5" for p m
    using that l by (auto simp: worker_ok_def start_system_def held_slots_def make_chan_def split: option.splits)
  moreover have "\<not> ch_closed c" if "p < 5" "en_queues e ! p = Some c" for p c
    using assms(4) nth_mem [of p "en_queues e"] that l by auto
  ultimately show ?thesis
    using assms l by (auto simp: run_inv_def Let_def start_system_def pend_def make_chan_def)
qed


section \<open>The steps keep the invariant\<close>

text \<open>A step that changes worker \<open>p\<close> and its queue only.\<close>

lemma worker_step:
  assumes inv: "run_inv s" and p: "p < 5" "sy_phase s \<notin> {Finishing, Finished}"
    and s': "sy_phase s' = sy_phase s" "sy_workers s' = (sy_workers s)[p := w]"
    and e': "engine_ok (sy_engine s')" "en_cfg (sy_engine s') = en_cfg (sy_engine s)"
      "ch_cap (en_decoded (sy_engine s')) = 8" "ch_closed (en_decoded (sy_engine s')) = ch_closed (en_decoded (sy_engine s))"
      "map (map_option ch_closed) (en_queues (sy_engine s')) = map (map_option ch_closed) (en_queues (sy_engine s))"
      "\<And>q. q < 5 \<Longrightarrow> q \<noteq> p \<Longrightarrow> en_queues (sy_engine s') ! q = en_queues (sy_engine s) ! q"
      "\<And>q. q \<noteq> p \<Longrightarrow> pend (ch_items (en_decoded (sy_engine s'))) q = pend (ch_items (en_decoded (sy_engine s))) q"
      "\<forall>env \<in> set (ch_items (en_decoded (sy_engine s'))). sent_ok env"
    and w: "worker_ok (nat (cfg_MaxFrameSize (en_cfg (sy_engine s)))) (en_queues (sy_engine s') ! p)
       (pend (ch_items (en_decoded (sy_engine s'))) p) p w"
    and k: "length (ch_items (en_freePackets (sy_engine s'))) + queued (sy_engine s') + held ((sy_workers s)[p := w]) =
       ch_cap (en_freePackets (sy_engine s'))"
  shows "run_inv s'"
proof -
  note I = run_invD [OF inv]
  have "worker_ok (nat (cfg_MaxFrameSize (en_cfg (sy_engine s)))) (en_queues (sy_engine s') ! q)
      (pend (ch_items (en_decoded (sy_engine s'))) q) q (sy_workers s' ! q)" if "q < 5" for q
    using I(2,3) that w e'(6,7) s'(2) p(1) by (cases "q = p") auto
  moreover have "ch_closed c = (sy_phase s' \<notin> {Capturing, Cancelled})"
    if q: "q < 5" "en_queues (sy_engine s') ! q = Some c" for q c
  proof -
    have l: "length (en_queues (sy_engine s')) = 5" using e'(1) by (simp add: engine_ok_def)
    have "map (map_option ch_closed) (en_queues (sy_engine s')) ! q = map (map_option ch_closed) (en_queues (sy_engine s)) ! q"
      using e'(5) by simp
    then have "map_option ch_closed (en_queues (sy_engine s) ! q) = Some (ch_closed c)"
      using q l I(10) by simp
    then obtain d where "en_queues (sy_engine s) ! q = Some d" "ch_closed d = ch_closed c" by auto
    then show ?thesis using I(7) [OF q(1)] s'(1) by simp
  qed
  moreover have "ch_closed (en_decoded (sy_engine s')) = (sy_phase s' \<in> {Finishing, Finished})"
    using e'(4) I(8) s'(1) by simp
  ultimately show ?thesis
    using e'(1-3,8) k I(2) s' p(2) by (simp add: run_inv_def Let_def)
qed

lemma not_finished:
  assumes "run_inv s" "p < 5" "wk_phase (sy_workers s ! p) \<noteq> Stopped"
  shows "sy_phase s \<notin> {Finishing, Finished}"
  using run_invD(9) [OF assms(1), of "sy_workers s ! p"] run_invD(2) [OF assms(1)] assms(2,3) nth_mem by fastforce

lemma capture_step:
  assumes inv: "run_inv s" and en: "enabled (Capture clock view) s"
  shows "runs (do_capture clock view s) run_inv"
proof -
  note I = run_invD [OF inv]
  let ?e = "sy_engine s"
  have ph: "sy_phase s \<in> {Capturing, Cancelled}" using en by (auto simp: enabled_def)
  have "open_queues ?e"
    unfolding open_queues_def
  proof (intro ballI allI impI)
    fix q c
    assume "q \<in> set (en_queues ?e)" "q = Some c"
    then obtain p where "p < 5" "en_queues ?e ! p = Some c" using I(10) by (metis in_set_conv_nth)
    then show "\<not> ch_closed c" using I(7) ph by simp
  qed
  from runs_exD [OF routeCapture_runs [OF I(1) this, of clock view]] obtain f where
    f: "routeCapture clock view ?e = Some f" "shuffled ?e f" by blast
  let ?s = "s\<lparr>sy_engine := f\<rparr>"
  have F: "engine_ok f" "en_cfg f = en_cfg ?e" "en_decoded f = en_decoded ?e" "ch_cap (en_freePackets f) = ch_cap (en_freePackets ?e)"
    "map (map_option ch_closed) (en_queues f) = map (map_option ch_closed) (en_queues ?e)"
    "length (ch_items (en_freePackets f)) + queued f = length (ch_items (en_freePackets ?e)) + queued ?e"
    using f(2) by (simp_all add: shuffled_def)
  have q: "map_option ch_closed (en_queues f ! p) = map_option ch_closed (en_queues ?e ! p)" if "p < 5" for p
  proof -
    have "length (en_queues f) = 5" using F(1) by (simp add: engine_ok_def)
    then have "map_option ch_closed (en_queues f ! p) = map (map_option ch_closed) (en_queues f) ! p" using that by simp
    then show ?thesis using F(5) I(10) that by simp
  qed
  have cl: "ch_closed c = (sy_phase s \<notin> {Capturing, Cancelled})" if c: "p < 5" "en_queues f ! p = Some c" for p c
  proof -
    obtain d where "en_queues ?e ! p = Some d" "ch_closed d = ch_closed c"
      using q [OF c(1)] c(2) by (cases "en_queues ?e ! p") auto
    then show ?thesis using I(7) [OF c(1)] by simp
  qed
  have "worker_ok m (en_queues f ! p) n p w" if "worker_ok m (en_queues ?e ! p) n p w" "p < 5" for m n p w
  proof -
    have none: "(en_queues f ! p = None) = (en_queues ?e ! p = None)" using q [OF that(2)] by (metis map_option_is_None)
    have "en_queues ?e ! p = None" if "wk_phase w = Stopped"
      using \<open>worker_ok m (en_queues ?e ! p) n p w\<close> that I(7) [OF \<open>p < 5\<close>] ph by (auto simp: worker_ok_def split: option.splits)
    then show ?thesis using that(1) none by (auto simp: worker_ok_def split: worker_phase.splits)
  qed
  then have "run_inv ?s"
    using I F cl by (simp add: run_inv_def Let_def)
  then show ?thesis using f(1) by (simp add: do_capture_def wp)
qed


lemma phase_of_Some: "phase_of s p \<noteq> Stopped \<Longrightarrow> p < length (sy_workers s) \<and> phase_of s p = wk_phase (sy_workers s ! p)"
  by (auto simp: phase_of_def split: if_splits)

lemma queue_index:
  assumes "run_inv s" "p < 5" "en_queues (sy_engine s) ! p \<noteq> None"
  shows "of_nat p \<in> set known_protocols" "unat (of_nat p :: Protocol) = p"
proof -
  have "Has (cfg_Protocols (en_cfg (sy_engine s))) (of_nat p)"
    using run_invD(1) [OF assms(1)] assms(2,3) by (simp add: engine_ok_def)
  then have "Set (of_nat p) \<noteq> 0" by (auto simp: Has_def)
  then show "of_nat p \<in> set known_protocols" using Set_unknown by blast
  show "unat (of_nat p :: Protocol) = p" using assms(2) by (simp add: unat_of_nat)
qed

lemma take_step:
  assumes inv: "run_inv s" and en: "enabled (Take p) s"
  shows "runs (do_take p s) run_inv"
proof -
  note I = run_invD [OF inv]
  let ?e = "sy_engine s" and ?w = "sy_workers s ! p" and ?m = "nat (cfg_MaxFrameSize (en_cfg (sy_engine s)))"
  have p: "p < 5" "wk_phase ?w = Idle" using en phase_of_Some [of s p] I(2) by (auto simp: enabled_def)
  obtain c slot rest where c: "en_queues ?e ! p = Some c" "ch_items c = slot # rest"
    using en p(1) I(10) by (auto simp: enabled_def queue_of_def neq_Nil_conv split: option.splits)
  have known: "of_nat p \<in> set known_protocols" "unat (of_nat p :: Protocol) = p" using queue_index [OF inv p(1)] c(1) by simp_all
  define c' where "c' = c\<lparr>ch_items := rest\<rparr>"
  define e1 where "e1 = ?e\<lparr>en_queues := (en_queues ?e)[p := Some c']\<rparr>"
  have slot: "slot_ok ?m slot" "\<forall>x \<in> set rest. slot_ok ?m x"
    using I(1) p(1) c unfolding engine_ok_def by (force simp: queue_items_def)+
  have q1: "en_queues e1 ! p = Some c'" "\<And>q. q \<noteq> p \<Longrightarrow> en_queues e1 ! q = en_queues ?e ! q" "length (en_queues e1) = 5"
    using p(1) I(10) by (simp_all add: e1_def)
  have e1: "engine_ok e1"
  proof -
    have "(en_queues e1 ! q \<noteq> None) = Has (cfg_Protocols (en_cfg ?e)) (of_nat q)" if "q < 5" for q
      using I(1) that q1 c(1) by (cases "q = p") (auto simp: engine_ok_def)
    moreover have "slot_ok ?m x" if "q < 5" "x \<in> set (queue_items (en_queues e1 ! q))" for q x
      using I(1) that q1 slot(2) by (cases "q = p") (auto simp: engine_ok_def queue_items_def c'_def)
    ultimately show ?thesis using I(1) q1(3) by (simp add: engine_ok_def e1_def)
  qed
  have qd: "queued e1 + 1 = queued ?e"
    using queued_update [of p ?e "Some c'"] p(1) I(10) c by (simp add: e1_def queue_items_def c'_def)
  have cl1: "map (map_option ch_closed) (en_queues e1) = map (map_option ch_closed) (en_queues ?e)"
    using c(1) I(10) p(1) by (auto simp: e1_def map_update c'_def intro!: list_update_same_conv [THEN iffD2])
  from runs_exD [OF decode_slot_runs [OF slot(1) known(1), of "wk_vars ?w"]] obtain env vars where
    d: "decode_slot (of_nat p) slot (wk_vars ?w) = Some (env, vars)" "env_protocol env = of_nat p" "envelope_ok env" by auto
  from runs_exD [OF count_decoded_runs [OF e1, of "of_nat p" "env_status env"]] known(2) p(1) obtain b e2 where
    b: "count_decoded (of_nat p) (env_status env) e1 = Some (b, e2)" "shuffled e1 e2" "en_queues e2 = en_queues e1"
      "en_freePackets e2 = en_freePackets e1" by auto
  have E2: "engine_ok e2" "en_cfg e2 = en_cfg ?e" "en_decoded e2 = en_decoded ?e" "queued e2 = queued e1"
    using b(2,3) by (simp_all add: shuffled_def e1_def queued_def)
  have nf: "sy_phase s \<notin> {Finishing, Finished}" using not_finished [OF inv p(1)] p(2) by simp
  have W: "ch_cap (wk_ack ?w) = 1" "\<not> ch_closed (wk_ack ?w)" "pend (ch_items (en_decoded ?e)) p = 0" "ch_items (wk_ack ?w) = []"
    using I(3) [OF p(1)] p(2) by (auto simp: worker_ok_def)
  have h0: "held_slots ?w = []" using p(2) by (simp add: held_slots_def)
  show ?thesis
  proof (cases b)
    case True
    define w where "w = ?w\<lparr>wk_vars := vars, wk_phase := Sending slot env\<rparr>"
    define t where "t = s\<lparr>sy_engine := e2, sy_workers := (sy_workers s)[p := w]\<rparr>"
    have "held ((sy_workers s)[p := w]) = held (sy_workers s) + 1"
      using held_update [of p "sy_workers s" w] p(1) I(2) h0 by (simp add: w_def held_slots_def)
    then have "run_inv t"
      by (intro worker_step [OF inv p(1) nf, where w = w])
        (use E2 b(3,4) q1 cl1 qd W I(4-6) d(2,3) slot(1) known in
          \<open>simp_all add: t_def e1_def worker_ok_def w_def held_slots_def sent_ok_def\<close>)
    moreover have "do_take p s = Some t"
      using c d(1) b(1) True p(1) I(2,10) by (simp add: do_take_def e1_def c'_def t_def w_def Let_def)
    ultimately show ?thesis by (simp add: wp)
  next
    case False
    have "length (ch_items (en_freePackets e2)) < ch_cap (en_freePackets e2)"
      using I(6) qd b(4) by (simp add: e1_def)
    from runs_exD [OF releasePacket_runs [OF E2(1) this]] slot(1) E2(2) obtain e3 where
      r: "releasePacket slot e2 = Some e3" "engine_ok e3" "en_cfg e3 = en_cfg e2" "en_decoded e3 = en_decoded e2" "en_queues e3 = en_queues e2"
        "ch_cap (en_freePackets e3) = ch_cap (en_freePackets e2)"
        "length (ch_items (en_freePackets e3)) = length (ch_items (en_freePackets e2)) + 1" by auto
    define w where "w = ?w\<lparr>wk_vars := vars, wk_phase := Idle\<rparr>"
    define t where "t = s\<lparr>sy_engine := e3, sy_workers := (sy_workers s)[p := w]\<rparr>"
    have "held ((sy_workers s)[p := w]) = held (sy_workers s)"
      using held_update [of p "sy_workers s" w] p(1) I(2) h0 by (simp add: w_def held_slots_def)
    moreover have "queued e3 = queued e1" using r(5) b(3) by (simp add: queued_def)
    ultimately have "run_inv t"
      by (intro worker_step [OF inv p(1) nf, where w = w])
        (use E2 r b(3,4) q1 cl1 qd W I(4-6) in \<open>simp_all add: t_def e1_def worker_ok_def w_def held_slots_def\<close>)
    moreover have "do_take p s = Some t"
      using c d(1) b(1) False p(1) I(2,10) r(1) by (simp add: do_take_def e1_def c'_def t_def w_def Let_def)
    ultimately show ?thesis by (simp add: wp)
  qed
qed

text \<open>Sending an envelope finds room, because every worker waits for one acknowledgement at a time.\<close>

lemma put_step:
  assumes inv: "run_inv s" and en: "enabled (Put p) s"
  shows "runs (do_put p s) run_inv"
proof -
  note I = run_invD [OF inv]
  let ?e = "sy_engine s" and ?w = "sy_workers s ! p"
  obtain slot env where ph: "phase_of s p = Sending slot env" using en by (auto simp: enabled_def split: worker_phase.splits)
  then have p: "p < 5" "wk_phase ?w = Sending slot env" using phase_of_Some [of s p] I(2) by simp_all
  have nf: "sy_phase s \<notin> {Finishing, Finished}" using not_finished [OF inv p(1)] p(2) by simp
  define d where "d = (en_decoded ?e)\<lparr>ch_items := ch_items (en_decoded ?e) @ [env]\<rparr>"
  have d: "send env (en_decoded ?e) = Some d"
    using decoded_bound [OF inv] I(5,8) nf by (simp add: send_def d_def)
  define w where "w = ?w\<lparr>wk_phase := Waiting slot\<rparr>"
  define t where "t = s\<lparr>sy_workers := (sy_workers s)[p := w], sy_engine := ?e\<lparr>en_decoded := d\<rparr>\<rparr>"
  have W: "ch_cap (wk_ack ?w) = 1" "\<not> ch_closed (wk_ack ?w)" "pend (ch_items (en_decoded ?e)) p = 0" "ch_items (wk_ack ?w) = []"
      "slot_ok (nat (cfg_MaxFrameSize (en_cfg ?e))) slot" "en_queues ?e ! p \<noteq> None" "sent_ok env" "unat (env_protocol env) = p"
    using I(3) [OF p(1)] p(2) by (auto simp: worker_ok_def held_slots_def)
  have "held ((sy_workers s)[p := w]) = held (sy_workers s)"
    using held_update [of p "sy_workers s" w] p I(2) by (simp add: w_def held_slots_def)
  then have "run_inv t"
    by (intro worker_step [OF inv p(1) nf, where w = w])
      (use I(1,4-6) W in \<open>auto simp: t_def w_def d_def engine_ok_def queued_def pend_def worker_ok_def held_slots_def\<close>)
  moreover have "do_put p s = Some t"
    using p I(2) d by (simp add: do_put_def set_phase_def t_def w_def)
  ultimately show ?thesis by (simp add: wp)
qed

lemma held_pos:
  assumes "p < length ws" "wk_phase (ws ! p) = Waiting slot"
  shows "1 \<le> held ws"
  using held_update [OF assms(1), of "(ws ! p)\<lparr>wk_phase := Idle\<rparr>"] assms(2) by (simp add: held_slots_def)

text \<open>The free list has room for the slot that comes back.\<close>

lemma ack_step:
  assumes inv: "run_inv s" and en: "enabled (Ack p) s"
  shows "runs (do_ack p s) run_inv"
proof -
  note I = run_invD [OF inv]
  let ?e = "sy_engine s" and ?w = "sy_workers s ! p"
  obtain slot where ph: "phase_of s p = Waiting slot" and a: "ch_items (wk_ack ?w) \<noteq> []"
    using en by (auto simp: enabled_def split: worker_phase.splits)
  then have p: "p < 5" "wk_phase ?w = Waiting slot" using phase_of_Some [of s p] I(2) by simp_all
  have nf: "sy_phase s \<notin> {Finishing, Finished}" using not_finished [OF inv p(1)] p(2) by simp
  obtain u rest where a: "ch_items (wk_ack ?w) = u # rest" using a by (auto simp: neq_Nil_conv)
  have W: "ch_cap (wk_ack ?w) = 1" "\<not> ch_closed (wk_ack ?w)" "pend (ch_items (en_decoded ?e)) p = 0" "rest = []"
      "slot_ok (nat (cfg_MaxFrameSize (en_cfg ?e))) slot" "en_queues ?e ! p \<noteq> None"
    using I(3) [OF p(1)] p(2) a by (auto simp: worker_ok_def held_slots_def)
  have "length (ch_items (en_freePackets ?e)) < ch_cap (en_freePackets ?e)"
    using I(2,6) held_pos [of p "sy_workers s"] p by simp
  from runs_exD [OF releasePacket_runs [OF I(1) this W(5)]] obtain f where
    r: "releasePacket slot ?e = Some f" "engine_ok f" "en_cfg f = en_cfg ?e" "en_decoded f = en_decoded ?e" "en_queues f = en_queues ?e"
      "ch_cap (en_freePackets f) = ch_cap (en_freePackets ?e)"
      "length (ch_items (en_freePackets f)) = length (ch_items (en_freePackets ?e)) + 1" by auto
  define w where "w = ?w\<lparr>wk_phase := Idle, wk_ack := (wk_ack ?w)\<lparr>ch_items := rest\<rparr>\<rparr>"
  define t where "t = s\<lparr>sy_engine := f, sy_workers := (sy_workers s)[p := w]\<rparr>"
  have "held ((sy_workers s)[p := w]) + 1 = held (sy_workers s)"
    using held_update [of p "sy_workers s" w] p I(2) by (simp add: w_def held_slots_def)
  then have "run_inv t"
    by (intro worker_step [OF inv p(1) nf, where w = w])
      (use I(4-6) W r in \<open>simp_all add: t_def w_def worker_ok_def held_slots_def queued_def\<close>)
  moreover have "do_ack p s = Some t"
    using p I(2) a r(1) by (simp add: do_ack_def t_def w_def)
  ultimately show ?thesis by (simp add: wp)
qed

lemma stop_step:
  assumes inv: "run_inv s" and en: "enabled (Stop p) s"
  shows "runs (set_phase p Stopped s) run_inv"
proof -
  note I = run_invD [OF inv]
  let ?e = "sy_engine s" and ?w = "sy_workers s ! p"
  have p: "p < 5" "wk_phase ?w = Idle" using en phase_of_Some [of s p] I(2) by (auto simp: enabled_def)
  obtain c where c: "en_queues ?e ! p = Some c" "ch_closed c" "ch_items c = []"
    using en p(1) I(10) by (auto simp: enabled_def queue_of_def split: option.splits)
  have nf: "sy_phase s \<notin> {Finishing, Finished}" using not_finished [OF inv p(1)] p(2) by simp
  define w where "w = ?w\<lparr>wk_phase := Stopped\<rparr>"
  define t where "t = s\<lparr>sy_workers := (sy_workers s)[p := w]\<rparr>"
  have W: "worker_ok (nat (cfg_MaxFrameSize (en_cfg ?e))) (en_queues ?e ! p) (pend (ch_items (en_decoded ?e)) p) p w"
    using I(3) [OF p(1)] p(2) c by (simp add: worker_ok_def w_def held_slots_def)
  have "held ((sy_workers s)[p := w]) = held (sy_workers s)"
    using held_update [of p "sy_workers s" w] p I(2) by (simp add: w_def held_slots_def)
  then have "run_inv t"
    by (intro worker_step [OF inv p(1) nf, where w = w]) (use I(1,4-6) W in \<open>simp_all add: t_def\<close>)
  moreover have "set_phase p Stopped s = Some t"
    using p(1) I(2) by (simp add: set_phase_def t_def w_def)
  ultimately show ?thesis by (simp add: wp)
qed

text \<open>The delivery of events changes their counter only.\<close>

lemma deliver_same:
  assumes "deliver h xs (e, out) = (e', out')"
  shows "en_cfg e' = en_cfg e" "en_state e' = en_state e" "en_queues e' = en_queues e" "en_freePackets e' = en_freePackets e"
    "en_decoded e' = en_decoded e" "counters_ok (en_counters e) \<Longrightarrow> counters_ok (en_counters e')"
  using assms
  by (induction h xs "(e, out)" arbitrary: e out rule: deliver.induct) (auto simp: counters_ok_def split: if_splits)

lemma deliver_out: "deliver h xs (e, out) = (e', out') \<Longrightarrow> out' = out @ (if h then xs else [])"
  by (induction h xs "(e, out)" arbitrary: e out rule: deliver.induct) (auto split: if_splits)

lemma engine_ok_same:
  assumes "engine_ok e" "en_cfg e' = en_cfg e" "en_queues e' = en_queues e" "en_freePackets e' = en_freePackets e"
    "fusion_inv (en_state e')" "counters_ok (en_counters e')"
  shows "engine_ok e'" "queued e' = queued e"
  using assms by (simp_all add: engine_ok_def queued_def)

lemma pend_Cons: "pend (d # ds) p = pend ds p + (if unat (env_protocol d) = p then 1 else 0)"
  by (simp add: pend_def)

text \<open>The acknowledgement never blocks: only the worker that waits for it has one to come.\<close>

lemma fuse_step:
  assumes inv: "run_inv s" and en: "enabled (Fuse clock) s" and v: "vendor_total vd"
  shows "runs (do_fuse vd clock s) run_inv"
proof -
  note I = run_invD [OF inv]
  let ?e = "sy_engine s"
  obtain env rest where ds: "ch_items (en_decoded ?e) = env # rest" using en by (auto simp: enabled_def neq_Nil_conv)
  define p where "p = unat (env_protocol env)"
  let ?w = "sy_workers s ! p"
  have env: "sent_ok env" "envelope_ok env" using I(4) [of env] ds by (simp_all add: sent_ok_def)
  have p: "p < 5" using env(1) known_unat by (force simp: sent_ok_def p_def)
  define f where "f = ?e\<lparr>en_decoded := (en_decoded ?e)\<lparr>ch_items := rest\<rparr>\<rparr>"
  have fi: "fusion_inv (en_state ?e)" using I(1) by (simp add: engine_ok_def)
  from runs_exD [OF fuse_envelope_runs [OF fi env(2) v, of clock]] obtain st es where
    st: "fuse_envelope vd clock env (en_state ?e) = Some (st, es)" "fusion_inv st" by (auto simp: handled_def)
  define g where "g = updateHighWaterLocked (f\<lparr>en_state := st\<rparr>)"
  obtain h out where h: "deliver (sy_handler s) es (g, sy_delivered s) = (h, out)" by fastforce
  have co: "counters_ok (en_counters g)" using I(1) by (simp add: g_def f_def updateHighWaterLocked_def Let_def engine_ok_def counters_ok_def)
  have G: "en_cfg g = en_cfg ?e" "en_state g = st" "en_queues g = en_queues ?e" "en_freePackets g = en_freePackets ?e"
      "en_decoded g = (en_decoded ?e)\<lparr>ch_items := rest\<rparr>"
    by (simp_all add: g_def f_def updateHighWaterLocked_def Let_def)
  note H = deliver_same(1-5) [OF h] deliver_same(6) [OF h co]
  have ok: "engine_ok h" "queued h = queued ?e" using engine_ok_same [OF I(1), of h] H G st(2) by simp_all
  have one: "1 \<le> pend (ch_items (en_decoded ?e)) p" by (simp add: ds pend_Cons p_def)
  obtain slot where V: "ch_cap (wk_ack ?w) = 1" "\<not> ch_closed (wk_ack ?w)" "wk_phase ?w = Waiting slot"
      "pend (ch_items (en_decoded ?e)) p + length (ch_items (wk_ack ?w)) = 1" "en_queues ?e ! p \<noteq> None"
      "slot_ok (nat (cfg_MaxFrameSize (en_cfg ?e))) slot"
    using I(3) [OF p] one by (auto simp: worker_ok_def held_slots_def split: worker_phase.splits)
  have "length (ch_items (wk_ack ?w)) = 0" "pend (ch_items (en_decoded ?e)) p = 1" using V(4) one by arith+
  then have W: "ch_cap (wk_ack ?w) = 1" "\<not> ch_closed (wk_ack ?w)" "wk_phase ?w = Waiting slot" "ch_items (wk_ack ?w) = []"
      "pend (ch_items (en_decoded ?e)) p = 1" "en_queues ?e ! p \<noteq> None"
      "slot_ok (nat (cfg_MaxFrameSize (en_cfg ?e))) slot"
    using V by simp_all
  have nf: "sy_phase s \<notin> {Finishing, Finished}" using not_finished [OF inv p] W(3) by simp
  have zero: "pend rest p = 0" using W(5) by (simp add: ds pend_Cons p_def)
  define w where "w = ?w\<lparr>wk_ack := (wk_ack ?w)\<lparr>ch_items := [()]\<rparr>\<rparr>"
  define t where "t = s\<lparr>sy_engine := h, sy_workers := (sy_workers s)[p := w], sy_delivered := out\<rparr>"
  have "held ((sy_workers s)[p := w]) = held (sy_workers s)"
    using held_update [of p "sy_workers s" w] p I(2) W(3) by (simp add: w_def held_slots_def)
  moreover have "pend rest q = pend (ch_items (en_decoded ?e)) q" if "q \<noteq> p" for q
    using that by (simp add: ds pend_Cons p_def)
  ultimately have "run_inv t"
    by (intro worker_step [OF inv p nf, where w = w])
      (use I(4-6,8) ds W ok H G zero in \<open>auto simp: t_def w_def worker_ok_def held_slots_def\<close>)
  moreover have "do_fuse vd clock s = Some t"
    using ds st(1) h p I(2) W(1,2,4)
    by (simp add: do_fuse_def t_def w_def send_def g_def f_def p_def [symmetric])
  ultimately show ?thesis by (simp add: wp)
qed

text \<open>A step that changes neither the workers nor the queues.\<close>

lemma engine_step:
  assumes inv: "run_inv s"
    and s': "sy_phase s' = sy_phase s" "sy_workers s' = sy_workers s"
    and e': "en_cfg (sy_engine s') = en_cfg (sy_engine s)" "en_queues (sy_engine s') = en_queues (sy_engine s)"
      "en_freePackets (sy_engine s') = en_freePackets (sy_engine s)" "en_decoded (sy_engine s') = en_decoded (sy_engine s)"
      "fusion_inv (en_state (sy_engine s'))" "counters_ok (en_counters (sy_engine s'))"
  shows "run_inv s'"
  using assms engine_ok_same [OF run_invD(1) [OF inv] e'(1,2,3,5,6)] by (simp add: run_inv_def Let_def)

lemma tick_step:
  assumes inv: "run_inv s"
  shows "runs (do_tick now s) run_inv"
proof -
  note I = run_invD [OF inv]
  let ?e = "sy_engine s"
  have fi: "fusion_inv (en_state ?e)" "counters_ok (en_counters ?e)" using I(1) by (simp_all add: engine_ok_def)
  from runs_exD [OF fuse_tick_runs [OF fi(1), of now]] obtain st es where
    st: "fuse_tick now (en_state ?e) = Some (st, es)" "fusion_inv st" by (auto simp: ticked_def)
  obtain h out where h: "deliver (sy_handler s) es (?e\<lparr>en_state := st\<rparr>, sy_delivered s) = (h, out)" by fastforce
  define t where "t = s\<lparr>sy_engine := h, sy_delivered := out\<rparr>"
  have "run_inv t"
    by (rule engine_step [OF inv]) (use deliver_same [OF h] fi(2) st(2) in \<open>simp_all add: t_def\<close>)
  moreover have "do_tick now s = Some t" using st(1) h by (simp add: do_tick_def t_def)
  ultimately show ?thesis by (simp add: wp)
qed

lemma close_queues_runs:
  assumes "distinct ps" "\<forall>p \<in> set ps. p < length qs \<and> (\<forall>c. qs ! p = Some c \<longrightarrow> \<not> ch_closed c)"
  shows "runs (close_queues ps qs) (\<lambda>qs'. length qs' = length qs \<and>
    (\<forall>p < length qs. qs' ! p = (if p \<in> set ps then map_option (\<lambda>c. c\<lparr>ch_closed := True\<rparr>) (qs ! p) else qs ! p)))"
  using assms
proof (induction ps arbitrary: qs)
  case (Cons p ps)
  have p: "p < length qs" using Cons.prems(2) by simp
  show ?case
  proof (cases "qs ! p")
    case None
    then show ?thesis
      using Cons.prems p by (auto simp: wp intro!: runs_mono [OF Cons.IH])
  next
    case (Some c)
    define qs1 where "qs1 = qs[p := Some (c\<lparr>ch_closed := True\<rparr>)]"
    have c: "\<not> ch_closed c" using Cons.prems(2) Some by simp
    have "runs (close_queues ps qs1) (\<lambda>qs'. length qs' = length qs1 \<and>
        (\<forall>q < length qs1. qs' ! q = (if q \<in> set ps then map_option (\<lambda>c. c\<lparr>ch_closed := True\<rparr>) (qs1 ! q) else qs1 ! q)))"
      using Cons.prems p by (intro Cons.IH) (auto simp: qs1_def nth_list_update)
    then have "runs (close_queues ps qs1) (\<lambda>qs'. length qs' = length qs \<and>
        (\<forall>q < length qs. qs' ! q = (if q \<in> set (p # ps) then map_option (\<lambda>c. c\<lparr>ch_closed := True\<rparr>) (qs ! q) else qs ! q)))"
      by (rule runs_mono) (use Cons.prems(1) p Some in \<open>auto simp: qs1_def nth_list_update\<close>)
    then show ?thesis using p Some c by (simp add: wp close_chan_def qs1_def)
  qed
qed (simp add: wp)

lemma nat5: "p < 5 \<Longrightarrow> p = 0 \<or> p \<in> set protocol_range"
  by (auto simp: protocol_range_eq)

lemma queue_zero: "engine_ok e \<Longrightarrow> en_queues e ! 0 = None"
proof -
  assume "engine_ok e"
  then have "(en_queues e ! 0 \<noteq> None) = Has (cfg_Protocols (en_cfg e)) (of_nat 0)" unfolding engine_ok_def by (metis zero_less_numeral)
  moreover have "\<not> Has (cfg_Protocols (en_cfg e)) 0" using queue_index by (auto simp: Has_def Set_def protocol_defs)
  ultimately show ?thesis by simp
qed

lemma close_queues_step:
  assumes inv: "run_inv s" and en: "enabled CloseQueues s"
  shows "runs (do_close_queues s) run_inv"
proof -
  note I = run_invD [OF inv]
  let ?e = "sy_engine s"
  have ph: "sy_phase s = Cancelled" using en by (simp add: enabled_def)
  have "\<forall>p \<in> set protocol_range. p < length (en_queues ?e) \<and> (\<forall>c. en_queues ?e ! p = Some c \<longrightarrow> \<not> ch_closed c)"
    using I(7,10) known_nat ph by auto
  from runs_exD [OF close_queues_runs [OF _ this]] obtain qs where
    qs: "close_queues protocol_range (en_queues ?e) = Some qs" "length qs = 5"
      "\<forall>p < 5. qs ! p = (if p \<in> set protocol_range then map_option (\<lambda>c. c\<lparr>ch_closed := True\<rparr>) (en_queues ?e ! p) else en_queues ?e ! p)"
    using I(10) by (auto simp: protocol_range_eq)
  have q: "qs ! p = map_option (\<lambda>c. c\<lparr>ch_closed := True\<rparr>) (en_queues ?e ! p)" if "p < 5" for p
    using nat5 [OF that] qs(3) that queue_zero [OF I(1)] by auto
  have items: "queue_items (qs ! p) = queue_items (en_queues ?e ! p)" if "p < 5" for p
    using q [OF that] by (cases "en_queues ?e ! p") (simp_all add: queue_items_def)
  have "map (\<lambda>q. length (queue_items q)) qs = map (\<lambda>q. length (queue_items q)) (en_queues ?e)"
    using items qs(2) I(10) by (intro nth_equalityI) simp_all
  then have qd: "queued (?e\<lparr>en_queues := qs\<rparr>) = queued ?e" by (simp add: queued_def)
  define t where "t = s\<lparr>sy_engine := ?e\<lparr>en_queues := qs\<rparr>, sy_phase := Draining\<rparr>"
  have "engine_ok (?e\<lparr>en_queues := qs\<rparr>)"
    using I(1) qs(2) q items by (simp add: engine_ok_def)
  moreover have "worker_ok m (qs ! p) n p w" if w: "worker_ok m (en_queues ?e ! p) n p w" and p: "p < 5" for m n p w
    using w q [OF p] I(7) [OF p] ph by (auto simp: worker_ok_def split: worker_phase.splits option.splits)
  ultimately have "run_inv t"
    using I ph qd q by (auto simp: run_inv_def Let_def t_def)
  then show ?thesis using qs(1) by (simp add: do_close_queues_def t_def wp)
qed

lemma close_decoded_step:
  assumes inv: "run_inv s" and en: "enabled CloseDecoded s"
  shows "runs (do_close_decoded s) run_inv"
proof -
  note I = run_invD [OF inv]
  have ph: "sy_phase s = Draining" "\<forall>w \<in> set (sy_workers s). wk_phase w = Stopped" using en by (simp_all add: enabled_def)
  define c where "c = (en_decoded (sy_engine s))\<lparr>ch_closed := True\<rparr>"
  define t where "t = s\<lparr>sy_engine := (sy_engine s)\<lparr>en_decoded := c\<rparr>, sy_phase := Finishing\<rparr>"
  have "run_inv t"
    using I ph by (simp add: run_inv_def Let_def t_def c_def engine_ok_def queued_def)
  then show ?thesis using I(8) ph(1) by (simp add: do_close_decoded_def close_chan_def t_def c_def wp)
qed

lemma phase_step:
  assumes "run_inv s" "(sy_phase s, ph) \<in> {(Capturing, Cancelled), (Finishing, Finished)}"
  shows "run_inv (s\<lparr>sy_phase := ph\<rparr>)"
  using assms(2) run_invD [OF assms(1)] by (auto simp: run_inv_def Let_def)

text \<open>Every enabled step runs and keeps the invariant.\<close>

lemma act_runs:
  assumes "run_inv s" "enabled a s" "vendor_total vd"
  shows "runs (act vd a s) run_inv"
proof (cases a)
  case (Capture clock view)
  then show ?thesis using capture_step [OF assms(1)] assms(2) by (simp add: act_def)
next
  case (Take p)
  then show ?thesis using take_step [OF assms(1)] assms(2) by (simp add: act_def)
next
  case (Put p)
  then show ?thesis using put_step [OF assms(1)] assms(2) by (simp add: act_def)
next
  case (Ack p)
  then show ?thesis using ack_step [OF assms(1)] assms(2) by (simp add: act_def)
next
  case (Fuse clock)
  then show ?thesis using fuse_step [OF assms(1) _ assms(3)] assms(2) by (simp add: act_def)
next
  case (Tick now)
  then show ?thesis using tick_step [OF assms(1)] by (simp add: act_def)
next
  case Cancel
  then show ?thesis using phase_step [OF assms(1)] assms(2) by (simp add: act_def enabled_def wp)
next
  case CloseQueues
  then show ?thesis using close_queues_step [OF assms(1)] assms(2) by (simp add: act_def)
next
  case (Stop p)
  then show ?thesis using stop_step [OF assms(1)] assms(2) by (simp add: act_def)
next
  case CloseDecoded
  then show ?thesis using close_decoded_step [OF assms(1)] assms(2) by (simp add: act_def)
next
  case Finish
  then show ?thesis using phase_step [OF assms(1)] assms(2) by (simp add: act_def enabled_def wp)
qed

lemma running_inv:
  assumes "running vd e handler s" "run_inv (start_system handler e)" "vendor_total vd"
  shows "run_inv s"
  using assms(1)
proof induction
  case start
  then show ?case using assms(2) by simp
next
  case (step s a t)
  then show ?case using runs_SomeD [OF act_runs [OF step.IH step.hyps(2) assms(3)]] by blast
qed

section \<open>The engine that \<open>New\<close> returns\<close>

lemma make_queues_runs:
  assumes "\<forall>p \<in> set rs. p < length queues" "distinct rs"
  shows "runs (make_queues ps n rs (queues, k)) (\<lambda>(qs, k'). length qs = length queues \<and>
    (\<forall>q < length queues. qs ! q = (if q \<in> set rs \<and> Has ps (of_nat q) then Some (make_chan n) else queues ! q)) \<and>
    k' = k + length (filter (\<lambda>p. Has ps (of_nat p)) rs))"
  using assms
proof (induction rs arbitrary: queues k)
  case (Cons p rs)
  show ?case
  proof (cases "Has ps (of_nat p)")
    case True
    have "runs (make_queues ps n rs (queues[p := Some (make_chan n)], k + 1)) (\<lambda>(qs, k'). length qs = length (queues[p := Some (make_chan n)]) \<and>
        (\<forall>q < length (queues[p := Some (make_chan n)]).
          qs ! q = (if q \<in> set rs \<and> Has ps (of_nat q) then Some (make_chan n) else queues[p := Some (make_chan n)] ! q)) \<and>
        k' = k + 1 + length (filter (\<lambda>p. Has ps (of_nat p)) rs))"
      by (rule Cons.IH) (use Cons.prems in auto)
    then show ?thesis
      using True Cons.prems by (auto simp: wp nth_list_update elim!: runs_mono)
  next
    case False
    then show ?thesis using Cons.prems by (auto intro!: runs_mono [OF Cons.IH])
  qed
qed (simp add: wp)

lemma fill_chan_Some:
  assumes "\<not> ch_closed c" "length (ch_items c) + n \<le> ch_cap c"
  shows "fill_chan n x c = Some (c\<lparr>ch_items := ch_items c @ replicate n x\<rparr>)"
  using assms
proof (induction n arbitrary: c)
  case (Suc n)
  then show ?case
    using Suc.IH [of "c\<lparr>ch_items := ch_items c @ [x]\<rparr>"] by (simp add: send_def replicate_append_same [symmetric])
qed simp

definition slots :: "Rule Config \<Rightarrow> nat" where
  "slots cfg = (nat (cfg_ProtocolQueue cfg) + 1) * length (filter (\<lambda>p. Has (cfg_Protocols cfg) (of_nat p)) protocol_range)"

definition fresh :: "Engine \<Rightarrow> bool" where
  "fresh e =
     (engine_ok e \<and> queued e = 0 \<and> length (ch_items (en_freePackets e)) = ch_cap (en_freePackets e) \<and>
      (\<forall>q \<in> set (en_queues e). \<forall>c. q = Some c \<longrightarrow> \<not> ch_closed c) \<and> en_decoded e = make_chan 8 \<and>
      ch_cap (en_freePackets e) = slots (en_cfg e) \<and>
      \<not> en_running e \<and> \<not> en_started e \<and> \<not> en_closed e \<and> \<not> en_cancel e)"

lemma New_runs:
  "runs (New goos re_compile config) (\<lambda>res. case res of
      Inl err \<Rightarrow> validate goos (withDefaults goos config) \<noteq> None \<or>
        (\<exists>e. CompileClassifier re_compile (cfg_Rules (withDefaults goos config)) = Some (Inl e))
    | Inr e \<Rightarrow> fresh e \<and> en_cfg e = withDefaults goos config)"
proof -
  define cfg where "cfg = withDefaults goos config"
  show ?thesis
  proof (cases "validate goos cfg")
    case (Some err)
    then show ?thesis by (simp add: New_def wp cfg_def)
  next
    case None
    obtain res where res: "CompileClassifier re_compile (cfg_Rules cfg) = Some res"
      using runs_exD [OF CompileClassifier_runs] by blast
    show ?thesis
    proof (cases res)
      case (Inl err)
      then show ?thesis using None res by (simp add: New_def wp cfg_def)
    next
      case (Inr cl)
      let ?n = "nat (cfg_ProtocolQueue cfg)" and ?ps = "cfg_Protocols cfg"
      from runs_exD [OF make_queues_runs [of protocol_range "replicate 5 None" ?ps ?n 0]] obtain qs k where
        q: "make_queues ?ps ?n protocol_range (replicate 5 None, 0) = Some (qs, k)" "length qs = 5"
          "\<forall>p < 5. qs ! p = (if p \<in> set protocol_range \<and> Has ?ps (of_nat p) then Some (make_chan ?n) else None)"
          "k = length (filter (\<lambda>p. Has ?ps (of_nat p)) protocol_range)"
        by (auto simp: protocol_range_eq)
      define total where "total = ?n * k + k"
      define slot where "slot = new_slot (nat (cfg_MaxFrameSize cfg))"
      define free where "free = (make_chan total)\<lparr>ch_items := replicate total slot\<rparr>"
      have free: "fill_chan total slot (make_chan total) = Some free"
        by (subst fill_chan_Some) (simp_all add: make_chan_def free_def)
      define e where "e = \<lparr>en_cfg = cfg, en_classifier = Some cl,
                   en_state = newFusionState cfg (Some cl), en_queues = qs, en_freePackets = free,
                   en_decoded = make_chan 8, en_counters = zero_counters, en_running = False, en_started = False,
                   en_closed = False, en_cancel = False\<rparr>"
      have ok: "config_ok cfg" using config_ok_accepted None by (simp add: cfg_def)
      have fi: "fusion_inv (newFusionState cfg (Some cl))"
        using newFusionState_inv [OF ok] compiled_total res Inr by blast
      have m: "0 \<le> cfg_MaxFrameSize cfg" using None by (auto simp: validate_def split: if_splits)
      have zero: "\<not> Has ?ps 0" by (simp add: Has_def Set_def protocol_defs)
      have "slot_ok (nat (cfg_MaxFrameSize cfg)) slot"
        by (simp add: slot_ok_def slot_def new_slot_def meta_ok_def zero_meta_def)
      moreover have "(qs ! p \<noteq> None) = Has ?ps (of_nat p)" if "p < 5" for p
        using q(3) that nat5 [OF that] zero by auto
      moreover have items: "queue_items (qs ! p) = []" if "p < 5" for p
        using q(3) that by (auto simp: queue_items_def make_chan_def)
      ultimately have E: "engine_ok e"
        using q(2) fi m by (auto simp: engine_ok_def e_def counters_ok_def zero_counters_def free_def make_chan_def)
      have "map (\<lambda>q. length (queue_items q)) qs = replicate 5 0"
        using items q(2) by (intro nth_equalityI) simp_all
      then have "queued e = 0" by (simp add: queued_def e_def sum_list_replicate)
      moreover have "\<not> ch_closed c" if x: "x \<in> set qs" "x = Some c" for x c
      proof -
        obtain p where p: "p < length qs" "qs ! p = x" using x(1) unfolding in_set_conv_nth by blast
        have "p < 5" using p(1) q(2) by simp
        then have "qs ! p = (if p \<in> set protocol_range \<and> Has ?ps (of_nat p) then Some (make_chan ?n) else None)"
          using q(3) by blast
        then show ?thesis using p(2) x(2) by (simp add: make_chan_def split: if_splits)
      qed
      ultimately have "fresh e"
        using E q(4) by (auto simp: fresh_def e_def free_def make_chan_def total_def slots_def)
      moreover have "New goos re_compile config = Some (Inr e)"
        using None res Inr q(1) free by (simp add: New_def cfg_def [symmetric] Let_def total_def slot_def e_def)
      ultimately show ?thesis by (simp add: wp e_def cfg_def)
    qed
  qed
qed

lemma fresh_start: "fresh e \<Longrightarrow> run_inv (start_system handler e)"
  using start_inv by (simp add: fresh_def)

lemma New_fresh: "New goos re_compile config = Some (Inr e) \<Longrightarrow> fresh e \<and> en_cfg e = withDefaults goos config"
  using runs_SomeD [OF New_runs] by fastforce

section \<open>The end of a run\<close>

text \<open>The steps of the program itself: packets, ticks and the cancellation come from outside.\<close>

definition internal :: "action \<Rightarrow> bool" where
  "internal a = (case a of Capture clock view \<Rightarrow> False | Tick now \<Rightarrow> False | Cancel \<Rightarrow> False | _ \<Rightarrow> True)"

definition worker_work :: "worker \<Rightarrow> nat" where
  "worker_work w = (case wk_phase w of Idle \<Rightarrow> 1 | Sending slot env \<Rightarrow> 4 | Waiting slot \<Rightarrow> 2 | Stopped \<Rightarrow> 0)"

definition phase_work :: "run_phase \<Rightarrow> nat" where
  "phase_work ph = (case ph of Capturing \<Rightarrow> 4 | Cancelled \<Rightarrow> 3 | Draining \<Rightarrow> 2 | Finishing \<Rightarrow> 1 | Finished \<Rightarrow> 0)"

definition work :: "system \<Rightarrow> nat" where
  "work s = 4 * queued (sy_engine s) + length (ch_items (en_decoded (sy_engine s))) + (\<Sum>w\<leftarrow>sy_workers s. worker_work w) +
     phase_work (sy_phase s)"

fun perform :: "vendor_data \<Rightarrow> action list \<Rightarrow> system \<Rightarrow> system run" where
  "perform vd [] s = Some s"
| "perform vd (a # as) s = (if enabled a s then do { s \<leftarrow> act vd a s; perform vd as s } else None)"

text \<open>Some internal step can always be made, until the run has ended.\<close>

lemma progress:
  assumes inv: "run_inv s" and ph: "sy_phase s \<noteq> Capturing" "sy_phase s \<noteq> Finished"
  shows "\<exists>a. internal a \<and> enabled a s"
proof -
  note I = run_invD [OF inv]
  let ?e = "sy_engine s"
  consider "sy_phase s = Cancelled" | "sy_phase s = Draining" | "sy_phase s = Finishing" using ph by (cases "sy_phase s") auto
  then show ?thesis
  proof cases
    case 1
    then show ?thesis by (intro exI [of _ CloseQueues]) (simp add: internal_def enabled_def)
  next
    case 2
    show ?thesis
    proof (cases "\<forall>w \<in> set (sy_workers s). wk_phase w = Stopped")
      case True
      with 2 show ?thesis by (intro exI [of _ CloseDecoded]) (simp add: internal_def enabled_def)
    next
      case False
      then obtain p where p: "p < 5" "wk_phase (sy_workers s ! p) \<noteq> Stopped" using I(2) by (metis in_set_conv_nth)
      have phase: "phase_of s p = wk_phase (sy_workers s ! p)" using p I(2) by (simp add: phase_of_def)
      have W: "worker_ok (nat (cfg_MaxFrameSize (en_cfg ?e))) (en_queues ?e ! p) (pend (ch_items (en_decoded ?e)) p) p (sy_workers s ! p)"
        using I(3) [OF p(1)] .
      show ?thesis
      proof (cases "wk_phase (sy_workers s ! p)")
        case Idle
        then obtain c where c: "en_queues ?e ! p = Some c" using W by (auto simp: worker_ok_def)
        have "queue_of s p = Some c" "ch_closed c" using c I(7) [OF p(1) c] I(10) p(1) 2 by (simp_all add: queue_of_def)
        then have "enabled (Stop p) s \<or> enabled (Take p) s" using Idle phase by (auto simp: enabled_def)
        then show ?thesis by (auto simp: internal_def intro: exI [of _ "Stop p"] exI [of _ "Take p"])
      next
        case (Sending slot env)
        then have "enabled (Put p) s" using phase by (simp add: enabled_def)
        then show ?thesis by (intro exI [of _ "Put p"]) (simp add: internal_def)
      next
        case (Waiting slot)
        show ?thesis
        proof (cases "ch_items (wk_ack (sy_workers s ! p))")
          case Nil
          then have "pend (ch_items (en_decoded ?e)) p = 1" using W Waiting by (simp add: worker_ok_def)
          then have "enabled (Fuse 0) s" using 2 by (auto simp: enabled_def pend_def)
          then show ?thesis by (intro exI [of _ "Fuse 0"]) (simp add: internal_def)
        next
          case Cons
          then have "enabled (Ack p) s" using phase Waiting by (simp add: enabled_def)
          then show ?thesis by (intro exI [of _ "Ack p"]) (simp add: internal_def)
        qed
      qed (use p in simp)
    qed
  next
    case 3
    have "pend (ch_items (en_decoded ?e)) p = 0" if "p < 5" for p
      using I(3) [OF that] I(9) [of "sy_workers s ! p"] I(2) that 3 by (auto simp: worker_ok_def)
    then have "ch_items (en_decoded ?e) = []" using pend_length [of "ch_items (en_decoded ?e)"] I(4) by auto
    with 3 show ?thesis by (intro exI [of _ Finish]) (simp add: internal_def enabled_def)
  qed
qed

text \<open>Every internal step does some of the work that is left.\<close>

lemma count_decoded_same:
  "count_decoded p st e = Some (b, e') \<Longrightarrow> en_queues e' = en_queues e \<and> en_decoded e' = en_decoded e"
  by (auto simp: count_decoded_def Let_def bind_eq_Some_conv split: if_splits)

lemma releasePacket_same:
  "releasePacket slot e = Some e' \<Longrightarrow> en_queues e' = en_queues e \<and> en_decoded e' = en_decoded e"
  by (auto simp: releasePacket_def bind_eq_Some_conv)

lemma phase_of_nth: "phase_of s p = ph \<Longrightarrow> ph \<noteq> Stopped \<Longrightarrow> p < length (sy_workers s) \<and> wk_phase (sy_workers s ! p) = ph"
  using phase_of_Some [of s p] by auto

text \<open>A step of one worker.\<close>

lemma work_worker:
  assumes "p < length (sy_workers s)" "sy_workers t = (sy_workers s)[p := w]" "sy_phase t = sy_phase s"
    and "4 * queued (sy_engine t) + length (ch_items (en_decoded (sy_engine t))) + worker_work w <
      4 * queued (sy_engine s) + length (ch_items (en_decoded (sy_engine s))) + worker_work (sy_workers s ! p)"
  shows "work t < work s"
  using sum_updated [OF assms(1), of worker_work w] assms(2-4) by (simp add: work_def)

lemma take_work:
  assumes "enabled (Take p) s" "do_take p s = Some t" "length (en_queues (sy_engine s)) = 5"
  shows "work t < work s"
proof -
  have ph: "p < length (sy_workers s)" "wk_phase (sy_workers s ! p) = Idle"
    using phase_of_nth [of s p Idle] assms(1) by (auto simp: enabled_def)
  obtain c slot rest where c: "p < length (en_queues (sy_engine s))" "en_queues (sy_engine s) ! p = Some c" "ch_items c = slot # rest"
    using assms(1,3) by (auto simp: enabled_def queue_of_def neq_Nil_conv split: option.splits if_splits)
  define e0 where "e0 = (sy_engine s)\<lparr>en_queues := (en_queues (sy_engine s))[p := Some (c\<lparr>ch_items := rest\<rparr>)]\<rparr>"
  define w where "w = (\<lambda>vars b env. (sy_workers s ! p)\<lparr>wk_vars := vars, wk_phase := (if b then Sending slot env else Idle)\<rparr>)"
  obtain env vars b e f where
    e: "count_decoded (of_nat p) (env_status env) e0 = Some (b, e)"
    and f: "(if b then Some e else releasePacket slot e) = Some f"
    and t: "t = s\<lparr>sy_engine := f, sy_workers := (sy_workers s)[p := w vars b env]\<rparr>"
    using assms(2) c ph(1) by (auto simp: do_take_def Let_def bind_eq_Some_conv e0_def w_def)
  have "en_queues f = (en_queues (sy_engine s))[p := Some (c\<lparr>ch_items := rest\<rparr>)]" "en_decoded f = en_decoded (sy_engine s)"
    using count_decoded_same [OF e] f releasePacket_same [of slot e f] by (auto simp: e0_def split: if_splits)
  then have "queued f + 1 = queued (sy_engine s)" "en_decoded f = en_decoded (sy_engine s)"
    using queued_update [OF c(1), of "Some (c\<lparr>ch_items := rest\<rparr>)"] c(2,3) by (simp_all add: queued_def queue_items_def)
  then show ?thesis
    by (intro work_worker [OF ph(1) _ _, of t "w vars b env"])
      (use ph(2) in \<open>simp_all add: t w_def worker_work_def\<close>)
qed

lemma put_work:
  assumes "enabled (Put p) s" "do_put p s = Some t"
  shows "work t < work s"
proof -
  obtain slot env where p: "p < length (sy_workers s)" "wk_phase (sy_workers s ! p) = Sending slot env"
    using assms(1) phase_of_nth [of s p] by (auto simp: enabled_def split: worker_phase.splits)
  obtain d where d: "send env (en_decoded (sy_engine s)) = Some d"
    and t: "t = s\<lparr>sy_engine := (sy_engine s)\<lparr>en_decoded := d\<rparr>, sy_workers := (sy_workers s)[p := (sy_workers s ! p)\<lparr>wk_phase := Waiting slot\<rparr>]\<rparr>"
    using assms(2) p by (auto simp: do_put_def set_phase_def bind_eq_Some_conv)
  have "length (ch_items d) = length (ch_items (en_decoded (sy_engine s))) + 1"
    using d by (auto simp: send_def split: if_splits)
  then show ?thesis
    by (intro work_worker [OF p(1), of t "(sy_workers s ! p)\<lparr>wk_phase := Waiting slot\<rparr>"])
      (use p(2) in \<open>simp_all add: t worker_work_def queued_def\<close>)
qed

lemma ack_work:
  assumes "enabled (Ack p) s" "do_ack p s = Some t"
  shows "work t < work s"
proof -
  obtain slot where p: "p < length (sy_workers s)" "wk_phase (sy_workers s ! p) = Waiting slot"
    using assms(1) phase_of_nth [of s p] by (auto simp: enabled_def split: worker_phase.splits)
  obtain u rest where a: "ch_items (wk_ack (sy_workers s ! p)) = u # rest"
    using assms(1) p by (auto simp: enabled_def neq_Nil_conv phase_of_def)
  define w where "w = (sy_workers s ! p)\<lparr>wk_phase := Idle, wk_ack := (wk_ack (sy_workers s ! p))\<lparr>ch_items := rest\<rparr>\<rparr>"
  obtain f where f: "releasePacket slot (sy_engine s) = Some f"
    and t: "t = s\<lparr>sy_engine := f, sy_workers := (sy_workers s)[p := w]\<rparr>"
    using assms(2) p a by (auto simp: do_ack_def bind_eq_Some_conv w_def)
  show ?thesis
    using releasePacket_same [OF f]
    by (intro work_worker [OF p(1), of t w]) (use p(2) in \<open>simp_all add: t w_def worker_work_def queued_def\<close>)
qed

lemma stop_work:
  assumes "enabled (Stop p) s" "set_phase p Stopped s = Some t"
  shows "work t < work s"
proof -
  have ph: "p < length (sy_workers s)" "wk_phase (sy_workers s ! p) = Idle"
    using phase_of_nth [of s p Idle] assms(1) by (auto simp: enabled_def)
  have "t = s\<lparr>sy_workers := (sy_workers s)[p := (sy_workers s ! p)\<lparr>wk_phase := Stopped\<rparr>]\<rparr>"
    using assms(2) ph(1) by (simp add: set_phase_def)
  then show ?thesis
    by (intro work_worker [OF ph(1), of t "(sy_workers s ! p)\<lparr>wk_phase := Stopped\<rparr>"]) (use ph(2) in \<open>simp_all add: worker_work_def\<close>)
qed

lemma fuse_work:
  assumes "do_fuse vd clock s = Some t"
  shows "work t < work s"
proof -
  obtain env rest where ds: "ch_items (en_decoded (sy_engine s)) = env # rest"
    using assms by (cases "ch_items (en_decoded (sy_engine s))") (simp_all add: do_fuse_def)
  define p where "p = unat (env_protocol env)"
  obtain st es where st: "fuse_envelope vd clock env (en_state (sy_engine s)) = Some (st, es)"
    using assms ds by (auto simp: do_fuse_def bind_eq_Some_conv)
  obtain e out where d: "deliver (sy_handler s) es (updateHighWaterLocked
      ((sy_engine s)\<lparr>en_decoded := (en_decoded (sy_engine s))\<lparr>ch_items := rest\<rparr>, en_state := st\<rparr>), sy_delivered s) = (e, out)"
    by fastforce
  have p: "p < length (sy_workers s)" using assms ds st d by (auto simp: do_fuse_def idx_def p_def split: if_splits)
  obtain ack where t: "t = s\<lparr>sy_engine := e, sy_workers := (sy_workers s)[p := (sy_workers s ! p)\<lparr>wk_ack := ack\<rparr>], sy_delivered := out\<rparr>"
    using assms ds st d p by (auto simp: do_fuse_def bind_eq_Some_conv p_def)
  show ?thesis
    using deliver_same(3,5) [OF d]
    by (intro work_worker [OF p, of t "(sy_workers s ! p)\<lparr>wk_ack := ack\<rparr>"])
      (use ds in \<open>simp_all add: t worker_work_def queued_def updateHighWaterLocked_def Let_def\<close>)
qed

lemma close_queues_items:
  "close_queues ps qs = Some qs' \<Longrightarrow> map queue_items qs' = map queue_items qs"
proof (induction ps arbitrary: qs)
  case (Cons p ps)
  show ?case
  proof (cases "idx qs p")
    case (Some q)
    show ?thesis
    proof (cases q)
      case None
      with Cons Some show ?thesis by simp
    next
      case (Some c)
      have q: "p < length qs" "qs ! p = Some c" using \<open>idx qs p = Some q\<close> Some by (auto simp: idx_def split: if_splits)
      have "map queue_items (qs[p := Some (c\<lparr>ch_closed := True\<rparr>)]) = map queue_items qs"
        using q by (auto simp: map_update queue_items_def intro!: list_update_same_conv [THEN iffD2])
      then show ?thesis
        using Cons.IH [of "qs[p := Some (c\<lparr>ch_closed := True\<rparr>)]"] Cons.prems \<open>idx qs p = Some q\<close> Some q
        by (auto simp: close_chan_def upd_def split: if_splits)
    qed
  qed (use Cons.prems in \<open>simp add: idx_def\<close>)
qed simp

lemma queued_items: "map queue_items (en_queues e) = map queue_items (en_queues f) \<Longrightarrow> queued e = queued f"
proof -
  assume "map queue_items (en_queues e) = map queue_items (en_queues f)"
  then have "map length (map queue_items (en_queues e)) = map length (map queue_items (en_queues f))" by simp
  then show ?thesis by (simp add: queued_def o_def)
qed

lemma act_work:
  assumes "run_inv s" "enabled a s" "internal a" "act vd a s = Some t"
  shows "work t < work s"
proof (cases a)
  case (Take p)
  then show ?thesis using take_work [of p s t] run_invD(10) [OF assms(1)] assms by (simp add: act_def)
next
  case (Put p)
  then show ?thesis using put_work [of p s t] assms by (simp add: act_def)
next
  case (Ack p)
  then show ?thesis using ack_work [of p s t] assms by (simp add: act_def)
next
  case (Fuse clock)
  then show ?thesis using fuse_work assms by (simp add: act_def)
next
  case (Stop p)
  then show ?thesis using stop_work assms by (simp add: act_def)
next
  case CloseQueues
  then obtain qs where qs: "close_queues protocol_range (en_queues (sy_engine s)) = Some qs"
    and t: "t = s\<lparr>sy_engine := (sy_engine s)\<lparr>en_queues := qs\<rparr>, sy_phase := Draining\<rparr>"
    using assms(4) by (auto simp: act_def do_close_queues_def bind_eq_Some_conv)
  have "queued (sy_engine t) = queued (sy_engine s)"
    using close_queues_items [OF qs] by (intro queued_items) (simp add: t)
  then show ?thesis using assms(2) CloseQueues t by (simp add: work_def phase_work_def enabled_def)
next
  case CloseDecoded
  then show ?thesis
    using assms(2,4) by (auto simp: act_def do_close_decoded_def close_chan_def work_def phase_work_def enabled_def queued_def
        bind_eq_Some_conv split: if_splits)
next
  case Finish
  then show ?thesis using assms(2,4) by (auto simp: act_def work_def phase_work_def enabled_def)
qed (use assms(3) in \<open>simp_all add: internal_def\<close>)

text \<open>The end: nothing is left in a queue or in a hand.\<close>

lemma finished_free:
  assumes inv: "run_inv s" and fin: "sy_phase s = Finished"
  shows "queued (sy_engine s) = 0" "held (sy_workers s) = 0"
proof -
  note I = run_invD [OF inv]
  have st: "wk_phase (sy_workers s ! p) = Stopped" if "p < 5" for p using I(9) fin I(2) that nth_mem by simp
  have "queue_items (en_queues (sy_engine s) ! p) = []" if "p < 5" for p
    using I(3) [OF that] st [OF that] by (auto simp: worker_ok_def queue_items_def split: option.splits)
  then have "map queue_items (en_queues (sy_engine s)) = replicate 5 []" using I(10) by (intro nth_equalityI) simp_all
  then have "map length (map queue_items (en_queues (sy_engine s))) = replicate 5 0" by simp
  then show "queued (sy_engine s) = 0" by (simp add: queued_def o_def sum_list_replicate)
  show "held (sy_workers s) = 0"
    using I(9) fin by (auto simp: held_def sum_list_eq_0_iff held_slots_def)
qed

end
