(* ===== verification/Lifecycle.thy ===== *)
theory Lifecycle
  imports EngineRun Fused
begin

text \<open>
  The guards of \<open>Engine.Run\<close> and \<open>Engine.Close\<close>, and the properties of a whole run: no goroutine
  panics or blocks for ever, packet slots are conserved, a cancelled run ends, and a snapshot shows the
  fused state.
\<close>

section \<open>Guards\<close>

datatype run_error = ErrClosed | ErrAlreadyRunning | ContextError | BackendError string

text \<open>The checks before a run; \<open>done\<close> tells that the context is done.\<close>

definition Run_enter :: "bool \<Rightarrow> Engine \<Rightarrow> run_error option \<times> Engine" where
  "Run_enter ctx_done e =
     (if en_closed e then (Some ErrClosed, e)
      else if ctx_done then (Some ContextError, e)
      else if en_started e then (Some ErrAlreadyRunning, e)
      else if en_running e then (Some ErrAlreadyRunning, e)
      else (None, e\<lparr>en_running := True\<rparr>))"

definition Run_register :: "Engine \<Rightarrow> Engine" where
  "Run_register e = e\<lparr>en_cancel := True\<rparr>"

text \<open>The deferred functions, in the order they run.\<close>

definition Run_leave :: "Engine \<Rightarrow> Engine" where
  "Run_leave e = e\<lparr>en_cancel := False, en_running := False\<rparr>"

text \<open>The result of opening the backends, which is an error or nothing.\<close>

definition Run_open :: "string option \<Rightarrow> Engine \<Rightarrow> run_error option \<times> Engine" where
  "Run_open err e =
     (case err of
        Some m \<Rightarrow> (Some (BackendError m), Run_leave e)
      | None \<Rightarrow> (None, e\<lparr>en_started := True\<rparr>))"

definition Run_result :: "string list \<Rightarrow> bool \<Rightarrow> run_error option" where
  "Run_result errs ctx_done =
     (case errs of
        m # _ \<Rightarrow> Some (BackendError m)
      | [] \<Rightarrow> if ctx_done then Some ContextError else None)"

text \<open>\<open>Close\<close>; the first component tells that it cancels a run.\<close>

definition Close :: "Engine \<Rightarrow> bool \<times> Engine" where
  "Close e = (if en_closed e then (False, e) else (en_cancel e, e\<lparr>en_closed := True\<rparr>))"

lemma New_flags:
  assumes "New goos re_compile config = Some (Inr e)"
  shows "\<not> en_running e" "\<not> en_started e" "\<not> en_closed e" "\<not> en_cancel e"
  using New_fresh [OF assms] by (simp_all add: fresh_def)

section \<open>An example engine\<close>

definition zero_config :: "Rule Config" where
  "zero_config = \<lparr>cfg_Interfaces = [], cfg_Protocols = 0, cfg_MaxDevices = 0, cfg_MaxLinks = 0, cfg_MaxDNSRecords = 0,
     cfg_MaxAlternatives = 0, cfg_ProtocolQueue = 0, cfg_PendingEvents = 0, cfg_MaxFrameSize = 0, cfg_MNDPIdleTTL = 0,
     cfg_TimingWheelSlots = 0, cfg_Rules = [], cfg_IncludeLoopback = False\<rparr>"

lemma no_rules: "CompileClassifier re_compile [] \<noteq> Some (Inl x)"
proof -
  have "Option.bind m (\<lambda>rows. Some (Inr (f rows))) \<noteq> Some (Inl x)" for m :: "'a list run" and f :: "'a list \<Rightarrow> Classifier"
    by (cases m) simp_all
  then show ?thesis unfolding CompileClassifier_def by (simp del: upt_rec_numeral)
qed

lemma zero_config_New:
  obtains e where "New ''linux'' (\<lambda>_. None) zero_config = Some (Inr e)"
proof -
  have "validate ''linux'' (withDefaults ''linux'' zero_config) = None"
  proof -
    have "\<not> (\<exists>e. validate ''linux'' (withDefaults ''linux'' zero_config) = Some e)"
      by (subst config_error_iff) (simp add: zero_config_def)
    then show ?thesis by simp
  qed
  moreover have "CompileClassifier (\<lambda>_. None) (cfg_Rules (withDefaults ''linux'' zero_config)) \<noteq> Some (Inl x)" for x
    using no_rules by (simp add: zero_config_def withDefaults_def)
  moreover obtain res where res: "New ''linux'' (\<lambda>_. None) zero_config = Some res"
    and r: "case res of Inl err \<Rightarrow> validate ''linux'' (withDefaults ''linux'' zero_config) \<noteq> None \<or>
        (\<exists>e. CompileClassifier (\<lambda>_. None) (cfg_Rules (withDefaults ''linux'' zero_config)) = Some (Inl e))
      | Inr e \<Rightarrow> fresh e \<and> en_cfg e = withDefaults ''linux'' zero_config"
    using runs_exD [OF New_runs [of "''linux''" "\<lambda>_. None" zero_config]] by blast
  ultimately show thesis using that by (cases res) auto
qed

section \<open>The phase of a run\<close>

lemma act_phase:
  assumes "act vd a s = Some t"
  shows "sy_phase t = (case a of Cancel \<Rightarrow> Cancelled | CloseQueues \<Rightarrow> Draining | CloseDecoded \<Rightarrow> Finishing | Finish \<Rightarrow> Finished
    | _ \<Rightarrow> sy_phase s)"
proof (cases a)
  case (Tick now)
  then obtain st es where st: "fuse_tick now (en_state (sy_engine s)) = Some (st, es)"
    using assms by (auto simp: act_def do_tick_def bind_eq_Some_conv)
  obtain e out where "deliver (sy_handler s) es ((sy_engine s)\<lparr>en_state := st\<rparr>, sy_delivered s) = (e, out)" by fastforce
  then show ?thesis using assms st Tick by (auto simp: act_def do_tick_def bind_eq_Some_conv)
next
  case (Take p)
  then obtain c where c: "idx (en_queues (sy_engine s)) p = Some (Some c)"
    using assms by (auto simp: act_def do_take_def Let_def bind_eq_Some_conv)
  then show ?thesis
    using Take assms by (cases "ch_items c") (auto simp: act_def do_take_def Let_def bind_eq_Some_conv)
next
  case (Put p)
  then obtain w where "idx (sy_workers s) p = Some w" using assms by (auto simp: act_def do_put_def bind_eq_Some_conv)
  then show ?thesis
    using Put assms by (cases "wk_phase w") (auto simp: act_def do_put_def set_phase_def bind_eq_Some_conv)
next
  case (Ack p)
  then obtain w where w: "idx (sy_workers s) p = Some w" using assms by (auto simp: act_def do_ack_def bind_eq_Some_conv)
  show ?thesis
  proof (cases "wk_phase w")
    case (Waiting slot)
    then show ?thesis
      using Ack w assms by (cases "ch_items (wk_ack w)") (auto simp: act_def do_ack_def bind_eq_Some_conv)
  qed (use Ack w assms in \<open>simp_all add: act_def do_ack_def\<close>)
next
  case (Fuse clock)
  then obtain env rest where ds: "ch_items (en_decoded (sy_engine s)) = env # rest"
    using assms by (cases "ch_items (en_decoded (sy_engine s))") (simp_all add: act_def do_fuse_def)
  then obtain st es where st: "fuse_envelope vd clock env (en_state (sy_engine s)) = Some (st, es)"
    using assms Fuse by (auto simp: act_def do_fuse_def bind_eq_Some_conv)
  obtain e out where d: "deliver (sy_handler s) es (updateHighWaterLocked
      ((sy_engine s)\<lparr>en_decoded := (en_decoded (sy_engine s))\<lparr>ch_items := rest\<rparr>, en_state := st\<rparr>), sy_delivered s) = (e, out)"
    by fastforce
  show ?thesis using assms ds st d Fuse by (auto simp: act_def do_fuse_def bind_eq_Some_conv)
next
  case (Stop p)
  then show ?thesis using assms by (auto simp: act_def set_phase_def bind_eq_Some_conv)
qed (use assms in \<open>auto simp: act_def do_capture_def do_close_queues_def do_close_decoded_def bind_eq_Some_conv\<close>)

text \<open>A cancelled run never returns to the phase of capturing, and packets come only until the queues are closed.\<close>

definition is_capture :: "action \<Rightarrow> bool" where
  "is_capture a = (case a of Capture clock view \<Rightarrow> True | _ \<Rightarrow> False)"

lemma step_phase:
  assumes "act vd a s = Some t" "enabled a s" "sy_phase s \<noteq> Capturing"
  shows "sy_phase t \<noteq> Capturing" "sy_phase s \<noteq> Cancelled \<Longrightarrow> sy_phase t \<noteq> Cancelled \<and> \<not> is_capture a"
  using act_phase [OF assms(1)] assms(2,3) by (auto simp: enabled_def is_capture_def split: action.splits)

lemma perform_phase:
  "perform vd as s = Some t \<Longrightarrow> sy_phase s \<noteq> Capturing \<Longrightarrow>
   sy_phase t \<noteq> Capturing \<and> (sy_phase s \<noteq> Cancelled \<longrightarrow> filter is_capture as = [])"
proof (induction as arbitrary: s)
  case (Cons a as)
  then obtain u where u: "enabled a s" "act vd a s = Some u" "perform vd as u = Some t"
    by (auto simp: bind_eq_Some_conv split: if_splits)
  show ?case using Cons.IH [OF u(3)] step_phase [OF u(2,1) Cons.prems(2)] by auto
qed simp

section \<open>The work that is left\<close>

text \<open>A packet from outside adds at most one slot to the queues; a tick leaves the work as it is.\<close>

lemma count_same:
  "count_dropped p e = Some e' \<Longrightarrow> en_queues e' = en_queues e \<and> en_decoded e' = en_decoded e"
  "count_routed p e = Some e' \<Longrightarrow> en_queues e' = en_queues e \<and> en_decoded e' = en_decoded e"
  by (auto simp: count_dropped_def count_routed_def bind_eq_Some_conv)

definition one_more :: "Engine \<Rightarrow> Engine \<Rightarrow> bool" where
  "one_more e e' = (en_decoded e' = en_decoded e \<and> queued e' \<le> queued e + 1)"

lemma one_more_same: "en_queues e' = en_queues e \<and> en_decoded e' = en_decoded e \<Longrightarrow> one_more e e'"
  by (simp add: one_more_def queued_def)

lemma enqueue_one_more:
  assumes "enqueue p payload meta e = Some e'"
  shows "one_more e e'"
proof (cases "int (length payload) > cfg_MaxFrameSize (en_cfg e) \<or> ch_items (en_freePackets e) = []")
  case True
  then have "count_dropped p e = Some e'" using assms by (auto simp: enqueue_def try_recv_def split: if_splits)
  then show ?thesis using count_same(1) one_more_same by blast
next
  case False
  then obtain slot free slot' q sent q' queues where
    q: "idx (en_queues e) (unat p) = Some q" "upd (en_queues e) (unat p) q' = Some queues"
      "(case q of None \<Rightarrow> Some (False, q) | Some c \<Rightarrow> do { (sent, c) \<leftarrow> try_send slot' c; Some (sent, Some c) }) = Some (sent, q')"
    and e': "(if sent then count_routed p (e\<lparr>en_freePackets := free, en_queues := queues\<rparr>)
      else do { e \<leftarrow> count_dropped p (e\<lparr>en_freePackets := free, en_queues := queues\<rparr>); releasePacket slot' e }) = Some e'"
    using assms by (auto simp: enqueue_def try_recv_def Let_def bind_eq_Some_conv split: list.splits)
  let ?e = "e\<lparr>en_freePackets := free\<rparr>"
  have p: "unat p < length (en_queues ?e)" "en_queues ?e ! unat p = q" "queues = (en_queues e)[unat p := q']"
    using q(1,2) by (auto simp: idx_def upd_def split: if_splits)
  have "length (queue_items q') \<le> length (queue_items q) + 1"
    using q(3) by (auto simp: queue_items_def try_send_def bind_eq_Some_conv split: option.splits if_splits)
  then have m: "one_more e (e\<lparr>en_freePackets := free, en_queues := queues\<rparr>)"
    using queued_update [OF p(1), of q'] p(2) by (simp add: one_more_def queued_def p(3))
  have "en_queues e' = queues" "en_decoded e' = en_decoded e"
    using e' by (auto simp: bind_eq_Some_conv dest!: count_same releasePacket_same split: if_splits)
  then show ?thesis using m by (simp add: one_more_def queued_def)
qed

lemma routeCapture_one_more:
  assumes "routeCapture clock view e = Some e'"
  shows "one_more e e'"
proof -
  define f where "f = e\<lparr>en_counters := (en_counters e)\<lparr>ec_captured := ec_captured (en_counters e) + 1\<rparr>\<rparr>"
  have refl: "one_more f f" by (simp add: one_more_def)
  have udp: "route_udp meta frame f = Some e' \<Longrightarrow> one_more f e'" for meta frame
    using refl by (auto simp: route_udp_def Let_def bind_eq_Some_conv intro: enqueue_one_more split: if_splits)
  have "one_more f e'"
    using assms refl udp unfolding routeCapture_def Let_def f_def [symmetric]
    by (auto simp: bind_eq_Some_conv intro: enqueue_one_more split: if_splits)
  then show ?thesis by (simp add: one_more_def f_def queued_def)
qed

lemma outside_work:
  assumes "act vd a s = Some t" "enabled a s" "sy_phase s \<noteq> Capturing" "\<not> internal a"
  shows "work t \<le> work s + (if is_capture a then 4 else 0)"
proof (cases a)
  case (Capture clock view)
  then obtain e where e: "routeCapture clock view (sy_engine s) = Some e" "t = s\<lparr>sy_engine := e\<rparr>"
    using assms(1) by (auto simp: act_def do_capture_def bind_eq_Some_conv)
  show ?thesis using routeCapture_one_more [OF e(1)] by (simp add: e(2) work_def one_more_def is_capture_def Capture)
next
  case (Tick now)
  then obtain st es where st: "fuse_tick now (en_state (sy_engine s)) = Some (st, es)"
    using assms(1) by (auto simp: act_def do_tick_def bind_eq_Some_conv)
  obtain e out where d: "deliver (sy_handler s) es ((sy_engine s)\<lparr>en_state := st\<rparr>, sy_delivered s) = (e, out)" by fastforce
  then have "t = s\<lparr>sy_engine := e, sy_delivered := out\<rparr>" using assms(1) st Tick by (auto simp: act_def do_tick_def bind_eq_Some_conv)
  then show ?thesis using deliver_same(3,5) [OF d] by (simp add: work_def queued_def)
qed (use assms in \<open>auto simp: internal_def enabled_def\<close>)

lemma perform_work:
  assumes "run_inv s" "vendor_total vd" "perform vd as s = Some t" "sy_phase s \<noteq> Capturing"
  shows "run_inv t \<and> length (filter internal as) + work t \<le> work s + 4 * length (filter is_capture as)"
  using assms(1,3,4)
proof (induction as arbitrary: s)
  case (Cons a as)
  obtain u where u: "enabled a s" "act vd a s = Some u" "perform vd as u = Some t"
    using Cons.prems(2) by (auto simp: bind_eq_Some_conv split: if_splits)
  have "run_inv u" using runs_SomeD [OF act_runs [OF Cons.prems(1) u(1) assms(2)] u(2)] .
  moreover have "internal a \<Longrightarrow> work u < work s" using act_work [OF Cons.prems(1) u(1) _ u(2)] .
  moreover have "internal a \<Longrightarrow> \<not> is_capture a" by (simp add: internal_def is_capture_def split: action.splits)
  ultimately show ?case
    using Cons.IH [of u] u(3) outside_work [OF u(2,1) Cons.prems(3)] step_phase(1) [OF u(2,1) Cons.prems(3)] by fastforce
qed simp

section \<open>Snapshots\<close>

lemma dev_Key_shown [simp]: "dev_Key (shown d) = dev_Key d"
  by (simp add: shown_def)

lemma snapshot_devices_shows:
  "\<exists>out'. snapshot_devices ds out = Some out' \<and>
     map shown (live out') = map shown (live out) @ map (\<lambda>d. shown (de_device d)) (filter de_used ds)"
proof (induction ds arbitrary: out)
  case (Cons d ds)
  show ?case
  proof (cases "de_used d")
    case True
    define n where "n = length (live out)"
    define out1 where "out1 = (slab_grow zero_device out)\<lparr>live := (live (slab_grow zero_device out))
      [n := cloneDeviceInto (live (slab_grow zero_device out) ! n) (Some (de_device d))]\<rparr>"
    have "map shown (live out1) = map shown (live out) @ [shown (de_device d)]"
      by (simp add: out1_def n_def slab_grow_def split: list.splits)
    moreover have "snapshot_devices (d # ds) out = snapshot_devices ds out1"
      using True by (simp add: out1_def n_def Let_def)
    ultimately show ?thesis using Cons.IH [of out1] True by auto
  qed (use Cons.IH [of out] in simp)
qed simp

lemma snapshot_links_shows:
  "\<exists>out'. snapshot_links ls out = Some out' \<and> live out' = live out @ map le_link (filter le_used ls)"
proof (induction ls arbitrary: out)
  case (Cons l ls)
  show ?case
  proof (cases "le_used l")
    case True
    define n where "n = length (live out)"
    define out1 where "out1 = (slab_grow zero_link out)\<lparr>live := (live (slab_grow zero_link out))[n := le_link l]\<rparr>"
    have "live out1 = live out @ [le_link l]"
      by (simp add: out1_def n_def slab_grow_def split: list.splits)
    moreover have "snapshot_links (l # ls) out = snapshot_links ls out1"
      using True by (simp add: out1_def n_def Let_def)
    ultimately show ?thesis using Cons.IH [of out1] True by auto
  qed (use Cons.IH [of out] in simp)
qed simp

lemma used_link_owner:
  assumes "fusion_inv s" "i < length (fs_links s)" "le_used (fs_links s ! i)"
  shows "\<exists>di < length (fs_devices s). de_used (fs_devices s ! di) \<and>
    link_Device (le_link (fs_links s ! i)) = dev_Key (de_device (fs_devices s ! di))"
proof -
  have I: "link_inv {} {} {} s" using fusion_invD [OF assms(1)] by blast
  then have tags: "link_tags {} (fs_links s) (fs_devices s)" by (simp add: link_inv_def)
  obtain di where di: "di < length (fs_devices s)" "le_device (fs_links s ! i) = Some di" "de_used (fs_devices s ! di)"
    by (rule link_ownerD [OF I assms(2,3)])
  then have "link_Device (le_link (fs_links s ! i)) = dev_Key (de_device (fs_devices s ! di))"
    using tags assms(2,3) by (simp add: link_tags_def)
  then show ?thesis using di by blast
qed

section \<open>The properties\<close>

text \<open>
  (C3) No step of a run can panic or block where the code does not expect it: in every state of the
  system of goroutines that a run of a new engine can reach, in any order of steps, for any packets and
  times, every step that a goroutine can begin also ends. In particular the send of an envelope, the
  acknowledgement and the release of a slot find room in their channels, no channel is closed twice, and
  none is sent to after it is closed.
\<close>

theorem run_steps_safe:
  assumes "New goos re_compile config = Some (Inr e)" "vendor_total vd" "running vd e handler s" "enabled a s"
  shows "\<exists>t. act vd a s = Some t"
proof -
  have "run_inv s" using running_inv [OF assms(3) fresh_start assms(2)] New_fresh [OF assms(1)] by blast
  from runs_exD [OF act_runs [OF this assms(4,2)]] show ?thesis by blast
qed

lemma cancelled_run:
  obtains e s where "New ''linux'' (\<lambda>_. None) zero_config = Some (Inr e)" "running no_registry e True s" "sy_phase s = Cancelled"
proof -
  obtain e where e: "New ''linux'' (\<lambda>_. None) zero_config = Some (Inr e)" by (rule zero_config_New)
  have "running no_registry e True ((start_system True e)\<lparr>sy_phase := Cancelled\<rparr>)"
    by (rule running.step [OF running.start, where a = Cancel]) (simp_all add: act_def enabled_def start_system_def)
  then show thesis using e that by simp
qed

lemma run_steps_safe_witness:
  "\<exists>e s. running no_registry e True s \<and> sy_phase s = Cancelled \<and> (\<exists>t. act no_registry CloseQueues s = Some t)"
proof -
  obtain e s where e: "New ''linux'' (\<lambda>_. None) zero_config = Some (Inr e)" "running no_registry e True s" "sy_phase s = Cancelled"
    by (rule cancelled_run)
  have "enabled CloseQueues s" using e(3) by (simp add: enabled_def)
  from run_steps_safe [OF e(1) no_registry_total e(2) this] e show ?thesis by blast
qed

text \<open>
  (C27) Packet slots are conserved: at any time of a run the free slots, the queued slots and those in the
  hands of the workers are together the slots that \<open>New\<close> made, that is one queue and one slot for every
  enabled protocol; at most four envelopes wait for the fusion loop; and when the run has ended every slot
  is free again.
\<close>

theorem slots_conserved:
  assumes "New goos re_compile config = Some (Inr e)" "vendor_total vd" "running vd e handler s"
  shows "length (ch_items (en_freePackets (sy_engine s))) + queued (sy_engine s) + held (sy_workers s) =
      ch_cap (en_freePackets (sy_engine s)) \<and>
    length (ch_items (en_decoded (sy_engine s))) \<le> 4 \<and>
    ch_cap (en_freePackets e) = slots (withDefaults goos config) \<and>
    (sy_phase s = Finished \<longrightarrow> length (ch_items (en_freePackets (sy_engine s))) = ch_cap (en_freePackets (sy_engine s)))"
proof -
  have F: "fresh e" "en_cfg e = withDefaults goos config" using New_fresh [OF assms(1)] by simp_all
  have inv: "run_inv s" using running_inv [OF assms(3) fresh_start [OF F(1)] assms(2)] .
  have "sy_phase s = Finished \<longrightarrow> length (ch_items (en_freePackets (sy_engine s))) = ch_cap (en_freePackets (sy_engine s))"
    using run_invD(6) [OF inv] finished_free [OF inv] by auto
  then show ?thesis
    using F run_invD(6) [OF inv] decoded_bound [OF inv] by (simp add: fresh_def)
qed

lemma slots_conserved_witness:
  "\<exists>e s. running no_registry e True s \<and> sy_phase s = Cancelled \<and>
     length (ch_items (en_freePackets (sy_engine s))) + queued (sy_engine s) + held (sy_workers s) =
       ch_cap (en_freePackets (sy_engine s))"
proof -
  obtain e s where e: "New ''linux'' (\<lambda>_. None) zero_config = Some (Inr e)" "running no_registry e True s" "sy_phase s = Cancelled"
    by (rule cancelled_run)
  from slots_conserved [OF e(1) no_registry_total e(2)] e show ?thesis by blast
qed

text \<open>
  (C5) A cancelled run ends. From any state after the cancellation, in any order of steps, with any ticks
  and with the packets that the backends still hand over before they end: the goroutines of the run make
  at most \<open>work s\<close> steps, and four more for each such packet; once the queues are closed no packet comes;
  and as long as the run has not ended there is a next step of the run itself, which does not panic. So
  queued packets are decoded and fused before the end, no deadlock is possible, and the ticks, of which
  there may be any number while the others rest, never add to what is left to do.
\<close>

theorem cancelled_run_ends:
  assumes "New goos re_compile config = Some (Inr e)" "vendor_total vd" "running vd e handler s" "sy_phase s \<noteq> Capturing"
    and "perform vd as s = Some t"
  shows "length (filter internal as) \<le> work s + 4 * length (filter is_capture as) \<and>
    (sy_phase s \<noteq> Cancelled \<longrightarrow> filter is_capture as = []) \<and>
    (sy_phase t = Finished \<or> (\<exists>a u. internal a \<and> enabled a t \<and> act vd a t = Some u))"
proof -
  have inv: "run_inv s" using running_inv [OF assms(3) fresh_start assms(2)] New_fresh [OF assms(1)] by blast
  from perform_work [OF inv assms(2,5,4)]
  have t: "run_inv t" "length (filter internal as) \<le> work s + 4 * length (filter is_capture as)" by simp_all
  note ph = perform_phase [OF assms(5,4)]
  have "sy_phase t = Finished \<or> (\<exists>a u. internal a \<and> enabled a t \<and> act vd a t = Some u)"
    using progress [OF t(1)] ph runs_exD [OF act_runs [OF t(1) _ assms(2)]] by blast
  then show ?thesis using t(2) ph by blast
qed

lemma cancelled_run_ends_witness:
  "\<exists>e s t. running no_registry e True s \<and> sy_phase s = Cancelled \<and> perform no_registry [Tick 0, CloseQueues, Tick 0] s = Some t \<and>
     1 \<le> work s \<and> (\<exists>a u. internal a \<and> enabled a t \<and> act no_registry a t = Some u)"
proof -
  obtain e s where e: "New ''linux'' (\<lambda>_. None) zero_config = Some (Inr e)" "running no_registry e True s" "sy_phase s = Cancelled"
    by (rule cancelled_run)
  have inv: "run_inv s" using running_inv [OF e(2) fresh_start no_registry_total] New_fresh [OF e(1)] by blast
  have step: "\<exists>t. run_inv t \<and> act no_registry a s = Some t" if "run_inv s" "enabled a s" for a s
    using runs_exD [OF act_runs [OF that no_registry_total]] by blast
  have "enabled (Tick 0) s" by (simp add: enabled_def e(3))
  then obtain s1 where s1: "run_inv s1" "act no_registry (Tick 0) s = Some s1" using step [OF inv] by blast
  then have p1: "sy_phase s1 = Cancelled" using act_phase [OF s1(2)] e(3) by simp
  then have "enabled CloseQueues s1" by (simp add: enabled_def)
  then obtain s2 where s2: "run_inv s2" "act no_registry CloseQueues s1 = Some s2" using step [OF s1(1)] by blast
  then have p2: "sy_phase s2 = Draining" using act_phase [OF s2(2)] by simp
  then have "enabled (Tick 0) s2" by (simp add: enabled_def)
  then obtain t where t: "act no_registry (Tick 0) s2 = Some t" using step [OF s2(1)] by blast
  then have p3: "sy_phase t \<noteq> Finished" using act_phase [OF t] p2 by simp
  have p: "perform no_registry [Tick 0, CloseQueues, Tick 0] s = Some t"
    using s1 s2 t p1 p2 e(3) by (simp add: enabled_def)
  have "filter internal [Tick 0, CloseQueues, Tick 0] = [CloseQueues]" "filter is_capture [Tick 0, CloseQueues, Tick 0] = []"
    by (simp_all add: internal_def is_capture_def)
  with cancelled_run_ends [OF e(1) no_registry_total e(2) _ p] p3 e(3)
  have "1 \<le> work s \<and> (\<exists>a u. internal a \<and> enabled a t \<and> act no_registry a t = Some u)" by simp
  with e(2,3) p show ?thesis by blast
qed

text \<open>
  (C37) The guards of a run: a closed engine refuses to run, an engine runs once only and never twice at a
  time, closing cancels the registered run, and closing again does nothing. But a call of \<open>Close\<close> between
  the checks of \<open>Run\<close> and the registration of its cancel function is lost: it cancels nothing, the closed
  engine runs, and no later call of \<open>Close\<close> cancels the run.
\<close>

theorem run_guards:
  assumes "New goos re_compile config = Some (Inr e)"
  shows "fst (Run_enter ctx_done (snd (Close e))) = Some ErrClosed \<and>
    (let e1 = snd (Run_enter False e); e2 = snd (Run_open None (Run_register e1)) in
       fst (Run_enter False e) = None \<and>
       fst (Run_enter False e1) = Some ErrAlreadyRunning \<and> fst (Run_enter False e2) = Some ErrAlreadyRunning \<and>
       fst (Run_enter False (Run_leave e2)) = Some ErrAlreadyRunning \<and>
       fst (Close e2) \<and> \<not> fst (Close (snd (Close e2))) \<and> \<not> fst (Close (Run_leave e2)) \<and>
       fst (Run_enter False (snd (Run_open (Some m) (Run_register e1)))) = None) \<and>
    (let e1 = snd (Run_enter False e); e2 = snd (Close e1); e3 = snd (Run_open None (Run_register e2)) in
       \<not> fst (Close e1) \<and> en_closed e3 \<and> en_cancel e3 \<and> \<not> fst (Close e3))"
  using New_flags [OF assms]
  by (simp add: Run_enter_def Run_register_def Run_leave_def Run_open_def Close_def Let_def)

lemma run_guards_witness: "\<exists>e. fst (Run_enter False (snd (Close e))) = Some ErrClosed \<and> fst (Run_enter False e) = None"
proof -
  obtain e where "New ''linux'' (\<lambda>_. None) zero_config = Some (Inr e)" by (rule zero_config_New)
  from run_guards [OF this, of False] show ?thesis by (auto simp: Let_def)
qed

lemma running_engine_ok:
  assumes "New goos re_compile config = Some (Inr e)" "vendor_total vd" "running vd e handler s"
  shows "engine_ok (sy_engine s)"
  using running_inv [OF assms(3) fresh_start assms(2)] New_fresh [OF assms(1)] run_invD(1) by blast

lemma snapshot_run:
  assumes "engine_ok e"
  shows "\<exists>sn. take_snapshot e (Some old) = Some (Some sn) \<and>
    map shown (live (snap_Devices sn)) = map (\<lambda>d. shown (de_device d)) (filter de_used (fs_devices (en_state e))) \<and>
    live (snap_Links sn) = map le_link (filter le_used (fs_links (en_state e))) \<and>
    link_Device ` set (live (snap_Links sn)) \<subseteq> dev_Key ` set (live (snap_Devices sn))"
proof -
  let ?s = "en_state e"
  have inv: "fusion_inv ?s" using assms by (simp add: engine_ok_def)
  obtain ds ls where d: "snapshot_devices (fs_devices ?s) (slab_reset Device_Reset (snap_Devices old)) = Some ds"
      "map shown (live ds) = map (\<lambda>d. shown (de_device d)) (filter de_used (fs_devices ?s))"
    and l: "snapshot_links (fs_links ?s) (slab_reset resetLink (snap_Links old)) = Some ls"
      "live ls = map le_link (filter le_used (fs_links ?s))"
    using snapshot_devices_shows [of "fs_devices ?s" "slab_reset Device_Reset (snap_Devices old)"]
      snapshot_links_shows [of "fs_links ?s" "slab_reset resetLink (snap_Links old)"] by auto
  have "dev_Key ` set (live ds) = set (map dev_Key (map shown (live ds)))" by (simp add: image_image)
  also have "\<dots> = (\<lambda>d. dev_Key (de_device d)) ` {d \<in> set (fs_devices ?s). de_used d}"
    by (simp only: d(2)) (simp add: image_image)
  finally have keys: "dev_Key ` set (live ds) = (\<lambda>d. dev_Key (de_device d)) ` {d \<in> set (fs_devices ?s). de_used d}" .
  have "link_Device ` set (live ls) \<subseteq> dev_Key ` set (live ds)"
  proof
    fix k
    assume "k \<in> link_Device ` set (live ls)"
    then obtain i where i: "i < length (fs_links ?s)" "le_used (fs_links ?s ! i)" "k = link_Device (le_link (fs_links ?s ! i))"
      by (auto simp: l(2) in_set_conv_nth)
    then show "k \<in> dev_Key ` set (live ds)"
      using used_link_owner [OF inv i(1,2)] nth_mem unfolding keys by blast
  qed
  then show ?thesis using d l by (simp add: take_snapshot_def)
qed

text \<open>
  (C30) A snapshot of any state of a run succeeds and shows the used devices and the used links in the order
  of their slots, whatever the reused snapshot held before, and every link of the snapshot names the key
  of a device of the snapshot.
\<close>

theorem snapshot_shows:
  assumes "New goos re_compile config = Some (Inr e)" "vendor_total vd" "running vd e handler s"
  shows "\<exists>sn. take_snapshot (sy_engine s) (Some old) = Some (Some sn) \<and>
    map shown (live (snap_Devices sn)) = map (\<lambda>d. shown (de_device d)) (filter de_used (fs_devices (en_state (sy_engine s)))) \<and>
    live (snap_Links sn) = map le_link (filter le_used (fs_links (en_state (sy_engine s)))) \<and>
    link_Device ` set (live (snap_Links sn)) \<subseteq> dev_Key ` set (live (snap_Devices sn))"
  by (rule snapshot_run [OF running_engine_ok [OF assms]])

lemma snapshot_shows_witness:
  "\<exists>e sn. take_snapshot e (Some \<lparr>snap_Devices = slab_empty, snap_Links = slab_empty\<rparr>) = Some (Some sn) \<and>
     link_Device ` set (live (snap_Links sn)) \<subseteq> dev_Key ` set (live (snap_Devices sn))"
proof -
  obtain e s where e: "New ''linux'' (\<lambda>_. None) zero_config = Some (Inr e)" "running no_registry e True s" "sy_phase s = Cancelled"
    by (rule cancelled_run)
  from snapshot_shows [OF e(1) no_registry_total e(2)] show ?thesis by blast
qed

end
