(* ===== verification/StreamQueue.thy ===== *)
theory StreamQueue
  imports Engine "HOL-Library.AList"
begin

text \<open>
  The model of \<open>pkg/omnidiscover/stream.go\<close> and of \<open>Engine.Stream\<close>: the bounded queue of owned events
  that merges events of one link, and the pump that moves its events to the channel of the consumer. The
  locale \<open>event_queue\<close> is the contract of the queue: a list of links with their events, in the order in
  which the links entered, where a new event of a waiting link is merged in place.

  Two steps of the producer are apart, because the mutex is released between them: the change of the
  queue, and the notification of the pump.
\<close>

section \<open>The queue\<close>

record ownedStreamQueue =
  sq_max :: int
  sq_pending :: "(LinkKey \<times> Event) list"
  sq_order :: "LinkKey list"
  sq_head :: nat
  sq_notify :: "unit chan"
  sq_done :: bool
  sq_closed :: bool
  sq_dropped :: u64

text \<open>\<open>done\<close> is a channel that is only ever closed. The counter of dropped events starts at the value it has.\<close>

definition newOwnedStreamQueue :: "int \<Rightarrow> u64 \<Rightarrow> ownedStreamQueue" where
  "newOwnedStreamQueue m dropped =
     \<lparr>sq_max = m, sq_pending = [], sq_order = [], sq_head = 0, sq_notify = make_chan 1, sq_done = False,
      sq_closed = False, sq_dropped = dropped\<rparr>"

definition zero_owned :: Event where
  "zero_owned = \<lparr>ev_Kind = EventNone, ev_Changed = 0, ev_Device = zero_device, ev_Link = zero_link\<rparr>"

text \<open>An event of a link that waits already: the last kind wins, but an added link stays added when it changes.\<close>

definition coalesce :: "Event \<Rightarrow> EventView \<Rightarrow> Event" where
  "coalesce existing view =
     (let e = cloneEventInto existing view;
          e = (if ev_Kind existing = EventAdded \<and> view_Kind view = EventChanged then e\<lparr>ev_Kind := EventAdded\<rparr> else e)
      in e\<lparr>ev_Changed := ev_Changed e OR ev_Changed existing\<rparr>)"

text \<open>The part of \<open>enqueue\<close> under the mutex; the flag tells that the pump is to be notified.\<close>

definition enqueue_locked :: "EventView \<Rightarrow> ownedStreamQueue \<Rightarrow> bool \<times> ownedStreamQueue" where
  "enqueue_locked view q =
     (case view_Link view of
        None \<Rightarrow> (False, q)
      | Some l \<Rightarrow>
          (let key = link_Key l
           in if sq_closed q then (False, q)
              else (case map_of (sq_pending q) key of
                  Some existing \<Rightarrow> (False, q\<lparr>sq_pending := AList.update key (coalesce existing view) (sq_pending q)\<rparr>)
                | None \<Rightarrow>
                    if int (length (sq_pending q)) \<ge> sq_max q then (False, q\<lparr>sq_dropped := sq_dropped q + 1\<rparr>)
                    else (True, q\<lparr>sq_pending := AList.update key (cloneEventInto zero_owned view) (sq_pending q),
                                  sq_order := sq_order q @ [key]\<rparr>))))"

definition notify_pump :: "ownedStreamQueue \<Rightarrow> ownedStreamQueue run" where
  "notify_pump q = do {
     (_, c) \<leftarrow> try_send () (sq_notify q);
     Some (q\<lparr>sq_notify := c\<rparr>)
   }"

definition queue_enqueue :: "EventView \<Rightarrow> ownedStreamQueue \<Rightarrow> ownedStreamQueue run" where
  "queue_enqueue view q = (case enqueue_locked view q of (notify, q) \<Rightarrow> if notify then notify_pump q else Some q)"

definition compact_queue :: "ownedStreamQueue \<Rightarrow> ownedStreamQueue" where
  "compact_queue q =
     (if sq_head q > 1024 \<and> sq_head q * 2 \<ge> length (sq_order q)
      then q\<lparr>sq_order := drop (sq_head q) (sq_order q), sq_head := 0\<rparr>
      else q)"

function pop :: "ownedStreamQueue \<Rightarrow> Event option \<times> ownedStreamQueue" where
  "pop q =
     (if sq_head q < length (sq_order q)
      then let key = sq_order q ! sq_head q;
               q = q\<lparr>sq_head := sq_head q + 1\<rparr>
           in case map_of (sq_pending q) key of
                Some event \<Rightarrow> (Some event, compact_queue (q\<lparr>sq_pending := AList.delete key (sq_pending q)\<rparr>))
              | None \<Rightarrow> pop q
      else (None, compact_queue q))"
  by pat_completeness auto
termination
  by (relation "measure (\<lambda>q. length (sq_order q) - sq_head q)") auto

declare pop.simps [simp del]

definition close_queue :: "ownedStreamQueue \<Rightarrow> ownedStreamQueue" where
  "close_queue q = (if \<not> sq_closed q then q\<lparr>sq_closed := True, sq_done := True\<rparr> else q)"

section \<open>The contract of the queue\<close>

type_synonym waiting = "(LinkKey \<times> Event) list"

definition put_waiting :: "nat \<Rightarrow> EventView \<Rightarrow> waiting \<Rightarrow> waiting" where
  "put_waiting n view xs =
     (case view_Link view of
        None \<Rightarrow> xs
      | Some l \<Rightarrow>
          if link_Key l \<in> fst ` set xs then map (\<lambda>(k, e). (k, if k = link_Key l then coalesce e view else e)) xs
          else if length xs < n then xs @ [(link_Key l, cloneEventInto zero_owned view)]
          else xs)"

lemma keys_put_waiting: "\<exists>ks. map fst (put_waiting n view xs) = map fst xs @ ks"
  by (auto simp: put_waiting_def o_def case_prod_unfold split: option.splits)

text \<open>What a client does with the queue: it puts a view, or takes an event.\<close>

datatype queue_op = Put_view EventView | Take_event

fun perform_ops :: "(EventView \<Rightarrow> 'q \<Rightarrow> 'q) \<Rightarrow> ('q \<Rightarrow> Event option \<times> 'q) \<Rightarrow> queue_op list \<Rightarrow> 'q \<Rightarrow> 'q" where
  "perform_ops put take_event [] q = q"
| "perform_ops put take_event (Put_view view # ops) q = perform_ops put take_event ops (put view q)"
| "perform_ops put take_event (Take_event # ops) q = perform_ops put take_event ops (snd (take_event q))"

locale event_queue =
  fixes ok :: "'q \<Rightarrow> bool"
    and waiting :: "'q \<Rightarrow> waiting"
    and bound :: "'q \<Rightarrow> nat"
    and put :: "EventView \<Rightarrow> 'q \<Rightarrow> 'q"
    and take_event :: "'q \<Rightarrow> Event option \<times> 'q"
  assumes put_ok: "ok q \<Longrightarrow> ok (put view q)" "ok q \<Longrightarrow> bound (put view q) = bound q"
    and put_law: "ok q \<Longrightarrow> waiting (put view q) = put_waiting (bound q) view (waiting q)"
    and take_ok: "ok q \<Longrightarrow> ok (snd (take_event q))" "ok q \<Longrightarrow> bound (snd (take_event q)) = bound q"
    and take_law: "ok q \<Longrightarrow> fst (take_event q) = map_option snd (case waiting q of [] \<Rightarrow> None | x # _ \<Rightarrow> Some x)"
      "ok q \<Longrightarrow> waiting (snd (take_event q)) = tl (waiting q)"
    and keys: "ok q \<Longrightarrow> (k, e) \<in> set (waiting q) \<Longrightarrow> link_Key (ev_Link e) = k"
      "ok q \<Longrightarrow> distinct (map fst (waiting q))" "ok q \<Longrightarrow> length (waiting q) \<le> bound q"
begin

lemma perform_ok: "ok q \<Longrightarrow> ok (perform_ops put take_event ops q) \<and> bound (perform_ops put take_event ops q) = bound q"
proof (induction ops arbitrary: q)
  case (Cons a ops)
  then show ?case by (cases a) (auto simp: put_ok take_ok)
qed simp

text \<open>No link is overtaken: what waits at position \<open>n\<close> is at the head after \<open>n\<close> events have been taken.\<close>

lemma position:
  assumes "ok q" "n < length (waiting q)" "length (filter ((=) Take_event) ops) \<le> n"
  shows "n - length (filter ((=) Take_event) ops) < length (waiting (perform_ops put take_event ops q)) \<and>
    fst (waiting (perform_ops put take_event ops q) ! (n - length (filter ((=) Take_event) ops))) = fst (waiting q ! n)"
  using assms
proof (induction ops arbitrary: q n)
  case (Cons a ops)
  show ?case
  proof (cases a)
    case (Put_view view)
    obtain ks where ks: "map fst (waiting (put view q)) = map fst (waiting q) @ ks"
      using keys_put_waiting put_law [OF Cons.prems(1)] by metis
    have len: "n < length (waiting (put view q))" using arg_cong [OF ks, of length] Cons.prems(2) by simp
    have "map fst (waiting (put view q)) ! n = map fst (waiting q) ! n" using Cons.prems(2) by (simp add: ks nth_append)
    then have "fst (waiting (put view q) ! n) = fst (waiting q ! n)" using len Cons.prems(2) by simp
    then show ?thesis using Cons.IH [of "put view q" n] Cons.prems(1,3) put_ok(1) len Put_view by simp
  next
    case Take_event
    obtain m where n: "n = Suc m" using Cons.prems(3) Take_event by (cases n) simp_all
    have "m < length (waiting (snd (take_event q)))" using Cons.prems(1,2) n take_law(2) by simp
    moreover have "fst (waiting (snd (take_event q)) ! m) = fst (waiting q ! n)"
      using Cons.prems(1,2) n take_law(2) by (simp add: nth_tl)
    ultimately show ?thesis using Cons.IH [of "snd (take_event q)" m] Cons.prems(1,3) n take_ok(1) Take_event by simp
  qed
qed simp

lemma served_in_turn:
  assumes "ok q" "n < length (waiting q)" "length (filter ((=) Take_event) ops) = n"
  shows "\<exists>e. fst (take_event (perform_ops put take_event ops q)) = Some e \<and> link_Key (ev_Link e) = fst (waiting q ! n)"
proof -
  have p: "0 < length (waiting (perform_ops put take_event ops q))" "fst (waiting (perform_ops put take_event ops q) ! 0) = fst (waiting q ! n)"
    using position [OF assms(1,2), of ops] assms(3) by simp_all
  then obtain k e xs where w: "waiting (perform_ops put take_event ops q) = (k, e) # xs" by (cases "waiting (perform_ops put take_event ops q)") auto
  have o: "ok (perform_ops put take_event ops q)" using perform_ok assms(1) by blast
  have "link_Key (ev_Link e) = k" using keys(1) [OF o] w by simp
  then show ?thesis using take_law(1) [OF o] w p(2) by simp
qed

end

section \<open>The code keeps the contract\<close>

definition queue_ok :: "ownedStreamQueue \<Rightarrow> bool" where
  "queue_ok q =
     (distinct (map fst (sq_pending q)) \<and> distinct (drop (sq_head q) (sq_order q)) \<and>
      set (drop (sq_head q) (sq_order q)) = fst ` set (sq_pending q) \<and> sq_head q \<le> length (sq_order q) \<and>
      int (length (sq_pending q)) \<le> sq_max q \<and> (\<forall>(k, e) \<in> set (sq_pending q). link_Key (ev_Link e) = k) \<and>
      ch_cap (sq_notify q) = 1 \<and> \<not> ch_closed (sq_notify q) \<and> length (ch_items (sq_notify q)) \<le> 1 \<and>
      sq_done q = sq_closed q)"

definition queue_waiting :: "ownedStreamQueue \<Rightarrow> waiting" where
  "queue_waiting q = map (\<lambda>k. (k, the (map_of (sq_pending q) k))) (drop (sq_head q) (sq_order q))"

lemma keys_waiting: "fst ` set (queue_waiting q) = set (drop (sq_head q) (sq_order q))"
  by (simp add: queue_waiting_def image_image)

lemma length_waiting: "length (queue_waiting q) = length (sq_order q) - sq_head q"
  by (simp add: queue_waiting_def)

lemma map_of_key: "key \<in> fst ` set xs \<Longrightarrow> \<exists>e. map_of xs key = Some e"
  by (metis domIff dom_map_of_conv_image_fst not_None_eq)

lemma coalesce_key:
  assumes "view_Link view = Some l"
  shows "link_Key (ev_Link (coalesce e view)) = link_Key l" "link_Key (ev_Link (cloneEventInto e view)) = link_Key l"
  using assms by (simp_all add: coalesce_def Let_def cloneEventInto_def)

lemma new_queue_ok: "0 \<le> m \<Longrightarrow> queue_ok (newOwnedStreamQueue m dropped)"
  by (simp add: queue_ok_def newOwnedStreamQueue_def make_chan_def)

lemma in_set_update: "distinct (map fst xs) \<Longrightarrow> (k, e) \<in> set (AList.update key v xs) \<Longrightarrow> (k, e) = (key, v) \<or> (k, e) \<in> set xs"
  by (induction xs) (auto split: if_splits)

lemma length_update: "length (AList.update key v xs) = (if key \<in> fst ` set xs then length xs else length xs + 1)"
  by (induction xs) auto

lemma enqueue_ok:
  assumes q: "queue_ok q"
  shows "queue_ok (snd (enqueue_locked view q))"
proof (cases "view_Link view")
  case None
  then show ?thesis using q by (simp add: enqueue_locked_def)
next
  case (Some l)
  have new: "\<forall>(k, e) \<in> set (AList.update (link_Key l) v (sq_pending q)). link_Key (ev_Link e) = k"
    if "link_Key (ev_Link v) = link_Key l" for v
    using q that in_set_update unfolding queue_ok_def by fastforce
  show ?thesis
  proof (cases "map_of (sq_pending q) (link_Key l)")
    case (Some e)
    have k: "link_Key l \<in> fst ` set (sq_pending q)" using map_of_SomeD [OF Some] by force
    then have s: "fst ` set (AList.update (link_Key l) v (sq_pending q)) = fst ` set (sq_pending q)" for v
      using AList.dom_update [of "link_Key l" v "sq_pending q"] by auto
    note n = new [OF coalesce_key(1) [OF \<open>view_Link view = Some l\<close>, of e]]
    show ?thesis
      using q \<open>view_Link view = Some l\<close> Some k s length_update [of "link_Key l" _ "sq_pending q"] n
      by (simp add: enqueue_locked_def Let_def queue_ok_def distinct_update)
  next
    case None
    have k: "link_Key l \<notin> fst ` set (sq_pending q)" using None by (simp add: map_of_eq_None_iff)
    then have s: "fst ` set (AList.update (link_Key l) v (sq_pending q)) = insert (link_Key l) (fst ` set (sq_pending q))" for v
      using AList.dom_update [of "link_Key l" v "sq_pending q"] by simp
    note n = new [OF coalesce_key(2) [OF \<open>view_Link view = Some l\<close>, of zero_owned]]
    show ?thesis
      using q \<open>view_Link view = Some l\<close> None k s length_update [of "link_Key l" _ "sq_pending q"] n
      by (auto simp: enqueue_locked_def Let_def queue_ok_def distinct_update)
  qed
qed

lemma enqueue_max: "sq_max (snd (enqueue_locked view q)) = sq_max q"
  by (simp add: enqueue_locked_def Let_def split: option.splits)

lemma enqueue_waiting:
  assumes q: "queue_ok q" and o: "\<not> sq_closed q"
  shows "queue_waiting (snd (enqueue_locked view q)) = put_waiting (nat (sq_max q)) view (queue_waiting q)"
proof (cases "view_Link view")
  case None
  then show ?thesis by (simp add: enqueue_locked_def put_waiting_def)
next
  case (Some l)
  let ?ks = "drop (sq_head q) (sq_order q)"
  have ks: "set ?ks = fst ` set (sq_pending q)" "distinct ?ks" "sq_head q \<le> length (sq_order q)" using q by (simp_all add: queue_ok_def)
  have len: "length (queue_waiting q) = length (sq_pending q)"
  proof -
    have "length ?ks = card (set ?ks)" using ks(2) by (simp only: distinct_card)
    also have "\<dots> = card (set (map fst (sq_pending q)))" by (simp add: ks(1))
    also have "\<dots> = length (sq_pending q)" using q by (simp only: queue_ok_def distinct_card length_map)
    finally show ?thesis by (simp add: queue_waiting_def)
  qed
  show ?thesis
  proof (cases "map_of (sq_pending q) (link_Key l)")
    case (Some e)
    then have k: "link_Key l \<in> fst ` set (sq_pending q)" using map_of_SomeD [OF Some] by force
    have "link_Key l \<in> fst ` set (queue_waiting q)" by (simp only: keys_waiting ks(1) k)
    then have "put_waiting (nat (sq_max q)) view (queue_waiting q) =
        map (\<lambda>(k, e). (k, if k = link_Key l then coalesce e view else e)) (queue_waiting q)"
      by (simp add: put_waiting_def \<open>view_Link view = Some l\<close>)
    moreover have "queue_waiting (snd (enqueue_locked view q)) =
        map (\<lambda>(k, e). (k, if k = link_Key l then coalesce e view else e)) (queue_waiting q)"
      using \<open>view_Link view = Some l\<close> Some o by (auto simp: enqueue_locked_def Let_def queue_waiting_def update_conv')
    ultimately show ?thesis by simp
  next
    case None
    have k: "link_Key l \<notin> fst ` set (sq_pending q)" using None by (simp add: map_of_eq_None_iff)
    have same: "map (\<lambda>k. (k, the (map_of (AList.update (link_Key l) v (sq_pending q)) k))) ?ks = queue_waiting q" for v
      unfolding queue_waiting_def
    proof (rule map_cong [OF refl])
      fix x
      assume "x \<in> set ?ks"
      then have "x \<noteq> link_Key l" using k by (metis ks(1))
      then show "(x, the (map_of (AList.update (link_Key l) v (sq_pending q)) x)) = (x, the (map_of (sq_pending q) x))"
        by (simp add: update_conv')
    qed
    show ?thesis
    proof (cases "int (length (sq_pending q)) \<ge> sq_max q")
      case True
      have "link_Key l \<notin> fst ` set (queue_waiting q)" by (simp only: keys_waiting ks(1) k not_False_eq_True)
      then have "put_waiting (nat (sq_max q)) view (queue_waiting q) = queue_waiting q"
        using True len by (simp add: put_waiting_def \<open>view_Link view = Some l\<close>)
      then show ?thesis
        using \<open>view_Link view = Some l\<close> None o True by (simp add: enqueue_locked_def Let_def queue_waiting_def)
    next
      case False
      have "queue_waiting (snd (enqueue_locked view q)) = queue_waiting q @ [(link_Key l, cloneEventInto zero_owned view)]"
        using \<open>view_Link view = Some l\<close> None o False ks(3) same
        by (simp add: enqueue_locked_def Let_def queue_waiting_def update_conv')
      moreover have "length (queue_waiting q) < nat (sq_max q)" using False len by simp
      moreover have "link_Key l \<notin> fst ` set (queue_waiting q)" by (simp only: keys_waiting ks(1) k not_False_eq_True)
      ultimately show ?thesis by (simp add: put_waiting_def \<open>view_Link view = Some l\<close>)
    qed
  qed
qed

lemma compact_same:
  assumes "queue_ok q"
  shows "queue_ok (compact_queue q)" "queue_waiting (compact_queue q) = queue_waiting q" "sq_max (compact_queue q) = sq_max q"
    "sq_closed (compact_queue q) = sq_closed q" "sq_notify (compact_queue q) = sq_notify q"
  using assms by (simp_all add: compact_queue_def queue_ok_def queue_waiting_def)

text \<open>The queue holds no key twice and none that is not pending, so \<open>pop\<close> never has to skip.\<close>

lemma pop_cases:
  assumes q: "queue_ok q"
  shows "queue_ok (snd (pop q)) \<and> sq_max (snd (pop q)) = sq_max q \<and> sq_closed (snd (pop q)) = sq_closed q \<and>
    sq_notify (snd (pop q)) = sq_notify q \<and> queue_waiting (snd (pop q)) = tl (queue_waiting q) \<and>
    fst (pop q) = map_option snd (case queue_waiting q of [] \<Rightarrow> None | x # _ \<Rightarrow> Some x)"
proof (cases "sq_head q < length (sq_order q)")
  case False
  then have "queue_waiting q = []" by (simp add: queue_waiting_def)
  moreover have "pop q = (None, compact_queue q)" using False by (subst pop.simps) simp
  ultimately show ?thesis using compact_same [OF q] by simp
next
  case True
  define k ks where "k = sq_order q ! sq_head q" and "ks = drop (sq_head q + 1) (sq_order q)"
  have d: "drop (sq_head q) (sq_order q) = k # ks" using True by (simp add: k_def ks_def Cons_nth_drop_Suc)
  have Q: "distinct (k # ks)" "insert k (set ks) = fst ` set (sq_pending q)" "distinct (map fst (sq_pending q))"
    using q d by (simp_all add: queue_ok_def)
  have "k \<in> fst ` set (sq_pending q)" using Q(2) by (metis insertI1)
  from map_of_key [OF this] obtain e where e: "map_of (sq_pending q) k = Some e" by (elim exE)
  define q' where "q' = q\<lparr>sq_head := sq_head q + 1, sq_pending := AList.delete k (sq_pending q)\<rparr>"
  have p: "pop q = (Some e, compact_queue q')"
    using True e by (subst pop.simps) (simp add: k_def [symmetric] q'_def)
  have "fst ` set (AList.delete k (sq_pending q)) = set ks"
  proof -
    have "fst ` set (AList.delete k (sq_pending q)) = set (removeAll k (map fst (sq_pending q)))"
      by (simp only: delete_keys [symmetric] set_map)
    then show ?thesis using Q(1,2) by auto
  qed
  moreover have "distinct (map fst (AList.delete k (sq_pending q)))" using Q(3) by (rule distinct_delete)
  moreover have "(k', e') \<in> set (AList.delete k (sq_pending q)) \<Longrightarrow> (k', e') \<in> set (sq_pending q)" for k' e'
    by (auto simp: AList.delete_eq)
  moreover have "length (AList.delete k (sq_pending q)) \<le> length (sq_pending q)" by (rule length_delete_le)
  ultimately have D: "fst ` set (sq_pending q') = set ks" "distinct (map fst (sq_pending q'))"
    "\<forall>(k, e) \<in> set (sq_pending q'). link_Key (ev_Link e) = k" "int (length (sq_pending q')) \<le> sq_max q"
    using q by (simp_all add: q'_def queue_ok_def) fastforce
  have d': "drop (sq_head q') (sq_order q') = ks" by (simp add: q'_def ks_def)
  have ok: "queue_ok q'"
    using q D Q(1) True unfolding queue_ok_def d' by (simp add: q'_def)
  have w: "queue_waiting q = (k, e) # queue_waiting q'"
  proof -
    have "x \<noteq> k" if "x \<in> set ks" for x using Q(1) that by auto
    then have "map (\<lambda>x. (x, the (map_of (sq_pending q) x))) ks = queue_waiting q'"
      unfolding queue_waiting_def d' by (simp add: q'_def)
    then show ?thesis using e by (simp add: queue_waiting_def [of q] d)
  qed
  show ?thesis using compact_same [OF ok] p w by (simp add: q'_def)
qed

lemma queue_keys:
  assumes q: "queue_ok q"
  shows "(k, e) \<in> set (queue_waiting q) \<Longrightarrow> link_Key (ev_Link e) = k" "distinct (map fst (queue_waiting q))"
    "length (queue_waiting q) \<le> nat (sq_max q)"
proof -
  let ?ks = "drop (sq_head q) (sq_order q)"
  have ks: "set ?ks = fst ` set (sq_pending q)" "distinct ?ks" "\<forall>(k, e) \<in> set (sq_pending q). link_Key (ev_Link e) = k"
    "int (length (sq_pending q)) \<le> sq_max q" "distinct (map fst (sq_pending q))"
    using q by (simp_all add: queue_ok_def)
  show "distinct (map fst (queue_waiting q))" using ks(2) by (simp add: queue_waiting_def o_def)
  have "length ?ks = card (set ?ks)" using ks(2) by (simp only: distinct_card)
  also have "\<dots> \<le> length (map fst (sq_pending q))" using card_length [of "map fst (sq_pending q)"] by (simp add: ks(1))
  finally show "length (queue_waiting q) \<le> nat (sq_max q)" using ks(4) by (simp add: queue_waiting_def)
  assume "(k, e) \<in> set (queue_waiting q)"
  then have k: "k \<in> set ?ks" "e = the (map_of (sq_pending q) k)" by (auto simp: queue_waiting_def)
  have "k \<in> fst ` set (sq_pending q)" using k(1) ks(1) by simp
  from map_of_key [OF this] obtain v where v: "map_of (sq_pending q) k = Some v" by (elim exE)
  have "(k, e) \<in> set (sq_pending q)" using map_of_SomeD [OF v] k(2) v by simp
  then show "link_Key (ev_Link e) = k" using ks(3) by auto
qed

text \<open>The open queue of the code is such a queue.\<close>

definition put_event :: "EventView \<Rightarrow> ownedStreamQueue \<Rightarrow> ownedStreamQueue" where
  "put_event view q = snd (enqueue_locked view q)"

interpretation owned: event_queue "\<lambda>q. queue_ok q \<and> \<not> sq_closed q" queue_waiting "\<lambda>q. nat (sq_max q)" put_event pop
proof unfold_locales
  fix q :: ownedStreamQueue and view :: EventView
  assume q: "queue_ok q \<and> \<not> sq_closed q"
  have "sq_closed (put_event view q) = sq_closed q"
    by (simp add: put_event_def enqueue_locked_def Let_def split: option.splits)
  then show "queue_ok (put_event view q) \<and> \<not> sq_closed (put_event view q)" using enqueue_ok q by (simp add: put_event_def)
  show "nat (sq_max (put_event view q)) = nat (sq_max q)" by (simp add: put_event_def enqueue_max)
  show "queue_waiting (put_event view q) = put_waiting (nat (sq_max q)) view (queue_waiting q)"
    using enqueue_waiting q by (simp add: put_event_def)
  show "queue_ok (snd (pop q)) \<and> \<not> sq_closed (snd (pop q))" "nat (sq_max (snd (pop q))) = nat (sq_max q)"
    "fst (pop q) = map_option snd (case queue_waiting q of [] \<Rightarrow> None | x # _ \<Rightarrow> Some x)"
    "queue_waiting (snd (pop q)) = tl (queue_waiting q)"
    using pop_cases q by simp_all
  show "distinct (map fst (queue_waiting q))" "length (queue_waiting q) \<le> nat (sq_max q)" using queue_keys q by blast+
  show "link_Key (ev_Link e) = k" if "(k, e) \<in> set (queue_waiting q)" for k e using queue_keys(1) q that by blast
qed

section \<open>The pump\<close>

text \<open>
  The pump takes an event and sends it, or waits; after the end of the run it drains the queue. The
  goroutines of a stream are the producer, which is the handler of the run and closes the queue at its
  end, the pump, and the consumer, which receives from \<open>out\<close>.
\<close>

datatype pump_phase = Popping | SendingEvent Event | WaitingPump | DrainingPump | DrainSending Event | PumpEnded

record stream =
  st_queue :: ownedStreamQueue
  st_notifying :: bool
  st_pump :: pump_phase
  st_out :: "Event chan"
  st_ctx_done :: bool

definition new_stream :: "int \<Rightarrow> u64 \<Rightarrow> stream" where
  "new_stream pending dropped =
     \<lparr>st_queue = newOwnedStreamQueue pending dropped, st_notifying = False, st_pump = Popping,
      st_out = make_chan (nat pending), st_ctx_done = False\<rparr>"

text \<open>
  \<open>PopEvent\<close> is a call of \<open>pop\<close>; the other steps of the pump are the cases of its three select statements.
\<close>

datatype stream_action =
  Produce EventView | Notify | EndRun | CancelContext | Receive
| PopEvent | SendEvent | SeeContext | SeeDone | SeeNotify

definition pop_event :: "stream \<Rightarrow> stream run" where
  "pop_event s =
     (case pop (st_queue s) of (e, q) \<Rightarrow>
        (case st_pump s of
           Popping \<Rightarrow> Some (s\<lparr>st_queue := q, st_pump := (case e of Some ev \<Rightarrow> SendingEvent ev | None \<Rightarrow> WaitingPump)\<rparr>)
         | DrainingPump \<Rightarrow> Some (s\<lparr>st_queue := q, st_pump := (case e of Some ev \<Rightarrow> DrainSending ev | None \<Rightarrow> PumpEnded)\<rparr>)
         | _ \<Rightarrow> None))"

definition send_event :: "stream \<Rightarrow> stream run" where
  "send_event s =
     (case st_pump s of
        SendingEvent ev \<Rightarrow> do { c \<leftarrow> send ev (st_out s); Some (s\<lparr>st_out := c, st_pump := Popping\<rparr>) }
      | DrainSending ev \<Rightarrow> do { c \<leftarrow> send ev (st_out s); Some (s\<lparr>st_out := c, st_pump := DrainingPump\<rparr>) }
      | _ \<Rightarrow> None)"

definition stream_act :: "stream_action \<Rightarrow> stream \<Rightarrow> stream run" where
  "stream_act a s = (case a of
       Produce view \<Rightarrow> (case enqueue_locked view (st_queue s) of (b, q) \<Rightarrow> Some (s\<lparr>st_queue := q, st_notifying := b\<rparr>))
     | Notify \<Rightarrow> do { q \<leftarrow> notify_pump (st_queue s); Some (s\<lparr>st_queue := q, st_notifying := False\<rparr>) }
     | EndRun \<Rightarrow> Some (s\<lparr>st_queue := close_queue (st_queue s)\<rparr>)
     | CancelContext \<Rightarrow> Some (s\<lparr>st_ctx_done := True\<rparr>)
     | Receive \<Rightarrow> Some (s\<lparr>st_out := snd (try_recv (st_out s))\<rparr>)
     | PopEvent \<Rightarrow> pop_event s
     | SendEvent \<Rightarrow> send_event s
     | SeeContext \<Rightarrow> Some (s\<lparr>st_pump := PumpEnded\<rparr>)
     | SeeDone \<Rightarrow> Some (s\<lparr>st_pump := (case st_pump s of WaitingPump \<Rightarrow> DrainingPump | _ \<Rightarrow> PumpEnded)\<rparr>)
     | SeeNotify \<Rightarrow> Some (s\<lparr>st_queue := (st_queue s)\<lparr>sq_notify := snd (try_recv (sq_notify (st_queue s)))\<rparr>, st_pump := Popping\<rparr>))"

definition stream_enabled :: "stream_action \<Rightarrow> stream \<Rightarrow> bool" where
  "stream_enabled a s = (case a of
       Produce view \<Rightarrow> \<not> st_notifying s
     | Notify \<Rightarrow> st_notifying s
     | EndRun \<Rightarrow> \<not> st_notifying s \<and> \<not> sq_closed (st_queue s)
     | CancelContext \<Rightarrow> True
     | Receive \<Rightarrow> ch_items (st_out s) \<noteq> []
     | PopEvent \<Rightarrow> st_pump s = Popping \<or> st_pump s = DrainingPump
     | SendEvent \<Rightarrow> (case st_pump s of SendingEvent ev \<Rightarrow> True | DrainSending ev \<Rightarrow> True | _ \<Rightarrow> False) \<and>
         length (ch_items (st_out s)) < ch_cap (st_out s)
     | SeeContext \<Rightarrow> st_ctx_done s \<and>
         (case st_pump s of SendingEvent ev \<Rightarrow> True | DrainSending ev \<Rightarrow> True | WaitingPump \<Rightarrow> True | _ \<Rightarrow> False)
     | SeeDone \<Rightarrow> sq_done (st_queue s) \<and> (case st_pump s of SendingEvent ev \<Rightarrow> True | WaitingPump \<Rightarrow> True | _ \<Rightarrow> False)
     | SeeNotify \<Rightarrow> st_pump s = WaitingPump \<and> ch_items (sq_notify (st_queue s)) \<noteq> [])"

text \<open>The steps that the stream makes by itself.\<close>

definition pump_step :: "stream_action \<Rightarrow> bool" where
  "pump_step a = (a \<in> {Notify, PopEvent, SendEvent, SeeContext, SeeDone, SeeNotify})"

inductive streaming :: "int \<Rightarrow> u64 \<Rightarrow> stream \<Rightarrow> bool" for pending dropped where
  start: "streaming pending dropped (new_stream pending dropped)"
| step: "streaming pending dropped s \<Longrightarrow> stream_enabled a s \<Longrightarrow> stream_act a s = Some t \<Longrightarrow> streaming pending dropped t"

text \<open>The error of the run, which the second channel of the stream delivers unless the context was cancelled.\<close>

definition stream_errors :: "bool \<Rightarrow> 'e option \<Rightarrow> 'e list" where
  "stream_errors cancelled err = (case err of Some e \<Rightarrow> if cancelled then [] else [e] | None \<Rightarrow> [])"

section \<open>The pump is a queue\<close>

definition in_hand :: "pump_phase \<Rightarrow> Event list" where
  "in_hand ph = (case ph of SendingEvent ev \<Rightarrow> [ev] | DrainSending ev \<Rightarrow> [ev] | _ \<Rightarrow> [])"

text \<open>All events that are on their way to the consumer, in order.\<close>

definition pipeline :: "stream \<Rightarrow> Event list" where
  "pipeline s = ch_items (st_out s) @ in_hand (st_pump s) @ map snd (queue_waiting (st_queue s))"

definition stream_inv :: "stream \<Rightarrow> bool" where
  "stream_inv s =
     (queue_ok (st_queue s) \<and> \<not> ch_closed (st_out s) \<and>
      (st_pump s = WaitingPump \<longrightarrow> queue_waiting (st_queue s) \<noteq> [] \<longrightarrow>
         ch_items (sq_notify (st_queue s)) \<noteq> [] \<or> st_notifying s))"

lemma enqueue_new:
  assumes "queue_ok q" "queue_waiting q = []"
  shows "queue_waiting (snd (enqueue_locked view q)) = [] \<or> fst (enqueue_locked view q)"
proof -
  have "sq_pending q = []"
    using assms keys_waiting [of q] by (auto simp: queue_ok_def queue_waiting_def)
  then show ?thesis
    using assms(2) by (auto simp: enqueue_locked_def Let_def queue_waiting_def split: option.splits)
qed

lemma enqueue_notify: "sq_notify (snd (enqueue_locked view q)) = sq_notify q"
  by (simp add: enqueue_locked_def Let_def split: option.splits)

lemma notify_pump_Some:
  assumes "queue_ok q"
  shows "\<exists>c. notify_pump q = Some (q\<lparr>sq_notify := c\<rparr>) \<and> ch_items c \<noteq> [] \<and> queue_ok (q\<lparr>sq_notify := c\<rparr>) \<and>
    queue_waiting (q\<lparr>sq_notify := c\<rparr>) = queue_waiting q"
proof (cases "ch_items (sq_notify q)")
  case Nil
  then show ?thesis
    using assms by (intro exI [of _ "(sq_notify q)\<lparr>ch_items := [()]\<rparr>"])
      (simp add: notify_pump_def try_send_def queue_ok_def queue_waiting_def)
next
  case Cons
  then show ?thesis
    using assms by (intro exI [of _ "sq_notify q"]) (simp add: notify_pump_def try_send_def queue_ok_def queue_waiting_def)
qed

lemma close_queue_ok: "queue_ok q \<Longrightarrow> queue_ok (close_queue q)" "queue_waiting (close_queue q) = queue_waiting q"
    "sq_notify (close_queue q) = sq_notify q"
  by (simp_all add: close_queue_def queue_ok_def queue_waiting_def)

lemma stream_act_inv:
  assumes "stream_inv s" "stream_enabled a s"
  shows "runs (stream_act a s) stream_inv"
proof -
  have q: "queue_ok (st_queue s)" using assms(1) by (simp add: stream_inv_def)
  note P = pop_cases [OF q]
  show ?thesis
  proof (cases a)
    case (Produce view)
    have "queue_waiting (st_queue s) \<noteq> [] \<or> queue_waiting (snd (enqueue_locked view (st_queue s))) = [] \<or> fst (enqueue_locked view (st_queue s))"
      using enqueue_new [OF q] by blast
    then show ?thesis
      using Produce assms enqueue_ok [OF q, of view] enqueue_notify [of view "st_queue s"]
      by (auto simp: stream_act_def wp stream_inv_def stream_enabled_def split: prod.split)
  next
    case Notify
    then show ?thesis using assms notify_pump_Some [OF q] by (auto simp: stream_act_def wp stream_inv_def)
  next
    case EndRun
    then show ?thesis using assms close_queue_ok by (simp add: stream_act_def wp stream_inv_def)
  next
    case PopEvent
    then show ?thesis
      using assms P by (auto simp: stream_act_def pop_event_def wp stream_inv_def stream_enabled_def split: prod.split option.split list.splits)
  next
    case SendEvent
    then show ?thesis
      using assms by (auto simp: stream_act_def send_event_def send_def wp stream_inv_def stream_enabled_def split: pump_phase.splits)
  next
    case SeeNotify
    have "queue_ok ((st_queue s)\<lparr>sq_notify := snd (try_recv (sq_notify (st_queue s)))\<rparr>)"
      using q by (auto simp: queue_ok_def try_recv_def split: list.splits)
    then show ?thesis using SeeNotify assms by (simp add: stream_act_def wp stream_inv_def)
  next
    case SeeDone
    then show ?thesis using assms by (auto simp: stream_act_def wp stream_inv_def split: pump_phase.splits)
  next
    case Receive
    then show ?thesis using assms by (auto simp: stream_act_def wp stream_inv_def try_recv_def split: list.splits)
  qed (use assms in \<open>auto simp: stream_act_def wp stream_inv_def\<close>)
qed

lemma streaming_inv:
  assumes "streaming pending dropped s" "0 \<le> pending"
  shows "stream_inv s"
  using assms(1)
proof induction
  case start
  then show ?case using new_queue_ok [OF assms(2)]
    by (simp add: stream_inv_def new_stream_def make_chan_def)
next
  case (step s a t)
  then show ?case using runs_SomeD [OF stream_act_inv] by blast
qed

section \<open>The properties\<close>

text \<open>An event of the zero link.\<close>

definition sample_view :: EventView where
  "sample_view = \<lparr>view_Kind = EventAdded, view_Changed = FieldLink, view_Device = None, view_Link = Some zero_link\<rparr>"

text \<open>
  (C9) The stream queue refines a list of links with their events. On an open queue \<open>enqueue\<close> merges the
  view into the event of its link when one waits, in place, or appends it while there is room, or counts
  it as dropped; \<open>pop\<close> takes the first event, if there is one. The compaction of the order never shows,
  no link waits twice, and never more than the bound wait.
\<close>

theorem stream_queue_refines:
  assumes "queue_ok q" "\<not> sq_closed q"
  shows "queue_waiting (snd (enqueue_locked view q)) = put_waiting (nat (sq_max q)) view (queue_waiting q) \<and>
    sq_dropped (snd (enqueue_locked view q)) = sq_dropped q +
      (if view_Link view \<noteq> None \<and> link_Key (the (view_Link view)) \<notin> fst ` set (queue_waiting q) \<and>
          length (queue_waiting (snd (enqueue_locked view q))) = length (queue_waiting q) then 1 else 0) \<and>
    fst (pop q) = (case queue_waiting q of [] \<Rightarrow> None | (k, e) # _ \<Rightarrow> Some e) \<and>
    queue_waiting (snd (pop q)) = tl (queue_waiting q) \<and>
    queue_ok (snd (enqueue_locked view q)) \<and> queue_ok (snd (pop q)) \<and>
    distinct (map fst (queue_waiting q)) \<and> length (queue_waiting q) \<le> nat (sq_max q)"
proof -
  have keys: "(k \<in> fst ` set (queue_waiting q)) = (map_of (sq_pending q) k \<noteq> None)" for k
    using assms(1) keys_waiting [of q] by (simp add: queue_ok_def map_of_eq_None_iff)
  have "sq_dropped (snd (enqueue_locked view q)) = sq_dropped q +
      (if view_Link view \<noteq> None \<and> link_Key (the (view_Link view)) \<notin> fst ` set (queue_waiting q) \<and>
          length (queue_waiting (snd (enqueue_locked view q))) = length (queue_waiting q) then 1 else 0)"
  proof (cases "view_Link view")
    case (Some l)
    have "sq_head q \<le> length (sq_order q)" using assms(1) by (simp add: queue_ok_def)
    then show ?thesis
      using Some assms(2) by (auto simp: keys length_waiting enqueue_locked_def Let_def split: option.splits)
  qed (simp add: enqueue_locked_def)
  then show ?thesis
    using owned.put_law [of q view] enqueue_ok [OF assms(1)] pop_cases [OF assms(1)] queue_keys [OF assms(1)] assms
    by (auto simp: put_event_def split: list.splits)
qed

lemma stream_queue_refines_witness:
  "queue_waiting (snd (enqueue_locked sample_view (newOwnedStreamQueue 1 0))) = [(zero_link_key, cloneEventInto zero_owned sample_view)]"
proof -
  have "queue_waiting (newOwnedStreamQueue 1 0) = []" by (simp add: newOwnedStreamQueue_def queue_waiting_def)
  then show ?thesis
    using stream_queue_refines [OF new_queue_ok [of 1 0], of sample_view]
    by (simp add: newOwnedStreamQueue_def put_waiting_def sample_view_def zero_link_def)
qed

text \<open>
  No link is overtaken or starved in the stream queue: an event that waits at position \<open>n\<close> is taken,
  possibly merged with later ones of its link, exactly after \<open>n\<close> other events, whatever is put into the
  queue meanwhile.
\<close>

lemma stream_served_in_turn:
  assumes "queue_ok q" "\<not> sq_closed q" "n < length (queue_waiting q)" "length (filter ((=) Take_event) ops) = n"
  shows "\<exists>e. fst (pop (perform_ops put_event pop ops q)) = Some e \<and> link_Key (ev_Link e) = fst (queue_waiting q ! n)"
  using owned.served_in_turn assms by blast

text \<open>The steps that end the pump while events are left.\<close>

definition gives_up :: "stream_action \<Rightarrow> stream \<Rightarrow> bool" where
  "gives_up a s = (a = SeeContext \<or> a = SeeDone \<and> st_pump s \<noteq> WaitingPump)"

text \<open>
  (C10) The pump passes every event on, in order. In every state of a stream the queue is consistent, and
  stays so after every step: the links waiting are distinct, exactly those of the map, each under its key
  and no more than the bound, and while the pump waits with a link in the queue it has been or is about to
  be notified. The events in the channel,
  in the hand of the pump and in the queue are one queue, to which the producer's event is added or
  merged, from which the consumer receives the first, and which no other step changes, except those that
  end the pump: seeing the context done, or seeing the end of the run while it holds an event.
\<close>

theorem pump_keeps_order:
  assumes "streaming pending dropped s" "0 < pending" "stream_enabled a s" "stream_act a s = Some t"
  shows "stream_inv s \<and> stream_inv t \<and> (case a of
      Produce view \<Rightarrow> pipeline t = ch_items (st_out s) @ in_hand (st_pump s) @ map snd
        (if sq_closed (st_queue s) then queue_waiting (st_queue s)
         else put_waiting (nat (sq_max (st_queue s))) view (queue_waiting (st_queue s)))
    | Receive \<Rightarrow> pipeline s = hd (ch_items (st_out s)) # pipeline t
    | _ \<Rightarrow> (if gives_up a s then st_pump t = PumpEnded else pipeline t = pipeline s))"
proof (intro conjI)
  show inv: "stream_inv s" using streaming_inv [OF assms(1)] assms(2) by simp
  show "stream_inv t" using stream_act_inv [OF inv assms(3)] assms(4) by (simp add: runs_def)
  have q: "queue_ok (st_queue s)" using inv by (simp add: stream_inv_def)
  note P = pop_cases [OF q]
  show "case a of
      Produce view \<Rightarrow> pipeline t = ch_items (st_out s) @ in_hand (st_pump s) @ map snd
        (if sq_closed (st_queue s) then queue_waiting (st_queue s)
         else put_waiting (nat (sq_max (st_queue s))) view (queue_waiting (st_queue s)))
    | Receive \<Rightarrow> pipeline s = hd (ch_items (st_out s)) # pipeline t
    | _ \<Rightarrow> (if gives_up a s then st_pump t = PumpEnded else pipeline t = pipeline s)" (is ?step)
  proof (cases a)
    case (Produce view)
    have "queue_waiting (snd (enqueue_locked view (st_queue s))) = queue_waiting (st_queue s)" if "sq_closed (st_queue s)"
      using that by (simp add: enqueue_locked_def Let_def split: option.splits)
    then have w: "queue_waiting (snd (enqueue_locked view (st_queue s))) =
        (if sq_closed (st_queue s) then queue_waiting (st_queue s)
         else put_waiting (nat (sq_max (st_queue s))) view (queue_waiting (st_queue s)))"
      using enqueue_waiting [OF q] by simp
    have "t = s\<lparr>st_queue := snd (enqueue_locked view (st_queue s)), st_notifying := fst (enqueue_locked view (st_queue s))\<rparr>"
      using Produce assms(4) by (simp add: stream_act_def case_prod_unfold)
    then show ?step using Produce by (simp add: pipeline_def w)
  next
    case Notify
    then show ?step
      using assms(4) notify_pump_Some [OF q] by (auto simp: stream_act_def pipeline_def gives_up_def)
  next
    case EndRun
    then show ?step using assms(4) close_queue_ok(2) by (auto simp: stream_act_def pipeline_def gives_up_def)
  next
    case Receive
    then show ?step
      using assms(3,4) by (auto simp: stream_act_def stream_enabled_def pipeline_def try_recv_def neq_Nil_conv)
  next
    case PopEvent
    then show ?step
      using assms(3,4) P
      by (cases "queue_waiting (st_queue s)")
        (auto simp: stream_act_def stream_enabled_def pop_event_def pipeline_def in_hand_def gives_up_def split: prod.splits)
  next
    case SendEvent
    have c: "\<not> ch_closed (st_out s)" using inv by (simp add: stream_inv_def)
    show ?step
      using SendEvent assms(3,4) c
      by (cases "st_pump s") (auto simp: stream_act_def stream_enabled_def send_event_def send_def pipeline_def in_hand_def gives_up_def)
  next
    case SeeNotify
    then show ?step
      using assms(3,4) by (auto simp: stream_act_def stream_enabled_def pipeline_def in_hand_def queue_waiting_def gives_up_def)
  next
    case SeeDone
    then show ?step
      using assms(3,4) by (cases "st_pump s") (auto simp: stream_act_def stream_enabled_def pipeline_def in_hand_def gives_up_def)
  qed (use assms in \<open>auto simp: stream_act_def pipeline_def gives_up_def\<close>)
qed

lemma pump_keeps_order_witness:
  "stream_inv (new_stream 1 0\<lparr>st_pump := WaitingPump\<rparr>) \<and>
   pipeline (new_stream 1 0\<lparr>st_pump := WaitingPump\<rparr>) = pipeline (new_stream 1 0)"
proof -
  have p: "pop (newOwnedStreamQueue 1 0) = (None, newOwnedStreamQueue 1 0)"
    by (subst pop.simps) (simp add: newOwnedStreamQueue_def compact_queue_def)
  have "stream_act PopEvent (new_stream 1 0) = Some (new_stream 1 0\<lparr>st_pump := WaitingPump\<rparr>)"
    by (simp add: stream_act_def pop_event_def new_stream_def p)
  moreover have "stream_enabled PopEvent (new_stream 1 0)" by (simp add: stream_enabled_def new_stream_def)
  ultimately show ?thesis using pump_keeps_order [OF streaming.start [of 1 0], of PopEvent] by (simp add: gives_up_def)
qed

text \<open>
  The pump never misses a notification and never panics: in every state of a stream in which it has
  not ended, either it, or the producer that is about to notify it, can make a step, which succeeds; or
  it holds an event while the channel of the consumer is full; or the queue is empty and open and the
  context is alive.
\<close>

lemma pump_never_stuck:
  assumes "streaming pending dropped s" "0 < pending" "st_pump s \<noteq> PumpEnded"
  shows "(\<exists>a t. pump_step a \<and> stream_enabled a s \<and> stream_act a s = Some t) \<or>
    (in_hand (st_pump s) \<noteq> [] \<and> length (ch_items (st_out s)) \<ge> ch_cap (st_out s)) \<or>
    (queue_waiting (st_queue s) = [] \<and> \<not> sq_closed (st_queue s) \<and> \<not> st_ctx_done s)"
proof -
  have inv: "stream_inv s" using streaming_inv [OF assms(1)] assms(2) by simp
  have run: "stream_enabled a s \<Longrightarrow> pump_step a \<Longrightarrow> \<exists>a t. pump_step a \<and> stream_enabled a s \<and> stream_act a s = Some t" for a
    using runs_exD [OF stream_act_inv [OF inv]] by blast
  have steps: "pump_step PopEvent" "pump_step SendEvent" "pump_step SeeNotify" "pump_step Notify" "pump_step SeeContext"
    "pump_step SeeDone" by (simp_all add: pump_step_def)
  show ?thesis
  proof (cases "st_pump s")
    case Popping
    then have "stream_enabled PopEvent s" by (simp add: stream_enabled_def)
    then show ?thesis using run [of PopEvent] steps by blast
  next
    case (SendingEvent ev)
    then have "stream_enabled SendEvent s \<or> in_hand (st_pump s) \<noteq> [] \<and> length (ch_items (st_out s)) \<ge> ch_cap (st_out s)"
      by (auto simp: stream_enabled_def in_hand_def)
    then show ?thesis using run [of SendEvent] steps by blast
  next
    case WaitingPump
    have "stream_enabled SeeNotify s \<or> stream_enabled Notify s \<or> queue_waiting (st_queue s) = []"
      using inv WaitingPump by (auto simp: stream_inv_def stream_enabled_def)
    moreover have "stream_enabled SeeContext s = st_ctx_done s" "stream_enabled SeeDone s = sq_closed (st_queue s)"
      using WaitingPump inv by (simp_all add: stream_enabled_def stream_inv_def queue_ok_def)
    ultimately consider "stream_enabled SeeNotify s" | "stream_enabled Notify s" | "stream_enabled SeeContext s" |
        "stream_enabled SeeDone s" | "queue_waiting (st_queue s) = [] \<and> \<not> sq_closed (st_queue s) \<and> \<not> st_ctx_done s"
      by argo
    then show ?thesis
      by cases (use run [OF _ steps(3)] run [OF _ steps(4)] run [OF _ steps(5)] run [OF _ steps(6)] in blast)+
  next
    case DrainingPump
    then have "stream_enabled PopEvent s" by (simp add: stream_enabled_def)
    then show ?thesis using run [of PopEvent] steps by blast
  next
    case (DrainSending ev)
    then have "stream_enabled SendEvent s \<or> in_hand (st_pump s) \<noteq> [] \<and> length (ch_items (st_out s)) \<ge> ch_cap (st_out s)"
      by (auto simp: stream_enabled_def in_hand_def)
    then show ?thesis using run [of SendEvent] steps by blast
  qed (use assms(3) in simp)
qed

text \<open>
  (C35) The end of a run loses events although the context is alive and the consumer has room: an event
  that the pump holds when the queue is closed is dropped, with all that wait behind it, and not counted;
  the drain that the code intends happens only if the pump was waiting.
\<close>

theorem pump_loses_events:
  assumes "0 < pending" "view_Link view = Some l"
  shows "\<exists>s1 s2. streaming pending dropped s1 \<and> pipeline s1 = [cloneEventInto zero_owned view] \<and> sq_closed (st_queue s1) \<and>
    \<not> st_ctx_done s1 \<and> length (ch_items (st_out s1)) < ch_cap (st_out s1) \<and>
    stream_enabled SeeDone s1 \<and> stream_act SeeDone s1 = Some s2 \<and>
    st_pump s2 = PumpEnded \<and> ch_items (st_out s2) = [] \<and> sq_dropped (st_queue s2) = dropped"
proof -
  let ?e = "cloneEventInto zero_owned view" and ?s0 = "new_stream pending dropped"
  let ?q0 = "newOwnedStreamQueue pending dropped"
  define q1 where "q1 = ?q0\<lparr>sq_pending := [(link_Key l, ?e)], sq_order := [link_Key l]\<rparr>"
  define q2 where "q2 = q1\<lparr>sq_notify := (make_chan 1)\<lparr>ch_items := [()]\<rparr>\<rparr>"
  define q3 where "q3 = q2\<lparr>sq_head := 1, sq_pending := []\<rparr>"
  define q4 where "q4 = q3\<lparr>sq_closed := True, sq_done := True\<rparr>"
  define s1 s2 s3 s4 where "s1 = ?s0\<lparr>st_queue := q1, st_notifying := True\<rparr>" and "s2 = s1\<lparr>st_queue := q2, st_notifying := False\<rparr>"
    and "s3 = s2\<lparr>st_queue := q3, st_pump := SendingEvent ?e\<rparr>" and "s4 = s3\<lparr>st_queue := q4\<rparr>"
  have "stream_act (Produce view) ?s0 = Some s1"
    using assms by (simp add: stream_act_def new_stream_def enqueue_locked_def newOwnedStreamQueue_def s1_def q1_def Let_def)
  then have r1: "streaming pending dropped s1"
    by (rule streaming.step [OF streaming.start, rotated]) (simp add: stream_enabled_def new_stream_def)
  have "stream_act Notify s1 = Some s2"
    by (simp add: stream_act_def s1_def s2_def q1_def q2_def notify_pump_def try_send_def newOwnedStreamQueue_def make_chan_def new_stream_def)
  then have r2: "streaming pending dropped s2"
    by (rule streaming.step [OF r1, rotated]) (simp add: stream_enabled_def s1_def)
  have "pop q2 = (Some ?e, q3)"
    by (subst pop.simps) (simp add: q1_def q2_def q3_def newOwnedStreamQueue_def compact_queue_def)
  then have "stream_act PopEvent s2 = Some s3"
    by (simp add: stream_act_def pop_event_def s1_def s2_def s3_def new_stream_def)
  then have r3: "streaming pending dropped s3"
    by (rule streaming.step [OF r2, rotated]) (simp add: stream_enabled_def s1_def s2_def new_stream_def)
  have "stream_act EndRun s3 = Some s4"
    by (simp add: stream_act_def s3_def s4_def q4_def close_queue_def q1_def q2_def q3_def newOwnedStreamQueue_def)
  then have r4: "streaming pending dropped s4"
    by (rule streaming.step [OF r3, rotated])
      (simp add: stream_enabled_def s1_def s2_def s3_def q1_def q2_def q3_def newOwnedStreamQueue_def)
  note defs = s1_def s2_def s3_def s4_def q1_def q2_def q3_def q4_def new_stream_def newOwnedStreamQueue_def make_chan_def
  have "pipeline s4 = [?e]" by (simp add: pipeline_def in_hand_def queue_waiting_def defs)
  moreover have "stream_enabled SeeDone s4" by (simp add: stream_enabled_def defs)
  moreover have "stream_act SeeDone s4 = Some (s4\<lparr>st_pump := PumpEnded\<rparr>)" by (simp add: stream_act_def defs)
  moreover have "sq_closed (st_queue s4)" "\<not> st_ctx_done s4" "length (ch_items (st_out s4)) < ch_cap (st_out s4)"
    "ch_items (st_out s4) = []" "sq_dropped (st_queue s4) = dropped"
    using assms(1) by (simp_all add: defs)
  ultimately show ?thesis using r4 by (intro exI [of _ s4] exI [of _ "s4\<lparr>st_pump := PumpEnded\<rparr>"]) simp
qed

lemma pump_loses_events_witness:
  "\<exists>s1 s2. streaming 1 0 s1 \<and> pipeline s1 = [cloneEventInto zero_owned sample_view] \<and> stream_act SeeDone s1 = Some s2 \<and>
     st_pump s2 = PumpEnded \<and> ch_items (st_out s2) = []"
  using pump_loses_events [of 1 sample_view zero_link 0] by (auto simp: sample_view_def)

end
