(* ===== verification/PacketFilter.thy ===== *)
theory PacketFilter
  imports EngineRun
begin

text \<open>
  The model of the packet filter of \<open>pkg/omnidiscover/capture_common.go\<close>: the builder of the classic BPF
  program with symbolic labels, and the machine that runs it, which follows \<open>runFilter\<close> of
  \<open>filter_test.go\<close>. The lemmas show that the program of every selection of protocols is a row of code
  for the paths, each with jumps inside itself, and what each path decides; the properties say what the
  filter accepts, and that it never drops a frame that the engine would route.
\<close>

section \<open>Instructions\<close>

record filterInsn =
  fi_code :: u16
  fi_jt :: u8
  fi_jf :: u8
  fi_k :: u32

definition bpfLDWABS :: u16 where "bpfLDWABS = 0x20"
definition bpfLDHABS :: u16 where "bpfLDHABS = 0x28"
definition bpfLDBABS :: u16 where "bpfLDBABS = 0x30"
definition bpfLDHIND :: u16 where "bpfLDHIND = 0x48"
definition bpfLDXBMSH :: u16 where "bpfLDXBMSH = 0xb1"
definition bpfJEQK :: u16 where "bpfJEQK = 0x15"
definition bpfJGEK :: u16 where "bpfJGEK = 0x35"
definition bpfJSETK :: u16 where "bpfJSETK = 0x45"
definition bpfRETK :: u16 where "bpfRETK = 0x06"

lemmas bpf_defs = bpfLDWABS_def bpfLDHABS_def bpfLDBABS_def bpfLDHIND_def bpfLDXBMSH_def bpfJEQK_def bpfJGEK_def
  bpfJSETK_def bpfRETK_def

definition insn :: "u16 \<Rightarrow> u32 \<Rightarrow> filterInsn" where
  "insn code k = \<lparr>fi_code = code, fi_jt = 0, fi_jf = 0, fi_k = k\<rparr>"

section \<open>The builder\<close>

text \<open>A fixup is the index of a jump with its two labels. A label that is not marked is -1.\<close>

record filterFixup =
  fx_index :: nat
  fx_true :: nat
  fx_false :: nat

record filterBuilder =
  fb_ins :: "filterInsn list"
  fb_labels :: "int list"
  fb_fixups :: "filterFixup list"

definition zero_builder :: filterBuilder where
  "zero_builder = \<lparr>fb_ins = [], fb_labels = [], fb_fixups = []\<rparr>"

definition label :: "filterBuilder \<Rightarrow> nat \<times> filterBuilder" where
  "label b = (length (fb_labels b), b\<lparr>fb_labels := fb_labels b @ [-1]\<rparr>)"

definition mark :: "nat \<Rightarrow> filterBuilder \<Rightarrow> filterBuilder run" where
  "mark l b = do { labels \<leftarrow> upd (fb_labels b) l (int (length (fb_ins b))); Some (b\<lparr>fb_labels := labels\<rparr>) }"

definition emit :: "filterInsn \<Rightarrow> filterBuilder \<Rightarrow> filterBuilder" where
  "emit i b = b\<lparr>fb_ins := fb_ins b @ [i]\<rparr>"

definition jump :: "u16 \<Rightarrow> u32 \<Rightarrow> nat \<Rightarrow> nat \<Rightarrow> filterBuilder \<Rightarrow> filterBuilder" where
  "jump code k t f b =
     emit (insn code k) (b\<lparr>fb_fixups := fb_fixups b @ [\<lparr>fx_index = length (fb_ins b), fx_true = t, fx_false = f\<rparr>]\<rparr>)"

definition off32 :: "nat \<Rightarrow> u32" where
  "off32 n = of_nat n"

fun tag_loop :: "nat list \<Rightarrow> nat \<Rightarrow> filterBuilder \<Rightarrow> filterBuilder run" where
  "tag_loop [] reject b = Some b"
| "tag_loop (tag # tags) reject b = do {
     let (checkQinQ, b) = label b;
     let (matched, b) = label b;
     let b = emit (insn bpfLDHABS (off32 (12 + tag * 4))) b;
     let b = jump bpfJEQK (ucast EtherTypeVLAN) matched checkQinQ b;
     b \<leftarrow> mark checkQinQ b;
     let b = jump bpfJEQK (ucast EtherTypeQinQ) matched reject b;
     b \<leftarrow> mark matched b;
     tag_loop tags reject b
   }"

definition tagGuard :: "nat \<Rightarrow> nat \<Rightarrow> filterBuilder \<Rightarrow> filterBuilder run" where
  "tagGuard depth reject b = tag_loop [0 ..< depth] reject b"

definition emitSelectedPortChecks :: "ProtocolSet \<Rightarrow> nat \<Rightarrow> nat \<Rightarrow> filterBuilder \<Rightarrow> filterBuilder run" where
  "emitSelectedPortChecks ps accept reject b =
     (if Has ps ProtocolMDNS \<and> Has ps ProtocolMNDP then do {
        let (checkMNDP, b) = label b;
        let b = jump bpfJEQK (ucast MDNSPort) accept checkMNDP b;
        b \<leftarrow> mark checkMNDP b;
        Some (jump bpfJEQK (ucast MNDPPort) accept reject b)
      }
      else if Has ps ProtocolMDNS then Some (jump bpfJEQK (ucast MDNSPort) accept reject b)
      else Some (jump bpfJEQK (ucast MNDPPort) accept reject b))"

definition emitUDPPortChecks :: "u32 \<Rightarrow> ProtocolSet \<Rightarrow> nat \<Rightarrow> nat \<Rightarrow> filterBuilder \<Rightarrow> filterBuilder run" where
  "emitUDPPortChecks offset ps accept reject b = do {
     let (checkDestination, b) = label b;
     let b = emit (insn bpfLDHIND offset) b;
     b \<leftarrow> emitSelectedPortChecks ps accept checkDestination b;
     b \<leftarrow> mark checkDestination b;
     let b = emit (insn bpfLDHIND (offset + 2)) b;
     emitSelectedPortChecks ps accept reject b
   }"

fun header_loop :: "u32 list \<Rightarrow> nat \<Rightarrow> filterBuilder \<Rightarrow> filterBuilder run" where
  "header_loop [] accept b = Some b"
| "header_loop (h # hs) accept b = do {
     let (nxt, b) = label b;
     let b = jump bpfJEQK h accept nxt b;
     b \<leftarrow> mark nxt b;
     header_loop hs accept b
   }"

definition emitIPv6ExtensionChecks :: "nat \<Rightarrow> nat \<Rightarrow> filterBuilder \<Rightarrow> filterBuilder run" where
  "emitIPv6ExtensionChecks accept reject b = do {
     b \<leftarrow> header_loop [0, 43, 44, 51, 60] accept b;
     Some (jump bpfJEQK (NOT 0) accept reject b)
   }"

definition path_LLDP :: "nat \<Rightarrow> nat \<Rightarrow> nat \<Rightarrow> filterBuilder \<Rightarrow> filterBuilder run" where
  "path_LLDP typeOffset accept reject b = do {
     let b = emit (insn bpfLDHABS (off32 typeOffset)) b;
     Some (jump bpfJEQK (ucast EtherTypeLLDP) accept reject b)
   }"

definition path_CDP :: "nat \<Rightarrow> nat \<Rightarrow> nat \<Rightarrow> nat \<Rightarrow> filterBuilder \<Rightarrow> filterBuilder run" where
  "path_CDP typeOffset payloadOffset accept reject b = do {
     let (lengthOK, b) = label b;
     let b = emit (insn bpfLDHABS (off32 typeOffset)) b;
     let b = jump bpfJGEK 0x0600 reject lengthOK b;
     b \<leftarrow> mark lengthOK b;
     let (secondWord, b) = label b;
     let b = emit (insn bpfLDWABS (off32 payloadOffset)) b;
     let b = jump bpfJEQK 0xaaaa0300 secondWord reject b;
     b \<leftarrow> mark secondWord b;
     let b = emit (insn bpfLDWABS (off32 (payloadOffset + 4))) b;
     Some (jump bpfJEQK 0x000c2000 accept reject b)
   }"

definition path_IPv4 :: "nat \<Rightarrow> nat \<Rightarrow> ProtocolSet \<Rightarrow> nat \<Rightarrow> nat \<Rightarrow> filterBuilder \<Rightarrow> filterBuilder run" where
  "path_IPv4 typeOffset payloadOffset ps accept reject b = do {
     let (ipProtocol, b) = label b;
     let (fragments, b) = label b;
     let (ports, b) = label b;
     let b = emit (insn bpfLDHABS (off32 typeOffset)) b;
     let b = jump bpfJEQK (ucast EtherTypeIPv4) ipProtocol reject b;
     b \<leftarrow> mark ipProtocol b;
     let b = emit (insn bpfLDBABS (off32 (payloadOffset + 9))) b;
     let b = jump bpfJEQK 17 fragments reject b;
     b \<leftarrow> mark fragments b;
     let b = emit (insn bpfLDHABS (off32 (payloadOffset + 6))) b;
     let b = jump bpfJSETK 0x3fff reject ports b;
     b \<leftarrow> mark ports b;
     let b = emit (insn bpfLDXBMSH (off32 payloadOffset)) b;
     emitUDPPortChecks (off32 payloadOffset) ps accept reject b
   }"

definition path_IPv6 :: "nat \<Rightarrow> nat \<Rightarrow> ProtocolSet \<Rightarrow> nat \<Rightarrow> nat \<Rightarrow> filterBuilder \<Rightarrow> filterBuilder run" where
  "path_IPv6 typeOffset payloadOffset ps accept reject b = do {
     let (checkNext, b) = label b;
     let (directUDP, b) = label b;
     let (extension, b) = label b;
     let b = emit (insn bpfLDHABS (off32 typeOffset)) b;
     let b = jump bpfJEQK (ucast EtherTypeIPv6) checkNext reject b;
     b \<leftarrow> mark checkNext b;
     let b = emit (insn bpfLDBABS (off32 (payloadOffset + 6))) b;
     let b = jump bpfJEQK 17 directUDP extension b;
     b \<leftarrow> mark extension b;
     b \<leftarrow> emitIPv6ExtensionChecks accept reject b;
     b \<leftarrow> mark directUDP b;
     emitUDPPortChecks (off32 (payloadOffset + 40)) ps accept reject b
   }"

text \<open>The constants \<open>filterLLDP\<close> to \<open>filterIPv6\<close>\<close>

datatype filterKind = FilterLLDP | FilterCDP | FilterIPv4 | FilterIPv6

definition emitProtocolPath :: "nat \<Rightarrow> filterKind \<Rightarrow> ProtocolSet \<Rightarrow> int \<Rightarrow> filterBuilder \<Rightarrow> filterBuilder run" where
  "emitProtocolPath depth kind ps snaplen b = do {
     let (reject, b) = label b;
     let (accept, b) = label b;
     b \<leftarrow> tagGuard depth reject b;
     let typeOffset = 12 + depth * 4;
     let payloadOffset = 14 + depth * 4;
     b \<leftarrow> (case kind of
         FilterLLDP \<Rightarrow> path_LLDP typeOffset accept reject b
       | FilterCDP \<Rightarrow> path_CDP typeOffset payloadOffset accept reject b
       | FilterIPv4 \<Rightarrow> path_IPv4 typeOffset payloadOffset ps accept reject b
       | FilterIPv6 \<Rightarrow> path_IPv6 typeOffset payloadOffset ps accept reject b);
     b \<leftarrow> mark accept b;
     let b = emit (insn bpfRETK (of_int snaplen)) b;
     mark reject b
   }"

fun resolve_loop :: "int list \<Rightarrow> filterFixup list \<Rightarrow> filterInsn list \<Rightarrow> filterInsn list run" where
  "resolve_loop labels [] ins = Some ins"
| "resolve_loop labels (fix # fixes) ins = do {
     let base = int (fx_index fix) + 1;
     t \<leftarrow> idx labels (fx_true fix);
     f \<leftarrow> idx labels (fx_false fix);
     let trueDistance = t - base;
     let falseDistance = f - base;
     if trueDistance < 0 \<or> trueDistance > 255 \<or> falseDistance < 0 \<or> falseDistance > 255 then None
     else do {
       i \<leftarrow> idx ins (fx_index fix);
       ins \<leftarrow> upd ins (fx_index fix) (i\<lparr>fi_jt := of_int trueDistance, fi_jf := of_int falseDistance\<rparr>);
       resolve_loop labels fixes ins
     }
   }"

definition resolve :: "filterBuilder \<Rightarrow> filterInsn list run" where
  "resolve b = resolve_loop (fb_labels b) (fb_fixups b) (fb_ins b)"

fun depth_loop :: "nat list \<Rightarrow> ProtocolSet \<Rightarrow> int \<Rightarrow> filterBuilder \<Rightarrow> filterBuilder run" where
  "depth_loop [] ps snaplen b = Some b"
| "depth_loop (depth # depths) ps snaplen b = do {
     b \<leftarrow> (if Has ps ProtocolLLDP then emitProtocolPath depth FilterLLDP ps snaplen b else Some b);
     b \<leftarrow> (if Has ps ProtocolCDP then emitProtocolPath depth FilterCDP ps snaplen b else Some b);
     b \<leftarrow> (if ps AND (ProtocolsMNDP OR ProtocolsMDNS) \<noteq> 0 then do {
         b \<leftarrow> emitProtocolPath depth FilterIPv4 ps snaplen b;
         emitProtocolPath depth FilterIPv6 ps snaplen b
       } else Some b);
     depth_loop depths ps snaplen b
   }"

definition discoveryFilter :: "ProtocolSet \<Rightarrow> int \<Rightarrow> filterInsn list run" where
  "discoveryFilter ps snaplen = do {
     b \<leftarrow> depth_loop [0 ..< maxVLANTags + 1] ps snaplen zero_builder;
     resolve (emit (insn bpfRETK 0) b)
   }"

section \<open>The machine\<close>

definition load :: "bytes \<Rightarrow> nat \<Rightarrow> nat \<Rightarrow> u32 run" where
  "load packet off sz =
     (if off + sz > length packet then None
      else if sz = 1 then map_option ucast (idx packet off)
      else if sz = 2 then map_option ucast (be16 (drop off packet))
      else be32 (drop off packet))"

function run_from :: "filterInsn list \<Rightarrow> bytes \<Rightarrow> nat \<Rightarrow> u32 \<Rightarrow> u32 \<Rightarrow> u32 run" where
  "run_from ins packet pc a x =
     (if pc < length ins
      then let i = ins ! pc
           in if fi_code i = bpfLDWABS then
                (case load packet (unat (fi_k i)) 4 of None \<Rightarrow> Some 0 | Some v \<Rightarrow> run_from ins packet (pc + 1) v x)
              else if fi_code i = bpfLDHABS then
                (case load packet (unat (fi_k i)) 2 of None \<Rightarrow> Some 0 | Some v \<Rightarrow> run_from ins packet (pc + 1) v x)
              else if fi_code i = bpfLDBABS then
                (case load packet (unat (fi_k i)) 1 of None \<Rightarrow> Some 0 | Some v \<Rightarrow> run_from ins packet (pc + 1) v x)
              else if fi_code i = bpfLDHIND then
                (case load packet (unat (fi_k i + x)) 2 of None \<Rightarrow> Some 0 | Some v \<Rightarrow> run_from ins packet (pc + 1) v x)
              else if fi_code i = bpfLDXBMSH then
                (case load packet (unat (fi_k i)) 1 of None \<Rightarrow> Some 0
                 | Some v \<Rightarrow> run_from ins packet (pc + 1) a (4 * (v AND 0x0f)))
              else if fi_code i = bpfJEQK \<or> fi_code i = bpfJGEK \<or> fi_code i = bpfJSETK then
                let matched = (fi_code i = bpfJEQK \<and> a = fi_k i \<or> fi_code i = bpfJGEK \<and> a \<ge> fi_k i \<or>
                  fi_code i = bpfJSETK \<and> a AND fi_k i \<noteq> 0)
                in run_from ins packet (pc + unat (if matched then fi_jt i else fi_jf i) + 1) a x
              else if fi_code i = bpfRETK then Some (fi_k i)
              else None
      else Some 0)"
  by pat_completeness auto
termination
  by (relation "measure (\<lambda>(ins, packet, pc, a, x). length ins - pc)") auto

declare run_from.simps [simp del]

definition runFilter :: "filterInsn list \<Rightarrow> bytes \<Rightarrow> u32 run" where
  "runFilter ins packet = run_from ins packet 0 0 0"

section \<open>Code that is moved\<close>

text \<open>\<open>b\<close> followed by what \<open>c\<close> built from nothing.\<close>

definition move_label :: "nat \<Rightarrow> int \<Rightarrow> int" where
  "move_label n l = (if l = -1 then -1 else l + int n)"

definition move_fixup :: "filterBuilder \<Rightarrow> filterFixup \<Rightarrow> filterFixup" where
  "move_fixup b fix = \<lparr>fx_index = length (fb_ins b) + fx_index fix, fx_true = length (fb_labels b) + fx_true fix,
     fx_false = length (fb_labels b) + fx_false fix\<rparr>"

definition after :: "filterBuilder \<Rightarrow> filterBuilder \<Rightarrow> filterBuilder" where
  "after b c = \<lparr>fb_ins = fb_ins b @ fb_ins c, fb_labels = fb_labels b @ map (move_label (length (fb_ins b))) (fb_labels c),
     fb_fixups = fb_fixups b @ map (move_fixup b) (fb_fixups c)\<rparr>"

named_theorems moved

lemma after_zero [simp]: "after b zero_builder = b"
  by (simp add: after_def zero_builder_def)

lemma label_after [moved]: "label (after b c) = (length (fb_labels b) + fst (label c), after b (snd (label c)))"
  by (simp add: label_def after_def move_label_def)

lemma emit_after [moved]: "emit i (after b c) = after b (emit i c)"
  by (simp add: emit_def after_def)

lemma jump_after [moved]:
  "jump code k (length (fb_labels b) + t) (length (fb_labels b) + f) (after b c) = after b (jump code k t f c)"
  by (simp add: jump_def emit_def after_def move_fixup_def)

lemma mark_after [moved]: "mark (length (fb_labels b) + l) (after b c) = map_option (after b) (mark l c)"
  by (auto simp: mark_def after_def upd_def list_update_append move_label_def map_update add.commute)

lemma bind_map_option [moved]: "Option.bind (map_option f m) g = Option.bind m (\<lambda>x. g (f x))"
  by (cases m) simp_all

lemma map_option_bind' [moved]: "map_option f (Option.bind m g) = Option.bind m (\<lambda>x. map_option f (g x))"
  by (cases m) simp_all

lemma tag_loop_after [moved]:
  "tag_loop tags (length (fb_labels b) + reject) (after b c) = map_option (after b) (tag_loop tags reject c)"
  by (induction tags arbitrary: c) (simp_all add: moved Let_def case_prod_unfold)

lemma header_loop_after [moved]:
  "header_loop hs (length (fb_labels b) + accept) (after b c) = map_option (after b) (header_loop hs accept c)"
  by (induction hs arbitrary: c) (simp_all add: moved Let_def case_prod_unfold)

lemma path_after [moved]:
  "tagGuard depth (length (fb_labels b) + l) (after b c) = map_option (after b) (tagGuard depth l c)"
  "emitSelectedPortChecks ps (length (fb_labels b) + l) (length (fb_labels b) + r) (after b c) =
     map_option (after b) (emitSelectedPortChecks ps l r c)"
  by (simp_all add: tagGuard_def emitSelectedPortChecks_def moved Let_def case_prod_unfold)

lemma checks_after [moved]:
  "emitUDPPortChecks off ps (length (fb_labels b) + l) (length (fb_labels b) + r) (after b c) =
     map_option (after b) (emitUDPPortChecks off ps l r c)"
  "emitIPv6ExtensionChecks (length (fb_labels b) + l) (length (fb_labels b) + r) (after b c) =
     map_option (after b) (emitIPv6ExtensionChecks l r c)"
  by (simp_all add: emitUDPPortChecks_def emitIPv6ExtensionChecks_def moved Let_def case_prod_unfold)

lemma kind_after [moved]:
  "path_LLDP t (length (fb_labels b) + l) (length (fb_labels b) + r) (after b c) = map_option (after b) (path_LLDP t l r c)"
  "path_CDP t p (length (fb_labels b) + l) (length (fb_labels b) + r) (after b c) = map_option (after b) (path_CDP t p l r c)"
  "path_IPv4 t p ps (length (fb_labels b) + l) (length (fb_labels b) + r) (after b c) = map_option (after b) (path_IPv4 t p ps l r c)"
  "path_IPv6 t p ps (length (fb_labels b) + l) (length (fb_labels b) + r) (after b c) = map_option (after b) (path_IPv6 t p ps l r c)"
  by (simp_all add: path_LLDP_def path_CDP_def path_IPv4_def path_IPv6_def moved Let_def case_prod_unfold)

lemma emitProtocolPath_after:
  "emitProtocolPath depth kind ps snaplen (after b c) = map_option (after b) (emitProtocolPath depth kind ps snaplen c)"
  by (cases kind) (simp_all add: emitProtocolPath_def moved Let_def case_prod_unfold)

text \<open>Resolving what is moved.\<close>

lemma resolve_loop_append:
  "resolve_loop ls fs is = Some r \<Longrightarrow> resolve_loop (ls @ ls') (fs @ fs') (is @ is') = resolve_loop (ls @ ls') fs' (r @ is')"
proof (induction fs arbitrary: "is")
  case (Cons f fs)
  obtain t u i where *: "fx_true f < length ls" "fx_false f < length ls" "fx_index f < length is"
    and rest: "resolve_loop ls fs (is[fx_index f := i]) = Some r"
    and d: "\<not> (ls ! fx_true f - (int (fx_index f) + 1) < 0 \<or> ls ! fx_true f - (int (fx_index f) + 1) > 255 \<or>
      ls ! fx_false f - (int (fx_index f) + 1) < 0 \<or> ls ! fx_false f - (int (fx_index f) + 1) > 255)"
    and i: "i = (is ! fx_index f)\<lparr>fi_jt := of_int (ls ! fx_true f - (int (fx_index f) + 1)), fi_jf := of_int (ls ! fx_false f - (int (fx_index f) + 1))\<rparr>"
    using Cons.prems by (auto simp: Let_def bind_eq_Some_conv idx_def upd_def split: if_splits)
  show ?case
    using Cons.IH [OF rest] * d i by (simp add: Let_def nth_append list_update_append)
qed simp

lemma length_resolve_loop: "resolve_loop ls fs is = Some r \<Longrightarrow> length r = length is"
proof (induction fs arbitrary: "is")
  case (Cons f fs)
  then obtain is' where "resolve_loop ls fs is' = Some r" "length is' = length is"
    by (auto simp: Let_def bind_eq_Some_conv idx_def upd_def split: if_splits)
  then show ?case using Cons.IH by metis
qed simp

lemma resolve_loop_step:
  assumes "idx labels (fx_true fix) = Some t" "idx labels (fx_false fix) = Some f"
    and "t - (int (fx_index fix) + 1) = td" "f - (int (fx_index fix) + 1) = fd"
  shows "resolve_loop labels (fix # fixes) is =
    (if td < 0 \<or> td > 255 \<or> fd < 0 \<or> fd > 255 then None
     else do {
       i \<leftarrow> idx is (fx_index fix);
       is \<leftarrow> upd is (fx_index fix) (i\<lparr>fi_jt := of_int td, fi_jf := of_int fd\<rparr>);
       resolve_loop labels fixes is
     })"
  using assms by (simp add: Let_def)

lemma resolve_loop_moved:
  assumes "length r = length (fb_ins b)"
  shows "resolve_loop (fb_labels b @ map (move_label (length (fb_ins b))) ls) (map (move_fixup b) fs) (r @ is) =
    map_option ((@) r) (resolve_loop ls fs is)"
proof (induction fs arbitrary: "is")
  case (Cons f fs)
  let ?n = "length (fb_ins b)" and ?ls = "fb_labels b @ map (move_label (length (fb_ins b))) ls"
  have u: "fx_true (move_fixup b f) = length (fb_labels b) + fx_true f" "fx_false (move_fixup b f) = length (fb_labels b) + fx_false f"
    "fx_index (move_fixup b f) = ?n + fx_index f" by (simp_all add: move_fixup_def)
  show ?case
  proof (cases "fx_true f < length ls \<and> fx_false f < length ls")
    case False
    then show ?thesis by (auto simp: u Let_def idx_def)
  next
    case True
    define t where "t = ls ! fx_true f"
    define g where "g = ls ! fx_false f"
    define td where "td = t - (int (fx_index f) + 1)"
    define fd where "fd = g - (int (fx_index f) + 1)"
    define td' where "td' = move_label ?n t - (int (fx_index (move_fixup b f)) + 1)"
    define fd' where "fd' = move_label ?n g - (int (fx_index (move_fixup b f)) + 1)"
    have d: "td' = td \<or> td' < 0 \<and> td < 0" "fd' = fd \<or> fd' < 0 \<and> fd < 0"
      by (auto simp: td_def fd_def td'_def fd'_def move_label_def u)
    have l: "idx ls (fx_true f) = Some t" "idx ls (fx_false f) = Some g"
      "idx ?ls (fx_true (move_fixup b f)) = Some (move_label ?n t)" "idx ?ls (fx_false (move_fixup b f)) = Some (move_label ?n g)"
      using True by (simp_all add: t_def g_def u nth_append)
    note S = resolve_loop_step [OF l(1,2) td_def [symmetric] fd_def [symmetric], of fs "is"]
    note S' = resolve_loop_step [OF l(3,4) td'_def [symmetric] fd'_def [symmetric], of "map (move_fixup b) fs" "r @ is"]
    show ?thesis
    proof (cases "td < 0 \<or> td > 255 \<or> fd < 0 \<or> fd > 255")
      case True
      then have "td' < 0 \<or> td' > 255 \<or> fd' < 0 \<or> fd' > 255" using d by auto
      then show ?thesis using S S' True by simp
    next
      case False
      then have e: "td' = td" "fd' = fd" using d by auto
      show ?thesis
      proof (cases "fx_index f < length is")
        case True
        have "resolve_loop ?ls (map (move_fixup b) (f # fs)) (r @ is) =
            resolve_loop ?ls (map (move_fixup b) fs) (r @ is[fx_index f := (is ! fx_index f)\<lparr>fi_jt := of_int td, fi_jf := of_int fd\<rparr>])"
          using S' False True assms by (simp add: e u nth_append list_update_append)
        then show ?thesis using S False True Cons.IH by simp
      qed (use S S' False assms in \<open>simp add: e u idx_def\<close>)
    qed
  qed
qed simp

lemma resolve_after: "resolve b = Some r \<Longrightarrow> resolve (after b c) = map_option ((@) r) (resolve c)"
  unfolding resolve_def
  by (simp add: after_def resolve_loop_append resolve_loop_moved length_resolve_loop)

section \<open>The code of a path\<close>

definition jmp :: "u16 \<Rightarrow> u32 \<Rightarrow> nat \<Rightarrow> nat \<Rightarrow> filterInsn" where
  "jmp code k t f = \<lparr>fi_code = code, fi_jt = of_nat t, fi_jf = of_nat f, fi_k = k\<rparr>"

fun guard_code :: "nat list \<Rightarrow> nat \<Rightarrow> filterInsn list" where
  "guard_code [] n = []"
| "guard_code (t # ts) n =
     [insn bpfLDHABS (off32 (12 + t * 4)), jmp bpfJEQK (ucast EtherTypeVLAN) 1 0,
      jmp bpfJEQK (ucast EtherTypeQinQ) 0 (3 * length ts + n)] @ guard_code ts n"

definition ports_code :: "u32 \<Rightarrow> ProtocolSet \<Rightarrow> filterInsn list" where
  "ports_code off ps =
     (if Has ps ProtocolMDNS \<and> Has ps ProtocolMNDP then
        [insn bpfLDHIND off, jmp bpfJEQK (ucast MDNSPort) 4 0, jmp bpfJEQK (ucast MNDPPort) 3 0,
         insn bpfLDHIND (off + 2), jmp bpfJEQK (ucast MDNSPort) 1 0, jmp bpfJEQK (ucast MNDPPort) 0 1]
      else let p = (if Has ps ProtocolMDNS then MDNSPort else MNDPPort)
        in [insn bpfLDHIND off, jmp bpfJEQK (ucast p) 2 0, insn bpfLDHIND (off + 2), jmp bpfJEQK (ucast p) 0 1])"

definition body_code :: "filterKind \<Rightarrow> nat \<Rightarrow> nat \<Rightarrow> ProtocolSet \<Rightarrow> filterInsn list" where
  "body_code kind t p ps = (case kind of
       FilterLLDP \<Rightarrow> [insn bpfLDHABS (off32 t), jmp bpfJEQK (ucast EtherTypeLLDP) 0 1]
     | FilterCDP \<Rightarrow> [insn bpfLDHABS (off32 t), jmp bpfJGEK 0x0600 5 0, insn bpfLDWABS (off32 p), jmp bpfJEQK 0xaaaa0300 0 3,
         insn bpfLDWABS (off32 (p + 4)), jmp bpfJEQK 0x000c2000 0 1]
     | FilterIPv4 \<Rightarrow> let n = length (ports_code 0 ps) in
         [insn bpfLDHABS (off32 t), jmp bpfJEQK (ucast EtherTypeIPv4) 0 (n + 6),
          insn bpfLDBABS (off32 (p + 9)), jmp bpfJEQK 17 0 (n + 4), insn bpfLDHABS (off32 (p + 6)), jmp bpfJSETK 0x3fff (n + 2) 0,
          insn bpfLDXBMSH (off32 p)] @ ports_code (off32 p) ps
     | FilterIPv6 \<Rightarrow> let n = length (ports_code 0 ps) in
         [insn bpfLDHABS (off32 t), jmp bpfJEQK (ucast EtherTypeIPv6) 0 (n + 9), insn bpfLDBABS (off32 (p + 6)), jmp bpfJEQK 17 6 0,
          jmp bpfJEQK 0 (n + 5) 0, jmp bpfJEQK 43 (n + 4) 0, jmp bpfJEQK 44 (n + 3) 0, jmp bpfJEQK 51 (n + 2) 0,
          jmp bpfJEQK 60 (n + 1) 0, jmp bpfJEQK (NOT 0) n (n + 1)] @ ports_code (off32 (p + 40)) ps)"

definition path_code :: "nat \<Rightarrow> filterKind \<Rightarrow> ProtocolSet \<Rightarrow> int \<Rightarrow> filterInsn list" where
  "path_code d kind ps snaplen =
     (let body = body_code kind (12 + d * 4) (14 + d * 4) ps @ [insn bpfRETK (of_int snaplen)]
      in guard_code [0 ..< d] (length body) @ body)"

text \<open>The builder on a builder whose lists are known.\<close>

lemma builder_step:
  "label \<lparr>fb_ins = i, fb_labels = l, fb_fixups = f\<rparr> = (length l, \<lparr>fb_ins = i, fb_labels = l @ [-1], fb_fixups = f\<rparr>)"
  "mark n \<lparr>fb_ins = i, fb_labels = l, fb_fixups = f\<rparr> =
     (if n < length l then Some \<lparr>fb_ins = i, fb_labels = l[n := int (length i)], fb_fixups = f\<rparr> else None)"
  "emit x \<lparr>fb_ins = i, fb_labels = l, fb_fixups = f\<rparr> = \<lparr>fb_ins = i @ [x], fb_labels = l, fb_fixups = f\<rparr>"
  "jump code k t u \<lparr>fb_ins = i, fb_labels = l, fb_fixups = f\<rparr> =
     \<lparr>fb_ins = i @ [insn code k], fb_labels = l, fb_fixups = f @ [\<lparr>fx_index = length i, fx_true = t, fx_false = u\<rparr>]\<rparr>"
  "(let b = \<lparr>fb_ins = i, fb_labels = l, fb_fixups = f\<rparr> in h b) = h \<lparr>fb_ins = i, fb_labels = l, fb_fixups = f\<rparr>"
  "(let (x, y) = (n, b) in g x y) = g n b"
  by (auto simp: label_def mark_def emit_def jump_def upd_def)

lemma resolve_step:
  "resolve \<lparr>fb_ins = i, fb_labels = l, fb_fixups = f\<rparr> = resolve_loop l f i"
  "resolve_loop l (\<lparr>fx_index = n, fx_true = t, fx_false = u\<rparr> # fs) is =
     (if t < length l \<and> u < length l \<and> n < length is \<and> 0 \<le> l ! t - (int n + 1) \<and> l ! t - (int n + 1) \<le> 255 \<and>
         0 \<le> l ! u - (int n + 1) \<and> l ! u - (int n + 1) \<le> 255
      then resolve_loop l fs
        (is[n := (is ! n)\<lparr>fi_jt := of_int (l ! t - (int n + 1)), fi_jf := of_int (l ! u - (int n + 1))\<rparr>])
      else None)"
  "(insn c k)\<lparr>fi_jt := x, fi_jf := y\<rparr> = \<lparr>fi_code = c, fi_jt = x, fi_jf = y, fi_k = k\<rparr>"
  by (auto simp: resolve_def idx_def upd_def Let_def insn_def)

lemmas build_rules = builder_step resolve_step emitProtocolPath_def zero_builder_def tagGuard_def upt_rec path_LLDP_def path_CDP_def
  path_IPv4_def path_IPv6_def emitUDPPortChecks_def emitSelectedPortChecks_def emitIPv6ExtensionChecks_def
  path_code_def body_code_def ports_code_def jmp_def

lemma path_built_LLDP:
  "d \<in> {0, 1, 2, 3} \<Longrightarrow> 
     \<exists>c. emitProtocolPath d FilterLLDP ps snaplen zero_builder = Some c \<and> resolve c = Some (path_code d FilterLLDP ps snaplen)"
  by (elim insertE emptyE; simp add: build_rules del: resolve_loop.simps(2))

lemma path_built_CDP:
  "d \<in> {0, 1, 2, 3} \<Longrightarrow> 
     \<exists>c. emitProtocolPath d FilterCDP ps snaplen zero_builder = Some c \<and> resolve c = Some (path_code d FilterCDP ps snaplen)"
  by (elim insertE emptyE; simp add: build_rules del: resolve_loop.simps(2))

lemma path_built_IPv4:
  "d \<in> {0, 1, 2, 3} \<Longrightarrow> 
     \<exists>c. emitProtocolPath d FilterIPv4 ps snaplen zero_builder = Some c \<and> resolve c = Some (path_code d FilterIPv4 ps snaplen)"
  by (elim insertE emptyE; cases "Has ps ProtocolMDNS"; cases "Has ps ProtocolMNDP"; simp add: build_rules del: resolve_loop.simps(2))

lemma path_built_IPv6:
  "d \<in> {0, 1, 2, 3} \<Longrightarrow> 
     \<exists>c. emitProtocolPath d FilterIPv6 ps snaplen zero_builder = Some c \<and> resolve c = Some (path_code d FilterIPv6 ps snaplen)"
  by (elim insertE emptyE; cases "Has ps ProtocolMDNS"; cases "Has ps ProtocolMNDP"; simp add: build_rules del: resolve_loop.simps(2))

lemma path_built:
  "d \<le> 3 \<Longrightarrow> \<exists>c. emitProtocolPath d kind ps snaplen zero_builder = Some c \<and> resolve c = Some (path_code d kind ps snaplen)"
  using path_built_LLDP [of d] path_built_CDP [of d] path_built_IPv4 [of d] path_built_IPv6 [of d]
  by (cases kind) (simp_all add: le_less eval_nat_numeral less_Suc_eq)

section \<open>The whole program\<close>

definition depth_code :: "ProtocolSet \<Rightarrow> int \<Rightarrow> nat \<Rightarrow> filterInsn list" where
  "depth_code ps snaplen d =
     (if Has ps ProtocolLLDP then path_code d FilterLLDP ps snaplen else []) @
     (if Has ps ProtocolCDP then path_code d FilterCDP ps snaplen else []) @
     (if ps AND (ProtocolsMNDP OR ProtocolsMDNS) \<noteq> 0
      then path_code d FilterIPv4 ps snaplen @ path_code d FilterIPv6 ps snaplen else [])"

text \<open>What building leaves: a builder that resolves to \<open>code\<close>.\<close>

definition built :: "filterInsn list \<Rightarrow> filterBuilder run \<Rightarrow> bool" where
  "built code m = (\<exists>b. m = Some b \<and> resolve b = Some code)"

lemma built_path:
  assumes "resolve b = Some code" "d \<le> 3"
  shows "built (code @ path_code d kind ps snaplen) (emitProtocolPath d kind ps snaplen b)"
proof -
  obtain c where c: "emitProtocolPath d kind ps snaplen zero_builder = Some c" "resolve c = Some (path_code d kind ps snaplen)"
    using path_built [OF assms(2)] by blast
  then show ?thesis
    using emitProtocolPath_after [of d kind ps snaplen b zero_builder] resolve_after [OF assms(1), of c] by (simp add: built_def)
qed

lemma built_bind:
  assumes "built code m" "\<And>b. resolve b = Some code \<Longrightarrow> built code' (f b)"
  shows "built code' (Option.bind m f)"
  using assms by (auto simp: built_def)

lemma built_if:
  assumes "c \<Longrightarrow> built (code @ x) m" "resolve b = Some code"
  shows "built (code @ (if c then x else [])) (if c then m else Some b)"
  using assms by (simp add: built_def)

lemma depth_loop_built:
  assumes "resolve b = Some code" "\<forall>d \<in> set ds. d \<le> 3"
  shows "built (code @ concat (map (depth_code ps snaplen) ds)) (depth_loop ds ps snaplen b)"
  using assms
proof (induction ds arbitrary: b code)
  case (Cons d ds)
  have d: "d \<le> 3" using Cons.prems(2) by simp
  have ip: "built (code @ path_code d FilterIPv4 ps snaplen @ path_code d FilterIPv6 ps snaplen)
      (do { b \<leftarrow> emitProtocolPath d FilterIPv4 ps snaplen b; emitProtocolPath d FilterIPv6 ps snaplen b })"
    if "resolve b = Some code" for b code
    by (rule built_bind [OF built_path [OF that d]]) (use built_path [OF _ d] in \<open>fastforce simp: append_assoc [symmetric] simp del: append_assoc\<close>)
  let ?L = "if Has ps ProtocolLLDP then path_code d FilterLLDP ps snaplen else []"
  let ?C = "if Has ps ProtocolCDP then path_code d FilterCDP ps snaplen else []"
  let ?U = "if ps AND (ProtocolsMNDP OR ProtocolsMDNS) \<noteq> 0
    then path_code d FilterIPv4 ps snaplen @ path_code d FilterIPv6 ps snaplen else []"
  have 1: "built (code @ ?L) (if Has ps ProtocolLLDP then emitProtocolPath d FilterLLDP ps snaplen b else Some b)"
    by (rule built_if [OF built_path [OF Cons.prems(1) d] Cons.prems(1)])
  have 2: "built ((code @ ?L) @ ?C) (if Has ps ProtocolCDP then emitProtocolPath d FilterCDP ps snaplen b else Some b)"
    if "resolve b = Some (code @ ?L)" for b
    by (rule built_if [OF built_path [OF that d] that])
  have 3: "built (((code @ ?L) @ ?C) @ ?U) (if ps AND (ProtocolsMNDP OR ProtocolsMDNS) \<noteq> 0
      then do { b \<leftarrow> emitProtocolPath d FilterIPv4 ps snaplen b; emitProtocolPath d FilterIPv6 ps snaplen b } else Some b)"
    if "resolve b = Some ((code @ ?L) @ ?C)" for b
    by (rule built_if [OF ip [OF that] that])
  have 4: "built (code @ concat (map (depth_code ps snaplen) (d # ds))) (depth_loop ds ps snaplen b)"
    if "resolve b = Some (((code @ ?L) @ ?C) @ ?U)" for b
  proof -
    have eq: "code @ concat (map (depth_code ps snaplen) (d # ds)) = (((code @ ?L) @ ?C) @ ?U) @ concat (map (depth_code ps snaplen) ds)"
      by (simp only: depth_code_def [of ps snaplen d] list.map concat.simps append_assoc)
    show ?thesis unfolding eq by (rule Cons.IH [OF that]) (use Cons.prems(2) in simp)
  qed
  show ?case
    unfolding depth_loop.simps by (rule built_bind [OF 1 built_bind [OF 2 built_bind [OF 3 4]]])
qed (simp add: built_def)

lemma discoveryFilter_code:
  "discoveryFilter ps snaplen = Some (concat (map (depth_code ps snaplen) [0, 1, 2, 3]) @ [insn bpfRETK 0])"
proof -
  have "resolve zero_builder = Some []" by (simp add: resolve_def zero_builder_def)
  from depth_loop_built [OF this, of "[0, 1, 2, 3]" ps snaplen] obtain b where
    b: "depth_loop [0, 1, 2, 3] ps snaplen zero_builder = Some b" "resolve b = Some (concat (map (depth_code ps snaplen) [0, 1, 2, 3]))"
    by (auto simp: built_def)
  have "emit (insn bpfRETK 0) b = after b (emit (insn bpfRETK 0) zero_builder)"
    using emit_after [of _ b zero_builder] by simp
  moreover have "resolve (emit (insn bpfRETK 0) zero_builder) = Some [insn bpfRETK 0]"
    by (simp add: emit_def zero_builder_def resolve_def)
  ultimately have "resolve (emit (insn bpfRETK 0) b) = Some (concat (map (depth_code ps snaplen) [0, 1, 2, 3]) @ [insn bpfRETK 0])"
    using resolve_after [OF b(2)] by simp
  moreover have "[0 ..< maxVLANTags + 1] = [0, 1, 2, 3]" by (simp add: maxVLANTags_def upt_rec)
  ultimately show ?thesis using b(1) by (simp add: discoveryFilter_def)
qed

section \<open>Running code\<close>

text \<open>All jumps go forward, so running a program from an index is running the rest of it.\<close>

definition exec :: "filterInsn list \<Rightarrow> bytes \<Rightarrow> u32 \<Rightarrow> u32 \<Rightarrow> u32 run" where
  "exec is f a x = run_from is f 0 a x"

lemma run_from_append: "run_from (pre @ is) f (length pre + pc) a x = run_from is f pc a x"
proof (induction "is" f pc a x rule: run_from.induct)
  case (1 "is" f pc a x)
  note IH = 1 [unfolded add.assoc [symmetric]]
  show ?case
    by (subst (1 2) run_from.simps)
      (use IH in \<open>auto simp: Let_def nth_append add.assoc [symmetric] split: option.split\<close>)
qed

lemma run_from_drop: "run_from is f pc a x = exec (drop pc is) f a x"
proof (cases "pc \<le> length is")
  case True
  then show ?thesis
    using run_from_append [of "take pc is" "drop pc is" f 0 a x] by (simp add: exec_def)
next
  case False
  then show ?thesis by (simp add: exec_def run_from.simps)
qed

lemma drop_head: "drop (0 + 1) (i # is) = is" "drop (0 + m + 1) (i # is) = drop m is" "(0 < length (i # is)) = True"
  by simp_all

lemma exec_Cons:
  "exec (i # is) f a x =
     (if fi_code i = bpfLDWABS then (case load f (unat (fi_k i)) 4 of None \<Rightarrow> Some 0 | Some v \<Rightarrow> exec is f v x)
      else if fi_code i = bpfLDHABS then (case load f (unat (fi_k i)) 2 of None \<Rightarrow> Some 0 | Some v \<Rightarrow> exec is f v x)
      else if fi_code i = bpfLDBABS then (case load f (unat (fi_k i)) 1 of None \<Rightarrow> Some 0 | Some v \<Rightarrow> exec is f v x)
      else if fi_code i = bpfLDHIND then (case load f (unat (fi_k i + x)) 2 of None \<Rightarrow> Some 0 | Some v \<Rightarrow> exec is f v x)
      else if fi_code i = bpfLDXBMSH then (case load f (unat (fi_k i)) 1 of None \<Rightarrow> Some 0 | Some v \<Rightarrow> exec is f a (4 * (v AND 0x0f)))
      else if fi_code i = bpfJEQK \<or> fi_code i = bpfJGEK \<or> fi_code i = bpfJSETK then
        (let matched = (fi_code i = bpfJEQK \<and> a = fi_k i \<or> fi_code i = bpfJGEK \<and> a \<ge> fi_k i \<or>
           fi_code i = bpfJSETK \<and> a AND fi_k i \<noteq> 0)
         in exec (drop (unat (if matched then fi_jt i else fi_jf i)) is) f a x)
      else if fi_code i = bpfRETK then Some (fi_k i)
      else None)"
  by (subst exec_def, subst run_from.simps)
    (simp only: run_from_drop Let_def drop_head if_True nth_Cons_0)

lemma exec_insn:
  "exec (insn bpfLDWABS k # is) f a x = (case load f (unat k) 4 of None \<Rightarrow> Some 0 | Some v \<Rightarrow> exec is f v x)"
  "exec (insn bpfLDHABS k # is) f a x = (case load f (unat k) 2 of None \<Rightarrow> Some 0 | Some v \<Rightarrow> exec is f v x)"
  "exec (insn bpfLDBABS k # is) f a x = (case load f (unat k) 1 of None \<Rightarrow> Some 0 | Some v \<Rightarrow> exec is f v x)"
  "exec (insn bpfLDHIND k # is) f a x = (case load f (unat (k + x)) 2 of None \<Rightarrow> Some 0 | Some v \<Rightarrow> exec is f v x)"
  "exec (insn bpfLDXBMSH k # is) f a x = (case load f (unat k) 1 of None \<Rightarrow> Some 0 | Some v \<Rightarrow> exec is f a (4 * (v AND 0x0f)))"
  "exec (insn bpfRETK k # is) f a x = Some k"
  by (simp_all add: exec_Cons insn_def bpf_defs)

lemma exec_jump:
  assumes "t < 256" "u < 256"
  shows "exec (jmp bpfJEQK k t u # is) f a x = exec (drop (if a = k then t else u) is) f a x"
    "exec (jmp bpfJGEK k t u # is) f a x = exec (drop (if a \<ge> k then t else u) is) f a x"
    "exec (jmp bpfJSETK k t u # is) f a x = exec (drop (if a AND k \<noteq> 0 then t else u) is) f a x"
proof -
  have "unat (of_nat t :: u8) = t" "unat (of_nat u :: u8) = u" using assms by (simp_all add: unat_of_nat)
  then show "exec (jmp bpfJEQK k t u # is) f a x = exec (drop (if a = k then t else u) is) f a x"
    "exec (jmp bpfJGEK k t u # is) f a x = exec (drop (if a \<ge> k then t else u) is) f a x"
    "exec (jmp bpfJSETK k t u # is) f a x = exec (drop (if a AND k \<noteq> 0 then t else u) is) f a x"
    by (simp_all add: exec_Cons jmp_def bpf_defs Let_def)
qed

text \<open>Code that begins with a load does not depend on the accumulator.\<close>

definition fresh_code :: "filterInsn list \<Rightarrow> bool" where
  "fresh_code is = (\<forall>f a x. exec is f a x = exec is f 0 x)"

lemma fresh_codeD: "fresh_code is \<Longrightarrow> exec is f a x = exec is f 0 x"
  by (simp add: fresh_code_def)

lemma fresh_load: "fresh_code (insn bpfLDHABS k # is)" "fresh_code (insn bpfRETK k # is)"
  by (simp_all add: fresh_code_def exec_insn)

section \<open>What the filter is for\<close>

definition is_tag :: "u32 \<Rightarrow> bool" where
  "is_tag v = (v = ucast EtherTypeVLAN \<or> v = ucast EtherTypeQinQ)"

text \<open>The offset and the value of the type behind at most \<open>n\<close> tags.\<close>

fun type_at :: "bytes \<Rightarrow> nat \<Rightarrow> nat \<Rightarrow> (nat \<times> u32) option" where
  "type_at f n off =
     (case load f off 2 of
        None \<Rightarrow> None
      | Some v \<Rightarrow> if is_tag v then (case n of 0 \<Rightarrow> None | Suc n \<Rightarrow> type_at f n (off + 4)) else Some (off, v))"

declare type_at.simps [simp del]

definition port_of :: "ProtocolSet \<Rightarrow> u32 \<Rightarrow> bool" where
  "port_of ps v = (Has ps ProtocolMDNS \<and> v = ucast MDNSPort \<or> Has ps ProtocolMNDP \<and> v = ucast MNDPPort)"

text \<open>One of the two UDP ports at the offset is selected.\<close>

definition port_wanted :: "ProtocolSet \<Rightarrow> bytes \<Rightarrow> nat \<Rightarrow> bool" where
  "port_wanted ps f off =
     (\<exists>s. load f off 2 = Some s \<and> (port_of ps s \<or> (\<exists>d. load f (off + 2) 2 = Some d \<and> port_of ps d)))"

definition lldp_wanted :: "ProtocolSet \<Rightarrow> u32 \<Rightarrow> bool" where
  "lldp_wanted ps v = (Has ps ProtocolLLDP \<and> v = ucast EtherTypeLLDP)"

definition cdp_wanted :: "ProtocolSet \<Rightarrow> bytes \<Rightarrow> nat \<Rightarrow> u32 \<Rightarrow> bool" where
  "cdp_wanted ps f p v =
     (Has ps ProtocolCDP \<and> v < 0x0600 \<and> load f p 4 = Some 0xaaaa0300 \<and> load f (p + 4) 4 = Some 0x000c2000)"

definition ipv4_wanted :: "ProtocolSet \<Rightarrow> bytes \<Rightarrow> nat \<Rightarrow> u32 \<Rightarrow> bool" where
  "ipv4_wanted ps f p v =
     (v = ucast EtherTypeIPv4 \<and> load f (p + 9) 1 = Some 17 \<and> (\<exists>w. load f (p + 6) 2 = Some w \<and> w AND 0x3fff = 0) \<and>
      (\<exists>h. load f p 1 = Some h \<and> port_wanted ps f (p + 4 * unat (h AND 0x0f))))"

definition ipv6_wanted :: "ProtocolSet \<Rightarrow> bytes \<Rightarrow> nat \<Rightarrow> u32 \<Rightarrow> bool" where
  "ipv6_wanted ps f p v =
     ((Has ps ProtocolMDNS \<or> Has ps ProtocolMNDP) \<and> v = ucast EtherTypeIPv6 \<and>
      (\<exists>nh. load f (p + 6) 1 = Some nh \<and> (nh = 17 \<and> port_wanted ps f (p + 40) \<or> nh \<in> {0, 43, 44, 51, 60})))"

definition frame_wanted :: "ProtocolSet \<Rightarrow> bytes \<Rightarrow> bool" where
  "frame_wanted ps f =
     (case type_at f maxVLANTags 12 of
        None \<Rightarrow> False
      | Some (off, v) \<Rightarrow> lldp_wanted ps v \<or> cdp_wanted ps f (off + 2) v \<or> ipv4_wanted ps f (off + 2) v \<or> ipv6_wanted ps f (off + 2) v)"

section \<open>What a path does\<close>

text \<open>Offsets are small.\<close>

lemma unat_off32 [simp]: "n < 1000 \<Longrightarrow> unat (off32 n) = n"
  by (simp add: off32_def unat_of_nat)

lemma header_length: "unat (v AND 0x0f :: u32) \<le> 15" "unat (4 * (v AND 0x0f) :: u32) = 4 * unat (v AND 0x0f :: u32)"
proof -
  have "v AND 0x0f \<le> (0x0f :: u32)" by (rule word_and_le1)
  then show *: "unat (v AND 0x0f :: u32) \<le> 15" by (simp add: word_le_nat_alt)
  then show "unat (4 * (v AND 0x0f) :: u32) = 4 * unat (v AND 0x0f :: u32)" by (simp add: unat_word_ariths)
qed

lemma unat_off_plus:
  assumes "p < 500" "unat x < 1000"
  shows "unat (off32 p + x) = p + unat x" "unat (off32 p + 2 + x) = p + unat x + 2"
proof -
  show a: "unat (off32 p + x) = p + unat x" using assms by (simp add: unat_word_ariths)
  have "unat (off32 p + 2 + x) = unat ((off32 p + x) + 2)" by (simp add: ac_simps)
  also have "\<dots> = p + unat x + 2" using a assms by (subst unat_word_ariths) simp
  finally show "unat (off32 p + 2 + x) = p + unat x + 2" .
qed

lemma exec_guard:
  assumes "fresh_code (body @ Q)" "fresh_code Q" "length body = n" "3 * length ts + n < 256" "\<forall>t \<in> set ts. t < 100"
  shows "if \<forall>t \<in> set ts. \<exists>v. load f (12 + t * 4) 2 = Some v \<and> is_tag v
    then exec (guard_code ts n @ body @ Q) f a x = exec (body @ Q) f 0 x
    else exec (guard_code ts n @ body @ Q) f a x \<in> {Some 0, exec Q f 0 x}"
  using assms(4,5)
proof (induction ts arbitrary: a)
  case Nil
  then show ?case using assms(1) fresh_codeD [of "body @ Q" f a x] by simp
next
  case (Cons t ts)
  have len: "length (guard_code ts n) = 3 * length ts" by (induction ts) simp_all
  show ?case
  proof (cases "load f (12 + t * 4) 2")
    case None
    then show ?thesis using Cons.prems by (simp add: exec_insn)
  next
    case (Some v)
    show ?thesis
    proof (cases "is_tag v")
      case True
      have "exec (guard_code (t # ts) n @ body @ Q) f a x = exec (guard_code ts n @ body @ Q) f v x"
        using True Some Cons.prems by (auto simp: exec_insn exec_jump is_tag_def)
      note e = this
      have P: "(\<forall>s \<in> set (t # ts). \<exists>v. load f (12 + s * 4) 2 = Some v \<and> is_tag v) =
          (\<forall>s \<in> set ts. \<exists>v. load f (12 + s * 4) 2 = Some v \<and> is_tag v)" using True Some by simp
      show ?thesis unfolding P e by (rule Cons.IH) (use Cons.prems in simp_all)
    next
      case False
      have "exec (guard_code (t # ts) n @ body @ Q) f a x = exec Q f 0 x"
        using False Some Cons.prems assms(3) fresh_codeD [OF assms(2), of f v x] len
        by (simp add: exec_insn exec_jump is_tag_def)
      then show ?thesis using False Some by auto
    qed
  qed
qed

definition small :: "nat \<Rightarrow> nat \<Rightarrow> bool" where
  "small t p = (t < 100 \<and> p < 100)"

lemma exec_LLDP:
  assumes "fresh_code Q" "small t p"
  shows "exec (body_code FilterLLDP t p ps @ insn bpfRETK s # Q) f a x =
    (case load f t 2 of None \<Rightarrow> Some 0 | Some v \<Rightarrow> if v = ucast EtherTypeLLDP then Some s else exec Q f 0 x)"
  using assms fresh_codeD [OF assms(1)]
  by (auto simp: small_def body_code_def exec_insn exec_jump split: option.split)

lemma exec_CDP:
  assumes "fresh_code Q" "small t p"
  shows "exec (body_code FilterCDP t p ps @ insn bpfRETK s # Q) f a x =
    (case load f t 2 of None \<Rightarrow> Some 0
     | Some v \<Rightarrow> if v \<ge> 0x0600 then exec Q f 0 x else (case load f p 4 of None \<Rightarrow> Some 0
       | Some w \<Rightarrow> if w \<noteq> 0xaaaa0300 then exec Q f 0 x else (case load f (p + 4) 4 of None \<Rightarrow> Some 0
         | Some w \<Rightarrow> if w = 0x000c2000 then Some s else exec Q f 0 x)))"
  using assms fresh_codeD [OF assms(1)]
  by (auto simp: small_def body_code_def exec_insn exec_jump split: option.split)

lemma exec_ports:
  assumes "fresh_code Q" "Has ps ProtocolMDNS \<or> Has ps ProtocolMNDP"
  shows "exec (ports_code off ps @ insn bpfRETK s # Q) f a x =
    (case load f (unat (off + x)) 2 of None \<Rightarrow> Some 0
     | Some v \<Rightarrow> if port_of ps v then Some s else (case load f (unat (off + 2 + x)) 2 of None \<Rightarrow> Some 0
       | Some w \<Rightarrow> if port_of ps w then Some s else exec Q f 0 x))"
  using assms(2) fresh_codeD [OF assms(1)]
  by (auto simp: ports_code_def exec_insn exec_jump port_of_def split: option.split)

lemma exec_IPv4:
  assumes "fresh_code Q" "Has ps ProtocolMDNS \<or> Has ps ProtocolMNDP" "small t p"
  shows "exec (body_code FilterIPv4 t p ps @ insn bpfRETK s # Q) f a x =
    (case load f t 2 of None \<Rightarrow> Some 0
     | Some v \<Rightarrow> if v \<noteq> ucast EtherTypeIPv4 then exec Q f 0 x else (case load f (p + 9) 1 of None \<Rightarrow> Some 0
       | Some w \<Rightarrow> if w \<noteq> 17 then exec Q f 0 x else (case load f (p + 6) 2 of None \<Rightarrow> Some 0
         | Some w \<Rightarrow> if w AND 0x3fff \<noteq> 0 then exec Q f 0 x else (case load f p 1 of None \<Rightarrow> Some 0
           | Some h \<Rightarrow> exec (ports_code (off32 p) ps @ insn bpfRETK s # Q) f w (4 * (h AND 0x0f))))))"
  using assms(3) fresh_codeD [OF assms(1)]
  by (auto simp: small_def body_code_def exec_insn exec_jump ports_code_def Let_def split: option.split)

lemma exec_IPv6:
  assumes "fresh_code Q" "Has ps ProtocolMDNS \<or> Has ps ProtocolMNDP" "small t p"
  shows "exec (body_code FilterIPv6 t p ps @ insn bpfRETK s # Q) f a x =
    (case load f t 2 of None \<Rightarrow> Some 0
     | Some v \<Rightarrow> if v \<noteq> ucast EtherTypeIPv6 then exec Q f 0 x else (case load f (p + 6) 1 of None \<Rightarrow> Some 0
       | Some nh \<Rightarrow> if nh = 17 then exec (ports_code (off32 (p + 40)) ps @ insn bpfRETK s # Q) f nh x
           else if nh \<in> {0, 43, 44, 51, 60} then Some s
           else if nh = NOT 0 then Some s else exec Q f 0 x))"
  using assms(3) fresh_codeD [OF assms(1)]
  by (auto simp: small_def body_code_def exec_insn exec_jump ports_code_def Let_def split: option.split)

section \<open>What a path decides\<close>

text \<open>The type that a path is for.\<close>

definition kind_type :: "filterKind \<Rightarrow> u32 \<Rightarrow> bool" where
  "kind_type kind v = (case kind of
       FilterLLDP \<Rightarrow> v = ucast EtherTypeLLDP
     | FilterCDP \<Rightarrow> v < 0x0600
     | FilterIPv4 \<Rightarrow> v = ucast EtherTypeIPv4
     | FilterIPv6 \<Rightarrow> v = ucast EtherTypeIPv6)"

definition kind_wanted :: "filterKind \<Rightarrow> ProtocolSet \<Rightarrow> bytes \<Rightarrow> nat \<Rightarrow> u32 \<Rightarrow> bool" where
  "kind_wanted kind ps f p v = (case kind of
       FilterLLDP \<Rightarrow> lldp_wanted ps v
     | FilterCDP \<Rightarrow> cdp_wanted ps f p v
     | FilterIPv4 \<Rightarrow> ipv4_wanted ps f p v
     | FilterIPv6 \<Rightarrow> ipv6_wanted ps f p v)"

definition kinds :: "ProtocolSet \<Rightarrow> filterKind list" where
  "kinds ps = (if Has ps ProtocolLLDP then [FilterLLDP] else []) @ (if Has ps ProtocolCDP then [FilterCDP] else []) @
     (if ps AND (ProtocolsMNDP OR ProtocolsMDNS) \<noteq> 0 then [FilterIPv4, FilterIPv6] else [])"

lemma depth_code_kinds: "depth_code ps s d = concat (map (\<lambda>k. path_code d k ps s) (kinds ps))"
  by (simp add: depth_code_def kinds_def)

lemma udp_selected: "(ps AND (ProtocolsMNDP OR ProtocolsMDNS) \<noteq> 0) = (Has ps ProtocolMDNS \<or> Has ps ProtocolMNDP)"
proof -
  have b: "ProtocolsMNDP = 4" "ProtocolsMDNS = 8" "Set ProtocolMNDP = 4" "Set ProtocolMDNS = 8"
    by (simp_all add: protocol_set_defs Set_def protocol_defs)
  have "(ps AND 12 = 0) = (ps AND 4 = 0 \<and> ps AND 8 = 0)"
  proof -
    have "ps AND 12 = (ps AND 4) OR (ps AND 8)" by (simp add: bit.conj_disj_distrib [symmetric])
    then show ?thesis by (simp add: or_eq_0_iff)
  qed
  then show ?thesis by (auto simp: Has_def b)
qed

lemma kind_type_disjoint:
  "kind_type k v \<Longrightarrow> kind_type k' v \<Longrightarrow> k = k'" "kind_type k v \<Longrightarrow> \<not> is_tag v"
  by (cases k; cases k'; auto simp: kind_type_def is_tag_def ethertype_defs)+

definition passes :: "bytes \<Rightarrow> nat \<Rightarrow> bool" where
  "passes f d = (\<forall>t \<in> set [0 ..< d]. \<exists>v. load f (12 + t * 4) 2 = Some v \<and> is_tag v)"

lemma fresh_path: "fresh_code (path_code d kind ps s @ Q)"
proof (cases d)
  case 0
  then show ?thesis
    by (cases kind) (simp_all add: path_code_def Let_def body_code_def fresh_load)
next
  case (Suc n)
  then show ?thesis by (simp add: path_code_def Let_def fresh_load upt_rec)
qed

lemma exec_path:
  assumes "fresh_code Q" "d \<le> 3"
  shows "if passes f d
    then exec (path_code d kind ps s @ Q) f a x = exec (body_code kind (12 + d * 4) (14 + d * 4) ps @ insn bpfRETK (of_int s) # Q) f 0 x
    else exec (path_code d kind ps s @ Q) f a x \<in> {Some 0, exec Q f 0 x}"
proof -
  define body where "body = body_code kind (12 + d * 4) (14 + d * 4) ps @ [insn bpfRETK (of_int s)]"
  have e: "path_code d kind ps s @ Q = guard_code [0 ..< d] (length body) @ body @ Q"
    by (simp add: path_code_def Let_def body_def)
  have e': "body_code kind (12 + d * 4) (14 + d * 4) ps @ insn bpfRETK (of_int s) # Q = body @ Q"
    by (simp add: body_def)
  have f: "fresh_code (body @ Q)" unfolding body_def by (cases kind) (simp_all add: body_code_def Let_def fresh_load)
  have "length body \<le> 30" unfolding body_def by (cases kind) (simp_all add: body_code_def Let_def ports_code_def)
  then have "3 * length [0 ..< d] + length body < 256" "\<forall>t \<in> set [0 ..< d]. t < 100" using assms(2) by auto
  from exec_guard [OF f assms(1) refl this, of f a x] show ?thesis unfolding e e' passes_def .
qed

lemma path_idle:
  assumes "fresh_code Q" "d \<le> 3" "kind \<in> set (kinds ps)" "\<not> passes f d \<or> load f (12 + d * 4) 2 = None"
  shows "exec (path_code d kind ps s @ Q) f a x \<in> {Some 0, exec Q f 0 x}"
proof (cases "passes f d")
  case True
  have u: "kind = FilterIPv4 \<or> kind = FilterIPv6 \<Longrightarrow> Has ps ProtocolMDNS \<or> Has ps ProtocolMNDP"
    using assms(3) udp_selected [of ps] by (auto simp: kinds_def split: if_splits)
  have sm: "small (12 + d * 4) (14 + d * 4)" using assms(2) by (simp add: small_def)
  have "load f (12 + d * 4) 2 = None" using True assms(4) by simp
  then have "exec (body_code kind (12 + d * 4) (14 + d * 4) ps @ insn bpfRETK (of_int s) # Q) f 0 x = Some 0"
    using u sm by (cases kind) (simp_all add: exec_LLDP exec_CDP exec_IPv4 exec_IPv6 assms(1))
  then show ?thesis using exec_path [OF assms(1,2), of f kind ps s a x] True by simp
next
  case False
  then show ?thesis using exec_path [OF assms(1,2), of f kind ps s a x] by simp
qed

lemma path_skip:
  assumes "fresh_code Q" "d \<le> 3" "kind \<in> set (kinds ps)" "passes f d" "load f (12 + d * 4) 2 = Some v" "\<not> kind_type kind v"
  shows "exec (path_code d kind ps s @ Q) f a x = exec Q f 0 x"
proof -
  have u: "kind = FilterIPv4 \<or> kind = FilterIPv6 \<Longrightarrow> Has ps ProtocolMDNS \<or> Has ps ProtocolMNDP"
    using assms(3) udp_selected [of ps] by (auto simp: kinds_def split: if_splits)
  have sm: "small (12 + d * 4) (14 + d * 4)" using assms(2) by (simp add: small_def)
  have "exec (body_code kind (12 + d * 4) (14 + d * 4) ps @ insn bpfRETK (of_int s) # Q) f 0 x = exec Q f 0 x"
    using u sm assms(5,6) by (cases kind) (simp_all add: exec_LLDP exec_CDP exec_IPv4 exec_IPv6 assms(1) kind_type_def linorder_not_less)
  then show ?thesis using exec_path [OF assms(1,2), of f kind ps s a x] assms(4) by simp
qed

lemma byte_not_ones: "load f off 1 = Some v \<Longrightarrow> v \<noteq> NOT 0"
proof
  assume "load f off 1 = Some v" "v = NOT 0"
  then have e: "ucast (f ! off) = (NOT 0 :: u32)" by (auto simp: load_def split: if_splits)
  have "bit (ucast (f ! off) :: u32) 8 = bit (NOT 0 :: u32) 8" by (simp only: e)
  moreover have "\<not> bit (ucast (f ! off) :: u32) 8" by (simp add: bit_simps) (auto dest: bit_imp_le_length)
  ultimately show False by (simp add: bit_simps)
qed

lemma ports_verdict:
  assumes "\<And>x. exec Q f 0 x = Some 0" "fresh_code Q" "Has ps ProtocolMDNS \<or> Has ps ProtocolMNDP" "p < 500" "unat x < 1000"
  shows "exec (ports_code (off32 p) ps @ insn bpfRETK s # Q) f a x = Some (if port_wanted ps f (p + unat x) then s else 0)"
  unfolding exec_ports [OF assms(2,3)] unat_off_plus [OF assms(4,5)]
  by (auto simp: port_wanted_def assms(1) split: option.split)

lemma path_hit:
  assumes q: "\<And>x. exec Q f 0 x = Some 0" "fresh_code Q" and d: "d \<le> 3"
    and k: "kind \<in> set (kinds ps)" "passes f d" "load f (12 + d * 4) 2 = Some v" "kind_type kind v"
  shows "exec (path_code d kind ps s @ Q) f a 0 = Some (if kind_wanted kind ps f (14 + d * 4) v then of_int s else 0)"
proof -
  have u: "kind = FilterIPv4 \<or> kind = FilterIPv6 \<Longrightarrow> Has ps ProtocolMDNS \<or> Has ps ProtocolMNDP"
    using k(1) udp_selected [of ps] by (auto simp: kinds_def split: if_splits)
  have sm: "small (12 + d * 4) (14 + d * 4)" using d by (simp add: small_def)
  have "exec (body_code kind (12 + d * 4) (14 + d * 4) ps @ insn bpfRETK (of_int s) # Q) f 0 0 =
      Some (if kind_wanted kind ps f (14 + d * 4) v then of_int s else 0)"
  proof (cases kind)
    case FilterLLDP
    then show ?thesis
      using k q sm by (auto simp: exec_LLDP kind_type_def kind_wanted_def lldp_wanted_def kinds_def)
  next
    case FilterCDP
    then show ?thesis
      using k q sm by (auto simp: exec_CDP kind_type_def kind_wanted_def cdp_wanted_def kinds_def split: option.split)
  next
    case FilterIPv4
    have h: "unat (4 * (h AND 0x0f) :: u32) < 1000" for h :: u32 using header_length [of h] by simp
    note P = ports_verdict [OF q u, where x = "4 * (h AND 0x0f)" for h, OF _ _ h]
    show ?thesis
      using k q sm u FilterIPv4 d
      by (auto simp: exec_IPv4 kind_type_def kind_wanted_def ipv4_wanted_def P header_length(2) split: option.split)
  next
    case FilterIPv6
    note P = ports_verdict [OF q u, where x = 0]
    show ?thesis
      using k q sm u FilterIPv6 d byte_not_ones [of f]
      by (auto simp: exec_IPv6 kind_type_def kind_wanted_def ipv6_wanted_def P split: option.split)
  qed
  then show ?thesis using exec_path [OF q(2) d, of f kind ps s a 0] k(2) by simp
qed

section \<open>The whole program\<close>

abbreviation paths_code :: "nat \<Rightarrow> ProtocolSet \<Rightarrow> int \<Rightarrow> filterKind list \<Rightarrow> filterInsn list" where
  "paths_code d ps s ks \<equiv> concat (map (\<lambda>k. path_code d k ps s) ks)"

lemma fresh_paths: "fresh_code Q \<Longrightarrow> fresh_code (paths_code d ps s ks @ Q)"
  by (cases ks) (simp_all add: fresh_path)

lemma paths_idle:
  assumes "fresh_code Q" "d \<le> 3" "\<not> passes f d \<or> load f (12 + d * 4) 2 = None" "set ks \<subseteq> set (kinds ps)"
  shows "exec (paths_code d ps s ks @ Q) f a x \<in> {Some 0, exec Q f 0 x}"
  using assms(4)
proof (induction ks arbitrary: a)
  case Nil
  then show ?case using fresh_codeD [OF assms(1), of f a x] by simp
next
  case (Cons k ks)
  have "exec (path_code d k ps s @ paths_code d ps s ks @ Q) f a x \<in> {Some 0, exec (paths_code d ps s ks @ Q) f 0 x}"
    using Cons.prems by (intro path_idle [OF fresh_paths [OF assms(1)] assms(2) _ assms(3)]) simp
  then show ?case using Cons.IH [of 0] Cons.prems by auto
qed

lemma paths_skip:
  assumes "fresh_code Q" "d \<le> 3" "passes f d" "load f (12 + d * 4) 2 = Some v" "set ks \<subseteq> set (kinds ps)"
    "\<forall>k \<in> set ks. \<not> kind_type k v"
  shows "exec (paths_code d ps s ks @ Q) f a x = exec Q f 0 x"
  using assms(5,6)
proof (induction ks arbitrary: a)
  case Nil
  then show ?case using fresh_codeD [OF assms(1), of f a x] by simp
next
  case (Cons k ks)
  have "exec (path_code d k ps s @ paths_code d ps s ks @ Q) f a x = exec (paths_code d ps s ks @ Q) f 0 x"
    using Cons.prems by (intro path_skip [OF fresh_paths [OF assms(1)] assms(2) _ assms(3,4)]) simp_all
  then show ?case using Cons by simp
qed

lemma paths_hit:
  assumes q: "\<And>x. exec Q f 0 x = Some 0" "fresh_code Q" and d: "d \<le> 3"
    and v: "passes f d" "load f (12 + d * 4) 2 = Some v" "kind_type k v"
    and ks: "set ks \<subseteq> set (kinds ps)" "distinct ks" "k \<in> set ks"
  shows "exec (paths_code d ps s ks @ Q) f a 0 = Some (if kind_wanted k ps f (14 + d * 4) v then of_int s else 0)"
  using ks
proof (induction ks arbitrary: a)
  case (Cons h ks)
  show ?case
  proof (cases "h = k")
    case True
    have "\<forall>k' \<in> set ks. \<not> kind_type k' v" using Cons.prems(2) True v(3) kind_type_disjoint(1) by auto
    then have "exec (paths_code d ps s ks @ Q) f 0 x = Some 0" for x
      using paths_skip [OF q(2) d v(1,2), of ks ps s 0 x] Cons.prems(1) q(1) by simp
    then show ?thesis
      using path_hit [of "paths_code d ps s ks @ Q" f d k ps v s a] fresh_paths [OF q(2)] d v Cons.prems(1) True by simp
  next
    case False
    then have "\<not> kind_type h v" using v(3) kind_type_disjoint(1) by blast
    then have "exec (path_code d h ps s @ paths_code d ps s ks @ Q) f a 0 = exec (paths_code d ps s ks @ Q) f 0 0"
      using Cons.prems by (intro path_skip [OF fresh_paths [OF q(2)] d _ v(1,2)]) simp_all
    then show ?thesis using Cons False by simp
  qed
qed simp

text \<open>What the type that \<open>type_at\<close> finds means for the frame.\<close>

definition type_wanted :: "ProtocolSet \<Rightarrow> bytes \<Rightarrow> nat \<Rightarrow> u32 \<Rightarrow> bool" where
  "type_wanted ps f off v =
     (lldp_wanted ps v \<or> cdp_wanted ps f (off + 2) v \<or> ipv4_wanted ps f (off + 2) v \<or> ipv6_wanted ps f (off + 2) v)"

lemma frame_wanted_type:
  "frame_wanted ps f = (case type_at f maxVLANTags 12 of None \<Rightarrow> False | Some (off, v) \<Rightarrow> type_wanted ps f off v)"
  by (auto simp: frame_wanted_def type_wanted_def split: option.split prod.split)

lemma port_wanted_selected: "port_wanted ps f off \<Longrightarrow> ps AND (ProtocolsMNDP OR ProtocolsMDNS) \<noteq> 0"
  by (auto simp: port_wanted_def port_of_def udp_selected)

lemma wanted_kind:
  "lldp_wanted ps v \<Longrightarrow> FilterLLDP \<in> set (kinds ps) \<and> kind_type FilterLLDP v"
  "cdp_wanted ps f p v \<Longrightarrow> FilterCDP \<in> set (kinds ps) \<and> kind_type FilterCDP v"
  "ipv4_wanted ps f p v \<Longrightarrow> FilterIPv4 \<in> set (kinds ps) \<and> kind_type FilterIPv4 v"
  "ipv6_wanted ps f p v \<Longrightarrow> FilterIPv6 \<in> set (kinds ps) \<and> kind_type FilterIPv6 v"
  by (auto simp: lldp_wanted_def cdp_wanted_def ipv4_wanted_def ipv6_wanted_def kinds_def kind_type_def
      udp_selected dest: port_wanted_selected)

lemma type_wanted_kind: "type_wanted ps f off v = (\<exists>k \<in> set (kinds ps). kind_type k v \<and> kind_wanted k ps f (off + 2) v)"
proof
  assume "type_wanted ps f off v"
  then consider "kind_wanted FilterLLDP ps f (off + 2) v" "lldp_wanted ps v"
    | "kind_wanted FilterCDP ps f (off + 2) v" "cdp_wanted ps f (off + 2) v"
    | "kind_wanted FilterIPv4 ps f (off + 2) v" "ipv4_wanted ps f (off + 2) v"
    | "kind_wanted FilterIPv6 ps f (off + 2) v" "ipv6_wanted ps f (off + 2) v"
    by (auto simp: type_wanted_def kind_wanted_def)
  then show "\<exists>k \<in> set (kinds ps). kind_type k v \<and> kind_wanted k ps f (off + 2) v"
    by cases (blast dest: wanted_kind)+
next
  assume "\<exists>k \<in> set (kinds ps). kind_type k v \<and> kind_wanted k ps f (off + 2) v"
  then obtain k where "kind_wanted k ps f (off + 2) v" by blast
  then show "type_wanted ps f off v" by (cases k) (simp_all add: type_wanted_def kind_wanted_def)
qed

lemma kinds_distinct: "distinct (kinds ps)"
  by (simp add: kinds_def)

definition tail_code :: "ProtocolSet \<Rightarrow> int \<Rightarrow> nat \<Rightarrow> filterInsn list" where
  "tail_code ps s d = concat (map (depth_code ps s) [d ..< 4]) @ [insn bpfRETK 0]"

lemma tail_code: "tail_code ps s 4 = [insn bpfRETK 0]"
  "d \<le> 3 \<Longrightarrow> tail_code ps s d = paths_code d ps s (kinds ps) @ tail_code ps s (Suc d)"
  by (simp_all add: tail_code_def upt_conv_Cons depth_code_kinds)

lemma fresh_tail: "fresh_code (tail_code ps s d)"
proof (induction "4 - d" arbitrary: d)
  case 0
  then show ?case by (simp add: tail_code_def fresh_load)
next
  case (Suc n)
  then show ?case using fresh_paths [of "tail_code ps s (Suc d)"] by (simp add: tail_code(2))
qed

lemma passes_Suc: "passes f (Suc d) = (passes f d \<and> (\<exists>v. load f (12 + d * 4) 2 = Some v \<and> is_tag v))"
  by (auto simp: passes_def less_Suc_eq)

lemma tail_idle:
  assumes "\<not> passes f d" "d \<le> 4"
  shows "exec (tail_code ps s d) f a x = Some 0"
  using assms
proof (induction "4 - d" arbitrary: d a)
  case 0
  then show ?case by (simp add: tail_code(1) exec_insn)
next
  case (Suc n)
  then have "d \<le> 3" by simp
  moreover from Suc have "exec (tail_code ps s (Suc d)) f 0 x = Some 0" by (simp add: passes_Suc)
  ultimately show ?case
    using paths_idle [OF fresh_tail, of d f "kinds ps" ps s ps s "Suc d" a x] Suc.prems by (simp add: tail_code(2))
qed

lemma tail_verdict:
  assumes "passes f d" "d \<le> 3"
  shows "exec (tail_code ps s d) f a 0 = Some (if case type_at f (3 - d) (12 + d * 4) of None \<Rightarrow> False
    | Some (off, v) \<Rightarrow> type_wanted ps f off v then of_int s else 0)"
  using assms
proof (induction "3 - d" arbitrary: d a rule: less_induct)
  case less
  let ?Q = "tail_code ps s (Suc d)"
  note code = tail_code(2) [OF less.prems(2), of ps s]
  show ?case
  proof (cases "load f (12 + d * 4) 2")
    case None
    then have "type_at f (3 - d) (12 + d * 4) = None" "\<not> passes f (Suc d)" by (simp_all add: type_at.simps passes_Suc)
    then show ?thesis
      using paths_idle [OF fresh_tail less.prems(2), of f "kinds ps" ps s ps s "Suc d" a 0] None less.prems(2)
        tail_idle [of f "Suc d" ps s 0 0] by (simp add: code)
  next
    case (Some v)
    show ?thesis
    proof (cases "is_tag v")
      case True
      then have "exec (tail_code ps s d) f a 0 = exec ?Q f 0 0"
        using paths_skip [OF fresh_tail less.prems(2,1) Some, of "kinds ps" ps s ps s "Suc d" a 0] kind_type_disjoint(2)
        by (auto simp: code)
      moreover have "exec ?Q f 0 0 = Some (if case type_at f (3 - d) (12 + d * 4) of None \<Rightarrow> False
          | Some (off, v) \<Rightarrow> type_wanted ps f off v then of_int s else 0)"
      proof (cases "d = 3")
        case 3: True
        then show ?thesis using Some True by (simp add: tail_code(1) exec_insn type_at.simps [of f 0])
      next
        case False
        then obtain n where n: "3 - d = Suc n" "3 - Suc d = n" using less.prems(2) by (cases "3 - d") auto
        have "passes f (Suc d)" using less.prems(1) Some True by (simp add: passes_Suc)
        then show ?thesis
          using less.hyps [of "Suc d" 0] False less.prems(2) n Some True
          by (simp add: type_at.simps [of f "Suc n"] algebra_simps)
      qed
      ultimately show ?thesis by simp
    next
      case False
      then have ty: "type_at f (3 - d) (12 + d * 4) = Some (12 + d * 4, v)" using Some by (simp add: type_at.simps)
      have Q: "exec ?Q f 0 x = Some 0" for x
        using tail_idle [of f "Suc d" ps s 0 x] Some False less.prems(2) by (simp add: passes_Suc)
      show ?thesis
      proof (cases "\<exists>k \<in> set (kinds ps). kind_type k v")
        case True
        then obtain k where k: "k \<in> set (kinds ps)" "kind_type k v" by blast
        then have "type_wanted ps f (12 + d * 4) v = kind_wanted k ps f (14 + d * 4) v"
          by (auto simp: type_wanted_kind dest: kind_type_disjoint(1))
        then show ?thesis
          using paths_hit [OF Q fresh_tail less.prems(2,1) Some k(2) subset_refl kinds_distinct k(1)] by (simp add: code ty)
      next
        case False
        then have "\<not> type_wanted ps f (12 + d * 4) v" by (auto simp: type_wanted_kind)
        then show ?thesis
          using paths_skip [OF fresh_tail less.prems(2,1) Some, of "kinds ps" ps s ps s "Suc d" a 0] False Q
          by (auto simp: code ty)
      qed
    qed
  qed
qed

lemma discoveryFilter_tail: "discoveryFilter ps snaplen = Some (tail_code ps snaplen 0)"
  by (simp add: discoveryFilter_code tail_code_def upt_conv_Cons numeral_2_eq_2 numeral_3_eq_3)

lemma tail_runs: "runFilter (tail_code ps snaplen 0) f = Some (if frame_wanted ps f then of_int snaplen else 0)"
proof -
  have "passes f 0" by (simp add: passes_def)
  then show ?thesis
    using tail_verdict [of f 0 ps snaplen 0] by (simp add: frame_wanted_type maxVLANTags_def runFilter_def exec_def)
qed

text \<open>
  (C7) The capture filter decides exactly what it is for: for every selection of protocols and every
  snapshot length, \<open>discoveryFilter\<close> builds a program (no label is missing and no jump is too long
  for its byte), and that program, run on any frame, ends with the snapshot length if the frame, behind at
  most \<open>maxVLANTags\<close> tags, is an LLDP frame, a CDP frame or a UDP datagram to or from a port of a
  selected protocol (or an IPv6 packet with an extension header), and with 0 if not; short frames included.
\<close>

theorem filter_exact:
  "\<exists>code. discoveryFilter ps snaplen = Some code \<and> runFilter code f = Some (if frame_wanted ps f then of_int snaplen else 0)"
  using discoveryFilter_tail tail_runs by blast

end
