(* ===== verification/FilterRouting.thy ===== *)
theory FilterRouting
  imports PacketFilter Lifecycle
begin

text \<open>
  The packet filter of \<open>capture_common.go\<close> against \<open>routeCapture\<close> of \<open>engine.go\<close> and the frame decoders
  of \<open>ethernet.go\<close>: what the decoders deliver for a frame whose type the filter knows, and that a frame
  which the filter refuses is one that the engine would only count, with the one exception that LLC/SNAP
  framing makes.
\<close>

section \<open>The filter and the engine agree\<close>

lemma load_simps:
  "off < length f \<Longrightarrow> load f off 1 = Some (ucast (f ! off))"
  "off + 2 \<le> length f \<Longrightarrow> load f off 2 = Some (ucast (word16 (f ! off) (f ! (off + 1))))"
  "off + 4 \<le> length f \<Longrightarrow> load f off 4 = Some (word32 (f ! off) (f ! (off + 1)) (f ! (off + 2)) (f ! (off + 3)))"
  by (simp_all add: load_def)

lemma ucast_type [simp]: "(ucast (a :: u16) = (ucast b :: u32)) = (a = b)"
proof
  assume e: "ucast a = (ucast b :: u32)"
  show "a = b"
  proof (rule bit_word_eqI)
    fix n assume n: "n < LENGTH(16)"
    have "bit (ucast a :: u32) n = bit (ucast b :: u32) n" by (simp only: e)
    then show "bit a n = bit b n" using n by (simp add: bit_simps)
  qed
qed simp

lemma is_tag_ucast: "is_tag (ucast et) = (et = EtherTypeVLAN \<or> et = EtherTypeQinQ)"
  by (simp add: is_tag_def)

lemma vlan_loop_type:
  assumes "vlans_ok dst" "n + 2 \<le> length b" "et = word16 (b ! n) (b ! (n + 1))" "off = n + 2"
  shows "runs (vlan_loop b st et off dst) (\<lambda>(r, d).
     (case r of Inl st' \<Rightarrow> \<not> Usable st'
      | Inr (et', off') \<Rightarrow> \<exists>m. off' = m + 2 \<and> off' \<le> length b \<and>
          type_at b (maxVLANTags - unat (eth_VLANCount dst)) n = Some (m, ucast et')) \<and>
      eth_LLC d = eth_LLC dst \<and> eth_EtherType d = eth_EtherType dst)"
  using assms
proof (induction b st et off dst arbitrary: n rule: vlan_loop.induct)
  case (1 b st et off dst)
  have l: "load b n 2 = Some (ucast et)" using "1.prems" load_simps(2) [of n b] by simp
  show ?case
  proof (cases "et = EtherTypeVLAN \<or> et = EtherTypeQinQ")
    case True
    show ?thesis
    proof (cases "unat (eth_VLANCount dst) = maxVLANTags \<or> off + 4 > length b")
      case False
      then have lt: "unat (eth_VLANCount dst) < 3" "n + 6 \<le> length b"
        using "1.prems"(1,4) by (auto simp: vlans_ok_def maxVLANTags_def)
      then obtain k where k: "maxVLANTags - unat (eth_VLANCount dst) = Suc k"
        by (cases "maxVLANTags - unat (eth_VLANCount dst)") (simp_all add: maxVLANTags_def)
      have u: "unat (eth_VLANCount dst + 1) = Suc (unat (eth_VLANCount dst))" using lt(1) by (intro unat_Suc_u8) simp
      have t: "type_at b (Suc k) n = type_at b k (n + 4)"
        using l True by (subst type_at.simps) (simp add: is_tag_ucast)
      let ?d = "\<lambda>tci. dst\<lparr>eth_VLANs := (eth_VLANs dst)[unat (eth_VLANCount dst) := tci AND 0x0fff],
         eth_VLANCount := eth_VLANCount dst + 1\<rparr>"
      let ?et = "word16 (b ! (n + 4)) (b ! (n + 5))"
      have step: "vlan_loop b st et off dst = vlan_loop b st ?et (off + 4) (?d (word16 (b ! off) (b ! (off + 1))))"
        using True False "1.prems" lt
        by (subst vlan_loop.simps) (simp add: gslice_def upd_def vlans_ok_def maxVLANTags_def eval_nat_numeral)
      have ok: "vlans_ok (?d tci)" for tci using "1.prems"(1) u lt(1) by (simp add: vlans_ok_def maxVLANTags_def)
      have IH: "runs (vlan_loop b st ?et (off + 4) (?d (word16 (b ! off) (b ! (off + 1))))) (\<lambda>(r, d).
         (case r of Inl st' \<Rightarrow> \<not> Usable st'
          | Inr (et', off') \<Rightarrow> \<exists>m. off' = m + 2 \<and> off' \<le> length b \<and>
              type_at b (maxVLANTags - unat (eth_VLANCount (?d (word16 (b ! off) (b ! (off + 1)))))) (n + 4) = Some (m, ucast et')) \<and>
          eth_LLC d = eth_LLC (?d (word16 (b ! off) (b ! (off + 1)))) \<and>
          eth_EtherType d = eth_EtherType (?d (word16 (b ! off) (b ! (off + 1)))))"
        using True False "1.prems" lt ok
        by (intro "1.IH") (auto simp: gslice_def upd_def vlans_ok_def maxVLANTags_def eval_nat_numeral)
      have "maxVLANTags - unat (eth_VLANCount dst + 1) = k" using k u by (simp add: maxVLANTags_def)
      then show ?thesis unfolding step k t by (intro runs_mono [OF IH]) (auto split: sum.splits)
    qed (use True in \<open>subst vlan_loop.simps, auto simp: wp\<close>)
  next
    case False
    then have "type_at b k n = Some (n, ucast et)" for k
      using l by (simp add: type_at.simps is_tag_ucast)
    then show ?thesis using False "1.prems" by (subst vlan_loop.simps) (simp add: wp)
  qed
qed

text \<open>What the decoder delivers for a frame whose type is known.\<close>

definition frame_typed :: "bytes \<Rightarrow> EthernetFrame \<Rightarrow> nat \<Rightarrow> u32 \<Rightarrow> bool" where
  "frame_typed f frame m v =
     (if v \<ge> 0x0600
      then v = ucast (eth_EtherType frame) \<and> eth_Payload frame = drop (m + 2) f \<and> \<not> llc_SNAP (eth_LLC frame)
      else if llc_SNAP (eth_LLC frame)
      then m + 10 \<le> length f \<and> take 6 (drop (m + 2) f) = [0xaa, 0xaa, 0x03] @ llc_OUI (eth_LLC frame) \<and>
        word16 (f ! (m + 8)) (f ! (m + 9)) = llc_PID (eth_LLC frame) \<and> eth_EtherType frame = llc_PID (eth_LLC frame)
      else eth_EtherType frame = 0)"

lemma take_6: "6 \<le> length d \<Longrightarrow> take 6 d = [d ! 0, d ! 1, d ! 2] @ take 3 (drop 3 d)"
  by (rule nth_equalityI) (auto simp: less_Suc_eq numeral_eq_Suc)

lemma decode_llc_typed:
  assumes "\<not> llc_SNAP (eth_LLC dst)" "eth_EtherType dst = 0" "data = take k (drop (m + 2) f)" "v < 0x0600"
  shows "runs (decode_llc data off st dst) (\<lambda>(st, d). Usable st \<longrightarrow> frame_typed f d m v)"
proof -
  have big: "8 \<le> k" "m + 10 \<le> length f" if "8 \<le> length data" using that assms(3) by auto
  have snap: "take 6 (drop (m + 2) f) = take 6 data" "f ! (m + 8) = data ! 6" "f ! (m + 9) = data ! 7"
    if "8 \<le> length data" using big [OF that] assms(3) by (simp_all add: min_def add.commute)
  show ?thesis
    using assms(1,2,4) snap big
    by (auto simp: decode_llc_def wp Let_def frame_typed_def take_6 zero_llc_def go_copy_def numeral_3_eq_3)
qed

lemma type_big: "(0x0600 \<le> (ucast (et :: u16) :: u32)) = (0x0600 \<le> et)"
  by transfer simp

lemma decode_ethernet_typed:
  "runs (decode_ethernet f st (EthernetFrame_Reset f0)) (\<lambda>(st', d). Usable st' \<longrightarrow>
     (\<exists>m v. type_at f maxVLANTags 12 = Some (m, v) \<and> m + 2 \<le> length f \<and> frame_typed f d m v))"
proof (cases "length f < 14")
  case False
  have R: "\<not> llc_SNAP (eth_LLC d)" "eth_EtherType d = 0"
    if "eth_LLC d = eth_LLC (EthernetFrame_Reset f0)" "eth_EtherType d = eth_EtherType (EthernetFrame_Reset f0)" for d
    using that by (simp_all add: EthernetFrame_Reset_def zero_frame_def zero_llc_def)
  have len: "runs (decode_type_or_length f et (m + 2) st d) (\<lambda>(st', d). Usable st' \<longrightarrow> frame_typed f d m (ucast et))"
    if "\<not> llc_SNAP (eth_LLC d)" "eth_EtherType d = 0" "m + 2 \<le> length f" for m et d
  proof (cases "et \<ge> 0x0600")
    case True
    then show ?thesis
      using that by (simp add: decode_type_or_length_def wp frame_typed_def type_big)
  next
    case False
    then have v: "ucast et < (0x0600 :: u32)" using type_big [of et] by simp
    have e: "drop (m + 2) f = take (length f) (drop (m + 2) f)" by simp
    note L = decode_llc_typed [OF that(1,2) _ v]
    show ?thesis
      using that(3) False L [OF refl] L [OF e]
      by (simp add: decode_type_or_length_def wp Let_def)
  qed
  let ?d = "(EthernetFrame_Reset f0)\<lparr>eth_Destination := copy_mac (eth_Destination (EthernetFrame_Reset f0)) (take 6 f),
    eth_Source := copy_mac (eth_Source (EthernetFrame_Reset f0)) (take 6 (drop 6 f))\<rparr>"
  have "runs (vlan_loop f st (word16 (f ! 12) (f ! (12 + 1))) 14 ?d) (\<lambda>(r, d).
     (case r of Inl st' \<Rightarrow> \<not> Usable st'
      | Inr (et', off') \<Rightarrow> \<exists>m. off' = m + 2 \<and> off' \<le> length f \<and>
          type_at f (maxVLANTags - unat (eth_VLANCount ?d)) 12 = Some (m, ucast et')) \<and>
      eth_LLC d = eth_LLC ?d \<and> eth_EtherType d = eth_EtherType ?d)"
    using False by (intro vlan_loop_type) (auto intro: vlans_ok_cong [OF vlans_ok_Reset])
  then have "runs (do { (r, dst) \<leftarrow> vlan_loop f st (word16 (f ! 12) (f ! (12 + 1))) 14 ?d;
        case r of Inl st \<Rightarrow> Some (st, dst) | Inr (et, off) \<Rightarrow> decode_type_or_length f et off st dst })
      (\<lambda>(st', d). Usable st' \<longrightarrow>
        (\<exists>m v. type_at f maxVLANTags 12 = Some (m, v) \<and> m + 2 \<le> length f \<and> frame_typed f d m v))"
    unfolding runs_bind
  proof (rule runs_mono)
    fix x :: "vlan_result \<times> EthernetFrame"
    obtain r d where x: "x = (r, d)" by (cases x)
    assume "case x of (r, d) \<Rightarrow>
     (case r of Inl st' \<Rightarrow> \<not> Usable st'
      | Inr (et', off') \<Rightarrow> \<exists>m. off' = m + 2 \<and> off' \<le> length f \<and>
          type_at f (maxVLANTags - unat (eth_VLANCount ?d)) 12 = Some (m, ucast et')) \<and>
      eth_LLC d = eth_LLC ?d \<and> eth_EtherType d = eth_EtherType ?d"
    then show "runs (case x of (r, dst) \<Rightarrow> case r of Inl st \<Rightarrow> Some (st, dst) | Inr (et, off) \<Rightarrow> decode_type_or_length f et off st dst)
      (\<lambda>(st', d). Usable st' \<longrightarrow>
        (\<exists>m v. type_at f maxVLANTags 12 = Some (m, v) \<and> m + 2 \<le> length f \<and> frame_typed f d m v))"
      using R [of d]
      by (cases r) (auto simp: x wp EthernetFrame_Reset_def zero_frame_def simp del: add_2_eq_Suc' intro!: runs_mono [OF len])
  qed
  then show ?thesis
    using False by (simp add: decode_ethernet_def wp Let_def eval_nat_numeral)
qed (simp add: decode_ethernet_def wp)

section \<open>A refused frame is not routed\<close>

text \<open>
  An LLC/SNAP frame whose protocol identifier is an EtherType of the engine. The decoder reports the
  identifier as the EtherType of the frame, whatever its OUI, and the engine routes the frame by it; the
  filter only looks for Ethernet II types.
\<close>

definition snap_routed :: "bytes \<Rightarrow> bool" where
  "snap_routed f =
     (case type_at f maxVLANTags 12 of
        None \<Rightarrow> False
      | Some (m, v) \<Rightarrow> v < 0x0600 \<and> m + 10 \<le> length f \<and> take 3 (drop (m + 2) f) = [0xaa, 0xaa, 0x03] \<and>
          word16 (f ! (m + 8)) (f ! (m + 9)) \<in> {EtherTypeLLDP, EtherTypeIPv4, EtherTypeIPv6})"

lemma ports_of_udp:
  assumes "\<not> port_wanted ps f off" "off + 4 \<le> length f"
  shows "\<not> port_of ps (ucast (word16 (f ! off) (f ! (off + 1))))" "\<not> port_of ps (ucast (word16 (f ! (off + 2)) (f ! (off + 3))))"
  using assms load_simps(2) [of off f] load_simps(2) [of "off + 2" f] by (auto simp: port_wanted_def numeral_3_eq_3)

lemma not_port_of:
  "\<not> port_of ps (ucast p) \<Longrightarrow> \<not> (Has ps ProtocolMDNS \<and> p = MDNSPort)"
  "\<not> port_of ps (ucast p) \<Longrightarrow> \<not> (Has ps ProtocolMNDP \<and> p = MNDPPort)"
  by (auto simp: port_of_def)

text \<open>A datagram whose ports are not selected is dropped.\<close>

definition udp_idle :: "ProtocolSet \<Rightarrow> DecodeStatus \<times> UDPPacket \<Rightarrow> bool" where
  "udp_idle ps r = (Usable (fst r) \<longrightarrow> \<not> port_of ps (ucast (udp_SourcePort (snd r))) \<and> \<not> port_of ps (ucast (udp_DestinationPort (snd r))))"

lemma route_udp_idle:
  assumes "runs (decode_udp frame clean_status zero_udp) (udp_idle (cfg_Protocols (en_cfg e)))"
  shows "route_udp meta frame e = Some e"
proof -
  obtain st u where "decode_udp frame clean_status zero_udp = Some (st, u)" "udp_idle (cfg_Protocols (en_cfg e)) (st, u)"
    using runs_exD [OF assms] by auto
  then show ?thesis
    by (auto simp: route_udp_def DecodeUDP_def UDPPacket_Reset_def udp_idle_def Let_def dest: not_port_of)
qed

lemma udp_header_idle:
  assumes "\<not> port_of ps (ucast (word16 (u ! 0) (u ! 1)))" "\<not> port_of ps (ucast (word16 (u ! 2) (u ! 3)))"
  shows "runs (udp_header u st dst) (udp_idle ps)"
  using assms by (auto simp: udp_header_def wp Let_def udp_idle_def numeral_3_eq_3)

lemma ucast_fragment: "((ucast (w :: u16) :: u32) AND 0x3fff = 0) = (w AND 0x3fff = 0)"
  by transfer simp

lemma ucast_header_length: "unat ((ucast (h :: u8) :: u32) AND 0x0f) = unat (h AND 0x0f)"
  by transfer simp

lemma ucast_byte [simp]: "((ucast (b :: u8) :: u32) = ucast (c :: u8)) = (b = c)"
  by transfer simp

lemma ucast_17: "((ucast (b :: u8) :: u32) = 17) = (b = 17)"
  using ucast_byte [of b 17] by simp

lemma udp_ipv4_idle:
  assumes "\<not> ipv4_wanted ps f n (ucast EtherTypeIPv4)" "n \<le> length f"
  shows "runs (udp_ipv4 (drop n f) clean_status dst) (\<lambda>(r, d). case r of Inl st \<Rightarrow> \<not> Usable st
    | Inr payload \<Rightarrow> runs (udp_header payload clean_status d) (udp_idle ps))"
proof (rule runs_mono [OF udp_ipv4_spec])
  fix x :: "(DecodeStatus + bytes) \<times> UDPPacket"
  obtain r d where x: "x = (r, d)" by (cases x)
  let ?p = "drop n f"
  assume *: "case x of (r, d) \<Rightarrow> case r of
       Inl st' \<Rightarrow> Severity st' = DecodeFatal \<and> \<not> ipv4_header_ok ?p
     | Inr payload \<Rightarrow> ipv4_header_ok ?p \<and>
         payload = take (ipv4_total_len ?p - ipv4_header_len ?p) (drop (ipv4_header_len ?p) ?p) \<and>
         d = dst\<lparr>udp_SourceIP := Addr4 (take 4 (drop 12 ?p)), udp_DestinationIP := Addr4 (take 4 (drop 16 ?p))\<rparr>"
  show "case x of (r, d) \<Rightarrow> case r of Inl st \<Rightarrow> \<not> Usable st
    | Inr payload \<Rightarrow> runs (udp_header payload clean_status d) (udp_idle ps)"
  proof (cases r)
    case (Inr payload)
    define h where "h = ipv4_header_len ?p"
    have ok: "ipv4_header_ok ?p" and pl: "payload = take (ipv4_total_len ?p - h) (drop h ?p)"
      using * by (simp_all add: x Inr h_def)
    show ?thesis
    proof (cases "length payload < 8")
      case False
      then have l: "n + h + 8 \<le> length f" "20 \<le> h" "8 \<le> ipv4_total_len ?p - h" using pl ok by (auto simp: ipv4_header_ok_def h_def)
      have "load f (n + 6) 2 = Some (ucast (word16 (f ! (n + 6)) (f ! (n + 7))))"
        using load_simps(2) [of "n + 6" f] l by (simp add: ac_simps)
      moreover have n9: "n + 9 < length f" using l by simp
      moreover have "load f (n + 9) 1 = Some 17" "load f n 1 = Some (ucast (f ! n))"
        "(ucast (word16 (f ! (n + 6)) (f ! (n + 7))) :: u32) AND 0x3fff = 0"
        "4 * unat ((ucast (f ! n) :: u32) AND 0x0f) = h"
        using ok l n9 load_simps(1) [of n f] load_simps(1) [of "n + 9" f]
        by (simp_all add: ipv4_header_ok_def ipv4_header_len_def h_def ucast_header_length ucast_fragment)
      ultimately have "\<not> port_wanted ps f (n + h)" using assms(1) by (auto simp: ipv4_wanted_def)
      note P = ports_of_udp [OF this]
      have "payload ! i = f ! (n + h + i)" if "i < 8" for i using pl l that by (simp add: ac_simps)
      then show ?thesis
        using P l by (auto simp: x Inr intro!: udp_header_idle simp: numeral_3_eq_3)
    qed (simp add: x Inr udp_header_def wp udp_idle_def)
  qed (use * in \<open>simp add: x Usable_def\<close>)
qed

lemma ucast_numeral:
  "((ucast (b :: u8) :: u32) = 0) = (b = 0)" "((ucast b :: u32) = 43) = (b = 43)" "((ucast b :: u32) = 44) = (b = 44)"
  "((ucast b :: u32) = 51) = (b = 51)" "((ucast b :: u32) = 60) = (b = 60)"
  using ucast_byte [of b 0] ucast_byte [of b 43] ucast_byte [of b 44] ucast_byte [of b 51] ucast_byte [of b 60] by simp_all

lemma udp_ipv6_idle:
  assumes "\<not> ipv6_wanted ps f n (ucast EtherTypeIPv6)" "n \<le> length f" "Has ps ProtocolMDNS \<or> Has ps ProtocolMNDP"
  shows "runs (udp_ipv6 (drop n f) clean_status dst) (\<lambda>(r, d). case r of Inl st \<Rightarrow> \<not> Usable st
    | Inr payload \<Rightarrow> runs (udp_header payload clean_status d) (udp_idle ps))"
proof -
  let ?p = "drop n f"
  let ?nxt = "?p ! 6"
  have hdr: "runs (udp_header (take k (drop 40 ?p)) clean_status d) (udp_idle ps)"
    if nxt: "?nxt = 17" and len: "40 \<le> length ?p" for k d
  proof (cases "length (take k (drop 40 ?p)) < 8")
    case False
    then have l: "n + 48 \<le> length f" "8 \<le> k" using len by auto
    have "load f (n + 6) 1 = Some 17" using load_simps(1) [of "n + 6" f] nxt l by simp
    then have "\<not> port_wanted ps f (40 + n)" using assms(1,3) by (auto simp: ipv6_wanted_def add.commute [of n])
    note P = ports_of_udp [OF this]
    have "take k (drop 40 ?p) ! i = f ! (40 + n + i)" if "i < 8" for i using l that by simp
    then show ?thesis using P l by (auto intro!: udp_header_idle simp: numeral_3_eq_3)
  qed (simp add: udp_header_def wp udp_idle_def)
  have ext: "?nxt = 17 \<or> ?nxt \<notin> {0, 43, 44, 51, 60}" if "40 \<le> length ?p"
    using assms(1,3) load_simps(1) [of "n + 6" f] that by (auto simp: ipv6_wanted_def ucast_17 ucast_numeral)
  have loop: "runs (ext_loop ?p tot clean_status (f ! (n + 6)) 40 max_ext_headers) P =
      (if f ! (n + 6) = 17 then P (Inr 40) else P (Inl (addIssue clean_status DecodeFatal IssueWrongProtocol 40 (ucast (f ! (n + 6))))))"
    if "40 \<le> length f - n" for tot P
    using ext that by (subst ext_loop.simps) (auto simp: max_ext_headers_def wp split: nat.split)
  show ?thesis
    using hdr by (auto simp: udp_ipv6_def wp Let_def loop)
qed

lemma decode_udp_idle:
  assumes "\<not> ipv4_wanted ps f n (ucast (eth_EtherType frame))" "\<not> ipv6_wanted ps f n (ucast (eth_EtherType frame))"
    "eth_Payload frame = drop n f" "n \<le> length f"
  shows "runs (decode_udp frame clean_status zero_udp) (udp_idle ps)"
proof (cases "Has ps ProtocolMDNS \<or> Has ps ProtocolMNDP")
  case True
  have "runs (if eth_EtherType frame = EtherTypeIPv4 then udp_ipv4 (eth_Payload frame) clean_status zero_udp
      else if eth_EtherType frame = EtherTypeIPv6 then udp_ipv6 (eth_Payload frame) clean_status zero_udp
      else Some (Inl (addIssue clean_status DecodeFatal IssueWrongProtocol 0 (eth_EtherType frame)), zero_udp))
    (\<lambda>(r, d). case r of Inl st \<Rightarrow> \<not> Usable st | Inr payload \<Rightarrow> runs (udp_header payload clean_status d) (udp_idle ps))"
    using assms udp_ipv4_idle [of ps f n] udp_ipv6_idle [of ps f n] True by (auto simp: wp)
  then show ?thesis
    unfolding decode_udp_def runs_bind
    by (rule runs_mono) (auto simp: wp udp_idle_def split: sum.splits)
next
  case False
  then have "\<not> port_of ps v" for v by (simp add: port_of_def)
  then show ?thesis
    by (intro runs_mono [OF decode_udp_runs]) (simp_all add: udp_idle_def split: prod.split)
qed

lemma refused_ethernet:
  assumes "\<not> type_wanted ps f m v" "frame_typed f frame m v" "m + 2 \<le> length f" "v \<ge> 0x0600"
  shows "\<not> (eth_EtherType frame = EtherTypeLLDP \<and> Has ps ProtocolLLDP)" "\<not> llc_SNAP (eth_LLC frame)"
    "runs (decode_udp frame clean_status zero_udp) (udp_idle ps)"
  using assms
  by (auto simp: type_wanted_def lldp_wanted_def frame_typed_def simp del: add_2_eq_Suc' intro!: decode_udp_idle)

lemma snap_words:
  assumes "m + 10 \<le> length f" "take 6 (drop (m + 2) f) = [0xaa, 0xaa, 0x03] @ ciscoOUI" "word16 (f ! (m + 8)) (f ! (m + 9)) = cdpPID"
  shows "load f (m + 2) 4 = Some 0xaaaa0300" "load f (m + 2 + 4) 4 = Some 0x000c2000"
proof -
  have i: "f ! (m + 2 + i) = ([0xaa, 0xaa, 0x03] @ ciscoOUI) ! i" if "i < 6" for i
  proof -
    have "f ! (m + 2 + i) = take 6 (drop (m + 2) f) ! i" using assms(1) that by simp
    then show ?thesis by (simp only: assms(2))
  qed
  have "[f ! (m + 8), f ! (m + 9)] = put16 cdpPID" by (simp only: assms(3) [symmetric] put16_word16)
  then have j: "f ! (m + 8) = 0x20" "f ! (m + 9) = 0" by (simp_all add: put16_def cdpPID_def)
  have b: "f ! (m + 2) = 0xaa" "f ! (m + 3) = 0xaa" "f ! (m + 4) = 3" "f ! (m + 5) = 0" "f ! (m + 6) = 0" "f ! (m + 7) = 0x0c"
    using i [of 0] i [of 1] i [of 2] i [of 3] i [of 4] i [of 5] by (simp_all add: ciscoOUI_def eval_nat_numeral)
  have "load f (m + 2) 4 = Some (word32 (f ! (m + 2)) (f ! (m + 3)) (f ! (m + 4)) (f ! (m + 5)))"
    using load_simps(3) [of "m + 2" f] assms(1) by (simp add: eval_nat_numeral)
  then show "load f (m + 2) 4 = Some 0xaaaa0300" unfolding b by (simp add: word32_def)
  have "load f (m + 2 + 4) 4 = Some (word32 (f ! (m + 6)) (f ! (m + 7)) (f ! (m + 8)) (f ! (m + 9)))"
    using load_simps(3) [of "m + 6" f] assms(1) by (simp add: eval_nat_numeral)
  then show "load f (m + 2 + 4) 4 = Some 0x000c2000" unfolding b j by (simp add: word32_def)
qed

lemma refused_snap:
  assumes "\<not> type_wanted ps f m v" "frame_typed f frame m v" "v < 0x0600" "\<not> snap_routed f" "type_at f maxVLANTags 12 = Some (m, v)"
  shows "eth_EtherType frame \<notin> {EtherTypeLLDP, EtherTypeIPv4, EtherTypeIPv6}"
    "\<not> (llc_SNAP (eth_LLC frame) \<and> llc_OUI (eth_LLC frame) = ciscoOUI \<and> llc_PID (eth_LLC frame) = cdpPID \<and> Has ps ProtocolCDP)"
proof -
  have t: "take 3 (drop (m + 2) f) = [0xaa, 0xaa, 0x03]" if "take 6 (drop (m + 2) f) = [0xaa, 0xaa, 0x03] @ oui" for oui
    using arg_cong [where f = "take 3", OF that] by simp
  show "eth_EtherType frame \<notin> {EtherTypeLLDP, EtherTypeIPv4, EtherTypeIPv6}"
    using assms(2-5) t by (auto simp: frame_typed_def snap_routed_def ethertype_defs split: if_splits)
  show "\<not> (llc_SNAP (eth_LLC frame) \<and> llc_OUI (eth_LLC frame) = ciscoOUI \<and> llc_PID (eth_LLC frame) = cdpPID \<and> Has ps ProtocolCDP)"
    using assms(1-3) snap_words [of m f] by (auto simp: frame_typed_def type_wanted_def cdp_wanted_def split: if_splits)
qed

text \<open>
  (C8) The filter does not lose packets of the engine: what the program of \<open>discoveryFilter\<close> refuses on
  a link with Ethernet framing, \<open>routeCapture\<close> would only count. So capturing behind the filter gives the
  same packets to the workers as capturing everything, but for LLC/SNAP frames whose protocol identifier is
  the EtherType of LLDP, IPv4 or IPv6: those the engine would route and the filter refuses.
\<close>

theorem filter_complete:
  assumes "discoveryFilter (cfg_Protocols (en_cfg e)) snaplen = Some code" "runFilter code (cv_data view) = Some 0" "(of_int snaplen :: u32) \<noteq> 0"
    "cv_protocol view = ProtocolUnknown" "\<not> snap_routed (cv_data view)"
  shows "routeCapture clock view e = Some (e\<lparr>en_counters := (en_counters e)\<lparr>ec_captured := ec_captured (en_counters e) + 1\<rparr>\<rparr>)"
proof -
  let ?f = "cv_data view" and ?ps = "cfg_Protocols (en_cfg e)"
  have "code = tail_code ?ps snaplen 0" using assms(1) by (simp add: discoveryFilter_tail)
  then have refused: "\<not> frame_wanted ?ps ?f" using assms(2,3) by (auto simp: tail_runs split: if_splits)
  obtain st frame where d: "DecodeEthernetFrame ?f (Some zero_frame) = Some (st, Some frame)"
    and t: "Usable st \<longrightarrow> (\<exists>m v. type_at ?f maxVLANTags 12 = Some (m, v) \<and> m + 2 \<le> length ?f \<and> frame_typed ?f frame m v)"
    using runs_exD [OF decode_ethernet_typed [of ?f clean_status zero_frame]] by (auto simp: DecodeEthernetFrame_def)
  have types: "EtherTypeIPv4 \<noteq> EtherTypeLLDP" "EtherTypeIPv6 \<noteq> EtherTypeLLDP" by (simp_all add: ethertype_defs)
  show ?thesis
  proof (cases "Usable st")
    case True
    then obtain m v where m: "type_at ?f maxVLANTags 12 = Some (m, v)" "m + 2 \<le> length ?f" "frame_typed ?f frame m v" using t by blast
    then have w: "\<not> type_wanted ?ps ?f m v" using refused by (simp add: frame_wanted_type)
    show ?thesis
    proof (cases "v \<ge> 0x0600")
      case big: True
      then show ?thesis
        using refused_ethernet [OF w m(3,2) big] assms(4) d True types
        by (auto simp: routeCapture_def Let_def route_udp_idle)
    next
      case False
      then have "v < 0x0600" by simp
      from refused_snap [OF w m(3) this assms(5) m(1)] show ?thesis
        using assms(4) d True by (auto simp: routeCapture_def Let_def)
    qed
  qed (use d assms(4) in \<open>simp add: routeCapture_def Let_def\<close>)
qed

text \<open>An ARP frame without its payload.\<close>

definition sample_arp :: bytes where
  "sample_arp = replicate 12 0 @ [0x08, 0x06]"

definition sample_capture :: "bytes \<Rightarrow> captureView" where
  "sample_capture data = \<lparr>cv_data = data, cv_protocol = ProtocolUnknown, cv_interfaceName = ''eth0'', cv_interfaceIndex = 2,
     cv_timestamp = 0, cv_sourceIP = AddrNone, cv_frame = True\<rparr>"

lemma type_at_untagged:
  assumes "14 \<le> length f" "word16 (f ! 12) (f ! 13) = et" "et \<noteq> EtherTypeVLAN" "et \<noteq> EtherTypeQinQ"
  shows "type_at f n 12 = Some (12, ucast et)"
  using assms load_simps(2) [of 12 f] by (subst type_at.simps) (simp add: is_tag_ucast)

lemma filter_complete_witness:
  "\<exists>e code. discoveryFilter (cfg_Protocols (en_cfg e)) 2048 = Some code \<and> runFilter code sample_arp = Some 0 \<and>
     routeCapture 7 (sample_capture sample_arp) e =
       Some (e\<lparr>en_counters := (en_counters e)\<lparr>ec_captured := ec_captured (en_counters e) + 1\<rparr>\<rparr>)"
proof -
  obtain e where e: "New ''linux'' (\<lambda>_. None) zero_config = Some (Inr e)" by (rule zero_config_New)
  let ?ps = "cfg_Protocols (en_cfg e)"
  have t: "type_at sample_arp n 12 = Some (12, ucast EtherTypeARP)" for n
    by (rule type_at_untagged) (simp_all add: sample_arp_def word16_def ethertype_defs nth_append)
  have "\<not> type_wanted ?ps sample_arp 12 (ucast EtherTypeARP)"
    by (simp add: type_wanted_def lldp_wanted_def cdp_wanted_def ipv4_wanted_def ipv6_wanted_def ethertype_defs)
  then have r: "runFilter (tail_code ?ps 2048 0) sample_arp = Some 0" by (simp add: tail_runs frame_wanted_type t)
  have n: "\<not> snap_routed (cv_data (sample_capture sample_arp))"
    by (simp add: sample_capture_def snap_routed_def t ethertype_defs)
  show ?thesis
    using filter_complete [OF discoveryFilter_tail [of ?ps 2048], of "sample_capture sample_arp" 7] r n
      discoveryFilter_tail [of ?ps 2048] by (auto simp: sample_capture_def)
qed

text \<open>The exception is real: an LLDP frame in LLC/SNAP framing is decoded as LLDP and refused by the filter.\<close>

definition sample_snap :: bytes where
  "sample_snap = replicate 12 0 @ [0, 8, 0xaa, 0xaa, 3, 0, 0, 0, 0x88, 0xcc]"

lemma snap_frame_refused:
  "\<not> frame_wanted ps sample_snap \<and>
   (\<exists>frame. DecodeEthernetFrame sample_snap (Some zero_frame) = Some (clean_status, Some frame) \<and>
      eth_EtherType frame = EtherTypeLLDP)"
proof
  have t: "type_at sample_snap n 12 = Some (12, ucast (8 :: u16))" for n
    by (rule type_at_untagged) (simp_all add: sample_snap_def word16_def ethertype_defs nth_append)
  have l: "load sample_snap (12 + 2) 4 = Some 0xaaaa0300" "load sample_snap (12 + 2 + 4) 4 = Some 0x000088cc"
    by (simp_all add: load_def sample_snap_def word32_def)
  show "\<not> frame_wanted ps sample_snap"
    using l by (simp add: frame_wanted_type t type_wanted_def lldp_wanted_def cdp_wanted_def ipv4_wanted_def ipv6_wanted_def ethertype_defs)
  show "\<exists>frame. DecodeEthernetFrame sample_snap (Some zero_frame) = Some (clean_status, Some frame) \<and>
      eth_EtherType frame = EtherTypeLLDP"
    by (simp add: DecodeEthernetFrame_def decode_ethernet_def sample_snap_def word16_def vlan_loop.simps [of _ _ 8]
      decode_type_or_length_def decode_llc_def Let_def ethertype_defs)
qed

end
