(* ===== verification/CaptureRing.thy ===== *)
theory CaptureRing
  imports Engine
begin

text \<open>
  The model of how the capture backends take frames out of the memory that the kernel fills: the blocks of
  the packet ring of \<open>capture_linux.go\<close> (\<open>runRing\<close> and the sizes of \<open>setupTPacketV3\<close>) and the records of a
  read from a BPF device of \<open>capture_darwin.go\<close>. The byte order of the machine and the constants of the
  package \<open>unix\<close> are parameters. A call of \<open>emit\<close> is an element of the resulting list, and \<^const>\<open>None\<close>
  is a run-time panic.
\<close>

section \<open>Native byte order\<close>

definition le16 :: "bytes \<Rightarrow> u16 run" where
  "le16 b = do { hi \<leftarrow> idx b 1; lo \<leftarrow> idx b 0; Some (word16 hi lo) }"

definition ne16 :: "bool \<Rightarrow> bytes \<Rightarrow> u16 run" where
  "ne16 big b = (if big then be16 b else le16 b)"

definition ne32 :: "bool \<Rightarrow> bytes \<Rightarrow> u32 run" where
  "ne32 big b = (if big then be32 b else le32 b)"

definition put_ne16 :: "bool \<Rightarrow> u16 \<Rightarrow> bytes" where
  "put_ne16 big w = (if big then put16 w else rev (put16 w))"

definition put_ne32 :: "bool \<Rightarrow> u32 \<Rightarrow> bytes" where
  "put_ne32 big w = (if big then put32 w else rev (put32 w))"

lemma length_put_ne [simp]: "length (put_ne16 big v) = 2" "length (put_ne32 big w) = 4"
  by (simp_all add: put_ne16_def put_ne32_def)

lemma ne_put [simp]: "ne16 big (put_ne16 big v) = Some v" "ne32 big (put_ne32 big w) = Some w"
  by (simp_all add: ne16_def ne32_def put_ne16_def put_ne32_def le16_def le32_def put16_def put32_def)

definition nword16 :: "bool \<Rightarrow> bytes \<Rightarrow> u16" where
  "nword16 big b = (if big then word16 (b ! 0) (b ! 1) else word16 (b ! 1) (b ! 0))"

definition nword32 :: "bool \<Rightarrow> bytes \<Rightarrow> u32" where
  "nword32 big b = (if big then word32 (b ! 0) (b ! 1) (b ! 2) (b ! 3) else word32 (b ! 3) (b ! 2) (b ! 1) (b ! 0))"

lemma runs_ne [wp]:
  "runs (ne16 big b) P = (2 \<le> length b \<and> P (nword16 big b))"
  "runs (ne32 big b) Q = (4 \<le> length b \<and> Q (nword32 big b))"
  by (auto simp: ne16_def ne32_def le16_def nword16_def nword32_def wp)

lemma ne32_Some: "4 \<le> length b \<Longrightarrow> ne32 big b = Some (nword32 big b)"
  by (simp add: ne32_def nword32_def)

lemma nword32_put [simp]: "nword32 big (put_ne32 big w) = w"
  using ne_put(2) [of big w] ne32_Some [of "put_ne32 big w" big] by simp

section \<open>Views of frames\<close>

text \<open>What the backends use of a \<open>net.Interface\<close>.\<close>

record netInterface =
  ni_Name :: string
  ni_Index :: int
  ni_Flags :: u32

definition unix_epoch :: Time where
  "unix_epoch = 62135596800 * 1000000000"

definition time_Unix :: "int \<Rightarrow> int \<Rightarrow> Time" where
  "time_Unix sec nsec = unix_epoch + sec * 1000000000 + nsec"

definition frame_view :: "netInterface \<Rightarrow> bytes \<Rightarrow> Time \<Rightarrow> captureView" where
  "frame_view ifi data t =
     \<lparr>cv_data = data, cv_protocol = ProtocolUnknown, cv_interfaceName = ni_Name ifi, cv_interfaceIndex = ni_Index ifi,
      cv_timestamp = t, cv_sourceIP = AddrNone, cv_frame = True\<rparr>"

section \<open>The packet ring\<close>

text \<open>The constants of the package \<open>unix\<close>, with what the kernel documents of them.\<close>

record unix_abi =
  TP_STATUS_KERNEL :: u32
  TP_STATUS_USER :: u32
  SizeofBpfHdr :: nat
  BPF_ALIGNMENT :: nat

definition unix_ok :: "unix_abi \<Rightarrow> bool" where
  "unix_ok abi =
     (TP_STATUS_USER abi \<noteq> 0 \<and> TP_STATUS_KERNEL abi AND TP_STATUS_USER abi = 0 \<and> 18 \<le> SizeofBpfHdr abi \<and>
      (\<exists>k. BPF_ALIGNMENT abi = 2 ^ k))"

record packetRing =
  pr_iface :: netInterface
  pr_maxFrame :: int
  pr_ring :: bytes
  pr_blockSize :: nat
  pr_blockCount :: nat

text \<open>The fields of the header of a packet, and the call of \<open>emit\<close> for it, if it makes one.\<close>

record packetHeader =
  ph_next :: u32
  ph_sec :: u32
  ph_nsec :: u32
  ph_snap :: u32
  ph_mac :: u16

definition packet_header :: "bool \<Rightarrow> bytes \<Rightarrow> packetHeader run" where
  "packet_header big h = do {
     next \<leftarrow> gslice h 0 4 \<bind> ne32 big;
     sec \<leftarrow> gslice h 4 8 \<bind> ne32 big;
     nsec \<leftarrow> gslice h 8 12 \<bind> ne32 big;
     snap \<leftarrow> gslice h 12 16 \<bind> ne32 big;
     mac \<leftarrow> gslice h 24 26 \<bind> ne16 big;
     Some \<lparr>ph_next = next, ph_sec = sec, ph_nsec = nsec, ph_snap = snap, ph_mac = mac\<rparr>
   }"

definition packet_views :: "packetRing \<Rightarrow> bytes \<Rightarrow> nat \<Rightarrow> nat \<Rightarrow> packetHeader \<Rightarrow> captureView list run" where
  "packet_views b block blockLen off h =
     (let snap = unat (ph_snap h);
          start = off + unat (ph_mac h);
          fin = start + snap
      in if snap \<ge> 14 \<and> int snap \<le> pr_maxFrame b \<and> start \<ge> off \<and> fin \<le> blockLen
         then do {
           data \<leftarrow> gslice block start fin;
           Some [frame_view (pr_iface b) data (time_Unix (uint (ph_sec h)) (uint (ph_nsec h)))]
         }
         else Some [])"

fun packet_loop :: "bool \<Rightarrow> packetRing \<Rightarrow> bytes \<Rightarrow> nat \<Rightarrow> nat \<Rightarrow> nat \<Rightarrow> captureView list run" where
  "packet_loop big b block blockLen 0 off = Some []"
| "packet_loop big b block blockLen (Suc num) off =
     (if off + 40 \<le> blockLen then do {
        h \<leftarrow> gslice block off blockLen \<bind> packet_header big;
        views \<leftarrow> packet_views b block blockLen off h;
        if ph_next h = 0 then Some views
        else do { rest \<leftarrow> packet_loop big b block blockLen num (off + unat (ph_next h)); Some (views @ rest) }
      }
      else Some [])"

text \<open>
  One round of the loop of \<open>runRing\<close>. The block at the index belongs either to the kernel, and the round
  only polls, or to the program, which empties it, gives it back and goes on to the next block.
\<close>

definition block_packets :: "bool \<Rightarrow> packetRing \<Rightarrow> bytes \<Rightarrow> captureView list run" where
  "block_packets big b block = do {
     num \<leftarrow> gslice block 12 16 \<bind> ne32 big;
     off \<leftarrow> gslice block 16 20 \<bind> ne32 big;
     blockLen \<leftarrow> gslice block 20 24 \<bind> ne32 big;
     let blockLen = (if unat blockLen = 0 \<or> unat blockLen > length block then length block else unat blockLen);
     packet_loop big b block blockLen (unat num) (unat off)
   }"

definition ring_round :: "bool \<Rightarrow> unix_abi \<Rightarrow> packetRing \<Rightarrow> nat \<Rightarrow> (captureView list \<times> packetRing \<times> nat) run" where
  "ring_round big abi b blockIndex = do {
     block \<leftarrow> gslice (pr_ring b) (blockIndex * pr_blockSize b) ((blockIndex + 1) * pr_blockSize b);
     status \<leftarrow> gslice block 8 12 \<bind> ne32 big;
     if status AND TP_STATUS_USER abi = 0 then Some ([], b, blockIndex)
     else do {
       views \<leftarrow> block_packets big b block;
       let at = blockIndex * pr_blockSize b + 8;
       let ring = take at (pr_ring b) @ put_ne32 big (TP_STATUS_KERNEL abi) @ drop (at + 4) (pr_ring b);
       Some (views, b\<lparr>pr_ring := ring\<rparr>, (blockIndex + 1) mod pr_blockCount b)
     }
   }"

section \<open>The sizes of the ring\<close>

text \<open>\<open>for size < wanted { size <<= 1 }\<close>. Both loops begin with a size above 0, at which doubling would stand still.\<close>

function doubling_loop :: "int \<Rightarrow> nat \<Rightarrow> nat" where
  "doubling_loop wanted sz =
     (if sz \<noteq> 0 \<and> int sz < wanted then doubling_loop wanted (sz * 2) else sz)"
  by pat_completeness auto
termination
  by (relation "measure (\<lambda>(wanted, sz). nat (wanted - int sz))") auto

declare doubling_loop.simps [simp del]

text \<open>The sizes of frames and blocks, with the count of blocks and the count of frames of the request.\<close>

definition ring_sizes :: "int \<Rightarrow> nat \<Rightarrow> nat \<times> nat \<times> nat \<times> nat" where
  "ring_sizes maxFrame page =
     (let frameSize = doubling_loop (maxFrame + 256) 2048;
          blockSize = doubling_loop (int (frameSize * 16)) (2 ^ 20);
          rest = blockSize mod page;
          blockSize = (if rest \<noteq> 0 then blockSize + (page - rest) else blockSize);
          blockCount = 4
      in (frameSize, blockSize, blockCount, blockSize div frameSize * blockCount))"

section \<open>The records of a BPF device\<close>

definition bpf_align :: "unix_abi \<Rightarrow> nat \<Rightarrow> int" where
  "bpf_align abi recordLen =
     (int recordLen + int (BPF_ALIGNMENT abi) - 1) AND NOT (int (BPF_ALIGNMENT abi) - 1)"

record recordHeader =
  rh_sec :: u32
  rh_usec :: u32
  rh_caplen :: u32
  rh_hdrlen :: u16

definition record_header :: "bool \<Rightarrow> bytes \<Rightarrow> recordHeader run" where
  "record_header big h = do {
     sec \<leftarrow> gslice h 0 4 \<bind> ne32 big;
     usec \<leftarrow> gslice h 4 8 \<bind> ne32 big;
     caplen \<leftarrow> gslice h 8 12 \<bind> ne32 big;
     hdrlen \<leftarrow> gslice h 16 18 \<bind> ne16 big;
     Some \<lparr>rh_sec = sec, rh_usec = usec, rh_caplen = caplen, rh_hdrlen = hdrlen\<rparr>
   }"

definition record_views :: "unix_abi \<Rightarrow> netInterface \<Rightarrow> bytes \<Rightarrow> nat \<Rightarrow> nat \<Rightarrow> recordHeader \<Rightarrow> captureView list run" where
  "record_views abi ifi buf n off h =
     (let hdrlen = unat (rh_hdrlen h);
          caplen = unat (rh_caplen h);
          start = off + hdrlen;
          fin = off + hdrlen + caplen
      in if hdrlen \<ge> SizeofBpfHdr abi \<and> caplen \<ge> 14 \<and> start \<ge> off \<and> fin \<le> n
         then do {
           data \<leftarrow> gslice buf start fin;
           Some [frame_view ifi data (time_Unix (sint (rh_sec h)) (sint (rh_usec h) * 1000))]
         }
         else Some [])"

function record_loop :: "bool \<Rightarrow> unix_abi \<Rightarrow> netInterface \<Rightarrow> bytes \<Rightarrow> nat \<Rightarrow> nat \<Rightarrow> captureView list run" where
  "record_loop big abi ifi buf n off =
     (if off + SizeofBpfHdr abi \<le> n then do {
        h \<leftarrow> gslice buf off n \<bind> record_header big;
        views \<leftarrow> record_views abi ifi buf n off h;
        let aligned = bpf_align abi (unat (rh_hdrlen h) + unat (rh_caplen h));
        if aligned \<le> 0 then Some views
        else do { rest \<leftarrow> record_loop big abi ifi buf n (off + nat aligned); Some (views @ rest) }
      }
      else Some [])"
  by pat_completeness auto
termination
  by (relation "measure (\<lambda>(big, abi, ifi, buf, n, off). n + 1 - off)") auto

declare record_loop.simps [simp del]

section \<open>Every frame lies in the block\<close>

definition view_of :: "bytes \<Rightarrow> nat \<Rightarrow> captureView \<Rightarrow> bool" where
  "view_of block n v =
     (\<exists>s. s + length (cv_data v) \<le> n \<and> cv_data v = take (length (cv_data v)) (drop s block) \<and> 14 \<le> length (cv_data v))"

lemma frame_view_data [simp]: "cv_data (frame_view ifi data t) = data"
  by (simp add: frame_view_def)

lemma view_of_frame:
  "start + k \<le> n \<Longrightarrow> n \<le> length block \<Longrightarrow> 14 \<le> k \<Longrightarrow> view_of block n (frame_view ifi (take k (drop start block)) t)"
  by (auto simp: view_of_def frame_view_def min_def intro!: exI [of _ start])

definition views_in :: "bytes \<Rightarrow> nat \<Rightarrow> int \<Rightarrow> captureView list \<Rightarrow> bool" where
  "views_in block n m views = (\<forall>v \<in> set views. view_of block n v \<and> int (length (cv_data v)) \<le> m)"

lemma views_in_nil: "views_in block n m []"
  by (simp add: views_in_def)

lemma views_in_frame:
  assumes "start + k \<le> n" "n \<le> length block" "14 \<le> k" "int k \<le> m"
  shows "views_in block n m [frame_view ifi (take k (drop start block)) t]"
proof -
  have "length (take k (drop start block)) = k" using assms by simp
  then show ?thesis using view_of_frame [OF assms(1-3)] assms(4) by (simp add: views_in_def del: length_take)
qed

lemma packet_header_runs: "26 \<le> length h \<Longrightarrow> runs (packet_header big h) (\<lambda>_. True)"
  by (simp add: packet_header_def wp)

lemma packet_views_runs:
  "blockLen \<le> length block \<Longrightarrow>
   runs (packet_views b block blockLen off h) (\<lambda>views. length views \<le> 1 \<and> views_in block blockLen (pr_maxFrame b) views)"
  by (auto simp: packet_views_def wp Let_def add.commute [of _ "unat (ph_snap h)"] views_in_nil intro!: views_in_frame)

lemma packet_loop_safe:
  assumes "blockLen \<le> length block"
  shows "runs (packet_loop big b block blockLen num off) (\<lambda>views. length views \<le> num \<and> views_in block blockLen (pr_maxFrame b) views)"
proof (induction num arbitrary: off)
  case (Suc num)
  show ?case
    using assms
    by (auto simp: wp views_in_def intro!: runs_mono [OF packet_header_runs] runs_mono [OF packet_views_runs] runs_mono [OF Suc.IH])
qed (simp add: wp views_in_def)

lemma block_packets_safe:
  assumes "24 \<le> length block"
  shows "runs (block_packets big b block) (views_in block (length block) (pr_maxFrame b))"
  using assms
  by (auto simp: block_packets_def wp Let_def views_in_def view_of_def intro!: runs_mono [OF packet_loop_safe]; force)

section \<open>Blocks of the ring\<close>

definition ring_block :: "packetRing \<Rightarrow> nat \<Rightarrow> bytes" where
  "ring_block b i = take (pr_blockSize b) (drop (i * pr_blockSize b) (pr_ring b))"

definition ring_ok :: "packetRing \<Rightarrow> bool" where
  "ring_ok b = (24 \<le> pr_blockSize b \<and> length (pr_ring b) = pr_blockSize b * pr_blockCount b)"

lemma ring_index:
  assumes "ring_ok b" "i < pr_blockCount b"
  shows "(i + 1) * pr_blockSize b \<le> length (pr_ring b)"
proof -
  have "(i + 1) * pr_blockSize b \<le> pr_blockCount b * pr_blockSize b" using assms(2) by (intro mult_le_mono1) simp
  then show ?thesis using assms(1) by (simp add: ring_ok_def mult.commute)
qed

lemma gslice_block:
  assumes "ring_ok b" "i < pr_blockCount b"
  shows "gslice (pr_ring b) (i * pr_blockSize b) ((i + 1) * pr_blockSize b) = Some (ring_block b i)"
    "length (ring_block b i) = pr_blockSize b"
  using ring_index [OF assms] by (simp_all add: gslice_def ring_block_def)

text \<open>The ring with the status of one block set.\<close>

definition set_status :: "bool \<Rightarrow> u32 \<Rightarrow> nat \<Rightarrow> packetRing \<Rightarrow> packetRing" where
  "set_status big w i b =
     b\<lparr>pr_ring := take (i * pr_blockSize b + 8) (pr_ring b) @ put_ne32 big w @ drop (i * pr_blockSize b + 8 + 4) (pr_ring b)\<rparr>"

lemma set_status_fields [simp]:
  "pr_blockSize (set_status big w i b) = pr_blockSize b" "pr_blockCount (set_status big w i b) = pr_blockCount b"
  "pr_iface (set_status big w i b) = pr_iface b" "pr_maxFrame (set_status big w i b) = pr_maxFrame b"
  by (simp_all add: set_status_def)

lemma set_status_blocks:
  assumes "ring_ok b" "i < pr_blockCount b"
  shows "ring_ok (set_status big w i b)"
    "ring_block (set_status big w i b) i = take 8 (ring_block b i) @ put_ne32 big w @ drop 12 (ring_block b i)"
    "k < pr_blockCount b \<Longrightarrow> k \<noteq> i \<Longrightarrow> ring_block (set_status big w i b) k = ring_block b k"
proof -
  let ?n = "pr_blockSize b"
  have le: "(i + 1) * ?n \<le> length (pr_ring b)" and n: "24 \<le> ?n" using ring_index [OF assms] assms(1) by (simp_all add: ring_ok_def)
  show "ring_ok (set_status big w i b)" using le n assms(1) by (simp add: ring_ok_def set_status_def)
  show "ring_block (set_status big w i b) i = take 8 (ring_block b i) @ put_ne32 big w @ drop 12 (ring_block b i)"
    using le n by (simp add: ring_block_def set_status_def drop_take min_def add.commute)
  show "ring_block (set_status big w i b) k = ring_block b k" if k: "k < pr_blockCount b" "k \<noteq> i"
  proof (cases "k < i")
    case True
    then have "(k + 1) * ?n \<le> i * ?n" by (intro mult_le_mono1) simp
    then show ?thesis using le n by (simp add: ring_block_def set_status_def take_drop min_def)
  next
    case False
    then have "(i + 1) * ?n \<le> k * ?n" using k(2) by (intro mult_le_mono1) simp
    moreover from this have "i * ?n + (k * ?n - i * ?n) = k * ?n" by simp
    ultimately show ?thesis using le n by (simp add: ring_block_def set_status_def min_def algebra_simps)
  qed
qed

definition block_status :: "bool \<Rightarrow> bytes \<Rightarrow> u32" where
  "block_status big block = nword32 big (take 4 (drop 8 block))"

lemma status_read:
  assumes "ring_ok b" "i < pr_blockCount b"
  shows "gslice (ring_block b i) 8 12 \<bind> ne32 big = Some (block_status big (ring_block b i))"
proof -
  have "12 \<le> length (ring_block b i)" using assms(1) gslice_block(2) [OF assms] by (simp add: ring_ok_def)
  then show ?thesis by (simp add: gslice_def ne32_Some block_status_def)
qed

lemma ring_round_cases:
  assumes "ring_ok b" "i < pr_blockCount b"
  shows "ring_round big abi b i =
    (if block_status big (ring_block b i) AND TP_STATUS_USER abi = 0 then Some ([], b, i)
     else map_option (\<lambda>views. (views, set_status big (TP_STATUS_KERNEL abi) i b, (i + 1) mod pr_blockCount b))
       (block_packets big b (ring_block b i)))"
proof -
  note B = gslice_block [OF assms] and st = status_read [OF assms]
  show ?thesis
    unfolding ring_round_def B(1) Option.bind.simps st
    by (cases "block_packets big b (ring_block b i)") (simp_all add: Let_def set_status_def)
qed

lemma ring_round_runs:
  assumes "ring_ok b" "i < pr_blockCount b" "unix_ok abi"
  shows "runs (ring_round big abi b i) (\<lambda>(views, b', j).
     j < pr_blockCount b \<and> ring_ok b' \<and> views_in (ring_block b i) (pr_blockSize b) (pr_maxFrame b) views \<and>
     (\<forall>k < pr_blockCount b. k \<noteq> i \<longrightarrow> ring_block b' k = ring_block b k) \<and>
     block_status big (ring_block b' i) AND TP_STATUS_USER abi = 0)"
proof -
  note B = gslice_block [OF assms(1,2)]
  have "block_status big (ring_block (set_status big (TP_STATUS_KERNEL abi) i b) i) = TP_STATUS_KERNEL abi"
    using assms(1) B(2) by (simp add: set_status_blocks [OF assms(1,2)] block_status_def ring_ok_def min_def nword32_put)
  moreover have "runs (block_packets big b (ring_block b i)) (views_in (ring_block b i) (pr_blockSize b) (pr_maxFrame b))"
    using block_packets_safe [of "ring_block b i" big b] B(2) assms(1) by (simp add: ring_ok_def)
  ultimately show ?thesis
    using assms set_status_blocks [OF assms(1,2)] unfolding ring_round_cases [OF assms(1,2)]
    by (auto simp: wp views_in_nil unix_ok_def runs_def split: option.splits)
qed

section \<open>What the kernel writes is what the program emits\<close>

text \<open>
  A packet of a block, as \<open>packet(7)\<close> describes it: the fields of the header, whatever the kernel puts between
  them and the frame, the frame, and padding.
\<close>

record tpacket =
  tp_sec :: u32
  tp_nsec :: u32
  tp_len :: u32
  tp_status :: u32
  tp_head :: bytes
  tp_data :: bytes
  tp_tail :: bytes

definition tpacket_size :: "tpacket \<Rightarrow> nat" where
  "tpacket_size p = 26 + length (tp_head p) + length (tp_data p) + length (tp_tail p)"

definition tpacket_bytes :: "bool \<Rightarrow> u32 \<Rightarrow> tpacket \<Rightarrow> bytes" where
  "tpacket_bytes big next p =
     put_ne32 big next @ put_ne32 big (tp_sec p) @ put_ne32 big (tp_nsec p) @ put_ne32 big (of_nat (length (tp_data p))) @
     put_ne32 big (tp_len p) @ put_ne32 big (tp_status p) @ put_ne16 big (of_nat (26 + length (tp_head p))) @
     tp_head p @ tp_data p @ tp_tail p"

definition tpacket_ok :: "tpacket \<Rightarrow> bool" where
  "tpacket_ok p = (14 \<le> length (tp_head p) \<and> 26 + length (tp_head p) < 2 ^ 16 \<and> tpacket_size p < 2 ^ 32)"

fun packets_bytes :: "bool \<Rightarrow> tpacket list \<Rightarrow> bytes" where
  "packets_bytes big [] = []"
| "packets_bytes big (p # ps) =
     tpacket_bytes big (if ps = [] then 0 else of_nat (tpacket_size p)) p @ packets_bytes big ps"

definition tpacket_views :: "packetRing \<Rightarrow> tpacket \<Rightarrow> captureView list" where
  "tpacket_views b p =
     (if 14 \<le> length (tp_data p) \<and> int (length (tp_data p)) \<le> pr_maxFrame b
      then [frame_view (pr_iface b) (tp_data p) (time_Unix (uint (tp_sec p)) (uint (tp_nsec p)))] else [])"

lemma length_tpacket_bytes [simp]: "length (tpacket_bytes big next p) = tpacket_size p"
  by (simp add: tpacket_bytes_def tpacket_size_def)

lemma packet_header_bytes:
  "packet_header big (tpacket_bytes big next p @ r) =
     Some \<lparr>ph_next = next, ph_sec = tp_sec p, ph_nsec = tp_nsec p, ph_snap = of_nat (length (tp_data p)),
       ph_mac = of_nat (26 + length (tp_head p))\<rparr>"
  by (simp add: packet_header_def tpacket_bytes_def gslice_def)

lemma packet_views_bytes:
  assumes "tpacket_ok p" "block = pre @ tpacket_bytes big next p @ r" "length pre + tpacket_size p \<le> blockLen" "blockLen \<le> length block"
  shows "packet_views b block blockLen (length pre)
    \<lparr>ph_next = next, ph_sec = tp_sec p, ph_nsec = tp_nsec p, ph_snap = of_nat (length (tp_data p)),
       ph_mac = of_nat (26 + length (tp_head p))\<rparr> = Some (tpacket_views b p)"
proof -
  have sz: "length (tp_data p) < 2 ^ 32" "26 + length (tp_head p) < 2 ^ 16" using assms(1) by (simp_all add: tpacket_ok_def tpacket_size_def)
  then have u: "unat (of_nat (length (tp_data p)) :: u32) = length (tp_data p)"
    "unat (of_nat (26 + length (tp_head p)) :: u16) = 26 + length (tp_head p)" by (simp_all del: of_nat_add)
  have d: "gslice block (length pre + (26 + length (tp_head p))) (length pre + (26 + length (tp_head p)) + length (tp_data p)) = Some (tp_data p)"
    using assms(2) by (simp add: gslice_def tpacket_bytes_def)
  show ?thesis
    using assms(3) u d by (simp add: packet_views_def tpacket_views_def Let_def tpacket_size_def del: of_nat_add)
qed

lemma packet_loop_bytes:
  assumes "\<forall>p \<in> set ps. tpacket_ok p" "block = pre @ packets_bytes big ps @ r"
    "length pre + length (packets_bytes big ps) \<le> blockLen" "blockLen \<le> length block"
  shows "packet_loop big b block blockLen (length ps) (length pre) = Some (concat (map (tpacket_views b) ps))"
  using assms
proof (induction ps arbitrary: pre)
  case (Cons p ps)
  let ?next = "if ps = [] then 0 else of_nat (tpacket_size p) :: u32"
  have p: "tpacket_ok p" and size: "40 \<le> tpacket_size p" "tpacket_size p < 2 ^ 32"
    using Cons.prems(1) by (simp_all add: tpacket_ok_def tpacket_size_def)
  have block: "block = pre @ tpacket_bytes big ?next p @ packets_bytes big ps @ r"
    "block = (pre @ tpacket_bytes big ?next p) @ packets_bytes big ps @ r"
    using Cons.prems(2) by simp_all
  have len: "length pre + tpacket_size p + length (packets_bytes big ps) \<le> blockLen" using Cons.prems(3) by simp
  have h: "gslice block (length pre) blockLen \<bind> packet_header big =
      Some \<lparr>ph_next = ?next, ph_sec = tp_sec p, ph_nsec = tp_nsec p, ph_snap = of_nat (length (tp_data p)),
        ph_mac = of_nat (26 + length (tp_head p))\<rparr>"
  proof -
    have "gslice block (length pre) blockLen =
        Some (tpacket_bytes big ?next p @ take (blockLen - length pre - tpacket_size p) (packets_bytes big ps @ r))"
      using len Cons.prems(4) unfolding block(1) by (simp add: gslice_def)
    then show ?thesis by (simp only: Option.bind.simps packet_header_bytes)
  qed
  note views = packet_views_bytes [OF p block(1), of blockLen b]
  show ?case
  proof (cases "ps = []")
    case True
    then show ?thesis using h views len size(1) Cons.prems(4) by simp
  next
    case False
    have n: "unat (of_nat (tpacket_size p) :: u32) = tpacket_size p" using size(2) by simp
    then have "(of_nat (tpacket_size p) :: u32) \<noteq> 0" using size(1) by (metis unat_0 not_numeral_le_zero)
    moreover have "packet_loop big b block blockLen (length ps) (length pre + tpacket_size p) = Some (concat (map (tpacket_views b) ps))"
      using Cons.IH [OF _ block(2)] Cons.prems(1,4) len by simp
    ultimately show ?thesis using h views len size(1) n Cons.prems(4) False by simp
  qed
qed simp

text \<open>A block that the kernel has filled: version and offset of its private data, status, count of packets,
  offset of the first one and length of what is used; then the packets behind whatever is before them.\<close>

definition block_bytes :: "bool \<Rightarrow> u32 \<Rightarrow> bytes \<Rightarrow> bytes \<Rightarrow> tpacket list \<Rightarrow> bytes \<Rightarrow> bytes" where
  "block_bytes big status version gap ps rest =
     version @ put_ne32 big status @ put_ne32 big (of_nat (length ps)) @ put_ne32 big (of_nat (24 + length gap)) @
     put_ne32 big (of_nat (24 + length gap + length (packets_bytes big ps))) @ gap @ packets_bytes big ps @ rest"

definition block_ok :: "bool \<Rightarrow> bytes \<Rightarrow> bytes \<Rightarrow> tpacket list \<Rightarrow> bool" where
  "block_ok big version gap ps =
     (length version = 8 \<and> (\<forall>p \<in> set ps. tpacket_ok p) \<and> 24 + length gap + length (packets_bytes big ps) < 2 ^ 32)"

lemma packets_bytes_length: "\<forall>p \<in> set ps. tpacket_ok p \<Longrightarrow> 40 * length ps \<le> length (packets_bytes big ps)"
  by (induction ps) (auto simp: tpacket_ok_def tpacket_size_def)

lemma block_packets_bytes:
  assumes "block_ok big version gap ps"
  shows "block_packets big b (block_bytes big status version gap ps rest) = Some (concat (map (tpacket_views b) ps))"
proof -
  let ?block = "block_bytes big status version gap ps rest"
  let ?pre = "version @ put_ne32 big status @ put_ne32 big (of_nat (length ps)) @ put_ne32 big (of_nat (24 + length gap)) @
     put_ne32 big (of_nat (24 + length gap + length (packets_bytes big ps))) @ gap"
  have ok: "length version = 8" "\<forall>p \<in> set ps. tpacket_ok p" "24 + length gap + length (packets_bytes big ps) < 2 ^ 32"
    using assms by (simp_all add: block_ok_def)
  have "40 * length ps \<le> length (packets_bytes big ps)" by (rule packets_bytes_length [OF ok(2)])
  then have u: "unat (of_nat (length ps) :: u32) = length ps" "unat (of_nat (24 + length gap) :: u32) = 24 + length gap"
    "unat (of_nat (24 + length gap + length (packets_bytes big ps)) :: u32) = 24 + length gap + length (packets_bytes big ps)"
    using ok(3) by (simp_all del: of_nat_add)
  have f: "gslice ?block 12 16 \<bind> ne32 big = Some (of_nat (length ps))"
    "gslice ?block 16 20 \<bind> ne32 big = Some (of_nat (24 + length gap))"
    "gslice ?block 20 24 \<bind> ne32 big = Some (of_nat (24 + length gap + length (packets_bytes big ps)))"
    using ok(1) by (simp_all add: block_bytes_def gslice_def del: of_nat_add)
  have pre: "length ?pre = 24 + length gap" and block: "?block = ?pre @ packets_bytes big ps @ rest"
    using ok(1) by (simp_all add: block_bytes_def)
  then have len: "length ?block = 24 + length gap + length (packets_bytes big ps) + length rest"
    by (simp only: length_append)
  have "packet_loop big b ?block (24 + length gap + length (packets_bytes big ps)) (length ps) (length ?pre) = Some (concat (map (tpacket_views b) ps))"
    by (rule packet_loop_bytes [OF ok(2) block]) (use pre len in linarith)+
  then show ?thesis unfolding block_packets_def f Option.bind.simps by (simp only: u Let_def pre len) simp
qed

text \<open>
  (C11) The packet ring delivers what the kernel writes: if the block at the index belongs to the program and
  holds packets laid out as the kernel does it, a round of \<open>runRing\<close> emits, in order, exactly those whose
  frame is at least 14 and at most \<open>maxFrame\<close> bytes long, each with its bytes and its time; then the block
  is the kernel's again, nothing else in the ring has changed, and the next block is next.
\<close>

theorem ring_delivers:
  assumes "ring_ok b" "i < pr_blockCount b" "unix_ok abi" "block_ok big version gap ps"
    "ring_block b i = block_bytes big status version gap ps rest" "status AND TP_STATUS_USER abi \<noteq> 0"
  shows "\<exists>b'. ring_round big abi b i = Some (concat (map (tpacket_views b) ps), b', (i + 1) mod pr_blockCount b) \<and>
    (\<forall>k < pr_blockCount b. ring_block b' k =
       (if k = i then block_bytes big (TP_STATUS_KERNEL abi) version gap ps rest else ring_block b k))"
proof -
  have v: "length version = 8" using assms(4) by (simp add: block_ok_def)
  let ?b = "set_status big (TP_STATUS_KERNEL abi) i b"
  have "block_status big (ring_block b i) = status"
    using v unfolding assms(5) by (simp add: block_status_def block_bytes_def)
  moreover have "block_packets big b (ring_block b i) = Some (concat (map (tpacket_views b) ps))"
    unfolding assms(5) by (rule block_packets_bytes [OF assms(4)])
  ultimately have "ring_round big abi b i = Some (concat (map (tpacket_views b) ps), ?b, (i + 1) mod pr_blockCount b)"
    using assms(6) by (simp add: ring_round_cases [OF assms(1,2)])
  moreover have "ring_block ?b i = block_bytes big (TP_STATUS_KERNEL abi) version gap ps rest"
    unfolding set_status_blocks(2) [OF assms(1,2)] assms(5) using v by (simp add: block_bytes_def)
  ultimately show ?thesis using set_status_blocks(3) [OF assms(1,2)] by auto
qed

text \<open>A ring of one block of 119 bytes with two packets, of which the second is too short for a frame.\<close>

definition sample_abi :: unix_abi where
  "sample_abi = \<lparr>TP_STATUS_KERNEL = 0, TP_STATUS_USER = 1, SizeofBpfHdr = 20, BPF_ALIGNMENT = 4\<rparr>"

definition sample_packet :: "bytes \<Rightarrow> tpacket" where
  "sample_packet data =
     \<lparr>tp_sec = 1700000000, tp_nsec = 5, tp_len = 14, tp_status = 0, tp_head = replicate 14 0, tp_data = data, tp_tail = []\<rparr>"

lemma sample_abi_ok: "unix_ok sample_abi"
  by (simp add: unix_ok_def sample_abi_def exI [of _ 2])

definition sample_arp_frame :: bytes where
  "sample_arp_frame = replicate 12 0xff @ [0x08, 0x06]"

definition sample_ring :: packetRing where
  "sample_ring =
     \<lparr>pr_iface = \<lparr>ni_Name = ''eth0'', ni_Index = 2, ni_Flags = 0x13\<rparr>, pr_maxFrame = 2048,
      pr_ring = block_bytes False 1 (replicate 8 0) [] [sample_packet sample_arp_frame, sample_packet [1]] [],
      pr_blockSize = 119, pr_blockCount = 1\<rparr>"

lemma sample_ring_ok: "ring_ok sample_ring"
  "ring_block sample_ring 0 = block_bytes False 1 (replicate 8 0) [] [sample_packet sample_arp_frame, sample_packet [1]] []"
  "block_ok False (replicate 8 0) [] [sample_packet sample_arp_frame, sample_packet [1]]"
  by (simp_all add: ring_ok_def ring_block_def sample_ring_def block_bytes_def block_ok_def tpacket_ok_def tpacket_size_def
      sample_packet_def sample_arp_frame_def)

lemma ring_delivers_witness:
  "\<exists>b'. ring_round False sample_abi sample_ring 0 =
     Some ([frame_view \<lparr>ni_Name = ''eth0'', ni_Index = 2, ni_Flags = 0x13\<rparr> sample_arp_frame (time_Unix 1700000000 5)], b', 0)"
proof -
  have i: "0 < pr_blockCount sample_ring" and st: "1 AND TP_STATUS_USER sample_abi \<noteq> 0"
    by (simp_all add: sample_ring_def sample_abi_def)
  have v: "concat (map (tpacket_views sample_ring) [sample_packet sample_arp_frame, sample_packet [1]]) =
      [frame_view \<lparr>ni_Name = ''eth0'', ni_Index = 2, ni_Flags = 0x13\<rparr> sample_arp_frame (time_Unix 1700000000 5)]"
    by (simp add: tpacket_views_def sample_ring_def sample_packet_def sample_arp_frame_def)
  have m: "(0 + 1) mod pr_blockCount sample_ring = 0" by (simp add: sample_ring_def)
  show ?thesis using ring_delivers [OF sample_ring_ok(1) i sample_abi_ok sample_ring_ok(3,2) st] unfolding v m by blast
qed

section \<open>The sizes fit\<close>

lemma doubling_loop:
  assumes "0 < sz"
  shows "\<exists>k. doubling_loop wanted sz = sz * 2 ^ k \<and> wanted \<le> int (doubling_loop wanted sz) \<and>
    (k = 0 \<or> int (doubling_loop wanted sz) < 2 * wanted)"
  using assms
proof (induction wanted sz rule: doubling_loop.induct)
  case (1 wanted sz)
  show ?case
  proof (cases "int sz < wanted")
    case True
    then have e: "doubling_loop wanted sz = doubling_loop wanted (sz * 2)"
      using "1.prems" by (simp add: doubling_loop.simps [of wanted sz])
    obtain k where k: "doubling_loop wanted (sz * 2) = sz * 2 * 2 ^ k" "wanted \<le> int (doubling_loop wanted (sz * 2))"
      "k = 0 \<or> int (doubling_loop wanted (sz * 2)) < 2 * wanted"
      using "1.IH" "1.prems" True by auto
    have "int (doubling_loop wanted (sz * 2)) < 2 * wanted" using k(1,3) True by auto
    then show ?thesis using k unfolding e by (intro exI [of _ "Suc k"]) simp
  next
    case False
    then show ?thesis using "1.prems" by (intro exI [of _ 0]) (simp add: doubling_loop.simps [of wanted sz])
  qed
qed

text \<open>
  (C17) The ring that \<open>setupTPacketV3\<close> asks for is one that the kernel accepts: for every frame size that the
  configuration admits and every page size, the frame size is a power of two that holds a frame with its
  header, a block is a whole number of pages and holds 16 frames, and the ring of four blocks is far from
  the bounds of the 32-bit fields of the request.
\<close>

theorem ring_sizes_fit:
  assumes "0 \<le> maxFrame" "maxFrame \<le> 65535" "0 < page" "page \<le> 65536"
  shows "case ring_sizes maxFrame page of (frameSize, blockSize, blockCount, frames) \<Rightarrow>
    maxFrame + 256 \<le> int frameSize \<and> (\<exists>k. frameSize = 2 ^ k) \<and> page dvd blockSize \<and> 16 * frameSize \<le> blockSize \<and>
    blockCount = 4 \<and> blockSize * blockCount < 2 ^ 25 \<and> frames = blockSize div frameSize * blockCount \<and> 64 \<le> frames"
proof -
  obtain j where j: "doubling_loop (maxFrame + 256) 2048 = 2048 * 2 ^ j" "maxFrame + 256 \<le> int (doubling_loop (maxFrame + 256) 2048)"
    "j = 0 \<or> int (doubling_loop (maxFrame + 256) 2048) < 2 * (maxFrame + 256)"
    using doubling_loop [of 2048 "maxFrame + 256"] by auto
  define f where "f = doubling_loop (maxFrame + 256) 2048"
  have f: "f = 2 ^ (11 + j)" "0 < f" "maxFrame + 256 \<le> int f" using j(1,2) by (simp_all add: f_def power_add)
  have "f < 131584"
  proof (cases "j = 0")
    case False
    then have "int f < 2 * (maxFrame + 256)" using j(3) by (simp only: f_def) blast
    also have "\<dots> \<le> 2 * (65535 + 256)" using assms(2) by simp
    finally show ?thesis by simp
  qed (simp add: f(1))
  obtain k where k: "doubling_loop (int (f * 16)) (2 ^ 20) = 2 ^ 20 * 2 ^ k" "int (f * 16) \<le> int (doubling_loop (int (f * 16)) (2 ^ 20))"
    "k = 0 \<or> int (doubling_loop (int (f * 16)) (2 ^ 20)) < 2 * int (f * 16)"
    using doubling_loop [of "2 ^ 20" "int (f * 16)"] by auto
  define s where "s = doubling_loop (int (f * 16)) (2 ^ 20)"
  have s: "16 * f \<le> s" using k(2) by (simp add: s_def)
  have "s < 4210689"
  proof (cases "k = 0")
    case True
    then show ?thesis using k(1) by (simp add: s_def)
  next
    case False
    then have "int s < 2 * int (f * 16)" using k(3) by (simp only: s_def) blast
    then have "int s < 4210689" using \<open>f < 131584\<close> by linarith
    then show ?thesis by simp
  qed
  define r where "r = s mod page"
  define t where "t = (if r \<noteq> 0 then s + (page - r) else s)"
  have r: "r < page" using assms(3) by (simp add: r_def)
  have t: "s \<le> t" "t \<le> s + page" using r by (auto simp: t_def)
  have "s = page * (s div page) + r" by (simp add: r_def)
  then have "t = page * (s div page + (if r \<noteq> 0 then 1 else 0))" using r by (auto simp: t_def algebra_simps)
  then have dvd: "page dvd t" by (metis dvd_triv_left)
  have "t * 4 < 2 ^ 25" using t(2) \<open>s < 4210689\<close> assms(4) by simp
  moreover have "16 \<le> t div f" using s t(1) f(2) by (simp add: less_eq_div_iff_mult_less_eq)
  moreover have "ring_sizes maxFrame page = (f, t, 4, t div f * 4)"
    by (simp add: ring_sizes_def f_def s_def t_def r_def Let_def)
  ultimately show ?thesis using f s t(1) dvd by auto
qed

lemma ring_sizes_fit_witness:
  "case ring_sizes 9216 4096 of (frameSize, blockSize, blockCount, frames) \<Rightarrow> 9472 \<le> int frameSize \<and> 4096 dvd blockSize \<and> 64 \<le> frames"
  using ring_sizes_fit [of 9216 4096] by (auto split: prod.splits)

section \<open>Records\<close>

text \<open>Rounding up to the alignment only ever adds.\<close>

lemma bpf_align_le:
  assumes "0 < BPF_ALIGNMENT abi"
  shows "int m \<le> bpf_align abi m"
proof -
  define y where "y = int (BPF_ALIGNMENT abi) - 1"
  define x where "x = int m + int (BPF_ALIGNMENT abi) - 1"
  have "(x AND y) + (x AND NOT y) = (x AND y) OR (x AND NOT y)"
    by (rule disjunctive_add_eq_or) (simp add: bit_eq_iff bit_simps)
  also have "\<dots> = x" by (rule bit_eqI) (auto simp: bit_simps)
  finally have "x = (x AND y) + (x AND NOT y)" by simp
  moreover have "x AND y \<le> y" using assms by (intro AND_upper2) (simp add: y_def)
  ultimately show ?thesis by (simp add: bpf_align_def x_def y_def)
qed

record bpfRecord =
  br_sec :: u32
  br_usec :: u32
  br_datalen :: u32
  br_head :: bytes
  br_data :: bytes

definition record_size :: "bpfRecord \<Rightarrow> nat" where
  "record_size r = 18 + length (br_head r) + length (br_data r)"

definition record_bytes :: "bool \<Rightarrow> bpfRecord \<Rightarrow> bytes" where
  "record_bytes big r =
     put_ne32 big (br_sec r) @ put_ne32 big (br_usec r) @ put_ne32 big (of_nat (length (br_data r))) @
     put_ne32 big (br_datalen r) @ put_ne16 big (of_nat (18 + length (br_head r))) @ br_head r @ br_data r"

definition record_ok :: "unix_abi \<Rightarrow> bpfRecord \<Rightarrow> bool" where
  "record_ok abi r =
     (SizeofBpfHdr abi \<le> 18 + length (br_head r) \<and> 18 + length (br_head r) < 2 ^ 16 \<and> length (br_data r) < 2 ^ 32)"

text \<open>The records of a read, each but the last padded to the alignment.\<close>

fun records_bytes :: "bool \<Rightarrow> unix_abi \<Rightarrow> bpfRecord list \<Rightarrow> bytes" where
  "records_bytes big abi [] = []"
| "records_bytes big abi [r] = record_bytes big r"
| "records_bytes big abi (r # rs) =
     record_bytes big r @ replicate (nat (bpf_align abi (record_size r)) - record_size r) 0 @ records_bytes big abi rs"

definition bpf_record_views :: "netInterface \<Rightarrow> bpfRecord \<Rightarrow> captureView list" where
  "bpf_record_views ifi r =
     (if 14 \<le> length (br_data r)
      then [frame_view ifi (br_data r) (time_Unix (sint (br_sec r)) (sint (br_usec r) * 1000))] else [])"

lemma length_record_bytes [simp]: "length (record_bytes big r) = record_size r"
  by (simp add: record_bytes_def record_size_def)

abbreviation header_of :: "bpfRecord \<Rightarrow> recordHeader" where
  "header_of r \<equiv> \<lparr>rh_sec = br_sec r, rh_usec = br_usec r, rh_caplen = of_nat (length (br_data r)),
     rh_hdrlen = of_nat (18 + length (br_head r))\<rparr>"

lemma record_header_bytes: "record_header big (record_bytes big r @ x) = Some (header_of r)"
  by (simp add: record_header_def record_bytes_def gslice_def)

lemma record_lengths:
  assumes "record_ok abi r"
  shows "unat (of_nat (length (br_data r)) :: u32) = length (br_data r)"
    "unat (of_nat (18 + length (br_head r)) :: u16) = 18 + length (br_head r)"
  using assms by (simp_all add: record_ok_def del: of_nat_add)

lemma record_views_bytes:
  assumes "record_ok abi r" "buf = pre @ record_bytes big r @ x" "length pre + record_size r \<le> n"
  shows "record_views abi ifi buf n (length pre) (header_of r) = Some (bpf_record_views ifi r)"
proof -
  have d: "gslice buf (length pre + (18 + length (br_head r))) (length pre + (18 + length (br_head r)) + length (br_data r)) = Some (br_data r)"
    using assms(2) by (simp add: gslice_def record_bytes_def)
  show ?thesis
    using assms(1,3) record_lengths [OF assms(1)] d
    by (simp add: record_views_def bpf_record_views_def Let_def record_size_def record_ok_def del: of_nat_add)
qed

lemma record_loop_step:
  assumes "unix_ok abi" "record_ok abi r" "buf = pre @ record_bytes big r @ x" "length pre + record_size r \<le> n" "n \<le> length buf"
  shows "record_loop big abi ifi buf n (length pre) =
    map_option (\<lambda>rest. bpf_record_views ifi r @ rest)
      (record_loop big abi ifi buf n (length pre + nat (bpf_align abi (record_size r))))"
proof -
  have al: "0 < BPF_ALIGNMENT abi" using assms(1) by (auto simp: unix_ok_def)
  have "gslice buf (length pre) n = Some (record_bytes big r @ take (n - length pre - record_size r) x)"
    using assms(4,5) unfolding assms(3) by (simp add: gslice_def)
  then have h: "gslice buf (length pre) n \<bind> record_header big = Some (header_of r)"
    by (simp only: Option.bind.simps record_header_bytes)
  have a: "bpf_align abi (unat (rh_hdrlen (header_of r)) + unat (rh_caplen (header_of r))) = bpf_align abi (record_size r)"
    using record_lengths [OF assms(2)] by (simp add: record_size_def del: of_nat_add)
  have "0 < bpf_align abi (record_size r)" using bpf_align_le [OF al, of "record_size r"] by (simp add: record_size_def)
  then have na: "\<not> bpf_align abi (record_size r) \<le> 0" by simp
  have g: "length pre + SizeofBpfHdr abi \<le> n" using assms(2,4) by (simp add: record_ok_def record_size_def)
  show ?thesis
    unfolding record_loop.simps [of big abi ifi buf n "length pre"] if_P [OF g] h Option.bind.simps record_views_bytes [OF assms(2-4)] Let_def a
      if_not_P [OF na]
    by (cases "record_loop big abi ifi buf n (length pre + nat (bpf_align abi (record_size r)))") simp_all
qed

lemma record_loop_end: "n < off + SizeofBpfHdr abi \<Longrightarrow> record_loop big abi ifi buf n off = Some []"
  by (simp add: record_loop.simps)

lemma record_loop_bytes:
  assumes "unix_ok abi" "\<forall>r \<in> set rs. record_ok abi r" "buf = pre @ records_bytes big abi rs @ x"
    "n = length pre + length (records_bytes big abi rs)"
  shows "record_loop big abi ifi buf n (length pre) = Some (concat (map (bpf_record_views ifi) rs))"
  using assms
proof (induction big abi rs arbitrary: pre rule: records_bytes.induct)
  case (1 big abi)
  then show ?case by (simp add: record_loop_end unix_ok_def)
next
  case (2 big abi r)
  have pos: "0 < SizeofBpfHdr abi" "0 < BPF_ALIGNMENT abi" using "2.prems"(1) by (auto simp: unix_ok_def)
  have "n < length pre + nat (bpf_align abi (record_size r)) + SizeofBpfHdr abi"
    using bpf_align_le [OF pos(2), of "record_size r"] pos(1) "2.prems"(4) by simp
  then show ?case
    using record_loop_step [OF "2.prems"(1), of r buf pre big x n ifi] "2.prems" by (simp add: record_loop_end)
next
  case (3 big abi r r' rs)
  let ?pad = "replicate (nat (bpf_align abi (record_size r)) - record_size r) (0 :: u8)"
  let ?rest = "records_bytes big abi (r' # rs)"
  have "0 < BPF_ALIGNMENT abi" using "3.prems"(1) by (auto simp: unix_ok_def)
  then have "record_size r \<le> nat (bpf_align abi (record_size r))" using bpf_align_le [of abi "record_size r"] by simp
  then have len: "length (pre @ record_bytes big r @ ?pad) = length pre + nat (bpf_align abi (record_size r))" by simp
  have b: "buf = pre @ record_bytes big r @ (?pad @ ?rest @ x)" "buf = (pre @ record_bytes big r @ ?pad) @ ?rest @ x"
    using "3.prems"(3) by simp_all
  have n: "n = length (pre @ record_bytes big r @ ?pad) + length ?rest" using "3.prems"(4) by simp
  have step: "record_loop big abi ifi buf n (length pre) = map_option (\<lambda>rest. bpf_record_views ifi r @ rest)
      (record_loop big abi ifi buf n (length pre + nat (bpf_align abi (record_size r))))"
    using "3.prems"(2) n unfolding b(1)
    by (intro record_loop_step [OF "3.prems"(1) _ refl]) simp_all
  have "record_loop big abi ifi buf n (length (pre @ record_bytes big r @ ?pad)) = Some (concat (map (bpf_record_views ifi) (r' # rs)))"
    using "3.prems"(2) by (intro "3.IH" [OF "3.prems"(1) _ b(2) n]) simp
  then show ?case using step by (simp only: len option.map list.map concat.simps)
qed

text \<open>
  (C12) A read from a BPF device delivers what the kernel wrote: from records laid out as the kernel does it,
  each padded to the alignment, the loop over the buffer emits, in order, exactly the frames of at least 14
  bytes, each with its bytes and its time, whatever stale bytes of earlier reads follow in the buffer.
\<close>

theorem bpf_read_delivers:
  assumes "unix_ok abi" "\<forall>r \<in> set rs. record_ok abi r"
  shows "record_loop big abi ifi (records_bytes big abi rs @ stale) (length (records_bytes big abi rs)) 0 =
    Some (concat (map (bpf_record_views ifi) rs))"
  using record_loop_bytes [OF assms, of "records_bytes big abi rs @ stale" "[]" big stale "length (records_bytes big abi rs)" ifi]
  by simp

definition sample_record :: "bytes \<Rightarrow> bpfRecord" where
  "sample_record data = \<lparr>br_sec = 1700000000, br_usec = 5, br_datalen = 15, br_head = [0, 0], br_data = data\<rparr>"

lemma bpf_read_delivers_witness:
  "\<exists>n. n > 70 \<and> record_loop True sample_abi (pr_iface sample_ring) (records_bytes True sample_abi [sample_record (replicate 15 1), sample_record [7], sample_record (replicate 14 2)] @ [9, 9]) n 0 =
     Some [frame_view (pr_iface sample_ring) (replicate 15 1) (time_Unix 1700000000 5000), frame_view (pr_iface sample_ring) (replicate 14 2) (time_Unix 1700000000 5000)]"
proof -
  let ?rs = "[sample_record (replicate 15 1), sample_record [7], sample_record (replicate 14 2)]"
  have ok: "\<forall>r \<in> set ?rs. record_ok sample_abi r" by (simp add: record_ok_def sample_record_def sample_abi_def)
  have v: "concat (map (bpf_record_views (pr_iface sample_ring)) ?rs) =
      [frame_view (pr_iface sample_ring) (replicate 15 1) (time_Unix 1700000000 5000), frame_view (pr_iface sample_ring) (replicate 14 2) (time_Unix 1700000000 5000)]"
    by (simp add: bpf_record_views_def sample_record_def)
  have "length (records_bytes True sample_abi ?rs) > 70"
    by (simp add: sample_record_def record_size_def)
  with bpf_read_delivers [OF sample_abi_ok ok, of True "pr_iface sample_ring" "[9, 9]"] show ?thesis unfolding v by blast
qed

section \<open>No memory of the kernel makes the program panic\<close>

lemma record_header_runs: "18 \<le> length h \<Longrightarrow> runs (record_header big h) (\<lambda>_. True)"
  by (simp add: record_header_def wp)

lemma record_views_runs:
  "n \<le> length buf \<Longrightarrow> runs (record_views abi ifi buf n off h) (\<lambda>views. \<forall>v \<in> set views. view_of buf n v)"
  by (auto simp: record_views_def wp Let_def add.assoc intro!: view_of_frame)

lemma record_loop_safe:
  "18 \<le> SizeofBpfHdr abi \<Longrightarrow> n \<le> length buf \<Longrightarrow>
   runs (record_loop big abi ifi buf n off) (\<lambda>views. \<forall>v \<in> set views. view_of buf n v)"
proof (induction "n + 1 - off" arbitrary: off rule: less_induct)
  case less
  show ?case
    using less.prems
    by (subst record_loop.simps)
      (auto simp: wp Let_def intro!: runs_mono [OF record_header_runs] runs_mono [OF record_views_runs] runs_mono [OF less.hyps])
qed

text \<open>
  (C13) Whatever the kernel writes, no backend panics on it. Every round of \<open>runRing\<close> succeeds: an emitted
  frame is made of 14 to \<open>maxFrame\<close> bytes of the block at the index, no other block is touched, the block
  belongs to the kernel afterwards and the next index is one of the ring. And the loop over a read from a BPF
  device ends, with frames of at least 14 bytes that lie in what was read.
\<close>

theorem kernel_memory_safe:
  assumes "ring_ok b" "i < pr_blockCount b" "unix_ok abi" "n \<le> length buf"
  shows "(\<exists>views b' j. ring_round big abi b i = Some (views, b', j) \<and> j < pr_blockCount b \<and> ring_ok b' \<and>
      views_in (ring_block b i) (pr_blockSize b) (pr_maxFrame b) views \<and>
      (\<forall>k < pr_blockCount b. k \<noteq> i \<longrightarrow> ring_block b' k = ring_block b k) \<and>
      block_status big (ring_block b' i) AND TP_STATUS_USER abi = 0) \<and>
    (\<exists>views. record_loop big abi ifi buf n 0 = Some views \<and> (\<forall>v \<in> set views. view_of buf n v))"
proof
  show "\<exists>views b' j. ring_round big abi b i = Some (views, b', j) \<and> j < pr_blockCount b \<and> ring_ok b' \<and>
      views_in (ring_block b i) (pr_blockSize b) (pr_maxFrame b) views \<and>
      (\<forall>k < pr_blockCount b. k \<noteq> i \<longrightarrow> ring_block b' k = ring_block b k) \<and>
      block_status big (ring_block b' i) AND TP_STATUS_USER abi = 0"
    using runs_exD [OF ring_round_runs [OF assms(1-3), of big]] by auto
  have "18 \<le> SizeofBpfHdr abi" using assms(3) by (simp add: unix_ok_def)
  from runs_exD [OF record_loop_safe [OF this assms(4)]]
  show "\<exists>views. record_loop big abi ifi buf n 0 = Some views \<and> (\<forall>v \<in> set views. view_of buf n v)" by blast
qed

lemma kernel_memory_safe_witness:
  "\<exists>views b' j. ring_round True sample_abi sample_ring 0 = Some (views, b', j) \<and> ring_ok b'"
proof -
  have "0 < pr_blockCount sample_ring" by (simp add: sample_ring_def)
  from conjunct1 [OF kernel_memory_safe [OF sample_ring_ok(1) this sample_abi_ok, of 3 "[1, 2, 3]" True]] show ?thesis by simp blast
qed

end
