(* ===== verification/CaptureOpen.thy ===== *)
theory CaptureOpen
  imports CaptureRing Lifecycle PacketFilter "HOL-Library.Multiset"
begin

text \<open>
  The model of how a run opens its capture backends: the choice of the interfaces and the UDP sockets of
  \<open>capture_common.go\<close>, the packet sockets of \<open>capture_linux.go\<close>, the BPF devices of \<open>capture_darwin.go\<close>, and
  \<open>capture_windows.go\<close> and \<open>capture_other.go\<close>. The operating system is a parameter: the answers to the system
  calls in the order in which they are made, the interfaces and their addresses. The state keeps the open
  descriptors and the memory mappings, so that the theorems can say what is closed on every path.
\<close>

section \<open>The operating system\<close>

text \<open>A call works, fails because a device is busy, or fails.\<close>

datatype answer = Works | Busy | Fails

record os =
  os_calls :: nat
  os_next :: int
  os_fds :: "int list"
  os_maps :: "int list"

type_synonym answers = "nat \<Rightarrow> answer"

definition sys_call :: "answers \<Rightarrow> os \<Rightarrow> answer \<times> os" where
  "sys_call answers w = (answers (os_calls w), w\<lparr>os_calls := os_calls w + 1\<rparr>)"

definition open_fd :: "answers \<Rightarrow> os \<Rightarrow> (answer + int) \<times> os" where
  "open_fd answers w =
     (case sys_call answers w of
        (Works, w) \<Rightarrow> (Inr (os_next w), w\<lparr>os_next := os_next w + 1, os_fds := os_next w # os_fds w\<rparr>)
      | (a, w) \<Rightarrow> (Inl a, w))"

definition close_fd :: "int \<Rightarrow> os \<Rightarrow> os" where
  "close_fd fd w = w\<lparr>os_fds := remove1 fd (os_fds w)\<rparr>"

datatype open_error =
  UnknownInterface string | NoInterfaceList | NoEligibleInterface
| PacketSocketError string | BindError string | FilterError string
| OpenBPFError | NoBPFDevice | BPFBindError string | BPFImmediateError string | BPFSeeSentError string | BPFBufferError string
| UDPOpenError | UnsupportedProtocols string ProtocolSet

section \<open>Interfaces\<close>

definition FlagUp :: u32 where "FlagUp = 1"
definition FlagLoopback :: u32 where "FlagLoopback = 4"
definition FlagMulticast :: u32 where "FlagMulticast = 16"

fun named_interfaces :: "(string \<Rightarrow> netInterface option) \<Rightarrow> string list \<Rightarrow> open_error + netInterface list" where
  "named_interfaces by_name [] = Inr []"
| "named_interfaces by_name (name # names) =
     (case by_name name of
        None \<Rightarrow> Inl (UnknownInterface name)
      | Some ifi \<Rightarrow> (case named_interfaces by_name names of Inl e \<Rightarrow> Inl e | Inr out \<Rightarrow> Inr (ifi # out)))"

definition eligible :: "'r Config \<Rightarrow> netInterface \<Rightarrow> bool" where
  "eligible cfg ifi =
     (\<not> (ni_Flags ifi AND FlagUp = 0 \<or> ni_Flags ifi AND FlagMulticast = 0) \<and>
      \<not> (\<not> cfg_IncludeLoopback cfg \<and> ni_Flags ifi AND FlagLoopback \<noteq> 0))"

definition captureInterfaces ::
  "(string \<Rightarrow> netInterface option) \<Rightarrow> netInterface list option \<Rightarrow> 'r Config \<Rightarrow> open_error + netInterface list" where
  "captureInterfaces by_name interfaces cfg =
     (if cfg_Interfaces cfg \<noteq> [] then named_interfaces by_name (cfg_Interfaces cfg)
      else (case interfaces of
          None \<Rightarrow> Inl NoInterfaceList
        | Some ifaces \<Rightarrow>
            let out = filter (eligible cfg) ifaces
            in if out = [] then Inl NoEligibleInterface else Inr out))"

text \<open>
  The prefixes of the interfaces. \<open>addrs\<close> gives the addresses of an interface as \<open>netip.ParsePrefix\<close> reads
  their text, or nothing where it fails; \<open>Prefix.Masked\<close> clears the bits of the host.
\<close>

fun mask_bytes :: "nat \<Rightarrow> bytes \<Rightarrow> bytes" where
  "mask_bytes n [] = []"
| "mask_bytes n (b # bs) = (b AND NOT (mask (8 - n))) # mask_bytes (n - 8) bs"

definition Masked :: "Prefix \<Rightarrow> Prefix" where
  "Masked p =
     (case pfx_bits p of
        None \<Rightarrow> p
      | Some n \<Rightarrow> p\<lparr>pfx_addr := (case pfx_addr p of Addr4 b \<Rightarrow> Addr4 (mask_bytes n b)
          | Addr6 b z \<Rightarrow> Addr6 (mask_bytes n b) z | AddrNone \<Rightarrow> AddrNone)\<rparr>)"

record interfacePrefix =
  ip_name :: string
  ip_index :: int
  ip_prefix :: Prefix

definition interface_prefixes :: "netInterface \<Rightarrow> Prefix option list \<Rightarrow> interfacePrefix list" where
  "interface_prefixes ifi addresses =
     concat (map (\<lambda>a. case a of
         Some p \<Rightarrow> if IsValid (pfx_addr p) then [\<lparr>ip_name = ni_Name ifi, ip_index = ni_Index ifi, ip_prefix = Masked p\<rparr>] else []
       | None \<Rightarrow> []) addresses)"

fun captureInterfacePrefixes :: "(netInterface \<Rightarrow> Prefix option list option) \<Rightarrow> netInterface list \<Rightarrow> interfacePrefix list" where
  "captureInterfacePrefixes addrs [] = []"
| "captureInterfacePrefixes addrs (ifi # ifaces) =
     (case addrs ifi of
        None \<Rightarrow> captureInterfacePrefixes addrs ifaces
      | Some addresses \<Rightarrow> interface_prefixes ifi addresses @ captureInterfacePrefixes addrs ifaces)"

fun resolve_prefixes :: "Addr \<Rightarrow> interfacePrefix list \<Rightarrow> string \<times> int" where
  "resolve_prefixes source [] = ([], 0)"
| "resolve_prefixes source (p # ps) =
     (if Prefix_Contains (ip_prefix p) source then (ip_name p, ip_index p) else resolve_prefixes source ps)"

definition resolveInterface :: "Addr \<Rightarrow> interfacePrefix list \<Rightarrow> string \<times> int" where
  "resolveInterface source prefixes = resolve_prefixes (Unmap source) prefixes"

section \<open>Backends\<close>

record linuxRawBackend =
  lb_fd :: int
  lb_iface :: netInterface
  lb_maxFrame :: int
  lb_ring :: "(nat \<times> nat) option"

record darwinBPFBackend =
  db_fd :: int
  db_iface :: netInterface

record udpBackend =
  ub_fd :: int
  ub_protocol :: Protocol
  ub_ifaceName :: string
  ub_ifaceIndex :: int
  ub_maxDatagram :: int
  ub_prefixes :: "interfacePrefix list"

datatype captureBackend = RawBackend linuxRawBackend | BPFBackend darwinBPFBackend | UDPBackend udpBackend

fun backend_fd :: "captureBackend \<Rightarrow> int" where
  "backend_fd (RawBackend b) = lb_fd b"
| "backend_fd (BPFBackend b) = db_fd b"
| "backend_fd (UDPBackend b) = ub_fd b"

text \<open>\<open>close\<close> of every kind of backend closes its descriptor, once.\<close>

definition close_backends :: "captureBackend list \<Rightarrow> os \<Rightarrow> os" where
  "close_backends bs w = fold (\<lambda>b. close_fd (backend_fd b)) bs w"

section \<open>UDP sockets\<close>

definition listen_udp ::
  "answers \<Rightarrow> 'r Config \<Rightarrow> Protocol \<Rightarrow> string \<Rightarrow> int \<Rightarrow> interfacePrefix list \<Rightarrow> os \<Rightarrow> captureBackend list \<times> os" where
  "listen_udp answers cfg proto name index prefixes w =
     (case open_fd answers w of
        (Inr fd, w) \<Rightarrow>
          let w = snd (sys_call answers w)
          in ([UDPBackend \<lparr>ub_fd = fd, ub_protocol = proto, ub_ifaceName = name, ub_ifaceIndex = index,
                 ub_maxDatagram = cfg_MaxFrameSize cfg, ub_prefixes = prefixes\<rparr>], w)
      | (Inl _, w) \<Rightarrow> ([], w))"

text \<open>For mDNS every interface gets a socket of either family, for MNDP one of IPv6.\<close>

fun listen_mdns :: "answers \<Rightarrow> 'r Config \<Rightarrow> netInterface list \<Rightarrow> os \<Rightarrow> captureBackend list \<times> os" where
  "listen_mdns answers cfg [] w = ([], w)"
| "listen_mdns answers cfg (ifi # ifaces) w =
     (let (b4, w) = listen_udp answers cfg ProtocolMDNS (ni_Name ifi) (ni_Index ifi) [] w;
          (b6, w) = listen_udp answers cfg ProtocolMDNS (ni_Name ifi) (ni_Index ifi) [] w;
          (bs, w) = listen_mdns answers cfg ifaces w
      in (b4 @ b6 @ bs, w))"

fun listen_mndp6 :: "answers \<Rightarrow> 'r Config \<Rightarrow> netInterface list \<Rightarrow> os \<Rightarrow> captureBackend list \<times> os" where
  "listen_mndp6 answers cfg [] w = ([], w)"
| "listen_mndp6 answers cfg (ifi # ifaces) w =
     (let (b, w) = listen_udp answers cfg ProtocolMNDP (ni_Name ifi) (ni_Index ifi) [] w;
          (bs, w) = listen_mndp6 answers cfg ifaces w
      in (b @ bs, w))"

definition openUDPBackends ::
  "answers \<Rightarrow> (netInterface \<Rightarrow> Prefix option list option) \<Rightarrow> 'r Config \<Rightarrow> netInterface list \<Rightarrow> os \<Rightarrow>
   (open_error + captureBackend list) \<times> os" where
  "openUDPBackends answers addrs cfg ifaces w =
     (let prefixes = captureInterfacePrefixes addrs ifaces;
          (mdns, w) = (if Has (cfg_Protocols cfg) ProtocolMDNS then listen_mdns answers cfg ifaces w else ([], w));
          (mndp4, w) = (if Has (cfg_Protocols cfg) ProtocolMNDP then listen_udp answers cfg ProtocolMNDP [] 0 prefixes w else ([], w));
          (mndp6, w) = (if Has (cfg_Protocols cfg) ProtocolMNDP then listen_mndp6 answers cfg ifaces w else ([], w));
          out = mdns @ mndp4 @ mndp6
      in if (Has (cfg_Protocols cfg) ProtocolMDNS \<and> mdns = []) \<or> (Has (cfg_Protocols cfg) ProtocolMNDP \<and> mndp4 @ mndp6 = [])
         then (Inl UDPOpenError, close_backends out w)
         else (Inr out, w))"

section \<open>Linux\<close>

definition openLinuxPacketSocket :: "answers \<Rightarrow> 'r Config \<Rightarrow> netInterface \<Rightarrow> os \<Rightarrow> ((open_error + int) \<times> os) run" where
  "openLinuxPacketSocket answers cfg ifi w =
     (case open_fd answers w of
        (Inl _, w) \<Rightarrow> Some (Inl (PacketSocketError (ni_Name ifi)), w)
      | (Inr fd, w) \<Rightarrow>
          let (bound, w) = sys_call answers w
          in if bound \<noteq> Works then Some (Inl (BindError (ni_Name ifi)), close_fd fd w)
             else do {
               let w = snd (sys_call answers w);
               ins \<leftarrow> discoveryFilter (cfg_Protocols cfg) (cfg_MaxFrameSize cfg);
               if ins \<noteq> [] then
                 (let (attached, w) = sys_call answers w
                  in if attached \<noteq> Works then Some (Inl (FilterError (ni_Name ifi)), close_fd fd w) else Some (Inr fd, w))
               else Some (Inr fd, w)
             })"

definition setupTPacketV3 :: "answers \<Rightarrow> nat \<Rightarrow> int \<Rightarrow> int \<Rightarrow> os \<Rightarrow> (nat \<times> nat) option \<times> os" where
  "setupTPacketV3 answers page fd maxFrame w =
     (let (version, w) = sys_call answers w
      in if version \<noteq> Works then (None, w)
         else (let (frameSize, blockSize, blockCount, frames) = ring_sizes maxFrame page;
                   (rx_ring, w) = sys_call answers w
               in if rx_ring \<noteq> Works then (None, w)
                  else (let (mapped, w) = sys_call answers w
                        in if mapped \<noteq> Works then (None, snd (sys_call answers w))
                           else (Some (blockSize, blockCount), w\<lparr>os_maps := fd # os_maps w\<rparr>))))"

definition newLinuxRawBackend ::
  "answers \<Rightarrow> nat \<Rightarrow> 'r Config \<Rightarrow> netInterface \<Rightarrow> os \<Rightarrow> ((open_error + captureBackend) \<times> os) run" where
  "newLinuxRawBackend answers page cfg ifi w = do {
     (r, w) \<leftarrow> openLinuxPacketSocket answers cfg ifi w;
     case r of
       Inl e \<Rightarrow> Some (Inl e, w)
     | Inr fd \<Rightarrow> do {
         let b = \<lparr>lb_fd = fd, lb_iface = ifi, lb_maxFrame = cfg_MaxFrameSize cfg, lb_ring = None\<rparr>;
         let (ring, w) = setupTPacketV3 answers page fd (cfg_MaxFrameSize cfg) w;
         if ring \<noteq> None then Some (Inr (RawBackend (b\<lparr>lb_ring := ring\<rparr>)), w)
         else do {
           (r, w) \<leftarrow> openLinuxPacketSocket answers cfg ifi (close_fd fd w);
           case r of
             Inl e \<Rightarrow> Some (Inl e, w)
           | Inr fd \<Rightarrow> Some (Inr (RawBackend (b\<lparr>lb_fd := fd\<rparr>)), w)
         }
       }
   }"

text \<open>The loop over the interfaces, which closes what it has opened when one of them fails.\<close>

fun open_all ::
  "(netInterface \<Rightarrow> os \<Rightarrow> ((open_error + captureBackend) \<times> os) run) \<Rightarrow> netInterface list \<Rightarrow> captureBackend list \<Rightarrow> os \<Rightarrow>
   ((open_error + captureBackend list) \<times> os) run" where
  "open_all new [] out w = Some (Inr out, w)"
| "open_all new (ifi # ifaces) out w = do {
     (r, w) \<leftarrow> new ifi w;
     case r of
       Inl e \<Rightarrow> Some (Inl e, close_backends out w)
     | Inr b \<Rightarrow> open_all new ifaces (out @ [b]) w
   }"

definition open_linux ::
  "answers \<Rightarrow> nat \<Rightarrow> (netInterface \<Rightarrow> Prefix option list option) \<Rightarrow> (open_error + netInterface list) \<Rightarrow> 'r Config \<Rightarrow> os \<Rightarrow>
   ((open_error + captureBackend list) \<times> os) run" where
  "open_linux answers page addrs ifaces cfg w =
     (case ifaces of
        Inl e \<Rightarrow> Some (Inl e, w)
      | Inr ifaces \<Rightarrow>
          if cfg_Protocols cfg AND (ProtocolsLLDP OR ProtocolsCDP) = 0 then Some (openUDPBackends answers addrs cfg ifaces w)
          else open_all (newLinuxRawBackend answers page cfg) ifaces [] w)"

section \<open>macOS\<close>

text \<open>The first of the remaining devices that is not busy.\<close>

fun open_device :: "answers \<Rightarrow> nat \<Rightarrow> os \<Rightarrow> (open_error + int) \<times> os" where
  "open_device answers 0 w = (Inl NoBPFDevice, w)"
| "open_device answers (Suc n) w =
     (case open_fd answers w of
        (Inr fd, w) \<Rightarrow> (Inr fd, w)
      | (Inl Busy, w) \<Rightarrow> open_device answers n w
      | (Inl _, w) \<Rightarrow> (Inl OpenBPFError, w))"

text \<open>Calls on a descriptor, each with the error that it returns, after which the descriptor is closed.\<close>

fun configure :: "answers \<Rightarrow> int \<Rightarrow> open_error list \<Rightarrow> os \<Rightarrow> (open_error + int) \<times> os" where
  "configure answers fd [] w = (Inr fd, w)"
| "configure answers fd (e # es) w =
     (let (a, w) = sys_call answers w
      in if a \<noteq> Works then (Inl e, close_fd fd w) else configure answers fd es w)"

definition newDarwinBPFBackend :: "answers \<Rightarrow> 'r Config \<Rightarrow> netInterface \<Rightarrow> os \<Rightarrow> ((open_error + captureBackend) \<times> os) run" where
  "newDarwinBPFBackend answers cfg ifi w =
     (case open_device answers 256 w of
        (Inl e, w) \<Rightarrow> Some (Inl e, w)
      | (Inr fd, w) \<Rightarrow>
          let name = ni_Name ifi;
              (r, w) = configure answers fd [BPFBindError name, BPFImmediateError name, BPFSeeSentError name, BPFBufferError name] w
          in (case r of
                Inl e \<Rightarrow> Some (Inl e, w)
              | Inr fd \<Rightarrow> do {
                  ins \<leftarrow> discoveryFilter (cfg_Protocols cfg) (cfg_MaxFrameSize cfg);
                  (case configure answers fd (if ins \<noteq> [] then [FilterError []] else []) w of
                     (Inl e, w) \<Rightarrow> Some (Inl e, w)
                   | (Inr fd, w) \<Rightarrow> Some (Inr (BPFBackend \<lparr>db_fd = fd, db_iface = ifi\<rparr>), w))
                }))"

definition open_darwin ::
  "answers \<Rightarrow> (netInterface \<Rightarrow> Prefix option list option) \<Rightarrow> (open_error + netInterface list) \<Rightarrow> 'r Config \<Rightarrow> os \<Rightarrow>
   ((open_error + captureBackend list) \<times> os) run" where
  "open_darwin answers addrs ifaces cfg w =
     (case ifaces of
        Inl e \<Rightarrow> Some (Inl e, w)
      | Inr ifaces \<Rightarrow>
          if cfg_Protocols cfg AND (ProtocolsLLDP OR ProtocolsCDP) = 0 then Some (openUDPBackends answers addrs cfg ifaces w)
          else do {
            let l2cfg = cfg\<lparr>cfg_Protocols := cfg_Protocols cfg AND (ProtocolsLLDP OR ProtocolsCDP)\<rparr>;
            (r, w) \<leftarrow> open_all (newDarwinBPFBackend answers l2cfg) ifaces [] w;
            case r of
              Inl e \<Rightarrow> Some (Inl e, w)
            | Inr out \<Rightarrow>
                if cfg_Protocols cfg AND (ProtocolsMNDP OR ProtocolsMDNS) \<noteq> 0 then
                  (let udpCfg = cfg\<lparr>cfg_Protocols := cfg_Protocols cfg AND (ProtocolsMNDP OR ProtocolsMDNS)\<rparr>;
                       (r, w) = openUDPBackends answers addrs udpCfg ifaces w
                   in (case r of
                         Inl e \<Rightarrow> Some (Inl e, close_backends out w)
                       | Inr udp \<Rightarrow> Some (Inr (out @ udp), w)))
                else Some (Inr out, w)
          })"

section \<open>Other systems\<close>

definition open_other ::
  "string \<Rightarrow> answers \<Rightarrow> (netInterface \<Rightarrow> Prefix option list option) \<Rightarrow> (open_error + netInterface list) \<Rightarrow> 'r Config \<Rightarrow> os \<Rightarrow>
   ((open_error + captureBackend list) \<times> os) run" where
  "open_other goos answers addrs ifaces cfg w =
     (let unsupported = cfg_Protocols cfg AND (ProtocolsLLDP OR ProtocolsCDP)
      in if unsupported \<noteq> 0 then Some (Inl (UnsupportedProtocols goos unsupported), w)
         else (case ifaces of
                 Inl e \<Rightarrow> Some (Inl e, w)
               | Inr ifaces \<Rightarrow> Some (openUDPBackends answers addrs cfg ifaces w)))"

definition open_windows ::
  "answers \<Rightarrow> (netInterface \<Rightarrow> Prefix option list option) \<Rightarrow> (open_error + netInterface list) \<Rightarrow> 'r Config \<Rightarrow> os \<Rightarrow>
   ((open_error + captureBackend list) \<times> os) run" where
  "open_windows answers addrs ifaces cfg w =
     (let unsupported = cfg_Protocols cfg AND (ProtocolsLLDP OR ProtocolsCDP)
      in if unsupported \<noteq> 0 then Some (Inl (UnsupportedProtocols ''windows'' unsupported), w)
         else (case ifaces of
                 Inl e \<Rightarrow> Some (Inl e, w)
               | Inr ifaces \<Rightarrow> Some (openUDPBackends answers addrs cfg ifaces w)))"

lemma open_windows_other [simp]: "open_windows = open_other ''windows''"
  by (intro ext) (simp add: open_windows_def open_other_def)

text \<open>A build has the file of its system only.\<close>

definition openCaptureBackends ::
  "string \<Rightarrow> answers \<Rightarrow> nat \<Rightarrow> (string \<Rightarrow> netInterface option) \<Rightarrow> netInterface list option \<Rightarrow>
   (netInterface \<Rightarrow> Prefix option list option) \<Rightarrow> 'r Config \<Rightarrow> os \<Rightarrow> ((open_error + captureBackend list) \<times> os) run" where
  "openCaptureBackends goos answers page by_name interfaces addrs cfg w =
     (let ifaces = captureInterfaces by_name interfaces cfg
      in if goos = ''linux'' then open_linux answers page addrs ifaces cfg w
         else if goos = ''darwin'' then open_darwin answers addrs ifaces cfg w
         else if goos = ''windows'' then open_windows answers addrs ifaces cfg w
         else open_other goos answers addrs ifaces cfg w)"

section \<open>Descriptors\<close>

text \<open>Since \<open>w0\<close> the descriptors of \<open>fds\<close> have been opened and are open, and no other ones.\<close>

definition os_ok :: "os \<Rightarrow> bool" where
  "os_ok w = (distinct (os_fds w) \<and> (\<forall>fd \<in> set (os_fds w). fd < os_next w))"

definition owns :: "os \<Rightarrow> int list \<Rightarrow> os \<Rightarrow> bool" where
  "owns w0 fds w = (os_ok w \<and> mset (os_fds w) = mset (os_fds w0) + mset fds)"

lemma owns_refl: "os_ok w \<Longrightarrow> owns w [] w"
  by (simp add: owns_def)

lemma owns_perm: "owns w0 fds w \<Longrightarrow> mset fds' = mset fds \<Longrightarrow> owns w0 fds' w"
  by (simp add: owns_def)

lemma owns_call [simp]: "owns w0 fds (snd (sys_call answers w)) = owns w0 fds w"
  by (simp add: owns_def os_ok_def sys_call_def)

lemma owns_called: "sys_call answers w = (a, w') \<Longrightarrow> owns w0 fds w' = owns w0 fds w"
  using owns_call [of w0 fds answers w] by simp

lemma owns_maps [simp]: "owns w0 fds (w\<lparr>os_maps := m\<rparr>) = owns w0 fds w"
  by (simp add: owns_def os_ok_def)

lemma owns_open:
  "owns w0 fds w \<Longrightarrow> open_fd answers w = (Inr fd, w') \<Longrightarrow> owns w0 (fd # fds) w'"
  "owns w0 fds w \<Longrightarrow> open_fd answers w = (Inl e, w') \<Longrightarrow> owns w0 fds w'"
  by (auto simp: open_fd_def sys_call_def owns_def os_ok_def less_imp_le split: answer.splits)

lemma owns_close: "owns w0 (fd # fds) w \<Longrightarrow> owns w0 fds (close_fd fd w)"
  by (auto simp: owns_def os_ok_def close_fd_def distinct_remove1 dest: notin_set_remove1)

lemma owns_close_backends: "owns w0 (map backend_fd bs @ fds) w \<Longrightarrow> owns w0 fds (close_backends bs w)"
proof (induction bs arbitrary: w)
  case (Cons b bs)
  then have "owns w0 (map backend_fd bs @ fds) (close_fd (backend_fd b) w)" by (intro owns_close) simp
  then show ?case using Cons.IH by (simp add: close_backends_def)
qed (simp add: close_backends_def)

lemma owns_distinct: "owns w0 fds w \<Longrightarrow> distinct fds \<and> set fds \<inter> set (os_fds w0) = {}"
proof -
  assume o: "owns w0 fds w"
  then have "mset (os_fds w) = mset (os_fds w0 @ fds)" "distinct (os_fds w)" by (simp_all add: owns_def os_ok_def)
  then have "distinct (os_fds w0 @ fds)" by (metis mset_eq_imp_distinct_iff)
  then show ?thesis by auto
qed

text \<open>The result of opening something: nothing is left open if it failed.\<close>

definition opened :: "os \<Rightarrow> int list \<Rightarrow> ('a \<Rightarrow> int list) \<Rightarrow> (open_error + 'a) \<times> os \<Rightarrow> bool" where
  "opened w0 fds own r = (case r of (Inl e, w) \<Rightarrow> owns w0 fds w | (Inr x, w) \<Rightarrow> owns w0 (own x @ fds) w)"

lemma opened_cases: "opened w0 fds own (Inl e, w) = owns w0 fds w" "opened w0 fds own (Inr x, w) = owns w0 (own x @ fds) w"
  by (simp_all add: opened_def)

lemma discoveryFilter_runs: "runs (discoveryFilter ps snaplen) (\<lambda>_. True)"
  by (simp add: discoveryFilter_tail runs_def)

lemma openLinuxPacketSocket_owns:
  assumes "owns w0 fds w"
  shows "runs (openLinuxPacketSocket answers cfg ifi w) (opened w0 fds (\<lambda>fd. [fd]))"
proof -
  obtain r w1 where o: "open_fd answers w = (r, w1)" by (cases "open_fd answers w")
  show ?thesis
  proof (cases r)
    case (Inl e)
    then show ?thesis using owns_open(2) [OF assms] o by (simp add: openLinuxPacketSocket_def wp opened_cases)
  next
    case (Inr fd)
    then have o1: "owns w0 (fd # fds) w1" using owns_open(1) [OF assms] o by simp
    obtain a w2 where c: "sys_call answers w1 = (a, w2)" by (cases "sys_call answers w1")
    define w3 where "w3 = snd (sys_call answers w2)"
    obtain b w4 where d: "sys_call answers w3 = (b, w4)" by (cases "sys_call answers w3")
    have "owns w0 (fd # fds) w2" "owns w0 (fd # fds) w3" "owns w0 (fd # fds) w4"
      using o1 owns_called [OF c] owns_called [OF d] by (simp_all add: w3_def)
    then show ?thesis
      using owns_close [of w0 fd fds]
      by (simp add: openLinuxPacketSocket_def o Inr c d w3_def [symmetric] discoveryFilter_tail wp opened_cases Let_def)
  qed
qed

lemma setupTPacketV3_owns: "owns w0 fds w \<Longrightarrow> owns w0 fds (snd (setupTPacketV3 answers page fd maxFrame w))"
  by (auto simp: setupTPacketV3_def Let_def owns_called split: prod.splits)

lemma newLinuxRawBackend_owns:
  assumes "owns w0 fds w"
  shows "runs (newLinuxRawBackend answers page cfg ifi w) (opened w0 fds (\<lambda>b. [backend_fd b]))"
  unfolding newLinuxRawBackend_def runs_bind
proof (rule runs_mono [OF openLinuxPacketSocket_owns [OF assms]])
  fix x :: "(open_error + int) \<times> os"
  assume x: "opened w0 fds (\<lambda>fd. [fd]) x"
  obtain r w1 where w1: "x = (r, w1)" by (cases x)
  show "runs (case x of (r, w) \<Rightarrow> case r of
       Inl e \<Rightarrow> Some (Inl e, w)
     | Inr fd \<Rightarrow> do {
         let b = \<lparr>lb_fd = fd, lb_iface = ifi, lb_maxFrame = cfg_MaxFrameSize cfg, lb_ring = None\<rparr>;
         let (ring, w) = setupTPacketV3 answers page fd (cfg_MaxFrameSize cfg) w;
         if ring \<noteq> None then Some (Inr (RawBackend (b\<lparr>lb_ring := ring\<rparr>)), w)
         else do {
           (r, w) \<leftarrow> openLinuxPacketSocket answers cfg ifi (close_fd fd w);
           case r of
             Inl e \<Rightarrow> Some (Inl e, w)
           | Inr fd \<Rightarrow> Some (Inr (RawBackend (b\<lparr>lb_fd := fd\<rparr>)), w)
         }
       }) (opened w0 fds (\<lambda>b. [backend_fd b]))"
  proof (cases r)
    case (Inl e)
    then show ?thesis using x by (simp add: w1 wp opened_cases)
  next
    case (Inr fd)
    obtain ring w2 where s: "setupTPacketV3 answers page fd (cfg_MaxFrameSize cfg) w1 = (ring, w2)"
      by (cases "setupTPacketV3 answers page fd (cfg_MaxFrameSize cfg) w1")
    have o2: "owns w0 (fd # fds) w2"
      using setupTPacketV3_owns [of w0 "fd # fds" w1 answers page fd "cfg_MaxFrameSize cfg"] x by (simp add: w1 Inr s opened_cases)
    show ?thesis
      using o2 x
      by (auto simp: w1 Inr s wp Let_def opened_cases split: sum.splits
          intro!: runs_mono [OF openLinuxPacketSocket_owns [OF owns_close [OF o2]]])
  qed
qed

lemma open_all_owns:
  assumes new: "\<And>ifi w fds. owns w0 fds w \<Longrightarrow> runs (new ifi w) (opened w0 fds (\<lambda>b. [backend_fd b]))"
  shows "owns w0 (map backend_fd out @ fds) w \<Longrightarrow> runs (open_all new ifaces out w) (opened w0 fds (map backend_fd))"
proof (induction ifaces arbitrary: out w)
  case Nil
  then show ?case by (simp add: wp opened_cases)
next
  case (Cons ifi ifaces)
  have step: "owns w0 (backend_fd b # map backend_fd out @ fds) w' \<Longrightarrow> owns w0 (map backend_fd (out @ [b]) @ fds) w'" for b w'
    by (erule owns_perm) simp
  show ?case
    unfolding open_all.simps runs_bind
    by (rule runs_mono [OF new [OF Cons.prems]])
      (auto simp: wp opened_cases split: sum.splits intro: owns_close_backends intro!: Cons.IH step)
qed

lemma open_device_owns:
  "owns w0 fds w \<Longrightarrow> opened w0 fds (\<lambda>fd. [fd]) (open_device answers n w)"
proof (induction n arbitrary: w)
  case 0
  then show ?case by (simp add: opened_cases)
next
  case (Suc n)
  obtain r w1 where o: "open_fd answers w = (r, w1)" by (cases "open_fd answers w")
  then show ?case
    using owns_open [OF Suc.prems, of answers] Suc.IH by (auto simp: opened_cases split: sum.splits answer.splits)
qed

lemma configure_owns:
  "owns w0 (fd # fds) w \<Longrightarrow> opened w0 fds (\<lambda>fd. [fd]) (configure answers fd es w)"
proof (induction es arbitrary: w)
  case (Cons e es)
  obtain a w1 where c: "sys_call answers w = (a, w1)" by (cases "sys_call answers w")
  then have "owns w0 (fd # fds) w1" using Cons.prems owns_called [OF c] by simp
  then show ?case using Cons.IH by (simp add: c opened_cases owns_close)
qed (simp add: opened_cases)

lemma configure_fd: "configure answers fd es w = (Inr fd', w') \<Longrightarrow> fd' = fd"
  by (induction es arbitrary: w) (auto split: prod.splits if_splits)

lemma newDarwinBPFBackend_owns:
  assumes "owns w0 fds w"
  shows "runs (newDarwinBPFBackend answers cfg ifi w) (opened w0 fds (\<lambda>b. [backend_fd b]))"
proof -
  obtain r w1 where o: "open_device answers 256 w = (r, w1)" by (cases "open_device answers 256 w")
  note O = open_device_owns [OF assms, of answers 256, unfolded o]
  show ?thesis
  proof (cases r)
    case (Inl e)
    then show ?thesis using O by (simp add: newDarwinBPFBackend_def o wp opened_cases)
  next
    case (Inr fd)
    let ?es = "[BPFBindError (ni_Name ifi), BPFImmediateError (ni_Name ifi), BPFSeeSentError (ni_Name ifi), BPFBufferError (ni_Name ifi)]"
    obtain r2 w2 where c: "configure answers fd ?es w1 = (r2, w2)" by (cases "configure answers fd ?es w1")
    have o2: "opened w0 fds (\<lambda>fd. [fd]) (r2, w2)"
      using configure_owns [of w0 fd fds w1 answers ?es] O unfolding c Inr opened_cases by simp
    show ?thesis
    proof (cases r2)
      case (Inl e)
      then show ?thesis using o2 by (simp add: newDarwinBPFBackend_def o Inr c wp opened_cases Let_def del: configure.simps)
    next
      case r2: (Inr fd2)
      define es where "es = (if tail_code (cfg_Protocols cfg) (cfg_MaxFrameSize cfg) 0 \<noteq> [] then [FilterError []] else [])"
      obtain r3 w3 where d: "configure answers fd2 es w2 = (r3, w3)" by fastforce
      have "opened w0 fds (\<lambda>fd. [fd]) (r3, w3)"
        using configure_owns [of w0 fd2 fds w2 answers es] o2 by (simp add: r2 opened_cases d)
      then show ?thesis
        by (simp add: newDarwinBPFBackend_def o Inr c r2 discoveryFilter_tail wp opened_def Let_def es_def [symmetric] d
            del: configure.simps split: sum.splits)
    qed
  qed
qed

lemma listen_udp_owns:
  assumes "owns w0 fds w" "listen_udp answers cfg proto name index prefixes w = (bs, w')"
  shows "owns w0 (map backend_fd bs @ fds) w'"
proof -
  obtain r w1 where o: "open_fd answers w = (r, w1)" by (cases "open_fd answers w")
  then show ?thesis
    using owns_open [OF assms(1), of answers] assms(2) by (cases r) (auto simp: listen_udp_def Let_def)
qed

lemma listen_mdns_owns:
  "owns w0 fds w \<Longrightarrow> listen_mdns answers cfg ifaces w = (bs, w') \<Longrightarrow> owns w0 (map backend_fd bs @ fds) w'"
proof (induction ifaces arbitrary: fds w bs w')
  case (Cons ifi ifaces)
  obtain b4 w1 where a: "listen_udp answers cfg ProtocolMDNS (ni_Name ifi) (ni_Index ifi) [] w = (b4, w1)" by fastforce
  obtain b6 w2 where b: "listen_udp answers cfg ProtocolMDNS (ni_Name ifi) (ni_Index ifi) [] w1 = (b6, w2)" by fastforce
  obtain bs' w3 where c: "listen_mdns answers cfg ifaces w2 = (bs', w3)" by fastforce
  have "owns w0 (map backend_fd bs' @ map backend_fd b6 @ map backend_fd b4 @ fds) w3"
    using Cons.IH [OF listen_udp_owns [OF listen_udp_owns [OF Cons.prems(1) a] b] c] .
  then show ?case using Cons.prems(2) by (auto simp: a b c elim: owns_perm)
qed simp

lemma listen_mndp6_owns:
  "owns w0 fds w \<Longrightarrow> listen_mndp6 answers cfg ifaces w = (bs, w') \<Longrightarrow> owns w0 (map backend_fd bs @ fds) w'"
proof (induction ifaces arbitrary: fds w bs w')
  case (Cons ifi ifaces)
  obtain b w1 where a: "listen_udp answers cfg ProtocolMNDP (ni_Name ifi) (ni_Index ifi) [] w = (b, w1)" by fastforce
  obtain bs' w3 where c: "listen_mndp6 answers cfg ifaces w1 = (bs', w3)" by fastforce
  have "owns w0 (map backend_fd bs' @ map backend_fd b @ fds) w3"
    using Cons.IH [OF listen_udp_owns [OF Cons.prems(1) a] c] .
  then show ?case using Cons.prems(2) by (auto simp: a c elim: owns_perm)
qed simp

lemma openUDPBackends_owns:
  assumes "owns w0 fds w"
  shows "opened w0 fds (map backend_fd) (openUDPBackends answers addrs cfg ifaces w)"
proof -
  let ?P = "captureInterfacePrefixes addrs ifaces"
  obtain b1 w1 where 1: "(if Has (cfg_Protocols cfg) ProtocolMDNS then listen_mdns answers cfg ifaces w else ([], w)) = (b1, w1)" by fastforce
  obtain b2 w2 where 2: "(if Has (cfg_Protocols cfg) ProtocolMNDP then listen_udp answers cfg ProtocolMNDP [] 0 ?P w1 else ([], w1)) = (b2, w2)" by fastforce
  obtain b3 w3 where 3: "(if Has (cfg_Protocols cfg) ProtocolMNDP then listen_mndp6 answers cfg ifaces w2 else ([], w2)) = (b3, w3)" by fastforce
  have o1: "owns w0 (map backend_fd b1 @ fds) w1" using assms 1 listen_mdns_owns by (auto split: if_splits)
  have o2: "owns w0 (map backend_fd b2 @ map backend_fd b1 @ fds) w2" using o1 2 listen_udp_owns by (auto split: if_splits)
  have "owns w0 (map backend_fd b3 @ map backend_fd b2 @ map backend_fd b1 @ fds) w3"
    using o2 3 listen_mndp6_owns by (auto split: if_splits)
  then have o3: "owns w0 (map backend_fd (b1 @ b2 @ b3) @ fds) w3" by (rule owns_perm) simp
  then show ?thesis
    unfolding openUDPBackends_def Let_def 1 2 3 prod.case
    by (auto simp: opened_cases intro!: owns_close_backends)
qed

lemma captureInterfaces_nonempty: "captureInterfaces by_name interfaces cfg = Inr ifaces \<Longrightarrow> ifaces \<noteq> []"
proof (cases "cfg_Interfaces cfg")
  case (Cons name names)
  then show "captureInterfaces by_name interfaces cfg = Inr ifaces \<Longrightarrow> ifaces \<noteq> []"
    by (auto simp: captureInterfaces_def split: option.splits sum.splits)
qed (auto simp: captureInterfaces_def Let_def split: option.splits if_splits)

lemma openCaptureBackends_owns:
  assumes "os_ok w"
  shows "runs (openCaptureBackends goos answers page by_name interfaces addrs cfg w) (opened w [] (map backend_fd))"
proof -
  note R = owns_refl [OF assms]
  have o: "owns w (map backend_fd [] @ []) w" using R by simp
  note U = openUDPBackends_owns [OF R]
  have linux: "runs (open_linux answers page addrs ifaces cfg w) (opened w [] (map backend_fd))" for ifaces
    using R U by (auto simp: open_linux_def wp opened_cases split: sum.split intro: open_all_owns [OF newLinuxRawBackend_owns o])
  have other: "runs (open_other goos answers addrs ifaces cfg w) (opened w [] (map backend_fd))" for ifaces
    using R U by (auto simp: open_other_def wp opened_cases Let_def split: sum.split)
  have darwin: "runs (open_darwin answers addrs ifaces cfg w) (opened w [] (map backend_fd))" for ifaces
  proof (cases ifaces)
    case (Inr ifs)
    show ?thesis
    proof (cases "cfg_Protocols cfg AND (ProtocolsLLDP OR ProtocolsCDP) = 0")
      case False
      have udp: "opened w [] (map backend_fd) (case openUDPBackends answers addrs c ifs w' of
            (Inl e, w) \<Rightarrow> (Inl e, close_backends out w) | (Inr udp, w) \<Rightarrow> (Inr (out @ udp), w))"
        if "owns w (map backend_fd out @ []) w'" for c out w'
      proof -
        obtain r w2 where u: "openUDPBackends answers addrs c ifs w' = (r, w2)" by fastforce
        have "opened w (map backend_fd out @ []) (map backend_fd) (r, w2)" using openUDPBackends_owns [OF that] u by metis
        then show ?thesis
          unfolding u by (cases r) (auto simp: opened_cases intro: owns_close_backends elim: owns_perm)
      qed
      have step: "runs (case x of (r, w) \<Rightarrow> case r of
            Inl e \<Rightarrow> Some (Inl e, w)
          | Inr out \<Rightarrow>
              if cfg_Protocols cfg AND (ProtocolsMNDP OR ProtocolsMDNS) \<noteq> 0 then
                (let udpCfg = cfg\<lparr>cfg_Protocols := cfg_Protocols cfg AND (ProtocolsMNDP OR ProtocolsMDNS)\<rparr>;
                     (r, w) = openUDPBackends answers addrs udpCfg ifs w
                 in (case r of Inl e \<Rightarrow> Some (Inl e, close_backends out w) | Inr udp \<Rightarrow> Some (Inr (out @ udp), w)))
              else Some (Inr out, w)) (opened w [] (map backend_fd))"
        if "opened w [] (map backend_fd) x" for x
      proof -
        obtain r w1 where x: "x = (r, w1)" by fastforce
        show ?thesis
        proof (cases r)
          case (Inr out)
          let ?c = "cfg\<lparr>cfg_Protocols := cfg_Protocols cfg AND (ProtocolsMNDP OR ProtocolsMDNS)\<rparr>"
          obtain r2 w2 where u: "openUDPBackends answers addrs ?c ifs w1 = (r2, w2)" by fastforce
          have "owns w (map backend_fd out @ []) w1" using that by (simp add: x Inr opened_cases)
          from udp [OF this, of ?c] this show ?thesis
            by (cases r2) (simp_all add: x Inr u wp Let_def opened_cases)
        qed (use that in \<open>simp add: x wp opened_cases\<close>)
      qed
      show ?thesis
        unfolding open_darwin_def Inr sum.case if_not_P [OF False] Let_def runs_bind
        by (rule runs_mono [OF open_all_owns [OF newDarwinBPFBackend_owns o]]) (erule step [unfolded Let_def] | assumption)+
    qed (use U Inr in \<open>simp add: open_darwin_def wp\<close>)
  qed (use R in \<open>simp add: open_darwin_def wp opened_cases\<close>)
  show ?thesis using linux darwin other by (cases "goos = ''windows''") (simp_all add: openCaptureBackends_def Let_def)
qed

text \<open>
  (C14) Opening the capture backends leaks no descriptor: whatever the system calls answer, on every system
  \<open>openCaptureBackends\<close> returns; if it fails, the open descriptors are those from before, and if it succeeds,
  they are those from before and one for each backend, all different, and closing the backends, as the run
  does at its end, leaves those from before.
\<close>

theorem open_leaks_no_descriptor:
  assumes "os_ok w"
  shows "\<exists>r w'. openCaptureBackends goos answers page by_name interfaces addrs cfg w = Some (r, w') \<and>
    (case r of
       Inl e \<Rightarrow> mset (os_fds w') = mset (os_fds w)
     | Inr bs \<Rightarrow> mset (os_fds w') = mset (os_fds w) + mset (map backend_fd bs) \<and>
         distinct (map backend_fd bs) \<and> set (map backend_fd bs) \<inter> set (os_fds w) = {} \<and>
         mset (os_fds (close_backends bs w')) = mset (os_fds w))"
proof -
  obtain r w' where o: "openCaptureBackends goos answers page by_name interfaces addrs cfg w = Some (r, w')"
    and p: "opened w [] (map backend_fd) (r, w')"
    using runs_exD [OF openCaptureBackends_owns [OF assms]] by (metis surj_pair)
  show ?thesis
  proof (cases r)
    case (Inl e)
    then show ?thesis using o p by (simp add: opened_cases owns_def)
  next
    case (Inr bs)
    then have "owns w (map backend_fd bs @ []) w'" using p by (simp add: opened_cases)
    then show ?thesis
      using o Inr owns_close_backends [of w bs "[]" w'] owns_distinct [of w "map backend_fd bs" w'] by (simp add: owns_def)
  qed
qed

section \<open>Every protocol is served\<close>

fun serves :: "captureBackend \<Rightarrow> Protocol \<Rightarrow> bool" where
  "serves (RawBackend b) p = True"
| "serves (BPFBackend b) p = (p = ProtocolLLDP \<or> p = ProtocolCDP)"
| "serves (UDPBackend b) p = (ub_protocol b = p)"

lemma listen_udp_protocol: "listen_udp answers cfg proto name index prefixes w = (bs, w') \<Longrightarrow> b \<in> set bs \<Longrightarrow> serves b proto"
  by (auto simp: listen_udp_def Let_def split: prod.splits sum.splits)

lemma listen_mdns_protocol: "listen_mdns answers cfg ifaces w = (bs, w') \<Longrightarrow> b \<in> set bs \<Longrightarrow> serves b ProtocolMDNS"
  by (induction ifaces arbitrary: w bs) (auto simp: Let_def dest: listen_udp_protocol split: prod.splits)

lemma listen_mndp6_protocol: "listen_mndp6 answers cfg ifaces w = (bs, w') \<Longrightarrow> b \<in> set bs \<Longrightarrow> serves b ProtocolMNDP"
  by (induction ifaces arbitrary: w bs) (auto simp: Let_def dest: listen_udp_protocol split: prod.splits)

lemma openUDPBackends_serves:
  assumes "openUDPBackends answers addrs cfg ifaces w = (Inr bs, w')" "p = ProtocolMDNS \<or> p = ProtocolMNDP" "Has (cfg_Protocols cfg) p"
  shows "\<exists>b \<in> set bs. serves b p"
proof -
  let ?P = "captureInterfacePrefixes addrs ifaces"
  obtain b1 w1 where 1: "(if Has (cfg_Protocols cfg) ProtocolMDNS then listen_mdns answers cfg ifaces w else ([], w)) = (b1, w1)" by fastforce
  obtain b2 w2 where 2: "(if Has (cfg_Protocols cfg) ProtocolMNDP then listen_udp answers cfg ProtocolMNDP [] 0 ?P w1 else ([], w1)) = (b2, w2)" by fastforce
  obtain b3 w3 where 3: "(if Has (cfg_Protocols cfg) ProtocolMNDP then listen_mndp6 answers cfg ifaces w2 else ([], w2)) = (b3, w3)" by fastforce
  have bs: "bs = b1 @ b2 @ b3" and some: "Has (cfg_Protocols cfg) ProtocolMDNS \<longrightarrow> b1 \<noteq> []" "Has (cfg_Protocols cfg) ProtocolMNDP \<longrightarrow> b2 @ b3 \<noteq> []"
    using assms(1) unfolding openUDPBackends_def Let_def 1 2 3 prod.case by (auto split: if_splits)
  have serve: "\<forall>b \<in> set b1. serves b ProtocolMDNS" "\<forall>b \<in> set (b2 @ b3). serves b ProtocolMNDP"
    using 1 2 3 by (auto split: if_splits dest: listen_mdns_protocol listen_udp_protocol listen_mndp6_protocol)
  from assms(2) show ?thesis
  proof
    assume "p = ProtocolMDNS"
    then show ?thesis using some(1) serve(1) assms(3) unfolding bs by (cases b1) auto
  next
    assume "p = ProtocolMNDP"
    then have "b2 @ b3 \<noteq> []" using some(2) assms(3) by blast
    then obtain b where "b \<in> set (b2 @ b3)" by (meson hd_in_set)
    then show ?thesis using serve(2) \<open>p = ProtocolMNDP\<close> unfolding bs by auto
  qed
qed

text \<open>A computation whose first step has an error or a value as its result, and the state after it.\<close>

lemma bind_result:
  "(m \<bind> (\<lambda>(r, w). case r of Inl e \<Rightarrow> f e w | Inr x \<Rightarrow> g x w)) = Some z \<longleftrightarrow>
     (\<exists>e w. m = Some (Inl e, w) \<and> f e w = Some z) \<or> (\<exists>x w. m = Some (Inr x, w) \<and> g x w = Some z)"
proof (cases m)
  case (Some y)
  then show ?thesis by (cases y; cases "fst y") auto
qed simp

lemma open_all_new:
  "open_all new ifaces out w = Some (Inr bs, w') \<Longrightarrow>
   \<exists>ns. bs = out @ ns \<and> list_all2 (\<lambda>ifi b. \<exists>v v'. new ifi v = Some (Inr b, v')) ifaces ns"
proof (induction ifaces arbitrary: out w)
  case (Cons ifi ifaces)
  then obtain b w1 where b: "new ifi w = Some (Inr b, w1)" "open_all new ifaces (out @ [b]) w1 = Some (Inr bs, w')"
    by (auto simp: bind_result)
  from Cons.IH [OF b(2)] obtain ns where "bs = out @ b # ns" "list_all2 (\<lambda>ifi b. \<exists>v v'. new ifi v = Some (Inr b, v')) ifaces ns"
    by auto
  then show ?case using b(1) by (intro exI [of _ "b # ns"]) auto
qed simp

lemma newLinuxRawBackend_kind:
  assumes "newLinuxRawBackend answers page cfg ifi w = Some (Inr b, w')"
  shows "\<exists>lb. b = RawBackend lb \<and> lb_iface lb = ifi"
proof (cases "openLinuxPacketSocket answers cfg ifi w")
  case None
  then show ?thesis using assms by (simp add: newLinuxRawBackend_def)
next
  case (Some x)
  obtain r w1 where x: "x = (r, w1)" by fastforce
  show ?thesis
  proof (cases r)
    case (Inl e)
    then show ?thesis using assms by (simp add: newLinuxRawBackend_def Some x)
  next
    case (Inr fd)
    obtain ring w2 where s: "setupTPacketV3 answers page fd (cfg_MaxFrameSize cfg) w1 = (ring, w2)" by fastforce
    show ?thesis
      using assms
      by (cases ring) (auto simp: newLinuxRawBackend_def Some x Inr s Let_def bind_result)
  qed
qed

lemma newDarwinBPFBackend_kind: "newDarwinBPFBackend answers cfg ifi w = Some (Inr b, w') \<Longrightarrow> \<exists>db. b = BPFBackend db \<and> db_iface db = ifi"
  by (auto simp: newDarwinBPFBackend_def discoveryFilter_tail Let_def split: sum.split_asm prod.split_asm)

lemma protocol_masks:
  "Has ps ProtocolLLDP \<Longrightarrow> ps AND (ProtocolsLLDP OR ProtocolsCDP) \<noteq> 0"
  "Has ps ProtocolCDP \<Longrightarrow> ps AND (ProtocolsLLDP OR ProtocolsCDP) \<noteq> 0"
  "Has (ps AND (ProtocolsMNDP OR ProtocolsMDNS)) ProtocolMDNS = Has ps ProtocolMDNS"
  "Has (ps AND (ProtocolsMNDP OR ProtocolsMDNS)) ProtocolMNDP = Has ps ProtocolMNDP"
proof -
  have b: "ProtocolsLLDP = 1" "ProtocolsCDP = 2" "ProtocolsMNDP = 4" "ProtocolsMDNS = 8"
    "Set ProtocolLLDP = 1" "Set ProtocolCDP = 2" "Set ProtocolMNDP = 4" "Set ProtocolMDNS = 8"
    by (simp_all add: protocol_set_defs Set_def protocol_defs)
  have "(ps AND 3 = 0) = (ps AND 1 = 0 \<and> ps AND 2 = 0)"
  proof -
    have "ps AND 3 = (ps AND 1) OR (ps AND 2)" by (simp add: bit.conj_disj_distrib [symmetric])
    then show ?thesis by (simp add: or_eq_0_iff)
  qed
  then show "Has ps ProtocolLLDP \<Longrightarrow> ps AND (ProtocolsLLDP OR ProtocolsCDP) \<noteq> 0"
    "Has ps ProtocolCDP \<Longrightarrow> ps AND (ProtocolsLLDP OR ProtocolsCDP) \<noteq> 0"
    by (auto simp: Has_def b)
  show "Has (ps AND (ProtocolsMNDP OR ProtocolsMDNS)) ProtocolMDNS = Has ps ProtocolMDNS"
    "Has (ps AND (ProtocolsMNDP OR ProtocolsMDNS)) ProtocolMNDP = Has ps ProtocolMNDP"
    by (simp_all add: Has_def b and.assoc)
qed

lemma open_all_one:
  assumes "open_all new ifaces out w = Some (Inr bs, w')" "ifaces \<noteq> []"
  obtains b ifi v v' where "b \<in> set bs" "new ifi v = Some (Inr b, v')"
proof -
  obtain ns where ns: "bs = out @ ns" "list_all2 (\<lambda>ifi b. \<exists>v v'. new ifi v = Some (Inr b, v')) ifaces ns"
    using open_all_new [OF assms(1)] by blast
  obtain ifi ifaces' where "ifaces = ifi # ifaces'" using assms(2) by (cases ifaces) auto
  then obtain b bs' v v' where "ns = b # bs'" "new ifi v = Some (Inr b, v')" using ns(2) by (auto simp: list_all2_Cons1)
  then show thesis using ns(1) that [of b ifi v v'] by simp
qed

lemma open_darwin_parts:
  assumes "open_darwin answers addrs (Inr ifs) cfg w = Some (Inr bs, w')" "cfg_Protocols cfg AND (ProtocolsLLDP OR ProtocolsCDP) \<noteq> 0"
  obtains out w1 where
    "open_all (newDarwinBPFBackend answers (cfg\<lparr>cfg_Protocols := cfg_Protocols cfg AND (ProtocolsLLDP OR ProtocolsCDP)\<rparr>)) ifs [] w = Some (Inr out, w1)"
    "if cfg_Protocols cfg AND (ProtocolsMNDP OR ProtocolsMDNS) \<noteq> 0
     then \<exists>udp w2. openUDPBackends answers addrs (cfg\<lparr>cfg_Protocols := cfg_Protocols cfg AND (ProtocolsMNDP OR ProtocolsMDNS)\<rparr>) ifs w1 =
       (Inr udp, w2) \<and> bs = out @ udp
     else bs = out"
proof -
  let ?udp = "cfg\<lparr>cfg_Protocols := cfg_Protocols cfg AND (ProtocolsMNDP OR ProtocolsMDNS)\<rparr>"
  let ?all = "open_all (newDarwinBPFBackend answers (cfg\<lparr>cfg_Protocols := cfg_Protocols cfg AND (ProtocolsLLDP OR ProtocolsCDP)\<rparr>)) ifs [] w"
  obtain x where all: "?all = Some x" using assms by (cases ?all) (simp_all add: open_darwin_def Let_def)
  obtain r w1 where x: "x = (r, w1)" by fastforce
  obtain r2 w2 where u: "openUDPBackends answers addrs ?udp ifs w1 = (r2, w2)" by fastforce
  obtain out where r: "r = Inr out" using assms by (cases r) (simp_all add: open_darwin_def Let_def all x)
  show thesis
  proof (rule that)
    show "?all = Some (Inr out, w1)" by (simp add: all x r)
    show "if cfg_Protocols cfg AND (ProtocolsMNDP OR ProtocolsMDNS) \<noteq> 0
      then \<exists>udp w2. openUDPBackends answers addrs ?udp ifs w1 = (Inr udp, w2) \<and> bs = out @ udp else bs = out"
      using assms by (cases r2) (auto simp: open_darwin_def Let_def all x r u split: if_splits)
  qed
qed

text \<open>
  (C15) A run that starts hears every protocol: if \<open>openCaptureBackends\<close> succeeds, then on every system each
  selected protocol has a backend that captures it, a packet socket or BPF device for LLDP and CDP and, but
  for the packet sockets, which see all frames, a UDP socket for MNDP and mDNS; what cannot be had is an error.
\<close>

theorem every_protocol_served:
  assumes "openCaptureBackends goos answers page by_name interfaces addrs cfg w = Some (Inr bs, w')"
    "p \<in> {ProtocolLLDP, ProtocolCDP, ProtocolMNDP, ProtocolMDNS}" "Has (cfg_Protocols cfg) p"
  shows "\<exists>b \<in> set bs. serves b p"
proof -
  let ?l2 = "cfg_Protocols cfg AND (ProtocolsLLDP OR ProtocolsCDP)"
  obtain ifs where ifs: "captureInterfaces by_name interfaces cfg = Inr ifs"
    using assms(1) by (cases "captureInterfaces by_name interfaces cfg")
      (auto simp: openCaptureBackends_def open_linux_def open_darwin_def open_other_def Let_def split: if_splits)
  note ne = captureInterfaces_nonempty [OF ifs]
  have udp: "p = ProtocolMDNS \<or> p = ProtocolMNDP" if "?l2 = 0" using that assms(2,3) protocol_masks(1,2) by blast
  consider "openUDPBackends answers addrs cfg ifs w = (Inr bs, w')" "?l2 = 0"
    | "open_all (newLinuxRawBackend answers page cfg) ifs [] w = Some (Inr bs, w')"
    | "open_darwin answers addrs (Inr ifs) cfg w = Some (Inr bs, w')" "?l2 \<noteq> 0"
    using assms(1) by (auto simp: openCaptureBackends_def open_linux_def open_other_def ifs Let_def open_darwin_def split: if_splits)
  then show ?thesis
  proof cases
    case 1
    then show ?thesis using openUDPBackends_serves [OF 1(1) _ assms(3)] udp by blast
  next
    case 2
    obtain b ifi v v' where b: "b \<in> set bs" "newLinuxRawBackend answers page cfg ifi v = Some (Inr b, v')"
      by (rule open_all_one [OF 2 ne])
    from newLinuxRawBackend_kind [OF b(2)] have "serves b p" by auto
    then show ?thesis using b(1) by blast
  next
    case 3
    let ?udp = "cfg\<lparr>cfg_Protocols := cfg_Protocols cfg AND (ProtocolsMNDP OR ProtocolsMDNS)\<rparr>"
    let ?l2cfg = "cfg\<lparr>cfg_Protocols := ?l2\<rparr>"
    from 3 obtain out w1 where out: "open_all (newDarwinBPFBackend answers ?l2cfg) ifs [] w = Some (Inr out, w1)"
      and rest: "if cfg_Protocols cfg AND (ProtocolsMNDP OR ProtocolsMDNS) \<noteq> 0
        then \<exists>udp w2. openUDPBackends answers addrs ?udp ifs w1 = (Inr udp, w2) \<and> bs = out @ udp else bs = out"
      by (rule open_darwin_parts)
    show ?thesis
    proof (cases "p = ProtocolMDNS \<or> p = ProtocolMNDP")
      case True
      then have "cfg_Protocols cfg AND (ProtocolsMNDP OR ProtocolsMDNS) \<noteq> 0" "Has (cfg_Protocols ?udp) p"
        using assms(3) udp_selected [of "cfg_Protocols cfg"] protocol_masks(3,4) by auto
      then obtain udp w2 where "openUDPBackends answers addrs ?udp ifs w1 = (Inr udp, w2)" "bs = out @ udp" using rest by auto
      then show ?thesis using openUDPBackends_serves [of answers addrs ?udp ifs w1 udp w2 p] True \<open>Has (cfg_Protocols ?udp) p\<close> by auto
    next
      case False
      have "set out \<subseteq> set bs" using rest by (auto split: if_splits)
      moreover obtain b ifi v v' where b: "b \<in> set out" "newDarwinBPFBackend answers ?l2cfg ifi v = Some (Inr b, v')"
        by (rule open_all_one [OF out ne])
      moreover have "p = ProtocolLLDP \<or> p = ProtocolCDP" using False assms(2) by blast
      then have "serves b p" using newDarwinBPFBackend_kind [OF b(2)] by auto
      ultimately show ?thesis by blast
    qed
  qed
qed

section \<open>A mapping that stays\<close>

text \<open>The descriptors of the backends that have a ring.\<close>

fun backend_ring :: "captureBackend \<Rightarrow> int list" where
  "backend_ring (RawBackend b) = (if lb_ring b = None then [] else [lb_fd b])"
| "backend_ring _ = []"

definition ring_fds :: "captureBackend list \<Rightarrow> int list" where
  "ring_fds bs = concat (map backend_ring bs)"

lemma ring_fds_backend: "set (ring_fds bs) \<subseteq> set (map backend_fd bs)"
proof -
  have "set (backend_ring b) \<subseteq> {backend_fd b}" for b by (cases b) auto
  then show ?thesis by (fastforce simp: ring_fds_def)
qed

text \<open>The system calls and the closing of descriptors map and unmap nothing.\<close>

lemma os_maps_kept [simp]:
  "os_maps (snd (sys_call answers w)) = os_maps w" "os_maps (close_fd fd w) = os_maps w"
  by (simp_all add: sys_call_def close_fd_def)

lemma sys_call_maps: "sys_call answers w = (a, w1) \<Longrightarrow> os_maps w1 = os_maps w"
  using os_maps_kept(1) [of answers w] by simp

lemma open_fd_maps: "open_fd answers w = (r, w1) \<Longrightarrow> os_maps w1 = os_maps w"
  by (auto simp: open_fd_def sys_call_def split: answer.splits)

lemma close_backends_maps [simp]: "os_maps (close_backends bs w) = os_maps w"
  by (induction bs arbitrary: w) (simp_all add: close_backends_def)

lemma openLinuxPacketSocket_maps:
  "openLinuxPacketSocket answers cfg ifi w = Some (r, w1) \<Longrightarrow> os_maps w1 = os_maps w"
  by (auto simp: openLinuxPacketSocket_def discoveryFilter_tail Let_def dest!: sys_call_maps open_fd_maps
    split: prod.splits sum.splits if_splits)

lemma setupTPacketV3_maps:
  "setupTPacketV3 answers page fd maxFrame w = (ring, w1) \<Longrightarrow>
   os_maps w1 = (if ring = None then os_maps w else fd # os_maps w)"
  by (auto simp: setupTPacketV3_def Let_def dest!: sys_call_maps split: prod.splits if_splits)

lemma newLinuxRawBackend_maps:
  assumes "newLinuxRawBackend answers page cfg ifi w = Some (r, w1)"
  shows "os_maps w1 = (case r of Inl e \<Rightarrow> os_maps w | Inr b \<Rightarrow> backend_ring b @ os_maps w)"
  using assms
  by (auto simp: newLinuxRawBackend_def Let_def dest!: openLinuxPacketSocket_maps setupTPacketV3_maps
    split: prod.splits sum.splits if_splits Option.bind_splits)

lemma open_all_maps:
  "open_all (newLinuxRawBackend answers page cfg) ifs out w = Some (Inr bs, w1) \<Longrightarrow>
   \<exists>ns. bs = out @ ns \<and> os_maps w1 = rev (ring_fds ns) @ os_maps w"
proof (induction ifs arbitrary: out w)
  case (Cons ifi ifs)
  then obtain b w2 where b: "newLinuxRawBackend answers page cfg ifi w = Some (Inr b, w2)"
    and r: "open_all (newLinuxRawBackend answers page cfg) ifs (out @ [b]) w2 = Some (Inr bs, w1)"
    by (auto split: Option.bind_splits prod.splits sum.splits)
  obtain ns where "bs = (out @ [b]) @ ns" "os_maps w1 = rev (ring_fds ns) @ os_maps w2" using Cons.IH [OF r] by blast
  moreover have "backend_ring b = rev (backend_ring b)" by (cases b) simp_all
  ultimately show ?case
    using newLinuxRawBackend_maps [OF b] by (intro exI [of _ "b # ns"]) (simp add: ring_fds_def)
qed (simp add: ring_fds_def)

text \<open>The loop over the interfaces fails at the first one that does.\<close>

lemma open_all_fails:
  "open_all new ifs out w = Some (Inl e, w') \<Longrightarrow>
   \<exists>n bs w1 w2. n < length ifs \<and> open_all new (take n ifs) out w = Some (Inr bs, w1) \<and>
     new (ifs ! n) w1 = Some (Inl e, w2) \<and> w' = close_backends bs w2"
proof (induction ifs arbitrary: out w)
  case (Cons ifi ifs)
  then obtain r w2 where r: "new ifi w = Some (r, w2)" by (auto split: Option.bind_splits)
  show ?case
  proof (cases r)
    case (Inl e')
    then show ?thesis using Cons.prems r by (intro exI [of _ 0]) simp
  next
    case (Inr b)
    then have "open_all new ifs (out @ [b]) w2 = Some (Inl e, w')" using Cons.prems r by simp
    from Cons.IH [OF this] obtain n bs w1 w3 where "n < length ifs" "open_all new (take n ifs) (out @ [b]) w2 = Some (Inr bs, w1)"
      "new (ifs ! n) w1 = Some (Inl e, w3)" "w' = close_backends bs w3" by blast
    then show ?thesis using r Inr by (intro exI [of _ "Suc n"] exI [of _ bs] exI [of _ w1] exI [of _ w3]) simp
  qed
qed simp

text \<open>
  (C16) When the packet socket of an interface cannot be opened, the rings of the interfaces before it stay
  mapped: \<open>close\<close> of a backend closes its descriptor, and only \<open>run\<close>, which is never called then, unmaps the
  ring. For every sequence of answers of the system calls and every interface that fails, with whatever
  error: the interfaces before it have been opened, the descriptors are those from before the call, and the
  mappings have grown by the ring of each backend opened before, whose descriptor is closed.
\<close>

theorem failed_open_keeps_ring:
  assumes "captureInterfaces by_name interfaces cfg = Inr ifs" "cfg_Protocols cfg AND (ProtocolsLLDP OR ProtocolsCDP) \<noteq> 0"
    "os_ok w" "openCaptureBackends ''linux'' answers page by_name interfaces addrs cfg w = Some (Inl e, w')"
  shows "\<exists>n bs w1 w2. n < length ifs \<and>
    open_all (newLinuxRawBackend answers page cfg) (take n ifs) [] w = Some (Inr bs, w1) \<and> length bs = n \<and>
    newLinuxRawBackend answers page cfg (ifs ! n) w1 = Some (Inl e, w2) \<and>
    mset (os_fds w') = mset (os_fds w) \<and> os_maps w' = rev (ring_fds bs) @ os_maps w \<and>
    set (ring_fds bs) \<inter> set (os_fds w') = {}"
proof -
  let ?new = "newLinuxRawBackend answers page cfg"
  have "open_all ?new ifs [] w = Some (Inl e, w')"
    using assms(1,2,4) by (simp add: openCaptureBackends_def open_linux_def)
  from open_all_fails [OF this] obtain n bs w1 w2 where n: "n < length ifs" "open_all ?new (take n ifs) [] w = Some (Inr bs, w1)"
    "?new (ifs ! n) w1 = Some (Inl e, w2)" "w' = close_backends bs w2" by blast
  have len: "length bs = n" using open_all_new [OF n(2)] n(1) by (auto dest!: list_all2_lengthD)
  have o1: "owns w (map backend_fd bs) w1"
    using runs_SomeD [OF open_all_owns [of w ?new "[]" "[]" w "take n ifs", OF newLinuxRawBackend_owns] n(2)] assms(3)
    by (simp add: owns_refl opened_cases)
  then have "owns w (map backend_fd bs) w2"
    using n(3) newLinuxRawBackend_owns [OF o1, of answers page cfg "ifs ! n"] by (simp add: runs_def opened_cases)
  then have o2: "owns w [] w'" using owns_close_backends [of w bs "[]" w2] n(4) by simp
  then have fds: "mset (os_fds w') = mset (os_fds w)" by (simp add: owns_def)
  have "set (ring_fds bs) \<inter> set (os_fds w') = {}"
    using owns_distinct [OF o1] ring_fds_backend [of bs] mset_eq_setD [OF fds] by auto
  moreover have "os_maps w' = rev (ring_fds bs) @ os_maps w"
    using open_all_maps [OF n(2)] newLinuxRawBackend_maps [OF n(3)] n(4) by simp
  ultimately show ?thesis using n len fds by blast
qed

definition sample_interface :: "string \<Rightarrow> int \<Rightarrow> netInterface" where
  "sample_interface name index = \<lparr>ni_Name = name, ni_Index = index, ni_Flags = 0x13\<rparr>"

definition fresh_os :: os where
  "fresh_os = \<lparr>os_calls = 0, os_next = 3, os_fds = [2, 1, 0], os_maps = []\<rparr>"

lemma fresh_os_ok: "os_ok fresh_os"
  by (simp add: os_ok_def fresh_os_def)

lemma sample_captureInterfaces:
  "captureInterfaces by_name (Some [sample_interface ''lo'' 1\<lparr>ni_Flags := 5\<rparr>, sample_interface ''eth0'' 2, sample_interface ''eth1'' 3])
     (zero_config\<lparr>cfg_Protocols := ProtocolsLLDP\<rparr>) = Inr [sample_interface ''eth0'' 2, sample_interface ''eth1'' 3]"
  by (simp add: captureInterfaces_def zero_config_def eligible_def sample_interface_def FlagUp_def FlagMulticast_def FlagLoopback_def Let_def)

text \<open>On two interfaces, with answers for which the first one gets a ring and the second one no socket.\<close>

lemma two_interfaces_failed_open:
  assumes "captureInterfaces by_name interfaces cfg = Inr (i1 # i2 # ifs)" "cfg_Protocols cfg AND (ProtocolsLLDP OR ProtocolsCDP) \<noteq> 0"
    "os_calls w = 0"
  shows "\<exists>w'. openCaptureBackends ''linux'' (\<lambda>n. if n < 7 then Works else Fails) page by_name interfaces addrs cfg w =
      Some (Inl (PacketSocketError (ni_Name i2)), w') \<and>
    os_fds w' = os_fds w \<and> os_maps w' = os_next w # os_maps w"
proof -
  have "tail_code ps s 0 \<noteq> []" for ps s by (simp add: tail_code_def)
  then show ?thesis
    using assms
    by (simp add: openCaptureBackends_def open_linux_def newLinuxRawBackend_def openLinuxPacketSocket_def setupTPacketV3_def
      ring_sizes_def open_fd_def sys_call_def discoveryFilter_tail close_backends_def close_fd_def Let_def)
qed

lemma failed_open_keeps_ring_witness:
  "\<exists>w' bs. openCaptureBackends ''linux'' (\<lambda>n. if n < 7 then Works else Fails) 4096 (\<lambda>_. None)
      (Some [sample_interface ''lo'' 1\<lparr>ni_Flags := 5\<rparr>, sample_interface ''eth0'' 2, sample_interface ''eth1'' 3]) (\<lambda>_. None)
      (zero_config\<lparr>cfg_Protocols := ProtocolsLLDP\<rparr>) fresh_os = Some (Inl (PacketSocketError ''eth1''), w') \<and>
    length bs < 2 \<and> ring_fds bs = [3] \<and> os_maps w' = [3] \<and> mset (os_fds w') = mset [2, 1, 0]"
proof -
  let ?cfg = "zero_config\<lparr>cfg_Protocols := ProtocolsLLDP\<rparr>"
  have l2: "cfg_Protocols ?cfg AND (ProtocolsLLDP OR ProtocolsCDP) \<noteq> 0" by (simp add: protocol_set_defs Set_def protocol_defs)
  obtain w' where w': "openCaptureBackends ''linux'' (\<lambda>n. if n < 7 then Works else Fails) 4096 (\<lambda>_. None)
      (Some [sample_interface ''lo'' 1\<lparr>ni_Flags := 5\<rparr>, sample_interface ''eth0'' 2, sample_interface ''eth1'' 3]) (\<lambda>_. None)
      ?cfg fresh_os = Some (Inl (PacketSocketError ''eth1''), w')" and m: "os_maps w' = [3]"
    using two_interfaces_failed_open [OF sample_captureInterfaces l2, where w = fresh_os and page = 4096 and addrs = "\<lambda>_. None"]
    by (auto simp: fresh_os_def sample_interface_def)
  from failed_open_keeps_ring [OF sample_captureInterfaces l2 fresh_os_ok w'] obtain n bs
    where "n < length [sample_interface ''eth0'' 2, sample_interface ''eth1'' 3]" "length bs = n"
      "mset (os_fds w') = mset (os_fds fresh_os)" "os_maps w' = rev (ring_fds bs) @ os_maps fresh_os"
    by blast
  then show ?thesis using w' m by (intro exI [of _ w'] exI [of _ bs]) (simp add: fresh_os_def)
qed

lemma open_leaks_no_descriptor_witness:
  "\<exists>r w'. openCaptureBackends ''darwin'' (\<lambda>n. if n = 5 then Busy else Works) 4096 (\<lambda>_. None)
      (Some [sample_interface ''en0'' 2]) (\<lambda>_. None) (zero_config\<lparr>cfg_Protocols := ProtocolsAll\<rparr>) fresh_os = Some (r, w') \<and>
    (case r of Inl e \<Rightarrow> mset (os_fds w') | Inr bs \<Rightarrow> mset (os_fds (close_backends bs w'))) = mset [2, 1, 0]"
proof -
  obtain r w' where o: "openCaptureBackends ''darwin'' (\<lambda>n. if n = 5 then Busy else Works) 4096 (\<lambda>_. None)
      (Some [sample_interface ''en0'' 2]) (\<lambda>_. None) (zero_config\<lparr>cfg_Protocols := ProtocolsAll\<rparr>) fresh_os = Some (r, w')"
    and c: "case r of Inl e \<Rightarrow> mset (os_fds w') = mset (os_fds fresh_os)
      | Inr bs \<Rightarrow> mset (os_fds w') = mset (os_fds fresh_os) + mset (map backend_fd bs) \<and>
         distinct (map backend_fd bs) \<and> set (map backend_fd bs) \<inter> set (os_fds fresh_os) = {} \<and>
         mset (os_fds (close_backends bs w')) = mset (os_fds fresh_os)"
    using open_leaks_no_descriptor [OF fresh_os_ok] by blast
  have "mset (os_fds fresh_os) = mset [2, 1, 0]" by (simp add: fresh_os_def)
  with c have "(case r of Inl e \<Rightarrow> mset (os_fds w') | Inr bs \<Rightarrow> mset (os_fds (close_backends bs w'))) = mset [2, 1, 0]"
    by (cases r) simp_all
  with o show ?thesis by blast
qed

lemma every_protocol_served_witness:
  "\<exists>bs w'. openCaptureBackends ''openbsd'' (\<lambda>_. Works) 4096 (\<lambda>_. None) (Some [sample_interface ''em0'' 2]) (\<lambda>_. None)
      (zero_config\<lparr>cfg_Protocols := ProtocolsMDNS\<rparr>) fresh_os = Some (Inr bs, w') \<and> (\<exists>b \<in> set bs. serves b ProtocolMDNS)"
proof -
  let ?run = "openCaptureBackends ''openbsd'' (\<lambda>_. Works) 4096 (\<lambda>_. None) (Some [sample_interface ''em0'' 2]) (\<lambda>_. None)
      (zero_config\<lparr>cfg_Protocols := ProtocolsMDNS\<rparr>) fresh_os"
  have m: "ProtocolsMDNS AND (ProtocolsLLDP OR ProtocolsCDP) = 0" "Has ProtocolsMDNS ProtocolMDNS" "\<not> Has ProtocolsMDNS ProtocolMNDP"
    by (simp_all add: protocol_set_defs Set_def protocol_defs Has_def)
  have "\<exists>bs w'. ?run = Some (Inr bs, w')"
    using m by (simp add: openCaptureBackends_def open_other_def captureInterfaces_def zero_config_def eligible_def sample_interface_def
      FlagUp_def FlagMulticast_def FlagLoopback_def openUDPBackends_def listen_udp_def open_fd_def sys_call_def Let_def)
  then obtain bs w' where run: "?run = Some (Inr bs, w')" by blast
  have "Has (cfg_Protocols (zero_config\<lparr>cfg_Protocols := ProtocolsMDNS\<rparr>)) ProtocolMDNS" using m(2) by simp
  from every_protocol_served [OF run _ this] run show ?thesis by blast
qed

section \<open>The interface of a datagram\<close>

lemma bits_byte: "map (bit (b AND NOT (mask (8 - n)) :: u8)) (rev [0..<8]) = take n (map (bit b) (rev [0..<8])) @ replicate (8 - n) False"
proof (rule nth_equalityI)
  fix i assume "i < length (map (bit (b AND NOT (mask (8 - n)) :: u8)) (rev [0..<8]))"
  then have i: "i < 8" by simp
  show "map (bit (b AND NOT (mask (8 - n)) :: u8)) (rev [0..<8]) ! i = (take n (map (bit b) (rev [0..<8])) @ replicate (8 - n) False) ! i"
    using i by (cases "i < n") (auto simp: rev_nth nth_append bit_simps)
qed simp

lemma bits_of_byte_Cons: "bits_of (b # bs) = map (bit b) (rev [0..<8]) @ bits_of bs"
  by (simp add: bits_of_def)

lemma take_mask_bytes: "take n (bits_of (mask_bytes n bs)) = take n (bits_of bs)"
proof (induction n bs rule: mask_bytes.induct)
  case (2 n b bs)
  show ?case
    unfolding mask_bytes.simps bits_of_byte_Cons bits_byte
    using "2.IH" by (cases "8 \<le> n") simp_all
qed simp

lemma Masked_Contains: "Prefix_Contains (Masked p) a = Prefix_Contains p a"
  by (auto simp: Prefix_Contains_def Masked_def take_mask_bytes split: option.splits Addr.splits)

definition on_subnet :: "(netInterface \<Rightarrow> Prefix option list option) \<Rightarrow> Addr \<Rightarrow> netInterface \<Rightarrow> bool" where
  "on_subnet addrs a ifi = (\<exists>addresses p. addrs ifi = Some addresses \<and> Some p \<in> set addresses \<and> Prefix_Contains p a)"

lemma resolve_prefixes_append:
  "resolve_prefixes a (ps @ qs) = (if \<exists>p \<in> set ps. Prefix_Contains (ip_prefix p) a then resolve_prefixes a ps else resolve_prefixes a qs)"
  by (induction ps) auto

lemma resolve_prefixes_same:
  "\<exists>p \<in> set ps. Prefix_Contains (ip_prefix p) a \<Longrightarrow> \<forall>p \<in> set ps. ip_name p = n \<and> ip_index p = k \<Longrightarrow> resolve_prefixes a ps = (n, k)"
proof (induction ps)
  case (Cons p ps)
  show ?case
  proof (cases "Prefix_Contains (ip_prefix p) a")
    case True
    then show ?thesis using bspec [OF Cons.prems(2), of p] by simp
  next
    case False
    then have "resolve_prefixes a ps = (n, k)" using Cons.IH Cons.prems by (metis list.set_intros(2) set_ConsD)
    then show ?thesis using False by simp
  qed
qed simp

lemma interface_prefixes_contain:
  "(\<exists>q \<in> set (interface_prefixes ifi addresses). Prefix_Contains (ip_prefix q) a) = (\<exists>p. Some p \<in> set addresses \<and> Prefix_Contains p a)"
  (is "?l = ?r")
proof
  assume ?l
  then show ?r by (fastforce simp: interface_prefixes_def Masked_Contains split: option.splits if_splits)
next
  assume ?r
  then obtain p where p: "Some p \<in> set addresses" "Prefix_Contains p a" by blast
  then have "IsValid (pfx_addr p)" by (auto simp: Prefix_Contains_def IsValid_def split: option.splits)
  then show ?l using p by (fastforce simp: interface_prefixes_def Masked_Contains)
qed

text \<open>
  A datagram on a socket of all interfaces is attributed to the first interface that has an address in
  the subnet of the sender, and to none if there is no such interface: masking the prefixes beforehand
  changes nothing, and a mapped IPv4 address counts as the IPv4 address.
\<close>

lemma resolveInterface_subnet:
  "resolveInterface source (captureInterfacePrefixes addrs ifaces) =
     (case filter (on_subnet addrs (Unmap source)) ifaces of [] \<Rightarrow> ([], 0) | ifi # _ \<Rightarrow> (ni_Name ifi, ni_Index ifi))"
proof -
  have "resolve_prefixes a (captureInterfacePrefixes addrs ifaces) =
     (case filter (on_subnet addrs a) ifaces of [] \<Rightarrow> ([], 0) | ifi # _ \<Rightarrow> (ni_Name ifi, ni_Index ifi))" for a
  proof (induction ifaces)
    case (Cons ifi ifaces)
    have same: "\<forall>q \<in> set (interface_prefixes ifi addresses). ip_name q = ni_Name ifi \<and> ip_index q = ni_Index ifi" for addresses
      by (auto simp: interface_prefixes_def split: option.splits if_splits)
    show ?case
      using Cons.IH same by (cases "addrs ifi")
        (auto simp: on_subnet_def resolve_prefixes_append interface_prefixes_contain intro!: resolve_prefixes_same)
  qed simp
  then show ?thesis by (simp add: resolveInterface_def)
qed

end
