(* ===== verification/CaptureRun.thy ===== *)
theory CaptureRun
  imports CaptureOpen
begin

text \<open>
  The model of the loops of the capture backends: \<open>run\<close> of the UDP sockets of \<open>capture_common.go\<close>, of the
  packet sockets of \<open>capture_linux.go\<close>, with and without a ring, and of the BPF devices of
  \<open>capture_darwin.go\<close>. What the system calls return in one iteration is an event, with what the context says
  at that time; a loop delivers the calls of \<open>emit\<close> it makes on a list of events, and how it ended, if it
  did. The theorems say which events end a loop, and with what.
\<close>

section \<open>How a loop ends\<close>

datatype outcome = Running | Returned "string option"

text \<open>The views of an iteration before those of the following ones.\<close>

definition emitting :: "captureView list \<Rightarrow> (captureView list \<times> outcome) run \<Rightarrow> (captureView list \<times> outcome) run" where
  "emitting views m = map_option (\<lambda>(vs, r). (views @ vs, r)) m"

section \<open>UDP sockets\<close>

datatype udp_read = Datagram bytes Addr Time | ReadTimeout | ReadClosed | ReadFailed string

definition udp_view :: "udpBackend \<Rightarrow> bytes \<Rightarrow> Addr \<Rightarrow> Time \<Rightarrow> captureView" where
  "udp_view b data addr now =
     (let source = Unmap addr;
          (name, index) = (if ub_ifaceIndex b = 0 then resolveInterface source (ub_prefixes b)
            else (ub_ifaceName b, ub_ifaceIndex b))
      in \<lparr>cv_data = data, cv_protocol = ub_protocol b, cv_interfaceName = name, cv_interfaceIndex = index,
          cv_timestamp = now, cv_sourceIP = source, cv_frame = False\<rparr>)"

fun udp_run :: "udpBackend \<Rightarrow> (udp_read \<times> bool) list \<Rightarrow> (captureView list \<times> outcome) run" where
  "udp_run b [] = Some ([], Running)"
| "udp_run b ((e, cancelled) # es) =
     (case e of
        Datagram data addr now \<Rightarrow> emitting [udp_view b data addr now] (udp_run b es)
      | _ \<Rightarrow>
          if cancelled then Some ([], Returned None)
          else (case e of
              ReadTimeout \<Rightarrow> udp_run b es
            | ReadClosed \<Rightarrow> Some ([], Returned None)
            | ReadFailed m \<Rightarrow> Some ([], Returned (Some m))
            | _ \<Rightarrow> None))"

section \<open>Descriptors that are polled\<close>

datatype poll = PollReady | PollInterrupted | PollClosed | PollFailed string
datatype 'a recv = Received 'a | NothingYet | RecvClosed | RecvFailed string

text \<open>
  The loop of the packet sockets without a ring and of the BPF devices: poll, look at the context, read, and
  handle what was read.
\<close>

fun polled_run :: "('a \<Rightarrow> captureView list run) \<Rightarrow> (poll \<times> bool \<times> 'a recv) list \<Rightarrow> (captureView list \<times> outcome) run" where
  "polled_run handle [] = Some ([], Running)"
| "polled_run handle ((p, cancelled, r) # es) =
     (if cancelled then Some ([], Returned None)
      else (case p of
          PollInterrupted \<Rightarrow> polled_run handle es
        | PollClosed \<Rightarrow> Some ([], Returned None)
        | PollFailed m \<Rightarrow> Some ([], Returned (Some m))
        | PollReady \<Rightarrow> (case r of
              NothingYet \<Rightarrow> polled_run handle es
            | RecvClosed \<Rightarrow> Some ([], Returned None)
            | RecvFailed m \<Rightarrow> Some ([], Returned (Some m))
            | Received x \<Rightarrow> do { views \<leftarrow> handle x; emitting views (polled_run handle es) })))"

text \<open>A frame and the time at which it was read; \<open>buf[:n]\<close> of a buffer as long as the largest frame.\<close>

definition raw_run :: "linuxRawBackend \<Rightarrow> (poll \<times> bool \<times> (bytes \<times> Time) recv) list \<Rightarrow> (captureView list \<times> outcome) run" where
  "raw_run b es = polled_run (\<lambda>(data, now). Some [frame_view (lb_iface b) data now]) es"

text \<open>A read from a BPF device: the buffer and the count of bytes read.\<close>

definition bpf_run :: "bool \<Rightarrow> unix_abi \<Rightarrow> darwinBPFBackend \<Rightarrow> (poll \<times> bool \<times> (bytes \<times> nat) recv) list \<Rightarrow> (captureView list \<times> outcome) run" where
  "bpf_run big abi b es = polled_run (\<lambda>(buf, n). record_loop big abi (db_iface b) buf n 0) es"

section \<open>The ring\<close>

text \<open>
  An event of the ring is what the kernel has made of its memory by the next look of the program, and the
  result of the poll that follows if the block is not ready.
\<close>

fun ring_run :: "bool \<Rightarrow> unix_abi \<Rightarrow> packetRing \<Rightarrow> nat \<Rightarrow> (bytes \<times> poll \<times> bool) list \<Rightarrow> (captureView list \<times> outcome) run" where
  "ring_run big abi b i [] = Some ([], Running)"
| "ring_run big abi b i ((memory, p, cancelled) # es) = do {
     let b = b\<lparr>pr_ring := memory\<rparr>;
     block \<leftarrow> gslice (pr_ring b) (i * pr_blockSize b) ((i + 1) * pr_blockSize b);
     status \<leftarrow> gslice block 8 12 \<bind> ne32 big;
     if status AND TP_STATUS_USER abi = 0 then
       (if cancelled then Some ([], Returned None)
        else (case p of
            PollFailed m \<Rightarrow> Some ([], Returned (Some m))
          | PollClosed \<Rightarrow> Some ([], Returned None)
          | _ \<Rightarrow> ring_run big abi b i es))
     else do {
       (views, b, j) \<leftarrow> ring_round big abi b i;
       emitting views (ring_run big abi b j es)
     }
   }"

section \<open>The loops\<close>

lemma emitting_Some [simp]: "emitting views (Some (vs, r)) = Some (views @ vs, r)"
  by (simp add: emitting_def)

lemma runs_emitting [wp]: "runs (emitting views m) P = runs m (\<lambda>(vs, r). P (views @ vs, r))"
  by (cases m) (auto simp: emitting_def runs_def)

text \<open>A loop reports an error only if the context is not cancelled: it then is the one of an event.\<close>

lemma udp_run_runs:
  "runs (udp_run b es) (\<lambda>(views, r). length views \<le> length es \<and>
     (\<forall>m. r = Returned (Some m) \<longrightarrow> (ReadFailed m, False) \<in> set es))"
proof (induction es)
  case (Cons e es)
  obtain x c where e: "e = (x, c)" by (cases e)
  show ?case by (cases x; cases c) (auto simp: e wp intro: runs_mono [OF Cons.IH])
qed (simp add: wp)

lemma polled_run_runs:
  assumes "\<forall>p c x. (p, c, Received x) \<in> set es \<longrightarrow> runs (handle x) (\<lambda>_. True)"
  shows "runs (polled_run handle es) (\<lambda>(views, r).
     \<forall>m. r = Returned (Some m) \<longrightarrow> (\<exists>x. (PollFailed m, False, x) \<in> set es) \<or> (PollReady, False, RecvFailed m) \<in> set es)"
  using assms
proof (induction es)
  case (Cons e es)
  obtain p c r where e: "e = (p, c, r)" by (metis surj_pair)
  have "\<forall>p c x. (p, c, Received x) \<in> set es \<longrightarrow> runs (handle x) (\<lambda>_. True)" using Cons.prems by simp
  note IH = runs_mono [OF Cons.IH [OF this]]
  show ?case
  proof (cases "c \<or> p \<noteq> PollReady")
    case True
    then show ?thesis by (cases p) (auto simp: e wp intro!: IH)
  next
    case False
    show ?thesis
    proof (cases r)
      case (Received x)
      have "runs (handle x) (\<lambda>_. True)" using Cons.prems by (simp add: e Received)
      from runs_exD [OF this] obtain views where "handle x = Some views" by blast
      then show ?thesis using False by (auto simp: e Received wp intro!: IH)
    qed (use False in \<open>auto simp: e wp intro!: IH\<close>)
  qed
qed (simp add: wp)

lemma ring_run_runs:
  assumes "unix_ok abi" "\<forall>(memory, e) \<in> set es. length memory = pr_blockSize b * pr_blockCount b" "24 \<le> pr_blockSize b" "i < pr_blockCount b"
  shows "runs (ring_run big abi b i es) (\<lambda>(views, r). \<forall>m. r = Returned (Some m) \<longrightarrow> (\<exists>memory. (memory, PollFailed m, False) \<in> set es))"
  using assms(2-)
proof (induction es arbitrary: b i)
  case (Cons e es)
  obtain memory p c where e: "e = (memory, p, c)" by (metis surj_pair)
  let ?b = "b\<lparr>pr_ring := memory\<rparr>"
  have ok: "ring_ok ?b" "i < pr_blockCount ?b" using Cons.prems by (simp_all add: ring_ok_def e)
  have sizes: "\<forall>(memory, e) \<in> set es. length memory = pr_blockSize b * pr_blockCount b" using Cons.prems(1) by simp
  show ?case
  proof (cases "block_status big (ring_block ?b i) AND TP_STATUS_USER abi = 0")
    case True
    show ?thesis
      unfolding e ring_run.simps Let_def gslice_block(1) [OF ok] status_read [OF ok] Option.bind.simps if_P [OF True]
      using Cons.prems sizes
      by (cases p) (auto simp: wp intro!: runs_mono [OF Cons.IH])
  next
    case False
    obtain views where v: "block_packets big ?b (ring_block ?b i) = Some views"
      using runs_exD [OF block_packets_safe] gslice_block(2) [OF ok] ok(1) unfolding ring_ok_def by metis
    then have "ring_round big abi ?b i = Some (views, set_status big (TP_STATUS_KERNEL abi) i ?b, (i + 1) mod pr_blockCount b)"
      using False by (simp add: ring_round_cases [OF ok])
    then show ?thesis
      unfolding e ring_run.simps Let_def gslice_block(1) [OF ok] status_read [OF ok] Option.bind.simps if_not_P [OF False]
      using Cons.prems sizes
      by (auto simp: wp intro!: runs_mono [OF Cons.IH])
  qed
qed (simp add: wp)

text \<open>
  A backend ends in order: whatever its system calls return and whatever the kernel writes, no loop of
  a backend panics, and a loop returns an error only if a system call failed with it before the context was
  cancelled; a closed descriptor and a cancelled context end it without an error.
\<close>

lemma backends_report:
  assumes "unix_ok abi"
    "\<forall>(memory, e) \<in> set ring_es. length memory = pr_blockSize b * pr_blockCount b" "24 \<le> pr_blockSize b" "i < pr_blockCount b"
    "\<forall>p c buf n. (p, c, Received (buf, n)) \<in> set bpf_es \<longrightarrow> n \<le> length buf"
  shows "\<exists>ring_v ring_r bpf_v bpf_r raw_v raw_r udp_v udp_r.
    ring_run big abi b i ring_es = Some (ring_v, ring_r) \<and> bpf_run big abi d bpf_es = Some (bpf_v, bpf_r) \<and>
    raw_run l raw_es = Some (raw_v, raw_r) \<and> udp_run u udp_es = Some (udp_v, udp_r) \<and>
    (\<forall>m. (ring_r = Returned (Some m) \<longrightarrow> (\<exists>memory. (memory, PollFailed m, False) \<in> set ring_es)) \<and>
      (bpf_r = Returned (Some m) \<longrightarrow> (\<exists>x. (PollFailed m, False, x) \<in> set bpf_es) \<or> (PollReady, False, RecvFailed m) \<in> set bpf_es) \<and>
      (raw_r = Returned (Some m) \<longrightarrow> (\<exists>x. (PollFailed m, False, x) \<in> set raw_es) \<or> (PollReady, False, RecvFailed m) \<in> set raw_es) \<and>
      (udp_r = Returned (Some m) \<longrightarrow> (ReadFailed m, False) \<in> set udp_es))"
proof -
  have h: "18 \<le> SizeofBpfHdr abi" using assms(1) by (simp add: unix_ok_def)
  have "\<forall>p c x. (p, c, Received x) \<in> set bpf_es \<longrightarrow> runs (case x of (buf, n) \<Rightarrow> record_loop big abi (db_iface d) buf n 0) (\<lambda>_. True)"
  proof (intro allI impI)
    fix p c x
    assume x: "(p, c, Received x) \<in> set bpf_es"
    obtain buf n where e: "x = (buf, n)" by fastforce
    then have "n \<le> length buf" using assms(5) x by blast
    from runs_mono [OF record_loop_safe [OF h this]]
    show "runs (case x of (buf, n) \<Rightarrow> record_loop big abi (db_iface d) buf n 0) (\<lambda>_. True)" by (simp add: e)
  qed
  note B = runs_exD [OF polled_run_runs [OF this], folded bpf_run_def]
  have "\<forall>p c x. (p, c, Received x) \<in> set raw_es \<longrightarrow> runs (case x of (data, now) \<Rightarrow> Some [frame_view (lb_iface l) data now]) (\<lambda>_. True)"
    by (simp add: runs_def split: prod.split)
  note R = runs_exD [OF polled_run_runs [OF this], folded raw_run_def]
  obtain kv kr where k: "ring_run big abi b i ring_es = Some (kv, kr)"
    "\<forall>m. kr = Returned (Some m) \<longrightarrow> (\<exists>memory. (memory, PollFailed m, False) \<in> set ring_es)"
    using runs_exD [OF ring_run_runs [OF assms(1-4), of big]] by auto
  obtain bv br where b: "bpf_run big abi d bpf_es = Some (bv, br)"
    "\<forall>m. br = Returned (Some m) \<longrightarrow> (\<exists>x. (PollFailed m, False, x) \<in> set bpf_es) \<or> (PollReady, False, RecvFailed m) \<in> set bpf_es"
    using B by auto
  obtain rv rr where r: "raw_run l raw_es = Some (rv, rr)"
    "\<forall>m. rr = Returned (Some m) \<longrightarrow> (\<exists>x. (PollFailed m, False, x) \<in> set raw_es) \<or> (PollReady, False, RecvFailed m) \<in> set raw_es"
    using R by auto
  obtain uv ur where u: "udp_run u udp_es = Some (uv, ur)" "\<forall>m. ur = Returned (Some m) \<longrightarrow> (ReadFailed m, False) \<in> set udp_es"
    using runs_exD [OF udp_run_runs [of u udp_es]] by auto
  show ?thesis using k b r u by simp
qed

end
