(* ===== verification/CommandLine.thy ===== *)
theory CommandLine
  imports Lifecycle AndroidNSD
begin

text \<open>
  The model of \<open>cmd/omnidiscover/main.go\<close>: the command line, the exit codes and the printed events and
  statistics, with what \<open>tui.go\<close> shows of a device. Strings are the bytes of a Go string as characters.
  Flag parsing, JSON encoding and the \<open>Printf\<close> of whole lines belong to the Go library: the model has the
  parsed flags and the records that are encoded or printed. The formats of addresses and times, floating-point
  numbers (\<open>%.1f\<close> of a quotient, the whole hours of a duration) and case conversion beyond ASCII are the fields
  of \<open>library\<close>.
\<close>

section \<open>Strings\<close>

record library =
  lib_addr :: "Addr \<Rightarrow> string"
  lib_time :: "Time \<Rightarrow> string"
  lib_fixed1 :: "nat \<Rightarrow> nat \<Rightarrow> string"
  lib_hours :: "Duration \<Rightarrow> int"
  lib_lower :: "string \<Rightarrow> string"
  lib_fold_eq :: "bytes \<Rightarrow> bytes \<Rightarrow> bool"
  lib_vendor :: vendor_data

definition go_string :: "bytes \<Rightarrow> string" where
  "go_string b = map (\<lambda>x. char_of (unat x)) b"

text \<open>\<open>strconv.Itoa\<close>, \<open>%d\<close>, and \<open>%02d\<close> of a number that is not negative.\<close>

fun decimal :: "nat \<Rightarrow> string" where
  "decimal n = (if n < 10 then [char_of (48 + n)] else decimal (n div 10) @ [char_of (48 + n mod 10)])"

declare decimal.simps [simp del]

definition show_int :: "int \<Rightarrow> string" where
  "show_int i = (if i < 0 then ''-'' @ decimal (nat (- i)) else decimal (nat i))"

definition two_digits :: "nat \<Rightarrow> string" where
  "two_digits n = (if n < 10 then ''0'' @ decimal n else decimal n)"

text \<open>\<open>strings.Join\<close>, and \<open>strings.Split\<close> with a separator of one byte.\<close>

fun Join :: "string \<Rightarrow> string list \<Rightarrow> string" where
  "Join sep [] = []"
| "Join sep [x] = x"
| "Join sep (x # y # xs) = x @ sep @ Join sep (y # xs)"

fun Split :: "char \<Rightarrow> string \<Rightarrow> string list" where
  "Split c [] = [[]]"
| "Split c (x # xs) = (if x = c then [] # Split c xs else (x # hd (Split c xs)) # tl (Split c xs))"

text \<open>
  \<open>strings.TrimSpace\<close> removes the runes of \<open>unicode.IsSpace\<close> at both ends, here by their UTF-8 encodings.
\<close>

definition space_runes :: "string list" where
  "space_runes = map (map (char_of :: nat \<Rightarrow> char))
     ([[9], [10], [11], [12], [13], [32], [0xC2, 0x85], [0xC2, 0xA0], [0xE1, 0x9A, 0x80]] @
      map (\<lambda>n. [0xE2, 0x80, n]) ([0x80 ..< 0x8B] @ [0xA8, 0xA9, 0xAF]) @ [[0xE2, 0x81, 0x9F], [0xE3, 0x80, 0x80]])"

fun strip_one :: "string list \<Rightarrow> string \<Rightarrow> string option" where
  "strip_one [] s = None"
| "strip_one (r # rs) s = (if r \<noteq> [] \<and> take (length r) s = r then Some (drop (length r) s) else strip_one rs s)"

lemma strip_one_shorter: "strip_one rs s = Some t \<Longrightarrow> length t < length s"
proof (induction rs)
  case (Cons r rs)
  then show ?case
    by (cases s; cases r) (auto split: if_splits)
qed simp

function strip_all :: "string list \<Rightarrow> string \<Rightarrow> string" where
  "strip_all rs s = (case strip_one rs s of None \<Rightarrow> s | Some t \<Rightarrow> strip_all rs t)"
  by pat_completeness auto
termination
  by (relation "measure (\<lambda>(rs, s). length s)") (auto simp: strip_one_shorter)

declare strip_all.simps [simp del]

definition TrimSpace :: "string \<Rightarrow> string" where
  "TrimSpace s = rev (strip_all (map rev space_runes) (rev (strip_all space_runes s)))"

text \<open>\<open>strings.ToLower\<close> has a path of its own for ASCII; the other one is the parameter.\<close>

definition ascii :: "string \<Rightarrow> bool" where
  "ascii s = (\<forall>c \<in> set s. of_char c < (128 :: nat))"

definition lower_char :: "char \<Rightarrow> char" where
  "lower_char c = (let n = of_char c :: nat in if 65 \<le> n \<and> n \<le> 90 then char_of (n + 32) else c)"

definition upper_char :: "char \<Rightarrow> char" where
  "upper_char c = (let n = of_char c :: nat in if 97 \<le> n \<and> n \<le> 122 then char_of (n - 32) else c)"

definition ToLower :: "(string \<Rightarrow> string) \<Rightarrow> string \<Rightarrow> string" where
  "ToLower lower s = (if ascii s then map lower_char s else lower s)"

section \<open>Protocols and interfaces of the command line\<close>

datatype parse_error = EmptyProtocolName | UnknownProtocol string

fun parse_names :: "string list \<Rightarrow> ProtocolSet \<Rightarrow> parse_error + ProtocolSet" where
  "parse_names [] result = Inr result"
| "parse_names (name # names) result =
     (let n = TrimSpace name in
      if n = ''lldp'' then parse_names names (result OR ProtocolsLLDP)
      else if n = ''cdp'' then parse_names names (result OR ProtocolsCDP)
      else if n = ''mndp'' then parse_names names (result OR ProtocolsMNDP)
      else if n = ''mdns'' \<or> n = ''bonjour'' \<or> n = ''dns-sd'' \<or> n = ''dnssd'' then parse_names names (result OR ProtocolsMDNS)
      else if n = [] then Inl EmptyProtocolName
      else Inl (UnknownProtocol n))"

definition parseProtocols :: "(string \<Rightarrow> string) \<Rightarrow> string \<Rightarrow> parse_error + ProtocolSet" where
  "parseProtocols lower value =
     (let value = TrimSpace (ToLower lower value) in
      if value = [] \<or> value = ''default'' then Inr 0
      else if value = ''all'' then Inr ProtocolsAll
      else parse_names (Split CHR '','' value) 0)"

definition splitList :: "string \<Rightarrow> string list" where
  "splitList value =
     (if TrimSpace value = [] then []
      else filter (\<lambda>name. name \<noteq> []) (map TrimSpace (Split CHR '','' value)))"

definition protocolNames :: "ProtocolSet \<Rightarrow> string list" where
  "protocolNames ps = map (\<lambda>p. Protocol_String (of_nat p)) (filter (\<lambda>p. Has ps (of_nat p)) protocol_range)"

definition protocolDescription :: "string \<Rightarrow> ProtocolSet \<Rightarrow> string" where
  "protocolDescription goos ps =
     (if ps = 0 then
        if goos = ''windows'' then ''mndp,mdns (platform default)'' else ''lldp,cdp,mndp,mdns (platform default)''
      else Join '','' (protocolNames ps))"

definition interfaceDescription :: "string list \<Rightarrow> string" where
  "interfaceDescription interfaces = (if interfaces = [] then ''all eligible interfaces'' else Join '','' interfaces)"

section \<open>The command\<close>

record options =
  opt_interfaces :: string
  opt_protocols :: string
  opt_duration :: Duration
  opt_json :: bool
  opt_plain :: bool
  opt_includeLoopback :: bool
  opt_stats :: bool

text \<open>
  What \<open>flags.Parse\<close> gives, with the arguments that remain; how a run of the engine and of the dashboard end.
\<close>

datatype parsed_flags = FlagHelp | FlagError | Flags options "string list"
datatype run_error = Canceled | DeadlineExceeded | OtherError string
datatype dashboard_end = InitFailed string | DashboardEnded "run_error option"

datatype message =
  UnexpectedArguments "string list" | BadProtocols parse_error | LiveCaptureOnly string | BadConfig engine_error
| Started string string | DashboardUnavailable string | FinalStatistics | CaptureFailed run_error
| HintRawSockets | HintBPF

definition command_config :: "options \<Rightarrow> ProtocolSet \<Rightarrow> 'r Config" where
  "command_config opts protocols =
     \<lparr>cfg_Interfaces = splitList (opt_interfaces opts), cfg_Protocols = protocols, cfg_MaxDevices = 0, cfg_MaxLinks = 0,
      cfg_MaxDNSRecords = 0, cfg_MaxAlternatives = 0, cfg_ProtocolQueue = 0, cfg_PendingEvents = 0, cfg_MaxFrameSize = 0,
      cfg_MNDPIdleTTL = 0, cfg_TimingWheelSlots = 0, cfg_Rules = [], cfg_IncludeLoopback = opt_includeLoopback opts\<rparr>"

text \<open>The part of \<open>run\<close> from the opened engine on: the lines before the end of the capture, and how it ended.\<close>

definition capture :: "string \<Rightarrow> dashboard_end \<Rightarrow> run_error option \<Rightarrow> options \<Rightarrow> string list \<Rightarrow> ProtocolSet \<Rightarrow>
    message list \<times> run_error option" where
  "capture goos dash ended opts interfaces protocols =
     (let started = Started (interfaceDescription interfaces) (protocolDescription goos protocols);
          banner = (if opt_json opts then [] else if opt_plain opts then [started] else [])
      in if \<not> opt_json opts \<and> \<not> opt_plain opts then
           (case dash of
              InitFailed e \<Rightarrow> (banner @ [DashboardUnavailable e, started], ended)
            | DashboardEnded err \<Rightarrow> (banner, err))
         else (banner, ended))"

definition capture_report :: "string \<Rightarrow> ProtocolSet \<Rightarrow> run_error option \<Rightarrow> int \<times> message list" where
  "capture_report goos protocols err =
     (case err of
        Some (OtherError m) \<Rightarrow>
          (1, [CaptureFailed (OtherError m)] @
             (if goos = ''linux'' \<and> protocols AND (ProtocolsLLDP OR ProtocolsCDP) \<noteq> 0 then [HintRawSockets] else []) @
             (if goos = ''darwin'' \<and> protocols AND (ProtocolsLLDP OR ProtocolsCDP) \<noteq> 0 then [HintBPF] else []))
      | _ \<Rightarrow> (0, []))"

definition command_run ::
  "string \<Rightarrow> (string \<Rightarrow> string) \<Rightarrow> (bytes \<Rightarrow> (bytes \<Rightarrow> bool) option) \<Rightarrow> (Engine \<Rightarrow> dashboard_end) \<Rightarrow> (Engine \<Rightarrow> run_error option) \<Rightarrow>
   parsed_flags \<Rightarrow> (int \<times> message list) run" where
  "command_run goos lower re_compile dash engine_run parsed =
     (case parsed of
        FlagHelp \<Rightarrow> Some (0, [])
      | FlagError \<Rightarrow> Some (2, [])
      | Flags opts args \<Rightarrow>
          if args \<noteq> [] then Some (2, [UnexpectedArguments args])
          else (case parseProtocols lower (opt_protocols opts) of
              Inl e \<Rightarrow> Some (2, [BadProtocols e])
            | Inr protocols \<Rightarrow> do {
                let config = command_config opts protocols;
                r \<leftarrow> New goos re_compile config;
                case r of
                  Inl e \<Rightarrow>
                    Some (1, [case e of ConfigError (UnsupportedProtocolsError os _) \<Rightarrow> LiveCaptureOnly os | _ \<Rightarrow> BadConfig e])
                | Inr engine \<Rightarrow> do {
                    let (out, err) = capture goos (dash engine) (engine_run engine) opts (cfg_Interfaces config) protocols;
                    let stats = (if opt_stats opts \<and> (opt_json opts \<or> opt_plain opts) then [FinalStatistics] else []);
                    let (code, report) = capture_report goos protocols err;
                    Some (code, out @ stats @ report)
                  }
              }))"

section \<open>What is shown of a device\<close>

definition hex_digit :: "nat \<Rightarrow> char" where
  "hex_digit n = ''0123456789abcdef'' ! n"

definition hex_byte :: "u8 \<Rightarrow> string" where
  "hex_byte b = [hex_digit (unat b div 16), hex_digit (unat b mod 16)]"

definition macString :: "MAC \<Rightarrow> string" where
  "macString mac = (if IsZero mac then [] else Join '':'' (map hex_byte (mac_bytes mac)))"

definition deviceKey :: "library \<Rightarrow> DeviceKey \<Rightarrow> string" where
  "deviceKey lib key =
     (case dk_Kind key of
        DeviceKeyMAC \<Rightarrow> ''mac:'' @ macString (dk_MAC key)
      | DeviceKeyIP \<Rightarrow> ''ip:'' @ lib_addr lib (dk_IP key) @ ''%'' @ show_int (dk_InterfaceIndex key)
      | _ \<Rightarrow> ''unknown'')"

definition bestDeviceMAC :: "DiscoveredDevice ptr \<Rightarrow> MAC run" where
  "bestDeviceMAC device =
     (case device of
        None \<Rightarrow> Some zero_mac
      | Some d \<Rightarrow>
          if dev_ObservedMACs d \<noteq> [] then idx (dev_ObservedMACs d) 0
          else if dev_ClaimedMACs d \<noteq> [] then idx (dev_ClaimedMACs d) 0
          else if dk_Kind (dev_Key d) = DeviceKeyMAC then Some (dk_MAC (dev_Key d))
          else Some zero_mac)"

definition vendorSummary :: "library \<Rightarrow> DiscoveredDevice ptr \<Rightarrow> string run" where
  "vendorSummary lib device = do {
     mac \<leftarrow> bestDeviceMAC device;
     result \<leftarrow> LookupMACVendor (lib_vendor lib) mac;
     Some (case ven_Source result of
         MACVendorIEEEMAL \<Rightarrow> go_string (ven_Name result)
       | MACVendorIEEEMAM \<Rightarrow> go_string (ven_Name result)
       | MACVendorIEEEMAS \<Rightarrow> go_string (ven_Name result)
       | MACVendorLocallyAdministered \<Rightarrow> ''Private / randomized''
       | MACVendorMulticast \<Rightarrow> ''Multicast''
       | _ \<Rightarrow> ''Unknown'')
   }"

text \<open>\<open>uint64(duration / time.Second)\<close>; the extrapolated uptime is not negative (\<open>Uptime_Current_exact\<close>).\<close>

definition uptime_seconds :: "DeviceUptime \<Rightarrow> Time \<Rightarrow> u64" where
  "uptime_seconds u now = word_of_int (Uptime_Current u now div Second)"

definition clock_text :: "u64 \<Rightarrow> string" where
  "clock_text secs =
     (let days = secs div 86400; hours = secs mod 86400 div 3600; minutes = secs mod 3600 div 60; seconds = secs mod 60;
          clock = two_digits (unat hours) @ '':'' @ two_digits (unat minutes) @ '':'' @ two_digits (unat seconds)
      in if days \<noteq> 0 then decimal (unat days) @ ''d '' @ clock else clock)"

definition uptimeSummary :: "DiscoveredDevice ptr \<Rightarrow> Time \<Rightarrow> string" where
  "uptimeSummary device now =
     (case device of
        None \<Rightarrow> ''-''
      | Some d \<Rightarrow> if \<not> up_Valid (dev_Uptime d) then ''-'' else clock_text (uptime_seconds (dev_Uptime d) now))"

section \<open>Printed events\<close>

record outputEvent =
  oe_Type :: string
  oe_Time :: string
  oe_Event :: string
  oe_Changed :: u64
  oe_DeviceKey :: string
  oe_Name :: string
  oe_HostName :: string
  oe_Model :: string
  oe_Platform :: string
  oe_Software :: string
  oe_Addresses :: "string list"
  oe_MAC :: string
  oe_Vendor :: string
  oe_Uptime :: string
  oe_UptimeSecs :: u64
  oe_Protocols :: "string list"
  oe_Class :: string
  oe_Rule :: string
  oe_LinkKind :: string
  oe_Interface :: string
  oe_SourceMAC :: string
  oe_RemotePort :: string
  oe_VLANs :: "u16 list"
  oe_ExpiresAt :: string

definition eventKind :: "EventKind \<Rightarrow> string" where
  "eventKind kind =
     (case kind of
        EventAdded \<Rightarrow> ''added'' | EventChanged \<Rightarrow> ''changed'' | EventExpired \<Rightarrow> ''expired'' | EventEvicted \<Rightarrow> ''evicted''
      | _ \<Rightarrow> ''unknown'')"

definition linkKind :: "LinkKind \<Rightarrow> string" where
  "linkKind kind =
     (if kind = PhysicalAdjacency then ''physical-adjacency''
      else if kind = SegmentPresence then ''segment-presence'' else ''unknown'')"

definition field_text :: "TextField \<Rightarrow> string run" where
  "field_text f = do { v \<leftarrow> Current f; Some (case v of None \<Rightarrow> [] | Some b \<Rightarrow> go_string b) }"

definition makeOutputEvent :: "library \<Rightarrow> Time \<Rightarrow> EventKind \<Rightarrow> FieldSet \<Rightarrow> DiscoveredDevice \<Rightarrow> DiscoveredLink \<Rightarrow> outputEvent run" where
  "makeOutputEvent lib now kind changed d link = do {
     mac \<leftarrow> bestDeviceMAC (Some d);
     let uptime = uptimeSummary (Some d) now;
     let (uptimeSeconds, uptime) = (if up_Valid (dev_Uptime d) then (uptime_seconds (dev_Uptime d) now, uptime) else (0, []));
     name \<leftarrow> field_text (dev_SystemName d);
     host \<leftarrow> field_text (dev_HostName d);
     model \<leftarrow> field_text (dev_Model d);
     platform \<leftarrow> field_text (dev_Platform d);
     software \<leftarrow> field_text (dev_SoftwareVersion d);
     vendor \<leftarrow> vendorSummary lib (Some d);
     Some \<lparr>oe_Type = ''event'', oe_Time = lib_time lib (link_LastSeen link), oe_Event = eventKind kind, oe_Changed = changed,
       oe_DeviceKey = deviceKey lib (dev_Key d), oe_Name = name, oe_HostName = host, oe_Model = model,
       oe_Platform = platform, oe_Software = software, oe_Addresses = map (lib_addr lib) (dev_Addresses d),
       oe_MAC = macString mac, oe_Vendor = vendor, oe_Uptime = uptime, oe_UptimeSecs = uptimeSeconds,
       oe_Protocols = protocolNames (dev_Protocols d), oe_Class = go_string (dev_Class d),
       oe_Rule = go_string (dev_MatchedRule d), oe_LinkKind = linkKind (link_Kind link),
       oe_Interface = go_string (link_LocalInterface link), oe_SourceMAC = macString (link_ObservedSourceMAC link),
       oe_RemotePort = go_string (id_Value (link_RemotePort link)), oe_VLANs = link_VLANs link,
       oe_ExpiresAt = (if link_ExpiresAt link = 0 then [] else lib_time lib (link_ExpiresAt link))\<rparr>
   }"

text \<open>The line of \<open>handle\<close> is one JSON object, or text whose last parts are left out when they are empty.\<close>

datatype printed = JSONLine outputEvent | TextLine outputEvent bool bool

definition printer_handle :: "library \<Rightarrow> bool \<Rightarrow> Time \<Rightarrow> EventView \<Rightarrow> printed option run" where
  "printer_handle lib json now event =
     (case (view_Device event, view_Link event) of
        (Some d, Some link) \<Rightarrow> do {
          view \<leftarrow> makeOutputEvent lib now (view_Kind event) (view_Changed event) d link;
          Some (Some (if json then JSONLine view else TextLine view (oe_RemotePort view \<noteq> []) (oe_Class view \<noteq> [])))
        }
      | _ \<Rightarrow> Some None)"

section \<open>Printed statistics\<close>

record protocolStats =
  ps_Protocol :: string
  ps_Routed :: u64
  ps_Dropped :: u64
  ps_Malformed :: u64
  ps_Ignored :: u64
  ps_Partial :: u64

record statsOutput =
  so_Type :: string
  so_Captured :: u64
  so_Events :: u64
  so_OutputDropped :: u64
  so_DeviceHighWater :: u64
  so_LinkHighWater :: u64
  so_DNSHighWater :: u64
  so_DeviceEvictions :: u64
  so_LinkEvictions :: u64
  so_DNSEvictions :: u64
  so_Protocols :: "protocolStats list"

fun protocol_stats :: "Statistics \<Rightarrow> nat list \<Rightarrow> protocolStats list run" where
  "protocol_stats stats [] = Some []"
| "protocol_stats stats (p # ps) = do {
     routed \<leftarrow> idx (Routed stats) p;
     dropped \<leftarrow> idx (Dropped stats) p;
     malformed \<leftarrow> idx (Malformed stats) p;
     ignored \<leftarrow> idx (Ignored_count stats) p;
     part \<leftarrow> idx (Partial stats) p;
     rest \<leftarrow> protocol_stats stats ps;
     Some (\<lparr>ps_Protocol = Protocol_String (of_nat p), ps_Routed = routed, ps_Dropped = dropped, ps_Malformed = malformed,
        ps_Ignored = ignored, ps_Partial = part\<rparr> # rest)
   }"

text \<open>The totals of the text line are sums of the counters of the protocols.\<close>

record totals =
  tot_routed :: u64
  tot_dropped :: u64
  tot_ignored :: u64
  tot_malformed :: u64
  tot_partial :: u64

fun total_loop :: "Statistics \<Rightarrow> nat list \<Rightarrow> totals \<Rightarrow> totals run" where
  "total_loop stats [] t = Some t"
| "total_loop stats (p # ps) t = do {
     routed \<leftarrow> idx (Routed stats) p;
     dropped \<leftarrow> idx (Dropped stats) p;
     ignored \<leftarrow> idx (Ignored_count stats) p;
     malformed \<leftarrow> idx (Malformed stats) p;
     part \<leftarrow> idx (Partial stats) p;
     total_loop stats ps \<lparr>tot_routed = tot_routed t + routed, tot_dropped = tot_dropped t + dropped,
       tot_ignored = tot_ignored t + ignored, tot_malformed = tot_malformed t + malformed, tot_partial = tot_partial t + part\<rparr>
   }"

definition printStats :: "Statistics \<Rightarrow> bool \<Rightarrow> (statsOutput \<times> totals option) run" where
  "printStats stats json = do {
     protocols \<leftarrow> protocol_stats stats protocol_range;
     let view = \<lparr>so_Type = ''stats'', so_Captured = Captured stats, so_Events = Events stats,
       so_OutputDropped = OutputDropped stats, so_DeviceHighWater = DeviceHighWater stats,
       so_LinkHighWater = LinkHighWater stats, so_DNSHighWater = DNSHighWater stats,
       so_DeviceEvictions = DeviceEvictions stats, so_LinkEvictions = LinkEvictions stats,
       so_DNSEvictions = DNSEvictions stats, so_Protocols = protocols\<rparr>;
     if json then Some (view, None)
     else do {
       t \<leftarrow> total_loop stats protocol_range
         \<lparr>tot_routed = 0, tot_dropped = 0, tot_ignored = 0, tot_malformed = 0, tot_partial = 0\<rparr>;
       Some (view, Some t)
     }
   }"

section \<open>Trimming and splitting\<close>

definition visible :: "char \<Rightarrow> bool" where
  "visible c = (32 < (of_char c :: nat) \<and> (of_char c :: nat) < 128)"

lemma space_runes_bytes:
  "r \<in> set space_runes \<Longrightarrow> r \<noteq> []"
  "r \<in> set space_runes \<Longrightarrow> c \<in> set r \<Longrightarrow> \<not> visible c"
  by (auto simp: space_runes_def visible_def)

lemma strip_one_None: "(\<And>r. r \<in> set rs \<Longrightarrow> r \<noteq> [] \<and> hd s \<notin> set r) \<Longrightarrow> strip_one rs s = None"
proof (induction rs)
  case (Cons r rs)
  have "hd s \<in> set r" if "take (length r) s = r" "r \<noteq> []"
    using that by (cases r; cases s) auto
  then show ?case using Cons by auto
qed simp

lemma strip_all_plain:
  assumes "visible (hd s)" "\<And>r. r \<in> set rs \<Longrightarrow> r \<noteq> [] \<and> (\<forall>c \<in> set r. \<not> visible c)"
  shows "strip_all rs s = s"
proof -
  have "strip_one rs s = None" by (rule strip_one_None) (use assms in blast)
  then show ?thesis by (subst strip_all.simps) simp
qed

lemma TrimSpace_plain: "visible (hd s) \<Longrightarrow> visible (last s) \<Longrightarrow> TrimSpace s = s"
  unfolding TrimSpace_def
  by (subst strip_all_plain, simp, use space_runes_bytes in blast)
    (subst strip_all_plain, simp add: hd_rev, use space_runes_bytes in fastforce, simp)

lemma Split_plain: "c \<notin> set s \<Longrightarrow> Split c s = [s]"
  by (induction s) auto

lemma Split_append: "c \<notin> set s \<Longrightarrow> Split c (s @ c # t) = s # Split c t"
  by (induction s) auto

lemma Split_Join: "names \<noteq> [] \<Longrightarrow> \<forall>s \<in> set names. c \<notin> set s \<Longrightarrow> Split c (Join [c] names) = names"
proof (induction names rule: induct_list012)
  case (3 x y zs)
  then show ?case using Split_append [of c x "Join [c] (y # zs)"] by simp
qed (simp_all add: Split_plain)

lemma Join_ends:
  "names \<noteq> [] \<Longrightarrow> [] \<notin> set names \<Longrightarrow> Join sep names \<noteq> [] \<and> hd (Join sep names) = hd (hd names) \<and> last (Join sep names) = last (last names)"
  by (induction names rule: induct_list012) auto

lemma set_Join: "set (Join sep names) \<subseteq> set sep \<union> (\<Union>(set ` set names))"
  by (induction names rule: induct_list012) auto

lemma ToLower_plain: "\<forall>c \<in> set s. visible c \<and> \<not> (65 \<le> (of_char c :: nat) \<and> (of_char c :: nat) \<le> 90) \<Longrightarrow> ToLower lower s = s"
  by (induction s) (auto simp: ToLower_def ascii_def visible_def lower_char_def)

lemma protocol_range_numbers: "protocol_range = [1, 2, 3, 4]"
  by (simp add: protocol_range_def protocol_defs upt_rec)

lemma protocolNames_eq:
  "protocolNames ps = (if Has ps ProtocolLLDP then [''lldp''] else []) @ (if Has ps ProtocolCDP then [''cdp''] else []) @
     (if Has ps ProtocolMNDP then [''mndp''] else []) @ (if Has ps ProtocolMDNS then [''mdns''] else [])"
  by (simp add: protocolNames_def protocol_range_numbers Protocol_String_def protocol_defs)

lemma protocolNames_plain:
  assumes "s \<in> set (protocolNames ps)"
  shows "s \<noteq> [] \<and> visible (hd s) \<and> visible (last s) \<and> (\<forall>c \<in> set s. visible c \<and> \<not> (65 \<le> (of_char c :: nat) \<and> (of_char c :: nat) \<le> 90) \<and> c \<noteq> CHR '','') \<and>
    TrimSpace s = s"
proof -
  have "s \<in> {''lldp'', ''cdp'', ''mndp'', ''mdns''}" using assms by (auto simp: protocolNames_eq split: if_splits)
  then have "s \<noteq> [] \<and> visible (hd s) \<and> visible (last s) \<and> (\<forall>c \<in> set s. visible c \<and> \<not> (65 \<le> (of_char c :: nat) \<and> (of_char c :: nat) \<le> 90) \<and> c \<noteq> CHR '','')"
    by (auto simp: visible_def)
  then show ?thesis using TrimSpace_plain by blast
qed

lemma single_bit: "(ps :: u8) AND 2 ^ k \<noteq> 0 \<Longrightarrow> ps AND 2 ^ k = 2 ^ k"
  by (simp add: and_exp_eq_0_iff_not_bit bit_eq_iff) (auto simp: bit_simps)

lemma Has_bits:
  "ps AND ProtocolsLLDP = (if Has ps ProtocolLLDP then ProtocolsLLDP else 0)"
  "ps AND ProtocolsCDP = (if Has ps ProtocolCDP then ProtocolsCDP else 0)"
  "ps AND ProtocolsMNDP = (if Has ps ProtocolMNDP then ProtocolsMNDP else 0)"
  "ps AND ProtocolsMDNS = (if Has ps ProtocolMDNS then ProtocolsMDNS else 0)"
  using single_bit [of ps 0] single_bit [of ps 1] single_bit [of ps 2] single_bit [of ps 3]
  unfolding Has_def Set_simps by (simp_all add: protocol_set_defs)

lemma parse_protocolNames: "parse_names (protocolNames ps) 0 = Inr (ps AND ProtocolsAll)"
proof -
  have "TrimSpace s = s" if "s \<in> {''lldp'', ''cdp'', ''mndp'', ''mdns''}" for s
    using that TrimSpace_plain [of s] by (auto simp: visible_def)
  then show ?thesis
    unfolding protocolNames_eq ProtocolsAll_def bit.conj_disj_distrib Has_bits by (auto simp: Let_def ac_simps)
qed

lemma Join_protocolNames:
  assumes "ps AND ProtocolsAll \<noteq> 0"
  defines "value \<equiv> Join '','' (protocolNames ps)"
  shows "TrimSpace (ToLower lower value) = value" "Split CHR '','' value = protocolNames ps" "value \<notin> {[], ''default'', ''all''}"
proof -
  have ne: "protocolNames ps \<noteq> []" using parse_protocolNames [of ps] assms(1) by auto
  have nil: "[] \<notin> set (protocolNames ps)" using protocolNames_plain by blast
  note ends = Join_ends [OF ne nil, of "'',''", folded value_def]
  have "hd (protocolNames ps) \<in> set (protocolNames ps)" "last (protocolNames ps) \<in> set (protocolNames ps)" using ne by simp_all
  then have v: "visible (hd value)" "visible (last value)" using protocolNames_plain ends by metis+
  have "\<forall>c \<in> set value. visible c \<and> \<not> (65 \<le> (of_char c :: nat) \<and> (of_char c :: nat) \<le> 90)"
    using set_Join [of "'',''" "protocolNames ps"] protocolNames_plain unfolding value_def by (fastforce simp: visible_def)
  from ToLower_plain [OF this] show "TrimSpace (ToLower lower value) = value" using TrimSpace_plain v by metis
  show split: "Split CHR '','' value = protocolNames ps"
    unfolding value_def by (rule Split_Join [OF ne]) (use protocolNames_plain in blast)
  have "protocolNames ps \<noteq> [s]" if "s \<in> {''default'', ''all''}" for s using that by (auto simp: protocolNames_eq)
  moreover have "Split CHR '','' s = [s]" if "s \<in> {''default'', ''all''}" for s using that by auto
  ultimately show "value \<notin> {[], ''default'', ''all''}" using split ends by (metis insert_iff empty_iff)
qed

text \<open>
  (C21) What the program says about its protocols is what it does: the description of a selection parses back
  to the selection, whatever its bits, and the description of the default names the protocols that a
  configuration without a selection captures.
\<close>

theorem description_roundtrip:
  "(if ps AND ProtocolsAll \<noteq> 0
    then parseProtocols lower (protocolDescription goos ps) = Inr (ps AND ProtocolsAll)
    else protocolNames ps = []) \<and>
   protocolDescription goos 0 = Join '','' (protocolNames (cfg_Protocols (withDefaults goos (command_config opts 0)))) @ '' (platform default)''"
proof -
  have "parseProtocols lower (protocolDescription goos ps) = Inr (ps AND ProtocolsAll)" if "ps AND ProtocolsAll \<noteq> 0"
    using Join_protocolNames [OF that] that parse_protocolNames [of ps]
    by (auto simp: protocolDescription_def parseProtocols_def Let_def)
  moreover have "protocolNames ps = []" if "ps AND ProtocolsAll = 0"
    using that unfolding protocolNames_eq ProtocolsAll_def bit.conj_disj_distrib Has_bits or_eq_0_iff
    by (simp add: protocol_set_defs split: if_splits)
  moreover have "protocolNames ProtocolsAll = [''lldp'', ''cdp'', ''mndp'', ''mdns'']" "protocolNames (ProtocolsMNDP OR ProtocolsMDNS) = [''mndp'', ''mdns'']"
    by (simp_all add: protocolNames_eq ProtocolsAll_def Has_def protocol_set_defs)
  ultimately show ?thesis by (simp add: protocolDescription_def withDefaults_def command_config_def)
qed

lemma parse_names_known:
  "parse_names names r = Inr ps \<Longrightarrow> r AND NOT ProtocolsAll = 0 \<Longrightarrow> ps AND NOT ProtocolsAll = 0"
  by (induction names arbitrary: r) (auto simp: Let_def bit.conj_disj_distrib2 ProtocolsAll_eq protocol_set_defs split: if_splits)

lemma parseProtocols_known: "parseProtocols lower value = Inr ps \<Longrightarrow> ps AND NOT ProtocolsAll = 0"
  by (auto simp: parseProtocols_def Let_def split: if_splits intro: parse_names_known)

lemma New_no_rules:
  assumes "cfg_Rules config = []"
  shows "case validate goos (withDefaults goos config) of
      Some e \<Rightarrow> New goos re_compile config = Some (Inl (ConfigError e))
    | None \<Rightarrow> \<exists>e. New goos re_compile config = Some (Inr e)"
proof (cases "validate goos (withDefaults goos config)")
  case None
  have "cfg_Rules (withDefaults goos config) = []" using assms by (simp add: withDefaults_def)
  then have "CompileClassifier re_compile (cfg_Rules (withDefaults goos config)) \<noteq> Some (Inl x)" for x
    using no_rules by metis
  moreover obtain res where "New goos re_compile config = Some res"
    and "case res of Inl err \<Rightarrow> validate goos (withDefaults goos config) \<noteq> None \<or>
        (\<exists>e. CompileClassifier re_compile (cfg_Rules (withDefaults goos config)) = Some (Inl e))
      | Inr e \<Rightarrow> fresh e \<and> en_cfg e = withDefaults goos config"
    using runs_exD [OF New_runs [of goos re_compile config]] by blast
  ultimately show ?thesis using None by (cases res) auto
qed (simp add: New_def Let_def)

lemma command_config_validate:
  assumes "ps AND NOT ProtocolsAll = 0"
  shows "validate goos (withDefaults goos (command_config opts ps)) =
    (if goos = ''windows'' \<and> ps AND (ProtocolsLLDP OR ProtocolsCDP) \<noteq> 0
     then Some (UnsupportedProtocolsError goos (ps AND (ProtocolsLLDP OR ProtocolsCDP))) else None)"
  using assms
  by (auto simp: validate_def withDefaults_def command_config_def or_default_def default_defs Second_def ProtocolsAll_def protocol_set_defs)

section \<open>Exit codes\<close>

text \<open>How the capture on an engine ends: the dashboard's way, or the plain one where there is no dashboard.\<close>

definition capture_end :: "options \<Rightarrow> dashboard_end \<Rightarrow> run_error option \<Rightarrow> run_error option" where
  "capture_end opts dash ended =
     (if opt_json opts \<or> opt_plain opts then ended else (case dash of InitFailed _ \<Rightarrow> ended | DashboardEnded err \<Rightarrow> err))"

definition usage_error :: "(string \<Rightarrow> string) \<Rightarrow> parsed_flags \<Rightarrow> bool" where
  "usage_error lower parsed =
     (case parsed of
        FlagHelp \<Rightarrow> False
      | FlagError \<Rightarrow> True
      | Flags opts args \<Rightarrow> args \<noteq> [] \<or> (\<exists>e. parseProtocols lower (opt_protocols opts) = Inl e))"

lemma capture_result: "snd (capture goos dash ended opts interfaces ps) = capture_end opts dash ended"
  by (auto simp: capture_def capture_end_def Let_def split: dashboard_end.splits)

lemma capture_report_cases:
  "fst (capture_report goos ps err) = (if \<exists>m. err = Some (OtherError m) then 1 else 0)"
  "err = Some (OtherError m) \<Longrightarrow> CaptureFailed (OtherError m) \<in> set (snd (capture_report goos ps err))"
  by (auto simp: capture_report_def split: option.splits run_error.splits)

text \<open>
  (C20) The exit code of the command: 2 for a wrong command line, and only for it; 1 for LLDP or CDP on
  Windows, which is said in a line of its own, or for a capture that ends with an error, which is printed;
  0 otherwise, so also when the capture was cancelled or its time was over. No other configuration is
  rejected, since the command sets no limits.
\<close>

theorem command_exit:
  "\<exists>code out. command_run goos lower re_compile dash engine_run parsed = Some (code, out) \<and> code \<in> {0, 1, 2} \<and>
     (code = 2) = usage_error lower parsed \<and>
     (code = 1) = (\<exists>opts ps. parsed = Flags opts [] \<and> parseProtocols lower (opt_protocols opts) = Inr ps \<and>
       (if goos = ''windows'' \<and> ps AND (ProtocolsLLDP OR ProtocolsCDP) \<noteq> 0 then out = [LiveCaptureOnly goos]
        else \<exists>e m. New goos re_compile (command_config opts ps) = Some (Inr e) \<and>
          capture_end opts (dash e) (engine_run e) = Some (OtherError m) \<and> CaptureFailed (OtherError m) \<in> set out))"
proof (cases parsed)
  case (Flags opts args)
  show ?thesis
  proof (cases "usage_error lower parsed")
    case True
    then show ?thesis using Flags by (auto simp: usage_error_def command_run_def)
  next
    case False
    then obtain ps where ps: "args = []" "parseProtocols lower (opt_protocols opts) = Inr ps"
      by (cases "parseProtocols lower (opt_protocols opts)") (auto simp: usage_error_def Flags)
    note V = command_config_validate [OF parseProtocols_known [OF ps(2)], of goos opts]
    note N = New_no_rules [of "command_config opts ps" goos re_compile, unfolded V]
    show ?thesis
    proof (cases "goos = ''windows'' \<and> ps AND (ProtocolsLLDP OR ProtocolsCDP) \<noteq> 0")
      case True
      then show ?thesis using N False by (simp add: command_run_def Flags ps command_config_def)
    next
      case ok: False
      then obtain e where e: "New goos re_compile (command_config opts ps) = Some (Inr e)"
        using N by (auto simp: command_config_def)
      obtain out err where c: "capture goos (dash e) (engine_run e) opts (splitList (opt_interfaces opts)) ps = (out, err)" by fastforce
      have err: "err = capture_end opts (dash e) (engine_run e)" using capture_result c by (metis snd_conv)
      obtain code report where r: "capture_report goos ps err = (code, report)" by fastforce
      have "code = (if \<exists>m. err = Some (OtherError m) then 1 else 0)"
        "err = Some (OtherError m) \<Longrightarrow> CaptureFailed (OtherError m) \<in> set report" for m
        using capture_report_cases(1) [of goos ps err] capture_report_cases(2) [of err _ goos ps] r by auto
      then show ?thesis using ok e c r False
        by (auto simp: command_run_def Flags ps err command_config_def)
    qed
  qed
qed (simp_all add: command_run_def usage_error_def)

section \<open>Printing never panics\<close>

lemma bestDeviceMAC_runs: "runs (bestDeviceMAC device) (\<lambda>_. True)"
  by (cases device) (auto simp: bestDeviceMAC_def wp)

lemma vendorSummary_runs:
  assumes "vendor_total (lib_vendor lib)"
  shows "runs (vendorSummary lib device) (\<lambda>_. True)"
proof -
  have "runs (LookupMACVendor (lib_vendor lib) mac) (\<lambda>_. True)" for mac
    using assms by (auto simp: vendor_total_def runs_def split: option.splits)
  then show ?thesis
    by (auto simp: vendorSummary_def wp intro!: runs_mono [OF bestDeviceMAC_runs] runs_mono [of "LookupMACVendor (lib_vendor lib) _"])
qed

lemma field_text_runs: "runs (field_text f) (\<lambda>_. True)"
  using Current_total [of f] by (auto simp: field_text_def wp runs_def split: option.splits)

lemma makeOutputEvent_runs:
  assumes "vendor_total (lib_vendor lib)"
  shows "runs (makeOutputEvent lib now kind changed d link) (\<lambda>_. True)"
  unfolding makeOutputEvent_def Let_def
  by (auto simp: wp split: prod.splits
      intro!: runs_mono [OF bestDeviceMAC_runs] runs_mono [OF vendorSummary_runs [OF assms]] runs_mono [OF field_text_runs])

text \<open>The totals are the sums of the counters, as 64-bit words.\<close>

lemma printStats_runs:
  assumes "length (Routed st) = 5" "length (Dropped st) = 5" "length (Malformed st) = 5" "length (Ignored_count st) = 5" "length (Partial st) = 5"
  shows "runs (printStats st json) (\<lambda>(view, t).
    map ps_Routed (so_Protocols view) = tl (Routed st) \<and> map ps_Dropped (so_Protocols view) = tl (Dropped st) \<and>
    (case t of None \<Rightarrow> json
     | Some t \<Rightarrow> \<not> json \<and> tot_routed t = sum_list (map ps_Routed (so_Protocols view)) \<and>
         tot_dropped t = sum_list (map ps_Dropped (so_Protocols view))))"
proof -
  obtain a b c d e where "Routed st = [a, b, c, d, e]" using assms(1) by (auto simp: length_Suc_conv eval_nat_numeral)
  moreover obtain a b c d e where "Dropped st = [a, b, c, d, e]" using assms(2) by (auto simp: length_Suc_conv eval_nat_numeral)
  ultimately show ?thesis
    using assms(3-) by (simp add: printStats_def protocol_range_numbers wp Let_def ac_simps numeral_2_eq_2 numeral_3_eq_3)
qed

end
