(* ===== verification/Dashboard.thy ===== *)
theory Dashboard
  imports CommandLine "HOL-Library.Multiset" "HOL-Library.List_Lexorder" "HOL-Library.Char_ord" "HOL-Library.Product_Lexorder"
    "HOL-Library.Signed_Division"
begin

text \<open>
  The model of \<open>cmd/omnidiscover/tui.go\<close>: the terminal dashboard over the snapshots of the engine. The widgets
  of the toolkit are the data the code gives them: titles, cells, column widths and rectangles; colours and
  the drawing are left out. The rows of the dashboard point into its snapshot, which is only replaced before
  the rows are built anew, so a row holds what it points to. What the toolkit and the clock deliver, the
  keys, the size of the terminal and the times, are arguments. Positions are integers of any size.
\<close>

section \<open>Filters and keys\<close>

datatype dashboardFilter = filterAll | filterLLDP | filterCDP | filterMNDP | filterMDNS | filterPhysical | filterSegment

definition filter_String :: "dashboardFilter \<Rightarrow> string" where
  "filter_String f =
     (case f of
        filterLLDP \<Rightarrow> ''LLDP'' | filterCDP \<Rightarrow> ''CDP'' | filterMNDP \<Rightarrow> ''MNDP'' | filterMDNS \<Rightarrow> ''mDNS''
      | filterPhysical \<Rightarrow> ''PHYSICAL'' | filterSegment \<Rightarrow> ''SEGMENT'' | filterAll \<Rightarrow> ''ALL'')"

definition matches :: "dashboardFilter \<Rightarrow> DiscoveredLink \<Rightarrow> bool" where
  "matches f link =
     (case f of
        filterLLDP \<Rightarrow> Has (link_Protocols link) ProtocolLLDP
      | filterCDP \<Rightarrow> Has (link_Protocols link) ProtocolCDP
      | filterMNDP \<Rightarrow> Has (link_Protocols link) ProtocolMNDP
      | filterMDNS \<Rightarrow> Has (link_Protocols link) ProtocolMDNS
      | filterPhysical \<Rightarrow> link_Kind link = PhysicalAdjacency
      | filterSegment \<Rightarrow> link_Kind link = SegmentPresence
      | filterAll \<Rightarrow> True)"

section \<open>State\<close>

record dashboardConfig =
  dc_interfaces :: string
  dc_protocols :: string

record table =
  tb_Title :: string
  tb_Rows :: "string list list"
  tb_ColumnWidths :: "int list"
  tb_Rect :: "int \<times> int \<times> int \<times> int"

record helpText =
  pa_Text :: string
  pa_Rect :: "int \<times> int \<times> int \<times> int"

record dashboardRow =
  row_device :: DiscoveredDevice
  row_link :: DiscoveredLink
  row_name :: string
  row_address :: string
  row_mac :: string
  row_vendor :: string
  row_platform :: string
  row_neighbor :: string
  row_protocols :: string
  row_lastSeen :: Time

record dashboard =
  da_config :: dashboardConfig
  da_protocolTable :: table
  da_discovery :: table
  da_help :: helpText
  da_snapshot :: Snapshot
  da_devices :: "DeviceKey \<rightharpoonup> DiscoveredDevice"
  da_rows :: "dashboardRow list"
  da_filter :: dashboardFilter
  da_offset :: int
  da_width :: int
  da_height :: int

text \<open>The dot and the bullet of the titles, in UTF-8.\<close>

definition dot :: string where "dot = [CHR 0xC2, CHR 0xB7]"
definition bullet :: string where "bullet = [CHR 0xE2, CHR 0x80, CHR 0xA2]"

definition newDashboard :: "dashboardConfig \<Rightarrow> dashboard" where
  "newDashboard config =
     \<lparr>da_config = config,
      da_protocolTable = \<lparr>tb_Title = '' Protocol Findings '', tb_Rows = [], tb_ColumnWidths = [], tb_Rect = (0, 0, 0, 0)\<rparr>,
      da_discovery = \<lparr>tb_Title = '' Discovered Links '' @ dot @ '' ALL '', tb_Rows = [], tb_ColumnWidths = [], tb_Rect = (0, 0, 0, 0)\<rparr>,
      da_help = \<lparr>pa_Text = [], pa_Rect = (0, 0, 0, 0)\<rparr>,
      da_snapshot = \<lparr>snap_Devices = slab_empty, snap_Links = slab_empty\<rparr>, da_devices = Map.empty, da_rows = [],
      da_filter = filterAll, da_offset = 0, da_width = 0, da_height = 0\<rparr>"

definition setFilter :: "dashboardFilter \<Rightarrow> dashboard \<Rightarrow> dashboard" where
  "setFilter f d = d\<lparr>da_filter := f, da_offset := 0\<rparr>"

definition visibleRows :: "dashboard \<Rightarrow> int" where
  "visibleRows d = max 1 (da_height d - 13)"

section \<open>Formats\<close>

definition addressSummary :: "library \<Rightarrow> DiscoveredDevice \<Rightarrow> string" where
  "addressSummary lib d =
     (case dev_Addresses d of
        [] \<Rightarrow> ''-''
      | a # as \<Rightarrow> lib_addr lib a @ (if as \<noteq> [] then '' +'' @ decimal (length as) else []))"

definition serviceSummary :: "DiscoveredDevice \<Rightarrow> string" where
  "serviceSummary d =
     (case live (dev_Services d) of
        [] \<Rightarrow> []
      | v # vs \<Rightarrow>
          let name = go_string (svc_Type v);
              name = (if name = [] then go_string (svc_Instance v) else name)
          in name @ (if vs \<noteq> [] then '' +'' @ decimal (length vs) else []))"

definition vlanSummary :: "u16 list \<Rightarrow> string" where
  "vlanSummary vlans =
     (case vlans of
        [] \<Rightarrow> ''-''
      | [v] \<Rightarrow> decimal (unat v)
      | v # vs \<Rightarrow> decimal (unat v) @ '' +'' @ decimal (length vs))"

fun firstNonEmpty :: "string list \<Rightarrow> string" where
  "firstNonEmpty [] = ''-''"
| "firstNonEmpty (v # vs) = (if v \<noteq> [] then v else firstNonEmpty vs)"

text \<open>\<open>strings.Replace(s, old, new, 1)\<close>, for an \<open>old\<close> that is not empty.\<close>

fun replace_first :: "string \<Rightarrow> string \<Rightarrow> string \<Rightarrow> string" where
  "replace_first old new [] = []"
| "replace_first old new (c # s) =
     (if take (length old) (c # s) = old then new @ drop (length old) (c # s) else c # replace_first old new s)"

definition formatCount :: "library \<Rightarrow> u64 \<Rightarrow> string" where
  "formatCount lib value =
     (if value < 1000 then decimal (unat value)
      else if value < 1000000 then lib_fixed1 lib (unat value) 1000 @ ''k''
      else lib_fixed1 lib (unat value) 1000000 @ ''m'')"

definition shortDuration :: "library \<Rightarrow> Duration \<Rightarrow> string" where
  "shortDuration lib duration =
     (let duration = (if duration < 0 then 0 else duration)
      in if duration < 60 * Second then show_int (duration div Second) @ ''s''
         else if duration < 3600 * Second then show_int (duration div (60 * Second)) @ ''m''
         else show_int (lib_hours lib duration) @ ''h'')"

text \<open>The widths of columns: as wanted, the rest for the last one, or in proportion but at least 5.\<close>

fun fit_loop :: "int \<Rightarrow> int \<Rightarrow> int list \<Rightarrow> int list run" where
  "fit_loop available wanted [] = Some []"
| "fit_loop available wanted (w # ws) = do {
     v \<leftarrow> (if wanted = 0 then None else Some (max 5 ((w * available) sdiv wanted)));
     vs \<leftarrow> fit_loop available wanted ws;
     Some (v # vs)
   }"

definition fitWidths :: "int \<Rightarrow> int list \<Rightarrow> int list run" where
  "fitWidths available desired =
     (let wanted = sum_list desired
      in if available \<ge> wanted then do {
           w \<leftarrow> idx desired (length desired - 1);
           upd desired (length desired - 1) (w + (available - wanted))
         }
         else fit_loop available wanted desired)"

section \<open>Rows\<close>

fun index_devices :: "DiscoveredDevice list \<Rightarrow> (DeviceKey \<rightharpoonup> DiscoveredDevice) \<Rightarrow> DeviceKey \<rightharpoonup> DiscoveredDevice" where
  "index_devices [] m = m"
| "index_devices (d # ds) m = index_devices ds (m(dev_Key d \<mapsto> d))"

definition protocol_label :: "library \<Rightarrow> DiscoveredDevice \<Rightarrow> DiscoveredLink \<Rightarrow> string" where
  "protocol_label lib device link =
     (let label = Join ''+'' (protocolNames (link_Protocols link))
      in if Has (link_Protocols link) ProtocolMDNS \<and> live (dev_Services device) \<noteq> [] then
           let label = replace_first ''mdns'' ''mdns/nsd'' label
           in if \<exists>v \<in> set (live (dev_Services device)). Profile (lib_fold_eq lib) (Some v) = ServiceProfileGoogleCast
              then replace_first ''mdns/nsd'' ''mdns/cast'' label else label
         else label)"

definition make_row :: "library \<Rightarrow> DiscoveredDevice \<Rightarrow> DiscoveredLink \<Rightarrow> dashboardRow run" where
  "make_row lib device link = do {
     system \<leftarrow> field_text (dev_SystemName device);
     host \<leftarrow> field_text (dev_HostName device);
     protocol_id \<leftarrow> field_text (dev_ProtocolDeviceID device);
     let name = firstNonEmpty [system, host, protocol_id, deviceKey lib (dev_Key device)];
     model \<leftarrow> field_text (dev_Model device);
     platform_name \<leftarrow> field_text (dev_Platform device);
     let platform = firstNonEmpty [model, platform_name, ''-''];
     let platform = (if model \<noteq> [] \<and> platform_name \<noteq> [] \<and> model \<noteq> platform_name
        then model @ '' / '' @ platform_name else platform);
     remote \<leftarrow> field_text (link_RemoteInterface link);
     let neighbor = firstNonEmpty [remote, go_string (id_Value (link_RemotePort link)), serviceSummary device, ''-''];
     mac \<leftarrow> bestDeviceMAC (Some device);
     vendor \<leftarrow> vendorSummary lib (Some device);
     Some \<lparr>row_device = device, row_link = link, row_name = name, row_address = addressSummary lib device,
       row_mac = macString mac, row_vendor = vendor, row_platform = platform, row_neighbor = neighbor,
       row_protocols = protocol_label lib device link, row_lastSeen = link_LastSeen link\<rparr>
   }"

fun row_loop ::
  "library \<Rightarrow> (DeviceKey \<rightharpoonup> DiscoveredDevice) \<Rightarrow> dashboardFilter \<Rightarrow> DiscoveredLink list \<Rightarrow> dashboardRow list run" where
  "row_loop lib devices f [] = Some []"
| "row_loop lib devices f (link # links) =
     (case devices (link_Device link) of
        None \<Rightarrow> row_loop lib devices f links
      | Some device \<Rightarrow>
          if \<not> matches f link then row_loop lib devices f links
          else do {
            row \<leftarrow> make_row lib device link;
            rows \<leftarrow> row_loop lib devices f links;
            Some (row # rows)
          })"

text \<open>The order of \<open>sort.SliceStable\<close>: the newest first, then the names as bytes, then the interfaces.\<close>

definition row_key :: "dashboardRow \<Rightarrow> int \<times> string \<times> int" where
  "row_key r = (- row_lastSeen r, row_name r, lk_InterfaceIndex (link_Key (row_link r)))"

definition rebuildRows :: "library \<Rightarrow> dashboard \<Rightarrow> dashboard run" where
  "rebuildRows lib d = do {
     let devices = index_devices (live (snap_Devices (da_snapshot d))) Map.empty;
     rows \<leftarrow> row_loop lib devices (da_filter d) (live (snap_Links (da_snapshot d)));
     Some (d\<lparr>da_devices := devices, da_rows := sort_key row_key rows\<rparr>)
   }"

section \<open>Drawing\<close>

definition layout :: "dashboard \<Rightarrow> dashboard" where
  "layout d =
     (let statsHeight = 8
      in d\<lparr>da_protocolTable := (da_protocolTable d)\<lparr>tb_Rect := (0, 0, da_width d, statsHeight)\<rparr>,
           da_discovery := (da_discovery d)\<lparr>tb_Rect := (0, statsHeight, da_width d, da_height d - 2)\<rparr>,
           da_help := (da_help d)\<lparr>pa_Rect := (0, da_height d - 2, da_width d, da_height d)\<rparr>\<rparr>)"

fun count_protocols :: "nat list \<Rightarrow> ProtocolSet \<Rightarrow> nat list \<Rightarrow> nat list run" where
  "count_protocols [] s counts = Some counts"
| "count_protocols (p # ps) s counts =
     (if Has s (of_nat p) then do {
        n \<leftarrow> idx counts p;
        counts \<leftarrow> upd counts p (n + 1);
        count_protocols ps s counts
      }
      else count_protocols ps s counts)"

fun count_all :: "ProtocolSet list \<Rightarrow> nat list \<Rightarrow> nat list run" where
  "count_all [] counts = Some counts"
| "count_all (s # ss) counts = do { counts \<leftarrow> count_protocols protocol_range s counts; count_all ss counts }"

fun protocol_rows :: "library \<Rightarrow> Statistics \<Rightarrow> nat list \<Rightarrow> nat list \<Rightarrow> nat list \<Rightarrow> string list list run" where
  "protocol_rows lib stats deviceCounts linkCounts [] = Some []"
| "protocol_rows lib stats deviceCounts linkCounts (p # ps) = do {
     dropped \<leftarrow> idx (Dropped stats) p;
     malformed \<leftarrow> idx (Malformed stats) p;
     let health = (if malformed \<noteq> 0 then ''MALFORMED'' else if dropped \<noteq> 0 then ''DROPS'' else ''OK'');
     let name = (if of_nat p = ProtocolMDNS then ''MDNS/NSD'' else map upper_char (Protocol_String (of_nat p)));
     devices \<leftarrow> idx deviceCounts p;
     links \<leftarrow> idx linkCounts p;
     routed \<leftarrow> idx (Routed stats) p;
     ignored \<leftarrow> idx (Ignored_count stats) p;
     part \<leftarrow> idx (Partial stats) p;
     rows \<leftarrow> protocol_rows lib stats deviceCounts linkCounts ps;
     Some ([name, decimal devices, decimal links, formatCount lib routed, formatCount lib dropped, formatCount lib ignored,
        formatCount lib malformed, formatCount lib part, health] # rows)
   }"

definition updateProtocolTable :: "library \<Rightarrow> Statistics \<Rightarrow> dashboard \<Rightarrow> dashboard run" where
  "updateProtocolTable lib stats d = do {
     deviceCounts \<leftarrow> count_all (map dev_Protocols (live (snap_Devices (da_snapshot d)))) (replicate 5 0);
     linkCounts \<leftarrow> count_all (map link_Protocols (live (snap_Links (da_snapshot d)))) (replicate 5 0);
     rows \<leftarrow> protocol_rows lib stats deviceCounts linkCounts protocol_range;
     widths \<leftarrow> fitWidths (da_width d - 2) [11, 9, 9, 11, 11, 11, 12, 10, 12];
     Some (d\<lparr>da_protocolTable := (da_protocolTable d)
       \<lparr>tb_Rows := [''Protocol'', ''Devices'', ''Links'', ''Routed'', ''Dropped'', ''Ignored'', ''Malformed'', ''Partial'', ''Health''] # rows,
        tb_ColumnWidths := widths\<rparr>\<rparr>)
   }"

text \<open>The cells of a row, at the time \<open>now\<close>, and at the time \<open>later\<close> at which the row reads the clock again.\<close>

definition row_cells :: "library \<Rightarrow> bool \<Rightarrow> Time \<Rightarrow> Time \<Rightarrow> dashboardRow \<Rightarrow> string list" where
  "row_cells lib wide now later row =
     (let category = (if link_Kind (row_link row) = PhysicalAdjacency then ''PHYSICAL'' else ''SEGMENT'');
          age = shortDuration lib (Time_Sub now (row_lastSeen row));
          ttl = shortDuration lib (Time_Sub (link_ExpiresAt (row_link row)) later);
          uptime = uptimeSummary (Some (row_device row)) now;
          iface = go_string (link_LocalInterface (row_link row))
      in if wide then [category, row_name row, row_mac row, row_vendor row, row_address row, row_platform row, iface,
             row_neighbor row, vlanSummary (link_VLANs (row_link row)), row_protocols row, age, uptime, ttl]
         else [row_name row, row_mac row, row_vendor row, row_address row, iface, category, row_protocols row, age, uptime])"

definition wide_header :: "string list" where
  "wide_header = [''Category'', ''Device'', ''MAC'', ''Vendor'', ''Address'', ''Model / Platform'', ''Interface'', ''Neighbor / Service'',
     ''VLAN'', ''Protocols'', ''Age'', ''Uptime'', ''TTL'']"

definition narrow_header :: "string list" where
  "narrow_header = [''Device'', ''MAC'', ''Vendor'', ''Address'', ''Interface'', ''Category'', ''Protocols'', ''Age'', ''Uptime'']"

definition wide_widths :: "int list" where
  "wide_widths = [11, 18, 18, 20, 18, 18, 11, 17, 7, 13, 8, 14, 8]"

definition narrow_widths :: "int list" where
  "narrow_widths = [19, 18, 18, 18, 11, 11, 13, 8, 14]"

text \<open>\<open>rows[offset:end]\<close> with integer bounds.\<close>

definition window :: "'a list \<Rightarrow> int \<Rightarrow> int \<Rightarrow> 'a list run" where
  "window xs i j = (if i < 0 \<or> j < 0 then None else gslice xs (nat i) (nat j))"

definition updateDiscoveryTable :: "library \<Rightarrow> (nat \<Rightarrow> Time) \<Rightarrow> dashboard \<Rightarrow> dashboard run" where
  "updateDiscoveryTable lib clock d = do {
     let now = clock 0;
     let count = int (length (da_rows d));
     let available = visibleRows d;
     let maxOffset = max 0 (count - available);
     let offset = (if da_offset d > maxOffset then maxOffset else da_offset d);
     let last_row = min count (offset + available);
     let wide = da_width d \<ge> 160;
     widths \<leftarrow> fitWidths (da_width d - 2) (if wide then wide_widths else narrow_widths);
     shown_rows \<leftarrow> window (da_rows d) offset last_row;
     Some (d\<lparr>da_offset := offset, da_discovery := (da_discovery d)
       \<lparr>tb_Title := '' Discovered Links '' @ dot @ '' '' @ filter_String (da_filter d) @ '' '' @ dot @ '' '' @
            decimal (length (da_rows d)) @ '' rows '',
        tb_Rows := (if wide then wide_header else narrow_header) #
          map (\<lambda>(k, row). row_cells lib wide now (clock (k + 1)) row) (enumerate 0 shown_rows),
        tb_ColumnWidths := widths\<rparr>\<rparr>)
   }"

definition help_line :: "dashboardConfig \<Rightarrow> string" where
  "help_line c =
     ''[a/0](fg:cyan) all  [1](fg:cyan) LLDP  [2](fg:cyan) CDP  [3](fg:cyan) MNDP  [4](fg:cyan) mDNS  [p](fg:cyan) physical  '' @
     ''[s](fg:cyan) segment  [j/k](fg:cyan) scroll  [q](fg:red) quit   '' @ bullet @ ''   '' @ dc_interfaces c @ ''   '' @ bullet @
     ''   '' @ dc_protocols c"

text \<open>What the engine, the toolkit and the clock show when a refresh asks them.\<close>

record screen =
  sc_engine :: Engine
  sc_width :: int
  sc_height :: int
  sc_clock :: "nat \<Rightarrow> Time"

definition refresh :: "library \<Rightarrow> screen \<Rightarrow> dashboard \<Rightarrow> dashboard run" where
  "refresh lib sc d = do {
     sn \<leftarrow> take_snapshot (sc_engine sc) (Some (da_snapshot d));
     let d = (case sn of None \<Rightarrow> d | Some sn \<Rightarrow> d\<lparr>da_snapshot := sn\<rparr>);
     stats \<leftarrow> Stats (sc_engine sc);
     let d = d\<lparr>da_width := sc_width sc, da_height := sc_height sc\<rparr>;
     if da_width d < 40 \<or> da_height d < 14 then
       Some (d\<lparr>da_help := \<lparr>pa_Text = ''Terminal too small. Resize to at least 40x14, or press q to quit.'',
         pa_Rect = (0, 0, max 1 (da_width d), max 1 (da_height d))\<rparr>\<rparr>)
     else do {
       d \<leftarrow> rebuildRows lib d;
       d \<leftarrow> updateProtocolTable lib stats (layout d);
       d \<leftarrow> updateDiscoveryTable lib (sc_clock sc) d;
       Some (d\<lparr>da_help := (da_help d)\<lparr>pa_Text := help_line (da_config d)\<rparr>\<rparr>)
     }
   }"

section \<open>Events\<close>

definition press :: "string \<Rightarrow> dashboard \<Rightarrow> dashboard" where
  "press key d =
     (if key \<in> {''a'', ''0''} then setFilter filterAll d
      else if key = ''1'' then setFilter filterLLDP d
      else if key = ''2'' then setFilter filterCDP d
      else if key = ''3'' then setFilter filterMNDP d
      else if key = ''4'' then setFilter filterMDNS d
      else if key = ''p'' then setFilter filterPhysical d
      else if key = ''s'' then setFilter filterSegment d
      else if key \<in> {''<Up>'', ''k''} then if da_offset d > 0 then d\<lparr>da_offset := da_offset d - 1\<rparr> else d
      else if key \<in> {''<Down>'', ''j''} then d\<lparr>da_offset := da_offset d + 1\<rparr>
      else if key = ''<PageUp>'' then
        let offset = da_offset d - max 1 (visibleRows d) in d\<lparr>da_offset := (if offset < 0 then 0 else offset)\<rparr>
      else if key = ''<PageDown>'' then d\<lparr>da_offset := da_offset d + max 1 (visibleRows d)\<rparr>
      else if key \<in> {''g'', ''<Home>''} then d\<lparr>da_offset := 0\<rparr>
      else if key \<in> {''G'', ''<End>''} then d\<lparr>da_offset := int (length (da_rows d))\<rparr>
      else d)"

definition handleEvent :: "library \<Rightarrow> string \<Rightarrow> screen \<Rightarrow> dashboard \<Rightarrow> (bool \<times> dashboard) run" where
  "handleEvent lib key sc d =
     (if key \<in> {''q'', ''<C-c>''} then Some (True, d)
      else do { d \<leftarrow> refresh lib sc (press key d); Some (False, d) })"

definition normalizedRunError :: "run_error option \<Rightarrow> run_error option" where
  "normalizedRunError err = (case err of Some Canceled \<Rightarrow> None | Some DeadlineExceeded \<Rightarrow> None | _ \<Rightarrow> err)"

text \<open>
  What the loop of \<open>runDashboard\<close> selects. The last field of an event that ends the loop is what the run of
  the engine returns after it has been cancelled.
\<close>

datatype tui_event = RunEnded "run_error option" | ParentDone "run_error option" | Ticked screen | Key string screen "run_error option"

text \<open>The result is the dashboard while the loop goes on, or the result of \<open>runDashboard\<close>.\<close>

fun dashboard_loop :: "library \<Rightarrow> tui_event list \<Rightarrow> dashboard \<Rightarrow> (dashboard + run_error option) run" where
  "dashboard_loop lib [] d = Some (Inl d)"
| "dashboard_loop lib (e # es) d =
     (case e of
        RunEnded err \<Rightarrow> Some (Inr (normalizedRunError err))
      | ParentDone err \<Rightarrow> Some (Inr (normalizedRunError err))
      | Ticked sc \<Rightarrow> do { d \<leftarrow> refresh lib sc d; dashboard_loop lib es d }
      | Key key sc err \<Rightarrow> do {
          (quit, d) \<leftarrow> handleEvent lib key sc d;
          if quit then Some (Inr (normalizedRunError err)) else dashboard_loop lib es d
        })"

definition runDashboard :: "library \<Rightarrow> dashboardConfig \<Rightarrow> screen \<Rightarrow> tui_event list \<Rightarrow> (dashboard + run_error option) run" where
  "runDashboard lib config first events = do {
     d \<leftarrow> refresh lib first (newDashboard config);
     dashboard_loop lib events d
   }"

end
