(* ===== verification/DashboardShows.thy ===== *)
theory DashboardShows
  imports Dashboard
begin

text \<open>
  What the dashboard of the theory \<open>Dashboard\<close> shows: its columns fit, its rows are the links of the engine
  that pass the filter, its window stays inside the rows, and no sequence of keys and refreshes panics.
\<close>

section \<open>Widths\<close>

lemma fit_loop_runs:
  assumes "0 < wanted" "0 \<le> available" "\<forall>w \<in> set ws. 0 \<le> w"
  shows "fit_loop available wanted ws = Some (map (\<lambda>w. max 5 (w * available div wanted)) ws)"
  using assms
  by (induction ws) (auto simp: wp signed_divide_int_def sgn_if zero_le_mult_iff)

lemma sum_list_div: "0 < (n :: int) \<Longrightarrow> \<forall>x \<in> set xs. 0 \<le> x \<Longrightarrow> sum_list (map (\<lambda>x. x div n) xs) \<le> sum_list xs div n"
proof (induction xs)
  case (Cons x xs)
  have "0 \<le> (x mod n + sum_list xs mod n) div n" using Cons.prems(1) by (simp add: pos_imp_zdiv_nonneg_iff)
  then have "x div n + sum_list xs div n \<le> (x + sum_list xs) div n" unfolding div_add1_eq [of x "sum_list xs" n] by simp
  then show ?case using Cons by simp
qed simp


lemma fitWidths_runs:
  assumes "0 \<le> available" "ws \<noteq> []" "\<forall>w \<in> set ws. 5 \<le> w"
  shows "\<exists>vs. fitWidths available ws = Some vs \<and> length vs = length ws \<and> (\<forall>v \<in> set vs. 5 \<le> v) \<and>
    ((\<forall>w \<in> set ws. 5 * sum_list ws \<le> w * available) \<longrightarrow> sum_list vs \<le> available)"
proof (cases "available \<ge> sum_list ws")
  case True
  obtain us u where ws: "ws = us @ [u]" using assms(2) by (cases ws rule: rev_cases) auto
  then have "fitWidths available ws = Some (us @ [u + (available - sum_list ws)])" using True by (simp add: fitWidths_def)
  then show ?thesis using assms(3) True ws by auto
next
  case False
  have pos: "0 < sum_list ws" using False assms(1) by simp
  let ?vs = "map (\<lambda>w. max 5 (w * available div sum_list ws)) ws"
  have "fitWidths available ws = Some ?vs"
    using False fit_loop_runs [OF pos assms(1), of ws] assms(3) by (fastforce simp: fitWidths_def Let_def)
  moreover have "sum_list ?vs \<le> available" if big: "\<forall>w \<in> set ws. 5 * sum_list ws \<le> w * available"
  proof -
    have "5 \<le> w * available div sum_list ws" if "w \<in> set ws" for w
      using zdiv_mono1 [of "5 * sum_list ws" "w * available" "sum_list ws"] big that pos by simp
    then have "?vs = map (\<lambda>x. x div sum_list ws) (map (\<lambda>w. w * available) ws)" by simp
    moreover have "\<forall>x \<in> set (map (\<lambda>w. w * available) ws). 0 \<le> x" using assms(1,3) by (auto intro!: mult_nonneg_nonneg)
    ultimately have "sum_list ?vs \<le> sum_list (map (\<lambda>w. w * available) ws) div sum_list ws"
      using sum_list_div [OF pos] by (simp only:)
    also have "\<dots> = available" using pos by (simp add: sum_list_mult_const)
    finally show ?thesis .
  qed
  ultimately show ?thesis by auto
qed

text \<open>
  The columns of both tables fit into the terminal from a width of 84 on, and none is narrower than 5.
  But at the width of 40 that the program calls enough, the nine columns of the links take 45 of the 38
  characters, so the last ones are cut off.
\<close>

lemma columns_fit:
  assumes "40 \<le> w"
  shows "(\<exists>vs. fitWidths (w - 2) (if w \<ge> 160 then wide_widths else narrow_widths) = Some vs \<and> (\<forall>v \<in> set vs. 5 \<le> v) \<and>
      (84 \<le> w \<longrightarrow> sum_list vs \<le> w - 2) \<and> (w = 40 \<longrightarrow> sum_list vs = 45)) \<and>
    (\<exists>vs. fitWidths (w - 2) [11, 9, 9, 11, 11, 11, 12, 10, 12] = Some vs \<and> (\<forall>v \<in> set vs. 5 \<le> v) \<and>
      (56 \<le> w \<longrightarrow> sum_list vs \<le> w - 2))"
proof
  show "\<exists>vs. fitWidths (w - 2) (if w \<ge> 160 then wide_widths else narrow_widths) = Some vs \<and> (\<forall>v \<in> set vs. 5 \<le> v) \<and>
      (84 \<le> w \<longrightarrow> sum_list vs \<le> w - 2) \<and> (w = 40 \<longrightarrow> sum_list vs = 45)"
  proof (cases "w = 40")
    case True
    have "fitWidths 38 narrow_widths = Some (replicate 9 5)" by code_simp
    then show ?thesis using True by (simp add: sum_list_replicate)
  qed (use fitWidths_runs [of "w - 2" wide_widths] fitWidths_runs [of "w - 2" narrow_widths] assms
      in \<open>auto simp: wide_widths_def narrow_widths_def\<close>)
  show "\<exists>vs. fitWidths (w - 2) [11, 9, 9, 11, 11, 11, 12, 10, 12] = Some vs \<and> (\<forall>v \<in> set vs. 5 \<le> v) \<and>
      (56 \<le> w \<longrightarrow> sum_list vs \<le> w - 2)"
    using fitWidths_runs [of "w - 2" "[11, 9, 9, 11, 11, 11, 12, 10, 12]"] assms by auto
qed

section \<open>The rows\<close>

lemma index_devices_cases:
  "index_devices ds m k = Some d \<Longrightarrow> m k = Some d \<or> d \<in> set ds \<and> dev_Key d = k"
  "m k \<noteq> None \<or> k \<in> dev_Key ` set ds \<Longrightarrow> index_devices ds m k \<noteq> None"
  by (induction ds arbitrary: m) (fastforce split: if_splits)+

lemma make_row_runs:
  assumes "vendor_total (lib_vendor lib)"
  shows "runs (make_row lib device link) (\<lambda>r. row_device r = device \<and> row_link r = link)"
  unfolding make_row_def Let_def
  by (auto simp: wp intro!: runs_mono [OF bestDeviceMAC_runs] runs_mono [OF vendorSummary_runs [OF assms]] runs_mono [OF field_text_runs])

definition row_ok :: "library \<Rightarrow> (DeviceKey \<rightharpoonup> DiscoveredDevice) \<Rightarrow> dashboardRow \<Rightarrow> bool" where
  "row_ok lib devices r =
     (devices (link_Device (row_link r)) = Some (row_device r) \<and> make_row lib (row_device r) (row_link r) = Some r)"

lemma row_loop_runs:
  assumes "vendor_total (lib_vendor lib)"
  shows "runs (row_loop lib devices f links) (\<lambda>rows.
    map row_link rows = filter (\<lambda>l. devices (link_Device l) \<noteq> None \<and> matches f l) links \<and> list_all (row_ok lib devices) rows)"
proof (induction links)
  case (Cons link links)
  obtain rows where rows: "row_loop lib devices f links = Some rows"
    "map row_link rows = filter (\<lambda>l. devices (link_Device l) \<noteq> None \<and> matches f l) links" "list_all (row_ok lib devices) rows"
    using runs_exD [OF Cons.IH] by blast
  show ?case
  proof (cases "devices (link_Device link)")
    case (Some device)
    obtain r where r: "make_row lib device link = Some r" "row_device r = device" "row_link r = link"
      using runs_exD [OF make_row_runs [OF assms]] by blast
    then have "row_ok lib devices r" using Some by (simp add: row_ok_def)
    then show ?thesis using r rows Some by (simp add: wp)
  qed (use rows in \<open>simp add: wp\<close>)
qed (simp add: wp)

section \<open>The tables\<close>

lemma Stats_runs:
  assumes "counters_ok (en_counters e)"
  shows "runs (Stats e) (\<lambda>st. length (Routed st) = 5 \<and> length (Dropped st) = 5 \<and> length (Malformed st) = 5 \<and>
    length (Ignored_count st) = 5 \<and> length (Partial st) = 5)"
  using assms by (simp add: Stats_def Let_def protocol_range_numbers counters_ok_def wp)

lemma count_protocols_runs:
  "\<forall>p \<in> set ps. p < 5 \<Longrightarrow> length counts = 5 \<Longrightarrow> runs (count_protocols ps s counts) (\<lambda>counts. length counts = 5)"
  by (induction ps arbitrary: counts) (auto simp: wp)

lemma count_all_runs: "length counts = 5 \<Longrightarrow> runs (count_all ss counts) (\<lambda>counts. length counts = 5)"
  by (induction ss arbitrary: counts) (auto simp: wp protocol_range_numbers intro!: runs_mono [OF count_protocols_runs])

lemma protocol_rows_runs:
  assumes "length (Routed st) = 5 \<and> length (Dropped st) = 5 \<and> length (Malformed st) = 5 \<and> length (Ignored_count st) = 5 \<and> length (Partial st) = 5"
    "length ds = 5" "length ls = 5"
  shows "runs (protocol_rows lib st ds ls protocol_range) (\<lambda>rows. length rows = 4)"
  using assms by (simp add: protocol_range_numbers wp)

lemma updateProtocolTable_runs:
  assumes "length (Routed st) = 5 \<and> length (Dropped st) = 5 \<and> length (Malformed st) = 5 \<and> length (Ignored_count st) = 5 \<and> length (Partial st) = 5"
    "40 \<le> da_width d"
  shows "runs (updateProtocolTable lib st d) (\<lambda>d'. d' = d\<lparr>da_protocolTable := da_protocolTable d'\<rparr> \<and>
    length (tb_Rows (da_protocolTable d')) = 5 \<and> tb_Rect (da_protocolTable d') = tb_Rect (da_protocolTable d))"
proof -
  obtain vs where "fitWidths (da_width d - 2) [11, 9, 9, 11, 11, 11, 12, 10, 12] = Some vs"
    using fitWidths_runs [of "da_width d - 2" "[11, 9, 9, 11, 11, 11, 12, 10, 12]"] assms(2) by auto
  then show ?thesis
    unfolding updateProtocolTable_def
    by (auto simp: wp intro!: runs_mono [OF count_all_runs] runs_mono [OF protocol_rows_runs [OF assms(1)]])
qed

text \<open>The window on the rows: the offset is moved back so that the last rows fill it.\<close>

definition clamped :: "int \<Rightarrow> dashboard \<Rightarrow> int" where
  "clamped n d = min (da_offset d) (max 0 (n - visibleRows d))"

definition table_rows :: "library \<Rightarrow> (nat \<Rightarrow> Time) \<Rightarrow> int \<Rightarrow> dashboardRow list \<Rightarrow> string list list" where
  "table_rows lib clock w rows =
     (if w \<ge> 160 then wide_header else narrow_header) #
     map (\<lambda>(k, row). row_cells lib (w \<ge> 160) (clock 0) (clock (k + 1)) row) (enumerate 0 rows)"

lemma updateDiscoveryTable_runs:
  assumes "40 \<le> da_width d" "0 \<le> da_offset d"
  shows "runs (updateDiscoveryTable lib clock d) (\<lambda>d'. d' = d\<lparr>da_offset := clamped (int (length (da_rows d))) d, da_discovery := da_discovery d'\<rparr> \<and>
    tb_Rect (da_discovery d') = tb_Rect (da_discovery d) \<and> tb_Rows (da_discovery d') = table_rows lib clock (da_width d)
      (take (nat (visibleRows d)) (drop (nat (clamped (int (length (da_rows d))) d)) (da_rows d))))"
proof -
  define n where "n = length (da_rows d)"
  define v where "v = visibleRows d"
  define i where "i = clamped (int n) d"
  have v: "0 < v" by (simp add: v_def visibleRows_def)
  have i: "i = (if da_offset d > max 0 (int n - v) then max 0 (int n - v) else da_offset d)" "0 \<le> i" "i \<le> int n"
    using assms(2) v by (auto simp: i_def clamped_def v_def [symmetric])
  have w: "window (da_rows d) i (min (int n) (i + v)) = Some (take (nat v) (drop (nat i) (da_rows d)))"
  proof -
    have "nat (min (int n) (i + v)) - nat i = min (n - nat i) (nat v)" using i(2,3) v by linarith
    moreover have "take (min (n - nat i) (nat v)) (drop (nat i) (da_rows d)) = take (nat v) (drop (nat i) (da_rows d))"
      by (simp add: n_def min_def)
    moreover have "\<not> min (int n) (i + v) < 0" "nat i \<le> nat (min (int n) (i + v))" "nat (min (int n) (i + v)) \<le> n" using i(2,3) v by linarith+
    ultimately show ?thesis using i(2) by (simp add: window_def gslice_def n_def)
  qed
  have "wide_widths \<noteq> [] \<and> (\<forall>w \<in> set wide_widths. 5 \<le> w)" "narrow_widths \<noteq> [] \<and> (\<forall>w \<in> set narrow_widths. 5 \<le> w)"
    by (simp_all add: wide_widths_def narrow_widths_def)
  then have "let ws = (if da_width d \<ge> 160 then wide_widths else narrow_widths) in ws \<noteq> [] \<and> (\<forall>w \<in> set ws. 5 \<le> w)" by simp
  then obtain vs where vs: "fitWidths (da_width d - 2) (if da_width d \<ge> 160 then wide_widths else narrow_widths) = Some vs"
    using fitWidths_runs [of "da_width d - 2"] assms(1) unfolding Let_def by fastforce
  show ?thesis
    unfolding updateDiscoveryTable_def Let_def n_def [symmetric] v_def [symmetric] i(1) [symmetric] i_def [symmetric] vs w
    by (simp add: wp table_rows_def)
qed

section \<open>What the dashboard shows\<close>

text \<open>
  The specification of a drawn dashboard: the rows are the links of the engine that pass the filter, each
  once and with its device, in a stable order; the table shows a window of them, and both tables fit between
  the borders of their rectangles.
\<close>

definition fits :: "table \<Rightarrow> bool" where
  "fits t = (case tb_Rect t of (x1, y1, x2, y2) \<Rightarrow> int (length (tb_Rows t)) \<le> y2 - y1 - 2)"

definition shows_links :: "library \<Rightarrow> fusionState \<Rightarrow> dashboard \<Rightarrow> bool" where
  "shows_links lib st d =
     (sorted (map row_key (da_rows d)) \<and>
      (\<exists>rows. map row_link rows = filter (matches (da_filter d)) (map le_link (filter le_used (fs_links st))) \<and>
         mset (da_rows d) = mset rows \<and> (\<forall>k. filter (\<lambda>r. row_key r = k) (da_rows d) = filter (\<lambda>r. row_key r = k) rows)) \<and>
      (\<forall>r \<in> set (da_rows d). make_row lib (row_device r) (row_link r) = Some r \<and>
         (\<exists>x \<in> set (fs_devices st). de_used x \<and> dev_Key (de_device x) = link_Device (row_link r) \<and>
            shown (row_device r) = shown (de_device x))))"

definition draws_window :: "library \<Rightarrow> screen \<Rightarrow> dashboard \<Rightarrow> bool" where
  "draws_window lib sc d =
     (0 \<le> da_offset d \<and> da_offset d \<le> max 0 (int (length (da_rows d)) - (sc_height sc - 13)) \<and>
      tb_Rows (da_discovery d) = table_rows lib (sc_clock sc) (sc_width sc)
        (take (nat (sc_height sc - 13)) (drop (nat (da_offset d)) (da_rows d))) \<and>
      fits (da_discovery d) \<and> fits (da_protocolTable d))"

lemma shown_device:
  assumes "map shown ds = map (\<lambda>d. shown (de_device d)) es" "d \<in> set ds"
  shows "\<exists>x \<in> set es. shown d = shown (de_device x) \<and> dev_Key d = dev_Key (de_device x)"
proof -
  have "shown d \<in> (\<lambda>d. shown (de_device d)) ` set es" using assms by (metis image_eqI list.set_map)
  then obtain x where "x \<in> set es" "shown d = shown (de_device x)" by auto
  moreover from this(2) have "dev_Key d = dev_Key (de_device x)" using dev_Key_shown by metis
  ultimately show ?thesis by blast
qed

lemma rebuildRows_runs:
  assumes "vendor_total (lib_vendor lib)"
    "map shown (live (snap_Devices (da_snapshot d))) = map (\<lambda>d. shown (de_device d)) (filter de_used (fs_devices st))"
    "live (snap_Links (da_snapshot d)) = map le_link (filter le_used (fs_links st))"
    "link_Device ` set (live (snap_Links (da_snapshot d))) \<subseteq> dev_Key ` set (live (snap_Devices (da_snapshot d)))"
  shows "runs (rebuildRows lib d) (\<lambda>d'. d' = d\<lparr>da_devices := da_devices d', da_rows := da_rows d'\<rparr> \<and> shows_links lib st d')"
proof -
  let ?ds = "live (snap_Devices (da_snapshot d))" and ?ls = "live (snap_Links (da_snapshot d))"
  define m where "m = index_devices ?ds Map.empty"
  obtain rows where rows: "row_loop lib m (da_filter d) ?ls = Some rows"
    "map row_link rows = filter (\<lambda>l. m (link_Device l) \<noteq> None \<and> matches (da_filter d) l) ?ls" "list_all (row_ok lib m) rows"
    using runs_exD [OF row_loop_runs [OF assms(1)]] by blast
  have "m (link_Device l) \<noteq> None" if "l \<in> set ?ls" for l
    using index_devices_cases(2) [of Map.empty "link_Device l" ?ds] assms(4) that unfolding m_def by blast
  then have "map row_link rows = filter (matches (da_filter d)) ?ls" unfolding rows(2) by (intro filter_cong) auto
  then have "\<exists>us. map row_link us = filter (matches (da_filter d)) ?ls \<and> mset (sort_key row_key rows) = mset us \<and>
      (\<forall>k. filter (\<lambda>r. row_key r = k) (sort_key row_key rows) = filter (\<lambda>r. row_key r = k) us)"
    by (intro exI [of _ rows]) (simp add: sort_key_stable)
  moreover have "make_row lib (row_device r) (row_link r) = Some r \<and>
      (\<exists>x \<in> set (fs_devices st). de_used x \<and> dev_Key (de_device x) = link_Device (row_link r) \<and> shown (row_device r) = shown (de_device x))"
    if "r \<in> set rows" for r
  proof -
    have ok: "m (link_Device (row_link r)) = Some (row_device r)" "make_row lib (row_device r) (row_link r) = Some r"
      using rows(3) that by (simp_all add: list_all_iff row_ok_def)
    then have "row_device r \<in> set ?ds \<and> dev_Key (row_device r) = link_Device (row_link r)"
      using index_devices_cases(1) [of ?ds Map.empty] unfolding m_def by fastforce
    then show ?thesis using shown_device [OF assms(2)] ok(2) by fastforce
  qed
  ultimately show ?thesis
    using rows(1) by (simp add: rebuildRows_def m_def [symmetric] wp Let_def shows_links_def assms(3))
qed

lemma refresh_runs:
  assumes "engine_ok (sc_engine sc)" "vendor_total (lib_vendor lib)" "0 \<le> da_offset d"
  shows "runs (refresh lib sc d) (\<lambda>d'. 0 \<le> da_offset d' \<and> da_filter d' = da_filter d \<and>
    (40 \<le> sc_width sc \<and> 14 \<le> sc_height sc \<longrightarrow> shows_links lib (en_state (sc_engine sc)) d' \<and> draws_window lib sc d'))"
proof -
  let ?e = "sc_engine sc"
  obtain sn where sn: "take_snapshot ?e (Some (da_snapshot d)) = Some (Some sn)"
    "map shown (live (snap_Devices sn)) = map (\<lambda>d. shown (de_device d)) (filter de_used (fs_devices (en_state ?e)))"
    "live (snap_Links sn) = map le_link (filter le_used (fs_links (en_state ?e)))"
    "link_Device ` set (live (snap_Links sn)) \<subseteq> dev_Key ` set (live (snap_Devices sn))"
    using snapshot_run [OF assms(1), of "da_snapshot d"] by blast
  obtain st where st: "Stats ?e = Some st"
    "length (Routed st) = 5 \<and> length (Dropped st) = 5 \<and> length (Malformed st) = 5 \<and> length (Ignored_count st) = 5 \<and> length (Partial st) = 5"
    using runs_exD [OF Stats_runs] assms(1) unfolding engine_ok_def by blast
  define d0 where "d0 = d\<lparr>da_snapshot := sn, da_width := sc_width sc, da_height := sc_height sc\<rparr>"
  show ?thesis
  proof (cases "sc_width sc < 40 \<or> sc_height sc < 14")
    case True
    then show ?thesis using assms(3) by (auto simp: refresh_def sn(1) st(1) wp Let_def)
  next
    case False
    obtain d1 where d1: "rebuildRows lib d0 = Some d1" "d1 = d0\<lparr>da_devices := da_devices d1, da_rows := da_rows d1\<rparr>"
      "shows_links lib (en_state ?e) d1"
      using runs_exD [OF rebuildRows_runs [OF assms(2), of d0 "en_state ?e"]] sn(2-4) by (auto simp: d0_def)
    have w: "40 \<le> da_width (layout d1)" "da_width (layout d1) = sc_width sc" "0 \<le> da_offset (layout d1)"
      "da_height (layout d1) = sc_height sc" "da_filter (layout d1) = da_filter d" "da_rows (layout d1) = da_rows d1"
      using False assms(3) by (subst d1(2), simp add: layout_def d0_def Let_def)+
    obtain d2 where d2: "updateProtocolTable lib st (layout d1) = Some d2"
      "d2 = (layout d1)\<lparr>da_protocolTable := da_protocolTable d2\<rparr>" "length (tb_Rows (da_protocolTable d2)) = 5"
      "tb_Rect (da_protocolTable d2) = tb_Rect (da_protocolTable (layout d1))"
      using runs_exD [OF updateProtocolTable_runs [OF st(2) w(1)]] by blast
    have w2: "40 \<le> da_width d2" "0 \<le> da_offset d2" using w by (subst d2(2), simp)+
    obtain d3 where d3: "updateDiscoveryTable lib (sc_clock sc) d2 = Some d3"
      "d3 = d2\<lparr>da_offset := clamped (int (length (da_rows d2))) d2, da_discovery := da_discovery d3\<rparr>"
      "tb_Rect (da_discovery d3) = tb_Rect (da_discovery d2)"
      "tb_Rows (da_discovery d3) = table_rows lib (sc_clock sc) (da_width d2)
        (take (nat (visibleRows d2)) (drop (nat (clamped (int (length (da_rows d2))) d2)) (da_rows d2)))"
      using runs_exD [OF updateDiscoveryTable_runs [OF w2]] by blast
    have f2: "da_filter d2 = da_filter d" "da_height d2 = sc_height sc" "da_width d2 = sc_width sc" "da_rows d2 = da_rows d1"
      "tb_Rect (da_discovery d2) = (0, 8, sc_width sc, sc_height sc - 2)" "tb_Rect (da_protocolTable d2) = (0, 0, sc_width sc, 8)"
      using w d2(4) by (subst d2(2), simp add: layout_def Let_def)+
    have v: "visibleRows d2 = sc_height sc - 13" using False by (simp add: visibleRows_def f2)
    have i: "0 \<le> clamped (int (length (da_rows d2))) d2" "clamped (int (length (da_rows d2))) d2 \<le> max 0 (int (length (da_rows d2)) - (sc_height sc - 13))"
      using w2(2) by (simp_all add: clamped_def v)
    define d4 where "d4 = d3\<lparr>da_help := (da_help d3)\<lparr>pa_Text := help_line (da_config d3)\<rparr>\<rparr>"
    have f3: "da_rows d3 = da_rows d2" "da_filter d3 = da_filter d2" "da_offset d3 = clamped (int (length (da_rows d2))) d2"
      "da_protocolTable d3 = da_protocolTable d2"
      by (subst d3(2), simp)+
    have f4: "da_rows d4 = da_rows d1" "da_filter d4 = da_filter d" "da_offset d4 = clamped (int (length (da_rows d2))) d2"
      "da_discovery d4 = da_discovery d3" "da_protocolTable d4 = da_protocolTable d2"
      by (simp_all add: d4_def f3 f2)
    have "da_filter d1 = da_filter d" using w(5) by (simp add: layout_def Let_def)
    then have "shows_links lib (en_state ?e) d4" using d1(3) f4(1,2) by (simp add: shows_links_def)
    moreover have "draws_window lib sc d4"
      unfolding draws_window_def fits_def f4 d3(3,4) f2 v
      using i False d2(3) by (simp add: f2 table_rows_def) linarith
    moreover have "refresh lib sc d = Some d4"
      using False by (simp add: refresh_def sn(1) st(1) Let_def d0_def [symmetric] d1(1) d2(1) d3(1) d4_def)
    ultimately show ?thesis using i(1) f4(2,3) by (simp add: wp)
  qed
qed

text \<open>
  (C18) The dashboard shows what the engine knows: refreshed in any state of a run, on a terminal of at least
  40 by 14, its rows are the used links that pass the filter, each once, with the device that the link names
  and the texts of that device, the newest first and in a stable order; and the table shows as many of them
  as fit, from an offset that is moved back when it is too far, inside the borders.
\<close>

theorem dashboard_shows:
  assumes "New goos re_compile config = Some (Inr e)" "vendor_total vd" "running vd e handler s" "sc_engine sc = sy_engine s"
    "vendor_total (lib_vendor lib)" "40 \<le> sc_width sc" "14 \<le> sc_height sc" "0 \<le> da_offset d"
  shows "\<exists>d'. refresh lib sc d = Some d' \<and> da_filter d' = da_filter d \<and>
    shows_links lib (en_state (sy_engine s)) d' \<and> draws_window lib sc d'"
proof -
  have "engine_ok (sc_engine sc)" using running_engine_ok [OF assms(1-3)] assms(4) by simp
  from runs_exD [OF refresh_runs [OF this assms(5,8)]] show ?thesis using assms(4,6,7) by auto
qed

definition plain_library :: library where
  "plain_library = \<lparr>lib_addr = (\<lambda>_. []), lib_time = (\<lambda>_. []), lib_fixed1 = (\<lambda>_ _. []), lib_hours = (\<lambda>d. d div (3600 * Second)),
     lib_lower = id, lib_fold_eq = (=), lib_vendor = no_registry\<rparr>"

lemma dashboard_shows_witness:
  "\<exists>sc d'. refresh plain_library sc (newDashboard \<lparr>dc_interfaces = ''eth0'', dc_protocols = ''lldp''\<rparr>) = Some d' \<and>
     sc_width sc = 80 \<and> draws_window plain_library sc d'"
proof -
  obtain e s where e: "New ''linux'' (\<lambda>_. None) zero_config = Some (Inr e)" "running no_registry e True s" "sy_phase s = Cancelled"
    by (rule cancelled_run)
  have l: "vendor_total (lib_vendor plain_library)" by (simp add: plain_library_def no_registry_total)
  define sc where "sc = \<lparr>sc_engine = sy_engine s, sc_width = 80, sc_height = 24, sc_clock = (\<lambda>_. 0)\<rparr>"
  have "0 \<le> da_offset (newDashboard c)" for c by (simp add: newDashboard_def)
  from dashboard_shows [OF e(1) no_registry_total e(2) _ l _ _ this, of sc]
  obtain d' where "refresh plain_library sc (newDashboard \<lparr>dc_interfaces = ''eth0'', dc_protocols = ''lldp''\<rparr>) = Some d'"
    "draws_window plain_library sc d'"
    unfolding sc_def by fastforce
  moreover have "sc_width sc = 80" by (simp add: sc_def)
  ultimately show ?thesis by blast
qed

section \<open>No key makes the dashboard panic\<close>

fun event_screens :: "tui_event \<Rightarrow> screen list" where
  "event_screens (Ticked sc) = [sc]"
| "event_screens (Key key sc err) = [sc]"
| "event_screens _ = []"

lemma offset_if: "(b \<Longrightarrow> 0 \<le> da_offset x) \<Longrightarrow> (\<not> b \<Longrightarrow> 0 \<le> da_offset y) \<Longrightarrow> 0 \<le> da_offset (if b then x else y)"
  by simp

lemma press_offset: "0 \<le> da_offset d \<Longrightarrow> 0 \<le> da_offset (press key d)"
  unfolding press_def Let_def by (intro offset_if) (simp_all add: setFilter_def visibleRows_def, linarith)

lemma dashboard_loop_runs:
  assumes "vendor_total (lib_vendor lib)" "\<forall>e \<in> set es. \<forall>sc \<in> set (event_screens e). engine_ok (sc_engine sc)" "0 \<le> da_offset d"
  shows "runs (dashboard_loop lib es d) (\<lambda>r. case r of Inl d' \<Rightarrow> 0 \<le> da_offset d' | Inr err \<Rightarrow> err \<noteq> Some Canceled \<and> err \<noteq> Some DeadlineExceeded)"
  using assms(2,3)
proof (induction es arbitrary: d)
  case (Cons e es)
  have n: "normalizedRunError err \<noteq> Some Canceled \<and> normalizedRunError err \<noteq> Some DeadlineExceeded" for err
    by (auto simp: normalizedRunError_def split: option.splits run_error.splits)
  have es: "\<forall>e \<in> set es. \<forall>sc \<in> set (event_screens e). engine_ok (sc_engine sc)" using Cons.prems(1) by simp
  have step: "runs (refresh lib sc d) (\<lambda>d'. 0 \<le> da_offset d')" if "engine_ok (sc_engine sc)" "0 \<le> da_offset d" for sc d
    by (rule runs_mono [OF refresh_runs [OF that(1) assms(1) that(2)]]) simp
  show ?case
  proof (cases e)
    case (Ticked sc)
    then have "engine_ok (sc_engine sc)" using Cons.prems(1) by simp
    from runs_exD [OF step [OF this Cons.prems(2)]] show ?thesis using Cons.IH [OF es] by (auto simp: Ticked)
  next
    case (Key key sc err)
    then have "engine_ok (sc_engine sc)" using Cons.prems(1) by simp
    from runs_exD [OF step [OF this press_offset [OF Cons.prems(2), of key]]]
    show ?thesis using Cons.IH [OF es] n by (auto simp: Key handleEvent_def wp)
  qed (use n in \<open>simp_all add: wp\<close>)
qed (simp add: wp)

text \<open>
  (C19) Whatever keys are pressed, however the terminal is resized and however the devices come and go, the
  dashboard does not panic, and it reports no cancellation as an error.
\<close>

theorem dashboard_never_panics:
  assumes "New goos re_compile config = Some (Inr e)" "vendor_total vd" "vendor_total (lib_vendor lib)"
    "\<forall>sc \<in> set (first # concat (map event_screens events)). \<exists>s. running vd e handler s \<and> sc_engine sc = sy_engine s"
  shows "\<exists>r. runDashboard lib c first events = Some r \<and> r \<notin> {Inr (Some Canceled), Inr (Some DeadlineExceeded)}"
proof -
  have ok: "engine_ok (sc_engine sc)" if "sc \<in> set (first # concat (map event_screens events))" for sc
    using assms(4) that running_engine_ok [OF assms(1,2)] by metis
  have "0 \<le> da_offset (newDashboard c)" by (simp add: newDashboard_def)
  then obtain d where d: "refresh lib first (newDashboard c) = Some d" "0 \<le> da_offset d"
    using runs_exD [OF refresh_runs [OF ok [of first] assms(3)]] by auto
  have "\<forall>e \<in> set events. \<forall>sc \<in> set (event_screens e). engine_ok (sc_engine sc)" using ok by auto
  from runs_exD [OF dashboard_loop_runs [OF assms(3) this d(2)]] obtain r where "dashboard_loop lib events d = Some r"
    "case r of Inl d' \<Rightarrow> 0 \<le> da_offset d' | Inr err \<Rightarrow> err \<noteq> Some Canceled \<and> err \<noteq> Some DeadlineExceeded"
    by blast
  then show ?thesis by (cases r) (auto simp: runDashboard_def d(1))
qed

lemma dashboard_never_panics_witness:
  "\<exists>sc r. runDashboard plain_library \<lparr>dc_interfaces = [], dc_protocols = []\<rparr> sc [Key ''G'' sc None, Ticked sc, Key ''k'' sc None, RunEnded (Some Canceled)] = Some r \<and>
     r \<noteq> Inr (Some Canceled)"
proof -
  obtain e s where e: "New ''linux'' (\<lambda>_. None) zero_config = Some (Inr e)" "running no_registry e True s" "sy_phase s = Cancelled"
    by (rule cancelled_run)
  have l: "vendor_total (lib_vendor plain_library)" by (simp add: plain_library_def no_registry_total)
  define sc where "sc = \<lparr>sc_engine = sy_engine s, sc_width = 20, sc_height = 24, sc_clock = (\<lambda>_. 0)\<rparr>"
  have "\<forall>x \<in> set (sc # concat (map event_screens [Key ''G'' sc None, Ticked sc, Key ''k'' sc None, RunEnded (Some Canceled)])).
      \<exists>s. running no_registry e True s \<and> sc_engine x = sy_engine s"
    using e(2) by (auto simp: sc_def)
  from dashboard_never_panics [OF e(1) no_registry_total l this] show ?thesis by blast
qed

end
