(* ===== verification/Spec2Isabelle.thy ===== *)
theory Spec2Isabelle
  imports LLDP CDP MNDP MDNS AndroidNSD GenOUI Clone Classifier TextFields Fused Lifecycle StreamQueue FilterRouting CaptureRun DashboardShows
begin

text \<open>
  Omnidiscover, a passive network discovery engine in Go: a verification library over its source.

  \<^bold>\<open>The program.\<close> \<open>pkg/omnidiscover\<close> captures LLDP, CDP, MNDP and mDNS packets on the interfaces of a host. A run
  (\<open>Engine.Run\<close>) opens one capture backend for each interface or socket; each backend hands its frames to
  \<open>routeCapture\<close>, which finds the protocol, copies the packet into a slot of a fixed pool and queues it. One
  decode worker for each protocol decodes the slot into a message that it reuses, and sends an envelope to the
  fusion loop, the only goroutine that owns the devices and links. The loop merges what the protocols say
  about the same device, expires it with timing wheels, classifies devices by rules, and delivers events to a
  handler; \<open>Stream\<close> puts a coalescing queue and a pump behind that handler. \<open>utils/genoui\<close> writes the tables of
  vendors from the IEEE registries. \<open>cmd/omnidiscover\<close> is a command line and a terminal dashboard over all this.

  \<^bold>\<open>The theories,\<close> in the order of the code, each with its source:
  \<^item> \<open>Prelude\<close>: words, checked indexing and slicing, byte order, slices whose capacity is reused (\<open>slab\<close>), and the
    rules \<open>wp\<close> for "runs without a panic and ensures".
  \<^item> \<open>Protocol\<close> (\<open>protocol.go\<close>), \<open>NetAddr\<close> (what is used of \<open>time\<close> and \<open>net/netip\<close>), \<open>Model\<close> (\<open>model.go\<close>), \<open>Utils\<close>
    (\<open>bytes.go\<close> of both packages), \<open>Config\<close> (\<open>config.go\<close>), \<open>Clone\<close> (\<open>clone.go\<close>).
  \<^item> The decoders: \<open>Ethernet\<close> (\<open>ethernet.go\<close>), \<open>LLDP\<close>, \<open>CDP\<close>, \<open>MNDP\<close>, \<open>MDNS\<close> (the files of these names), \<open>AndroidNSD\<close>
    (\<open>android_nsd.go\<close>). \<open>Decoder\<close> holds the interface they share: a locale of decoders into reusable messages.
  \<^item> \<open>Vendor\<close> (\<open>vendor.go\<close>) and \<open>GenOUI\<close> (\<open>utils/genoui/main.go\<close>).
  \<^item> \<open>Classifier\<close> (\<open>classifier.go\<close>).
  \<^item> Fusion (\<open>fusion.go\<close>): \<open>TextFields\<close> the merging of texts, \<open>Fusion\<close> the state and its operations, \<open>Wheel\<close> and \<open>Pool\<close>
    the timing wheel and the pools with free lists as locales, \<open>FusionInv\<close> and \<open>FusionSteps\<close> the invariant and its
    preservation, \<open>Observe\<close> and \<open>ObserveInv\<close> the handlers of the protocols and the tick, \<open>Timers\<close> and \<open>FusionClock\<close> the
    countdowns that the wheels refine, \<open>Reach\<close> and \<open>Fused\<close> the reachable states and the theorems on them.
  \<^item> The engine (\<open>engine.go\<close>): \<open>Engine\<close> construction, routing, channels, statistics and snapshots, \<open>EngineRun\<close> the
    goroutines of a run as steps with their invariant, \<open>Lifecycle\<close> the guards of \<open>Run\<close> and \<open>Close\<close>, shutdown, snapshots.
  \<^item> \<open>StreamQueue\<close> (\<open>stream.go\<close>).
  \<^item> Capture: \<open>PacketFilter\<close> (\<open>discoveryFilter\<close> of \<open>capture_common.go\<close> and the machine of \<open>filter_test.go\<close>),
    \<open>FilterRouting\<close> (the filter against \<open>routeCapture\<close>), \<open>CaptureRing\<close> (the memory that the kernel fills, in
    \<open>capture_linux.go\<close> and \<open>capture_darwin.go\<close>), \<open>CaptureOpen\<close> (interfaces and sockets, on every system), \<open>CaptureRun\<close>
    (the loops of the backends).
  \<^item> The command: \<open>CommandLine\<close> (\<open>cmd/omnidiscover/main.go\<close>), \<open>Dashboard\<close> and \<open>DashboardShows\<close> (\<open>tui.go\<close>).

  \<^bold>\<open>How code becomes definitions.\<close> A struct is a record with the same fields, an enumeration a datatype or a word, a
  fixed-width integer a word; \<open>int\<close> is an integer, written with \<open>wrap64\<close> where a product of durations could wrap.
  A run-time panic, and a send that would block where the code has no select, is \<^const>\<open>None\<close>; errors are values of a
  sum. Pointers into the pools of the fusion state are indices, a nil pointer is \<^const>\<open>None\<close>, a map is a
  partial function. A slice is a list, or a \<open>slab\<close> (contents and spare capacity) where the code reuses the elements
  behind its end, so that leftovers of an older packet are in the model. A goroutine is a sequence of steps between
  channel operations; the calls under the mutex of the queue of a stream are one step, and so is \<open>routeCapture\<close>,
  whose counters are atomic. The clock is an argument of every operation that reads it.

  \<^bold>\<open>What the lemmas show.\<close> Decoders: no panic on any bytes, exact acceptance, independence of what the reused message
  held, and round trips with encoders. Fusion: an invariant of pools, keys, lists and wheels that every operation keeps, so
  that no handler panics, and a refinement of the wheels to countdowns, so that links and records expire on time, or
  are rescheduled to the earliest expiry that is left. Engine: an invariant of every goroutine's place, so that no
  step panics or blocks for ever, slots are conserved, and shutdown ends, whatever ticks and late packets come
  between. Stream: the queue refines a bounded list without duplicates. Capture: the filter program accepts exactly
  the wanted frames, the ring and the reads deliver what the kernel wrote, opening leaks no descriptor, though a
  failed one leaks the rings it has mapped.
  Command: exit codes, parsing, and that the dashboard shows the links of the engine.

  \<^bold>\<open>Bounds and termination.\<close> The decoders recurse on the rest of the packet or by a measure, with the bounds of
  the code on labels, jumps and records; no fuel is used. The loops of the fusion state that change the lists they
  follow are \<open>partial_function (option)\<close>, and are proved to end from every state of the invariant. Channels have the
  sizes of the code. The expiry theorems count ticks: \<open>time.Ticker\<close> may drop ticks of a slow receiver, which delays
  expiry by as much.

  \<^bold>\<open>Parameters.\<close> Code that is not in the repository is an argument: compiled regular expressions, case folding and
  case conversion beyond ASCII, \<open>strings.TrimSpace\<close> in the generator, the answers of the operating system, the byte
  order of the machine and the constants of \<open>golang.org/x/sys/unix\<close>, the formats of addresses and times, what the
  terminal toolkit reports. The tables of \<open>vendor_registry_gen.go\<close> are an argument of the lookup, and \<open>GenOUI\<close> shows
  that the tables the generator writes fulfil what the lookup needs.

  \<^bold>\<open>Not modelled.\<close> \<open>vendor_registry_gen.go\<close> (14219 lines) is generated data without code. File access, hashing and
  printing of Go source in \<open>genoui\<close>, the flag, JSON and Printf libraries, colours and drawing of the dashboard are
  input and output. The context package is a flag that is set once. The memory model of atomic counters and of the
  status words that the kernel and the program share is left out; texts of errors are constructors. The method
  \<open>DecodeStatus.String\<close> only formats, and \<open>addrFromNetIP\<close> is never called.
\<close>

section \<open>Properties that span components\<close>

text \<open>
  (C34) No decoder of the worker loop panics, whatever lengths and counts a packet claims, and a message
  reused for packet after packet shows after each one exactly what a fresh message would: nothing of an
  older packet survives. For mDNS what is shown leaves out the spare records, which are recycled.
\<close>

theorem decoders_reuse:
  "(\<exists>rs. decode_all DecodeCDP bs m = Some rs \<and>
      list_all2 (\<lambda>b (st, v). \<exists>m'. DecodeCDP b (Some zero_cdp) = Some (st, Some m') \<and> v = m') bs rs) \<and>
   (\<exists>rs. decode_all DecodeMNDP bs m' = Some rs \<and>
      list_all2 (\<lambda>b (st, v). \<exists>m'. DecodeMNDP b (Some zero_mndp) = Some (st, Some m') \<and> v = m') bs rs) \<and>
   (\<exists>rs. decode_all DecodeMDNS bs m'' = Some rs \<and>
      list_all2 (\<lambda>b (st, v). \<exists>m'. DecodeMDNS b (Some zero_mdns) = Some (st, Some m') \<and> MDNS_view v = MDNS_view m') bs rs)"
  unfolding zero_mdns_def
  by (intro conjI cdp_decoder.decode_all_fresh mndp_decoder.decode_all_fresh mdns.decode_all_fresh)

end
